(* ===== verification/Fxfs_Prelude.thy ===== *)
theory Fxfs_Prelude
  imports Main "HOL-Library.Word" "HOL-Library.List_Lexorder"
begin

text \<open>
  Shared vocabulary of the development: the error values of \<^verbatim>\<open>src/src/errors.rs\<close>, the
  result type of fallible code, the checked 64-bit arithmetic of Rust, the three-way
  comparison \<^verbatim>\<open>std::cmp::Ordering\<close> and half-open ranges \<^verbatim>\<open>std::ops::Range<u64>\<close>.

  Offsets, sizes and object ids (\<^verbatim>\<open>u64\<close>, \<^verbatim>\<open>usize\<close> on a 64-bit target) are natural numbers.
  Plain Rust arithmetic on them is written with \<open>u64_add\<close>, \<open>u64_sub\<close>, \<open>u64_div\<close>,
  \<open>u64_rem\<close>, which yield \<open>Panic\<close> where Rust (with overflow checks, the development
  profile) panics. Checksums and the format-preserving cipher, which wrap on purpose, use
  machine words.
\<close>

section \<open>Errors and results\<close>

datatype fxfs_error =
    AlreadyExists | Inconsistent | Internal | NotDir | NotFile | NotFound | NotEmpty
  | ReadOnlyFilesystem | NoSpace | Deleted | InvalidArgs | TooBig | InvalidVersion
  | JournalFlushError | NotSupported | AccessDenied | OutOfRange | AlreadyBound

text \<open>
  An error is a \<open>FxfsError\<close>, an error raised with \<open>bail!\<close>, an error of the device, a
  panic, or, for loops that are run with fuel, running out of it.
\<close>

datatype error = Fxfs fxfs_error | Bail | Io | Panic | OutOfFuel

type_synonym 'a res = "error + 'a"

definition matches :: "fxfs_error \<Rightarrow> error \<Rightarrow> bool" where
  "matches self e = (case e of Fxfs root_cause \<Rightarrow> self = root_cause | _ \<Rightarrow> False)"

definition bind_res :: "'a res \<Rightarrow> ('a \<Rightarrow> 'b res) \<Rightarrow> 'b res" where
  "bind_res m f = (case m of Inl e \<Rightarrow> Inl e | Inr x \<Rightarrow> f x)"

definition ensure :: "bool \<Rightarrow> error \<Rightarrow> unit res" where
  "ensure b e = (if b then Inr () else Inl e)"

section \<open>Unsigned 64-bit arithmetic\<close>

definition u64_max :: nat where
  "u64_max = 18446744073709551615"

definition u64_add :: "nat \<Rightarrow> nat \<Rightarrow> nat res" where
  "u64_add a b = (if a + b \<le> u64_max then Inr (a + b) else Inl Panic)"

definition u64_sub :: "nat \<Rightarrow> nat \<Rightarrow> nat res" where
  "u64_sub a b = (if b \<le> a then Inr (a - b) else Inl Panic)"

definition u64_mul :: "nat \<Rightarrow> nat \<Rightarrow> nat res" where
  "u64_mul a b = (if a * b \<le> u64_max then Inr (a * b) else Inl Panic)"

definition u64_div :: "nat \<Rightarrow> nat \<Rightarrow> nat res" where
  "u64_div a b = (if b = 0 then Inl Panic else Inr (a div b))"

definition u64_rem :: "nat \<Rightarrow> nat \<Rightarrow> nat res" where
  "u64_rem a b = (if b = 0 then Inl Panic else Inr (a mod b))"

definition checked_add :: "nat \<Rightarrow> nat \<Rightarrow> nat option" where
  "checked_add a b = (if a + b \<le> u64_max then Some (a + b) else None)"

definition checked_sub :: "nat \<Rightarrow> nat \<Rightarrow> nat option" where
  "checked_sub a b = (if b \<le> a then Some (a - b) else None)"

definition checked_mul :: "nat \<Rightarrow> nat \<Rightarrow> nat option" where
  "checked_mul a b = (if a * b \<le> u64_max then Some (a * b) else None)"

section \<open>Three-way comparison\<close>

datatype ordering = Less | Equal | Greater

definition cmp :: "'a::linorder \<Rightarrow> 'a \<Rightarrow> ordering" where
  "cmp a b = (if a < b then Less else if a = b then Equal else Greater)"

fun cmp_then :: "ordering \<Rightarrow> ordering \<Rightarrow> ordering" where
  "cmp_then Equal o2 = o2"
| "cmp_then o1 o2 = o1"

section \<open>Ranges\<close>

datatype u64_range = Range (rstart: nat) (rend: nat)

datatype 'k bound = Unbounded | Included 'k | Excluded 'k

section \<open>Shared lemmas\<close>

named_theorems res_simps \<open>unfolding rules for results and checked arithmetic\<close>

lemma bind_res_simps [simp]:
  "bind_res (Inr x) f = f x"
  "bind_res (Inl e) f = Inl e"
  by (simp_all add: bind_res_def)

lemma bind_res_assoc: "bind_res (bind_res m f) g = bind_res m (\<lambda>x. bind_res (f x) g)"
  by (cases m) simp_all

lemma bind_res_eq_Inr: "bind_res m f = Inr y \<longleftrightarrow> (\<exists>x. m = Inr x \<and> f x = Inr y)"
  by (cases m) auto

lemma ensure_eq_Inr [simp]: "ensure b e = Inr u \<longleftrightarrow> b"
  by (simp add: ensure_def)

lemma ensure_simps [simp]: "ensure True e = Inr ()" "ensure False e = Inl e"
  by (simp_all add: ensure_def)

lemma u64_add_eq [res_simps]: "a + b \<le> u64_max \<Longrightarrow> u64_add a b = Inr (a + b)"
  by (simp add: u64_add_def)

lemma u64_sub_eq [res_simps]: "b \<le> a \<Longrightarrow> u64_sub a b = Inr (a - b)"
  by (simp add: u64_sub_def)

lemma u64_div_eq [res_simps]: "0 < b \<Longrightarrow> u64_div a b = Inr (a div b)"
  by (simp add: u64_div_def)

lemma u64_rem_eq [res_simps]: "0 < b \<Longrightarrow> u64_rem a b = Inr (a mod b)"
  by (simp add: u64_rem_def)

lemma cmp_simps [simp]:
  "cmp a b = Less \<longleftrightarrow> a < b"
  "cmp a b = Equal \<longleftrightarrow> a = b"
  "cmp a b = Greater \<longleftrightarrow> b < a"
  by (auto simp: cmp_def)

lemma cmp_refl [simp]: "cmp a a = Equal"
  by (simp add: cmp_def)

lemma cmp_Cons [simp]: "cmp (x # xs) (y # ys) = cmp_then (cmp x y) (cmp xs ys)"
  by (auto simp: cmp_def)

lemma cmp_Nil [simp]: "cmp [] (y # ys) = Less" "cmp (x # xs) [] = Greater"
  by (auto simp: cmp_def)

lemma cmp_then_Equal [simp]: "cmp_then r Equal = r"
  by (cases r) simp_all

lemma cmp_then_eq:
  "cmp_then o1 o2 = Less \<longleftrightarrow> o1 = Less \<or> (o1 = Equal \<and> o2 = Less)"
  "cmp_then o1 o2 = Equal \<longleftrightarrow> o1 = Equal \<and> o2 = Equal"
  "cmp_then o1 o2 = Greater \<longleftrightarrow> o1 = Greater \<or> (o1 = Equal \<and> o2 = Greater)"
  by (cases o1; simp)+

end
