(* ===== verification/Fxfs_Checksum.thy ===== *)
theory Fxfs_Checksum
  imports Fxfs_Prelude
begin

text \<open>
  The Fletcher-64 checksum of \<^verbatim>\<open>src/src/checksum.rs\<close> and the little-endian encodings that it
  and the journal use. Bytes are 8-bit words; both halves of the checksum wrap at 32 bits.
\<close>

section \<open>Definitions\<close>

type_synonym u8 = "8 word"
type_synonym u32 = "32 word"
type_synonym checksum = "64 word"

text \<open>\<^verbatim>\<open>LittleEndian::read_u32\<close>, \<^verbatim>\<open>read_u64\<close> and \<^verbatim>\<open>write_u64\<close>.\<close>

fun le_nat :: "u8 list \<Rightarrow> nat" where
  "le_nat [] = 0"
| "le_nat (b # bs) = unat b + 256 * le_nat bs"

fun le_bytes :: "nat \<Rightarrow> nat \<Rightarrow> u8 list" where
  "le_bytes 0 n = []"
| "le_bytes (Suc k) n = of_nat (n mod 256) # le_bytes k (n div 256)"

definition read_u32 :: "u8 list \<Rightarrow> u32" where
  "read_u32 bs = of_nat (le_nat (take 4 bs))"

definition read_u64 :: "u8 list \<Rightarrow> checksum" where
  "read_u64 bs = of_nat (le_nat (take 8 bs))"

definition write_u64 :: "checksum \<Rightarrow> u8 list" where
  "write_u64 w = le_bytes 8 (unat w)"

text \<open>The loop over \<^verbatim>\<open>buf.chunks(4)\<close>; a trailing chunk of fewer than 4 bytes cannot occur.\<close>

fun fletcher_loop :: "u8 list \<Rightarrow> u32 \<Rightarrow> u32 \<Rightarrow> u32 \<times> u32" where
  "fletcher_loop (a # b # c # d # rest) lo hi =
     (let lo' = lo + read_u32 [a, b, c, d]; hi' = hi + lo' in fletcher_loop rest lo' hi')"
| "fletcher_loop _ lo hi = (lo, hi)"

definition fletcher64 :: "u8 list \<Rightarrow> checksum \<Rightarrow> checksum res" where
  "fletcher64 buf previous =
     (if length buf mod 4 \<noteq> 0 then Inl Panic
      else let lo = ucast previous; hi = ucast (drop_bit 32 previous);
               (lo', hi') = fletcher_loop buf lo hi
           in Inr (or (push_bit 32 (ucast hi')) (ucast lo')))"

section \<open>Encodings\<close>

lemma le_nat_less: "le_nat bs < 256 ^ length bs"
proof (induction bs)
  case (Cons b bs)
  have "unat b < 256" using unsigned_less [of b] by simp
  with Cons show ?case by simp
qed simp

lemma length_le_bytes [simp]: "length (le_bytes k n) = k"
  by (induction k arbitrary: n) simp_all

lemma le_nat_le_bytes: "n < 256 ^ k \<Longrightarrow> le_nat (le_bytes k n) = n"
proof (induction k arbitrary: n)
  case (Suc k)
  have "unat (of_nat (n mod 256) :: u8) = n mod 256"
    by (simp add: unat_of_nat)
  moreover have "n div 256 < 256 ^ k" using Suc.prems by (simp add: less_mult_imp_div_less mult.commute)
  ultimately show ?case using Suc.IH by simp
qed simp

lemma base256_unique:
  fixes a b m n :: nat
  assumes "a < 256" "b < 256" "a + 256 * m = b + 256 * n"
  shows "a = b \<and> m = n"
proof -
  have "(a + 256 * m) mod 256 = a" "(b + 256 * n) mod 256 = b" using assms(1,2) by simp_all
  with assms(3) have "a = b" by metis
  with assms(3) show ?thesis by simp
qed

lemma le_nat_inject:
  "length xs = length ys \<Longrightarrow> le_nat xs = le_nat ys \<Longrightarrow> xs = ys"
proof (induction xs ys rule: list_induct2)
  case (Cons x xs y ys)
  have "unat x < 256" "unat y < 256" using unsigned_less [of x] unsigned_less [of y] by simp_all
  with Cons.prems have "unat x = unat y \<and> le_nat xs = le_nat ys"
    by (intro base256_unique) simp_all
  with Cons.IH show ?case by (simp add: word_unat_eq_iff)
qed simp

lemma length_write_u64 [simp]: "length (write_u64 w) = 8"
  by (simp add: write_u64_def)

text \<open>Reading back what \<open>write_u64\<close> wrote gives the checksum that was written.\<close>

lemma read_write_u64 [simp]: "read_u64 (write_u64 w) = w"
proof -
  have "unat w < 256 ^ 8" using unsigned_less [of w] by simp
  then show ?thesis by (simp add: read_u64_def write_u64_def le_nat_le_bytes)
qed

lemma read_u32_inject:
  assumes "length xs = 4" "length ys = 4" "read_u32 xs = read_u32 ys"
  shows "xs = ys"
proof -
  have "le_nat xs < 2 ^ 32" "le_nat ys < 2 ^ 32"
    using le_nat_less [of xs] le_nat_less [of ys] assms(1,2) by simp_all
  then have "unat (read_u32 xs) = le_nat xs" "unat (read_u32 ys) = le_nat ys"
    using assms(1,2) by (simp_all add: read_u32_def unat_of_nat)
  with assms(3) have "le_nat xs = le_nat ys" by simp
  with assms(1,2) show ?thesis by (intro le_nat_inject) simp_all
qed

section \<open>The checksum\<close>

text \<open>
  The loop is affine in its seed: with \<open>s\<close> the sum of the chunks, \<open>n\<close> their number and \<open>t\<close> the
  weighted sum, it ends in \<open>(lo + s, hi + n * lo + t)\<close>.
\<close>

fun chunk_sums :: "u8 list \<Rightarrow> u32 \<times> u32 \<times> u32" where
  "chunk_sums (a # b # c # d # rest) =
     (let x = read_u32 [a, b, c, d]; (s, t, n) = chunk_sums rest in (x + s, (n + 1) * x + t, n + 1))"
| "chunk_sums _ = (0, 0, 0)"

lemma fletcher_loop_affine:
  "fletcher_loop buf lo hi = (case chunk_sums buf of (s, t, n) \<Rightarrow> (lo + s, hi + n * lo + t))"
  by (induction buf lo hi rule: fletcher_loop.induct)
    (simp_all add: Let_def case_prod_beta algebra_simps)

lemma fletcher_loop_append:
  "length xs mod 4 = 0 \<Longrightarrow>
   fletcher_loop (xs @ ys) lo hi = (case fletcher_loop xs lo hi of (l, h) \<Rightarrow> fletcher_loop ys l h)"
  by (induction xs lo hi rule: fletcher_loop.induct) (simp_all add: Let_def)

definition combine :: "u32 \<times> u32 \<Rightarrow> checksum" where
  "combine p = or (push_bit 32 (ucast (snd p))) (ucast (fst p))"

definition seed_of :: "checksum \<Rightarrow> u32 \<times> u32" where
  "seed_of w = (ucast w, ucast (drop_bit 32 w))"

lemma fletcher64_alt:
  "fletcher64 buf prev =
     (if length buf mod 4 \<noteq> 0 then Inl Panic
      else Inr (combine (fletcher_loop buf (fst (seed_of prev)) (snd (seed_of prev)))))"
  by (simp add: fletcher64_def combine_def seed_of_def case_prod_beta Let_def)

lemma seed_combine [simp]: "seed_of (combine p) = p"
proof -
  have "ucast (combine p) = fst p"
    by (rule bit_word_eqI) (simp add: combine_def bit_simps)
  moreover have "ucast (drop_bit 32 (combine p)) = snd p"
    by (rule bit_word_eqI) (auto simp: combine_def bit_simps dest: bit_imp_le_length)
  ultimately show ?thesis by (simp add: seed_of_def prod_eq_iff)
qed

lemma combine_seed [simp]: "combine (seed_of w) = w"
  by (rule bit_word_eqI) (auto simp: combine_def seed_of_def bit_simps)

lemma combine_inject [simp]: "combine p = combine q \<longleftrightarrow> p = q"
  by (metis seed_combine)

lemma seed_of_inject: "seed_of v = seed_of w \<longleftrightarrow> v = w"
  by (metis combine_seed)

text \<open>
  The checksum can be computed block by block: checksumming a concatenation is checksumming
  the second part seeded with the checksum of the first, as the journal chains its blocks.
\<close>

lemma fletcher64_append:
  assumes "length xs mod 4 = 0"
  shows "fletcher64 (xs @ ys) prev = bind_res (fletcher64 xs prev) (fletcher64 ys)"
  using assms
  by (simp add: fletcher64_alt fletcher_loop_append case_prod_beta mod_add_left_eq [symmetric])

text \<open>
  For a fixed block the checksum is an injective function of the seed, so a block copied to a
  place where the preceding block has another checksum does not verify there.
\<close>

lemma fletcher64_seed_inject:
  assumes "fletcher64 buf p = Inr c" "fletcher64 buf q = Inr c"
  shows "p = q"
proof -
  obtain s t n where st: "chunk_sums buf = (s, t, n)" by (metis prod_cases3)
  from assms have "fletcher_loop buf (fst (seed_of p)) (snd (seed_of p)) =
      fletcher_loop buf (fst (seed_of q)) (snd (seed_of q))"
    by (auto simp: fletcher64_alt split: if_splits)
  then have "seed_of p = seed_of q"
    by (auto simp: fletcher_loop_affine st prod_eq_iff)
  then show ?thesis by (simp add: seed_of_inject)
qed

text \<open>
  The checksum detects every corruption that is confined to one 4-byte chunk: if a buffer is
  changed in exactly one aligned 4-byte chunk, its checksum changes.
\<close>

lemma fletcher64_detects_chunk:
  assumes "length pre mod 4 = 0" "length post mod 4 = 0"
    and "length x = 4" "length y = 4" "x \<noteq> y"
  shows "fletcher64 (pre @ x @ post) seed \<noteq> fletcher64 (pre @ y @ post) seed"
proof
  assume eq: "fletcher64 (pre @ x @ post) seed = fletcher64 (pre @ y @ post) seed"
  obtain l h where lh: "fletcher_loop pre (fst (seed_of seed)) (snd (seed_of seed)) = (l, h)"
    by fastforce
  obtain a b c d where x: "x = [a, b, c, d]"
    using assms(3) by (auto simp: numeral_eq_Suc length_Suc_conv)
  obtain a' b' c' d' where y: "y = [a', b', c', d']"
    using assms(4) by (auto simp: numeral_eq_Suc length_Suc_conv)
  have len: "(length pre + length post) mod 4 = 0"
    using assms(1,2) by presburger
  from eq have "fletcher_loop post (l + read_u32 x) (h + (l + read_u32 x)) =
        fletcher_loop post (l + read_u32 y) (h + (l + read_u32 y))"
    by (simp add: fletcher64_alt fletcher_loop_append assms(1) lh x y Let_def len)
  then have "read_u32 x = read_u32 y"
    by (simp add: fletcher_loop_affine case_prod_beta)
  with assms(3-5) show False using read_u32_inject by blast
qed

end
