(* ===== verification/Fxfs_FF1.thy ===== *)
theory Fxfs_FF1
  imports Fxfs_Checksum
begin

text \<open>
  The specialised FF1 format-preserving encryption of \<^verbatim>\<open>src/src/ff1.rs\<close>, which encrypts the low
  32 bits of object ids. AES-256 is a third-party crate: its \<^verbatim>\<open>encrypt_block\<close> is the parameter
  \<open>encrypt_block\<close>, a function on 16-byte blocks, and nothing is assumed about it.
\<close>

section \<open>Definitions\<close>

type_synonym u16 = "16 word"
type_synonym block_cipher = "u8 list \<Rightarrow> u8 list"

record ff1 =
  initial_block :: "u8 list"
  cipher :: block_cipher

text \<open>The block PRF(P) of step 5 of the specification: radix = 2, u = 16, n = 32.\<close>

definition ff1_new :: "block_cipher \<Rightarrow> ff1" where
  "ff1_new encrypt_block =
     \<lparr>initial_block = encrypt_block [1, 2, 1, 0, 0, 2, 10, 16, 0, 0, 0, 32, 0, 0, 0, 0],
      cipher = encrypt_block\<rparr>"

text \<open>
  One round's key stream, the common part of both loops: the block is xored with the round number
  and the 16-bit half, encrypted, and bytes 6 and 7 are read big-endian.
\<close>

definition read_u16_be :: "u8 \<Rightarrow> u8 \<Rightarrow> u16" where
  "read_u16_be b0 b1 = of_nat (unat b0 * 256 + unat b1)"

definition round_stream :: "ff1 \<Rightarrow> nat \<Rightarrow> u16 \<Rightarrow> u16" where
  "round_stream self i h =
     (let block = initial_block self;
          block = block[13 := xor (block ! 13) (of_nat i)];
          block = block[14 := xor (block ! 14) (ucast (drop_bit 8 h))];
          block = block[15 := xor (block ! 15) (ucast h)];
          block = cipher self block
      in read_u16_be (block ! 6) (block ! 7))"

fun encrypt_rounds :: "ff1 \<Rightarrow> nat list \<Rightarrow> u16 \<Rightarrow> u16 \<Rightarrow> u16 \<times> u16" where
  "encrypt_rounds self [] a b = (a, b)"
| "encrypt_rounds self (i # is) a b =
     (let c = a + round_stream self i b in encrypt_rounds self is b c)"

fun decrypt_rounds :: "ff1 \<Rightarrow> nat list \<Rightarrow> u16 \<Rightarrow> u16 \<Rightarrow> u16 \<times> u16" where
  "decrypt_rounds self [] a b = (a, b)"
| "decrypt_rounds self (i # is) a b =
     (let c = b - round_stream self i a in decrypt_rounds self is c a)"

definition join16 :: "u16 \<times> u16 \<Rightarrow> u32" where
  "join16 p = or (push_bit 16 (ucast (fst p))) (ucast (snd p))"

definition encrypt :: "ff1 \<Rightarrow> u32 \<Rightarrow> u32" where
  "encrypt self data =
     join16 (encrypt_rounds self [0..<10] (ucast (drop_bit 16 data)) (ucast data))"

definition decrypt :: "ff1 \<Rightarrow> u32 \<Rightarrow> u32" where
  "decrypt self data =
     join16 (decrypt_rounds self (rev [0..<10]) (ucast (drop_bit 16 data)) (ucast data))"

section \<open>Properties\<close>

lemma join16_split [simp]: "join16 (ucast (drop_bit 16 w), ucast w) = w"
  by (rule bit_word_eqI) (auto simp: join16_def bit_simps)

lemma split_join16 [simp]:
  "ucast (drop_bit 16 (join16 p)) = fst p" "ucast (join16 p) = snd p"
  by (rule bit_word_eqI, auto simp: join16_def bit_simps dest: bit_imp_le_length)+

lemma encrypt_rounds_append:
  "encrypt_rounds s (is @ js) a b = (case encrypt_rounds s is a b of (x, y) \<Rightarrow> encrypt_rounds s js x y)"
  by (induction "is" arbitrary: a b) (simp_all add: Let_def)

lemma decrypt_rounds_append:
  "decrypt_rounds s (is @ js) a b = (case decrypt_rounds s is a b of (x, y) \<Rightarrow> decrypt_rounds s js x y)"
  by (induction "is" arbitrary: a b) (simp_all add: Let_def)

lemma decrypt_encrypt_rounds:
  "encrypt_rounds s is a b = (x, y) \<Longrightarrow> decrypt_rounds s (rev is) x y = (a, b)"
  by (induction "is" arbitrary: a b) (auto simp: Let_def decrypt_rounds_append)

lemma encrypt_decrypt_rounds:
  "decrypt_rounds s is a b = (x, y) \<Longrightarrow> encrypt_rounds s (rev is) x y = (a, b)"
  by (induction "is" arbitrary: a b) (auto simp: Let_def encrypt_rounds_append)

lemma decrypt_encrypt: "decrypt self (encrypt self data) = data"
proof -
  obtain x y where "encrypt_rounds self [0..<10] (ucast (drop_bit 16 data)) (ucast data) = (x, y)"
    by fastforce
  from this decrypt_encrypt_rounds [OF this] show ?thesis
    by (simp add: encrypt_def decrypt_def)
qed

lemma encrypt_decrypt: "encrypt self (decrypt self data) = data"
proof -
  obtain x y where "decrypt_rounds self (rev [0..<10]) (ucast (drop_bit 16 data)) (ucast data) = (x, y)"
    by fastforce
  from this encrypt_decrypt_rounds [OF this] show ?thesis
    by (simp add: encrypt_def decrypt_def)
qed

text \<open>
  Decryption inverts encryption and encryption inverts decryption, for every 32-bit value and
  whatever the block cipher computes: FF1 is a permutation of the 32-bit object ids.
\<close>

lemma ff1_roundtrip:
  "decrypt self (encrypt self data) = data \<and> encrypt self (decrypt self data) = data"
  by (simp add: decrypt_encrypt encrypt_decrypt)

end
