(* ===== verification/Lsm_Types.thy ===== *)
theory Lsm_Types
  imports Fxfs_Prelude
begin

text \<open>
  The vocabulary of the LSM tree (\<^verbatim>\<open>src/src/lsm_tree/types.rs\<close>): items, the comparison
  functions of the key traits, layer iterators and the \<^verbatim>\<open>Filter\<close> adapter.

  A \<^verbatim>\<open>LayerIterator\<close> is modelled by the list of the items it has still to yield: \<open>get\<close> is the
  head, \<open>advance\<close> drops it and does nothing at the end of the layer.
\<close>

section \<open>Items and keys\<close>

record ('k, 'v) item =
  key :: 'k
  "value" :: 'v
  sequence :: nat

definition item_new :: "'k \<Rightarrow> 'v \<Rightarrow> ('k, 'v) item" where
  "item_new k v = \<lparr>key = k, value = v, sequence = 0\<rparr>"

definition item_new_with_sequence :: "'k \<Rightarrow> 'v \<Rightarrow> nat \<Rightarrow> ('k, 'v) item" where
  "item_new_with_sequence k v s = \<lparr>key = k, value = v, sequence = s\<rparr>"

text \<open>
  The traits \<^verbatim>\<open>OrdUpperBound\<close>, \<^verbatim>\<open>OrdLowerBound\<close> and \<^verbatim>\<open>NextKey\<close> of a key type. \<^verbatim>\<open>next_key\<close> may
  overflow, hence the result type.
\<close>

record 'k key_ops =
  cmp_upper_bound :: "'k \<Rightarrow> 'k \<Rightarrow> ordering"
  cmp_lower_bound :: "'k \<Rightarrow> 'k \<Rightarrow> ordering"
  next_key :: "'k \<Rightarrow> 'k option res"

section \<open>Layer iterators\<close>

type_synonym ('k, 'v) layer_iter = "('k, 'v) item list"

definition iter_get :: "('k, 'v) layer_iter \<Rightarrow> ('k, 'v) item option" where
  "iter_get it = (case it of [] \<Rightarrow> None | x # _ \<Rightarrow> Some x)"

definition iter_advance :: "('k, 'v) layer_iter \<Rightarrow> ('k, 'v) layer_iter" where
  "iter_advance it = (case it of [] \<Rightarrow> [] | _ # xs \<Rightarrow> xs)"

section \<open>The filter adapter\<close>

record ('k, 'v) filter_iter =
  filter_iter_iter :: "('k, 'v) layer_iter"
  predicate :: "('k, 'v) item \<Rightarrow> bool"

function skip_filtered_loop :: "(('k, 'v) item \<Rightarrow> bool) \<Rightarrow> ('k, 'v) layer_iter \<Rightarrow> ('k, 'v) layer_iter" where
  "skip_filtered_loop P it =
     (case iter_get it of
        Some x \<Rightarrow> if \<not> P x then skip_filtered_loop P (iter_advance it) else it
      | None \<Rightarrow> it)"
  by pat_completeness auto
termination
  by (relation "measure (\<lambda>(P, it). length it)")
    (auto simp: iter_get_def iter_advance_def split: list.splits)

definition skip_filtered :: "('k, 'v) filter_iter \<Rightarrow> ('k, 'v) filter_iter" where
  "skip_filtered f = f\<lparr>filter_iter_iter := skip_filtered_loop (predicate f) (filter_iter_iter f)\<rparr>"

definition filter_new :: "('k, 'v) layer_iter \<Rightarrow> (('k, 'v) item \<Rightarrow> bool) \<Rightarrow> ('k, 'v) filter_iter" where
  "filter_new it P = skip_filtered \<lparr>filter_iter_iter = it, predicate = P\<rparr>"

definition filter_advance :: "('k, 'v) filter_iter \<Rightarrow> ('k, 'v) filter_iter" where
  "filter_advance f = skip_filtered (f\<lparr>filter_iter_iter := iter_advance (filter_iter_iter f)\<rparr>)"

definition filter_get :: "('k, 'v) filter_iter \<Rightarrow> ('k, 'v) item option" where
  "filter_get f = iter_get (filter_iter_iter f)"

section \<open>What a filtered iterator yields\<close>

lemma iter_get_simps [simp]: "iter_get [] = None" "iter_get (x # xs) = Some x"
  by (simp_all add: iter_get_def)

lemma iter_advance_simps [simp]: "iter_advance [] = []" "iter_advance (x # xs) = xs"
  by (simp_all add: iter_advance_def)

lemma iter_get_None [simp]: "iter_get it = None \<longleftrightarrow> it = []"
  by (cases it) simp_all

declare skip_filtered_loop.simps [simp del]

lemma skip_filtered_loop_dropWhile: "skip_filtered_loop P it = dropWhile (\<lambda>x. \<not> P x) it"
proof (induction it)
  case Nil
  show ?case by (simp add: skip_filtered_loop.simps)
next
  case (Cons x it)
  then show ?case by (simp add: skip_filtered_loop.simps [of P "x # it"])
qed

text \<open>The items a consumer sees that alternates \<open>get\<close> and \<open>advance\<close> until \<open>get\<close> is \<open>None\<close>.\<close>

fun filter_drain :: "nat \<Rightarrow> ('k, 'v) filter_iter \<Rightarrow> ('k, 'v) item list" where
  "filter_drain 0 f = []"
| "filter_drain (Suc n) f =
     (case filter_get f of None \<Rightarrow> [] | Some x \<Rightarrow> x # filter_drain n (filter_advance f))"

lemma filter_dropWhile_not: "filter P (dropWhile (\<lambda>x. \<not> P x) xs) = filter P xs"
  by (induction xs) simp_all

lemma filter_drain_dropWhile:
  "length it \<le> n \<Longrightarrow>
   filter_drain n \<lparr>filter_iter_iter = dropWhile (\<lambda>x. \<not> P x) it, predicate = P\<rparr> = filter P it"
proof (induction n arbitrary: it)
  case (Suc n)
  show ?case
  proof (cases "dropWhile (\<lambda>x. \<not> P x) it")
    case Nil
    then have "filter P it = []" by (simp add: filter_empty_conv dropWhile_eq_Nil_conv)
    moreover have "filter_get \<lparr>filter_iter_iter = dropWhile (\<lambda>x. \<not> P x) it, predicate = P\<rparr> = None"
      by (simp only: filter_get_def filter_iter.simps Nil iter_get_simps)
    ultimately show ?thesis by simp
  next
    case (Cons y ys)
    have len: "length (y # ys) \<le> length it"
      using length_dropWhile_le [of "\<lambda>x. \<not> P x" it] by (simp only: Cons)
    have "P y" using hd_dropWhile [of "\<lambda>x. \<not> P x" it] Cons by simp
    moreover have "filter P it = filter P (y # ys)"
      using filter_dropWhile_not [of P it] by (simp only: Cons)
    ultimately show ?thesis
      using Suc.IH [of ys] Suc.prems len
      by (simp add: Cons filter_get_def filter_advance_def skip_filtered_def
          skip_filtered_loop_dropWhile)
  qed
qed simp

text \<open>
  Iterating over a \<open>Filter\<close> yields exactly the items of the underlying iterator that satisfy
  the predicate, in their order.
\<close>

lemma filter_yields:
  "filter_drain (length it) (filter_new it P) = filter P it"
  by (simp add: filter_new_def skip_filtered_def skip_filtered_loop_dropWhile filter_drain_dropWhile)

end
