(* ===== verification/Lsm_Merge.thy ===== *)
theory Lsm_Merge
  imports Lsm_Types
begin

text \<open>
  The merger of \<^verbatim>\<open>src/src/lsm_tree/merge.rs\<close>: merge results, the per-layer merge iterator, the
  lazily growing heap of iterators of \<^verbatim>\<open>MergerIterator\<close> and \<^verbatim>\<open>merge_into\<close>, which merges one item
  into a mutable layer.

  A merge function observes a \<^verbatim>\<open>MergeLayerIterator\<close> only through its layer index and its current
  item, so it is a function of two such pairs. \<^verbatim>\<open>BinaryHeap\<close> is a list from which \<open>heap_pop\<close>
  removes the greatest element of the source's \<^verbatim>\<open>Ord\<close> (the least by lower bound, then by layer
  index). The loops take fuel; running out of it is the error \<open>OutOfFuel\<close>. Tracing
  (\<^verbatim>\<open>trace\<close>, \<^verbatim>\<open>history\<close>) is left out.
\<close>

section \<open>Merge results\<close>

datatype ('k, 'v) item_op = Keep | Discard | Replace "('k, 'v) item"

datatype ('k, 'v) merge_result =
    EmitLeft
  | Other "('k, 'v) item option" "('k, 'v) item_op" "('k, 'v) item_op"

type_synonym ('k, 'v) merge_fn =
  "nat \<times> ('k, 'v) item \<Rightarrow> nat \<times> ('k, 'v) item \<Rightarrow> ('k, 'v) merge_result res"

section \<open>Merge layer iterators\<close>

datatype ('k, 'v) merge_item = MNone | MItem "('k, 'v) item" | MIter

text \<open>
  A mutable iterator keeps, besides the items it has still to yield, the items before its position,
  in reverse order; the layer's content is \<open>rev before @ after\<close>.
\<close>

datatype ('k, 'v) raw_iterator =
    RNone
  | RConst "('k, 'v) layer_iter"
  | RMut "('k, 'v) item list" "('k, 'v) item list"

record ('k, 'v) merge_layer_iterator =
  layer :: "('k, 'v) item list option"
  iter :: "('k, 'v) raw_iterator"
  layer_index :: nat
  merge_item :: "('k, 'v) merge_item"

type_synonym ('k, 'v) mli = "('k, 'v) merge_layer_iterator"

definition mli_new :: "nat \<Rightarrow> ('k, 'v) item list \<Rightarrow> ('k, 'v) mli" where
  "mli_new index l = \<lparr>layer = Some l, iter = RNone, layer_index = index, merge_item = MNone\<rparr>"

definition mli_new_with_item :: "nat \<Rightarrow> ('k, 'v) merge_item \<Rightarrow> ('k, 'v) mli" where
  "mli_new_with_item index i = \<lparr>layer = None, iter = RNone, layer_index = index, merge_item = i\<rparr>"

fun raw_get :: "('k, 'v) raw_iterator \<Rightarrow> ('k, 'v) item option res" where
  "raw_get RNone = Inl Panic"
| "raw_get (RConst it) = Inr (iter_get it)"
| "raw_get (RMut _ aft) = Inr (iter_get aft)"

fun raw_advance :: "('k, 'v) raw_iterator \<Rightarrow> ('k, 'v) raw_iterator res" where
  "raw_advance RNone = Inl Panic"
| "raw_advance (RConst it) = Inr (RConst (iter_advance it))"
| "raw_advance (RMut bef []) = Inr (RMut bef [])"
| "raw_advance (RMut bef (x # xs)) = Inr (RMut (x # bef) xs)"

definition mli_item :: "('k, 'v) mli \<Rightarrow> ('k, 'v) item res" where
  "mli_item self =
     (case merge_item self of
        MNone \<Rightarrow> Inl Panic
      | MItem i \<Rightarrow> Inr i
      | MIter \<Rightarrow> bind_res (raw_get (iter self)) (\<lambda>opt. case opt of None \<Rightarrow> Inl Panic | Some i \<Rightarrow> Inr i))"

definition set_item_from_iter :: "('k, 'v) mli \<Rightarrow> ('k, 'v) mli res" where
  "set_item_from_iter self =
     bind_res (raw_get (iter self)) (\<lambda>opt.
       Inr (self\<lparr>merge_item := (case opt of None \<Rightarrow> MNone | Some _ \<Rightarrow> MIter)\<rparr>))"

definition take_item :: "('k, 'v) mli \<Rightarrow> ('k, 'v) item option \<times> ('k, 'v) mli" where
  "take_item self =
     (case merge_item self of
        MItem i \<Rightarrow> (Some i, self\<lparr>merge_item := MNone\<rparr>)
      | _ \<Rightarrow> (None, self))"

definition mli_advance :: "('k, 'v) mli \<Rightarrow> ('k, 'v) mli res" where
  "mli_advance self =
     bind_res (case merge_item self of
                 MIter \<Rightarrow> bind_res (raw_advance (iter self)) (\<lambda>it. Inr (self\<lparr>iter := it\<rparr>))
               | _ \<Rightarrow> Inr self)
       set_item_from_iter"

definition mli_replace :: "('k, 'v) item \<Rightarrow> ('k, 'v) mli \<Rightarrow> ('k, 'v) mli" where
  "mli_replace i self = self\<lparr>merge_item := MItem i\<rparr>"

definition is_some :: "('k, 'v) mli \<Rightarrow> bool" where
  "is_some self = (case merge_item self of MNone \<Rightarrow> False | _ \<Rightarrow> True)"

definition maybe_advance :: "('k, 'v) item_op \<Rightarrow> ('k, 'v) mli \<Rightarrow> ('k, 'v) mli res" where
  "maybe_advance op self = (case op of Keep \<Rightarrow> Inr self | _ \<Rightarrow> mli_advance self)"

definition mli_erase :: "('k, 'v) mli \<Rightarrow> ('k, 'v) mli res" where
  "mli_erase self =
     (case iter self of
        RMut bef aft \<Rightarrow> Inr (self\<lparr>iter := RMut bef (iter_advance aft)\<rparr>)
      | _ \<Rightarrow> Inl Panic)"

definition mli_insert :: "('k, 'v) item \<Rightarrow> ('k, 'v) mli \<Rightarrow> ('k, 'v) mli res" where
  "mli_insert i self =
     (case iter self of
        RMut bef aft \<Rightarrow> Inr (self\<lparr>iter := RMut (i # bef) aft\<rparr>)
      | _ \<Rightarrow> Inl Panic)"

text \<open>
  \<^verbatim>\<open>Ord for MergeLayerIterator\<close>: reversed, so that the heap's maximum is the least key. Comparing
  panics when a side has no item.
\<close>

definition mli_cmp :: "'k key_ops \<Rightarrow> ('k, 'v) mli \<Rightarrow> ('k, 'v) mli \<Rightarrow> ordering res" where
  "mli_cmp ops self other =
     bind_res (mli_item other) (\<lambda>oi. bind_res (mli_item self) (\<lambda>si.
       Inr (cmp_then (cmp_lower_bound ops (key oi) (key si))
             (cmp (layer_index other) (layer_index self)))))"

section \<open>The heap\<close>

text \<open>\<open>heap_max x ys\<close> separates the greatest of \<open>x # ys\<close> from the others.\<close>

fun heap_max :: "'k key_ops \<Rightarrow> ('k, 'v) mli \<Rightarrow> ('k, 'v) mli list \<Rightarrow> (('k, 'v) mli \<times> ('k, 'v) mli list) res" where
  "heap_max ops x [] = Inr (x, [])"
| "heap_max ops x (y # ys) =
     bind_res (mli_cmp ops x y) (\<lambda>c.
       if c = Less
       then bind_res (heap_max ops y ys) (\<lambda>(m, rest). Inr (m, x # rest))
       else bind_res (heap_max ops x ys) (\<lambda>(m, rest). Inr (m, y # rest)))"

definition heap_pop :: "'k key_ops \<Rightarrow> ('k, 'v) mli list \<Rightarrow> (('k, 'v) mli \<times> ('k, 'v) mli list) option res" where
  "heap_pop ops h =
     (case h of [] \<Rightarrow> Inr None | x # ys \<Rightarrow> bind_res (heap_max ops x ys) (\<lambda>r. Inr (Some r)))"

definition heap_peek :: "'k key_ops \<Rightarrow> ('k, 'v) mli list \<Rightarrow> ('k, 'v) mli option res" where
  "heap_peek ops h = bind_res (heap_pop ops h) (\<lambda>opt. Inr (map_option fst opt))"

definition heap_push :: "('k, 'v) mli \<Rightarrow> ('k, 'v) mli list \<Rightarrow> ('k, 'v) mli list" where
  "heap_push x h = x # h"

section \<open>The merger\<close>

datatype ('k, 'v) current_item = CNone | CItem "('k, 'v) item" | CIterator "('k, 'v) mli"

record ('k, 'v) merger_iterator =
  pending_iterators :: "('k, 'v) mli list"
  heap :: "('k, 'v) mli list"
  current :: "('k, 'v) current_item"

definition merger_get :: "('k, 'v) merger_iterator \<Rightarrow> ('k, 'v) item option res" where
  "merger_get self =
     (case current self of
        CNone \<Rightarrow> Inr None
      | CIterator m \<Rightarrow> bind_res (mli_item m) (\<lambda>i. Inr (Some i))
      | CItem i \<Rightarrow> Inr (Some i))"

definition take_iterator ::
  "('k, 'v) merger_iterator \<Rightarrow> ('k, 'v) mli option \<times> ('k, 'v) merger_iterator" where
  "take_iterator self =
     (case current self of
        CIterator m \<Rightarrow> (Some m, self\<lparr>current := CNone\<rparr>)
      | _ \<Rightarrow> (None, self))"

definition update_item ::
  "('k, 'v) mli \<Rightarrow> ('k, 'v) item_op \<Rightarrow> ('k, 'v) merger_iterator \<Rightarrow> ('k, 'v) merger_iterator" where
  "update_item m op self =
     (case op of
        Keep \<Rightarrow> self\<lparr>heap := heap_push m (heap self)\<rparr>
      | Discard \<Rightarrow> if is_some m then self\<lparr>heap := heap_push m (heap self)\<rparr> else self
      | Replace r \<Rightarrow> self\<lparr>heap := heap_push (mli_replace r m) (heap self)\<rparr>)"

text \<open>
  The inner loop of \<^verbatim>\<open>advance_impl\<close>: merge the two lowest elements until one is emitted or the
  heap is empty. The flag says whether the loop was left by \<^verbatim>\<open>return\<close> (nothing left).
\<close>

fun merge_loop ::
  "nat \<Rightarrow> 'k key_ops \<Rightarrow> ('k, 'v) merge_fn \<Rightarrow> ('k, 'v) merger_iterator \<Rightarrow>
   (bool \<times> ('k, 'v) merger_iterator) res" where
  "merge_loop 0 ops mf self = Inl OutOfFuel"
| "merge_loop (Suc fuel) ops mf self =
     bind_res (heap_pop ops (heap self)) (\<lambda>opt.
       case opt of
         None \<Rightarrow> Inr (True, self\<lparr>current := CNone\<rparr>)
       | Some (lowest, heap1) \<Rightarrow>
           bind_res (heap_pop ops heap1) (\<lambda>o2.
             case o2 of
               None \<Rightarrow> Inr (False, self\<lparr>heap := heap1, current := CIterator lowest\<rparr>)
             | Some (second_lowest, heap2) \<Rightarrow>
                 bind_res (mli_item lowest) (\<lambda>li. bind_res (mli_item second_lowest) (\<lambda>ri.
                 bind_res (mf (layer_index lowest, li) (layer_index second_lowest, ri)) (\<lambda>result.
                   case result of
                     EmitLeft \<Rightarrow>
                       Inr (False, self\<lparr>heap := heap_push second_lowest heap2,
                                        current := CIterator lowest\<rparr>)
                   | Other emit l r \<Rightarrow>
                       bind_res (maybe_advance l lowest) (\<lambda>lowest'.
                       bind_res (maybe_advance r second_lowest) (\<lambda>second_lowest'.
                         let self' = update_item second_lowest' r
                                       (update_item lowest' l (self\<lparr>heap := heap2\<rparr>))
                         in case emit of
                              Some e \<Rightarrow> Inr (False, self'\<lparr>current := CItem e\<rparr>)
                            | None \<Rightarrow> merge_loop fuel ops mf self')))))))"

definition outside_bound :: "'k key_ops \<Rightarrow> 'k bound \<Rightarrow> 'k \<Rightarrow> bool" where
  "outside_bound ops bnd k =
     (case bnd of
        Included b \<Rightarrow> cmp_upper_bound ops k b = Less
      | Excluded b \<Rightarrow> cmp_upper_bound ops k b \<noteq> Greater
      | Unbounded \<Rightarrow> False)"

fun advance_impl ::
  "nat \<Rightarrow> 'k key_ops \<Rightarrow> ('k, 'v) merge_fn \<Rightarrow> 'k bound \<Rightarrow> ('k, 'v) merger_iterator \<Rightarrow>
   ('k, 'v) merger_iterator res" where
  "advance_impl 0 ops mf next_key_bound self = Inl OutOfFuel"
| "advance_impl (Suc fuel) ops mf next_key_bound self =
     bind_res (merge_loop (Suc fuel) ops mf self) (\<lambda>(finished, self).
       if finished then Inr self
       else bind_res (merger_get self) (\<lambda>opt.
         case opt of
           None \<Rightarrow> Inl Panic
         | Some i \<Rightarrow>
             if outside_bound ops next_key_bound (key i)
             then case take_iterator self of
                    (Some m, self) \<Rightarrow>
                      bind_res (mli_advance m) (\<lambda>m.
                        advance_impl fuel ops mf next_key_bound
                          (if is_some m then self\<lparr>heap := heap_push m (heap self)\<rparr> else self))
                  | (None, self) \<Rightarrow> advance_impl fuel ops mf next_key_bound self
             else Inr self))"

definition needs_more_iterators ::
  "'k key_ops \<Rightarrow> 'k option \<Rightarrow> ('k, 'v) merger_iterator \<Rightarrow> bool res" where
  "needs_more_iterators ops nk self =
     (if pending_iterators self = [] then Inr False
      else if heap self = [] then Inr True
      else case nk of
        None \<Rightarrow> Inr True
      | Some k \<Rightarrow>
          bind_res (heap_peek ops (heap self)) (\<lambda>opt.
            case opt of None \<Rightarrow> Inl Panic
            | Some m \<Rightarrow> bind_res (mli_item m) (\<lambda>i. Inr (cmp_lower_bound ops (key i) k = Greater))))"

text \<open>
  \<^verbatim>\<open>Layer::seek\<close>: the items of a layer from the first one that is within the bound, comparing
  upper bounds. It is the level-0 walk of \<^verbatim>\<open>SkipListLayerIter::new\<close>.
\<close>

definition layer_seek :: "'k key_ops \<Rightarrow> ('k, 'v) item list \<Rightarrow> 'k bound \<Rightarrow> ('k, 'v) layer_iter" where
  "layer_seek ops items bnd = dropWhile (\<lambda>i. outside_bound ops bnd (key i)) items"

text \<open>\<^verbatim>\<open>pending_iterators.pop()\<close> takes the last element of the vector.\<close>

function push_iterators ::
  "'k key_ops \<Rightarrow> 'k option \<Rightarrow> 'k bound \<Rightarrow> ('k, 'v) merger_iterator \<Rightarrow> ('k, 'v) merger_iterator res" where
  "push_iterators ops nk bnd self =
     bind_res (needs_more_iterators ops nk self) (\<lambda>more.
       if \<not> more \<or> pending_iterators self = [] then Inr self
       else let m = last (pending_iterators self);
                self = self\<lparr>pending_iterators := butlast (pending_iterators self)\<rparr>
            in case layer m of
                 None \<Rightarrow> Inl Panic
               | Some l \<Rightarrow>
                   bind_res (set_item_from_iter (m\<lparr>iter := RConst (layer_seek ops l bnd)\<rparr>)) (\<lambda>m.
                     push_iterators ops nk bnd
                       (if is_some m then self\<lparr>heap := heap_push m (heap self)\<rparr> else self)))"
  by pat_completeness auto
termination
  by (relation "measure (\<lambda>(ops, nk, bnd, self). length (pending_iterators self))") auto

definition merger_iterator_seek ::
  "nat \<Rightarrow> 'k key_ops \<Rightarrow> ('k, 'v) merge_fn \<Rightarrow> 'k bound \<Rightarrow> ('k, 'v) merger_iterator \<Rightarrow>
   ('k, 'v) merger_iterator res" where
  "merger_iterator_seek fuel ops mf bnd self =
     bind_res (case bnd of
                 Unbounded \<Rightarrow> Inr None
               | Included k \<Rightarrow> Inr (Some k)
               | Excluded _ \<Rightarrow> Inl Panic) (\<lambda>nk.
     bind_res (push_iterators ops nk bnd self) (advance_impl fuel ops mf bnd))"

text \<open>\<^verbatim>\<open>Merger::new\<close> numbers the layers from the newest; \<^verbatim>\<open>Merger::seek\<close> starts the iterator.\<close>

definition merger_new :: "('k, 'v) item list list \<Rightarrow> ('k, 'v) mli list" where
  "merger_new layers = map (\<lambda>(index, l). mli_new index l) (enumerate 0 layers)"

definition merger_seek ::
  "nat \<Rightarrow> 'k key_ops \<Rightarrow> ('k, 'v) merge_fn \<Rightarrow> ('k, 'v) item list list \<Rightarrow> 'k bound \<Rightarrow>
   ('k, 'v) merger_iterator res" where
  "merger_seek fuel ops mf layers bnd =
     merger_iterator_seek fuel ops mf bnd
       \<lparr>pending_iterators = rev (merger_new layers), heap = [], current = CNone\<rparr>"

text \<open>\<^verbatim>\<open>LayerIterator::advance for MergerIterator\<close>.\<close>

definition next_key_and_bound ::
  "'k key_ops \<Rightarrow> ('k, 'v) merger_iterator \<Rightarrow> ('k option \<times> 'k bound) res" where
  "next_key_and_bound ops self =
     (if pending_iterators self = [] then Inr (None, Unbounded)
      else bind_res (merger_get self) (\<lambda>opt.
        case opt of
          None \<Rightarrow> Inr (None, Unbounded)
        | Some i \<Rightarrow>
            bind_res (next_key ops (key i)) (\<lambda>nk.
              case nk of
                None \<Rightarrow> Inr (None, Excluded (key i))
              | Some k \<Rightarrow> Inr (Some k, Included k))))"

definition follows_directly :: "'k key_ops \<Rightarrow> 'k option \<Rightarrow> ('k, 'v) mli \<Rightarrow> bool res" where
  "follows_directly ops nk m =
     (case nk of
        None \<Rightarrow> Inr False
      | Some k \<Rightarrow>
          if is_some m
          then bind_res (mli_item m) (\<lambda>i. Inr (cmp_lower_bound ops (key i) k \<noteq> Greater))
          else Inr False)"

definition merger_advance ::
  "nat \<Rightarrow> 'k key_ops \<Rightarrow> ('k, 'v) merge_fn \<Rightarrow> ('k, 'v) merger_iterator \<Rightarrow>
   ('k, 'v) merger_iterator res" where
  "merger_advance fuel ops mf self =
     bind_res (next_key_and_bound ops self) (\<lambda>(nk, bnd).
     bind_res
       (case take_iterator self of
          (Some m, self) \<Rightarrow>
            bind_res (needs_more_iterators ops nk self) (\<lambda>more.
            bind_res
              (if more
               then bind_res (mli_item m) (\<lambda>existing_item.
                    bind_res (mli_advance m) (\<lambda>m'.
                    bind_res (follows_directly ops nk m') (\<lambda>direct.
                      if direct then Inr (m', self)
                      else bind_res (push_iterators ops nk bnd self) (\<lambda>self.
                             Inr (mli_replace existing_item m', self)))))
               else bind_res (mli_advance m) (\<lambda>m'. Inr (m', self))) (\<lambda>(m', self).
              Inr (if is_some m' then self\<lparr>heap := heap_push m' (heap self)\<rparr> else self)))
        | (None, self) \<Rightarrow> push_iterators ops nk bnd self)
       (advance_impl fuel ops mf bnd))"

section \<open>Merging an item into a mutable layer\<close>

text \<open>Applying an operation of the merge result to the mutable side and to the item side.\<close>

definition apply_mut_op :: "('k, 'v) item_op \<Rightarrow> ('k, 'v) mli \<Rightarrow> ('k, 'v) mli res" where
  "apply_mut_op op m =
     (case op of
        Keep \<Rightarrow> Inr m
      | Discard \<Rightarrow>
          bind_res (case merge_item m of MIter \<Rightarrow> mli_erase m | _ \<Rightarrow> Inr m) set_item_from_iter
      | Replace i \<Rightarrow>
          bind_res (case merge_item m of MIter \<Rightarrow> mli_erase m | _ \<Rightarrow> Inr m)
            (\<lambda>m. Inr (m\<lparr>merge_item := MItem i\<rparr>)))"

definition apply_item_op :: "('k, 'v) item_op \<Rightarrow> ('k, 'v) mli \<Rightarrow> ('k, 'v) mli" where
  "apply_item_op op m =
     (case op of
        Keep \<Rightarrow> m
      | Discard \<Rightarrow> m\<lparr>merge_item := MNone\<rparr>
      | Replace i \<Rightarrow> m\<lparr>merge_item := MItem i\<rparr>)"

definition insert_emit :: "('k, 'v) item option \<Rightarrow> ('k, 'v) mli \<Rightarrow> ('k, 'v) mli res" where
  "insert_emit e m = (case e of None \<Rightarrow> Inr m | Some i \<Rightarrow> mli_insert i m)"

fun merge_into_loop ::
  "nat \<Rightarrow> 'k key_ops \<Rightarrow> ('k, 'v) merge_fn \<Rightarrow> ('k, 'v) mli \<Rightarrow> ('k, 'v) mli \<Rightarrow>
   (('k, 'v) mli \<times> ('k, 'v) mli) res" where
  "merge_into_loop 0 ops mf mut_it item_it = Inl OutOfFuel"
| "merge_into_loop (Suc fuel) ops mf mut_it item_it =
     (if is_some mut_it \<and> is_some item_it
      then bind_res (mli_cmp ops mut_it item_it) (\<lambda>c.
           bind_res (mli_item mut_it) (\<lambda>mi. bind_res (mli_item item_it) (\<lambda>ii.
        if c = Greater
        then bind_res (mf (layer_index mut_it, mi) (layer_index item_it, ii)) (\<lambda>result.
          case result of
            EmitLeft \<Rightarrow>
              (case take_item mut_it of
                 (Some i, mut_it) \<Rightarrow>
                   bind_res (bind_res (mli_insert i mut_it) set_item_from_iter) (\<lambda>mut_it.
                     merge_into_loop fuel ops mf mut_it item_it)
               | (None, mut_it) \<Rightarrow>
                   bind_res (mli_advance mut_it) (\<lambda>mut_it.
                     merge_into_loop fuel ops mf mut_it item_it))
          | Other e l r \<Rightarrow>
              bind_res (insert_emit e mut_it) (\<lambda>mut_it.
              bind_res (apply_mut_op l mut_it) (\<lambda>mut_it.
                merge_into_loop fuel ops mf mut_it (apply_item_op r item_it))))
        else bind_res (mf (layer_index item_it, ii) (layer_index mut_it, mi)) (\<lambda>result.
          case result of
            EmitLeft \<Rightarrow> Inr (mut_it, item_it)
          | Other e l r \<Rightarrow>
              bind_res (insert_emit e mut_it) (\<lambda>mut_it.
              bind_res (apply_mut_op r mut_it) (\<lambda>mut_it.
                merge_into_loop fuel ops mf mut_it (apply_item_op l item_it)))))))
      else Inr (mut_it, item_it))"

text \<open>After the loop, what is left of the item and of the item taken from the layer is inserted.\<close>

definition merge_into_finish :: "('k, 'v) mli \<Rightarrow> ('k, 'v) mli \<Rightarrow> ('k, 'v) item list res" where
  "merge_into_finish mut_it item_it =
     bind_res (case merge_item item_it of MItem i \<Rightarrow> mli_insert i mut_it | _ \<Rightarrow> Inr mut_it) (\<lambda>mut_it.
     bind_res (case take_item mut_it of
                 (Some i, mut_it) \<Rightarrow> mli_insert i mut_it
               | (None, mut_it) \<Rightarrow> Inr mut_it) (\<lambda>mut_it.
       case iter mut_it of RMut bef aft \<Rightarrow> Inr (rev bef @ aft) | _ \<Rightarrow> Inl Panic))"

text \<open>
  \<^verbatim>\<open>merge_into\<close> takes the mutable iterator as its position in the layer and returns the content
  that \<^verbatim>\<open>commit_and_wait\<close> makes visible.
\<close>

definition merge_into ::
  "nat \<Rightarrow> 'k key_ops \<Rightarrow> ('k, 'v) merge_fn \<Rightarrow> ('k, 'v) item list \<Rightarrow> ('k, 'v) item list \<Rightarrow>
   ('k, 'v) item \<Rightarrow> ('k, 'v) item list res" where
  "merge_into fuel ops mf bef aft i =
     (let mut_it = \<lparr>layer = None, iter = RMut bef aft, layer_index = 1,
                    merge_item = (case iter_get aft of Some _ \<Rightarrow> MIter | None \<Rightarrow> MNone)\<rparr>;
          item_it = mli_new_with_item 0 (MItem i)
      in bind_res (merge_into_loop fuel ops mf mut_it item_it) (\<lambda>(mut_it, item_it).
           merge_into_finish mut_it item_it))"

end
