(* ===== verification/Lsm_Tree.thy ===== *)
theory Lsm_Tree
  imports Lsm_Merge
begin

text \<open>
  The LSM tree of \<^verbatim>\<open>src/src/lsm_tree.rs\<close> and the mutable layer it writes to
  (\<^verbatim>\<open>src/src/lsm_tree/skip_list_layer.rs\<close>).

  A layer is the list of its items in the order of iteration; of the skip list that is its level-0
  chain, and a mutable iterator is a position in it. The upper levels (a search accelerator), the
  reader epochs and the events that delay freeing memory are not modelled, nor is the mutation
  callback, which only reports operations to tests.
\<close>

section \<open>The mutable layer\<close>

text \<open>
  \<^verbatim>\<open>SkipListLayerIterMut::new\<close> with an inclusive bound: the items before the position, in reverse
  order, and those from the first item that is not below the key.
\<close>

definition iter_mut_new ::
  "'k key_ops \<Rightarrow> ('k, 'v) item list \<Rightarrow> 'k \<Rightarrow> ('k, 'v) item list \<times> ('k, 'v) item list" where
  "iter_mut_new ops items k =
     (rev (takeWhile (\<lambda>i. outside_bound ops (Included k) (key i)) items),
      dropWhile (\<lambda>i. outside_bound ops (Included k) (key i)) items)"

definition skip_list_insert ::
  "'k key_ops \<Rightarrow> ('k, 'v) item list \<Rightarrow> ('k, 'v) item \<Rightarrow> ('k, 'v) item list res" where
  "skip_list_insert ops items i =
     (let (bef, aft) = iter_mut_new ops items (key i) in
      case iter_get aft of
        Some found \<Rightarrow> if key found = key i then Inl Bail else Inr (rev bef @ i # aft)
      | None \<Rightarrow> Inr (rev bef @ i # aft))"

definition skip_list_replace_or_insert ::
  "'k key_ops \<Rightarrow> ('k, 'v) item list \<Rightarrow> ('k, 'v) item \<Rightarrow> ('k, 'v) item list" where
  "skip_list_replace_or_insert ops items i =
     (let (bef, aft) = iter_mut_new ops items (key i) in
      case iter_get aft of
        Some found \<Rightarrow> if key found = key i then rev bef @ i # iter_advance aft else rev bef @ i # aft
      | None \<Rightarrow> rev bef @ i # aft)"

definition skip_list_erase ::
  "'k key_ops \<Rightarrow> ('k, 'v) item list \<Rightarrow> 'k \<Rightarrow> ('k, 'v) item list" where
  "skip_list_erase ops items k =
     (let (bef, aft) = iter_mut_new ops items k in
      case iter_get aft of
        Some found \<Rightarrow> if key found = k then rev bef @ iter_advance aft else rev bef @ aft
      | None \<Rightarrow> rev bef @ aft)"

definition skip_list_merge_into ::
  "nat \<Rightarrow> 'k key_ops \<Rightarrow> ('k, 'v) merge_fn \<Rightarrow> ('k, 'v) item list \<Rightarrow> ('k, 'v) item \<Rightarrow> 'k \<Rightarrow>
   ('k, 'v) item list res" where
  "skip_list_merge_into fuel ops mf items i lower_bound =
     (let (bef, aft) = iter_mut_new ops items lower_bound in merge_into fuel ops mf bef aft i)"

section \<open>The tree\<close>

record ('k, 'v) lsm_tree =
  mutable_layer :: "('k, 'v) item list"
  immutable_layers :: "('k, 'v) item list list"

definition tree_new :: "('k, 'v) lsm_tree" where
  "tree_new = \<lparr>mutable_layer = [], immutable_layers = []\<rparr>"

definition tree_open :: "('k, 'v) item list list \<Rightarrow> ('k, 'v) lsm_tree" where
  "tree_open layers = \<lparr>mutable_layer = [], immutable_layers = layers\<rparr>"

definition set_layers :: "('k, 'v) item list list \<Rightarrow> ('k, 'v) lsm_tree \<Rightarrow> ('k, 'v) lsm_tree" where
  "set_layers layers t = t\<lparr>immutable_layers := layers\<rparr>"

definition append_layers :: "('k, 'v) item list list \<Rightarrow> ('k, 'v) lsm_tree \<Rightarrow> ('k, 'v) lsm_tree" where
  "append_layers layers t = t\<lparr>immutable_layers := immutable_layers t @ layers\<rparr>"

definition reset_immutable_layers :: "('k, 'v) lsm_tree \<Rightarrow> ('k, 'v) lsm_tree" where
  "reset_immutable_layers t = t\<lparr>immutable_layers := []\<rparr>"

definition seal :: "('k, 'v) lsm_tree \<Rightarrow> ('k, 'v) lsm_tree" where
  "seal t = t\<lparr>mutable_layer := [], immutable_layers := mutable_layer t # immutable_layers t\<rparr>"

definition tree_reset :: "('k, 'v) lsm_tree \<Rightarrow> ('k, 'v) lsm_tree" where
  "tree_reset t = t\<lparr>immutable_layers := [], mutable_layer := []\<rparr>"

definition layer_set :: "('k, 'v) lsm_tree \<Rightarrow> ('k, 'v) item list list" where
  "layer_set t = mutable_layer t # immutable_layers t"

definition immutable_layer_set :: "('k, 'v) lsm_tree \<Rightarrow> ('k, 'v) item list list" where
  "immutable_layer_set t = immutable_layers t"

definition tree_insert ::
  "'k key_ops \<Rightarrow> ('k, 'v) item \<Rightarrow> ('k, 'v) lsm_tree \<Rightarrow> ('k, 'v) lsm_tree res" where
  "tree_insert ops i t =
     bind_res (skip_list_insert ops (mutable_layer t) i) (\<lambda>l. Inr (t\<lparr>mutable_layer := l\<rparr>))"

definition tree_replace_or_insert ::
  "'k key_ops \<Rightarrow> ('k, 'v) item \<Rightarrow> ('k, 'v) lsm_tree \<Rightarrow> ('k, 'v) lsm_tree" where
  "tree_replace_or_insert ops i t =
     t\<lparr>mutable_layer := skip_list_replace_or_insert ops (mutable_layer t) i\<rparr>"

definition tree_merge_into ::
  "nat \<Rightarrow> 'k key_ops \<Rightarrow> ('k, 'v) merge_fn \<Rightarrow> ('k, 'v) item \<Rightarrow> 'k \<Rightarrow> ('k, 'v) lsm_tree \<Rightarrow>
   ('k, 'v) lsm_tree res" where
  "tree_merge_into fuel ops mf i lower_bound t =
     bind_res (skip_list_merge_into fuel ops mf (mutable_layer t) i lower_bound)
       (\<lambda>l. Inr (t\<lparr>mutable_layer := l\<rparr>))"

text \<open>\<^verbatim>\<open>compact_with_iterator\<close> writes every item of the iterator; the result is what it wrote.\<close>

fun compact_with_iterator ::
  "nat \<Rightarrow> 'k key_ops \<Rightarrow> ('k, 'v) merge_fn \<Rightarrow> ('k, 'v) merger_iterator \<Rightarrow> ('k, 'v) item list res" where
  "compact_with_iterator 0 ops mf iterator = Inl OutOfFuel"
| "compact_with_iterator (Suc fuel) ops mf iterator =
     bind_res (merger_get iterator) (\<lambda>opt.
       case opt of
         None \<Rightarrow> Inr []
       | Some item_ref \<Rightarrow>
           bind_res (merger_advance (Suc fuel) ops mf iterator) (\<lambda>iterator.
           bind_res (compact_with_iterator fuel ops mf iterator) (\<lambda>items.
             Inr (item_ref # items))))"

definition compact ::
  "nat \<Rightarrow> 'k key_ops \<Rightarrow> ('k, 'v) merge_fn \<Rightarrow> ('k, 'v) lsm_tree \<Rightarrow> ('k, 'v) item list res" where
  "compact fuel ops mf t =
     bind_res (merger_seek fuel ops mf (immutable_layer_set t) Unbounded)
       (compact_with_iterator fuel ops mf)"

definition find ::
  "nat \<Rightarrow> 'k key_ops \<Rightarrow> ('k, 'v) merge_fn \<Rightarrow> 'k \<Rightarrow> ('k, 'v) lsm_tree \<Rightarrow> ('k, 'v) item option res" where
  "find fuel ops mf search_key t =
     bind_res (merger_seek fuel ops mf (layer_set t) (Included search_key)) (\<lambda>iter.
     bind_res (merger_get iter) (\<lambda>opt.
       Inr (case opt of
              Some i \<Rightarrow> if key i = search_key then Some i else None
            | None \<Rightarrow> None)))"

end
