(* ===== verification/Lsm_Merge_Laws.thy ===== *)
theory Lsm_Merge_Laws
  imports Lsm_Merge
begin

text \<open>
  What a merge function owes to the merger, and what the merger then delivers.

  A key stands for the half-open interval of points \<open>{lo k..<hi k}\<close> of a linear order; an item gives
  each of its points a meaning (\<open>val\<close>). Lower bounds are compared by the first point and then by
  \<open>tie\<close> (the end of the range, for keys that compare it too). A layer is a list of items whose intervals are disjoint and
  ascending. The meaning of a stack of layers at a point is that of the newest layer (the one with
  the least index) that has an item there. The locale \<open>merge_laws\<close> states the contract of a merge
  function: what it returns may reorganise the two items it is given, but not the meaning of any
  point, in any stack of layers the two items can be part of.
\<close>

section \<open>Meaning of layers\<close>

record ('k, 'v, 'p, 'w) msem =
  lo :: "'k \<Rightarrow> 'p"
  hi :: "'k \<Rightarrow> 'p"
  tie :: "'k \<Rightarrow> nat"
  val :: "('k, 'v) item \<Rightarrow> 'p \<Rightarrow> 'w"
  ok :: "('k, 'v) item \<Rightarrow> bool"
  weight :: "('k, 'v) item \<Rightarrow> nat"

definition item_at :: "('k, 'v, 'p::linorder, 'w) msem \<Rightarrow> ('k, 'v) item \<Rightarrow> 'p \<Rightarrow> 'w option" where
  "item_at S x p = (if lo S (key x) \<le> p \<and> p < hi S (key x) then Some (val S x p) else None)"

fun layer_at :: "('k, 'v, 'p::linorder, 'w) msem \<Rightarrow> ('k, 'v) item list \<Rightarrow> 'p \<Rightarrow> 'w option" where
  "layer_at S [] p = None"
| "layer_at S (x # xs) p = (case item_at S x p of Some w \<Rightarrow> Some w | None \<Rightarrow> layer_at S xs p)"

fun layers_at :: "('k, 'v, 'p::linorder, 'w) msem \<Rightarrow> ('k, 'v) item list list \<Rightarrow> 'p \<Rightarrow> 'w option" where
  "layers_at S [] p = None"
| "layers_at S (l # ls) p = (case layer_at S l p of Some w \<Rightarrow> Some w | None \<Rightarrow> layers_at S ls p)"

fun layer_ok :: "('k, 'v, 'p::linorder, 'w) msem \<Rightarrow> ('k, 'v) item list \<Rightarrow> bool" where
  "layer_ok S [] = True"
| "layer_ok S (x # xs) =
     (ok S x \<and> list_all (\<lambda>y. hi S (key x) \<le> lo S (key y)) xs \<and> layer_ok S xs)"

definition layer_weight :: "('k, 'v, 'p, 'w) msem \<Rightarrow> ('k, 'v) item list \<Rightarrow> nat" where
  "layer_weight S xs = sum_list (map (weight S) xs)"

section \<open>The contract of a merge function\<close>

definition op_item :: "('k, 'v) item_op \<Rightarrow> ('k, 'v) item \<Rightarrow> ('k, 'v) item option" where
  "op_item op i = (case op of Keep \<Rightarrow> Some i | Discard \<Rightarrow> None | Replace r \<Rightarrow> Some r)"

definition opt_at :: "('k, 'v, 'p::linorder, 'w) msem \<Rightarrow> ('k, 'v) item option \<Rightarrow> 'p \<Rightarrow> 'w option" where
  "opt_at S ox p = (case ox of None \<Rightarrow> None | Some x \<Rightarrow> item_at S x p)"

definition opt_weight :: "('k, 'v, 'p, 'w) msem \<Rightarrow> ('k, 'v) item option \<Rightarrow> nat" where
  "opt_weight S ox = (case ox of None \<Rightarrow> 0 | Some x \<Rightarrow> weight S x)"

text \<open>
  The newer of two meanings, given the indices of the layers they come from, without and with the
  index of the layer that wins.
\<close>

definition newer :: "nat \<Rightarrow> 'w option \<Rightarrow> nat \<Rightarrow> 'w option \<Rightarrow> 'w option" where
  "newer il a ir b =
     (if il < ir then (case a of None \<Rightarrow> b | Some _ \<Rightarrow> a) else (case b of None \<Rightarrow> a | Some _ \<Rightarrow> b))"

definition winner :: "nat \<Rightarrow> 'w option \<Rightarrow> nat \<Rightarrow> 'w option \<Rightarrow> (nat \<times> 'w) option" where
  "winner il a ir b = newer il (map_option (Pair il) a) ir (map_option (Pair ir) b)"

definition adjacent :: "nat \<Rightarrow> nat \<Rightarrow> bool" where
  "adjacent il ir = (ir = Suc il \<or> il = Suc ir)"

definition within :: "('k, 'v, 'p::linorder, 'w) msem \<Rightarrow> 'p \<Rightarrow> 'p \<Rightarrow> ('k, 'v) item option \<Rightarrow> bool" where
  "within S a b ox = (case ox of None \<Rightarrow> True | Some x \<Rightarrow> ok S x \<and> a \<le> lo S (key x) \<and> hi S (key x) \<le> b)"

definition emit_post ::
  "('k, 'v, 'p::linorder, 'w) msem \<Rightarrow> ('k, 'v) item \<Rightarrow> ('k, 'v) item \<Rightarrow> ('k, 'v) item option \<Rightarrow>
   ('k, 'v) item option \<Rightarrow> ('k, 'v) item option \<Rightarrow> bool" where
  "emit_post S i j e oi oj =
     (case e of
        None \<Rightarrow> True
      | Some z \<Rightarrow>
          ok S z \<and> lo S (key i) \<le> lo S (key z) \<and> hi S (key z) \<le> lo S (key j) \<and>
          (\<exists>x. oi = Some x \<and> lo S (key x) = hi S (key z)) \<and>
          (\<forall>y. oj = Some y \<longrightarrow> hi S (key z) \<le> lo S (key y)) \<and>
          (\<forall>p. item_at S z p \<noteq> None \<longrightarrow> item_at S z p = item_at S i p))"

text \<open>
  The contract: what is left of the items stays within them and does not extend their ends, the
  total weight shrinks, the emitted item agrees with the left item and precedes everything else, what is
  left of the left item follows it directly, and at every other point the newer of the two items keeps its meaning. The layer it comes from must
  not change either at points where other layers may have items, unless the two layers are adjacent.
\<close>

definition merge_post ::
  "('k, 'v, 'p::linorder, 'w) msem \<Rightarrow> nat \<Rightarrow> ('k, 'v) item \<Rightarrow> nat \<Rightarrow> ('k, 'v) item \<Rightarrow>
   ('k, 'v) merge_result \<Rightarrow> bool" where
  "merge_post S il i ir j r =
     (case r of
        EmitLeft \<Rightarrow> hi S (key i) \<le> lo S (key j)
      | Other e opl opr \<Rightarrow>
          let oi = op_item opl i; oj = op_item opr j in
          lo S (key j) \<le> hi S (key i) \<and>
          within S (lo S (key i)) (hi S (key i)) oi \<and>
          within S (lo S (key i)) (hi S (key j)) oj \<and>
          opt_weight S oi + opt_weight S oj < weight S i + weight S j \<and>
          emit_post S i j e oi oj \<and>
          (\<forall>p. opt_at S e p = None \<longrightarrow>
             newer il (opt_at S oi p) ir (opt_at S oj p) = newer il (item_at S i p) ir (item_at S j p) \<and>
             (p < lo S (key j) \<or> adjacent il ir \<or>
              winner il (opt_at S oi p) ir (opt_at S oj p) = winner il (item_at S i p) ir (item_at S j p))))"

definition precedes :: "('k, 'v, 'p::linorder, 'w) msem \<Rightarrow> nat \<Rightarrow> ('k, 'v) item \<Rightarrow> nat \<Rightarrow> ('k, 'v) item \<Rightarrow> bool" where
  "precedes S il i ir j =
     (lo S (key i) < lo S (key j) \<or>
      lo S (key i) = lo S (key j) \<and>
        (tie S (key i) < tie S (key j) \<or> tie S (key i) = tie S (key j) \<and> il < ir))"

lemma newer_simps [simp]:
  "newer il None ir b = b" "newer il a ir None = a"
  by (auto simp: newer_def split: option.splits)

text \<open>Shapes of merge results that meet the contract.\<close>

lemma post_keep_discard:
  assumes "ok S i" "0 < weight S j" "lo S (key j) < hi S (key j)" "il < ir"
    "lo S (key i) \<le> lo S (key j)" "hi S (key j) \<le> hi S (key i)"
  shows "merge_post S il i ir j (Other None Keep Discard)"
proof -
  have "item_at S j p = None" if "item_at S i p = None" for p
    using that assms(5,6) by (auto simp: item_at_def split: if_splits)
  then have "winner il (item_at S i p) ir None = winner il (item_at S i p) ir (item_at S j p)"
    "newer il (item_at S i p) ir None = newer il (item_at S i p) ir (item_at S j p)" for p
    using assms(4) by (auto simp: winner_def newer_def split: option.splits)
  then show ?thesis
    using assms by (auto simp: merge_post_def Let_def within_def op_item_def opt_weight_def emit_post_def opt_at_def)
qed

lemma post_trim_right:
  assumes "ok S i" "ok S j'" "weight S j' < weight S j" "il < ir"
    "lo S (key i) \<le> lo S (key j)" "lo S (key j) < hi S (key i)" "hi S (key i) < hi S (key j)"
    "lo S (key j') = hi S (key i)" "hi S (key j') = hi S (key j)"
    "\<And>p. hi S (key i) \<le> p \<Longrightarrow> p < hi S (key j) \<Longrightarrow> val S j' p = val S j p"
  shows "merge_post S il i ir j (Other None Keep (Replace j'))"
proof -
  have "item_at S j' p = item_at S j p" if "item_at S i p = None" for p
    using that assms(5-10) by (auto simp: item_at_def split: if_splits)
  then have "winner il (item_at S i p) ir (item_at S j' p) = winner il (item_at S i p) ir (item_at S j p)"
    "newer il (item_at S i p) ir (item_at S j' p) = newer il (item_at S i p) ir (item_at S j p)" for p
    using assms(4) by (auto simp: winner_def newer_def split: option.splits)
  then show ?thesis
    using assms(1-9) by (auto simp: merge_post_def Let_def within_def op_item_def opt_weight_def emit_post_def opt_at_def)
qed

lemma post_split_left:
  assumes "ok S z" "ok S i'" "ok S j" "weight S i' < weight S i"
    "lo S (key i) < lo S (key j)" "lo S (key j) < hi S (key i)" "lo S (key j) < hi S (key j)"
    "lo S (key z) = lo S (key i)" "hi S (key z) = lo S (key j)"
    "lo S (key i') = lo S (key j)" "hi S (key i') = hi S (key i)"
    "\<And>p. lo S (key i) \<le> p \<Longrightarrow> p < lo S (key j) \<Longrightarrow> val S z p = val S i p"
    "\<And>p. lo S (key j) \<le> p \<Longrightarrow> p < hi S (key i) \<Longrightarrow> val S i' p = val S i p"
  shows "merge_post S il i ir j (Other (Some z) (Replace i') Keep)"
proof -
  have "item_at S i' p = item_at S i p" if "item_at S z p = None" for p
    using that assms(5-11,13) by (auto simp: item_at_def split: if_splits)
  moreover have "item_at S z p = item_at S i p" if "item_at S z p \<noteq> None" for p
    using that assms(5-10,12) by (auto simp: item_at_def split: if_splits)
  ultimately show ?thesis
    using assms(1-11)
    by (auto simp: merge_post_def Let_def within_def op_item_def opt_weight_def emit_post_def opt_at_def)
qed

text \<open>Two items of one meaning in adjacent layers that touch or overlap become one.\<close>

lemma post_join_right:
  assumes "ok S j'" "weight S j' < weight S i + weight S j" "adjacent il ir"
    "lo S (key i) \<le> lo S (key j)" "lo S (key j) \<le> hi S (key i)" "hi S (key i) \<le> hi S (key j)"
    "lo S (key j') = lo S (key i)" "hi S (key j') = hi S (key j)"
    "\<And>p. val S j' p = w" "\<And>p. val S i p = w" "\<And>p. val S j p = w"
  shows "merge_post S il i ir j (Other None Discard (Replace j'))"
proof -
  have "newer il None ir (item_at S j' p) = newer il (item_at S i p) ir (item_at S j p)" for p
    using assms(4-11) by (auto simp: item_at_def newer_def split: if_splits)
  then show ?thesis
    using assms(1-8)
    by (auto simp: merge_post_def Let_def within_def op_item_def opt_weight_def emit_post_def opt_at_def)
qed

lemma post_join_left:
  assumes "ok S i" "0 < weight S j" "adjacent il ir"
    "lo S (key i) \<le> lo S (key j)" "lo S (key j) < hi S (key j)" "hi S (key j) \<le> hi S (key i)"
    "\<And>p. val S i p = w" "\<And>p. val S j p = w"
  shows "merge_post S il i ir j (Other None Keep Discard)"
proof -
  have "newer il (item_at S i p) ir None = newer il (item_at S i p) ir (item_at S j p)" for p
    using assms(4-8) by (auto simp: item_at_def newer_def split: if_splits)
  then show ?thesis
    using assms(1-6)
    by (auto simp: merge_post_def Let_def within_def op_item_def opt_weight_def emit_post_def opt_at_def)
qed

locale merge_laws =
  fixes ops :: "'k key_ops"
    and mf :: "('k, 'v) merge_fn"
    and S :: "('k, 'v, 'p::linorder, 'w) msem"
  assumes ok_nonempty: "ok S x \<Longrightarrow> lo S (key x) < hi S (key x)"
    and ok_weight: "ok S x \<Longrightarrow> 0 < weight S x"
    and cmp_lower: "ok S x \<Longrightarrow> ok S y \<Longrightarrow>
          cmp_lower_bound ops (key x) (key y) =
            cmp_then (cmp (lo S (key x)) (lo S (key y))) (cmp (tie S (key x)) (tie S (key y)))"
    and merge_law: "ok S i \<Longrightarrow> ok S j \<Longrightarrow> il \<noteq> ir \<Longrightarrow> precedes S il i ir j \<Longrightarrow>
          \<exists>r. mf (il, i) (ir, j) = Inr r \<and> merge_post S il i ir j r"

section \<open>Stacks of layers\<close>

text \<open>
  A stack assigns to each layer index the items left in that layer. \<open>sees F p w\<close> says that the
  newest layer of \<open>F\<close> with an item at \<open>p\<close> gives it the meaning \<open>w\<close>.
\<close>

definition sees :: "('k, 'v, 'p::linorder, 'w) msem \<Rightarrow> (nat \<Rightarrow> ('k, 'v) item list) \<Rightarrow> 'p \<Rightarrow> 'w \<Rightarrow> bool" where
  "sees S F p w = (\<exists>k. layer_at S (F k) p = Some w \<and> (\<forall>k' < k. layer_at S (F k') p = None))"

abbreviation bounded_below :: "('k, 'v, 'p::linorder, 'w) msem \<Rightarrow> (nat \<Rightarrow> ('k, 'v) item list) \<Rightarrow> 'p \<Rightarrow> bool" where
  "bounded_below S F b \<equiv> (\<forall>k. \<forall>x \<in> set (F k). b \<le> lo S (key x))"

definition emitted ::
  "('k, 'v, 'p::linorder, 'w) msem \<Rightarrow> (nat \<Rightarrow> ('k, 'v) item list) \<Rightarrow> ('k, 'v) item \<Rightarrow>
   (nat \<Rightarrow> ('k, 'v) item list) \<Rightarrow> bool" where
  "emitted S F e G \<longleftrightarrow>
     ok S e \<and>
     (\<forall>p w. sees S F p w \<longleftrightarrow> item_at S e p = Some w \<or> item_at S e p = None \<and> sees S G p w) \<and>
     (\<forall>k. \<forall>x \<in> set (G k). hi S (key e) \<le> lo S (key x)) \<and>
     (\<forall>b. (\<forall>k. \<forall>x \<in> set (F k). b \<le> lo S (key x)) \<longrightarrow> b \<le> lo S (key e))"

lemma item_at_None:
  "item_at S x p = None \<longleftrightarrow> \<not> (lo S (key x) \<le> p \<and> p < hi S (key x))"
  by (simp add: item_at_def)

lemma layer_at_append:
  "layer_at S (xs @ ys) p = (case layer_at S xs p of Some w \<Rightarrow> Some w | None \<Rightarrow> layer_at S ys p)"
  by (induction xs) (auto split: option.splits)

lemma layer_at_None_below:
  "\<forall>x \<in> set xs. p < lo S (key x) \<Longrightarrow> layer_at S xs p = None"
  by (induction xs) (auto simp: item_at_def)

lemma layer_at_None_iff: "layer_at S xs p = None \<longleftrightarrow> (\<forall>x \<in> set xs. item_at S x p = None)"
  by (induction xs) (auto simp: item_at_def split: option.splits)

lemma layer_ok_append:
  "layer_ok S (xs @ ys) \<longleftrightarrow> layer_ok S xs \<and> layer_ok S ys \<and>
     (\<forall>x \<in> set xs. \<forall>y \<in> set ys. hi S (key x) \<le> lo S (key y))"
  by (induction xs) (auto simp: list_all_iff)

lemma layer_ok_ok: "layer_ok S xs \<Longrightarrow> x \<in> set xs \<Longrightarrow> ok S x"
  by (induction xs) auto

lemma layer_ok_filter: "layer_ok S l \<Longrightarrow> layer_ok S (filter P l)"
  by (induction l) (auto simp: list_all_iff)

text \<open>Filtering a layer by a predicate that the meaning of an item decides.\<close>

lemma layer_at_filter_meaning:
  assumes "layer_ok S l" "\<And>x q. x \<in> set l \<Longrightarrow> P x \<longleftrightarrow> V (val S x q)"
  shows "layer_at S (filter P l) q = (case layer_at S l q of None \<Rightarrow> None | Some w \<Rightarrow> if V w then Some w else None)"
  using assms
proof (induction l)
  case (Cons x l)
  have "item_at S y q = None" if "item_at S x q \<noteq> None" "y \<in> set l" for y
    using that Cons.prems(1) by (auto simp: item_at_def list_all_iff split: if_splits dest: order_less_le_trans)
  then have "layer_at S l q = None" if "item_at S x q \<noteq> None"
  proof -
    have "layer_at S ys q = None" if "\<forall>y \<in> set ys. item_at S y q = None" for ys
      using that by (induction ys) auto
    then show ?thesis using \<open>\<And>y. item_at S x q \<noteq> None \<Longrightarrow> y \<in> set l \<Longrightarrow> item_at S y q = None\<close> that by blast
  qed
  moreover have "P x \<longleftrightarrow> V w" if "item_at S x q = Some w" for w
    using that Cons.prems(2) [of x q] by (auto simp: item_at_def split: if_splits)
  ultimately show ?case using Cons by (auto split: option.splits)
qed simp

lemma layer_weight_simps [simp]:
  "layer_weight S [] = 0" "layer_weight S (x # xs) = weight S x + layer_weight S xs"
  "layer_weight S (xs @ ys) = layer_weight S xs + layer_weight S ys"
  by (simp_all add: layer_weight_def)

lemma sees_cong_except:
  assumes "\<And>k. k \<noteq> il \<Longrightarrow> k \<noteq> ir \<Longrightarrow> layer_at S (F k) p = layer_at S (G k) p"
    and "winner il (layer_at S (F il) p) ir (layer_at S (F ir) p) =
         winner il (layer_at S (G il) p) ir (layer_at S (G ir) p)" "il \<noteq> ir"
  shows "sees S F p w \<longleftrightarrow> sees S G p w"
proof -
  have imp: "sees S G p w"
    if F: "sees S F p w"
      and eq: "\<And>k. k \<noteq> il \<Longrightarrow> k \<noteq> ir \<Longrightarrow> layer_at S (F k) p = layer_at S (G k) p"
      and win: "winner il (layer_at S (F il) p) ir (layer_at S (F ir) p) =
         winner il (layer_at S (G il) p) ir (layer_at S (G ir) p)" for F G
  proof -
    from F obtain k where k: "layer_at S (F k) p = Some w" "\<forall>k' < k. layer_at S (F k') p = None"
      by (auto simp: sees_def)
    have "layer_at S (G k) p = Some w \<and> (\<forall>k' < k. layer_at S (G k') p = None)"
    proof
      show "layer_at S (G k) p = Some w"
        using k win assms(3) eq [of k]
        by (cases "k = il \<or> k = ir")
          (auto simp: winner_def newer_def map_option_case split: if_splits option.splits)
      show "\<forall>k' < k. layer_at S (G k') p = None"
      proof (intro allI impI)
        fix k' assume "k' < k"
        then have "layer_at S (F k') p = None" using k(2) by blast
        with \<open>k' < k\<close> k win assms(3) eq [of k'] show "layer_at S (G k') p = None"
          by (cases "k' = il \<or> k' = ir")
            (auto simp: winner_def newer_def map_option_case split: if_splits option.splits)
      qed
    qed
    then show ?thesis by (auto simp: sees_def)
  qed
  show ?thesis
    using imp [of F G] imp [of G F] assms by (metis (full_types))
qed

lemma sees_two:
  assumes "\<And>k. k \<noteq> il \<Longrightarrow> k \<noteq> ir \<Longrightarrow> layer_at S (F k) p = None" "il \<noteq> ir"
  shows "sees S F p w \<longleftrightarrow> newer il (layer_at S (F il) p) ir (layer_at S (F ir) p) = Some w"
proof
  assume "sees S F p w"
  then obtain k where k: "layer_at S (F k) p = Some w" "\<forall>k' < k. layer_at S (F k') p = None"
    by (auto simp: sees_def)
  from k(1) assms(1) [of k] have "k = il \<or> k = ir" by auto
  with k assms(2) show "newer il (layer_at S (F il) p) ir (layer_at S (F ir) p) = Some w"
    by (auto simp: newer_def not_less order.strict_iff_order split: option.splits)
next
  assume w: "newer il (layer_at S (F il) p) ir (layer_at S (F ir) p) = Some w"
  define k where "k = (if layer_at S (F il) p \<noteq> None \<and> (il < ir \<or> layer_at S (F ir) p = None)
    then il else ir)"
  have "layer_at S (F k) p = Some w"
    using w assms(2) by (auto simp: k_def newer_def split: if_splits option.splits)
  moreover have "layer_at S (F k') p = None" if "k' < k" for k'
    using that assms w by (cases "k' = il \<or> k' = ir")
      (auto simp: k_def newer_def split: if_splits option.splits)
  ultimately show "sees S F p w" by (auto simp: sees_def)
qed

lemma sees_adjacent:
  assumes "\<And>k. k \<noteq> il \<Longrightarrow> k \<noteq> ir \<Longrightarrow> layer_at S (F k) p = layer_at S (G k) p"
    and "newer il (layer_at S (F il) p) ir (layer_at S (F ir) p) =
         newer il (layer_at S (G il) p) ir (layer_at S (G ir) p)" "adjacent il ir"
  shows "sees S F p w \<longleftrightarrow> sees S G p w"
proof -
  have imp: "sees S G p w"
    if F: "sees S F p w"
      and eq: "\<And>k. k \<noteq> il \<Longrightarrow> k \<noteq> ir \<Longrightarrow> layer_at S (F k) p = layer_at S (G k) p"
      and new: "newer il (layer_at S (F il) p) ir (layer_at S (F ir) p) =
         newer il (layer_at S (G il) p) ir (layer_at S (G ir) p)" for F G
  proof -
    from F obtain k where k: "layer_at S (F k) p = Some w" "\<forall>k' < k. layer_at S (F k') p = None"
      by (auto simp: sees_def)
    show ?thesis
    proof (cases "k = il \<or> k = ir")
      case True
      then have "newer il (layer_at S (G il) p) ir (layer_at S (G ir) p) = Some w"
        using new k assms(3)
        by (auto simp: newer_def adjacent_def split: if_splits option.splits)
      note G = this
      define k2 where "k2 = (if layer_at S (G (min il ir)) p \<noteq> None then min il ir else max il ir)"
      have k2: "k2 = il \<or> k2 = ir" "layer_at S (G k2) p = Some w"
        "\<And>k'. k' < k2 \<Longrightarrow> k' = il \<or> k' = ir \<Longrightarrow> layer_at S (G k') p = None"
        using assms(3) G
        by (auto simp: k2_def newer_def adjacent_def min_def max_def split: if_splits option.splits)
      have "layer_at S (G k') p = None" if "k' < k2" for k'
      proof (cases "k' = il \<or> k' = ir")
        case True
        with that show ?thesis by (rule k2(3))
      next
        case False
        then have "k' < k" using that k2(1) True assms(3) by (auto simp: adjacent_def)
        with False k(2) eq [of k'] show ?thesis by auto
      qed
      with k2(2) show ?thesis by (auto simp: sees_def)
    next
      case False
      have low: "layer_at S (G k') p = None" if "k' < k" for k'
      proof (cases "k' = il \<or> k' = ir")
        case True
        with that False assms(3) have "il < k" "ir < k" by (auto simp: adjacent_def)
        then have "newer il (layer_at S (G il) p) ir (layer_at S (G ir) p) = None"
          using new k(2) by simp
        with True show ?thesis by (auto simp: newer_def split: if_splits option.splits)
      qed (use that k(2) eq in auto)
      with k(1) False eq [of k] show ?thesis by (auto simp: sees_def)
    qed
  qed
  show ?thesis
    using imp [of F G] imp [of G F] assms by (metis (full_types))
qed

definition opt_list :: "'a option \<Rightarrow> 'a list" where
  "opt_list ox = (case ox of None \<Rightarrow> [] | Some x \<Rightarrow> [x])"

lemma opt_list_simps [simp]: "opt_list None = []" "opt_list (Some x) = [x]"
  by (simp_all add: opt_list_def)

lemma case_option_id: "(case a of None \<Rightarrow> None | Some w \<Rightarrow> Some w) = a"
  by (cases a) simp_all

lemma opt_at_simps [simp]: "opt_at S None p = None" "opt_at S (Some x) p = item_at S x p"
  by (simp_all add: opt_at_def)

lemma layer_at_opt_list:
  "layer_at S (opt_list ox @ xs) p = (case opt_at S ox p of Some w \<Rightarrow> Some w | None \<Rightarrow> layer_at S xs p)"
  by (cases ox) (simp_all add: opt_at_def)

text \<open>Emitting an item that precedes everything else in the stack.\<close>

lemma sees_emit_first:
  assumes "F il = i # xs"
    and "\<And>k x. k \<noteq> il \<Longrightarrow> x \<in> set (F k) \<Longrightarrow> hi S (key i) \<le> lo S (key x)"
  shows "sees S F p w \<longleftrightarrow>
    item_at S i p = Some w \<or> item_at S i p = None \<and> sees S (F(il := xs)) p w"
proof (cases "item_at S i p")
  case None
  then show ?thesis
    using sees_cong_except [of il "Suc il" S F p "F(il := xs)" w] assms(1) by auto
next
  case (Some v)
  then have "p < hi S (key i)" by (simp add: item_at_def split: if_splits)
  then have "layer_at S (F k) p = None" if "k \<noteq> il" for k
    using assms(2) [OF that] by (intro layer_at_None_below) fastforce
  then show ?thesis
    using sees_two [of il "Suc il" S F p w] assms(1) Some by simp
qed

lemma emitted_first:
  assumes "F il = i # xs" "layer_ok S (i # xs)"
    and "\<And>k x. k \<noteq> il \<Longrightarrow> x \<in> set (F k) \<Longrightarrow> hi S (key i) \<le> lo S (key x)"
  shows "emitted S F i (F(il := xs))"
proof -
  have "hi S (key i) \<le> lo S (key x)" if "x \<in> set ((F(il := xs)) k)" for k x
    using that assms(2) assms(3) [of k x] by (auto simp: list_all_iff split: if_splits)
  moreover have "b \<le> lo S (key i)" if "bounded_below S F b" for b
    using that assms(1) by (metis list.set_intros(1))
  moreover have "ok S i" using assms(2) by simp
  ultimately show ?thesis
    using sees_emit_first [of F il i xs S] assms unfolding emitted_def by blast
qed

lemma opt_within_None:
  assumes "within S a b ox" "b \<le> p"
  shows "opt_at S ox p = None"
  using assms by (cases ox) (auto simp: within_def item_at_def)

lemma layer_ok_within:
  assumes "layer_ok S (i # xs)" "within S a b oi" "b \<le> hi S (key i)"
  shows "layer_ok S (opt_list oi @ xs)"
  using assms by (cases oi) (auto simp: within_def list_all_iff dest: order_trans)

text \<open>Replacing the two lowest items by what the merge function made of them.\<close>

context merge_laws
begin

lemma sees_merge:
  assumes F: "F il = i # xs" "F ir = j # ys" "il \<noteq> ir"
    and wf: "layer_ok S (F il)" "layer_ok S (F ir)"
    and others: "\<And>k x. k \<noteq> il \<Longrightarrow> k \<noteq> ir \<Longrightarrow> x \<in> set (F k) \<Longrightarrow> lo S (key j) \<le> lo S (key x)"
    and post: "merge_post S il i ir j (Other e opl opr)"
  defines "G \<equiv> F(il := opt_list (op_item opl i) @ xs, ir := opt_list (op_item opr j) @ ys)"
  shows "sees S F p w \<longleftrightarrow> opt_at S e p = Some w \<or> opt_at S e p = None \<and> sees S G p w"
proof -
  define oi oj where "oi = op_item opl i" and "oj = op_item opr j"
  note post' = post [unfolded merge_post_def, simplified, unfolded Let_def, folded oi_def oj_def]
  have xs: "\<And>x. x \<in> set xs \<Longrightarrow> hi S (key i) \<le> lo S (key x)" and "ok S i" "ok S j"
    and ys: "\<And>y. y \<in> set ys \<Longrightarrow> hi S (key j) \<le> lo S (key y)"
    using wf F by (auto simp: list_all_iff)
  have lt: "lo S (key j) < hi S (key j)" using \<open>ok S j\<close> by (rule ok_nonempty)
  have eqs: "layer_at S (F il) p = (case item_at S i p of Some w \<Rightarrow> Some w | None \<Rightarrow> layer_at S xs p)"
    "layer_at S (F ir) p = (case item_at S j p of Some w \<Rightarrow> Some w | None \<Rightarrow> layer_at S ys p)"
    "layer_at S (G il) p = (case opt_at S oi p of Some w \<Rightarrow> Some w | None \<Rightarrow> layer_at S xs p)"
    "layer_at S (G ir) p = (case opt_at S oj p of Some w \<Rightarrow> Some w | None \<Rightarrow> layer_at S ys p)"
    and same: "\<And>k. k \<noteq> il \<Longrightarrow> k \<noteq> ir \<Longrightarrow> layer_at S (F k) p = layer_at S (G k) p"
    using F by (simp_all add: G_def oi_def oj_def layer_at_opt_list)
  have xs_None: "item_at S i p = None \<and> opt_at S oi p = None" if "layer_at S xs p \<noteq> None"
  proof -
    have "hi S (key i) \<le> p"
      using that xs layer_at_None_below [of xs p S] by (meson le_less_trans linorder_not_le less_le_trans)
    then show ?thesis using post' by (auto simp: item_at_def intro: opt_within_None)
  qed
  have ys_None: "item_at S j p = None \<and> opt_at S oj p = None" if "layer_at S ys p \<noteq> None"
  proof -
    have "hi S (key j) \<le> p"
      using that ys layer_at_None_below [of ys p S] by (meson le_less_trans linorder_not_le less_le_trans)
    then show ?thesis using post' by (auto simp: item_at_def intro: opt_within_None)
  qed
  have below: "layer_at S (F k) p = None" if "k \<noteq> il" "k \<noteq> ir" "p < lo S (key j)" for k
    using others [OF that(1,2)] that(3) by (intro layer_at_None_below) fastforce
  have xs_below: "layer_at S xs p = None" "layer_at S ys p = None" if "p < lo S (key j)"
    using that xs ys post' lt by (auto intro!: layer_at_None_below) fastforce+
  show ?thesis
  proof (cases "opt_at S e p")
    case (Some v)
    then obtain z where z: "e = Some z" "item_at S z p = Some v" by (cases e) auto
    with post' have "p < lo S (key j)" "item_at S i p = Some v"
      by (auto simp: emit_post_def item_at_def split: if_splits)
    moreover from this(1) have "item_at S j p = None" by (auto simp: item_at_None)
    ultimately show ?thesis
      using sees_two [of il ir S F p w] F(3) below xs_below Some by (simp add: eqs)
  next
    case None
    with post' have new: "newer il (opt_at S oi p) ir (opt_at S oj p) =
        newer il (item_at S i p) ir (item_at S j p)"
      and cases: "p < lo S (key j) \<or> adjacent il ir \<or>
        winner il (opt_at S oi p) ir (opt_at S oj p) = winner il (item_at S i p) ir (item_at S j p)"
      by auto
    from cases consider "p < lo S (key j)" | "adjacent il ir"
      | "winner il (opt_at S oi p) ir (opt_at S oj p) = winner il (item_at S i p) ir (item_at S j p)"
      by blast
    then have "sees S F p w \<longleftrightarrow> sees S G p w"
    proof cases
      case 1
      then show ?thesis
        using sees_two [of il ir S F p w] sees_two [of il ir S G p w] F(3) below same new xs_below
        by (simp add: eqs case_option_id cong: option.case_cong)
    next
      case 2
      have "newer il (layer_at S (F il) p) ir (layer_at S (F ir) p) =
            newer il (layer_at S (G il) p) ir (layer_at S (G ir) p)"
        using new xs_None ys_None
        by (cases "layer_at S xs p"; cases "layer_at S ys p")
          (simp_all add: eqs case_option_id cong: option.case_cong)
      with 2 same show ?thesis by (intro sees_adjacent) auto
    next
      case 3
      have "winner il (layer_at S (F il) p) ir (layer_at S (F ir) p) =
            winner il (layer_at S (G il) p) ir (layer_at S (G ir) p)"
        using 3 xs_None ys_None
        by (cases "layer_at S xs p"; cases "layer_at S ys p")
          (auto simp: eqs winner_def case_option_id map_option_case cong: option.case_cong
            split: option.splits)
      with same F(3) show ?thesis by (intro sees_cong_except) auto
    qed
    with None show ?thesis by simp
  qed
qed

lemma emitted_merge:
  assumes F: "F il = i # xs" "F ir = j # ys" "il \<noteq> ir"
    and wf: "layer_ok S (F il)" "layer_ok S (F ir)"
    and others: "\<And>k x. k \<noteq> il \<Longrightarrow> x \<in> set (F k) \<Longrightarrow> lo S (key j) \<le> lo S (key x)"
    and post: "merge_post S il i ir j (Other (Some z) opl opr)"
  defines "G \<equiv> F(il := opt_list (op_item opl i) @ xs, ir := opt_list (op_item opr j) @ ys)"
  shows "emitted S F z G"
proof -
  have z: "ok S z" "lo S (key i) \<le> lo S (key z)" "hi S (key z) \<le> lo S (key j)"
    "\<And>x. op_item opl i = Some x \<Longrightarrow> hi S (key z) \<le> lo S (key x)"
    "\<And>y. op_item opr j = Some y \<Longrightarrow> hi S (key z) \<le> lo S (key y)" "lo S (key j) \<le> hi S (key i)"
    using post by (auto simp: merge_post_def emit_post_def Let_def)
  have "sees S F p w \<longleftrightarrow> item_at S z p = Some w \<or> item_at S z p = None \<and> sees S G p w" for p w
    using sees_merge [OF F wf _ post, of p w] others by (auto simp: G_def)
  moreover have "hi S (key z) \<le> lo S (key x)" if "x \<in> set (G k)" for k x
  proof -
    have "x \<in> set xs \<or> (k \<noteq> il \<and> x \<in> set (F k)) \<or> op_item opl i = Some x \<or> op_item opr j = Some x"
      using that F by (auto simp: G_def opt_list_def split: if_splits option.splits)
    moreover have "hi S (key i) \<le> lo S (key x)" if "x \<in> set xs"
      using that wf F by (auto simp: list_all_iff)
    ultimately show ?thesis using z others by (metis order_trans)
  qed
  moreover have "b \<le> lo S (key z)" if "bounded_below S F b" for b
    using that F(1) z(2) by (metis list.set_intros(1) order_trans)
  ultimately show ?thesis using z(1) unfolding emitted_def by blast
qed

lemma bounded_below_merge:
  assumes F: "F il = i # xs" "F ir = j # ys"
    and post: "merge_post S il i ir j (Other e opl opr)" and b: "bounded_below S F b"
  shows "bounded_below S (F(il := opt_list (op_item opl i) @ xs, ir := opt_list (op_item opr j) @ ys)) b"
proof (intro allI ballI)
  fix k x
  assume "x \<in> set ((F(il := opt_list (op_item opl i) @ xs, ir := opt_list (op_item opr j) @ ys)) k)"
  then consider "x \<in> set (F k)" | "op_item opl i = Some x" | "op_item opr j = Some x"
    using F by (auto simp: opt_list_def split: if_splits option.splits)
  moreover have "b \<le> lo S (key i)" using b F(1) by (metis list.set_intros(1))
  ultimately show "b \<le> lo S (key x)"
    using b post by cases (auto simp: merge_post_def Let_def within_def intro: order_trans)
qed

lemma layer_ok_merge:
  assumes "merge_post S il i ir j (Other e opl opr)" "layer_ok S (i # xs)" "layer_ok S (j # ys)"
  shows "layer_ok S (opt_list (op_item opl i) @ xs)" "layer_ok S (opt_list (op_item opr j) @ ys)"
  using assms by (auto simp: merge_post_def Let_def intro: layer_ok_within)

lemma weight_merge:
  assumes "merge_post S il i ir j (Other e opl opr)"
  shows "layer_weight S (opt_list (op_item opl i) @ xs) + layer_weight S (opt_list (op_item opr j) @ ys)
    < layer_weight S (i # xs) + layer_weight S (j # ys)"
proof -
  have "layer_weight S (opt_list ox) = opt_weight S ox" for ox
    by (cases ox) (simp_all add: opt_weight_def)
  with assms show ?thesis by (simp add: merge_post_def Let_def)
qed

end

end
