(* ===== verification/Lsm_Merge_Correct.thy ===== *)
theory Lsm_Merge_Correct
  imports Lsm_Merge_Laws "HOL-Library.Multiset"
begin

text \<open>
  Correctness of the merger over any merge function that meets the contract \<open>merge_laws\<close>: popping
  the heap gives the least item, one run of the inner loop emits the least part of the stack and
  keeps the meaning of the rest, and draining a merger that has pushed all its layers yields a
  well-formed layer with the same meaning as the stack of layers. The weight of the items bounds the
  number of iterations, so that is enough fuel.
\<close>

section \<open>Items left in an iterator and in a heap\<close>

fun raw_items :: "('k, 'v) raw_iterator \<Rightarrow> ('k, 'v) item list" where
  "raw_items RNone = []"
| "raw_items (RConst it) = it"
| "raw_items (RMut _ aft) = aft"

definition mli_items :: "('k, 'v) mli \<Rightarrow> ('k, 'v) item list" where
  "mli_items m =
     (case merge_item m of
        MNone \<Rightarrow> []
      | MItem i \<Rightarrow> i # raw_items (iter m)
      | MIter \<Rightarrow> raw_items (iter m))"

definition layer_map :: "('k, 'v) mli list \<Rightarrow> nat \<Rightarrow> ('k, 'v) item list" where
  "layer_map h k = concat (map mli_items (filter (\<lambda>m. layer_index m = k) h))"

definition mli_wf :: "('k, 'v, 'p::linorder, 'w) msem \<Rightarrow> ('k, 'v) mli \<Rightarrow> bool" where
  "mli_wf S m = (mli_items m \<noteq> [] \<and> layer_ok S (mli_items m) \<and> (\<exists>it. iter m = RConst it))"

definition heap_wf :: "('k, 'v, 'p::linorder, 'w) msem \<Rightarrow> ('k, 'v) mli list \<Rightarrow> bool" where
  "heap_wf S h = (distinct (map layer_index h) \<and> (\<forall>m \<in> set h. mli_wf S m))"

definition heap_weight :: "('k, 'v, 'p, 'w) msem \<Rightarrow> ('k, 'v) mli list \<Rightarrow> nat" where
  "heap_weight S h = sum_list (map (\<lambda>m. layer_weight S (mli_items m)) h)"

lemma layer_map_simps [simp]:
  "layer_map [] k = []"
  "layer_map (m # h) k = (if layer_index m = k then mli_items m @ layer_map h k else layer_map h k)"
  by (simp_all add: layer_map_def)

lemma layer_map_absent: "k \<notin> layer_index ` set h \<Longrightarrow> layer_map h k = []"
  by (induction h) auto

lemma layer_map_mem:
  "distinct (map layer_index h) \<Longrightarrow> m \<in> set h \<Longrightarrow> layer_map h (layer_index m) = mli_items m"
  by (induction h) (auto simp: layer_map_absent)

lemma layer_map_mset:
  assumes "mset h = mset h'" "distinct (map layer_index h)"
  shows "layer_map h = layer_map h'"
proof
  fix k
  have d': "distinct (map layer_index h')"
    using assms by (metis distinct_map mset_eq_imp_distinct_iff mset_map set_mset_mset)
  have "set h = set h'" using assms(1) by (metis set_mset_mset)
  then show "layer_map h k = layer_map h' k"
    using layer_map_mem [OF assms(2)] layer_map_mem [OF d']
    by (cases "k \<in> layer_index ` set h") (auto simp: layer_map_absent)
qed

lemma heap_wf_mset: "mset h = mset h' \<Longrightarrow> heap_wf S h \<longleftrightarrow> heap_wf S h'"
  unfolding heap_wf_def by (metis mset_eq_imp_distinct_iff mset_map set_mset_mset)

lemma heap_weight_mset: "mset h = mset h' \<Longrightarrow> heap_weight S h = heap_weight S h'"
  by (simp add: heap_weight_def flip: sum_mset_sum_list)

lemma heap_weight_Cons [simp]:
  "heap_weight S [] = 0" "heap_weight S (m # h) = layer_weight S (mli_items m) + heap_weight S h"
  by (simp_all add: heap_weight_def)

lemma heap_wf_simps [simp]:
  "heap_wf S []"
  "heap_wf S (m # h) \<longleftrightarrow> mli_wf S m \<and> layer_index m \<notin> layer_index ` set h \<and> heap_wf S h"
  by (auto simp: heap_wf_def)

lemma mli_item_hd: "mli_wf S m \<Longrightarrow> mli_item m = Inr (hd (mli_items m))"
  by (auto simp: mli_wf_def mli_item_def mli_items_def neq_Nil_conv split: merge_item.splits)

lemma mli_advance_tl:
  assumes "mli_wf S m"
  obtains m' where "mli_advance m = Inr m'" "layer_index m' = layer_index m"
    "mli_items m' = tl (mli_items m)" "raw_items (iter m') = tl (mli_items m)"
    "is_some m' \<longleftrightarrow> tl (mli_items m) \<noteq> []" "\<exists>it. iter m' = RConst it"
proof -
  from assms obtain it where it: "iter m = RConst it" "mli_items m \<noteq> []"
    by (auto simp: mli_wf_def)
  then show thesis
    using that
    by (cases "merge_item m"; cases it; cases "tl it")
      (auto simp: mli_advance_def set_item_from_iter_def mli_items_def is_some_def)
qed

context merge_laws
begin

lemma layer_ok_hd_le:
  assumes "layer_ok S xs" "x \<in> set xs"
  shows "lo S (key (hd xs)) \<le> lo S (key x)"
  using assms ok_nonempty by (cases xs) (auto simp: list_all_iff dest: less_imp_le order_trans)

lemma mli_wf_hd:
  assumes "mli_wf S m"
  shows "ok S (hd (mli_items m))" "0 < weight S (hd (mli_items m))"
proof -
  show "ok S (hd (mli_items m))" using assms by (auto simp: mli_wf_def intro: layer_ok_ok)
  then show "0 < weight S (hd (mli_items m))" by (rule ok_weight)
qed

lemma precedes_trans:
  "precedes S a i b j \<Longrightarrow> precedes S b j c k \<Longrightarrow> precedes S a i c k"
  by (auto simp: precedes_def)

lemma mli_cmp_precedes:
  assumes "mli_wf S x" "mli_wf S y" "layer_index x \<noteq> layer_index y"
  obtains c where "mli_cmp ops x y = Inr c"
    "c = Less \<longleftrightarrow> precedes S (layer_index y) (hd (mli_items y)) (layer_index x) (hd (mli_items x))"
    "c \<noteq> Less \<longleftrightarrow> precedes S (layer_index x) (hd (mli_items x)) (layer_index y) (hd (mli_items y))"
proof -
  have ok: "ok S (hd (mli_items x))" "ok S (hd (mli_items y))"
    using assms(1,2) by (auto dest: mli_wf_hd)
  define c where "c = cmp_then
      (cmp_then (cmp (lo S (key (hd (mli_items y)))) (lo S (key (hd (mli_items x)))))
        (cmp (tie S (key (hd (mli_items y)))) (tie S (key (hd (mli_items x))))))
      (cmp (layer_index y) (layer_index x))"
  have "mli_cmp ops x y = Inr c"
    using assms ok by (simp add: mli_cmp_def mli_item_hd cmp_lower c_def)
  moreover have less: "c = Less \<longleftrightarrow>
      precedes S (layer_index y) (hd (mli_items y)) (layer_index x) (hd (mli_items x))"
    by (auto simp: c_def cmp_then_eq precedes_def)
  moreover have "c \<noteq> Less \<longleftrightarrow>
      precedes S (layer_index x) (hd (mli_items x)) (layer_index y) (hd (mli_items y))"
    unfolding less precedes_def using assms(3)
    by (metis linorder_neqE_nat not_less_iff_gr_or_eq)
  ultimately show thesis by (rule that)
qed

lemma heap_max_least:
  assumes "heap_wf S (x # ys)"
  shows "\<exists>m rest. heap_max ops x ys = Inr (m, rest) \<and> mset (m # rest) = mset (x # ys) \<and>
    (\<forall>y \<in> set rest. precedes S (layer_index m) (hd (mli_items m)) (layer_index y) (hd (mli_items y)))"
  using assms
proof (induction ys arbitrary: x)
  case (Cons y ys)
  then have wf: "mli_wf S x" "mli_wf S y" "layer_index x \<noteq> layer_index y" by auto
  let ?pre = "\<lambda>a b. precedes S (layer_index a) (hd (mli_items a)) (layer_index b) (hd (mli_items b))"
  obtain c where c: "mli_cmp ops x y = Inr c" "c = Less \<longleftrightarrow> ?pre y x" "c \<noteq> Less \<longleftrightarrow> ?pre x y"
    using mli_cmp_precedes [OF wf] by blast
  define a b where "a = (if c = Less then y else x)" and "b = (if c = Less then x else y)"
  have ab: "?pre a b" using c by (auto simp: a_def b_def)
  have "heap_wf S (a # ys)" using Cons.prems by (auto simp: a_def)
  then obtain m rest where m: "heap_max ops a ys = Inr (m, rest)" "mset (m # rest) = mset (a # ys)"
    "\<forall>y \<in> set rest. ?pre m y" using Cons.IH by blast
  have "a = m \<or> a \<in> set rest" using m(2) by (metis list.set_intros(1) set_ConsD set_mset_mset)
  then have "?pre m b" using ab m(3) precedes_trans by blast
  moreover have "heap_max ops x (y # ys) = Inr (m, b # rest)"
    using m(1) c(1) by (auto simp: a_def b_def)
  moreover have "mset (m # b # rest) = mset (x # y # ys)"
    using m(2) by (auto simp: a_def b_def)
  ultimately show ?case using m(3) by (intro exI [of _ m] exI [of _ "b # rest"]) auto
qed simp

lemma heap_pop_least:
  assumes "heap_wf S h" "h \<noteq> []"
  obtains m rest where "heap_pop ops h = Inr (Some (m, rest))" "mset (m # rest) = mset h"
    "heap_wf S (m # rest)" "layer_map (m # rest) = layer_map h"
    "heap_weight S (m # rest) = heap_weight S h"
    "\<And>y. y \<in> set rest \<Longrightarrow>
       precedes S (layer_index m) (hd (mli_items m)) (layer_index y) (hd (mli_items y))"
proof -
  obtain x ys where h: "h = x # ys" using assms(2) by (cases h) auto
  then obtain m rest where m: "heap_max ops x ys = Inr (m, rest)" "mset (m # rest) = mset h"
    "\<forall>y \<in> set rest. precedes S (layer_index m) (hd (mli_items m)) (layer_index y) (hd (mli_items y))"
    using heap_max_least assms(1) by blast
  have wf: "heap_wf S (m # rest)" using heap_wf_mset [OF m(2)] assms(1) by blast
  have "layer_map (m # rest) = layer_map h"
    by (rule layer_map_mset [OF m(2)]) (use wf in \<open>simp only: heap_wf_def\<close>)
  moreover have "heap_pop ops h = Inr (Some (m, rest))" using m(1) by (simp add: heap_pop_def h)
  ultimately show thesis
    using that [of m rest] m(2,3) wf heap_weight_mset [OF m(2)] by blast
qed

end

section \<open>One emitted item\<close>

definition rest_map :: "('k, 'v) merger_iterator \<Rightarrow> nat \<Rightarrow> ('k, 'v) item list" where
  "rest_map st =
     (case current st of
        CIterator m \<Rightarrow> (layer_map (heap st))(layer_index m := tl (mli_items m))
      | _ \<Rightarrow> layer_map (heap st))"

definition rest_weight :: "('k, 'v, 'p, 'w) msem \<Rightarrow> ('k, 'v) merger_iterator \<Rightarrow> nat" where
  "rest_weight S st =
     (case current st of
        CIterator m \<Rightarrow> layer_weight S (tl (mli_items m)) + heap_weight S (heap st)
      | _ \<Rightarrow> heap_weight S (heap st))"

definition state_wf :: "('k, 'v, 'p::linorder, 'w) msem \<Rightarrow> ('k, 'v) merger_iterator \<Rightarrow> bool" where
  "state_wf S st =
     (heap_wf S (heap st) \<and>
      (\<forall>m. current st = CIterator m \<longrightarrow> mli_wf S m \<and> layer_index m \<notin> layer_index ` set (heap st)))"

lemma layer_map_Cons_fun:
  "layer_index m \<notin> layer_index ` set h \<Longrightarrow>
   layer_map (m # h) = (layer_map h)(layer_index m := mli_items m)"
  by (auto simp: fun_eq_iff layer_map_absent)

lemma update_item_heap:
  assumes m: "mli_wf S m" and new: "layer_ok S new"
    and new_def: "new = opt_list (op_item op (hd (mli_items m))) @ tl (mli_items m)"
  obtains m' ms where "maybe_advance op m = Inr m'"
    "\<And>st. update_item m' op st = st\<lparr>heap := ms @ heap st\<rparr>"
    "layer_index ` set ms \<subseteq> {layer_index m}"
    "\<And>h. heap_wf S h \<Longrightarrow> layer_index m \<notin> layer_index ` set h \<Longrightarrow>
       heap_wf S (ms @ h) \<and> layer_map (ms @ h) = (layer_map h)(layer_index m := new) \<and>
       heap_weight S (ms @ h) = layer_weight S new + heap_weight S h"
proof -
  note res = that
  obtain m1 where m1: "mli_advance m = Inr m1" "layer_index m1 = layer_index m"
    "mli_items m1 = tl (mli_items m)" "raw_items (iter m1) = tl (mli_items m)"
    "is_some m1 \<longleftrightarrow> tl (mli_items m) \<noteq> []" "\<exists>it. iter m1 = RConst it"
    using mli_advance_tl [OF m] by blast
  have one: thesis
    if "maybe_advance op m = Inr m'" "\<And>st. update_item m' op st = st\<lparr>heap := m2 # heap st\<rparr>"
      "mli_items m2 = new" "layer_index m2 = layer_index m" "\<exists>it. iter m2 = RConst it" "new \<noteq> []"
    for m' m2
  proof -
    have "mli_wf S m2" using that new by (simp add: mli_wf_def)
    then show thesis
      using that \<open>mli_wf S m2\<close>
      by (intro res [of m' "[m2]"])
        (auto simp: layer_map_absent)
  qed
  show thesis
  proof (cases op)
    case Keep
    with m new_def show thesis
      by (intro one [of m m])
        (auto simp: maybe_advance_def update_item_def heap_push_def op_item_def mli_wf_def)
  next
    case (Replace r)
    with m1 new_def show thesis
      by (intro one [of m1 "mli_replace r m1"])
        (auto simp: maybe_advance_def update_item_def heap_push_def op_item_def mli_replace_def
          mli_items_def)
  next
    case Discard
    show thesis
    proof (cases "tl (mli_items m) = []")
      case True
      with Discard m1 new_def show thesis
        by (intro res [of m1 "[]"])
          (auto simp: maybe_advance_def update_item_def op_item_def layer_map_absent fun_eq_iff)
    next
      case False
      with Discard m1 new_def show thesis
        by (intro one [of m1 m1])
          (auto simp: maybe_advance_def update_item_def heap_push_def op_item_def)
    qed
  qed
qed

text \<open>The two lowest iterators of a heap, as \<open>heap_pop\<close> delivers them.\<close>

definition two_lowest :: "('k, 'v, 'p::linorder, 'w) msem \<Rightarrow> ('k, 'v) mli \<Rightarrow> ('k, 'v) mli \<Rightarrow> ('k, 'v) mli list \<Rightarrow> bool" where
  "two_lowest S l s h \<longleftrightarrow>
     heap_wf S (l # s # h) \<and>
     precedes S (layer_index l) (hd (mli_items l)) (layer_index s) (hd (mli_items s)) \<and>
     (\<forall>m \<in> set h. precedes S (layer_index s) (hd (mli_items s)) (layer_index m) (hd (mli_items m)))"

lemma in_layer_map: "x \<in> set (layer_map h k) \<longleftrightarrow> (\<exists>m \<in> set h. layer_index m = k \<and> x \<in> set (mli_items m))"
  by (auto simp: layer_map_def)

context merge_laws
begin

lemma two_lowest_stack:
  assumes "two_lowest S l s h"
  defines "F \<equiv> layer_map (l # s # h)"
  shows "F (layer_index l) = hd (mli_items l) # tl (mli_items l)"
    and "F (layer_index s) = hd (mli_items s) # tl (mli_items s)"
    and "layer_index l \<noteq> layer_index s"
    and "layer_ok S (F (layer_index l))" "layer_ok S (F (layer_index s))"
    and "\<And>k x. k \<noteq> layer_index l \<Longrightarrow> x \<in> set (F k) \<Longrightarrow> lo S (key (hd (mli_items s))) \<le> lo S (key x)"
proof -
  from assms(1) have wf: "mli_wf S l" "mli_wf S s" "heap_wf S h" "layer_index l \<noteq> layer_index s"
    "layer_index l \<notin> layer_index ` set h" "layer_index s \<notin> layer_index ` set h"
    by (auto simp: two_lowest_def)
  show "F (layer_index l) = hd (mli_items l) # tl (mli_items l)"
    and "F (layer_index s) = hd (mli_items s) # tl (mli_items s)"
    using wf by (auto simp: F_def layer_map_absent mli_wf_def)
  show "layer_index l \<noteq> layer_index s" by (rule wf)
  show "layer_ok S (F (layer_index l))" "layer_ok S (F (layer_index s))"
    using wf by (auto simp: F_def layer_map_absent mli_wf_def)
  fix k x assume "k \<noteq> layer_index l" "x \<in> set (F k)"
  then obtain m where m: "m = s \<or> m \<in> set h" "x \<in> set (mli_items m)"
    by (auto simp: F_def in_layer_map split: if_splits)
  then have "layer_ok S (mli_items m)" using wf by (auto simp: heap_wf_def mli_wf_def)
  with m(2) have "lo S (key (hd (mli_items m))) \<le> lo S (key x)" by (intro layer_ok_hd_le)
  moreover have "lo S (key (hd (mli_items s))) \<le> lo S (key (hd (mli_items m)))"
    using m(1) assms(1) by (auto simp: two_lowest_def precedes_def less_imp_le)
  ultimately show "lo S (key (hd (mli_items s))) \<le> lo S (key x)" by simp
qed

lemma two_lowest_law:
  assumes "two_lowest S l s h"
  obtains r where "mf (layer_index l, hd (mli_items l)) (layer_index s, hd (mli_items s)) = Inr r"
    "merge_post S (layer_index l) (hd (mli_items l)) (layer_index s) (hd (mli_items s)) r"
proof -
  have "ok S (hd (mli_items l))" "ok S (hd (mli_items s))"
    using assms by (auto simp: two_lowest_def dest: mli_wf_hd)
  with assms obtain r where
    "mf (layer_index l, hd (mli_items l)) (layer_index s, hd (mli_items s)) = Inr r"
    "merge_post S (layer_index l) (hd (mli_items l)) (layer_index s) (hd (mli_items s)) r"
    using merge_law two_lowest_stack(3) [OF assms] unfolding two_lowest_def by blast
  then show thesis by (rule that)
qed

text \<open>An iterator all of whose items precede the rest of the heap is emitted as it stands.\<close>

lemma emitted_iterator:
  assumes "heap_wf S (l # h)"
    and "\<And>k x. k \<noteq> layer_index l \<Longrightarrow> x \<in> set (layer_map h k) \<Longrightarrow>
           hi S (key (hd (mli_items l))) \<le> lo S (key x)"
  shows "emitted S (layer_map (l # h)) (hd (mli_items l)) ((layer_map h)(layer_index l := tl (mli_items l)))"
proof -
  let ?i = "hd (mli_items l)" let ?xs = "tl (mli_items l)" let ?F = "layer_map (l # h)"
  have l: "mli_items l = ?i # ?xs" "layer_ok S (?i # ?xs)" "layer_index l \<notin> layer_index ` set h"
    using assms(1) by (auto simp: mli_wf_def)
  have F: "?F (layer_index l) = ?i # ?xs" "\<And>k. k \<noteq> layer_index l \<Longrightarrow> ?F k = layer_map h k"
    using l by (auto simp: layer_map_absent)
  have G: "?F(layer_index l := ?xs) = (layer_map h)(layer_index l := ?xs)"
    by (auto simp: fun_eq_iff)
  show ?thesis
    using emitted_first [of ?F "layer_index l" ?i ?xs S] F l(2) assms(2) unfolding G by auto
qed

lemma merge_step_other:
  assumes low: "two_lowest S l s h"
    and post: "merge_post S (layer_index l) (hd (mli_items l)) (layer_index s) (hd (mli_items s))
                (Other e opl opr)"
  shows "\<exists>l' s' h'. maybe_advance opl l = Inr l' \<and> maybe_advance opr s = Inr s' \<and>
    (\<forall>st. update_item s' opr (update_item l' opl (st\<lparr>heap := h\<rparr>)) = st\<lparr>heap := h'\<rparr>) \<and>
    heap_wf S h' \<and> heap_weight S h' < heap_weight S (l # s # h) \<and>
    layer_map h' = (layer_map (l # s # h))
      (layer_index l := opt_list (op_item opl (hd (mli_items l))) @ tl (mli_items l),
       layer_index s := opt_list (op_item opr (hd (mli_items s))) @ tl (mli_items s))"
proof -
  let ?xs = "opt_list (op_item opl (hd (mli_items l))) @ tl (mli_items l)"
  let ?ys = "opt_list (op_item opr (hd (mli_items s))) @ tl (mli_items s)"
  have wf: "mli_wf S l" "mli_wf S s" "heap_wf S h" "layer_index l \<noteq> layer_index s"
    "layer_index l \<notin> layer_index ` set h" "layer_index s \<notin> layer_index ` set h"
    using low by (auto simp: two_lowest_def)
  have items: "mli_items l = hd (mli_items l) # tl (mli_items l)"
    "mli_items s = hd (mli_items s) # tl (mli_items s)"
    using wf(1,2) by (simp_all add: mli_wf_def)
  have lok: "layer_ok S ?xs" "layer_ok S ?ys"
    using layer_ok_merge [OF post] items wf(1,2) unfolding mli_wf_def by metis+
  obtain l' ms where l': "maybe_advance opl l = Inr l'" "\<And>st. update_item l' opl st = st\<lparr>heap := ms @ heap st\<rparr>"
    "layer_index ` set ms \<subseteq> {layer_index l}"
    "\<And>h. heap_wf S h \<Longrightarrow> layer_index l \<notin> layer_index ` set h \<Longrightarrow> heap_wf S (ms @ h) \<and>
       layer_map (ms @ h) = (layer_map h)(layer_index l := ?xs) \<and>
       heap_weight S (ms @ h) = layer_weight S ?xs + heap_weight S h"
    using update_item_heap [OF wf(1) lok(1) refl] by metis
  obtain s' ns where s': "maybe_advance opr s = Inr s'" "\<And>st. update_item s' opr st = st\<lparr>heap := ns @ heap st\<rparr>"
    "\<And>h. heap_wf S h \<Longrightarrow> layer_index s \<notin> layer_index ` set h \<Longrightarrow> heap_wf S (ns @ h) \<and>
       layer_map (ns @ h) = (layer_map h)(layer_index s := ?ys) \<and>
       heap_weight S (ns @ h) = layer_weight S ?ys + heap_weight S h"
    using update_item_heap [OF wf(2) lok(2) refl] by metis
  have ms: "heap_wf S (ms @ h)" "layer_index s \<notin> layer_index ` set (ms @ h)"
    using l'(3,4) wf by auto
  have "heap_weight S (ns @ ms @ h) < heap_weight S (l # s # h)"
    using weight_merge [OF post, of "tl (mli_items l)" "tl (mli_items s)"] items
      s'(3) [OF ms] l'(4) [OF wf(3,5)] by simp
  then show ?thesis
    using l' s' s'(3) [OF ms] l'(4) [OF wf(3,5)]
    by (intro exI [of _ l'] exI [of _ s'] exI [of _ "ns @ ms @ h"]) (auto simp: fun_eq_iff)
qed

end

text \<open>The iterators that a state still has, the current one included.\<close>

definition queued :: "('k, 'v) merger_iterator \<Rightarrow> ('k, 'v) mli list" where
  "queued st = (case current st of CIterator m \<Rightarrow> m # heap st | _ \<Rightarrow> heap st)"

text \<open>What one run of the inner loop leaves behind.\<close>

definition loop_post ::
  "('k, 'v, 'p::linorder, 'w) msem \<Rightarrow> ('k, 'v) merger_iterator \<Rightarrow> bool \<Rightarrow> ('k, 'v) merger_iterator \<Rightarrow> bool" where
  "loop_post S st fin st' \<longleftrightarrow>
     pending_iterators st' = pending_iterators st \<and>
     (if fin then (\<forall>p w. \<not> sees S (layer_map (heap st)) p w) \<and> current st' = CNone \<and> heap st' = []
      else state_wf S st' \<and> rest_weight S st' < heap_weight S (heap st) \<and>
           heap_weight S (queued st') \<le> heap_weight S (heap st) \<and>
           (\<forall>k. layer_map (heap st) k = [] \<longrightarrow> layer_map (queued st') k = []) \<and>
           (\<forall>z. current st' = CItem z \<longrightarrow> (\<exists>k. \<exists>x \<in> set (rest_map st' k). lo S (key x) = hi S (key z))) \<and>
           (\<exists>e. merger_get st' = Inr (Some e) \<and> emitted S (layer_map (heap st)) e (rest_map st')))"

lemma emitted_trans:
  assumes "emitted S G e H" "\<And>p w. sees S F p w \<longleftrightarrow> sees S G p w"
    "\<And>b. bounded_below S F b \<Longrightarrow> bounded_below S G b"
  shows "emitted S F e H"
  using assms unfolding emitted_def by blast

lemma loop_post_step:
  assumes "loop_post S st1 fin st'" "pending_iterators st1 = pending_iterators st"
    "heap_weight S (heap st1) < heap_weight S (heap st)"
    "\<And>p w. sees S (layer_map (heap st)) p w \<longleftrightarrow> sees S (layer_map (heap st1)) p w"
    "\<And>b. bounded_below S (layer_map (heap st)) b \<Longrightarrow> bounded_below S (layer_map (heap st1)) b"
    "\<And>k. layer_map (heap st) k = [] \<Longrightarrow> layer_map (heap st1) k = []"
  shows "loop_post S st fin st'"
  using assms emitted_trans [of S "layer_map (heap st1)" _ "rest_map st'" "layer_map (heap st)"]
  unfolding loop_post_def by (auto split: if_splits)

lemma emit_iterator_post:
  assumes "heap_wf S (l # h)" "layer_map (l # h) = layer_map (heap st)"
    "heap_weight S (l # h) = heap_weight S (heap st)"
    "emitted S (layer_map (l # h)) (hd (mli_items l)) ((layer_map h)(layer_index l := tl (mli_items l)))"
    "0 < weight S (hd (mli_items l))"
  shows "loop_post S st False (st\<lparr>heap := h, current := CIterator l\<rparr>)"
proof -
  have "mli_items l = hd (mli_items l) # tl (mli_items l)" using assms(1) by (simp add: mli_wf_def)
  then have "layer_weight S (mli_items l) = weight S (hd (mli_items l)) + layer_weight S (tl (mli_items l))"
    by (metis layer_weight_simps(2))
  then show ?thesis
    using assms
    by (auto simp: loop_post_def state_wf_def rest_weight_def rest_map_def merger_get_def mli_item_hd queued_def
        simp del: layer_map_simps)
qed

context merge_laws
begin

lemma heap_pop_two:
  assumes "heap_wf S (l # h1)" "h1 \<noteq> []"
    "\<And>y. y \<in> set h1 \<Longrightarrow> precedes S (layer_index l) (hd (mli_items l)) (layer_index y) (hd (mli_items y))"
  obtains s h where "heap_pop ops h1 = Inr (Some (s, h))" "two_lowest S l s h"
    "layer_map (l # s # h) = layer_map (l # h1)" "heap_weight S (l # s # h) = heap_weight S (l # h1)"
proof -
  obtain s h where s: "heap_pop ops h1 = Inr (Some (s, h))" "mset (s # h) = mset h1" "heap_wf S (s # h)"
    "layer_map (s # h) = layer_map h1" "heap_weight S (s # h) = heap_weight S h1"
    "\<And>y. y \<in> set h \<Longrightarrow> precedes S (layer_index s) (hd (mli_items s)) (layer_index y) (hd (mli_items y))"
    using heap_pop_least [OF _ assms(2)] assms(1) by (metis heap_wf_simps(2))
  have "set h1 = insert s (set h)" using s(2) by (metis list.simps(15) set_mset_mset)
  then have "two_lowest S l s h" using assms(1,3) s(3,6) by (auto simp: two_lowest_def)
  moreover have "layer_map (l # s # h) = layer_map (l # h1)"
    "heap_weight S (l # s # h) = heap_weight S (l # h1)"
    using s(4,5) by (auto simp: fun_eq_iff)
  ultimately show thesis using that s(1) by blast
qed

text \<open>
  One iteration on two iterators: it emits an item, or it leaves a lighter heap of the same meaning
  with which the loop goes on.
\<close>

lemma merge_pair:
  assumes low: "two_lowest S l s h"
    and eqs: "layer_map (l # s # h) = layer_map (heap st)" "heap_weight S (l # s # h) = heap_weight S (heap st)"
    and pops: "heap_pop ops (heap st) = Inr (Some (l, h1))" "heap_pop ops h1 = Inr (Some (s, h))"
  shows "(\<exists>st'. merge_loop (Suc fuel) ops mf st = Inr (False, st') \<and> loop_post S st False st') \<or>
    (\<exists>h'. merge_loop (Suc fuel) ops mf st = merge_loop fuel ops mf (st\<lparr>heap := h'\<rparr>) \<and> heap_wf S h' \<and>
       heap_weight S h' < heap_weight S (heap st) \<and>
       (\<forall>p w. sees S (layer_map (heap st)) p w \<longleftrightarrow> sees S (layer_map h') p w) \<and>
       (\<forall>b. bounded_below S (layer_map (heap st)) b \<longrightarrow> bounded_below S (layer_map h') b) \<and>
       (\<forall>k. layer_map (heap st) k = [] \<longrightarrow> layer_map h' k = []))"
proof -
  obtain r where r: "mf (layer_index l, hd (mli_items l)) (layer_index s, hd (mli_items s)) = Inr r"
    "merge_post S (layer_index l) (hd (mli_items l)) (layer_index s) (hd (mli_items s)) r"
    using two_lowest_law [OF low] by blast
  have wf: "heap_wf S (l # s # h)" using low by (simp add: two_lowest_def)
  then have items: "mli_item l = Inr (hd (mli_items l))" "mli_item s = Inr (hd (mli_items s))"
    and pos: "0 < weight S (hd (mli_items l))"
    by (auto simp: mli_item_hd mli_wf_hd)
  note run = merge_loop.simps(2) [of fuel ops mf st] pops items r(1) and stack = two_lowest_stack [OF low]
  show ?thesis
  proof (cases r)
    case EmitLeft
    have "emitted S (layer_map (l # s # h)) (hd (mli_items l))
        ((layer_map (s # h))(layer_index l := tl (mli_items l)))"
      using stack(6) EmitLeft r(2)
      by (intro emitted_iterator [OF wf]) (fastforce simp: merge_post_def intro: order_trans)
    from emit_iterator_post [OF wf eqs this pos] show ?thesis
      using run EmitLeft by (simp add: heap_push_def)
  next
    case (Other e opl opr)
    note post = r(2) [unfolded Other]
    obtain l' s' h' where step: "maybe_advance opl l = Inr l'" "maybe_advance opr s = Inr s'"
      "\<And>st. update_item s' opr (update_item l' opl (st\<lparr>heap := h\<rparr>)) = st\<lparr>heap := h'\<rparr>"
      "heap_wf S h'" "heap_weight S h' < heap_weight S (l # s # h)"
      and map: "layer_map h' = (layer_map (l # s # h))
        (layer_index l := opt_list (op_item opl (hd (mli_items l))) @ tl (mli_items l),
         layer_index s := opt_list (op_item opr (hd (mli_items s))) @ tl (mli_items s))"
      using merge_step_other [OF low post] by metis
    have blank: "layer_map h' k = []" if "layer_map (heap st) k = []" for k
      using that stack(1,2) unfolding map eqs by auto
    show ?thesis
    proof (cases e)
      case None
      have "sees S (layer_map (heap st)) p w \<longleftrightarrow> sees S (layer_map h') p w" for p w
        using sees_merge [OF stack(1-5) _ post, of p w] stack(6) None unfolding map eqs by auto
      moreover have "bounded_below S (layer_map (heap st)) b \<Longrightarrow> bounded_below S (layer_map h') b" for b
        using bounded_below_merge [OF stack(1,2) post, of b] unfolding map eqs by blast
      ultimately show ?thesis
        using run Other None step(1-4) step(5) [unfolded eqs] blank by (intro disjI2 exI [of _ h']) simp
    next
      case (Some z)
      have "emitted S (layer_map (heap st)) z (layer_map h')"
        using emitted_merge [OF stack post [unfolded Some]] unfolding map eqs .
      moreover have "\<exists>k. \<exists>x \<in> set (layer_map h' k). lo S (key x) = hi S (key z)"
        using post stack(1-3) unfolding Some map
        by (intro exI [of _ "layer_index l"]) (auto simp: merge_post_def emit_post_def Let_def opt_list_def)
      ultimately show ?thesis
        using run Other Some step(1-4) step(5) [unfolded eqs] blank
        by (simp add: loop_post_def state_wf_def rest_weight_def rest_map_def merger_get_def queued_def)
    qed
  qed
qed

lemma merge_loop_emits:
  assumes "heap_wf S (heap st)" "heap_weight S (heap st) < fuel"
  shows "\<exists>fin st'. merge_loop fuel ops mf st = Inr (fin, st') \<and> loop_post S st fin st'"
  using assms
proof (induction fuel arbitrary: st)
  case (Suc fuel)
  show ?case
  proof (cases "heap st = []")
    case True
    then show ?thesis by (intro exI [of _ True]) (simp add: heap_pop_def loop_post_def sees_def)
  next
    case False
    obtain l h1 where l: "heap_pop ops (heap st) = Inr (Some (l, h1))" "heap_wf S (l # h1)"
      "layer_map (l # h1) = layer_map (heap st)" "heap_weight S (l # h1) = heap_weight S (heap st)"
      "\<And>y. y \<in> set h1 \<Longrightarrow> precedes S (layer_index l) (hd (mli_items l)) (layer_index y) (hd (mli_items y))"
      using heap_pop_least [OF Suc.prems(1) False] by metis
    show ?thesis
    proof (cases "h1 = []")
      case True
      have "0 < weight S (hd (mli_items l))"
        using l(2) by (simp add: mli_wf_hd)
      moreover have "emitted S (layer_map (l # h1)) (hd (mli_items l))
          ((layer_map h1)(layer_index l := tl (mli_items l)))"
        by (rule emitted_iterator [OF l(2)]) (simp add: True)
      ultimately show ?thesis
        using emit_iterator_post [OF l(2-4)] True False l(1) by (auto simp: heap_pop_def)
    next
      case ne: False
      obtain s h where s: "heap_pop ops h1 = Inr (Some (s, h))" "two_lowest S l s h"
        "layer_map (l # s # h) = layer_map (heap st)" "heap_weight S (l # s # h) = heap_weight S (heap st)"
        using heap_pop_two [OF l(2) ne l(5)] l(3,4) by metis
      from merge_pair [OF s(2-4) l(1) s(1), of fuel] show ?thesis
      proof (elim disjE exE conjE)
        fix h' assume h': "merge_loop (Suc fuel) ops mf st = merge_loop fuel ops mf (st\<lparr>heap := h'\<rparr>)"
          "heap_wf S h'" "heap_weight S h' < heap_weight S (heap st)"
          "\<forall>p w. sees S (layer_map (heap st)) p w \<longleftrightarrow> sees S (layer_map h') p w"
          "\<forall>b. bounded_below S (layer_map (heap st)) b \<longrightarrow> bounded_below S (layer_map h') b"
          "\<forall>k. layer_map (heap st) k = [] \<longrightarrow> layer_map h' k = []"
        obtain fin st' where run: "merge_loop fuel ops mf (st\<lparr>heap := h'\<rparr>) = Inr (fin, st')"
          and post: "loop_post S (st\<lparr>heap := h'\<rparr>) fin st'"
          using Suc.IH [of "st\<lparr>heap := h'\<rparr>"] Suc.prems(2) h'(2,3) by auto
        have "loop_post S st fin st'"
          by (rule loop_post_step [OF post]; simp) (use h'(3-6) in blast)+
        then show ?thesis using run h'(1) by auto
      qed blast
    qed
  qed
qed simp

end

end
