(* ===== verification/Lsm_Tree_Correct.thy ===== *)
theory Lsm_Tree_Correct
  imports Lsm_Tree Lsm_Merge_Correct
begin

text \<open>
  Correctness of compaction over any merge function that meets \<open>merge_laws\<close>: compacting the
  immutable layers writes a well-formed layer that has, at every point, the meaning of the stack of
  layers it replaces.
\<close>

section \<open>Draining a merger that has pushed all its layers\<close>

text \<open>A state of the merger from which every layer has been pushed, and its remaining meaning.\<close>

definition current_ok ::
  "('k, 'v, 'p::linorder, 'w) msem \<Rightarrow> (nat \<Rightarrow> ('k, 'v) item list) \<Rightarrow> ('k, 'v) merger_iterator \<Rightarrow> bool" where
  "current_ok S F st \<longleftrightarrow>
     pending_iterators st = [] \<and> state_wf S st \<and>
     (case current st of
        CNone \<Rightarrow> (\<forall>p w. \<not> sees S F p w)
      | _ \<Rightarrow> (\<exists>e. merger_get st = Inr (Some e) \<and> emitted S F e (rest_map st)))"

text \<open>What writing out a stack of layers from the front must give.\<close>

definition drained ::
  "('k, 'v, 'p::linorder, 'w) msem \<Rightarrow> (nat \<Rightarrow> ('k, 'v) item list) \<Rightarrow> ('k, 'v) item list \<Rightarrow> bool" where
  "drained S F out \<longleftrightarrow>
     layer_ok S out \<and> (\<forall>p w. layer_at S out p = Some w \<longleftrightarrow> sees S F p w) \<and>
     (\<forall>b. bounded_below S F b \<longrightarrow> (\<forall>x \<in> set out. b \<le> lo S (key x)))"

lemma merger_iterator_upd:
  "st\<lparr>current := c, heap := h\<rparr> = \<lparr>pending_iterators = pending_iterators st, heap = h, current = c\<rparr>"
  "st\<lparr>current := c\<rparr> = \<lparr>pending_iterators = pending_iterators st, heap = heap st, current = c\<rparr>"
  by (cases st; simp)+

lemma merger_iterator_eta:
  "pending_iterators st = ps \<Longrightarrow> heap st = h \<Longrightarrow> current st = c \<Longrightarrow>
   \<lparr>pending_iterators = ps, heap = h, current = c\<rparr> = st"
  by (cases st) simp

declare push_iterators.simps [simp del]

context merge_laws
begin

lemma needs_more_none_pending [simp]:
  "pending_iterators st = [] \<Longrightarrow> needs_more_iterators ops nk st = Inr False"
  by (simp add: needs_more_iterators_def)

lemma push_none_pending: "pending_iterators st = [] \<Longrightarrow> push_iterators ops nk bnd st = Inr st"
  by (simp add: push_iterators.simps needs_more_iterators_def)

lemma advance_impl_unbounded:
  assumes "heap_wf S (heap st)" "heap_weight S (heap st) < fuel" "pending_iterators st = []"
  shows "\<exists>st'. advance_impl fuel ops mf Unbounded st = Inr st' \<and>
    current_ok S (layer_map (heap st)) st' \<and> rest_weight S st' \<le> heap_weight S (heap st) \<and>
    (current st' \<noteq> CNone \<longrightarrow> rest_weight S st' < heap_weight S (heap st))"
proof -
  obtain fin st' where st': "merge_loop fuel ops mf st = Inr (fin, st')" "loop_post S st fin st'"
    using merge_loop_emits [OF assms(1,2)] by blast
  obtain f where f: "fuel = Suc f" using assms(2) by (cases fuel) auto
  show ?thesis
  proof (cases fin)
    case True
    with st' assms(3) show ?thesis
      by (auto simp: f loop_post_def current_ok_def state_wf_def rest_weight_def)
  next
    case False
    with st'(2) obtain e where e: "merger_get st' = Inr (Some e)" by (auto simp: loop_post_def)
    then have "current st' \<noteq> CNone" by (auto simp: merger_get_def)
    with False st' e assms(3) show ?thesis
      by (auto simp: f loop_post_def current_ok_def outside_bound_def split: current_item.splits)
  qed
qed

text \<open>Putting what is left of an iterator back on the heap.\<close>

lemma requeue:
  assumes "state_wf S st" "current st = CIterator m"
  obtains m' where "mli_advance m = Inr m'" "layer_index m' = layer_index m"
    "mli_items m' = tl (mli_items m)" "raw_items (iter m') = tl (mli_items m)"
    "is_some m' \<longleftrightarrow> tl (mli_items m) \<noteq> []" "\<exists>it. iter m' = RConst it"
    "heap_wf S (if is_some m' then m' # heap st else heap st)"
    "layer_map (if is_some m' then m' # heap st else heap st) = rest_map st"
    "heap_weight S (if is_some m' then m' # heap st else heap st) = rest_weight S st"
proof -
  from assms have m: "mli_wf S m" "layer_index m \<notin> layer_index ` set (heap st)" "heap_wf S (heap st)"
    by (auto simp: state_wf_def)
  obtain m' where m': "mli_advance m = Inr m'" "layer_index m' = layer_index m"
    "mli_items m' = tl (mli_items m)" "raw_items (iter m') = tl (mli_items m)"
    "is_some m' \<longleftrightarrow> tl (mli_items m) \<noteq> []" "\<exists>it. iter m' = RConst it"
    using mli_advance_tl [OF m(1)] by metis
  have "layer_ok S (tl (mli_items m))"
    using m(1) by (cases "mli_items m") (auto simp: mli_wf_def)
  then have wf: "mli_wf S m'" if "is_some m'" using m' that by (simp add: mli_wf_def)
  define h where "h = (if is_some m' then m' # heap st else heap st)"
  have "heap_wf S h" using m m' wf by (simp add: h_def)
  moreover have "layer_map h = rest_map st"
    using m m' by (auto simp: h_def rest_map_def assms(2) layer_map_absent fun_eq_iff)
  moreover have "heap_weight S h = rest_weight S st"
    using m' by (simp add: h_def rest_weight_def assms(2))
  ultimately show thesis using that m' unfolding h_def by blast
qed

text \<open>Advancing puts what is left of the current iterator back on the heap and emits the next item.\<close>

lemma merger_advance_requeues:
  assumes "state_wf S st" "pending_iterators st = []"
  shows "\<exists>h. heap_wf S h \<and> layer_map h = rest_map st \<and> heap_weight S h = rest_weight S st \<and>
    merger_advance fuel ops mf st = advance_impl fuel ops mf Unbounded \<lparr>pending_iterators = [], heap = h,
      current = (case current st of CIterator _ \<Rightarrow> CNone | c \<Rightarrow> c)\<rparr>"
proof (cases "current st")
  case (CIterator m)
  obtain m' where m': "mli_advance m = Inr m'"
    "heap_wf S (if is_some m' then m' # heap st else heap st)"
    "layer_map (if is_some m' then m' # heap st else heap st) = rest_map st"
    "heap_weight S (if is_some m' then m' # heap st else heap st) = rest_weight S st"
    using requeue [OF assms(1) CIterator] by metis
  then show ?thesis
    using assms(2) CIterator
    by (intro exI [of _ "if is_some m' then m' # heap st else heap st"])
      (auto simp: merger_advance_def next_key_and_bound_def take_iterator_def needs_more_iterators_def
        heap_push_def merger_iterator_upd)
next
  case (CItem i)
  with assms show ?thesis
    by (intro exI [of _ "heap st"])
      (simp add: merger_advance_def next_key_and_bound_def take_iterator_def push_none_pending
        rest_map_def rest_weight_def state_wf_def merger_iterator_eta)
next
  case CNone
  with assms show ?thesis
    by (intro exI [of _ "heap st"])
      (simp add: merger_advance_def next_key_and_bound_def take_iterator_def push_none_pending
        rest_map_def rest_weight_def state_wf_def merger_iterator_eta)
qed

lemma drained_Cons:
  assumes "emitted S F e G" "drained S G out"
  shows "drained S F (e # out)"
proof -
  have e: "ok S e" "bounded_below S G (hi S (key e))" "\<And>b. bounded_below S F b \<Longrightarrow> b \<le> lo S (key e)"
    using assms(1) by (auto simp: emitted_def)
  have "sees S F p w \<longleftrightarrow> item_at S e p = Some w \<or> item_at S e p = None \<and> sees S G p w" for p w
    using assms(1) by (simp add: emitted_def)
  moreover have "layer_at S out p = Some w \<longleftrightarrow> sees S G p w" for p w
    using assms(2) by (simp add: drained_def)
  ultimately have "layer_at S (e # out) p = Some w \<longleftrightarrow> sees S F p w" for p w
    by (cases "item_at S e p") simp_all
  moreover have "layer_ok S (e # out)" using assms(2) e(1,2) by (auto simp: drained_def list_all_iff)
  moreover have "\<forall>x \<in> set (e # out). b \<le> lo S (key x)" if "bounded_below S F b" for b
    using e(3) [OF that] assms(2) e(2) ok_nonempty [OF e(1)] by (fastforce simp: drained_def)
  ultimately show ?thesis by (simp add: drained_def)
qed

lemma compact_with_iterator_correct:
  assumes "current_ok S F st" "if current st = CNone then 0 < fuel else Suc (rest_weight S st) < fuel"
  shows "\<exists>out. compact_with_iterator fuel ops mf st = Inr out \<and> drained S F out"
  using assms
proof (induction fuel arbitrary: F st)
  case (Suc fuel)
  show ?case
  proof (cases "current st = CNone")
    case True
    with Suc.prems show ?thesis by (auto simp: current_ok_def merger_get_def drained_def)
  next
    case False
    with Suc.prems(1) obtain e where e: "merger_get st = Inr (Some e)" "emitted S F e (rest_map st)"
      by (auto simp: current_ok_def split: current_item.splits)
    have st: "state_wf S st" "pending_iterators st = []" using Suc.prems(1) by (auto simp: current_ok_def)
    obtain h where h: "heap_wf S h" "layer_map h = rest_map st" "heap_weight S h = rest_weight S st"
      "merger_advance (Suc fuel) ops mf st = advance_impl (Suc fuel) ops mf Unbounded
         \<lparr>pending_iterators = [], heap = h, current = (case current st of CIterator _ \<Rightarrow> CNone | c \<Rightarrow> c)\<rparr>"
      using merger_advance_requeues [OF st, of "Suc fuel"] by auto
    then obtain st' where st': "merger_advance (Suc fuel) ops mf st = Inr st'"
      "current_ok S (rest_map st) st'" "rest_weight S st' \<le> rest_weight S st"
      "current st' \<noteq> CNone \<longrightarrow> rest_weight S st' < rest_weight S st"
      using advance_impl_unbounded [of "\<lparr>pending_iterators = [], heap = h,
        current = (case current st of CIterator _ \<Rightarrow> CNone | c \<Rightarrow> c)\<rparr>" "Suc fuel"]
        Suc.prems(2) False by auto
    have "if current st' = CNone then 0 < fuel else Suc (rest_weight S st') < fuel"
      using st'(4) Suc.prems(2) False by auto
    from Suc.IH [OF st'(2) this] obtain out where out: "compact_with_iterator fuel ops mf st' = Inr out"
      "drained S (rest_map st) out" by blast
    then show ?thesis using e(1) st'(1) drained_Cons [OF e(2) out(2)] by simp
  qed
qed (simp split: if_splits)

end

section \<open>Pushing all the layers\<close>

lemma sees_Suc:
  "sees S F p w \<longleftrightarrow>
     layer_at S (F 0) p = Some w \<or> layer_at S (F 0) p = None \<and> sees S (\<lambda>k. F (Suc k)) p w"
proof
  assume "sees S F p w"
  then obtain k where k: "layer_at S (F k) p = Some w" "\<forall>k' < k. layer_at S (F k') p = None"
    by (auto simp: sees_def)
  then show "layer_at S (F 0) p = Some w \<or> layer_at S (F 0) p = None \<and> sees S (\<lambda>k. F (Suc k)) p w"
    by (cases k) (auto simp: sees_def)
next
  assume "layer_at S (F 0) p = Some w \<or> layer_at S (F 0) p = None \<and> sees S (\<lambda>k. F (Suc k)) p w"
  then show "sees S F p w"
  proof (elim disjE conjE)
    assume "layer_at S (F 0) p = None" "sees S (\<lambda>k. F (Suc k)) p w"
    then obtain k where k: "layer_at S (F (Suc k)) p = Some w" "\<forall>k' < k. layer_at S (F (Suc k')) p = None"
      by (auto simp: sees_def)
    with \<open>layer_at S (F 0) p = None\<close> have "\<forall>k' < Suc k. layer_at S (F k') p = None"
      by (simp add: All_less_Suc2)
    with k(1) show ?thesis by (auto simp: sees_def)
  qed (auto simp: sees_def)
qed

definition stack_of :: "('k, 'v) item list list \<Rightarrow> nat \<Rightarrow> ('k, 'v) item list" where
  "stack_of layers k = (if k < length layers then layers ! k else [])"

lemma sees_layers_at: "sees S (stack_of layers) p w \<longleftrightarrow> layers_at S layers p = Some w"
proof (induction layers)
  case (Cons l ls)
  have "stack_of (l # ls) 0 = l" "(\<lambda>k. stack_of (l # ls) (Suc k)) = stack_of ls"
    by (auto simp: stack_of_def)
  then show ?case
    using sees_Suc [of S "stack_of (l # ls)" p w] Cons by (cases "layer_at S l p") auto
qed (simp add: sees_def stack_of_def)

text \<open>The iterators of the non-empty layers after an unbounded seek.\<close>

definition pushed :: "(nat \<times> ('k, 'v) item list) \<Rightarrow> ('k, 'v) mli" where
  "pushed p = \<lparr>layer = Some (snd p), iter = RConst (snd p), layer_index = fst p, merge_item = MIter\<rparr>"

lemma pushed_simps [simp]:
  "layer_index (pushed p) = fst p" "mli_items (pushed p) = snd p" "iter (pushed p) = RConst (snd p)"
  by (simp_all add: pushed_def mli_items_def)

lemma push_step:
  assumes "pending_iterators st = ms @ [mli_new k l]"
  shows "push_iterators ops None Unbounded st =
    push_iterators ops None Unbounded (st\<lparr>pending_iterators := ms,
      heap := (if l = [] then heap st else pushed (k, l) # heap st)\<rparr>)"
proof -
  have "needs_more_iterators ops None st = Inr True"
    using assms by (simp add: needs_more_iterators_def)
  moreover have "layer_seek ops l Unbounded = l" by (simp add: layer_seek_def outside_bound_def)
  moreover have "st\<lparr>pending_iterators := ms, heap := heap st\<rparr> = st\<lparr>pending_iterators := ms\<rparr>" by simp
  ultimately show ?thesis
    using assms
    by (cases l)
      (simp_all add: push_iterators.simps [of ops None Unbounded st] mli_new_def
        set_item_from_iter_def is_some_def heap_push_def pushed_def)
qed

lemma push_all:
  "pending_iterators st = rev (map (\<lambda>(k, l). mli_new k l) ps) \<Longrightarrow>
   push_iterators ops None Unbounded st =
     Inr (st\<lparr>pending_iterators := [],
             heap := rev (map pushed (filter (\<lambda>p. snd p \<noteq> []) ps)) @ heap st\<rparr>)"
proof (induction ps arbitrary: st)
  case Nil
  then show ?case by (simp add: push_iterators.simps needs_more_iterators_def)
next
  case (Cons p ps)
  obtain k l where p: "p = (k, l)" by fastforce
  show ?case
    using Cons.prems by (simp add: p push_step Cons.IH)
qed

lemma layer_map_pushed:
  "distinct (map fst ps) \<Longrightarrow>
   layer_map (map pushed (filter (\<lambda>p. snd p \<noteq> []) ps)) k = (case map_of ps k of None \<Rightarrow> [] | Some l \<Rightarrow> l)"
proof (induction ps)
  case (Cons p ps)
  have "layer_map (map pushed (filter (\<lambda>p. snd p \<noteq> []) ps)) (fst p) = []"
    using Cons.prems by (intro layer_map_absent) (auto intro: rev_image_eqI)
  with Cons show ?case
    by (cases p) auto
qed simp

lemma map_of_enumerate: "map_of (enumerate n layers) k =
   (if n \<le> k \<and> k < n + length layers then Some (layers ! (k - n)) else None)"
  by (induction layers arbitrary: n) (auto simp: nth_Cons')

lemma pushed_enumerate:
  assumes "\<forall>l \<in> set layers. layer_ok S l"
  defines "h \<equiv> rev (map pushed (filter (\<lambda>p. snd p \<noteq> []) (enumerate 0 layers)))"
  shows "heap_wf S h" "layer_map h = stack_of layers"
    "heap_weight S h = sum_list (map (layer_weight S) layers)"
proof -
  define h' where "h' = map pushed (filter (\<lambda>p. snd p \<noteq> []) (enumerate 0 layers))"
  have perm: "mset h' = mset h" by (simp add: h_def h'_def)
  have index: "map layer_index h' = map fst (filter (\<lambda>p. snd p \<noteq> []) (enumerate 0 layers))"
    by (simp add: h'_def)
  have "distinct (map layer_index h')" unfolding index by (rule distinct_map_filter) simp
  moreover have "mli_wf S m" if "m \<in> set h'" for m
    using that assms(1) by (auto simp: h'_def mli_wf_def in_set_enumerate_eq)
  ultimately have wf: "heap_wf S h'" by (simp add: heap_wf_def)
  then show "heap_wf S h" using heap_wf_mset [OF perm] by blast
  have "layer_map h' = stack_of layers"
    by (auto simp: fun_eq_iff h'_def layer_map_pushed map_of_enumerate stack_of_def)
  then show "layer_map h = stack_of layers"
    using layer_map_mset [OF perm] wf by (simp add: heap_wf_def)
  have "heap_weight S (map pushed (filter (\<lambda>p. snd p \<noteq> []) (enumerate n layers))) =
    sum_list (map (layer_weight S) layers)" for n
    by (induction layers arbitrary: n) auto
  then show "heap_weight S h = sum_list (map (layer_weight S) layers)"
    using heap_weight_mset [OF perm] by (metis h'_def)
qed

section \<open>Compaction\<close>

context merge_laws
begin

text \<open>
  Compacting well-formed layers succeeds with fuel for their weight, and writes a well-formed layer
  that has at every point the meaning of the stack of layers.
\<close>

lemma compact_correct:
  assumes "\<forall>l \<in> set (immutable_layers t). layer_ok S l"
    "sum_list (map (layer_weight S) (immutable_layers t)) + 1 < fuel"
  shows "\<exists>out. compact fuel ops mf t = Inr out \<and> layer_ok S out \<and>
    (\<forall>p. layer_at S out p = layers_at S (immutable_layers t) p)"
proof -
  define h where "h = rev (map pushed (filter (\<lambda>p. snd p \<noteq> []) (enumerate 0 (immutable_layers t))))"
  define st where "st = \<lparr>pending_iterators = [], heap = h, current = CNone\<rparr>"
  note h = pushed_enumerate [OF assms(1), folded h_def]
  have seek: "merger_seek fuel ops mf (immutable_layer_set t) Unbounded = advance_impl fuel ops mf Unbounded st"
    using push_all [of "\<lparr>pending_iterators = rev (merger_new (immutable_layers t)), heap = [], current = CNone\<rparr>"
        "enumerate 0 (immutable_layers t)" ops]
    by (simp add: merger_seek_def merger_iterator_seek_def immutable_layer_set_def merger_new_def st_def h_def)
  obtain st' where st': "advance_impl fuel ops mf Unbounded st = Inr st'"
    "current_ok S (stack_of (immutable_layers t)) st'"
    "rest_weight S st' \<le> sum_list (map (layer_weight S) (immutable_layers t))"
    using advance_impl_unbounded [of st fuel] h assms(2) by (auto simp: st_def)
  have "if current st' = CNone then 0 < fuel else Suc (rest_weight S st') < fuel"
    using st'(3) assms(2) by auto
  from compact_with_iterator_correct [OF st'(2) this] obtain out where out:
    "compact_with_iterator fuel ops mf st' = Inr out" "layer_ok S out"
    "\<forall>p w. layer_at S out p = Some w \<longleftrightarrow> sees S (stack_of (immutable_layers t)) p w"
    unfolding drained_def by blast
  have "layer_at S out p = layers_at S (immutable_layers t) p" for p
    using out(3) by (simp add: sees_layers_at) (metis option.exhaust)
  then show ?thesis using out(1,2) st'(1) by (simp add: compact_def seek)
qed

end

end
