(* ===== verification/Lsm_Merge_Into.thy ===== *)
theory Lsm_Merge_Into
  imports Lsm_Tree_Correct
begin

text \<open>
  Correctness of merging one item into the mutable layer, over any merge function that meets
  \<open>merge_laws\<close>: the layer stays well formed, the item overrides the points it covers and every
  other point keeps its meaning.
\<close>

section \<open>States of the loop\<close>

text \<open>
  In the loop the mutable side is a position in the layer, with an item that was taken out of it and
  not yet put back (\<open>pend\<close>); the item side is what is left of the item.
\<close>

definition mut_state :: "('k, 'v) item list \<Rightarrow> ('k, 'v) item option \<Rightarrow> ('k, 'v) item list \<Rightarrow> ('k, 'v) mli" where
  "mut_state bef pend aft =
     \<lparr>layer = None, iter = RMut bef aft, layer_index = 1,
      merge_item = (case pend of Some x \<Rightarrow> MItem x | None \<Rightarrow> if aft = [] then MNone else MIter)\<rparr>"

definition item_state :: "('k, 'v) item option \<Rightarrow> ('k, 'v) mli" where
  "item_state oi = mli_new_with_item 0 (case oi of Some x \<Rightarrow> MItem x | None \<Rightarrow> MNone)"

definition two :: "('k, 'v) item list \<Rightarrow> ('k, 'v) item list \<Rightarrow> nat \<Rightarrow> ('k, 'v) item list" where
  "two is ms = (\<lambda>_. [])(0 := is, 1 := ms)"

lemma two_simps [simp]: "two is ms 0 = is" "two is ms (Suc 0) = ms" "k \<noteq> 0 \<Longrightarrow> k \<noteq> Suc 0 \<Longrightarrow> two is ms k = []"
  by (simp_all add: two_def)

lemma in_two: "x \<in> set (two is ms k) \<longleftrightarrow> k = 0 \<and> x \<in> set is \<or> k = 1 \<and> x \<in> set ms"
  by (simp add: two_def)

lemma two_upd:
  "(two is ms)(0 := is', Suc 0 := ms') = two is' ms'" "(two is ms)(Suc 0 := ms', 0 := is') = two is' ms'"
  "(two is ms)(Suc 0 := ms') = two is ms'" "(two is ms)(0 := is') = two is' ms"
  by (auto simp: two_def fun_eq_iff)

lemma mut_state_item:
  "opt_list pend @ aft = x # xs \<Longrightarrow> is_some (mut_state bef pend aft) \<and> mli_item (mut_state bef pend aft) = Inr x"
  "opt_list pend @ aft = [] \<Longrightarrow> \<not> is_some (mut_state bef pend aft)"
  by (cases pend; auto simp: mut_state_def is_some_def mli_item_def)+

lemma layer_index_mut_state [simp]: "layer_index (mut_state bef pend aft) = 1"
  by (simp add: mut_state_def)

lemma item_state_item [simp]:
  "is_some (item_state (Some i))" "mli_item (item_state (Some i)) = Inr i" "\<not> is_some (item_state None)"
  "layer_index (item_state oi) = 0"
  by (simp_all add: item_state_def mli_new_with_item_def is_some_def mli_item_def)

lemma rev_opt_list [simp]: "rev (opt_list ox) = opt_list ox"
  by (cases ox) simp_all

lemma apply_item_op_state [simp]: "apply_item_op op (item_state (Some i)) = item_state (op_item op i)"
  by (cases op) (simp_all add: apply_item_op_def item_state_def mli_new_with_item_def op_item_def)

lemma insert_emit_state [simp]:
  "insert_emit e (mut_state bef pend aft) = Inr (mut_state (opt_list e @ bef) pend aft)"
  by (cases e) (simp_all add: insert_emit_def mut_state_def mli_insert_def)

lemma apply_mut_op_state:
  assumes "opt_list pend @ aft = x # xs"
  obtains pend' aft' where "apply_mut_op op (mut_state bef pend aft) = Inr (mut_state bef pend' aft')"
    "opt_list pend' @ aft' = opt_list (op_item op x) @ xs"
proof (cases op)
  case Keep
  with assms that [of pend aft] show thesis by (simp add: apply_mut_op_def op_item_def)
next
  case Discard
  with assms that [of None xs] show thesis
    by (cases pend; cases xs)
      (auto simp: apply_mut_op_def op_item_def mut_state_def mli_erase_def set_item_from_iter_def)
next
  case (Replace r)
  with assms that [of "Some r" xs] show thesis
    by (cases pend) (auto simp: apply_mut_op_def op_item_def mut_state_def mli_erase_def)
qed

text \<open>Emitting the first item of the mutable side moves it before the position.\<close>

definition emit_mut :: "('k, 'v) mli \<Rightarrow> ('k, 'v) mli res" where
  "emit_mut m =
     (case take_item m of
        (Some i, m) \<Rightarrow> bind_res (mli_insert i m) set_item_from_iter
      | (None, m) \<Rightarrow> mli_advance m)"

lemma emit_mut_bind:
  "(case take_item m of
      (Some i, m) \<Rightarrow> bind_res (bind_res (mli_insert i m) set_item_from_iter) f
    | (None, m) \<Rightarrow> bind_res (mli_advance m) f) = bind_res (emit_mut m) f"
  by (auto simp: emit_mut_def split: prod.splits option.splits)

lemma emit_mut_state:
  assumes "opt_list pend @ aft = x # xs"
  shows "emit_mut (mut_state bef pend aft) = Inr (mut_state (x # bef) None xs)"
  using assms
  by (cases pend; cases xs)
    (auto simp: emit_mut_def take_item_def mut_state_def mli_insert_def mli_advance_def set_item_from_iter_def)

lemma merge_into_finish_state:
  "merge_into_finish (mut_state bef pend aft) (item_state oi) =
     Inr (rev bef @ opt_list oi @ opt_list pend @ aft)"
  by (cases oi; cases pend)
    (auto simp: merge_into_finish_def mut_state_def item_state_def mli_new_with_item_def mli_insert_def
      take_item_def)

section \<open>The loop\<close>

lemma drained_append:
  "drained S G out \<Longrightarrow> (\<And>p w. sees S F p w \<longleftrightarrow> sees S G p w) \<Longrightarrow>
   (\<And>b. bounded_below S F b \<Longrightarrow> bounded_below S G b) \<Longrightarrow> drained S F out"
  unfolding drained_def by blast

context merge_laws
begin

text \<open>One layer is drained as it stands, also with the item in front when it ends before the layer starts.\<close>

lemma drained_two:
  assumes "layer_ok S (is @ ms)"
  shows "drained S (two is ms) (is @ ms)"
proof -
  have "sees S (two is ms) p w \<longleftrightarrow> layer_at S (is @ ms) p = Some w" for p w
    by (subst sees_two [of 0 1]) (auto simp: newer_def layer_at_append split: option.splits)
  moreover have "\<forall>x \<in> set (is @ ms). b \<le> lo S (key x)" if "bounded_below S (two is ms) b" for b
    using spec [OF that, of 0] spec [OF that, of "Suc 0"] by auto
  ultimately show ?thesis using assms by (simp add: drained_def)
qed

lemma drained_merge:
  assumes F: "F il = i # xs" "F ir = j # ys" "il \<noteq> ir" "layer_ok S (F il)" "layer_ok S (F ir)"
    and others: "\<And>k x. k \<noteq> il \<Longrightarrow> x \<in> set (F k) \<Longrightarrow> lo S (key j) \<le> lo S (key x)"
    and post: "merge_post S il i ir j (Other e opl opr)"
    and out: "drained S (F(il := opt_list (op_item opl i) @ xs, ir := opt_list (op_item opr j) @ ys)) out"
  shows "drained S F (opt_list e @ out)"
proof (cases e)
  case None
  then show ?thesis
    using drained_append [OF out] sees_merge [OF F _ post] bounded_below_merge [OF F(1,2) post] others
    by simp
next
  case (Some z)
  then show ?thesis
    using drained_Cons [OF emitted_merge [OF F others] out] post by simp
qed

lemma mli_cmp_states:
  assumes "opt_list pend @ aft = m # xs" "ok S m" "ok S i"
  obtains c where "mli_cmp ops (mut_state bef pend aft) (item_state (Some i)) = Inr c"
    "c = Greater \<longleftrightarrow> precedes S 1 m 0 i" "c \<noteq> Greater \<longleftrightarrow> precedes S 0 i 1 m"
  using assms mut_state_item(1) [OF assms(1), of bef]
  by (force simp: mli_cmp_def cmp_lower cmp_then_eq precedes_def)

lemma merge_into_loop_drains:
  assumes "layer_ok S (opt_list pend @ aft)" "layer_ok S (opt_list oi)"
    "layer_weight S (opt_list pend @ aft) + layer_weight S (opt_list oi) < fuel"
  shows "\<exists>tail. bind_res (merge_into_loop fuel ops mf (mut_state bef pend aft) (item_state oi))
      (\<lambda>(m, i). merge_into_finish m i) = Inr (rev bef @ tail) \<and>
    drained S (two (opt_list oi) (opt_list pend @ aft)) tail"
  using assms
proof (induction fuel arbitrary: bef pend aft oi)
  case (Suc fuel)
  show ?case
  proof (cases "opt_list pend @ aft = [] \<or> oi = None")
    case True
    then have "\<not> (is_some (mut_state bef pend aft) \<and> is_some (item_state oi))"
      using mut_state_item(2) by fastforce
    moreover have "layer_ok S (opt_list oi @ opt_list pend @ aft)" using True Suc.prems by auto
    ultimately show ?thesis
      using drained_two [of "opt_list oi" "opt_list pend @ aft"] by (auto simp: merge_into_finish_state)
  next
    case False
    then obtain m xs i where mx: "opt_list pend @ aft = m # xs" and i: "oi = Some i"
      by (cases "opt_list pend @ aft") auto
    have ok: "ok S m" "ok S i" "layer_ok S (m # xs)" using Suc.prems mx i by auto
    obtain c where c: "mli_cmp ops (mut_state bef pend aft) (item_state oi) = Inr c"
      "c = Greater \<longleftrightarrow> precedes S 1 m 0 i" "c \<noteq> Greater \<longleftrightarrow> precedes S 0 i 1 m"
      using mli_cmp_states [OF mx ok(1,2)] i by blast
    have pos: "0 < weight S m" using ok(1) by (rule ok_weight)
    note run = merge_into_loop.simps(2) c(1) mut_state_item(1) [OF mx] i
    let ?F = "two [i] (m # xs)"
    have ge: "lo S (key m) \<le> lo S (key x)" if "x \<in> set xs" for x
      using layer_ok_hd_le [OF ok(3), of x] that by simp
    show ?thesis
    proof (cases "c = Greater")
      case True
      then obtain r where r: "mf (1, m) (0, i) = Inr r" "merge_post S 1 m 0 i r"
        using merge_law [OF ok(1,2), of 1 0] c(2) by auto
      have le: "lo S (key m) \<le> lo S (key i)" using True c(2) by (auto simp: precedes_def)
      show ?thesis
      proof (cases r)
        case EmitLeft
        obtain tail where tail: "bind_res (merge_into_loop fuel ops mf (mut_state (m # bef) None xs) (item_state oi))
            (\<lambda>(m, i). merge_into_finish m i) = Inr (rev (m # bef) @ tail)" "drained S (two [i] xs) tail"
          using Suc.IH [of None xs oi "m # bef"] Suc.prems mx i pos by auto
        have "emitted S ?F m (?F(1 := xs))"
          using r(2) EmitLeft ok(3) by (intro emitted_first) (auto simp: merge_post_def in_two)
        then have "drained S ?F (m # tail)" using tail(2) by (intro drained_Cons) (simp_all add: two_upd)
        then show ?thesis
          using run True r(1) EmitLeft tail(1) emit_mut_state [OF mx, of bef]
          by (intro exI [of _ "m # tail"]) (simp add: emit_mut_bind mx)
      next
        case (Other e opl opr)
        note post = r(2) [unfolded Other]
        obtain pend' aft' where p: "apply_mut_op opl (mut_state (opt_list e @ bef) pend aft) =
            Inr (mut_state (opt_list e @ bef) pend' aft')" "opt_list pend' @ aft' = opt_list (op_item opl m) @ xs"
          using apply_mut_op_state [OF mx] by metis
        note lok = layer_ok_merge [OF post, of xs "[]"]
        obtain tail where tail: "bind_res (merge_into_loop fuel ops mf
              (mut_state (opt_list e @ bef) pend' aft') (item_state (op_item opr i)))
            (\<lambda>(m, i). merge_into_finish m i) = Inr (rev (opt_list e @ bef) @ tail)"
          "drained S (two (opt_list (op_item opr i)) (opt_list (op_item opl m) @ xs)) tail"
          using Suc.IH [of pend' aft' "op_item opr i" "opt_list e @ bef"] lok ok Suc.prems(3)
            weight_merge [OF post, of xs "[]"] mx i p(2) by auto
        have "drained S ?F (opt_list e @ tail)"
          using tail(2) ok le
          by (intro drained_merge [OF _ _ _ _ _ _ post, where xs = xs and ys = "[]"])
            (auto simp: two_upd in_two)
        then show ?thesis
          using run True r(1) Other p(1) tail(1)
          by (intro exI [of _ "opt_list e @ tail"]) (simp add: mx rev_opt_list)
      qed
    next
      case False
      then obtain r where r: "mf (0, i) (1, m) = Inr r" "merge_post S 0 i 1 m r"
        using merge_law [OF ok(2,1), of 0 1] c(3) by auto
      show ?thesis
      proof (cases r)
        case EmitLeft
        have "layer_ok S ([i] @ m # xs)"
          using r(2) EmitLeft ok ge by (fastforce simp: merge_post_def list_all_iff)
        then show ?thesis
          using run False r(1) EmitLeft drained_two [of "[i]" "m # xs"]
          by (simp add: merge_into_finish_state mx)
      next
        case (Other e opl opr)
        note post = r(2) [unfolded Other]
        obtain pend' aft' where p: "apply_mut_op opr (mut_state (opt_list e @ bef) pend aft) =
            Inr (mut_state (opt_list e @ bef) pend' aft')" "opt_list pend' @ aft' = opt_list (op_item opr m) @ xs"
          using apply_mut_op_state [OF mx] by metis
        note lok = layer_ok_merge [OF post, of "[]" xs]
        obtain tail where tail: "bind_res (merge_into_loop fuel ops mf
              (mut_state (opt_list e @ bef) pend' aft') (item_state (op_item opl i)))
            (\<lambda>(m, i). merge_into_finish m i) = Inr (rev (opt_list e @ bef) @ tail)"
          "drained S (two (opt_list (op_item opl i)) (opt_list (op_item opr m) @ xs)) tail"
          using Suc.IH [of pend' aft' "op_item opl i" "opt_list e @ bef"] lok ok Suc.prems(3)
            weight_merge [OF post, of "[]" xs] mx i p(2) by auto
        have "drained S ?F (opt_list e @ tail)"
          using tail(2) ok ge
          by (intro drained_merge [OF _ _ _ _ _ _ post, where xs = "[]" and ys = xs])
            (auto simp: two_upd in_two)
        then show ?thesis
          using run False r(1) Other p(1) tail(1)
          by (intro exI [of _ "opt_list e @ tail"]) (simp add: mx rev_opt_list)
      qed
    qed
  qed
qed simp

text \<open>
  \<^verbatim>\<open>merge_into\<close> starts at the first item that is not below the given lower bound; that is sound
  when the items it skips end before the new item starts.
\<close>

lemma skip_list_merge_into_correct:
  assumes "layer_ok S items" "ok S i" "layer_weight S items + weight S i < fuel"
    and below: "\<And>x. x \<in> set items \<Longrightarrow> cmp_upper_bound ops (key x) lower_bound = Less \<Longrightarrow>
          hi S (key x) \<le> lo S (key i)"
  shows "\<exists>out. skip_list_merge_into fuel ops mf items i lower_bound = Inr out \<and> layer_ok S out \<and>
    (\<forall>p. layer_at S out p = (case item_at S i p of Some w \<Rightarrow> Some w | None \<Rightarrow> layer_at S items p))"
proof -
  define A aft where "A = takeWhile (\<lambda>i. outside_bound ops (Included lower_bound) (key i)) items"
    and "aft = dropWhile (\<lambda>i. outside_bound ops (Included lower_bound) (key i)) items"
  have items: "items = A @ aft" by (simp add: A_def aft_def)
  have A: "hi S (key x) \<le> lo S (key i)" if "x \<in> set A" for x
    using that set_takeWhileD [of x] below unfolding A_def by (fastforce simp: outside_bound_def)
  have lok: "layer_ok S A" "layer_ok S aft" "\<forall>x \<in> set A. \<forall>y \<in> set aft. hi S (key x) \<le> lo S (key y)"
    using assms(1) by (auto simp: items layer_ok_append)
  obtain tail where tail: "bind_res (merge_into_loop fuel ops mf (mut_state (rev A) None aft) (item_state (Some i)))
      (\<lambda>(m, i). merge_into_finish m i) = Inr (A @ tail)" "drained S (two [i] aft) tail"
    using merge_into_loop_drains [of None aft "Some i" fuel "rev A"] lok assms(2,3) by (auto simp: items)
  have run: "skip_list_merge_into fuel ops mf items i lower_bound = Inr (A @ tail)"
    using tail(1)
    by (cases aft)
      (simp_all add: skip_list_merge_into_def iter_mut_new_def merge_into_def mut_state_def item_state_def
        flip: A_def aft_def)
  have bnd: "bounded_below S (two [i] aft) (hi S (key x))" if "x \<in> set A" for x
    using that A lok(3) by (auto simp: in_two)
  then have "layer_ok S (A @ tail)"
    using tail(2) lok(1) by (auto simp: layer_ok_append drained_def)
  moreover have "layer_at S (A @ tail) p =
      (case item_at S i p of Some w \<Rightarrow> Some w | None \<Rightarrow> layer_at S items p)" for p
  proof -
    have "layer_at S tail p = Some w \<longleftrightarrow> newer 0 (layer_at S [i] p) 1 (layer_at S aft p) = Some w" for w
      using tail(2) sees_two [of 0 1 S "two [i] aft" p w] by (simp add: drained_def)
    then have t: "layer_at S tail p = newer 0 (layer_at S [i] p) 1 (layer_at S aft p)"
      by (metis option.exhaust)
    have "item_at S i p = None" if "layer_at S A p \<noteq> None"
      using that A unfolding layer_at_None_iff item_at_None by (fastforce simp: item_at_None)
    with t show ?thesis
      by (auto simp: items layer_at_append newer_def split: option.splits)
  qed
  ultimately show ?thesis using run by blast
qed

text \<open>
  A tree is well formed when its layers are. Merging an item into it overrides the points of the item
  and leaves the others.
\<close>

lemma tree_merge_into_correct:
  assumes "layer_ok S (mutable_layer t)" "ok S i" "layer_weight S (mutable_layer t) + weight S i < fuel"
    and "\<And>x. x \<in> set (mutable_layer t) \<Longrightarrow> cmp_upper_bound ops (key x) lower_bound = Less \<Longrightarrow>
          hi S (key x) \<le> lo S (key i)"
  shows "\<exists>t'. tree_merge_into fuel ops mf i lower_bound t = Inr t' \<and> layer_ok S (mutable_layer t') \<and>
    immutable_layers t' = immutable_layers t \<and>
    (\<forall>p. layers_at S (layer_set t') p =
       (case item_at S i p of Some w \<Rightarrow> Some w | None \<Rightarrow> layers_at S (layer_set t) p))"
proof -
  obtain out where out: "skip_list_merge_into fuel ops mf (mutable_layer t) i lower_bound = Inr out"
    "layer_ok S out" "\<forall>p. layer_at S out p =
      (case item_at S i p of Some w \<Rightarrow> Some w | None \<Rightarrow> layer_at S (mutable_layer t) p)"
    using skip_list_merge_into_correct [OF assms] by blast
  then show ?thesis
    by (auto simp: tree_merge_into_def layer_set_def split: option.splits)
qed

text \<open>
  A major compaction as the owners of trees perform it: seal, compact, and replace the immutable
  layers by the one that was written.
\<close>

lemma seal_compact_set_layers:
  assumes "layer_ok S (mutable_layer t)" "\<forall>l \<in> set (immutable_layers t). layer_ok S l"
    "sum_list (map (layer_weight S) (layer_set t)) + 1 < fuel"
  shows "\<exists>out. compact fuel ops mf (seal t) = Inr out \<and> layer_ok S out \<and>
    (\<forall>p. layers_at S (layer_set (set_layers [out] (seal t))) p = layers_at S (layer_set t) p)"
proof -
  obtain out where out: "compact fuel ops mf (seal t) = Inr out" "layer_ok S out"
    "\<forall>p. layer_at S out p = layers_at S (immutable_layers (seal t)) p"
    using compact_correct [of "seal t" fuel] assms by (auto simp: seal_def layer_set_def)
  then show ?thesis
    by (auto simp: layer_set_def set_layers_def seal_def split: option.splits)
qed

end

end
