(* ===== verification/Alloc_Merge.thy ===== *)
theory Alloc_Merge
  imports Lsm_Merge_Into
begin

text \<open>
  Keys and values of the allocator's tree (\<^verbatim>\<open>src/src/object_store/allocator.rs\<close>), its merge
  function and filters (\<^verbatim>\<open>src/src/object_store/allocator/merge.rs\<close>) and the coalescing iterator.
  The merge function meets the contract of the LSM tree, so that compaction and merging an item into
  the mutable layer act on the map from device offsets to allocation values as they should.
\<close>

section \<open>Keys and values\<close>

datatype allocator_key = AllocatorKey (device_range: u64_range)

datatype allocator_value = ANone | Abs (acount: nat) (aowner: nat)

type_synonym allocator_item = "(allocator_key, allocator_value) item"

abbreviation astart :: "allocator_key \<Rightarrow> nat" where "astart k \<equiv> rstart (device_range k)"
abbreviation aend :: "allocator_key \<Rightarrow> nat" where "aend k \<equiv> rend (device_range k)"

definition lower_bound_for_merge_into :: "allocator_key \<Rightarrow> allocator_key" where
  "lower_bound_for_merge_into k = AllocatorKey (Range 0 (astart k))"

definition ak_cmp_upper_bound :: "allocator_key \<Rightarrow> allocator_key \<Rightarrow> ordering" where
  "ak_cmp_upper_bound self other = cmp (aend self) (aend other)"

definition ak_cmp_lower_bound :: "allocator_key \<Rightarrow> allocator_key \<Rightarrow> ordering" where
  "ak_cmp_lower_bound self other =
     cmp_then (cmp (astart self) (astart other)) (cmp (aend self) (aend other))"

definition ak_overlaps :: "allocator_key \<Rightarrow> allocator_key \<Rightarrow> bool" where
  "ak_overlaps self other = (astart self < aend other \<and> aend self > astart other)"

definition allocator_ops :: "allocator_key key_ops" where
  "allocator_ops =
     \<lparr>cmp_upper_bound = ak_cmp_upper_bound, cmp_lower_bound = ak_cmp_lower_bound,
      next_key = (\<lambda>_. Inr None)\<rparr>"

section \<open>The merge function\<close>

definition alloc_merge :: "(allocator_key, allocator_value) merge_fn" where
  "alloc_merge left right =
     (let (li, l) = left; (ri, r) = right;
          ls = astart (key l); le = aend (key l); rs = astart (key r); re = aend (key r)
      in Inr (
        if le < rs then EmitLeft
        else if le = rs then
          (if value l = value r
           then Other None Discard
                  (Replace \<lparr>key = AllocatorKey (Range ls re), value = value l,
                            sequence = min (sequence l) (sequence r)\<rparr>)
           else EmitLeft)
        else if ls = rs then
          (if le < re
           then (if li < ri
                 then Other None Keep
                        (if le = re then Discard
                         else Replace \<lparr>key = AllocatorKey (Range le re), value = value r,
                                       sequence = sequence r\<rparr>)
                 else Other None Discard Keep)
           else (if ri < li
                 then Other None
                        (if re = le then Discard
                         else Replace \<lparr>key = AllocatorKey (Range re le), value = value l,
                                       sequence = sequence l\<rparr>)
                        Keep
                 else Other None Keep Discard))
        else Other (Some \<lparr>key = AllocatorKey (Range ls rs), value = value l, sequence = sequence l\<rparr>)
               (Replace \<lparr>key = AllocatorKey (Range rs le), value = value l, sequence = sequence l\<rparr>)
               Keep))"

section \<open>Filters\<close>

definition not_tombstone :: "allocator_item \<Rightarrow> bool" where
  "not_tombstone i = (value i \<noteq> ANone)"

definition not_marked_for_deletion :: "nat set \<Rightarrow> allocator_item \<Rightarrow> bool" where
  "not_marked_for_deletion marked i =
     (case value i of Abs _ owner_object_id \<Rightarrow> owner_object_id \<notin> marked | ANone \<Rightarrow> True)"

section \<open>The coalescing iterator\<close>

record coalescing_iterator =
  co_iter :: "(allocator_key, allocator_value) layer_iter"
  co_item :: "allocator_item option"

text \<open>The loop of \<^verbatim>\<open>advance\<close>: \<open>left\<close> is the current item, the iterator is still on it.\<close>

fun coalesce_loop ::
  "allocator_item \<Rightarrow> (allocator_key, allocator_value) layer_iter \<Rightarrow> coalescing_iterator res" where
  "coalesce_loop left [] = Inr \<lparr>co_iter = [], co_item = Some left\<rparr>"
| "coalesce_loop left (right # rest) =
     (if \<not> aend (key left) \<le> astart (key right) then Inl (Fxfs Inconsistent)
      else if aend (key left) < astart (key right) \<or> value left \<noteq> value right
      then Inr \<lparr>co_iter = right # rest, co_item = Some left\<rparr>
      else coalesce_loop
             (left\<lparr>key := AllocatorKey (Range (astart (key left)) (aend (key right)))\<rparr>) rest)"

definition coalescing_advance :: "coalescing_iterator \<Rightarrow> coalescing_iterator res" where
  "coalescing_advance self =
     (case iter_get (co_iter self) of
        None \<Rightarrow> Inr (self\<lparr>co_item := None\<rparr>)
      | Some left \<Rightarrow> coalesce_loop left (iter_advance (co_iter self)))"

definition coalescing_new :: "(allocator_key, allocator_value) layer_iter \<Rightarrow> coalescing_iterator res" where
  "coalescing_new it = coalescing_advance \<lparr>co_iter = it, co_item = None\<rparr>"

definition coalescing_get :: "coalescing_iterator \<Rightarrow> allocator_item option" where
  "coalescing_get self = co_item self"

text \<open>What \<^verbatim>\<open>compact_with_iterator\<close> writes when it drains a coalescing iterator.\<close>

fun coalescing_drain :: "nat \<Rightarrow> coalescing_iterator \<Rightarrow> allocator_item list res" where
  "coalescing_drain 0 self = Inl OutOfFuel"
| "coalescing_drain (Suc fuel) self =
     (case coalescing_get self of
        None \<Rightarrow> Inr []
      | Some i \<Rightarrow>
          bind_res (coalescing_advance self) (\<lambda>self.
          bind_res (coalescing_drain fuel self) (\<lambda>items. Inr (i # items))))"

section \<open>The contract of the tree\<close>

text \<open>
  Records of a device of \<open>dev\<close> bytes with block size \<open>bs\<close>: a range is not empty, is aligned and lies
  on the device.
\<close>

definition alloc_sem :: "nat \<Rightarrow> nat \<Rightarrow> (allocator_key, allocator_value, nat, allocator_value) msem" where
  "alloc_sem bs dev =
     \<lparr>lo = astart, hi = aend, tie = aend, val = (\<lambda>i _. value i),
      ok = (\<lambda>i. astart (key i) < aend (key i) \<and> bs dvd astart (key i) \<and> bs dvd aend (key i) \<and> aend (key i) \<le> dev),
      weight = (\<lambda>i. Suc (aend (key i) - astart (key i)))\<rparr>"

lemma alloc_sem_simps [simp]:
  "lo (alloc_sem bs dev) = astart" "hi (alloc_sem bs dev) = aend" "tie (alloc_sem bs dev) = aend"
  "val (alloc_sem bs dev) i p = value i"
  "ok (alloc_sem bs dev) i \<longleftrightarrow>
     astart (key i) < aend (key i) \<and> bs dvd astart (key i) \<and> bs dvd aend (key i) \<and> aend (key i) \<le> dev"
  "weight (alloc_sem bs dev) i = Suc (aend (key i) - astart (key i))"
  by (simp_all add: alloc_sem_def)

lemmas alloc_post_defs = merge_post_def within_def emit_post_def opt_weight_def op_item_def Let_def

text \<open>Two ranges that touch; two ranges with the same start; a prefix that is split off.\<close>

lemma alloc_touch_post:
  assumes "ok (alloc_sem bs dev) i" "ok (alloc_sem bs dev) j" "aend (key i) = astart (key j)"
    "value i = value j"
  shows "merge_post (alloc_sem bs dev) il i ir j (Other None Discard
    (Replace \<lparr>key = AllocatorKey (Range (astart (key i)) (aend (key j))), value = value i, sequence = s\<rparr>))"
proof -
  have "newer il None ir (item_at (alloc_sem bs dev) \<lparr>key = AllocatorKey (Range (astart (key i)) (aend (key j))),
      value = value i, sequence = s\<rparr> p) = newer il (item_at (alloc_sem bs dev) i p) ir (item_at (alloc_sem bs dev) j p)" for p
    using assms by (cases "p < aend (key i)") (auto simp: item_at_def)
  moreover have "winner il None ir (item_at (alloc_sem bs dev) \<lparr>key = AllocatorKey (Range (astart (key i)) (aend (key j))),
      value = value i, sequence = s\<rparr> p) = winner il (item_at (alloc_sem bs dev) i p) ir (item_at (alloc_sem bs dev) j p)"
    if "\<not> p < astart (key j)" for p
    using that assms by (auto simp: item_at_def winner_def)
  ultimately show ?thesis using assms(1-3) by (auto simp: alloc_post_defs)
qed

lemma alloc_shorter_wins:
  assumes "astart (key j) = astart (key i)" "aend (key i) < aend (key j)" "il < ir"
    "ok (alloc_sem bs dev) i" "ok (alloc_sem bs dev) j"
  shows "merge_post (alloc_sem bs dev) il i ir j (Other None Keep
      (Replace \<lparr>key = AllocatorKey (Range (aend (key i)) (aend (key j))), value = value j, sequence = s\<rparr>))"
    "merge_post (alloc_sem bs dev) ir j il i (Other None
      (Replace \<lparr>key = AllocatorKey (Range (aend (key i)) (aend (key j))), value = value j, sequence = s\<rparr>) Keep)"
proof -
  let ?j = "\<lparr>key = AllocatorKey (Range (aend (key i)) (aend (key j))), value = value j, sequence = s\<rparr>"
  have at: "item_at (alloc_sem bs dev) ?j p = (if item_at (alloc_sem bs dev) i p = None then item_at (alloc_sem bs dev) j p else None)" for p
    using assms by (auto simp: item_at_def)
  then have "winner il (item_at (alloc_sem bs dev) i p) ir (item_at (alloc_sem bs dev) ?j p) =
      winner il (item_at (alloc_sem bs dev) i p) ir (item_at (alloc_sem bs dev) j p)"
    "newer il (item_at (alloc_sem bs dev) i p) ir (item_at (alloc_sem bs dev) ?j p) =
      newer il (item_at (alloc_sem bs dev) i p) ir (item_at (alloc_sem bs dev) j p)"
    "winner ir (item_at (alloc_sem bs dev) ?j p) il (item_at (alloc_sem bs dev) i p) =
      winner ir (item_at (alloc_sem bs dev) j p) il (item_at (alloc_sem bs dev) i p)"
    "newer ir (item_at (alloc_sem bs dev) ?j p) il (item_at (alloc_sem bs dev) i p) =
      newer ir (item_at (alloc_sem bs dev) j p) il (item_at (alloc_sem bs dev) i p)" for p
    using assms(3) by (auto simp: winner_def newer_def split: option.splits)
  then show "merge_post (alloc_sem bs dev) il i ir j (Other None Keep (Replace ?j))"
    "merge_post (alloc_sem bs dev) ir j il i (Other None (Replace ?j) Keep)"
    using assms(1,2,4,5) by (auto simp: alloc_post_defs)
qed

lemma alloc_longer_wins:
  assumes "astart (key j) = astart (key i)" "aend (key i) \<le> aend (key j)" "ir < il"
    "ok (alloc_sem bs dev) i" "ok (alloc_sem bs dev) j"
  shows "merge_post (alloc_sem bs dev) il i ir j (Other None Discard Keep)"
    "merge_post (alloc_sem bs dev) ir j il i (Other None Keep Discard)"
proof -
  have "item_at (alloc_sem bs dev) i p = None" if "item_at (alloc_sem bs dev) j p = None" for p
    using that assms by (auto simp: item_at_None)
  then have "winner il None ir (item_at (alloc_sem bs dev) j p) =
      winner il (item_at (alloc_sem bs dev) i p) ir (item_at (alloc_sem bs dev) j p)"
    "newer il None ir (item_at (alloc_sem bs dev) j p) = newer il (item_at (alloc_sem bs dev) i p) ir (item_at (alloc_sem bs dev) j p)"
    "winner ir (item_at (alloc_sem bs dev) j p) il None =
      winner ir (item_at (alloc_sem bs dev) j p) il (item_at (alloc_sem bs dev) i p)"
    "newer ir (item_at (alloc_sem bs dev) j p) il None = newer ir (item_at (alloc_sem bs dev) j p) il (item_at (alloc_sem bs dev) i p)" for p
    using assms(3) by (auto simp: winner_def newer_def split: option.splits)
  then show "merge_post (alloc_sem bs dev) il i ir j (Other None Discard Keep)"
    "merge_post (alloc_sem bs dev) ir j il i (Other None Keep Discard)"
    using assms(1,2,4,5) by (auto simp: alloc_post_defs)
qed

lemma alloc_split_post:
  assumes "astart (key i) < astart (key j)" "astart (key j) < aend (key i)" "ok (alloc_sem bs dev) i"
    "ok (alloc_sem bs dev) j"
  shows "merge_post (alloc_sem bs dev) il i ir j (Other
      (Some \<lparr>key = AllocatorKey (Range (astart (key i)) (astart (key j))), value = value i, sequence = s\<rparr>)
      (Replace \<lparr>key = AllocatorKey (Range (astart (key j)) (aend (key i))), value = value i, sequence = s\<rparr>)
      Keep)"
proof -
  let ?z = "\<lparr>key = AllocatorKey (Range (astart (key i)) (astart (key j))), value = value i, sequence = s\<rparr>"
  let ?i = "\<lparr>key = AllocatorKey (Range (astart (key j)) (aend (key i))), value = value i, sequence = s\<rparr>"
  have "item_at (alloc_sem bs dev) ?i p = item_at (alloc_sem bs dev) i p" if "item_at (alloc_sem bs dev) ?z p = None" for p
    using that assms by (auto simp: item_at_def split: if_splits)
  moreover have "item_at (alloc_sem bs dev) ?z p = item_at (alloc_sem bs dev) i p" if "item_at (alloc_sem bs dev) ?z p \<noteq> None" for p
    using that assms by (auto simp: item_at_def split: if_splits)
  ultimately show ?thesis using assms by (auto simp: alloc_post_defs)
qed

lemma alloc_merge_post:
  assumes "ok (alloc_sem bs dev) i" "ok (alloc_sem bs dev) j"
    "astart (key i) \<le> astart (key j)" "il \<noteq> ir"
  shows "\<exists>r. alloc_merge (il, i) (ir, j) = Inr r \<and> merge_post (alloc_sem bs dev) il i ir j r"
proof -
  consider "aend (key i) < astart (key j) \<or> aend (key i) = astart (key j) \<and> value i \<noteq> value j"
    | "aend (key i) = astart (key j)" "value i = value j"
    | "astart (key j) < aend (key i)" "astart (key i) < astart (key j)"
    | "astart (key j) = astart (key i)" 
    using assms(3) by (cases "value i = value j") (simp_all, linarith+)
  then show ?thesis
  proof cases
    case 1
    then show ?thesis by (auto simp: alloc_merge_def Let_def merge_post_def)
  next
    case 2
    with alloc_touch_post [OF assms(1,2) 2] show ?thesis by (simp add: alloc_merge_def Let_def)
  next
    case 3
    with alloc_split_post [OF 3(2,1) assms(1,2)] show ?thesis by (simp add: alloc_merge_def Let_def)
  next
    case 4
    consider "aend (key i) < aend (key j)" "il < ir" | "aend (key i) \<le> aend (key j)" "ir < il"
      | "aend (key j) < aend (key i)" "ir < il" | "aend (key j) \<le> aend (key i)" "il < ir"
      using assms(4) by linarith
    then show ?thesis
      using 4 assms
      by cases (auto simp: alloc_merge_def Let_def intro: alloc_shorter_wins alloc_longer_wins)
  qed
qed

interpretation alloc: merge_laws allocator_ops alloc_merge "alloc_sem bs dev"
proof
  fix i j :: allocator_item and il ir :: nat
  assume "ok (alloc_sem bs dev) i" "ok (alloc_sem bs dev) j" "il \<noteq> ir" "precedes (alloc_sem bs dev) il i ir j"
  then show "\<exists>r. alloc_merge (il, i) (ir, j) = Inr r \<and> merge_post (alloc_sem bs dev) il i ir j r"
    by (intro alloc_merge_post) (auto simp: precedes_def)
qed (simp_all add: allocator_ops_def ak_cmp_lower_bound_def)

section \<open>Compaction and merging into the tree\<close>

text \<open>
  C26: compacting the allocator's immutable layers always succeeds (with fuel for the bytes and items
  they have) and yields a layer of non-empty, disjoint, ascending ranges that gives every device
  offset the value that the newest layer with a range at that offset gives it.
\<close>

theorem alloc_compact_correct:
  assumes "\<forall>l \<in> set (immutable_layers t). layer_ok (alloc_sem bs dev) l"
    "sum_list (map (layer_weight (alloc_sem bs dev)) (immutable_layers t)) + 1 < fuel"
  shows "\<exists>out. compact fuel allocator_ops alloc_merge t = Inr out \<and> layer_ok (alloc_sem bs dev) out \<and>
    (\<forall>p. layer_at (alloc_sem bs dev) out p = layers_at (alloc_sem bs dev) (immutable_layers t) p)"
  using assms by (rule alloc.compact_correct)

definition example_tree :: "(allocator_key, allocator_value) lsm_tree" where
  "example_tree = \<lparr>mutable_layer = [],
     immutable_layers =
       [[\<lparr>key = AllocatorKey (Range 4 12), value = ANone, sequence = 3\<rparr>],
        [\<lparr>key = AllocatorKey (Range 0 8), value = Abs 1 7, sequence = 1\<rparr>,
         \<lparr>key = AllocatorKey (Range 8 16), value = Abs 1 9, sequence = 2\<rparr>]]\<rparr>"

theorem alloc_compact_correct_witness:
  "\<exists>out. compact 100 allocator_ops alloc_merge example_tree = Inr out \<and> layer_ok (alloc_sem 1 99) out \<and>
    layer_at (alloc_sem 1 99) out 2 = Some (Abs 1 7) \<and> layer_at (alloc_sem 1 99) out 5 = Some ANone \<and>
    layer_at (alloc_sem 1 99) out 13 = Some (Abs 1 9)"
proof -
  have eq: "layers_at (alloc_sem 1 99) (immutable_layers example_tree) 2 = Some (Abs 1 7)"
    "layers_at (alloc_sem 1 99) (immutable_layers example_tree) 5 = Some ANone"
    "layers_at (alloc_sem 1 99) (immutable_layers example_tree) 13 = Some (Abs 1 9)"
    by (simp_all add: example_tree_def item_at_def)
  have "\<forall>l \<in> set (immutable_layers example_tree). layer_ok (alloc_sem 1 99) l"
    "sum_list (map (layer_weight (alloc_sem 1 99)) (immutable_layers example_tree)) + 1 < 100"
    by (simp_all add: example_tree_def)
  from alloc_compact_correct [OF this] show ?thesis using eq by metis
qed

text \<open>Merging a record into the tree, at the lower bound that the code computes for it.\<close>

lemma alloc_merge_into_ok:
  assumes "layer_ok (alloc_sem bs dev) (mutable_layer t)" "ok (alloc_sem bs dev) i"
    "layer_weight (alloc_sem bs dev) (mutable_layer t) + weight (alloc_sem bs dev) i < fuel"
  shows "\<exists>t'. tree_merge_into fuel allocator_ops alloc_merge i (lower_bound_for_merge_into (key i)) t = Inr t' \<and>
    layer_ok (alloc_sem bs dev) (mutable_layer t') \<and> immutable_layers t' = immutable_layers t \<and>
    (\<forall>p. layers_at (alloc_sem bs dev) (layer_set t') p =
      (if astart (key i) \<le> p \<and> p < aend (key i) then Some (value i)
       else layers_at (alloc_sem bs dev) (layer_set t) p))"
proof -
  have "aend (key x) \<le> astart (key i)"
    if "cmp_upper_bound allocator_ops (key x) (lower_bound_for_merge_into (key i)) = Less"
    for x :: allocator_item
    using that by (simp add: allocator_ops_def ak_cmp_upper_bound_def lower_bound_for_merge_into_def)
  then show ?thesis
    using alloc.tree_merge_into_correct [of bs dev t i fuel "lower_bound_for_merge_into (key i)"] assms
    by (fastforce simp: item_at_def)
qed

text \<open>
  Merging an allocation or deallocation record into the allocator's tree at the lower bound the
  code computes for it always succeeds, keeps the mutable layer well formed, overrides exactly the
  device offsets of the record and leaves the value of every other offset as it was.
\<close>

lemma alloc_merge_into_correct:
  assumes "layer_ok (alloc_sem bs dev) (mutable_layer t)" "ok (alloc_sem bs dev) i"
    "layer_weight (alloc_sem bs dev) (mutable_layer t) + weight (alloc_sem bs dev) i < fuel"
  shows "\<exists>t'. tree_merge_into fuel allocator_ops alloc_merge i (lower_bound_for_merge_into (key i)) t = Inr t' \<and>
    layer_ok (alloc_sem bs dev) (mutable_layer t') \<and> immutable_layers t' = immutable_layers t \<and>
    (\<forall>p. layers_at (alloc_sem bs dev) (layer_set t') p =
      (if astart (key i) \<le> p \<and> p < aend (key i) then Some (value i)
       else layers_at (alloc_sem bs dev) (layer_set t) p))"
  using assms by (rule alloc_merge_into_ok)

section \<open>Coalescing\<close>

text \<open>No two neighbours of a coalesced layer touch and have the same value.\<close>

fun coalesced :: "allocator_item list \<Rightarrow> bool" where
  "coalesced (x # y # rest) =
     ((aend (key x) < astart (key y) \<or> value x \<noteq> value y) \<and> coalesced (y # rest))"
| "coalesced _ = True"

text \<open>What the loop of \<^verbatim>\<open>advance\<close> makes of the current item and of the rest of the iterator.\<close>

definition joined :: "nat \<Rightarrow> nat \<Rightarrow> allocator_item \<Rightarrow> allocator_item list \<Rightarrow> allocator_item \<Rightarrow> allocator_item list \<Rightarrow> bool" where
  "joined bs dev left its left' rest \<longleftrightarrow>
     layer_ok (alloc_sem bs dev) (left' # rest) \<and> length rest \<le> length its \<and>
     (\<forall>p. layer_at (alloc_sem bs dev) (left' # rest) p = layer_at (alloc_sem bs dev) (left # its) p) \<and>
     value left' = value left \<and> astart (key left') = astart (key left) \<and>
     (rest = [] \<or> aend (key left') < astart (key (hd rest)) \<or> value left' \<noteq> value (hd rest))"

lemma coalesce_loop_ok:
  "layer_ok (alloc_sem bs dev) (left # its) \<Longrightarrow>
   \<exists>left' rest. coalesce_loop left its = Inr \<lparr>co_iter = rest, co_item = Some left'\<rparr> \<and> joined bs dev left its left' rest"
proof (induction left its rule: coalesce_loop.induct)
  case (1 left)
  then show ?case by (simp add: joined_def)
next
  case (2 left right rest)
  let ?l = "left\<lparr>key := AllocatorKey (Range (astart (key left)) (aend (key right)))\<rparr>"
  have le: "aend (key left) \<le> astart (key right)" using "2.prems" by simp
  show ?case
  proof (cases "aend (key left) < astart (key right) \<or> value left \<noteq> value right")
    case True
    with le "2.prems" show ?thesis by (simp add: joined_def)
  next
    case False
    then have touch: "aend (key left) = astart (key right)" "value left = value right"
      using le by simp_all
    then have "layer_ok (alloc_sem bs dev) (?l # rest)" using "2.prems" by (simp add: list_all_iff)
    with "2.IH" False le obtain left' rest' where
      ih: "coalesce_loop ?l rest = Inr \<lparr>co_iter = rest', co_item = Some left'\<rparr>" "joined bs dev ?l rest left' rest'"
      by blast
    have "item_at (alloc_sem bs dev) ?l p = (case item_at (alloc_sem bs dev) left p of
        Some w \<Rightarrow> Some w | None \<Rightarrow> item_at (alloc_sem bs dev) right p)" for p
      using touch "2.prems" by (auto simp: item_at_def)
    then have "layer_at (alloc_sem bs dev) (?l # rest) p = layer_at (alloc_sem bs dev) (left # right # rest) p" for p
      by (simp split: option.splits)
    then have "joined bs dev left (right # rest) left' rest'"
      using ih(2) unfolding joined_def by auto
    with ih(1) False le show ?thesis by auto
  qed
qed

lemma coalesced_Cons:
  "coalesced (x # ys) \<longleftrightarrow>
     (ys = [] \<or> aend (key x) < astart (key (hd ys)) \<or> value x \<noteq> value (hd ys)) \<and> coalesced ys"
  by (cases ys) auto

text \<open>Draining from a state that holds an item and the iterator after it.\<close>

lemma coalescing_drain_ok:
  assumes "layer_ok (alloc_sem bs dev) (x # its)" "length its + 1 < fuel"
    "its = [] \<or> aend (key x) < astart (key (hd its)) \<or> value x \<noteq> value (hd its)"
  shows "\<exists>ys. coalescing_drain fuel \<lparr>co_iter = its, co_item = Some x\<rparr> = Inr (x # ys) \<and>
    layer_ok (alloc_sem bs dev) (x # ys) \<and> coalesced (x # ys) \<and>
    (ys \<noteq> [] \<longrightarrow> its \<noteq> [] \<and> value (hd ys) = value (hd its) \<and> astart (key (hd ys)) = astart (key (hd its))) \<and>
    (\<forall>p. layer_at (alloc_sem bs dev) (x # ys) p = layer_at (alloc_sem bs dev) (x # its) p)"
  using assms
proof (induction its arbitrary: x fuel rule: length_induct)
  case (1 its)
  obtain f where f: "fuel = Suc f" using "1.prems"(2) by (cases fuel) auto
  show ?case
  proof (cases its)
    case Nil
    obtain f' where "f = Suc f'" using "1.prems"(2) f by (cases f) auto
    with Nil f "1.prems"(1) show ?thesis
      by (auto simp: coalescing_get_def coalescing_advance_def)
  next
    case (Cons y rest)
    have yok: "layer_ok (alloc_sem bs dev) (y # rest)" using "1.prems"(1) Cons by auto
    obtain y' rest' where y': "coalesce_loop y rest = Inr \<lparr>co_iter = rest', co_item = Some y'\<rparr>"
      "layer_ok (alloc_sem bs dev) (y' # rest')" "length rest' \<le> length rest"
      "\<And>p. layer_at (alloc_sem bs dev) (y' # rest') p = layer_at (alloc_sem bs dev) (y # rest) p"
      "value y' = value y" "astart (key y') = astart (key y)"
      "rest' = [] \<or> aend (key y') < astart (key (hd rest')) \<or> value y' \<noteq> value (hd rest')"
      using coalesce_loop_ok [OF yok] unfolding joined_def by blast
    have "length rest' < length its" "length rest' + 1 < f" using y'(3) Cons "1.prems"(2) f by auto
    with "1.IH" [rule_format, OF _ y'(2), of f] y'(7) obtain ys where ys: "coalescing_drain f \<lparr>co_iter = rest', co_item = Some y'\<rparr> = Inr (y' # ys)"
      "layer_ok (alloc_sem bs dev) (y' # ys)" "coalesced (y' # ys)"
      "\<And>p. layer_at (alloc_sem bs dev) (y' # ys) p = layer_at (alloc_sem bs dev) (y' # rest') p"
      by blast
    have "\<forall>z \<in> set (y' # ys). aend (key x) \<le> astart (key z)"
      using ys(2) y'(6) "1.prems"(1) Cons by (auto simp: list_all_iff dest: less_imp_le intro: order_trans)
    then have "layer_ok (alloc_sem bs dev) (x # y' # ys)" using "1.prems"(1) ys(2) by (auto simp: list_all_iff)
    moreover have "coalesced (x # y' # ys)"
      using ys(3) "1.prems"(3) Cons y'(5,6) by (simp add: coalesced_Cons)
    moreover have "layer_at (alloc_sem bs dev) (x # y' # ys) p = layer_at (alloc_sem bs dev) (x # y # rest) p" for p
      by (simp only: layer_at.simps(2) [of _ x] ys(4) y'(4))
    ultimately show ?thesis
      using f Cons ys(1) y'(1,5,6)
      by (simp add: coalescing_get_def coalescing_advance_def)
  qed
qed

lemma coalescing_drains:
  assumes "layer_ok (alloc_sem bs dev) its" "length its + 1 < fuel"
  shows "\<exists>out. bind_res (coalescing_new its) (coalescing_drain fuel) = Inr out \<and>
    layer_ok (alloc_sem bs dev) out \<and> coalesced out \<and> (\<forall>p. layer_at (alloc_sem bs dev) out p = layer_at (alloc_sem bs dev) its p)"
proof (cases its)
  case Nil
  with assms(2) show ?thesis
    by (cases fuel) (auto simp: coalescing_new_def coalescing_advance_def coalescing_get_def)
next
  case (Cons x rest)
  obtain x' rest' where x': "coalesce_loop x rest = Inr \<lparr>co_iter = rest', co_item = Some x'\<rparr>"
    "layer_ok (alloc_sem bs dev) (x' # rest')" "length rest' \<le> length rest"
    "\<And>p. layer_at (alloc_sem bs dev) (x' # rest') p = layer_at (alloc_sem bs dev) (x # rest) p"
    "rest' = [] \<or> aend (key x') < astart (key (hd rest')) \<or> value x' \<noteq> value (hd rest')"
    using coalesce_loop_ok [of bs dev x rest] assms(1) unfolding Cons joined_def by blast
  have "length rest' + 1 < fuel" using x'(3) assms(2) Cons by simp
  from coalescing_drain_ok [OF x'(2) this x'(5)] show ?thesis
    using x'(1,4) Cons by (auto simp: coalescing_new_def coalescing_advance_def)
qed

text \<open>
  Draining the coalescing iterator over a well-formed run of records never fails; it writes a
  well-formed layer in which no two neighbouring records could be joined, and which gives every
  device offset the value it had.
\<close>

lemma coalescing_correct:
  assumes "layer_ok (alloc_sem bs dev) its" "length its + 1 < fuel"
  shows "\<exists>out. bind_res (coalescing_new its) (coalescing_drain fuel) = Inr out \<and>
    layer_ok (alloc_sem bs dev) out \<and> coalesced out \<and> (\<forall>p. layer_at (alloc_sem bs dev) out p = layer_at (alloc_sem bs dev) its p)"
  using assms by (rule coalescing_drains)

end
