(* ===== verification/Extent_Record.thy ===== *)
theory Extent_Record
  imports Fxfs_Prelude
begin

text \<open>
  Extent keys and values (\<^verbatim>\<open>src/src/object_store/extent_record.rs\<close>): the comparisons and search keys
  of extents, and cutting an extent value to a suffix (\<^verbatim>\<open>offset_by\<close>) or a prefix (\<^verbatim>\<open>shrunk\<close>).
  A slice out of range and a division by zero are panics.
\<close>

section \<open>Extent keys\<close>

datatype extent_key = ExtentKey (range: u64_range)

definition extent_key_new :: "u64_range \<Rightarrow> extent_key" where
  "extent_key_new r = ExtentKey r"

definition overlap :: "extent_key \<Rightarrow> extent_key \<Rightarrow> u64_range option" where
  "overlap self other =
     (if rend (range self) \<le> rstart (range other) \<or> rstart (range self) \<ge> rend (range other) then None
      else Some (Range (max (rstart (range self)) (rstart (range other)))
                       (min (rend (range self)) (rend (range other)))))"

definition search_key_from_offset :: "nat \<Rightarrow> extent_key res" where
  "search_key_from_offset offset = bind_res (u64_add offset 1) (\<lambda>e. Inr (ExtentKey (Range 0 e)))"

definition extent_search_key :: "extent_key \<Rightarrow> extent_key res" where
  "extent_search_key self =
     bind_res (ensure (rstart (range self) \<noteq> rend (range self)) Panic) (\<lambda>_.
       search_key_from_offset (rstart (range self)))"

definition extent_key_for_merge_into :: "extent_key \<Rightarrow> extent_key" where
  "extent_key_for_merge_into self = ExtentKey (Range 0 (rstart (range self)))"

definition extent_cmp_upper_bound :: "extent_key \<Rightarrow> extent_key \<Rightarrow> ordering" where
  "extent_cmp_upper_bound self other = cmp (rend (range self)) (rend (range other))"

definition extent_cmp_lower_bound :: "extent_key \<Rightarrow> extent_key \<Rightarrow> ordering" where
  "extent_cmp_lower_bound self other = cmp (rstart (range self)) (rstart (range other))"

definition extent_cmp :: "extent_key \<Rightarrow> extent_key \<Rightarrow> ordering" where
  "extent_cmp self other =
     cmp_then (cmp (rstart (range self)) (rstart (range other)))
       (cmp (rend (range self)) (rend (range other)))"

section \<open>Extent values\<close>

datatype checksums = ChecksumsNone | Fletcher "nat list"

text \<open>\<^verbatim>\<open>split_off\<close> keeps the first \<open>at\<close> checksums and returns the others; it panics past the end.\<close>

definition checksums_split_off :: "nat \<Rightarrow> checksums \<Rightarrow> (checksums \<times> checksums) res" where
  "checksums_split_off at self =
     (case self of
        ChecksumsNone \<Rightarrow> Inr (ChecksumsNone, ChecksumsNone)
      | Fletcher sums \<Rightarrow>
          if at \<le> length sums then Inr (Fletcher (take at sums), Fletcher (drop at sums)) else Inl Panic)"

datatype extent_value =
    ExtentNone
  | ExtentSome (device_offset: nat) (checksums_of: checksums) (key_id: nat)

definition extent_value_new :: "nat \<Rightarrow> extent_value" where
  "extent_value_new d = ExtentSome d ChecksumsNone 0"

definition with_checksum :: "nat \<Rightarrow> checksums \<Rightarrow> extent_value" where
  "with_checksum d cs = ExtentSome d cs 0"

definition extent_is_deleted :: "extent_value \<Rightarrow> bool" where
  "extent_is_deleted self = (case self of ExtentNone \<Rightarrow> True | _ \<Rightarrow> False)"

definition offset_by :: "extent_value \<Rightarrow> nat \<Rightarrow> nat \<Rightarrow> extent_value res" where
  "offset_by self amount extent_len =
     (case self of
        ExtentNone \<Rightarrow> Inr ExtentNone
      | ExtentSome d cs kid \<Rightarrow>
          (case cs of
             Fletcher sums \<Rightarrow>
               if length sums > 0
               then bind_res (u64_div extent_len (length sums)) (\<lambda>chunk.
                    bind_res (u64_div amount chunk) (\<lambda>index.
                    bind_res (u64_add d amount) (\<lambda>d'.
                    bind_res (ensure (index \<le> length sums) Panic) (\<lambda>_.
                      Inr (ExtentSome d' (Fletcher (drop index sums)) kid)))))
               else bind_res (u64_add d amount) (\<lambda>d'. Inr (ExtentSome d' ChecksumsNone kid))
           | ChecksumsNone \<Rightarrow> bind_res (u64_add d amount) (\<lambda>d'. Inr (ExtentSome d' ChecksumsNone kid))))"

definition shrunk :: "extent_value \<Rightarrow> nat \<Rightarrow> nat \<Rightarrow> extent_value res" where
  "shrunk self original_len new_len =
     (case self of
        ExtentNone \<Rightarrow> Inr ExtentNone
      | ExtentSome d cs kid \<Rightarrow>
          (case cs of
             Fletcher sums \<Rightarrow>
               if length sums > 0
               then bind_res (u64_div original_len (length sums)) (\<lambda>chunk.
                    bind_res (u64_div new_len chunk) (\<lambda>checksum_len.
                    bind_res (ensure (checksum_len \<le> length sums) Panic) (\<lambda>_.
                      Inr (ExtentSome d (Fletcher (take checksum_len sums)) kid))))
               else Inr (ExtentSome d ChecksumsNone kid)
           | ChecksumsNone \<Rightarrow> Inr (ExtentSome d ChecksumsNone kid)))"

section \<open>What an extent says of a byte\<close>

text \<open>
  Of the byte at distance \<open>rel\<close> from its start an extent gives the device offset, the checksum of
  the block the byte is in (if there are checksums) and the encryption key, or that it is deleted.
\<close>

datatype byte_info = Hole | Mapped nat "nat option" nat

definition block_checksum :: "nat \<Rightarrow> checksums \<Rightarrow> nat \<Rightarrow> nat option" where
  "block_checksum bs cs rel =
     (case cs of
        ChecksumsNone \<Rightarrow> None
      | Fletcher sums \<Rightarrow> if sums = [] then None else Some (sums ! (rel div bs)))"

definition byte_at :: "nat \<Rightarrow> extent_value \<Rightarrow> nat \<Rightarrow> byte_info" where
  "byte_at bs v rel =
     (case v of
        ExtentNone \<Rightarrow> Hole
      | ExtentSome d cs kid \<Rightarrow> Mapped (d + rel) (block_checksum bs cs rel) kid)"

text \<open>
  A value fits an extent of \<open>len\<close> bytes when its device range does not overflow and it has no
  checksums or one per block.
\<close>

definition value_fits :: "nat \<Rightarrow> nat \<Rightarrow> extent_value \<Rightarrow> bool" where
  "value_fits bs len v =
     (case v of
        ExtentNone \<Rightarrow> True
      | ExtentSome d cs _ \<Rightarrow>
          d + len \<le> u64_max \<and>
          (case cs of ChecksumsNone \<Rightarrow> True | Fletcher sums \<Rightarrow> sums = [] \<or> length sums * bs = len))"

lemma chunk_size: "length sums * bs = len \<Longrightarrow> sums \<noteq> [] \<Longrightarrow> len div length sums = bs"
  by auto

lemma offset_by_fits:
  assumes "value_fits bs len v" "0 < bs" "bs dvd amount" "amount < len"
  obtains v' where "offset_by v amount len = Inr v'" "value_fits bs (len - amount) v'"
    "\<And>rel. amount \<le> rel \<Longrightarrow> rel < len \<Longrightarrow> byte_at bs v' (rel - amount) = byte_at bs v rel"
proof (cases v)
  case ExtentNone
  with that [of ExtentNone] show thesis by (simp add: offset_by_def value_fits_def byte_at_def)
next
  case (ExtentSome d cs kid)
  have d: "d + amount \<le> u64_max" "d + amount + (len - amount) \<le> u64_max"
    using assms(1,4) ExtentSome by (auto simp: value_fits_def)
  show thesis
  proof (cases "\<exists>sums. cs = Fletcher sums \<and> sums \<noteq> []")
    case False
    then show thesis
      using that [of "ExtentSome (d + amount) ChecksumsNone kid"] d ExtentSome
      by (cases cs) (simp_all add: offset_by_def u64_add_eq value_fits_def byte_at_def block_checksum_def)
  next
    case True
    then obtain sums where cs: "cs = Fletcher sums" "sums \<noteq> []" by blast
    then have len: "length sums * bs = len" using assms(1) ExtentSome by (simp add: value_fits_def)
    obtain k where k: "amount = bs * k" using assms(3) by blast
    then have le: "k < length sums" using len assms(4) by (metis mult.commute mult_less_cancel1)
    have "sums \<noteq> []" "drop k sums \<noteq> []" using cs(2) le by simp_all
    moreover have "drop k sums ! ((rel - amount) div bs) = sums ! (rel div bs)"
      if "amount \<le> rel" "rel < len" for rel
    proof -
      have "\<exists>r. rel = bs * k + r" using that(1) unfolding k by (rule le_Suc_ex)
      then obtain r where r: "rel = bs * k + r" by blast
      have "(rel - amount) div bs = r div bs" "rel div bs = k + r div bs"
        using assms(2) by (simp_all add: r k)
      then show ?thesis using le by simp
    qed
    moreover have "length (drop k sums) * bs = len - amount"
      unfolding k len [symmetric] by (simp add: diff_mult_distrib2 mult.commute)
    moreover have "offset_by v amount len = Inr (ExtentSome (d + amount) (Fletcher (drop k sums)) kid)"
    proof -
      have "amount div bs = k" using k assms(2) by simp
      then show ?thesis
        using cs(2) d(1) le assms(2)
        by (simp add: offset_by_def u64_add_eq u64_div_def chunk_size [OF len] ExtentSome cs(1))
    qed
    ultimately show thesis
      by (intro that [of "ExtentSome (d + amount) (Fletcher (drop k sums)) kid"])
        (use d in \<open>simp_all add: value_fits_def byte_at_def block_checksum_def ExtentSome cs(1)\<close>)
  qed
qed

lemma shrunk_fits:
  assumes "value_fits bs len v" "0 < bs" "bs dvd new_len" "0 < new_len" "new_len < len"
  obtains v' where "shrunk v len new_len = Inr v'" "value_fits bs new_len v'"
    "\<And>rel. rel < new_len \<Longrightarrow> byte_at bs v' rel = byte_at bs v rel"
proof (cases v)
  case ExtentNone
  with that [of ExtentNone] show thesis by (simp add: shrunk_def value_fits_def byte_at_def)
next
  case (ExtentSome d cs kid)
  have d: "d + new_len \<le> u64_max" using assms(1,5) ExtentSome by (auto simp: value_fits_def)
  show thesis
  proof (cases "\<exists>sums. cs = Fletcher sums \<and> sums \<noteq> []")
    case False
    then show thesis
      using that [of "ExtentSome d ChecksumsNone kid"] d ExtentSome
      by (cases cs) (auto simp: shrunk_def value_fits_def byte_at_def block_checksum_def)
  next
    case True
    then obtain sums where cs: "cs = Fletcher sums" "sums \<noteq> []" by blast
    then have len: "length sums * bs = len" using assms(1) ExtentSome by (simp add: value_fits_def)
    obtain k where k: "new_len = bs * k" using assms(3) by blast
    then have le: "k < length sums" "0 < k" using len assms(2,4,5) by (auto simp: mult.commute)
    have "rel div bs < k" if "rel < new_len" for rel
      using that k by (simp add: less_mult_imp_div_less mult.commute)
    moreover have "shrunk v len new_len = Inr (ExtentSome d (Fletcher (take k sums)) kid)"
      using cs ExtentSome le k assms(2) len by (simp add: shrunk_def u64_div_def chunk_size)
    ultimately show thesis
      using that [of "ExtentSome d (Fletcher (take k sums)) kid"] d ExtentSome cs le k
      by (auto simp: value_fits_def byte_at_def block_checksum_def mult.commute)
  qed
qed

text \<open>
  Cutting an extent value to the part from a block-aligned offset on, or to a block-aligned
  prefix, never panics; the result fits the shorter extent and says of every byte that is left (its
  device offset, its block's checksum, its encryption key) what the original says.
\<close>

lemma extent_cut_correct:
  assumes "value_fits bs len v" "0 < bs" "bs dvd at" "0 < at" "at < len"
  shows "(\<exists>suffix. offset_by v at len = Inr suffix \<and> value_fits bs (len - at) suffix \<and>
      (\<forall>rel. at \<le> rel \<and> rel < len \<longrightarrow> byte_at bs suffix (rel - at) = byte_at bs v rel)) \<and>
    (\<exists>prefix. shrunk v len at = Inr prefix \<and> value_fits bs at prefix \<and>
      (\<forall>rel < at. byte_at bs prefix rel = byte_at bs v rel))"
proof
  show "\<exists>suffix. offset_by v at len = Inr suffix \<and> value_fits bs (len - at) suffix \<and>
      (\<forall>rel. at \<le> rel \<and> rel < len \<longrightarrow> byte_at bs suffix (rel - at) = byte_at bs v rel)"
    by (rule offset_by_fits [OF assms(1-3,5)]) blast
  show "\<exists>prefix. shrunk v len at = Inr prefix \<and> value_fits bs at prefix \<and>
      (\<forall>rel < at. byte_at bs prefix rel = byte_at bs v rel)"
    by (rule shrunk_fits [OF assms]) blast
qed

text \<open>
  Two extents overlap exactly when they share a byte, and the overlap is the set of the bytes
  they share; searching from the search key of an extent skips exactly the extents that end at or
  before its start.
\<close>

lemma overlap_search_spec:
  assumes "rstart (range e) < rend (range e)" "rend (range e) \<le> u64_max"
  shows "(case overlap e f of
       None \<Rightarrow> {rstart (range e)..<rend (range e)} \<inter> {rstart (range f)..<rend (range f)} = {}
     | Some r \<Rightarrow> {rstart r..<rend r} = {rstart (range e)..<rend (range e)} \<inter> {rstart (range f)..<rend (range f)}) \<and>
    (\<exists>k. extent_search_key e = Inr k \<and>
       (extent_cmp_upper_bound f k = Less \<longleftrightarrow> rend (range f) \<le> rstart (range e)) \<and>
       extent_cmp_lower_bound k e \<noteq> Greater)"
  using assms
  by (auto simp: overlap_def extent_search_key_def search_key_from_offset_def u64_add_def
      extent_cmp_upper_bound_def extent_cmp_lower_bound_def split: option.splits if_splits)

end
