(* ===== verification/Object_Record.thy ===== *)
theory Object_Record
  imports Extent_Record Lsm_Types "HOL-Library.Char_ord" "HOL-Library.List_Lexorder"
begin

text \<open>
  Keys and values of an object store (\<^verbatim>\<open>src/src/object_store/object_record.rs\<close>). The derived
  \<^verbatim>\<open>Ord\<close> of an enum compares the variants in the order of their declaration and then their fields.
  A name is its sequence of bytes. Wrapped encryption keys (\<^verbatim>\<open>src/src/crypt.rs\<close>) are opaque here:
  the type of values has a parameter for them.
\<close>

section \<open>Keys\<close>

datatype object_descriptor = FileDescriptor | DirectoryDescriptor | VolumeDescriptor

datatype attribute_key = Size | Extent extent_key

datatype object_key_data =
    Object
  | Keys
  | Attribute nat attribute_key
  | Child string
  | GraveyardEntry nat

record object_key =
  object_id :: nat
  data :: object_key_data

definition object_key_object :: "nat \<Rightarrow> object_key" where
  "object_key_object oid = \<lparr>object_id = oid, data = Object\<rparr>"

definition object_key_keys :: "nat \<Rightarrow> object_key" where
  "object_key_keys oid = \<lparr>object_id = oid, data = Keys\<rparr>"

definition object_key_attribute :: "nat \<Rightarrow> nat \<Rightarrow> attribute_key \<Rightarrow> object_key" where
  "object_key_attribute oid attribute_id k = \<lparr>object_id = oid, data = Attribute attribute_id k\<rparr>"

definition object_key_extent :: "nat \<Rightarrow> nat \<Rightarrow> u64_range \<Rightarrow> object_key" where
  "object_key_extent oid attribute_id r =
     \<lparr>object_id = oid, data = Attribute attribute_id (Extent (extent_key_new r))\<rparr>"

definition object_key_from_extent :: "nat \<Rightarrow> nat \<Rightarrow> extent_key \<Rightarrow> object_key" where
  "object_key_from_extent oid attribute_id e = \<lparr>object_id = oid, data = Attribute attribute_id (Extent e)\<rparr>"

definition object_key_child :: "nat \<Rightarrow> string \<Rightarrow> object_key" where
  "object_key_child oid name = \<lparr>object_id = oid, data = Child name\<rparr>"

definition object_key_graveyard_entry :: "nat \<Rightarrow> nat \<Rightarrow> object_key" where
  "object_key_graveyard_entry graveyard_object_id oid =
     \<lparr>object_id = graveyard_object_id, data = GraveyardEntry oid\<rparr>"

definition object_search_key :: "object_key \<Rightarrow> object_key res" where
  "object_search_key self =
     (case data self of
        Attribute attribute_id (Extent e) \<Rightarrow>
          bind_res (extent_search_key e) (\<lambda>e'.
            Inr (object_key_attribute (object_id self) attribute_id (Extent e')))
      | _ \<Rightarrow> Inr self)"

definition object_key_for_merge_into :: "object_key \<Rightarrow> object_key" where
  "object_key_for_merge_into self =
     (case data self of
        Attribute attribute_id (Extent e) \<Rightarrow>
          object_key_attribute (object_id self) attribute_id (Extent (extent_key_for_merge_into e))
      | _ \<Rightarrow> self)"

section \<open>Order\<close>

fun attribute_key_cmp :: "attribute_key \<Rightarrow> attribute_key \<Rightarrow> ordering" where
  "attribute_key_cmp Size Size = Equal"
| "attribute_key_cmp Size (Extent _) = Less"
| "attribute_key_cmp (Extent _) Size = Greater"
| "attribute_key_cmp (Extent a) (Extent b) = extent_cmp a b"

definition variant_index :: "object_key_data \<Rightarrow> nat" where
  "variant_index d =
     (case d of Object \<Rightarrow> 0 | Keys \<Rightarrow> 1 | Attribute _ _ \<Rightarrow> 2 | Child _ \<Rightarrow> 3 | GraveyardEntry _ \<Rightarrow> 4)"

definition data_cmp :: "object_key_data \<Rightarrow> object_key_data \<Rightarrow> ordering" where
  "data_cmp a b =
     (case (a, b) of
        (Attribute i k, Attribute j l) \<Rightarrow> cmp_then (cmp i j) (attribute_key_cmp k l)
      | (Child n, Child m) \<Rightarrow> cmp n m
      | (GraveyardEntry i, GraveyardEntry j) \<Rightarrow> cmp i j
      | _ \<Rightarrow> cmp (variant_index a) (variant_index b))"

definition object_key_cmp :: "object_key \<Rightarrow> object_key \<Rightarrow> ordering" where
  "object_key_cmp self other =
     cmp_then (cmp (object_id self) (object_id other)) (data_cmp (data self) (data other))"

definition object_cmp_upper_bound :: "object_key \<Rightarrow> object_key \<Rightarrow> ordering" where
  "object_cmp_upper_bound self other =
     cmp_then (cmp (object_id self) (object_id other))
       (case (data self, data other) of
          (Attribute left_attr_id (Extent left_extent), Attribute right_attr_id (Extent right_extent)) \<Rightarrow>
            cmp_then (cmp left_attr_id right_attr_id) (extent_cmp_upper_bound left_extent right_extent)
        | _ \<Rightarrow> data_cmp (data self) (data other))"

definition object_cmp_lower_bound :: "object_key \<Rightarrow> object_key \<Rightarrow> ordering" where
  "object_cmp_lower_bound self other =
     cmp_then (cmp (object_id self) (object_id other))
       (case (data self, data other) of
          (Attribute left_attr_id (Extent left_extent), Attribute right_attr_id (Extent right_extent)) \<Rightarrow>
            cmp_then (cmp left_attr_id right_attr_id) (extent_cmp_lower_bound left_extent right_extent)
        | _ \<Rightarrow> data_cmp (data self) (data other))"

definition object_next_key :: "object_key \<Rightarrow> object_key option res" where
  "object_next_key self =
     (case data self of
        Attribute attribute_id (Extent e) \<Rightarrow>
          bind_res (u64_add (rend (range e)) 1) (\<lambda>e1.
            Inr (Some (self\<lparr>data := Attribute attribute_id (Extent (ExtentKey (Range (rend (range e)) e1)))\<rparr>)))
      | _ \<Rightarrow> Inr None)"

definition object_overlaps :: "object_key \<Rightarrow> object_key \<Rightarrow> bool" where
  "object_overlaps self other =
     (if object_id self \<noteq> object_id other then False
      else case (data self, data other) of
        (Attribute left_attr_id (Extent l), Attribute right_attr_id (Extent r)) \<Rightarrow>
          if left_attr_id = right_attr_id
          then rend (range l) > rstart (range r) \<and> rstart (range l) < rend (range r)
          else data self = data other
      | (a, b) \<Rightarrow> a = b)"

definition object_ops :: "object_key key_ops" where
  "object_ops =
     \<lparr>cmp_upper_bound = object_cmp_upper_bound, cmp_lower_bound = object_cmp_lower_bound,
      next_key = object_next_key\<rparr>"

section \<open>Timestamps\<close>

record timestamp =
  secs :: nat
  nanos :: nat

definition nsec_per_sec :: nat where
  "nsec_per_sec = 1000000000"

definition timestamp_zero :: timestamp where
  "timestamp_zero = \<lparr>secs = 0, nanos = 0\<rparr>"

text \<open>\<^verbatim>\<open>as u32\<close> keeps the low 32 bits.\<close>

definition from_nanos :: "nat \<Rightarrow> timestamp" where
  "from_nanos n = \<lparr>secs = n div nsec_per_sec, nanos = (n mod nsec_per_sec) mod 2 ^ 32\<rparr>"

definition as_nanos :: "timestamp \<Rightarrow> nat" where
  "as_nanos self =
     (case checked_mul nsec_per_sec (secs self) of
        None \<Rightarrow> 0
      | Some v \<Rightarrow> (case checked_add v (nanos self) of None \<Rightarrow> 0 | Some w \<Rightarrow> w))"

section \<open>Values\<close>

datatype object_kind =
    File (refs: nat) (allocated_size: nat)
  | Directory (sub_dirs: nat)
  | Graveyard

record object_attributes =
  creation_time :: timestamp
  modification_time :: timestamp

datatype 'wk object_value =
    VNone
  | VSome
  | VObject object_kind object_attributes
  | VKeys 'wk
  | VAttribute nat
  | VExtent extent_value
  | VChild nat object_descriptor
  | VTrim

type_synonym 'wk object_item = "(object_key, 'wk object_value) item"

definition value_file :: "nat \<Rightarrow> nat \<Rightarrow> timestamp \<Rightarrow> timestamp \<Rightarrow> 'wk object_value" where
  "value_file r a c m = VObject (File r a) \<lparr>creation_time = c, modification_time = m\<rparr>"

definition value_extent :: "nat \<Rightarrow> 'wk object_value" where
  "value_extent d = VExtent (with_checksum d ChecksumsNone)"

definition value_extent_with_checksum :: "nat \<Rightarrow> checksums \<Rightarrow> 'wk object_value" where
  "value_extent_with_checksum d cs = VExtent (with_checksum d cs)"

definition value_deleted_extent :: "'wk object_value" where
  "value_deleted_extent = VExtent ExtentNone"

definition is_tombstone :: "'wk object_item \<Rightarrow> bool" where
  "is_tombstone i = (data (key i) = Object \<and> value i = VNone)"

definition item_as_extent :: "'wk object_item \<Rightarrow> (nat \<times> nat \<times> extent_key \<times> extent_value) option" where
  "item_as_extent i =
     (case (data (key i), value i) of
        (Attribute attribute_id (Extent e), VExtent v) \<Rightarrow> Some (object_id (key i), attribute_id, e, v)
      | _ \<Rightarrow> None)"

section \<open>Properties of keys and timestamps\<close>

text \<open>
  Converting nanoseconds to a timestamp and back is the identity on 64-bit values, and the
  sub-second part is always below a second.
\<close>

lemma timestamp_roundtrip:
  assumes "n \<le> u64_max"
  shows "as_nanos (from_nanos n) = n \<and> nanos (from_nanos n) < nsec_per_sec"
proof -
  define q r where "q = n div nsec_per_sec" and "r = n mod nsec_per_sec"
  have n: "nsec_per_sec * q + r = n" by (simp add: q_def r_def)
  have r: "r < nsec_per_sec" by (simp add: r_def nsec_per_sec_def)
  then have "r < 2 ^ 32" by (simp add: nsec_per_sec_def)
  with r n assms show ?thesis
    by (simp add: as_nanos_def from_nanos_def checked_mul_def checked_add_def flip: q_def r_def)
qed

end
