(* ===== verification/Reservation.thy ===== *)
theory Reservation
  imports Fxfs_Prelude
begin

text \<open>
  Reservations of the allocator (\<^verbatim>\<open>ReservationImpl\<close> of \<^verbatim>\<open>src/src/object_store/allocator.rs\<close>).
  A reservation holds an amount on behalf of its owner, part of which may be set aside in
  sub-reservations (holds). Operations that hand bytes back to the owner of the reservation return the
  request, an owner object id and an amount, which the caller passes to the owner's
  \<^verbatim>\<open>release_reservation\<close>. Failed assertions and underflows are panics.
\<close>

record reservation =
  res_owner_object_id :: "nat option"
  res_amount :: nat
  res_reserved :: nat

type_synonym release = "nat option \<times> nat"

definition res_new :: "nat option \<Rightarrow> nat \<Rightarrow> reservation" where
  "res_new owner amount = \<lparr>res_owner_object_id = owner, res_amount = amount, res_reserved = 0\<rparr>"

definition res_avail :: "reservation \<Rightarrow> nat res" where
  "res_avail self = u64_sub (res_amount self) (res_reserved self)"

definition res_add :: "nat \<Rightarrow> reservation \<Rightarrow> reservation res" where
  "res_add amount self =
     bind_res (u64_add (res_amount self) amount) (\<lambda>a. Inr (self\<lparr>res_amount := a\<rparr>))"

definition res_forget :: "reservation \<Rightarrow> (nat \<times> reservation) res" where
  "res_forget self =
     bind_res (ensure (res_reserved self = 0) Panic) (\<lambda>_.
       Inr (res_amount self, self\<lparr>res_amount := 0\<rparr>))"

definition res_forget_some :: "nat \<Rightarrow> reservation \<Rightarrow> reservation res" where
  "res_forget_some amount self =
     bind_res (u64_sub (res_amount self) amount) (\<lambda>a.
     bind_res (ensure (res_reserved self \<le> a) Panic) (\<lambda>_.
       Inr (self\<lparr>res_amount := a\<rparr>)))"

definition res_reserve_at_most :: "nat \<Rightarrow> reservation \<Rightarrow> (reservation \<times> reservation) res" where
  "res_reserve_at_most amount self =
     bind_res (u64_sub (res_amount self) (res_reserved self)) (\<lambda>free.
     let taken = min amount free in
     bind_res (u64_add (res_reserved self) taken) (\<lambda>r.
       Inr (res_new (res_owner_object_id self) taken, self\<lparr>res_reserved := r\<rparr>)))"

definition res_reserve :: "nat \<Rightarrow> reservation \<Rightarrow> (reservation option \<times> reservation) res" where
  "res_reserve amount self =
     bind_res (u64_sub (res_amount self) (res_reserved self)) (\<lambda>free.
       if free < amount then Inr (None, self)
       else bind_res (u64_add (res_reserved self) amount) (\<lambda>r.
         Inr (Some (res_new (res_owner_object_id self) amount), self\<lparr>res_reserved := r\<rparr>)))"

definition res_commit :: "nat \<Rightarrow> reservation \<Rightarrow> reservation res" where
  "res_commit amount self =
     bind_res (u64_sub (res_reserved self) amount) (\<lambda>r.
     bind_res (u64_sub (res_amount self) amount) (\<lambda>a.
       Inr (self\<lparr>res_reserved := r, res_amount := a\<rparr>)))"

definition res_take :: "reservation \<Rightarrow> (reservation \<times> reservation) res" where
  "res_take self =
     bind_res (ensure (res_reserved self = 0) Panic) (\<lambda>_.
       Inr (res_new (res_owner_object_id self) (res_amount self), self\<lparr>res_amount := 0\<rparr>))"

definition res_give_back :: "nat \<Rightarrow> reservation \<Rightarrow> (release \<times> reservation) res" where
  "res_give_back amount self =
     bind_res (u64_sub (res_amount self) amount) (\<lambda>a.
     bind_res (ensure (res_reserved self \<le> a) Panic) (\<lambda>_.
       Inr ((res_owner_object_id self, amount), self\<lparr>res_amount := a\<rparr>)))"

definition res_move_to :: "reservation \<Rightarrow> nat \<Rightarrow> reservation \<Rightarrow> (reservation \<times> reservation) res" where
  "res_move_to other amount self =
     bind_res (ensure (res_owner_object_id self = res_owner_object_id other) Panic) (\<lambda>_.
     bind_res (u64_sub (res_amount self) amount) (\<lambda>a.
     bind_res (res_add amount other) (\<lambda>other'.
       Inr (self\<lparr>res_amount := a\<rparr>, other'))))"

text \<open>\<^verbatim>\<open>Drop\<close>: what is left of the amount goes back to the owner.\<close>

definition res_drop :: "reservation \<Rightarrow> release option res" where
  "res_drop self =
     bind_res (ensure (res_reserved self = 0) Panic) (\<lambda>_.
       Inr (if res_amount self > 0 then Some (res_owner_object_id self, res_amount self) else None))"

text \<open>\<^verbatim>\<open>ReservationOwner for ReservationImpl\<close>: a hold returns bytes to the reservation it is part of.\<close>

definition res_release_reservation :: "nat option \<Rightarrow> nat \<Rightarrow> reservation \<Rightarrow> reservation res" where
  "res_release_reservation owner amount self =
     bind_res (ensure (owner = res_owner_object_id self) Panic) (\<lambda>_.
     bind_res (ensure (res_reserved self \<ge> amount) Panic) (\<lambda>_.
       Inr (self\<lparr>res_reserved := res_reserved self - amount\<rparr>)))"

section \<open>Invariant\<close>

text \<open>What is set aside never exceeds the amount, which is a 64-bit number.\<close>

definition res_ok :: "reservation \<Rightarrow> bool" where
  "res_ok r = (res_reserved r \<le> res_amount r \<and> res_amount r \<le> u64_max)"

text \<open>
  Reserving, committing, adding, forgetting a part, giving back and releasing keep the part that is set
  aside within the amount, and when they succeed they account for every byte: committing takes the bytes
  from both, giving back reduces the amount by what is released. Moving bytes to another reservation
  (\<open>res_move_to\<close>) only checks the amount, not the part that is set aside, so it does not keep the
  invariant by itself; taking and forgetting everything leave the amount at zero.
\<close>

lemma reservation_ops_keep_invariant:
  assumes "res_ok r"
  shows "(\<forall>h r'. res_reserve_at_most n r = Inr (h, r') \<longrightarrow>
        res_ok h \<and> res_ok r' \<and> res_reserved r' = res_reserved r + res_amount h \<and> res_amount r' = res_amount r \<and>
        res_amount h = min n (res_amount r - res_reserved r)) \<and>
    (\<forall>h r'. res_reserve n r = Inr (h, r') \<longrightarrow> res_ok r' \<and>
        (case h of None \<Rightarrow> r' = r \<and> res_amount r - res_reserved r < n
         | Some h \<Rightarrow> res_ok h \<and> res_amount h = n \<and> res_reserved r' = res_reserved r + n)) \<and>
    (\<forall>r'. res_commit n r = Inr r' \<longrightarrow> res_ok r' \<and> res_amount r = res_amount r' + n \<and>
        res_reserved r = res_reserved r' + n) \<and>
    (\<forall>r'. res_forget_some n r = Inr r' \<longrightarrow> res_ok r' \<and> res_amount r = res_amount r' + n) \<and>
    (\<forall>q r'. res_give_back n r = Inr (q, r') \<longrightarrow> res_ok r' \<and> res_amount r = res_amount r' + snd q) \<and>
    (\<forall>r'. res_release_reservation ow n r = Inr r' \<longrightarrow> res_ok r' \<and> res_reserved r = res_reserved r' + n) \<and>
    (\<forall>r'. res_add n r = Inr r' \<longrightarrow> res_ok r' \<and> res_amount r' = res_amount r + n)"
  using assms
  by (intro conjI allI impI)
    (auto simp: res_ok_def res_reserve_at_most_def res_reserve_def res_commit_def res_forget_some_def
      res_give_back_def res_release_reservation_def res_add_def res_new_def bind_res_eq_Inr u64_add_def
      u64_sub_def Let_def split: if_splits)

text \<open>
  A hold that is dropped unused returns exactly what it had taken: the reservation it came from is
  as it was before.
\<close>

lemma hold_drop_roundtrip:
  assumes "res_ok r"
  shows "\<exists>h r1. res_reserve_at_most n r = Inr (h, r1) \<and>
    (case res_drop h of
       Inr None \<Rightarrow> r1 = r
     | Inr (Some (ow, k)) \<Rightarrow> res_release_reservation ow k r1 = Inr r
     | Inl _ \<Rightarrow> False)"
  using assms
  by (auto simp: res_ok_def res_reserve_at_most_def res_drop_def res_release_reservation_def res_new_def
      u64_add_def u64_sub_def Let_def min_def)

end
