(* ===== verification/Lock_Manager.thy ===== *)
theory Lock_Manager
  imports Fxfs_Prelude "HOL-Library.List_Lexorder"
begin

text \<open>
  The lock manager of \<^verbatim>\<open>src/src/object_store/transaction.rs\<close> (\<^verbatim>\<open>LockKey\<close>, \<^verbatim>\<open>LockManager\<close>, \<^verbatim>\<open>Locks\<close>,
  \<^verbatim>\<open>LockEntry\<close>, \<^verbatim>\<open>LockWaker\<close>).

  The doubly-linked list of wakers of an entry is the list of its wakers from head to tail; a waker is
  identified by a number (its address in the code). Waking a task is modelled by returning the wakers
  that were granted the lock: a waker is in the state \<^verbatim>\<open>Woken\<close> when it has left the queue. The Rust
  mutex around the table makes each of the functions below atomic; a future that awaits a lock is a
  sequence of such steps.
\<close>

section \<open>Lock keys\<close>

datatype lock_key =
    LObjectAttribute nat nat nat
  | LObject nat nat
  | LRootVolume
  | LFilesystem
  | LCachedWrite nat nat nat
  | LFlush nat
  | LTruncate nat nat

text \<open>The derived order: the variant first, then the fields.\<close>

fun lock_key_code :: "lock_key \<Rightarrow> nat list" where
  "lock_key_code (LObjectAttribute s x a) = [0, s, x, a]"
| "lock_key_code (LObject s x) = [1, s, x]"
| "lock_key_code LRootVolume = [2]"
| "lock_key_code LFilesystem = [3]"
| "lock_key_code (LCachedWrite s x a) = [4, s, x, a]"
| "lock_key_code (LFlush x) = [5, x]"
| "lock_key_code (LTruncate s x) = [6, s, x]"

lemma lock_key_code_inject: "lock_key_code k = lock_key_code k' \<Longrightarrow> k = k'"
  by (cases k; cases k') simp_all

instantiation lock_key :: linorder
begin

definition less_eq_lock_key :: "lock_key \<Rightarrow> lock_key \<Rightarrow> bool" where
  "less_eq_lock_key k k' = (lock_key_code k \<le> lock_key_code k')"

definition less_lock_key :: "lock_key \<Rightarrow> lock_key \<Rightarrow> bool" where
  "less_lock_key k k' = (lock_key_code k < lock_key_code k')"

instance
  by standard (auto simp: less_eq_lock_key_def less_lock_key_def intro: lock_key_code_inject)

end

section \<open>Entries\<close>

datatype lock_state = ReadLock | Locked | WriteLock

record lock_waker =
  waker_id :: nat
  target_state :: lock_state
  is_upgrade :: bool

record lock_entry =
  read_count :: nat
  lstate :: lock_state
  wakers :: "lock_waker list"

definition is_allowed :: "lock_state \<Rightarrow> bool \<Rightarrow> lock_entry \<Rightarrow> bool" where
  "is_allowed target is_head self =
     (case lstate self of
        ReadLock \<Rightarrow> (read_count self = 0 \<or> target = Locked \<or> target = ReadLock) \<and> is_head
      | Locked \<Rightarrow> target = ReadLock \<and>
          (is_head \<or> (case wakers self of [] \<Rightarrow> False | w # _ \<Rightarrow> \<not> is_upgrade w))
      | WriteLock \<Rightarrow> False)"

definition pop_and_wake :: "lock_waker \<Rightarrow> lock_entry \<Rightarrow> lock_entry" where
  "pop_and_wake w self =
     (let self = self\<lparr>wakers := tl (wakers self)\<rparr> in
      if target_state w = ReadLock then self\<lparr>read_count := read_count self + 1\<rparr>
      else self\<lparr>lstate := target_state w\<rparr>)"

text \<open>The loop at the end of \<open>wake\<close>, over the queue.\<close>

fun wake_readers :: "lock_waker list \<Rightarrow> lock_entry \<Rightarrow> lock_waker list \<times> lock_entry" where
  "wake_readers [] self = ([], self)"
| "wake_readers (w # ws) self =
     (if target_state w = ReadLock
      then (let (woken, self) = wake_readers ws (pop_and_wake w self) in (w # woken, self))
      else ([], self))"

definition wake :: "lock_entry \<Rightarrow> lock_waker list \<times> lock_entry" where
  "wake self =
     (case wakers self of
        [] \<Rightarrow> ([], self)
      | w # ws \<Rightarrow>
          if lstate self = WriteLock then ([], self)
          else if (if is_upgrade w then read_count self > 0 else \<not> is_allowed (target_state w) True self)
          then ([], self)
          else
            let self = pop_and_wake w self in
            if target_state w = WriteLock then ([w], self)
            else let (woken, self) = wake_readers ws self in (w # woken, self))"

definition can_remove :: "lock_entry \<Rightarrow> bool" where
  "can_remove self = (lstate self = ReadLock \<and> read_count self = 0)"

definition remove_waker :: "nat \<Rightarrow> lock_entry \<Rightarrow> lock_waker list \<times> lock_entry" where
  "remove_waker i self =
     (let is_first = (case wakers self of [] \<Rightarrow> False | w # _ \<Rightarrow> waker_id w = i);
          self = self\<lparr>wakers := filter (\<lambda>w. waker_id w \<noteq> i) (wakers self)\<rparr>
      in if is_first then wake self else ([], self))"

definition downgrade_lock :: "lock_entry \<Rightarrow> (lock_waker list \<times> lock_entry) res" where
  "downgrade_lock self =
     bind_res (ensure (lstate self = WriteLock) Panic) (\<lambda>_. Inr (wake (self\<lparr>lstate := Locked\<rparr>)))"

section \<open>The table\<close>

type_synonym locks = "lock_key \<Rightarrow> lock_entry option"

definition drop_lock :: "lock_key \<Rightarrow> lock_state \<Rightarrow> locks \<Rightarrow> (lock_waker list \<times> locks) res" where
  "drop_lock key state self =
     (case self key of
        None \<Rightarrow> Inl Panic
      | Some entry \<Rightarrow>
          bind_res
            (case state of
               ReadLock \<Rightarrow>
                 bind_res (u64_sub (read_count entry) 1) (\<lambda>n. Inr (n = 0, entry\<lparr>read_count := n\<rparr>))
             | _ \<Rightarrow> Inr (True, entry\<lparr>lstate := ReadLock\<rparr>)) (\<lambda>(do_wake, entry).
            if do_wake
            then let (woken, entry) = wake entry in
                 Inr (woken, self(key := if can_remove entry then None else Some entry))
            else Inr ([], self(key := Some entry))))"

fun drop_locks :: "lock_state \<Rightarrow> lock_key list \<Rightarrow> locks \<Rightarrow> ((lock_key \<times> lock_waker) list \<times> locks) res" where
  "drop_locks state [] self = Inr ([], self)"
| "drop_locks state (key # keys) self =
     bind_res (drop_lock key state self) (\<lambda>(woken, self).
     bind_res (drop_locks state keys self) (\<lambda>(more, self).
       Inr (map (Pair key) woken @ more, self)))"

definition drop_read_locks :: "lock_key list \<Rightarrow> locks \<Rightarrow> ((lock_key \<times> lock_waker) list \<times> locks) res" where
  "drop_read_locks = drop_locks ReadLock"

definition drop_write_locks :: "lock_key list \<Rightarrow> locks \<Rightarrow> ((lock_key \<times> lock_waker) list \<times> locks) res" where
  "drop_write_locks = drop_locks WriteLock"

definition downgrade_one :: "lock_key \<Rightarrow> locks \<Rightarrow> (lock_waker list \<times> locks) res" where
  "downgrade_one key self =
     (case self key of
        None \<Rightarrow> Inl Panic
      | Some entry \<Rightarrow> bind_res (downgrade_lock entry) (\<lambda>(woken, entry). Inr (woken, self(key := Some entry))))"

fun downgrade_locks :: "lock_key list \<Rightarrow> locks \<Rightarrow> ((lock_key \<times> lock_waker) list \<times> locks) res" where
  "downgrade_locks [] self = Inr ([], self)"
| "downgrade_locks (key # keys) self =
     bind_res (downgrade_one key self) (\<lambda>(woken, self).
     bind_res (downgrade_locks keys self) (\<lambda>(more, self).
       Inr (map (Pair key) woken @ more, self)))"

section \<open>Acquiring\<close>

text \<open>One key of \<open>lock\<close>: whether the lock is granted at once; otherwise a waker is queued.\<close>

definition lock_one :: "lock_key \<Rightarrow> lock_state \<Rightarrow> nat \<Rightarrow> locks \<Rightarrow> bool \<times> locks" where
  "lock_one key target i self =
     (case self key of
        None \<Rightarrow>
          (True, self(key \<mapsto> \<lparr>read_count = (if target = ReadLock then 1 else 0), lstate = target, wakers = []\<rparr>))
      | Some entry \<Rightarrow>
          if is_allowed target (wakers entry = []) entry
          then (True, self(key \<mapsto> (if target = ReadLock then entry\<lparr>read_count := read_count entry + 1\<rparr>
                                  else entry\<lparr>lstate := target\<rparr>)))
          else (False, self(key \<mapsto> entry\<lparr>wakers := wakers entry @
                  [\<lparr>waker_id = i, target_state = target, is_upgrade = False\<rparr>]\<rparr>)))"

datatype lock_progress = Acquired "lock_key list" | Blocked lock_key "lock_key list" "lock_key list"

text \<open>
  \<open>lock\<close> from a key on, until it is done or has to wait: \<open>Blocked key keys guard_keys\<close> waits for \<open>key\<close>,
  and when it is woken continues with \<open>keys\<close>, holding \<open>guard_keys\<close> and \<open>key\<close>.
\<close>

fun lock_run :: "lock_state \<Rightarrow> nat \<Rightarrow> lock_key list \<Rightarrow> lock_key list \<Rightarrow> locks \<Rightarrow> lock_progress \<times> locks" where
  "lock_run target i [] guard_keys self = (Acquired guard_keys, self)"
| "lock_run target i (key # keys) guard_keys self =
     (let (granted, self) = lock_one key target i self in
      if granted then lock_run target i keys (guard_keys @ [key]) self
      else (Blocked key keys guard_keys, self))"

definition lock_start :: "lock_state \<Rightarrow> nat \<Rightarrow> lock_key list \<Rightarrow> locks \<Rightarrow> lock_progress \<times> locks" where
  "lock_start target i lock_keys self = lock_run target i (remdups_adj (sort lock_keys)) [] self"

definition lock_resume :: "lock_state \<Rightarrow> nat \<Rightarrow> lock_progress \<Rightarrow> locks \<Rightarrow> lock_progress \<times> locks" where
  "lock_resume target i p self =
     (case p of
        Blocked key keys guard_keys \<Rightarrow> lock_run target i keys (guard_keys @ [key]) self
      | Acquired guard_keys \<Rightarrow> (p, self))"

definition commit_prepare_one :: "lock_key \<Rightarrow> nat \<Rightarrow> locks \<Rightarrow> (bool \<times> locks) res" where
  "commit_prepare_one key i self =
     (case self key of
        None \<Rightarrow> Inl Panic
      | Some entry \<Rightarrow>
          bind_res (ensure (lstate entry = Locked) Panic) (\<lambda>_.
            if read_count entry = 0 then Inr (True, self(key \<mapsto> entry\<lparr>lstate := WriteLock\<rparr>))
            else Inr (False, self(key \<mapsto> entry\<lparr>wakers :=
                   \<lparr>waker_id = i, target_state = WriteLock, is_upgrade = True\<rparr> # wakers entry\<rparr>))))"

text \<open>The guard of \<open>wait\<close>: what happens when the waiting future is dropped.\<close>

definition wait_dropped :: "lock_key \<Rightarrow> lock_waker \<Rightarrow> bool \<Rightarrow> locks \<Rightarrow> (lock_waker list \<times> locks) res" where
  "wait_dropped key w is_woken self =
     (if is_woken
      then if is_upgrade w then downgrade_one key self else drop_lock key (target_state w) self
      else (case self key of
              None \<Rightarrow> Inl Panic
            | Some entry \<Rightarrow>
                let (woken, entry) = remove_waker (waker_id w) entry in
                Inr (woken, self(key := Some entry))))"

end
