(* ===== verification/Transaction.thy ===== *)
theory Transaction
  imports Object_Record Reservation Lock_Manager
begin

text \<open>
  Transactions (\<^verbatim>\<open>Mutation\<close>, \<^verbatim>\<open>TxnMutation\<close>, \<^verbatim>\<open>Transaction\<close> of \<^verbatim>\<open>src/src/object_store/transaction.rs\<close>):
  the mutations a transaction collects, in a set ordered by object and by the custom comparison that
  looks only at the key of an object mutation, so that a second mutation of a key replaces the first.

  \<^verbatim>\<open>BTreeSet\<close> is the list of its elements in ascending order. \<^verbatim>\<open>UpdateMutationsKey\<close> is compared by its
  address in the source; here the mutation carries a number that stands for the address. An associated
  object is the number of the in-memory object it refers to. The future returned by \<^verbatim>\<open>Transaction::new\<close>
  awaits the locks, which are the subject of \<open>Lock_Manager\<close>; \<open>transaction_new\<close> is what it does once it
  holds them.
\<close>

section \<open>Keys\<close>

record wrapped_key =
  wrapping_key_id :: nat
  wrapped_key_bytes :: "8 word list"

datatype encryption_keys = AES256XTS "(nat \<times> wrapped_key) list"

section \<open>Mutations\<close>

datatype operation = OpInsert | OpReplaceOrInsert | OpMerge

record object_store_mutation =
  osm_item :: "encryption_keys object_item"
  osm_op :: operation

datatype allocator_mutation =
    Allocate u64_range nat
  | Deallocate u64_range nat
  | SetLimit nat nat
  | MarkForDeletion nat

datatype mutation =
    ObjectStoreM object_store_mutation
  | EncryptedObjectStoreM "8 word list"
  | AllocatorM allocator_mutation
  | BeginFlush
  | EndFlush
  | DeleteVolume
  | UpdateBorrowed nat
  | UpdateMutationsKeyM nat wrapped_key

definition insert_object :: "object_key \<Rightarrow> encryption_keys object_value \<Rightarrow> mutation" where
  "insert_object k v = ObjectStoreM \<lparr>osm_item = item_new k v, osm_op = OpInsert\<rparr>"

definition replace_or_insert_object :: "object_key \<Rightarrow> encryption_keys object_value \<Rightarrow> mutation" where
  "replace_or_insert_object k v = ObjectStoreM \<lparr>osm_item = item_new k v, osm_op = OpReplaceOrInsert\<rparr>"

definition merge_object :: "object_key \<Rightarrow> encryption_keys object_value \<Rightarrow> mutation" where
  "merge_object k v = ObjectStoreM \<lparr>osm_item = item_new k v, osm_op = OpMerge\<rparr>"

definition update_mutations_key :: "nat \<Rightarrow> wrapped_key \<Rightarrow> mutation" where
  "update_mutations_key addr k = UpdateMutationsKeyM addr k"

section \<open>Order\<close>

definition object_store_mutation_cmp :: "object_store_mutation \<Rightarrow> object_store_mutation \<Rightarrow> ordering" where
  "object_store_mutation_cmp self other = object_key_cmp (key (osm_item self)) (key (osm_item other))"

definition device_range_cmp :: "u64_range \<Rightarrow> u64_range \<Rightarrow> ordering" where
  "device_range_cmp self other = cmp_then (cmp (rstart self) (rstart other)) (cmp (rend self) (rend other))"

definition allocator_mutation_index :: "allocator_mutation \<Rightarrow> nat" where
  "allocator_mutation_index m =
     (case m of Allocate _ _ \<Rightarrow> 0 | Deallocate _ _ \<Rightarrow> 1 | SetLimit _ _ \<Rightarrow> 2 | MarkForDeletion _ \<Rightarrow> 3)"

definition allocator_mutation_cmp :: "allocator_mutation \<Rightarrow> allocator_mutation \<Rightarrow> ordering" where
  "allocator_mutation_cmp self other =
     (case (self, other) of
        (Allocate r ow, Allocate r' ow') \<Rightarrow> cmp_then (device_range_cmp r r') (cmp ow ow')
      | (Deallocate r ow, Deallocate r' ow') \<Rightarrow> cmp_then (device_range_cmp r r') (cmp ow ow')
      | (SetLimit ow b, SetLimit ow' b') \<Rightarrow> cmp_then (cmp ow ow') (cmp b b')
      | (MarkForDeletion ow, MarkForDeletion ow') \<Rightarrow> cmp ow ow'
      | _ \<Rightarrow> cmp (allocator_mutation_index self) (allocator_mutation_index other))"

definition mutation_index :: "mutation \<Rightarrow> nat" where
  "mutation_index m =
     (case m of
        ObjectStoreM _ \<Rightarrow> 0 | EncryptedObjectStoreM _ \<Rightarrow> 1 | AllocatorM _ \<Rightarrow> 2 | BeginFlush \<Rightarrow> 3 | EndFlush \<Rightarrow> 4
      | DeleteVolume \<Rightarrow> 5 | UpdateBorrowed _ \<Rightarrow> 6 | UpdateMutationsKeyM _ _ \<Rightarrow> 7)"

definition mutation_cmp :: "mutation \<Rightarrow> mutation \<Rightarrow> ordering" where
  "mutation_cmp self other =
     (case (self, other) of
        (ObjectStoreM m, ObjectStoreM m') \<Rightarrow> object_store_mutation_cmp m m'
      | (EncryptedObjectStoreM b, EncryptedObjectStoreM b') \<Rightarrow> cmp b b'
      | (AllocatorM m, AllocatorM m') \<Rightarrow> allocator_mutation_cmp m m'
      | (UpdateBorrowed n, UpdateBorrowed n') \<Rightarrow> cmp n n'
      | (UpdateMutationsKeyM addr _, UpdateMutationsKeyM addr' _) \<Rightarrow> cmp addr addr'
      | _ \<Rightarrow> cmp (mutation_index self) (mutation_index other))"

record txn_mutation =
  tm_object_id :: nat
  tm_mutation :: mutation
  tm_associated_object :: "nat option"

definition txn_mutation_cmp :: "txn_mutation \<Rightarrow> txn_mutation \<Rightarrow> ordering" where
  "txn_mutation_cmp self other =
     cmp_then (cmp (tm_object_id self) (tm_object_id other)) (mutation_cmp (tm_mutation self) (tm_mutation other))"

section \<open>Ordered sets\<close>

text \<open>\<^verbatim>\<open>BTreeSet::replace\<close>, \<^verbatim>\<open>remove\<close> and \<^verbatim>\<open>get\<close>, for the order \<open>c\<close>.\<close>

fun bts_replace :: "('a \<Rightarrow> 'a \<Rightarrow> ordering) \<Rightarrow> 'a \<Rightarrow> 'a list \<Rightarrow> 'a option \<times> 'a list" where
  "bts_replace c x [] = (None, [x])"
| "bts_replace c x (y # ys) =
     (case c x y of
        Less \<Rightarrow> (None, x # y # ys)
      | Equal \<Rightarrow> (Some y, x # ys)
      | Greater \<Rightarrow> (let (old, ys') = bts_replace c x ys in (old, y # ys')))"

definition bts_remove :: "('a \<Rightarrow> 'a \<Rightarrow> ordering) \<Rightarrow> 'a \<Rightarrow> 'a list \<Rightarrow> 'a list" where
  "bts_remove c x ys = filter (\<lambda>y. c x y \<noteq> Equal) ys"

definition bts_get :: "('a \<Rightarrow> 'a \<Rightarrow> ordering) \<Rightarrow> 'a \<Rightarrow> 'a list \<Rightarrow> 'a option" where
  "bts_get c x ys = List.find (\<lambda>y. c x y = Equal) ys"

text \<open>
  The contract of the ordered set: when the order compares codes, replacing, removing and getting are
  the operations of a finite map from codes to elements, and the list stays strictly ascending.
\<close>

definition bts_ok :: "('a \<Rightarrow> 'b::linorder) \<Rightarrow> 'a list \<Rightarrow> bool" where
  "bts_ok code ys = sorted_wrt (<) (map code ys)"

locale ordered_set =
  fixes c :: "'a \<Rightarrow> 'a \<Rightarrow> ordering" and code :: "'a \<Rightarrow> 'b::linorder"
  assumes c_code: "c x y = cmp (code x) (code y)"
begin

lemma replace_Cons:
  "bts_replace c x (y # ys) =
     (if code x < code y then (None, x # y # ys)
      else if code x = code y then (Some y, x # ys)
      else (fst (bts_replace c x ys), y # snd (bts_replace c x ys)))"
  by (auto simp: c_code cmp_def split_beta)

lemma get_simps:
  "bts_get c x [] = None"
  "bts_get c x (y # ys) = (if code x = code y then Some y else bts_get c x ys)"
  by (simp_all add: bts_get_def c_code)

lemma remove_simps:
  "bts_remove c x [] = []"
  "bts_remove c x (y # ys) = (if code x = code y then bts_remove c x ys else y # bts_remove c x ys)"
  by (simp_all add: bts_remove_def c_code)

lemmas set_simps = replace_Cons get_simps remove_simps

lemma codes_replace: "set (map code (snd (bts_replace c x ys))) = insert (code x) (set (map code ys))"
  by (induction ys) (auto simp: replace_Cons simp del: bts_replace.simps(2))

lemma ok_Cons: "bts_ok code (y # ys) \<longleftrightarrow> (\<forall>b \<in> set (map code ys). code y < b) \<and> bts_ok code ys"
  by (simp add: bts_ok_def)

lemma replace_ok: "bts_ok code ys \<Longrightarrow> bts_ok code (snd (bts_replace c x ys))"
proof (induction ys)
  case (Cons y ys)
  have "\<forall>b \<in> set (map code (snd (bts_replace c x ys))). code y < b" if "code y < code x"
    using Cons.prems that unfolding codes_replace by (simp add: ok_Cons)
  then show ?case using Cons
    by (auto simp: replace_Cons ok_Cons simp del: bts_replace.simps(2) set_map)
qed (simp add: bts_ok_def)

lemma get_None: "(\<And>y. y \<in> set ys \<Longrightarrow> code y \<noteq> code x) \<Longrightarrow> bts_get c x ys = None"
  by (force simp: bts_get_def find_None_iff c_code)

lemma get_Some: "bts_get c x ys = Some y \<Longrightarrow> y \<in> set ys \<and> code y = code x"
  by (auto simp: bts_get_def find_Some_iff c_code)

lemma get_replace:
  "bts_ok code ys \<Longrightarrow>
   bts_get c z (snd (bts_replace c x ys)) = (if code z = code x then Some x else bts_get c z ys)"
  by (induction ys) (auto simp: set_simps ok_Cons simp del: bts_replace.simps(2))

lemma replace_old: "bts_ok code ys \<Longrightarrow> fst (bts_replace c x ys) = bts_get c x ys"
proof (induction ys)
  case (Cons y ys)
  have "bts_get c x ys = None" if "code x < code y" using Cons.prems that by (intro get_None) (auto simp: ok_Cons)
  then show ?case using Cons by (auto simp: set_simps ok_Cons simp del: bts_replace.simps(2))
qed (simp add: get_simps)

lemma replace_set:
  "bts_ok code ys \<Longrightarrow> set (snd (bts_replace c x ys)) = insert x {y \<in> set ys. code y \<noteq> code x}"
  by (induction ys) (auto simp: replace_Cons ok_Cons simp del: bts_replace.simps(2))

lemma remove_ok: "bts_ok code ys \<Longrightarrow> bts_ok code (bts_remove c x ys)"
  by (induction ys) (auto simp: bts_ok_def bts_remove_def)

lemma get_remove: "bts_get c z (bts_remove c x ys) = (if code z = code x then None else bts_get c z ys)"
  by (induction ys) (auto simp: set_simps)

lemma get_code: "code x = code x' \<Longrightarrow> bts_get c x ys = bts_get c x' ys"
  by (simp add: bts_get_def c_code)

lemma get_mem: "bts_ok code ys \<Longrightarrow> y \<in> set ys \<Longrightarrow> bts_get c y ys = Some y"
  by (induction ys) (auto simp: get_simps ok_Cons)

end

text \<open>
  The order of mutations compares codes: lists of numbers that spell out the variants and the fields
  that take part in the comparison.
\<close>

definition extent_key_code :: "extent_key \<Rightarrow> nat list" where
  "extent_key_code e = [rstart (range e), rend (range e)]"

definition object_key_code :: "object_key \<Rightarrow> nat list" where
  "object_key_code k = object_id k # variant_index (data k) #
     (case data k of
        Attribute a Size \<Rightarrow> [a, 0]
      | Attribute a (Extent e) \<Rightarrow> a # 1 # extent_key_code e
      | Child n \<Rightarrow> map of_char n
      | GraveyardEntry g \<Rightarrow> [g]
      | _ \<Rightarrow> [])"

definition allocator_mutation_code :: "allocator_mutation \<Rightarrow> nat list" where
  "allocator_mutation_code m = allocator_mutation_index m #
     (case m of
        Allocate r ow \<Rightarrow> [rstart r, rend r, ow]
      | Deallocate r ow \<Rightarrow> [rstart r, rend r, ow]
      | SetLimit ow b \<Rightarrow> [ow, b]
      | MarkForDeletion ow \<Rightarrow> [ow])"

definition mutation_code :: "mutation \<Rightarrow> nat list" where
  "mutation_code m = mutation_index m #
     (case m of
        ObjectStoreM m \<Rightarrow> object_key_code (key (osm_item m))
      | EncryptedObjectStoreM b \<Rightarrow> map unat b
      | AllocatorM m \<Rightarrow> allocator_mutation_code m
      | UpdateBorrowed n \<Rightarrow> [n]
      | UpdateMutationsKeyM addr _ \<Rightarrow> [addr]
      | _ \<Rightarrow> [])"

definition txn_mutation_code :: "txn_mutation \<Rightarrow> nat list" where
  "txn_mutation_code t = tm_object_id t # mutation_code (tm_mutation t)"

lemma cmp_then_assoc: "cmp_then (cmp_then r s) t = cmp_then r (cmp_then s t)"
  by (cases r) simp_all

lemma cmp_map:
  assumes "\<And>x y. f x < f y \<longleftrightarrow> x < y"
  shows "cmp (map f xs) (map f ys) = cmp xs ys"
proof (induction xs arbitrary: ys)
  case Nil
  show ?case by (cases ys) (simp_all add: cmp_def)
next
  case (Cons x xs)
  have "f a = f b \<longleftrightarrow> a = b" for a b using assms by (metis less_irrefl linorder_cases)
  then have "cmp (f a) (f b) = cmp a b" for a b by (simp add: cmp_def assms)
  then show ?case using Cons.IH by (cases ys) simp_all
qed

lemma cmp_chars: "cmp (map of_char s :: nat list) (map of_char t) = cmp s t"
  by (rule cmp_map) (simp add: less_char_def)

lemma cmp_number:
  fixes b :: "'a::linorder"
  shows "a < b \<Longrightarrow> cmp a b = Less" "b < a \<Longrightarrow> cmp a b = Greater"
  by (auto simp: cmp_def)

lemma data_cmp_code:
  "cmp_then (data_cmp a b) Equal = cmp
     (variant_index a # (case a of Attribute x Size \<Rightarrow> [x, 0] | Attribute x (Extent e) \<Rightarrow> x # 1 # extent_key_code e
        | Child n \<Rightarrow> map of_char n | GraveyardEntry g \<Rightarrow> [g] | _ \<Rightarrow> []))
     (variant_index b # (case b of Attribute x Size \<Rightarrow> [x, 0] | Attribute x (Extent e) \<Rightarrow> x # 1 # extent_key_code e
        | Child n \<Rightarrow> map of_char n | GraveyardEntry g \<Rightarrow> [g] | _ \<Rightarrow> []))"
  by (auto simp: data_cmp_def variant_index_def extent_key_code_def extent_cmp_def cmp_chars
      cmp_then_assoc cmp_number split: object_key_data.splits attribute_key.splits)

lemma object_key_cmp_code: "object_key_cmp k k' = cmp (object_key_code k) (object_key_code k')"
  using data_cmp_code [of "data k" "data k'"]
  by (simp add: object_key_cmp_def object_key_code_def)

lemma allocator_mutation_cmp_code:
  "allocator_mutation_cmp m m' = cmp (allocator_mutation_code m) (allocator_mutation_code m')"
  by (cases m; cases m')
     (simp_all add: allocator_mutation_cmp_def allocator_mutation_code_def allocator_mutation_index_def
       device_range_cmp_def cmp_then_assoc, simp_all add: cmp_def)

lemma mutation_cmp_code: "mutation_cmp m m' = cmp (mutation_code m) (mutation_code m')"
  by (cases m; cases m')
     (simp_all add: mutation_cmp_def mutation_code_def mutation_index_def object_store_mutation_cmp_def
       object_key_cmp_code allocator_mutation_cmp_code cmp_map word_less_nat_alt, simp_all add: cmp_def)

interpretation txn_set: ordered_set txn_mutation_cmp txn_mutation_code
  by unfold_locales (simp add: txn_mutation_cmp_def txn_mutation_code_def mutation_cmp_code)

section \<open>Transactions\<close>

datatype metadata_reservation = Borrowed | MetadataReservation reservation | MetadataHold nat

record transaction =
  mutations :: "txn_mutation list"
  txn_locks :: "lock_key list"
  read_locks :: "lock_key list"
  txn_reservation :: "reservation option"
  metadata_reservation :: metadata_reservation

definition transaction_new :: "metadata_reservation \<Rightarrow> lock_key list \<Rightarrow> lock_key list \<Rightarrow> transaction" where
  "transaction_new mr read_guard_keys write_guard_keys =
     \<lparr>mutations = [], txn_locks = write_guard_keys, read_locks = read_guard_keys, txn_reservation = None,
      metadata_reservation = mr\<rparr>"

definition txn_add :: "nat \<Rightarrow> mutation \<Rightarrow> transaction \<Rightarrow> (mutation option \<times> transaction) res" where
  "txn_add oid m self =
     bind_res (ensure (oid \<noteq> 0) Panic) (\<lambda>_.
       let (old, ms) = bts_replace txn_mutation_cmp
                         \<lparr>tm_object_id = oid, tm_mutation = m, tm_associated_object = None\<rparr> (mutations self)
       in Inr (map_option tm_mutation old, self\<lparr>mutations := ms\<rparr>))"

definition txn_remove :: "nat \<Rightarrow> mutation \<Rightarrow> transaction \<Rightarrow> transaction" where
  "txn_remove oid m self =
     self\<lparr>mutations := bts_remove txn_mutation_cmp
            \<lparr>tm_object_id = oid, tm_mutation = m, tm_associated_object = None\<rparr> (mutations self)\<rparr>"

definition txn_add_with_object :: "nat \<Rightarrow> mutation \<Rightarrow> nat option \<Rightarrow> transaction \<Rightarrow> transaction res" where
  "txn_add_with_object oid m associated_object self =
     bind_res (ensure (oid \<noteq> 0) Panic) (\<lambda>_.
       Inr (self\<lparr>mutations := snd (bts_replace txn_mutation_cmp
              \<lparr>tm_object_id = oid, tm_mutation = m, tm_associated_object = associated_object\<rparr> (mutations self))\<rparr>))"

definition txn_is_empty :: "transaction \<Rightarrow> bool" where
  "txn_is_empty self = (mutations self = [])"

definition get_object_mutation :: "nat \<Rightarrow> object_key \<Rightarrow> transaction \<Rightarrow> object_store_mutation option" where
  "get_object_mutation oid k self =
     (case bts_get txn_mutation_cmp
             \<lparr>tm_object_id = oid, tm_mutation = insert_object k VNone, tm_associated_object = None\<rparr> (mutations self) of
        Some t \<Rightarrow> (case tm_mutation t of ObjectStoreM m \<Rightarrow> Some m | _ \<Rightarrow> None)
      | None \<Rightarrow> None)"

text \<open>\<^verbatim>\<open>LockManager::drop_transaction\<close> takes the keys out of the transaction.\<close>

definition drop_transaction_locks :: "transaction \<Rightarrow> locks \<Rightarrow> ((lock_key \<times> lock_waker) list \<times> locks \<times> transaction) res" where
  "drop_transaction_locks self ls =
     bind_res (drop_write_locks (txn_locks self) ls) (\<lambda>(woken, ls).
     bind_res (drop_read_locks (read_locks self) ls) (\<lambda>(more, ls).
       Inr (woken @ more, ls, self\<lparr>txn_locks := [], read_locks := []\<rparr>)))"

text \<open>
  A mutation is applied live, with the transaction that commits it (of which only the reservation
  matters), or when the journal is replayed.
\<close>

datatype apply_mode = Replay | Live "reservation option"

definition is_live :: "apply_mode \<Rightarrow> bool" where
  "is_live m = (case m of Live _ \<Rightarrow> True | Replay \<Rightarrow> False)"

section \<open>What a transaction holds\<close>

definition txn_ok :: "transaction \<Rightarrow> bool" where
  "txn_ok self = bts_ok txn_mutation_code (mutations self)"

lemma txn_new_ok: "txn_ok (transaction_new mr rl wl)"
  by (simp add: txn_ok_def transaction_new_def bts_ok_def)

lemma object_key_code_inject: "object_key_code k = object_key_code k' \<longleftrightarrow> k = k'"
proof
  assume eq: "object_key_code k = object_key_code k'"
  then have "object_id k = object_id k'" by (simp add: object_key_code_def)
  moreover have "data k = data k'"
    using eq by (auto simp: object_key_code_def extent_key_code_def variant_index_def inj_map_eq_map inj_of_char
        split: object_key_data.splits attribute_key.splits intro!: extent_key.expand u64_range.expand)
  ultimately show "k = k'" by simp
qed simp

lemma mutation_code_ObjectStoreM:
  "mutation_code (ObjectStoreM om) = mutation_code m \<longleftrightarrow>
     (\<exists>om'. m = ObjectStoreM om' \<and> key (osm_item om') = key (osm_item om))"
  by (cases m) (auto simp: mutation_code_def mutation_index_def object_key_code_inject)

lemma txn_add_spec:
  assumes "txn_add oid m self = Inr (old, self')" "txn_ok self"
  shows "oid \<noteq> 0" "txn_ok self'"
    "set (mutations self') = insert \<lparr>tm_object_id = oid, tm_mutation = m, tm_associated_object = None\<rparr>
       {t \<in> set (mutations self). tm_object_id t = oid \<longrightarrow> mutation_code (tm_mutation t) \<noteq> mutation_code m}"
    "self' = self\<lparr>mutations := mutations self'\<rparr>"
    "mutations self' = snd (bts_replace txn_mutation_cmp
       \<lparr>tm_object_id = oid, tm_mutation = m, tm_associated_object = None\<rparr> (mutations self))"
    "old = map_option tm_mutation (bts_get txn_mutation_cmp
       \<lparr>tm_object_id = oid, tm_mutation = m, tm_associated_object = None\<rparr> (mutations self))"
  using assms txn_set.replace_ok [of "mutations self"] txn_set.replace_set [of "mutations self"]
    txn_set.replace_old [of "mutations self"]
  by (auto simp: txn_add_def txn_ok_def bind_res_eq_Inr txn_mutation_code_def split_beta)

text \<open>
  A transaction holds at most one mutation per key of a store, the last one added: adding a
  mutation of an object key returns the mutation of the key that the transaction held before, lookups
  of the key find the new one, lookups of every other key or store find what they found before, and no
  mutation of another kind is lost.
\<close>

lemma txn_add_last_wins:
  assumes "txn_ok self" "txn_add oid (ObjectStoreM om) self = Inr (old, self')"
  shows "txn_ok self' \<and> old = map_option ObjectStoreM (get_object_mutation oid (key (osm_item om)) self) \<and>
    (\<forall>oid' k. get_object_mutation oid' k self' =
       (if oid' = oid \<and> k = key (osm_item om) then Some om else get_object_mutation oid' k self)) \<and>
    (\<forall>t. (\<nexists>om'. tm_mutation t = ObjectStoreM om') \<longrightarrow> (t \<in> set (mutations self') \<longleftrightarrow> t \<in> set (mutations self)))"
proof (intro conjI allI impI)
  note spec = txn_add_spec [OF assms(2,1)]
  have code: "mutation_code (insert_object k VNone) = mutation_code (ObjectStoreM om') \<longleftrightarrow> k = key (osm_item om')" for k om'
    by (auto simp: insert_object_def item_new_def mutation_code_ObjectStoreM)
  show "txn_ok self'" by (rule spec)
  show "old = map_option ObjectStoreM (get_object_mutation oid (key (osm_item om)) self)"
  proof -
    let ?t = "\<lambda>m. \<lparr>tm_object_id = oid, tm_mutation = m, tm_associated_object = None\<rparr>"
    have same: "bts_get txn_mutation_cmp (?t (ObjectStoreM om)) ys =
        bts_get txn_mutation_cmp (?t (insert_object (key (osm_item om)) VNone)) ys" for ys
      using code [of "key (osm_item om)" om] by (intro txn_set.get_code) (simp add: txn_mutation_code_def)
    show ?thesis
      using spec(6) unfolding same get_object_mutation_def
      by (auto dest!: txn_set.get_Some simp: txn_mutation_code_def mutation_code_def mutation_index_def insert_object_def
          split: option.splits mutation.splits)
  qed
  show "get_object_mutation oid' k self' =
      (if oid' = oid \<and> k = key (osm_item om) then Some om else get_object_mutation oid' k self)" for oid' k
    using assms(1) by (auto simp: get_object_mutation_def spec(5) txn_set.get_replace txn_ok_def txn_mutation_code_def code)
  show "t \<in> set (mutations self') \<longleftrightarrow> t \<in> set (mutations self)" if "\<nexists>om'. tm_mutation t = ObjectStoreM om'" for t
    using spec(3) that mutation_code_ObjectStoreM [of om "tm_mutation t"] by auto
qed

end
