(* ===== verification/Btree_Map.thy ===== *)
theory Btree_Map
  imports Fxfs_Prelude
begin

text \<open>
  \<^verbatim>\<open>std::collections::BTreeMap\<close> as the association list of its entries in ascending order of keys,
  which is the order in which it is iterated.
\<close>

type_synonym ('k, 'v) btree_map = "('k \<times> 'v) list"

abbreviation bt_get :: "('k, 'v) btree_map \<Rightarrow> 'k \<Rightarrow> 'v option" where
  "bt_get m k \<equiv> map_of m k"

fun bt_insert :: "'k::linorder \<Rightarrow> 'v \<Rightarrow> ('k, 'v) btree_map \<Rightarrow> ('k, 'v) btree_map" where
  "bt_insert k v [] = [(k, v)]"
| "bt_insert k v ((k', v') # m) =
     (if k < k' then (k, v) # (k', v') # m
      else if k = k' then (k, v) # m
      else (k', v') # bt_insert k v m)"

definition bt_remove :: "'k \<Rightarrow> ('k, 'v) btree_map \<Rightarrow> ('k, 'v) btree_map" where
  "bt_remove k m = filter (\<lambda>e. fst e \<noteq> k) m"

definition bt_ok :: "('k::linorder, 'v) btree_map \<Rightarrow> bool" where
  "bt_ok m = sorted_wrt (<) (map fst m)"

text \<open>The value of a key, or a default (\<^verbatim>\<open>entry().or_default()\<close>).\<close>

definition bt_get_or :: "'v \<Rightarrow> ('k, 'v) btree_map \<Rightarrow> 'k \<Rightarrow> 'v" where
  "bt_get_or d m k = (case bt_get m k of None \<Rightarrow> d | Some v \<Rightarrow> v)"

lemma bt_get_insert [simp]: "bt_get (bt_insert k v m) k' = (if k' = k then Some v else bt_get m k')"
  by (induction m) auto

lemma bt_get_remove [simp]: "bt_get (bt_remove k m) k' = (if k' = k then None else bt_get m k')"
  by (induction m) (auto simp: bt_remove_def)

lemma keys_bt_insert: "set (map fst (bt_insert k v m)) = insert k (set (map fst m))"
  by (induction k v m rule: bt_insert.induct) (simp_all add: insert_commute)

lemma bt_ok_insert: "bt_ok m \<Longrightarrow> bt_ok (bt_insert k v m)"
proof (induction m)
  case (Cons e m)
  obtain k' v' where e: "e = (k', v')" by fastforce
  have below: "\<forall>x \<in> set (map fst m). k' < x" and ok: "bt_ok m" using Cons.prems by (simp_all add: bt_ok_def e)
  have "\<forall>x \<in> set (map fst (bt_insert k v m)). k' < x" if "k' < k"
    using below that unfolding keys_bt_insert by simp
  moreover have "\<forall>x \<in> set (map fst m). k < x" if "k < k'"
    using below that by (meson less_trans)
  ultimately show ?case
    using below ok Cons.IH by (auto simp: bt_ok_def e simp del: set_map)
qed (simp add: bt_ok_def)

lemma bt_ok_remove: "bt_ok m \<Longrightarrow> bt_ok (bt_remove k m)"
  by (induction m) (auto simp: bt_ok_def bt_remove_def)

lemma bt_get_or_insert [simp]: "bt_get_or d (bt_insert k v m) k' = (if k' = k then v else bt_get_or d m k')"
  by (simp add: bt_get_or_def)

text \<open>A sum over the values changes by what changes of one value.\<close>

lemma bt_sum_insert:
  fixes f :: "'v \<Rightarrow> nat"
  assumes "bt_ok m" "f d = 0"
  shows "sum_list (map (\<lambda>e. f (snd e)) (bt_insert k v m)) + f (bt_get_or d m k) =
    sum_list (map (\<lambda>e. f (snd e)) m) + f v"
  using assms(1)
proof (induction m)
  case (Cons e m)
  obtain k' v' where e: "e = (k', v')" by fastforce
  have ok: "bt_ok m" and below: "\<forall>x \<in> fst ` set m. k' < x" using Cons.prems by (auto simp: bt_ok_def e)
  have "bt_get m k = None" if "k < k'"
    using that below by (auto simp: map_of_eq_None_iff)
  then show ?case
    using Cons.IH [OF ok] by (auto simp: e bt_get_or_def assms(2))
qed (simp add: bt_get_or_def assms(2))

end
