(* ===== verification/Fxfs_Arith.thy ===== *)
theory Fxfs_Arith
  imports Fxfs_Prelude
begin

text \<open>
  Block rounding (\<^verbatim>\<open>src/src/round.rs\<close>) and the range extension trait
  (\<^verbatim>\<open>src/src/range.rs\<close>). A block size of zero makes every function here panic.
\<close>

section \<open>Definitions\<close>

definition round_down :: "nat \<Rightarrow> nat \<Rightarrow> nat res" where
  "round_down offset block_size = bind_res (u64_rem offset block_size) (u64_sub offset)"

definition round_up :: "nat \<Rightarrow> nat \<Rightarrow> nat option res" where
  "round_up offset block_size =
     bind_res (u64_sub block_size 1) (\<lambda>m.
       case checked_add offset m of
         None \<Rightarrow> Inr None
       | Some s \<Rightarrow> bind_res (round_down s block_size) (\<lambda>r. Inr (Some r)))"

definition how_many :: "nat \<Rightarrow> nat \<Rightarrow> nat res" where
  "how_many value item_size =
     bind_res (u64_div value item_size) (\<lambda>items.
     bind_res (u64_rem value item_size) (\<lambda>remainder.
       if remainder \<noteq> 0 then u64_add items 1 else Inr items))"

definition range_is_valid :: "u64_range \<Rightarrow> bool" where
  "range_is_valid r = (rstart r \<le> rend r)"

definition range_length :: "u64_range \<Rightarrow> nat res" where
  "range_length r =
     bind_res (ensure (range_is_valid r) (Fxfs Inconsistent)) (\<lambda>_. u64_sub (rend r) (rstart r))"

definition range_is_aligned :: "u64_range \<Rightarrow> nat \<Rightarrow> bool res" where
  "range_is_aligned r block_size =
     bind_res (u64_rem (rstart r) block_size) (\<lambda>s.
       if s = 0 then bind_res (u64_rem (rend r) block_size) (\<lambda>e. Inr (e = 0))
       else Inr False)"

section \<open>Properties\<close>

lemma round_down_eq: "0 < bs \<Longrightarrow> round_down n bs = Inr (n - n mod bs)"
  by (simp add: round_down_def res_simps)

lemma range_length_Inr [simp]:
  "range_length r = Inr n \<longleftrightarrow> rstart r \<le> rend r \<and> n = rend r - rstart r"
  by (auto simp: range_length_def range_is_valid_def u64_sub_def ensure_def)

lemma round_down_greatest:
  fixes n bs m :: nat
  assumes "0 < bs" "bs dvd m" "m \<le> n"
  shows "m \<le> bs * (n div bs)"
proof -
  from assms(2) obtain k where k: "m = bs * k" by (auto elim: dvdE)
  have "k \<le> n div bs"
    using assms(1,3) by (simp add: k less_eq_div_iff_mult_less_eq mult.commute)
  then show ?thesis by (simp add: k)
qed

lemma round_up_eq:
  assumes "0 < bs"
  shows "round_up n bs =
    (if n + (bs - 1) \<le> u64_max then Inr (Some (bs * ((n + (bs - 1)) div bs))) else Inr None)"
  using assms
  by (simp add: round_up_def u64_sub_def checked_add_def round_down_eq minus_mod_eq_mult_div)

lemma mult_div_up_bounds:
  fixes n bs :: nat
  assumes "0 < bs"
  shows "n \<le> bs * ((n + (bs - 1)) div bs)" and "bs * ((n + (bs - 1)) div bs) < n + bs"
proof -
  have "bs * ((n + (bs - 1)) div bs) + (n + (bs - 1)) mod bs = n + (bs - 1)" by simp
  moreover have "(n + (bs - 1)) mod bs < bs" using assms by simp
  ultimately show "n \<le> bs * ((n + (bs - 1)) div bs)" and "bs * ((n + (bs - 1)) div bs) < n + bs"
    using assms by linarith+
qed

lemma dvd_le_add:
  fixes bs m u :: nat
  assumes "bs dvd m" "bs dvd u" "m < u"
  shows "m + bs \<le> u"
proof -
  have "bs dvd u - m" using assms by simp
  then have "bs \<le> u - m" using assms(3) by (intro dvd_imp_le) auto
  then show ?thesis using assms(3) by simp
qed

text \<open>
  For every non-zero block size \<open>round_down\<close> returns the greatest multiple of the block
  size that is not above the offset.
\<close>

lemma round_down_spec:
  assumes "0 < bs"
  shows "\<exists>d. round_down n bs = Inr d \<and> bs dvd d \<and> d \<le> n \<and>
             (\<forall>m. bs dvd m \<longrightarrow> m \<le> n \<longrightarrow> m \<le> d)"
  using assms by (auto simp: round_down_eq minus_mod_eq_mult_div round_down_greatest)

text \<open>
  For every non-zero block size \<open>round_up\<close> does not panic: it returns \<open>None\<close> exactly when
  adding \<open>block_size - 1\<close> to the offset overflows 64 bits, and otherwise the least multiple of
  the block size that is not below the offset.
\<close>

lemma round_up_spec:
  assumes "0 < bs"
  shows "if n + (bs - 1) \<le> u64_max
         then \<exists>u. round_up n bs = Inr (Some u) \<and> bs dvd u \<and> n \<le> u \<and>
                  (\<forall>m. bs dvd m \<longrightarrow> n \<le> m \<longrightarrow> u \<le> m)
         else round_up n bs = Inr None"
proof -
  have "bs * ((n + (bs - 1)) div bs) \<le> m" if "bs dvd m" "n \<le> m" for m
    using dvd_le_add [OF that(1), of "bs * ((n + (bs - 1)) div bs)"] that(2)
      mult_div_up_bounds(2) [OF assms, of n] by fastforce
  then show ?thesis
    using mult_div_up_bounds(1) [OF assms, of n] by (auto simp: round_up_eq [OF assms])
qed

lemma how_many_eq:
  assumes "0 < k" "n \<le> u64_max"
  shows "how_many n k = Inr (n div k + (if n mod k = 0 then 0 else 1))"
proof (cases "n mod k = 0")
  case False
  then have "k \<noteq> 1" "0 < n" by (auto intro: gr0I)
  with assms(1) have "n div k < n" by (intro div_less_dividend) auto
  with assms(2) have "n div k + 1 \<le> u64_max" by simp
  with False assms(1) show ?thesis by (simp add: how_many_def res_simps)
qed (use assms in \<open>simp add: how_many_def res_simps\<close>)

text \<open>
  \<open>how_many\<close> returns the least number of items of the given size whose total size reaches
  the value, for every 64-bit value and every non-zero item size; it never overflows.
\<close>

lemma how_many_spec:
  assumes "0 < k" "n \<le> u64_max"
  shows "\<exists>c. how_many n k = Inr c \<and> n \<le> c * k \<and> (\<forall>d. n \<le> d * k \<longrightarrow> c \<le> d)"
proof -
  define c where "c = n div k + (if n mod k = 0 then 0 else 1)"
  have split: "n div k * k + n mod k = n" by simp
  have "n mod k < k" using assms(1) by simp
  then have "n \<le> n div k * k + k" using split by linarith
  then have "n \<le> (if n mod k = 0 then n div k * k else n div k * k + k)" by auto
  then have "n \<le> c * k" by (auto simp: c_def algebra_simps split: if_splits)
  moreover have "c \<le> d" if "n \<le> d * k" for d
  proof (rule ccontr)
    assume "\<not> c \<le> d"
    then consider "d < n div k" | "d = n div k" "n mod k \<noteq> 0"
      by (cases "n mod k = 0") (auto simp: c_def not_le less_Suc_eq)
    then show False
    proof cases
      case 1
      then have "d * k + k \<le> n div k * k"
        by (metis Suc_leI add.commute mult_Suc mult_le_mono1)
      with that split assms(1) show False by linarith
    next
      case 2
      with that split show False by simp
    qed
  qed
  ultimately show ?thesis by (auto simp: how_many_eq [OF assms] c_def)
qed

end
