(* ===== verification/Allocator.thy ===== *)
theory Allocator
  imports Alloc_Merge Transaction Btree_Map Fxfs_Arith
begin

text \<open>
  The allocator (\<^verbatim>\<open>SimpleAllocator\<close> of \<^verbatim>\<open>src/src/object_store/allocator.rs\<close>): byte accounting per
  owner, reservations against the device and owner limits, allocating and deallocating device ranges
  within a transaction, and applying the mutations when a transaction commits or the journal is
  replayed.

  The state is one record; the locks of the source are held for the whole of each step modelled here.
  The filesystem behind the trait object \<^verbatim>\<open>dyn Filesystem\<close> is seen through the ids of its system
  stores (a field) and its \<^verbatim>\<open>sync\<close> (an argument of \<open>allocate\<close>). Reading and writing the persistent
  info and layer files (\<^verbatim>\<open>create\<close>, the deserialisation in \<^verbatim>\<open>open\<close>, \<^verbatim>\<open>flush\<close>) and the inspect
  counters are not modelled.
\<close>

section \<open>Byte accounting\<close>

text \<open>\<^verbatim>\<open>i64\<close> values are integers; \<^verbatim>\<open>as u64\<close> wraps, \<^verbatim>\<open>saturating_add\<close> clamps.\<close>

definition i64_max :: int where "i64_max = 9223372036854775807"
definition i64_min :: int where "i64_min = - 9223372036854775808"

definition i64_saturate :: "int \<Rightarrow> int" where
  "i64_saturate x = max i64_min (min i64_max x)"

definition i64_as_u64 :: "int \<Rightarrow> nat" where
  "i64_as_u64 x = nat (x mod 2 ^ 64)"

definition u64_as_i64 :: "nat \<Rightarrow> int" where
  "u64_as_i64 n = (let m = int n mod 2 ^ 64 in if m \<le> i64_max then m else m - 2 ^ 64)"

record byte_tracking =
  allocated_bytes :: int
  uncommitted_allocated_bytes :: nat
  reserved_bytes :: nat
  committed_deallocated_bytes :: nat

definition bt_default :: byte_tracking where
  "bt_default = \<lparr>allocated_bytes = 0, uncommitted_allocated_bytes = 0, reserved_bytes = 0,
     committed_deallocated_bytes = 0\<rparr>"

definition tracking_used_bytes :: "byte_tracking \<Rightarrow> nat res" where
  "tracking_used_bytes self =
     bind_res (u64_add (i64_as_u64 (allocated_bytes self)) (uncommitted_allocated_bytes self)) (\<lambda>x.
       u64_add x (reserved_bytes self))"

definition tracking_unavailable_bytes :: "byte_tracking \<Rightarrow> nat res" where
  "tracking_unavailable_bytes self =
     bind_res (u64_add (i64_as_u64 (allocated_bytes self)) (uncommitted_allocated_bytes self)) (\<lambda>x.
       u64_add x (committed_deallocated_bytes self))"

text \<open>\<^verbatim>\<open>Iterator::sum\<close> over 64-bit numbers.\<close>

fun u64_sum :: "nat res list \<Rightarrow> nat res" where
  "u64_sum [] = Inr 0"
| "u64_sum (x # xs) = bind_res x (\<lambda>a. bind_res (u64_sum xs) (u64_add a))"

record allocator_info =
  info_layers :: "nat list"
  info_allocated_bytes :: "(nat, nat) btree_map"
  marked_for_deletion :: "nat set"
  limit_bytes :: "(nat, nat) btree_map"

record committed_deallocation =
  log_file_offset :: nat
  dealloc_range :: u64_range
  dealloc_owner :: nat

record allocator_inner =
  info :: allocator_info
  opened :: bool
  dropped_allocations :: "allocator_item list"
  owner_bytes :: "(nat, byte_tracking) btree_map"
  unattributed_reserved_bytes :: nat
  committed_deallocated :: "committed_deallocation list"
  committed_marked_for_deletion :: "(nat, nat \<times> nat) btree_map"

definition update_owner :: "nat \<Rightarrow> (byte_tracking \<Rightarrow> byte_tracking) \<Rightarrow> allocator_inner \<Rightarrow> allocator_inner" where
  "update_owner owner f self =
     self\<lparr>owner_bytes := bt_insert owner (f (bt_get_or bt_default (owner_bytes self) owner)) (owner_bytes self)\<rparr>"

definition inner_reserved_bytes :: "allocator_inner \<Rightarrow> nat res" where
  "inner_reserved_bytes self =
     bind_res (u64_sum (map (\<lambda>e. Inr (reserved_bytes (snd e))) (owner_bytes self))) (\<lambda>s.
       u64_add s (unattributed_reserved_bytes self))"

definition inner_uncommitted_allocated_bytes :: "allocator_inner \<Rightarrow> nat res" where
  "inner_uncommitted_allocated_bytes self =
     u64_sum (map (\<lambda>e. Inr (uncommitted_allocated_bytes (snd e))) (owner_bytes self))"

definition owner_id_limit_bytes :: "nat \<Rightarrow> allocator_inner \<Rightarrow> nat" where
  "owner_id_limit_bytes owner self =
     (case bt_get (limit_bytes (info self)) owner of Some v \<Rightarrow> v | None \<Rightarrow> u64_max)"

definition owner_id_bytes_left :: "nat \<Rightarrow> allocator_inner \<Rightarrow> nat res" where
  "owner_id_bytes_left owner self =
     (let limit = owner_id_limit_bytes owner self in
      bind_res (case bt_get (owner_bytes self) owner of
                  Some b \<Rightarrow> tracking_used_bytes b
                | None \<Rightarrow> Inr 0) (\<lambda>used.
        Inr (if limit > used then limit - used else 0)))"

definition inner_unavailable_bytes :: "allocator_inner \<Rightarrow> nat res" where
  "inner_unavailable_bytes self =
     bind_res (u64_sum (map (\<lambda>e. tracking_unavailable_bytes (snd e)) (owner_bytes self))) (\<lambda>s.
     bind_res (u64_sum (map (\<lambda>e. Inr (snd (snd e))) (committed_marked_for_deletion self))) (\<lambda>d.
       u64_add s d))"

definition inner_used_bytes :: "allocator_inner \<Rightarrow> nat res" where
  "inner_used_bytes self =
     bind_res (u64_sum (map (\<lambda>e. tracking_used_bytes (snd e)) (owner_bytes self))) (\<lambda>s.
       u64_add s (unattributed_reserved_bytes self))"

definition add_reservation :: "nat option \<Rightarrow> nat \<Rightarrow> allocator_inner \<Rightarrow> allocator_inner res" where
  "add_reservation owner amount self =
     (case owner of
        Some ow \<Rightarrow>
          bind_res (u64_add (reserved_bytes (bt_get_or bt_default (owner_bytes self) ow)) amount) (\<lambda>r.
            Inr (update_owner ow (\<lambda>b. b\<lparr>reserved_bytes := r\<rparr>) self))
      | None \<Rightarrow>
          bind_res (u64_add (unattributed_reserved_bytes self) amount) (\<lambda>r.
            Inr (self\<lparr>unattributed_reserved_bytes := r\<rparr>)))"

definition remove_reservation :: "nat option \<Rightarrow> nat \<Rightarrow> allocator_inner \<Rightarrow> allocator_inner res" where
  "remove_reservation owner amount self =
     (case owner of
        Some ow \<Rightarrow>
          let r = reserved_bytes (bt_get_or bt_default (owner_bytes self) ow) in
          bind_res (ensure (r \<ge> amount) Panic) (\<lambda>_.
            Inr (update_owner ow (\<lambda>b. b\<lparr>reserved_bytes := r - amount\<rparr>) self))
      | None \<Rightarrow>
          bind_res (ensure (unattributed_reserved_bytes self \<ge> amount) Panic) (\<lambda>_.
            Inr (self\<lparr>unattributed_reserved_bytes := unattributed_reserved_bytes self - amount\<rparr>)))"

section \<open>The allocator\<close>

record simple_allocator =
  block_size :: nat
  device_size :: nat
  alloc_object_id :: nat
  max_extent_size_bytes :: nat
  tree :: "(allocator_key, allocator_value) lsm_tree"
  reserved_allocations :: "allocator_item list"
  inner :: allocator_inner
  system_stores :: "nat set"

definition max_extent_size_for_block_size :: "nat \<Rightarrow> nat res" where
  "max_extent_size_for_block_size bs =
     (if bs * (4096 - 64) \<le> u64_max then Inr (bs * (4096 - 64) div 9) else Inl Panic)"

definition allocator_new :: "nat \<Rightarrow> nat \<Rightarrow> nat \<Rightarrow> nat set \<Rightarrow> simple_allocator res" where
  "allocator_new bs dev_size oid stores =
     bind_res (max_extent_size_for_block_size bs) (\<lambda>m.
       Inr \<lparr>block_size = bs, device_size = dev_size, alloc_object_id = oid, max_extent_size_bytes = m,
            tree = tree_new, reserved_allocations = [],
            inner = \<lparr>info = \<lparr>info_layers = [], info_allocated_bytes = [], marked_for_deletion = {},
                             limit_bytes = []\<rparr>,
                     opened = False, dropped_allocations = [], owner_bytes = [],
                     unattributed_reserved_bytes = 0, committed_deallocated = [],
                     committed_marked_for_deletion = []\<rparr>,
            system_stores = stores\<rparr>)"

definition alloc_layer_set :: "simple_allocator \<Rightarrow> allocator_item list list" where
  "alloc_layer_set self = reserved_allocations self # layer_set (tree self)"

text \<open>
  \<^verbatim>\<open>iter\<close>: the items a caller sees that drains the merger of the layers from the bound, without
  tombstones and without the extents of owners marked for deletion.
\<close>

definition alloc_iter ::
  "nat \<Rightarrow> allocator_item list list \<Rightarrow> allocator_key bound \<Rightarrow> nat set \<Rightarrow> allocator_item list res" where
  "alloc_iter fuel layers bnd marked =
     bind_res (merger_seek fuel allocator_ops alloc_merge layers bnd) (\<lambda>it.
     bind_res (compact_with_iterator fuel allocator_ops alloc_merge it) (\<lambda>items.
       Inr (filter (not_marked_for_deletion marked) (filter not_tombstone items))))"

definition needs_sync :: "simple_allocator \<Rightarrow> bool res" where
  "needs_sync self = bind_res (inner_unavailable_bytes (inner self)) (\<lambda>u. Inr (u \<ge> device_size self))"

definition is_system_store :: "simple_allocator \<Rightarrow> nat \<Rightarrow> bool" where
  "is_system_store self owner = (owner \<in> system_stores self)"

definition disown_reservation :: "nat option \<Rightarrow> nat \<Rightarrow> simple_allocator \<Rightarrow> simple_allocator res" where
  "disown_reservation old_owner amount self =
     (if old_owner = None \<or> amount = 0 then Inr self
      else bind_res (remove_reservation old_owner amount (inner self)) (\<lambda>i.
           bind_res (add_reservation None amount i) (\<lambda>i. Inr (self\<lparr>inner := i\<rparr>))))"

section \<open>Reservations against the device\<close>

definition reserve_limit :: "nat option \<Rightarrow> simple_allocator \<Rightarrow> nat res" where
  "reserve_limit owner self =
     bind_res (inner_used_bytes (inner self)) (\<lambda>used.
     bind_res (u64_sub (device_size self) used) (\<lambda>free.
       case owner of
         Some ow \<Rightarrow> bind_res (owner_id_bytes_left ow (inner self)) (\<lambda>left. Inr (min left free))
       | None \<Rightarrow> Inr free))"

definition alloc_reserve :: "nat option \<Rightarrow> nat \<Rightarrow> simple_allocator \<Rightarrow> (reservation option \<times> simple_allocator) res" where
  "alloc_reserve owner amount self =
     bind_res (reserve_limit owner self) (\<lambda>limit.
       if limit < amount then Inr (None, self)
       else bind_res (add_reservation owner amount (inner self)) (\<lambda>i.
              Inr (Some (res_new owner amount), self\<lparr>inner := i\<rparr>)))"

definition alloc_reserve_at_most :: "nat option \<Rightarrow> nat \<Rightarrow> simple_allocator \<Rightarrow> (reservation \<times> simple_allocator) res" where
  "alloc_reserve_at_most owner amount self =
     bind_res (reserve_limit owner self) (\<lambda>limit.
     let amount = min limit amount in
     bind_res (add_reservation owner amount (inner self)) (\<lambda>i.
       Inr (res_new owner amount, self\<lparr>inner := i\<rparr>)))"

definition alloc_release_reservation :: "nat option \<Rightarrow> nat \<Rightarrow> simple_allocator \<Rightarrow> simple_allocator res" where
  "alloc_release_reservation owner amount self =
     bind_res (remove_reservation owner amount (inner self)) (\<lambda>i. Inr (self\<lparr>inner := i\<rparr>))"

section \<open>Allocating\<close>

text \<open>Where \<^verbatim>\<open>allocate\<close> took its space from: the transaction's reservation or the allocator itself.\<close>

datatype hold = FromReservation reservation | FromAllocator reservation

definition hold_amount :: "hold \<Rightarrow> nat" where
  "hold_amount h = (case h of FromReservation r \<Rightarrow> res_amount r | FromAllocator r \<Rightarrow> res_amount r)"

definition take_hold ::
  "nat \<Rightarrow> nat \<Rightarrow> simple_allocator \<Rightarrow> transaction \<Rightarrow> (hold \<times> nat \<times> simple_allocator \<times> transaction) res" where
  "take_hold owner len self txn =
     (case txn_reservation txn of
        Some reservation \<Rightarrow>
          bind_res (ensure (case res_owner_object_id reservation of
                              None \<Rightarrow> is_system_store self owner
                            | Some ow \<Rightarrow> owner = ow) Panic) (\<lambda>_.
          bind_res (res_reserve_at_most len reservation) (\<lambda>(r, reservation).
            Inr (FromReservation r, res_amount r, self, txn\<lparr>txn_reservation := Some reservation\<rparr>)))
      | None \<Rightarrow>
          bind_res (ensure (opened (inner self)) Panic) (\<lambda>_.
          bind_res (inner_used_bytes (inner self)) (\<lambda>device_used.
          bind_res (owner_id_bytes_left owner (inner self)) (\<lambda>owner_bytes_left.
          bind_res (u64_sub (device_size self) device_used) (\<lambda>free.
          bind_res (round_down (min len (min owner_bytes_left free)) (block_size self)) (\<lambda>len.
          bind_res (add_reservation (Some owner) len (inner self)) (\<lambda>i.
            Inr (FromAllocator (res_new (Some owner) len), len, self\<lparr>inner := i\<rparr>, txn))))))))"

text \<open>Dropping the hold on the way out, when nothing was allocated.\<close>

definition drop_hold :: "hold \<Rightarrow> simple_allocator \<Rightarrow> transaction \<Rightarrow> (simple_allocator \<times> transaction) res" where
  "drop_hold h self txn =
     (case h of
        FromAllocator r \<Rightarrow>
          bind_res (res_drop r) (\<lambda>q.
            case q of
              None \<Rightarrow> Inr (self, txn)
            | Some (ow, k) \<Rightarrow> bind_res (alloc_release_reservation ow k self) (\<lambda>self. Inr (self, txn)))
      | FromReservation r \<Rightarrow>
          bind_res (res_drop r) (\<lambda>q.
            case (q, txn_reservation txn) of
              (None, _) \<Rightarrow> Inr (self, txn)
            | (Some (ow, k), Some reservation) \<Rightarrow>
                bind_res (res_release_reservation ow k reservation) (\<lambda>reservation.
                  Inr (self, txn\<lparr>txn_reservation := Some reservation\<rparr>))
            | (Some _, None) \<Rightarrow> Inl Panic))"

text \<open>At most \<open>n\<close> attempts to free space by syncing, before giving up.\<close>

fun sync_loop :: "(simple_allocator \<Rightarrow> simple_allocator res) \<Rightarrow> nat \<Rightarrow> simple_allocator \<Rightarrow> simple_allocator res" where
  "sync_loop sync 0 self = Inl (Fxfs NoSpace)"
| "sync_loop sync (Suc n) self =
     bind_res (needs_sync self) (\<lambda>more.
       if \<not> more then Inr self else bind_res (sync self) (sync_loop sync n))"

definition erase_dropped :: "simple_allocator \<Rightarrow> simple_allocator" where
  "erase_dropped self =
     self\<lparr>inner := (inner self)\<lparr>dropped_allocations := []\<rparr>,
          reserved_allocations :=
            fold (\<lambda>i l. skip_list_erase allocator_ops l (key i)) (dropped_allocations (inner self))
              (reserved_allocations self)\<rparr>"

text \<open>The search for the first gap.\<close>

fun find_free :: "nat \<Rightarrow> nat \<Rightarrow> nat \<Rightarrow> nat \<Rightarrow> allocator_item list \<Rightarrow> u64_range res" where
  "find_free bs dev_size len last_offset [] =
     bind_res (u64_add last_offset len) (\<lambda>e.
       if min e dev_size \<le> last_offset then Inl (Fxfs NoSpace)
       else Inr (Range last_offset (min e dev_size)))"
| "find_free bs dev_size len last_offset (i # items) =
     bind_res (range_is_aligned (device_range (key i)) bs) (\<lambda>aligned.
       if \<not> (aligned \<and> aend (key i) \<le> dev_size) then Inl (Fxfs Inconsistent)
       else if astart (key i) > last_offset
       then bind_res (u64_add last_offset len) (\<lambda>e. Inr (Range last_offset (min e (astart (key i)))))
       else find_free bs dev_size len (aend (key i)) items)"

definition find_range :: "nat \<Rightarrow> nat \<Rightarrow> simple_allocator \<Rightarrow> u64_range res" where
  "find_range fuel len self =
     bind_res (alloc_iter fuel (alloc_layer_set self) Unbounded (marked_for_deletion (info (inner self))))
       (find_free (block_size self) (device_size self) len 0)"

definition finish_allocate ::
  "nat \<Rightarrow> hold \<Rightarrow> u64_range \<Rightarrow> simple_allocator \<Rightarrow> transaction \<Rightarrow> (u64_range \<times> simple_allocator \<times> transaction) res" where
  "finish_allocate owner h result self txn =
     bind_res (range_length result) (\<lambda>len.
     bind_res (case h of
                 FromReservation r \<Rightarrow> res_forget_some len r
               | FromAllocator r \<Rightarrow> res_forget_some len r) (\<lambda>r.
     let reservation_owner = res_owner_object_id r;
         b = bt_get_or bt_default (owner_bytes (inner self)) owner in
     bind_res (u64_add (uncommitted_allocated_bytes b) len) (\<lambda>u.
     bind_res (ensure (reservation_owner = None \<or> reservation_owner = Some owner) Panic) (\<lambda>_.
     bind_res (remove_reservation reservation_owner len
                (update_owner owner (\<lambda>b. b\<lparr>uncommitted_allocated_bytes := u\<rparr>) (inner self))) (\<lambda>i.
     let item = item_new (AllocatorKey result) (Abs 1 owner) in
     bind_res (case skip_list_insert allocator_ops (reserved_allocations self) item of
                 Inl _ \<Rightarrow> Inl Panic
               | Inr l \<Rightarrow> Inr l) (\<lambda>l.
     bind_res (txn_add (alloc_object_id self) (AllocatorM (Allocate result owner)) txn) (\<lambda>(old, txn).
     bind_res (ensure (old = None) Panic) (\<lambda>_.
     bind_res (drop_hold (case h of FromReservation _ \<Rightarrow> FromReservation r | FromAllocator _ \<Rightarrow> FromAllocator r)
                (self\<lparr>inner := i, reserved_allocations := l\<rparr>) txn) (\<lambda>(self, txn).
       Inr (result, self, txn))))))))))"

text \<open>
  \<^verbatim>\<open>allocate\<close>: the result is the range or the error, with the state it leaves behind; the hold is
  dropped on every way out.
\<close>

definition allocate ::
  "nat \<Rightarrow> (simple_allocator \<Rightarrow> simple_allocator res) \<Rightarrow> nat \<Rightarrow> nat \<Rightarrow> simple_allocator \<Rightarrow> transaction \<Rightarrow>
   (u64_range res \<times> simple_allocator \<times> transaction) res" where
  "allocate fuel sync owner len self txn =
     bind_res (u64_rem len (block_size self)) (\<lambda>rem.
     bind_res (ensure (rem = 0) Panic) (\<lambda>_.
     bind_res (ensure (owner \<noteq> 0) Panic) (\<lambda>_.
     bind_res (take_hold owner (min len (max_extent_size_bytes self)) self txn) (\<lambda>(h, len, self, txn).
       if len = 0
       then bind_res (drop_hold h self txn) (\<lambda>s. Inr (Inl (Fxfs NoSpace), s))
       else case sync_loop sync 10 self of
         Inl e \<Rightarrow> bind_res (drop_hold h self txn) (\<lambda>s. Inr (Inl e, s))
       | Inr self \<Rightarrow>
           let self = erase_dropped self in
           case find_range fuel len self of
             Inl e \<Rightarrow> bind_res (drop_hold h self txn) (\<lambda>s. Inr (Inl e, s))
           | Inr result \<Rightarrow>
               bind_res (finish_allocate owner h result self txn) (\<lambda>(r, s). Inr (Inr r, s))))))"

definition mark_allocated ::
  "nat \<Rightarrow> u64_range \<Rightarrow> simple_allocator \<Rightarrow> transaction \<Rightarrow> (simple_allocator \<times> transaction) res" where
  "mark_allocated owner r self txn =
     bind_res (ensure (owner \<noteq> 0) Panic) (\<lambda>_.
     bind_res (case range_length r of Inl _ \<Rightarrow> Inl (Fxfs InvalidArgs) | Inr len \<Rightarrow> Inr len) (\<lambda>len.
     bind_res (inner_used_bytes (inner self)) (\<lambda>device_used.
     bind_res (owner_id_bytes_left owner (inner self)) (\<lambda>left.
     bind_res (if rend r \<le> device_size self
               then bind_res (u64_sub (device_size self) device_used) (\<lambda>free. Inr (free \<ge> len \<and> left \<ge> len))
               else Inr False) (\<lambda>fits.
     bind_res (ensure fits (Fxfs NoSpace)) (\<lambda>_.
     bind_res (case txn_reservation txn of
                 None \<Rightarrow> Inr txn
               | Some reservation \<Rightarrow>
                   bind_res (res_reserve len reservation) (\<lambda>(h, reservation).
                     case h of
                       None \<Rightarrow> Inl (Fxfs NoSpace)
                     | Some h \<Rightarrow>
                         bind_res (res_forget h) (\<lambda>_. Inr (txn\<lparr>txn_reservation := Some reservation\<rparr>)))) (\<lambda>txn.
     bind_res (u64_add (uncommitted_allocated_bytes (bt_get_or bt_default (owner_bytes (inner self)) owner)) len) (\<lambda>u.
     bind_res (case skip_list_insert allocator_ops (reserved_allocations self)
                      (item_new (AllocatorKey r) (Abs 1 owner)) of
                 Inl _ \<Rightarrow> Inl Panic
               | Inr l \<Rightarrow> Inr l) (\<lambda>l.
     bind_res (txn_add (alloc_object_id self) (AllocatorM (Allocate r owner)) txn) (\<lambda>(_, txn).
       Inr (self\<lparr>inner := update_owner owner (\<lambda>b. b\<lparr>uncommitted_allocated_bytes := u\<rparr>) (inner self),
                 reserved_allocations := l\<rparr>, txn)))))))))))"

definition set_bytes_limit :: "nat \<Rightarrow> nat \<Rightarrow> simple_allocator \<Rightarrow> transaction \<Rightarrow> transaction res" where
  "set_bytes_limit owner bytes self txn =
     bind_res (ensure (\<not> is_system_store self owner) Panic) (\<lambda>_.
     bind_res (txn_add (alloc_object_id self) (AllocatorM (SetLimit owner bytes)) txn) (\<lambda>(_, txn). Inr txn))"

definition mark_for_deletion :: "nat \<Rightarrow> simple_allocator \<Rightarrow> transaction \<Rightarrow> transaction res" where
  "mark_for_deletion owner self txn =
     bind_res (txn_add (alloc_object_id self) (AllocatorM (MarkForDeletion owner)) txn) (\<lambda>(_, txn). Inr txn)"

section \<open>Deallocating\<close>

text \<open>
  The loop of \<^verbatim>\<open>deallocate\<close> over the items from the start of the range: \<open>start\<close> is where the part
  not yet seen begins, \<open>m\<close> the range of the mutation so far.
\<close>

fun dealloc_loop ::
  "nat \<Rightarrow> nat \<Rightarrow> nat \<Rightarrow> nat \<Rightarrow> nat \<Rightarrow> u64_range option \<Rightarrow> allocator_item list \<Rightarrow> (nat \<times> u64_range option) res" where
  "dealloc_loop bs owner start fin deallocated m [] = Inr (deallocated, m)"
| "dealloc_loop bs owner start fin deallocated m (i # items) =
     bind_res (range_is_aligned (device_range (key i)) bs) (\<lambda>aligned.
     bind_res (ensure aligned (Fxfs Inconsistent)) (\<lambda>_.
       if astart (key i) > start then Inl (Fxfs Inconsistent)
       else let e = min (aend (key i)) fin in
         case value i of
           ANone \<Rightarrow> Inl Panic
         | Abs c store_object_id \<Rightarrow>
             if c \<noteq> 1 then Inl Panic
             else
               bind_res (ensure (owner = store_object_id) Panic) (\<lambda>_.
               let m = Some (case m of None \<Rightarrow> Range start e | Some r \<Rightarrow> Range (rstart r) e) in
               bind_res (u64_sub e start) (\<lambda>d.
               bind_res (u64_add deallocated d) (\<lambda>deallocated.
                 if e = fin then Inr (deallocated, m)
                 else dealloc_loop bs owner e fin deallocated m items)))))"

definition deallocate ::
  "nat \<Rightarrow> nat \<Rightarrow> u64_range \<Rightarrow> simple_allocator \<Rightarrow> transaction \<Rightarrow> (nat \<times> transaction) res" where
  "deallocate fuel owner r self txn =
     bind_res (ensure (range_is_valid r) (Fxfs InvalidArgs)) (\<lambda>_.
     bind_res (u64_add (rstart r) 1) (\<lambda>s1.
     bind_res (alloc_iter fuel (layer_set (tree self)) (Included (AllocatorKey (Range 0 s1)))
                (marked_for_deletion (info (inner self)))) (\<lambda>items.
     bind_res (dealloc_loop (block_size self) owner (rstart r) (rend r) 0 None items) (\<lambda>(deallocated, m).
     bind_res (case m of
                 None \<Rightarrow> Inr txn
               | Some mr \<Rightarrow>
                   bind_res (txn_add (alloc_object_id self) (AllocatorM (Deallocate mr owner)) txn) (\<lambda>(_, txn).
                     Inr txn)) (\<lambda>txn.
       Inr (deallocated, txn))))))"

text \<open>
  \<^verbatim>\<open>did_flush_device\<close>: deallocations that were journaled before the flush become reusable, and so do
  the extents of owners marked for deletion before it.
\<close>

definition flushed_deallocs :: "nat \<Rightarrow> allocator_inner \<Rightarrow> committed_deallocation list \<times> committed_deallocation list" where
  "flushed_deallocs flush_log_offset i =
     (takeWhile (\<lambda>d. log_file_offset d < flush_log_offset) (committed_deallocated i),
      dropWhile (\<lambda>d. log_file_offset d < flush_log_offset) (committed_deallocated i))"

fun sum_totals :: "committed_deallocation list \<Rightarrow> (nat, nat) btree_map \<Rightarrow> (nat, nat) btree_map res" where
  "sum_totals [] totals = Inr totals"
| "sum_totals (d # ds) totals =
     bind_res (case range_length (dealloc_range d) of Inl _ \<Rightarrow> Inl Panic | Inr l \<Rightarrow> Inr l) (\<lambda>l.
     bind_res (u64_add (bt_get_or 0 totals (dealloc_owner d)) l) (\<lambda>t.
       sum_totals ds (bt_insert (dealloc_owner d) t totals)))"

fun apply_totals :: "(nat \<times> nat) list \<Rightarrow> allocator_inner \<Rightarrow> allocator_inner res" where
  "apply_totals [] i = Inr i"
| "apply_totals ((owner, deallocated) # ts) i =
     (case bt_get (owner_bytes i) owner of
        None \<Rightarrow> Inl Panic
      | Some b \<Rightarrow>
          bind_res (u64_sub (committed_deallocated_bytes b) deallocated) (\<lambda>c.
            apply_totals ts (update_owner owner (\<lambda>b. b\<lparr>committed_deallocated_bytes := c\<rparr>) i)))"

definition did_flush_device :: "nat \<Rightarrow> simple_allocator \<Rightarrow> simple_allocator res" where
  "did_flush_device flush_log_offset self =
     (let (deallocs, left) = flushed_deallocs flush_log_offset (inner self);
          l = fold (\<lambda>d l. skip_list_erase allocator_ops l (AllocatorKey (dealloc_range d))) deallocs
                (reserved_allocations self);
          i = (inner self)\<lparr>committed_deallocated := left\<rparr>
      in bind_res (sum_totals deallocs []) (\<lambda>totals.
         bind_res (apply_totals totals i) (\<lambda>i.
           let gone = filter (\<lambda>e. fst (snd e) < flush_log_offset) (committed_marked_for_deletion i);
               kept = filter (\<lambda>e. \<not> fst (snd e) < flush_log_offset) (committed_marked_for_deletion i)
           in Inr (self\<lparr>reserved_allocations := l,
                        inner := i\<lparr>committed_marked_for_deletion := kept,
                                   info := (info i)\<lparr>marked_for_deletion :=
                                     marked_for_deletion (info i) \<union> fst ` set gone\<rparr>\<rparr>\<rparr>))))"

section \<open>Applying and dropping mutations\<close>

definition unwrap_length :: "u64_range \<Rightarrow> nat res" where
  "unwrap_length r = (case range_length r of Inl _ \<Rightarrow> Inl Panic | Inr l \<Rightarrow> Inr l)"

definition apply_mark_for_deletion :: "nat \<Rightarrow> nat \<Rightarrow> apply_mode \<Rightarrow> allocator_inner \<Rightarrow> allocator_inner" where
  "apply_mark_for_deletion file_offset owner mode i =
     (let i = (case bt_get (owner_bytes i) owner of
                 None \<Rightarrow> i
               | Some b \<Rightarrow>
                   let i = update_owner owner (\<lambda>b. b\<lparr>allocated_bytes := 0\<rparr>) i in
                   if \<not> is_live mode
                   then i\<lparr>info := (info i)\<lparr>marked_for_deletion := insert owner (marked_for_deletion (info i))\<rparr>\<rparr>
                   else i\<lparr>committed_marked_for_deletion :=
                            bt_insert owner (file_offset, i64_as_u64 (allocated_bytes b))
                              (committed_marked_for_deletion i)\<rparr>)
      in i\<lparr>info := (info i)\<lparr>limit_bytes := bt_remove owner (limit_bytes (info i))\<rparr>\<rparr>)"

definition apply_allocate ::
  "nat \<Rightarrow> nat \<Rightarrow> u64_range \<Rightarrow> nat \<Rightarrow> apply_mode \<Rightarrow> simple_allocator \<Rightarrow> (simple_allocator \<times> apply_mode) res" where
  "apply_allocate fuel file_offset r owner mode self =
     (let item = item_new_with_sequence (AllocatorKey r) (Abs 1 owner) file_offset in
      bind_res (unwrap_length r) (\<lambda>len.
      bind_res (tree_merge_into fuel allocator_ops alloc_merge item (lower_bound_for_merge_into (key item)) (tree self)) (\<lambda>t.
      let self = self\<lparr>tree := t,
                      reserved_allocations :=
                        (if is_live mode then skip_list_erase allocator_ops (reserved_allocations self) (key item)
                         else reserved_allocations self)\<rparr>;
          b = bt_get_or bt_default (owner_bytes (inner self)) owner;
          i = update_owner owner
                (\<lambda>b. b\<lparr>allocated_bytes := i64_saturate (allocated_bytes b + u64_as_i64 len)\<rparr>) (inner self) in
      case mode of
        Replay \<Rightarrow> Inr (self\<lparr>inner := i\<rparr>, mode)
      | Live reservation \<Rightarrow>
          bind_res (u64_sub (uncommitted_allocated_bytes b) len) (\<lambda>u.
          let i = update_owner owner (\<lambda>b. b\<lparr>uncommitted_allocated_bytes := u\<rparr>) i in
          bind_res (case reservation of
                      None \<Rightarrow> Inr None
                    | Some res \<Rightarrow> bind_res (res_commit len res) (\<lambda>res. Inr (Some res))) (\<lambda>reservation.
            Inr (self\<lparr>inner := i\<rparr>, Live reservation))))))"

definition apply_deallocate ::
  "nat \<Rightarrow> nat \<Rightarrow> u64_range \<Rightarrow> nat \<Rightarrow> apply_mode \<Rightarrow> simple_allocator \<Rightarrow> (simple_allocator \<times> apply_mode) res" where
  "apply_deallocate fuel file_offset r owner mode self =
     (let item = item_new_with_sequence (AllocatorKey r) ANone file_offset in
      bind_res (unwrap_length r) (\<lambda>len.
      bind_res (if is_live mode
                then case skip_list_insert allocator_ops (reserved_allocations self)
                            (item\<lparr>value := Abs 1 owner\<rparr>) of
                       Inl _ \<Rightarrow> Inl Panic | Inr l \<Rightarrow> Inr l
                else Inr (reserved_allocations self)) (\<lambda>l.
      let i = update_owner owner
                (\<lambda>b. b\<lparr>allocated_bytes := i64_saturate (allocated_bytes b - u64_as_i64 len)\<rparr>) (inner self) in
      bind_res (if is_live mode
                then bind_res (u64_add (committed_deallocated_bytes (bt_get_or bt_default (owner_bytes i) owner)) len) (\<lambda>c.
                       Inr ((update_owner owner (\<lambda>b. b\<lparr>committed_deallocated_bytes := c\<rparr>) i)
                              \<lparr>committed_deallocated := committed_deallocated i @
                                 [\<lparr>log_file_offset = file_offset, dealloc_range = r, dealloc_owner = owner\<rparr>]\<rparr>))
                else Inr i) (\<lambda>i.
      bind_res (case mode of
                  Live (Some res) \<Rightarrow>
                    bind_res (add_reservation (res_owner_object_id res) len i) (\<lambda>i.
                    bind_res (res_add len res) (\<lambda>res. Inr (i, Live (Some res))))
                | _ \<Rightarrow> Inr (i, mode)) (\<lambda>(i, mode).
      bind_res (tree_merge_into fuel allocator_ops alloc_merge item (lower_bound_for_merge_into (key item)) (tree self)) (\<lambda>t.
        Inr (self\<lparr>reserved_allocations := l, inner := i, tree := t\<rparr>, mode)))))))"

definition apply_begin_flush :: "simple_allocator \<Rightarrow> simple_allocator" where
  "apply_begin_flush self =
     (let i = inner self in
      self\<lparr>tree := seal (tree self),
           inner := i\<lparr>info := (info i)\<lparr>info_allocated_bytes :=
             map (\<lambda>(k, v). (k, i64_as_u64 (allocated_bytes v))) (owner_bytes i)\<rparr>\<rparr>\<rparr>)"

fun subtract_allocated :: "(nat \<times> nat) list \<Rightarrow> allocator_inner \<Rightarrow> allocator_inner res" where
  "subtract_allocated [] i = Inr i"
| "subtract_allocated ((k, v) # es) i =
     (let x = allocated_bytes (bt_get_or bt_default (owner_bytes i) k) - u64_as_i64 v in
      if i64_min \<le> x \<and> x \<le> i64_max
      then subtract_allocated es (update_owner k (\<lambda>b. b\<lparr>allocated_bytes := x\<rparr>) i)
      else Inl Panic)"

definition apply_end_flush :: "apply_mode \<Rightarrow> simple_allocator \<Rightarrow> simple_allocator res" where
  "apply_end_flush mode self =
     (if is_live mode then Inr self
      else let self = self\<lparr>tree := reset_immutable_layers (tree self)\<rparr> in
        bind_res (subtract_allocated (info_allocated_bytes (info (inner self))) (inner self)) (\<lambda>i.
          Inr (self\<lparr>inner := i\<rparr>)))"

definition apply_mutation ::
  "nat \<Rightarrow> nat \<Rightarrow> mutation \<Rightarrow> apply_mode \<Rightarrow> simple_allocator \<Rightarrow> (simple_allocator \<times> apply_mode) res" where
  "apply_mutation fuel file_offset m mode self =
     (case m of
        AllocatorM (MarkForDeletion owner) \<Rightarrow>
          Inr (self\<lparr>inner := apply_mark_for_deletion file_offset owner mode (inner self)\<rparr>, mode)
      | AllocatorM (Allocate r owner) \<Rightarrow> apply_allocate fuel file_offset r owner mode self
      | AllocatorM (Deallocate r owner) \<Rightarrow> apply_deallocate fuel file_offset r owner mode self
      | AllocatorM (SetLimit owner bytes) \<Rightarrow>
          let i = inner self in
          Inr (self\<lparr>inner := i\<lparr>info := (info i)\<lparr>limit_bytes := bt_insert owner bytes (limit_bytes (info i))\<rparr>\<rparr>\<rparr>, mode)
      | BeginFlush \<Rightarrow> Inr (apply_begin_flush self, mode)
      | EndFlush \<Rightarrow> bind_res (apply_end_flush mode self) (\<lambda>self. Inr (self, mode))
      | _ \<Rightarrow> Inl Bail)"

definition drop_mutation ::
  "mutation \<Rightarrow> reservation option \<Rightarrow> simple_allocator \<Rightarrow> (simple_allocator \<times> reservation option) res" where
  "drop_mutation m reservation self =
     (case m of
        AllocatorM (Allocate r owner) \<Rightarrow>
          bind_res (unwrap_length r) (\<lambda>len.
          bind_res (u64_sub (uncommitted_allocated_bytes (bt_get_or bt_default (owner_bytes (inner self)) owner)) len) (\<lambda>u.
          let i = update_owner owner (\<lambda>b. b\<lparr>uncommitted_allocated_bytes := u\<rparr>) (inner self) in
          bind_res (case reservation of
                      None \<Rightarrow> Inr (i, None)
                    | Some res \<Rightarrow>
                        bind_res (add_reservation (res_owner_object_id res) len i) (\<lambda>i.
                        bind_res (res_release_reservation (res_owner_object_id res) len res) (\<lambda>res.
                          Inr (i, Some res)))) (\<lambda>(i, reservation).
            Inr (self\<lparr>inner := i\<lparr>dropped_allocations :=
                   dropped_allocations i @ [item_new (AllocatorKey r) (Abs 1 owner)]\<rparr>\<rparr>, reservation))))
      | _ \<Rightarrow> Inr (self, reservation))"

section \<open>Flushing\<close>

text \<open>
  The steps of \<^verbatim>\<open>flush\<close> that touch the allocator, after the transaction with \<^verbatim>\<open>BeginFlush\<close>: the layer that
  is written (the sealed layers, without what is deleted, coalesced), the copy of the info that is
  written with the new layer's object id, and the callback of the transaction with \<^verbatim>\<open>EndFlush\<close>.
\<close>

definition alloc_flush_layer :: "nat \<Rightarrow> simple_allocator \<Rightarrow> allocator_item list res" where
  "alloc_flush_layer fuel self =
     bind_res (alloc_iter fuel (immutable_layer_set (tree self)) Unbounded (marked_for_deletion (info (inner self)))) (\<lambda>items.
     bind_res (coalescing_new items) (coalescing_drain (length items + 2)))"

definition alloc_flush_new_info :: "nat \<Rightarrow> allocator_info \<Rightarrow> allocator_info" where
  "alloc_flush_new_info oid i = i\<lparr>marked_for_deletion := {}, info_layers := [oid]\<rparr>"

definition alloc_flush_committed :: "allocator_info \<Rightarrow> allocator_item list \<Rightarrow> simple_allocator \<Rightarrow> simple_allocator" where
  "alloc_flush_committed new_info items self =
     self\<lparr>tree := set_layers [items] (tree self), inner := (inner self)\<lparr>info := new_info\<rparr>\<rparr>"

end
