(* ===== verification/Allocator_Correct.thy ===== *)
theory Allocator_Correct
  imports Allocator
begin

text \<open>
  Properties of the allocator: the byte accounting and the limits of reservations, the search for free
  space (first fit, complete), and the life of a range: an allocated range was free and is in use from
  then on, through the commit of its transaction, and a deallocated range stays in use until the
  device has been flushed.
\<close>

section \<open>Accounting\<close>

definition tracked_used :: "byte_tracking \<Rightarrow> nat" where
  "tracked_used b = i64_as_u64 (allocated_bytes b) + uncommitted_allocated_bytes b + reserved_bytes b"

definition total_used :: "allocator_inner \<Rightarrow> nat" where
  "total_used i = sum_list (map (\<lambda>e. tracked_used (snd e)) (owner_bytes i)) + unattributed_reserved_bytes i"

lemma tracking_used_bytes_eq:
  "tracking_used_bytes b = (if tracked_used b \<le> u64_max then Inr (tracked_used b) else Inl Panic)"
  by (auto simp: tracking_used_bytes_def tracked_used_def u64_add_def)

lemma u64_sum_eq:
  "u64_sum (map (\<lambda>x. if g x \<le> u64_max then Inr (g x) else Inl Panic) xs) =
     (if sum_list (map g xs) \<le> u64_max then Inr (sum_list (map g xs)) else Inl Panic)"
  by (induction xs) (auto simp: u64_add_def)

lemma inner_used_bytes_eq:
  "inner_used_bytes i = (if total_used i \<le> u64_max then Inr (total_used i) else Inl Panic)"
  unfolding inner_used_bytes_def tracking_used_bytes_eq u64_sum_eq [of "\<lambda>e. tracked_used (snd e)"] total_used_def
  by (simp add: u64_add_def)

lemma tracked_used_default [simp]: "tracked_used bt_default = 0"
  by (simp add: tracked_used_def bt_default_def i64_as_u64_def)

lemma total_used_update:
  assumes "bt_ok (owner_bytes i)"
  shows "total_used (update_owner ow f i) + tracked_used (bt_get_or bt_default (owner_bytes i) ow) =
    total_used i + tracked_used (f (bt_get_or bt_default (owner_bytes i) ow))"
  using bt_sum_insert [OF assms, of tracked_used bt_default ow "f (bt_get_or bt_default (owner_bytes i) ow)"]
  by (simp add: update_owner_def total_used_def)

text \<open>Adding and removing a reservation changes the total by its amount.\<close>

lemma add_reservation_total:
  assumes "bt_ok (owner_bytes i)" "add_reservation ow n i = Inr i'"
  shows "total_used i' = total_used i + n" "bt_ok (owner_bytes i')" "info i' = info i"
    "case ow of None \<Rightarrow> owner_bytes i' = owner_bytes i
     | Some k \<Rightarrow> tracked_used (bt_get_or bt_default (owner_bytes i') k) =
         tracked_used (bt_get_or bt_default (owner_bytes i) k) + n"
proof -
  have "total_used i' = total_used i + n \<and> bt_ok (owner_bytes i') \<and> info i' = info i \<and>
    (case ow of None \<Rightarrow> owner_bytes i' = owner_bytes i
     | Some k \<Rightarrow> tracked_used (bt_get_or bt_default (owner_bytes i') k) =
         tracked_used (bt_get_or bt_default (owner_bytes i) k) + n)"
  proof (cases ow)
    case None
    with assms show ?thesis
      by (auto simp: add_reservation_def u64_add_def total_used_def bind_res_eq_Inr split: if_splits)
  next
    case (Some k)
    let ?b = "bt_get_or bt_default (owner_bytes i) k"
    have i': "i' = update_owner k (\<lambda>b. b\<lparr>reserved_bytes := reserved_bytes ?b + n\<rparr>) i"
      using assms(2) Some by (auto simp: add_reservation_def u64_add_def bind_res_eq_Inr split: if_splits)
    have "total_used i' = total_used i + n"
      using total_used_update [OF assms(1), of k "\<lambda>b. b\<lparr>reserved_bytes := reserved_bytes ?b + n\<rparr>"]
      by (simp add: i' tracked_used_def)
    then show ?thesis
      using assms(1) Some by (simp add: i' update_owner_def bt_ok_insert tracked_used_def)
  qed
  then show "total_used i' = total_used i + n" "bt_ok (owner_bytes i')" "info i' = info i"
    "case ow of None \<Rightarrow> owner_bytes i' = owner_bytes i
     | Some k \<Rightarrow> tracked_used (bt_get_or bt_default (owner_bytes i') k) =
         tracked_used (bt_get_or bt_default (owner_bytes i) k) + n"
    by blast+
qed

lemma reserve_limit_bound:
  assumes "reserve_limit ow self = Inr limit"
  shows "total_used (inner self) + limit \<le> device_size self"
    "case ow of None \<Rightarrow> True | Some k \<Rightarrow>
       limit = 0 \<or>
       tracked_used (bt_get_or bt_default (owner_bytes (inner self)) k) + limit \<le> owner_id_limit_bytes k (inner self)"
  using assms
  by (auto simp: reserve_limit_def inner_used_bytes_eq u64_sub_def owner_id_bytes_left_def Let_def
      tracking_used_bytes_eq bind_res_eq_Inr bt_get_or_def split: if_splits option.splits)

text \<open>
  C34: when the allocator grants a reservation, the bytes used on the device grow by exactly its amount
  and stay within the device, and those of the owner, when it gets any, within the owner's limit; when it
  refuses one, nothing changes. The same holds of a reservation for as much as possible, which is never
  more than was asked for.
\<close>

theorem reserve_within_limits:
  assumes "bt_ok (owner_bytes (inner self))"
  shows "(\<forall>r self'. alloc_reserve ow n self = Inr (r, self') \<longrightarrow>
      (case r of
         None \<Rightarrow> self' = self
       | Some r \<Rightarrow> r = res_new ow n \<and> total_used (inner self') = total_used (inner self) + n \<and>
           total_used (inner self') \<le> device_size self \<and>
           (\<forall>k. ow = Some k \<and> 0 < n \<longrightarrow>
             tracked_used (bt_get_or bt_default (owner_bytes (inner self')) k) \<le> owner_id_limit_bytes k (inner self')))) \<and>
    (\<forall>r self'. alloc_reserve_at_most ow n self = Inr (r, self') \<longrightarrow>
      res_amount r \<le> n \<and> total_used (inner self') = total_used (inner self) + res_amount r \<and>
      total_used (inner self') \<le> device_size self \<and>
      (\<forall>k. ow = Some k \<and> 0 < res_amount r \<longrightarrow>
        tracked_used (bt_get_or bt_default (owner_bytes (inner self')) k) \<le> owner_id_limit_bytes k (inner self')))"
proof (intro conjI allI impI)
  fix r self'
  assume run: "alloc_reserve ow n self = Inr (r, self')"
  show "case r of
         None \<Rightarrow> self' = self
       | Some r \<Rightarrow> r = res_new ow n \<and> total_used (inner self') = total_used (inner self) + n \<and>
           total_used (inner self') \<le> device_size self \<and>
           (\<forall>k. ow = Some k \<and> 0 < n \<longrightarrow>
             tracked_used (bt_get_or bt_default (owner_bytes (inner self')) k) \<le> owner_id_limit_bytes k (inner self'))"
  proof (cases r)
    case None
    with run show ?thesis by (auto simp: alloc_reserve_def bind_res_eq_Inr split: if_splits)
  next
    case (Some r')
    with run obtain limit i where l: "reserve_limit ow self = Inr limit" "n \<le> limit"
      "add_reservation ow n (inner self) = Inr i" "self' = self\<lparr>inner := i\<rparr>" "r' = res_new ow n"
      by (auto simp: alloc_reserve_def bind_res_eq_Inr split: if_splits)
    note add = add_reservation_total [OF assms l(3)]
    show ?thesis
      using Some l reserve_limit_bound [OF l(1)] add
      by (auto simp: owner_id_limit_bytes_def)
  qed
next
  fix r self'
  assume "alloc_reserve_at_most ow n self = Inr (r, self')"
  then obtain limit i where l: "reserve_limit ow self = Inr limit"
    "add_reservation ow (min limit n) (inner self) = Inr i" "self' = self\<lparr>inner := i\<rparr>" "r = res_new ow (min limit n)"
    by (auto simp: alloc_reserve_at_most_def bind_res_eq_Inr Let_def)
  note add = add_reservation_total [OF assms l(2)]
  show "res_amount r \<le> n" "total_used (inner self') = total_used (inner self) + res_amount r"
    "total_used (inner self') \<le> device_size self"
    using l reserve_limit_bound(1) [OF l(1)] add(1) by (auto simp: res_new_def)
  show "tracked_used (bt_get_or bt_default (owner_bytes (inner self')) k) \<le> owner_id_limit_bytes k (inner self')"
    if "ow = Some k \<and> 0 < res_amount r" for k
    using that l reserve_limit_bound(2) [OF l(1)] add by (auto simp: res_new_def owner_id_limit_bytes_def)
qed

definition example_allocator :: simple_allocator where
  "example_allocator = \<lparr>block_size = 512, device_size = 8192, alloc_object_id = 3, max_extent_size_bytes = 229376,
     tree = tree_new, reserved_allocations = [],
     inner = \<lparr>info = \<lparr>info_layers = [], info_allocated_bytes = [], marked_for_deletion = {}, limit_bytes = [(7, 4096)]\<rparr>,
              opened = True, dropped_allocations = [], owner_bytes = [],
              unattributed_reserved_bytes = 0, committed_deallocated = [], committed_marked_for_deletion = []\<rparr>,
     system_stores = {1, 2}\<rparr>"

theorem reserve_within_limits_witness:
  "\<exists>r self'. alloc_reserve_at_most (Some 7) 5000 example_allocator = Inr (r, self') \<and> res_amount r = 4096 \<and>
    total_used (inner self') \<le> 8192"
proof -
  obtain self' where run: "alloc_reserve_at_most (Some 7) 5000 example_allocator = Inr (res_new (Some 7) 4096, self')"
    by (simp add: example_allocator_def alloc_reserve_at_most_def reserve_limit_def inner_used_bytes_def u64_sub_def
        u64_add_def u64_max_def owner_id_bytes_left_def owner_id_limit_bytes_def add_reservation_def
        bt_get_or_def bt_default_def)
  have "bt_ok (owner_bytes (inner example_allocator))" "device_size example_allocator = 8192"
    by (simp_all add: example_allocator_def bt_ok_def)
  with reserve_within_limits [of example_allocator "Some 7" 5000] run have "total_used (inner self') \<le> 8192" by metis
  with run show ?thesis by (auto simp: res_new_def)
qed

section \<open>Inserting into and erasing from a layer of ranges\<close>

definition apart :: "allocator_item \<Rightarrow> allocator_item \<Rightarrow> bool" where
  "apart x y \<longleftrightarrow> aend (key x) \<le> astart (key y) \<or> aend (key y) \<le> astart (key x)"

lemma iter_mut_new_split:
  obtains A B where "iter_mut_new allocator_ops l k = (rev A, B)" "l = A @ B"
    "\<And>x. x \<in> set A \<Longrightarrow> aend (key x) < aend k" "B = [] \<or> aend k \<le> aend (key (hd B))"
proof -
  let ?P = "\<lambda>i. outside_bound allocator_ops (Included k) (key i)"
  have P: "?P x \<longleftrightarrow> aend (key x) < aend k" for x
    by (simp add: outside_bound_def allocator_ops_def ak_cmp_upper_bound_def)
  show thesis
  proof (rule that [of "takeWhile ?P l" "dropWhile ?P l"])
    show "dropWhile ?P l = [] \<or> aend k \<le> aend (key (hd (dropWhile ?P l)))"
      using hd_dropWhile [of ?P l] P by (metis not_less)
  qed (use P in \<open>auto simp: iter_mut_new_def dest: set_takeWhileD\<close>)
qed

lemma layer_at_ok_mem:
  assumes "layer_ok (alloc_sem bs dev) l" "x \<in> set l" "item_at (alloc_sem bs dev) x p = Some w"
  shows "layer_at (alloc_sem bs dev) l p = Some w"
  using assms
proof (induction l)
  case (Cons y l)
  show ?case
  proof (cases "x = y")
    case False
    then have "x \<in> set l" using Cons.prems by simp
    then have "aend (key y) \<le> astart (key x)" using Cons.prems(1) by (auto simp: list_all_iff)
    then have "item_at (alloc_sem bs dev) y p = None" using Cons.prems(3) by (auto simp: item_at_def split: if_splits)
    with Cons \<open>x \<in> set l\<close> show ?thesis by simp
  qed (use Cons in simp)
qed simp

lemma skip_list_insert_apart:
  assumes "layer_ok (alloc_sem bs dev) l" "ok (alloc_sem bs dev) i" "\<forall>x \<in> set l. apart x i"
  obtains l' where "skip_list_insert allocator_ops l i = Inr l'" "layer_ok (alloc_sem bs dev) l'" "set l' = insert i (set l)"
    "\<And>p. layer_at (alloc_sem bs dev) l' p = (case item_at (alloc_sem bs dev) i p of Some w \<Rightarrow> Some w | None \<Rightarrow> layer_at (alloc_sem bs dev) l p)"
proof -
  obtain A B where AB: "iter_mut_new allocator_ops l (key i) = (rev A, B)" "l = A @ B"
    "\<And>x. x \<in> set A \<Longrightarrow> aend (key x) < aend (key i)" "B = [] \<or> aend (key i) \<le> aend (key (hd B))"
    using iter_mut_new_split [of l "key i"] by metis
  have ok: "layer_ok (alloc_sem bs dev) A" "layer_ok (alloc_sem bs dev) B" "\<forall>x \<in> set A. \<forall>y \<in> set B. aend (key x) \<le> astart (key y)"
    using assms(1) AB(2) by (auto simp: layer_ok_append)
  have ne: "astart (key x) < aend (key x)" if "x \<in> set l" for x using layer_ok_ok [OF assms(1) that] by simp
  have A: "aend (key x) \<le> astart (key i)" if "x \<in> set A" for x
    using assms(3) AB(2) AB(3) [OF that] that ne [of x] by (fastforce simp: apart_def)
  have B: "aend (key i) \<le> astart (key x)" if "x \<in> set B" for x
  proof -
    note x = that
    obtain b B' where b: "B = b # B'" using x by (cases B) auto
    have "aend (key i) \<le> astart (key b)" using assms(2,3) AB(2,4) b ne [of b] by (auto simp: apart_def)
    with that ok(2) b show ?thesis by (auto simp: list_all_iff)
  qed
  have "skip_list_insert allocator_ops l i = Inr (A @ i # B)"
  proof (cases B)
    case (Cons b B')
    then have "key b \<noteq> key i" using B [of b] assms(2) by auto
    with AB(1) Cons show ?thesis by (simp add: skip_list_insert_def)
  qed (use AB(1) in \<open>simp add: skip_list_insert_def\<close>)
  moreover have "layer_ok (alloc_sem bs dev) (A @ i # B)"
    using ok A B assms(2) by (auto simp: layer_ok_append list_all_iff)
  moreover have "layer_at (alloc_sem bs dev) (A @ i # B) p =
      (case item_at (alloc_sem bs dev) i p of Some w \<Rightarrow> Some w | None \<Rightarrow> layer_at (alloc_sem bs dev) l p)" for p
  proof -
    have "layer_at (alloc_sem bs dev) A p = None" if "item_at (alloc_sem bs dev) i p \<noteq> None"
      using that A by (fastforce simp: layer_at_None_iff item_at_def split: if_splits)
    then show ?thesis by (auto simp: AB(2) layer_at_append split: option.splits)
  qed
  ultimately show thesis using that [of "A @ i # B"] AB(2) by auto
qed

lemma skip_list_erase_mem:
  assumes "layer_ok (alloc_sem bs dev) l" "i \<in> set l"
  obtains A B where "l = A @ i # B" "skip_list_erase allocator_ops l (key i) = A @ B" "layer_ok (alloc_sem bs dev) (A @ B)"
    "\<And>p. layer_at (alloc_sem bs dev) (A @ B) p = (if item_at (alloc_sem bs dev) i p = None then layer_at (alloc_sem bs dev) l p else None)"
proof -
  obtain A B where AB: "iter_mut_new allocator_ops l (key i) = (rev A, B)" "l = A @ B"
    "\<And>x. x \<in> set A \<Longrightarrow> aend (key x) < aend (key i)" "B = [] \<or> aend (key i) \<le> aend (key (hd B))"
    using iter_mut_new_split [of l "key i"] by metis
  have ok: "layer_ok (alloc_sem bs dev) A" "layer_ok (alloc_sem bs dev) B" "\<forall>x \<in> set A. \<forall>y \<in> set B. aend (key x) \<le> astart (key y)"
    using assms(1) AB(2) by (auto simp: layer_ok_append)
  have "i \<in> set B" using assms(2) AB(2,3) by auto
  then obtain b B' where b: "B = b # B'" by (cases B) auto
  have "i = b"
  proof (rule ccontr)
    assume "i \<noteq> b"
    then have "i \<in> set B'" using \<open>i \<in> set B\<close> b by simp
    then have "aend (key b) \<le> astart (key i)" "astart (key i) < aend (key i)"
      using ok(2) b layer_ok_ok [OF ok(2) \<open>i \<in> set B\<close>] by (auto simp: list_all_iff)
    then show False using AB(4) b by simp
  qed
  have l: "l = A @ i # B'" using AB(2) b \<open>i = b\<close> by simp
  have "skip_list_erase allocator_ops l (key i) = A @ B'"
    using AB(1) b \<open>i = b\<close> by (simp add: skip_list_erase_def)
  moreover have lok: "layer_ok (alloc_sem bs dev) (A @ B')"
    using assms(1) l by (auto simp: layer_ok_append)
  moreover have "layer_at (alloc_sem bs dev) (A @ B') p =
      (if item_at (alloc_sem bs dev) i p = None then layer_at (alloc_sem bs dev) l p else None)" for p
  proof (cases "item_at (alloc_sem bs dev) i p")
    case None
    then show ?thesis by (simp add: l layer_at_append cong: option.case_cong)
  next
    case (Some w)
    have "item_at (alloc_sem bs dev) x p = None" if "x \<in> set (A @ B')" for x
      using that assms(1) Some by (auto simp: l layer_ok_append list_all_iff item_at_def split: if_splits)
    then show ?thesis using Some by (auto simp: layer_at_None_iff)
  qed
  ultimately show thesis using that l by metis
qed

section \<open>The search for free space\<close>

text \<open>
  The search over the records in use: it finds the first gap that starts at or after \<open>last_offset\<close>,
  and reports that there is no space only when every byte of the device is in use.
\<close>

lemma find_free_spec:
  assumes "layer_ok (alloc_sem bs dev) items" "\<forall>i \<in> set items. last_offset \<le> astart (key i)"
    "0 < len" "0 < bs" "dev + len \<le> u64_max" "last_offset \<le> dev"
  shows "case find_free bs dev len last_offset items of
      Inr r \<Rightarrow> last_offset \<le> rstart r \<and> rstart r < rend r \<and> rend r \<le> dev \<and> rend r - rstart r \<le> len \<and>
        (\<forall>p. rstart r \<le> p \<and> p < rend r \<longrightarrow> layer_at (alloc_sem bs dev) items p = None) \<and>
        (\<forall>p. last_offset \<le> p \<and> p < rstart r \<longrightarrow> layer_at (alloc_sem bs dev) items p \<noteq> None)
    | Inl e \<Rightarrow> e = Fxfs NoSpace \<and> (\<forall>p. last_offset \<le> p \<and> p < dev \<longrightarrow> layer_at (alloc_sem bs dev) items p \<noteq> None)"
  using assms
proof (induction items arbitrary: last_offset)
  case Nil
  then show ?case by (auto simp: u64_add_def)
next
  case (Cons i items)
  have al: "range_is_aligned (device_range (key i)) bs = Inr True"
    using Cons.prems(1,4) by (auto simp: range_is_aligned_def u64_rem_def)
  have i: "astart (key i) < aend (key i)" "aend (key i) \<le> dev" "last_offset \<le> astart (key i)"
    using Cons.prems by auto
  have rest: "\<forall>j \<in> set items. aend (key i) \<le> astart (key j)" using Cons.prems(1) by (auto simp: list_all_iff)
  show ?case
  proof (cases "last_offset < astart (key i)")
    case True
    then have run: "find_free bs dev len last_offset (i # items) = Inr (Range last_offset (min (last_offset + len) (astart (key i))))"
      using al i Cons.prems(5,6) by (simp add: u64_add_def)
    have "layer_at (alloc_sem bs dev) (i # items) p = None" if "p < astart (key i)" for p
      using that rest i(1) by (intro layer_at_None_below) auto
    then show ?thesis using run True i Cons.prems(3) by auto
  next
    case False
    then have eq: "astart (key i) = last_offset" using i(3) by simp
    have run: "find_free bs dev len last_offset (i # items) = find_free bs dev len (aend (key i)) items"
      using al i False by simp
    have ih: "case find_free bs dev len (aend (key i)) items of
        Inr r \<Rightarrow> aend (key i) \<le> rstart r \<and> rstart r < rend r \<and> rend r \<le> dev \<and> rend r - rstart r \<le> len \<and>
          (\<forall>p. rstart r \<le> p \<and> p < rend r \<longrightarrow> layer_at (alloc_sem bs dev) items p = None) \<and>
          (\<forall>p. aend (key i) \<le> p \<and> p < rstart r \<longrightarrow> layer_at (alloc_sem bs dev) items p \<noteq> None)
      | Inl e \<Rightarrow> e = Fxfs NoSpace \<and> (\<forall>p. aend (key i) \<le> p \<and> p < dev \<longrightarrow> layer_at (alloc_sem bs dev) items p \<noteq> None)"
      using Cons.prems i(2) rest by (intro Cons.IH) auto
    have at: "layer_at (alloc_sem bs dev) (i # items) p =
        (if last_offset \<le> p \<and> p < aend (key i) then Some (value i) else layer_at (alloc_sem bs dev) items p)" for p
      by (simp add: item_at_def eq)
    show ?thesis
      using ih i eq unfolding run at by (auto split: sum.splits)
  qed
qed

text \<open>The records an iteration yields: those of the merged layers that count as in use.\<close>

definition counts :: "nat set \<Rightarrow> allocator_value \<Rightarrow> bool" where
  "counts marked v = (case v of ANone \<Rightarrow> False | Abs _ ow \<Rightarrow> ow \<notin> marked)"

lemma layer_at_filter:
  assumes "layer_ok (alloc_sem bs dev) l"
  shows "layer_at (alloc_sem bs dev) (filter (\<lambda>i. P (value i)) l) p =
    (case layer_at (alloc_sem bs dev) l p of None \<Rightarrow> None | Some v \<Rightarrow> if P v then Some v else None)"
  using assms by (rule layer_at_filter_meaning) simp

lemma alloc_iter_unbounded:
  assumes "\<forall>l \<in> set layers. layer_ok (alloc_sem bs dev) l"
    "sum_list (map (layer_weight (alloc_sem bs dev)) layers) + 1 < fuel"
  obtains items where "alloc_iter fuel layers Unbounded marked = Inr items" "layer_ok (alloc_sem bs dev) items"
    "\<And>p. layer_at (alloc_sem bs dev) items p =
      (case layers_at (alloc_sem bs dev) layers p of None \<Rightarrow> None | Some v \<Rightarrow> if counts marked v then Some v else None)"
proof -
  let ?t = "\<lparr>mutable_layer = [], immutable_layers = layers\<rparr>"
  obtain out where out: "compact fuel allocator_ops alloc_merge ?t = Inr out" "layer_ok (alloc_sem bs dev) out"
    "\<And>p. layer_at (alloc_sem bs dev) out p = layers_at (alloc_sem bs dev) layers p"
    using alloc.compact_correct [of ?t bs dev fuel] assms by auto
  have eq: "filter (not_marked_for_deletion marked) (filter not_tombstone out) = filter (\<lambda>i. counts marked (value i)) out"
    by (auto simp: not_marked_for_deletion_def not_tombstone_def counts_def intro!: filter_cong split: allocator_value.splits)
  have "alloc_iter fuel layers Unbounded marked = Inr (filter (\<lambda>i. counts marked (value i)) out)"
    using out(1) by (auto simp: alloc_iter_def compact_def immutable_layer_set_def bind_res_eq_Inr eq [symmetric])
  then show thesis
    using that out(2,3) layer_ok_filter layer_at_filter [OF out(2)] by metis
qed

lemma alloc_iter_empty:
  assumes "\<forall>l \<in> set layers. l = []" "1 < fuel"
  shows "alloc_iter fuel layers Unbounded marked = Inr []"
proof -
  have "\<forall>l \<in> set layers. layer_ok (alloc_sem 1 0) l" using assms(1) by auto
  moreover have "sum_list (map (layer_weight (alloc_sem 1 0)) layers) = 0" using assms(1) by (induction layers) auto
  then have "sum_list (map (layer_weight (alloc_sem 1 0)) layers) + 1 < fuel" using assms(2) by linarith
  ultimately obtain items where items: "alloc_iter fuel layers Unbounded marked = Inr items"
    "layer_ok (alloc_sem 1 0) items" "\<And>p. layer_at (alloc_sem 1 0) items p =
      (case layers_at (alloc_sem 1 0) layers p of None \<Rightarrow> None | Some v \<Rightarrow> if counts marked v then Some v else None)"
    by (rule alloc_iter_unbounded) blast
  have none: "layers_at (alloc_sem 1 0) layers p = None" for p using assms(1) by (induction layers) auto
  show ?thesis
  proof (cases items)
    case (Cons x xs)
    then have "item_at (alloc_sem 1 0) x (astart (key x)) \<noteq> None" using items(2) by (auto simp: item_at_def)
    then show ?thesis using items(3) [of "astart (key x)"] none [of "astart (key x)"] Cons by auto
  qed (use items(1) in simp)
qed

text \<open>Whether a byte of the device is in use, as \<^verbatim>\<open>allocate\<close> sees it.\<close>

definition used_value :: "nat set \<Rightarrow> allocator_value option \<Rightarrow> bool" where
  "used_value marked ov = (case ov of None \<Rightarrow> False | Some v \<Rightarrow> counts marked v)"

lemma used_value_simps [simp]: "\<not> used_value marked None" "used_value marked (Some v) = counts marked v"
  by (simp_all add: used_value_def)

definition in_use :: "simple_allocator \<Rightarrow> nat \<Rightarrow> bool" where
  "in_use self p =
     used_value (marked_for_deletion (info (inner self)))
       (layers_at (alloc_sem (block_size self) (device_size self)) (alloc_layer_set self) p)"

definition alloc_fuel :: "simple_allocator \<Rightarrow> nat" where
  "alloc_fuel self =
     sum_list (map (layer_weight (alloc_sem (block_size self) (device_size self))) (alloc_layer_set self)) + 2"

definition layers_wf :: "simple_allocator \<Rightarrow> bool" where
  "layers_wf self \<longleftrightarrow>
     0 < block_size self \<and>
     (\<forall>l \<in> set (alloc_layer_set self). layer_ok (alloc_sem (block_size self) (device_size self)) l)"

text \<open>
  On well-formed layers the search for free space returns the first gap: a non-empty range on the
  device, no longer than asked for, none of whose bytes is in use and before which every byte is in
  use. It reports that there is no space only when every byte of the device is in use, and it has no
  other way to fail.
\<close>

lemma find_range_first_fit:
  assumes "layers_wf self" "0 < len" "device_size self + len \<le> u64_max" "alloc_fuel self \<le> fuel"
  shows "case find_range fuel len self of
      Inr r \<Rightarrow> rstart r < rend r \<and> rend r \<le> device_size self \<and> rend r - rstart r \<le> len \<and>
        (\<forall>p. rstart r \<le> p \<and> p < rend r \<longrightarrow> \<not> in_use self p) \<and> (\<forall>p < rstart r. in_use self p)
    | Inl e \<Rightarrow> e = Fxfs NoSpace \<and> (\<forall>p < device_size self. in_use self p)"
proof -
  define bs dev where "bs = block_size self" and "dev = device_size self"
  obtain items where items: "alloc_iter fuel (alloc_layer_set self) Unbounded (marked_for_deletion (info (inner self))) = Inr items"
    "layer_ok (alloc_sem bs dev) items"
    "\<And>p. layer_at (alloc_sem bs dev) items p = (case layers_at (alloc_sem bs dev) (alloc_layer_set self) p of
       None \<Rightarrow> None | Some v \<Rightarrow> if counts (marked_for_deletion (info (inner self))) v then Some v else None)"
    using alloc_iter_unbounded [of "alloc_layer_set self" bs dev fuel] assms(1,4)
    by (auto simp: layers_wf_def alloc_fuel_def bs_def dev_def)
  have use: "layer_at (alloc_sem bs dev) items p \<noteq> None \<longleftrightarrow> in_use self p" for p
    unfolding in_use_def bs_def [symmetric] dev_def [symmetric] items(3) by (simp split: option.splits)
  have "case find_free bs dev len 0 items of
      Inr r \<Rightarrow> 0 \<le> rstart r \<and> rstart r < rend r \<and> rend r \<le> dev \<and> rend r - rstart r \<le> len \<and>
        (\<forall>p. rstart r \<le> p \<and> p < rend r \<longrightarrow> layer_at (alloc_sem bs dev) items p = None) \<and>
        (\<forall>p. 0 \<le> p \<and> p < rstart r \<longrightarrow> layer_at (alloc_sem bs dev) items p \<noteq> None)
    | Inl e \<Rightarrow> e = Fxfs NoSpace \<and> (\<forall>p. 0 \<le> p \<and> p < dev \<longrightarrow> layer_at (alloc_sem bs dev) items p \<noteq> None)"
    using assms(1-3) items(2) by (intro find_free_spec) (auto simp: layers_wf_def bs_def dev_def)
  moreover have "find_range fuel len self = find_free bs dev len 0 items"
    using items(1) by (simp add: find_range_def bs_def dev_def)
  moreover have "layer_at (alloc_sem bs dev) items p = None \<longleftrightarrow> \<not> in_use self p" for p using use [of p] by blast
  ultimately show ?thesis by (auto simp: dev_def split: sum.splits)
qed

section \<open>The life of a range\<close>

text \<open>What the accounting steps leave alone.\<close>

definition same_device :: "simple_allocator \<Rightarrow> simple_allocator \<Rightarrow> bool" where
  "same_device a b \<longleftrightarrow>
     block_size a = block_size b \<and> device_size a = device_size b \<and>
     marked_for_deletion (info (inner a)) = marked_for_deletion (info (inner b))"

lemma remove_reservation_info: "remove_reservation ow n i = Inr i' \<Longrightarrow> info i' = info i"
  by (auto simp: remove_reservation_def update_owner_def Let_def bind_res_eq_Inr split: option.splits)

lemma add_reservation_info: "add_reservation ow n i = Inr i' \<Longrightarrow> info i' = info i"
  by (auto simp: add_reservation_def update_owner_def bind_res_eq_Inr split: option.splits)

lemma info_update_owner [simp]: "info (update_owner ow f i) = info i"
  by (simp add: update_owner_def)

lemma drop_hold_keeps:
  assumes "drop_hold h self txn = Inr (self', txn')"
  shows "same_device self self'" "alloc_layer_set self' = alloc_layer_set self"
    "reserved_allocations self' = reserved_allocations self" "mutations txn' = mutations txn"
proof -
  have "same_device self self' \<and> alloc_layer_set self' = alloc_layer_set self \<and>
    reserved_allocations self' = reserved_allocations self \<and> mutations txn' = mutations txn"
  proof (cases h)
    case (FromReservation r)
    then obtain q where "res_drop r = Inr q" using assms by (auto simp: drop_hold_def bind_res_eq_Inr)
    with FromReservation assms show ?thesis
      by (cases q; cases "txn_reservation txn") (auto simp: drop_hold_def bind_res_eq_Inr same_device_def)
  next
    case (FromAllocator r)
    then obtain q where "res_drop r = Inr q" using assms by (auto simp: drop_hold_def bind_res_eq_Inr)
    with FromAllocator assms show ?thesis
      by (cases q) (auto simp: drop_hold_def bind_res_eq_Inr same_device_def alloc_release_reservation_def
          alloc_layer_set_def dest!: remove_reservation_info)
  qed
  then show "same_device self self'" "alloc_layer_set self' = alloc_layer_set self"
    "reserved_allocations self' = reserved_allocations self" "mutations txn' = mutations txn"
    by blast+
qed

lemma find_free_aligned:
  assumes "find_free bs dev len last_offset items = Inr r" "layer_ok (alloc_sem bs dev) items"
    "bs dvd last_offset" "bs dvd len" "bs dvd dev"
  shows "bs dvd rstart r \<and> bs dvd rend r"
  using assms
proof (induction items arbitrary: last_offset)
  case Nil
  then show ?case by (auto simp: bind_res_eq_Inr u64_add_def min_def split: if_splits)
next
  case (Cons i items)
  show ?case
  proof (cases "astart (key i) > last_offset")
    case True
    then show ?thesis using Cons.prems by (auto simp: bind_res_eq_Inr u64_add_def min_def split: if_splits)
  next
    case False
    then have "find_free bs dev len (aend (key i)) items = Inr r"
      using Cons.prems(1) by (auto simp: bind_res_eq_Inr split: if_splits)
    from Cons.IH [OF this] show ?thesis using Cons.prems by simp
  qed
qed

lemma find_range_aligned:
  assumes "layers_wf self" "find_range fuel len self = Inr r" "alloc_fuel self \<le> fuel"
    "block_size self dvd len" "block_size self dvd device_size self"
  shows "block_size self dvd rstart r \<and> block_size self dvd rend r"
proof -
  define bs dev where "bs = block_size self" and "dev = device_size self"
  have wf: "\<forall>l \<in> set (alloc_layer_set self). layer_ok (alloc_sem bs dev) l"
    "sum_list (map (layer_weight (alloc_sem bs dev)) (alloc_layer_set self)) + 1 < fuel"
    using assms(1,3) by (auto simp: layers_wf_def alloc_fuel_def bs_def dev_def)
  obtain items where "alloc_iter fuel (alloc_layer_set self) Unbounded (marked_for_deletion (info (inner self))) = Inr items"
    "layer_ok (alloc_sem bs dev) items"
    using alloc_iter_unbounded [OF wf] by blast
  with assms(2,4,5) find_free_aligned [of bs dev len 0 items r] show ?thesis
    by (simp add: find_range_def bs_def dev_def)
qed

text \<open>The ranges set aside in \<^verbatim>\<open>reserved_allocations\<close> all count as in use.\<close>

definition reserved_live :: "simple_allocator \<Rightarrow> bool" where
  "reserved_live self \<longleftrightarrow>
     (\<forall>i \<in> set (reserved_allocations self). counts (marked_for_deletion (info (inner self))) (value i))"

lemma free_range_apart:
  assumes "layers_wf self" "reserved_live self" "x \<in> set (reserved_allocations self)"
    "\<forall>p. rstart r \<le> p \<and> p < rend r \<longrightarrow> \<not> in_use self p" "rstart r < rend r"
  shows "apart x (item_new (AllocatorKey r) v)"
proof (rule ccontr)
  let ?S = "alloc_sem (block_size self) (device_size self)"
  assume "\<not> apart x (item_new (AllocatorKey r) v)"
  then have lt: "rstart r < aend (key x)" "astart (key x) < rend r" by (auto simp: apart_def item_new_def)
  define p where "p = max (rstart r) (astart (key x))"
  have ok: "layer_ok ?S (reserved_allocations self)" using assms(1) by (auto simp: layers_wf_def alloc_layer_set_def)
  then have "astart (key x) < aend (key x)" using layer_ok_ok [OF ok assms(3)] by simp
  then have "item_at ?S x p = Some (value x)" using lt by (auto simp: item_at_def p_def)
  then have "layer_at ?S (reserved_allocations self) p = Some (value x)" using layer_at_ok_mem [OF ok assms(3)] by blast
  then have "in_use self p" using assms(2,3) by (simp add: in_use_def alloc_layer_set_def reserved_live_def)
  moreover have "rstart r \<le> p" "p < rend r" using lt assms(5) by (auto simp: p_def)
  ultimately show False using assms(4) by blast
qed

text \<open>The transaction carries a mutation of this allocator.\<close>

definition recorded :: "simple_allocator \<Rightarrow> allocator_mutation \<Rightarrow> transaction \<Rightarrow> bool" where
  "recorded self m txn \<longleftrightarrow>
     (\<exists>t \<in> set (mutations txn). tm_object_id t = alloc_object_id self \<and> tm_mutation t = AllocatorM m)"

lemma finish_allocate_claims:
  assumes wf: "layers_wf self" "reserved_live self" "owner \<notin> marked_for_deletion (info (inner self))"
    and len: "0 < len" "device_size self + len \<le> u64_max" "alloc_fuel self \<le> fuel"
      "block_size self dvd len" "block_size self dvd device_size self"
    and txn: "txn_ok txn"
    and run: "find_range fuel len self = Inr r" "finish_allocate owner h r self txn = Inr (r', self', txn')"
  shows "r' = r \<and> layers_wf self' \<and> reserved_live self' \<and> recorded self (Allocate r owner) txn' \<and> txn_ok txn' \<and>
    rstart r < rend r \<and> rend r \<le> device_size self \<and> rend r - rstart r \<le> len \<and>
    block_size self dvd rstart r \<and> block_size self dvd rend r \<and>
    (\<forall>p. in_use self' p \<longleftrightarrow> in_use self p \<or> rstart r \<le> p \<and> p < rend r) \<and>
    (\<forall>p. rstart r \<le> p \<and> p < rend r \<longrightarrow> \<not> in_use self p)"
proof -
  define bs dev where "bs = block_size self" and "dev = device_size self"
  let ?S = "alloc_sem bs dev" and ?i = "item_new (AllocatorKey r) (Abs 1 owner)"
  have r: "rstart r < rend r" "rend r \<le> dev" "rend r - rstart r \<le> len"
    "\<forall>p. rstart r \<le> p \<and> p < rend r \<longrightarrow> \<not> in_use self p"
    using find_range_first_fit [OF wf(1) len(1-3)] run(1) by (auto simp: dev_def)
  have al: "bs dvd rstart r" "bs dvd rend r"
    using find_range_aligned [OF wf(1) run(1) len(3-5)] by (auto simp: bs_def)
  have lok: "layer_ok ?S (reserved_allocations self)" using wf(1) by (auto simp: layers_wf_def alloc_layer_set_def bs_def dev_def)
  have ok: "ok ?S ?i" using r al by (simp add: item_new_def)
  obtain l' where l': "skip_list_insert allocator_ops (reserved_allocations self) ?i = Inr l'" "layer_ok ?S l'"
    "set l' = insert ?i (set (reserved_allocations self))"
    "\<And>p. layer_at ?S l' p = (case item_at ?S ?i p of Some w \<Rightarrow> Some w | None \<Rightarrow> layer_at ?S (reserved_allocations self) p)"
    using skip_list_insert_apart [OF lok ok] free_range_apart [OF wf(1,2) _ r(4,1)] by metis
  obtain i h' txn1 where step: "r' = r" "info i = info (inner self)"
    "drop_hold h' (self\<lparr>inner := i, reserved_allocations := l'\<rparr>) txn1 = Inr (self', txn')"
    "txn_add (alloc_object_id self) (AllocatorM (Allocate r owner)) txn = Inr (None, txn1)"
    using run(2) l'(1)
    by (auto simp: finish_allocate_def bind_res_eq_Inr Let_def dest!: remove_reservation_info split: if_splits)
  note keep = drop_hold_keeps [OF step(3)]
  have layers: "alloc_layer_set self' = l' # layer_set (tree self)" "reserved_allocations self' = l'"
    and dev: "block_size self' = bs" "device_size self' = dev"
      "marked_for_deletion (info (inner self')) = marked_for_deletion (info (inner self))"
    using keep step(2) by (simp_all add: alloc_layer_set_def same_device_def bs_def dev_def)
  have "layers_wf self'" using wf(1) l'(2) layers dev
    by (simp add: layers_wf_def alloc_layer_set_def bs_def dev_def)
  moreover have "reserved_live self'"
    using wf(2,3) l'(3) layers dev by (auto simp: reserved_live_def counts_def item_new_def)
  moreover have "in_use self' p \<longleftrightarrow> in_use self p \<or> rstart r \<le> p \<and> p < rend r" for p
  proof (cases "rstart r \<le> p \<and> p < rend r")
    case True
    then have "layer_at ?S l' p = Some (Abs 1 owner)" by (simp add: l'(4) item_at_def item_new_def)
    then show ?thesis using True wf(3) layers dev by (simp add: in_use_def counts_def)
  next
    case False
    then have "layer_at ?S l' p = layer_at ?S (reserved_allocations self) p" by (auto simp: l'(4) item_at_def item_new_def)
    then show ?thesis using False layers dev by (auto simp: in_use_def alloc_layer_set_def bs_def dev_def)
  qed
  moreover have "recorded self (Allocate r owner) txn'" "txn_ok txn'"
    using txn_add_spec(2,3) [OF step(4) txn] keep(4) by (simp_all add: recorded_def txn_ok_def)
  ultimately show ?thesis using step(1) r al by (simp add: bs_def dev_def)
qed

lemma take_hold_cases:
  assumes "take_hold owner len self txn = Inr (h, len', self1, txn1)"
  obtains res res' where "txn_reservation txn = Some res" "len' = min len (res_amount res - res_reserved res)"
      "self1 = self" "txn1 = txn\<lparr>txn_reservation := Some res'\<rparr>"
  | used left i where "txn_reservation txn = None"
      "round_down (min len (min left (device_size self - used))) (block_size self) = Inr len'"
      "add_reservation (Some owner) len' (inner self) = Inr i" "self1 = self\<lparr>inner := i\<rparr>" "txn1 = txn"
proof (cases "txn_reservation txn")
  case None
  then show ?thesis using assms that(2) by (auto simp: take_hold_def bind_res_eq_Inr u64_sub_def split: if_splits)
next
  case (Some res)
  then show ?thesis using assms that(1)
    by (auto simp: take_hold_def bind_res_eq_Inr res_reserve_at_most_def res_new_def Let_def u64_sub_def split: if_splits)
qed

lemma round_down_le: "round_down x b = Inr y \<Longrightarrow> y \<le> x"
  by (auto simp: round_down_def u64_rem_def u64_sub_def bind_res_eq_Inr split: if_splits)

lemma take_hold_keeps:
  assumes "take_hold owner len self txn = Inr (h, len', self1, txn1)"
  shows "len' \<le> len \<and> tree self1 = tree self \<and> reserved_allocations self1 = reserved_allocations self \<and>
    info (inner self1) = info (inner self) \<and> dropped_allocations (inner self1) = dropped_allocations (inner self) \<and>
    block_size self1 = block_size self \<and> device_size self1 = device_size self \<and>
    alloc_object_id self1 = alloc_object_id self \<and> mutations txn1 = mutations txn"
  using assms
proof (cases rule: take_hold_cases)
  case (2 used left i)
  have "info i = info (inner self)" "dropped_allocations i = dropped_allocations (inner self)"
    using 2(3) by (auto simp: add_reservation_def bind_res_eq_Inr update_owner_def)
  with 2 round_down_le [OF 2(2)] show ?thesis by simp
qed simp

lemma round_down_dvd: "round_down x b = Inr y \<Longrightarrow> b dvd y"
  by (auto simp: round_down_def u64_rem_def u64_sub_def bind_res_eq_Inr dvd_minus_mod split: if_splits)

lemma take_hold_aligned:
  assumes "take_hold owner len self txn = Inr (h, len', self1, txn1)" "block_size self dvd len"
    "\<forall>res. txn_reservation txn = Some res \<longrightarrow> block_size self dvd res_amount res - res_reserved res"
  shows "block_size self dvd len'"
  using assms(1)
proof (cases rule: take_hold_cases)
  case (1 res res')
  then show ?thesis using assms(2,3) by (simp add: min_def)
qed (use round_down_dvd in blast)

lemma u64_sum_le: "u64_sum xs = Inr n \<Longrightarrow> n \<le> u64_max"
  by (induction xs arbitrary: n) (auto simp: bind_res_eq_Inr u64_add_def split: if_splits)

lemma u64_sum_zero: "u64_sum (Inr 0 # xs) = u64_sum xs"
  using u64_sum_le [of xs] by (cases "u64_sum xs") (auto simp: u64_add_def)

lemma u64_sum_insert:
  assumes "bt_ok m" "f d = Inr 0" "f v = f (bt_get_or d m k)"
  shows "u64_sum (map (\<lambda>e. f (snd e)) (bt_insert k v m)) = u64_sum (map (\<lambda>e. f (snd e)) m)"
  using assms
proof (induction m)
  case Nil
  then show ?case using u64_sum_zero [of "[]"] by (simp add: bt_get_or_def del: u64_sum.simps)
next
  case (Cons e m)
  obtain k' v' where e: "e = (k', v')" by fastforce
  have "bt_get_or d (e # m) k = d" if "k < k'"
    using that Cons.prems(1) by (auto simp: bt_get_or_def bt_ok_def e map_of_eq_None_iff split: option.splits dest!: map_of_SomeD)
  moreover have "bt_get_or d (e # m) k = bt_get_or d m k" if "k \<noteq> k'" using that by (simp add: bt_get_or_def e)
  ultimately show ?case using Cons u64_sum_zero
    by (auto simp: e bt_ok_def bt_get_or_def simp del: u64_sum.simps(2)) (simp_all add: e)
qed

lemma take_hold_needs_sync:
  assumes "take_hold owner len self txn = Inr (h, len', self1, txn1)" "bt_ok (owner_bytes (inner self))"
  shows "needs_sync self1 = needs_sync self"
proof -
  have "inner_unavailable_bytes i' = inner_unavailable_bytes (inner self)"
    if "add_reservation (Some owner) n (inner self) = Inr i'" for n i'
  proof -
    have "\<exists>r. i' = update_owner owner (\<lambda>b. b\<lparr>reserved_bytes := r\<rparr>) (inner self)"
      using that by (auto simp: add_reservation_def bind_res_eq_Inr)
    then obtain r where i': "i' = update_owner owner (\<lambda>b. b\<lparr>reserved_bytes := r\<rparr>) (inner self)" ..
    have "u64_sum (map (\<lambda>e. tracking_unavailable_bytes (snd e)) (owner_bytes i')) =
        u64_sum (map (\<lambda>e. tracking_unavailable_bytes (snd e)) (owner_bytes (inner self)))"
      unfolding i' update_owner_def using assms(2)
      by (simp, intro u64_sum_insert [where d = bt_default])
         (simp_all add: tracking_unavailable_bytes_def bt_default_def i64_as_u64_def u64_add_def u64_max_def)
    then show ?thesis by (simp add: inner_unavailable_bytes_def i' update_owner_def)
  qed
  with assms(1) show ?thesis by (cases rule: take_hold_cases) (simp_all add: needs_sync_def)
qed

text \<open>Erasing removes at most one item of a layer.\<close>

lemma skip_list_erase_shape:
  obtains A B where "skip_list_erase ops l k = A @ B" "l = A @ B"
  | A i B where "skip_list_erase ops l k = A @ B" "l = A @ i # B"
proof -
  define A B where "A = takeWhile (\<lambda>i. outside_bound ops (Included k) (key i)) l"
    and "B = dropWhile (\<lambda>i. outside_bound ops (Included k) (key i)) l"
  have l: "l = A @ B" by (simp add: A_def B_def)
  have e: "skip_list_erase ops l k =
      (case iter_get B of Some found \<Rightarrow> if key found = k then A @ iter_advance B else A @ B | None \<Rightarrow> A @ B)"
    by (simp add: skip_list_erase_def iter_mut_new_def split: option.split flip: A_def B_def)
  show thesis
  proof (cases B)
    case Nil
    then show ?thesis using that(1) [of A B] e l by simp
  next
    case (Cons i B')
    then show ?thesis using that(1) [of A B] that(2) [of A B' i] e l by (cases "key i = k") simp_all
  qed
qed

lemma skip_list_erase_keeps:
  assumes "layer_ok S l"
  shows "layer_ok S (skip_list_erase ops l k)" "set (skip_list_erase ops l k) \<subseteq> set l"
    "layer_weight S (skip_list_erase ops l k) \<le> layer_weight S l"
  using assms by (cases rule: skip_list_erase_shape [of ops l k]; auto simp: layer_ok_append list_all_iff)+

lemma erase_all_keeps:
  assumes "layer_ok S l"
  shows "layer_ok S (fold (\<lambda>i l. skip_list_erase ops l (key i)) ds l) \<and>
    set (fold (\<lambda>i l. skip_list_erase ops l (key i)) ds l) \<subseteq> set l \<and>
    layer_weight S (fold (\<lambda>i l. skip_list_erase ops l (key i)) ds l) \<le> layer_weight S l"
  using assms
proof (induction ds arbitrary: l)
  case (Cons i ds)
  have "layer_ok S (skip_list_erase ops l (key i))" by (rule skip_list_erase_keeps [OF Cons.prems])
  from Cons.IH [OF this] skip_list_erase_keeps(2,3) [OF Cons.prems, of ops "key i"] show ?case
    by (auto intro: order_trans)
qed simp

lemma erase_dropped_keeps:
  assumes "layers_wf self" "reserved_live self"
  shows "layers_wf (erase_dropped self)" "reserved_live (erase_dropped self)"
    "alloc_fuel (erase_dropped self) \<le> alloc_fuel self"
proof -
  let ?S = "alloc_sem (block_size self) (device_size self)"
  have "layer_ok ?S (reserved_allocations self)" using assms(1) by (simp add: layers_wf_def alloc_layer_set_def)
  note keep = erase_all_keeps [OF this, of allocator_ops "dropped_allocations (inner self)"]
  show "layers_wf (erase_dropped self)" "reserved_live (erase_dropped self)"
    "alloc_fuel (erase_dropped self) \<le> alloc_fuel self"
    using keep assms by (auto simp: layers_wf_def reserved_live_def alloc_fuel_def alloc_layer_set_def erase_dropped_def)
qed



text \<open>
  Committing an allocation moves its range from the reserved allocations to the tree without a
  moment in which it is free: a byte is in use after the mutation is applied exactly when it was
  before, and the layers stay well formed.
\<close>

lemma apply_allocate_keeps_in_use:
  assumes wf: "layers_wf self" "reserved_live self"
    and i: "\<exists>i \<in> set (reserved_allocations self). key i = AllocatorKey r \<and> value i = Abs 1 owner"
    and fuel: "layer_weight (alloc_sem (block_size self) (device_size self)) (mutable_layer (tree self)) +
      Suc (rend r - rstart r) < fuel"
    and run: "apply_mutation fuel off (AllocatorM (Allocate r owner)) (Live res) self = Inr (self', mode')"
  shows "layers_wf self' \<and> (\<forall>p. in_use self' p \<longleftrightarrow> in_use self p) \<and>
    (\<forall>p. rstart r \<le> p \<and> p < rend r \<longrightarrow>
      layers_at (alloc_sem (block_size self) (device_size self)) (layer_set (tree self')) p = Some (Abs 1 owner))"
proof -
  define bs dev where "bs = block_size self" and "dev = device_size self"
  let ?S = "alloc_sem bs dev" and ?item = "item_new_with_sequence (AllocatorKey r) (Abs 1 owner) off"
  obtain i where i': "i \<in> set (reserved_allocations self)" "key i = AllocatorKey r" "value i = Abs 1 owner" using i by blast
  have lok: "layer_ok ?S (reserved_allocations self)" "layer_ok ?S (mutable_layer (tree self))"
    "\<forall>l \<in> set (immutable_layers (tree self)). layer_ok ?S l"
    using wf(1) by (auto simp: layers_wf_def alloc_layer_set_def layer_set_def bs_def dev_def)
  have ok: "ok ?S ?item" using layer_ok_ok [OF lok(1) i'(1)] i'(2) by (simp add: item_new_with_sequence_def)
  obtain t where t: "tree_merge_into fuel allocator_ops alloc_merge ?item (lower_bound_for_merge_into (key ?item)) (tree self) = Inr t"
    "layer_ok ?S (mutable_layer t)" "immutable_layers t = immutable_layers (tree self)"
    "\<And>p. layers_at ?S (layer_set t) p = (if rstart r \<le> p \<and> p < rend r then Some (Abs 1 owner)
        else layers_at ?S (layer_set (tree self)) p)"
    using alloc_merge_into_ok [OF lok(2) ok, of fuel] fuel by (auto simp: bs_def dev_def item_new_with_sequence_def)
  obtain A B where AB: "reserved_allocations self = A @ i # B"
    "skip_list_erase allocator_ops (reserved_allocations self) (key i) = A @ B" "layer_ok ?S (A @ B)"
    "\<And>p. layer_at ?S (A @ B) p = (if item_at ?S i p = None then layer_at ?S (reserved_allocations self) p else None)"
    using skip_list_erase_mem [OF lok(1) i'(1)] by metis
  have self': "alloc_layer_set self' = (A @ B) # layer_set t" "same_device self self'" "tree self' = t"
    using run t(1) AB(2) i'(2)
    by (auto simp: apply_mutation_def apply_allocate_def Let_def bind_res_eq_Inr is_live_def alloc_layer_set_def
        same_device_def item_new_with_sequence_def split: option.splits)
  have "layers_wf self'"
    using wf(1) AB(3) t(2,3) lok(3) self' by (auto simp: layers_wf_def layer_set_def bs_def dev_def same_device_def)
  moreover have "in_use self' p \<longleftrightarrow> in_use self p" for p
  proof (cases "rstart r \<le> p \<and> p < rend r")
    case True
    then have at: "item_at ?S i p = Some (Abs 1 owner)" using i'(2,3) by (simp add: item_at_def)
    then have "layer_at ?S (reserved_allocations self) p = Some (Abs 1 owner)" using layer_at_ok_mem [OF lok(1) i'(1)] by blast
    then have "layers_at ?S (alloc_layer_set self) p = Some (Abs 1 owner)" by (simp add: alloc_layer_set_def)
    moreover have "layers_at ?S (alloc_layer_set self') p = Some (Abs 1 owner)"
      using True at by (simp add: self'(1) AB(4) t(4))
    ultimately show ?thesis using self'(2) by (simp add: in_use_def same_device_def bs_def dev_def)
  next
    case False
    then have "item_at ?S i p = None" using i'(2) by (auto simp: item_at_def)
    then have "layer_at ?S (A @ B) p = layer_at ?S (reserved_allocations self) p" by (simp add: AB(4))
    moreover have "layers_at ?S (layer_set t) p = layers_at ?S (layer_set (tree self)) p"
      unfolding t(4) using False by auto
    ultimately have "layers_at ?S (alloc_layer_set self') p = layers_at ?S (alloc_layer_set self) p"
      by (simp add: self'(1) alloc_layer_set_def [of self] cong: option.case_cong)
    then show ?thesis using self'(2) by (simp add: in_use_def same_device_def bs_def dev_def)
  qed
  ultimately show ?thesis using t(4) self'(3) by (simp add: bs_def dev_def)
qed

definition example_range :: allocator_item where
  "example_range = \<lparr>key = AllocatorKey (Range 512 1024), value = Abs 1 7, sequence = 0\<rparr>"

definition example_pending :: simple_allocator where
  "example_pending = example_allocator\<lparr>reserved_allocations := [example_range],
     inner := (inner example_allocator)\<lparr>owner_bytes :=
       [(7, \<lparr>allocated_bytes = 0, uncommitted_allocated_bytes = 512, reserved_bytes = 0,
             committed_deallocated_bytes = 0\<rparr>)]\<rparr>\<rparr>"

lemma apply_deallocate_live:
  assumes run: "apply_mutation fuel off (AllocatorM (Deallocate r owner)) (Live res) self = Inr (self1, mode')"
    and l: "skip_list_insert allocator_ops (reserved_allocations self)
      \<lparr>key = AllocatorKey r, value = Abs 1 owner, sequence = off\<rparr> = Inr l"
    and t: "tree_merge_into fuel allocator_ops alloc_merge \<lparr>key = AllocatorKey r, value = ANone, sequence = off\<rparr>
      (lower_bound_for_merge_into (AllocatorKey r)) (tree self) = Inr t"
  shows "reserved_allocations self1 = l \<and> tree self1 = t \<and> same_device self self1 \<and>
    committed_deallocated (inner self1) = committed_deallocated (inner self) @
      [\<lparr>log_file_offset = off, dealloc_range = r, dealloc_owner = owner\<rparr>] \<and>
    committed_marked_for_deletion (inner self1) = committed_marked_for_deletion (inner self)"
proof -
  have add: "info i' = info i \<and> committed_deallocated i' = committed_deallocated i \<and>
      committed_marked_for_deletion i' = committed_marked_for_deletion i"
    if "add_reservation ow n i = Inr i'" for ow n i i'
    using that by (auto simp: add_reservation_def update_owner_def bind_res_eq_Inr split: option.splits)
  show ?thesis
    using run l t
    by (cases res)
      (auto simp: apply_mutation_def apply_deallocate_def is_live_def Let_def bind_res_eq_Inr item_new_with_sequence_def
        same_device_def update_owner_def dest!: add)
qed

lemma apply_totals_keeps:
  "apply_totals ts i = Inr i' \<Longrightarrow> info i' = info i \<and> committed_marked_for_deletion i' = committed_marked_for_deletion i"
  by (induction ts i rule: apply_totals.induct)
    (auto simp: bind_res_eq_Inr update_owner_def split: option.splits)

lemma flush_step:
  assumes "did_flush_device flush_off self = Inr self'"
  shows "reserved_allocations self' = fold (\<lambda>d l. skip_list_erase allocator_ops l (AllocatorKey (dealloc_range d)))
      (fst (flushed_deallocs flush_off (inner self))) (reserved_allocations self) \<and>
    tree self' = tree self \<and> block_size self' = block_size self \<and> device_size self' = device_size self \<and>
    marked_for_deletion (info (inner self')) = marked_for_deletion (info (inner self)) \<union>
      fst ` set (filter (\<lambda>e. fst (snd e) < flush_off) (committed_marked_for_deletion (inner self)))"
proof -
  obtain ds left where ds: "flushed_deallocs flush_off (inner self) = (ds, left)" by fastforce
  with assms obtain totals i where "sum_totals ds [] = Inr totals"
    "apply_totals totals ((inner self)\<lparr>committed_deallocated := left\<rparr>) = Inr i"
    by (auto simp: did_flush_device_def Let_def bind_res_eq_Inr)
  with assms ds apply_totals_keeps [OF this(2)] show ?thesis
    by (simp add: did_flush_device_def Let_def) (elim conjE, drule sym, simp)
qed

text \<open>
  What is pending between a deallocation and the flush of the device: the deallocations are in the order of
  their journal offsets, each still has its range set aside, and the tree has the range as free.
\<close>

definition pending_ok :: "simple_allocator \<Rightarrow> bool" where
  "pending_ok self \<longleftrightarrow>
     (let ds = committed_deallocated (inner self) in
      sorted (map log_file_offset ds) \<and> distinct (map dealloc_range ds) \<and>
      (\<forall>d \<in> set ds.
         (\<exists>x \<in> set (reserved_allocations self). key x = AllocatorKey (dealloc_range d)) \<and>
         (\<forall>p. rstart (dealloc_range d) \<le> p \<and> p < rend (dealloc_range d) \<longrightarrow>
           \<not> used_value (marked_for_deletion (info (inner self)))
               (layers_at (alloc_sem (block_size self) (device_size self)) (layer_set (tree self)) p))))"

lemma erase_mem_set:
  assumes "layer_ok (alloc_sem bs dev) l" "x \<in> set l"
  shows "layer_ok (alloc_sem bs dev) (skip_list_erase allocator_ops l (key x))"
    "set (skip_list_erase allocator_ops l (key x)) = {y \<in> set l. key y \<noteq> key x}"
    "layer_at (alloc_sem bs dev) (skip_list_erase allocator_ops l (key x)) p =
      (if astart (key x) \<le> p \<and> p < aend (key x) then None else layer_at (alloc_sem bs dev) l p)"
proof -
  from skip_list_erase_mem [OF assms] obtain A B where AB: "l = A @ x # B" "skip_list_erase allocator_ops l (key x) = A @ B"
    "layer_ok (alloc_sem bs dev) (A @ B)"
    "\<And>p. layer_at (alloc_sem bs dev) (A @ B) p = (if item_at (alloc_sem bs dev) x p = None then layer_at (alloc_sem bs dev) l p else None)"
    by metis
  show "layer_ok (alloc_sem bs dev) (skip_list_erase allocator_ops l (key x))" using AB(2,3) by simp
  have ne: "astart (key y) < aend (key y)" if "y \<in> set l" for y using layer_ok_ok [OF assms(1) that] by simp
  have "aend (key y) \<le> astart (key x)" if "y \<in> set A" for y using assms(1) that by (auto simp: AB(1) layer_ok_append)
  moreover have "aend (key x) \<le> astart (key y)" if "y \<in> set B" for y using assms(1) that by (auto simp: AB(1) layer_ok_append list_all_iff)
  ultimately have "key y \<noteq> key x" if "y \<in> set (A @ B)" for y
    using that ne [OF assms(2)] by fastforce
  then show "set (skip_list_erase allocator_ops l (key x)) = {y \<in> set l. key y \<noteq> key x}" unfolding AB(2) by (auto simp: AB(1))
  show "layer_at (alloc_sem bs dev) (skip_list_erase allocator_ops l (key x)) p =
      (if astart (key x) \<le> p \<and> p < aend (key x) then None else layer_at (alloc_sem bs dev) l p)"
    unfolding AB(2,4) by (simp add: item_at_def)
qed

lemma erase_deallocs:
  assumes "layer_ok (alloc_sem bs dev) l" "distinct (map dealloc_range ds)"
    "\<forall>d \<in> set ds. \<exists>x \<in> set l. key x = AllocatorKey (dealloc_range d)"
    "l' = fold (\<lambda>d l. skip_list_erase allocator_ops l (AllocatorKey (dealloc_range d))) ds l"
  shows "layer_ok (alloc_sem bs dev) l' \<and> set l' = {x \<in> set l. key x \<notin> AllocatorKey ` dealloc_range ` set ds} \<and>
    (\<forall>p. layer_at (alloc_sem bs dev) l' p =
      (if \<exists>d \<in> set ds. rstart (dealloc_range d) \<le> p \<and> p < rend (dealloc_range d) then None else layer_at (alloc_sem bs dev) l p))"
  using assms
proof (induction ds arbitrary: l)
  case (Cons d ds)
  then obtain x where x: "x \<in> set l" "key x = AllocatorKey (dealloc_range d)" by auto
  let ?l = "skip_list_erase allocator_ops l (AllocatorKey (dealloc_range d))"
  note e = erase_mem_set [OF Cons.prems(1) x(1), unfolded x(2)]
  have "\<exists>x \<in> set ?l. key x = AllocatorKey (dealloc_range d')" if d': "d' \<in> set ds" for d'
  proof -
    have "dealloc_range d' \<noteq> dealloc_range d" using Cons.prems(2) d' by (auto simp: image_iff)
    then show ?thesis using Cons.prems(3) d' unfolding e(2) by fastforce
  qed
  with Cons.IH [OF e(1)] Cons.prems(2,4) show ?case by (auto simp: e(2,3))
qed simp

lemma flush_left:
  assumes "did_flush_device flush_off self = Inr self'"
  shows "committed_deallocated (inner self') = snd (flushed_deallocs flush_off (inner self))"
proof -
  have keeps: "apply_totals ts i = Inr i' \<Longrightarrow> committed_deallocated i' = committed_deallocated i" for ts i i'
    by (induction ts i rule: apply_totals.induct) (auto simp: bind_res_eq_Inr update_owner_def split: option.splits)
  show ?thesis using assms by (auto simp: did_flush_device_def Let_def bind_res_eq_Inr case_prod_beta dest!: keeps)
qed

lemma takeWhile_sorted:
  fixes f :: "'a \<Rightarrow> nat"
  assumes "sorted (map f xs)"
  shows "set (takeWhile (\<lambda>x. f x < b) xs) = {x \<in> set xs. f x < b}" "set (dropWhile (\<lambda>x. f x < b) xs) = {x \<in> set xs. b \<le> f x}"
  using assms by (induction xs) (auto simp: not_less dest: order_trans)

text \<open>A flush of the device frees exactly the ranges deallocated before its journal offset.\<close>

lemma flush_frees_pending:
  assumes "layers_wf self" "pending_ok self" "did_flush_device flush_off self = Inr self'"
    "\<forall>e \<in> set (committed_marked_for_deletion (inner self)). flush_off \<le> fst (snd e)"
  shows "layers_wf self' \<and> pending_ok self' \<and>
    (\<forall>p. in_use self' p \<longleftrightarrow> in_use self p \<and>
      \<not> (\<exists>d \<in> set (committed_deallocated (inner self)). log_file_offset d < flush_off \<and> rstart (dealloc_range d) \<le> p \<and> p < rend (dealloc_range d)))"
proof -
  let ?S = "alloc_sem (block_size self) (device_size self)" and ?cd = "committed_deallocated (inner self)"
  define ds where "ds = takeWhile (\<lambda>d. log_file_offset d < flush_off) ?cd"
  define left where "left = dropWhile (\<lambda>d. log_file_offset d < flush_off) ?cd"
  have cd: "?cd = ds @ left" by (simp add: ds_def left_def)
  note P = assms(2) [unfolded pending_ok_def Let_def]
  have res: "\<exists>x \<in> set (reserved_allocations self). key x = AllocatorKey (dealloc_range d)" if "d \<in> set ?cd" for d using P that by blast
  have free: "\<not> used_value (marked_for_deletion (info (inner self))) (layers_at ?S (layer_set (tree self)) p)"
    if "d \<in> set ?cd" "rstart (dealloc_range d) \<le> p" "p < rend (dealloc_range d)" for d p using P that by blast
  have sets: "set ds = {d \<in> set ?cd. log_file_offset d < flush_off}" "set left = {d \<in> set ?cd. flush_off \<le> log_file_offset d}"
    using takeWhile_sorted [of log_file_offset ?cd flush_off] P by (simp_all add: ds_def left_def)
  have lok: "layer_ok ?S (reserved_allocations self)" "\<forall>l \<in> set (layer_set (tree self)). layer_ok ?S l" "0 < block_size self"
    using assms(1) by (simp_all add: layers_wf_def alloc_layer_set_def)
  have marked: "filter (\<lambda>e. fst (snd e) < flush_off) (committed_marked_for_deletion (inner self)) = []"
    using assms(4) by (auto simp: filter_empty_conv not_less)
  have self': "reserved_allocations self' = fold (\<lambda>d l. skip_list_erase allocator_ops l (AllocatorKey (dealloc_range d))) ds (reserved_allocations self)"
    "tree self' = tree self" "block_size self' = block_size self" "device_size self' = device_size self"
    "marked_for_deletion (info (inner self')) = marked_for_deletion (info (inner self))" "committed_deallocated (inner self') = left"
    using flush_step [OF assms(3)] flush_left [OF assms(3)] marked by (simp_all add: flushed_deallocs_def ds_def left_def)
  have "distinct (map dealloc_range ds)" "\<forall>d \<in> set ds. \<exists>x \<in> set (reserved_allocations self). key x = AllocatorKey (dealloc_range d)"
    using P res unfolding cd by auto
  note e = erase_deallocs [OF lok(1) this self'(1)]
  have wf: "layers_wf self'" using e lok by (auto simp: layers_wf_def alloc_layer_set_def self')
  have "dealloc_range ` set ds \<inter> dealloc_range ` set left = {}" using P unfolding cd by auto
  then have "dealloc_range d \<notin> dealloc_range ` set ds" if "d \<in> set left" for d using that by blast
  then have kept: "AllocatorKey (dealloc_range d) \<notin> AllocatorKey ` dealloc_range ` set ds" if "d \<in> set left" for d
    using that by (auto simp: image_iff)
  have "pending_ok self'"
  proof -
    have "sorted (map log_file_offset left)" "distinct (map dealloc_range left)" using P unfolding cd by (auto simp: sorted_append)
    moreover have "\<exists>x \<in> set (reserved_allocations self'). key x = AllocatorKey (dealloc_range d)" if d: "d \<in> set left" for d
    proof -
      obtain x where "x \<in> set (reserved_allocations self)" "key x = AllocatorKey (dealloc_range d)" using res [of d] d unfolding cd by auto
      then show ?thesis using kept [OF d] e by (intro bexI [of _ x]) simp_all
    qed
    moreover have "set left \<subseteq> set ?cd" unfolding cd by auto
    ultimately show ?thesis using P unfolding pending_ok_def Let_def self' by blast
  qed
  moreover have "in_use self' p \<longleftrightarrow> in_use self p \<and> \<not> (\<exists>d \<in> set ds. rstart (dealloc_range d) \<le> p \<and> p < rend (dealloc_range d))" for p
  proof (cases "\<exists>d \<in> set ds. rstart (dealloc_range d) \<le> p \<and> p < rend (dealloc_range d)")
    case True
    then have "layer_at ?S (reserved_allocations self') p = None" using e by auto
    moreover have "\<not> used_value (marked_for_deletion (info (inner self))) (layers_at ?S (layer_set (tree self)) p)"
      using True free [where p = p] unfolding cd by auto
    ultimately show ?thesis using True by (simp add: in_use_def [of self'] alloc_layer_set_def self')
  next
    case False
    then have "layer_at ?S (reserved_allocations self') p = layer_at ?S (reserved_allocations self) p" using e by auto
    then show ?thesis using False by (simp add: in_use_def alloc_layer_set_def self')
  qed
  ultimately show ?thesis using wf by (auto simp: sets(1))
qed

lemma pending_apart:
  assumes "pending_ok self" "layers_wf self" "d \<in> set (committed_deallocated (inner self))"
    "\<forall>x \<in> set (reserved_allocations self). aend (key x) \<le> a \<or> b \<le> astart (key x)" "a \<le> p" "p < b"
  shows "\<not> (rstart (dealloc_range d) \<le> p \<and> p < rend (dealloc_range d))"
proof -
  obtain x where "x \<in> set (reserved_allocations self)" "key x = AllocatorKey (dealloc_range d)"
    using assms(1,3) by (auto simp: pending_ok_def Let_def)
  then show ?thesis using assms(4-6) by fastforce
qed

text \<open>
  C30: a deallocated range is not reused early. When a deallocation is applied live, whatever else the
  allocator has set aside and however many deallocations wait, every byte is in use exactly if it was before, so no
  byte of the range can be allocated. A flush of the device then frees exactly the ranges of the deallocations
  whose journal offset it covers: the bytes of this one are in use as long as the flush is not past its
  offset, and free after one that is. What has to hold of the waiting deallocations (\<open>pending_ok\<close>) holds after
  both. The range is in use and not set aside by a transaction, its owner is not being deleted, journal offsets
  do not decrease, and the flush is one that completes no deletion of an owner.
\<close>

theorem dealloc_not_reused_before_flush:
  assumes wf: "layers_wf self" "pending_ok self" "owner \<notin> marked_for_deletion (info (inner self))"
      "\<forall>d \<in> set (committed_deallocated (inner self)). log_file_offset d \<le> off"
    and r: "rstart r < rend r" "rend r \<le> device_size self" "block_size self dvd rstart r" "block_size self dvd rend r"
      "\<forall>x \<in> set (reserved_allocations self). aend (key x) \<le> rstart r \<or> rend r \<le> astart (key x)"
    and fuel: "layer_weight (alloc_sem (block_size self) (device_size self)) (mutable_layer (tree self)) +
      Suc (rend r - rstart r) < fuel"
    and used: "\<forall>p. rstart r \<le> p \<and> p < rend r \<longrightarrow> in_use self p"
    and run: "apply_mutation fuel off (AllocatorM (Deallocate r owner)) (Live res) self = Inr (self1, mode')"
  shows "layers_wf self1 \<and> pending_ok self1 \<and> (\<forall>p. in_use self1 p \<longleftrightarrow> in_use self p) \<and>
    (\<forall>flush_off self2. did_flush_device flush_off self1 = Inr self2 \<and>
        (\<forall>e \<in> set (committed_marked_for_deletion (inner self1)). flush_off \<le> fst (snd e)) \<longrightarrow>
      layers_wf self2 \<and> pending_ok self2 \<and>
      (\<forall>p. in_use self2 p \<longleftrightarrow> in_use self1 p \<and>
        \<not> (\<exists>d \<in> set (committed_deallocated (inner self1)).
             log_file_offset d < flush_off \<and> rstart (dealloc_range d) \<le> p \<and> p < rend (dealloc_range d))) \<and>
      (\<forall>p. rstart r \<le> p \<and> p < rend r \<longrightarrow> (in_use self2 p \<longleftrightarrow> flush_off \<le> off)))"
proof -
  define bs dev where "bs = block_size self" and "dev = device_size self"
  let ?S = "alloc_sem bs dev" and ?item = "item_new_with_sequence (AllocatorKey r) ANone off"
  define i where "i = \<lparr>key = AllocatorKey r, value = Abs 1 owner, sequence = off\<rparr>"
  have lok: "layer_ok ?S (mutable_layer (tree self))" "\<forall>l \<in> set (immutable_layers (tree self)). layer_ok ?S l"
    "layer_ok ?S (reserved_allocations self)"
    using wf(1) by (auto simp: layers_wf_def alloc_layer_set_def layer_set_def bs_def dev_def)
  have ok: "ok ?S ?item" "ok ?S i" using r by (simp_all add: item_new_with_sequence_def i_def bs_def dev_def)
  obtain t where t: "tree_merge_into fuel allocator_ops alloc_merge ?item (lower_bound_for_merge_into (key ?item)) (tree self) = Inr t"
    "layer_ok ?S (mutable_layer t)" "immutable_layers t = immutable_layers (tree self)"
    "\<And>p. layers_at ?S (layer_set t) p = (if rstart r \<le> p \<and> p < rend r then Some ANone
        else layers_at ?S (layer_set (tree self)) p)"
    using alloc_merge_into_ok [OF lok(1) ok(1), of fuel] fuel by (auto simp: bs_def dev_def item_new_with_sequence_def)
  have "\<forall>x \<in> set (reserved_allocations self). apart x i" using r(5) by (simp add: apart_def i_def)
  from skip_list_insert_apart [OF lok(3) ok(2) this] obtain l where l: "skip_list_insert allocator_ops (reserved_allocations self) i = Inr l"
    "layer_ok ?S l" "set l = insert i (set (reserved_allocations self))"
    "\<And>p. layer_at ?S l p = (case item_at ?S i p of Some w \<Rightarrow> Some w | None \<Rightarrow> layer_at ?S (reserved_allocations self) p)" by metis
  let ?d = "\<lparr>log_file_offset = off, dealloc_range = r, dealloc_owner = owner\<rparr>"
  have self1: "reserved_allocations self1 = l" "tree self1 = t" "same_device self self1"
    "committed_deallocated (inner self1) = committed_deallocated (inner self) @ [?d]"
    using apply_deallocate_live [OF run, of l t] t(1) l(1) by (simp_all add: item_new_with_sequence_def i_def)
  have dev: "block_size self1 = bs" "device_size self1 = dev"
    "marked_for_deletion (info (inner self1)) = marked_for_deletion (info (inner self))"
    using self1(3) by (simp_all add: same_device_def bs_def dev_def)
  have i_at: "item_at ?S i p = (if rstart r \<le> p \<and> p < rend r then Some (Abs 1 owner) else None)" for p
    by (simp add: i_def item_at_def)
  have wf1: "layers_wf self1"
    using wf(1) t(2,3) lok(2) l(2) self1 dev by (auto simp: layers_wf_def alloc_layer_set_def layer_set_def bs_def dev_def)
  have use1: "in_use self1 p \<longleftrightarrow> in_use self p" for p
    using used wf(3) t(4) [of p] by (cases "rstart r \<le> p \<and> p < rend r")
      (simp_all add: in_use_def [of self1] dev self1 alloc_layer_set_def l(4) i_at counts_def in_use_def [of self] cong: option.case_cong flip: bs_def dev_def)
  have apart: "\<not> (rstart (dealloc_range d) \<le> p \<and> p < rend (dealloc_range d))"
    if "d \<in> set (committed_deallocated (inner self))" "rstart r \<le> p" "p < rend r" for d p
    using pending_apart [OF wf(2,1) that(1) r(5) that(2,3)] .
  have "dealloc_range d \<noteq> r" if "d \<in> set (committed_deallocated (inner self))" for d
    using apart [OF that, of "rstart r"] r(1) by auto
  then have pend1: "pending_ok self1"
    using wf(2,4) by (auto simp: pending_ok_def Let_def self1 dev l(3) sorted_append t(4) counts_def i_def simp flip: bs_def dev_def)
  have covered: "(in_use self1 p \<and> \<not> (\<exists>d \<in> set (committed_deallocated (inner self1)).
      log_file_offset d < flush_off \<and> rstart (dealloc_range d) \<le> p \<and> p < rend (dealloc_range d))) \<longleftrightarrow> flush_off \<le> off"
    if "rstart r \<le> p" "p < rend r" for p flush_off
    using that apart [OF _ that] used by (auto simp: use1 self1(4) not_le)
  have "layers_wf self2 \<and> pending_ok self2 \<and>
      (\<forall>p. in_use self2 p \<longleftrightarrow> in_use self1 p \<and>
        \<not> (\<exists>d \<in> set (committed_deallocated (inner self1)).
             log_file_offset d < flush_off \<and> rstart (dealloc_range d) \<le> p \<and> p < rend (dealloc_range d))) \<and>
      (\<forall>p. rstart r \<le> p \<and> p < rend r \<longrightarrow> (in_use self2 p \<longleftrightarrow> flush_off \<le> off))"
    if "did_flush_device flush_off self1 = Inr self2"
      "\<forall>e \<in> set (committed_marked_for_deletion (inner self1)). flush_off \<le> fst (snd e)" for flush_off self2
    using flush_frees_pending [OF wf1 pend1 that] covered [of _ flush_off] by presburger
  then show ?thesis using wf1 pend1 use1 by blast
qed

definition example_committed :: simple_allocator where
  "example_committed = example_allocator\<lparr>tree := \<lparr>mutable_layer = [example_range], immutable_layers = []\<rparr>,
     inner := (inner example_allocator)\<lparr>owner_bytes :=
       [(7, \<lparr>allocated_bytes = 512, uncommitted_allocated_bytes = 0, reserved_bytes = 0,
             committed_deallocated_bytes = 0\<rparr>)]\<rparr>\<rparr>"

theorem dealloc_not_reused_before_flush_witness:
  "\<exists>self1 mode' self2.
    apply_mutation 2000 5 (AllocatorM (Deallocate (Range 512 1024) 7)) (Live None) example_committed = Inr (self1, mode') \<and>
    did_flush_device 6 self1 = Inr self2 \<and> in_use self1 600 \<and> \<not> in_use self2 600"
proof -
  note defs = example_committed_def example_range_def example_allocator_def alloc_layer_set_def layer_set_def tree_new_def
  have sizes: "block_size example_committed = 512" "device_size example_committed = 8192"
    "reserved_allocations example_committed = []" by (simp_all add: defs)
  let ?item = "item_new_with_sequence (AllocatorKey (Range 512 1024)) ANone 5"
  have "layer_ok (alloc_sem 512 8192) (mutable_layer (tree example_committed))" "ok (alloc_sem 512 8192) ?item"
    "layer_weight (alloc_sem 512 8192) (mutable_layer (tree example_committed)) + weight (alloc_sem 512 8192) ?item < 2000"
    by (simp_all add: defs item_new_with_sequence_def)
  from alloc_merge_into_ok [OF this] obtain t where t: "tree_merge_into 2000 allocator_ops alloc_merge ?item
    (lower_bound_for_merge_into (key ?item)) (tree example_committed) = Inr t" by blast
  define i where "i = (inner example_committed)\<lparr>owner_bytes :=
      [(7, \<lparr>allocated_bytes = 0, uncommitted_allocated_bytes = 0, reserved_bytes = 0, committed_deallocated_bytes = 512\<rparr>)],
    committed_deallocated := [\<lparr>log_file_offset = 5, dealloc_range = Range 512 1024, dealloc_owner = 7\<rparr>]\<rparr>"
  define self1 where "self1 = example_committed\<lparr>inner := i, tree := t, reserved_allocations :=
    [?item\<lparr>value := Abs 1 7\<rparr>]\<rparr>"
  have run: "apply_mutation 2000 5 (AllocatorM (Deallocate (Range 512 1024) 7)) (Live None) example_committed =
      Inr (self1, Live None)"
    using t sizes
    by (simp add: apply_mutation_def apply_deallocate_def unwrap_length_def range_length_def range_is_valid_def u64_sub_def
        u64_add_def u64_max_def Let_def is_live_def skip_list_insert_def iter_mut_new_def self1_def i_def update_owner_def
        bt_get_or_def i64_saturate_def i64_max_def i64_min_def u64_as_i64_def)
      (simp add: defs)
  obtain self2 where flush: "did_flush_device 6 self1 = Inr self2"
    by (simp add: did_flush_device_def flushed_deallocs_def self1_def i_def range_length_def range_is_valid_def u64_sub_def
        u64_add_def u64_max_def bt_get_or_def update_owner_def Let_def)
  have wf: "layers_wf example_committed" "pending_ok example_committed" "7 \<notin> marked_for_deletion (info (inner example_committed))"
    "\<forall>d \<in> set (committed_deallocated (inner example_committed)). log_file_offset d \<le> 5"
    by (simp_all add: layers_wf_def pending_ok_def defs)
  have r: "rstart (Range 512 1024) < rend (Range 512 1024)" "rend (Range 512 1024) \<le> device_size example_committed"
    "block_size example_committed dvd rstart (Range 512 1024)" "block_size example_committed dvd rend (Range 512 1024)"
    "\<forall>x \<in> set (reserved_allocations example_committed). aend (key x) \<le> rstart (Range 512 1024) \<or> rend (Range 512 1024) \<le> astart (key x)"
    "layer_weight (alloc_sem (block_size example_committed) (device_size example_committed))
      (mutable_layer (tree example_committed)) + Suc (rend (Range 512 1024) - rstart (Range 512 1024)) < 2000"
    by (simp_all add: defs)
  have use: "in_use example_committed p \<longleftrightarrow> 512 \<le> p \<and> p < 1024" for p
    by (simp add: in_use_def defs item_at_def counts_def)
  then have "\<forall>p. rstart (Range 512 1024) \<le> p \<and> p < rend (Range 512 1024) \<longrightarrow> in_use example_committed p" by simp
  note D = dealloc_not_reused_before_flush [OF wf r this run]
  have "\<forall>e \<in> set (committed_marked_for_deletion (inner self1)). 6 \<le> fst (snd e)" by (simp add: self1_def i_def defs)
  with D flush have "\<forall>p. rstart (Range 512 1024) \<le> p \<and> p < rend (Range 512 1024) \<longrightarrow> (in_use self2 p \<longleftrightarrow> 6 \<le> (5 :: nat))" by blast
  from spec [OF this, of 600] have "\<not> in_use self2 600" by simp
  moreover from D have "in_use self1 600 \<longleftrightarrow> in_use example_committed 600" by blast
  ultimately show ?thesis using use [of 600] run flush by auto
qed

end
