(* ===== verification/Allocator_Flush.thy ===== *)
theory Allocator_Flush
  imports Allocator_Correct
begin

text \<open>
  Flushing the allocator: the layer it writes says of every byte of the device what the sealed layers
  said, and what happens to changes of the allocator's info made while the flush is under way.
\<close>

lemma layer_at_value:
  "layer_at (alloc_sem bs dev) l p = Some v \<Longrightarrow> \<exists>x \<in> set l. value x = v"
  by (induction l) (auto simp: item_at_def split: option.splits if_splits)

lemma layers_at_seal: "layers_at S (layer_set (seal t)) p = layers_at S (layer_set t) p"
  by (simp add: layer_set_def seal_def)

text \<open>
  The flush with whatever the info and the rest of the mutable state have become by the time the commit's
  callback runs: \<^term>\<open>i\<close> is the info as it was copied, \<^term>\<open>j\<close> the inner state the callback finds.
\<close>

lemma alloc_flush_in_use:
  assumes wf: "layers_wf self" "reserved_live self" "alloc_fuel self \<le> fuel"
  shows "\<exists>new self'. alloc_flush_layer fuel (apply_begin_flush self) = Inr new \<and>
    self' = alloc_flush_committed (alloc_flush_new_info oid i) new ((apply_begin_flush self)\<lparr>inner := j\<rparr>) \<and>
    layers_wf self' \<and> coalesced new \<and> immutable_layers (tree self') = [new] \<and> (\<forall>p. in_use self' p \<longleftrightarrow> in_use self p)"
proof -
  let ?S = "alloc_sem (block_size self) (device_size self)"
  define marked where "marked = marked_for_deletion (info (inner self))"
  define sealed where "sealed = mutable_layer (tree self) # immutable_layers (tree self)"
  have ok: "\<forall>l \<in> set sealed. layer_ok ?S l" "layer_ok ?S (reserved_allocations self)"
    using wf(1) by (auto simp: layers_wf_def alloc_layer_set_def layer_set_def sealed_def)
  have "sum_list (map (layer_weight ?S) sealed) + 1 < fuel"
    using wf(3) by (simp add: alloc_fuel_def alloc_layer_set_def layer_set_def sealed_def)
  from alloc_iter_unbounded [OF ok(1) this] obtain items where items: "alloc_iter fuel sealed Unbounded marked = Inr items"
    "layer_ok ?S items"
    "\<And>p. layer_at ?S items p = (case layers_at ?S sealed p of None \<Rightarrow> None | Some v \<Rightarrow> if counts marked v then Some v else None)"
    by blast
  obtain new where new: "bind_res (coalescing_new items) (coalescing_drain (length items + 2)) = Inr new" "layer_ok ?S new"
    "coalesced new" "\<And>p. layer_at ?S new p = layer_at ?S items p"
    using coalescing_drains [OF items(2), of "length items + 2"] by auto
  have run: "alloc_flush_layer fuel (apply_begin_flush self) = Inr new"
    using items(1) new(1)
    by (simp add: alloc_flush_layer_def apply_begin_flush_def immutable_layer_set_def seal_def Let_def sealed_def marked_def)
  define self' where "self' = alloc_flush_committed (alloc_flush_new_info oid i) new ((apply_begin_flush self)\<lparr>inner := j\<rparr>)"
  have f: "block_size self' = block_size self" "device_size self' = device_size self" "marked_for_deletion (info (inner self')) = {}"
    "alloc_layer_set self' = [reserved_allocations self, [], new]" "immutable_layers (tree self') = [new]"
    by (simp_all add: self'_def alloc_flush_committed_def alloc_flush_new_info_def apply_begin_flush_def Let_def alloc_layer_set_def
        layer_set_def set_layers_def seal_def)
  have "layers_wf self'" using wf(1) ok(2) new(2) by (simp add: layers_wf_def f)
  moreover have "in_use self' p \<longleftrightarrow> in_use self p" for p
  proof -
    have after: "in_use self' p = used_value {} (layers_at ?S [reserved_allocations self, [], new] p)"
      by (simp add: in_use_def f)
    have before: "in_use self p = used_value marked (layers_at ?S (reserved_allocations self # sealed) p)"
      by (simp add: in_use_def alloc_layer_set_def layer_set_def sealed_def marked_def)
    show ?thesis
    proof (cases "layer_at ?S (reserved_allocations self) p")
      case None
      then show ?thesis unfolding after before
        using new(4) [of p] items(3) [of p]
        by (simp del: layers_at.simps(2) add: layers_at.simps(2) [of _ "reserved_allocations self"] layers_at.simps(2) [of _ new]
            layers_at.simps(2) [of _ "[]"] counts_def split: option.splits allocator_value.splits)
    next
      case (Some v)
      then obtain x where "x \<in> set (reserved_allocations self)" "value x = v"
        using layer_at_value [of "block_size self" "device_size self" "reserved_allocations self" p v] by blast
      then have "counts marked v" using wf(2) by (auto simp: reserved_live_def marked_def)
      then show ?thesis unfolding after before using Some by (simp add: counts_def split: allocator_value.splits)
    qed
  qed
  ultimately show ?thesis using run new(3) f(5) by (intro exI [of _ new] exI [of _ self']) (simp add: self'_def)
qed

text \<open>
  C28: flushing the allocator changes nothing about which bytes are in use. When the layers have been
  sealed, compacting them succeeds, and once the new layer and the new info, in which no owner is marked
  for deletion any more, are in place, the layers are well formed, there is one persistent layer without
  records that could be joined, and exactly the same bytes are in use as before the flush.
\<close>

theorem alloc_flush_keeps_in_use:
  assumes wf: "layers_wf self" "reserved_live self" "alloc_fuel self \<le> fuel"
  shows "\<exists>new self'. alloc_flush_layer fuel (apply_begin_flush self) = Inr new \<and>
    self' = alloc_flush_committed (alloc_flush_new_info oid (info (inner (apply_begin_flush self)))) new (apply_begin_flush self) \<and>
    layers_wf self' \<and> coalesced new \<and> immutable_layers (tree self') = [new] \<and> (\<forall>p. in_use self' p \<longleftrightarrow> in_use self p)"
  using alloc_flush_in_use [OF assms, of oid "info (inner (apply_begin_flush self))" "inner (apply_begin_flush self)"] by simp

theorem alloc_flush_keeps_in_use_witness:
  "\<exists>self new self'. in_use self 600 \<and> \<not> in_use self 1024 \<and> alloc_flush_layer 100000 (apply_begin_flush self) = Inr new \<and>
    self' = alloc_flush_committed (alloc_flush_new_info 9 (info (inner (apply_begin_flush self)))) new (apply_begin_flush self) \<and>
    in_use self' 600 \<and> \<not> in_use self' 1024"
proof -
  define a where "a = example_allocator\<lparr>tree := \<lparr>mutable_layer = [item_new (AllocatorKey (Range 512 1024)) (Abs 1 7)],
    immutable_layers = []\<rparr>\<rparr>"
  note defs = a_def example_allocator_def alloc_layer_set_def layer_set_def tree_new_def
  have "layers_wf a" "reserved_live a" "alloc_fuel a \<le> 100000"
    by (simp_all add: layers_wf_def reserved_live_def alloc_fuel_def defs u64_max_def item_new_def)
  note claim = alloc_flush_keeps_in_use [OF this, of 9]
  have "in_use a 600" "\<not> in_use a 1024" by (simp_all add: in_use_def defs item_at_def item_new_def counts_def)
  with claim show ?thesis by blast
qed

text \<open>
  C37: an owner that is marked for deletion while the allocator is being flushed comes back. The layer is
  written with the owners marked at the time; when a flush of the device marks another owner before the
  info is copied, the copy's empty set of marked owners is put in place all the same, and the bytes of
  that owner, which were free, are in use again.
\<close>

theorem alloc_flush_resurrects_owner:
  assumes "layers_wf self" "reserved_live self" "alloc_fuel self \<le> fuel" "committed_deallocated (inner self) = []"
    and "(owner, offset, bytes) \<in> set (committed_marked_for_deletion (inner self))" "offset < flush_offset"
  shows "\<exists>new marked self'. alloc_flush_layer fuel (apply_begin_flush self) = Inr new \<and>
    did_flush_device flush_offset (apply_begin_flush self) = Inr marked \<and> owner \<in> marked_for_deletion (info (inner marked)) \<and>
    self' = alloc_flush_committed (alloc_flush_new_info oid (info (inner marked))) new marked \<and>
    owner \<notin> marked_for_deletion (info (inner self')) \<and> (\<forall>p. in_use self' p \<longleftrightarrow> in_use self p)"
proof -
  obtain j where j: "did_flush_device flush_offset (apply_begin_flush self) = Inr ((apply_begin_flush self)\<lparr>inner := j\<rparr>)"
    "owner \<in> marked_for_deletion (info j)"
    using assms(4-6) by (force simp: did_flush_device_def flushed_deallocs_def apply_begin_flush_def Let_def)
  show ?thesis
    using alloc_flush_in_use [OF assms(1-3), of oid "info j" j] j
    by (auto simp: alloc_flush_committed_def alloc_flush_new_info_def)
qed

theorem alloc_flush_resurrects_owner_witness:
  "\<exists>self new marked self'. alloc_flush_layer 100000 (apply_begin_flush self) = Inr new \<and>
    did_flush_device 50 (apply_begin_flush self) = Inr marked \<and> 7 \<in> marked_for_deletion (info (inner marked)) \<and>
    self' = alloc_flush_committed (alloc_flush_new_info 9 (info (inner marked))) new marked \<and> in_use self' 600"
proof -
  define a where "a = example_allocator\<lparr>tree := \<lparr>mutable_layer = [item_new (AllocatorKey (Range 512 1024)) (Abs 1 7)],
    immutable_layers = []\<rparr>, inner := (inner example_allocator)\<lparr>committed_marked_for_deletion := [(7, 40, 512)]\<rparr>\<rparr>"
  note defs = a_def example_allocator_def alloc_layer_set_def layer_set_def tree_new_def item_new_def
  have "layers_wf a" "reserved_live a" "alloc_fuel a \<le> 100000" "committed_deallocated (inner a) = []"
    "(7, 40, 512) \<in> set (committed_marked_for_deletion (inner a))" "(40::nat) < 50"
    by (simp_all add: layers_wf_def reserved_live_def alloc_fuel_def defs u64_max_def)
  note claim = alloc_flush_resurrects_owner [OF this, of 9]
  have "in_use a 600" by (simp add: in_use_def defs item_at_def counts_def)
  with claim show ?thesis by blast
qed

text \<open>In the same way a limit set between the copy of the info and the callback is lost.\<close>

lemma alloc_flush_loses_limit:
  assumes "apply_mutation fuel offset (AllocatorM (SetLimit owner bytes)) mode self = Inr (self', mode')"
  shows "owner_id_limit_bytes owner (inner (alloc_flush_committed (alloc_flush_new_info oid (info (inner self))) new self')) =
    owner_id_limit_bytes owner (inner self)"
  using assms by (simp add: alloc_flush_committed_def alloc_flush_new_info_def owner_id_limit_bytes_def)

end
