(* ===== verification/Object_Merge.thy ===== *)
theory Object_Merge
  imports Object_Record Lsm_Merge_Into
begin

text \<open>
  The merge function of object stores (\<^verbatim>\<open>src/src/object_store/merge.rs\<close>) and its correctness: for
  records other than tombstones it meets the contract of the LSM tree, where a point is a key or a
  byte of an attribute and the meaning of a byte is what the newest extent says of it.
\<close>

section \<open>The merge function\<close>

definition merge_deleted_extents ::
  "nat \<Rightarrow> nat \<Rightarrow> extent_key \<Rightarrow> extent_key \<Rightarrow> nat \<Rightarrow> (object_key, 'wk object_value) merge_result" where
  "merge_deleted_extents oid attribute_id left_key right_key s =
     (if rend (range left_key) < rstart (range right_key) then EmitLeft
      else if rend (range left_key) \<ge> rend (range right_key) then Other None Keep Discard
      else Other None Discard
        (Replace (item_new_with_sequence
          (object_key_extent oid attribute_id (Range (rstart (range left_key)) (rend (range right_key))))
          value_deleted_extent s)))"

text \<open>The debug assertions are branches that panic.\<close>

definition merge_extents ::
  "nat \<Rightarrow> nat \<Rightarrow> nat \<times> 'wk object_item \<Rightarrow> nat \<times> 'wk object_item \<Rightarrow> extent_key \<Rightarrow> extent_key \<Rightarrow>
   extent_value \<Rightarrow> extent_value \<Rightarrow> (object_key, 'wk object_value) merge_result res" where
  "merge_extents oid attribute_id left right left_key right_key left_value right_value =
     (let (li, l) = left; (ri, r) = right;
          ls = rstart (range left_key); le = rend (range left_key);
          rs = rstart (range right_key); re = rend (range right_key);
          s = min (sequence l) (sequence r)
      in bind_res (ensure (ri \<noteq> li) Panic) (\<lambda>_.
        if left_value = ExtentNone \<and> right_value = ExtentNone \<and> (li = Suc ri \<or> ri = Suc li)
        then Inr (merge_deleted_extents oid attribute_id left_key right_key s)
        else if le \<le> rs then Inr EmitLeft
        else if ri < li
        then bind_res (ensure (ls < rs) Panic) (\<lambda>_.
             bind_res (u64_sub le ls) (\<lambda>len. bind_res (u64_sub rs ls) (\<lambda>amount.
             bind_res (shrunk left_value len amount) (\<lambda>v1.
             bind_res (offset_by left_value amount len) (\<lambda>v2.
               Inr (Other
                 (Some (item_new_with_sequence (object_key_extent oid attribute_id (Range ls rs)) (VExtent v1) s))
                 (Replace (item_new_with_sequence (object_key_extent oid attribute_id (Range rs le)) (VExtent v2) s))
                 Keep))))))
        else if le \<ge> re then Inr (Other None Keep Discard)
        else bind_res (u64_sub le rs) (\<lambda>amount. bind_res (u64_sub re rs) (\<lambda>len.
             bind_res (offset_by right_value amount len) (\<lambda>v.
               Inr (Other None Keep
                 (Replace (item_new_with_sequence (object_key_extent oid attribute_id (Range le re)) (VExtent v) s))))))))"

definition object_merge :: "(object_key, 'wk object_value) merge_fn" where
  "object_merge left right =
     (let (li, l) = left; (ri, r) = right in
      if object_id (key l) \<noteq> object_id (key r) then Inr EmitLeft
      else case (item_as_extent l, item_as_extent r) of
        (Some (oid, left_attr_id, left_key, left_value), Some (_, right_attr_id, right_key, right_value)) \<Rightarrow>
          if left_attr_id = right_attr_id
          then merge_extents oid left_attr_id left right left_key right_key left_value right_value
          else if key l = key r
          then bind_res (ensure (li < ri) Panic) (\<lambda>_. Inr (Other None Keep Discard))
          else Inr EmitLeft
      | _ \<Rightarrow>
          if is_tombstone l
          then bind_res (ensure (li < ri) Panic) (\<lambda>_. Inr (Other None Keep Discard))
          else if key l = key r
          then bind_res (ensure (li < ri) Panic) (\<lambda>_. Inr (Other None Keep Discard))
          else Inr EmitLeft)"

section \<open>Points\<close>

text \<open>
  A point is a list of numbers in lexicographic order: the object, the kind of record, and what
  identifies the record; for an extent that includes the offset of a byte. A record that is not an
  extent covers one point; the least list after \<open>xs\<close> is \<open>xs @ [0]\<close>.
\<close>

definition key_prefix :: "object_key \<Rightarrow> nat list" where
  "key_prefix k =
     object_id k # variant_index (data k) #
     (case data k of
        Object \<Rightarrow> [] | Keys \<Rightarrow> []
      | Attribute a Size \<Rightarrow> [a, 0]
      | Attribute a (Extent _) \<Rightarrow> [a, 1]
      | Child n \<Rightarrow> map of_char n
      | GraveyardEntry i \<Rightarrow> [i])"

definition key_lo :: "object_key \<Rightarrow> nat list" where
  "key_lo k = (case data k of Attribute _ (Extent e) \<Rightarrow> key_prefix k @ [rstart (range e)] | _ \<Rightarrow> key_prefix k)"

definition key_hi :: "object_key \<Rightarrow> nat list" where
  "key_hi k = (case data k of Attribute _ (Extent e) \<Rightarrow> key_prefix k @ [rend (range e)] | _ \<Rightarrow> key_prefix k @ [0])"

datatype 'wk meaning = Byte byte_info | Record "'wk object_value"

definition object_val :: "nat \<Rightarrow> 'wk object_item \<Rightarrow> nat list \<Rightarrow> 'wk meaning" where
  "object_val bs i p =
     (case (data (key i), value i) of
        (Attribute _ (Extent e), VExtent v) \<Rightarrow> Byte (byte_at bs v (p ! 4 - rstart (range e)))
      | _ \<Rightarrow> Record (value i))"

definition object_ok :: "nat \<Rightarrow> 'wk object_item \<Rightarrow> bool" where
  "object_ok bs i =
     (0 < bs \<and>
      (case data (key i) of
         Attribute _ (Extent e) \<Rightarrow>
           rstart (range e) < rend (range e) \<and> rend (range e) < u64_max \<and>
           bs dvd rstart (range e) \<and> bs dvd rend (range e) \<and>
           (case value i of VExtent v \<Rightarrow> value_fits bs (rend (range e) - rstart (range e)) v | _ \<Rightarrow> False)
       | _ \<Rightarrow> \<not> is_tombstone i))"

definition object_weight :: "'wk object_item \<Rightarrow> nat" where
  "object_weight i =
     (case data (key i) of Attribute _ (Extent e) \<Rightarrow> Suc (rend (range e) - rstart (range e)) | _ \<Rightarrow> 1)"

definition object_sem :: "nat \<Rightarrow> (object_key, 'wk object_value, nat list, 'wk meaning) msem" where
  "object_sem bs =
     \<lparr>lo = key_lo, hi = key_hi, tie = (\<lambda>_. 0), val = object_val bs, ok = object_ok bs,
      weight = object_weight\<rparr>"

lemma object_sem_simps [simp]:
  "lo (object_sem bs) = key_lo" "hi (object_sem bs) = key_hi" "tie (object_sem bs) k = 0"
  "val (object_sem bs) = object_val bs" "ok (object_sem bs) = object_ok bs"
  "weight (object_sem bs) = object_weight"
  by (simp_all add: object_sem_def)

section \<open>Points and comparisons\<close>

lemma snoc_zero_le: "xs < ys \<Longrightarrow> xs @ [0] \<le> ys" for xs ys :: "nat list"
proof (induction xs arbitrary: ys)
  case Nil
  then show ?case by (cases ys) auto
next
  case (Cons x xs)
  then show ?case by (cases ys) auto
qed

lemma less_snoc [simp]: "xs < xs @ [x]" for xs :: "nat list"
  by (induction xs) auto

lemma cmp_map_of_char: "cmp (map of_char n :: nat list) (map of_char m) = cmp n m" for n m :: string
proof (induction n arbitrary: m)
  case Nil
  then show ?case by (cases m) (auto simp: cmp_def)
next
  case (Cons c n)
  show ?case
  proof (cases m)
    case Nil
    then show ?thesis by (auto simp: cmp_def)
  next
    case (Cons d m')
    have "of_char c = (of_char d :: nat) \<longleftrightarrow> c = d" by simp
    moreover have "of_char c < (of_char d :: nat) \<longleftrightarrow> c < d" by (simp add: less_char_def)
    ultimately show ?thesis using Cons Cons.IH [of m'] by (auto simp: cmp_def split: if_splits)
  qed
qed

lemma cmp_lt: "a < b \<Longrightarrow> cmp a b = Less" "b < a \<Longrightarrow> cmp a b = Greater"
  by simp_all

lemma object_cmp_lower_lo: "object_cmp_lower_bound k l = cmp (key_lo k) (key_lo l)"
  by (cases "data k"; cases "data l")
    (auto simp: object_cmp_lower_bound_def key_lo_def key_prefix_def variant_index_def data_cmp_def cmp_Cons
      cmp_lt cmp_map_of_char extent_cmp_lower_bound_def split: attribute_key.splits)

text \<open>Two extents of one attribute, as intervals of points.\<close>

definition same_attribute :: "object_key \<Rightarrow> object_key \<Rightarrow> bool" where
  "same_attribute k l \<longleftrightarrow>
     (\<exists>oid a e f. k = object_key_from_extent oid a e \<and> l = object_key_from_extent oid a f)"

lemma key_hi_le_lo:
  assumes "key_lo k \<le> key_lo l" "k \<noteq> l" "\<not> same_attribute k l"
  shows "key_hi k \<le> key_lo l"
proof (cases "\<exists>a e. data k = Attribute a (Extent e)")
  case True
  then obtain a e where k: "data k = Attribute a (Extent e)" by blast
  have "\<not> (object_id l = object_id k \<and> (\<exists>f. data l = Attribute a (Extent f)))"
    using assms(3) k unfolding same_attribute_def object_key_from_extent_def
    by (metis object_key.surjective old.unit.exhaust)
  with assms(1) k show ?thesis
    by (cases "data l")
      (auto simp: key_lo_def key_hi_def key_prefix_def variant_index_def split: attribute_key.splits)
next
  case False
  then have k: "key_hi k = key_lo k @ [0]"
    by (auto simp: key_lo_def key_hi_def split: object_key_data.splits attribute_key.splits)
  have "key_lo k \<noteq> key_lo l"
  proof
    assume eq: "key_lo k = key_lo l"
    have "data k = data l"
      using eq False
      by (cases "data k"; cases "data l")
        (auto simp: key_lo_def key_prefix_def variant_index_def split: attribute_key.splits
          dest: map_injective [OF _ inj_of_char])
    moreover have "object_id k = object_id l"
      using eq by (auto simp: key_lo_def key_prefix_def split: object_key_data.splits attribute_key.splits)
    ultimately show False using assms(2) by (metis object_key.equality old.unit.exhaust)
  qed
  with assms(1) show ?thesis unfolding k by (intro snoc_zero_le) simp
qed

lemma upper_bound_lower_bound:
  assumes "\<not> same_attribute k l"
  shows "object_cmp_upper_bound k l = object_cmp_lower_bound k l"
proof (cases "object_id k = object_id l")
  case True
  then have "\<not> (\<exists>a e f. data k = Attribute a (Extent e) \<and> data l = Attribute a (Extent f))"
    using assms unfolding same_attribute_def object_key_from_extent_def
    by (metis object_key.surjective old.unit.exhaust)
  then show ?thesis
    by (auto simp: object_cmp_upper_bound_def object_cmp_lower_bound_def cmp_def
        split: object_key_data.splits attribute_key.splits)
next
  case False
  then show ?thesis by (auto simp: object_cmp_upper_bound_def object_cmp_lower_bound_def cmp_def)
qed

text \<open>The points of an extent are those of its bytes.\<close>

lemma extent_bounds [simp]:
  "key_lo (object_key_extent oid a r) = [oid, 2, a, 1, rstart r]"
  "key_hi (object_key_extent oid a r) = [oid, 2, a, 1, rend r]"
  "key_lo (object_key_from_extent oid a e) = [oid, 2, a, 1, rstart (range e)]"
  "key_hi (object_key_from_extent oid a e) = [oid, 2, a, 1, rend (range e)]"
  by (simp_all add: key_lo_def key_hi_def key_prefix_def variant_index_def object_key_extent_def
      object_key_from_extent_def extent_key_new_def)

lemma merge_into_skips:
  assumes "object_cmp_upper_bound k (object_key_for_merge_into l) = Less"
  shows "key_hi k \<le> key_lo l"
proof -
  let ?m = "object_key_for_merge_into l"
  have le: "key_lo ?m \<le> key_lo l"
    by (auto simp: object_key_for_merge_into_def object_key_attribute_def extent_key_for_merge_into_def key_lo_def
        key_prefix_def variant_index_def split: object_key_data.splits attribute_key.splits)
  show ?thesis
  proof (cases "same_attribute k ?m")
    case True
    then obtain oid a e f where ef: "k = object_key_from_extent oid a e" "?m = object_key_from_extent oid a f"
      by (auto simp: same_attribute_def)
    then obtain g where g: "l = object_key_from_extent oid a g" "f = extent_key_for_merge_into g"
      by (cases l) (auto simp: object_key_for_merge_into_def object_key_attribute_def object_key_from_extent_def
          split: object_key_data.splits attribute_key.splits)
    have "rend (range e) \<le> rstart (range g)"
      using assms ef g(2) by (simp add: object_cmp_upper_bound_def object_key_from_extent_def
          extent_cmp_upper_bound_def extent_key_for_merge_into_def cmp_then_eq)
    with ef(1) g(1) show ?thesis by (simp add: le_less)
  next
    case False
    then have lt: "key_lo k < key_lo ?m"
      using assms by (simp add: upper_bound_lower_bound object_cmp_lower_lo)
    then have "key_hi k \<le> key_lo ?m" using False by (intro key_hi_le_lo) auto
    then show ?thesis using le by (rule order_trans)
  qed
qed

lemma extent_point:
  fixes p :: "nat list"
  assumes "[oid, 2, a, 1, s] \<le> p" "p < [oid, 2, a, 1, e]"
  shows "s \<le> p ! 4 \<and> p ! 4 < e"
proof -
  obtain x1 p1 where p1: "p = x1 # p1" using assms(1) by (cases p) auto
  obtain x2 p2 where p2: "p1 = x2 # p2" using assms p1 by (cases p1) auto
  obtain x3 p3 where p3: "p2 = x3 # p3" using assms p1 p2 by (cases p2) auto
  obtain x4 p4 where p4: "p3 = x4 # p4" using assms p1 p2 p3 by (cases p3) auto
  obtain x5 p5 where p5: "p4 = x5 # p5" using assms p1 p2 p3 p4 by (cases p4) auto
  show ?thesis using assms by (auto simp: p1 p2 p3 p4 p5)
qed

section \<open>The merge function meets the contract\<close>

definition extent_item :: "nat \<Rightarrow> nat \<Rightarrow> u64_range \<Rightarrow> extent_value \<Rightarrow> nat \<Rightarrow> 'wk object_item" where
  "extent_item oid a r v s = item_new_with_sequence (object_key_extent oid a r) (VExtent v) s"

lemma extent_item_simps [simp]:
  "key (extent_item oid a r v s) = object_key_extent oid a r"
  "sequence (extent_item oid a r v s) = s"
  "object_val bs (extent_item oid a r v s) p = Byte (byte_at bs v (p ! 4 - rstart r))"
  "object_ok bs (extent_item oid a r v s) \<longleftrightarrow>
     0 < bs \<and> rstart r < rend r \<and> rend r < u64_max \<and> bs dvd rstart r \<and> bs dvd rend r \<and> value_fits bs (rend r - rstart r) v"
  "object_weight (extent_item oid a r v s) = Suc (rend r - rstart r)"
  by (simp_all add: extent_item_def item_new_with_sequence_def object_key_extent_def extent_key_new_def
      object_val_def object_ok_def object_weight_def)

lemma ok_extent_item:
  assumes "object_ok bs i" "key i = object_key_from_extent oid a e"
  obtains v where "i = extent_item oid a (range e) v (sequence i)"
proof -
  obtain v where "value i = VExtent v"
    using assms by (auto simp: object_ok_def object_key_from_extent_def split: object_value.splits)
  with assms(2) that [of v] show thesis
    by (cases i) (simp add: extent_item_def item_new_with_sequence_def object_key_extent_def
        extent_key_new_def object_key_from_extent_def)
qed

lemma object_merge_extents:
  "object_merge (il, extent_item oid a r v s) (ir, extent_item oid a r' v' s') =
   merge_extents oid a (il, extent_item oid a r v s) (ir, extent_item oid a r' v' s') (ExtentKey r) (ExtentKey r') v v'"
  by (simp add: object_merge_def item_as_extent_def extent_item_def item_new_with_sequence_def
      object_key_extent_def extent_key_new_def)

lemma extent_merge_post:
  assumes ok: "object_ok bs i" "object_ok bs j" and ne: "il \<noteq> ir"
    and i: "i = extent_item oid a r v s" and j: "j = extent_item oid a r' v' s'"
    and le: "rstart r \<le> rstart r'" "rstart r = rstart r' \<Longrightarrow> il < ir"
  shows "\<exists>res. object_merge (il, i) (ir, j) = Inr res \<and> merge_post (object_sem bs) il i ir j res"
proof -
  define ls le rs re where "ls = rstart r" and "le = rend r" and "rs = rstart r'" and "re = rend r'"
  note defs = ls_def le_def rs_def re_def
  have bs: "0 < bs" and l: "ls < le" "bs dvd ls" "bs dvd le" "value_fits bs (le - ls) v" "le < u64_max"
    and rr: "rs < re" "bs dvd rs" "bs dvd re" "value_fits bs (re - rs) v'" "re < u64_max"
    using ok i j by (auto simp: defs)
  have r: "r = Range ls le" "r' = Range rs re" by (simp_all add: defs)
  note run = object_merge_extents merge_extents_def Let_def i j r adjacent_def extent_item_def [symmetric]
  show ?thesis
  proof (cases "v = ExtentNone \<and> v' = ExtentNone \<and> adjacent il ir")
    case True
    then have vs: "v = ExtentNone" "v' = ExtentNone" "adjacent il ir" by auto
    have val: "object_val bs i p = Byte Hole" "object_val bs j p = Byte Hole" for p
      by (simp_all add: i j vs byte_at_def)
    consider "le < rs" | "re \<le> le" | "rs \<le> le" "le < re" by linarith
    then show ?thesis
    proof cases
      case 1
      then show ?thesis
        using ne vs by (simp add: run merge_deleted_extents_def merge_post_def)
    next
      case 2
      have "merge_post (object_sem bs) il i ir j (Other None Keep Discard)"
        using ok \<open>rstart r \<le> rstart r'\<close> 2 vs val rr
        by (intro post_join_left [where w = "Byte Hole"]) (auto simp: i j r)
      with 2 show ?thesis
        using ne vs rr(1) by (auto simp: run merge_deleted_extents_def)
    next
      case 3
      let ?j = "extent_item oid a (Range ls re) ExtentNone (min s s') :: 'a object_item"
      have "merge_post (object_sem bs) il i ir j (Other None Discard (Replace ?j))"
        using \<open>rstart r \<le> rstart r'\<close> 3 vs val l rr bs
        by (intro post_join_right [where w = "Byte Hole"]) (auto simp: i j r byte_at_def value_fits_def)
      with 3 show ?thesis
        using ne vs by (auto simp: run merge_deleted_extents_def value_deleted_extent_def)
    qed
  next
    case False
    then have neq: "\<not> (v = ExtentNone \<and> v' = ExtentNone \<and> (ir = Suc il \<or> il = Suc ir))" by (simp add: adjacent_def)
    have lers: "ls \<le> rs" using le(1) by (simp add: defs)
    consider "le \<le> rs" | "rs < le" "ir < il" | "rs < le" "il < ir" "re \<le> le" | "rs < le" "il < ir" "le < re"
      using ne by linarith
    then show ?thesis
    proof cases
      case 1
      then show ?thesis using ne neq by (auto simp: run merge_post_def)
    next
      case 2
      then have lt: "ls < rs" using lers le(2) by (fastforce simp: defs)
      have amount: "bs dvd rs - ls" "rs - ls < le - ls" "0 < rs - ls" using l rr lt 2 by auto
      obtain v1 where v1: "shrunk v (le - ls) (rs - ls) = Inr v1" "value_fits bs (rs - ls) v1"
        "\<And>rel. rel < rs - ls \<Longrightarrow> byte_at bs v1 rel = byte_at bs v rel"
        using shrunk_fits [OF l(4) bs amount(1,3,2)] by metis
      obtain v2 where v2: "offset_by v (rs - ls) (le - ls) = Inr v2" "value_fits bs (le - ls - (rs - ls)) v2"
        "\<And>rel. rs - ls \<le> rel \<Longrightarrow> rel < le - ls \<Longrightarrow> byte_at bs v2 (rel - (rs - ls)) = byte_at bs v rel"
        using offset_by_fits [OF l(4) bs amount(1,2)] by metis
      have val1: "byte_at bs v1 (p ! 4 - ls) = byte_at bs v (p ! 4 - ls)"
        if "[oid, 2, a, 1, ls] \<le> p" "p < [oid, 2, a, 1, rs]" for p
        using extent_point [OF that] by (intro v1(3)) linarith
      have val2: "byte_at bs v2 (p ! 4 - rs) = byte_at bs v (p ! 4 - ls)"
        if "[oid, 2, a, 1, rs] \<le> p" "p < [oid, 2, a, 1, le]" for p
      proof -
        have "rs - ls \<le> p ! 4 - ls" "p ! 4 - ls < le - ls" using extent_point [OF that] lt by linarith+
        with v2(3) [of "p ! 4 - ls"] lt show ?thesis by simp
      qed
      have "merge_post (object_sem bs) il i ir j (Other (Some (extent_item oid a (Range ls rs) v1 (min s s')))
          (Replace (extent_item oid a (Range rs le) v2 (min s s'))) Keep)"
        using ok(2) bs l rr lt 2 v1(2) v2(2) val1 val2 by (intro post_split_left) (simp_all add: i j r)
      then show ?thesis
        using ne neq 2 lt l v1(1) v2(1) by (auto simp: run u64_sub_eq)
    next
      case 3
      have "merge_post (object_sem bs) il i ir j (Other None Keep Discard)"
        using ok lers 3 rr by (intro post_keep_discard) (auto simp: i j r)
      then show ?thesis using ne neq 3 by (auto simp: run)
    next
      case 4
      have amount: "bs dvd le - rs" "le - rs < re - rs" using l rr 4 by auto
      obtain v2 where v2: "offset_by v' (le - rs) (re - rs) = Inr v2" "value_fits bs (re - rs - (le - rs)) v2"
        "\<And>rel. le - rs \<le> rel \<Longrightarrow> rel < re - rs \<Longrightarrow> byte_at bs v2 (rel - (le - rs)) = byte_at bs v' rel"
        using offset_by_fits [OF rr(4) bs amount] by metis
      have val2: "byte_at bs v2 (p ! 4 - le) = byte_at bs v' (p ! 4 - rs)"
        if "[oid, 2, a, 1, le] \<le> p" "p < [oid, 2, a, 1, re]" for p
      proof -
        have "le - rs \<le> p ! 4 - rs" "p ! 4 - rs < re - rs" using extent_point [OF that] 4 by linarith+
        with v2(3) [of "p ! 4 - rs"] 4 show ?thesis by simp
      qed
      have "merge_post (object_sem bs) il i ir j (Other None Keep (Replace (extent_item oid a (Range le re) v2 (min s s'))))"
        using ok(1) bs l rr lers 4 v2(2) val2 by (intro post_trim_right) (auto simp: i j r)
      then show ?thesis using ne neq 4 rr v2(1) by (auto simp: run u64_sub_eq)
    qed
  qed
qed

lemma object_ok_nonempty: "object_ok bs x \<Longrightarrow> key_lo (key x) < key_hi (key x)"
  by (auto simp: object_ok_def key_lo_def key_hi_def key_prefix_def variant_index_def
      split: object_key_data.splits attribute_key.splits)

lemma object_weight_pos [simp]: "0 < object_weight i"
  by (simp add: object_weight_def split: object_key_data.splits attribute_key.splits)

lemma object_merge_post:
  assumes ok: "object_ok bs i" "object_ok bs j" and ne: "il \<noteq> ir"
    and pre: "precedes (object_sem bs) il i ir j"
  shows "\<exists>res. object_merge (il, i) (ir, j) = Inr res \<and> merge_post (object_sem bs) il i ir j res"
proof -
  have le: "key_lo (key i) \<le> key_lo (key j)" and index: "key_lo (key i) = key_lo (key j) \<Longrightarrow> il < ir"
    using pre by (auto simp: precedes_def)
  show ?thesis
  proof (cases "same_attribute (key i) (key j)")
    case True
    then obtain oid a e f where ef: "key i = object_key_from_extent oid a e" "key j = object_key_from_extent oid a f"
      by (auto simp: same_attribute_def)
    obtain v where v: "i = extent_item oid a (range e) v (sequence i)" using ok_extent_item [OF ok(1) ef(1)] by blast
    obtain w where w: "j = extent_item oid a (range f) w (sequence j)" using ok_extent_item [OF ok(2) ef(2)] by blast
    show ?thesis
      using le index ef by (intro extent_merge_post [OF ok ne v w]) auto
  next
    case ext: False
    have ts: "\<not> is_tombstone i"
      using ok(1) by (auto simp: object_ok_def is_tombstone_def split: object_key_data.splits)
    show ?thesis
    proof (cases "key i = key j")
      case True
      then have nx: "item_as_extent i = None"
        using ext by (auto simp: item_as_extent_def same_attribute_def object_key_from_extent_def
            split: object_key_data.splits attribute_key.splits object_value.splits)
          (metis object_key.surjective old.unit.exhaust)
      have "merge_post (object_sem bs) il i ir j (Other None Keep Discard)"
        using True ok index
        by (intro post_keep_discard) (simp_all add: object_ok_nonempty)
      then show ?thesis
        using True nx ts index by (auto simp: object_merge_def)
    next
      case False
      then have "key_hi (key i) \<le> key_lo (key j)" using key_hi_le_lo [OF le] ext by blast
      moreover have "object_merge (il, i) (ir, j) = Inr EmitLeft"
        using False ext ts
        by (auto simp: object_merge_def item_as_extent_def same_attribute_def object_key_from_extent_def
            split: object_key_data.splits attribute_key.splits object_value.splits)
          (metis object_key.surjective old.unit.exhaust)
      ultimately show ?thesis by (simp add: merge_post_def)
    qed
  qed
qed

interpretation obj: merge_laws object_ops object_merge "object_sem bs"
proof
  fix i j :: "'a object_item" and il ir :: nat
  assume "ok (object_sem bs) i" "ok (object_sem bs) j" "il \<noteq> ir" "precedes (object_sem bs) il i ir j"
  then show "\<exists>r. object_merge (il, i) (ir, j) = Inr r \<and> merge_post (object_sem bs) il i ir j r"
    by (intro object_merge_post) simp_all
qed (simp_all add: object_ok_nonempty object_ops_def object_cmp_lower_lo)

section \<open>Compaction and merging into an object store\<close>

text \<open>
  C24: compacting the layers of an object store (block-aligned extents with one checksum per block,
  any other records, no tombstones) never panics and yields a well-formed layer in which every record
  and every byte of every attribute has the meaning that the newest layer gives it: the value of the
  record, or the byte's device offset, checksum and key, or that it is deleted.
\<close>

theorem object_compact_correct:
  assumes "\<forall>l \<in> set (immutable_layers t). layer_ok (object_sem bs) l"
    "sum_list (map (layer_weight (object_sem bs)) (immutable_layers t)) + 1 < fuel"
  shows "\<exists>out. compact fuel object_ops object_merge t = Inr out \<and> layer_ok (object_sem bs) out \<and>
    (\<forall>p. layer_at (object_sem bs) out p = layers_at (object_sem bs) (immutable_layers t) p)"
  using assms by (rule obj.compact_correct)

definition example_store :: "(object_key, nat object_value) lsm_tree" where
  "example_store = \<lparr>mutable_layer = [],
     immutable_layers =
       [[extent_item 5 0 (Range 512 1024) (ExtentSome 8192 (Fletcher [99]) 0) 2],
        [item_new_with_sequence (object_key_attribute 5 0 Size) (VAttribute 1536) 1,
         extent_item 5 0 (Range 0 1536) (ExtentSome 4096 (Fletcher [11, 22, 33]) 0) 1]]\<rparr>"

theorem object_compact_correct_witness:
  "\<exists>out. compact 5000 object_ops object_merge example_store = Inr out \<and>
    layer_at (object_sem 512) out [5, 2, 0, 1, 600] = Some (Byte (Mapped 8280 (Some 99) 0)) \<and>
    layer_at (object_sem 512) out [5, 2, 0, 1, 1030] = Some (Byte (Mapped 5126 (Some 33) 0)) \<and>
    layer_at (object_sem 512) out [5, 2, 0, 0] = Some (Record (VAttribute 1536))"
proof -
  note defs = example_store_def item_new_with_sequence_def object_key_attribute_def
  have size: "object_ok 512 \<lparr>key = \<lparr>object_id = 5, data = Attribute 0 Size\<rparr>, value = VAttribute 1536 :: nat object_value, sequence = 1\<rparr>"
    "object_weight \<lparr>key = \<lparr>object_id = 5, data = Attribute 0 Size\<rparr>, value = VAttribute 1536 :: nat object_value, sequence = 1\<rparr> = 1"
    "key_lo \<lparr>object_id = 5, data = Attribute 0 Size\<rparr> = [5, 2, 0, 0]"
    "key_hi \<lparr>object_id = 5, data = Attribute 0 Size\<rparr> = [5, 2, 0, 0, 0]"
    "object_val 512 \<lparr>key = \<lparr>object_id = 5, data = Attribute 0 Size\<rparr>, value = VAttribute 1536 :: nat object_value,
       sequence = 1\<rparr> p = Record (VAttribute 1536)" for p
    by (simp_all add: object_ok_def is_tombstone_def object_weight_def key_lo_def key_hi_def key_prefix_def
        variant_index_def object_val_def)
  have "\<forall>l \<in> set (immutable_layers example_store). layer_ok (object_sem 512) l"
    "sum_list (map (layer_weight (object_sem 512)) (immutable_layers example_store)) + 1 < 5000"
    using size by (simp_all add: defs value_fits_def u64_max_def)
  note out = object_compact_correct [OF this]
  have "layers_at (object_sem 512) (immutable_layers example_store) [5, 2, 0, 1, 600] =
      Some (Byte (Mapped 8280 (Some 99) 0))"
    "layers_at (object_sem 512) (immutable_layers example_store) [5, 2, 0, 1, 1030] =
      Some (Byte (Mapped 5126 (Some 33) 0))"
    "layers_at (object_sem 512) (immutable_layers example_store) [5, 2, 0, 0] = Some (Record (VAttribute 1536))"
    using size by (simp_all add: defs item_at_def byte_at_def block_checksum_def)
  with out show ?thesis by metis
qed

text \<open>
  A tombstone (an object record without value) in a newer layer removes the records of its object
  that it is merged with, and it stays in front of everything it has not removed.
\<close>

lemma tombstone_eclipses:
  assumes "is_tombstone x" "object_id (key y) = object_id (key x)" "li < ri"
  shows "object_merge (li, x) (ri, y) = Inr (Other None Keep Discard) \<and>
    object_cmp_lower_bound (key x) (key y) \<noteq> Greater"
  using assms
  by (auto simp: object_merge_def is_tombstone_def item_as_extent_def object_cmp_lower_bound_def data_cmp_def
      variant_index_def cmp_def split: object_key_data.splits)

section \<open>Merging into the mutable layer\<close>

text \<open>A tombstone takes the place of the records of its object.\<close>

definition mut_iterator :: "('k, 'v) item list \<Rightarrow> ('k, 'v) item list \<Rightarrow> ('k, 'v) mli" where
  "mut_iterator bef aft =
     \<lparr>layer = None, iter = RMut bef aft, layer_index = 1, merge_item = (case iter_get aft of Some _ \<Rightarrow> MIter | None \<Rightarrow> MNone)\<rparr>"

lemma tombstone_loop:
  assumes "is_tombstone i" "\<forall>j \<in> set aft. object_id (key i) \<le> object_id (key j)" "length aft < fuel"
  shows "merge_into_loop fuel object_ops object_merge (mut_iterator bef aft) (mli_new_with_item 0 (MItem i)) =
    Inr (mut_iterator bef (dropWhile (\<lambda>j. object_id (key j) = object_id (key i)) aft), mli_new_with_item 0 (MItem i))"
  using assms
proof (induction aft arbitrary: fuel)
  case Nil
  then show ?case by (cases fuel) (simp_all add: mut_iterator_def is_some_def)
next
  case (Cons j aft)
  then obtain n where fuel: "fuel = Suc n" by (cases fuel) auto
  let ?m = "mut_iterator bef (j # aft)" and ?i = "mli_new_with_item 0 (MItem i)"
  have some: "is_some ?m" "is_some ?i" by (simp_all add: is_some_def mut_iterator_def mli_new_with_item_def)
  have items: "mli_item ?m = Inr j" "mli_item ?i = Inr i" "layer_index ?m = 1" "layer_index ?i = 0"
    by (simp_all add: mli_item_def mut_iterator_def mli_new_with_item_def)
  have "object_cmp_lower_bound (key i) (key j) \<noteq> Greater"
  proof (cases "object_id (key j) = object_id (key i)")
    case True
    then show ?thesis using tombstone_eclipses [OF Cons.prems(1), of j 0 1] by simp
  next
    case False
    then have "object_id (key i) < object_id (key j)" using Cons.prems(2) by simp
    then show ?thesis by (simp add: object_cmp_lower_bound_def cmp_def)
  qed
  then have cmp: "\<exists>c. mli_cmp object_ops ?m ?i = Inr c \<and> c \<noteq> Greater"
    using items by (cases "object_cmp_lower_bound (key i) (key j)") (auto simp: mli_cmp_def object_ops_def cmp_def)
  show ?case
  proof (cases "object_id (key j) = object_id (key i)")
    case True
    have "apply_mut_op Discard ?m = Inr (mut_iterator bef aft)"
      by (simp add: apply_mut_op_def mut_iterator_def mli_erase_def set_item_from_iter_def split: option.splits)
    moreover have "object_merge (0, i) (1, j) = Inr (Other None Keep Discard)"
      using tombstone_eclipses [OF Cons.prems(1) True, of 0 1] by simp
    ultimately show ?thesis
      using Cons.IH [of n] Cons.prems cmp some items True by (auto simp: fuel insert_emit_def apply_item_op_def)
  next
    case False
    then have "object_merge (0, i) (1, j) = Inr EmitLeft" by (simp add: object_merge_def)
    with cmp some items False show ?thesis by (auto simp: fuel)
  qed
qed

lemma tombstone_merge_into:
  assumes "is_tombstone i" "sorted (map (\<lambda>j. object_id (key j)) l)" "length l < fuel"
  shows "skip_list_merge_into fuel object_ops object_merge l i (object_key_for_merge_into (key i)) =
    Inr (filter (\<lambda>j. object_id (key j) < object_id (key i)) l @ i # filter (\<lambda>j. object_id (key i) < object_id (key j)) l)"
proof -
  let ?id = "object_id (key i)"
  have data: "data (key i) = Object" using assms(1) by (simp add: is_tombstone_def)
  then have k: "object_key_for_merge_into (key i) = key i" by (simp add: object_key_for_merge_into_def)
  have less: "outside_bound object_ops (Included (key i)) (key j) \<longleftrightarrow> object_id (key j) < ?id" for j :: "'a object_item"
    using data by (auto simp: outside_bound_def object_ops_def object_cmp_upper_bound_def data_cmp_def variant_index_def cmp_def split: object_key_data.splits attribute_key.splits)
  have bef: "takeWhile (\<lambda>j. object_id (key j) < ?id) l = filter (\<lambda>j. object_id (key j) < ?id) l"
    "dropWhile (\<lambda>j. object_id (key j) < ?id) l = filter (\<lambda>j. ?id \<le> object_id (key j)) l"
    using assms(2) by (induction l) (auto simp: filter_empty_conv filter_id_conv dest: order_trans intro!: filter_True [symmetric] filter_False [symmetric])
  have aft: "dropWhile (\<lambda>j. object_id (key j) = ?id) (filter (\<lambda>j. ?id \<le> object_id (key j)) l) = filter (\<lambda>j. ?id < object_id (key j)) l"
    using assms(2) by (induction l) (auto simp: not_le intro!: filter_cong)
  have "length (filter (\<lambda>j. ?id \<le> object_id (key j)) l) < fuel" using assms(3) length_filter_le le_less_trans by blast
  with tombstone_loop [OF assms(1), of "filter (\<lambda>j. ?id \<le> object_id (key j)) l" fuel "rev (filter (\<lambda>j. object_id (key j) < ?id) l)"]
  show ?thesis
    by (auto simp: skip_list_merge_into_def merge_into_def iter_mut_new_def k less bef aft mut_iterator_def merge_into_finish_def
        mli_new_with_item_def mli_insert_def take_item_def split: option.splits)
qed

lemma layer_ok_object_ids: "layer_ok (object_sem bs) l \<Longrightarrow> sorted (map (\<lambda>j. object_id (key j)) l)"
proof (induction l)
  case (Cons i l)
  have "object_id (key i) \<le> object_id (key j)" if "key_hi (key i) \<le> key_lo (key j)" for j :: "'a object_item"
    using that by (auto simp: key_hi_def key_lo_def key_prefix_def split: object_key_data.splits attribute_key.splits)
  with Cons show ?case by (auto simp: list_all_iff)
qed simp

lemma layer_weight_length: "layer_ok (object_sem bs) l \<Longrightarrow> length l \<le> layer_weight (object_sem bs) l"
  by (induction l) (auto simp: layer_weight_def object_weight_def split: object_key_data.splits attribute_key.splits)

text \<open>
  C25: merging a record into an object store at the key the code computes for it never panics and changes only
  the mutable layer. A record other than a tombstone (an extent must be non-empty, block-aligned and have one
  checksum per block) keeps the layer well formed, overrides exactly the record or the bytes it covers and leaves
  the meaning of all others as it was. A tombstone takes the place of all records that the layer has of its
  object, and the records of other objects stay as they are; what older layers have of the object is not
  touched. The mutable layer is well formed, without tombstones, before.
\<close>

theorem object_merge_into_correct:
  assumes "layer_ok (object_sem bs) (mutable_layer t)" "object_ok bs i \<or> is_tombstone i"
    "layer_weight (object_sem bs) (mutable_layer t) + object_weight i < fuel"
  shows "\<exists>t'. tree_merge_into fuel object_ops object_merge i (object_key_for_merge_into (key i)) t = Inr t' \<and>
    immutable_layers t' = immutable_layers t \<and>
    (if is_tombstone i
     then mutable_layer t' = filter (\<lambda>j. object_id (key j) < object_id (key i)) (mutable_layer t) @ i #
       filter (\<lambda>j. object_id (key i) < object_id (key j)) (mutable_layer t)
     else layer_ok (object_sem bs) (mutable_layer t') \<and>
       (\<forall>p. layers_at (object_sem bs) (layer_set t') p =
         (if key_lo (key i) \<le> p \<and> p < key_hi (key i) then Some (object_val bs i p)
          else layers_at (object_sem bs) (layer_set t) p)))"
proof (cases "is_tombstone i")
  case True
  have "length (mutable_layer t) < fuel" using layer_weight_length [OF assms(1)] assms(3) by linarith
  from tombstone_merge_into [OF True layer_ok_object_ids [OF assms(1)] this] True show ?thesis
    by (simp add: tree_merge_into_def)
next
  case False
  have "key_hi (key x) \<le> key_lo (key i)"
    if "cmp_upper_bound object_ops (key x) (object_key_for_merge_into (key i)) = Less" for x :: "'a object_item"
    using that merge_into_skips by (simp add: object_ops_def)
  then show ?thesis
    using obj.tree_merge_into_correct [of bs t i fuel "object_key_for_merge_into (key i)"] assms False
    by (fastforce simp: item_at_def)
qed

theorem object_merge_into_correct_witness:
  "\<exists>t'. tree_merge_into 5000 object_ops object_merge
      (extent_item 5 0 (Range 512 1024) (ExtentSome 8192 (Fletcher [99]) 0) 2)
      (object_key_extent 5 0 (Range 0 512))
      \<lparr>mutable_layer = [extent_item 5 0 (Range 0 1536) (ExtentSome 4096 (Fletcher [11, 22, 33]) 0) 1],
       immutable_layers = []\<rparr> = Inr (t' :: (object_key, nat object_value) lsm_tree) \<and>
    layers_at (object_sem 512) (layer_set t') [5, 2, 0, 1, 600] = Some (Byte (Mapped 8280 (Some 99) 0)) \<and>
    layers_at (object_sem 512) (layer_set t') [5, 2, 0, 1, 1030] = Some (Byte (Mapped 5126 (Some 33) 0))"
proof -
  let ?t = "\<lparr>mutable_layer = [extent_item 5 0 (Range 0 1536) (ExtentSome 4096 (Fletcher [11, 22, 33]) 0) 1],
    immutable_layers = []\<rparr> :: (object_key, nat object_value) lsm_tree"
  let ?i = "extent_item 5 0 (Range 512 1024) (ExtentSome 8192 (Fletcher [99]) 0) 2 :: nat object_item"
  have "layer_ok (object_sem 512) (mutable_layer ?t)" "object_ok 512 ?i \<or> is_tombstone ?i"
    "layer_weight (object_sem 512) (mutable_layer ?t) + object_weight ?i < 5000"
    by (simp_all add: value_fits_def u64_max_def)
  note merged = object_merge_into_correct [OF this]
  have tomb: "\<not> is_tombstone ?i" by (simp add: is_tombstone_def object_key_extent_def object_key_attribute_def item_new_with_sequence_def)
  from merged obtain t' where
    t': "tree_merge_into 5000 object_ops object_merge ?i (object_key_for_merge_into (key ?i)) ?t = Inr t'"
    "\<forall>p. layers_at (object_sem 512) (layer_set t') p =
      (if key_lo (key ?i) \<le> p \<and> p < key_hi (key ?i) then Some (object_val 512 ?i p)
       else layers_at (object_sem 512) (layer_set ?t) p)" using tomb by auto
  have "object_key_for_merge_into (key ?i) = object_key_extent 5 0 (Range 0 512)"
    by (simp add: object_key_for_merge_into_def object_key_extent_def extent_key_new_def
        object_key_attribute_def extent_key_for_merge_into_def)
  with t' show ?thesis
    by (simp add: layer_set_def item_at_def byte_at_def block_checksum_def)
qed

end
