(* ===== verification/Journal_Stream.thy ===== *)
theory Journal_Stream
  imports Fxfs_Checksum
begin

text \<open>
  The journal's byte stream: \<^verbatim>\<open>JournalWriter\<close> (\<^verbatim>\<open>src/src/object_store/journal/writer.rs\<close>) and
  \<^verbatim>\<open>JournalReader\<close> (\<^verbatim>\<open>src/src/object_store/journal/reader.rs\<close>). A block ends in the checksum of its
  contents, seeded with the checksum of the block before it.

  Reading from the journal file is an argument of the reader's functions; so is the record
  deserialiser (\<^verbatim>\<open>serde\<close>/\<^verbatim>\<open>bincode\<close>), which returns the record and the number of bytes it took, or
  whether it failed because the input ended. Loops take fuel. The metric of the writer and the
  warning when data is dropped are left out.
\<close>

record checkpoint =
  file_offset :: nat
  cp_checksum :: checksum
  cp_version :: nat

definition reset_xor :: checksum where
  "reset_xor = 0xffffffffffffffff"

section \<open>The writer\<close>

record journal_writer =
  w_block_size :: nat
  w_checkpoint :: checkpoint
  last_checksum :: checksum
  w_buf :: "u8 list"

definition writer_new :: "nat \<Rightarrow> nat \<Rightarrow> checksum \<Rightarrow> journal_writer" where
  "writer_new latest_version bs c =
     \<lparr>w_block_size = bs, w_checkpoint = \<lparr>file_offset = 0, cp_checksum = 0, cp_version = latest_version\<rparr>,
      last_checksum = c, w_buf = []\<rparr>"

fun writer_write :: "nat \<Rightarrow> u8 list \<Rightarrow> journal_writer \<Rightarrow> journal_writer res" where
  "writer_write 0 data self = Inl OutOfFuel"
| "writer_write (Suc fuel) data self =
     (if data = [] then Inr self
      else
        bind_res (u64_sub (w_block_size self) 8) (\<lambda>m.
        bind_res (u64_rem (length (w_buf self)) (w_block_size self)) (\<lambda>used.
        bind_res (u64_sub m used) (\<lambda>space.
        let to_copy = min space (length data);
            buf = w_buf self @ take to_copy data
        in bind_res
             (if to_copy = space
              then bind_res (u64_sub (length buf + 8) (w_block_size self)) (\<lambda>start.
                   bind_res (fletcher64 (drop start buf) (last_checksum self)) (\<lambda>c.
                     Inr (self\<lparr>last_checksum := c, w_buf := buf @ write_u64 c\<rparr>)))
              else Inr (self\<lparr>w_buf := buf\<rparr>)) (\<lambda>self.
           writer_write fuel (drop to_copy data) self)))))"

definition write_record :: "nat \<Rightarrow> ('r \<Rightarrow> u8 list) \<Rightarrow> 'r \<Rightarrow> journal_writer \<Rightarrow> journal_writer res" where
  "write_record fuel serialize_into r self =
     bind_res (writer_write fuel (serialize_into r) self) (\<lambda>self'.
     bind_res (u64_sub (length (w_buf self')) (length (w_buf self))) (\<lambda>n.
     bind_res (ensure (n \<le> w_block_size self') Panic) (\<lambda>_. Inr self')))"

definition pad_to_block :: "nat \<Rightarrow> journal_writer \<Rightarrow> journal_writer res" where
  "pad_to_block fuel self =
     bind_res (u64_rem (length (w_buf self)) (w_block_size self)) (\<lambda>align.
       if align > 0
       then bind_res (u64_sub (w_block_size self) 8) (\<lambda>m.
            bind_res (u64_sub m align) (\<lambda>n. writer_write fuel (replicate n 0) self))
       else Inr self)"

definition writer_file_checkpoint :: "journal_writer \<Rightarrow> checkpoint" where
  "writer_file_checkpoint self =
     \<lparr>file_offset = file_offset (w_checkpoint self) + length (w_buf self), cp_checksum = last_checksum self,
      cp_version = cp_version (w_checkpoint self)\<rparr>"

definition take_buffer :: "journal_writer \<Rightarrow> ((nat \<times> u8 list) option \<times> journal_writer) res" where
  "take_buffer self =
     bind_res (u64_rem (length (w_buf self)) (w_block_size self)) (\<lambda>part.
     let to_do = length (w_buf self) - part in
     if to_do = 0 then Inr (None, self)
     else Inr (Some (file_offset (w_checkpoint self), take to_do (w_buf self)),
               self\<lparr>w_buf := drop to_do (w_buf self),
                    w_checkpoint := (w_checkpoint self)
                      \<lparr>file_offset := file_offset (w_checkpoint self) + to_do, cp_checksum := last_checksum self\<rparr>\<rparr>))"

definition writer_seek :: "checkpoint \<Rightarrow> journal_writer \<Rightarrow> journal_writer res" where
  "writer_seek cp self =
     bind_res (ensure (w_buf self = []) Panic) (\<lambda>_.
     bind_res (u64_rem (file_offset cp) (w_block_size self)) (\<lambda>r.
     bind_res (ensure (r = 0) Panic) (\<lambda>_.
       Inr (self\<lparr>w_checkpoint := cp, last_checksum := cp_checksum cp\<rparr>))))"

section \<open>The reader\<close>

record journal_reader =
  r_block_size :: nat
  r_buf :: "u8 list"
  buf_start :: nat
  buf_end :: nat
  read_offset :: nat
  buf_file_offset :: nat
  r_checksums :: "checksum list"
  r_version :: nat
  bad_checksum :: bool
  found_reset :: bool
  first_read :: bool

definition reader_new :: "nat \<Rightarrow> checkpoint \<Rightarrow> journal_reader res" where
  "reader_new bs cp =
     bind_res (u64_rem (file_offset cp) bs) (\<lambda>r.
       Inr \<lparr>r_block_size = bs, r_buf = [], buf_start = 0, buf_end = 0, read_offset = file_offset cp - r,
            buf_file_offset = file_offset cp, r_checksums = [cp_checksum cp], r_version = cp_version cp,
            bad_checksum = False, found_reset = False, first_read = True\<rparr>)"

definition reader_file_checkpoint :: "journal_reader \<Rightarrow> checkpoint res" where
  "reader_file_checkpoint self =
     (case r_checksums self of
        [] \<Rightarrow> Inl Panic
      | c # _ \<Rightarrow> Inr \<lparr>file_offset = buf_file_offset self, cp_checksum = c, cp_version = r_version self\<rparr>)"

definition last_read_checksum :: "journal_reader \<Rightarrow> checksum res" where
  "last_read_checksum self = (if r_checksums self = [] then Inl Panic else Inr (last (r_checksums self)))"

definition reader_buffer :: "journal_reader \<Rightarrow> u8 list" where
  "reader_buffer self = drop (buf_start self) (take (buf_end self) (r_buf self))"

definition consume :: "nat \<Rightarrow> journal_reader \<Rightarrow> journal_reader res" where
  "consume amount self =
     bind_res (ensure (amount < r_block_size self) Panic) (\<lambda>_.
     bind_res (u64_rem (buf_file_offset self) (r_block_size self)) (\<lambda>before.
     bind_res (u64_sub (r_block_size self) 8) (\<lambda>m.
     let self1 = self\<lparr>buf_file_offset := buf_file_offset self + amount\<rparr> in
     bind_res (if before + amount \<ge> m
               then if r_checksums self = [] then Inl Panic
                    else Inr (self1\<lparr>buf_file_offset := buf_file_offset self1 + 8, r_checksums := tl (r_checksums self)\<rparr>)
               else Inr self1) (\<lambda>self2.
       Inr (self2\<lparr>buf_start := buf_start self2 + amount\<rparr>)))))"

definition skip_to_end_of_block :: "journal_reader \<Rightarrow> journal_reader res" where
  "skip_to_end_of_block self =
     bind_res (u64_rem (buf_file_offset self) (r_block_size self)) (\<lambda>block_offset.
       if block_offset > 0
       then bind_res (u64_sub (r_block_size self - block_offset) 8) (\<lambda>n. consume n self)
       else Inr self)"

text \<open>
  One block more in the buffer. The flag says whether the loop goes on: it ends on a reset or on a bad
  checksum.
\<close>

definition read_block ::
  "(nat \<Rightarrow> nat \<Rightarrow> u8 list res) \<Rightarrow> journal_reader \<Rightarrow> (bool \<times> journal_reader) res" where
  "read_block read self =
     (let bs = r_block_size self in
      bind_res (last_read_checksum self) (\<lambda>last_checksum.
      bind_res (ensure (read_offset self mod bs = 0) Panic) (\<lambda>_.
      bind_res (read (read_offset self) bs) (\<lambda>block.
        if length block \<noteq> bs then Inl Bail
        else
          let self = self\<lparr>r_buf := take (buf_end self) (r_buf self) @ block\<rparr>;
              contents = take (bs - 8) block;
              stored = read_u64 (drop (bs - 8) block)
          in bind_res (fletcher64 contents last_checksum) (\<lambda>computed.
             if stored \<noteq> computed
             then bind_res (if first_read self then Inr False
                            else bind_res (fletcher64 contents (xor last_checksum reset_xor)) (\<lambda>c. Inr (stored = c))) (\<lambda>reset.
                    if reset
                    then Inr (False, self\<lparr>found_reset := True, r_checksums := r_checksums self @ [stored],
                                          read_offset := read_offset self + bs\<rparr>)
                    else Inr (False, self\<lparr>bad_checksum := True\<rparr>))
             else
               let self = self\<lparr>first_read := False, r_checksums := r_checksums self @ [stored]\<rparr> in
               bind_res (if buf_file_offset self > read_offset self
                         then bind_res (ensure (buf_start self = 0) Panic) (\<lambda>_.
                                Inr (self\<lparr>buf_start := buf_file_offset self - read_offset self\<rparr>))
                         else Inr self) (\<lambda>self.
                 Inr (True, self\<lparr>buf_end := length (r_buf self) - 8, read_offset := read_offset self + bs\<rparr>)))))))"

fun fill_loop :: "nat \<Rightarrow> (nat \<Rightarrow> nat \<Rightarrow> u8 list res) \<Rightarrow> journal_reader \<Rightarrow> journal_reader res" where
  "fill_loop 0 read self = Inl OutOfFuel"
| "fill_loop (Suc fuel) read self =
     (if buf_end self - buf_start self < r_block_size self - 8
      then bind_res (read_block read self) (\<lambda>(go_on, self). if go_on then fill_loop fuel read self else Inr self)
      else Inr self)"

definition fill_buf :: "nat \<Rightarrow> (nat \<Rightarrow> nat \<Rightarrow> u8 list res) \<Rightarrow> journal_reader \<Rightarrow> journal_reader res" where
  "fill_buf fuel read self =
     bind_res (u64_sub (r_block_size self) 8) (\<lambda>min_required.
       if found_reset self \<or> bad_checksum self \<or> buf_end self - buf_start self \<ge> min_required
       then Inr self
       else fill_loop fuel read
              (self\<lparr>r_buf := reader_buffer self @ drop (length (reader_buffer self)) (r_buf self), buf_start := 0,
                    buf_end := buf_end self - buf_start self\<rparr>))"

datatype 'r read_result = Reset | GotRecord 'r | ChecksumMismatch

text \<open>A deserialiser fails because the input ended (\<open>Inl True\<close>) or for another reason (\<open>Inl False\<close>).\<close>

type_synonym 'r deserializer = "nat \<Rightarrow> u8 list \<Rightarrow> bool + 'r \<times> nat"

definition deserialize ::
  "nat \<Rightarrow> (nat \<Rightarrow> nat \<Rightarrow> u8 list res) \<Rightarrow> 'r deserializer \<Rightarrow> journal_reader \<Rightarrow> ('r read_result \<times> journal_reader) res" where
  "deserialize fuel read deser self =
     bind_res (fill_buf fuel read self) (\<lambda>self.
       case deser (r_version self) (reader_buffer self) of
         Inr (record, consumed) \<Rightarrow>
           bind_res (consume consumed self) (\<lambda>self. Inr (GotRecord record, self))
       | Inl eof \<Rightarrow>
           if found_reset self
           then bind_res (consume (buf_end self - buf_start self) (self\<lparr>found_reset := False\<rparr>)) (\<lambda>self.
                bind_res (u64_sub (length (r_buf self)) (r_block_size self)) (\<lambda>s.
                bind_res (u64_sub (length (r_buf self)) 8) (\<lambda>e.
                  Inr (Reset, self\<lparr>buf_start := s, buf_end := e\<rparr>))))
           else if eof \<and> bad_checksum self then Inr (ChecksumMismatch, self)
           else Inl Bail)"

end
