(* ===== verification/Journal_Correct.thy ===== *)
theory Journal_Correct
  imports Journal_Stream
begin

text \<open>
  Correctness of the journal stream. The abstract journal is its payload, a list of bytes. The
  writer's buffer refines it: the payload cut into blocks, each followed by its chained checksum. A
  reader refines a list of verified blocks and a position in their payload. The two meet in the round
  trip: what was written is what is read, record by record.
\<close>

section \<open>Encoded blocks\<close>

definition next_checksum :: "u8 list \<Rightarrow> checksum \<Rightarrow> checksum" where
  "next_checksum c s = combine (fletcher_loop c (fst (seed_of s)) (snd (seed_of s)))"

fun chain :: "checksum \<Rightarrow> u8 list list \<Rightarrow> checksum" where
  "chain s [] = s"
| "chain s (c # cs) = chain (next_checksum c s) cs"

fun enc_blocks :: "checksum \<Rightarrow> u8 list list \<Rightarrow> u8 list" where
  "enc_blocks s [] = []"
| "enc_blocks s (c # cs) = c @ write_u64 (next_checksum c s) @ enc_blocks (next_checksum c s) cs"

text \<open>The full blocks of a payload, with \<open>m\<close> bytes each, and what is left.\<close>

function full :: "nat \<Rightarrow> u8 list \<Rightarrow> u8 list list" where
  "full m p = (if m = 0 \<or> length p < m then [] else take m p # full m (drop m p))"
  by pat_completeness auto
termination
  by (relation "measure (\<lambda>(m, p). length p)") auto

definition left :: "nat \<Rightarrow> u8 list \<Rightarrow> u8 list" where
  "left m p = drop (length p div m * m) p"

declare full.simps [simp del] writer_write.simps(2) [simp del]

lemma fletcher64_next: "4 dvd length c \<Longrightarrow> fletcher64 c s = Inr (next_checksum c s)"
  by (simp add: fletcher64_alt next_checksum_def dvd_eq_mod_eq_0)

lemma chain_append: "chain s (xs @ ys) = chain (chain s xs) ys"
  by (induction s xs rule: chain.induct) simp_all

lemma enc_blocks_append: "enc_blocks s (xs @ ys) = enc_blocks s xs @ enc_blocks (chain s xs) ys"
  by (induction s xs rule: chain.induct) simp_all

lemma length_enc_blocks:
  "\<forall>c\<in>set cs. length c = m \<Longrightarrow> length (enc_blocks s cs) = length cs * (m + 8)"
  by (induction s cs rule: enc_blocks.induct) simp_all

lemma length_concat_blocks:
  "\<forall>c\<in>set cs. length c = m \<Longrightarrow> length (concat cs) = length cs * m"
  by (induction cs) simp_all

lemma full_blocks:
  assumes "0 < m" "\<forall>c\<in>set cs. length c = m" "length t < m"
  shows "full m (concat cs @ t) = cs" "left m (concat cs @ t) = t"
proof -
  show "full m (concat cs @ t) = cs"
    using assms(2) by (induction cs) (use assms in \<open>simp_all add: full.simps [of m]\<close>)
  have "(length cs * m + length t) div m = length cs" using assms(1,3) by simp
  then have "length (concat cs @ t) div m * m = length (concat cs)"
    using length_concat_blocks [OF assms(2)] by simp
  then show "left m (concat cs @ t) = t" by (simp only: left_def) simp
qed

lemma full_exists:
  fixes p :: "u8 list"
  assumes "0 < m"
  obtains cs t where "p = concat cs @ t" "\<forall>c\<in>set cs. length c = m" "length t < m"
proof -
  have "\<exists>cs t. p = concat cs @ t \<and> (\<forall>c\<in>set cs. length c = m) \<and> length t < m"
    using assms
  proof (induction m p rule: full.induct)
    case (1 m p)
    show ?case
    proof (cases "length p < m")
      case True
      then show ?thesis by (intro exI [of _ "[]"] exI [of _ p]) simp
    next
      case False
      with 1 obtain cs t where "drop m p = concat cs @ t" "\<forall>c\<in>set cs. length c = m" "length t < m"
        by auto
      moreover from this(1) have "p = concat (take m p # cs) @ t"
        by (metis append.assoc append_take_drop_id concat.simps(2))
      ultimately show ?thesis
        using False by (intro exI [of _ "take m p # cs"] exI [of _ t]) simp
    qed
  qed
  with that show ?thesis by blast
qed

section \<open>The writer\<close>

text \<open>The writer whose unflushed payload is \<open>p\<close>, with \<open>s\<close> the checksum of the last flushed block.\<close>

definition writer_state :: "nat \<Rightarrow> checkpoint \<Rightarrow> checksum \<Rightarrow> u8 list \<Rightarrow> journal_writer" where
  "writer_state bs cp s p =
     \<lparr>w_block_size = bs, w_checkpoint = cp, last_checksum = chain s (full (bs - 8) p),
      w_buf = enc_blocks s (full (bs - 8) p) @ left (bs - 8) p\<rparr>"

definition block_size_ok :: "nat \<Rightarrow> bool" where
  "block_size_ok bs \<longleftrightarrow> 8 < bs \<and> 4 dvd bs"

lemma writer_state_block_size [simp]: "w_block_size (writer_state bs cp s p) = bs"
  by (simp add: writer_state_def)

lemma writer_step:
  assumes "block_size_ok bs" "\<forall>c\<in>set cs. length c = bs - 8" "length t < bs - 8" "data \<noteq> []"
  shows "\<exists>n > 0. writer_write (Suc fuel) data (writer_state bs cp s (concat cs @ t)) =
           writer_write fuel (drop n data) (writer_state bs cp s (concat cs @ t @ take n data))"
proof -
  let ?m = "bs - 8"
  have bs: "8 < bs" "4 dvd bs" using assms(1) by (auto simp: block_size_ok_def)
  have m: "0 < ?m" "4 dvd ?m" using bs by (auto intro: dvd_diff_nat)
  define w where "w = writer_state bs cp s (concat cs @ t)"
  have w: "w = \<lparr>w_block_size = bs, w_checkpoint = cp, last_checksum = chain s cs, w_buf = enc_blocks s cs @ t\<rparr>"
    using assms m by (simp add: w_def writer_state_def full_blocks)
  have len: "length (enc_blocks s cs) = length cs * bs"
    using length_enc_blocks [OF assms(2)] bs by simp
  have used: "length (w_buf w) mod bs = length t"
    using assms(3) bs by (simp add: w len)
  define space where "space = ?m - length t"
  define n where "n = min space (length data)"
  have pos: "0 < n" using assms(3,4) by (simp add: n_def space_def)
  have start: "length (w_buf w @ take n data) + 8 - bs = length (enc_blocks s cs)" if "n = space"
    using that assms(3) bs by (auto simp: w len n_def space_def)
  have full_n: "full ?m (concat cs @ t @ take n data) = cs @ [t @ take n data]"
      "left ?m (concat cs @ t @ take n data) = []" if "n = space"
    using that assms(2,3) m full_blocks [of ?m "cs @ [t @ take n data]" "[]"]
    by (auto simp: n_def space_def)
  have part_n: "full ?m (concat cs @ t @ take n data) = cs"
      "left ?m (concat cs @ t @ take n data) = t @ take n data" if "n \<noteq> space"
    using that assms(2,3) m full_blocks [of ?m cs "t @ take n data"]
    by (auto simp: n_def space_def)
  have four: "4 dvd length (t @ take n data)" if "n = space"
  proof -
    have "length (t @ take n data) = ?m" using that assms(3) by (auto simp: n_def space_def)
    with m show ?thesis by simp
  qed
  define buf where "buf = w_buf w @ take n data"
  have fields: "w_block_size w = bs" "last_checksum w = chain s cs" by (simp_all add: w)
  have nm: "min space (length data) = n" by (simp add: n_def)
  have sub: "u64_sub bs 8 = Inr ?m" "u64_sub ?m (length t) = Inr space"
    using bs assms(3) by (simp_all add: u64_sub_def space_def)
  have rem: "u64_rem (length (w_buf w)) bs = Inr (length t)"
    using bs used by (simp add: u64_rem_def)
  have step: "writer_write (Suc fuel) data w =
      bind_res (if n = space
                then bind_res (u64_sub (length buf + 8) bs) (\<lambda>start.
                     bind_res (fletcher64 (drop start buf) (chain s cs)) (\<lambda>c.
                       Inr (w\<lparr>last_checksum := c, w_buf := buf @ write_u64 c\<rparr>)))
                else Inr (w\<lparr>w_buf := buf\<rparr>)) (writer_write fuel (drop n data))"
    using assms(4) by (simp add: writer_write.simps(2) Let_def fields sub rem nm buf_def)
  have "writer_write (Suc fuel) data w =
          writer_write fuel (drop n data) (writer_state bs cp s (concat cs @ t @ take n data))"
  proof (cases "n = space")
    case True
    have "u64_sub (length buf + 8) bs = Inr (length (enc_blocks s cs))"
      using True start [OF True] assms(3) bs by (auto simp: u64_sub_def buf_def w len n_def space_def)
    moreover have "drop (length (enc_blocks s cs)) buf = t @ take n data" by (simp add: buf_def w)
    ultimately have "writer_write (Suc fuel) data w =
        writer_write fuel (drop n data) (w\<lparr>last_checksum := next_checksum (t @ take n data) (chain s cs),
          w_buf := buf @ write_u64 (next_checksum (t @ take n data) (chain s cs))\<rparr>)"
      using True step fletcher64_next [OF four [OF True]] by simp
    then show ?thesis
      by (simp add: w writer_state_def full_n [OF True] chain_append enc_blocks_append buf_def)
  next
    case False
    with step show ?thesis by (simp add: w writer_state_def part_n [OF False] buf_def)
  qed
  with pos show ?thesis unfolding w_def by blast
qed

lemma writer_write_appends:
  assumes "block_size_ok bs" "length data < fuel"
  shows "writer_write fuel data (writer_state bs cp s p) = Inr (writer_state bs cp s (p @ data))"
  using assms(2)
proof (induction fuel arbitrary: data p)
  case (Suc fuel)
  show ?case
  proof (cases "data = []")
    case False
    have "0 < bs - 8" using assms(1) by (auto simp: block_size_ok_def)
    then obtain cs t where p: "p = concat cs @ t" "\<forall>c\<in>set cs. length c = bs - 8" "length t < bs - 8"
      using full_exists by blast
    from writer_step [OF assms(1) p(2,3) False] obtain n where n: "0 < n"
      "writer_write (Suc fuel) data (writer_state bs cp s p) =
         writer_write fuel (drop n data) (writer_state bs cp s (p @ take n data))"
      by (metis append_assoc p(1))
    have "length (drop n data) < fuel" using Suc.prems False n(1) by (cases data) auto
    with n(2) show ?thesis by (simp add: Suc.IH)
  qed (simp add: writer_write.simps(2))
qed simp

lemma full_left:
  assumes "0 < m"
  shows "concat (full m p) @ left m p = p" "\<forall>c\<in>set (full m p). length c = m" "length (left m p) < m"
    "length (left m p) = length p mod m"
proof -
  obtain cs t where p: "p = concat cs @ t" "\<forall>c\<in>set cs. length c = m" "length t < m"
    using full_exists [OF assms] by blast
  then show "concat (full m p) @ left m p = p" "\<forall>c\<in>set (full m p). length c = m" "length (left m p) < m"
    using full_blocks [OF assms p(2,3)] by simp_all
  show "length (left m p) = length p mod m"
    by (simp add: left_def minus_div_mult_eq_mod)
qed

lemma full_of_left:
  assumes "0 < m"
  shows "full m (left m p) = []" "left m (left m p) = left m p"
  using full_left(3) [OF assms, of p] full_blocks [OF assms, of "[]" "left m p"] by simp_all

lemma writer_buf_mod:
  assumes "block_size_ok bs"
  shows "length (w_buf (writer_state bs cp s p)) mod bs = length p mod (bs - 8)"
    "length (w_buf (writer_state bs cp s p)) - length p mod (bs - 8) = length (full (bs - 8) p) * bs"
    "length (enc_blocks s (full (bs - 8) p)) = length (full (bs - 8) p) * bs"
proof -
  have bs: "8 < bs" "0 < bs - 8" using assms by (auto simp: block_size_ok_def)
  note fl = full_left [OF bs(2), of p]
  show len: "length (enc_blocks s (full (bs - 8) p)) = length (full (bs - 8) p) * bs"
    using length_enc_blocks [OF fl(2)] bs(1) by simp
  show "length (w_buf (writer_state bs cp s p)) - length p mod (bs - 8) = length (full (bs - 8) p) * bs"
    by (simp add: writer_state_def len fl(4))
  have "length (left (bs - 8) p) < bs" using fl(3) by simp
  then show "length (w_buf (writer_state bs cp s p)) mod bs = length p mod (bs - 8)"
    by (simp add: writer_state_def len fl(4) [symmetric])
qed

lemma take_buffer_payload:
  assumes "block_size_ok bs"
  shows "take_buffer (writer_state bs cp s p) =
     Inr (if full (bs - 8) p = [] then (None, writer_state bs cp s p)
          else (Some (file_offset cp, enc_blocks s (full (bs - 8) p)),
                writer_state bs (cp\<lparr>file_offset := file_offset cp + length (full (bs - 8) p) * bs,
                                    cp_checksum := chain s (full (bs - 8) p)\<rparr>)
                  (chain s (full (bs - 8) p)) (left (bs - 8) p)))"
proof -
  have bs: "0 < bs" "0 < bs - 8" using assms by (auto simp: block_size_ok_def)
  define w where "w = writer_state bs cp s p"
  have w: "w_block_size w = bs" "w_checkpoint w = cp" "last_checksum w = chain s (full (bs - 8) p)"
    "w_buf w = enc_blocks s (full (bs - 8) p) @ left (bs - 8) p"
    by (simp_all add: w_def writer_state_def)
  note wb = writer_buf_mod(1,2) [OF assms, of cp s p, folded w_def] writer_buf_mod(3) [OF assms, of s p]
  have zero: "length (full (bs - 8) p) * bs = 0 \<longleftrightarrow> full (bs - 8) p = []" using bs by simp
  show ?thesis
    unfolding w_def [symmetric] take_buffer_def w(1) u64_rem_eq [OF bs(1)] wb(1) bind_res_simps Let_def wb(2) zero
    by (simp add: w wb(3) [symmetric] full_of_left [OF bs(2)] writer_state_def)
qed

lemma pad_to_block_payload:
  assumes "block_size_ok bs" "bs \<le> fuel"
  shows "pad_to_block fuel (writer_state bs cp s p) =
     Inr (writer_state bs cp s (p @ replicate ((bs - 8 - length p mod (bs - 8)) mod (bs - 8)) 0))"
proof -
  have bs: "8 < bs" "0 < bs - 8" using assms by (auto simp: block_size_ok_def)
  have "length p mod (bs - 8) < bs - 8" using bs by simp
  then show ?thesis
    using bs assms writer_buf_mod(1) [OF assms(1), of cp s p]
    by (auto simp: pad_to_block_def u64_rem_def u64_sub_def writer_write_appends)
qed

text \<open>
  The writer's buffer is at all times the encoding of the payload written so far. A new writer has
  the empty payload; writing appends to it (whatever the sizes, across block boundaries); padding
  appends zeros up to the end of the block; taking the buffer returns exactly the encoded full blocks,
  keeps the rest, and moves the checkpoint to the end of what was taken, with the checksum of its last
  block.
\<close>

lemma writer_refines_payload:
  assumes "block_size_ok bs" "length data < fuel" "bs \<le> fuel"
  shows "writer_new v bs s = writer_state bs \<lparr>file_offset = 0, cp_checksum = 0, cp_version = v\<rparr> s [] \<and>
     writer_write fuel data (writer_state bs cp s p) = Inr (writer_state bs cp s (p @ data)) \<and>
     pad_to_block fuel (writer_state bs cp s p) =
       Inr (writer_state bs cp s (p @ replicate ((bs - 8 - length p mod (bs - 8)) mod (bs - 8)) 0)) \<and>
     take_buffer (writer_state bs cp s p) =
       Inr (if full (bs - 8) p = [] then (None, writer_state bs cp s p)
            else (Some (file_offset cp, enc_blocks s (full (bs - 8) p)),
                  writer_state bs (cp\<lparr>file_offset := file_offset cp + length (full (bs - 8) p) * bs,
                                      cp_checksum := chain s (full (bs - 8) p)\<rparr>)
                    (chain s (full (bs - 8) p)) (left (bs - 8) p)))"
proof -
  have "0 < bs - 8" using assms(1) by (auto simp: block_size_ok_def)
  then have "writer_new v bs s = writer_state bs \<lparr>file_offset = 0, cp_checksum = 0, cp_version = v\<rparr> s []"
    using full_blocks [of "bs - 8" "[]" "[]"] by (simp add: writer_new_def writer_state_def)
  with assms show ?thesis
    by (simp only: writer_write_appends pad_to_block_payload take_buffer_payload simp_thms)
qed

end
