(* ===== verification/Journal_Reader_Correct.thy ===== *)
theory Journal_Reader_Correct
  imports Journal_Correct
begin

text \<open>
  Correctness of \<^verbatim>\<open>JournalReader\<close>: at every moment the unread part of its buffer is the payload, from the
  reader's position on, of a chain of blocks that it has verified.
\<close>

section \<open>The reader's invariant\<close>

text \<open>The offset in the file of a position in the payload of the blocks that start at \<open>base\<close>.\<close>

definition payload_offset :: "nat \<Rightarrow> nat \<Rightarrow> nat \<Rightarrow> nat" where
  "payload_offset bs base pos = base + pos div (bs - 8) * bs + pos mod (bs - 8)"

definition blocks_ok :: "nat \<Rightarrow> u8 list list \<Rightarrow> bool" where
  "blocks_ok bs cs \<longleftrightarrow> (\<forall>c\<in>set cs. length c = bs - 8)"

text \<open>
  The reader has verified the blocks \<open>cs\<close> and stands at position \<open>pos\<close> of their payload. A reader that
  has read nothing may stand in the middle of the next block.
\<close>

definition reader_at ::
  "nat \<Rightarrow> nat \<Rightarrow> checksum \<Rightarrow> u8 list list \<Rightarrow> nat \<Rightarrow> journal_reader \<Rightarrow> bool" where
  "reader_at bs base s cs pos r \<longleftrightarrow>
     block_size_ok bs \<and> bs dvd base \<and> blocks_ok bs cs \<and> pos div (bs - 8) \<le> length cs \<and>
     r_block_size r = bs \<and> read_offset r = base + length cs * bs \<and>
     buf_file_offset r = payload_offset bs base pos \<and>
     r_checksums r = map (\<lambda>i. chain s (take i cs)) [pos div (bs - 8)..<Suc (length cs)] \<and>
     buf_start r \<le> buf_end r \<and> buf_end r \<le> length (r_buf r) \<and>
     reader_buffer r = drop pos (concat cs) \<and>
     (length cs * (bs - 8) < pos \<longrightarrow> buf_start r = 0)"

lemma reader_at_length:
  assumes "reader_at bs base s cs pos r"
  shows "buf_end r - buf_start r = length cs * (bs - 8) - pos"
proof -
  have "buf_end r \<le> length (r_buf r)" using assms by (simp add: reader_at_def)
  then have "length (reader_buffer r) = buf_end r - buf_start r" by (simp add: reader_buffer_def)
  moreover have "length (drop pos (concat cs)) = length cs * (bs - 8) - pos"
    using assms length_concat_blocks [of cs "bs - 8"] by (simp add: reader_at_def blocks_ok_def)
  ultimately show ?thesis using assms by (simp add: reader_at_def)
qed

lemma reader_at_last_checksum:
  assumes "reader_at bs base s cs pos r"
  shows "last_read_checksum r = Inr (chain s cs)"
  using assms by (auto simp: reader_at_def last_read_checksum_def)

lemma reader_at_beyond:
  assumes "reader_at bs base s cs pos r"
  shows "read_offset r < buf_file_offset r \<longleftrightarrow> length cs * (bs - 8) < pos"
    "length cs * (bs - 8) < pos \<Longrightarrow> buf_file_offset r - read_offset r = pos - length cs * (bs - 8)"
proof -
  let ?m = "bs - 8" and ?n = "length cs"
  have m: "0 < ?m" "?m < bs" using assms by (auto simp: reader_at_def block_size_ok_def)
  have q: "pos div ?m \<le> ?n" using assms by (simp add: reader_at_def)
  have split: "pos = pos div ?m * ?m + pos mod ?m" by (simp only: div_mult_mod_eq)
  show "length cs * ?m < pos \<Longrightarrow> buf_file_offset r - read_offset r = pos - length cs * ?m"
  proof -
    assume "?n * ?m < pos"
    then have "?n \<le> pos div ?m" using m by (simp add: less_eq_div_iff_mult_less_eq)
    with q have "pos div ?m = ?n" by simp
    with split show ?thesis using assms by (simp add: reader_at_def payload_offset_def)
  qed
  show "read_offset r < buf_file_offset r \<longleftrightarrow> ?n * ?m < pos"
  proof (cases "pos div ?m = ?n")
    case True
    with split have "?n * ?m < pos \<longleftrightarrow> 0 < pos mod ?m" by (metis add_diff_cancel_left' less_add_same_cancel1)
    with True show ?thesis using assms by (auto simp: reader_at_def payload_offset_def)
  next
    case False
    with q have lt: "Suc (pos div ?m) \<le> ?n" by simp
    then have "pos div ?m * ?m + ?m \<le> ?n * ?m" "pos div ?m * bs + bs \<le> ?n * bs"
      using mult_right_mono [OF lt, of ?m] mult_right_mono [OF lt, of bs] by simp_all
    moreover have "pos mod ?m < ?m" using m by simp
    ultimately have "\<not> ?n * ?m < pos" "pos div ?m * bs + pos mod ?m \<le> ?n * bs"
      using split m(2) by linarith+
    with assms show ?thesis by (simp add: reader_at_def payload_offset_def)
  qed
qed

section \<open>Reading a block\<close>

text \<open>A block at the given place of the file verifies after the blocks \<open>cs\<close>.\<close>

definition verifies :: "nat \<Rightarrow> checksum \<Rightarrow> u8 list \<Rightarrow> bool" where
  "verifies bs seed block \<longleftrightarrow>
     read_u64 (drop (bs - 8) block) = next_checksum (take (bs - 8) block) seed"

lemma read_block_good:
  assumes r: "reader_at bs base s cs pos r"
    and block: "read (base + length cs * bs) bs = Inr block" "length block = bs" "verifies bs (chain s cs) block"
  shows "\<exists>r'. read_block read r = Inr (True, r') \<and> reader_at bs base s (cs @ [take (bs - 8) block]) pos r' \<and>
     \<not> first_read r' \<and> found_reset r' = found_reset r \<and> bad_checksum r' = bad_checksum r \<and> r_version r' = r_version r"
proof -
  let ?m = "bs - 8" and ?c = "take (bs - 8) block"
  have bs: "8 < bs" "4 dvd ?m" using r by (auto simp: reader_at_def block_size_ok_def intro: dvd_diff_nat)
  have m: "0 < ?m" using bs by simp
  have f: "r_block_size r = bs" "read_offset r = base + length cs * bs" "bs dvd base" "pos div ?m \<le> length cs"
    "blocks_ok bs cs" "buf_end r \<le> length (r_buf r)" "buf_start r \<le> buf_end r"
    "reader_buffer r = drop pos (concat cs)"
    using r by (simp_all add: reader_at_def)
  have aligned: "(base + length cs * bs) mod bs = 0" using f(3) by auto
  have fl: "fletcher64 ?c (chain s cs) = Inr (next_checksum ?c (chain s cs))"
    using bs block(2) by (intro fletcher64_next) simp
  have st: "read_u64 (drop ?m block) = next_checksum ?c (chain s cs)"
    using block(3) by (simp add: verifies_def)
  define r1 where "r1 = r\<lparr>r_buf := take (buf_end r) (r_buf r) @ block, first_read := False,
      r_checksums := r_checksums r @ [next_checksum ?c (chain s cs)]\<rparr>"
  define start where "start = (if length cs * ?m < pos then pos - length cs * ?m else buf_start r)"
  define r' where "r' = r1\<lparr>buf_start := start, buf_end := buf_end r + bs - 8, read_offset := base + length cs * bs + bs\<rparr>"
  have len: "length (r_buf r1) = buf_end r + bs" using f(6) block(2) by (simp add: r1_def)
  have zero: "length cs * ?m < pos \<Longrightarrow> buf_start r = 0" using r by (simp add: reader_at_def)
  have "read_block read r = Inr (True, r')"
    using reader_at_beyond [OF r] zero len
    by (auto simp: read_block_def Let_def f reader_at_last_checksum [OF r] aligned block fl st r1_def r'_def start_def)
  moreover have "reader_at bs base s (cs @ [?c]) pos r'"
  proof -
    have empty: "buf_end r = 0 \<and> pos - length cs * ?m < ?m \<and> pos div ?m = length cs" if "length cs * ?m < pos"
    proof -
      from that have "length cs \<le> pos div ?m" using m by (simp add: less_eq_div_iff_mult_less_eq)
      with f(4) have q: "pos div ?m = length cs" by simp
      then have "pos - length cs * ?m = pos mod ?m" by (metis minus_div_mult_eq_mod)
      with m q reader_at_length [OF r] zero [OF that] that show ?thesis by simp
    qed
    have buf: "reader_buffer r' = drop pos (concat cs @ ?c)"
    proof (cases "length cs * ?m < pos")
      case True
      with empty [OF True] f(5) block(2) show ?thesis
        by (simp add: reader_buffer_def r'_def r1_def start_def length_concat_blocks [of cs ?m] blocks_ok_def)
    next
      case False
      then have "pos \<le> length (concat cs)" using f(5) by (simp add: length_concat_blocks [of cs ?m] blocks_ok_def)
      moreover have "take (buf_end r + bs - 8) (take (buf_end r) (r_buf r) @ block) = take (buf_end r) (r_buf r) @ ?c"
      proof -
        have "buf_end r + bs - 8 = length (take (buf_end r) (r_buf r)) + ?m" using f(6) bs(1) by simp
        then show ?thesis using f(6) by (simp only: take_append) (simp add: min_absorb2)
      qed
      ultimately show ?thesis
        using False f(6,7,8) by (simp add: reader_buffer_def r'_def r1_def start_def)
    qed
    have chk: "r_checksums r' = map (\<lambda>i. chain s (take i (cs @ [?c]))) [pos div ?m..<Suc (length (cs @ [?c]))]"
    proof -
      have "r_checksums r = map (\<lambda>i. chain s (take i (cs @ [?c]))) [pos div ?m..<Suc (length cs)]"
        using r by (auto simp: reader_at_def)
      with f(4) show ?thesis by (simp add: r'_def r1_def chain_append)
    qed
    have "start \<le> buf_end r + bs - 8"
      using empty f(7) bs(1) by (auto simp: start_def)
    moreover have "pos < length (cs @ [?c]) * ?m"
      using f(4) div_less_iff_less_mult [OF m, of pos "length (cs @ [?c])"] by simp
    ultimately show ?thesis
      unfolding reader_at_def using r buf chk f len block(2) bs(1)
      by (simp add: reader_at_def r'_def r1_def blocks_ok_def)
  qed
  ultimately show ?thesis by (intro exI [of _ r']) (simp add: r'_def r1_def)
qed

lemma read_block_parts:
  assumes r: "reader_at bs base s cs pos r"
    and block: "read (base + length cs * bs) bs = Inr block" "length block = bs" "\<not> verifies bs (chain s cs) block"
  shows "read_block read r =
     Inr (False, if \<not> first_read r \<and> verifies bs (xor (chain s cs) reset_xor) block
                 then r\<lparr>r_buf := take (buf_end r) (r_buf r) @ block, found_reset := True,
                        r_checksums := r_checksums r @ [read_u64 (drop (bs - 8) block)],
                        read_offset := base + length cs * bs + bs\<rparr>
                 else r\<lparr>r_buf := take (buf_end r) (r_buf r) @ block, bad_checksum := True\<rparr>)"
proof -
  have bs: "8 < bs" "4 dvd bs - 8" using r by (auto simp: reader_at_def block_size_ok_def intro: dvd_diff_nat)
  have f: "r_block_size r = bs" "read_offset r = base + length cs * bs" "bs dvd base"
    using r by (simp_all add: reader_at_def)
  have fl: "fletcher64 (take (bs - 8) block) x = Inr (next_checksum (take (bs - 8) block) x)" for x
    using bs block(2) by (intro fletcher64_next) simp
  have "(base + length cs * bs) mod bs = 0" using f(3) by auto
  then show ?thesis
    using block(3)
    by (simp add: read_block_def Let_def f reader_at_last_checksum [OF r] block(1,2) fl verifies_def)
qed

lemma reader_at_extend_buffer:
  assumes "reader_at bs base s cs pos r"
  shows "reader_at bs base s cs pos (r\<lparr>r_buf := take (buf_end r) (r_buf r) @ block, bad_checksum := b\<rparr>)"
  using assms by (simp add: reader_at_def reader_buffer_def)

lemma reader_at_shuffle:
  assumes "reader_at bs base s cs pos r"
  shows "reader_at bs base s cs pos
     (r\<lparr>r_buf := reader_buffer r @ drop (length (reader_buffer r)) (r_buf r), buf_start := 0,
        buf_end := buf_end r - buf_start r\<rparr>)"
proof -
  define r' where "r' = r\<lparr>r_buf := reader_buffer r @ drop (length (reader_buffer r)) (r_buf r), buf_start := 0,
      buf_end := buf_end r - buf_start r\<rparr>"
  have le: "buf_end r \<le> length (r_buf r)" using assms by (simp add: reader_at_def)
  then have len: "length (reader_buffer r) = buf_end r - buf_start r" by (simp add: reader_buffer_def)
  have "reader_buffer r' = reader_buffer r" 
    unfolding reader_buffer_def [of r'] by (simp add: r'_def len)
  moreover have "buf_end r' \<le> length (r_buf r')" using le by (simp add: r'_def len)
  ultimately have "reader_at bs base s cs pos r'" using assms by (simp add: reader_at_def r'_def)
  then show ?thesis by (simp add: r'_def)
qed

section \<open>Filling the buffer\<close>

text \<open>The file holds the blocks \<open>cs\<close> from \<open>base\<close> on, and each of them verifies.\<close>

definition on_file ::
  "(nat \<Rightarrow> nat \<Rightarrow> u8 list res) \<Rightarrow> nat \<Rightarrow> nat \<Rightarrow> checksum \<Rightarrow> u8 list list \<Rightarrow> bool" where
  "on_file read bs base s cs \<longleftrightarrow>
     (\<forall>i<length cs. \<exists>block. read (base + i * bs) bs = Inr block \<and> length block = bs \<and>
        take (bs - 8) block = cs ! i \<and> verifies bs (chain s (take i cs)) block)"

text \<open>The block after \<open>cs\<close> verifies neither as the next block nor as the first one after a reset.\<close>

definition stops_after ::
  "(nat \<Rightarrow> nat \<Rightarrow> u8 list res) \<Rightarrow> nat \<Rightarrow> nat \<Rightarrow> checksum \<Rightarrow> u8 list list \<Rightarrow> bool" where
  "stops_after read bs base s cs \<longleftrightarrow>
     (\<exists>block. read (base + length cs * bs) bs = Inr block \<and> length block = bs \<and>
        \<not> verifies bs (chain s cs) block \<and> \<not> verifies bs (xor (chain s cs) reset_xor) block)"

text \<open>The reader has read the first \<open>n\<close> of the blocks and, if it met a bad block, all of them.\<close>

definition reader_on ::
  "nat \<Rightarrow> nat \<Rightarrow> checksum \<Rightarrow> u8 list list \<Rightarrow> nat \<Rightarrow> nat \<Rightarrow> journal_reader \<Rightarrow> bool" where
  "reader_on bs base s cs n pos r \<longleftrightarrow>
     n \<le> length cs \<and> reader_at bs base s (take n cs) pos r \<and> \<not> found_reset r \<and>
     (bad_checksum r \<longrightarrow> n = length cs)"

lemma fill_loop_reads:
  assumes "on_file read bs base s cs" "stops_after read bs base s cs"
    and "reader_on bs base s cs n pos r" "\<not> bad_checksum r" "pos div (bs - 8) + 2 - n < fuel"
  shows "\<exists>r' n'. fill_loop fuel read r = Inr r' \<and> reader_on bs base s cs n' pos r' \<and>
     (n' = length cs \<or> pos + (bs - 8) \<le> n' * (bs - 8)) \<and> r_version r' = r_version r"
  using assms(3-5)
proof (induction fuel arbitrary: n r)
  case (Suc fuel)
  let ?m = "bs - 8"
  from Suc.prems have at: "reader_at bs base s (take n cs) pos r" and n: "n \<le> length cs"
    by (simp_all add: reader_on_def)
  have bsr: "r_block_size r = bs" and m: "0 < ?m" using at by (auto simp: reader_at_def block_size_ok_def)
  have len: "buf_end r - buf_start r = n * ?m - pos" using reader_at_length [OF at] n by simp
  show ?case
  proof (cases "n * ?m - pos < ?m")
    case False
    then have "pos + ?m \<le> n * ?m" using m by simp
    with Suc.prems len bsr False show ?thesis by (intro exI [of _ r] exI [of _ n]) simp
  next
    case True
    have small: "n < pos div ?m + 2"
    proof (rule ccontr)
      assume "\<not> ?thesis"
      then have "(pos div ?m + 2) * ?m \<le> n * ?m" by (intro mult_right_mono) simp_all
      moreover have "pos mod ?m < ?m" "pos = pos div ?m * ?m + pos mod ?m" using m by (simp_all only: mod_less_divisor div_mult_mod_eq)
      moreover have "(pos div ?m + 2) * ?m = pos div ?m * ?m + 2 * ?m" by (simp only: add_mult_distrib)
      ultimately show False using True by linarith
    qed
    show ?thesis
    proof (cases "n = length cs")
      case False
      with n have lt: "n < length cs" by simp
      with assms(1) obtain block where b: "read (base + n * bs) bs = Inr block" "length block = bs"
          "take ?m block = cs ! n" "verifies bs (chain s (take n cs)) block"
        by (auto simp: on_file_def)
      with read_block_good [OF at, of read block] n obtain r' where r': "read_block read r = Inr (True, r')"
          "reader_at bs base s (take n cs @ [take ?m block]) pos r'" "found_reset r' = found_reset r"
          "bad_checksum r' = bad_checksum r" "r_version r' = r_version r"
        by (auto simp: min_absorb2)
      have "reader_on bs base s cs (Suc n) pos r'"
        using r' Suc.prems lt b(3) by (simp add: reader_on_def take_Suc_conv_app_nth)
      moreover have "pos div ?m + 2 - Suc n < fuel" using Suc.prems(3) small by simp
      ultimately obtain r'' n' where "fill_loop fuel read r' = Inr r''" "reader_on bs base s cs n' pos r''"
          "n' = length cs \<or> pos + ?m \<le> n' * ?m" "r_version r'' = r_version r'"
        using Suc.IH [of "Suc n" r'] r'(4) Suc.prems(2) by auto
      with r' True len bsr show ?thesis by (intro exI [of _ r''] exI [of _ n']) simp
    next
      case eq: True
      with assms(2) obtain block where b: "read (base + n * bs) bs = Inr block" "length block = bs"
          "\<not> verifies bs (chain s cs) block" "\<not> verifies bs (xor (chain s cs) reset_xor) block"
        by (auto simp: stops_after_def)
      with at eq read_block_parts [OF at, of read block] have
        "read_block read r = Inr (False, r\<lparr>r_buf := take (buf_end r) (r_buf r) @ block, bad_checksum := True\<rparr>)"
        by simp
      with True len bsr eq Suc.prems(1) reader_at_extend_buffer [OF at, of True block] show ?thesis
        by (intro exI [of _ "r\<lparr>r_buf := take (buf_end r) (r_buf r) @ block, bad_checksum := True\<rparr>"] exI [of _ n])
          (simp add: reader_on_def)
    qed
  qed
qed simp

lemma fill_buf_reads:
  assumes "on_file read bs base s cs" "stops_after read bs base s cs"
    and "reader_on bs base s cs n pos r" "2 < fuel"
  shows "\<exists>r' n'. fill_buf fuel read r = Inr r' \<and> reader_on bs base s cs n' pos r' \<and>
     (n' = length cs \<or> pos + (bs - 8) \<le> n' * (bs - 8)) \<and> r_version r' = r_version r"
proof -
  let ?m = "bs - 8"
  from assms(3) have at: "reader_at bs base s (take n cs) pos r" and n: "n \<le> length cs"
    by (simp_all add: reader_on_def)
  have bsr: "r_block_size r = bs" "8 \<le> bs" "pos div ?m \<le> n" and m: "0 < ?m"
    using at n by (auto simp: reader_at_def block_size_ok_def)
  have len: "buf_end r - buf_start r = n * ?m - pos" using reader_at_length [OF at] n by simp
  show ?thesis
  proof (cases "bad_checksum r \<or> ?m \<le> n * ?m - pos")
    case True
    then have "n = length cs \<or> pos + ?m \<le> n * ?m" using assms(3) m by (auto simp: reader_on_def)
    with True assms(3) bsr len show ?thesis
      by (intro exI [of _ r] exI [of _ n]) (auto simp: fill_buf_def u64_sub_def)
  next
    case False
    define r0 where "r0 = r\<lparr>r_buf := reader_buffer r @ drop (length (reader_buffer r)) (r_buf r), buf_start := 0,
        buf_end := buf_end r - buf_start r\<rparr>"
    have "reader_on bs base s cs n pos r0"
      using assms(3) reader_at_shuffle [OF at] by (simp add: reader_on_def r0_def)
    moreover have "pos div ?m + 2 - n < fuel" "\<not> bad_checksum r0" using bsr(3) assms(4) False by (simp_all add: r0_def)
    moreover have "fill_buf fuel read r = fill_loop fuel read r0"
      using False assms(3) bsr len by (simp add: fill_buf_def u64_sub_def r0_def reader_on_def)
    moreover have "r_version r0 = r_version r" by (simp add: r0_def)
    ultimately show ?thesis using fill_loop_reads [OF assms(1,2), of n pos r0 fuel] by simp
  qed
qed

section \<open>Consuming\<close>

lemma add_div_mod_once:
  fixes pos a m :: nat
  assumes "0 < m" "a \<le> m"
  shows "(pos + a) div m = (if pos mod m + a \<ge> m then Suc (pos div m) else pos div m)"
    "(pos + a) mod m = (if pos mod m + a \<ge> m then pos mod m + a - m else pos mod m + a)"
proof -
  let ?t = "pos mod m"
  have t: "?t < m" using assms by simp
  have eq: "pos + a = pos div m * m + (?t + a)" by (metis add.assoc div_mult_mod_eq)
  have d: "(pos + a) div m = pos div m + (?t + a) div m"
    unfolding eq using assms(1) by (simp only: div_mult_self3)
  have r: "(pos + a) mod m = (?t + a) mod m" by (simp add: mod_add_left_eq)
  have "(?t + a) div m = (if ?t + a \<ge> m then 1 else 0)"
  proof (cases "m \<le> ?t + a")
    case True
    with t assms have "(?t + a) div m = Suc ((?t + a - m) div m)" by (intro le_div_geq)
    moreover have "?t + a - m < m" using t assms by linarith
    ultimately show ?thesis using True by simp
  qed simp
  with d show "(pos + a) div m = (if ?t + a \<ge> m then Suc (pos div m) else pos div m)" by simp
  show "(pos + a) mod m = (if ?t + a \<ge> m then ?t + a - m else ?t + a)"
  proof (cases "m \<le> ?t + a")
    case True
    moreover have "?t + a - m < m" using t assms by linarith
    ultimately show ?thesis unfolding r by (simp only: le_mod_geq mod_less if_True)
  qed (simp add: r)
qed

lemma consume_explicit:
  assumes "8 < bs" "r_block_size r = bs" "bs dvd base" "buf_file_offset r = payload_offset bs base pos"
    and "amount \<le> bs - 8" "r_checksums r \<noteq> []"
  shows "consume amount r = Inr (r\<lparr>buf_file_offset := payload_offset bs base (pos + amount),
      r_checksums := drop ((pos + amount) div (bs - 8) - pos div (bs - 8)) (r_checksums r),
      buf_start := buf_start r + amount\<rparr>)"
proof -
  let ?m = "bs - 8" and ?t = "pos mod (bs - 8)" and ?q = "pos div (bs - 8)"
  have m: "0 < ?m" using assms(1) by simp
  have t: "?t < ?m" using m by simp
  have t_bs: "?t < bs" using t by linarith
  have before: "payload_offset bs base pos mod bs = ?t"
  proof -
    obtain k where k: "base = bs * k" using assms(3) by (elim dvdE)
    have "payload_offset bs base pos = (k + ?q) * bs + ?t" by (simp add: payload_offset_def k algebra_simps)
    then show ?thesis using t_bs by simp
  qed
  note dm = add_div_mod_once [OF m assms(5), of pos]
  define crosses where "crosses \<longleftrightarrow> ?t + amount \<ge> ?m"
  have off: "payload_offset bs base (pos + amount) =
      (if crosses then payload_offset bs base pos + amount + 8 else payload_offset bs base pos + amount)"
    unfolding payload_offset_def dm crosses_def using assms(1) t by auto
  have guard: "u64_rem (payload_offset bs base pos) bs = Inr ?t" "u64_sub bs 8 = Inr ?m" "amount < bs"
    using assms(1,5) before by (auto simp: u64_rem_def u64_sub_def)
  show ?thesis
  proof (cases crosses)
    case True
    with guard assms(4,6) dm(1) off show ?thesis
      by (simp add: consume_def assms(2) Let_def crosses_def drop_Suc)
  next
    case False
    with guard assms(4) dm(1) off show ?thesis
      by (simp add: consume_def assms(2) Let_def crosses_def)
  qed
qed

lemma consume_at:
  assumes r: "reader_at bs base s cs pos r"
    and amount: "amount \<le> bs - 8" "pos + amount \<le> length cs * (bs - 8)"
  shows "\<exists>r'. consume amount r = Inr r' \<and> reader_at bs base s cs (pos + amount) r' \<and>
     found_reset r' = found_reset r \<and> bad_checksum r' = bad_checksum r \<and> r_version r' = r_version r \<and>
     first_read r' = first_read r \<and> r_buf r' = r_buf r \<and> buf_end r' = buf_end r"
proof -
  let ?m = "bs - 8" and ?q = "pos div (bs - 8)"
  have f: "8 < bs" "r_block_size r = bs" "bs dvd base" "buf_file_offset r = payload_offset bs base pos"
      "r_checksums r = map (\<lambda>i. chain s (take i cs)) [?q..<Suc (length cs)]" "?q \<le> length cs"
    using r by (simp_all add: reader_at_def block_size_ok_def)
  have m: "0 < ?m" using f(1) by simp
  have q': "(pos + amount) div ?m \<le> length cs" "?q \<le> (pos + amount) div ?m"
    using amount(2) m div_le_mono [of "pos + amount" "length cs * ?m" ?m] div_le_mono [of pos "pos + amount" ?m] by simp_all
  have full: "buf_start r + amount \<le> buf_end r"
  proof -
    have "buf_end r - buf_start r = length cs * ?m - pos" using reader_at_length [OF r] by simp
    moreover have "buf_start r \<le> buf_end r" using r by (simp add: reader_at_def)
    ultimately show ?thesis using amount(2) by linarith
  qed
  have buf: "drop (buf_start r + amount) (take (buf_end r) (r_buf r)) = drop (pos + amount) (concat cs)"
  proof -
    have "drop (buf_start r) (take (buf_end r) (r_buf r)) = drop pos (concat cs)"
      using r by (simp add: reader_at_def reader_buffer_def)
    then have "drop amount (drop (buf_start r) (take (buf_end r) (r_buf r))) = drop amount (drop pos (concat cs))" by simp
    then show ?thesis by (simp only: drop_drop add.commute)
  qed
  define r' where "r' = r\<lparr>buf_file_offset := payload_offset bs base (pos + amount),
      r_checksums := map (\<lambda>i. chain s (take i cs)) [(pos + amount) div ?m..<Suc (length cs)],
      buf_start := buf_start r + amount\<rparr>"
  have "drop ((pos + amount) div ?m - ?q) (r_checksums r) =
      map (\<lambda>i. chain s (take i cs)) [(pos + amount) div ?m..<Suc (length cs)]"
    unfolding f(5) drop_map drop_upt using q'(2) by simp
  moreover have "r_checksums r \<noteq> []" using f(5,6) by simp
  ultimately have "consume amount r = Inr r'"
    using consume_explicit [OF f(1-4) amount(1)] by (simp add: r'_def del: upt_Suc)
  moreover have "reader_at bs base s cs (pos + amount) r'"
    using r full buf q' amount(2) by (simp add: reader_at_def r'_def reader_buffer_def del: upt_Suc)
  ultimately show ?thesis by (intro exI [of _ r']) (simp add: r'_def)
qed

section \<open>Records\<close>

lemma deserialize_reads:
  assumes onf: "on_file read bs base s cs" "stops_after read bs base s cs"
    and r: "reader_on bs base s cs n pos r" "2 < fuel"
    and payload: "drop pos (concat cs) = bytes @ rest" "length bytes \<le> bs - 8" "bytes \<noteq> []"
    and deser: "\<And>more. deser (r_version r) (bytes @ more) = Inr (x, length bytes)"
  shows "\<exists>r' n'. deserialize fuel read deser r = Inr (GotRecord x, r') \<and>
     reader_on bs base s cs n' (pos + length bytes) r' \<and> r_version r' = r_version r"
proof -
  let ?m = "bs - 8"
  obtain r1 n1 where r1: "fill_buf fuel read r = Inr r1" "reader_on bs base s cs n1 pos r1"
      "n1 = length cs \<or> pos + ?m \<le> n1 * ?m" "r_version r1 = r_version r"
    using fill_buf_reads [OF onf r] by blast
  have at: "reader_at bs base s (take n1 cs) pos r1" and n1: "n1 \<le> length cs"
    using r1(2) by (simp_all add: reader_on_def)
  have blk: "\<forall>c\<in>set (take n1 cs). length c = ?m" using at by (simp add: reader_at_def blocks_ok_def)
  have lenc: "length (concat (take n1 cs)) = n1 * ?m" using length_concat_blocks [OF blk] n1 by simp
  have split: "concat cs = concat (take n1 cs) @ concat (drop n1 cs)"
    by (metis append_take_drop_id concat_append)
  have en: "pos + length bytes \<le> n1 * ?m"
  proof (cases "n1 = length cs")
    case True
    have "length (drop pos (concat cs)) = length bytes + length rest" by (simp add: payload(1))
    then have "length cs * ?m - pos = length bytes + length rest" using True lenc by simp
    moreover have "0 < length bytes" using payload(3) by simp
    ultimately show ?thesis unfolding True by linarith
  next
    case False
    with r1(3) payload(2) show ?thesis by simp
  qed
  have "reader_buffer r1 = drop pos (concat (take n1 cs))" using at by (simp add: reader_at_def)
  moreover have "drop pos (concat cs) = drop pos (concat (take n1 cs)) @ concat (drop n1 cs)"
    using en lenc by (simp add: split)
  ultimately have "bytes @ rest = reader_buffer r1 @ concat (drop n1 cs)" using payload(1) by simp
  moreover have "length bytes \<le> length (reader_buffer r1)"
    using \<open>reader_buffer r1 = _\<close> en lenc by simp
  ultimately obtain more where "reader_buffer r1 = bytes @ more"
    by (metis append_eq_append_conv_if append_take_drop_id)
  then have d: "deser (r_version r1) (reader_buffer r1) = Inr (x, length bytes)" using deser r1(4) by simp
  obtain r2 where r2: "consume (length bytes) r1 = Inr r2" "reader_at bs base s (take n1 cs) (pos + length bytes) r2"
      "found_reset r2 = found_reset r1" "bad_checksum r2 = bad_checksum r1" "r_version r2 = r_version r1"
    using consume_at [OF at payload(2)] en n1 by (auto simp: min_absorb2)
  then show ?thesis
    using r1 d by (intro exI [of _ r2] exI [of _ n1]) (simp add: deserialize_def reader_on_def)
qed

text \<open>Reading \<open>k\<close> results one after the other, and writing records one after the other.\<close>

fun read_results ::
  "nat \<Rightarrow> nat \<Rightarrow> (nat \<Rightarrow> nat \<Rightarrow> u8 list res) \<Rightarrow> 'r deserializer \<Rightarrow> journal_reader \<Rightarrow>
   ('r read_result list \<times> journal_reader) res" where
  "read_results 0 fuel read deser r = Inr ([], r)"
| "read_results (Suc k) fuel read deser r =
     bind_res (deserialize fuel read deser r) (\<lambda>(x, r).
     bind_res (read_results k fuel read deser r) (\<lambda>(xs, r). Inr (x # xs, r)))"

fun write_records :: "nat \<Rightarrow> ('r \<Rightarrow> u8 list) \<Rightarrow> 'r list \<Rightarrow> journal_writer \<Rightarrow> journal_writer res" where
  "write_records fuel ser [] w = Inr w"
| "write_records fuel ser (r # rs) w = bind_res (write_record fuel ser r w) (write_records fuel ser rs)"

definition records_ok :: "nat \<Rightarrow> nat \<Rightarrow> ('r \<Rightarrow> u8 list) \<Rightarrow> 'r deserializer \<Rightarrow> 'r list \<Rightarrow> bool" where
  "records_ok bs v ser deser rs \<longleftrightarrow>
     (\<forall>r\<in>set rs. ser r \<noteq> [] \<and> length (ser r) \<le> bs - 8 \<and>
        (\<forall>more. deser v (ser r @ more) = Inr (r, length (ser r))))"

lemma read_results_records:
  assumes "on_file read bs base s cs" "stops_after read bs base s cs" "2 < fuel"
  shows "reader_on bs base s cs n pos r \<Longrightarrow> records_ok bs (r_version r) ser deser rs \<Longrightarrow>
    drop pos (concat cs) = concat (map ser rs) @ rest \<Longrightarrow>
    \<exists>r' n'. read_results (length rs) fuel read deser r = Inr (map GotRecord rs, r') \<and>
       reader_on bs base s cs n' (pos + length (concat (map ser rs))) r'"
proof (induction rs arbitrary: n pos r)
  case (Cons x rs)
  have x: "ser x \<noteq> []" "length (ser x) \<le> bs - 8" "deser (r_version r) (ser x @ more) = Inr (x, length (ser x))" for more
    using Cons.prems(2) by (simp_all add: records_ok_def)
  have p: "drop pos (concat cs) = ser x @ concat (map ser rs) @ rest" using Cons.prems(3) by simp
  obtain r1 n1 where r1: "deserialize fuel read deser r = Inr (GotRecord x, r1)"
      "reader_on bs base s cs n1 (pos + length (ser x)) r1" "r_version r1 = r_version r"
    using deserialize_reads [where deser = deser, OF assms(1,2) Cons.prems(1) assms(3) p x(2,1,3)] by blast
  have "drop (length (ser x)) (drop pos (concat cs)) = concat (map ser rs) @ rest" by (simp only: p append_eq_conv_conj drop_append) simp
  then have "drop (pos + length (ser x)) (concat cs) = concat (map ser rs) @ rest" by (simp add: add.commute)
  moreover have "records_ok bs (r_version r1) ser deser rs" using Cons.prems(2) r1(3) by (simp add: records_ok_def)
  ultimately obtain r' n' where "read_results (length rs) fuel read deser r1 = Inr (map GotRecord rs, r')"
      "reader_on bs base s cs n' (pos + length (ser x) + length (concat (map ser rs))) r'"
    using Cons.IH [OF r1(2)] by blast
  with r1(1) show ?case by (intro exI [of _ r'] exI [of _ n']) (simp add: add.assoc)
qed auto

lemma writer_buf_length:
  assumes "block_size_ok bs"
  shows "length (w_buf (writer_state bs cp s p)) = payload_offset bs 0 (length p)"
proof -
  have m: "0 < bs - 8" "8 < bs" using assms by (auto simp: block_size_ok_def)
  have "length (concat (full (bs - 8) p) @ left (bs - 8) p) = length p" using full_left(1) [OF m(1)] by simp
  then have "length (full (bs - 8) p) * (bs - 8) + length p mod (bs - 8) = length p"
    using length_concat_blocks [OF full_left(2) [OF m(1)], of p] full_left(4) [OF m(1), of p] by simp
  moreover have "length p div (bs - 8) * (bs - 8) + length p mod (bs - 8) = length p" by (rule div_mult_mod_eq)
  ultimately have "length (full (bs - 8) p) * (bs - 8) = length p div (bs - 8) * (bs - 8)" by linarith
  then have "length (full (bs - 8) p) = length p div (bs - 8)" using m(1) by simp
  then show ?thesis
    using writer_buf_mod(3) [OF assms, of s p] full_left(4) [OF m(1), of p]
    by (simp add: writer_state_def payload_offset_def)
qed

lemma write_records_appends:
  assumes "block_size_ok bs" "\<forall>r\<in>set rs. length (ser r) \<le> bs - 8" "bs \<le> fuel"
  shows "write_records fuel ser rs (writer_state bs cp s p) = Inr (writer_state bs cp s (p @ concat (map ser rs)))"
  using assms(2)
proof (induction rs arbitrary: p)
  case (Cons r rs)
  let ?m = "bs - 8"
  have m: "0 < ?m" "8 < bs" using assms by (auto simp: block_size_ok_def)
  have len: "length (ser r) \<le> ?m" using Cons.prems by simp
  note dm = add_div_mod_once [OF m(1) len, of "length p"]
  have "payload_offset bs 0 (length p) \<le> payload_offset bs 0 (length p + length (ser r)) \<and>
      payload_offset bs 0 (length p + length (ser r)) \<le> payload_offset bs 0 (length p) + bs"
    unfolding payload_offset_def dm using m len mod_less_divisor [OF m(1), of "length p"] by auto
  then have "payload_offset bs 0 (length p) \<le> payload_offset bs 0 (length p + length (ser r))"
    "payload_offset bs 0 (length p + length (ser r)) - payload_offset bs 0 (length p) \<le> bs"
    by linarith+
  moreover have "length (ser r) < fuel" using len assms(3) m(2) by linarith
  ultimately have "write_record fuel ser r (writer_state bs cp s p) = Inr (writer_state bs cp s (p @ ser r))"
    using writer_write_appends [OF assms(1)]
    by (simp add: write_record_def writer_buf_length [OF assms(1)] u64_sub_def ensure_def)
  with Cons show ?case by simp
qed simp

section \<open>Round trip\<close>

lemma drop_length_plus: "drop (length xs + k) (xs @ ys) = drop k ys"
  by simp

lemma enc_blocks_nth:
  assumes "\<forall>c\<in>set cs. length c = bs - 8" "8 < bs" "i < length cs"
  shows "take bs (drop (i * bs) (enc_blocks s cs)) =
     cs ! i @ write_u64 (next_checksum (cs ! i) (chain s (take i cs)))"
  using assms(1,3)
proof (induction cs arbitrary: i s)
  case (Cons c cs)
  have len: "length (c @ write_u64 (next_checksum c s)) = bs" using Cons.prems(1) assms(2) by simp
  show ?case
  proof (cases i)
    case 0
    have "take bs ((c @ write_u64 (next_checksum c s)) @ enc_blocks (next_checksum c s) cs) = c @ write_u64 (next_checksum c s)"
      using len by (metis append_eq_conv_conj)
    with 0 show ?thesis by simp
  next
    case (Suc j)
    have "drop (i * bs) ((c @ write_u64 (next_checksum c s)) @ enc_blocks (next_checksum c s) cs) =
        drop (j * bs) (enc_blocks (next_checksum c s) cs)"
      using Suc drop_length_plus [of "c @ write_u64 (next_checksum c s)" "j * bs", unfolded len] by simp
    with Suc Cons show ?thesis by simp
  qed
qed simp

text \<open>The file holds the given bytes, block by block, and the block after them is not part of the chain.\<close>

definition file_holds :: "(nat \<Rightarrow> nat \<Rightarrow> u8 list res) \<Rightarrow> nat \<Rightarrow> nat \<Rightarrow> u8 list \<Rightarrow> checksum \<Rightarrow> bool" where
  "file_holds read bs off bytes final \<longleftrightarrow>
     (\<forall>i. i * bs < length bytes \<longrightarrow> read (off + i * bs) bs = Inr (take bs (drop (i * bs) bytes))) \<and>
     (\<exists>block. read (off + length bytes) bs = Inr block \<and> length block = bs \<and>
        \<not> verifies bs final block \<and> \<not> verifies bs (xor final reset_xor) block)"

lemma checksum_avoids: "\<exists>x::checksum. x \<noteq> a \<and> x \<noteq> b"
proof (rule ccontr)
  assume "\<not> ?thesis"
  then have "(UNIV :: checksum set) \<subseteq> {a, b}" by blast
  then have "{0, 1, 2 :: checksum} \<subseteq> {a, b}" by blast
  then have "card {0, 1, 2 :: checksum} \<le> card {a, b}" by (rule card_mono [rotated]) simp
  also have "card {a, b} \<le> 2" by (simp add: card_insert_if)
  finally show False by simp
qed

lemma file_holds_exists:
  assumes "8 < bs"
  shows "\<exists>read. file_holds read bs off bytes final"
proof -
  let ?z = "replicate (bs - 8) 0 :: u8 list"
  obtain x where x: "x \<noteq> next_checksum ?z final" "x \<noteq> next_checksum ?z (xor final reset_xor)"
    using checksum_avoids by blast
  define stale where "stale = ?z @ write_u64 x"
  define read where "read = (\<lambda>pos n. Inr (if pos < off + length bytes then take n (drop (pos - off) bytes)
      else stale) :: u8 list res)"
  have "length stale = bs" "\<not> verifies bs final stale" "\<not> verifies bs (xor final reset_xor) stale"
    using assms x by (simp_all add: verifies_def stale_def)
  then have "file_holds read bs off bytes final" by (simp add: file_holds_def read_def)
  then show ?thesis by blast
qed

lemma file_holds_blocks:
  assumes "block_size_ok bs" "\<forall>c\<in>set cs. length c = bs - 8" "file_holds read bs off (enc_blocks s cs) (chain s cs)"
  shows "on_file read bs off s cs" "stops_after read bs off s cs"
proof -
  have bs: "8 < bs" using assms(1) by (simp add: block_size_ok_def)
  have len: "length (enc_blocks s cs) = length cs * bs" using length_enc_blocks [OF assms(2)] bs by simp
  show "stops_after read bs off s cs"
    using assms(3) by (auto simp: file_holds_def stops_after_def len)
  show "on_file read bs off s cs"
    unfolding on_file_def
  proof (intro allI impI)
    fix i
    assume i: "i < length cs"
    then have "i * bs < length (enc_blocks s cs)" using bs len by simp
    then have "read (off + i * bs) bs = Inr (cs ! i @ write_u64 (next_checksum (cs ! i) (chain s (take i cs))))"
      using assms(3) enc_blocks_nth [OF assms(2) bs i] by (simp add: file_holds_def)
    moreover have "length (cs ! i) = bs - 8" using assms(2) i by simp
    ultimately show "\<exists>block. read (off + i * bs) bs = Inr block \<and> length block = bs \<and>
        take (bs - 8) block = cs ! i \<and> verifies bs (chain s (take i cs)) block"
      using bs by (auto simp: verifies_def)
  qed
qed

lemma full_prefix:
  assumes "0 < m"
  shows "take (length p div m) (full m (p @ q)) = full m p" "length (full m p) = length p div m"
proof -
  note fp = full_left [OF assms, of p] and fq = full_left [OF assms, of "left m p @ q"]
  have "concat (full m p @ full m (left m p @ q)) @ left m (left m p @ q) = p @ q"
    using fp(1) fq(1) by (metis append.assoc concat_append)
  then have eq: "full m (p @ q) = full m p @ full m (left m p @ q)"
    using full_blocks(1) [OF assms, of "full m p @ full m (left m p @ q)" "left m (left m p @ q)"] fp(2) fq(2,3) by auto
  have "length (full m p) * m + length p mod m = length p"
    using fp(1,4) length_concat_blocks [OF fp(2)] by (metis length_append)
  then have "length (full m p) * m = length p div m * m"
    using div_mult_mod_eq [of "length p" m] by linarith
  then show len: "length (full m p) = length p div m" using assms by simp
  show "take (length p div m) (full m (p @ q)) = full m p" by (simp add: eq len [symmetric])
qed

lemma reader_new_at:
  assumes "block_size_ok bs" "bs dvd file_offset cp" "q = p @ rest"
  shows "\<exists>r. reader_new bs (writer_file_checkpoint (writer_state bs cp s p)) = Inr r \<and>
     reader_on bs (file_offset cp) s (full (bs - 8) q) (length p div (bs - 8)) (length p) r \<and> r_version r = cp_version cp"
proof -
  let ?m = "bs - 8"
  have m: "0 < ?m" "0 < bs" using assms(1) by (auto simp: block_size_ok_def)
  define r where "r = \<lparr>r_block_size = bs, r_buf = [], buf_start = 0, buf_end = 0,
    read_offset = file_offset cp + length p div ?m * bs,
    buf_file_offset = payload_offset bs (file_offset cp) (length p), r_checksums = [chain s (full ?m p)],
    r_version = cp_version cp, bad_checksum = False, found_reset = False, first_read = True\<rparr>"
  have off: "file_offset cp + payload_offset bs 0 (length p) = payload_offset bs (file_offset cp) (length p)"
    by (simp add: payload_offset_def)
  obtain k where k: "file_offset cp = bs * k" using assms(2) by (elim dvdE)
  have "length p mod ?m < bs" using mod_less_divisor [OF m(1), of "length p"] by linarith
  moreover have "payload_offset bs (file_offset cp) (length p) = (k + length p div ?m) * bs + length p mod ?m"
    by (simp add: payload_offset_def k algebra_simps)
  ultimately have "payload_offset bs (file_offset cp) (length p) mod bs = length p mod ?m" by simp
  then have "payload_offset bs (file_offset cp) (length p) - payload_offset bs (file_offset cp) (length p) mod bs =
      file_offset cp + length p div ?m * bs" by (simp add: payload_offset_def)
  then have "reader_new bs (writer_file_checkpoint (writer_state bs cp s p)) = Inr r"
    using m(2) by (simp add: reader_new_def writer_file_checkpoint_def writer_buf_length [OF assms(1)] u64_rem_def off r_def)
      (simp add: writer_state_def off)
  moreover have "reader_on bs (file_offset cp) s (full ?m q) (length p div ?m) (length p) r"
  proof -
    have t: "take (length p div ?m) (full ?m q) = full ?m p" "length (full ?m p) = length p div ?m"
      using full_prefix [OF m(1)] assms(3) by simp_all
    then have le: "length p div ?m \<le> length (full ?m q)" by (metis length_take min.cobounded1)
    have "length (concat (full ?m p)) = length p div ?m * ?m"
      using length_concat_blocks [OF full_left(2) [OF m(1)], of p] t(2) by simp
    then have "drop (length p) (concat (full ?m p)) = []" using div_times_less_eq_dividend [of "length p" ?m] by simp
    moreover have "blocks_ok bs (full ?m p)" using full_left(2) [OF m(1)] by (simp add: blocks_ok_def)
    ultimately show ?thesis
      using assms(1,2) le t by (simp add: reader_on_def reader_at_def r_def reader_buffer_def)
  qed
  ultimately show ?thesis by (auto simp: r_def)
qed

text \<open>
  C4: what the journal writer writes, the reader reads. Records are written to a writer that was
  positioned at a block boundary, the last block is padded and the bytes are taken; then a reader that
  starts at the writer's checkpoint after any prefix of the records returns exactly the remaining
  records, in order, whatever the record sizes (up to a block) and however they straddle blocks. The
  serialiser is assumed to be self-delimiting; the block after the written ones is stale data.
\<close>

theorem journal_roundtrip:
  assumes bs: "block_size_ok bs" "bs dvd file_offset cp" "bs \<le> fuel"
    and rs: "records_ok bs (cp_version cp) ser deser (rs1 @ rs2)" "rs1 @ rs2 \<noteq> []"
  shows "\<exists>w0 w1 w2 w3 w4 bytes.
     writer_seek cp (writer_new v bs c) = Inr w0 \<and> write_records fuel ser rs1 w0 = Inr w1 \<and>
     write_records fuel ser rs2 w1 = Inr w2 \<and> pad_to_block fuel w2 = Inr w3 \<and>
     take_buffer w3 = Inr (Some (file_offset cp, bytes), w4) \<and>
     (\<forall>read. file_holds read bs (file_offset cp) bytes (last_checksum w4) \<longrightarrow>
        (\<exists>r r'. reader_new bs (writer_file_checkpoint w1) = Inr r \<and>
           read_results (length rs2) fuel read deser r = Inr (map GotRecord rs2, r')))"
proof -
  let ?m = "bs - 8" and ?s = "cp_checksum cp" and ?b = "\<lambda>rs. concat (map ser rs)"
  have m: "0 < ?m" "8 < bs" using bs(1) by (auto simp: block_size_ok_def)
  define p where "p = ?b rs1 @ ?b rs2"
  define q where "q = p @ replicate ((?m - length p mod ?m) mod ?m) 0"
  have small: "\<forall>r\<in>set rs1. length (ser r) \<le> ?m" "\<forall>r\<in>set rs2. length (ser r) \<le> ?m"
    using rs(1) by (auto simp: records_ok_def)
  have "full ?m [] = []" "left ?m [] = []" using full_blocks [OF m(1), of "[]" "[]"] m by simp_all
  then have w0: "writer_seek cp (writer_new v bs c) = Inr (writer_state bs cp ?s [])"
    using bs(2) m by (simp add: writer_seek_def writer_new_def writer_state_def u64_rem_def dvd_eq_mod_eq_0)
  have "length q mod ?m = 0"
  proof -
    have "length q = length p + (?m - length p mod ?m) mod ?m" by (simp add: q_def)
    moreover have "length p mod ?m < ?m" using m by simp
    ultimately have "length q mod ?m = (length p mod ?m + (?m - length p mod ?m)) mod ?m"
      by (metis mod_add_left_eq mod_add_right_eq)
    also have "length p mod ?m + (?m - length p mod ?m) = ?m" using \<open>length p mod ?m < ?m\<close> by linarith
    finally show ?thesis by simp
  qed
  then have "left ?m q = []" using full_left(4) [OF m(1), of q] by simp
  then have all: "concat (full ?m q) = q" using full_left(1) [OF m(1), of q] by simp
  have "?b (rs1 @ rs2) \<noteq> []" using rs by (cases "rs1 @ rs2") (auto simp: records_ok_def)
  then have "q \<noteq> []" by (auto simp: q_def p_def)
  with all have ne: "full ?m q \<noteq> []" by auto
  define w4 where "w4 = writer_state bs (cp\<lparr>file_offset := file_offset cp + length (full ?m q) * bs,
      cp_checksum := chain ?s (full ?m q)\<rparr>) (chain ?s (full ?m q)) (left ?m q)"
  have tb: "take_buffer (writer_state bs cp ?s q) = Inr (Some (file_offset cp, enc_blocks ?s (full ?m q)), w4)"
    using take_buffer_payload [OF bs(1), of cp ?s q] ne by (simp add: w4_def)
  have last: "last_checksum w4 = chain ?s (full ?m q)"
    using full_of_left [OF m(1), of q] by (simp add: w4_def writer_state_def)
  have readback: "\<exists>r r'. reader_new bs (writer_file_checkpoint (writer_state bs cp ?s (?b rs1))) = Inr r \<and>
      read_results (length rs2) fuel read deser r = Inr (map GotRecord rs2, r')"
    if h: "file_holds read bs (file_offset cp) (enc_blocks ?s (full ?m q)) (chain ?s (full ?m q))" for read
  proof -
    note onf = file_holds_blocks [OF bs(1) full_left(2) [OF m(1)] h]
    obtain r where r: "reader_new bs (writer_file_checkpoint (writer_state bs cp ?s (?b rs1))) = Inr r"
        "reader_on bs (file_offset cp) ?s (full ?m q) (length (?b rs1) div ?m) (length (?b rs1)) r"
        "r_version r = cp_version cp"
      using reader_new_at [OF bs(1,2), of q "?b rs1"] by (auto simp: q_def p_def)
    have "records_ok bs (r_version r) ser deser rs2" using rs(1) r(3) by (auto simp: records_ok_def)
    moreover have "drop (length (?b rs1)) (concat (full ?m q)) =
        ?b rs2 @ replicate ((?m - length p mod ?m) mod ?m) 0" by (simp add: all) (simp add: q_def p_def)
    moreover have "2 < fuel" using bs(3) m(2) by linarith
    ultimately show ?thesis using r(1) read_results_records [OF onf _ r(2)] by blast
  qed
  have "write_records fuel ser rs1 (writer_state bs cp ?s []) = Inr (writer_state bs cp ?s (?b rs1))"
    "write_records fuel ser rs2 (writer_state bs cp ?s (?b rs1)) = Inr (writer_state bs cp ?s p)"
    using write_records_appends [OF bs(1) small(1) bs(3)] write_records_appends [OF bs(1) small(2) bs(3)]
    by (simp_all add: p_def)
  moreover have "pad_to_block fuel (writer_state bs cp ?s p) = Inr (writer_state bs cp ?s q)"
    using pad_to_block_payload [OF bs(1,3)] by (simp add: q_def)
  ultimately show ?thesis using w0 tb last readback by metis
qed

definition byte_deser :: "u8 deserializer" where
  "byte_deser v bytes = (case bytes of [] \<Rightarrow> Inl True | b # _ \<Rightarrow> Inr (b, 1))"

theorem journal_roundtrip_witness:
  "\<exists>w1 w2 w3 (w4 :: journal_writer) bytes read r r'.
     write_records 20 (\<lambda>b. [b]) [1] w1 = Inr w2 \<and> write_records 20 (\<lambda>b. [b]) [2, 3, 4, 5] w2 = Inr w3 \<and>
     file_holds read 12 24 bytes (last_checksum w4) \<and> reader_new 12 (writer_file_checkpoint w2) = Inr r \<and>
     read_results (length [2, 3, 4, 5 :: u8]) 20 read byte_deser r = Inr (map GotRecord [2, 3, 4, 5], r')"
proof -
  define cp where "cp = \<lparr>file_offset = 24, cp_checksum = 7, cp_version = 1\<rparr>"
  have off: "file_offset cp = 24" by (simp add: cp_def)
  have ok: "records_ok 12 (cp_version cp) (\<lambda>b. [b]) byte_deser ([1] @ [2, 3, 4, 5])"
    by (simp add: records_ok_def byte_deser_def)
  have bs: "block_size_ok 12" "12 dvd file_offset cp" "12 \<le> (20 :: nat)" by (simp_all add: block_size_ok_def cp_def)
  have ne: "[1] @ [2, 3, 4, 5 :: u8] \<noteq> []" by simp
  obtain w1 w2 w3 bytes and w4 :: journal_writer where w: "write_records 20 (\<lambda>b. [b]) [1] w1 = Inr w2"
      "write_records 20 (\<lambda>b. [b]) [2, 3, 4, 5] w2 = Inr w3"
      "\<forall>read. file_holds read 12 24 bytes (last_checksum w4) \<longrightarrow>
         (\<exists>r r'. reader_new 12 (writer_file_checkpoint w2) = Inr r \<and>
           read_results (length [2, 3, 4, 5 :: u8]) 20 read byte_deser r = Inr (map GotRecord [2, 3, 4, 5], r'))"
    using journal_roundtrip [OF bs ok ne, of 0 0, unfolded off] by blast
  obtain read where "file_holds read 12 24 bytes (last_checksum w4)"
    using file_holds_exists [of 12 24 bytes "last_checksum w4"] by auto
  with w show ?thesis by blast
qed

end
