(* ===== verification/Journal_Safety.thy ===== *)
theory Journal_Safety
  imports Journal_Reader_Correct
begin

text \<open>
  The journal reader on arbitrary data: which bytes it delivers when blocks do not verify, and how it
  goes on after a reset of the stream.
\<close>

section \<open>Blocks that do not verify\<close>

lemma on_file_Nil [simp]: "on_file read bs base s []"
  by (simp add: on_file_def)

lemma on_file_Cons:
  assumes "read base bs = Inr block" "length block = bs" "take (bs - 8) block = c" "verifies bs s block"
    and "on_file read bs (base + bs) (next_checksum c s) cs"
  shows "on_file read bs base s (c # cs)"
  unfolding on_file_def
proof (intro allI impI)
  fix i
  assume i: "i < length (c # cs)"
  show "\<exists>block. read (base + i * bs) bs = Inr block \<and> length block = bs \<and> take (bs - 8) block = (c # cs) ! i \<and>
      verifies bs (chain s (take i (c # cs))) block"
  proof (cases i)
    case 0
    with assms show ?thesis by auto
  next
    case (Suc j)
    with i assms(5) obtain block where "read (base + bs + j * bs) bs = Inr block" "length block = bs"
        "take (bs - 8) block = cs ! j" "verifies bs (chain (next_checksum c s) (take j cs)) block"
      by (auto simp: on_file_def)
    with Suc show ?thesis by (auto simp: add.assoc)
  qed
qed

text \<open>What a reader that stopped on a block found there.\<close>

definition stopped_on ::
  "(nat \<Rightarrow> nat \<Rightarrow> u8 list res) \<Rightarrow> nat \<Rightarrow> nat \<Rightarrow> checksum \<Rightarrow> journal_reader \<Rightarrow> bool" where
  "stopped_on read bs off prev r \<longleftrightarrow>
     (bad_checksum r \<or> found_reset r \<longrightarrow>
        (\<exists>block. read off bs = Inr block \<and> length block = bs \<and> \<not> verifies bs prev block \<and>
           (found_reset r \<longrightarrow> verifies bs (xor prev reset_xor) block)))"

lemma read_block_cases:
  assumes r: "reader_at bs base s cs pos r" and ok: "read_block read r = Inr (go, r')"
    and clear: "\<not> found_reset r" "\<not> bad_checksum r"
  obtains block where "go" "read (base + length cs * bs) bs = Inr block" "length block = bs"
      "verifies bs (chain s cs) block" "reader_at bs base s (cs @ [take (bs - 8) block]) pos r'"
      "\<not> found_reset r'" "\<not> bad_checksum r'"
  | "\<not> go" "reader_buffer r' = drop pos (concat cs)" "stopped_on read bs (base + length cs * bs) (chain s cs) r'"
      "\<not> found_reset r' \<Longrightarrow> reader_at bs base s cs pos r'"
proof -
  have f: "r_block_size r = bs" "read_offset r = base + length cs * bs" using r by (simp_all add: reader_at_def)
  obtain block where b: "read (base + length cs * bs) bs = Inr block" "length block = bs"
    using ok f by (auto simp: read_block_def bind_res_eq_Inr Let_def split: if_splits)
  show ?thesis
  proof (cases "verifies bs (chain s cs) block")
    case True
    with read_block_good [where read = read, OF r b] ok clear b that(1) show ?thesis by auto
  next
    case False
    note p = read_block_parts [where read = read, OF r b False]
    have buf: "reader_buffer r = drop pos (concat cs)" "buf_end r \<le> length (r_buf r)"
      using r by (simp_all add: reader_at_def)
    then have "reader_buffer r' = drop pos (concat cs)" and "\<not> go"
      using ok p by (auto simp: reader_buffer_def split: if_splits)
    moreover have "stopped_on read bs (base + length cs * bs) (chain s cs) r'"
      using b False ok p clear by (auto simp: stopped_on_def split: if_splits)
    moreover have "reader_at bs base s cs pos r'" if "\<not> found_reset r'"
      using that ok p reader_at_extend_buffer [OF r, of True block] by (auto split: if_splits)
    ultimately show ?thesis using that(2) by blast
  qed
qed

lemma fill_loop_verified:
  assumes "reader_at bs base s cs pos r" "\<not> found_reset r" "\<not> bad_checksum r" "fill_loop fuel read r = Inr r'"
  shows "\<exists>more. on_file read bs (base + length cs * bs) (chain s cs) more \<and>
     reader_buffer r' = drop pos (concat (cs @ more)) \<and>
     stopped_on read bs (base + length (cs @ more) * bs) (chain s (cs @ more)) r' \<and>
     (\<not> found_reset r' \<longrightarrow> reader_at bs base s (cs @ more) pos r')"
  using assms
proof (induction fuel arbitrary: cs r)
  case (Suc fuel)
  have f: "r_block_size r = bs" "reader_buffer r = drop pos (concat cs)" using Suc.prems(1) by (simp_all add: reader_at_def)
  show ?case
  proof (cases "buf_end r - buf_start r < bs - 8")
    case False
    with Suc.prems f have "r' = r" by simp
    with Suc.prems f show ?thesis by (intro exI [of _ "[]"]) (simp add: stopped_on_def)
  next
    case True
    with Suc.prems(4) f obtain go r1 where r1: "read_block read r = Inr (go, r1)"
        "(if go then fill_loop fuel read r1 else Inr r1) = Inr r'"
      by (auto simp: bind_res_eq_Inr)
    from Suc.prems(1) r1(1) Suc.prems(2,3) show ?thesis
    proof (cases rule: read_block_cases)
      case (1 block)
      let ?c = "take (bs - 8) block"
      from Suc.IH [OF 1(5,6,7)] r1(2) 1(1) obtain more where
        "on_file read bs (base + length (cs @ [?c]) * bs) (chain s (cs @ [?c])) more"
        "reader_buffer r' = drop pos (concat ((cs @ [?c]) @ more))"
        "stopped_on read bs (base + length ((cs @ [?c]) @ more) * bs) (chain s ((cs @ [?c]) @ more)) r'"
        "\<not> found_reset r' \<longrightarrow> reader_at bs base s ((cs @ [?c]) @ more) pos r'"
        by auto
      moreover from this(1) have "on_file read bs (base + length cs * bs) (chain s cs) (?c # more)"
        using 1 by (intro on_file_Cons) (simp_all add: chain_append ac_simps)
      ultimately show ?thesis by (intro exI [of _ "?c # more"]) simp
    next
      case 2
      with r1(2) show ?thesis by (intro exI [of _ "[]"]) auto
    qed
  qed
qed simp

text \<open>
  C31: whatever the device returns, only verified bytes reach the record parser. When filling the
  buffer succeeds, the blocks read since verify one after the other in the checksum chain, the unread
  buffer is exactly the payload of verified blocks, and the reader flags a bad checksum (or a reset)
  only for a block that really does not continue the chain (and, for a reset, is seeded with the
  inverted checksum).
\<close>

theorem fill_buf_only_verified:
  assumes "reader_at bs base s cs pos r" "\<not> found_reset r" "\<not> bad_checksum r" "fill_buf fuel read r = Inr r'"
  shows "\<exists>more. on_file read bs (base + length cs * bs) (chain s cs) more \<and>
     reader_buffer r' = drop pos (concat (cs @ more)) \<and>
     stopped_on read bs (base + length (cs @ more) * bs) (chain s (cs @ more)) r' \<and>
     (\<not> found_reset r' \<longrightarrow> reader_at bs base s (cs @ more) pos r')"
proof -
  define r0 where "r0 = r\<lparr>r_buf := reader_buffer r @ drop (length (reader_buffer r)) (r_buf r), buf_start := 0,
      buf_end := buf_end r - buf_start r\<rparr>"
  have r0: "reader_at bs base s cs pos r0" "\<not> found_reset r0" "\<not> bad_checksum r0"
    using reader_at_shuffle [OF assms(1)] assms(2,3) by (simp_all add: r0_def)
  from assms have "r' = r \<or> fill_loop fuel read r0 = Inr r'"
    by (auto simp: fill_buf_def bind_res_eq_Inr r0_def split: if_splits)
  then show ?thesis
  proof
    assume "r' = r"
    with assms show ?thesis by (intro exI [of _ "[]"]) (simp add: stopped_on_def reader_at_def)
  next
    assume "fill_loop fuel read r0 = Inr r'"
    from fill_loop_verified [OF r0 this] show ?thesis .
  qed
qed

theorem fill_buf_only_verified_witness:
  "\<exists>read r r' more. reader_at 12 24 7 [] 0 r \<and> fill_buf 20 read r = Inr r' \<and>
     on_file read 12 (24 + length ([] :: u8 list list) * 12) (chain 7 []) more \<and>
     reader_buffer r' = drop 0 (concat ([] @ more))"
proof -
  define cp where "cp = \<lparr>file_offset = 24, cp_checksum = 7, cp_version = 1\<rparr>"
  have ok: "block_size_ok 12" "\<forall>c\<in>set [[1, 2, 3, 4 :: u8]]. length c = 12 - 8" by (simp_all add: block_size_ok_def)
  obtain read where read: "file_holds read 12 24 (enc_blocks 7 [[1, 2, 3, 4]]) (chain 7 [[1, 2, 3, 4]])"
    using file_holds_exists [of 12] by fastforce
  have full: "full 4 [1, 2, 3, 4 :: u8] = [[1, 2, 3, 4]]"
    using full_blocks(1) [of 4 "[[1, 2, 3, 4 :: u8]]" "[]"] by simp
  obtain r where r: "reader_on 12 24 7 [[1, 2, 3, 4]] 0 0 r"
    using reader_new_at [OF ok(1), of cp "[1, 2, 3, 4]" "[]" "[1, 2, 3, 4]" 7] full by (auto simp: cp_def)
  obtain r' where r': "fill_buf 20 read r = Inr r'"
    using fill_buf_reads [OF file_holds_blocks [OF ok read] r, of 20] by auto
  have "reader_at 12 24 7 [] 0 r" "\<not> found_reset r" "\<not> bad_checksum r" using r by (auto simp: reader_on_def)
  with fill_buf_only_verified [OF this r'] r' show ?thesis by blast
qed

section \<open>Resets\<close>

lemma next_checksum_inject: "next_checksum c p = next_checksum c q \<longleftrightarrow> p = q"
proof
  obtain u v n where uvn: "chunk_sums c = (u, v, n)" by (metis prod_cases3)
  assume "next_checksum c p = next_checksum c q"
  then have "seed_of p = seed_of q" by (auto simp: next_checksum_def fletcher_loop_affine uvn prod_eq_iff)
  then show "p = q" by (simp add: seed_of_inject)
qed simp

lemma next_checksum_reset: "next_checksum c (xor s reset_xor) \<noteq> next_checksum c s"
proof -
  have "bit (xor s reset_xor) 0 \<noteq> bit s 0" by (simp add: bit_xor_iff reset_xor_def)
  then show ?thesis by (metis next_checksum_inject)
qed

lemma deserialize_reset_at:
  assumes r: "reader_at bs base s cs pos r" "\<not> found_reset r" "\<not> bad_checksum r" "\<not> first_read r"
    and short: "pos \<le> length cs * (bs - 8)" "length cs * (bs - 8) < pos + (bs - 8)"
    and deser: "deser (r_version r) (drop pos (concat cs)) = Inl e"
    and block: "length c = bs - 8" "stored = next_checksum c (xor (chain s cs) reset_xor)"
      "read (base + length cs * bs) bs = Inr (c @ write_u64 stored)"
  shows "\<exists>r'. deserialize (Suc fuel) read deser r = Inr (Reset, r') \<and> reader_buffer r' = c \<and>
     buf_file_offset r' = base + length cs * bs \<and> read_offset r' = base + length cs * bs + bs \<and>
     r_checksums r' = [chain s cs, stored] \<and> \<not> found_reset r' \<and> \<not> bad_checksum r' \<and> \<not> first_read r'"
proof -
  let ?m = "bs - 8" and ?n = "length cs"
  define r0 where "r0 = r\<lparr>r_buf := reader_buffer r @ drop (length (reader_buffer r)) (r_buf r), buf_start := 0,
      buf_end := buf_end r - buf_start r\<rparr>"
  have r0: "reader_at bs base s cs pos r0" using reader_at_shuffle [OF r(1)] by (simp add: r0_def)
  have bs: "8 < bs" "r_block_size r0 = bs" "r_block_size r = bs" "bs dvd base"
    using r(1) r0 by (auto simp: reader_at_def block_size_ok_def)
  have m: "0 < ?m" using bs(1) by simp
  have len: "buf_end r - buf_start r = ?n * ?m - pos" "buf_end r0 - buf_start r0 = ?n * ?m - pos"
    using reader_at_length [OF r(1)] reader_at_length [OF r0] by simp_all
  have lt: "?n * ?m - pos < ?m" using short by linarith
  define r1 where "r1 = r0\<lparr>r_buf := take (buf_end r0) (r_buf r0) @ c @ write_u64 stored, found_reset := True,
      r_checksums := r_checksums r0 @ [stored], read_offset := base + ?n * bs + bs\<rparr>"
  have blk: "length (c @ write_u64 stored) = bs" using block(1) bs(1) by simp
  have "read_block read r0 = Inr (False, r1)"
    using read_block_parts [where read = read, OF r0 block(3) blk] block(1,2) r(4) next_checksum_reset [of c "chain s cs"]
    by (simp add: verifies_def r1_def r0_def)
  moreover have "fill_buf (Suc fuel) read r = fill_loop (Suc fuel) read r0"
    using r(2,3) bs lt len(1) by (simp add: fill_buf_def u64_sub_def r0_def)
  ultimately have fill: "fill_buf (Suc fuel) read r = Inr r1" using bs lt len(2) by simp
  have "buf_end r0 \<le> length (r_buf r0)" "reader_buffer r0 = drop pos (concat cs)"
    using r0 by (simp_all add: reader_at_def)
  then have buf1: "reader_buffer r1 = drop pos (concat cs)" by (simp add: r1_def reader_buffer_def)
  have q: "pos div ?m \<le> ?n" "(pos + (?n * ?m - pos)) div ?m = ?n"
    using r(1) short(1) m by (simp_all add: reader_at_def)
  have cks: "drop (?n - pos div ?m) (r_checksums r0 @ [stored]) = [chain s cs, stored]"
  proof -
    have "drop (?n - pos div ?m) (r_checksums r0) = [chain s cs]"
    proof -
      have "r_checksums r0 = map (\<lambda>i. chain s (take i cs)) [pos div ?m..<Suc ?n]" using r0 by (simp add: reader_at_def)
      then show ?thesis unfolding drop_map drop_upt using q(1) by simp
    qed
    moreover have "?n - pos div ?m < length (r_checksums r0)" using r0 q(1) by (simp add: reader_at_def)
    ultimately show ?thesis by simp
  qed
  let ?r1 = "r1\<lparr>found_reset := False\<rparr>"
  have "consume (?n * ?m - pos) ?r1 = Inr (?r1\<lparr>buf_file_offset := payload_offset bs base (pos + (?n * ?m - pos)),
      r_checksums := drop ((pos + (?n * ?m - pos)) div ?m - pos div ?m) (r_checksums ?r1),
      buf_start := buf_start ?r1 + (?n * ?m - pos)\<rparr>)"
    using r0 bs lt by (intro consume_explicit) (simp_all add: r1_def reader_at_def)
  moreover have "payload_offset bs base (pos + (?n * ?m - pos)) = base + ?n * bs"
    using short(1) m by (simp add: payload_offset_def)
  ultimately have con: "consume (?n * ?m - pos) ?r1 = Inr (?r1\<lparr>buf_file_offset := base + ?n * bs,
      r_checksums := [chain s cs, stored], buf_start := buf_start ?r1 + (?n * ?m - pos)\<rparr>)"
    using cks q(2) by (simp add: r1_def)
  have sizes: "length (r_buf r1) = buf_end r0 + bs" "buf_end r1 - buf_start r1 = ?n * ?m - pos"
      "r_block_size r1 = bs" "r_version r1 = r_version r" "found_reset r1" "\<not> bad_checksum r1" "\<not> first_read r1"
    using \<open>buf_end r0 \<le> length (r_buf r0)\<close> blk len(2) bs r(3,4) by (simp_all add: r1_def) (simp_all add: r0_def)
  define r2 where "r2 = r1\<lparr>found_reset := False, buf_file_offset := base + ?n * bs,
      r_checksums := [chain s cs, stored], buf_start := buf_end r0, buf_end := buf_end r0 + bs - 8\<rparr>"
  have "deserialize (Suc fuel) read deser r = Inr (Reset, r2)"
    using fill buf1 deser sizes con bs(1) by (simp add: deserialize_def u64_sub_def r2_def)
  moreover have "reader_buffer r2 = c"
    using \<open>buf_end r0 \<le> length (r_buf r0)\<close> block(1) bs(1) by (simp add: reader_buffer_def r2_def r1_def)
  ultimately show ?thesis
    using sizes by (intro exI [of _ r2]) (simp add: r2_def r1_def)
qed

definition example_reader :: journal_reader where
  "example_reader = \<lparr>r_block_size = 12, r_buf = [], buf_start = 0, buf_end = 0, read_offset = 36,
     buf_file_offset = 36, r_checksums = [chain 7 [[1, 2, 3, 4]]], r_version = 1, bad_checksum = False,
     found_reset = False, first_read = False\<rparr>"

definition example_stored :: checksum where
  "example_stored = next_checksum [5, 6, 7, 8] (xor (chain 7 [[1, 2, 3, 4]]) reset_xor)"

definition example_read :: "nat \<Rightarrow> nat \<Rightarrow> u8 list res" where
  "example_read off n = Inr ([5, 6, 7, 8] @ write_u64 example_stored)"

lemma example_reader_at: "reader_at 12 24 7 [[1, 2, 3, 4]] 4 example_reader"
  by (simp add: reader_at_def example_reader_def block_size_ok_def blocks_ok_def payload_offset_def reader_buffer_def)

text \<open>
  When the reader meets a block that was written after a reset and what is left before it does not
  hold a whole record, it reports the reset and continues at the beginning of that block, with its
  payload in the buffer, ready to verify the blocks that follow it.
\<close>

lemma deserialize_reset:
  assumes r: "reader_at bs base s cs pos r" "\<not> found_reset r" "\<not> bad_checksum r" "\<not> first_read r"
    and short: "pos \<le> length cs * (bs - 8)" "length cs * (bs - 8) < pos + (bs - 8)"
    and deser: "deser (r_version r) (drop pos (concat cs)) = Inl e"
    and block: "length c = bs - 8" "stored = next_checksum c (xor (chain s cs) reset_xor)"
      "read (base + length cs * bs) bs = Inr (c @ write_u64 stored)"
  shows "\<exists>r'. deserialize (Suc fuel) read deser r = Inr (Reset, r') \<and> reader_buffer r' = c \<and>
     buf_file_offset r' = base + length cs * bs \<and> read_offset r' = base + length cs * bs + bs \<and>
     r_checksums r' = [chain s cs, stored] \<and> \<not> found_reset r' \<and> \<not> bad_checksum r' \<and> \<not> first_read r'"
  using assms by (rule deserialize_reset_at)

lemma reader_new_fresh:
  assumes "block_size_ok bs" "bs dvd file_offset cp"
  shows "\<exists>r. reader_new bs cp = Inr r \<and> reader_at bs (file_offset cp) (cp_checksum cp) [] 0 r \<and>
     first_read r \<and> \<not> found_reset r \<and> \<not> bad_checksum r"
proof -
  have "file_offset cp mod bs = 0" "0 < bs" using assms by (auto simp: block_size_ok_def)
  with assms show ?thesis
    by (simp add: reader_new_def u64_rem_def reader_at_def blocks_ok_def payload_offset_def reader_buffer_def)
qed

text \<open>
  The checkpoint that the reader reports in the first block after a reset cannot be used to start
  reading again: it carries the checksum of the block before the reset, the block is seeded with the
  inverse of that checksum, and the first block a reader reads is never accepted as a reset. A reader
  opened at that checkpoint finds a bad checksum and no data.
\<close>

lemma reset_checkpoint_unreadable:
  assumes r: "reader_at bs base s cs pos r" "\<not> found_reset r" "\<not> bad_checksum r" "\<not> first_read r"
    and short: "pos \<le> length cs * (bs - 8)" "length cs * (bs - 8) < pos + (bs - 8)"
    and deser: "deser (r_version r) (drop pos (concat cs)) = Inl e"
    and block: "length c = bs - 8" "stored = next_checksum c (xor (chain s cs) reset_xor)"
      "read (base + length cs * bs) bs = Inr (c @ write_u64 stored)"
  shows "\<exists>r' cp r2 r3. deserialize (Suc fuel) read deser r = Inr (Reset, r') \<and>
     reader_file_checkpoint r' = Inr cp \<and> file_offset cp = base + length cs * bs \<and>
     reader_new bs cp = Inr r2 \<and> fill_buf (Suc fuel) read r2 = Inr r3 \<and> bad_checksum r3 \<and> reader_buffer r3 = []"
proof -
  from deserialize_reset_at [where deser = deser and read = read, OF assms] obtain r' where r': "deserialize (Suc fuel) read deser r = Inr (Reset, r')"
      "buf_file_offset r' = base + length cs * bs" "r_checksums r' = [chain s cs, stored]"
    by blast
  define cp where "cp = \<lparr>file_offset = base + length cs * bs, cp_checksum = chain s cs, cp_version = r_version r'\<rparr>"
  have cp: "reader_file_checkpoint r' = Inr cp" using r' by (simp add: reader_file_checkpoint_def cp_def)
  have bs: "block_size_ok bs" "8 < bs" "bs dvd base" using r(1) by (auto simp: reader_at_def block_size_ok_def)
  then have "bs dvd file_offset cp" by (simp add: cp_def)
  from reader_new_fresh [OF bs(1) this] obtain r2 where r2: "reader_new bs cp = Inr r2"
      "reader_at bs (base + length cs * bs) (chain s cs) [] 0 r2" "first_read r2" "\<not> found_reset r2" "\<not> bad_checksum r2"
    by (auto simp: cp_def)
  define r0 where "r0 = r2\<lparr>r_buf := reader_buffer r2 @ drop (length (reader_buffer r2)) (r_buf r2), buf_start := 0,
      buf_end := buf_end r2 - buf_start r2\<rparr>"
  have r0: "reader_at bs (base + length cs * bs) (chain s cs) [] 0 r0" "first_read r0"
    using reader_at_shuffle [OF r2(2)] r2(3) by (simp_all add: r0_def)
  have blk: "length (c @ write_u64 stored) = bs" using block(1) bs(2) by simp
  have len: "buf_end r2 - buf_start r2 = 0" "buf_end r0 - buf_start r0 = 0" "r_block_size r2 = bs" "r_block_size r0 = bs"
    using reader_at_length [OF r2(2)] reader_at_length [OF r0(1)] r2(2) r0(1) by (simp_all add: reader_at_def)
  define r3 where "r3 = r0\<lparr>r_buf := take (buf_end r0) (r_buf r0) @ c @ write_u64 stored, bad_checksum := True\<rparr>"
  have "read_block read r0 = Inr (False, r3)"
    using read_block_parts [where read = read, OF r0(1) _ blk] r0(2) block next_checksum_reset [of c "chain s cs"]
    by (simp add: verifies_def r3_def)
  moreover have "fill_buf (Suc fuel) read r2 = fill_loop (Suc fuel) read r0"
    using r2(4,5) bs len by (simp add: fill_buf_def u64_sub_def r0_def)
  ultimately have "fill_buf (Suc fuel) read r2 = Inr r3" using bs len by simp
  moreover have "reader_buffer r3 = []"
    using reader_at_extend_buffer [OF r0(1), of True] by (simp add: r3_def reader_at_def)
  ultimately show ?thesis
    using r' cp r2(1) by (intro exI [of _ r'] exI [of _ cp] exI [of _ r2] exI [of _ r3]) (simp add: r3_def cp_def)
qed

end
