(* ===== verification/Checksum_List.thy ===== *)
theory Checksum_List
  imports Fxfs_Arith Fxfs_Checksum Btree_Map
begin

text \<open>
  \<^verbatim>\<open>ChecksumList\<close> (\<^verbatim>\<open>src/src/object_store/journal/checksum_list.rs\<close>): the extents that a replay of the
  journal would make visible, and the offset up to which it is safe to replay given what the device
  holds. Reading the device is an argument: offset and length give the bytes or an error.
\<close>

section \<open>Definitions\<close>

datatype checksum_state = Unverified checksum | Valid | Invalid

record checksum_entry =
  start_journal_offset :: nat
  ce_owner_object_id :: nat
  ce_device_range :: u64_range
  ce_checksums :: "(checksum_state \<times> nat) list"

record checksum_list =
  cl_flushed_offset :: nat
  checksum_entries :: "checksum_entry list"
  device_offset_to_checksum_entry :: "(nat, nat) btree_map"
  max_chunk_size :: nat

definition checksum_list_new :: "nat \<Rightarrow> checksum_list" where
  "checksum_list_new flushed_offset =
     \<lparr>cl_flushed_offset = flushed_offset, checksum_entries = [], device_offset_to_checksum_entry = [],
      max_chunk_size = 0\<rparr>"

text \<open>\<^verbatim>\<open>range.length().unwrap() / checksums.len()\<close>\<close>

definition entry_chunk_size :: "u64_range \<Rightarrow> nat \<Rightarrow> nat res" where
  "entry_chunk_size dr n =
     (case range_length dr of Inl _ \<Rightarrow> Inl Panic | Inr len \<Rightarrow> u64_div len n)"

definition checksum_list_push ::
  "nat \<Rightarrow> nat \<Rightarrow> u64_range \<Rightarrow> checksum list \<Rightarrow> checksum_list \<Rightarrow> checksum_list res" where
  "checksum_list_push journal_offset owner_object_id device_range checksums self =
     (if journal_offset < cl_flushed_offset self then Inr self
      else
        let index = device_offset_to_checksum_entry self;
            index' = (case bt_get index (rend device_range) of
                        None \<Rightarrow> bt_insert (rend device_range) (length (checksum_entries self)) index
                      | Some _ \<Rightarrow> index)
        in bind_res (entry_chunk_size device_range (length checksums)) (\<lambda>chunk_size.
           Inr (self\<lparr>device_offset_to_checksum_entry := index',
                     max_chunk_size := max chunk_size (max_chunk_size self),
                     checksum_entries := checksum_entries self @
                       [\<lparr>start_journal_offset = journal_offset, ce_owner_object_id = owner_object_id,
                         ce_device_range = device_range,
                         ce_checksums = map (\<lambda>c. (Unverified c, u64_max)) checksums\<rparr>]\<rparr>)))"

text \<open>Setting the end offset of a slice of checksums; a slice out of bounds panics.\<close>

definition set_ends :: "nat \<Rightarrow> nat \<Rightarrow> nat \<Rightarrow> (checksum_state \<times> nat) list \<Rightarrow> (checksum_state \<times> nat) list res" where
  "set_ends journal_offset a b cs =
     (if a \<le> b \<and> b \<le> length cs
      then Inr (take a cs @ map (\<lambda>c. (fst c, journal_offset)) (take (b - a) (drop a cs)) @ drop b cs)
      else Inl Panic)"

fun mark_deallocated_loop ::
  "nat \<Rightarrow> u64_range \<Rightarrow> (nat \<times> nat) list \<Rightarrow> checksum_entry list \<Rightarrow> checksum_entry list res" where
  "mark_deallocated_loop journal_offset device_range [] entries = Inr entries"
| "mark_deallocated_loop journal_offset device_range ((_, index) # r) entries =
     (if index \<ge> length entries then Inl Panic
      else
        let entry = entries ! index; er = ce_device_range entry; cs = ce_checksums entry in
        if rstart er \<ge> rend device_range then Inr entries
        else
          bind_res (entry_chunk_size er (length cs)) (\<lambda>chunk_size.
          bind_res (if rstart device_range < rstart er then Inr 0
                    else u64_div (rstart device_range - rstart er) chunk_size) (\<lambda>index_start.
            if rend er \<ge> rend device_range
            then bind_res (u64_div (rend device_range - rstart er) chunk_size) (\<lambda>index_end.
                 bind_res (set_ends journal_offset index_start index_end cs) (\<lambda>cs'.
                   Inr (entries[index := entry\<lparr>ce_checksums := cs'\<rparr>])))
            else bind_res (set_ends journal_offset index_start (length cs) cs) (\<lambda>cs'.
                   mark_deallocated_loop journal_offset (Range (rend er) (rend device_range)) r
                     (entries[index := entry\<lparr>ce_checksums := cs'\<rparr>])))))"

definition mark_deallocated :: "nat \<Rightarrow> u64_range \<Rightarrow> checksum_list \<Rightarrow> checksum_list res" where
  "mark_deallocated journal_offset device_range self =
     (if journal_offset < cl_flushed_offset self then Inr self
      else
        bind_res (u64_add (rstart device_range) 1) (\<lambda>from.
        bind_res (mark_deallocated_loop journal_offset device_range
                    (filter (\<lambda>(k, _). k \<ge> from) (device_offset_to_checksum_entry self))
                    (checksum_entries self)) (\<lambda>entries.
          Inr (self\<lparr>checksum_entries := entries\<rparr>))))"

text \<open>
  One entry: the flag says whether an invalid checksum was found, which ends the scan.
\<close>

fun verify_chunks ::
  "(nat \<Rightarrow> nat \<Rightarrow> u8 list res) \<Rightarrow> nat \<Rightarrow> nat \<Rightarrow> nat \<Rightarrow> (checksum_state \<times> nat) list \<Rightarrow>
   (bool \<times> (checksum_state \<times> nat) list) res" where
  "verify_chunks dev chunk_size journal_offset off [] = Inr (False, [])"
| "verify_chunks dev chunk_size journal_offset off ((st, dependency) # cs) =
     bind_res
       (if dependency \<ge> journal_offset
        then (case st of
                Unverified c \<Rightarrow>
                  bind_res (dev off chunk_size) (\<lambda>buf.
                  bind_res (fletcher64 buf 0) (\<lambda>f. Inr (if f \<noteq> c then Invalid else Valid)))
              | _ \<Rightarrow> Inr st)
        else Inr st) (\<lambda>st'.
       if dependency \<ge> journal_offset \<and> st' = Invalid then Inr (True, (st', dependency) # cs)
       else bind_res (verify_chunks dev chunk_size journal_offset (off + chunk_size) cs) (\<lambda>(bad, cs').
              Inr (bad, (st', dependency) # cs')))"

text \<open>One pass over the entries: the offset to try next, if a checksum is invalid.\<close>

fun verify_entries ::
  "(nat \<Rightarrow> nat \<Rightarrow> u8 list res) \<Rightarrow> (nat \<Rightarrow> nat option) \<Rightarrow> nat \<Rightarrow> checksum_entry list \<Rightarrow>
   (nat option \<times> checksum_entry list) res" where
  "verify_entries dev marked_for_deletion journal_offset [] = Inr (None, [])"
| "verify_entries dev marked_for_deletion journal_offset (e # es) =
     (if start_journal_offset e \<ge> journal_offset then Inr (None, e # es)
      else if (case marked_for_deletion (ce_owner_object_id e) of None \<Rightarrow> False | Some at \<Rightarrow> at < journal_offset)
      then bind_res (verify_entries dev marked_for_deletion journal_offset es) (\<lambda>(r, es'). Inr (r, e # es'))
      else
        bind_res (entry_chunk_size (ce_device_range e) (length (ce_checksums e))) (\<lambda>chunk_size.
        bind_res (verify_chunks dev chunk_size journal_offset (rstart (ce_device_range e)) (ce_checksums e)) (\<lambda>(bad, cs).
          if bad then Inr (Some (start_journal_offset e), e\<lparr>ce_checksums := cs\<rparr> # es)
          else bind_res (verify_entries dev marked_for_deletion journal_offset es) (\<lambda>(r, es').
                 Inr (r, e\<lparr>ce_checksums := cs\<rparr> # es')))))"

lemma verify_entries_decreases:
  "verify_entries dev marked jo es = Inr (Some jo', es') \<Longrightarrow> jo' < jo"
proof (induction dev marked jo es arbitrary: es' rule: verify_entries.induct)
  case (2 dev marked jo e es)
  then show ?case
    by (auto simp: bind_res_eq_Inr split: if_splits option.splits prod.splits)
qed simp

function verify ::
  "(nat \<Rightarrow> nat \<Rightarrow> u8 list res) \<Rightarrow> (nat \<Rightarrow> nat option) \<Rightarrow> nat \<Rightarrow> checksum_list \<Rightarrow> (nat \<times> checksum_list) res" where
  "verify dev marked_for_deletion journal_offset self =
     (case verify_entries dev marked_for_deletion journal_offset (checksum_entries self) of
        Inl e \<Rightarrow> Inl e
      | Inr (None, es) \<Rightarrow> Inr (journal_offset, self\<lparr>checksum_entries := es\<rparr>)
      | Inr (Some journal_offset', es) \<Rightarrow>
          verify dev marked_for_deletion journal_offset' (self\<lparr>checksum_entries := es\<rparr>))"
  by pat_completeness auto
termination
  by (relation "measure (\<lambda>(dev, marked, jo, self). jo)") (auto dest: verify_entries_decreases)

declare verify.simps [simp del]

section \<open>What is safe to replay\<close>

text \<open>Whether a chunk holds what its checksum says, on the given device.\<close>

definition chunk_good :: "(nat \<Rightarrow> nat \<Rightarrow> u8 list res) \<Rightarrow> nat \<Rightarrow> nat \<Rightarrow> checksum_state \<Rightarrow> bool" where
  "chunk_good dev off chunk_size st =
     (case st of
        Unverified c \<Rightarrow> (case dev off chunk_size of Inl _ \<Rightarrow> False | Inr buf \<Rightarrow> fletcher64 buf 0 = Inr c)
      | Valid \<Rightarrow> True
      | Invalid \<Rightarrow> False)"

definition chunk_size_or_zero :: "nat res \<Rightarrow> nat" where
  "chunk_size_or_zero r = (case r of Inl _ \<Rightarrow> 0 | Inr n \<Rightarrow> n)"

text \<open>For each chunk whether it is good, with the offset at which it is deallocated.\<close>

fun chunk_facts ::
  "(nat \<Rightarrow> nat \<Rightarrow> u8 list res) \<Rightarrow> nat \<Rightarrow> nat \<Rightarrow> (checksum_state \<times> nat) list \<Rightarrow> (bool \<times> nat) list" where
  "chunk_facts dev chunk_size off [] = []"
| "chunk_facts dev chunk_size off ((st, dependency) # cs) =
     (chunk_good dev off chunk_size st, dependency) # chunk_facts dev chunk_size (off + chunk_size) cs"

definition entry_facts :: "(nat \<Rightarrow> nat \<Rightarrow> u8 list res) \<Rightarrow> checksum_entry \<Rightarrow> (bool \<times> nat) list" where
  "entry_facts dev e =
     chunk_facts dev (chunk_size_or_zero (entry_chunk_size (ce_device_range e) (length (ce_checksums e))))
       (rstart (ce_device_range e)) (ce_checksums e)"

text \<open>
  An entry does not stand in the way of replaying up to \<open>jo\<close> if its transaction is not replayed, if
  its owner is deleted by what is replayed, or if each of its chunks is good or deallocated by what is
  replayed.
\<close>

definition entry_safe ::
  "(nat \<Rightarrow> nat \<Rightarrow> u8 list res) \<Rightarrow> (nat \<Rightarrow> nat option) \<Rightarrow> nat \<Rightarrow> checksum_entry \<Rightarrow> bool" where
  "entry_safe dev marked jo e \<longleftrightarrow>
     start_journal_offset e < jo \<longrightarrow>
       (\<exists>at. marked (ce_owner_object_id e) = Some at \<and> at < jo) \<or> (\<forall>(good, dependency) \<in> set (entry_facts dev e). good \<or> dependency < jo)"

definition safe_to_replay ::
  "(nat \<Rightarrow> nat \<Rightarrow> u8 list res) \<Rightarrow> (nat \<Rightarrow> nat option) \<Rightarrow> checksum_entry list \<Rightarrow> nat \<Rightarrow> bool" where
  "safe_to_replay dev marked es jo \<longleftrightarrow> (\<forall>e \<in> set es. entry_safe dev marked jo e)"

lemma verify_chunks_facts:
  "verify_chunks dev n jo off cs = Inr (bad, cs') \<Longrightarrow>
   chunk_facts dev n off cs' = chunk_facts dev n off cs \<and> length cs' = length cs \<and>
   (bad \<longleftrightarrow> (\<exists>(good, dependency) \<in> set (chunk_facts dev n off cs). \<not> good \<and> jo \<le> dependency))"
proof (induction dev n jo off cs arbitrary: bad cs' rule: verify_chunks.induct)
  case (2 dev n jo off st d cs)
  from "2.prems" obtain st' where st': "(if d \<ge> jo then (case st of
                Unverified c \<Rightarrow> bind_res (dev off n) (\<lambda>buf. bind_res (fletcher64 buf 0) (\<lambda>f. Inr (if f \<noteq> c then Invalid else Valid)))
              | _ \<Rightarrow> Inr st) else Inr st) = Inr st'"
      and rest: "(if d \<ge> jo \<and> st' = Invalid then Inr (True, (st', d) # cs)
         else bind_res (verify_chunks dev n jo (off + n) cs) (\<lambda>(bad, cs'). Inr (bad, (st', d) # cs'))) = Inr (bad, cs')"
    by (auto simp only: verify_chunks.simps bind_res_eq_Inr)
  have good: "chunk_good dev off n st' = chunk_good dev off n st"
    using st' by (auto simp: chunk_good_def bind_res_eq_Inr split: if_splits checksum_state.splits)
  have decided: "chunk_good dev off n st' \<longleftrightarrow> st' \<noteq> Invalid" if "d \<ge> jo"
    using st' that by (auto simp: chunk_good_def bind_res_eq_Inr split: if_splits checksum_state.splits)
  show ?case
  proof (cases "d \<ge> jo \<and> st' = Invalid")
    case True
    with rest good decided show ?thesis by (auto simp: chunk_good_def)
  next
    case False
    with rest obtain cs'' where "verify_chunks dev n jo (off + n) cs = Inr (bad, cs'')" "cs' = (st', d) # cs''"
      by (auto simp: bind_res_eq_Inr)
    with "2.IH" [OF False] good decided False show ?thesis by auto
  qed
qed simp

definition entry_view :: "(nat \<Rightarrow> nat \<Rightarrow> u8 list res) \<Rightarrow> checksum_entry \<Rightarrow> nat \<times> nat \<times> (bool \<times> nat) list" where
  "entry_view dev e = (start_journal_offset e, ce_owner_object_id e, entry_facts dev e)"

lemma safe_to_replay_view:
  assumes "map (entry_view dev) es = map (entry_view dev) es'"
  shows "safe_to_replay dev marked es jo = safe_to_replay dev marked es' jo"
proof -
  define P where "P v \<longleftrightarrow> (case v of (start, owner, facts) \<Rightarrow>
      start < jo \<longrightarrow> (\<exists>at. marked owner = Some at \<and> at < jo) \<or> (\<forall>(good, dependency) \<in> set facts. good \<or> dependency < jo))" for v
  have "safe_to_replay dev marked xs jo \<longleftrightarrow> (\<forall>v \<in> set (map (entry_view dev) xs). P v)" for xs
    by (simp add: safe_to_replay_def entry_safe_def P_def entry_view_def)
  from this [of es] this [of es'] show ?thesis unfolding assms by simp
qed

lemma verify_entries_facts:
  assumes "verify_entries dev marked jo es = Inr (r, es')" "sorted (map start_journal_offset es)"
  shows "map (entry_view dev) es' = map (entry_view dev) es \<and>
    (case r of None \<Rightarrow> safe_to_replay dev marked es jo
     | Some jo' \<Rightarrow> \<exists>e \<in> set es. start_journal_offset e = jo' \<and> (\<forall>j. jo' < j \<and> j \<le> jo \<longrightarrow> \<not> entry_safe dev marked j e))"
  using assms
proof (induction dev marked jo es arbitrary: es' rule: verify_entries.induct)
  case (2 dev marked jo e es)
  let ?m = "case marked (ce_owner_object_id e) of None \<Rightarrow> False | Some at \<Rightarrow> at < jo"
  have sorted: "sorted (map start_journal_offset es)" and later: "\<forall>x \<in> set es. start_journal_offset e \<le> start_journal_offset x"
    using "2.prems"(2) by simp_all
  consider "jo \<le> start_journal_offset e" | "start_journal_offset e < jo" ?m | "start_journal_offset e < jo" "\<not> ?m" by linarith
  then show ?case
  proof cases
    case 1
    with later have "safe_to_replay dev marked (e # es) jo" by (auto simp: safe_to_replay_def entry_safe_def)
    with 1 "2.prems"(1) show ?thesis by auto
  next
    case 2
    then obtain es'' where es'': "verify_entries dev marked jo es = Inr (r, es'')" "es' = e # es''"
      using "2.prems"(1) by (auto simp: bind_res_eq_Inr)
    have "entry_safe dev marked jo e" using 2 by (auto simp: entry_safe_def split: option.splits)
    with "2.IH"(1) [OF _ 2(2) es''(1) sorted] 2 es''(2) show ?thesis by (auto simp: safe_to_replay_def split: option.splits)
  next
    case 3
    from "2.prems"(1) 3 obtain n bad cs where n: "entry_chunk_size (ce_device_range e) (length (ce_checksums e)) = Inr n"
        "verify_chunks dev n jo (rstart (ce_device_range e)) (ce_checksums e) = Inr (bad, cs)"
        "(if bad then Inr (Some (start_journal_offset e), e\<lparr>ce_checksums := cs\<rparr> # es)
          else bind_res (verify_entries dev marked jo es) (\<lambda>(r, es'). Inr (r, e\<lparr>ce_checksums := cs\<rparr> # es'))) = Inr (r, es')"
      by (auto simp: bind_res_eq_Inr)
    note vc = verify_chunks_facts [OF n(2)]
    have facts: "entry_facts dev e = chunk_facts dev n (rstart (ce_device_range e)) (ce_checksums e)"
        "entry_facts dev (e\<lparr>ce_checksums := cs\<rparr>) = entry_facts dev e"
      using n(1) vc by (simp_all add: entry_facts_def chunk_size_or_zero_def)
    then have view: "entry_view dev (e\<lparr>ce_checksums := cs\<rparr>) = entry_view dev e" by (simp add: entry_view_def)
    show ?thesis
    proof (cases bad)
      case True
      with vc facts obtain d where d: "(False, d) \<in> set (entry_facts dev e)" "jo \<le> d" by auto
      have "\<not> entry_safe dev marked j e" if "start_journal_offset e < j" "j \<le> jo" for j
        using that d 3 by (fastforce simp: entry_safe_def split: option.splits)
      with True n(3) view show ?thesis by auto
    next
      case False
      then obtain es'' where es'': "verify_entries dev marked jo es = Inr (r, es'')" "es' = e\<lparr>ce_checksums := cs\<rparr> # es''"
        using n(3) by (auto simp: bind_res_eq_Inr)
      have "entry_safe dev marked jo e" using False vc facts by (fastforce simp: entry_safe_def)
      with "2.IH"(2) [OF _ 3(2) False es''(1) sorted] 3 es''(2) view show ?thesis
        by (auto simp: safe_to_replay_def split: option.splits)
    qed
  qed
qed (auto simp: safe_to_replay_def)

lemma verify_greatest:
  assumes "verify dev marked jo self = Inr (jo', self')" "sorted (map start_journal_offset (checksum_entries self))"
  shows "safe_to_replay dev marked (checksum_entries self) jo' \<and> jo' \<le> jo \<and>
    (\<forall>j. jo' < j \<and> j \<le> jo \<longrightarrow> \<not> safe_to_replay dev marked (checksum_entries self) j)"
  using assms
proof (induction dev marked jo self rule: verify.induct)
  case (1 dev marked jo self)
  obtain r es where ve: "verify_entries dev marked jo (checksum_entries self) = Inr (r, es)"
    using "1.prems"(1) by (auto simp: verify.simps [of dev marked jo] split: sum.splits)
  note vf = verify_entries_facts [OF ve "1.prems"(2)]
  show ?case
  proof (cases r)
    case None
    with ve vf "1.prems"(1) show ?thesis by (auto simp: verify.simps [of dev marked jo])
  next
    case (Some jo1)
    let ?self1 = "self\<lparr>checksum_entries := es\<rparr>"
    have rec: "verify dev marked jo1 ?self1 = Inr (jo', self')"
      using ve Some "1.prems"(1) by (simp add: verify.simps [of dev marked jo])
    have "map (\<lambda>e. fst (entry_view dev e)) es = map (\<lambda>e. fst (entry_view dev e)) (checksum_entries self)"
      using vf by (metis (no_types, lifting) map_map o_def list.map_cong0)
    then have "sorted (map start_journal_offset (checksum_entries ?self1))"
      using "1.prems"(2) by (simp add: entry_view_def)
    from "1.IH" [OF ve refl Some rec this] have ih: "safe_to_replay dev marked es jo'" "jo' \<le> jo1"
        "\<forall>j. jo' < j \<and> j \<le> jo1 \<longrightarrow> \<not> safe_to_replay dev marked es j" by simp_all
    moreover have same: "safe_to_replay dev marked es j = safe_to_replay dev marked (checksum_entries self) j" for j
      using vf by (intro safe_to_replay_view) simp
    moreover have "\<not> safe_to_replay dev marked (checksum_entries self) j" if "jo1 < j" "j \<le> jo" for j
      using vf Some that by (auto simp: safe_to_replay_def)
    moreover have "jo1 < jo" using verify_entries_decreases ve Some by blast
    ultimately show ?thesis by (metis less_or_eq_imp_le linorder_le_less_linear order_trans)
  qed
qed

text \<open>Entries that \<open>push\<close> accepts, on a device that can be read.\<close>

definition entry_ok :: "checksum_entry \<Rightarrow> bool" where
  "entry_ok e \<longleftrightarrow> rstart (ce_device_range e) \<le> rend (ce_device_range e) \<and> ce_checksums e \<noteq> [] \<and>
     4 dvd (rend (ce_device_range e) - rstart (ce_device_range e)) div length (ce_checksums e)"

definition readable :: "(nat \<Rightarrow> nat \<Rightarrow> u8 list res) \<Rightarrow> bool" where
  "readable dev \<longleftrightarrow> (\<forall>off n. \<exists>buf. dev off n = Inr buf \<and> length buf = n)"

lemma verify_chunks_total:
  "readable dev \<Longrightarrow> 4 dvd n \<Longrightarrow> \<exists>r. verify_chunks dev n jo off cs = Inr r"
proof (induction dev n jo off cs rule: verify_chunks.induct)
  case (2 dev n jo off st d cs)
  obtain buf where buf: "dev off n = Inr buf" "length buf = n" using "2.prems"(1) by (auto simp: readable_def)
  then have "length buf mod 4 = 0" using "2.prems"(2) by auto
  then obtain f where f: "fletcher64 buf 0 = Inr f" by (simp add: fletcher64_alt)
  define st' where "st' = (if d \<ge> jo then (case st of Unverified c \<Rightarrow> if f \<noteq> c then Invalid else Valid | _ \<Rightarrow> st) else st)"
  show ?case
  proof (cases "jo \<le> d \<and> st' = Invalid")
    case True
    with buf(1) f show ?thesis by (cases st) (auto simp: st'_def split: if_splits)
  next
    case False
    from "2.IH" [OF this "2.prems"] obtain b cs' where "verify_chunks dev n jo (off + n) cs = Inr (b, cs')" by fastforce
    with buf(1) f False show ?thesis by (cases st) (auto simp: st'_def split: if_splits)
  qed
qed auto

lemma entry_chunk_size_ok:
  "entry_ok e \<Longrightarrow> \<exists>n. entry_chunk_size (ce_device_range e) (length (ce_checksums e)) = Inr n \<and> 4 dvd n"
  by (auto simp: entry_ok_def entry_chunk_size_def range_length_def range_is_valid_def u64_div_def u64_sub_def)

lemma verify_entries_total:
  assumes "readable dev" "\<forall>e \<in> set es. entry_ok e"
  shows "\<exists>r es'. verify_entries dev marked jo es = Inr (r, es') \<and> (\<forall>e \<in> set es'. entry_ok e)"
  using assms(2)
proof (induction es)
  case (Cons e es)
  then obtain r es' where rest: "verify_entries dev marked jo es = Inr (r, es')" "\<forall>e \<in> set es'. entry_ok e" by auto
  obtain n where n: "entry_chunk_size (ce_device_range e) (length (ce_checksums e)) = Inr n" "4 dvd n"
    using entry_chunk_size_ok Cons.prems by fastforce
  obtain bad cs where vc: "verify_chunks dev n jo (rstart (ce_device_range e)) (ce_checksums e) = Inr (bad, cs)"
    using verify_chunks_total [OF assms(1) n(2)] by fastforce
  have "entry_ok (e\<lparr>ce_checksums := cs\<rparr>)"
    using Cons.prems verify_chunks_facts [OF vc] by (auto simp: entry_ok_def)
  with Cons.prems rest n(1) vc show ?case by (auto split: option.splits)
qed simp

lemma verify_total:
  "readable dev \<Longrightarrow> \<forall>e \<in> set (checksum_entries self). entry_ok e \<Longrightarrow> \<exists>r. verify dev marked jo self = Inr r"
proof (induction dev marked jo self rule: verify.induct)
  case (1 dev marked jo self)
  from verify_entries_total [OF "1.prems"] obtain r es where
    ve: "verify_entries dev marked jo (checksum_entries self) = Inr (r, es)" "\<forall>e \<in> set es. entry_ok e" by blast
  show ?case
  proof (cases r)
    case None
    with ve show ?thesis by (simp add: verify.simps [of dev marked jo])
  next
    case (Some jo1)
    with "1.IH" [OF ve(1) refl Some "1.prems"(1)] ve show ?thesis by (simp add: verify.simps [of dev marked jo])
  qed
qed

text \<open>
  C17: on a readable device, with the entries in journal order, verification terminates and returns the
  greatest offset, at most the one given, up to which the journal can safely be replayed: every extent
  written before it is intact on the device, or is deallocated, or its owner deleted, before it; and
  every later offset would replay a write whose data did not reach the device.
\<close>

theorem verify_returns_greatest_safe_offset:
  assumes "readable dev" "\<forall>e \<in> set (checksum_entries self). entry_ok e"
    and "sorted (map start_journal_offset (checksum_entries self))"
  shows "\<exists>jo' self'. verify dev marked jo self = Inr (jo', self') \<and> jo' \<le> jo \<and>
    safe_to_replay dev marked (checksum_entries self) jo' \<and>
    (\<forall>j. jo' < j \<and> j \<le> jo \<longrightarrow> \<not> safe_to_replay dev marked (checksum_entries self) j)"
proof -
  obtain jo' self' where "verify dev marked jo self = Inr (jo', self')"
    using verify_total [OF assms(1,2)] by fastforce
  with verify_greatest [OF this assms(3)] show ?thesis by blast
qed

definition example_checksums :: checksum_list where
  "example_checksums = \<lparr>cl_flushed_offset = 5,
     checksum_entries =
       [\<lparr>start_journal_offset = 10, ce_owner_object_id = 1, ce_device_range = Range 0 4, ce_checksums = [(Unverified 0, 40)]\<rparr>,
        \<lparr>start_journal_offset = 20, ce_owner_object_id = 1, ce_device_range = Range 8 12, ce_checksums = [(Unverified 1, 40)]\<rparr>],
     device_offset_to_checksum_entry = [(4, 0), (12, 1)], max_chunk_size = 4\<rparr>"

theorem verify_returns_greatest_safe_offset_witness:
  "\<exists>jo' self'. verify (\<lambda>off n. Inr (replicate n 0)) (\<lambda>_. None) 30 example_checksums = Inr (jo', self') \<and> jo' \<le> 30 \<and>
    safe_to_replay (\<lambda>off n. Inr (replicate n 0)) (\<lambda>_. None) (checksum_entries example_checksums) jo'"
  using verify_returns_greatest_safe_offset [of "\<lambda>off n. Inr (replicate n 0)" example_checksums "\<lambda>_. None" 30]
  by (auto simp: readable_def entry_ok_def example_checksums_def)

section \<open>Building the list\<close>

text \<open>
  Pushing the extents of a journal in journal order keeps the list in the form that verification
  needs: an extent with a non-empty list of checksums over a valid range is accepted, those before the
  flushed offset are dropped, the others are appended in order with all their checksums still to be
  verified, and the index maps the end of a range to the earliest entry with that end.
\<close>

lemma push_keeps_list_ok:
  assumes "\<forall>e \<in> set (checksum_entries self). entry_ok e" "sorted (map start_journal_offset (checksum_entries self))"
    and "\<forall>e \<in> set (checksum_entries self). start_journal_offset e \<le> jo"
    and "rstart dr \<le> rend dr" "cs \<noteq> []" "4 dvd (rend dr - rstart dr) div length cs"
  shows "\<exists>self'. checksum_list_push jo owner dr cs self = Inr self' \<and>
    (\<forall>e \<in> set (checksum_entries self'). entry_ok e) \<and> sorted (map start_journal_offset (checksum_entries self')) \<and>
    (jo < cl_flushed_offset self \<longrightarrow> self' = self) \<and>
    (cl_flushed_offset self \<le> jo \<longrightarrow>
       checksum_entries self' = checksum_entries self @
         [\<lparr>start_journal_offset = jo, ce_owner_object_id = owner, ce_device_range = dr,
           ce_checksums = map (\<lambda>c. (Unverified c, u64_max)) cs\<rparr>] \<and>
       bt_get (device_offset_to_checksum_entry self') (rend dr) =
         (case bt_get (device_offset_to_checksum_entry self) (rend dr) of
            None \<Rightarrow> Some (length (checksum_entries self)) | Some i \<Rightarrow> Some i))"
proof -
  have "entry_chunk_size dr (length cs) = Inr ((rend dr - rstart dr) div length cs)"
    using assms(4,5) by (simp add: entry_chunk_size_def range_length_def range_is_valid_def u64_div_def u64_sub_def)
  with assms show ?thesis
    by (auto simp: checksum_list_push_def Let_def entry_ok_def sorted_append split: option.splits)
qed

section \<open>Deallocations\<close>

definition chunk_len :: "checksum_entry \<Rightarrow> nat" where
  "chunk_len e = (rend (ce_device_range e) - rstart (ce_device_range e)) div length (ce_checksums e)"

text \<open>The chunks of an entry divide its range evenly, and a deallocated range does not cut a chunk.\<close>

definition chunks_exact :: "checksum_entry \<Rightarrow> bool" where
  "chunks_exact e \<longleftrightarrow> 0 < chunk_len e \<and>
     rend (ce_device_range e) = rstart (ce_device_range e) + chunk_len e * length (ce_checksums e)"

definition cuts_no_chunk :: "u64_range \<Rightarrow> checksum_entry \<Rightarrow> bool" where
  "cuts_no_chunk dr e \<longleftrightarrow>
     (rstart (ce_device_range e) \<le> rstart dr \<longrightarrow> chunk_len e dvd rstart dr - rstart (ce_device_range e)) \<and>
     (rstart (ce_device_range e) \<le> rend dr \<longrightarrow> chunk_len e dvd rend dr - rstart (ce_device_range e))"

definition chunk_within :: "u64_range \<Rightarrow> checksum_entry \<Rightarrow> nat \<Rightarrow> bool" where
  "chunk_within dr e i \<longleftrightarrow>
     rstart dr \<le> rstart (ce_device_range e) + i * chunk_len e \<and>
     rstart (ce_device_range e) + Suc i * chunk_len e \<le> rend dr"

definition with_ends :: "nat \<Rightarrow> u64_range \<Rightarrow> checksum_entry \<Rightarrow> checksum_entry" where
  "with_ends jo dr e = e\<lparr>ce_checksums :=
     map (\<lambda>i. (fst (ce_checksums e ! i), if chunk_within dr e i then jo else snd (ce_checksums e ! i)))
       [0..<length (ce_checksums e)]\<rparr>"

lemma with_ends_none:
  assumes "\<And>i. i < length (ce_checksums e) \<Longrightarrow> \<not> chunk_within dr e i"
  shows "with_ends jo dr e = e"
proof -
  have "map (\<lambda>i. (fst (ce_checksums e ! i), if chunk_within dr e i then jo else snd (ce_checksums e ! i)))
      [0..<length (ce_checksums e)] = ce_checksums e"
    using assms by (intro nth_equalityI) simp_all
  then show ?thesis unfolding with_ends_def by simp
qed

lemma with_ends_outside:
  assumes "chunks_exact e" "rend dr \<le> rstart (ce_device_range e)"
  shows "with_ends jo dr e = e"
  using assms by (intro with_ends_none) (auto simp: chunk_within_def chunks_exact_def)

lemma set_ends_nth:
  assumes "a \<le> b" "b \<le> length cs"
  shows "set_ends jo a b cs =
    Inr (map (\<lambda>i. (fst (cs ! i), if a \<le> i \<and> i < b then jo else snd (cs ! i))) [0..<length cs])"
proof -
  have "take a cs @ map (\<lambda>c. (fst c, jo)) (take (b - a) (drop a cs)) @ drop b cs =
      map (\<lambda>i. (fst (cs ! i), if a \<le> i \<and> i < b then jo else snd (cs ! i))) [0..<length cs]"
    using assms by (intro nth_equalityI) (auto simp: nth_append min_def not_less)
  with assms show ?thesis by (simp add: set_ends_def)
qed

text \<open>The slice that the loop computes for an entry is the set of chunks within the range.\<close>

lemma slice_is_within:
  assumes "chunks_exact e" "cuts_no_chunk dr e" "rstart (ce_device_range e) < rend dr" "rstart dr < rend (ce_device_range e)"
    and "a = (if rstart dr < rstart (ce_device_range e) then 0 else (rstart dr - rstart (ce_device_range e)) div chunk_len e)"
    and "b = (if rend (ce_device_range e) \<ge> rend dr then (rend dr - rstart (ce_device_range e)) div chunk_len e else length (ce_checksums e))"
  shows "i < length (ce_checksums e) \<Longrightarrow> (a \<le> i \<and> i < b) = chunk_within dr e i" "b \<le> length (ce_checksums e)"
    "rstart dr \<le> rend dr \<Longrightarrow> a \<le> b"
proof -
  let ?s = "rstart (ce_device_range e)" and ?n = "chunk_len e" and ?l = "length (ce_checksums e)"
  have n: "0 < ?n" "rend (ce_device_range e) = ?s + ?n * ?l" using assms(1) by (simp_all add: chunks_exact_def)
  have up: "rstart dr \<le> ?s + i * ?n \<longleftrightarrow> a \<le> i" for i
  proof (cases "rstart dr < ?s")
    case False
    then obtain k where k: "rstart dr - ?s = ?n * k" using assms(2) by (auto simp: cuts_no_chunk_def elim!: dvdE)
    have "rstart dr \<le> ?s + i * ?n \<longleftrightarrow> ?n * k \<le> i * ?n" using k False by linarith
    also have "\<dots> \<longleftrightarrow> k \<le> i" using n(1) by (simp add: mult.commute [of ?n])
    finally show ?thesis using False n(1) assms(5) k by simp
  qed (simp add: assms(5))
  obtain k where k: "rend dr - ?s = ?n * k" using assms(2,3) by (auto simp: cuts_no_chunk_def elim!: dvdE)
  have down: "?s + Suc i * ?n \<le> rend dr \<longleftrightarrow> i < k" for i
  proof -
    have "?s + Suc i * ?n \<le> rend dr \<longleftrightarrow> Suc i * ?n \<le> ?n * k" using k assms(3) by linarith
    then show ?thesis using n(1) by (simp add: mult.commute [of ?n] Suc_le_eq del: mult_Suc)
  qed
  have le: "rend (ce_device_range e) \<ge> rend dr \<longleftrightarrow> k \<le> ?l"
  proof -
    have "rend (ce_device_range e) \<ge> rend dr \<longleftrightarrow> ?n * k \<le> ?n * ?l" using n(2) k assms(3) by linarith
    then show ?thesis using n(1) by simp
  qed
  have b: "b = min k ?l" using assms(6) le k n(1) by (auto simp: min_def)
  show "i < ?l \<Longrightarrow> (a \<le> i \<and> i < b) = chunk_within dr e i"
    using up [of i] down [of i] b by (simp add: chunk_within_def)
  show "b \<le> ?l" using b by simp
  have "rstart dr \<le> ?s + ?l * ?n" using assms(4) n(2) by (simp add: mult.commute)
  then have "a \<le> ?l" using up [of ?l] by simp
  moreover have "a \<le> k" if "rstart dr \<le> rend dr"
  proof -
    have "rstart dr \<le> ?s + k * ?n" using that k assms(3) by (simp add: mult.commute)
    then show ?thesis using up [of k] by simp
  qed
  ultimately show "rstart dr \<le> rend dr \<Longrightarrow> a \<le> b" using b by simp
qed

lemma with_ends_slice:
  assumes "chunks_exact e" "cuts_no_chunk dr e" "rstart (ce_device_range e) < rend dr" "rstart dr < rend (ce_device_range e)"
    and "a = (if rstart dr < rstart (ce_device_range e) then 0 else (rstart dr - rstart (ce_device_range e)) div chunk_len e)"
    and "b = (if rend (ce_device_range e) \<ge> rend dr then (rend dr - rstart (ce_device_range e)) div chunk_len e else length (ce_checksums e))"
    and "rstart dr \<le> rend dr"
  shows "\<exists>cs'. set_ends jo a b (ce_checksums e) = Inr cs' \<and> e\<lparr>ce_checksums := cs'\<rparr> = with_ends jo dr e"
proof -
  note sl = slice_is_within [OF assms(1-6)]
  show ?thesis
    using set_ends_nth [OF sl(3) [OF assms(7)] sl(2), of jo] sl(1) by (auto simp: with_ends_def)
qed

lemma entry_chunk_size_exact:
  "chunks_exact e \<Longrightarrow> entry_chunk_size (ce_device_range e) (length (ce_checksums e)) = Inr (chunk_len e)"
  by (auto simp: entry_chunk_size_def range_length_def range_is_valid_def u64_div_def u64_sub_def chunk_len_def chunks_exact_def)

lemma with_ends_narrow:
  assumes "rstart dr \<le> x" "x \<le> rstart (ce_device_range e)"
  shows "with_ends jo (Range x (rend dr)) e = with_ends jo dr e"
  using assms by (simp add: with_ends_def chunk_within_def)

lemma mark_loop_marks:
  assumes "sorted_wrt (\<lambda>(_, i) (_, j). rend (ce_device_range (es ! i)) \<le> rstart (ce_device_range (es ! j))) L"
    and "distinct (map snd L)" "rstart dr \<le> rend dr"
    and "\<forall>(k, i) \<in> set L. i < length es \<and> chunks_exact (es ! i) \<and> cuts_no_chunk dr (es ! i) \<and> rstart dr < rend (ce_device_range (es ! i))"
  shows "mark_deallocated_loop jo dr L es =
    Inr (map (\<lambda>i. if i \<in> snd ` set L then with_ends jo dr (es ! i) else es ! i) [0..<length es])"
  using assms
proof (induction L arbitrary: dr es)
  case Nil
  then show ?case by (simp add: map_nth)
next
  case (Cons p L)
  obtain k i where p: "p = (k, i)" by fastforce
  let ?e = "es ! i" and ?r = "ce_device_range (es ! i)"
  have i: "i < length es" "chunks_exact ?e" "cuts_no_chunk dr ?e" "rstart dr < rend ?r" using Cons.prems(4) by (auto simp: p)
  have later: "\<forall>(_, j) \<in> set L. rend ?r \<le> rstart (ce_device_range (es ! j))"
    using Cons.prems(1) by (auto simp: p)
  have fresh: "i \<notin> snd ` set L" using Cons.prems(2) by (simp add: p)
  note ck = entry_chunk_size_exact [OF i(2)]
  have pos: "0 < chunk_len ?e" "rstart ?r \<le> rend ?r" using i(2) by (simp_all add: chunks_exact_def)
  show ?case
  proof (cases "rstart ?r \<ge> rend dr")
    case True
    have "with_ends jo dr (es ! j) = es ! j" if "j \<in> snd ` set ((k, i) # L)" for j
    proof (rule with_ends_outside)
      show "chunks_exact (es ! j)" using that Cons.prems(4) by (auto simp: p)
      show "rend dr \<le> rstart (ce_device_range (es ! j))" using that True later pos(2) by fastforce
    qed
    then have "map (\<lambda>j. if j \<in> snd ` set (p # L) then with_ends jo dr (es ! j) else es ! j) [0..<length es] = es"
      by (intro nth_equalityI) (auto simp: p)
    with True i(1) show ?thesis by (simp add: p Let_def)
  next
    case False
    define a where "a = (if rstart dr < rstart ?r then 0 else (rstart dr - rstart ?r) div chunk_len ?e)"
    have ia: "(if rstart dr < rstart ?r then Inr 0 else u64_div (rstart dr - rstart ?r) (chunk_len ?e)) = Inr a"
      using pos(1) by (simp add: a_def u64_div_def)
    show ?thesis
    proof (cases "rend ?r \<ge> rend dr")
      case True
      obtain cs' where cs': "set_ends jo a ((rend dr - rstart ?r) div chunk_len ?e) (ce_checksums ?e) = Inr cs'"
          "?e\<lparr>ce_checksums := cs'\<rparr> = with_ends jo dr ?e"
        using with_ends_slice [OF i(2,3) _ i(4) a_def refl Cons.prems(3)] True False by auto
      have "with_ends jo dr (es ! j) = es ! j" if "j \<in> snd ` set L" for j
      proof (rule with_ends_outside)
        show "chunks_exact (es ! j)" using that Cons.prems(4) by auto
        show "rend dr \<le> rstart (ce_device_range (es ! j))" using that True later by fastforce
      qed
      then have "es[i := with_ends jo dr ?e] =
          map (\<lambda>j. if j \<in> snd ` set (p # L) then with_ends jo dr (es ! j) else es ! j) [0..<length es]"
        using i(1) fresh by (intro nth_equalityI) (simp_all add: p nth_list_update)
      with True False i(1) ck ia cs' pos(1) show ?thesis by (simp add: p Let_def u64_div_def)
    next
      case less: False
      obtain cs' where cs': "set_ends jo a (length (ce_checksums ?e)) (ce_checksums ?e) = Inr cs'"
          "?e\<lparr>ce_checksums := cs'\<rparr> = with_ends jo dr ?e"
        using with_ends_slice [OF i(2,3) _ i(4) a_def refl Cons.prems(3)] less False by auto
      let ?es = "es[i := with_ends jo dr ?e]" and ?dr = "Range (rend ?r) (rend dr)"
      have other: "?es ! j = es ! j" if "(x, j) \<in> set L" for x j 
      proof -
        have "j \<noteq> i" using that fresh by force
        then show ?thesis by simp
      qed
      have "mark_deallocated_loop jo ?dr L ?es =
          Inr (map (\<lambda>j. if j \<in> snd ` set L then with_ends jo ?dr (?es ! j) else ?es ! j) [0..<length ?es])"
      proof (rule Cons.IH)
        show "sorted_wrt (\<lambda>(_, i) (_, j). rend (ce_device_range (?es ! i)) \<le> rstart (ce_device_range (?es ! j))) L"
          using Cons.prems(1) other by (auto simp: p intro: sorted_wrt_mono_rel [rotated])
        show "\<forall>(k, j) \<in> set L. j < length ?es \<and> chunks_exact (?es ! j) \<and> cuts_no_chunk ?dr (?es ! j) \<and> rstart ?dr < rend (ce_device_range (?es ! j))"
        proof (intro ballI, clarify)
          fix k j assume kj: "(k, j) \<in> set L"
          then have j: "j < length es" "chunks_exact (es ! j)" "cuts_no_chunk dr (es ! j)"
              "rend ?r \<le> rstart (ce_device_range (es ! j))"
            using Cons.prems(4) later by auto
          moreover have "0 < length (ce_checksums (es ! j))"
            using j(2) by (cases "ce_checksums (es ! j)") (simp_all add: chunks_exact_def chunk_len_def)
          ultimately have "rstart (ce_device_range (es ! j)) < rend (ce_device_range (es ! j))"
            by (simp add: chunks_exact_def)
          with j show "j < length ?es \<and> chunks_exact (?es ! j) \<and> cuts_no_chunk ?dr (?es ! j) \<and> rstart ?dr < rend (ce_device_range (?es ! j))"
            by (auto simp: other [OF kj] cuts_no_chunk_def)
        qed
      qed (use Cons.prems(2) less in \<open>simp_all add: p\<close>)
      moreover have "map (\<lambda>j. if j \<in> snd ` set L then with_ends jo ?dr (?es ! j) else ?es ! j) [0..<length ?es] =
          map (\<lambda>j. if j \<in> snd ` set (p # L) then with_ends jo dr (es ! j) else es ! j) [0..<length es]"
      proof (intro map_cong refl)
        fix j assume "j \<in> set [0..<length es]"
        have "with_ends jo ?dr (es ! j) = with_ends jo dr (es ! j)" if "j \<in> snd ` set L"
          using that later i(4) by (intro with_ends_narrow) auto
        then show "(if j \<in> snd ` set L then with_ends jo ?dr (?es ! j) else ?es ! j) =
            (if j \<in> snd ` set (p # L) then with_ends jo dr (es ! j) else es ! j)"
          using fresh i(1) by (auto simp: p nth_list_update)
      qed simp
      ultimately show ?thesis using less False i(1) ck ia cs' by (simp add: p Let_def)
    qed
  qed
qed

text \<open>
  Marking a deallocated range gives exactly the chunks inside it the offset of the deallocation as
  their end, in every indexed entry, and changes nothing else, when the indexed entries are disjoint
  and the range does not cut a chunk. A deallocation before the flushed offset changes nothing.
\<close>

lemma mark_deallocated_exact:
  assumes "bt_ok (device_offset_to_checksum_entry self)" "rstart dr \<le> rend dr" "rstart dr < u64_max"
    and "distinct (map snd (device_offset_to_checksum_entry self))"
    and "sorted_wrt (\<lambda>(_, i) (_, j). rend (ce_device_range (checksum_entries self ! i)) \<le> rstart (ce_device_range (checksum_entries self ! j)))
           (device_offset_to_checksum_entry self)"
    and "\<forall>(k, i) \<in> set (device_offset_to_checksum_entry self). i < length (checksum_entries self) \<and>
           k = rend (ce_device_range (checksum_entries self ! i)) \<and> chunks_exact (checksum_entries self ! i) \<and>
           cuts_no_chunk dr (checksum_entries self ! i)"
  shows "mark_deallocated jo dr self =
    Inr (if jo < cl_flushed_offset self then self
         else self\<lparr>checksum_entries :=
           map (\<lambda>i. if i \<in> snd ` set (device_offset_to_checksum_entry self)
                   then with_ends jo dr (checksum_entries self ! i) else checksum_entries self ! i)
             [0..<length (checksum_entries self)]\<rparr>)"
proof -
  let ?m = "device_offset_to_checksum_entry self" and ?es = "checksum_entries self"
  let ?L = "filter (\<lambda>(k, _). k \<ge> Suc (rstart dr)) ?m"
  have loop: "mark_deallocated_loop jo dr ?L ?es =
      Inr (map (\<lambda>i. if i \<in> snd ` set ?L then with_ends jo dr (?es ! i) else ?es ! i) [0..<length ?es])"
    using assms by (intro mark_loop_marks) (auto simp: sorted_wrt_filter distinct_map_filter)
  have "with_ends jo dr (?es ! i) = ?es ! i" if i: "i \<in> snd ` set ?m" "i \<notin> snd ` set ?L" for i
  proof -
    from i(1) obtain k where k: "(k, i) \<in> set ?m" by auto
    with i(2) have "k \<le> rstart dr" by force
    moreover have e: "k = rend (ce_device_range (?es ! i))" "chunks_exact (?es ! i)" using k assms(6) by auto
    ultimately have le: "rstart (ce_device_range (?es ! i)) + chunk_len (?es ! i) * length (ce_checksums (?es ! i)) \<le> rstart dr"
      by (simp add: chunks_exact_def)
    have "\<not> chunk_within dr (?es ! i) j" if "j < length (ce_checksums (?es ! i))" for j
    proof -
      have "Suc j * chunk_len (?es ! i) \<le> length (ce_checksums (?es ! i)) * chunk_len (?es ! i)"
        using that by (intro mult_right_mono) simp_all
      then have "rstart (ce_device_range (?es ! i)) + j * chunk_len (?es ! i) < rstart dr"
        using le e(2) by (simp add: chunks_exact_def mult.commute)
      then show ?thesis by (simp add: chunk_within_def)
    qed
    then show ?thesis by (rule with_ends_none)
  qed
  then have "map (\<lambda>i. if i \<in> snd ` set ?L then with_ends jo dr (?es ! i) else ?es ! i) [0..<length ?es] =
      map (\<lambda>i. if i \<in> snd ` set ?m then with_ends jo dr (?es ! i) else ?es ! i) [0..<length ?es]"
    by (intro map_cong refl) auto
  with loop assms(3) show ?thesis by (simp add: mark_deallocated_def u64_add_def)
qed

end
