(* ===== verification/Lock_Manager_Correct.thy ===== *)
theory Lock_Manager_Correct
  imports Lock_Manager
begin

text \<open>
  Correctness of the lock manager: a system of tasks that request, upgrade, downgrade, release and
  give up locks in any order, with the set of grants as history. In every reachable state a write lock
  is exclusive, at most one task has a transaction or write lock, nobody waits for a lock that nobody
  holds, and none of the operations panics.
\<close>

section \<open>The system\<close>

text \<open>
  A grant is a number and the mode in which the lock is held; \<open>holders s k\<close> are the outstanding grants
  of the key \<open>k\<close>, including those of tasks that were woken and have not run yet.
\<close>

type_synonym grants = "(nat \<times> lock_state) list"

record lock_system =
  table :: locks
  holders :: "lock_key \<Rightarrow> grants"

definition grant :: "lock_waker \<Rightarrow> grants \<Rightarrow> grants" where
  "grant w H =
     (if is_upgrade w then map (\<lambda>(i, m). (i, if m = Locked then WriteLock else m)) H
      else (waker_id w, target_state w) # H)"

definition grants :: "lock_waker list \<Rightarrow> grants \<Rightarrow> grants" where
  "grants ws H = fold grant ws H"

definition downgraded :: "grants \<Rightarrow> grants" where
  "downgraded H = map (\<lambda>(i, m). (i, if m = WriteLock then Locked else m)) H"

definition init_locks :: lock_system where
  "init_locks = \<lparr>table = (\<lambda>_. None), holders = (\<lambda>_. [])\<rparr>"

text \<open>
  A holder may be released in the mode it is held in, unless it waits to be upgraded; a waiting task
  may give up.
\<close>

definition upgrading :: "lock_system \<Rightarrow> lock_key \<Rightarrow> bool" where
  "upgrading s k = (\<exists>e w. table s k = Some e \<and> w \<in> set (wakers e) \<and> is_upgrade w)"

text \<open>The wakers in a queue are different objects.\<close>

definition fresh :: "lock_system \<Rightarrow> lock_key \<Rightarrow> nat \<Rightarrow> bool" where
  "fresh s k i = (\<forall>e. table s k = Some e \<longrightarrow> i \<notin> waker_id ` set (wakers e))"

inductive lock_step :: "lock_system \<Rightarrow> lock_system \<Rightarrow> bool" where
  request_granted:
    "lock_one k target i (table s) = (True, t) \<Longrightarrow>
     lock_step s (s\<lparr>table := t, holders := (holders s)(k := (i, target) # holders s k)\<rparr>)"
| request_queued:
    "fresh s k i \<Longrightarrow> lock_one k target i (table s) = (False, t) \<Longrightarrow> lock_step s (s\<lparr>table := t\<rparr>)"
| upgrade_granted:
    "(i, Locked) \<in> set (holders s k) \<Longrightarrow> \<not> upgrading s k \<Longrightarrow> commit_prepare_one k i (table s) = Inr (True, t) \<Longrightarrow>
     lock_step s (s\<lparr>table := t, holders := (holders s)
       (k := grant \<lparr>waker_id = i, target_state = WriteLock, is_upgrade = True\<rparr> (holders s k))\<rparr>)"
| upgrade_queued:
    "(i, Locked) \<in> set (holders s k) \<Longrightarrow> \<not> upgrading s k \<Longrightarrow> fresh s k j \<Longrightarrow> commit_prepare_one k j (table s) = Inr (False, t) \<Longrightarrow>
     lock_step s (s\<lparr>table := t\<rparr>)"
| release:
    "(i, m) \<in> set (holders s k) \<Longrightarrow> m = ReadLock \<or> \<not> upgrading s k \<Longrightarrow> drop_lock k m (table s) = Inr (ws, t) \<Longrightarrow>
     lock_step s (s\<lparr>table := t, holders := (holders s)(k := grants ws (remove1 (i, m) (holders s k)))\<rparr>)"
| downgrade:
    "(i, WriteLock) \<in> set (holders s k) \<Longrightarrow> downgrade_one k (table s) = Inr (ws, t) \<Longrightarrow>
     lock_step s (s\<lparr>table := t, holders := (holders s)(k := grants ws (downgraded (holders s k)))\<rparr>)"
| give_up:
    "table s k = Some e \<Longrightarrow> w \<in> set (wakers e) \<Longrightarrow> wait_dropped k w False (table s) = Inr (ws, t) \<Longrightarrow>
     lock_step s (s\<lparr>table := t, holders := (holders s)(k := grants ws (holders s k))\<rparr>)"

inductive lock_reachable :: "lock_system \<Rightarrow> bool" where
  start: "lock_reachable init_locks"
| step: "lock_reachable s \<Longrightarrow> lock_step s t \<Longrightarrow> lock_reachable t"

section \<open>The invariant of an entry\<close>

definition readers :: "grants \<Rightarrow> nat" where
  "readers H = length (filter (\<lambda>h. snd h = ReadLock) H)"

definition writers :: "grants \<Rightarrow> lock_state list" where
  "writers H = map snd (filter (\<lambda>h. snd h \<noteq> ReadLock) H)"

text \<open>The entry counts its grants, and an upgrade waits at the head of the queue of a locked entry.\<close>

definition counts_ok :: "lock_entry \<Rightarrow> grants \<Rightarrow> bool" where
  "counts_ok e H \<longleftrightarrow>
     read_count e = readers H \<and>
     writers H = (if lstate e = ReadLock then [] else [lstate e]) \<and>
     (lstate e = WriteLock \<longrightarrow> readers H = 0)"

definition queue_ok :: "lock_entry \<Rightarrow> bool" where
  "queue_ok e \<longleftrightarrow>
     (\<forall>w \<in> set (wakers e). is_upgrade w \<longrightarrow> target_state w = WriteLock) \<and>
     (\<forall>w \<in> set (tl (wakers e)). \<not> is_upgrade w) \<and>
     (case wakers e of [] \<Rightarrow> True | w # _ \<Rightarrow> is_upgrade w \<longrightarrow> lstate e = Locked) \<and>
     distinct (map waker_id (wakers e))"

definition entry_inv :: "lock_entry option \<Rightarrow> grants \<Rightarrow> bool" where
  "entry_inv x H = (case x of None \<Rightarrow> H = [] | Some e \<Rightarrow> counts_ok e H \<and> queue_ok e \<and> H \<noteq> [])"

definition lock_inv :: "lock_system \<Rightarrow> bool" where
  "lock_inv s \<longleftrightarrow> (\<forall>k. entry_inv (table s k) (holders s k))"

lemma readers_simps [simp]:
  "readers [] = 0" "readers ((i, m) # H) = (if m = ReadLock then Suc (readers H) else readers H)"
  "writers [] = []" "writers ((i, m) # H) = (if m = ReadLock then writers H else m # writers H)"
  by (simp_all add: readers_def writers_def)

lemma reader_member: "(i, ReadLock) \<in> set H \<Longrightarrow> 0 < readers H"
  by (force simp: readers_def filter_empty_conv)

lemma queue_ok_plain:
  "\<forall>w \<in> set (wakers e). \<not> is_upgrade w \<Longrightarrow> distinct (map waker_id (wakers e)) \<Longrightarrow> queue_ok e"
  by (cases "wakers e") (auto simp: queue_ok_def)

lemma readers_remove:
  "(i, m) \<in> set H \<Longrightarrow> readers (remove1 (i, m) H) = (if m = ReadLock then readers H - 1 else readers H)"
proof (induction H)
  case (Cons h H)
  with reader_member [of i H] show ?case by (cases h) (auto simp: gr0_conv_Suc)
qed simp

lemma writers_remove:
  "writers (remove1 (i, ReadLock) H) = writers H"
  "(i, m) \<in> set H \<Longrightarrow> m \<noteq> ReadLock \<Longrightarrow> length (writers (remove1 (i, m) H)) = length (writers H) - 1"
proof -
  show "writers (remove1 (i, ReadLock) H) = writers H" by (induction H) (auto split: if_splits)
  show "(i, m) \<in> set H \<Longrightarrow> m \<noteq> ReadLock \<Longrightarrow> length (writers (remove1 (i, m) H)) = length (writers H) - 1"
  proof (induction H)
    case (Cons h H)
    have "0 < length (writers H)" if "(i, m) \<in> set H" using that Cons.prems(2) by (force simp: writers_def filter_empty_conv)
    with Cons show ?case by (cases h) auto
  qed simp
qed

lemma no_grants: "H = [] \<longleftrightarrow> readers H = 0 \<and> writers H = []"
  by (cases H) (auto split: if_splits)

lemma writer_member: "(i, m) \<in> set H \<Longrightarrow> m \<noteq> ReadLock \<Longrightarrow> m \<in> set (writers H)"
  by (induction H) (auto split: if_splits)

lemma readers_map_writers:
  assumes "\<And>m. f m = ReadLock \<longleftrightarrow> m = ReadLock"
  shows "readers (map (\<lambda>(i, m). (i, f m)) H) = readers H" "writers (map (\<lambda>(i, m). (i, f m)) H) = map f (writers H)"
proof -
  show "readers (map (\<lambda>(i, m). (i, f m)) H) = readers H"
    by (induction H) (auto simp: assms)
  show "writers (map (\<lambda>(i, m). (i, f m)) H) = map f (writers H)"
    by (induction H) (auto simp: assms)
qed

lemma counts_ok_held: "counts_ok e H \<Longrightarrow> can_remove e \<longleftrightarrow> H = []"
  by (auto simp: counts_ok_def can_remove_def no_grants [of H] split: if_splits)

section \<open>Waking\<close>

definition grantable :: "lock_entry \<Rightarrow> lock_waker \<Rightarrow> bool" where
  "grantable e w \<longleftrightarrow> lstate e \<noteq> WriteLock \<and>
     (if is_upgrade w then read_count e = 0 else is_allowed (target_state w) True e)"

lemma pop_and_wake_inv:
  assumes "counts_ok e H" "queue_ok e" "wakers e = w # ws" "grantable e w"
  shows "counts_ok (pop_and_wake w e) (grant w H)" "queue_ok (pop_and_wake w e)"
    "wakers (pop_and_wake w e) = ws" "lstate (pop_and_wake w e) = (if target_state w = ReadLock then lstate e else target_state w)"
proof -
  show "wakers (pop_and_wake w e) = ws" "lstate (pop_and_wake w e) = (if target_state w = ReadLock then lstate e else target_state w)"
    using assms(3) by (simp_all add: pop_and_wake_def Let_def)
  have noup: "\<forall>v \<in> set ws. \<not> is_upgrade v" "distinct (map waker_id ws)" using assms(2,3) by (simp_all add: queue_ok_def)
  then show "queue_ok (pop_and_wake w e)"
    using assms(3) by (cases ws) (auto simp: pop_and_wake_def Let_def queue_ok_def)
  show "counts_ok (pop_and_wake w e) (grant w H)"
  proof (cases "is_upgrade w")
    case True
    then have "lstate e = Locked" "target_state w = WriteLock" "read_count e = 0"
      using assms(2,3,4) by (auto simp: queue_ok_def grantable_def)
    with True assms(1) show ?thesis
      using readers_map_writers [of "\<lambda>m. if m = Locked then WriteLock else m" H]
      by (simp add: counts_ok_def grant_def pop_and_wake_def Let_def)
  next
    case False
    with assms(1,4) show ?thesis
      by (cases "lstate e"; cases "target_state w")
        (auto simp: counts_ok_def grant_def pop_and_wake_def Let_def grantable_def is_allowed_def)
  qed
qed

lemma wake_readers_inv:
  "counts_ok e H \<Longrightarrow> queue_ok e \<Longrightarrow> wakers e = ws \<Longrightarrow> \<forall>w \<in> set ws. \<not> is_upgrade w \<Longrightarrow> lstate e \<noteq> WriteLock \<Longrightarrow>
   wake_readers ws e = (woken, e') \<Longrightarrow>
   counts_ok e' (grants woken H) \<and> queue_ok e' \<and> lstate e' = lstate e \<and> read_count e \<le> read_count e'"
proof (induction ws e arbitrary: H woken rule: wake_readers.induct)
  case (2 w ws e)
  show ?case
  proof (cases "target_state w = ReadLock")
    case True
    then have g: "grantable e w" using "2.prems"(4,5) by (auto simp: grantable_def is_allowed_def split: lock_state.splits)
    note p = pop_and_wake_inv [OF "2.prems"(1-3) g]
    obtain woken' where w': "wake_readers ws (pop_and_wake w e) = (woken', e')" "woken = w # woken'"
      using "2.prems"(6) True by (auto split: prod.splits)
    have "read_count e \<le> read_count (pop_and_wake w e)" using True by (simp add: pop_and_wake_def Let_def)
    with "2.IH" [OF True p(1,2,3) _ _ w'(1)] p(4) True "2.prems"(4,5) w'(2) show ?thesis by (simp add: grants_def)
  next
    case False
    with "2.prems" show ?thesis by (simp add: grants_def)
  qed
qed (simp add: grants_def)

lemma grant_not_Nil: "H \<noteq> [] \<Longrightarrow> grant w H \<noteq> []" "\<not> is_upgrade w \<Longrightarrow> grant w H \<noteq> []"
  by (simp_all add: grant_def)

lemma grants_not_Nil: "H \<noteq> [] \<Longrightarrow> grants ws H \<noteq> []"
  by (induction ws arbitrary: H) (simp_all add: grants_def grant_not_Nil)

lemma wake_inv:
  assumes "counts_ok e H" "queue_ok e" "wake e = (woken, e')"
  shows "counts_ok e' (grants woken H) \<and> queue_ok e' \<and> (wakers e \<noteq> [] \<and> H = [] \<longrightarrow> hd (wakers e) \<in> set woken)"
proof (cases "wakers e")
  case Nil
  with assms show ?thesis by (simp add: wake_def grants_def)
next
  case (Cons w ws)
  have free: "grantable e w" if "H = []"
    using assms(1,2) Cons that by (auto simp: counts_ok_def grantable_def is_allowed_def queue_ok_def split: if_splits)
  show ?thesis
  proof (cases "grantable e w")
    case False
    then have "wake e = ([], e)" using Cons by (auto simp: wake_def grantable_def split: if_splits)
    with False free assms show ?thesis by (auto simp: grants_def)
  next
    case True
    note p = pop_and_wake_inv [OF assms(1,2) Cons True]
    have w: "wake e = (if target_state w = WriteLock then ([w], pop_and_wake w e)
        else (let (woken, self) = wake_readers ws (pop_and_wake w e) in (w # woken, self)))"
      using True Cons by (auto simp: wake_def grantable_def Let_def split: if_splits)
    show ?thesis
    proof (cases "target_state w = WriteLock")
      case wl: True
      with w assms(3) p Cons show ?thesis by (simp add: grants_def)
    next
      case False
      then obtain woken' where w': "wake_readers ws (pop_and_wake w e) = (woken', e')" "woken = w # woken'"
        using w assms(3) by (auto split: prod.splits)
      have "\<forall>v \<in> set ws. \<not> is_upgrade v" using assms(2) Cons by (simp add: queue_ok_def)
      moreover have "lstate (pop_and_wake w e) \<noteq> WriteLock" using p(4) False True by (auto simp: grantable_def)
      ultimately have "counts_ok e' (grants woken' (grant w H)) \<and> queue_ok e'"
        using wake_readers_inv [OF p(1-3) _ _ w'(1)] by blast
      with w'(2) Cons show ?thesis by (simp add: grants_def)
    qed
  qed
qed

section \<open>The operations keep the invariant\<close>

lemma lock_one_inv:
  assumes "entry_inv (tab k) H" "lock_one k target i tab = (granted, t)"
    and "\<not> granted \<longrightarrow> (\<forall>e. tab k = Some e \<longrightarrow> i \<notin> waker_id ` set (wakers e))"
  shows "entry_inv (t k) (if granted then (i, target) # H else H) \<and> (\<forall>k'. k' \<noteq> k \<longrightarrow> t k' = tab k')"
proof (cases "tab k")
  case None
  with assms show ?thesis
    by (cases target) (auto simp: lock_one_def entry_inv_def counts_ok_def queue_ok_def)
next
  case (Some e)
  then have e: "counts_ok e H" "queue_ok e" "H \<noteq> []" using assms(1) by (simp_all add: entry_inv_def)
  show ?thesis
  proof (cases "is_allowed target (wakers e = []) e")
    case True
    let ?e = "if target = ReadLock then e\<lparr>read_count := read_count e + 1\<rparr> else e\<lparr>lstate := target\<rparr>"
    have t: "granted" "t = tab(k \<mapsto> ?e)" using assms(2) Some True by (simp_all add: lock_one_def)
    have "counts_ok ?e ((i, target) # H)"
      using e(1,3) True by (cases "lstate e"; cases target) (auto simp: counts_ok_def is_allowed_def no_grants [of H])
    moreover have "queue_ok ?e"
      using e(2) True by (cases "lstate e"; cases target) (auto simp: queue_ok_def is_allowed_def split: list.splits)
    ultimately show ?thesis using t by (simp add: entry_inv_def)
  next
    case False
    let ?e = "e\<lparr>wakers := wakers e @ [\<lparr>waker_id = i, target_state = target, is_upgrade = False\<rparr>]\<rparr>"
    have t: "\<not> granted" "t = tab(k \<mapsto> ?e)" using assms(2) Some False by (simp_all add: lock_one_def)
    have "counts_ok ?e H" using e(1) by (simp add: counts_ok_def)
    moreover have "queue_ok ?e" using e(2) assms(3) t(1) Some by (cases "wakers e") (auto simp: queue_ok_def)
    ultimately show ?thesis using t e(3) by (simp add: entry_inv_def)
  qed
qed

lemma commit_prepare_inv:
  assumes "entry_inv (tab k) H" "(i, Locked) \<in> set H" "commit_prepare_one k j tab = Inr (granted, t)"
    and "\<forall>e w. tab k = Some e \<and> w \<in> set (wakers e) \<longrightarrow> \<not> is_upgrade w"
    and "\<not> granted \<longrightarrow> (\<forall>e. tab k = Some e \<longrightarrow> j \<notin> waker_id ` set (wakers e))"
  shows "entry_inv (t k) (if granted then grant \<lparr>waker_id = j', target_state = WriteLock, is_upgrade = True\<rparr> H else H) \<and>
    (\<forall>k'. k' \<noteq> k \<longrightarrow> t k' = tab k')"
proof -
  obtain e where e: "tab k = Some e" using assms(3) by (auto simp: commit_prepare_one_def split: option.splits)
  then have inv: "counts_ok e H" "queue_ok e" "H \<noteq> []" "lstate e = Locked" "\<forall>w \<in> set (wakers e). \<not> is_upgrade w"
    using assms(1,3,4) by (auto simp: entry_inv_def commit_prepare_one_def bind_res_eq_Inr)
  show ?thesis
  proof (cases "read_count e = 0")
    case True
    then have t: "granted" "t = tab(k \<mapsto> e\<lparr>lstate := WriteLock\<rparr>)"
      using e assms(3) inv(4) by (simp_all add: commit_prepare_one_def)
    have "counts_ok (e\<lparr>lstate := WriteLock\<rparr>) (grant \<lparr>waker_id = j', target_state = WriteLock, is_upgrade = True\<rparr> H)"
      using inv(1,4) True readers_map_writers [of "\<lambda>m. if m = Locked then WriteLock else m" H]
      by (simp add: counts_ok_def grant_def)
    moreover have "queue_ok (e\<lparr>lstate := WriteLock\<rparr>)" using inv(2,5) by (auto simp: queue_ok_def split: list.splits)
    ultimately show ?thesis using t grant_not_Nil(1) [OF inv(3)] by (simp add: entry_inv_def)
  next
    case False
    let ?e = "e\<lparr>wakers := \<lparr>waker_id = j, target_state = WriteLock, is_upgrade = True\<rparr> # wakers e\<rparr>"
    have t: "\<not> granted" "t = tab(k \<mapsto> ?e)" using e assms(3) inv(4) False by (simp_all add: commit_prepare_one_def)
    have "queue_ok ?e" using inv(2,4,5) e assms(5) t(1) by (auto simp: queue_ok_def)
    with inv t show ?thesis by (simp add: entry_inv_def counts_ok_def)
  qed
qed

text \<open>What an entry is after a release, before it is removed if it is free.\<close>

lemma wake_entry_inv:
  assumes "counts_ok e H" "queue_ok e" "wake e = (ws, e')"
  shows "entry_inv (if can_remove e' then None else Some e') (grants ws H)"
  using wake_inv [OF assms] counts_ok_held [of e' "grants ws H"] by (auto simp: entry_inv_def)

lemma drop_lock_inv:
  assumes "entry_inv (tab k) H" "(i, m) \<in> set H"
    and "m = ReadLock \<or> (\<forall>e w. tab k = Some e \<and> w \<in> set (wakers e) \<longrightarrow> \<not> is_upgrade w)"
  shows "\<exists>ws t. drop_lock k m tab = Inr (ws, t) \<and> entry_inv (t k) (grants ws (remove1 (i, m) H)) \<and>
    (\<forall>k'. k' \<noteq> k \<longrightarrow> t k' = tab k') \<and>
    (remove1 (i, m) H = [] \<longrightarrow> (\<forall>e w. tab k = Some e \<and> wakers e \<noteq> [] \<longrightarrow> hd (wakers e) \<in> set ws))"
proof -
  from assms(1,2) obtain e where e: "tab k = Some e" "counts_ok e H" "queue_ok e" "H \<noteq> []"
    by (auto simp: entry_inv_def split: option.splits)
  show ?thesis
  proof (cases "m = ReadLock")
    case True
    let ?e = "e\<lparr>read_count := read_count e - 1\<rparr>" and ?H = "remove1 (i, m) H"
    have pos: "1 \<le> read_count e" using e(2) assms(2) True reader_member [of i H] by (simp add: counts_ok_def Suc_le_eq)
    have ok: "counts_ok ?e ?H" "queue_ok ?e"
      using e(2,3) True readers_remove [OF assms(2)] writers_remove(1) [of i H] by (auto simp: counts_ok_def queue_ok_def split: list.splits)
    obtain ws e' where w: "wake ?e = (ws, e')" by fastforce
    show ?thesis
    proof (cases "read_count e = 1")
      case one: True
      with w have d: "drop_lock k m tab = Inr (ws, tab(k := if can_remove e' then None else Some e'))"
        using e(1) True by (simp add: drop_lock_def u64_sub_def)
      from wake_entry_inv [OF ok w] wake_inv [OF ok w] e(1) show ?thesis
        by (intro exI [of _ ws] exI conjI) (rule d, auto)
    next
      case False
      then have d: "drop_lock k m tab = Inr ([], tab(k := Some ?e))"
        using e(1) True pos by (simp add: drop_lock_def u64_sub_def)
      have "?H \<noteq> []" using ok(1) False pos by (auto simp: counts_ok_def no_grants)
      with ok show ?thesis by (intro exI conjI) (rule d, auto simp: entry_inv_def grants_def)
    qed
  next
    case False
    let ?e = "e\<lparr>lstate := ReadLock\<rparr>" and ?H = "remove1 (i, m) H"
    have noup: "\<forall>w \<in> set (wakers e). \<not> is_upgrade w" using assms(3) False e(1) by auto
    have "m \<in> set (writers H)" using writer_member assms(2) False by blast
    then have one: "length (writers H) = 1" using e(2) by (auto simp: counts_ok_def split: if_splits)
    have ok: "counts_ok ?e ?H" "queue_ok ?e"
      using e(2,3) noup readers_remove [OF assms(2)] writers_remove(2) [OF assms(2) False] False one
      by (auto simp: counts_ok_def queue_ok_def split: if_splits list.splits)
    obtain ws e' where w: "wake ?e = (ws, e')" by fastforce
    have d: "drop_lock k m tab = Inr (ws, tab(k := if can_remove e' then None else Some e'))"
      using e(1) False w by (cases m) (simp_all add: drop_lock_def)
    from wake_entry_inv [OF ok w] wake_inv [OF ok w] e(1) show ?thesis
      by (intro exI [of _ ws] exI conjI) (rule d, auto)
  qed
qed

lemma downgrade_inv:
  assumes "entry_inv (tab k) H" "(i, WriteLock) \<in> set H"
  shows "\<exists>ws t. downgrade_one k tab = Inr (ws, t) \<and> entry_inv (t k) (grants ws (downgraded H)) \<and>
    (\<forall>k'. k' \<noteq> k \<longrightarrow> t k' = tab k')"
proof -
  from assms obtain e where e: "tab k = Some e" "counts_ok e H" "queue_ok e" "H \<noteq> []"
    by (auto simp: entry_inv_def split: option.splits)
  have "WriteLock \<in> set (writers H)" using writer_member [OF assms(2)] by simp
  then have wl: "lstate e = WriteLock" using e(2) by (auto simp: counts_ok_def split: if_splits)
  let ?e = "e\<lparr>lstate := Locked\<rparr>"
  have "counts_ok ?e (downgraded H)"
    using e(2) wl readers_map_writers [of "\<lambda>m. if m = WriteLock then Locked else m" H]
    by (simp add: counts_ok_def downgraded_def)
  moreover have "queue_ok ?e" using e(3) wl by (auto simp: queue_ok_def split: list.splits)
  moreover obtain ws e' where w: "wake ?e = (ws, e')" by fastforce
  ultimately have "counts_ok e' (grants ws (downgraded H)) \<and> queue_ok e'" using wake_inv by blast
  moreover have "grants ws (downgraded H) \<noteq> []" using e(4) by (intro grants_not_Nil) (simp add: downgraded_def)
  ultimately show ?thesis using e(1) wl w by (simp add: downgrade_one_def downgrade_lock_def entry_inv_def)
qed

lemma give_up_inv:
  assumes "entry_inv (tab k) H" "tab k = Some e" "w \<in> set (wakers e)"
  shows "\<exists>ws t. wait_dropped k w False tab = Inr (ws, t) \<and> entry_inv (t k) (grants ws H) \<and>
    (\<forall>k'. k' \<noteq> k \<longrightarrow> t k' = tab k')"
proof -
  have e: "counts_ok e H" "queue_ok e" "H \<noteq> []" using assms(1,2) by (simp_all add: entry_inv_def)
  let ?e = "e\<lparr>wakers := filter (\<lambda>v. waker_id v \<noteq> waker_id w) (wakers e)\<rparr>"
  have c: "counts_ok ?e H" using e(1) by (simp add: counts_ok_def)
  have q: "queue_ok ?e"
  proof (cases "wakers e")
    case (Cons v vs)
    then have vs: "\<forall>u \<in> set vs. \<not> is_upgrade u" using e(2) by (simp add: queue_ok_def)
    show ?thesis
    proof (cases "waker_id v = waker_id w")
      case True
      have "distinct (map waker_id (filter P vs))" for P using e(2) Cons by (simp add: queue_ok_def distinct_map_filter)
      with True vs Cons show ?thesis by (intro queue_ok_plain) simp_all
    next
      case False
      with vs Cons e(2) show ?thesis by (auto simp: queue_ok_def distinct_map_filter)
    qed
  qed (use e(2) in \<open>simp add: queue_ok_def\<close>)
  obtain ws e' where r: "remove_waker (waker_id w) e = (ws, e')" by fastforce
  then have "wake ?e = (ws, e') \<or> (ws, e') = ([], ?e)"
    by (auto simp: remove_waker_def Let_def split: if_splits)
  then have "counts_ok e' (grants ws H) \<and> queue_ok e'"
  proof
    assume "wake ?e = (ws, e')" with wake_inv [OF c q] show ?thesis by blast
  qed (use c q in \<open>simp add: grants_def\<close>)
  with assms(2) r grants_not_Nil [OF e(3)] show ?thesis by (simp add: wait_dropped_def entry_inv_def)
qed

section \<open>Properties\<close>

lemma lock_inv_upd:
  assumes "lock_inv s" "entry_inv (t k) H" "\<forall>k'. k' \<noteq> k \<longrightarrow> t k' = table s k'"
  shows "lock_inv (s\<lparr>table := t, holders := (holders s)(k := H)\<rparr>)"
  using assms by (simp add: lock_inv_def)

lemma lock_inv_upd_table:
  assumes "lock_inv s" "entry_inv (t k) (holders s k)" "\<forall>k'. k' \<noteq> k \<longrightarrow> t k' = table s k'"
  shows "lock_inv (s\<lparr>table := t\<rparr>)"
  using assms by (auto simp: lock_inv_def)

lemma lock_step_inv: "lock_step s t \<Longrightarrow> lock_inv s \<Longrightarrow> lock_inv t"
proof (induction rule: lock_step.induct)
  case (request_granted k target i s t)
  then have "entry_inv (table s k) (holders s k)" by (simp add: lock_inv_def)
  from lock_one_inv [where tab = "table s" and k = k, OF this request_granted(1)] request_granted(2) show ?case by (intro lock_inv_upd) simp_all
next
  case (request_queued s k i target t)
  then have "entry_inv (table s k) (holders s k)" by (simp add: lock_inv_def)
  from lock_one_inv [where tab = "table s" and k = k, OF this request_queued(2)] request_queued show ?case
    by (intro lock_inv_upd_table [of s t k]) (simp_all add: fresh_def)
next
  case (upgrade_granted i s k t)
  then have "entry_inv (table s k) (holders s k)" by (simp add: lock_inv_def)
  from commit_prepare_inv [where tab = "table s" and k = k, OF this upgrade_granted(1,3), of i] upgrade_granted show ?case
    by (intro lock_inv_upd) (auto simp: upgrading_def)
next
  case (upgrade_queued i s k j t)
  then have "entry_inv (table s k) (holders s k)" by (simp add: lock_inv_def)
  from commit_prepare_inv [where tab = "table s" and k = k, OF this upgrade_queued(1,4)] upgrade_queued show ?case
    by (intro lock_inv_upd_table [of s t k]) (auto simp: upgrading_def fresh_def)
next
  case (release i m s k ws t)
  then have "entry_inv (table s k) (holders s k)" by (simp add: lock_inv_def)
  from drop_lock_inv [where tab = "table s" and k = k, OF this release(1)] release show ?case
    by (intro lock_inv_upd) (auto simp: upgrading_def)
next
  case (downgrade i s k ws t)
  then have "entry_inv (table s k) (holders s k)" by (simp add: lock_inv_def)
  from downgrade_inv [where tab = "table s" and k = k, OF this downgrade(1)] downgrade show ?case by (intro lock_inv_upd) auto
next
  case (give_up s k e w ws t)
  from give_up.prems have "entry_inv (table s k) (holders s k)" by (simp only: lock_inv_def)
  from give_up_inv [where tab = "table s" and k = k, OF this give_up(1,2)] give_up show ?case by (intro lock_inv_upd) auto
qed

lemma lock_reachable_inv: "lock_reachable s \<Longrightarrow> lock_inv s"
proof (induction rule: lock_reachable.induct)
  case start
  show ?case by (simp add: lock_inv_def init_locks_def entry_inv_def)
next
  case (step s t)
  then show ?case by (blast intro: lock_step_inv)
qed

text \<open>
  C16: in every reachable state of the lock manager a write lock is exclusive (its holder is the only
  grant of the key), and at most one grant of a key is a transaction lock or a write lock.
\<close>

theorem locks_exclusive:
  assumes "lock_reachable s"
  shows "((i, WriteLock) \<in> set (holders s k) \<longrightarrow> holders s k = [(i, WriteLock)]) \<and>
    length (filter (\<lambda>h. snd h \<noteq> ReadLock) (holders s k)) \<le> 1"
proof -
  let ?H = "holders s k"
  have "entry_inv (table s k) ?H" using lock_reachable_inv [OF assms] by (simp add: lock_inv_def)
  moreover have len: "length (filter (\<lambda>h. snd h \<noteq> ReadLock) ?H) = length (writers ?H)" by (simp add: writers_def)
  moreover have "?H = [(i, WriteLock)]" if in_H: "(i, WriteLock) \<in> set ?H" "readers ?H = 0" "length (writers ?H) = 1"
  proof -
    have "length (filter (\<lambda>h. snd h = ReadLock) ?H) + length (filter (\<lambda>h. snd h \<noteq> ReadLock) ?H) = length ?H"
      by (rule sum_length_filter_compl)
    then have "length ?H = 1" using that(2,3) len by (simp add: readers_def)
    with in_H(1) show ?thesis by (cases ?H) auto
  qed
  ultimately show ?thesis
    using writer_member [of i WriteLock ?H] by (auto simp: entry_inv_def counts_ok_def split: option.splits if_splits)
qed

definition example_key :: lock_key where
  "example_key = LFlush 7"

definition example_one :: lock_system where
  "example_one = init_locks\<lparr>table := (table init_locks)(example_key \<mapsto> \<lparr>read_count = 0, lstate = WriteLock, wakers = []\<rparr>),
     holders := (holders init_locks)(example_key := [(1, WriteLock)])\<rparr>"

definition example_two :: lock_system where
  "example_two = example_one\<lparr>table := (table example_one)(example_key \<mapsto> \<lparr>read_count = 0, lstate = WriteLock,
     wakers = [\<lparr>waker_id = 2, target_state = ReadLock, is_upgrade = False\<rparr>]\<rparr>)\<rparr>"

lemma example_reachable: "lock_reachable example_one" "lock_reachable example_two"
proof -
  have "lock_step init_locks example_one"
    using request_granted [of example_key WriteLock 1 init_locks
        "(table init_locks)(example_key \<mapsto> \<lparr>read_count = 0, lstate = WriteLock, wakers = []\<rparr>)"]
    by (simp add: lock_one_def example_one_def init_locks_def)
  then show one: "lock_reachable example_one" by (rule lock_reachable.step [OF lock_reachable.start])
  have "lock_step example_one example_two"
    unfolding example_two_def
    by (rule request_queued [of _ example_key 2 ReadLock]) (simp_all add: fresh_def lock_one_def example_one_def is_allowed_def)
  with one show "lock_reachable example_two" by (rule lock_reachable.step)
qed

theorem locks_exclusive_witness: "holders example_two example_key = [(1, WriteLock)]"
  using locks_exclusive [OF example_reachable(2), of 1 example_key] by (simp add: example_two_def example_one_def)

text \<open>
  C32: nobody waits for a lock that nobody holds, and no wake-up is lost: in every reachable state a
  key with a waiting task has a holder, and when its last holder releases it (and does not itself wait
  to be upgraded) the task at the head of the queue is granted the lock.
\<close>

theorem last_release_wakes_head:
  assumes "lock_reachable s" "table s k = Some e" "wakers e \<noteq> []"
  shows "holders s k \<noteq> [] \<and>
    (\<forall>i m. holders s k = [(i, m)] \<and> (m = ReadLock \<or> \<not> upgrading s k) \<longrightarrow>
       (\<exists>ws t. drop_lock k m (table s) = Inr (ws, t) \<and> hd (wakers e) \<in> set ws))"
proof -
  have inv: "entry_inv (table s k) (holders s k)" using lock_reachable_inv [OF assms(1)] by (simp only: lock_inv_def)
  then have "holders s k \<noteq> []" using assms(2) by (simp add: entry_inv_def)
  moreover have "\<exists>ws t. drop_lock k m (table s) = Inr (ws, t) \<and> hd (wakers e) \<in> set ws"
    if "holders s k = [(i, m)]" "m = ReadLock \<or> \<not> upgrading s k" for i m
    using drop_lock_inv [where tab = "table s" and k = k, OF inv, of i m] that assms(2,3) by (auto simp: upgrading_def)
  ultimately show ?thesis by blast
qed

theorem last_release_wakes_head_witness:
  "\<exists>ws t. drop_lock example_key WriteLock (table example_two) = Inr (ws, t) \<and>
     \<lparr>waker_id = 2, target_state = ReadLock, is_upgrade = False\<rparr> \<in> set ws"
  using last_release_wakes_head [OF example_reachable(2), of example_key]
  by (simp add: example_two_def example_one_def upgrading_def)

text \<open>
  In every reachable state the operations of the lock manager do not panic: a held lock can be
  released, a transaction lock can be prepared for commit, a write lock can be downgraded and a
  waiting task can give up; and each of them leaves the other keys alone.
\<close>

lemma lock_operations_do_not_panic:
  assumes "lock_reachable s"
  shows "((i, m) \<in> set (holders s k) \<and> (m = ReadLock \<or> \<not> upgrading s k) \<longrightarrow>
      (\<exists>ws t. drop_lock k m (table s) = Inr (ws, t) \<and> (\<forall>k'. k' \<noteq> k \<longrightarrow> t k' = table s k'))) \<and>
    ((i, Locked) \<in> set (holders s k) \<longrightarrow> (\<exists>g t. commit_prepare_one k j (table s) = Inr (g, t))) \<and>
    ((i, WriteLock) \<in> set (holders s k) \<longrightarrow> (\<exists>ws t. downgrade_one k (table s) = Inr (ws, t))) \<and>
    (table s k = Some e \<and> w \<in> set (wakers e) \<longrightarrow> (\<exists>ws t. wait_dropped k w False (table s) = Inr (ws, t)))"
proof -
  have inv: "entry_inv (table s k) (holders s k)" using lock_reachable_inv [OF assms] by (simp only: lock_inv_def)
  have "\<exists>ws t. drop_lock k m (table s) = Inr (ws, t) \<and> (\<forall>k'. k' \<noteq> k \<longrightarrow> t k' = table s k')"
    if "(i, m) \<in> set (holders s k)" "m = ReadLock \<or> \<not> upgrading s k"
    using drop_lock_inv [where tab = "table s" and k = k, OF inv, of i m] that by (auto simp: upgrading_def)
  moreover have "\<exists>g t. commit_prepare_one k j (table s) = Inr (g, t)" if "(i, Locked) \<in> set (holders s k)"
  proof -
    have "Locked \<in> set (writers (holders s k))" using writer_member [OF that] by simp
    with inv that show ?thesis
      by (auto simp: entry_inv_def counts_ok_def commit_prepare_one_def split: option.splits if_splits)
  qed
  moreover have "\<exists>ws t. downgrade_one k (table s) = Inr (ws, t)" if "(i, WriteLock) \<in> set (holders s k)"
    using downgrade_inv [where tab = "table s" and k = k, OF inv, of i] that by auto
  moreover have "\<exists>ws t. wait_dropped k w False (table s) = Inr (ws, t)" if "table s k = Some e" "w \<in> set (wakers e)"
    using give_up_inv [where tab = "table s" and k = k, OF inv, of e w] that by auto
  ultimately show ?thesis by blast
qed

section \<open>Lock order\<close>

definition held_keys :: "lock_progress \<Rightarrow> lock_key list" where
  "held_keys p = (case p of Acquired g \<Rightarrow> g | Blocked k ks g \<Rightarrow> g)"

definition all_keys :: "lock_progress \<Rightarrow> lock_key list" where
  "all_keys p = (case p of Acquired g \<Rightarrow> g | Blocked k ks g \<Rightarrow> g @ k # ks)"

text \<open>A call of \<open>lock\<close>: it starts, and is resumed when it was woken, with any table each time.\<close>

inductive lock_future :: "lock_key list \<Rightarrow> lock_progress \<Rightarrow> bool" where
  begin_lock: "lock_start target i keys tab = (p, tab') \<Longrightarrow> lock_future keys p"
| resume_lock: "lock_future keys p \<Longrightarrow> lock_resume target i p tab = (p', tab') \<Longrightarrow> lock_future keys p'"

lemma lock_run_keys: "lock_run target i keys g tab = (p, tab') \<Longrightarrow> all_keys p = g @ keys"
  by (induction target i keys g tab rule: lock_run.induct)
    (auto simp: all_keys_def Let_def split: prod.splits if_splits)

lemma lock_future_keys: "lock_future keys p \<Longrightarrow> all_keys p = remdups_adj (sort keys)"
proof (induction rule: lock_future.induct)
  case (begin_lock target i keys tab p tab')
  then show ?case using lock_run_keys by (simp add: lock_start_def)
next
  case (resume_lock keys p target i tab p' tab')
  then show ?case
    using lock_run_keys by (cases p) (auto simp: lock_resume_def all_keys_def split: lock_progress.splits)
qed

lemma strict_sorted_remdups_adj:
  fixes xs :: "'a::linorder list"
  shows "sorted xs \<Longrightarrow> sorted_wrt (<) (remdups_adj xs)"
  by (induction xs rule: remdups_adj.induct) (auto simp: le_less)

text \<open>The tasks in \<open>P\<close> that wait for a key another task holds.\<close>

definition waits_for :: "('t \<Rightarrow> lock_progress) \<Rightarrow> ('t \<times> 't) set" where
  "waits_for P = {(a, b). \<exists>k ks g. P a = Blocked k ks g \<and> k \<in> set (held_keys (P b))}"

text \<open>
  C33: tasks that each take their locks with one call cannot deadlock: every call acquires its keys in
  ascending order without duplicates, whatever happens to the lock table while it waits, so the
  relation between tasks that wait for a key and tasks that hold it has no cycle.
\<close>

theorem lock_order_prevents_deadlock:
  assumes "\<forall>a. lock_future (keys a) (P a)"
  shows "(\<forall>a. sorted_wrt (<) (all_keys (P a)) \<and> set (all_keys (P a)) = set (keys a)) \<and> acyclic (waits_for P)"
proof -
  have ks: "all_keys (P a) = remdups_adj (sort (keys a))" for a using assms lock_future_keys by blast
  have sorted: "sorted_wrt (<) (all_keys (P a))" for a
    unfolding ks by (rule strict_sorted_remdups_adj) simp
  define key_of where "key_of a = (case P a of Blocked k ks g \<Rightarrow> k | Acquired g \<Rightarrow> LFilesystem)" for a
  have up: "key_of a < key_of b" if "(a, b) \<in> waits_for P" "P b = Blocked k ks g" for a b k ks g
  proof -
    from that obtain ka ksa ga where a: "P a = Blocked ka ksa ga" "ka \<in> set g" by (auto simp: waits_for_def held_keys_def)
    have "sorted_wrt (<) (g @ k # ks)" using sorted [of b] that(2) by (simp add: all_keys_def)
    with a that(2) show ?thesis by (simp add: key_of_def sorted_wrt_append)
  qed
  have "key_of a < key_of b" if "(a, b) \<in> (waits_for P)\<^sup>+" "\<exists>k ks g. P b = Blocked k ks g" for a b
    using that
  proof (induction rule: trancl.induct)
    case (r_into_trancl a b)
    with up show ?case by blast
  next
    case (trancl_into_trancl a b c)
    then have "\<exists>k ks g. P b = Blocked k ks g" by (auto simp: waits_for_def)
    with trancl_into_trancl up show ?case by (meson less_trans)
  qed
  moreover have "\<exists>k ks g. P a = Blocked k ks g" if "(a, a) \<in> (waits_for P)\<^sup>+" for a
    using tranclD [OF that] by (auto simp: waits_for_def)
  ultimately have "acyclic (waits_for P)" unfolding acyclic_def by (meson less_irrefl)
  with sorted ks show ?thesis by simp
qed

theorem lock_order_prevents_deadlock_witness:
  "acyclic (waits_for (\<lambda>a :: nat. fst (lock_start ReadLock a [LFlush a, LFilesystem] (\<lambda>_. None))))"
proof -
  have "\<forall>a :: nat. lock_future [LFlush a, LFilesystem] (fst (lock_start ReadLock a [LFlush a, LFilesystem] (\<lambda>_. None)))"
    by (metis begin_lock prod.collapse)
  from lock_order_prevents_deadlock [OF this] show ?thesis by blast
qed

end
