(* ===== verification/Object_Store.thy ===== *)
theory Object_Store
  imports Transaction Lsm_Tree Object_Merge Journal_Stream Fxfs_FF1
begin

text \<open>
  The object store (\<^verbatim>\<open>ObjectStore\<close> of \<^verbatim>\<open>src/src/object_store.rs\<close>): store information and its replayed
  form, encrypted mutations, object ids, and applying and writing the mutations of the store.

  Third-party ciphers and the crypt service are parameters: \<open>aes\<close> gives the block cipher of an unwrapped
  key, \<open>chacha\<close> the key stream, and a crypt service is its \<^verbatim>\<open>unwrap_key\<close>; a key made by \<^verbatim>\<open>create_key\<close> is
  an argument of the operation that asks for it. A 64-bit object id is a number whose low 32 bits are
  the part that is encrypted. The parent store is represented by its object id; the file handle of the
  store's info, the counters and the tracing are left out.
\<close>

section \<open>Stream cipher\<close>

type_synonym unwrapped_key = "u8 list"

record stream_cipher =
  sc_keystream :: "nat \<Rightarrow> u8"
  sc_offset :: nat

definition stream_cipher_new :: "(unwrapped_key \<Rightarrow> nat \<Rightarrow> u8) \<Rightarrow> unwrapped_key \<Rightarrow> nat \<Rightarrow> stream_cipher" where
  "stream_cipher_new chacha k off = \<lparr>sc_keystream = chacha k, sc_offset = off\<rparr>"

definition sc_apply :: "u8 list \<Rightarrow> stream_cipher \<Rightarrow> u8 list \<times> stream_cipher" where
  "sc_apply buffer self =
     (map (\<lambda>(i, b). xor b (sc_keystream self (sc_offset self + i))) (enumerate 0 buffer),
      self\<lparr>sc_offset := sc_offset self + length buffer\<rparr>)"

definition sc_encrypt :: "u8 list \<Rightarrow> stream_cipher \<Rightarrow> u8 list \<times> stream_cipher" where
  "sc_encrypt buffer self = sc_apply buffer self"

definition sc_decrypt :: "u8 list \<Rightarrow> stream_cipher \<Rightarrow> u8 list \<times> stream_cipher" where
  "sc_decrypt buffer self = sc_apply buffer self"

record crypt =
  unwrap_key :: "wrapped_key \<Rightarrow> nat \<Rightarrow> unwrapped_key res"

section \<open>Store information\<close>

record store_info =
  si_guid :: "u8 list"
  si_last_object_id :: nat
  si_layers :: "nat list"
  root_directory_object_id :: nat
  graveyard_directory_object_id :: nat
  object_count :: nat
  mutations_key :: "wrapped_key option"
  mutations_cipher_offset :: nat
  encrypted_mutations_object_id :: nat
  object_id_key :: "wrapped_key option"

definition store_info_default :: store_info where
  "store_info_default =
     \<lparr>si_guid = replicate 16 0, si_last_object_id = 0, si_layers = [], root_directory_object_id = 0,
      graveyard_directory_object_id = 0, object_count = 0, mutations_key = None, mutations_cipher_offset = 0,
      encrypted_mutations_object_id = 0, object_id_key = None\<rparr>"

record encrypted_mutations =
  em_transactions :: "(checkpoint \<times> nat) list"
  em_data :: "u8 list"
  mutations_key_roll :: "(nat \<times> wrapped_key) list"

definition encrypted_mutations_default :: encrypted_mutations where
  "encrypted_mutations_default = \<lparr>em_transactions = [], em_data = [], mutations_key_roll = []\<rparr>"

definition em_extend :: "encrypted_mutations \<Rightarrow> encrypted_mutations \<Rightarrow> encrypted_mutations" where
  "em_extend other self =
     \<lparr>em_transactions = em_transactions self @ em_transactions other,
      em_data = em_data self @ em_data other,
      mutations_key_roll = mutations_key_roll self @
        map (\<lambda>(off, k). (off + length (em_data self), k)) (mutations_key_roll other)\<rparr>"

definition em_push :: "checkpoint \<Rightarrow> u8 list \<Rightarrow> encrypted_mutations \<Rightarrow> encrypted_mutations" where
  "em_push cp bytes self =
     (let self = self\<lparr>em_data := em_data self @ bytes\<rparr>;
          new = self\<lparr>em_transactions := em_transactions self @ [(cp, 1)]\<rparr>
      in if em_transactions self = [] then new
         else case List.last (em_transactions self) of
           (last_checkpoint, n) \<Rightarrow>
             if file_offset last_checkpoint = file_offset cp
             then self\<lparr>em_transactions := butlast (em_transactions self) @ [(last_checkpoint, n + 1)]\<rparr>
             else new)"

record replay_info =
  object_count_delta :: int
  ri_encrypted_mutations :: encrypted_mutations

definition replay_info_default :: replay_info where
  "replay_info_default = \<lparr>object_count_delta = 0, ri_encrypted_mutations = encrypted_mutations_default\<rparr>"

text \<open>The most recent element of the queue is the first of the list.\<close>

definition replay_info_new :: "replay_info list" where
  "replay_info_new = [replay_info_default]"

datatype store_or_replay_info = Info store_info | ReplayInfo "replay_info list"

definition sri_info :: "store_or_replay_info \<Rightarrow> store_info res" where
  "sri_info self = (case self of Info i \<Rightarrow> Inr i | ReplayInfo _ \<Rightarrow> Inl Panic)"

definition adjusted_count :: "nat \<Rightarrow> int \<Rightarrow> nat" where
  "adjusted_count n delta = (if delta < 0 then n - nat (- delta) else min u64_max (n + nat delta))"

definition adjust_object_count :: "int \<Rightarrow> store_or_replay_info \<Rightarrow> store_or_replay_info res" where
  "adjust_object_count delta self =
     (case self of
        Info i \<Rightarrow> Inr (Info (i\<lparr>object_count := adjusted_count (object_count i) delta\<rparr>))
      | ReplayInfo [] \<Rightarrow> Inl Panic
      | ReplayInfo (r # rs) \<Rightarrow>
          let d = object_count_delta r + delta in
          if - 9223372036854775808 \<le> d \<and> d \<le> 9223372036854775807
          then Inr (ReplayInfo (r\<lparr>object_count_delta := d\<rparr> # rs)) else Inl Panic)"

definition sri_begin_flush :: "store_or_replay_info \<Rightarrow> store_or_replay_info" where
  "sri_begin_flush self = (case self of ReplayInfo rs \<Rightarrow> ReplayInfo (replay_info_default # rs) | Info i \<Rightarrow> Info i)"

definition sri_end_flush :: "store_or_replay_info \<Rightarrow> store_or_replay_info" where
  "sri_end_flush self = (case self of ReplayInfo rs \<Rightarrow> ReplayInfo (take 1 rs) | Info i \<Rightarrow> Info i)"

definition push_encrypted_mutation :: "checkpoint \<Rightarrow> u8 list \<Rightarrow> store_or_replay_info \<Rightarrow> store_or_replay_info res" where
  "push_encrypted_mutation cp bytes self =
     (case self of
        Info i \<Rightarrow> Inr (Info i)
      | ReplayInfo [] \<Rightarrow> Inl Panic
      | ReplayInfo (r # rs) \<Rightarrow>
          Inr (ReplayInfo (r\<lparr>ri_encrypted_mutations := em_push cp bytes (ri_encrypted_mutations r)\<rparr> # rs)))"

definition set_mutations_key :: "wrapped_key \<Rightarrow> store_or_replay_info \<Rightarrow> store_or_replay_info res" where
  "set_mutations_key k self =
     (case self of
        ReplayInfo (r # rs) \<Rightarrow>
          let m = ri_encrypted_mutations r in
          Inr (ReplayInfo (r\<lparr>ri_encrypted_mutations :=
                 m\<lparr>mutations_key_roll := mutations_key_roll m @ [(length (em_data m), k)]\<rparr>\<rparr> # rs))
      | _ \<Rightarrow> Inl Panic)"

section \<open>Lock states and object ids\<close>

datatype store_lock_state =
    SLocked encrypted_mutations
  | SUnencrypted
  | SUnlocked crypt
  | SUnlockedReadOnly crypt store_info encrypted_mutations
  | SInvalid
  | SUnknown
  | SLocking crypt
  | SUnlocking

definition state_encrypted_mutations :: "store_lock_state \<Rightarrow> encrypted_mutations option" where
  "state_encrypted_mutations self =
     (case self of SLocked m \<Rightarrow> Some m | SUnlockedReadOnly _ _ m \<Rightarrow> Some m | _ \<Rightarrow> None)"

record last_object_id =
  lid_id :: nat
  lid_cipher :: "ff1 option"

definition object_id_hi :: "nat \<Rightarrow> nat" where
  "object_id_hi n = n div 2 ^ 32 * 2 ^ 32"

definition object_id_lo :: "nat \<Rightarrow> u32" where
  "object_id_lo n = of_nat n"

definition last_object_id_default :: last_object_id where
  "last_object_id_default = \<lparr>lid_id = 0, lid_cipher = None\<rparr>"

definition should_create_cipher :: "last_object_id \<Rightarrow> bool" where
  "should_create_cipher self = (object_id_lo (lid_id self) = - 1)"

definition lid_get_next_object_id :: "last_object_id \<Rightarrow> (nat \<times> last_object_id) res" where
  "lid_get_next_object_id self =
     bind_res (u64_add (lid_id self) 1) (\<lambda>i.
       case lid_cipher self of
         Some c \<Rightarrow>
           let hi = object_id_hi i in
           bind_res (ensure (hi \<noteq> 0) Panic) (\<lambda>_.
           bind_res (ensure (object_id_lo i \<noteq> 0) Panic) (\<lambda>_.
             Inr (hi + unat (encrypt c (object_id_lo i)), self\<lparr>lid_id := i\<rparr>)))
       | None \<Rightarrow> Inr (i, self\<lparr>lid_id := i\<rparr>))"

definition lid_update :: "nat \<Rightarrow> last_object_id \<Rightarrow> last_object_id" where
  "lid_update oid self =
     (let oid = (case lid_cipher self of
                   Some c \<Rightarrow> object_id_hi oid + unat (decrypt c (object_id_lo oid))
                 | None \<Rightarrow> oid)
      in if oid > lid_id self then self\<lparr>lid_id := oid\<rparr> else self)"

section \<open>The store\<close>

record object_store =
  os_parent :: "nat option"
  os_store_object_id :: nat
  os_block_size :: nat
  os_store_info :: store_or_replay_info
  os_tree :: "(object_key, encryption_keys object_value) lsm_tree"
  os_mutations_cipher :: "stream_cipher option"
  os_lock_state :: store_lock_state
  os_last_object_id :: last_object_id

definition object_store_new ::
  "nat option \<Rightarrow> nat \<Rightarrow> nat \<Rightarrow> store_info option \<Rightarrow> stream_cipher option \<Rightarrow> store_lock_state \<Rightarrow> last_object_id \<Rightarrow>
   object_store" where
  "object_store_new parent oid bs info c state last_id =
     \<lparr>os_parent = parent, os_store_object_id = oid, os_block_size = bs,
      os_store_info = (case info of Some i \<Rightarrow> Info i | None \<Rightarrow> ReplayInfo replay_info_new),
      os_tree = tree_new, os_mutations_cipher = c, os_lock_state = state, os_last_object_id = last_id\<rparr>"

definition object_store_new_empty :: "nat option \<Rightarrow> nat \<Rightarrow> nat \<Rightarrow> object_store" where
  "object_store_new_empty parent oid bs =
     object_store_new parent oid bs (Some store_info_default) None SUnencrypted last_object_id_default"

definition new_root_parent :: "nat \<Rightarrow> nat \<Rightarrow> object_store" where
  "new_root_parent bs oid =
     \<lparr>os_parent = None, os_store_object_id = oid, os_block_size = bs, os_store_info = Info store_info_default,
      os_tree = tree_new, os_mutations_cipher = None, os_lock_state = SUnencrypted,
      os_last_object_id = last_object_id_default\<rparr>"

definition is_locked :: "object_store \<Rightarrow> bool" where
  "is_locked self =
     (case os_lock_state self of SLocked _ \<Rightarrow> True | SLocking _ \<Rightarrow> True | SUnknown \<Rightarrow> True | _ \<Rightarrow> False)"

definition is_unknown :: "object_store \<Rightarrow> bool" where
  "is_unknown self = (os_lock_state self = SUnknown)"

definition store_crypt :: "object_store \<Rightarrow> crypt option res" where
  "store_crypt self =
     (case os_lock_state self of
        SLocked _ \<Rightarrow> Inl Panic
      | SInvalid \<Rightarrow> Inr None | SUnencrypted \<Rightarrow> Inr None | SUnlocking \<Rightarrow> Inr None
      | SUnlocked c \<Rightarrow> Inr (Some c)
      | SUnlockedReadOnly c _ _ \<Rightarrow> Inr (Some c)
      | SLocking c \<Rightarrow> Inr (Some c)
      | SUnknown \<Rightarrow> Inl Panic)"

definition update_last_object_id :: "nat \<Rightarrow> object_store \<Rightarrow> object_store" where
  "update_last_object_id oid self = self\<lparr>os_last_object_id := lid_update oid (os_last_object_id self)\<rparr>"

text \<open>\<^verbatim>\<open>INVALID_OBJECT_ID\<close> (zero) when the cipher has to be created or rolled.\<close>

definition maybe_get_next_object_id :: "object_store \<Rightarrow> (nat \<times> object_store) res" where
  "maybe_get_next_object_id self =
     (if should_create_cipher (os_last_object_id self) then Inr (0, self)
      else bind_res (lid_get_next_object_id (os_last_object_id self)) (\<lambda>(oid, l).
             Inr (oid, self\<lparr>os_last_object_id := l\<rparr>)))"

text \<open>
  \<^verbatim>\<open>get_next_object_id\<close>, with the key that the crypt service creates when the cipher is rolled; the
  transaction that writes the store's info with the wrapped key is the caller's.
\<close>

definition get_next_object_id ::
  "(unwrapped_key \<Rightarrow> block_cipher) \<Rightarrow> wrapped_key \<times> unwrapped_key \<Rightarrow> object_store \<Rightarrow> (nat \<times> object_store) res" where
  "get_next_object_id aes new_key self =
     bind_res (maybe_get_next_object_id self) (\<lambda>(oid, self).
       if oid \<noteq> 0 then Inr (oid, self)
       else
         let l = os_last_object_id self in
         if \<not> should_create_cipher l
         then bind_res (lid_get_next_object_id l) (\<lambda>(oid, l). Inr (oid, self\<lparr>os_last_object_id := l\<rparr>))
         else
           bind_res (ensure (object_id_hi (lid_id l) \<noteq> object_id_hi u64_max) (Fxfs Inconsistent)) (\<lambda>_.
           bind_res (store_crypt self) (\<lambda>c.
           bind_res (ensure (c \<noteq> None) Panic) (\<lambda>_.
           bind_res (sri_info (os_store_info self)) (\<lambda>i.
           let c = ff1_new (aes (snd new_key)) in
           bind_res (u64_add (lid_id l) (2 ^ 32)) (\<lambda>n.
           let n = object_id_hi n in
             Inr (object_id_hi n + unat (encrypt c (object_id_lo n)),
                  self\<lparr>os_store_info := Info (i\<lparr>object_id_key := Some (fst new_key)\<rparr>),
                       os_last_object_id := \<lparr>lid_id = n, lid_cipher = Some c\<rparr>\<rparr>)))))))"

section \<open>Applying and writing mutations\<close>

definition lock_state_allows :: "mutation \<Rightarrow> apply_mode \<Rightarrow> store_lock_state \<Rightarrow> bool" where
  "lock_state_allows m mode state =
     (\<not> is_live mode \<or>
      (case state of
         SLocked _ \<Rightarrow> m = BeginFlush \<or> m = EndFlush
       | SLocking _ \<Rightarrow> m = BeginFlush \<or> m = EndFlush
       | SUnknown \<Rightarrow> False
       | _ \<Rightarrow> True))"

definition apply_object_mutation ::
  "nat \<Rightarrow> nat \<Rightarrow> object_store_mutation \<Rightarrow> apply_mode \<Rightarrow> object_store \<Rightarrow> object_store res" where
  "apply_object_mutation fuel off om mode self =
     (let i = (osm_item om)\<lparr>sequence := off\<rparr> in
      case osm_op om of
        OpInsert \<Rightarrow>
          bind_res
            (case value i of
               VObject _ _ \<Rightarrow>
                 bind_res (adjust_object_count 1 (os_store_info self)) (\<lambda>info.
                 let self = self\<lparr>os_store_info := info\<rparr> in
                 Inr (if is_live mode then self else update_last_object_id (object_id (key i)) self))
             | _ \<Rightarrow> Inr self) (\<lambda>self.
          bind_res (tree_insert object_ops i (os_tree self)) (\<lambda>t. Inr (self\<lparr>os_tree := t\<rparr>)))
      | OpReplaceOrInsert \<Rightarrow> Inr (self\<lparr>os_tree := tree_replace_or_insert object_ops i (os_tree self)\<rparr>)
      | OpMerge \<Rightarrow>
          bind_res
            (if is_tombstone i
             then bind_res (adjust_object_count (- 1) (os_store_info self)) (\<lambda>info. Inr (self\<lparr>os_store_info := info\<rparr>))
             else Inr self) (\<lambda>self.
          bind_res (tree_merge_into fuel object_ops object_merge i (object_key_for_merge_into (key i)) (os_tree self)) (\<lambda>t.
            Inr (self\<lparr>os_tree := t\<rparr>))))"

definition store_apply_mutation ::
  "nat \<Rightarrow> checkpoint \<Rightarrow> mutation \<Rightarrow> apply_mode \<Rightarrow> object_store \<Rightarrow> object_store res" where
  "store_apply_mutation fuel cp m mode self =
     bind_res (ensure (lock_state_allows m mode (os_lock_state self)) Panic) (\<lambda>_.
     case m of
       ObjectStoreM om \<Rightarrow> apply_object_mutation fuel (file_offset cp) om mode self
     | BeginFlush \<Rightarrow>
         bind_res (ensure (os_parent self \<noteq> None) (Fxfs Inconsistent)) (\<lambda>_.
           Inr (self\<lparr>os_tree := seal (os_tree self), os_store_info := sri_begin_flush (os_store_info self)\<rparr>))
     | EndFlush \<Rightarrow>
         bind_res (ensure (os_parent self \<noteq> None) (Fxfs Inconsistent)) (\<lambda>_.
           if is_live mode then Inr self
           else Inr (self\<lparr>os_tree := reset_immutable_layers (os_tree self),
                          os_store_info := sri_end_flush (os_store_info self)\<rparr>))
     | EncryptedObjectStoreM bytes \<Rightarrow>
         bind_res (ensure (os_lock_state self \<noteq> SUnencrypted) (Fxfs Inconsistent)) (\<lambda>_.
         bind_res (push_encrypted_mutation cp bytes (os_store_info self)) (\<lambda>info.
           Inr (self\<lparr>os_store_info := info\<rparr>)))
     | UpdateMutationsKeyM _ k \<Rightarrow>
         bind_res (ensure (os_lock_state self \<noteq> SUnencrypted) (Fxfs Inconsistent)) (\<lambda>_.
           if is_live mode then Inr self
           else bind_res (set_mutations_key k (os_store_info self)) (\<lambda>info. Inr (self\<lparr>os_store_info := info\<rparr>)))
     | _ \<Rightarrow> Inl Bail)"

text \<open>\<^verbatim>\<open>write_mutation\<close> hands mutations to the journal's writer; the result is what it wrote.\<close>

definition store_write_mutation ::
  "(mutation \<Rightarrow> u8 list) \<Rightarrow> mutation \<Rightarrow> object_store \<Rightarrow> (mutation list \<times> object_store) res" where
  "store_write_mutation ser m self =
     (case (m, os_mutations_cipher self) of
        (ObjectStoreM _, Some c) \<Rightarrow>
          bind_res
            (if sc_offset c = 0
             then bind_res (sri_info (os_store_info self)) (\<lambda>i.
                    case mutations_key i of
                      None \<Rightarrow> Inl Panic
                    | Some k \<Rightarrow> Inr [update_mutations_key 0 k])
             else Inr []) (\<lambda>ms.
          let (buffer, c) = sc_encrypt (ser m) c in
            Inr (ms @ [EncryptedObjectStoreM buffer], self\<lparr>os_mutations_cipher := Some c\<rparr>))
      | _ \<Rightarrow> Inr ([m], self))"

definition roll_mutations_key ::
  "(unwrapped_key \<Rightarrow> nat \<Rightarrow> u8) \<Rightarrow> wrapped_key \<times> unwrapped_key \<Rightarrow> object_store \<Rightarrow> object_store res" where
  "roll_mutations_key chacha new_key self =
     bind_res (sri_info (os_store_info self)) (\<lambda>i.
       Inr (self\<lparr>os_mutations_cipher := Some (stream_cipher_new chacha (snd new_key) 0),
                 os_store_info := Info (i\<lparr>mutations_key := Some (fst new_key)\<rparr>)\<rparr>))"

section \<open>After replay\<close>

text \<open>The deltas gathered during replay, oldest first, are merged into the info read from the file.\<close>

definition merge_replay_info :: "replay_info list \<Rightarrow> store_info \<Rightarrow> store_info \<times> encrypted_mutations" where
  "merge_replay_info ris i =
     fold (\<lambda>r (i, em). (i\<lparr>object_count := adjusted_count (object_count i) (object_count_delta r)\<rparr>,
                        em_extend (ri_encrypted_mutations r) em))
       (rev ris) (i, encrypted_mutations_default)"

text \<open>
  \<^verbatim>\<open>on_replay_complete\<close> for a store with a parent, given the info in the store's file (none when the file
  is empty) and the contents of the layer files, which only an unencrypted store opens now.
\<close>

definition store_on_replay_complete ::
  "store_info option \<Rightarrow> (object_key, encryption_keys object_value) item list list \<Rightarrow> object_store \<Rightarrow> object_store res" where
  "store_on_replay_complete file_info layers self =
     (let i = (case file_info of Some i \<Rightarrow> i | None \<Rightarrow> store_info_default);
          self = (if file_info \<noteq> None \<and> object_id_key i = None
                  then update_last_object_id (si_last_object_id i) self else self)
      in case os_store_info self of
           Info _ \<Rightarrow> Inl Panic
         | ReplayInfo ris \<Rightarrow>
             let (i, em) = merge_replay_info ris i;
                 self = self\<lparr>os_store_info := Info i\<rparr>
             in if mutations_key i \<noteq> None
                then Inr (self\<lparr>os_lock_state := SLocked em\<rparr>)
                else Inr (self\<lparr>os_lock_state := SUnencrypted, os_tree := append_layers layers (os_tree self)\<rparr>))"

section \<open>Unlocking and locking\<close>

text \<open>The data is decrypted in pieces, with a new key from each recorded offset on.\<close>

fun decrypt_rolls ::
  "(unwrapped_key \<Rightarrow> nat \<Rightarrow> u8) \<Rightarrow> crypt \<Rightarrow> nat \<Rightarrow> stream_cipher \<Rightarrow> nat \<Rightarrow> (nat \<times> wrapped_key) list \<Rightarrow> u8 list \<Rightarrow> u8 list res" where
  "decrypt_rolls chacha c owner sc last_offset [] bytes = Inr (fst (sc_decrypt bytes sc))"
| "decrypt_rolls chacha c owner sc last_offset ((off, k) # rolls) bytes =
     (case checked_sub off last_offset of
        None \<Rightarrow> Inl (Fxfs Inconsistent)
      | Some split_offset \<Rightarrow>
          bind_res (ensure (split_offset \<le> length bytes) (Fxfs Inconsistent)) (\<lambda>_.
          bind_res (unwrap_key c k owner) (\<lambda>unwrapped.
          bind_res (decrypt_rolls chacha c owner (stream_cipher_new chacha unwrapped 0) off rolls (drop split_offset bytes)) (\<lambda>rest.
            Inr (fst (sc_decrypt (take split_offset bytes) sc) @ rest)))))"

text \<open>
  The mutations are read back from the decrypted data, as many per transaction as were counted.
  \<open>deser version data\<close> is the versioned deserialiser.
\<close>

fun unlock_apply_some ::
  "nat \<Rightarrow> (nat \<Rightarrow> u8 list \<Rightarrow> (mutation \<times> u8 list) option) \<Rightarrow> checkpoint \<Rightarrow> nat \<Rightarrow> u8 list \<Rightarrow> object_store \<Rightarrow>
   (u8 list \<times> object_store) res" where
  "unlock_apply_some fuel deser cp 0 bytes self = Inr (bytes, self)"
| "unlock_apply_some fuel deser cp (Suc n) bytes self =
     (case deser (cp_version cp) bytes of
        None \<Rightarrow> Inl Bail
      | Some (m, bytes) \<Rightarrow>
          bind_res (store_apply_mutation fuel cp m Replay self) (unlock_apply_some fuel deser cp n bytes))"

fun unlock_apply ::
  "nat \<Rightarrow> (nat \<Rightarrow> u8 list \<Rightarrow> (mutation \<times> u8 list) option) \<Rightarrow> (checkpoint \<times> nat) list \<Rightarrow> u8 list \<Rightarrow> object_store \<Rightarrow>
   object_store res" where
  "unlock_apply fuel deser [] bytes self = Inr self"
| "unlock_apply fuel deser ((cp, n) # ts) bytes self =
     bind_res (unlock_apply_some fuel deser cp n bytes self) (\<lambda>(bytes, self). unlock_apply fuel deser ts bytes self)"

text \<open>
  \<^verbatim>\<open>unlock_inner\<close> up to the flush at its end: \<open>layers\<close> are the contents of the layer files, \<open>stored\<close> the
  encrypted mutations read from the store's file of encrypted mutations, in order. On a failure after
  the state has become \<^verbatim>\<open>Unlocking\<close> the clean-up leaves the store invalid and empty.
\<close>

definition unlock_replay ::
  "nat \<Rightarrow> (unwrapped_key \<Rightarrow> nat \<Rightarrow> u8) \<Rightarrow> (nat \<Rightarrow> u8 list \<Rightarrow> (mutation \<times> u8 list) option) \<Rightarrow> wrapped_key \<times> unwrapped_key \<Rightarrow>
   crypt \<Rightarrow> stream_cipher \<Rightarrow> encrypted_mutations \<Rightarrow> object_store \<Rightarrow> object_store res" where
  "unlock_replay fuel chacha deser new_key c sc em self =
     bind_res (decrypt_rolls chacha c (os_store_object_id self) sc 0 (mutations_key_roll em) (em_data em)) (\<lambda>bytes.
     bind_res (roll_mutations_key chacha new_key self) (unlock_apply fuel deser (em_transactions em) bytes))"

definition unlock_inner ::
  "nat \<Rightarrow> (unwrapped_key \<Rightarrow> block_cipher) \<Rightarrow> (unwrapped_key \<Rightarrow> nat \<Rightarrow> u8) \<Rightarrow>
   (nat \<Rightarrow> u8 list \<Rightarrow> (mutation \<times> u8 list) option) \<Rightarrow> wrapped_key \<times> unwrapped_key \<Rightarrow>
   (object_key, encryption_keys object_value) item list list \<Rightarrow> encrypted_mutations list \<Rightarrow> bool \<Rightarrow> crypt \<Rightarrow>
   object_store \<Rightarrow> (unit res \<times> object_store) res" where
  "unlock_inner fuel aes chacha deser new_key layers stored read_only c self =
     (case os_lock_state self of
        SInvalid \<Rightarrow> Inr (Inl (Fxfs Inconsistent), self)
      | SUnencrypted \<Rightarrow> Inr (Inl (Fxfs InvalidArgs), self)
      | SUnlocked _ \<Rightarrow> Inr (Inl (Fxfs AlreadyBound), self)
      | SUnlockedReadOnly _ _ _ \<Rightarrow> Inr (Inl (Fxfs AlreadyBound), self)
      | SUnknown \<Rightarrow> Inl Panic
      | SLocking _ \<Rightarrow> Inl Panic
      | SUnlocking \<Rightarrow> Inl Panic
      | SLocked journaled \<Rightarrow>
          bind_res (sri_info (os_store_info self)) (\<lambda>i.
          let self = self\<lparr>os_tree := append_layers layers (os_tree self)\<rparr> in
          case mutations_key i of
            None \<Rightarrow> Inl Panic
          | Some mk \<Rightarrow>
          case unwrap_key c mk (os_store_object_id self) of
            Inl e \<Rightarrow> Inr (Inl e, self)
          | Inr unwrapped \<Rightarrow>
          if mutations_cipher_offset i > 2 ^ 32 - 1 then Inr (Inl (Fxfs Inconsistent), self)
          else case object_id_key i of
            None \<Rightarrow> Inr (Inl (Fxfs Inconsistent), self)
          | Some idk \<Rightarrow>
          case unwrap_key c idk (os_store_object_id self) of
            Inl e \<Rightarrow> Inr (Inl e, self)
          | Inr oid_key \<Rightarrow>
          let self = self\<lparr>os_last_object_id := (os_last_object_id self)\<lparr>lid_cipher := Some (ff1_new (aes oid_key))\<rparr>\<rparr>;
              self = update_last_object_id (si_last_object_id i) self;
              em = em_extend journaled (fold em_extend stored encrypted_mutations_default);
              self = self\<lparr>os_lock_state := SUnlocking\<rparr>
          in case unlock_replay fuel chacha deser new_key c
                    (stream_cipher_new chacha unwrapped (mutations_cipher_offset i)) em self of
               Inl e \<Rightarrow> Inr (Inl e, self\<lparr>os_lock_state := SInvalid, os_tree := tree_reset (os_tree self)\<rparr>)
             | Inr self \<Rightarrow>
                 Inr (Inr (), self\<lparr>os_lock_state :=
                   (if read_only then SUnlockedReadOnly c i journaled else SUnlocked c)\<rparr>)))"

text \<open>\<^verbatim>\<open>lock\<close>, given the outcome of the flush, which leaves the store in \<open>flushed\<close>.\<close>

definition lock_begin :: "object_store \<Rightarrow> object_store res" where
  "lock_begin self =
     (case os_lock_state self of
        SUnlocked c \<Rightarrow> Inr (self\<lparr>os_lock_state := SLocking c\<rparr>)
      | _ \<Rightarrow> Inl Panic)"

definition lock_end :: "unit res \<Rightarrow> bool \<Rightarrow> object_store \<Rightarrow> (unit res \<times> object_store) res" where
  "lock_end flush_result needs_flush self =
     bind_res (case flush_result of
                 Inl _ \<Rightarrow> Inr SInvalid
               | Inr _ \<Rightarrow> bind_res (ensure (\<not> needs_flush) Panic) (\<lambda>_. Inr (SLocked encrypted_mutations_default))) (\<lambda>state.
       Inr (flush_result, self\<lparr>os_lock_state := state, os_tree := tree_reset (os_tree self)\<rparr>))"

definition lock_read_only :: "object_store \<Rightarrow> object_store res" where
  "lock_read_only self =
     (case os_lock_state self of
        SUnlockedReadOnly _ i em \<Rightarrow>
          Inr (self\<lparr>os_lock_state := SLocked em, os_store_info := Info i, os_tree := tree_reset (os_tree self)\<rparr>)
      | _ \<Rightarrow> Inl Panic)"

section \<open>Objects\<close>

definition store_find :: "nat \<Rightarrow> object_key \<Rightarrow> object_store \<Rightarrow> encryption_keys object_item option res" where
  "store_find fuel k self = find fuel object_ops object_merge k (os_tree self)"

definition get_file_size :: "nat \<Rightarrow> nat \<Rightarrow> object_store \<Rightarrow> nat res" where
  "get_file_size fuel oid self =
     bind_res (store_find fuel (object_key_attribute oid 0 Size) self) (\<lambda>found.
       case found of
         None \<Rightarrow> Inl (Fxfs NotFound)
       | Some i \<Rightarrow> (case value i of VAttribute n \<Rightarrow> Inr n | _ \<Rightarrow> Inl (Fxfs NotFile)))"

definition txn_get_object_mutation :: "nat \<Rightarrow> transaction \<Rightarrow> nat \<Rightarrow> object_store \<Rightarrow> object_store_mutation res" where
  "txn_get_object_mutation fuel txn oid self =
     (case get_object_mutation (os_store_object_id self) (object_key_object oid) txn of
        Some m \<Rightarrow> Inr m
      | None \<Rightarrow>
          bind_res (store_find fuel (object_key_object oid) self) (\<lambda>found.
            case found of
              None \<Rightarrow> Inl (Fxfs NotFound)
            | Some i \<Rightarrow> Inr \<lparr>osm_item = i, osm_op = OpReplaceOrInsert\<rparr>))"

definition add_to_graveyard :: "nat \<Rightarrow> object_store \<Rightarrow> transaction \<Rightarrow> transaction res" where
  "add_to_graveyard oid self txn =
     bind_res (sri_info (os_store_info self)) (\<lambda>i.
     bind_res (ensure (graveyard_directory_object_id i \<noteq> 0) Panic) (\<lambda>_.
     bind_res (txn_add (os_store_object_id self)
                 (replace_or_insert_object (object_key_graveyard_entry (graveyard_directory_object_id i) oid) VSome) txn) (\<lambda>(_, txn).
       Inr txn)))"

definition remove_from_graveyard :: "nat \<Rightarrow> object_store \<Rightarrow> transaction \<Rightarrow> transaction res" where
  "remove_from_graveyard oid self txn =
     bind_res (sri_info (os_store_info self)) (\<lambda>i.
     bind_res (txn_add (os_store_object_id self)
                 (replace_or_insert_object (object_key_graveyard_entry (graveyard_directory_object_id i) oid) VNone) txn) (\<lambda>(_, txn).
       Inr txn))"

definition adjust_refs :: "nat \<Rightarrow> nat \<Rightarrow> int \<Rightarrow> object_store \<Rightarrow> transaction \<Rightarrow> (bool \<times> transaction) res" where
  "adjust_refs fuel oid delta self txn =
     bind_res (txn_get_object_mutation fuel txn oid self) (\<lambda>m.
     case value (osm_item m) of
       VObject (File n asize) attrs \<Rightarrow>
         let set_refs = (\<lambda>r. m\<lparr>osm_item := (osm_item m)\<lparr>value := VObject (File r asize) attrs\<rparr>\<rparr>) in
         (case (if delta < 0 then checked_sub n (nat (- delta)) else checked_add n (nat delta)) of
            None \<Rightarrow> Inl Bail
          | Some n \<Rightarrow>
              if n = 0
              then
                bind_res (add_to_graveyard oid self txn) (\<lambda>txn.
                  if delta \<noteq> - 1
                  then bind_res (txn_add (os_store_object_id self) (ObjectStoreM (set_refs 1)) txn) (\<lambda>(_, txn).
                         Inr (True, txn))
                  else Inr (True, txn))
              else bind_res (txn_add (os_store_object_id self) (ObjectStoreM (set_refs n)) txn) (\<lambda>(_, txn).
                     Inr (False, txn)))
     | _ \<Rightarrow> Inl (Fxfs NotFile))"

text \<open>
  \<^verbatim>\<open>create_object_with_id\<close>: the time, the keys that the crypt service would create, and whether the
  caller passed a crypt service of its own are arguments; the result is the id of the object.
\<close>

definition create_object_with_id ::
  "(unwrapped_key \<Rightarrow> block_cipher) \<Rightarrow> wrapped_key \<times> unwrapped_key \<Rightarrow> timestamp \<Rightarrow> wrapped_key \<Rightarrow> crypt option \<Rightarrow> nat \<Rightarrow>
   object_store \<Rightarrow> transaction \<Rightarrow> (nat \<times> object_store \<times> transaction) res" where
  "create_object_with_id aes id_key now data_key c oid self txn =
     bind_res (if oid = 0 then get_next_object_id aes id_key self else Inr (oid, update_last_object_id oid self)) (\<lambda>(oid, self).
     bind_res (case c of None \<Rightarrow> store_crypt self | Some _ \<Rightarrow> Inr c) (\<lambda>c.
     bind_res (txn_add (os_store_object_id self) (insert_object (object_key_object oid) (value_file 1 0 now now)) txn) (\<lambda>(_, txn).
     bind_res (case c of
                 None \<Rightarrow> Inr txn
               | Some _ \<Rightarrow>
                   bind_res (txn_add (os_store_object_id self)
                               (insert_object (object_key_keys oid) (VKeys (AES256XTS [(0, data_key)]))) txn) (\<lambda>(_, txn).
                     Inr txn)) (\<lambda>txn.
     bind_res (txn_add (os_store_object_id self)
                 (insert_object (object_key_attribute oid 0 Size) (VAttribute 0)) txn) (\<lambda>(_, txn).
       Inr (oid, self, txn))))))"

definition parent_objects :: "object_store \<Rightarrow> nat list res" where
  "parent_objects self =
     bind_res (sri_info (os_store_info self)) (\<lambda>i.
       Inr (si_layers i @ (if encrypted_mutations_object_id i \<noteq> 0 then [encrypted_mutations_object_id i] else [])))"

definition root_objects :: "object_store \<Rightarrow> nat list res" where
  "root_objects self =
     bind_res (sri_info (os_store_info self)) (\<lambda>i.
       Inr ((if root_directory_object_id i \<noteq> 0 then [root_directory_object_id i] else []) @
            (if graveyard_directory_object_id i \<noteq> 0 then [graveyard_directory_object_id i] else [])))"

section \<open>Flushing\<close>

text \<open>
  The steps of \<^verbatim>\<open>flush_with_reason\<close> that touch the store: the snapshot of the store's info taken as
  \<^verbatim>\<open>BeginFlush\<close> is applied, the info that is written to the store's file for an unlocked store with the
  ids of its new layers, and the callback that runs when the transaction with \<^verbatim>\<open>EndFlush\<close> has committed.
\<close>

definition flush_snapshot :: "object_store \<Rightarrow> store_info res" where
  "flush_snapshot self =
     bind_res (sri_info (os_store_info self)) (\<lambda>i.
       Inr (i\<lparr>mutations_cipher_offset :=
                (case os_mutations_cipher self of Some c \<Rightarrow> sc_offset c | None \<Rightarrow> mutations_cipher_offset i),
              si_last_object_id := lid_id (os_last_object_id self)\<rparr>))"

definition flush_new_info :: "nat list \<Rightarrow> store_info \<Rightarrow> store_info" where
  "flush_new_info layer_ids snapshot = snapshot\<lparr>si_layers := layer_ids, encrypted_mutations_object_id := 0\<rparr>"

definition flush_committed ::
  "store_info \<Rightarrow> (object_key, encryption_keys object_value) item list list option \<Rightarrow> object_store \<Rightarrow> object_store res" where
  "flush_committed new_info new_layers self =
     bind_res (sri_info (os_store_info self)) (\<lambda>i.
       Inr (self\<lparr>os_store_info := Info (i\<lparr>si_layers := si_layers new_info,
                                         encrypted_mutations_object_id := encrypted_mutations_object_id new_info,
                                         mutations_cipher_offset := mutations_cipher_offset new_info\<rparr>),
                 os_tree := (case new_layers of Some layers \<Rightarrow> set_layers layers (os_tree self) | None \<Rightarrow> os_tree self),
                 os_lock_state := (case os_lock_state self of
                                     SLocked _ \<Rightarrow> SLocked encrypted_mutations_default
                                   | SUnlockedReadOnly c j _ \<Rightarrow> SUnlockedReadOnly c j encrypted_mutations_default
                                   | state \<Rightarrow> state)\<rparr>))"

text \<open>When a flush of the store does anything, by the reason for it.\<close>

datatype flush_reason = ForJournal | ForUnlock | ForLock

definition should_flush :: "flush_reason \<Rightarrow> bool \<Rightarrow> object_store \<Rightarrow> bool res" where
  "should_flush reason needs_flush self =
     (if os_parent self = None then Inr False
      else case reason of
        ForUnlock \<Rightarrow> bind_res (sri_info (os_store_info self)) (\<lambda>i. Inr (encrypted_mutations_object_id i \<noteq> 0))
      | _ \<Rightarrow> Inr needs_flush)"

end
