(* ===== verification/Object_Ids.thy ===== *)
theory Object_Ids
  imports Object_Store
begin

text \<open>
  Object ids: the ids a store hands out are new with respect to every id it handed out before or saw
  when the journal was replayed, through changes of the cipher; and what goes wrong with them when an
  encrypted store is unlocked.
\<close>

section \<open>High and low parts\<close>

lemma unat_less_32 [simp]: "unat (w :: u32) < 4294967296"
  using unsigned_less [of w] by simp

lemma object_id_lo_hi: "object_id_lo (object_id_hi n + unat w) = w"
proof -
  have "unat (object_id_lo (object_id_hi n + unat w)) = (object_id_hi n + unat w) mod 4294967296"
    unfolding object_id_lo_def unat_of_nat by simp
  also have "\<dots> = unat w" by (simp add: object_id_hi_def)
  finally show ?thesis by (simp add: word_unat_eq_iff)
qed

lemma object_id_hi_add: "object_id_hi (object_id_hi n + unat (w :: u32)) = object_id_hi n"
  by (simp add: object_id_hi_def)

lemma object_id_split: "object_id_hi n + unat (object_id_lo n) = n"
  by (simp add: object_id_lo_def object_id_hi_def unat_of_nat)

lemma object_id_hi_mono: "m \<le> n \<Longrightarrow> object_id_hi m \<le> object_id_hi n"
  by (simp add: object_id_hi_def div_le_mono)

lemma object_id_hi_le: "object_id_hi n \<le> n"
  by (simp add: object_id_hi_def)

lemma object_id_hi_hi [simp]: "object_id_hi (object_id_hi n) = object_id_hi n"
  by (simp add: object_id_hi_def)

lemma object_id_hi_step: "object_id_hi (n + 2 ^ 32) = object_id_hi n + 2 ^ 32"
  by (simp add: object_id_hi_def div_add_self2 [of 4294967296 n, simplified])

section \<open>Known ids\<close>

definition plain_id :: "ff1 option \<Rightarrow> nat \<Rightarrow> nat" where
  "plain_id c oid = (case c of Some c \<Rightarrow> object_id_hi oid + unat (decrypt c (object_id_lo oid)) | None \<Rightarrow> oid)"

lemma hi_plain_id: "object_id_hi (plain_id c oid) = object_id_hi oid"
  by (cases c) (simp_all add: plain_id_def object_id_hi_add)

text \<open>An id is known to a store if it belongs to an earlier cipher or is not after the last id.\<close>

definition known_id :: "last_object_id \<Rightarrow> nat \<Rightarrow> bool" where
  "known_id self oid \<longleftrightarrow>
     object_id_hi oid \<le> object_id_hi (lid_id self) \<and>
     (object_id_hi oid = object_id_hi (lid_id self) \<longrightarrow> plain_id (lid_cipher self) oid \<le> lid_id self)"

lemma known_id_mono:
  assumes "known_id self oid" "lid_id self \<le> lid_id self'" "lid_cipher self' = lid_cipher self"
  shows "known_id self' oid"
  using assms object_id_hi_mono [OF assms(2)] hi_plain_id [of "lid_cipher self" oid]
  by (auto simp: known_id_def)

lemma known_id_roll:
  assumes "known_id self oid" "object_id_hi (lid_id self) < object_id_hi (lid_id self')"
  shows "known_id self' oid"
  using assms by (auto simp: known_id_def)

lemma known_lid_update: "known_id (lid_update oid self) oid"
proof -
  define p where "p = plain_id (lid_cipher self) oid"
  have upd: "lid_update oid self = (if p > lid_id self then self\<lparr>lid_id := p\<rparr> else self)"
    by (simp add: lid_update_def p_def plain_id_def split: option.splits)
  have "object_id_hi p = object_id_hi oid" by (simp add: p_def hi_plain_id)
  moreover have "p \<le> lid_id self \<Longrightarrow> object_id_hi p \<le> object_id_hi (lid_id self)" by (rule object_id_hi_mono)
  ultimately show ?thesis by (auto simp: known_id_def upd simp flip: p_def)
qed

lemma known_lid_update_mono: "known_id self oid' \<Longrightarrow> known_id (lid_update oid self) oid'"
  by (erule known_id_mono) (simp_all add: lid_update_def Let_def)

lemma lid_get_next:
  assumes "lid_get_next_object_id self = Inr (oid, self')"
  shows "lid_id self' = lid_id self + 1" "lid_cipher self' = lid_cipher self" "plain_id (lid_cipher self) oid = lid_id self'" "oid \<noteq> 0"
proof -
  have "lid_id self' = lid_id self + 1 \<and> lid_cipher self' = lid_cipher self \<and>
      plain_id (lid_cipher self) oid = lid_id self' \<and> oid \<noteq> 0"
  proof (cases "lid_cipher self")
    case None
    then show ?thesis using assms
      by (auto simp: lid_get_next_object_id_def bind_res_eq_Inr u64_add_def plain_id_def split: if_splits)
  next
    case (Some c)
    then show ?thesis using assms
      by (auto simp: lid_get_next_object_id_def bind_res_eq_Inr u64_add_def Let_def plain_id_def object_id_hi_add object_id_lo_hi
          decrypt_encrypt object_id_split split: if_splits)
  qed
  then show "lid_id self' = lid_id self + 1" "lid_cipher self' = lid_cipher self"
    "plain_id (lid_cipher self) oid = lid_id self'" "oid \<noteq> 0" by blast+
qed

lemma lid_get_next_fresh:
  assumes "lid_get_next_object_id self = Inr (oid, self')"
  shows "\<not> known_id self oid" "known_id self' oid" "known_id self x \<Longrightarrow> known_id self' x"
proof -
  note nxt = lid_get_next [OF assms]
  have hi: "object_id_hi oid = object_id_hi (lid_id self')" using hi_plain_id [of "lid_cipher self" oid] nxt(3) by simp
  show "\<not> known_id self oid"
    using nxt hi object_id_hi_mono [of "lid_id self" "lid_id self'"] by (auto simp: known_id_def)
  show "known_id self' oid" using nxt hi by (simp add: known_id_def)
  show "known_id self x \<Longrightarrow> known_id self' x" by (erule known_id_mono) (simp_all add: nxt)
qed

section \<open>Ids handed out by a store\<close>

lemma get_next_object_id_fresh:
  assumes "get_next_object_id aes nk self = Inr (oid, self')"
  shows "oid \<noteq> 0 \<and> \<not> known_id (os_last_object_id self) oid \<and> known_id (os_last_object_id self') oid \<and>
    (\<forall>x. known_id (os_last_object_id self) x \<longrightarrow> known_id (os_last_object_id self') x)"
proof (cases "should_create_cipher (os_last_object_id self)")
  case False
  then obtain l where "lid_get_next_object_id (os_last_object_id self) = Inr (oid, l)" "self' = self\<lparr>os_last_object_id := l\<rparr>"
    using assms by (auto simp: get_next_object_id_def maybe_get_next_object_id_def bind_res_eq_Inr dest: lid_get_next(4) split: if_splits)
  then show ?thesis using lid_get_next_fresh lid_get_next(4) by auto
next
  case True
  define n c where "n = object_id_hi (lid_id (os_last_object_id self) + 2 ^ 32)" and "c = ff1_new (aes (snd nk))"
  have new: "oid = object_id_hi n + unat (encrypt c (object_id_lo n))" "os_last_object_id self' = \<lparr>lid_id = n, lid_cipher = Some c\<rparr>"
    using assms True
    by (auto simp: get_next_object_id_def maybe_get_next_object_id_def bind_res_eq_Inr Let_def u64_add_def n_def c_def split: if_splits)
  have hi: "object_id_hi (lid_id (os_last_object_id self)) < object_id_hi n"
    unfolding n_def object_id_hi_hi using object_id_hi_step [of "lid_id (os_last_object_id self)"] by simp
  then have "\<forall>x. known_id (os_last_object_id self) x \<longrightarrow> known_id (os_last_object_id self') x"
    using known_id_roll new(2) by fastforce
  moreover have "\<not> known_id (os_last_object_id self) oid" "known_id (os_last_object_id self') oid" "oid \<noteq> 0"
    using hi by (auto simp: new known_id_def object_id_hi_add plain_id_def object_id_lo_hi decrypt_encrypt object_id_split)
  ultimately show ?thesis by blast
qed

text \<open>A store at work: it hands out ids, rolling the cipher when it has to, or sees ids during replay.\<close>

datatype id_op = NextId "wrapped_key \<times> unwrapped_key" | SeenId nat

fun run_ids :: "(unwrapped_key \<Rightarrow> block_cipher) \<Rightarrow> id_op list \<Rightarrow> object_store \<Rightarrow> (nat list \<times> object_store) res" where
  "run_ids aes [] self = Inr ([], self)"
| "run_ids aes (NextId nk # ops) self =
     bind_res (get_next_object_id aes nk self) (\<lambda>(oid, self).
     bind_res (run_ids aes ops self) (\<lambda>(oids, self). Inr (oid # oids, self)))"
| "run_ids aes (SeenId oid # ops) self =
     bind_res (run_ids aes ops (update_last_object_id oid self)) (\<lambda>(oids, self). Inr (oid # oids, self))"

lemma run_ids_length: "run_ids aes ops self = Inr (oids, self') \<Longrightarrow> length oids = length ops"
  by (induction aes ops self arbitrary: oids rule: run_ids.induct) (auto simp: bind_res_eq_Inr)

lemma run_ids_unknown:
  assumes "run_ids aes ops self = Inr (oids, self')" "j < length ops" "ops ! j = NextId nk"
  shows "\<not> known_id (os_last_object_id self) (oids ! j) \<and> oids ! j \<noteq> 0"
  using assms
proof (induction aes ops self arbitrary: oids j rule: run_ids.induct)
  case (2 aes nk' ops self)
  obtain oid s1 oids1 where step: "get_next_object_id aes nk' self = Inr (oid, s1)" "run_ids aes ops s1 = Inr (oids1, self')"
    "oids = oid # oids1" using "2.prems"(1) by (auto simp: bind_res_eq_Inr)
  note fresh = get_next_object_id_fresh [OF step(1)]
  show ?case
  proof (cases j)
    case 0
    then show ?thesis using fresh step(3) by simp
  next
    case (Suc i)
    then show ?thesis using "2.IH" [OF step(2), of i] "2.prems"(2,3) step fresh by auto
  qed
next
  case (3 aes oid ops self)
  obtain oids1 where step: "run_ids aes ops (update_last_object_id oid self) = Inr (oids1, self')" "oids = oid # oids1"
    using "3.prems"(1) by (auto simp: bind_res_eq_Inr)
  obtain i where i: "j = Suc i" using "3.prems"(3) by (cases j) auto
  have "\<not> known_id (os_last_object_id (update_last_object_id oid self)) (oids1 ! i) \<and> oids1 ! i \<noteq> 0"
    using "3.IH" [OF step(1), of i] "3.prems"(2,3) i by simp
  then show ?case using known_lid_update_mono i step(2) by (auto simp: update_last_object_id_def)
qed simp

text \<open>
  C29: the object ids a store hands out are never the invalid id and never repeat: each id returned by
  \<^verbatim>\<open>get_next_object_id\<close> differs from every id that was returned before it and from every id that was
  seen before it during replay, whatever the ciphers compute and however often the cipher is rolled.
\<close>

theorem object_ids_fresh:
  assumes "run_ids aes ops self = Inr (oids, self')" "i < j" "j < length ops" "ops ! j = NextId nk"
  shows "oids ! j \<noteq> 0 \<and> oids ! i \<noteq> oids ! j"
  using assms
proof (induction aes ops self arbitrary: oids i j rule: run_ids.induct)
  case (2 aes nk' ops self)
  obtain oid s1 oids1 where step: "get_next_object_id aes nk' self = Inr (oid, s1)" "run_ids aes ops s1 = Inr (oids1, self')"
    "oids = oid # oids1" using "2.prems"(1) by (auto simp: bind_res_eq_Inr)
  obtain k where k: "j = Suc k" using "2.prems"(2) by (cases j) auto
  have "\<not> known_id (os_last_object_id s1) (oids1 ! k) \<and> oids1 ! k \<noteq> 0"
    using run_ids_unknown [OF step(2)] "2.prems" k by simp
  then show ?case
    using "2.IH" [OF step(2), of "i - 1" k] "2.prems" k step get_next_object_id_fresh [OF step(1)] by (cases i) auto
next
  case (3 aes oid ops self)
  obtain oids1 where step: "run_ids aes ops (update_last_object_id oid self) = Inr (oids1, self')" "oids = oid # oids1"
    using "3.prems"(1) by (auto simp: bind_res_eq_Inr)
  obtain k where k: "j = Suc k" using "3.prems"(2) by (cases j) auto
  have "\<not> known_id (os_last_object_id (update_last_object_id oid self)) (oids1 ! k) \<and> oids1 ! k \<noteq> 0"
    using run_ids_unknown [OF step(1)] "3.prems" k by simp
  then show ?case
    using "3.IH" [OF step(1), of "i - 1" k] "3.prems" k step known_lid_update [of oid "os_last_object_id self"]
    by (cases i) (auto simp: update_last_object_id_def)
qed simp

theorem object_ids_fresh_witness:
  "\<exists>nk oids self'. run_ids (\<lambda>_ b. b) [NextId nk, SeenId 7, NextId nk] (new_root_parent 512 1) = Inr (oids, self') \<and>
     oids = [1, 7, 8] \<and> oids ! 1 \<noteq> oids ! 2"
proof -
  define nk :: "wrapped_key \<times> unwrapped_key" where "nk = (\<lparr>wrapping_key_id = 0, wrapped_key_bytes = []\<rparr>, [])"
  have "object_id_lo 0 \<noteq> - 1" "object_id_lo 7 \<noteq> - 1" by (simp_all add: object_id_lo_def)
  then obtain self' where run:
    "run_ids (\<lambda>_ b. b) [NextId nk, SeenId 7, NextId nk] (new_root_parent 512 1) = Inr ([1, 7, 8], self')"
    by (simp add: new_root_parent_def get_next_object_id_def maybe_get_next_object_id_def should_create_cipher_def
        last_object_id_default_def lid_get_next_object_id_def u64_add_def u64_max_def update_last_object_id_def lid_update_def)
  moreover have "[1, 7, 8] ! 1 \<noteq> ([1, 7, 8] ! 2 :: nat)" using object_ids_fresh [OF run, of 1 2 nk] by simp
  ultimately show ?thesis by blast
qed

section \<open>Unlocking\<close>

lemma object_id_parts:
  assumes "d < 2 ^ 32"
  shows "object_id_hi (h * 2 ^ 32 + d) = h * 2 ^ 32" "object_id_lo (h * 2 ^ 32 + d) = of_nat d"
proof -
  show "object_id_hi (h * 2 ^ 32 + d) = h * 2 ^ 32" using assms by (simp add: object_id_hi_def)
  have "object_id_lo (object_id_hi (h * 2 ^ 32) + unat (of_nat d :: u32)) = of_nat d" by (rule object_id_lo_hi)
  then show "object_id_lo (h * 2 ^ 32 + d) = of_nat d"
    using assms by (simp add: object_id_hi_def unat_of_nat)
qed

text \<open>Within one cipher, the id for the counter's next value is the encryption of that value.\<close>

lemma get_next_in_cipher:
  assumes lid: "os_last_object_id self = \<lparr>lid_id = h * 2 ^ 32 + d, lid_cipher = Some c\<rparr>"
    and bounds: "0 < h" "Suc d < 2 ^ 32" "h * 2 ^ 32 + Suc d \<le> u64_max"
  shows "get_next_object_id aes nk self =
    Inr (h * 2 ^ 32 + unat (encrypt c (of_nat (Suc d))),
         self\<lparr>os_last_object_id := \<lparr>lid_id = h * 2 ^ 32 + Suc d, lid_cipher = Some c\<rparr>\<rparr>)"
proof -
  have "unat (of_nat d :: u32) \<noteq> unat (- 1 :: u32)" "unat (of_nat (Suc d) :: u32) \<noteq> unat (0 :: u32)"
    using bounds(2) by (simp_all add: unat_of_nat unsigned_minus_1_eq_mask mask_eq_exp_minus_1 del: of_nat_Suc)
  then have "object_id_lo (h * 2 ^ 32 + d) \<noteq> - 1" "object_id_lo (h * 2 ^ 32 + Suc d) \<noteq> 0"
    using bounds(2) by (simp_all only: object_id_parts(2) Suc_lessD) metis+
  then show ?thesis
    using bounds object_id_parts [of "Suc d" h]
    by (simp add: get_next_object_id_def maybe_get_next_object_id_def should_create_cipher_def
        lid_get_next_object_id_def u64_add_def Let_def lid)
qed

lemma run_ids_in_cipher:
  assumes "os_last_object_id self = \<lparr>lid_id = h * 2 ^ 32 + d, lid_cipher = Some c\<rparr>"
    and "0 < h" "d + j < 2 ^ 32" "h * 2 ^ 32 + (d + j) \<le> u64_max"
  shows "run_ids aes (replicate j (NextId nk)) self =
    Inr (map (\<lambda>k. h * 2 ^ 32 + unat (encrypt c (of_nat (Suc k)))) [d..<d + j],
         self\<lparr>os_last_object_id := \<lparr>lid_id = h * 2 ^ 32 + (d + j), lid_cipher = Some c\<rparr>\<rparr>)"
  using assms
proof (induction j arbitrary: self d)
  case (Suc j)
  let ?next = "self\<lparr>os_last_object_id := \<lparr>lid_id = h * 2 ^ 32 + Suc d, lid_cipher = Some c\<rparr>\<rparr>"
  have "run_ids aes (replicate j (NextId nk)) ?next =
      Inr (map (\<lambda>k. h * 2 ^ 32 + unat (encrypt c (of_nat (Suc k)))) [Suc d..<Suc d + j],
           ?next\<lparr>os_last_object_id := \<lparr>lid_id = h * 2 ^ 32 + (Suc d + j), lid_cipher = Some c\<rparr>\<rparr>)"
    using Suc.prems by (intro Suc.IH) simp_all
  moreover have "[d..<d + Suc j] = d # [Suc d..<Suc d + j]" by (simp add: upt_conv_Cons)
  ultimately show ?case
    using get_next_in_cipher [OF Suc.prems(1), of aes nk] Suc.prems by simp
qed simp

text \<open>
  Unlocking a store that was mounted with the info of its last flush and nothing in the journal: the
  counter restarts at the decryption of the low half of the id in the info.
\<close>

lemma unlock_mounted:
  assumes written: "mutations_key i = Some mk" "object_id_key i = Some idk" "mutations_cipher_offset i < 2 ^ 32"
    and keys: "unwrap_key cr mk sid = Inr mkey" "unwrap_key cr idk sid = Inr k"
    and lid: "si_last_object_id i = h * 2 ^ 32 + d" "d < 2 ^ 32"
    and restart: "0 < h"
  shows "\<exists>locked s. store_on_replay_complete (Some i) layers
      (object_store_new parent sid bs None None SUnknown last_object_id_default) = Inr locked \<and>
    unlock_inner fuel aes chacha deser nk layers [] read_only cr locked = Inr (Inr (), s) \<and>
    os_last_object_id s = \<lparr>lid_id = h * 2 ^ 32 + unat (decrypt (ff1_new (aes k)) (of_nat d)),
                           lid_cipher = Some (ff1_new (aes k))\<rparr>"
proof -
  have upd: "lid_update (h * 2 ^ 32 + d) \<lparr>lid_id = 0, lid_cipher = Some (ff1_new (aes k))\<rparr> =
      \<lparr>lid_id = h * 2 ^ 32 + unat (decrypt (ff1_new (aes k)) (of_nat d)), lid_cipher = Some (ff1_new (aes k))\<rparr>"
    using object_id_parts [OF lid(2), of h] restart by (simp add: lid_update_def)
  have "store_on_replay_complete (Some i) layers (object_store_new parent sid bs None None SUnknown last_object_id_default) =
      Inr ((object_store_new parent sid bs None None SUnknown last_object_id_default)
        \<lparr>os_store_info := Info (i\<lparr>object_count := adjusted_count (object_count i) 0\<rparr>),
         os_lock_state := SLocked encrypted_mutations_default\<rparr>)"
    by (simp add: store_on_replay_complete_def object_store_new_def merge_replay_info_def replay_info_new_def
        replay_info_default_def em_extend_def encrypted_mutations_default_def written)
  then show ?thesis
    using written keys upd
    by (simp add: unlock_inner_def object_store_new_def sri_info_def last_object_id_default_def
        update_last_object_id_def lid(1) unlock_replay_def em_extend_def encrypted_mutations_default_def
        roll_mutations_key_def)
qed

text \<open>
  A cipher that shows the case: it is a permutation of the 16-byte blocks, and the object id cipher
  built on it adds one to the low half of an id.
\<close>

definition shift_cipher :: block_cipher where
  "shift_cipher b = (let b = rotate1 b in if b ! 12 = 9 then b[7 := xor (b ! 7) 1] else b)"

definition shift_cipher_inverse :: block_cipher where
  "shift_cipher_inverse b = rotate 15 (if b ! 12 = 9 then b[7 := xor (b ! 7) 1] else b)"

lemma shift_cipher_permutes:
  assumes "length b = 16"
  shows "shift_cipher_inverse (shift_cipher b) = b" "length (shift_cipher b) = 16"
proof -
  have "rotate 15 (rotate1 b) = b"
    using assms rotate_rotate [of 15 1 b] rotate_id [of 16 b] by (simp add: rotate1_rotate_swap rotate_def)
  then show "shift_cipher_inverse (shift_cipher b) = b" using assms
    by (simp add: shift_cipher_def shift_cipher_inverse_def Let_def xor.assoc)
  show "length (shift_cipher b) = 16" using assms by (simp add: shift_cipher_def Let_def)
qed

lemma shift_cipher_ids:
  "encrypt (ff1_new shift_cipher) 1 = 2" "encrypt (ff1_new shift_cipher) 2 = 3" "decrypt (ff1_new shift_cipher) 2 = 1"
  by code_simp+

definition example_crypt :: crypt where
  "example_crypt = \<lparr>unwrap_key = \<lambda>_ _. Inr []\<rparr>"

definition example_info :: "wrapped_key \<Rightarrow> nat \<Rightarrow> store_info" where
  "example_info wk n = store_info_default\<lparr>si_last_object_id := n, mutations_key := Some wk, object_id_key := Some wk\<rparr>"

text \<open>
  C36: unlocking an encrypted store can make it hand out an object id that it has handed out before. Take
  any ciphers and a store \<open>s0\<close> whose id counter stands at the start of the ids of the key \<open>k\<close>, as
  \<^verbatim>\<open>new_child_store\<close> leaves it, and let it hand out \<open>j\<close> ids; then flush the store in any state \<open>s1\<close> that has
  that counter and the keys, mount it with the info that the flush wrote and no mutations after it, and
  unlock it with the same crypt service. The flush's snapshot, the mount and the unlock succeed, and if
  \<open>j\<close>, the low half of the counter, decrypts to a smaller number, then the first id that the store hands
  out is one of the \<open>j\<close> ids again: the flush writes the counter, which is not encrypted, and unlocking
  decrypts it as if it were an id. (For a random permutation this happens with probability \<open>j / 2 ^ 32\<close>;
  when \<open>j\<close> decrypts to a larger number the counter skips ids instead, which is harmless.)
\<close>

theorem unlock_repeats_object_id:
  assumes used: "os_last_object_id s0 = \<lparr>lid_id = h * 2 ^ 32, lid_cipher = Some (ff1_new (aes k))\<rparr>"
      "0 < h" "j < 2 ^ 32" "h * 2 ^ 32 + j \<le> u64_max"
      "run_ids aes (replicate j (NextId nk)) s0 = Inr (oids, s)"
    and s1: "os_last_object_id s1 = os_last_object_id s" "os_store_info s1 = Info i"
    and keys: "mutations_key i = Some mk" "object_id_key i = Some idk"
      "unwrap_key cr mk (os_store_object_id s1) = Inr mkey" "unwrap_key cr idk (os_store_object_id s1) = Inr k"
    and off: "(case os_mutations_cipher s1 of Some sc \<Rightarrow> sc_offset sc | None \<Rightarrow> mutations_cipher_offset i) < 2 ^ 32"
    and smaller: "decrypt (ff1_new (aes k)) (of_nat j) < of_nat j"
  shows "\<exists>snapshot locked s2 s3 oid.
    flush_snapshot s1 = Inr snapshot \<and>
    store_on_replay_complete (Some (flush_new_info layer_ids snapshot)) layers
      (object_store_new (os_parent s1) (os_store_object_id s1) (os_block_size s1) None None SUnknown
         last_object_id_default) = Inr locked \<and>
    unlock_inner fuel aes chacha deser nk layers [] read_only cr locked = Inr (Inr (), s2) \<and>
    get_next_object_id aes nk s2 = Inr (oid, s3) \<and> oid \<in> set oids"
proof -
  let ?c = "ff1_new (aes k)"
  let ?d = "unat (decrypt ?c (of_nat j))"
  have ran: "oids = map (\<lambda>n. h * 2 ^ 32 + unat (encrypt ?c (of_nat (Suc n)))) [0..<j]"
    "os_last_object_id s = \<lparr>lid_id = h * 2 ^ 32 + j, lid_cipher = Some ?c\<rparr>"
    using run_ids_in_cipher [of s0 h 0 ?c j aes nk] used by auto
  have d: "?d < j" using smaller used(3) by (simp add: word_less_nat_alt unat_of_nat)
  obtain snapshot where snap: "flush_snapshot s1 = Inr snapshot" "si_last_object_id snapshot = h * 2 ^ 32 + j"
    "mutations_key snapshot = Some mk" "object_id_key snapshot = Some idk" "mutations_cipher_offset snapshot < 2 ^ 32"
    using s1 keys off ran(2) by (simp add: flush_snapshot_def sri_info_def)
  obtain locked s2 where unlock: "store_on_replay_complete (Some (flush_new_info layer_ids snapshot)) layers
      (object_store_new (os_parent s1) (os_store_object_id s1) (os_block_size s1) None None SUnknown
         last_object_id_default) = Inr locked"
    "unlock_inner fuel aes chacha deser nk layers [] read_only cr locked = Inr (Inr (), s2)"
    "os_last_object_id s2 = \<lparr>lid_id = h * 2 ^ 32 + ?d, lid_cipher = Some ?c\<rparr>"
    using unlock_mounted [of "flush_new_info layer_ids snapshot" mk idk cr "os_store_object_id s1" mkey k h j] snap keys used(2,3)
    unfolding flush_new_info_def by simp metis
  obtain s3 where "get_next_object_id aes nk s2 = Inr (oids ! ?d, s3)"
    using get_next_in_cipher [OF unlock(3) used(2)] d used(3,4) ran(1) by simp
  moreover have "oids ! ?d \<in> set oids" by (rule nth_mem) (simp add: d ran(1))
  ultimately show ?thesis using snap(1) unlock(1,2) by blast
qed

text \<open>
  With the shifting cipher a store that hands out two ids and is then flushed, mounted and unlocked hands
  out the second of the two again.
\<close>

theorem unlock_repeats_object_id_witness:
  "\<exists>wk nk s0 oids s snapshot locked s2 s3 oid.
     s0 = object_store_new (Some 1) 5 512 (Some (example_info wk 0)) None (SUnlocked example_crypt)
            \<lparr>lid_id = 2 ^ 32, lid_cipher = Some (ff1_new shift_cipher)\<rparr> \<and>
     run_ids (\<lambda>_. shift_cipher) [NextId nk, NextId nk] s0 = Inr (oids, s) \<and>
     flush_snapshot s = Inr snapshot \<and>
     store_on_replay_complete (Some (flush_new_info [] snapshot)) []
       (object_store_new (Some 1) 5 512 None None SUnknown last_object_id_default) = Inr locked \<and>
     unlock_inner 0 (\<lambda>_. shift_cipher) (\<lambda>_ _. 0) (\<lambda>_ _. None) nk [] [] False example_crypt locked = Inr (Inr (), s2) \<and>
     get_next_object_id (\<lambda>_. shift_cipher) nk s2 = Inr (oid, s3) \<and> oid \<in> set oids"
proof -
  define wk where "wk = \<lparr>wrapping_key_id = 0, wrapped_key_bytes = []\<rparr>"
  define nk :: "wrapped_key \<times> unwrapped_key" where "nk = (wk, [])"
  define s0 where "s0 = object_store_new (Some 1) 5 512 (Some (example_info wk 0)) None (SUnlocked example_crypt)
    \<lparr>lid_id = 2 ^ 32, lid_cipher = Some (ff1_new shift_cipher)\<rparr>"
  have used: "os_last_object_id s0 = \<lparr>lid_id = 1 * 2 ^ 32, lid_cipher = Some (ff1_new shift_cipher)\<rparr>"
    by (simp add: s0_def object_store_new_def)
  have ops: "replicate 2 (NextId nk) = [NextId nk, NextId nk]" by (simp add: numeral_2_eq_2)
  obtain oids s where run: "run_ids (\<lambda>_. shift_cipher) (replicate 2 (NextId nk)) s0 = Inr (oids, s)"
    "s = s0\<lparr>os_last_object_id := os_last_object_id s\<rparr>"
    using run_ids_in_cipher [of s0 1 0 "ff1_new shift_cipher" 2 "\<lambda>_. shift_cipher" nk] used by (simp add: u64_max_def)
  have s: "os_store_info s = Info (example_info wk 0)" "os_parent s = Some 1" "os_store_object_id s = 5"
    "os_block_size s = 512" "os_mutations_cipher s = None"
    by (subst run(2), simp add: s0_def object_store_new_def)+
  have "\<exists>snapshot locked s2 s3 oid. flush_snapshot s = Inr snapshot \<and>
     store_on_replay_complete (Some (flush_new_info [] snapshot)) []
       (object_store_new (Some 1) 5 512 None None SUnknown last_object_id_default) = Inr locked \<and>
     unlock_inner 0 (\<lambda>_. shift_cipher) (\<lambda>_ _. 0) (\<lambda>_ _. None) nk [] [] False example_crypt locked = Inr (Inr (), s2) \<and>
     get_next_object_id (\<lambda>_. shift_cipher) nk s2 = Inr (oid, s3) \<and> oid \<in> set oids"
    using unlock_repeats_object_id [OF used _ _ _ run(1) refl s(1), where mk = wk and idk = wk and mkey = "[]"
        and cr = example_crypt and k = "[]" and layer_ids = "[]" and layers = "[]" and fuel = 0 and chacha = "\<lambda>_ _. 0"
        and deser = "\<lambda>_ _. None" and read_only = False] s shift_cipher_ids
    by (simp add: example_info_def store_info_default_def example_crypt_def u64_max_def)
  then show ?thesis using run(1) s0_def unfolding ops by blast
qed

end
