(* ===== verification/Object_Manager.thy ===== *)
theory Object_Manager
  imports Allocator Object_Store
begin

text \<open>
  The object manager (\<^verbatim>\<open>src/src/object_store/object_manager.rs\<close>): it routes mutations to the stores and
  the allocator, records from which journal offset each object still needs the journal, and keeps the
  metadata reservation in step with what flushing would need.

  Hash maps are lists in the order of their keys. A transaction's reservation is a reference in the
  source, which may refer to the metadata reservation itself; here a flag \<open>shared\<close> says so, and then the
  manager's copy is the one that counts. The objects associated with mutations are given by a function
  from their numbers; only reservation updates change the manager. Volumes are listed through a
  directory, whose contents are a parameter.
\<close>

section \<open>State\<close>

definition reserved_space_from_journal_usage :: "nat \<Rightarrow> nat res" where
  "reserved_space_from_journal_usage journal_usage = u64_mul journal_usage 4"

definition reserved_space :: nat where
  "reserved_space = 1048576"

datatype checkpoints = Current checkpoint | Old checkpoint | Both checkpoint checkpoint

fun earliest :: "checkpoints \<Rightarrow> checkpoint" where
  "earliest (Old x) = x"
| "earliest (Both x _) = x"
| "earliest (Current x) = x"

record object_manager =
  om_stores :: "(nat, object_store) btree_map"
  root_parent_store_object_id :: nat
  root_store_object_id :: nat
  allocator_object_id :: nat
  om_allocator :: "simple_allocator option"
  journal_checkpoints :: "(nat, checkpoints) btree_map"
  om_reservations :: "(nat, nat) btree_map"
  last_end_offset :: nat
  borrowed_metadata_space :: nat
  om_metadata_reservation :: "reservation option"

definition earliest_offsets :: "object_manager \<Rightarrow> nat list" where
  "earliest_offsets self = map (\<lambda>e. file_offset (earliest (snd e))) (journal_checkpoints self)"

definition required_reservation :: "object_manager \<Rightarrow> nat res" where
  "required_reservation self =
     bind_res (if journal_checkpoints self = [] then Inr 0
               else bind_res (u64_sub (last_end_offset self) (Min (set (earliest_offsets self))))
                      reserved_space_from_journal_usage) (\<lambda>usage.
     bind_res (u64_add (if om_reservations self = [] then 0 else Max (set (map snd (om_reservations self)))) usage) (\<lambda>n.
       u64_add n reserved_space))"

definition object_manager_new :: object_manager where
  "object_manager_new =
     \<lparr>om_stores = [], root_parent_store_object_id = 0, root_store_object_id = 0, allocator_object_id = 0,
      om_allocator = None, journal_checkpoints = [], om_reservations = [], last_end_offset = 0,
      borrowed_metadata_space = 0, om_metadata_reservation = None\<rparr>"

section \<open>Stores\<close>

definition set_root_parent_store :: "object_store \<Rightarrow> object_manager \<Rightarrow> object_manager" where
  "set_root_parent_store store self =
     self\<lparr>om_stores := bt_insert (os_store_object_id store) store (om_stores self),
          root_parent_store_object_id := os_store_object_id store\<rparr>"

definition set_root_store :: "object_store \<Rightarrow> object_manager \<Rightarrow> object_manager" where
  "set_root_store store self =
     self\<lparr>om_stores := bt_insert (os_store_object_id store) store (om_stores self),
          root_store_object_id := os_store_object_id store\<rparr>"

definition om_is_system_store :: "nat \<Rightarrow> object_manager \<Rightarrow> bool" where
  "om_is_system_store store_id self =
     (store_id = root_store_object_id self \<or> store_id = root_parent_store_object_id self)"

definition lazy_open_store :: "nat \<Rightarrow> object_manager \<Rightarrow> (object_store \<times> object_manager) res" where
  "lazy_open_store oid self =
     bind_res (ensure (oid \<noteq> allocator_object_id self) Panic) (\<lambda>_.
     case bt_get (om_stores self) (root_store_object_id self) of
       None \<Rightarrow> Inl Panic
     | Some root_store \<Rightarrow>
         (case bt_get (om_stores self) oid of
            Some store \<Rightarrow> Inr (store, self)
          | None \<Rightarrow>
              bind_res (ensure (oid \<noteq> root_parent_store_object_id self) Panic) (\<lambda>_.
              bind_res (ensure (oid \<noteq> os_store_object_id root_store) Panic) (\<lambda>_.
              let store = object_store_new (Some (os_store_object_id root_store)) oid (os_block_size root_store)
                            None None SUnknown last_object_id_default
              in Inr (store, self\<lparr>om_stores := bt_insert oid store (om_stores self)\<rparr>)))))"

definition add_store :: "object_store \<Rightarrow> object_manager \<Rightarrow> object_manager res" where
  "add_store store self =
     bind_res (ensure (os_store_object_id store \<noteq> root_parent_store_object_id self) Panic) (\<lambda>_.
     bind_res (ensure (os_store_object_id store \<noteq> root_store_object_id self) Panic) (\<lambda>_.
     bind_res (ensure (os_store_object_id store \<noteq> allocator_object_id self) Panic) (\<lambda>_.
       Inr (self\<lparr>om_stores := bt_insert (os_store_object_id store) store (om_stores self)\<rparr>))))"

definition forget_store :: "nat \<Rightarrow> object_manager \<Rightarrow> object_manager res" where
  "forget_store oid self =
     bind_res (ensure (oid \<noteq> allocator_object_id self) Panic) (\<lambda>_.
       Inr (self\<lparr>om_stores := bt_remove oid (om_stores self), om_reservations := bt_remove oid (om_reservations self)\<rparr>))"

definition set_allocator :: "simple_allocator \<Rightarrow> object_manager \<Rightarrow> object_manager res" where
  "set_allocator a self =
     bind_res (ensure (bt_get (om_stores self) (alloc_object_id a) = None) Panic) (\<lambda>_.
       Inr (self\<lparr>allocator_object_id := alloc_object_id a, om_allocator := Some a\<rparr>))"

definition update_reservation :: "nat \<Rightarrow> nat \<Rightarrow> object_manager \<Rightarrow> object_manager" where
  "update_reservation oid amount self = self\<lparr>om_reservations := bt_insert oid amount (om_reservations self)\<rparr>"

section \<open>Applying mutations\<close>

text \<open>What a mutation does to the record of the object's dependency on the journal.\<close>

definition note_mutation :: "nat \<Rightarrow> mutation \<Rightarrow> checkpoint \<Rightarrow> object_manager \<Rightarrow> object_manager" where
  "note_mutation oid m cp self =
     (case m of
        BeginFlush \<Rightarrow>
          (case bt_get (journal_checkpoints self) oid of
             Some (Current x) \<Rightarrow> self\<lparr>journal_checkpoints := bt_insert oid (Old x) (journal_checkpoints self)\<rparr>
           | Some (Both x _) \<Rightarrow> self\<lparr>journal_checkpoints := bt_insert oid (Old x) (journal_checkpoints self)\<rparr>
           | _ \<Rightarrow> self)
      | EndFlush \<Rightarrow>
          (case bt_get (journal_checkpoints self) oid of
             Some (Old _) \<Rightarrow> self\<lparr>journal_checkpoints := bt_remove oid (journal_checkpoints self)\<rparr>
           | Some (Both _ x) \<Rightarrow> self\<lparr>journal_checkpoints := bt_insert oid (Current x) (journal_checkpoints self)\<rparr>
           | _ \<Rightarrow> self)
      | DeleteVolume \<Rightarrow>
          self\<lparr>om_stores := bt_remove oid (om_stores self), om_reservations := bt_remove oid (om_reservations self),
               journal_checkpoints := bt_remove oid (journal_checkpoints self)\<rparr>
      | _ \<Rightarrow>
          if oid = root_parent_store_object_id self then self
          else (case bt_get (journal_checkpoints self) oid of
                  None \<Rightarrow> self\<lparr>journal_checkpoints := bt_insert oid (Current cp) (journal_checkpoints self)\<rparr>
                | Some (Old x) \<Rightarrow> self\<lparr>journal_checkpoints := bt_insert oid (Both x cp) (journal_checkpoints self)\<rparr>
                | Some _ \<Rightarrow> self))"

datatype assoc_object = ReservationUpdate nat | OtherObject

definition will_apply_mutation :: "assoc_object option \<Rightarrow> nat \<Rightarrow> object_manager \<Rightarrow> object_manager" where
  "will_apply_mutation ao oid self =
     (case ao of Some (ReservationUpdate amount) \<Rightarrow> update_reservation oid amount self | _ \<Rightarrow> self)"

definition om_apply_mutation ::
  "nat \<Rightarrow> nat \<Rightarrow> mutation \<Rightarrow> checkpoint \<Rightarrow> apply_mode \<Rightarrow> assoc_object option \<Rightarrow> object_manager \<Rightarrow>
   (object_manager \<times> apply_mode) res" where
  "om_apply_mutation fuel oid m cp mode ao self =
     (let self = note_mutation oid m cp self in
      if m = DeleteVolume then Inr (self, mode)
      else if oid = allocator_object_id self
      then (case om_allocator self of
              None \<Rightarrow> Inl Panic
            | Some a \<Rightarrow>
                let self = will_apply_mutation ao oid self in
                bind_res (apply_mutation fuel (file_offset cp) m mode a) (\<lambda>(a, mode).
                  Inr (self\<lparr>om_allocator := Some a\<rparr>, mode)))
      else
        bind_res (case bt_get (om_stores self) oid of
                    Some store \<Rightarrow> Inr (store, self)
                  | None \<Rightarrow> bind_res (ensure (\<not> is_live mode) Panic) (\<lambda>_. lazy_open_store oid self)) (\<lambda>(store, self).
        let self = will_apply_mutation ao oid self in
        bind_res (store_apply_mutation fuel cp m mode store) (\<lambda>store.
          Inr (self\<lparr>om_stores := bt_insert oid store (om_stores self)\<rparr>, mode))))"

section \<open>Replaying\<close>

fun replay_each ::
  "nat \<Rightarrow> (nat \<times> mutation) list \<Rightarrow> checkpoint \<Rightarrow> nat option \<Rightarrow> object_manager \<Rightarrow> object_manager res" where
  "replay_each fuel [] cp txn_size self = Inr self"
| "replay_each fuel ((oid, m) # ms) cp txn_size self =
     bind_res
       (case m of
          UpdateBorrowed borrowed \<Rightarrow>
            (case txn_size of
               None \<Rightarrow> Inr self
             | Some n \<Rightarrow>
                 bind_res (reserved_space_from_journal_usage n) (\<lambda>space.
                   case checked_add borrowed space of
                     None \<Rightarrow> Inl (Fxfs Inconsistent)
                   | Some b \<Rightarrow> Inr (self\<lparr>borrowed_metadata_space := b\<rparr>)))
        | _ \<Rightarrow> bind_res (om_apply_mutation fuel oid m cp Replay None self) (\<lambda>(self, _). Inr self))
       (replay_each fuel ms cp txn_size)"

definition replay_mutations ::
  "nat \<Rightarrow> (nat \<times> mutation) list \<Rightarrow> checkpoint \<Rightarrow> nat \<Rightarrow> object_manager \<Rightarrow> object_manager res" where
  "replay_mutations fuel ms cp end_offset self =
     (if end_offset > last_end_offset self
      then replay_each fuel ms cp (Some (end_offset - last_end_offset self)) (self\<lparr>last_end_offset := end_offset\<rparr>)
      else replay_each fuel ms cp None self)"

section \<open>Committing\<close>

text \<open>The reservation that the transaction's mutations act on, and putting it back.\<close>

definition live_reservation :: "bool \<Rightarrow> transaction \<Rightarrow> object_manager \<Rightarrow> reservation option" where
  "live_reservation shared txn self = (if shared then om_metadata_reservation self else txn_reservation txn)"

definition put_reservation ::
  "bool \<Rightarrow> reservation option \<Rightarrow> transaction \<Rightarrow> object_manager \<Rightarrow> transaction \<times> object_manager" where
  "put_reservation shared r txn self =
     (if shared then (txn, self\<lparr>om_metadata_reservation := r\<rparr>) else (txn\<lparr>txn_reservation := r\<rparr>, self))"

fun apply_each ::
  "nat \<Rightarrow> (nat \<Rightarrow> assoc_object) \<Rightarrow> txn_mutation list \<Rightarrow> checkpoint \<Rightarrow> reservation option \<Rightarrow> object_manager \<Rightarrow>
   (object_manager \<times> reservation option) res" where
  "apply_each fuel assoc [] cp r self = Inr (self, r)"
| "apply_each fuel assoc (t # ts) cp r self =
     bind_res (om_apply_mutation fuel (tm_object_id t) (tm_mutation t) cp (Live r)
                (map_option assoc (tm_associated_object t)) self) (\<lambda>(self, mode).
     apply_each fuel assoc ts cp (case mode of Live r \<Rightarrow> r | Replay \<Rightarrow> None) self)"

definition apply_transaction ::
  "nat \<Rightarrow> (nat \<Rightarrow> assoc_object) \<Rightarrow> bool \<Rightarrow> checkpoint \<Rightarrow> object_manager \<Rightarrow> transaction \<Rightarrow>
   (mutation option \<times> object_manager \<times> transaction) res" where
  "apply_transaction fuel assoc shared cp self txn =
     (case om_metadata_reservation self of
        None \<Rightarrow> Inl Panic
      | Some r \<Rightarrow>
          bind_res (required_reservation self) (\<lambda>old_required.
          let old_amount = res_amount r in
          bind_res (apply_each fuel assoc (mutations txn) cp (live_reservation shared txn self) self) (\<lambda>(self, r').
          let (txn, self) = put_reservation shared r' (txn\<lparr>mutations := []\<rparr>) self in
          case om_metadata_reservation self of
            None \<Rightarrow> Inl Panic
          | Some r \<Rightarrow>
              bind_res (required_reservation self) (\<lambda>new_required.
              if metadata_reservation txn = Borrowed
              then
                bind_res (u64_add old_amount new_required) (\<lambda>add.
                bind_res (u64_add (res_amount r) old_required) (\<lambda>sub.
                bind_res (if add \<ge> sub then u64_add (borrowed_metadata_space self) (add - sub)
                          else Inr (borrowed_metadata_space self - (sub - add))) (\<lambda>b.
                  Inr (Some (UpdateBorrowed b), self\<lparr>borrowed_metadata_space := b\<rparr>, txn))))
              else
                bind_res (ensure (res_amount r = old_amount) Panic) (\<lambda>_.
                bind_res (ensure (new_required = old_required) Panic) (\<lambda>_.
                  Inr (None, self, txn)))))))"

text \<open>The amount given back goes to the allocator, which owns the metadata reservation.\<close>

definition give_back_metadata :: "nat \<Rightarrow> object_manager \<Rightarrow> object_manager res" where
  "give_back_metadata amount self =
     (case (om_metadata_reservation self, om_allocator self) of
        (Some r, Some a) \<Rightarrow>
          bind_res (res_give_back amount r) (\<lambda>((owner, n), r).
          bind_res (alloc_release_reservation owner n a) (\<lambda>a.
            Inr (self\<lparr>om_metadata_reservation := Some r, om_allocator := Some a\<rparr>)))
      | _ \<Rightarrow> Inl Panic)"

text \<open>The part of \<^verbatim>\<open>did_commit_transaction\<close> that pays for the space \<open>txn_space\<close>, by the kind of the transaction.\<close>

definition settle_metadata ::
  "bool \<Rightarrow> nat \<Rightarrow> reservation \<Rightarrow> object_manager \<Rightarrow> transaction \<Rightarrow> (object_manager \<times> transaction) res" where
  "settle_metadata shared txn_space r self txn =
     (case metadata_reservation txn of
        Borrowed \<Rightarrow>
          bind_res (u64_add (borrowed_metadata_space self) txn_space) (\<lambda>b.
          let self = self\<lparr>borrowed_metadata_space := b\<rparr> in
          bind_res (u64_add (res_amount r) b) (\<lambda>have.
          bind_res (required_reservation self) (\<lambda>required.
          bind_res (if have - required > 0 then give_back_metadata (have - required) self else Inr self) (\<lambda>self.
            Inr (self, txn)))))
      | MetadataHold hold \<Rightarrow>
          (case (txn_reservation txn, om_allocator self) of
             (Some tr, Some a) \<Rightarrow>
               bind_res (ensure (\<not> shared) Panic) (\<lambda>_.
               bind_res (res_commit txn_space tr) (\<lambda>tr.
               bind_res (if res_owner_object_id tr \<noteq> res_owner_object_id r
                         then bind_res (ensure (res_owner_object_id r = None) Panic) (\<lambda>_.
                                disown_reservation (res_owner_object_id tr) txn_space a)
                         else Inr a) (\<lambda>a.
               bind_res (u64_sub hold txn_space) (\<lambda>hold.
               bind_res (res_add txn_space r) (\<lambda>r.
                 Inr (self\<lparr>om_metadata_reservation := Some r, om_allocator := Some a\<rparr>,
                      txn\<lparr>txn_reservation := Some tr, metadata_reservation := MetadataHold hold\<rparr>))))))
           | _ \<Rightarrow> Inl Panic)
      | MetadataReservation tr \<Rightarrow>
          bind_res (res_move_to r txn_space tr) (\<lambda>(tr, r).
            Inr (self\<lparr>om_metadata_reservation := Some r\<rparr>,
                 txn\<lparr>metadata_reservation := MetadataReservation tr\<rparr>)))"

definition did_commit_transaction ::
  "bool \<Rightarrow> nat \<Rightarrow> object_manager \<Rightarrow> transaction \<Rightarrow> (object_manager \<times> transaction) res" where
  "did_commit_transaction shared end_offset self txn =
     bind_res (u64_sub end_offset (last_end_offset self)) (\<lambda>journal_usage.
     let self = self\<lparr>last_end_offset := end_offset\<rparr> in
     bind_res (reserved_space_from_journal_usage journal_usage) (\<lambda>txn_space.
     case om_metadata_reservation self of
       None \<Rightarrow> Inl Panic
     | Some r \<Rightarrow>
         bind_res (settle_metadata shared txn_space r self txn) (\<lambda>(self, txn).
         case om_metadata_reservation self of
           None \<Rightarrow> Inl Panic
         | Some r \<Rightarrow>
             bind_res (u64_add (res_amount r) (borrowed_metadata_space self)) (\<lambda>have.
             bind_res (required_reservation self) (\<lambda>required.
             bind_res (ensure (have = required) Panic) (\<lambda>_. Inr (self, txn)))))))"

text \<open>\<^verbatim>\<open>drop_transaction\<close> rolls back what is left in the transaction; only the allocator has anything to undo.\<close>

fun drop_each ::
  "txn_mutation list \<Rightarrow> reservation option \<Rightarrow> object_manager \<Rightarrow> (object_manager \<times> reservation option) res" where
  "drop_each [] r self = Inr (self, r)"
| "drop_each (t # ts) r self =
     bind_res
       (if tm_object_id t = allocator_object_id self
        then (case om_allocator self of
                None \<Rightarrow> Inl Panic
              | Some a \<Rightarrow>
                  bind_res (drop_mutation (tm_mutation t) r a) (\<lambda>(a, r). Inr (self\<lparr>om_allocator := Some a\<rparr>, r)))
        else Inr (self, r)) (\<lambda>(self, r). drop_each ts r self)"

definition om_drop_transaction :: "bool \<Rightarrow> object_manager \<Rightarrow> transaction \<Rightarrow> (object_manager \<times> transaction) res" where
  "om_drop_transaction shared self txn =
     bind_res (drop_each (mutations txn) (live_reservation shared txn self) self) (\<lambda>(self, r).
       let (txn, self) = put_reservation shared r (txn\<lparr>mutations := []\<rparr>) self in Inr (self, txn))"

section \<open>The journal's view\<close>

fun min_checkpoint :: "checkpoint option \<Rightarrow> (nat \<times> checkpoints) list \<Rightarrow> checkpoint option" where
  "min_checkpoint m [] = m"
| "min_checkpoint m ((oid, c) # cs) =
     min_checkpoint
       (case m of
          None \<Rightarrow> Some (earliest c)
        | Some x \<Rightarrow> if file_offset (earliest c) < file_offset x then Some (earliest c) else Some x) cs"

definition journal_file_offsets :: "object_manager \<Rightarrow> (nat, nat) btree_map \<times> checkpoint option" where
  "journal_file_offsets self =
     (map (\<lambda>(oid, c). (oid, file_offset (earliest c))) (journal_checkpoints self),
      min_checkpoint None (journal_checkpoints self))"

definition needs_flush :: "nat \<Rightarrow> object_manager \<Rightarrow> bool" where
  "needs_flush oid self = (bt_get (journal_checkpoints self) oid \<noteq> None)"

text \<open>\<^verbatim>\<open>flush\<close> flushes the objects in descending order of their ids, so the root store comes last.\<close>

definition flush_order :: "object_manager \<Rightarrow> nat list" where
  "flush_order self = rev (sort (map fst (journal_checkpoints self)))"

definition om_write_mutation ::
  "(mutation \<Rightarrow> u8 list) \<Rightarrow> nat \<Rightarrow> mutation \<Rightarrow> object_manager \<Rightarrow> (mutation list \<times> object_manager) res" where
  "om_write_mutation ser oid m self =
     (if oid = allocator_object_id self
      then (case om_allocator self of None \<Rightarrow> Inl Panic | Some _ \<Rightarrow> Inr ([m], self))
      else case bt_get (om_stores self) oid of
        None \<Rightarrow> Inl Panic
      | Some store \<Rightarrow>
          bind_res (store_write_mutation ser m store) (\<lambda>(ms, store).
            Inr (ms, self\<lparr>om_stores := bt_insert oid store (om_stores self)\<rparr>)))"

definition unlocked_stores :: "object_manager \<Rightarrow> object_store list" where
  "unlocked_stores self = filter (\<lambda>s. \<not> is_locked s) (map snd (om_stores self))"

section \<open>After replay\<close>

definition init_metadata_reservation :: "object_manager \<Rightarrow> object_manager res" where
  "init_metadata_reservation self =
     bind_res (required_reservation self) (\<lambda>required.
     bind_res (ensure (required \<ge> borrowed_metadata_space self) (Fxfs Inconsistent)) (\<lambda>_.
     case om_allocator self of
       None \<Rightarrow> Inl Panic
     | Some a \<Rightarrow>
         bind_res (alloc_reserve None (required - borrowed_metadata_space self) a) (\<lambda>(r, a).
           case r of
             None \<Rightarrow> Inl Bail
           | Some r \<Rightarrow>
               bind_res (ensure (om_metadata_reservation self = None) Panic) (\<lambda>_.
                 Inr (self\<lparr>om_metadata_reservation := Some r, om_allocator := Some a\<rparr>)))))"

fun complete_stores ::
  "(nat \<Rightarrow> store_info option) \<Rightarrow> (nat \<Rightarrow> (object_key, encryption_keys object_value) item list list) \<Rightarrow> nat list \<Rightarrow>
   object_manager \<Rightarrow> object_manager res" where
  "complete_stores file_info layers [] self = Inr self"
| "complete_stores file_info layers (oid # oids) self =
     bind_res (lazy_open_store oid self) (\<lambda>(store, self).
     bind_res (store_on_replay_complete (file_info oid) (layers oid) store) (\<lambda>store.
       complete_stores file_info layers oids (self\<lparr>om_stores := bt_insert oid store (om_stores self)\<rparr>)))"

definition om_on_replay_complete ::
  "(nat \<Rightarrow> store_info option) \<Rightarrow> (nat \<Rightarrow> (object_key, encryption_keys object_value) item list list) \<Rightarrow> nat list \<Rightarrow>
   object_manager \<Rightarrow> object_manager res" where
  "om_on_replay_complete file_info layers volumes self =
     bind_res (complete_stores file_info layers volumes self) (\<lambda>self.
     bind_res (ensure (\<not> (\<exists>e \<in> set (om_stores self). is_unknown (snd e))) (Fxfs Inconsistent)) (\<lambda>_.
       init_metadata_reservation self))"

end
