(* ===== verification/Lsm_Seek.thy ===== *)
theory Lsm_Seek
  imports Lsm_Tree_Correct
begin

text \<open>
  Correctness of a seek in the merger of \<^verbatim>\<open>src/src/lsm_tree/merge.rs\<close>. A seek does not push all the
  layers: it pushes them one by one, from the newest, until the lowest item reaches the key it looks for,
  and while it advances it pushes more only when the next item would leave a gap behind the
  current one. The locale \<open>seek_laws\<close> states what this needs of the keys (\<open>pos\<close> is the point that a search
  key asks for); inside it the items that a seek
  yields are shown to have, from the key on, the meaning of the whole stack of layers.
\<close>

section \<open>Points of bounds\<close>

definition bound_at :: "'k key_ops \<Rightarrow> ('k, 'v, 'p::linorder, 'w) msem \<Rightarrow> 'k bound \<Rightarrow> 'p \<Rightarrow> bool" where
  "bound_at ops S bnd b \<longleftrightarrow> (\<forall>x. ok S x \<longrightarrow> outside_bound ops bnd (key x) = (hi S (key x) \<le> b))"

definition next_at :: "'k key_ops \<Rightarrow> ('k, 'v, 'p::linorder, 'w) msem \<Rightarrow> 'k option \<Rightarrow> 'p \<Rightarrow> bool" where
  "next_at ops S nk b \<longleftrightarrow>
     (\<forall>k x. nk = Some k \<longrightarrow> ok S x \<longrightarrow> cmp_lower_bound ops (key x) k \<noteq> Greater \<longrightarrow> lo S (key x) \<le> b)"

text \<open>The items from a point on: each says what the stack of layers says up to its end.\<close>

fun iterates :: "('k, 'v, 'p::linorder, 'w) msem \<Rightarrow> ('k, 'v) item list list \<Rightarrow> 'p \<Rightarrow> ('k, 'v) item list \<Rightarrow> bool" where
  "iterates S L b [] = (\<forall>p \<ge> b. layers_at S L p = None)"
| "iterates S L b (e # es) =
     (ok S e \<and> b < hi S (key e) \<and> (\<forall>p. b \<le> p \<and> p < hi S (key e) \<longrightarrow> layers_at S L p = item_at S e p) \<and>
      iterates S L (hi S (key e)) es)"

lemma iterates_his:
  assumes "iterates S L b es" "e \<in> set es"
  shows "b < hi S (key e) \<and> ok S e"
  using assms by (induction es arbitrary: b) fastforce+

lemma iterates_sorted: "iterates S L b es \<Longrightarrow> sorted_wrt (\<lambda>i j. hi S (key i) < hi S (key j)) es"
proof (induction es arbitrary: b)
  case (Cons e es)
  then show ?case using iterates_his [of S L "hi S (key e)" es] by auto
qed simp

text \<open>The layers from the \<open>j\<close>-th on are pending; the others are in the stack \<open>F\<close>.\<close>

definition pending_from :: "('k, 'v) item list list \<Rightarrow> nat \<Rightarrow> ('k, 'v) mli list" where
  "pending_from L j = rev (map (\<lambda>(k, l). mli_new k l) (drop j (enumerate 0 L)))"

definition pending_weight :: "('k, 'v, 'p, 'w) msem \<Rightarrow> ('k, 'v) item list list \<Rightarrow> nat \<Rightarrow> nat" where
  "pending_weight S L j = sum_list (map (layer_weight S) (drop j L))"

definition covers ::
  "('k, 'v, 'p::linorder, 'w) msem \<Rightarrow> (nat \<Rightarrow> ('k, 'v) item list) \<Rightarrow> nat \<Rightarrow> ('k, 'v) item list list \<Rightarrow> 'p \<Rightarrow> bool" where
  "covers S F j L b \<longleftrightarrow>
     (\<forall>p w. b \<le> p \<longrightarrow>
        (layers_at S L p = Some w \<longleftrightarrow>
         sees S F p w \<or> (\<forall>w'. \<not> sees S F p w') \<and> layers_at S (drop j L) p = Some w))"

definition with_seeked ::
  "'k key_ops \<Rightarrow> 'k bound \<Rightarrow> ('k, 'v) item list list \<Rightarrow> nat \<Rightarrow> nat \<Rightarrow> (nat \<Rightarrow> ('k, 'v) item list) \<Rightarrow> nat \<Rightarrow> ('k, 'v) item list" where
  "with_seeked ops bnd L j j' F = (\<lambda>k. if j \<le> k \<and> k < j' then layer_seek ops (L ! k) bnd else F k)"

definition pushed_to ::
  "'k key_ops \<Rightarrow> ('k, 'v, 'p::linorder, 'w) msem \<Rightarrow> 'k bound \<Rightarrow> ('k, 'v) item list list \<Rightarrow> nat \<Rightarrow> nat \<Rightarrow> ('k, 'v) mli list \<Rightarrow>
   ('k, 'v) mli list \<Rightarrow> bool" where
  "pushed_to ops S bnd L j j' h h' \<longleftrightarrow>
     j \<le> j' \<and> j' \<le> length L \<and> heap_wf S h' \<and> layer_map h' = with_seeked ops bnd L j j' (layer_map h) \<and>
     heap_weight S h' + pending_weight S L j' \<le> heap_weight S h + pending_weight S L j \<and> (j' = j \<longrightarrow> h' = h)"

lemma with_seeked_self [simp]: "with_seeked ops bnd L j j F = F"
  by (auto simp: with_seeked_def fun_eq_iff)

text \<open>The next item from the point \<open>b\<close> on, and what a run of \<^verbatim>\<open>advance_impl\<close> leaves behind.\<close>

definition stepped ::
  "('k, 'v, 'p::linorder, 'w) msem \<Rightarrow> 'p \<Rightarrow> (nat \<Rightarrow> ('k, 'v) item list) \<Rightarrow> ('k, 'v) item \<Rightarrow> (nat \<Rightarrow> ('k, 'v) item list) \<Rightarrow> bool" where
  "stepped S b F e G \<longleftrightarrow>
     ok S e \<and> b < hi S (key e) \<and> bounded_below S G (hi S (key e)) \<and> ((\<exists>w. sees S F b w) \<longrightarrow> lo S (key e) \<le> b) \<and>
     (\<forall>p w. item_at S e p = Some w \<longrightarrow> sees S F p w) \<and>
     (\<forall>p w. b \<le> p \<longrightarrow> (sees S F p w \<longleftrightarrow> item_at S e p = Some w \<or> item_at S e p = None \<and> sees S G p w))"

text \<open>Where an item was emitted on its own, something of the heap follows it directly.\<close>

definition followed :: "('k, 'v, 'p::linorder, 'w) msem \<Rightarrow> ('k, 'v) merger_iterator \<Rightarrow> bool" where
  "followed S st \<longleftrightarrow> (\<forall>z. current st = CItem z \<longrightarrow> (\<exists>k. \<exists>x \<in> set (rest_map st k). lo S (key x) = hi S (key z)))"

definition advanced ::
  "('k, 'v, 'p::linorder, 'w) msem \<Rightarrow> 'p \<Rightarrow> ('k, 'v) mli list \<Rightarrow> ('k, 'v) merger_iterator \<Rightarrow> bool" where
  "advanced S b h st \<longleftrightarrow>
     state_wf S st \<and> followed S st \<and> heap_weight S (queued st) \<le> heap_weight S h \<and>
     (\<forall>k. layer_map h k = [] \<longrightarrow> layer_map (queued st) k = []) \<and>
     (if current st = CNone then heap st = [] \<and> (\<forall>p w. b \<le> p \<longrightarrow> \<not> sees S (layer_map h) p w)
      else rest_weight S st < heap_weight S h \<and>
           (\<exists>e. merger_get st = Inr (Some e) \<and> stepped S b (layer_map h) e (rest_map st)))"

text \<open>A heap from which the next item can be taken: with layers pending, it reaches the point \<open>b\<close>.\<close>

definition ready ::
  "('k, 'v, 'p::linorder, 'w) msem \<Rightarrow> ('k, 'v) item list list \<Rightarrow> nat \<Rightarrow> 'p \<Rightarrow> nat \<Rightarrow> ('k, 'v) mli list \<Rightarrow> bool" where
  "ready S L W b j h \<longleftrightarrow>
     j \<le> length L \<and> covers S (layer_map h) j L b \<and>
     (j < length L \<longrightarrow>
        (\<exists>w. sees S (layer_map h) b w) \<and> (\<forall>k \<ge> j. layer_map h k = []) \<and>
        heap_weight S h + pending_weight S L j \<le> W)"

definition lazy_at ::
  "('k, 'v, 'p::linorder, 'w) msem \<Rightarrow> ('k, 'v) item list list \<Rightarrow> nat \<Rightarrow> nat \<Rightarrow> ('k, 'v) merger_iterator \<Rightarrow> ('k, 'v) item \<Rightarrow> bool" where
  "lazy_at S L W j st e \<longleftrightarrow>
     state_wf S st \<and> followed S st \<and> merger_get st = Inr (Some e) \<and> ok S e \<and> pending_iterators st = pending_from L j \<and> j \<le> length L \<and>
     bounded_below S (rest_map st) (hi S (key e)) \<and> covers S (rest_map st) j L (hi S (key e)) \<and>
     (j < length L \<longrightarrow>
        (\<forall>k \<ge> j. layer_map (queued st) k = []) \<and> heap_weight S (queued st) + pending_weight S L j \<le> W)"

definition prepared ::
  "'k key_ops \<Rightarrow> ('k, 'v, 'p::linorder, 'w) msem \<Rightarrow> ('k, 'v) item list list \<Rightarrow> nat \<Rightarrow> nat \<Rightarrow> ('k, 'v) merger_iterator \<Rightarrow> 'p \<Rightarrow>
   ('k, 'v) mli list \<Rightarrow> nat \<Rightarrow> 'k bound \<Rightarrow> bool" where
  "prepared ops S L W j st b h j' bnd \<longleftrightarrow>
     heap_wf S h \<and> ready S L W b j' h \<and> j \<le> j' \<and>
     (bound_at ops S bnd b \<or> bnd = Unbounded \<and> bounded_below S (layer_map h) b) \<and>
     (j' = j \<longrightarrow> heap_weight S h = rest_weight S st) \<and> (j < j' \<longrightarrow> heap_weight S h \<le> W)"

text \<open>Where a heap reaches back into an item that was emitted, it says what the item says.\<close>

definition agrees :: "('k, 'v, 'p::linorder, 'w) msem \<Rightarrow> ('k, 'v) item \<Rightarrow> ('k, 'v) mli list \<Rightarrow> bool" where
  "agrees S e h \<longleftrightarrow>
     (\<forall>p w. lo S (key e) \<le> p \<longrightarrow> p < hi S (key e) \<longrightarrow> sees S (layer_map h) p w \<longrightarrow> item_at S e p = Some w)"

text \<open>The items of an iterator: where one reaches back into the one before it, they agree.\<close>

fun chained :: "('k, 'v, 'p::linorder, 'w) msem \<Rightarrow> ('k, 'v) item list \<Rightarrow> bool" where
  "chained S (e # e' # es) =
     ((\<forall>p w. lo S (key e) \<le> p \<longrightarrow> p < hi S (key e) \<longrightarrow> item_at S e' p = Some w \<longrightarrow> item_at S e p = Some w) \<and> chained S (e' # es))"
| "chained S es = True"

text \<open>Fuel that is enough: each time layers are pushed, as much as the weight of all layers may have to be merged.\<close>

definition seek_fuel :: "('k, 'v, 'p, 'w) msem \<Rightarrow> ('k, 'v) item list list \<Rightarrow> nat" where
  "seek_fuel S L = Suc (length L) * Suc (sum_list (map (layer_weight S) L)) + 1"

lemma no_sees: "(\<forall>w. \<not> sees S F p w) \<longleftrightarrow> (\<forall>k. layer_at S (F k) p = None)"
proof
  assume none: "\<forall>w. \<not> sees S F p w"
  show "\<forall>k. layer_at S (F k) p = None"
  proof (rule ccontr)
    assume "\<not> ?thesis"
    then have ex: "\<exists>k. layer_at S (F k) p \<noteq> None" by blast
    define k where "k = (LEAST k. layer_at S (F k) p \<noteq> None)"
    have "layer_at S (F k) p \<noteq> None" unfolding k_def by (rule LeastI_ex [OF ex])
    then obtain y where "layer_at S (F k) p = Some y" by blast
    moreover have "layer_at S (F k') p = None" if "k' < k" for k'
      using not_less_Least [OF that [unfolded k_def]] by blast
    ultimately have "sees S F p y" unfolding sees_def by blast
    with none show False by blast
  qed
qed (auto simp: sees_def)

lemma sees_unique: "sees S F p w \<Longrightarrow> sees S F p w' \<Longrightarrow> w = w'"
  by (auto simp: sees_def) (metis linorder_neqE_nat option.distinct(1) option.inject)

lemma sees_add:
  assumes "\<forall>k \<ge> j. F k = []"
  shows "sees S (F(j := l)) p w \<longleftrightarrow> sees S F p w \<or> (\<forall>w'. \<not> sees S F p w') \<and> layer_at S l p = Some w"
proof
  assume "sees S (F(j := l)) p w"
  then obtain k where k: "layer_at S ((F(j := l)) k) p = Some w" "\<forall>k' < k. layer_at S ((F(j := l)) k') p = None"
    by (auto simp: sees_def)
  consider "k < j" | "k = j" | "j < k" by linarith
  then show "sees S F p w \<or> (\<forall>w'. \<not> sees S F p w') \<and> layer_at S l p = Some w"
  proof cases
    case 1
    then have "sees S F p w" unfolding sees_def using k by (intro exI [of _ k]) (auto split: if_splits)
    then show ?thesis ..
  next
    case 2
    then have "layer_at S (F k') p = None" for k' using k assms by (cases "k' < j") auto
    with 2 k(1) show ?thesis unfolding no_sees by auto
  next
    case 3
    with k(1) assms show ?thesis by simp
  qed
next
  assume "sees S F p w \<or> (\<forall>w'. \<not> sees S F p w') \<and> layer_at S l p = Some w"
  then show "sees S (F(j := l)) p w"
  proof (elim disjE conjE)
    assume "sees S F p w"
    then obtain k where k: "layer_at S (F k) p = Some w" "\<forall>k' < k. layer_at S (F k') p = None" by (auto simp: sees_def)
    then have "k < j" using assms by (cases "k < j") auto
    with k show ?thesis unfolding sees_def by (intro exI [of _ k]) auto
  next
    assume "\<forall>w'. \<not> sees S F p w'" "layer_at S l p = Some w"
    then show ?thesis unfolding no_sees by (auto simp: sees_def intro!: exI [of _ j])
  qed
qed

lemma sees_cong: "(\<And>k. layer_at S (F k) p = layer_at S (G k) p) \<Longrightarrow> sees S F p w \<longleftrightarrow> sees S G p w"
  by (simp add: sees_def)

lemma layer_at_mem: "x \<in> set l \<Longrightarrow> lo S (key x) \<le> p \<Longrightarrow> p < hi S (key x) \<Longrightarrow> layer_at S l p \<noteq> None"
  by (induction l) (auto simp: item_at_def split: option.splits)

lemma sees_mem: "x \<in> set (F k) \<Longrightarrow> lo S (key x) \<le> p \<Longrightarrow> p < hi S (key x) \<Longrightarrow> \<exists>w. sees S F p w"
  by (metis layer_at_mem no_sees)

lemma layer_at_below:
  assumes "\<forall>x \<in> set l. b \<le> lo S (key x)" "p < b"
  shows "layer_at S l p = None"
  using assms by (induction l) (auto simp: item_at_def)

lemma not_sees_below: "bounded_below S F b \<Longrightarrow> p < b \<Longrightarrow> \<not> sees S F p w"
  using layer_at_below [of _ b S p] by (fastforce simp: sees_def)

lemma pending_from_simps:
  "pending_from L 0 = rev (merger_new L)"
  "j < length L \<Longrightarrow> pending_from L j = pending_from L (Suc j) @ [mli_new j (L ! j)]"
  "pending_from L j = [] \<longleftrightarrow> length L \<le> j"
  "length (pending_from L j) = length L - j"
proof -
  assume "j < length L"
  then have "drop j (enumerate 0 L) = (j, L ! j) # drop (Suc j) (enumerate 0 L)"
    using Cons_nth_drop_Suc [of j "enumerate 0 L"] by (simp add: nth_enumerate_eq)
  then show "pending_from L j = pending_from L (Suc j) @ [mli_new j (L ! j)]" by (simp add: pending_from_def)
qed (simp_all add: pending_from_def merger_new_def)

lemma pending_weight_Suc: "j < length L \<Longrightarrow> pending_weight S L j = layer_weight S (L ! j) + pending_weight S L (Suc j)"
  by (simp add: pending_weight_def Cons_nth_drop_Suc [symmetric])

lemma covers_seeked_one:
  assumes "covers S F j L b" "j < length L" "\<forall>k \<ge> j. F k = []" "\<forall>p \<ge> b. layer_at S l p = layer_at S (L ! j) p"
  shows "covers S (F(j := l)) (Suc j) L b"
proof -
  have "layers_at S (drop j L) p = (case layer_at S (L ! j) p of Some w \<Rightarrow> Some w | None \<Rightarrow> layers_at S (drop (Suc j) L) p)" for p
    using assms(2) by (simp add: Cons_nth_drop_Suc [symmetric])
  moreover have "sees S (F(j := l)) p w \<longleftrightarrow> sees S F p w \<or> (\<forall>w'. \<not> sees S F p w') \<and> layer_at S l p = Some w" for p w
    by (rule sees_add [OF assms(3)])
  ultimately show ?thesis
    using assms(1,4) sees_unique [of S F] unfolding covers_def
    by (intro allI impI) (case_tac "layer_at S (L ! j) p"; simp; blast)
qed


lemma covers_cong:
  assumes "covers S F j L b" "\<And>p k. b \<le> p \<Longrightarrow> layer_at S (F k) p = layer_at S (G k) p"
  shows "covers S G j L b"
proof -
  have "sees S F p w \<longleftrightarrow> sees S G p w" if "b \<le> p" for p w using assms(2) [OF that] by (rule sees_cong)
  then show ?thesis using assms(1) unfolding covers_def by blast
qed

lemma covers_later: "covers S F j L b \<Longrightarrow> b \<le> c \<Longrightarrow> covers S F j L c"
  by (auto simp: covers_def)

lemma item_at_past: "hi S (key e) \<le> p \<Longrightarrow> item_at S e p = None"
  by (auto simp: item_at_def)

lemma rest_map_queued:
  "state_wf S st \<Longrightarrow> layer_map (queued st) k = [] \<Longrightarrow> rest_map st k = []"
  "state_wf S st \<Longrightarrow> heap_wf S (queued st)"
  "rest_weight S st \<le> heap_weight S (queued st)"
proof -
  show "rest_weight S st \<le> heap_weight S (queued st)"
  proof (cases "current st")
    case (CIterator m)
    then show ?thesis by (cases "mli_items m") (auto simp: rest_weight_def queued_def layer_weight_def)
  qed (auto simp: rest_weight_def queued_def)
qed (auto simp: rest_map_def queued_def state_wf_def split: current_item.splits if_splits)

lemma advanced_lift:
  assumes "advanced S b h2 st" "heap_weight S h2 \<le> heap_weight S h" "\<And>k. layer_map h k = [] \<Longrightarrow> layer_map h2 k = []"
    and "\<And>p w. b \<le> p \<Longrightarrow> sees S (layer_map h) p w \<longleftrightarrow> sees S (layer_map h2) p w"
    and "\<And>p w. sees S (layer_map h2) p w \<Longrightarrow> sees S (layer_map h) p w"
  shows "advanced S b h st"
  using assms unfolding advanced_def stepped_def by (auto split: if_splits)

text \<open>The item that is emitted from a ready heap says what the stack of layers says.\<close>

lemma settled:
  assumes "advanced S b h st" "ready S L W b j h" "pending_iterators st = pending_from L j"
  shows "if current st = CNone then \<forall>p \<ge> b. layers_at S L p = None
    else \<exists>e. lazy_at S L W j st e \<and> b < hi S (key e) \<and> rest_weight S st < heap_weight S h \<and>
           (\<forall>p. b \<le> p \<and> p < hi S (key e) \<longrightarrow> layers_at S L p = item_at S e p) \<and>
           (\<forall>p w. item_at S e p = Some w \<longrightarrow> sees S (layer_map h) p w)"
proof (cases "current st = CNone")
  case True
  then have none: "\<not> sees S (layer_map h) p w" if "b \<le> p" for p w using assms(1) that by (auto simp: advanced_def)
  then have "j = length L" using assms(2) by (force simp: ready_def)
  then have "layers_at S L p = None" if "b \<le> p" for p
    using none [OF that] that assms(2) unfolding ready_def covers_def by (metis drop_all layers_at.simps(1) not_None_eq order_refl)
  with True show ?thesis by simp
next
  case False
  then obtain e where e: "merger_get st = Inr (Some e)" "stepped S b (layer_map h) e (rest_map st)" "rest_weight S st < heap_weight S h"
    using assms(1) by (auto simp: advanced_def)
  then have hi: "b < hi S (key e)" "ok S e" "bounded_below S (rest_map st) (hi S (key e))"
    and see: "\<And>p w. b \<le> p \<Longrightarrow> sees S (layer_map h) p w \<longleftrightarrow> item_at S e p = Some w \<or> item_at S e p = None \<and> sees S (rest_map st) p w"
    by (auto simp: stepped_def)
  have cov: "covers S (layer_map h) j L b" using assms(2) by (simp add: ready_def)
  have at: "layers_at S L p = item_at S e p" if p: "b \<le> p" "p < hi S (key e)" for p
  proof (cases "item_at S e p")
    case (Some w)
    then show ?thesis using see [OF p(1), of w] cov p(1) by (auto simp: covers_def)
  next
    case None
    then have "p < lo S (key e)" using p by (auto simp: item_at_def split: if_splits)
    with p(1) e(2) have "\<not> (\<exists>w. sees S (layer_map h) b w)" by (auto simp: stepped_def)
    then have "j = length L" using assms(2) by (force simp: ready_def)
    moreover have "\<not> sees S (layer_map h) p w" for w
      using see [OF p(1)] None not_sees_below [OF hi(3) p(2)] by auto
    ultimately have "layers_at S L p \<noteq> Some w" for w using cov p(1) by (auto simp: covers_def)
    with None show ?thesis by (metis not_None_eq)
  qed
  have "covers S (rest_map st) j L (hi S (key e))"
    unfolding covers_def
  proof (intro allI impI)
    fix p w assume "hi S (key e) \<le> p"
    then have "b \<le> p" "item_at S e p = None" using hi(1) by (auto simp: item_at_def)
    then show "layers_at S L p = Some w \<longleftrightarrow> sees S (rest_map st) p w \<or>
        (\<forall>w'. \<not> sees S (rest_map st) p w') \<and> layers_at S (drop j L) p = Some w"
      using see cov by (auto simp: covers_def)
  qed
  moreover have "(\<forall>k \<ge> j. layer_map (queued st) k = []) \<and> heap_weight S (queued st) + pending_weight S L j \<le> W" if "j < length L"
    using that assms(1,2) by (force simp: advanced_def ready_def)
  ultimately have "lazy_at S L W j st e"
    using assms e(1) hi by (auto simp: lazy_at_def advanced_def ready_def)
  moreover have "\<forall>p w. item_at S e p = Some w \<longrightarrow> sees S (layer_map h) p w" using e(2) by (simp add: stepped_def)
  ultimately show ?thesis using False hi(1) at e(3) by auto
qed

context merge_laws
begin

lemma layer_seek_at:
  assumes "layer_ok S l" "bound_at ops S bnd b"
  shows "layer_ok S (layer_seek ops l bnd)" "\<forall>p \<ge> b. layer_at S (layer_seek ops l bnd) p = layer_at S l p"
    "layer_weight S (layer_seek ops l bnd) \<le> layer_weight S l" "\<forall>x \<in> set (layer_seek ops l bnd). b < hi S (key x)"
proof -
  have "layer_ok S (layer_seek ops l bnd) \<and> (\<forall>p \<ge> b. layer_at S (layer_seek ops l bnd) p = layer_at S l p) \<and>
    layer_weight S (layer_seek ops l bnd) \<le> layer_weight S l \<and> (\<forall>x \<in> set (layer_seek ops l bnd). b < hi S (key x))"
    using assms(1)
  proof (induction l)
    case (Cons x l)
    show ?case
    proof (cases "outside_bound ops bnd (key x)")
      case True
      then have "hi S (key x) \<le> b" using assms(2) Cons.prems by (auto simp: bound_at_def)
      then have "item_at S x p = None" if "b \<le> p" for p using that by (auto simp: item_at_def)
      with True Cons show ?thesis by (auto simp: layer_seek_def layer_weight_def)
    next
      case False
      then have "b < hi S (key x)" using assms(2) Cons.prems by (auto simp: bound_at_def)
      moreover have "b < hi S (key y)" if "y \<in> set l" for y
      proof -
        have "hi S (key x) \<le> lo S (key y)" "ok S y" using that Cons.prems layer_ok_ok by (auto simp: list_all_iff)
        then show ?thesis using \<open>b < hi S (key x)\<close> ok_nonempty [of y] by (meson less_le_trans less_trans)
      qed
      ultimately show ?thesis using False Cons.prems by (auto simp: layer_seek_def)
    qed
  qed (simp add: layer_seek_def)
  then show "layer_ok S (layer_seek ops l bnd)" "\<forall>p \<ge> b. layer_at S (layer_seek ops l bnd) p = layer_at S l p"
    "layer_weight S (layer_seek ops l bnd) \<le> layer_weight S l" "\<forall>x \<in> set (layer_seek ops l bnd). b < hi S (key x)"
    by blast+
qed

lemma needs_more_at:
  assumes "heap_wf S (heap st)" "pending_iterators st = pending_from L j" "next_at ops S nk b"
  obtains r where "needs_more_iterators ops nk st = Inr r" "r \<Longrightarrow> j < length L"
    "\<not> r \<Longrightarrow> length L \<le> j \<or> (\<exists>k x. x \<in> set (layer_map (heap st) k) \<and> lo S (key x) \<le> b)"
proof (cases "length L \<le> j \<or> heap st = [] \<or> nk = None")
  case True
  then show thesis
    using that [of "j < length L"] assms(2) by (auto simp: needs_more_iterators_def pending_from_simps)
next
  case False
  then obtain k where k: "nk = Some k" by auto
  obtain m rest where m: "heap_pop ops (heap st) = Inr (Some (m, rest))" "mset (m # rest) = mset (heap st)" "heap_wf S (m # rest)"
    using heap_pop_least [OF assms(1)] False by metis
  have wf: "mli_wf S m" using m(3) by simp
  have mem: "m \<in> set (heap st)" using m(2) by (metis list.set_intros(1) set_mset_mset)
  have "hd (mli_items m) \<in> set (layer_map (heap st) (layer_index m))"
    using mem wf by (auto simp: in_layer_map mli_wf_def)
  moreover have "ok S (hd (mli_items m))" using mli_wf_hd [OF wf] by simp
  moreover have "needs_more_iterators ops nk st = Inr (cmp_lower_bound ops (key (hd (mli_items m))) k = Greater)"
    using m(1) wf False k assms(2)
    by (simp add: needs_more_iterators_def pending_from_simps heap_peek_def mli_item_hd)
  ultimately show thesis
    using that [of "cmp_lower_bound ops (key (hd (mli_items m))) k = Greater"] False k assms(3)
    by (auto simp: next_at_def)
qed

lemma push_iterators_at:
  assumes "heap_wf S (heap st)" "pending_iterators st = pending_from L j" "j \<le> length L"
    and "\<forall>k \<ge> j. layer_map (heap st) k = []" "\<forall>l \<in> set L. layer_ok S l" "bound_at ops S bnd b" "next_at ops S nk b"
  shows "\<exists>j' h'. push_iterators ops nk bnd st = Inr (st\<lparr>pending_iterators := pending_from L j', heap := h'\<rparr>) \<and>
    pushed_to ops S bnd L j j' (heap st) h' \<and>
    (j' = length L \<or> (\<exists>k x. x \<in> set (layer_map h' k) \<and> lo S (key x) \<le> b)) \<and>
    (needs_more_iterators ops nk st = Inr True \<longrightarrow> j < j')"
  using assms(1-4)
proof (induction "length L - j" arbitrary: j st)
  case 0
  then have "j = length L" by simp
  with 0 show ?case
    by (intro exI [of _ j] exI [of _ "heap st"])
      (auto simp: push_iterators.simps needs_more_iterators_def pending_from_simps pushed_to_def)
next
  case (Suc n)
  obtain r where r: "needs_more_iterators ops nk st = Inr r" "r \<Longrightarrow> j < length L"
    "\<not> r \<Longrightarrow> length L \<le> j \<or> (\<exists>k x. x \<in> set (layer_map (heap st) k) \<and> lo S (key x) \<le> b)"
    using needs_more_at [OF Suc.prems(1,2) assms(7)] by metis
  show ?case
  proof (cases r)
    case False
    with r Suc.prems show ?thesis
      by (intro exI [of _ j] exI [of _ "heap st"])
        (auto simp: push_iterators.simps pushed_to_def)
  next
    case True
    with r(2) have j: "j < length L" by blast
    let ?l = "layer_seek ops (L ! j) bnd"
    have "layer_ok S (L ! j)" using assms(5) j by simp
    note l = layer_seek_at [OF this assms(6)]
    let ?m = "\<lparr>layer = Some (L ! j), iter = RConst ?l, layer_index = j, merge_item = MIter\<rparr>"
    let ?h = "if ?l = [] then heap st else ?m # heap st"
    let ?st = "st\<lparr>pending_iterators := pending_from L (Suc j), heap := ?h\<rparr>"
    have step: "push_iterators ops nk bnd st = push_iterators ops nk bnd ?st"
      using True r(1) Suc.prems(2) j
      by (subst push_iterators.simps)
        (auto simp: pending_from_simps(2) [OF j] mli_new_def set_item_from_iter_def is_some_def heap_push_def iter_get_def
          split: list.splits)
    have jfree: "j \<notin> layer_index ` set (heap st)"
    proof
      assume "j \<in> layer_index ` set (heap st)"
      then obtain m where "m \<in> set (heap st)" "layer_index m = j" by auto
      moreover from this Suc.prems(1) have "mli_items m \<noteq> []" by (auto simp: heap_wf_def mli_wf_def)
      ultimately show False using Suc.prems(1,4) layer_map_mem [of "heap st" m] by (auto simp: heap_wf_def)
    qed
    have items: "mli_items ?m = ?l" by (simp add: mli_items_def)
    have wf: "heap_wf S ?h" using Suc.prems(1) l(1) jfree items by (simp add: mli_wf_def)
    have map: "layer_map ?h = (layer_map (heap st))(j := ?l)"
      using Suc.prems(4) items by (auto simp: fun_eq_iff)
    have weight: "heap_weight S ?h + pending_weight S L (Suc j) \<le> heap_weight S (heap st) + pending_weight S L j"
      using l(3) items pending_weight_Suc [OF j, of S] by simp
    have "\<exists>j' h'. push_iterators ops nk bnd ?st = Inr (?st\<lparr>pending_iterators := pending_from L j', heap := h'\<rparr>) \<and>
        pushed_to ops S bnd L (Suc j) j' (heap ?st) h' \<and>
        (j' = length L \<or> (\<exists>k x. x \<in> set (layer_map h' k) \<and> lo S (key x) \<le> b)) \<and>
        (needs_more_iterators ops nk ?st = Inr True \<longrightarrow> Suc j < j')"
      using Suc.hyps j wf map Suc.prems(4) by (intro Suc.hyps(1)) auto
    then obtain j' h' where IH: "push_iterators ops nk bnd ?st = Inr (?st\<lparr>pending_iterators := pending_from L j', heap := h'\<rparr>)"
      "pushed_to ops S bnd L (Suc j) j' ?h h'"
      "j' = length L \<or> (\<exists>k x. x \<in> set (layer_map h' k) \<and> lo S (key x) \<le> b)" by auto
    have "with_seeked ops bnd L (Suc j) j' (layer_map ?h) = with_seeked ops bnd L j j' (layer_map (heap st))" if "Suc j \<le> j'"
      using that unfolding map by (auto simp: with_seeked_def fun_eq_iff)
    then have "pushed_to ops S bnd L j j' (heap st) h'" "j < j'" using IH(2) weight by (auto simp: pushed_to_def)
    then show ?thesis using IH(1,3) step by (intro exI [of _ j'] exI [of _ h']) simp
  qed
qed


lemma advance_impl_at:
  assumes "heap_wf S (heap st)" "heap_weight S (heap st) < fuel"
    and "bound_at ops S bnd b \<or> bnd = Unbounded \<and> bounded_below S (layer_map (heap st)) b"
  shows "\<exists>st'. advance_impl fuel ops mf bnd st = Inr st' \<and> advanced S b (heap st) st' \<and>
    pending_iterators st' = pending_iterators st"
  using assms
proof (induction fuel arbitrary: st)
  case (Suc fuel)
  obtain fin st1 where st1: "merge_loop (Suc fuel) ops mf st = Inr (fin, st1)" "loop_post S st fin st1"
    using merge_loop_emits [OF Suc.prems(1,2)] by blast
  show ?case
  proof (cases fin)
    case True
    with st1 show ?thesis by (auto simp: loop_post_def advanced_def followed_def state_wf_def queued_def)
  next
    case False
    with st1(2) obtain e where post: "state_wf S st1" "rest_weight S st1 < heap_weight S (heap st)"
      "heap_weight S (queued st1) \<le> heap_weight S (heap st)" "\<And>k. layer_map (heap st) k = [] \<Longrightarrow> layer_map (queued st1) k = []"
      "pending_iterators st1 = pending_iterators st" "followed S st1"
      and e: "merger_get st1 = Inr (Some e)" "emitted S (layer_map (heap st)) e (rest_map st1)"
      by (auto simp: loop_post_def followed_def)
    have ok: "ok S e" using e(2) by (simp add: emitted_def)
    have out: "outside_bound ops bnd (key e) = (hi S (key e) \<le> b)"
    proof (cases "bound_at ops S bnd b")
      case False
      then have "bnd = Unbounded" "b \<le> lo S (key e)" using Suc.prems(3) e(2) by (auto simp: emitted_def)
      with ok_nonempty [OF ok] show ?thesis by (auto simp: outside_bound_def)
    qed (use ok in \<open>auto simp: bound_at_def\<close>)
    have cur: "current st1 \<noteq> CNone" using e(1) by (auto simp: merger_get_def)
    show ?thesis
    proof (cases "hi S (key e) \<le> b")
      case False
      have "lo S (key e) \<le> b" if "sees S (layer_map (heap st)) b w" for w
      proof (rule ccontr)
        assume "\<not> lo S (key e) \<le> b"
        then have "item_at S e b = None" by (simp add: item_at_def)
        with that e(2) have "sees S (rest_map st1) b w" by (auto simp: emitted_def)
        moreover have "bounded_below S (rest_map st1) (hi S (key e))" using e(2) by (simp add: emitted_def)
        ultimately show False using not_sees_below False by (meson not_le)
      qed
      then have "stepped S b (layer_map (heap st)) e (rest_map st1)"
        using e(2) False unfolding stepped_def emitted_def by auto
      then show ?thesis using st1 e(1) out False \<open>\<not> fin\<close> post cur by (auto simp: advanced_def)
    next
      case True
      then have bnd: "bound_at ops S bnd b" using Suc.prems(3) out by (auto simp: outside_bound_def)
      have see: "sees S (layer_map (heap st)) p w \<longleftrightarrow> sees S (rest_map st1) p w" if "b \<le> p" for p w
        using e(2) item_at_past [of S e p] True that unfolding emitted_def by auto
      have less: "sees S (layer_map (heap st)) p w" if "sees S (rest_map st1) p w" for p w
      proof -
        have "bounded_below S (rest_map st1) (hi S (key e))" using e(2) by (simp add: emitted_def)
        then have "hi S (key e) \<le> p" using that not_sees_below by (meson not_le)
        then show ?thesis using that e(2) item_at_past [of S e p] by (auto simp: emitted_def)
      qed
      have blank: "rest_map st1 k = []" if "layer_map (heap st) k = []" for k
        using post(1,4) that rest_map_queued(1) by blast
      obtain h c where h: "heap_wf S h" "layer_map h = rest_map st1" "heap_weight S h = rest_weight S st1"
        "advance_impl (Suc fuel) ops mf bnd st = advance_impl fuel ops mf bnd (st1\<lparr>heap := h, current := c\<rparr>)"
      proof (cases "current st1")
        case (CIterator m)
        obtain m' where "mli_advance m = Inr m'"
          "heap_wf S (if is_some m' then m' # heap st1 else heap st1)"
          "layer_map (if is_some m' then m' # heap st1 else heap st1) = rest_map st1"
          "heap_weight S (if is_some m' then m' # heap st1 else heap st1) = rest_weight S st1"
          using requeue [OF post(1) CIterator] by metis
        then show thesis
          using st1(1) e(1) out True \<open>\<not> fin\<close> CIterator
          by (intro that [of "if is_some m' then m' # heap st1 else heap st1" CNone])
            (auto simp: take_iterator_def heap_push_def merger_iterator_upd)
      next
        case (CItem i)
        then have same: "st1\<lparr>heap := heap st1, current := CItem i\<rparr> = st1" by (cases st1) simp
        have "advance_impl (Suc fuel) ops mf bnd st = advance_impl fuel ops mf bnd st1"
          using st1(1) e(1) out True \<open>\<not> fin\<close> CItem by (simp add: take_iterator_def)
        then show thesis
          using post(1) CItem
          by (intro that [of "heap st1" "CItem i", unfolded same])
            (simp_all add: rest_map_def rest_weight_def state_wf_def)
      qed (use cur in simp)
      obtain st' where st': "advance_impl fuel ops mf bnd (st1\<lparr>heap := h, current := c\<rparr>) = Inr st'"
        "advanced S b h st'" "pending_iterators st' = pending_iterators st1"
        using Suc.IH [of "st1\<lparr>heap := h, current := c\<rparr>"] h post(2) Suc.prems(2) bnd by auto
      have "advanced S b (heap st) st'"
        by (rule advanced_lift [OF st'(2)]) (use h(2,3) post(2) see blank less in auto)
      with st' h(4) post(5) show ?thesis by auto
    qed
  qed
qed simp

lemma covers_seeked:
  assumes "covers S F j L b" "\<forall>k \<ge> j. F k = []" "\<forall>l \<in> set L. layer_ok S l" "bound_at ops S bnd b" "j \<le> j'" "j' \<le> length L"
  shows "covers S (with_seeked ops bnd L j j' F) j' L b"
  using assms(5,6)
proof (induction j' rule: dec_induct)
  case base
  then show ?case using assms(1) by simp
next
  case (step i)
  have "with_seeked ops bnd L j (Suc i) F = (with_seeked ops bnd L j i F)(i := layer_seek ops (L ! i) bnd)"
    using step(1) by (auto simp: with_seeked_def fun_eq_iff)
  moreover have "covers S ((with_seeked ops bnd L j i F)(i := layer_seek ops (L ! i) bnd)) (Suc i) L b"
    using step assms(2-4) layer_seek_at(2) [of "L ! i" bnd b]
    by (intro covers_seeked_one) (auto simp: with_seeked_def)
  ultimately show ?case by (simp only:)
qed

lemma heap_ok: "heap_wf S h \<Longrightarrow> x \<in> set (layer_map h k) \<Longrightarrow> ok S x"
  by (auto simp: in_layer_map heap_wf_def mli_wf_def intro: layer_ok_ok)

lemma rest_map_ok:
  assumes "state_wf S st" "x \<in> set (rest_map st k)"
  shows "ok S x"
proof (cases "current st")
  case (CIterator m)
  have "layer_ok S (mli_items m)" "heap_wf S (heap st)" using assms(1) CIterator by (auto simp: state_wf_def mli_wf_def)
  with CIterator assms(2) show ?thesis
    by (cases "mli_items m") (auto simp: rest_map_def intro: layer_ok_ok heap_ok split: if_splits)
qed (use assms in \<open>auto simp: rest_map_def state_wf_def intro: heap_ok\<close>)

text \<open>A heap that has been pushed to is ready.\<close>

lemma ready_seeked:
  assumes "covers S F j L b" "\<forall>k \<ge> j. F k = []" "\<forall>l \<in> set L. layer_ok S l" "bound_at ops S bnd b" "j \<le> j'" "j' \<le> length L"
    and "\<And>k p. b \<le> p \<Longrightarrow> layer_at S (layer_map h k) p = layer_at S (with_seeked ops bnd L j j' F k) p"
    and "\<forall>k \<ge> j'. layer_map h k = []" "j' < length L \<longrightarrow> (\<exists>w. sees S (layer_map h) b w)"
    and "heap_weight S h + pending_weight S L j' \<le> W"
  shows "ready S L W b j' h"
proof -
  have "covers S (layer_map h) j' L b"
    by (rule covers_cong [OF covers_seeked [OF assms(1-6)]]) (use assms(7) in simp)
  with assms show ?thesis by (simp add: ready_def)
qed

lemma seeked_hi:
  assumes "x \<in> set (with_seeked ops bnd L j j' F k)" "\<forall>x \<in> set (F k). b < hi S (key x)" "\<forall>l \<in> set L. layer_ok S l"
    "bound_at ops S bnd b" "j' \<le> length L"
  shows "b < hi S (key x)"
  using assms layer_seek_at(4) [of "L ! k" bnd b] by (auto simp: with_seeked_def split: if_splits)

end

section \<open>The contract of the keys\<close>

locale seek_laws = merge_laws +
  fixes search and pos
  assumes seek_lower: "search k \<Longrightarrow> ok S x \<Longrightarrow> cmp_lower_bound ops (key x) k \<noteq> Greater \<Longrightarrow> lo S (key x) \<le> pos k"
    and seek_upper: "search k \<Longrightarrow> ok S x \<Longrightarrow> (cmp_upper_bound ops (key x) k = Less) = (hi S (key x) \<le> pos k)"
    and next_upper: "ok S e \<Longrightarrow> ok S x \<Longrightarrow> next_key ops (key e) = Inr None \<Longrightarrow>
          (cmp_upper_bound ops (key x) (key e) \<noteq> Greater) = (hi S (key x) \<le> hi S (key e))"
    and next_key_of: "ok S e \<Longrightarrow> next_key ops (key e) = Inr None \<or>
          (\<exists>k. next_key ops (key e) = Inr (Some k) \<and> search k \<and> pos k = hi S (key e) \<and>
             (\<forall>x. ok S x \<longrightarrow> lo S (key x) \<le> hi S (key e) \<longrightarrow> cmp_lower_bound ops (key x) k \<noteq> Greater))"
    and emit_next: "mf a c = Inr (Other (Some z) opl opr) \<Longrightarrow> next_key ops (key z) \<noteq> Inr None"
begin

text \<open>An item that was emitted on its own is not a single point: there is a key after it.\<close>

lemma merge_loop_next:
  "merge_loop fuel ops mf st = Inr (fin, st') \<Longrightarrow> current st' = CItem z \<Longrightarrow> next_key ops (key z) \<noteq> Inr None"
proof (induction fuel arbitrary: st)
  case (Suc fuel)
  from Suc.prems(1) show ?case
    using Suc.prems(2)
    by (auto simp: bind_res_eq_Inr Let_def split: option.split_asm)
      (auto simp: bind_res_eq_Inr Let_def emit_next split: option.split_asm merge_result.split_asm
        dest: Suc.IH [OF _ Suc.prems(2)])
qed simp

lemma advance_impl_next:
  "advance_impl fuel ops mf bnd st = Inr st' \<Longrightarrow> current st' = CItem z \<Longrightarrow> next_key ops (key z) \<noteq> Inr None"
proof (induction fuel arbitrary: st)
  case (Suc fuel)
  from Suc.prems(1) show ?case
    using Suc.prems(2)
    by (auto simp: bind_res_eq_Inr simp del: merge_loop.simps split: if_split_asm)
      (auto simp: bind_res_eq_Inr simp del: merge_loop.simps split: option.split_asm if_split_asm prod.split_asm
        dest: Suc.IH [OF _ Suc.prems(2)] merge_loop_next [OF _ Suc.prems(2)])
qed simp

lemma search_bound: "search k \<Longrightarrow> bound_at ops S (Included k) (pos k) \<and> next_at ops S (Some k) (pos k)"
  by (simp add: bound_at_def next_at_def outside_bound_def seek_upper seek_lower)

lemma next_bound:
  assumes "lazy_at S L W j st e" "j < length L"
  obtains nk bnd where "next_key_and_bound ops st = Inr (nk, bnd)" "bound_at ops S bnd (hi S (key e))" "next_at ops S nk (hi S (key e))"
proof -
  have e: "merger_get st = Inr (Some e)" "ok S e" "pending_iterators st \<noteq> []"
    using assms by (auto simp: lazy_at_def pending_from_simps)
  from next_key_of [OF e(2)] show thesis
  proof (elim disjE exE conjE)
    assume none: "next_key ops (key e) = Inr None"
    then have "bound_at ops S (Excluded (key e)) (hi S (key e))" "next_at ops S None (hi S (key e))"
      using next_upper [OF e(2)] by (auto simp: bound_at_def next_at_def outside_bound_def)
    with none e show thesis by (intro that) (auto simp: next_key_and_bound_def)
  next
    fix k assume "next_key ops (key e) = Inr (Some k)" "search k" "pos k = hi S (key e)"
      "\<forall>x. ok S x \<longrightarrow> lo S (key x) \<le> hi S (key e) \<longrightarrow> cmp_lower_bound ops (key x) k \<noteq> Greater"
    with e search_bound [of k] show thesis by (intro that) (auto simp: next_key_and_bound_def)
  qed
qed

lemma lazy_facts:
  assumes "lazy_at S L W j st e" "j < length L"
  shows "heap_wf S (heap st)" "\<forall>k \<ge> j. layer_map (heap st) k = []" "\<forall>k \<ge> j. rest_map st k = []"
    "rest_weight S st + pending_weight S L j \<le> W" "heap_weight S (queued st) + pending_weight S L j \<le> W"
    "\<forall>x \<in> set (rest_map st k). hi S (key e) < hi S (key x)"
proof -
  show wf: "heap_wf S (heap st)" using assms by (simp add: lazy_at_def state_wf_def)
  show weight: "heap_weight S (queued st) + pending_weight S L j \<le> W" using assms by (simp add: lazy_at_def)
  then show "rest_weight S st + pending_weight S L j \<le> W" using rest_map_queued(3) [of S st] by linarith
  show "\<forall>k \<ge> j. rest_map st k = []" using assms rest_map_queued(1) [of S st] by (auto simp: lazy_at_def)
  show "\<forall>k \<ge> j. layer_map (heap st) k = []"
    using assms by (auto simp: lazy_at_def queued_def split: current_item.splits if_splits)
  show "\<forall>x \<in> set (rest_map st k). hi S (key e) < hi S (key x)"
  proof
    fix x assume x: "x \<in> set (rest_map st k)"
    then have "hi S (key e) \<le> lo S (key x)" using assms(1) by (auto simp: lazy_at_def)
    moreover have "ok S x" using rest_map_ok [of st x k] x assms(1) by (auto simp: lazy_at_def)
    ultimately show "hi S (key e) < hi S (key x)" using ok_nonempty by (meson le_less_trans)
  qed
qed

text \<open>
  Advancing prepares a ready heap, with or without pushing more layers, and takes the next item from it.
  \<open>prepared\<close> says so of the heap \<open>h\<close>.
\<close>

lemma follows_directly_at:
  assumes "is_some m \<Longrightarrow> mli_wf S m" "next_at ops S nk b"
  obtains d where "follows_directly ops nk m = Inr d" "d \<Longrightarrow> is_some m \<and> lo S (key (hd (mli_items m))) \<le> b"
proof (cases "nk = None \<or> \<not> is_some m")
  case True
  then show thesis using that [of False] by (auto simp: follows_directly_def split: option.splits)
next
  case False
  then obtain k where k: "nk = Some k" "is_some m" by auto
  have "ok S (hd (mli_items m))" using mli_wf_hd assms(1) k(2) by blast
  then show thesis
    using that [of "cmp_lower_bound ops (key (hd (mli_items m))) k \<noteq> Greater"] k assms
    by (simp add: follows_directly_def mli_item_hd next_at_def)
qed

text \<open>The current iterator goes back on the heap as it is, when something follows without a gap.\<close>

lemma ready_requeued:
  assumes "lazy_at S L W j st e" "j < length L" "layer_map h = rest_map st" "heap_weight S h = rest_weight S st"
    and "\<exists>k x. x \<in> set (rest_map st k) \<and> lo S (key x) \<le> hi S (key e)"
  shows "ready S L W (hi S (key e)) j h"
proof -
  note f = lazy_facts [OF assms(1,2)]
  have "\<exists>w. sees S (rest_map st) (hi S (key e)) w" using assms(5) f(6) sees_mem by metis
  then show ?thesis using assms f(3,4) by (auto simp: ready_def lazy_at_def)
qed

lemma heap_top_least:
  assumes "heap_wf S h" "heap_pop ops h = Inr (Some (m, rest))" "x \<in> set (layer_map h k)"
  shows "lo S (key (hd (mli_items m))) \<le> lo S (key x)"
proof -
  have ne: "h \<noteq> []" using assms(2) by (auto simp: heap_pop_def)
  obtain m' rest' where "heap_pop ops h = Inr (Some (m', rest'))" "mset (m' # rest') = mset h"
    "\<And>y. y \<in> set rest' \<Longrightarrow> precedes S (layer_index m') (hd (mli_items m')) (layer_index y) (hd (mli_items y))"
    using heap_pop_least [OF assms(1) ne] by metis
  then have m: "mset (m # rest) = mset h"
    "\<And>y. y \<in> set rest \<Longrightarrow> precedes S (layer_index m) (hd (mli_items m)) (layer_index y) (hd (mli_items y))"
    using assms(2) by auto
  obtain y where y: "y \<in> set h" "x \<in> set (mli_items y)" using assms(3) by (auto simp: in_layer_map)
  then have wf: "layer_ok S (mli_items y)" using assms(1) by (auto simp: heap_wf_def mli_wf_def)
  have "lo S (key (hd (mli_items y))) \<le> lo S (key x)"
  proof (cases "mli_items y")
    case (Cons z zs)
    then show ?thesis using wf y(2) ok_nonempty [of z] by (auto simp: list_all_iff dest!: bspec intro: less_imp_le order_trans)
  qed (use y(2) in simp)
  moreover have "y = m \<or> y \<in> set rest" using y(1) m(1) by (metis set_ConsD set_mset_mset)
  then have "lo S (key (hd (mli_items m))) \<le> lo S (key (hd (mli_items y)))"
    using m(2) [of y] by (auto simp: precedes_def)
  ultimately show ?thesis by (rule order_trans [rotated])
qed

lemma rest_agrees:
  assumes "bounded_below S (layer_map h) (hi S (key e))"
  shows "agrees S e h"
  using not_sees_below [OF assms] by (auto simp: agrees_def)

lemma advance_item_prepares:
  assumes lz: "lazy_at S L W j st e" "j < length L" and cur: "current st = CItem i" and nx: "next_key ops (key i) \<noteq> Inr None"
  shows "\<exists>h c j' bnd. merger_advance fuel ops mf st =
      advance_impl fuel ops mf bnd \<lparr>pending_iterators = pending_from L j', heap = h, current = c\<rparr> \<and>
    prepared ops S L W j st (hi S (key e)) h j' bnd \<and> agrees S e h"
proof -
  let ?b = "hi S (key e)"
  note f = lazy_facts [OF lz]
  have st: "pending_iterators st = pending_from L j" "pending_iterators st \<noteq> []" "rest_map st = layer_map (heap st)"
    "rest_weight S st = heap_weight S (heap st)" "e = i" "ok S e" "merger_get st = Inr (Some e)" "bounded_below S (rest_map st) ?b"
    using lz cur by (auto simp: lazy_at_def rest_map_def rest_weight_def merger_get_def pending_from_simps)
  obtain k where k: "next_key ops (key e) = Inr (Some k)" "search k" "pos k = ?b"
    and near: "\<forall>x. ok S x \<longrightarrow> lo S (key x) \<le> ?b \<longrightarrow> cmp_lower_bound ops (key x) k \<noteq> Greater"
    using next_key_of [OF st(6)] nx st(5) by auto
  have nk: "next_key_and_bound ops st = Inr (Some k, Included k)" using k(1) st(2,7) by (simp add: next_key_and_bound_def)
  obtain n x where x: "x \<in> set (layer_map (heap st) n)" "lo S (key x) = ?b"
    using lz(1) cur st(3,5) by (auto simp: lazy_at_def followed_def)
  then have ne: "heap st \<noteq> []" by (auto simp: in_layer_map)
  obtain m rest where m: "heap_pop ops (heap st) = Inr (Some (m, rest))" "heap_wf S (m # rest)"
    using heap_pop_least [OF f(1) ne] by metis
  have wf: "mli_wf S m" using m(2) by simp
  have "cmp_lower_bound ops (key (hd (mli_items m))) k \<noteq> Greater"
    using near mli_wf_hd [OF wf] heap_top_least [OF f(1) m(1) x(1)] x(2) by auto
  then have "needs_more_iterators ops (Some k) st = Inr False"
    using m(1) wf ne st(2) by (simp add: needs_more_iterators_def heap_peek_def mli_item_hd)
  then have "push_iterators ops (Some k) (Included k) st = Inr st" by (simp add: push_iterators.simps)
  then have run: "merger_advance fuel ops mf st = advance_impl fuel ops mf (Included k) st"
    using nk cur by (simp add: merger_advance_def take_iterator_def)
  have "ready S L W ?b j (heap st)"
    by (rule ready_requeued [OF lz st(3) [symmetric] st(4) [symmetric]], intro exI [of _ n] exI [of _ x]) (use x st(3) in simp)
  then have "prepared ops S L W j st ?b (heap st) j (Included k)"
    using search_bound [OF k(2)] k(3) f(1) st(4) by (simp add: prepared_def)
  moreover have "st = \<lparr>pending_iterators = pending_from L j, heap = heap st, current = current st\<rparr>" using st(1) by (cases st) simp
  moreover have "agrees S e (heap st)" using st(3,8) by (intro rest_agrees) simp
  ultimately show ?thesis using run by metis
qed

text \<open>Otherwise the item is queued again, so that the layers that are pushed are merged with it.\<close>

lemma ready_existing:
  assumes lz: "lazy_at S L W j st e" "j < length L" and L: "\<forall>l \<in> set L. layer_ok S l" and cur: "current st = CIterator m"
    and bnd: "bound_at ops S bnd (hi S (key e))" and push: "pushed_to ops S bnd L j j' (heap st) h'"
    and gap: "j' = length L \<or> (\<exists>k x. x \<in> set (layer_map h' k) \<and> lo S (key x) \<le> hi S (key e))"
    and m2: "mli_items m2 = mli_items m" "layer_index m2 = layer_index m" "\<exists>it. iter m2 = RConst it"
  shows "heap_wf S (m2 # h') \<and> ready S L W (hi S (key e)) j' (m2 # h') \<and> heap_weight S (m2 # h') \<le> W \<and> agrees S e (m2 # h')"
proof -
  let ?b = "hi S (key e)"
  note f = lazy_facts [OF lz]
  have m: "mli_wf S m" "layer_index m \<notin> layer_index ` set (heap st)" "e = hd (mli_items m)" "covers S (rest_map st) j L ?b"
    "bounded_below S (rest_map st) ?b"
    using lz(1) cur by (auto simp: lazy_at_def state_wf_def merger_get_def mli_item_hd)
  have items: "mli_items m = e # tl (mli_items m)" using m(1,3) by (simp add: mli_wf_def)
  have mj: "layer_index m < j"
  proof (rule ccontr)
    assume "\<not> layer_index m < j"
    then have "layer_map (queued st) (layer_index m) = []" using lz by (auto simp: lazy_at_def)
    then show False using cur items by (simp add: queued_def)
  qed
  have h': "heap_wf S h'" "layer_map h' = with_seeked ops bnd L j j' (layer_map (heap st))" "j \<le> j'" "j' \<le> length L"
    using push by (auto simp: pushed_to_def)
  have free: "layer_map h' (layer_index m) = []"
    using mj layer_map_absent [OF m(2)] unfolding h'(2) by (simp add: with_seeked_def)
  have notin: "layer_index m2 \<notin> layer_index ` set h'"
  proof
    assume "layer_index m2 \<in> layer_index ` set h'"
    then obtain x where "x \<in> set h'" "layer_index x = layer_index m" using m2(2) by auto
    moreover from this h'(1) have "mli_items x \<noteq> []" by (auto simp: heap_wf_def mli_wf_def)
    ultimately show False using free layer_map_mem [of h' x] h'(1) by (auto simp: heap_wf_def)
  qed
  have wf: "heap_wf S (m2 # h')" using h'(1) notin m2 m(1) by (simp add: mli_wf_def)
  have map: "layer_map (m2 # h') = (layer_map h')(layer_index m := mli_items m)"
    using layer_map_Cons_fun [OF notin] m2 by simp
  have weight: "heap_weight S (m2 # h') + pending_weight S L j' \<le> W"
    using push f(5) cur m2(1) by (simp add: pushed_to_def queued_def)
  have same: "layer_at S (layer_map (m2 # h') k) p = layer_at S (with_seeked ops bnd L j j' (rest_map st) k) p"
    if "?b \<le> p" for k p
  proof -
    have "layer_at S (mli_items m) p = layer_at S (tl (mli_items m)) p"
      by (subst items) (simp add: item_at_past [OF that])
    then show ?thesis unfolding map h'(2) using mj cur by (auto simp: with_seeked_def rest_map_def)
  qed
  have "\<exists>w. sees S (layer_map (m2 # h')) ?b w" if less: "j' < length L"
  proof -
    obtain k x where x: "x \<in> set (layer_map h' k)" "lo S (key x) \<le> ?b" using gap less by auto
    then have k: "k \<noteq> layer_index m" using free by auto
    then have "x \<in> set (with_seeked ops bnd L j j' (rest_map st) k)"
      using x(1) cur unfolding h'(2) by (auto simp: with_seeked_def rest_map_def split: if_splits)
    then have "?b < hi S (key x)" by (rule seeked_hi) (use f(6) L bnd h'(4) in auto)
    moreover have "x \<in> set (layer_map (m2 # h') k)" unfolding map using x(1) k by simp
    ultimately show ?thesis using x(2) sees_mem by metis
  qed
  moreover have "\<forall>k \<ge> j'. layer_map (m2 # h') k = []"
    unfolding map h'(2) using mj h'(3) f(2) by (auto simp: with_seeked_def)
  ultimately have "ready S L W ?b j' (m2 # h')"
    by (intro ready_seeked [OF m(4) f(3) L bnd h'(3,4)]) (use same weight in auto)
  moreover have "agrees S e (m2 # h')"
    unfolding agrees_def
  proof (intro allI impI)
    fix p w assume p: "lo S (key e) \<le> p" "p < ?b" and see: "sees S (layer_map (m2 # h')) p w"
    have e: "layer_at S (layer_map (m2 # h') (layer_index m)) p = item_at S e p" "item_at S e p \<noteq> None"
    proof -
      have "layer_at S (e # tl (mli_items m)) p = item_at S e p" "item_at S e p \<noteq> None" using p by (simp_all add: item_at_def)
      then show "layer_at S (layer_map (m2 # h') (layer_index m)) p = item_at S e p" "item_at S e p \<noteq> None"
        unfolding map using items by simp_all
    qed
    have "layer_at S (layer_map (m2 # h') k) p = None" if "k < layer_index m" for k
    proof -
      have "layer_map (m2 # h') k = rest_map st k" using that mj cur unfolding map h'(2) by (simp add: with_seeked_def rest_map_def)
      then show ?thesis using m(5) p(2) by (intro layer_at_below [of _ ?b]) auto
    qed
    moreover obtain k where "layer_at S (layer_map (m2 # h') k) p = Some w" "\<forall>k' < k. layer_at S (layer_map (m2 # h') k') p = None"
      using see by (auto simp: sees_def)
    ultimately have "k = layer_index m \<and> layer_at S (layer_map (m2 # h') k) p = Some w" using e
      by (metis linorder_neqE_nat option.distinct(1))
    then show "item_at S e p = Some w" using e(1) by metis
  qed
  ultimately show ?thesis using wf weight by simp
qed

lemma advance_iterator_prepares:
  assumes lz: "lazy_at S L W j st e" "j < length L" and L: "\<forall>l \<in> set L. layer_ok S l" and cur: "current st = CIterator m"
  shows "\<exists>h c j' bnd. merger_advance fuel ops mf st =
      advance_impl fuel ops mf bnd \<lparr>pending_iterators = pending_from L j', heap = h, current = c\<rparr> \<and>
    prepared ops S L W j st (hi S (key e)) h j' bnd \<and> agrees S e h"
proof -
  let ?b = "hi S (key e)" and ?st = "st\<lparr>current := CNone\<rparr>"
  note f = lazy_facts [OF lz]
  obtain nk bnd where nk: "next_key_and_bound ops st = Inr (nk, bnd)" "bound_at ops S bnd ?b" "next_at ops S nk ?b"
    using next_bound [OF lz] by metis
  have st: "state_wf S st" "pending_iterators st = pending_from L j" "mli_item m = Inr e"
    using lz(1) cur by (auto simp: lazy_at_def merger_get_def mli_item_hd state_wf_def)
  have notin: "layer_index m \<notin> layer_index ` set (heap st)" using st(1) cur by (simp add: state_wf_def)
  obtain m' where m': "mli_advance m = Inr m'" "layer_index m' = layer_index m"
    "mli_items m' = tl (mli_items m)" "raw_items (iter m') = tl (mli_items m)" "is_some m' \<longleftrightarrow> tl (mli_items m) \<noteq> []"
    "\<exists>it. iter m' = RConst it" and h: "heap_wf S (if is_some m' then m' # heap st else heap st)"
    "layer_map (if is_some m' then m' # heap st else heap st) = rest_map st"
    "heap_weight S (if is_some m' then m' # heap st else heap st) = rest_weight S st"
    by (rule requeue [OF st(1) cur])
  have top: "heap_wf S (heap ?st)" "pending_iterators ?st = pending_from L j" using f(1) st(2) by simp_all
  obtain r where r: "needs_more_iterators ops nk ?st = Inr r" "r \<Longrightarrow> j < length L"
    "\<not> r \<Longrightarrow> length L \<le> j \<or> (\<exists>k x. x \<in> set (layer_map (heap ?st) k) \<and> lo S (key x) \<le> ?b)"
    using needs_more_at [OF top nk(3)] by metis
  obtain d where d: "follows_directly ops nk m' = Inr d" "d \<Longrightarrow> is_some m' \<and> lo S (key (hd (mli_items m'))) \<le> ?b"
  proof -
    have "mli_wf S m'" if "is_some m'" using that h(1) by simp
    then show thesis using that follows_directly_at [OF _ nk(3)] by blast
  qed
  note run = merger_advance_def nk(1) take_iterator_def cur r(1) m'(1) d(1) st(3) heap_push_def
  show ?thesis
  proof (cases "r \<and> \<not> d")
    case False
    have "\<exists>k x. x \<in> set (rest_map st k) \<and> lo S (key x) \<le> ?b"
    proof (cases r)
      case True
      with False d(2) m'(3,5) show ?thesis
        by (intro exI [of _ "layer_index m"] exI [of _ "hd (mli_items m')"]) (auto simp: rest_map_def cur)
    next
      case False
      then obtain k x where "x \<in> set (layer_map (heap st) k)" "lo S (key x) \<le> ?b" using r(3) lz(2) by auto
      moreover from this have "k \<noteq> layer_index m" using layer_map_absent [OF notin] by auto
      ultimately show ?thesis by (intro exI [of _ k] exI [of _ x]) (simp add: rest_map_def cur)
    qed
    then have "prepared ops S L W j st ?b (if is_some m' then m' # heap st else heap st) j bnd"
      unfolding prepared_def using ready_requeued [OF lz h(2,3)] h nk(2) by blast
    moreover have "agrees S e (if is_some m' then m' # heap st else heap st)"
      by (rule rest_agrees) (use lz(1) h(2) in \<open>simp add: lazy_at_def\<close>)
    moreover have "merger_advance fuel ops mf st = advance_impl fuel ops mf bnd
        (?st\<lparr>heap := (if is_some m' then m' # heap st else heap st)\<rparr>)"
      using False by (cases r) (auto simp: run)
    moreover have "?st\<lparr>heap := h\<rparr> = \<lparr>pending_iterators = pending_from L j, heap = h, current = CNone\<rparr>" for h
      using st(2) by (cases st) simp
    ultimately show ?thesis by (metis (no_types))
  next
    case True
    obtain j' h' where push: "push_iterators ops nk bnd ?st = Inr (?st\<lparr>pending_iterators := pending_from L j', heap := h'\<rparr>)"
      "pushed_to ops S bnd L j j' (heap st) h'" "j' = length L \<or> (\<exists>k x. x \<in> set (layer_map h' k) \<and> lo S (key x) \<le> ?b)"
      "j < j'"
      using push_iterators_at [of ?st L j bnd ?b nk] f(1,2) st(2) L nk(2,3) lz(2) r(1) True by auto
    have "mli_wf S m" using st(1) cur by (simp add: state_wf_def)
    then have "mli_items m = e # tl (mli_items m)" using st(3) mli_item_hd [of S m] by (auto simp: mli_wf_def)
    moreover have "mli_items (mli_replace e m') = e # tl (mli_items m)" using m'(4) unfolding mli_items_def [of "mli_replace e m'"] by (simp add: mli_replace_def)
    ultimately have items: "mli_items (mli_replace e m') = mli_items m" by simp
    have ex: "heap_wf S (mli_replace e m' # h') \<and> ready S L W ?b j' (mli_replace e m' # h') \<and>
        heap_weight S (mli_replace e m' # h') \<le> W \<and> agrees S e (mli_replace e m' # h')"
      by (rule ready_existing [OF lz L cur nk(2) push(2,3) items]) (use m' in \<open>simp_all add: mli_replace_def\<close>)
    then have "prepared ops S L W j st ?b (mli_replace e m' # h') j' bnd \<and> agrees S e (mli_replace e m' # h')"
      using push(4) nk(2) unfolding prepared_def by auto
    moreover have "merger_advance fuel ops mf st = advance_impl fuel ops mf bnd
        (?st\<lparr>pending_iterators := pending_from L j', heap := mli_replace e m' # h'\<rparr>)"
      using True push(1) by (simp add: run is_some_def mli_replace_def)
    moreover have "?st\<lparr>pending_iterators := pending_from L j', heap := h\<rparr> =
        \<lparr>pending_iterators = pending_from L j', heap = h, current = CNone\<rparr>" for h
      by (cases st) simp
    ultimately show ?thesis by (metis (no_types))
  qed
qed

lemma merger_advance_prepares:
  assumes lz: "lazy_at S L W j st e" and L: "\<forall>l \<in> set L. layer_ok S l"
    and nx: "\<And>z. current st = CItem z \<Longrightarrow> next_key ops (key z) \<noteq> Inr None"
  shows "\<exists>h c j' bnd. merger_advance fuel ops mf st =
      advance_impl fuel ops mf bnd \<lparr>pending_iterators = pending_from L j', heap = h, current = c\<rparr> \<and>
    prepared ops S L W j st (hi S (key e)) h j' bnd \<and> agrees S e h"
proof (cases "j < length L")
  case True
  show ?thesis
  proof (cases "current st")
    case CNone
    with lz show ?thesis by (simp add: lazy_at_def merger_get_def)
  next
    case (CItem i)
    from advance_item_prepares [OF lz True CItem nx [OF CItem]] show ?thesis .
  next
    case (CIterator m)
    from advance_iterator_prepares [OF lz True L CIterator] show ?thesis .
  qed
next
  case False
  have st: "state_wf S st" "pending_iterators st = []" "j = length L"
    using lz False by (auto simp: lazy_at_def pending_from_simps)
  obtain h where h: "heap_wf S h" "layer_map h = rest_map st" "heap_weight S h = rest_weight S st"
    "merger_advance fuel ops mf st = advance_impl fuel ops mf Unbounded \<lparr>pending_iterators = [], heap = h,
      current = (case current st of CIterator _ \<Rightarrow> CNone | c \<Rightarrow> c)\<rparr>"
    using merger_advance_requeues [OF st(1,2), of fuel] by blast
  moreover have "pending_from L j = []" using st(3) by (simp add: pending_from_simps)
  moreover have "ready S L W (hi S (key e)) j h" using lz h(2) st(3) by (simp add: ready_def lazy_at_def)
  moreover have "bounded_below S (layer_map h) (hi S (key e))" using lz h(2) by (simp add: lazy_at_def)
  ultimately have "prepared ops S L W j st (hi S (key e)) h j Unbounded" "agrees S e h"
    by (simp_all add: prepared_def rest_agrees)
  with h(4) \<open>pending_from L j = []\<close> show ?thesis by metis
qed

text \<open>Enough fuel for a state with the layers from \<open>j\<close> on pending: each push may bring back the whole weight.\<close>

lemma drain_lazy:
  assumes "lazy_at S L W j st e" "\<forall>l \<in> set L. layer_ok S l"
    "(length L - j) * Suc W + rest_weight S st + 1 < fuel" "\<And>z. current st = CItem z \<Longrightarrow> next_key ops (key z) \<noteq> Inr None"
  shows "\<exists>es. compact_with_iterator fuel ops mf st = Inr (e # es) \<and> iterates S L (hi S (key e)) es \<and> chained S (e # es)"
  using assms(1,3,4)
proof (induction fuel arbitrary: j st e)
  case (Suc fuel)
  let ?b = "hi S (key e)"
  have get: "merger_get st = Inr (Some e)" using Suc.prems(1) by (simp add: lazy_at_def)
  obtain h c j' bnd where p: "merger_advance (Suc fuel) ops mf st =
      advance_impl (Suc fuel) ops mf bnd \<lparr>pending_iterators = pending_from L j', heap = h, current = c\<rparr>"
    "prepared ops S L W j st ?b h j' bnd" "agrees S e h" using merger_advance_prepares [OF Suc.prems(1) assms(2) Suc.prems(3)] by blast
  have j': "j \<le> j'" "j' \<le> length L" using p(2) by (auto simp: prepared_def ready_def)
  have fuel: "(length L - j') * Suc W + heap_weight S h < fuel"
  proof (cases "j' = j")
    case False
    then have "heap_weight S h \<le> W" "Suc (length L - j') \<le> length L - j" using p(2) j' by (auto simp: prepared_def)
    then have "(length L - j') * Suc W + heap_weight S h < (length L - j) * Suc W"
      using mult_le_mono1 [of "Suc (length L - j')" "length L - j" "Suc W"] by simp
    then show ?thesis using Suc.prems(2) by simp
  qed (use Suc.prems(2) p(2) in \<open>simp add: prepared_def\<close>)
  then obtain st' where st': "merger_advance (Suc fuel) ops mf st = Inr st'" "advanced S ?b h st'"
    "pending_iterators st' = pending_from L j'"
    using advance_impl_at [of "\<lparr>pending_iterators = pending_from L j', heap = h, current = c\<rparr>" "Suc fuel" bnd ?b] p
    by (auto simp: prepared_def)
  note s = settled [OF st'(2) _ st'(3), where W = W]
  show ?case
  proof (cases "current st' = CNone")
    case True
    have "compact_with_iterator fuel ops mf st' = Inr []" using True fuel by (cases fuel) (auto simp: merger_get_def)
    moreover have "iterates S L ?b []" using s True p(2) by (simp add: prepared_def)
    ultimately show ?thesis using get st'(1) by auto
  next
    case False
    then obtain e' where e': "lazy_at S L W j' st' e'" "?b < hi S (key e')" "rest_weight S st' < heap_weight S h"
      "\<forall>p. ?b \<le> p \<and> p < hi S (key e') \<longrightarrow> layers_at S L p = item_at S e' p"
      "\<forall>p w. item_at S e' p = Some w \<longrightarrow> sees S (layer_map h) p w"
      using s p(2) by (auto simp: prepared_def)
    have "\<And>z. current st' = CItem z \<Longrightarrow> next_key ops (key z) \<noteq> Inr None"
      using advance_impl_next [OF p(1) [symmetric, unfolded st'(1)]] .
    then obtain es where "compact_with_iterator fuel ops mf st' = Inr (e' # es)" "iterates S L (hi S (key e')) es" "chained S (e' # es)"
      using Suc.IH [OF e'(1)] e'(3) fuel by auto
    moreover have "ok S e'" using e'(1) by (simp add: lazy_at_def)
    moreover have "\<forall>p w. lo S (key e) \<le> p \<longrightarrow> p < ?b \<longrightarrow> item_at S e' p = Some w \<longrightarrow> item_at S e p = Some w"
      using e'(5) p(3) by (auto simp: agrees_def)
    ultimately show ?thesis using get st'(1) e'(2,4) by auto
  qed
qed simp

text \<open>
  The items of a seek to the key \<open>k\<close>, drained, say from the key on what the stack of layers says.
\<close>

lemma seek_iterates:
  assumes "search k" and L: "\<forall>l \<in> set L. layer_ok S l" and fuel: "seek_fuel S L < fuel"
  shows "\<exists>st es. merger_seek fuel ops mf L (Included k) = Inr st \<and> compact_with_iterator fuel ops mf st = Inr es \<and>
    merger_get st = Inr (if es = [] then None else Some (hd es)) \<and> iterates S L (pos k) es \<and> chained S es"
proof -
  let ?b = "pos k" and ?st = "\<lparr>pending_iterators = rev (merger_new L), heap = [], current = CNone\<rparr>"
  let ?W = "sum_list (map (layer_weight S) L)"
  have bnd: "bound_at ops S (Included k) ?b" "next_at ops S (Some k) ?b" using search_bound [OF assms(1)] by auto
  have W: "pending_weight S L 0 = ?W" by (simp add: pending_weight_def)
  obtain j' h' where push: "push_iterators ops (Some k) (Included k) ?st = Inr (?st\<lparr>pending_iterators := pending_from L j', heap := h'\<rparr>)"
    "pushed_to ops S (Included k) L 0 j' [] h'" "j' = length L \<or> (\<exists>i x. x \<in> set (layer_map h' i) \<and> lo S (key x) \<le> ?b)"
    using push_iterators_at [of ?st L 0 "Included k" ?b "Some k"] L bnd by (auto simp: pending_from_simps)
  have h': "heap_wf S h'" "layer_map h' = with_seeked ops (Included k) L 0 j' (\<lambda>_. [])" "j' \<le> length L"
    "heap_weight S h' + pending_weight S L j' \<le> ?W" using push(2) W by (auto simp: pushed_to_def fun_eq_iff with_seeked_def)
  have "?b < hi S (key x)" if "x \<in> set (layer_map h' i)" for i x
    using seeked_hi [OF that [unfolded h'(2)] _ L bnd(1) h'(3)] by simp
  then have "\<exists>w. sees S (layer_map h') ?b w" if "j' < length L"
    using that push(3) sees_mem by (metis less_irrefl)
  moreover have "covers S (\<lambda>_. []) 0 L ?b" by (simp add: covers_def sees_def)
  ultimately have ready: "ready S L ?W ?b j' h'"
    by (intro ready_seeked [of "\<lambda>_. []" 0]) (use L bnd h' in \<open>auto simp: with_seeked_def\<close>)
  have fuel': "(length L - j') * Suc ?W + heap_weight S h' + 1 < fuel"
  proof -
    have "(length L - j') * Suc ?W \<le> length L * Suc ?W" by (rule mult_le_mono1) simp
    then show ?thesis using fuel h'(4) by (simp add: seek_fuel_def)
  qed
  then obtain st where st: "merger_seek fuel ops mf L (Included k) = Inr st" "advanced S ?b h' st"
    "pending_iterators st = pending_from L j'"
    using advance_impl_at [of "?st\<lparr>pending_iterators := pending_from L j', heap := h'\<rparr>" fuel "Included k" ?b] push(1) h'(1) bnd(1)
    by (auto simp: merger_seek_def merger_iterator_seek_def)
  note s = settled [OF st(2) ready st(3)]
  show ?thesis
  proof (cases "current st = CNone")
    case True
    have "compact_with_iterator fuel ops mf st = Inr []" using True fuel by (cases fuel) (auto simp: merger_get_def)
    then show ?thesis using s st(1) True by (auto simp: merger_get_def)
  next
    case False
    then obtain e where e: "lazy_at S L ?W j' st e" "?b < hi S (key e)" "rest_weight S st < heap_weight S h'"
      "\<forall>p. ?b \<le> p \<and> p < hi S (key e) \<longrightarrow> layers_at S L p = item_at S e p" using s by auto
    have "\<And>z. current st = CItem z \<Longrightarrow> next_key ops (key z) \<noteq> Inr None"
      using advance_impl_next st(1) push(1) by (fastforce simp: merger_seek_def merger_iterator_seek_def)
    then obtain es where "compact_with_iterator fuel ops mf st = Inr (e # es)" "iterates S L (hi S (key e)) es" "chained S (e # es)"
      using drain_lazy [OF e(1) L, of fuel] e(3) fuel' by auto
    moreover have "ok S e" "merger_get st = Inr (Some e)" using e(1) by (auto simp: lazy_at_def)
    ultimately show ?thesis using st(1) e(2,4) by (intro exI [of _ st] exI [of _ "e # es"]) simp
  qed
qed

end

end
