(* ===== verification/Object_Seek.thy ===== *)
theory Object_Seek
  imports Object_Merge Lsm_Seek
begin

text \<open>
  Seeking in an object store: the keys of \<^verbatim>\<open>object_record.rs\<close> meet the contract \<open>seek_laws\<close>, so iterating
  from a key and looking a key up see what the newest layers say, although older layers are only
  consulted where the newer ones leave a gap.
\<close>

text \<open>
  The keys the code seeks to: any key that is not an extent, and extents that are not empty. A seek compares
  the ends of extents, so that it finds the first extent that reaches the last byte of the key's range.
\<close>

definition object_search :: "object_key \<Rightarrow> bool" where
  "object_search k =
     (case data k of Attribute _ (Extent e) \<Rightarrow> rstart (range e) < rend (range e) | _ \<Rightarrow> True)"

definition search_point :: "object_key \<Rightarrow> nat list" where
  "search_point k =
     (case data k of Attribute _ (Extent e) \<Rightarrow> key_prefix k @ [rend (range e) - 1] | _ \<Rightarrow> key_prefix k)"

lemma search_point_bounds:
  assumes "object_search k"
  shows "key_lo k \<le> search_point k" "search_point k < key_hi k"
  using assms
  by (auto simp: object_search_def search_point_def key_lo_def key_hi_def key_prefix_def
      split: object_key_data.splits attribute_key.splits)

lemma search_point_from_extent:
  "search_point (object_key_from_extent oid a (ExtentKey (Range s (Suc n)))) = [oid, 2, a, 1, n]"
  by (simp add: search_point_def object_key_from_extent_def key_prefix_def variant_index_def)

lemma search_point_record:
  "\<not> (\<exists>a e. data k = Attribute a (Extent e)) \<Longrightarrow> search_point k = key_lo k"
  by (auto simp: search_point_def key_lo_def split: object_key_data.splits attribute_key.splits)

lemma search_lower:
  assumes "object_search k" "object_cmp_lower_bound (key x) k \<noteq> Greater"
  shows "key_lo (key x) \<le> search_point k"
  using assms search_point_bounds(1) [OF assms(1)] by (simp add: object_cmp_lower_lo not_less)

lemma search_upper:
  assumes "object_search k" "object_ok bs x"
  shows "(object_cmp_upper_bound (key x) k = Less) = (key_hi (key x) \<le> search_point k)"
proof (cases "same_attribute (key x) k")
  case True
  then obtain oid a e f where ef: "key x = object_key_from_extent oid a e" "k = object_key_from_extent oid a f"
    by (auto simp: same_attribute_def)
  then have "rstart (range f) < rend (range f)" using assms(1) by (simp add: object_search_def object_key_from_extent_def)
  then show ?thesis
    using ef by (auto simp: object_cmp_upper_bound_def object_key_from_extent_def extent_cmp_upper_bound_def cmp_then_eq
        search_point_def key_hi_def key_prefix_def variant_index_def)
next
  case False
  then have "object_cmp_upper_bound (key x) k = Less \<longleftrightarrow> key_lo (key x) < key_lo k"
    by (simp add: upper_bound_lower_bound object_cmp_lower_lo)
  moreover have ne: "key_lo (key x) < key_hi (key x)" by (rule object_ok_nonempty [OF assms(2)])
  have "key_hi (key x) \<le> search_point k" if lt: "key_lo (key x) < key_lo k"
    using key_hi_le_lo [of "key x" k] lt False search_point_bounds(1) [OF assms(1)] by fastforce
  moreover have "search_point k < key_hi (key x)" if "\<not> key_lo (key x) < key_lo k"
  proof (cases "k = key x")
    case True
    then show ?thesis using search_point_bounds(2) [OF assms(1)] by simp
  next
    case ne': False
    have "\<not> same_attribute k (key x)" using False by (auto simp: same_attribute_def)
    then have "key_hi k \<le> key_lo (key x)" using that ne' by (intro key_hi_le_lo) auto
    with ne search_point_bounds(2) [OF assms(1)] show ?thesis by order
  qed
  ultimately show ?thesis by (meson not_less)
qed

lemma past_record:
  assumes "object_ok bs e" "object_ok bs x" "object_next_key (key e) = Inr None"
  shows "(object_cmp_upper_bound (key x) (key e) \<noteq> Greater) = (key_hi (key x) \<le> key_hi (key e))"
proof -
  have no: "\<not> same_attribute (key x) (key e)" "\<not> same_attribute (key e) (key x)"
    using assms(3) by (auto simp: same_attribute_def object_next_key_def object_key_from_extent_def bind_res_def u64_add_def
        split: sum.splits if_splits)
  have ne: "key_lo (key e) < key_hi (key e)" "key_lo (key x) < key_hi (key x)"
    using assms(1,2) by (auto intro: object_ok_nonempty)
  have "object_cmp_upper_bound (key x) (key e) \<noteq> Greater \<longleftrightarrow> key_lo (key x) \<le> key_lo (key e)"
    using no(1) by (simp add: upper_bound_lower_bound object_cmp_lower_lo not_less)
  also have "\<dots> \<longleftrightarrow> key_hi (key x) \<le> key_hi (key e)"
  proof
    assume le: "key_lo (key x) \<le> key_lo (key e)"
    show "key_hi (key x) \<le> key_hi (key e)"
    proof (cases "key x = key e")
      case False
      then have "key_hi (key x) \<le> key_lo (key e)" using le no(1) by (intro key_hi_le_lo)
      with ne(1) show ?thesis by simp
    qed simp
  next
    assume le: "key_hi (key x) \<le> key_hi (key e)"
    show "key_lo (key x) \<le> key_lo (key e)"
    proof (rule ccontr)
      assume "\<not> ?thesis"
      then have "key_hi (key e) \<le> key_lo (key x)" using no(2) by (intro key_hi_le_lo) auto
      with le ne(2) show False by simp
    qed
  qed
  finally show ?thesis .
qed

lemma next_search:
  assumes "object_ok bs e"
  shows "object_next_key (key e) = Inr None \<or>
    (\<exists>k. object_next_key (key e) = Inr (Some k) \<and> object_search k \<and> search_point k = key_hi (key e) \<and> key_lo k = key_hi (key e))"
proof (cases "\<exists>a f. data (key e) = Attribute a (Extent f)")
  case True
  then obtain a f where f: "data (key e) = Attribute a (Extent f)" by blast
  then have "rend (range f) < u64_max" using assms by (simp add: object_ok_def)
  then have "object_next_key (key e) =
      Inr (Some ((key e)\<lparr>data := Attribute a (Extent (ExtentKey (Range (rend (range f)) (Suc (rend (range f))))))\<rparr>))"
    using f by (simp add: object_next_key_def u64_add_def)
  then show ?thesis
    using f by (simp add: object_search_def search_point_def key_hi_def key_lo_def key_prefix_def variant_index_def)
qed (auto simp: object_next_key_def split: object_key_data.splits attribute_key.splits)

lemma merge_emits_extent:
  assumes "object_merge l r = Inr (Other (Some z) opl opr)"
  shows "object_next_key (key z) \<noteq> Inr None"
  using assms
  by (auto simp: object_merge_def merge_extents_def merge_deleted_extents_def bind_res_eq_Inr Let_def object_next_key_def
      object_key_extent_def item_new_with_sequence_def extent_key_new_def
      split: prod.splits object_key_data.splits attribute_key.splits object_value.splits if_splits option.splits extent_value.splits ordering.splits)

interpretation obj_seek: seek_laws object_ops object_merge "object_sem bs" object_search search_point
proof
  fix e :: "'a object_item"
  assume "ok (object_sem bs) e"
  then show "next_key object_ops (key e) = Inr None \<or>
      (\<exists>k. next_key object_ops (key e) = Inr (Some k) \<and> object_search k \<and> search_point k = hi (object_sem bs) (key e) \<and>
         (\<forall>x. ok (object_sem bs) x \<longrightarrow> lo (object_sem bs) (key x) \<le> hi (object_sem bs) (key e) \<longrightarrow>
            cmp_lower_bound object_ops (key x) k \<noteq> Greater))"
    using next_search [of bs e] by (auto simp: object_ops_def object_cmp_lower_lo not_less)
qed (simp_all add: object_ops_def search_lower search_upper past_record merge_emits_extent)

text \<open>Iterating from a search key.\<close>

definition object_iter ::
  "nat \<Rightarrow> (object_key, 'wk object_value) lsm_tree \<Rightarrow> object_key \<Rightarrow> 'wk object_item list res" where
  "object_iter fuel t k =
     bind_res (merger_seek fuel object_ops object_merge (layer_set t) (Included k))
       (compact_with_iterator fuel object_ops object_merge)"

lemma object_iter_correct:
  assumes "object_search k" "\<forall>l \<in> set (layer_set t). layer_ok (object_sem bs) l" "seek_fuel (object_sem bs) (layer_set t) < fuel"
  shows "\<exists>es. object_iter fuel t k = Inr es \<and> iterates (object_sem bs) (layer_set t) (search_point k) es \<and> chained (object_sem bs) es"
  using obj_seek.seek_iterates [OF assms] by (auto simp: object_iter_def)

lemma record_covers:
  assumes "key_lo k \<le> key_lo l" "key_lo l < key_hi k" "\<not> (\<exists>a e. data l = Attribute a (Extent e))"
  shows "k = l"
proof (rule ccontr)
  assume "k \<noteq> l"
  moreover have "\<not> same_attribute k l" using assms(3) by (auto simp: same_attribute_def object_key_from_extent_def)
  ultimately have "key_hi k \<le> key_lo l" using assms(1) by (intro key_hi_le_lo)
  with assms(2) show False by simp
qed

lemma find_record:
  assumes "\<not> (\<exists>a e. data k = Attribute a (Extent e))" "\<forall>l \<in> set (layer_set t). layer_ok (object_sem bs) l"
    and "seek_fuel (object_sem bs) (layer_set t) < fuel"
  shows "\<exists>r. find fuel object_ops object_merge k t = Inr r \<and>
    (\<forall>i. r = Some i \<longrightarrow> key i = k) \<and>
    map_option (\<lambda>i. Record (value i)) r = layers_at (object_sem bs) (layer_set t) (key_lo k)"
proof -
  have "object_search k" using assms(1) by (auto simp: object_search_def split: object_key_data.splits attribute_key.splits)
  from obj_seek.seek_iterates [OF this assms(2,3)] obtain st es where
    st: "merger_seek fuel object_ops object_merge (layer_set t) (Included k) = Inr st"
    "merger_get st = Inr (if es = [] then None else Some (hd es))"
    and it: "iterates (object_sem bs) (layer_set t) (key_lo k) es" using search_point_record [OF assms(1)] by auto
  show ?thesis
  proof (cases es)
    case Nil
    with st it show ?thesis by (simp add: find_def)
  next
    case (Cons e rest)
    then have e: "object_ok bs e" "key_lo k < key_hi (key e)"
      "layers_at (object_sem bs) (layer_set t) (key_lo k) = item_at (object_sem bs) e (key_lo k)" using it by auto
    show ?thesis
    proof (cases "key e = k")
      case True
      have "object_val bs e (key_lo k) = Record (value e)"
        using assms(1) True by (auto simp: object_val_def split: object_key_data.splits attribute_key.splits)
      moreover have "key_lo k < key_hi k" using object_ok_nonempty [OF e(1)] True by simp
      ultimately show ?thesis using st e(3) Cons True by (simp add: find_def item_at_def)
    next
      case False
      then have "item_at (object_sem bs) e (key_lo k) = None"
        using record_covers [OF _ e(2) assms(1)] by (auto simp: item_at_def)
      with st e(3) Cons False show ?thesis by (simp add: find_def)
    qed
  qed
qed

text \<open>
  C18: looking up a record finds the newest one. \<^verbatim>\<open>find\<close> seeks to the key and takes the first item if it has
  the key; it does not panic, and it returns the record with the value that the newest layer with such a
  record gives, or nothing when no layer has one. The key is not that of an extent, and the layers are well
  formed and have no object tombstones (\<^term>\<open>object_ok\<close>).
\<close>

theorem find_newest_record:
  assumes "\<not> (\<exists>a e. data k = Attribute a (Extent e))" "\<forall>l \<in> set (layer_set t). layer_ok (object_sem bs) l"
    and "seek_fuel (object_sem bs) (layer_set t) < fuel"
  shows "\<exists>r. find fuel object_ops object_merge k t = Inr r \<and>
    (\<forall>i. r = Some i \<longrightarrow> key i = k) \<and>
    map_option (\<lambda>i. Record (value i)) r = layers_at (object_sem bs) (layer_set t) (key_lo k)"
  by (rule find_record [OF assms])

theorem find_newest_record_witness:
  "\<exists>i. find 100000 object_ops object_merge (object_key_attribute 5 0 Size) example_store = Inr (Some i) \<and>
    value i = VAttribute 1536"
proof -
  let ?k = "object_key_attribute 5 0 Size"
  have size: "object_ok 512 (item_new_with_sequence ?k (VAttribute 1536 :: nat object_value) 1)"
    "object_weight (item_new_with_sequence ?k (VAttribute 1536 :: nat object_value) 1) = 1"
    "key_lo ?k = [5, 2, 0, 0]" "key_hi ?k = [5, 2, 0, 0, 0]"
    "object_val 512 (item_new_with_sequence ?k (VAttribute 1536 :: nat object_value) 1) p = Record (VAttribute 1536)" for p
    by (simp_all add: object_ok_def is_tombstone_def object_weight_def key_lo_def key_hi_def key_prefix_def
        variant_index_def object_val_def item_new_with_sequence_def object_key_attribute_def)
  have key [simp]: "key (item_new_with_sequence ?k (VAttribute 1536 :: nat object_value) s) = ?k" for s
    by (simp add: item_new_with_sequence_def)
  have "\<not> (\<exists>a e. data ?k = Attribute a (Extent e))" by (simp add: object_key_attribute_def)
  moreover have "\<forall>l \<in> set (layer_set example_store). layer_ok (object_sem 512) l"
    using size by (simp add: example_store_def layer_set_def value_fits_def u64_max_def)
  moreover have "seek_fuel (object_sem 512) (layer_set example_store) < 100000"
    using size by (simp add: example_store_def layer_set_def seek_fuel_def layer_weight_def)
  ultimately obtain r where r: "find 100000 object_ops object_merge ?k example_store = Inr r"
    "map_option (\<lambda>i. Record (value i)) r = layers_at (object_sem 512) (layer_set example_store) (key_lo ?k)"
    using find_newest_record by blast
  moreover have "layers_at (object_sem 512) (layer_set example_store) (key_lo ?k) = Some (Record (VAttribute 1536))"
    using size by (simp add: example_store_def layer_set_def item_at_def)
  ultimately show ?thesis by auto
qed

end
