(* ===== verification/Object_Trim.thy ===== *)
theory Object_Trim
  imports Object_Manager Object_Seek Allocator_Correct
begin

text \<open>
  Trimming and tombstoning of objects (\<^verbatim>\<open>trim_some\<close> and its callers in \<^verbatim>\<open>src/src/object_store.rs\<close>), and what
  committing a transaction does to the store and the allocator that an object lives in.

  An iterator over the store is the list of the items it yields. The transaction that the file system
  hands out is a parameter, and so is the journal checkpoint at which a transaction is committed.
\<close>

section \<open>Committing\<close>

text \<open>
  \<^verbatim>\<open>apply_transaction\<close> of the object manager on the mutations of one store and of the allocator; the lemma
  \<open>commit_each_apply_each\<close> shows that it is what the manager does.
\<close>

fun commit_each ::
  "nat \<Rightarrow> checkpoint \<Rightarrow> txn_mutation list \<Rightarrow> reservation option \<Rightarrow> object_store \<Rightarrow> simple_allocator \<Rightarrow>
   (object_store \<times> simple_allocator \<times> reservation option) res" where
  "commit_each fuel cp [] r s a = Inr (s, a, r)"
| "commit_each fuel cp (t # ts) r s a =
     (if tm_object_id t = alloc_object_id a
      then bind_res (apply_mutation fuel (file_offset cp) (tm_mutation t) (Live r) a) (\<lambda>(a, mode).
             commit_each fuel cp ts (case mode of Live r \<Rightarrow> r | Replay \<Rightarrow> None) s a)
      else if tm_object_id t = os_store_object_id s
      then bind_res (store_apply_mutation fuel cp (tm_mutation t) (Live r) s) (\<lambda>s.
             commit_each fuel cp ts r s a)
      else Inl Panic)"

definition store_commit ::
  "nat \<Rightarrow> checkpoint \<Rightarrow> transaction \<Rightarrow> object_store \<Rightarrow> simple_allocator \<Rightarrow> (object_store \<times> simple_allocator \<times> transaction) res" where
  "store_commit fuel cp txn s a =
     bind_res (commit_each fuel cp (mutations txn) (txn_reservation txn) s a) (\<lambda>(s, a, r).
       Inr (s, a, txn\<lparr>mutations := [], txn_reservation := r\<rparr>))"

section \<open>Trimming\<close>

definition transaction_mutation_threshold :: nat where
  "transaction_mutation_threshold = 200"

datatype trim_mode = UseSize | FromOffset nat | TombstoneMode

datatype trim_result = Incomplete | TrimDone "nat option"

text \<open>Where trimming begins, or the result when there is nothing to trim.\<close>

definition trim_offset ::
  "nat \<Rightarrow> nat \<Rightarrow> nat \<Rightarrow> trim_mode \<Rightarrow> object_store \<Rightarrow> (nat + trim_result) res" where
  "trim_offset fuel oid aid mode self =
     (let aligned = (\<lambda>n. bind_res (round_up n (os_block_size self)) (\<lambda>r.
                        case r of None \<Rightarrow> Inl (Fxfs Inconsistent) | Some x \<Rightarrow> Inr (Inl x))) in
      case mode of
        FromOffset n \<Rightarrow> aligned n
      | TombstoneMode \<Rightarrow> Inr (Inl 0)
      | UseSize \<Rightarrow>
          bind_res (object_iter fuel (os_tree self) (object_key_attribute oid aid Size)) (\<lambda>items.
            case items of
              [] \<Rightarrow> Inr (Inr (TrimDone None))
            | i # _ \<Rightarrow>
                if object_id (key i) \<noteq> oid then Inr (Inr (TrimDone None))
                else case (data (key i), value i) of
                  (Attribute size_aid Size, VAttribute n) \<Rightarrow>
                    if size_aid \<noteq> aid then Inr (Inr (TrimDone (Some size_aid))) else aligned n
                | _ \<Rightarrow> bind_res (u64_add aid 1) (\<lambda>n. Inr (Inr (TrimDone (Some n))))))"

text \<open>The loop over the extents: the result, the end of the last extent, the bytes deallocated.\<close>

fun trim_loop ::
  "nat \<Rightarrow> nat \<Rightarrow> nat \<Rightarrow> nat \<Rightarrow> object_store \<Rightarrow> simple_allocator \<Rightarrow> encryption_keys object_item list \<Rightarrow> nat \<Rightarrow> nat \<Rightarrow> transaction \<Rightarrow>
   (trim_result \<times> nat \<times> nat \<times> transaction) res" where
  "trim_loop fuel oid aid aligned_offset self a [] e deallocated txn = Inr (TrimDone None, e, deallocated, txn)"
| "trim_loop fuel oid aid aligned_offset self a (i # items) e deallocated txn =
     (if object_id (key i) \<noteq> oid then Inr (TrimDone None, e, deallocated, txn)
      else case data (key i) of
        Attribute extent_aid ak \<Rightarrow>
          if extent_aid \<noteq> aid then Inr (TrimDone (Some extent_aid), e, deallocated, txn)
          else
            (case (ak, value i) of
               (Extent ek, VExtent (ExtentSome d cs kid)) \<Rightarrow>
                 let start = max (rstart (range ek)) aligned_offset in
                 bind_res (ensure (start < rend (range ek)) (Fxfs Inconsistent)) (\<lambda>_.
                 case checked_add d (start - rstart (range ek)) of
                   None \<Rightarrow> Inl (Fxfs Inconsistent)
                 | Some d \<Rightarrow>
                     let e = rend (range ek); len = e - start in
                     bind_res (u64_add d len) (\<lambda>de.
                     bind_res (range_is_aligned (Range d de) (os_block_size self)) (\<lambda>al.
                     bind_res (ensure al (Fxfs Inconsistent)) (\<lambda>_.
                     bind_res (deallocate fuel (os_store_object_id self) (Range d de) a txn) (\<lambda>(_, txn).
                     bind_res (u64_add deallocated len) (\<lambda>deallocated.
                       if length (mutations txn) \<ge> transaction_mutation_threshold
                       then Inr (Incomplete, e, deallocated, txn)
                       else trim_loop fuel oid aid aligned_offset self a items e deallocated txn))))))
             | _ \<Rightarrow> trim_loop fuel oid aid aligned_offset self a items e deallocated txn)
      | _ \<Rightarrow> trim_loop fuel oid aid aligned_offset self a items e deallocated txn)"

text \<open>The object record with less allocated.\<close>

definition trim_allocated_size :: "nat \<Rightarrow> nat \<Rightarrow> nat \<Rightarrow> object_store \<Rightarrow> transaction \<Rightarrow> transaction res" where
  "trim_allocated_size fuel oid deallocated self txn =
     bind_res (txn_get_object_mutation fuel txn oid self) (\<lambda>m.
     case value (osm_item m) of
       VObject (File n asize) attrs \<Rightarrow>
         (case checked_sub asize deallocated of
            None \<Rightarrow> Inl (Fxfs Inconsistent)
          | Some asize \<Rightarrow>
              bind_res (txn_add (os_store_object_id self)
                (ObjectStoreM (m\<lparr>osm_item := (osm_item m)\<lparr>value := VObject (File n asize) attrs\<rparr>\<rparr>)) txn) (\<lambda>(_, txn).
                Inr txn))
     | _ \<Rightarrow> Inl Panic)"

definition trim_some ::
  "nat \<Rightarrow> nat \<Rightarrow> nat \<Rightarrow> trim_mode \<Rightarrow> object_store \<Rightarrow> simple_allocator \<Rightarrow> transaction \<Rightarrow> (trim_result \<times> transaction) res" where
  "trim_some fuel oid aid mode self a txn =
     bind_res (trim_offset fuel oid aid mode self) (\<lambda>r.
     case r of
       Inr result \<Rightarrow> Inr (result, txn)
     | Inl aligned_offset \<Rightarrow>
         bind_res (search_key_from_offset aligned_offset) (\<lambda>sk.
         bind_res (object_iter fuel (os_tree self) (object_key_from_extent oid aid sk)) (\<lambda>items.
         bind_res (trim_loop fuel oid aid aligned_offset self a items 0 0 txn) (\<lambda>(result, e, deallocated, txn).
           if mode = TombstoneMode \<and> result = TrimDone None
           then bind_res (txn_add (os_store_object_id self) (merge_object (object_key_object oid) VNone) txn) (\<lambda>(_, txn).
                  Inr (result, txn))
           else if deallocated > 0
           then bind_res (txn_add (os_store_object_id self)
                  (merge_object (object_key_extent oid aid (Range aligned_offset e)) value_deleted_extent) txn) (\<lambda>(_, txn).
                bind_res (trim_allocated_size fuel oid deallocated self txn) (\<lambda>txn. Inr (result, txn)))
           else Inr (result, txn)))))"

text \<open>
  \<^verbatim>\<open>trim_or_tombstone\<close>: one transaction after the other until no attribute is left. \<open>new_txn\<close> is the
  transaction for each attribute, \<open>cp\<close> the checkpoint of each commit.
\<close>

fun trim_or_tombstone ::
  "nat \<Rightarrow> nat \<Rightarrow> (nat \<Rightarrow> checkpoint) \<Rightarrow> (nat \<Rightarrow> transaction) \<Rightarrow> nat \<Rightarrow> bool \<Rightarrow> nat option \<Rightarrow> object_store \<Rightarrow> simple_allocator \<Rightarrow>
   (object_store \<times> simple_allocator) res" where
  "trim_or_tombstone 0 fuel cp new_txn oid for_tombstone aid self a = Inl OutOfFuel"
| "trim_or_tombstone (Suc n) fuel cp new_txn oid for_tombstone next_attribute self a =
     (case next_attribute of
        None \<Rightarrow> Inr (self, a)
      | Some aid \<Rightarrow>
          bind_res (trim_some fuel oid aid (if for_tombstone then TombstoneMode else UseSize) self a (new_txn aid)) (\<lambda>(r, txn).
          bind_res
            (case r of
               Incomplete \<Rightarrow> Inr (Some aid, txn)
             | TrimDone (Some k) \<Rightarrow> Inr (Some k, txn)
             | TrimDone None \<Rightarrow>
                 bind_res
                   (if for_tombstone then Inr True
                    else
                      bind_res (sri_info (os_store_info self)) (\<lambda>info.
                      bind_res (store_find fuel (object_key_graveyard_entry (graveyard_directory_object_id info) oid) self) (\<lambda>found.
                        Inr (case found of Some i \<Rightarrow> value i = VTrim | None \<Rightarrow> False)))) (\<lambda>remove.
                 bind_res (if remove then remove_from_graveyard oid self txn else Inr txn) (\<lambda>txn.
                   Inr (None, txn)))) (\<lambda>(next_attribute, txn).
          bind_res (if mutations txn = [] then Inr (self, a)
                    else bind_res (store_commit fuel (cp n) txn self a) (\<lambda>(self, a, _). Inr (self, a))) (\<lambda>(self, a).
            trim_or_tombstone n fuel cp new_txn oid for_tombstone next_attribute self a))))"

definition tombstone ::
  "nat \<Rightarrow> nat \<Rightarrow> (nat \<Rightarrow> checkpoint) \<Rightarrow> (nat \<Rightarrow> transaction) \<Rightarrow> nat \<Rightarrow> object_store \<Rightarrow> simple_allocator \<Rightarrow>
   (object_store \<times> simple_allocator) res" where
  "tombstone n fuel cp new_txn oid self a = trim_or_tombstone n fuel cp new_txn oid True (Some 0) self a"

text \<open>\<open>grandparent\<close> says whether the store's parent has a parent of its own.\<close>

definition trim ::
  "nat \<Rightarrow> nat \<Rightarrow> (nat \<Rightarrow> checkpoint) \<Rightarrow> (nat \<Rightarrow> transaction) \<Rightarrow> bool \<Rightarrow> nat \<Rightarrow> object_store \<Rightarrow> simple_allocator \<Rightarrow>
   (object_store \<times> simple_allocator) res" where
  "trim n fuel cp new_txn grandparent oid self a =
     bind_res (ensure (os_parent self \<noteq> None \<and> grandparent) Panic) (\<lambda>_.
       trim_or_tombstone n fuel cp new_txn oid False (Some 0) self a)"

section \<open>The object manager does the same\<close>

definition same_objects :: "object_store \<Rightarrow> simple_allocator \<Rightarrow> object_manager \<Rightarrow> bool" where
  "same_objects s a om \<longleftrightarrow>
     bt_ok (om_stores om) \<and> bt_get (om_stores om) (os_store_object_id s) = Some s \<and>
     om_allocator om = Some a \<and> allocator_object_id om = alloc_object_id a \<and> os_store_object_id s \<noteq> alloc_object_id a"


lemma note_mutation_objects:
  "m \<noteq> DeleteVolume \<Longrightarrow> same_objects s a (note_mutation oid m cp om) = same_objects s a om"
  by (auto simp: note_mutation_def same_objects_def split: mutation.splits option.splits checkpoints.splits)

lemma will_apply_objects: "same_objects s a (will_apply_mutation ao oid om) = same_objects s a om"
  by (auto simp: will_apply_mutation_def update_reservation_def same_objects_def split: option.splits assoc_object.splits)

lemma store_apply_id:
  "store_apply_mutation fuel cp m mode s = Inr s' \<Longrightarrow> os_store_object_id s' = os_store_object_id s"
  by (auto simp: store_apply_mutation_def apply_object_mutation_def bind_res_eq_Inr Let_def update_last_object_id_def
      split: mutation.splits operation.splits if_splits object_value.splits)

lemma alloc_apply_id:
  assumes "apply_mutation fuel off m mode a = Inr (a', mode')"
  shows "alloc_object_id a' = alloc_object_id a"
proof -
  have "alloc_object_id a' = alloc_object_id a" if "apply_allocate fuel off r ow mode a = Inr (a', mode')" for r ow
    using that unfolding apply_allocate_def Let_def
    by (cases mode) (simp_all add: bind_res_eq_Inr, auto)
  moreover have "alloc_object_id a' = alloc_object_id a" if "apply_deallocate fuel off r ow mode a = Inr (a', mode')" for r ow
    using that unfolding apply_deallocate_def Let_def by (auto simp: bind_res_eq_Inr split_beta)
  moreover have "alloc_object_id x = alloc_object_id a" if "apply_end_flush mode a = Inr x" for x
    using that by (auto simp: apply_end_flush_def Let_def bind_res_eq_Inr split: if_splits)
  ultimately show ?thesis
    using assms by (auto simp: apply_mutation_def bind_res_eq_Inr Let_def apply_begin_flush_def
        split: mutation.splits allocator_mutation.splits)
qed

text \<open>
  C11: committing through the object manager is applying the mutations to their store and to the allocator.
  Whatever else the manager keeps, for a transaction whose mutations belong to one of its stores or to
  its allocator, it succeeds or fails as \<open>commit_each\<close> does, and leaves the store, the allocator and the
  reservation that \<open>commit_each\<close> computes.
\<close>

theorem commit_each_apply_each:
  assumes "same_objects s a om"
    and "\<forall>t \<in> set ts. tm_mutation t \<noteq> DeleteVolume \<and> tm_object_id t \<in> {os_store_object_id s, alloc_object_id a}"
  shows "case commit_each fuel cp ts r s a of
      Inl e \<Rightarrow> apply_each fuel assoc ts cp r om = Inl e
    | Inr (s', a', r') \<Rightarrow> \<exists>om'. apply_each fuel assoc ts cp r om = Inr (om', r') \<and> same_objects s' a' om'"
  using assms
proof (induction ts arbitrary: s a r om)
  case (Cons t ts)
  define om1 where "om1 = will_apply_mutation (map_option assoc (tm_associated_object t)) (tm_object_id t)
    (note_mutation (tm_object_id t) (tm_mutation t) cp om)"
  have om1: "same_objects s a om1" using Cons.prems by (simp add: om1_def will_apply_objects note_mutation_objects)
  have noted: "same_objects s a (note_mutation (tm_object_id t) (tm_mutation t) cp om)"
    using Cons.prems by (simp add: note_mutation_objects)
  show ?case
  proof (cases "tm_object_id t = alloc_object_id a")
    case True
    have run: "om_apply_mutation fuel (tm_object_id t) (tm_mutation t) cp (Live r) (map_option assoc (tm_associated_object t)) om =
      bind_res (apply_mutation fuel (file_offset cp) (tm_mutation t) (Live r) a) (\<lambda>(a, mode). Inr (om1\<lparr>om_allocator := Some a\<rparr>, mode))"
      using Cons.prems True noted by (auto simp: om_apply_mutation_def Let_def same_objects_def om1_def)
    show ?thesis
    proof (cases "apply_mutation fuel (file_offset cp) (tm_mutation t) (Live r) a")
      case (Inr q)
      obtain a' mode where q: "q = (a', mode)" by fastforce
      have id: "alloc_object_id a' = alloc_object_id a" using alloc_apply_id Inr q by blast
      then have "same_objects s a' (om1\<lparr>om_allocator := Some a'\<rparr>)" using om1 by (auto simp: same_objects_def)
      note IH = Cons.IH [OF this, of "case mode of Live r \<Rightarrow> r | Replay \<Rightarrow> None"]
      have ls: "apply_each fuel assoc (t # ts) cp r om =
          apply_each fuel assoc ts cp (case mode of Live r \<Rightarrow> r | Replay \<Rightarrow> None) (om1\<lparr>om_allocator := Some a'\<rparr>)"
        using run Inr q by simp
      have rs: "commit_each fuel cp (t # ts) r s a = commit_each fuel cp ts (case mode of Live r \<Rightarrow> r | Replay \<Rightarrow> None) s a'"
        using True Inr q by simp
      show ?thesis unfolding ls rs by (rule IH) (use Cons.prems(2) id in simp)
    qed (use run in \<open>simp add: True\<close>)
  next
    case False
    then have sid: "tm_object_id t = os_store_object_id s" using Cons.prems by auto
    have run: "om_apply_mutation fuel (tm_object_id t) (tm_mutation t) cp (Live r) (map_option assoc (tm_associated_object t)) om =
      bind_res (store_apply_mutation fuel cp (tm_mutation t) (Live r) s) (\<lambda>s'.
        Inr (om1\<lparr>om_stores := bt_insert (os_store_object_id s) s' (om_stores om1)\<rparr>, Live r))"
      using Cons.prems False sid noted by (auto simp: om_apply_mutation_def Let_def same_objects_def om1_def)
    show ?thesis
    proof (cases "store_apply_mutation fuel cp (tm_mutation t) (Live r) s")
      case (Inr s')
      have id: "os_store_object_id s' = os_store_object_id s" using store_apply_id Inr by blast
      then have "same_objects s' a (om1\<lparr>om_stores := bt_insert (os_store_object_id s) s' (om_stores om1)\<rparr>)"
        using om1 bt_ok_insert by (auto simp: same_objects_def)
      note IH = Cons.IH [OF this, of r]
      have ls: "apply_each fuel assoc (t # ts) cp r om =
          apply_each fuel assoc ts cp r (om1\<lparr>om_stores := bt_insert (os_store_object_id s) s' (om_stores om1)\<rparr>)"
        using run Inr by simp
      have rs: "commit_each fuel cp (t # ts) r s a = commit_each fuel cp ts r s' a"
        using False sid Inr by simp
      show ?thesis unfolding ls rs by (rule IH) (use Cons.prems(2) id in simp)
    qed (use False sid run in simp)
  qed
qed simp

text \<open>A volume's store beside the allocator, and a transaction that begins the flush of both.\<close>

definition example_volume :: object_store where
  "example_volume = object_store_new_empty (Some 2) 7 512"

definition example_objects :: object_manager where
  "example_objects = object_manager_new
     \<lparr>om_stores := [(7, example_volume)], allocator_object_id := 3, om_allocator := Some example_allocator\<rparr>"

theorem commit_each_apply_each_witness:
  "\<exists>om' s'. apply_each 0 (\<lambda>_. OtherObject)
     [\<lparr>tm_object_id = 7, tm_mutation = BeginFlush, tm_associated_object = None\<rparr>,
      \<lparr>tm_object_id = 3, tm_mutation = BeginFlush, tm_associated_object = None\<rparr>] \<lparr>file_offset = 5, cp_checksum = 0, cp_version = 1\<rparr> None example_objects = Inr (om', None) \<and>
     bt_get (om_stores om') 7 = Some s' \<and> om_allocator om' = Some (apply_begin_flush example_allocator)"
proof -
  let ?cp = "\<lparr>file_offset = 5, cp_checksum = 0, cp_version = 1\<rparr>"
  let ?ts = "[\<lparr>tm_object_id = 7, tm_mutation = BeginFlush, tm_associated_object = None\<rparr>,
      \<lparr>tm_object_id = 3, tm_mutation = BeginFlush, tm_associated_object = None\<rparr>]"
  have same: "same_objects example_volume example_allocator example_objects"
    by (simp add: same_objects_def example_objects_def object_manager_new_def example_volume_def object_store_new_empty_def
        object_store_new_def example_allocator_def bt_ok_def)
  have ids: "os_store_object_id example_volume = 7" "alloc_object_id example_allocator = 3"
    by (simp_all add: example_volume_def object_store_new_empty_def object_store_new_def example_allocator_def)
  obtain s' where s': "commit_each 0 ?cp ?ts None example_volume example_allocator =
      Inr (s', apply_begin_flush example_allocator, None)" "os_store_object_id s' = 7"
    using ids by (simp add: store_apply_mutation_def apply_mutation_def)
      (simp add: example_volume_def object_store_new_empty_def object_store_new_def lock_state_allows_def)
  have "\<forall>t \<in> set ?ts. tm_mutation t \<noteq> DeleteVolume \<and>
      tm_object_id t \<in> {os_store_object_id example_volume, alloc_object_id example_allocator}"
    using ids by simp
  from commit_each_apply_each [OF same this, where fuel = 0 and cp = ?cp and r = None and assoc = "\<lambda>_. OtherObject"] s' show ?thesis
    by (auto simp: same_objects_def)
qed

end
