(* ===== verification/Encrypted_Mutations.thy ===== *)
theory Encrypted_Mutations
  imports Object_Store
begin

text \<open>
  Encrypted mutations: what a store writes to the journal while it is unlocked, through changes of the
  mutations key and flushes that do not complete, is what unlocking decrypts after the journal was
  replayed.
\<close>

section \<open>Key streams\<close>

definition stream :: "(nat \<Rightarrow> u8) \<Rightarrow> nat \<Rightarrow> u8 list \<Rightarrow> u8 list" where
  "stream f off bs = map (\<lambda>(i, b). xor b (f (off + i))) (enumerate 0 bs)"

lemma stream_Nil [simp]: "stream f off [] = []"
  by (simp add: stream_def)

lemma stream_Cons [simp]: "stream f off (b # bs) = xor b (f off) # stream f (Suc off) bs"
  by (simp add: stream_def enumerate_Suc_eq [of 0] case_prod_unfold)

lemma stream_append: "stream f off (as @ bs) = stream f off as @ stream f (off + length as) bs"
  by (induction as arbitrary: off) simp_all

lemma stream_stream: "stream f off (stream f off bs) = bs"
  by (induction bs arbitrary: off) (simp_all add: xor.assoc)

lemma sc_apply_stream:
  "sc_apply bs sc = (stream (sc_keystream sc) (sc_offset sc) bs, sc\<lparr>sc_offset := sc_offset sc + length bs\<rparr>)"
  by (simp add: sc_apply_def stream_def)

lemma length_stream [simp]: "length (stream f off bs) = length bs"
  by (simp add: stream_def)

section \<open>Decrypting what was gathered\<close>

lemma decrypt_rolls_Cons:
  assumes "unwrap_key c k owner = Inr u" "l \<le> off" "off - l \<le> length bytes"
  shows "decrypt_rolls chacha c owner sc l ((off, k) # rolls) bytes =
    bind_res (decrypt_rolls chacha c owner (stream_cipher_new chacha u 0) off rolls (drop (off - l) bytes)) (\<lambda>rest.
      Inr (stream (sc_keystream sc) (sc_offset sc) (take (off - l) bytes) @ rest))"
  using assms by (simp add: checked_sub_def sc_decrypt_def sc_apply_stream)

lemma decrypt_rolls_snoc:
  assumes "decrypt_rolls chacha c owner sc l rolls bytes = Inr p" "unwrap_key c k owner = Inr u"
  shows "decrypt_rolls chacha c owner sc l (rolls @ [(l + length bytes, k)]) (bytes @ b) = Inr (p @ stream (chacha u) 0 b)"
  using assms
proof (induction chacha c owner sc l rolls bytes arbitrary: p rule: decrypt_rolls.induct)
  case (1 chacha c owner sc l bytes)
  then show ?case
    by (simp add: checked_sub_def sc_decrypt_def sc_apply_stream stream_cipher_new_def)
next
  case (2 chacha c owner sc l off k' rolls bytes)
  from "2.prems"(1) obtain u' rest where *: "l \<le> off" "off - l \<le> length bytes" "unwrap_key c k' owner = Inr u'"
    "decrypt_rolls chacha c owner (stream_cipher_new chacha u' 0) off rolls (drop (off - l) bytes) = Inr rest"
    "p = stream (sc_keystream sc) (sc_offset sc) (take (off - l) bytes) @ rest"
    by (auto simp: checked_sub_def bind_res_eq_Inr sc_decrypt_def sc_apply_stream split: if_splits option.splits)
  have "decrypt_rolls chacha c owner (stream_cipher_new chacha u' 0) off (rolls @ [(off + length (drop (off - l) bytes), k)])
      (drop (off - l) bytes @ b) = Inr (rest @ stream (chacha u) 0 b)"
    using * "2.prems"(2) by (intro "2.IH") (simp_all add: checked_sub_def)
  then show ?case using * by (simp add: decrypt_rolls_Cons add.commute del: decrypt_rolls.simps(2))
qed

section \<open>Gathering during replay\<close>

definition gathered :: "replay_info list \<Rightarrow> encrypted_mutations" where
  "gathered ris = snd (merge_replay_info ris store_info_default)"

text \<open>For every mutation the journal offset it is applied with.\<close>

definition offsets :: "(checkpoint \<times> nat) list \<Rightarrow> nat list" where
  "offsets ts = concat (map (\<lambda>(cp, n). replicate n (file_offset cp)) ts)"

lemma merge_replay_info_snd: "snd (merge_replay_info ris i) = gathered ris"
proof -
  have "snd (fold (\<lambda>r (i, em). (f i r, em_extend (ri_encrypted_mutations r) em)) rs (i, em)) =
      snd (fold (\<lambda>r (i, em). (f i r, em_extend (ri_encrypted_mutations r) em)) rs (j, em))"
    for f :: "store_info \<Rightarrow> replay_info \<Rightarrow> store_info" and rs i j em
    by (induction rs arbitrary: i j em) simp_all
  then show ?thesis by (simp add: gathered_def merge_replay_info_def)
qed

lemma gathered_Cons: "gathered (r # ris) = em_extend (ri_encrypted_mutations r) (gathered ris)"
  by (simp add: gathered_def merge_replay_info_def split_beta)

lemma offsets_append: "offsets (xs @ ys) = offsets xs @ offsets ys"
  by (simp add: offsets_def)

lemma offsets_push: "offsets (em_transactions (em_push cp bytes m)) = offsets (em_transactions m) @ [file_offset cp]"
proof (cases "em_transactions m" rule: rev_cases)
  case Nil
  then show ?thesis by (simp add: em_push_def Let_def offsets_def)
next
  case (snoc ts t)
  then show ?thesis
    by (cases t) (simp add: em_push_def Let_def offsets_def replicate_append_same)
qed

lemma em_push_simps [simp]:
  "em_data (em_push cp bytes m) = em_data m @ bytes" "mutations_key_roll (em_push cp bytes m) = mutations_key_roll m"
  by (simp_all add: em_push_def Let_def split: prod.splits)

section \<open>A store that writes, and its journal\<close>

datatype write_op = WriteM checkpoint mutation | RollKey "wrapped_key \<times> unwrapped_key" | FlushBegins checkpoint

fun run_writes ::
  "(mutation \<Rightarrow> u8 list) \<Rightarrow> (unwrapped_key \<Rightarrow> nat \<Rightarrow> u8) \<Rightarrow> write_op list \<Rightarrow> object_store \<Rightarrow>
   ((checkpoint \<times> mutation) list \<times> object_store) res" where
  "run_writes ser chacha [] self = Inr ([], self)"
| "run_writes ser chacha (WriteM cp m # ops) self =
     bind_res (store_write_mutation ser m self) (\<lambda>(ms, self).
     bind_res (run_writes ser chacha ops self) (\<lambda>(js, self). Inr (map (Pair cp) ms @ js, self)))"
| "run_writes ser chacha (RollKey nk # ops) self =
     bind_res (roll_mutations_key chacha nk self) (run_writes ser chacha ops)"
| "run_writes ser chacha (FlushBegins cp # ops) self =
     bind_res (store_write_mutation ser BeginFlush self) (\<lambda>(ms, self).
     bind_res (run_writes ser chacha ops self) (\<lambda>(js, self). Inr (map (Pair cp) ms @ js, self)))"

fun replay_journal :: "nat \<Rightarrow> (checkpoint \<times> mutation) list \<Rightarrow> object_store \<Rightarrow> object_store res" where
  "replay_journal fuel [] self = Inr self"
| "replay_journal fuel ((cp, m) # js) self =
     bind_res (store_apply_mutation fuel cp m Replay self) (replay_journal fuel js)"

fun written :: "write_op list \<Rightarrow> (checkpoint \<times> mutation) list" where
  "written [] = []"
| "written (WriteM cp m # ops) = (cp, m) # written ops"
| "written (op # ops) = written ops"

fun op_ok :: "crypt \<Rightarrow> nat \<Rightarrow> write_op \<Rightarrow> bool" where
  "op_ok c owner (WriteM cp m) = (\<exists>om. m = ObjectStoreM om)"
| "op_ok c owner (RollKey nk) = (unwrap_key c (fst nk) owner = Inr (snd nk))"
| "op_ok c owner (FlushBegins cp) = True"

text \<open>
  The unlocked store and the gathered data agree: the data decrypts to the plaintext so far, and unless
  the store is about to write a new key, more data would be decrypted with the store's cipher.
\<close>

definition in_step ::
  "(unwrapped_key \<Rightarrow> nat \<Rightarrow> u8) \<Rightarrow> crypt \<Rightarrow> nat \<Rightarrow> stream_cipher \<Rightarrow> u8 list \<Rightarrow> encrypted_mutations \<Rightarrow> object_store \<Rightarrow> bool" where
  "in_step chacha c owner sc0 plain em live \<longleftrightarrow>
     (\<exists>i k u sc. os_store_info live = Info i \<and> mutations_key i = Some k \<and> unwrap_key c k owner = Inr u \<and>
        os_mutations_cipher live = Some sc \<and> sc_keystream sc = chacha u \<and>
        decrypt_rolls chacha c owner sc0 0 (mutations_key_roll em) (em_data em) = Inr plain \<and>
        (sc_offset sc \<noteq> 0 \<longrightarrow>
           (\<forall>b. decrypt_rolls chacha c owner sc0 0 (mutations_key_roll em) (em_data em @ b) =
                Inr (plain @ stream (chacha u) (sc_offset sc) b))))"

definition replaying :: "replay_info list \<Rightarrow> object_store \<Rightarrow> bool" where
  "replaying ris self \<longleftrightarrow> ris \<noteq> [] \<and> os_store_info self = ReplayInfo ris \<and> os_lock_state self \<noteq> SUnencrypted \<and> os_parent self \<noteq> None"

text \<open>Replaying a key and encrypted data.\<close>

lemma replay_key:
  assumes "replaying ris self"
  obtains ris' self' where "store_apply_mutation fuel cp (UpdateMutationsKeyM a k) Replay self = Inr self'" "replaying ris' self'"
    "em_data (gathered ris') = em_data (gathered ris)"
    "mutations_key_roll (gathered ris') = mutations_key_roll (gathered ris) @ [(length (em_data (gathered ris)), k)]"
    "em_transactions (gathered ris') = em_transactions (gathered ris)"
proof -
  obtain r rs where "ris = r # rs" using assms by (cases ris) (auto simp: replaying_def)
  with assms show thesis
    by (intro that [of "self\<lparr>os_store_info := ReplayInfo (r\<lparr>ri_encrypted_mutations := (ri_encrypted_mutations r)\<lparr>mutations_key_roll :=
          mutations_key_roll (ri_encrypted_mutations r) @ [(length (em_data (ri_encrypted_mutations r)), k)]\<rparr>\<rparr> # rs)\<rparr>"
          "r\<lparr>ri_encrypted_mutations := (ri_encrypted_mutations r)\<lparr>mutations_key_roll :=
          mutations_key_roll (ri_encrypted_mutations r) @ [(length (em_data (ri_encrypted_mutations r)), k)]\<rparr>\<rparr> # rs"])
       (simp_all add: replaying_def store_apply_mutation_def lock_state_allows_def is_live_def set_mutations_key_def Let_def
        gathered_Cons em_extend_def)
qed

lemma replay_data:
  assumes "replaying ris self"
  obtains ris' self' where "store_apply_mutation fuel cp (EncryptedObjectStoreM bytes) Replay self = Inr self'" "replaying ris' self'"
    "em_data (gathered ris') = em_data (gathered ris) @ bytes"
    "mutations_key_roll (gathered ris') = mutations_key_roll (gathered ris)"
    "offsets (em_transactions (gathered ris')) = offsets (em_transactions (gathered ris)) @ [file_offset cp]"
proof -
  obtain r rs where "ris = r # rs" using assms by (cases ris) (auto simp: replaying_def)
  with assms show thesis
    by (intro that [of "self\<lparr>os_store_info := ReplayInfo (r\<lparr>ri_encrypted_mutations :=
            em_push cp bytes (ri_encrypted_mutations r)\<rparr> # rs)\<rparr>"
          "r\<lparr>ri_encrypted_mutations := em_push cp bytes (ri_encrypted_mutations r)\<rparr> # rs"])
       (simp_all add: replaying_def store_apply_mutation_def lock_state_allows_def is_live_def push_encrypted_mutation_def
        gathered_Cons em_extend_def offsets_append offsets_push)
qed

lemma replay_begin_flush:
  assumes "replaying ris self"
  obtains ris' self' where "store_apply_mutation fuel cp BeginFlush Replay self = Inr self'" "replaying ris' self'"
    "gathered ris' = gathered ris"
  using assms
  by (intro that [of "self\<lparr>os_tree := seal (os_tree self), os_store_info := ReplayInfo (replay_info_default # ris)\<rparr>"
        "replay_info_default # ris"])
     (simp_all add: replaying_def store_apply_mutation_def lock_state_allows_def is_live_def sri_begin_flush_def gathered_Cons
      em_extend_def replay_info_default_def encrypted_mutations_default_def)

text \<open>One write of the unlocked store, and its replay.\<close>

lemma write_replayed:
  assumes live: "in_step chacha c owner sc0 plain (gathered ris) live" and rep: "replaying ris self"
  obtains ms live' ris' self' where "store_write_mutation ser (ObjectStoreM om) live = Inr (ms, live')"
    "replay_journal fuel (map (Pair cp) ms) self = Inr self'" "replaying ris' self'"
    "in_step chacha c owner sc0 (plain @ ser (ObjectStoreM om)) (gathered ris') live'"
    "offsets (em_transactions (gathered ris')) = offsets (em_transactions (gathered ris)) @ [file_offset cp]"
proof -
  obtain i k u sc where l: "os_store_info live = Info i" "mutations_key i = Some k" "unwrap_key c k owner = Inr u"
      "os_mutations_cipher live = Some sc" "sc_keystream sc = chacha u"
      "decrypt_rolls chacha c owner sc0 0 (mutations_key_roll (gathered ris)) (em_data (gathered ris)) = Inr plain"
    and more: "sc_offset sc \<noteq> 0 \<Longrightarrow> decrypt_rolls chacha c owner sc0 0 (mutations_key_roll (gathered ris)) (em_data (gathered ris) @ b) =
      Inr (plain @ stream (chacha u) (sc_offset sc) b)" for b
    using live by (auto simp: in_step_def)
  define bytes where "bytes = ser (ObjectStoreM om)"
  define buffer where "buffer = stream (chacha u) (sc_offset sc) bytes"
  define live' where "live' = live\<lparr>os_mutations_cipher := Some (sc\<lparr>sc_offset := sc_offset sc + length bytes\<rparr>)\<rparr>"
  have upd: "\<lparr>sc_keystream = chacha u, sc_offset = n\<rparr> = sc\<lparr>sc_offset := n\<rparr>" for n using l(5) by simp
  have fin: "in_step chacha c owner sc0 (plain @ bytes) (gathered ris2) live'"
    if "\<And>b. decrypt_rolls chacha c owner sc0 0 (mutations_key_roll (gathered ris2)) (em_data (gathered ris) @ b) =
        Inr (plain @ stream (chacha u) (sc_offset sc) b)"
      "em_data (gathered ris2) = em_data (gathered ris) @ buffer" for ris2
    unfolding in_step_def
    using l that(1) [of buffer] that(1) [of "buffer @ b" for b] that(2)
    by (intro exI [of _ i] exI [of _ k] exI [of _ u] exI [of _ "sc\<lparr>sc_offset := sc_offset sc + length bytes\<rparr>"])
       (simp add: live'_def buffer_def stream_append stream_stream)
  show thesis
  proof (cases "sc_offset sc = 0")
    case False
    obtain ris' self' where r: "store_apply_mutation fuel cp (EncryptedObjectStoreM buffer) Replay self = Inr self'" "replaying ris' self'"
      "em_data (gathered ris') = em_data (gathered ris) @ buffer" "mutations_key_roll (gathered ris') = mutations_key_roll (gathered ris)"
      "offsets (em_transactions (gathered ris')) = offsets (em_transactions (gathered ris)) @ [file_offset cp]"
      using replay_data [OF rep] by blast
    show thesis
    proof (rule that)
      show "store_write_mutation ser (ObjectStoreM om) live = Inr ([EncryptedObjectStoreM buffer], live')"
        using l False by (simp add: store_write_mutation_def sc_encrypt_def sc_apply_stream buffer_def bytes_def live'_def)
      show "in_step chacha c owner sc0 (plain @ ser (ObjectStoreM om)) (gathered ris') live'"
        using fin [of ris'] more [OF False] r(3,4) by (simp add: bytes_def)
    qed (use r in simp_all)
  next
    case True
    obtain ris1 self1 where r1: "store_apply_mutation fuel cp (UpdateMutationsKeyM 0 k) Replay self = Inr self1" "replaying ris1 self1"
      "em_data (gathered ris1) = em_data (gathered ris)"
      "mutations_key_roll (gathered ris1) = mutations_key_roll (gathered ris) @ [(length (em_data (gathered ris)), k)]"
      "em_transactions (gathered ris1) = em_transactions (gathered ris)"
      using replay_key [OF rep] by blast
    obtain ris' self' where r: "store_apply_mutation fuel cp (EncryptedObjectStoreM buffer) Replay self1 = Inr self'" "replaying ris' self'"
      "em_data (gathered ris') = em_data (gathered ris1) @ buffer" "mutations_key_roll (gathered ris') = mutations_key_roll (gathered ris1)"
      "offsets (em_transactions (gathered ris')) = offsets (em_transactions (gathered ris1)) @ [file_offset cp]"
      using replay_data [OF r1(2)] by blast
    have dec: "decrypt_rolls chacha c owner sc0 0 (mutations_key_roll (gathered ris')) (em_data (gathered ris) @ b) =
        Inr (plain @ stream (chacha u) (sc_offset sc) b)" for b
      using decrypt_rolls_snoc [OF l(6,3)] True r(4) r1(4) by simp
    show thesis
    proof (rule that)
      show "store_write_mutation ser (ObjectStoreM om) live = Inr ([UpdateMutationsKeyM 0 k, EncryptedObjectStoreM buffer], live')"
        using l True by (simp add: store_write_mutation_def sc_encrypt_def sc_apply_stream buffer_def bytes_def live'_def sri_info_def
            update_mutations_key_def)
      show "in_step chacha c owner sc0 (plain @ ser (ObjectStoreM om)) (gathered ris') live'"
        using fin [of ris'] dec r(3) r1(3) by (simp add: bytes_def)
    qed (use r r1 in simp_all)
  qed
qed

lemma replay_journal_append:
  "replay_journal fuel (js @ js') self = bind_res (replay_journal fuel js self) (replay_journal fuel js')"
proof (induction js arbitrary: self)
  case (Cons j js)
  then show ?case by (cases j; cases "store_apply_mutation fuel (fst j) (snd j) Replay self") simp_all
qed simp

definition replayed ::
  "(mutation \<Rightarrow> u8 list) \<Rightarrow> (unwrapped_key \<Rightarrow> nat \<Rightarrow> u8) \<Rightarrow> crypt \<Rightarrow> nat \<Rightarrow> stream_cipher \<Rightarrow> nat \<Rightarrow> write_op list \<Rightarrow> u8 list \<Rightarrow>
   replay_info list \<Rightarrow> object_store \<Rightarrow> object_store \<Rightarrow> bool" where
  "replayed ser chacha c owner sc0 fuel ops plain ris live self \<longleftrightarrow>
     (\<exists>js live' ris' self'. run_writes ser chacha ops live = Inr (js, live') \<and> replay_journal fuel js self = Inr self' \<and>
        replaying ris' self' \<and> in_step chacha c owner sc0 (plain @ concat (map (ser \<circ> snd) (written ops))) (gathered ris') live' \<and>
        offsets (em_transactions (gathered ris')) = offsets (em_transactions (gathered ris)) @ map (file_offset \<circ> fst) (written ops))"

lemma replayedI:
  assumes "run_writes ser chacha ops live = Inr (js, live')" "replay_journal fuel js self = Inr self'" "replaying ris' self'"
    "in_step chacha c owner sc0 (plain @ concat (map (ser \<circ> snd) (written ops))) (gathered ris') live'"
    "offsets (em_transactions (gathered ris')) = offsets (em_transactions (gathered ris)) @ map (file_offset \<circ> fst) (written ops)"
  shows "replayed ser chacha c owner sc0 fuel ops plain ris live self"
  unfolding replayed_def using assms by blast

lemma replayedE:
  assumes "replayed ser chacha c owner sc0 fuel ops plain ris live self"
  obtains js live' ris' self' where "run_writes ser chacha ops live = Inr (js, live')" "replay_journal fuel js self = Inr self'"
    "replaying ris' self'" "in_step chacha c owner sc0 (plain @ concat (map (ser \<circ> snd) (written ops))) (gathered ris') live'"
    "offsets (em_transactions (gathered ris')) = offsets (em_transactions (gathered ris)) @ map (file_offset \<circ> fst) (written ops)"
  using assms unfolding replayed_def by blast

lemma replayed_step:
  assumes "replayed ser chacha c owner sc0 fuel ops (plain @ p) ris1 live1 self1"
    and step: "\<And>js live'. run_writes ser chacha ops live1 = Inr (js, live') \<Longrightarrow>
      run_writes ser chacha (wop # ops) live = Inr (map (Pair cp) ms @ js, live')"
    and more: "replay_journal fuel (map (Pair cp) ms) self = Inr self1"
      "written (wop # ops) = ws @ written ops" "concat (map (ser \<circ> snd) ws) = p"
      "offsets (em_transactions (gathered ris1)) = offsets (em_transactions (gathered ris)) @ map (file_offset \<circ> fst) ws"
  shows "replayed ser chacha c owner sc0 fuel (wop # ops) plain ris live self"
  using assms(1)
proof (rule replayedE)
  fix js live' ris' self'
  assume r: "run_writes ser chacha ops live1 = Inr (js, live')" "replay_journal fuel js self1 = Inr self'" "replaying ris' self'"
    "in_step chacha c owner sc0 ((plain @ p) @ concat (map (ser \<circ> snd) (written ops))) (gathered ris') live'"
    "offsets (em_transactions (gathered ris')) = offsets (em_transactions (gathered ris1)) @ map (file_offset \<circ> fst) (written ops)"
  show ?thesis
    by (rule replayedI [OF step [OF r(1)] _ r(3)])
       (use r more in \<open>simp_all add: replay_journal_append\<close>)
qed

lemma replayed_write:
  assumes "store_write_mutation ser m live = Inr (ms, live1)" "replay_journal fuel (map (Pair cp) ms) self = Inr self1"
    "offsets (em_transactions (gathered ris1)) = offsets (em_transactions (gathered ris)) @ [file_offset cp]"
    "replayed ser chacha c owner sc0 fuel ops (plain @ ser m) ris1 live1 self1"
  shows "replayed ser chacha c owner sc0 fuel (WriteM cp m # ops) plain ris live self"
  by (rule replayed_step [OF assms(4) _ assms(2), where ws = "[(cp, m)]"]) (use assms in simp_all)

lemma replayed_roll:
  assumes "roll_mutations_key chacha nk live = Inr live1" "replayed ser chacha c owner sc0 fuel ops plain ris live1 self"
  shows "replayed ser chacha c owner sc0 fuel (RollKey nk # ops) plain ris live self"
  using assms by (simp add: replayed_def)

lemma replayed_flush:
  assumes "store_apply_mutation fuel cp BeginFlush Replay self = Inr self1" "gathered ris1 = gathered ris"
    "replayed ser chacha c owner sc0 fuel ops plain ris1 live self1"
  shows "replayed ser chacha c owner sc0 fuel (FlushBegins cp # ops) plain ris live self"
proof (rule replayed_step [where ws = "[]" and ms = "[BeginFlush]" and cp = cp and p = "[]"])
  show "replayed ser chacha c owner sc0 fuel ops (plain @ []) ris1 live self1" using assms(3) by simp
qed (use assms in \<open>simp_all add: store_write_mutation_def\<close>)

lemma in_step_roll:
  assumes "in_step chacha c owner sc0 plain em live" "unwrap_key c (fst nk) owner = Inr (snd nk)"
  obtains live1 where "roll_mutations_key chacha nk live = Inr live1" "in_step chacha c owner sc0 plain em live1"
proof -
  obtain i where i: "os_store_info live = Info i"
      "decrypt_rolls chacha c owner sc0 0 (mutations_key_roll em) (em_data em) = Inr plain"
    using assms(1) unfolding in_step_def by blast
  define live1 where "live1 = live\<lparr>os_mutations_cipher := Some (stream_cipher_new chacha (snd nk) 0),
    os_store_info := Info (i\<lparr>mutations_key := Some (fst nk)\<rparr>)\<rparr>"
  have "roll_mutations_key chacha nk live = Inr live1" by (simp add: roll_mutations_key_def sri_info_def i live1_def)
  moreover have "in_step chacha c owner sc0 plain em live1"
    using i assms(2) by (simp add: in_step_def live1_def stream_cipher_new_def)
  ultimately show thesis by (rule that)
qed

lemma run_writes_replayed:
  assumes "in_step chacha c owner sc0 plain (gathered ris) live" "replaying ris self" "list_all (op_ok c owner) ops"
  shows "replayed ser chacha c owner sc0 fuel ops plain ris live self"
  using assms
proof (induction ops arbitrary: plain ris live self)
  case Nil
  then show ?case by (intro replayedI [where js = "[]" and self' = self and live' = live and ris' = ris]) simp_all
next
  case (Cons wop ops)
  have ops: "list_all (op_ok c owner) ops" and wop: "op_ok c owner wop" using Cons.prems(3) by simp_all
  show ?case
  proof (cases wop)
    case (WriteM cp m)
    obtain om where m: "m = ObjectStoreM om" using wop WriteM by auto
    obtain ms live1 ris1 self1 where w: "store_write_mutation ser m live = Inr (ms, live1)"
      "replay_journal fuel (map (Pair cp) ms) self = Inr self1" "replaying ris1 self1"
      "in_step chacha c owner sc0 (plain @ ser m) (gathered ris1) live1"
      "offsets (em_transactions (gathered ris1)) = offsets (em_transactions (gathered ris)) @ [file_offset cp]"
      unfolding m by (rule write_replayed [OF Cons.prems(1,2)])
    from Cons.IH [OF w(4,3) ops] show ?thesis unfolding WriteM by (rule replayed_write [OF w(1,2,5)])
  next
    case (RollKey nk)
    have "unwrap_key c (fst nk) owner = Inr (snd nk)" using wop by (simp add: RollKey)
    from in_step_roll [OF Cons.prems(1) this] obtain live1 where
      "roll_mutations_key chacha nk live = Inr live1" "in_step chacha c owner sc0 plain (gathered ris) live1" .
    with Cons.IH [OF this(2) Cons.prems(2) ops] show ?thesis unfolding RollKey by (intro replayed_roll)
  next
    case (FlushBegins cp)
    obtain ris1 self1 where b: "store_apply_mutation fuel cp BeginFlush Replay self = Inr self1" "replaying ris1 self1"
      "gathered ris1 = gathered ris" by (rule replay_begin_flush [OF Cons.prems(2)])
    have "in_step chacha c owner sc0 plain (gathered ris1) live" using Cons.prems(1) b(3) by simp
    from Cons.IH [OF this b(2) ops] show ?thesis unfolding FlushBegins by (rule replayed_flush [OF b(1,3)])
  qed
qed

section \<open>The property\<close>

text \<open>
  C3: the mutations of an encrypted store survive a crash. Whatever object mutations an unlocked store
  writes to the journal, interleaved with changes of the mutations key and with flushes that begin but
  never end, replaying the journal into the locked store succeeds, and what the replay has gathered
  decrypts, starting with the key and the cipher offset that the store's info records and switching keys
  where the journal says so, to the serialised mutations in the order in which they were written, each
  attributed to the journal offset of its transaction.
\<close>

theorem encrypted_mutations_roundtrip:
  assumes live: "os_store_info live = Info i" "mutations_key i = Some k0" "unwrap_key c k0 owner = Inr u0"
      "os_mutations_cipher live = Some (stream_cipher_new chacha u0 off0)"
    and mounted: "os_store_info self = ReplayInfo replay_info_new" "os_lock_state self = SUnknown" "os_parent self \<noteq> None"
    and ops: "list_all (op_ok c owner) ops"
  shows "\<exists>js live' self' ris em. run_writes ser chacha ops live = Inr (js, live') \<and> replay_journal fuel js self = Inr self' \<and>
    os_store_info self' = ReplayInfo ris \<and> em = snd (merge_replay_info ris file_info) \<and>
    decrypt_rolls chacha c owner (stream_cipher_new chacha u0 off0) 0 (mutations_key_roll em) (em_data em) =
      Inr (concat (map (ser \<circ> snd) (written ops))) \<and>
    offsets (em_transactions em) = map (file_offset \<circ> fst) (written ops)"
proof -
  have empty: "gathered replay_info_new = encrypted_mutations_default"
    by (simp add: gathered_def replay_info_new_def merge_replay_info_def replay_info_default_def em_extend_def
        encrypted_mutations_default_def)
  have "in_step chacha c owner (stream_cipher_new chacha u0 off0) [] (gathered replay_info_new) live"
    using live by (auto simp: in_step_def empty encrypted_mutations_default_def sc_decrypt_def sc_apply_stream stream_cipher_new_def)
  moreover have "replaying replay_info_new self" using mounted by (simp add: replaying_def replay_info_new_def)
  ultimately have "replayed ser chacha c owner (stream_cipher_new chacha u0 off0) fuel ops [] replay_info_new live self"
    using ops by (rule run_writes_replayed)
  then show ?thesis
  proof (rule replayedE)
    fix js live' ris' self'
    assume r: "run_writes ser chacha ops live = Inr (js, live')" "replay_journal fuel js self = Inr self'" "replaying ris' self'"
      "in_step chacha c owner (stream_cipher_new chacha u0 off0) ([] @ concat (map (ser \<circ> snd) (written ops))) (gathered ris') live'"
      "offsets (em_transactions (gathered ris')) = offsets (em_transactions (gathered replay_info_new)) @ map (file_offset \<circ> fst) (written ops)"
    have "offsets (em_transactions (gathered replay_info_new)) = []"
      by (simp add: empty encrypted_mutations_default_def offsets_def)
    with r show ?thesis
      by (intro exI [of _ js] exI [of _ live'] exI [of _ self'] exI [of _ ris'] exI [of _ "gathered ris'"])
         (auto simp: merge_replay_info_snd replaying_def in_step_def)
  qed
qed

theorem encrypted_mutations_roundtrip_witness:
  "\<exists>ser chacha c ops live self js live' self' ris em.
     run_writes ser chacha ops live = Inr (js, live') \<and> replay_journal 0 js self = Inr self' \<and> os_store_info self' = ReplayInfo ris \<and>
     em = snd (merge_replay_info ris store_info_default) \<and> length ops = 4 \<and>
     decrypt_rolls chacha c 5 (stream_cipher_new chacha [7] 10) 0 (mutations_key_roll em) (em_data em) = Inr [1, 2, 3, 1, 2, 3]"
proof -
  define ser where "ser = (\<lambda>_ :: mutation. [1, 2, 3 :: u8])"
  define chacha where "chacha = (\<lambda>(k :: unwrapped_key) n. of_nat n + sum_list k :: u8)"
  define c :: crypt where "c = \<lparr>unwrap_key = \<lambda>k _. Inr (wrapped_key_bytes k)\<rparr>"
  define k0 where "k0 = \<lparr>wrapping_key_id = 0, wrapped_key_bytes = [7 :: u8]\<rparr>"
  define k1 where "k1 = \<lparr>wrapping_key_id = 0, wrapped_key_bytes = [9 :: u8]\<rparr>"
  define cp where "cp = \<lparr>file_offset = 100, cp_checksum = 0, cp_version = 1\<rparr>"
  define m where "m = insert_object (object_key_object 3) (VSome :: encryption_keys object_value)"
  define ops where "ops = [WriteM cp m, RollKey (k1, [9]), FlushBegins cp, WriteM cp m]"
  define live where "live = object_store_new (Some 1) 5 512 (Some (store_info_default\<lparr>mutations_key := Some k0\<rparr>))
    (Some (stream_cipher_new chacha [7] 10)) (SUnlocked c) last_object_id_default"
  define self where "self = object_store_new (Some 1) 5 512 None None SUnknown last_object_id_default"
  have "os_store_info live = Info (store_info_default\<lparr>mutations_key := Some k0\<rparr>)"
    "mutations_key (store_info_default\<lparr>mutations_key := Some k0\<rparr>) = Some k0" "unwrap_key c k0 5 = Inr [7]"
    "os_mutations_cipher live = Some (stream_cipher_new chacha [7] 10)"
    "os_store_info self = ReplayInfo replay_info_new" "os_lock_state self = SUnknown" "os_parent self \<noteq> None"
    "list_all (op_ok c 5) ops"
    by (simp_all add: live_def self_def object_store_new_def c_def k0_def k1_def ops_def m_def insert_object_def)
  from encrypted_mutations_roundtrip [OF this, of ser 0 store_info_default]
  obtain js live' self' ris em where "run_writes ser chacha ops live = Inr (js, live')" "replay_journal 0 js self = Inr self'"
    "os_store_info self' = ReplayInfo ris" "em = snd (merge_replay_info ris store_info_default)"
    "decrypt_rolls chacha c 5 (stream_cipher_new chacha [7] 10) 0 (mutations_key_roll em) (em_data em) =
       Inr (concat (map (ser \<circ> snd) (written ops)))" by blast
  moreover have "concat (map (ser \<circ> snd) (written ops)) = [1, 2, 3, 1, 2, 3]" "length ops = 4"
    by (simp_all add: ops_def ser_def)
  ultimately show ?thesis by metis
qed

end
