(* ===== verification/Store_Replay.thy ===== *)
theory Store_Replay
  imports Object_Store
begin

text \<open>
  Crash consistency of a store: replaying the mutations journaled since the last flush began, over the
  layers and the info that the last completed flush has written, gives the store that was in memory.
\<close>

section \<open>A mounted store at work\<close>

text \<open>
  The events of a store: object mutations, and flushes that begin and may end. \<open>file_info\<close> and
  \<open>file_layers\<close> are what the parent store holds of it.
\<close>

type_synonym object_layer = "(object_key, encryption_keys object_value) item list"

datatype store_event =
    EvMutation checkpoint object_store_mutation
  | EvBeginFlush checkpoint
  | EvEndFlush checkpoint "nat list" "object_layer list"

record store_world =
  w_store :: object_store
  w_snapshot :: "store_info option"
  w_file_info :: store_info
  w_file_layers :: "object_layer list"

fun live_event :: "nat \<Rightarrow> store_event \<Rightarrow> store_world \<Rightarrow> store_world res" where
  "live_event fuel (EvMutation cp om) w =
     bind_res (store_apply_mutation fuel cp (ObjectStoreM om) (Live None) (w_store w)) (\<lambda>s. Inr (w\<lparr>w_store := s\<rparr>))"
| "live_event fuel (EvBeginFlush cp) w =
     bind_res (flush_snapshot (w_store w)) (\<lambda>i.
     bind_res (store_apply_mutation fuel cp BeginFlush (Live None) (w_store w)) (\<lambda>s.
       Inr (w\<lparr>w_store := s, w_snapshot := Some i\<rparr>)))"
| "live_event fuel (EvEndFlush cp ids layers) w =
     (case w_snapshot w of
        None \<Rightarrow> Inl Panic
      | Some i \<Rightarrow>
          bind_res (store_apply_mutation fuel cp EndFlush (Live None) (w_store w)) (\<lambda>s.
          bind_res (flush_committed (flush_new_info ids i) (Some layers) s) (\<lambda>s.
            Inr (w\<lparr>w_store := s, w_snapshot := None, w_file_info := flush_new_info ids i, w_file_layers := layers\<rparr>))))"

fun live_run :: "nat \<Rightarrow> store_event list \<Rightarrow> store_world \<Rightarrow> store_world res" where
  "live_run fuel [] w = Inr w"
| "live_run fuel (e # es) w = bind_res (live_event fuel e w) (live_run fuel es)"

fun replay_event :: "nat \<Rightarrow> store_event \<Rightarrow> object_store \<Rightarrow> object_store res" where
  "replay_event fuel (EvMutation cp om) s = store_apply_mutation fuel cp (ObjectStoreM om) Replay s"
| "replay_event fuel (EvBeginFlush cp) s = store_apply_mutation fuel cp BeginFlush Replay s"
| "replay_event fuel (EvEndFlush cp ids layers) s = store_apply_mutation fuel cp EndFlush Replay s"

fun replay_run :: "nat \<Rightarrow> store_event list \<Rightarrow> object_store \<Rightarrow> object_store res" where
  "replay_run fuel [] s = Inr s"
| "replay_run fuel (e # es) s = bind_res (replay_event fuel e s) (replay_run fuel es)"

text \<open>How an event changes the number of objects.\<close>

fun births :: "store_event \<Rightarrow> int" where
  "births (EvMutation cp om) =
     (case osm_op om of
        OpInsert \<Rightarrow> (case value (osm_item om) of VObject _ _ \<Rightarrow> 1 | _ \<Rightarrow> 0)
      | OpReplaceOrInsert \<Rightarrow> 0
      | OpMerge \<Rightarrow> (if is_tombstone (osm_item om) then - 1 else 0))"
| "births _ = 0"

section \<open>The simulation\<close>

text \<open>What an object mutation does to the mutable layer.\<close>

definition layer_effect :: "nat \<Rightarrow> nat \<Rightarrow> object_store_mutation \<Rightarrow> object_layer \<Rightarrow> object_layer res" where
  "layer_effect fuel off om l =
     (let i = (osm_item om)\<lparr>sequence := off\<rparr> in
      case osm_op om of
        OpInsert \<Rightarrow> skip_list_insert object_ops l i
      | OpReplaceOrInsert \<Rightarrow> Inr (skip_list_replace_or_insert object_ops l i)
      | OpMerge \<Rightarrow> skip_list_merge_into fuel object_ops object_merge l i (object_key_for_merge_into (key i)))"

definition count_effect :: "int \<Rightarrow> store_or_replay_info \<Rightarrow> store_or_replay_info res" where
  "count_effect d info = (if d = 0 then Inr info else adjust_object_count d info)"

definition lid_effect :: "apply_mode \<Rightarrow> object_store_mutation \<Rightarrow> last_object_id \<Rightarrow> last_object_id" where
  "lid_effect mode om lid =
     (case (osm_op om, value (osm_item om)) of
        (OpInsert, VObject _ _) \<Rightarrow> if is_live mode then lid else lid_update (object_id (key (osm_item om))) lid
      | _ \<Rightarrow> lid)"

lemma apply_object_mutation_eq:
  "apply_object_mutation fuel off om mode self =
     bind_res (count_effect (births (EvMutation cp om)) (os_store_info self)) (\<lambda>info.
     bind_res (layer_effect fuel off om (mutable_layer (os_tree self))) (\<lambda>l.
       Inr (self\<lparr>os_tree := (os_tree self)\<lparr>mutable_layer := l\<rparr>, os_store_info := info,
                 os_last_object_id := lid_effect mode om (os_last_object_id self)\<rparr>)))"
proof (cases "osm_op om")
  case OpInsert
  note d = apply_object_mutation_def layer_effect_def count_effect_def lid_effect_def tree_insert_def Let_def
    update_last_object_id_def bind_res_assoc
  show ?thesis
  proof (cases "\<exists>k a. value (osm_item om) = VObject k a")
    case True
    then show ?thesis using OpInsert
      by (cases "adjust_object_count 1 (os_store_info self)";
          cases "skip_list_insert object_ops (mutable_layer (os_tree self)) ((osm_item om)\<lparr>sequence := off\<rparr>)") (auto simp: d)
  next
    case False
    then show ?thesis using OpInsert
      by (cases "value (osm_item om)";
          cases "skip_list_insert object_ops (mutable_layer (os_tree self)) ((osm_item om)\<lparr>sequence := off\<rparr>)") (simp_all add: d)
  qed
next
  case OpReplaceOrInsert
  then show ?thesis
    by (simp add: apply_object_mutation_def layer_effect_def count_effect_def lid_effect_def tree_replace_or_insert_def)
next
  case OpMerge
  then show ?thesis
    by (cases "adjust_object_count (- 1) (os_store_info self)";
        cases "skip_list_merge_into fuel object_ops object_merge (mutable_layer (os_tree self)) ((osm_item om)\<lparr>sequence := off\<rparr>)
            (object_key_for_merge_into (key (osm_item om)))")
       (simp_all add: apply_object_mutation_def layer_effect_def count_effect_def lid_effect_def tree_merge_into_def is_tombstone_def)
qed

definition store_sim :: "bool \<Rightarrow> nat \<Rightarrow> store_world \<Rightarrow> object_store \<Rightarrow> bool" where
  "store_sim full n w s \<longleftrightarrow>
     mutable_layer (os_tree s) = mutable_layer (os_tree (w_store w)) \<and>
     (full \<longrightarrow> immutable_layers (os_tree (w_store w)) = immutable_layers (os_tree s) @ w_file_layers w) \<and>
     os_parent s \<noteq> None \<and>
     (\<exists>i r rs. os_store_info (w_store w) = Info i \<and> os_store_info s = ReplayInfo (r # rs) \<and>
        \<bar>object_count_delta r\<bar> \<le> int n \<and> object_count i \<le> u64_max \<and>
        (full \<longrightarrow> int (object_count i) = int (object_count (fst (merge_replay_info rs (w_file_info w)))) + object_count_delta r) \<and>
        (\<forall>snap. w_snapshot w = Some snap \<longrightarrow> int (object_count i) = int (object_count snap) + object_count_delta r))"

definition live_count :: "store_world \<Rightarrow> int" where
  "live_count w = (case os_store_info (w_store w) of Info i \<Rightarrow> int (object_count i) | ReplayInfo _ \<Rightarrow> 0)"

fun is_end :: "store_event \<Rightarrow> bool" where
  "is_end (EvEndFlush _ _ _) = True"
| "is_end _ = False"

lemma merge_count:
  "object_count (fst (merge_replay_info (r # rs) i)) =
   adjusted_count (object_count (fst (merge_replay_info rs i))) (object_count_delta r)"
  by (simp add: merge_replay_info_def split_beta)

lemma adjusted_count_eq: "int m + d = int n \<Longrightarrow> n \<le> u64_max \<Longrightarrow> adjusted_count m d = n"
  by (auto simp: adjusted_count_def)

lemma sim_mutation:
  assumes sim: "store_sim full n w s" and run: "live_event fuel (EvMutation cp om) w = Inr w'"
    and rng: "0 \<le> live_count w + births (EvMutation cp om)" "live_count w + births (EvMutation cp om) \<le> int u64_max" "n < 2 ^ 62"
  shows "\<exists>s'. replay_event fuel (EvMutation cp om) s = Inr s' \<and> store_sim full (n + 1) w' s' \<and>
    live_count w' = live_count w + births (EvMutation cp om)"
proof -
  define d where "d = births (EvMutation cp om)"
  have d: "d = 1 \<or> d = 0 \<or> d = - 1" by (auto simp: d_def split: operation.splits object_value.splits)
  obtain i r rs where c: "os_store_info (w_store w) = Info i" "os_store_info s = ReplayInfo (r # rs)"
      "\<bar>object_count_delta r\<bar> \<le> int n" "object_count i \<le> u64_max"
      "full \<Longrightarrow> int (object_count i) = int (object_count (fst (merge_replay_info rs (w_file_info w)))) + object_count_delta r"
      "\<And>snap. w_snapshot w = Some snap \<Longrightarrow> int (object_count i) = int (object_count snap) + object_count_delta r"
    using sim by (auto simp: store_sim_def)
  obtain store where st: "apply_object_mutation fuel (file_offset cp) om (Live None) (w_store w) = Inr store" "w' = w\<lparr>w_store := store\<rparr>"
    using run by (auto simp: bind_res_eq_Inr store_apply_mutation_def)
  obtain l info lid where e: "layer_effect fuel (file_offset cp) om (mutable_layer (os_tree (w_store w))) = Inr l"
      "count_effect d (os_store_info (w_store w)) = Inr info"
      "store = (w_store w)\<lparr>os_tree := (os_tree (w_store w))\<lparr>mutable_layer := l\<rparr>, os_store_info := info, os_last_object_id := lid\<rparr>"
    using st(1) unfolding apply_object_mutation_eq [where cp = cp] by (auto simp: d_def bind_res_eq_Inr)
  have cnt: "int (object_count i) + d \<ge> 0" "int (object_count i) + d \<le> int u64_max"
    using rng c(1) by (simp_all add: live_count_def d_def)
  have ad: "int (adjusted_count (object_count i) d) = int (object_count i) + d"
    using adjusted_count_eq [of "object_count i" d "nat (int (object_count i) + d)"] cnt by simp
  have info: "info = Info (i\<lparr>object_count := adjusted_count (object_count i) d\<rparr>)"
  proof (cases "d = 0")
    case True
    then show ?thesis using e(2) ad c(1) by (simp add: count_effect_def)
  next
    case False
    then show ?thesis using e(2) c(1) by (simp add: count_effect_def adjust_object_count_def)
  qed
  define r' where "r' = r\<lparr>object_count_delta := object_count_delta r + d\<rparr>"
  have bound: "- 9223372036854775808 \<le> object_count_delta r + d" "object_count_delta r + d \<le> 9223372036854775807"
    "\<bar>object_count_delta r + d\<bar> \<le> int (n + 1)"
    using c(3) d rng(3) by auto
  have rinfo: "count_effect d (os_store_info s) = Inr (ReplayInfo (r' # rs))"
    using bound c(2) by (simp add: count_effect_def adjust_object_count_def r'_def Let_def)
  have "mutable_layer (os_tree s) = mutable_layer (os_tree (w_store w))" using sim by (simp add: store_sim_def)
  with e(1) have "layer_effect fuel (file_offset cp) om (mutable_layer (os_tree s)) = Inr l" by simp
  then obtain lid' where rep: "apply_object_mutation fuel (file_offset cp) om Replay s =
      Inr (s\<lparr>os_tree := (os_tree s)\<lparr>mutable_layer := l\<rparr>, os_store_info := ReplayInfo (r' # rs), os_last_object_id := lid'\<rparr>)"
    using rinfo unfolding apply_object_mutation_eq [where cp = cp] by (simp add: d_def)
  have "store_sim full (n + 1) w' (s\<lparr>os_tree := (os_tree s)\<lparr>mutable_layer := l\<rparr>, os_store_info := ReplayInfo (r' # rs), os_last_object_id := lid'\<rparr>)"
    using sim c(5,6) bound(3) ad cnt(2) by (auto simp: store_sim_def st(2) e(3) info r'_def)
  moreover have "live_count w' = live_count w + d" using ad c(1) by (simp add: live_count_def st(2) e(3) info)
  ultimately show ?thesis using rep by (simp add: store_apply_mutation_def lock_state_allows_def is_live_def d_def)
qed

lemma sim_begin_flush:
  assumes sim: "store_sim full n w s" and run: "live_event fuel (EvBeginFlush cp) w = Inr w'"
  shows "\<exists>s'. replay_event fuel (EvBeginFlush cp) s = Inr s' \<and> store_sim full (n + 1) w' s' \<and> live_count w' = live_count w"
proof -
  obtain i r rs where c: "os_store_info (w_store w) = Info i" "os_store_info s = ReplayInfo (r # rs)" "object_count i \<le> u64_max"
      "full \<Longrightarrow> int (object_count i) = int (object_count (fst (merge_replay_info rs (w_file_info w)))) + object_count_delta r"
    using sim by (auto simp: store_sim_def)
  define s' where "s' = s\<lparr>os_tree := seal (os_tree s), os_store_info := ReplayInfo (replay_info_default # r # rs)\<rparr>"
  obtain snap where fs: "flush_snapshot (w_store w) = Inr snap"
      "w' = w\<lparr>w_store := (w_store w)\<lparr>os_tree := seal (os_tree (w_store w)), os_store_info := Info i\<rparr>, w_snapshot := Some snap\<rparr>"
    using run c(1) by (auto simp: bind_res_eq_Inr store_apply_mutation_def sri_begin_flush_def)
  have snap: "object_count snap = object_count i" using fs(1) c(1) by (auto simp: flush_snapshot_def sri_info_def)
  have "replay_event fuel (EvBeginFlush cp) s = Inr s'"
    using sim c(2) by (auto simp: store_sim_def store_apply_mutation_def lock_state_allows_def is_live_def sri_begin_flush_def s'_def)
  moreover have "full \<Longrightarrow> adjusted_count (object_count (fst (merge_replay_info rs (w_file_info w)))) (object_count_delta r) = object_count i"
    using c(3,4) by (intro adjusted_count_eq) simp_all
  then have "store_sim full (n + 1) w' s'"
    using sim c by (auto simp: store_sim_def fs(2) snap s'_def seal_def merge_count replay_info_default_def)
  moreover have "live_count w' = live_count w" by (simp add: live_count_def fs(2) c(1))
  ultimately show ?thesis by blast
qed

lemma sim_end_flush:
  assumes sim: "store_sim full n w s" and run: "live_event fuel (EvEndFlush cp ids layers) w = Inr w'"
  shows "\<exists>s'. replay_event fuel (EvEndFlush cp ids layers) s = Inr s' \<and> store_sim True (n + 1) w' s' \<and> live_count w' = live_count w"
proof -
  obtain i r rs where c: "os_store_info (w_store w) = Info i" "os_store_info s = ReplayInfo (r # rs)" "object_count i \<le> u64_max"
      "\<bar>object_count_delta r\<bar> \<le> int n"
      "\<And>snap. w_snapshot w = Some snap \<Longrightarrow> int (object_count i) = int (object_count snap) + object_count_delta r"
    using sim by (auto simp: store_sim_def)
  obtain snap where snap: "w_snapshot w = Some snap" using run by (auto split: option.splits)
  define s' where "s' = s\<lparr>os_tree := reset_immutable_layers (os_tree s), os_store_info := ReplayInfo [r]\<rparr>"
  obtain i' where w': "w_snapshot w' = None" "w_file_info w' = flush_new_info ids snap" "w_file_layers w' = layers"
      "os_tree (w_store w') = set_layers layers (os_tree (w_store w))" "os_store_info (w_store w') = Info i'"
      "object_count i' = object_count i"
    using run c(1) snap
    by (auto simp: bind_res_eq_Inr flush_committed_def store_apply_mutation_def sri_info_def is_live_def)
  have "replay_event fuel (EvEndFlush cp ids layers) s = Inr s'"
    using sim c(2) by (auto simp: store_sim_def store_apply_mutation_def lock_state_allows_def is_live_def sri_end_flush_def s'_def)
  moreover have "store_sim True (n + 1) w' s'"
    using sim c(3,4) c(5) [OF snap]
    by (simp add: store_sim_def s'_def w' reset_immutable_layers_def set_layers_def merge_replay_info_def flush_new_info_def)
  moreover have "live_count w' = live_count w" by (simp add: live_count_def w' c(1))
  ultimately show ?thesis by blast
qed

lemma sim_run:
  assumes "store_sim full n w s" "live_run fuel es w = Inr w'" "n + length es < 2 ^ 62"
    "\<forall>k \<le> length es. 0 \<le> live_count w + sum_list (map births (take k es)) \<and>
       live_count w + sum_list (map births (take k es)) \<le> int u64_max"
  shows "\<exists>s'. replay_run fuel es s = Inr s' \<and> store_sim (full \<or> list_ex is_end es) (n + length es) w' s'"
  using assms
proof (induction es arbitrary: full n w s)
  case (Cons e es)
  obtain w1 where step: "live_event fuel e w = Inr w1" "live_run fuel es w1 = Inr w'"
    using Cons.prems(2) by (auto simp: bind_res_eq_Inr)
  have rng: "0 \<le> live_count w + births e" "live_count w + births e \<le> int u64_max"
    using Cons.prems(4) [rule_format, of 1] by simp_all
  have "\<exists>s1. replay_event fuel e s = Inr s1 \<and> store_sim (full \<or> is_end e) (n + 1) w1 s1 \<and> live_count w1 = live_count w + births e"
  proof (cases e)
    case (EvMutation cp om)
    then show ?thesis using sim_mutation [of full n w s fuel cp om w1] Cons.prems(1,3) step(1) rng by simp
  next
    case (EvBeginFlush cp)
    then show ?thesis using sim_begin_flush [OF Cons.prems(1)] step(1) by simp
  next
    case (EvEndFlush cp ids layers)
    then show ?thesis using sim_end_flush [OF Cons.prems(1)] step(1) by simp
  qed
  then obtain s1 where s1: "replay_event fuel e s = Inr s1" "store_sim (full \<or> is_end e) (n + 1) w1 s1" "live_count w1 = live_count w + births e"
    by blast
  have "\<forall>k \<le> length es. 0 \<le> live_count w1 + sum_list (map births (take k es)) \<and>
       live_count w1 + sum_list (map births (take k es)) \<le> int u64_max"
    using Cons.prems(4) [rule_format, of "Suc k" for k] s1(3) by (auto simp: add.assoc)
  from Cons.IH [OF s1(2) step(2) _ this] Cons.prems(3) s1(1) show ?case by (auto simp: disj_ac)
qed simp

section \<open>The property\<close>

text \<open>
  Where a replay may start: when the store has just been mounted, or after the mutation with which a
  flush began that is completed among the events replayed.
\<close>

definition replay_starts :: "store_event list \<Rightarrow> store_world \<Rightarrow> bool" where
  "replay_starts es w \<longleftrightarrow>
     (\<exists>i. os_store_info (w_store w) = Info i \<and> object_count i \<le> u64_max \<and> mutable_layer (os_tree (w_store w)) = [] \<and>
        (w_snapshot w = None \<and> immutable_layers (os_tree (w_store w)) = w_file_layers w \<and>
           object_count (w_file_info w) = object_count i \<or>
         (\<exists>snap. w_snapshot w = Some snap \<and> object_count snap = object_count i \<and> list_ex is_end es)))"

text \<open>
  C2: a store survives a crash. Let a mounted store apply object mutations and flushes, of which some may
  not have ended. Replaying the mutations into an empty store succeeds, even when those from before the
  beginning of the last completed flush are no longer in the journal, and opening the store afterwards
  with the info and the layers that the last completed flush has written gives exactly the layers, and
  the number of objects, that the store had in memory. The store is one that is not encrypted: an
  encrypted one is only opened when it is unlocked.
\<close>

theorem replay_rebuilds_store:
  assumes start: "replay_starts es w"
    and run: "live_run fuel es w = Inr w'"
    and fits: "length es < 2 ^ 62"
      "\<forall>k \<le> length es. 0 \<le> live_count w + sum_list (map births (take k es)) \<and>
         live_count w + sum_list (map births (take k es)) \<le> int u64_max"
    and plain: "mutations_key (w_file_info w') = None"
  shows "\<exists>s' s'' i i'. replay_run fuel es (object_store_new (Some parent) oid bs None None SUnknown last_object_id_default) = Inr s' \<and>
    store_on_replay_complete (Some (w_file_info w')) (w_file_layers w') s' = Inr s'' \<and>
    layer_set (os_tree s'') = layer_set (os_tree (w_store w')) \<and>
    os_store_info s'' = Info i \<and> os_store_info (w_store w') = Info i' \<and> object_count i = object_count i'"
proof -
  define s where "s = object_store_new (Some parent) oid bs None None SUnknown last_object_id_default"
  define full where "full \<longleftrightarrow> w_snapshot w = None"
  have "store_sim full 0 w s"
    using start by (auto simp: replay_starts_def store_sim_def full_def s_def object_store_new_def tree_new_def
        replay_info_new_def replay_info_default_def merge_replay_info_def)
  from sim_run [OF this run _ fits(2)] fits(1) obtain s' where s': "replay_run fuel es s = Inr s'"
      "store_sim (full \<or> list_ex is_end es) (length es) w' s'" by auto
  have "full \<or> list_ex is_end es" using start by (auto simp: replay_starts_def full_def)
  with s'(2) obtain i r rs where c: "os_store_info (w_store w') = Info i" "os_store_info s' = ReplayInfo (r # rs)" "object_count i \<le> u64_max"
      "int (object_count i) = int (object_count (fst (merge_replay_info rs (w_file_info w')))) + object_count_delta r"
      "mutable_layer (os_tree s') = mutable_layer (os_tree (w_store w'))"
      "immutable_layers (os_tree (w_store w')) = immutable_layers (os_tree s') @ w_file_layers w'"
    by (auto simp: store_sim_def)
  obtain j em where m: "merge_replay_info (r # rs) (w_file_info w') = (j, em)" by fastforce
  have "object_count j = object_count i"
    using adjusted_count_eq [of "object_count (fst (merge_replay_info rs (w_file_info w')))" "object_count_delta r" "object_count i"]
      c(3,4) m merge_count [of r rs "w_file_info w'"] by simp
  moreover have "mutations_key (fst (fold (\<lambda>r (i, em). (i\<lparr>object_count := f i r\<rparr>, g r em)) rs (i, em))) = mutations_key i"
    for f :: "store_info \<Rightarrow> replay_info \<Rightarrow> nat" and g :: "replay_info \<Rightarrow> encrypted_mutations \<Rightarrow> encrypted_mutations" and rs i em
    by (induction rs arbitrary: i em) simp_all
  from this [of "\<lambda>i r. adjusted_count (object_count i) (object_count_delta r)" "\<lambda>r. em_extend (ri_encrypted_mutations r)"
      "rev (r # rs)" "w_file_info w'" encrypted_mutations_default]
  have "mutations_key j = None" using m plain by (simp add: merge_replay_info_def)
  ultimately show ?thesis
    using s'(1) c m unfolding s_def
    by (auto simp: store_on_replay_complete_def update_last_object_id_def append_layers_def layer_set_def Let_def)
qed

text \<open>A store that gets an object, begins a flush, gets another object and completes the flush.\<close>

definition example_birth :: "nat \<Rightarrow> object_store_mutation" where
  "example_birth oid = \<lparr>osm_item = item_new (object_key_object oid) (value_file 1 0 timestamp_zero timestamp_zero), osm_op = OpInsert\<rparr>"

definition example_events :: "store_event list" where
  "example_events =
     (let cp = \<lparr>file_offset = 100, cp_checksum = 0, cp_version = 1\<rparr> in
      [EvMutation cp (example_birth 3), EvBeginFlush cp, EvMutation cp (example_birth 4),
       EvEndFlush cp [9] [[(osm_item (example_birth 3))\<lparr>sequence := 100\<rparr>]]])"

definition example_world :: store_world where
  "example_world = \<lparr>w_store = object_store_new_empty (Some 1) 5 512, w_snapshot = None, w_file_info = store_info_default, w_file_layers = []\<rparr>"

theorem replay_rebuilds_store_witness:
  "\<exists>w' s' s'' i. live_run 1 example_events example_world = Inr w' \<and>
     replay_run 1 example_events (object_store_new (Some 1) 5 512 None None SUnknown last_object_id_default) = Inr s' \<and>
     store_on_replay_complete (Some (w_file_info w')) (w_file_layers w') s' = Inr s'' \<and>
     layer_set (os_tree s'') = layer_set (os_tree (w_store w')) \<and> length (layer_set (os_tree s'')) = 2 \<and>
     os_store_info s'' = Info i \<and> object_count i = 2"
proof -
  have "\<exists>w'. live_run 1 example_events example_world = Inr w' \<and> mutations_key (w_file_info w') = None \<and>
      length (layer_set (os_tree (w_store w'))) = 2 \<and> (\<exists>i'. os_store_info (w_store w') = Info i' \<and> object_count i' = 2)"
    by (simp add: example_events_def example_world_def example_birth_def object_store_new_empty_def object_store_new_def
        store_apply_mutation_def lock_state_allows_def is_live_def apply_object_mutation_def value_file_def item_new_def
        adjust_object_count_def adjusted_count_def store_info_default_def u64_max_def tree_insert_def skip_list_insert_def
        iter_mut_new_def tree_new_def flush_snapshot_def sri_info_def sri_begin_flush_def seal_def flush_new_info_def
        flush_committed_def set_layers_def layer_set_def Let_def)
  then obtain w' i' where run: "live_run 1 example_events example_world = Inr w'" "mutations_key (w_file_info w') = None"
      "length (layer_set (os_tree (w_store w'))) = 2" "os_store_info (w_store w') = Info i'" "object_count i' = 2" by blast
  have b: "map births example_events = [1, 0, 1, 0]"
    by (simp add: example_events_def Let_def example_birth_def value_file_def item_new_def)
  have start: "replay_starts example_events example_world" "length example_events < 2 ^ 62" "live_count example_world = 0"
    by (simp_all add: replay_starts_def example_world_def example_events_def Let_def object_store_new_empty_def object_store_new_def
        store_info_default_def tree_new_def live_count_def)
  have "\<forall>k \<le> length example_events. 0 \<le> live_count example_world + sum_list (map births (take k example_events)) \<and>
      live_count example_world + sum_list (map births (take k example_events)) \<le> int u64_max"
  proof (intro allI impI)
    fix k assume "k \<le> length example_events"
    have "k \<in> {0, 1, 2, 3, 4}" using \<open>k \<le> length example_events\<close> by (auto simp: example_events_def Let_def)
    then show "0 \<le> live_count example_world + sum_list (map births (take k example_events)) \<and>
      live_count example_world + sum_list (map births (take k example_events)) \<le> int u64_max"
      using start(3) by (auto simp: b u64_max_def simp flip: take_map)
  qed
  from replay_rebuilds_store [OF start(1) run(1) start(2) this run(2), of 1 5 512] run show ?thesis by fastforce
qed

end
