(* ===== verification/Tree_Flush.thy ===== *)
theory Tree_Flush
  imports Object_Store
begin

text \<open>
  Compacting a tree to a new layer file (\<^verbatim>\<open>src/src/object_store/tree.rs\<close>): which layers take part, what is
  written, and that the tree means the same afterwards.

  A layer comes with the size of its file, or none when it is still in memory.
\<close>

section \<open>Choosing the layers\<close>

definition default_reclaim_size :: nat where
  "default_reclaim_size = 262144"

text \<open>The position of the first layer that is kept, with the total size and the number of the files before it.\<close>

fun flush_position :: "nat \<Rightarrow> nat \<Rightarrow> nat \<Rightarrow> nat option list \<Rightarrow> (nat \<times> nat \<times> nat) res" where
  "flush_position total_size layer_count index [] = Inr (index, total_size, layer_count)"
| "flush_position total_size layer_count index (None # layers) =
     flush_position total_size layer_count (index + 1) layers"
| "flush_position total_size layer_count index (Some n # layers) =
     bind_res
       (if total_size > 0
        then bind_res (u64_mul total_size 4) (\<lambda>t. bind_res (u64_mul n 3) (\<lambda>m. Inr (t < m)))
        else Inr False) (\<lambda>stop.
       if stop then Inr (index, total_size, layer_count)
       else bind_res (u64_add total_size n) (\<lambda>t. flush_position t (layer_count + 1) (index + 1) layers))"

definition flush_split :: "nat option list \<Rightarrow> nat res" where
  "flush_split layers =
     bind_res (flush_position 0 0 0 layers) (\<lambda>(split_index, total_size, layer_count).
       Inr (if layer_count = 1 \<and> total_size > default_reclaim_size \<and> layers ! (split_index - 1) \<noteq> None
            then split_index - 1 else split_index))"

text \<open>
  \<^verbatim>\<open>flush\<close>: the items of the new layer, the layers kept, the layers to purge. \<open>major_iter\<close> drops what a
  compaction of everything need not write.
\<close>

definition tree_flush ::
  "nat \<Rightarrow> 'k key_ops \<Rightarrow> ('k, 'v) merge_fn \<Rightarrow> (('k, 'v) item \<Rightarrow> bool) \<Rightarrow> nat option list \<Rightarrow> ('k, 'v) lsm_tree \<Rightarrow>
   (('k, 'v) item list \<times> ('k, 'v) item list list \<times> ('k, 'v) item list list) res" where
  "tree_flush fuel ops mf major_iter sizes t =
     bind_res (flush_split sizes) (\<lambda>split_index.
     let layers = take split_index (immutable_layer_set t);
         layers_to_keep = drop split_index (immutable_layer_set t)
     in bind_res (merger_seek fuel ops mf layers Unbounded) (\<lambda>it.
        bind_res (compact_with_iterator fuel ops mf it) (\<lambda>items.
          Inr (if layers_to_keep = [] then filter major_iter items else items, layers_to_keep, layers))))"

definition object_major_iter :: "(object_key, 'wk object_value) item \<Rightarrow> bool" where
  "object_major_iter i = (case value i of VNone \<Rightarrow> False | VExtent ExtentNone \<Rightarrow> False | _ \<Rightarrow> True)"

definition reservation_amount_from_layer_size :: "nat \<Rightarrow> nat res" where
  "reservation_amount_from_layer_size layer_size = bind_res (u64_mul layer_size 3) (\<lambda>n. Inr (n div 2))"

definition layer_size_from_encrypted_mutations_size :: "nat \<Rightarrow> nat res" where
  "layer_size_from_encrypted_mutations_size n = u64_mul n 3"

section \<open>The choice\<close>

lemma flush_position_bounds:
  "flush_position t c index layers = Inr (split_index, t', c') \<Longrightarrow>
   index \<le> split_index \<and> split_index \<le> index + length layers \<and> c \<le> c' \<and> (c < c' \<longrightarrow> index < split_index)"
  by (induction t c index layers rule: flush_position.induct) (fastforce simp: bind_res_eq_Inr split: if_splits)+

text \<open>Layers still in memory at the top are always written.\<close>

lemma flush_position_memory:
  "flush_position t c index (replicate n None @ layers) = flush_position t c (index + n) layers"
  by (induction n arbitrary: index) simp_all

section \<open>The meaning of the tree\<close>

text \<open>What a reader sees: absent records and holes are not there.\<close>

definition shows_up :: "'wk meaning \<Rightarrow> bool" where
  "shows_up w =
     (case w of Record VNone \<Rightarrow> False | Record (VExtent ExtentNone) \<Rightarrow> False | Byte Hole \<Rightarrow> False | _ \<Rightarrow> True)"

definition visible :: "'wk meaning option \<Rightarrow> 'wk meaning option" where
  "visible w = (case w of None \<Rightarrow> None | Some m \<Rightarrow> if shows_up m then Some m else None)"

lemma major_iter_visible:
  assumes "object_ok bs i"
  shows "object_major_iter i \<longleftrightarrow> shows_up (object_val bs i q)"
  using assms
  by (cases "data (key i)"; cases "value i")
     (auto simp: object_major_iter_def shows_up_def object_val_def object_ok_def byte_at_def
       split: attribute_key.splits extent_value.splits)

lemma layers_at_append:
  "layers_at S (ls @ ls') p = (case layers_at S ls p of Some w \<Rightarrow> Some w | None \<Rightarrow> layers_at S ls' p)"
  by (induction ls) (auto split: option.splits)

text \<open>
  C27: flushing a tree of an object store whose layers are well formed (block-aligned extents with one checksum per
  block, any other records, but no tombstones of objects) never fails and does not change what the store
  means: the new layer with the layers that are kept shows every record and every byte exactly as the old
  layers did. The layers purged and the layers kept are the old layers in order, and the layers still in
  memory, which only the journal backs, are all written.
\<close>

theorem tree_flush_keeps_meaning:
  assumes ok: "\<forall>l \<in> set (immutable_layers t). layer_ok (object_sem bs) l"
    and fuel: "sum_list (map (layer_weight (object_sem bs)) (immutable_layers t)) + 1 < fuel"
    and sizes: "sizes = replicate n None @ map Some files" "length sizes = length (immutable_layers t)"
    and split: "flush_split sizes = Inr k"
  shows "\<exists>new keep purge. tree_flush fuel object_ops object_merge object_major_iter sizes t = Inr (new, keep, purge) \<and>
    purge @ keep = immutable_layers t \<and> n \<le> length purge \<and> layer_ok (object_sem bs) new \<and>
    (\<forall>p. visible (layers_at (object_sem bs) (new # keep) p) = visible (layers_at (object_sem bs) (immutable_layers t) p))"
proof -
  define purge keep where "purge = take k (immutable_layers t)" and "keep = drop k (immutable_layers t)"
  let ?t = "\<lparr>mutable_layer = [], immutable_layers = purge\<rparr>"
  have pk: "purge @ keep = immutable_layers t" by (simp add: purge_def keep_def)
  then have "sum_list (map (layer_weight (object_sem bs)) purge) \<le> sum_list (map (layer_weight (object_sem bs)) (immutable_layers t))"
    by (metis le_add1 map_append sum_list.append)
  then have "\<exists>out. compact fuel object_ops object_merge ?t = Inr out \<and> layer_ok (object_sem bs) out \<and>
      (\<forall>p. layer_at (object_sem bs) out p = layers_at (object_sem bs) (immutable_layers ?t) p)"
    using ok fuel by (intro obj.compact_correct) (auto simp: purge_def dest: in_set_takeD)
  then obtain out where out: "compact fuel object_ops object_merge ?t = Inr out" "layer_ok (object_sem bs) out"
    "\<And>p. layer_at (object_sem bs) out p = layers_at (object_sem bs) purge p" by auto
  define new where "new = (if keep = [] then filter object_major_iter out else out)"
  have run: "tree_flush fuel object_ops object_merge object_major_iter sizes t = Inr (new, keep, purge)"
    using out(1) split
    by (auto simp: tree_flush_def compact_def immutable_layer_set_def purge_def keep_def new_def bind_res_eq_Inr)
  have "visible (layers_at (object_sem bs) (new # keep) p) = visible (layers_at (object_sem bs) (immutable_layers t) p)" for p
  proof (cases "keep = []")
    case True
    have "layer_at (object_sem bs) (filter object_major_iter out) p =
        (case layer_at (object_sem bs) out p of None \<Rightarrow> None | Some w \<Rightarrow> if shows_up w then Some w else None)"
      using out(2) major_iter_visible layer_ok_ok [OF out(2)] by (intro layer_at_filter_meaning) auto
    then show ?thesis using True out(3) pk by (auto simp: new_def visible_def split: option.splits)
  next
    case False
    then show ?thesis using out(3) by (simp add: new_def layers_at_append flip: pk)
  qed
  moreover have "layer_ok (object_sem bs) new" using out(2) by (simp add: new_def layer_ok_filter)
  moreover have "n \<le> length purge"
  proof -
    obtain idx total cnt where pos: "flush_position 0 0 0 sizes = Inr (idx, total, cnt)"
        "k = (if cnt = 1 \<and> total > default_reclaim_size \<and> sizes ! (idx - 1) \<noteq> None then idx - 1 else idx)"
      using split by (auto simp: flush_split_def bind_res_eq_Inr)
    have "flush_position 0 0 n (map Some files) = Inr (idx, total, cnt)"
      using pos(1) flush_position_memory [of 0 0 0 n "map Some files"] sizes(1) by simp
    from flush_position_bounds [OF this] have "n \<le> k" "k \<le> length sizes" using pos(2) sizes(1) by auto
    then show ?thesis using sizes(2) by (simp add: purge_def)
  qed
  ultimately show ?thesis using run pk by blast
qed

definition example_layers :: "(object_key, nat object_value) lsm_tree" where
  "example_layers = \<lparr>mutable_layer = [],
     immutable_layers = [[extent_item 5 0 (Range 512 1024) (ExtentSome 8192 ChecksumsNone 0) 2],
                         [extent_item 5 0 (Range 0 1536) (ExtentSome 4096 ChecksumsNone 0) 1]]\<rparr>"

theorem tree_flush_keeps_meaning_witness:
  "\<exists>new keep purge. tree_flush 5000 object_ops object_merge object_major_iter [None, Some 4096] example_layers = Inr (new, keep, purge) \<and>
     purge @ keep = immutable_layers example_layers \<and>
     visible (layers_at (object_sem 512) (new # keep) [5, 2, 0, 1, 600]) = Some (Byte (Mapped 8280 None 0))"
proof -
  have ok: "\<forall>l \<in> set (immutable_layers example_layers). layer_ok (object_sem 512) l"
    "sum_list (map (layer_weight (object_sem 512)) (immutable_layers example_layers)) + 1 < 5000"
    by (simp_all add: example_layers_def value_fits_def u64_max_def)
  have split: "flush_split [None, Some 4096] = Inr 2"
    by (simp add: flush_split_def u64_add_def u64_max_def default_reclaim_size_def)
  have "layers_at (object_sem 512) (immutable_layers example_layers) [5, 2, 0, 1, 600] = Some (Byte (Mapped 8280 None 0))"
    by (simp add: example_layers_def item_at_def byte_at_def block_checksum_def)
  then have "visible (layers_at (object_sem 512) (immutable_layers example_layers) [5, 2, 0, 1, 600]) = Some (Byte (Mapped 8280 None 0))"
    by (simp add: visible_def shows_up_def)
  with tree_flush_keeps_meaning [OF ok, of "[None, Some 4096]" 1 "[4096]" 2] split show ?thesis
    by (auto simp: example_layers_def)
qed

end
