(* ===== verification/Super_Block.thy ===== *)
theory Super_Block
  imports Object_Store Btree_Map Fxfs_Arith
begin

text \<open>
  Super blocks (\<^verbatim>\<open>src/src/object_store/journal/super_block.rs\<close>) and the handle that reads them and the
  journal before any store is open (\<^verbatim>\<open>src/src/object_handle/bootstrap.rs\<close>). Two instances are written in
  turn; mounting takes the readable one with the greater generation. A super block is a header followed
  by the records of the root parent store.

  The device read, new buffers, the serialiser of headers and records, and the allocation of further extents are
  parameters. Times and metrics are left out; so is the random GUID.
\<close>

section \<open>The bootstrap handle\<close>

record bootstrap_handle =
  bh_object_id :: nat
  start_offset :: nat
  bh_extents :: "u64_range list"
  bh_size :: nat

definition bootstrap_new_with_start_offset :: "nat \<Rightarrow> nat \<Rightarrow> bootstrap_handle" where
  "bootstrap_new_with_start_offset oid start = \<lparr>bh_object_id = oid, start_offset = start, bh_extents = [], bh_size = 0\<rparr>"

definition bootstrap_new :: "nat \<Rightarrow> bootstrap_handle" where
  "bootstrap_new oid = bootstrap_new_with_start_offset oid 0"

definition push_extent :: "u64_range \<Rightarrow> bootstrap_handle \<Rightarrow> bootstrap_handle res" where
  "push_extent r self =
     (case range_length r of
        Inl _ \<Rightarrow> Inl Panic
      | Inr len \<Rightarrow> bind_res (u64_add (bh_size self) len) (\<lambda>n. Inr (self\<lparr>bh_extents := bh_extents self @ [r], bh_size := n\<rparr>)))"

text \<open>From the last extent back, as long as an extent begins at or after the offset.\<close>

fun discard_from_end :: "nat \<Rightarrow> nat \<Rightarrow> nat \<Rightarrow> u64_range list \<Rightarrow> (u64_range list \<times> nat) res" where
  "discard_from_end discard_offset off n [] = Inr ([], n)"
| "discard_from_end discard_offset off n (r # rs) =
     (case range_length r of
        Inl _ \<Rightarrow> Inl Panic
      | Inr len \<Rightarrow>
          (case checked_sub off len of
             None \<Rightarrow> Inl Panic
           | Some off \<Rightarrow>
               if off < discard_offset then Inr (r # rs, n)
               else bind_res (u64_sub n len) (\<lambda>n. discard_from_end discard_offset off n rs)))"

definition discard_extents :: "nat \<Rightarrow> bootstrap_handle \<Rightarrow> bootstrap_handle res" where
  "discard_extents discard_offset self =
     bind_res (u64_add (start_offset self) (bh_size self)) (\<lambda>off.
     bind_res (discard_from_end discard_offset off (bh_size self) (rev (bh_extents self))) (\<lambda>(rs, n).
       Inr (self\<lparr>bh_extents := rev rs, bh_size := n\<rparr>)))"

text \<open>
  \<^verbatim>\<open>read\<close> fills the buffer from the extents and reports its whole length even when the extents end
  before; the rest of the buffer is then as it was. \<open>off\<close> is where the next byte to read is, \<open>at\<close> where
  the extent begins in the file, \<open>buf\<close> the part of the buffer still to fill.
\<close>

fun read_extents ::
  "(nat \<Rightarrow> nat \<Rightarrow> u8 list res) \<Rightarrow> u64_range list \<Rightarrow> nat \<Rightarrow> nat \<Rightarrow> u8 list \<Rightarrow> u8 list res" where
  "read_extents dev [] at off buf = Inr buf"
| "read_extents dev (r # rs) at off buf =
     bind_res (u64_sub (rend r) (rstart r)) (\<lambda>extent_len.
       if off < at + extent_len
       then
         bind_res (u64_sub (rstart r + off) at) (\<lambda>device_offset.
         let to_read = min (rend r - device_offset) (length buf) in
         bind_res (dev device_offset to_read) (\<lambda>bytes.
           if to_read = length buf then Inr bytes
           else bind_res (read_extents dev rs (at + extent_len) (off + to_read) (drop to_read buf)) (\<lambda>more.
                  Inr (bytes @ more))))
       else read_extents dev rs (at + extent_len) off buf)"

definition bootstrap_read ::
  "(nat \<Rightarrow> nat \<Rightarrow> u8 list res) \<Rightarrow> (nat \<Rightarrow> u8 list) \<Rightarrow> bootstrap_handle \<Rightarrow> nat \<Rightarrow> nat \<Rightarrow> u8 list res" where
  "bootstrap_read dev new_buffer self off len =
     bind_res (ensure (off \<ge> start_offset self) Panic) (\<lambda>_.
       read_extents dev (bh_extents self) (start_offset self) off (new_buffer len))"

section \<open>Instances and headers\<close>

datatype super_block_instance = InstanceA | InstanceB

definition instance_next :: "super_block_instance \<Rightarrow> super_block_instance" where
  "instance_next i = (case i of InstanceA \<Rightarrow> InstanceB | InstanceB \<Rightarrow> InstanceA)"

definition instance_object_id :: "super_block_instance \<Rightarrow> nat" where
  "instance_object_id i = (case i of InstanceA \<Rightarrow> 1 | InstanceB \<Rightarrow> 2)"

definition min_super_block_size :: nat where
  "min_super_block_size = 524288"

definition super_block_block_size :: nat where
  "super_block_block_size = 8192"

definition super_block_chunk_size :: nat where
  "super_block_chunk_size = 65536"

definition first_extent :: "super_block_instance \<Rightarrow> u64_range" where
  "first_extent i =
     (case i of
        InstanceA \<Rightarrow> Range 0 min_super_block_size
      | InstanceB \<Rightarrow> Range min_super_block_size (2 * min_super_block_size))"

record super_block_header =
  generation :: nat
  sb_root_parent_store_object_id :: nat
  sb_root_parent_graveyard_directory_object_id :: nat
  sb_root_store_object_id :: nat
  sb_allocator_object_id :: nat
  sb_journal_object_id :: nat
  journal_checkpoint :: checkpoint
  super_block_journal_file_offset :: nat
  sb_journal_file_offsets :: "(nat, nat) btree_map"
  sb_borrowed_metadata_space :: nat
  earliest_version :: nat

definition super_block_header_new :: "nat \<Rightarrow> nat \<Rightarrow> nat \<Rightarrow> nat \<Rightarrow> nat \<Rightarrow> checkpoint \<Rightarrow> nat \<Rightarrow> super_block_header" where
  "super_block_header_new root_parent graveyard root_store allocator_id journal cp version =
     \<lparr>generation = 1, sb_root_parent_store_object_id = root_parent,
      sb_root_parent_graveyard_directory_object_id = graveyard, sb_root_store_object_id = root_store,
      sb_allocator_object_id = allocator_id, sb_journal_object_id = journal, journal_checkpoint = cp,
      super_block_journal_file_offset = 0, sb_journal_file_offsets = [], sb_borrowed_metadata_space = 0,
      earliest_version = version\<rparr>"

datatype super_block_record =
    SbExtent u64_range
  | SbObjectItem "encryption_keys object_item"
  | SbEnd

section \<open>Reading\<close>

text \<open>
  \<^verbatim>\<open>read_header\<close>: \<open>deser_header\<close> is the versioned deserialiser of headers, which returns the header, its
  version and the number of bytes it took.
\<close>

definition super_block_magic :: "u8 list" where
  "super_block_magic = [0x46, 0x78, 0x66, 0x73, 0x53, 0x75, 0x70, 0x72]"

definition check_header ::
  "nat \<Rightarrow> (u8 list \<Rightarrow> (super_block_header \<times> nat \<times> nat) option) \<Rightarrow> u8 list \<Rightarrow> (super_block_header \<times> nat \<times> nat) res" where
  "check_header earliest_supported deser_header bytes =
     bind_res (ensure (length bytes \<ge> 8) Bail) (\<lambda>_.
     bind_res (ensure (take 8 bytes = super_block_magic) Bail) (\<lambda>_.
     case deser_header (drop 8 bytes) of
       None \<Rightarrow> Inl Bail
     | Some (h, version, taken) \<Rightarrow>
         bind_res (ensure (version \<ge> earliest_supported) Bail) (\<lambda>_.
         bind_res (ensure (cp_version (journal_checkpoint h) \<ge> earliest_supported) Bail) (\<lambda>_.
         bind_res (ensure (earliest_version h \<ge> earliest_supported) Bail) (\<lambda>_.
           Inr (h, version, 8 + taken))))))"

definition read_header ::
  "nat \<Rightarrow> (nat \<Rightarrow> nat \<Rightarrow> u8 list res) \<Rightarrow> (nat \<Rightarrow> u8 list) \<Rightarrow> nat \<Rightarrow>
   (u8 list \<Rightarrow> (super_block_header \<times> nat \<times> nat) option) \<Rightarrow> super_block_instance \<Rightarrow>
   (super_block_header \<times> bootstrap_handle \<times> journal_reader) res" where
  "read_header fuel dev new_buffer earliest_supported deser_header i =
     bind_res (push_extent (first_extent i) (bootstrap_new (instance_object_id i))) (\<lambda>handle.
     bind_res (reader_new super_block_block_size \<lparr>file_offset = 0, cp_checksum = 0, cp_version = 0\<rparr>) (\<lambda>reader.
     bind_res (fill_buf fuel (bootstrap_read dev new_buffer handle) reader) (\<lambda>reader.
     bind_res (check_header earliest_supported deser_header (reader_buffer reader)) (\<lambda>(h, version, taken).
     bind_res (consume taken reader) (\<lambda>reader.
       Inr (h, handle, reader\<lparr>r_version := version\<rparr>))))))"

text \<open>\<^verbatim>\<open>next_item\<close>: extent records extend the handle and are skipped.\<close>

fun next_item ::
  "nat \<Rightarrow> (nat \<Rightarrow> nat \<Rightarrow> u8 list res) \<Rightarrow> (nat \<Rightarrow> u8 list) \<Rightarrow> super_block_record deserializer \<Rightarrow> bootstrap_handle \<Rightarrow>
   journal_reader \<Rightarrow> (super_block_record \<times> bootstrap_handle \<times> journal_reader) res" where
  "next_item 0 dev new_buffer deser handle reader = Inl OutOfFuel"
| "next_item (Suc fuel) dev new_buffer deser handle reader =
     bind_res (deserialize (Suc fuel) (bootstrap_read dev new_buffer handle) deser reader) (\<lambda>(result, reader).
       case result of
         Reset \<Rightarrow> Inl Bail
       | ChecksumMismatch \<Rightarrow> Inl Bail
       | GotRecord (SbExtent e) \<Rightarrow>
           bind_res (ensure (range_is_valid e) (Fxfs Inconsistent)) (\<lambda>_.
           bind_res (push_extent e handle) (\<lambda>handle. next_item fuel dev new_buffer deser handle reader))
       | GotRecord x \<Rightarrow> Inr (x, handle, reader))"

text \<open>An item is inserted into the root parent store with its sequence number, as if replayed.\<close>

definition insert_root_parent_item :: "nat \<Rightarrow> encryption_keys object_item \<Rightarrow> object_store \<Rightarrow> object_store res" where
  "insert_root_parent_item fuel i store =
     store_apply_mutation fuel \<lparr>file_offset = sequence i, cp_checksum = 0, cp_version = 0\<rparr>
       (insert_object (key i) (value i)) Replay store"

fun read_items ::
  "nat \<Rightarrow> (nat \<Rightarrow> nat \<Rightarrow> u8 list res) \<Rightarrow> (nat \<Rightarrow> u8 list) \<Rightarrow> super_block_record deserializer \<Rightarrow> bootstrap_handle \<Rightarrow>
   journal_reader \<Rightarrow> object_store \<Rightarrow> object_store res" where
  "read_items 0 dev new_buffer deser handle reader store = Inl OutOfFuel"
| "read_items (Suc fuel) dev new_buffer deser handle reader store =
     bind_res (next_item (Suc fuel) dev new_buffer deser handle reader) (\<lambda>(record, handle, reader).
       case record of
         SbExtent _ \<Rightarrow> Inl Bail
       | SbObjectItem i \<Rightarrow>
           bind_res (insert_root_parent_item fuel i store) (read_items fuel dev new_buffer deser handle reader)
       | SbEnd \<Rightarrow> Inr store)"

definition set_graveyard_directory_object_id :: "nat \<Rightarrow> object_store \<Rightarrow> object_store res" where
  "set_graveyard_directory_object_id oid self =
     bind_res (sri_info (os_store_info self)) (\<lambda>i.
     bind_res (ensure (graveyard_directory_object_id i = 0) Panic) (\<lambda>_.
       Inr (self\<lparr>os_store_info := Info (i\<lparr>graveyard_directory_object_id := oid\<rparr>)\<rparr>)))"

definition super_block_read ::
  "nat \<Rightarrow> (nat \<Rightarrow> nat \<Rightarrow> u8 list res) \<Rightarrow> (nat \<Rightarrow> u8 list) \<Rightarrow> nat \<Rightarrow>
   (u8 list \<Rightarrow> (super_block_header \<times> nat \<times> nat) option) \<Rightarrow> super_block_record deserializer \<Rightarrow> nat \<Rightarrow>
   super_block_instance \<Rightarrow> (super_block_header \<times> super_block_instance \<times> object_store) res" where
  "super_block_read fuel dev new_buffer earliest_supported deser_header deser bs i =
     bind_res (read_header fuel dev new_buffer earliest_supported deser_header i) (\<lambda>(h, handle, reader).
     bind_res (set_graveyard_directory_object_id (sb_root_parent_graveyard_directory_object_id h)
                (new_root_parent bs (sb_root_parent_store_object_id h))) (\<lambda>store.
     bind_res (read_items fuel dev new_buffer deser handle reader store) (\<lambda>store. Inr (h, i, store))))"

section \<open>The manager\<close>

definition choose_super_block ::
  "(super_block_header \<times> super_block_instance \<times> 'a) res \<Rightarrow> (super_block_header \<times> super_block_instance \<times> 'a) res \<Rightarrow>
   (super_block_header \<times> super_block_instance \<times> 'a) res" where
  "choose_super_block a b =
     (case (a, b) of
        (Inl _, Inl _) \<Rightarrow> Inl Bail
      | (Inr r, Inl _) \<Rightarrow> Inr r
      | (Inl _, Inr r) \<Rightarrow> Inr r
      | (Inr r1, Inr r2) \<Rightarrow> Inr (if generation (fst r2) > generation (fst r1) then r2 else r1))"

text \<open>\<^verbatim>\<open>load\<close> returns the super block and the instance the next one will be written to.\<close>

definition load_super_block ::
  "(super_block_instance \<Rightarrow> (super_block_header \<times> super_block_instance \<times> 'a) res) \<Rightarrow>
   (super_block_header \<times> 'a \<times> super_block_instance) res" where
  "load_super_block read =
     bind_res (choose_super_block (read InstanceA) (read InstanceB)) (\<lambda>(h, current, root_parent).
       Inr (h, root_parent, instance_next current))"

section \<open>Writing\<close>

record super_block_writer =
  sw_writer :: journal_writer
  next_extent_offset :: nat

definition super_block_writer_new :: "nat \<Rightarrow> super_block_writer" where
  "super_block_writer_new latest_version =
     \<lparr>sw_writer = writer_new latest_version super_block_block_size 0, next_extent_offset = min_super_block_size\<rparr>"

text \<open>\<open>ser\<close> serialises a record; \<open>preallocate\<close> allocates a range of the super block's file on the device.\<close>

fun write_extent_records ::
  "nat \<Rightarrow> (super_block_record \<Rightarrow> u8 list) \<Rightarrow> u64_range list \<Rightarrow> super_block_writer \<Rightarrow> super_block_writer res" where
  "write_extent_records fuel ser [] self = Inr self"
| "write_extent_records fuel ser (r # rs) self =
     bind_res (u64_sub (rend r) (rstart r)) (\<lambda>len.
     bind_res (u64_add (next_extent_offset self) len) (\<lambda>n.
     bind_res (writer_write fuel (ser (SbExtent r)) (sw_writer self)) (\<lambda>w.
       write_extent_records fuel ser rs (self\<lparr>next_extent_offset := n, sw_writer := w\<rparr>))))"

definition maybe_extend ::
  "nat \<Rightarrow> (super_block_record \<Rightarrow> u8 list) \<Rightarrow> (u64_range \<Rightarrow> u64_range list res) \<Rightarrow> super_block_writer \<Rightarrow> super_block_writer res" where
  "maybe_extend fuel ser preallocate self =
     bind_res (u64_sub (next_extent_offset self) super_block_chunk_size) (\<lambda>limit.
       if file_offset (writer_file_checkpoint (sw_writer self)) < limit then Inr self
       else
         bind_res (u64_add (next_extent_offset self) super_block_chunk_size) (\<lambda>e.
         bind_res (preallocate (Range (next_extent_offset self) e)) (\<lambda>allocated.
           write_extent_records fuel ser allocated self)))"

fun write_items ::
  "nat \<Rightarrow> (super_block_record \<Rightarrow> u8 list) \<Rightarrow> (u64_range \<Rightarrow> u64_range list res) \<Rightarrow> encryption_keys object_item list \<Rightarrow>
   super_block_writer \<Rightarrow> super_block_writer res" where
  "write_items fuel ser preallocate [] self = Inr self"
| "write_items fuel ser preallocate (i # is) self =
     bind_res (maybe_extend fuel ser preallocate self) (\<lambda>self.
     bind_res (writer_write fuel (ser (SbObjectItem i)) (sw_writer self)) (\<lambda>w.
       write_items fuel ser preallocate is (self\<lparr>sw_writer := w\<rparr>)))"

text \<open>The items that are written: all layers of the root parent store, merged.\<close>

definition super_block_items :: "nat \<Rightarrow> object_store \<Rightarrow> encryption_keys object_item list res" where
  "super_block_items fuel root_parent =
     bind_res (merger_seek fuel object_ops object_merge (layer_set (os_tree root_parent)) Unbounded)
       (compact_with_iterator fuel object_ops object_merge)"

text \<open>\<^verbatim>\<open>write\<close> and \<^verbatim>\<open>flush_buffer\<close>: the bytes that are written over the super block's file, and where.\<close>

definition super_block_write ::
  "nat \<Rightarrow> nat \<Rightarrow> (super_block_header \<Rightarrow> u8 list) \<Rightarrow> (super_block_record \<Rightarrow> u8 list) \<Rightarrow> (u64_range \<Rightarrow> u64_range list res) \<Rightarrow>
   super_block_header \<Rightarrow> object_store \<Rightarrow> (nat \<times> u8 list) res" where
  "super_block_write fuel latest_version ser_header ser preallocate h root_parent =
     bind_res (ensure (os_store_object_id root_parent = sb_root_parent_store_object_id h) Panic) (\<lambda>_.
     let self = super_block_writer_new latest_version in
     bind_res (writer_write fuel super_block_magic (sw_writer self)) (\<lambda>w.
     bind_res (writer_write fuel (ser_header h) w) (\<lambda>w.
     bind_res (super_block_items fuel root_parent) (\<lambda>items.
     bind_res (write_items fuel ser preallocate items (self\<lparr>sw_writer := w\<rparr>)) (\<lambda>self.
     bind_res (writer_write fuel (ser SbEnd) (sw_writer self)) (\<lambda>w.
     bind_res (pad_to_block fuel w) (\<lambda>w.
     bind_res (take_buffer w) (\<lambda>(buffer, _).
       case buffer of None \<Rightarrow> Inl Panic | Some b \<Rightarrow> Inr b))))))))"

end
