(* ===== verification/Journal.thy ===== *)
theory Journal
  imports Object_Manager Super_Block Checksum_List
begin

text \<open>
  The journal (\<^verbatim>\<open>src/src/object_store/journal.rs\<close>): reading the records back when the file system is
  mounted, deciding what to replay, and, while it runs, committing transactions, flushing the device and
  writing super blocks.

  The device, the serialiser of records and versions, the file handle's transactions that extend and
  zero the journal file, and the saving of the super block to its file are parameters. Wakers and the
  events that tasks wait for are left out: a function that waits is the decision it takes each time it
  runs.
\<close>

definition journal_block_size :: nat where
  "journal_block_size = 8192"

definition chunk_size :: nat where
  "chunk_size = 131072"

datatype journal_record =
    EndBlock
  | JMutation nat mutation
  | Commit
  | Discard nat
  | DidFlushDevice nat

section \<open>Validating\<close>

text \<open>The extent that an object mutation maps to the device, if it does.\<close>

definition mapped_extent :: "mutation \<Rightarrow> (u64_range \<times> nat \<times> checksums) option" where
  "mapped_extent m =
     (case m of
        ObjectStoreM om \<Rightarrow>
          (case (data (key (osm_item om)), value (osm_item om)) of
             (Attribute _ (Extent e), VExtent (ExtentSome dev_offset sums _)) \<Rightarrow>
               Some (extent_key.range e, dev_offset, sums)
           | _ \<Rightarrow> None)
      | _ \<Rightarrow> None)"

definition validate_extent :: "u64_range \<Rightarrow> nat \<Rightarrow> nat \<Rightarrow> nat \<Rightarrow> nat \<Rightarrow> bool res" where
  "validate_extent r dev_offset checksum_count bs dev_size =
     (if rstart r \<ge> rend r then Inr False
      else bind_res (range_is_aligned r bs) (\<lambda>aligned.
        if \<not> aligned \<or> checksum_count = 0 then Inr False
        else
          let len = rend r - rstart r in
          bind_res (u64_rem len checksum_count) (\<lambda>rem.
            if rem \<noteq> 0 then Inr False
            else bind_res (u64_rem (len div checksum_count) bs) (\<lambda>rem.
              if rem \<noteq> 0 then Inr False
              else bind_res (u64_rem dev_offset bs) (\<lambda>rem.
                Inr (rem = 0 \<and> dev_offset < dev_size \<and> len \<le> dev_size - dev_offset))))))"

definition validate_mutation :: "mutation \<Rightarrow> nat \<Rightarrow> nat \<Rightarrow> bool res" where
  "validate_mutation m bs dev_size =
     (case mapped_extent m of
        Some (r, dev_offset, Fletcher sums) \<Rightarrow> validate_extent r dev_offset (length sums) bs dev_size
      | _ \<Rightarrow>
          Inr (case m of
                 AllocatorM (Allocate r owner) \<Rightarrow> rstart r < rend r \<and> owner \<noteq> 0 \<and> rend r \<le> dev_size
               | AllocatorM (Deallocate r owner) \<Rightarrow> rstart r < rend r \<and> owner \<noteq> 0 \<and> rend r \<le> dev_size
               | AllocatorM (MarkForDeletion owner) \<Rightarrow> owner \<noteq> 0
               | AllocatorM (SetLimit owner _) \<Rightarrow> owner \<noteq> 0
               | _ \<Rightarrow> True))"

definition update_checksum_list :: "nat \<Rightarrow> nat \<Rightarrow> mutation \<Rightarrow> checksum_list \<Rightarrow> checksum_list res" where
  "update_checksum_list journal_offset owner m checksum_list =
     (case mapped_extent m of
        Some (r, dev_offset, Fletcher sums) \<Rightarrow>
          (case range_length r of
             Inl _ \<Rightarrow> Inl Panic
           | Inr len \<Rightarrow>
               bind_res (u64_add dev_offset len) (\<lambda>e.
                 checksum_list_push journal_offset owner (Range dev_offset e) (map of_nat sums) checksum_list))
      | _ \<Rightarrow>
          (case m of
             AllocatorM (Deallocate r _) \<Rightarrow> mark_deallocated journal_offset r checksum_list
           | _ \<Rightarrow> Inr checksum_list))"

section \<open>Reading the records\<close>

definition should_apply :: "super_block_header \<Rightarrow> nat \<Rightarrow> checkpoint \<Rightarrow> bool" where
  "should_apply h oid cp =
     (file_offset cp \<ge> (case bt_get (sb_journal_file_offsets h) oid of
                           Some off \<Rightarrow> off
                         | None \<Rightarrow> super_block_journal_file_offset h))"

text \<open>A transaction that was read: where it starts, its mutations, where it ends.\<close>

type_synonym replay_txn = "checkpoint \<times> (nat \<times> mutation) list \<times> nat"

text \<open>
  The state of the reading loop. The current transaction, when there is one, is the last of the list.
\<close>

record scan =
  transactions :: "replay_txn list"
  in_transaction :: bool
  scan_flushed_offset :: nat
  scan_marked :: "(nat, nat) btree_map"
  scan_handle :: bootstrap_handle

definition scan_mutation :: "super_block_header \<Rightarrow> checkpoint \<Rightarrow> nat \<Rightarrow> mutation \<Rightarrow> scan \<Rightarrow> scan" where
  "scan_mutation h cp oid m st =
     (let ts = (if in_transaction st then transactions st else transactions st @ [(cp, [], 0)]);
          (start, ms, e) = last ts
      in st\<lparr>in_transaction := True,
            transactions := butlast ts @ [(start, if should_apply h oid start then ms @ [(oid, m)] else ms, e)]\<rparr>)"

text \<open>On a commit the mutations are searched for extents of the journal file and for deletions of owners.\<close>

definition snoop_mutation :: "super_block_header \<Rightarrow> nat \<Rightarrow> nat \<times> mutation \<Rightarrow> scan \<Rightarrow> scan res" where
  "snoop_mutation h end_offset om st =
     (case snd om of
        ObjectStoreM m \<Rightarrow>
          (case (data (key (osm_item m)), value (osm_item m)) of
             (Attribute 0 (Extent e), VExtent (ExtentSome dev_offset _ _)) \<Rightarrow>
               if fst om = sb_root_parent_store_object_id h \<and> object_id (key (osm_item m)) = bh_object_id (scan_handle st)
               then
                 bind_res (u64_add (start_offset (scan_handle st)) (bh_size (scan_handle st))) (\<lambda>expected.
                 bind_res (ensure (rstart (extent_key.range e) = expected) (Fxfs Inconsistent)) (\<lambda>_.
                 bind_res (range_length (extent_key.range e)) (\<lambda>len.
                 bind_res (u64_add dev_offset len) (\<lambda>device_end.
                 bind_res (push_extent (Range dev_offset device_end) (scan_handle st)) (\<lambda>handle.
                   Inr (st\<lparr>scan_handle := handle\<rparr>))))))
               else Inr st
           | _ \<Rightarrow> Inr st)
      | AllocatorM (MarkForDeletion owner) \<Rightarrow> Inr (st\<lparr>scan_marked := bt_insert owner end_offset (scan_marked st)\<rparr>)
      | _ \<Rightarrow> Inr st)"

fun snoop_all :: "super_block_header \<Rightarrow> nat \<Rightarrow> (nat \<times> mutation) list \<Rightarrow> scan \<Rightarrow> scan res" where
  "snoop_all h end_offset [] st = Inr st"
| "snoop_all h end_offset (om # oms) st = bind_res (snoop_mutation h end_offset om st) (snoop_all h end_offset oms)"

definition scan_commit :: "super_block_header \<Rightarrow> nat \<Rightarrow> scan \<Rightarrow> scan res" where
  "scan_commit h end_offset st =
     (if in_transaction st
      then
        let (start, ms, _) = last (transactions st) in
        bind_res (snoop_all h end_offset ms (st\<lparr>in_transaction := False\<rparr>)) (\<lambda>st.
          Inr (st\<lparr>transactions := butlast (transactions st) @ [(start, ms, end_offset)]\<rparr>))
      else Inr st)"

text \<open>Transactions from the offset on are popped from the end.\<close>

definition pop_from :: "nat \<Rightarrow> replay_txn list \<Rightarrow> replay_txn list" where
  "pop_from off ts = rev (dropWhile (\<lambda>t. file_offset (fst t) \<ge> off) (rev ts))"

definition scan_discard :: "nat \<Rightarrow> scan \<Rightarrow> scan res" where
  "scan_discard off st =
     (if in_transaction st \<and> file_offset (fst (last (transactions st))) < off then Inr st
      else
        bind_res (discard_extents off (scan_handle st)) (\<lambda>handle.
          Inr (st\<lparr>in_transaction := False, transactions := pop_from off (transactions st), scan_handle := handle\<rparr>)))"

definition scan_flushed :: "nat \<Rightarrow> scan \<Rightarrow> scan" where
  "scan_flushed off st = (if off > scan_flushed_offset st then st\<lparr>scan_flushed_offset := off\<rparr> else st)"

definition scan_drop_current :: "scan \<Rightarrow> scan" where
  "scan_drop_current st =
     (if in_transaction st then st\<lparr>in_transaction := False, transactions := butlast (transactions st)\<rparr> else st)"

text \<open>A record, read from \<open>cp\<close> on and ending at \<open>end_offset\<close>.\<close>

definition scan_record :: "super_block_header \<Rightarrow> checkpoint \<Rightarrow> nat \<Rightarrow> journal_record \<Rightarrow> scan \<Rightarrow> scan res" where
  "scan_record h cp end_offset r st =
     (case r of
        EndBlock \<Rightarrow> Inr st
      | JMutation oid m \<Rightarrow> Inr (scan_mutation h cp oid m st)
      | Commit \<Rightarrow> scan_commit h end_offset st
      | Discard off \<Rightarrow> scan_discard off st
      | DidFlushDevice off \<Rightarrow> Inr (scan_flushed off st))"

definition scan_reset :: "nat \<Rightarrow> scan \<Rightarrow> scan" where
  "scan_reset off st = scan_flushed off (scan_drop_current st)"

fun replay_loop ::
  "nat \<Rightarrow> (nat \<Rightarrow> nat \<Rightarrow> u8 list res) \<Rightarrow> (nat \<Rightarrow> u8 list) \<Rightarrow> journal_record deserializer \<Rightarrow>
   (u8 list \<Rightarrow> (nat \<times> nat) option) \<Rightarrow> super_block_header \<Rightarrow> journal_reader \<Rightarrow> scan \<Rightarrow> (journal_reader \<times> scan) res" where
  "replay_loop 0 dev new_buffer deser deser_version h reader st = Inl OutOfFuel"
| "replay_loop (Suc fuel) dev new_buffer deser deser_version h reader st =
     bind_res (reader_file_checkpoint reader) (\<lambda>cp.
     bind_res (deserialize (Suc fuel) (bootstrap_read dev new_buffer (scan_handle st)) deser reader) (\<lambda>(result, reader).
       case result of
         Reset \<Rightarrow>
           (case deser_version (reader_buffer reader) of
              None \<Rightarrow> Inl Bail
            | Some (version, taken) \<Rightarrow>
                bind_res (consume taken reader) (\<lambda>reader.
                let reader = reader\<lparr>r_version := version\<rparr> in
                bind_res (reader_file_checkpoint reader) (\<lambda>after.
                  replay_loop fuel dev new_buffer deser deser_version h reader (scan_reset (file_offset after) st))))
       | GotRecord r \<Rightarrow>
           bind_res (if r = EndBlock then skip_to_end_of_block reader else Inr reader) (\<lambda>reader.
           bind_res (reader_file_checkpoint reader) (\<lambda>after.
           bind_res (scan_record h cp (file_offset after) r st) (\<lambda>st.
             replay_loop fuel dev new_buffer deser deser_version h reader st)))
       | ChecksumMismatch \<Rightarrow> Inr (reader, st)))"

section \<open>Replaying\<close>

text \<open>The mutations of one transaction; the flag says whether all are valid.\<close>

fun validate_txn ::
  "nat \<Rightarrow> nat \<Rightarrow> nat \<Rightarrow> (nat \<times> mutation) list \<Rightarrow> checksum_list \<Rightarrow> (bool \<times> checksum_list) res" where
  "validate_txn bs dev_size off [] cl = Inr (True, cl)"
| "validate_txn bs dev_size off ((oid, m) # ms) cl =
     bind_res (validate_mutation m bs dev_size) (\<lambda>ok.
       if \<not> ok then Inr (False, cl)
       else bind_res (update_checksum_list off oid m cl) (validate_txn bs dev_size off ms))"

fun validate_all ::
  "nat \<Rightarrow> nat \<Rightarrow> nat \<Rightarrow> replay_txn list \<Rightarrow> checksum_list \<Rightarrow> (nat \<times> checksum_list) res" where
  "validate_all bs dev_size valid_to [] cl = Inr (valid_to, cl)"
| "validate_all bs dev_size valid_to ((cp, ms, _) # ts) cl =
     bind_res (validate_txn bs dev_size (file_offset cp) ms cl) (\<lambda>(ok, cl).
       if ok then validate_all bs dev_size valid_to ts cl else Inr (file_offset cp, cl))"

text \<open>The transactions before \<open>valid_to\<close> are applied; the result is where the first other one starts.\<close>

fun replay_transactions ::
  "nat \<Rightarrow> nat \<Rightarrow> checkpoint \<Rightarrow> replay_txn list \<Rightarrow> object_manager \<Rightarrow> (checkpoint \<times> object_manager) res" where
  "replay_transactions fuel valid_to end_cp [] objects = Inr (end_cp, objects)"
| "replay_transactions fuel valid_to end_cp ((cp, ms, end_offset) # ts) objects =
     (if file_offset cp \<ge> valid_to then Inr (cp, objects)
      else bind_res (replay_mutations fuel ms cp end_offset objects)
             (replay_transactions fuel valid_to end_cp ts))"

section \<open>The running journal\<close>

record journal =
  j_objects :: object_manager
  j_header :: super_block_header
  j_handle_size :: "nat option"
  next_instance :: super_block_instance
  zero_offset :: "nat option"
  device_flushed_offset :: nat
  needs_did_flush_device :: bool
  j_writer :: journal_writer
  output_reset_version :: bool
  terminated :: bool
  disable_compactions :: bool
  compaction_running :: bool
  flushed_offset :: nat
  discard_offset :: "nat option"
  reclaim_size :: nat

definition journal_new :: "object_manager \<Rightarrow> super_block_header \<Rightarrow> nat \<Rightarrow> nat \<Rightarrow> checksum \<Rightarrow> journal" where
  "journal_new objects default_header latest_version reclaim starting_checksum =
     \<lparr>j_objects = objects, j_header = default_header, j_handle_size = None, next_instance = InstanceA, zero_offset = None,
      device_flushed_offset = 0, needs_did_flush_device = False,
      j_writer = writer_new latest_version journal_block_size starting_checksum, output_reset_version = False,
      terminated = False, disable_compactions = False, compaction_running = False, flushed_offset = 0,
      discard_offset = None, reclaim_size = reclaim\<rparr>"

text \<open>The end of \<^verbatim>\<open>replay\<close>: the writer goes on in the block after the last one read, in a new stream.\<close>

definition replay_configure :: "nat \<Rightarrow> nat \<Rightarrow> checkpoint \<Rightarrow> checkpoint \<Rightarrow> nat \<Rightarrow> journal \<Rightarrow> journal res" where
  "replay_configure latest_version handle_size last_checkpoint reader_checkpoint flushed self =
     bind_res (ensure (file_offset last_checkpoint \<ge> super_block_journal_file_offset (j_header self)) (Fxfs Inconsistent)) (\<lambda>_.
     bind_res (round_up (file_offset reader_checkpoint) journal_block_size) (\<lambda>up.
     case up of
       None \<Rightarrow> Inl Panic
     | Some off \<Rightarrow>
         bind_res (writer_seek \<lparr>file_offset = off, cp_checksum = xor (cp_checksum reader_checkpoint) reset_xor,
                                 cp_version = latest_version\<rparr> (j_writer self)) (\<lambda>w.
           Inr (self\<lparr>j_handle_size := Some handle_size, device_flushed_offset := flushed, flushed_offset := off, j_writer := w,
                     output_reset_version := True,
                     discard_offset := (if file_offset last_checkpoint < off then Some (file_offset last_checkpoint)
                                        else discard_offset self)\<rparr>))))"

text \<open>
  \<^verbatim>\<open>replay\<close> after the super block has been loaded and the objects set up: read, validate, verify, apply,
  complete the stores and configure the writer. \<open>complete\<close> finishes the replay of the root store and the
  allocator, which read their own files; \<open>complete_rest\<close> is the object manager's.
\<close>

definition journal_replay ::
  "nat \<Rightarrow> (nat \<Rightarrow> nat \<Rightarrow> u8 list res) \<Rightarrow> (nat \<Rightarrow> u8 list) \<Rightarrow> journal_record deserializer \<Rightarrow> (u8 list \<Rightarrow> (nat \<times> nat) option) \<Rightarrow>
   nat \<Rightarrow> nat \<Rightarrow> nat \<Rightarrow> nat \<Rightarrow> bootstrap_handle \<Rightarrow> (object_manager \<Rightarrow> object_manager res) \<Rightarrow> (object_manager \<Rightarrow> object_manager res) \<Rightarrow>
   journal \<Rightarrow> journal res" where
  "journal_replay fuel dev new_buffer deser deser_version latest_version bs dev_size handle_size handle complete complete_rest self =
     (let h = j_header self in
      bind_res (reader_new journal_block_size (journal_checkpoint h)) (\<lambda>reader.
      bind_res (replay_loop fuel dev new_buffer deser deser_version h reader
                  \<lparr>transactions = [], in_transaction = False, scan_flushed_offset = super_block_journal_file_offset h,
                   scan_marked = [], scan_handle = handle\<rparr>) (\<lambda>(reader, st).
      let ts = transactions (scan_drop_current st) in
      bind_res (reader_file_checkpoint reader) (\<lambda>end_cp.
      bind_res (validate_all bs dev_size (file_offset end_cp) ts (checksum_list_new (scan_flushed_offset st))) (\<lambda>(valid_to, cl).
      bind_res (verify dev (bt_get (scan_marked st)) valid_to cl) (\<lambda>(valid_to, _).
      bind_res (if ts = [] then Inr (journal_checkpoint h, j_objects self)
                else replay_transactions fuel valid_to end_cp ts (j_objects self)) (\<lambda>(last_checkpoint, objects).
      bind_res (complete objects) (\<lambda>objects.
      bind_res (replay_configure latest_version handle_size last_checkpoint end_cp (scan_flushed_offset st) (self\<lparr>j_objects := objects\<rparr>)) (\<lambda>self.
      bind_res (complete_rest (j_objects self)) (\<lambda>objects. Inr (self\<lparr>j_objects := objects\<rparr>)))))))))))"

section \<open>Committing\<close>

text \<open>\<open>ser\<close> serialises a record of the journal, \<open>ser_mutation\<close> a mutation before it is encrypted.\<close>

fun write_each ::
  "nat \<Rightarrow> (journal_record \<Rightarrow> u8 list) \<Rightarrow> nat \<Rightarrow> mutation list \<Rightarrow> journal_writer \<Rightarrow> journal_writer res" where
  "write_each fuel ser oid [] w = Inr w"
| "write_each fuel ser oid (m # ms) w =
     bind_res (write_record fuel ser (JMutation oid m) w) (write_each fuel ser oid ms)"

fun write_mutations ::
  "nat \<Rightarrow> (journal_record \<Rightarrow> u8 list) \<Rightarrow> (mutation \<Rightarrow> u8 list) \<Rightarrow> txn_mutation list \<Rightarrow> object_manager \<times> journal_writer \<Rightarrow>
   (object_manager \<times> journal_writer) res" where
  "write_mutations fuel ser ser_mutation [] s = Inr s"
| "write_mutations fuel ser ser_mutation (t # ts) (objects, w) =
     bind_res (om_write_mutation ser_mutation (tm_object_id t) (tm_mutation t) objects) (\<lambda>(ms, objects).
     bind_res (write_each fuel ser (tm_object_id t) ms w) (\<lambda>w.
       write_mutations fuel ser ser_mutation ts (objects, w)))"

definition write_and_apply_mutations ::
  "nat \<Rightarrow> (journal_record \<Rightarrow> u8 list) \<Rightarrow> (mutation \<Rightarrow> u8 list) \<Rightarrow> (nat \<Rightarrow> assoc_object) \<Rightarrow> bool \<Rightarrow> transaction \<Rightarrow> journal \<Rightarrow>
   (nat \<times> journal \<times> transaction) res" where
  "write_and_apply_mutations fuel ser ser_mutation assoc shared txn self =
     (let checkpoint_before = writer_file_checkpoint (j_writer self) in
      bind_res (write_mutations fuel ser ser_mutation (mutations txn) (j_objects self, j_writer self)) (\<lambda>(objects, w).
      bind_res (case apply_transaction fuel assoc shared checkpoint_before objects txn of
                  Inl _ \<Rightarrow> Inl Panic
                | Inr r \<Rightarrow> Inr r) (\<lambda>(maybe_mutation, objects, txn).
      bind_res (case maybe_mutation of
                  None \<Rightarrow> Inr w
                | Some m \<Rightarrow> write_record fuel ser (JMutation 0 m) w) (\<lambda>w.
      bind_res (write_record fuel ser Commit w) (\<lambda>w.
      bind_res (did_commit_transaction shared (file_offset (writer_file_checkpoint w)) objects txn) (\<lambda>(objects, txn).
        Inr (file_offset checkpoint_before, self\<lparr>j_objects := objects, j_writer := w\<rparr>, txn)))))))"

text \<open>Pending records at the start of a commit; \<open>ser_version\<close> serialises the version.\<close>

definition write_pending ::
  "nat \<Rightarrow> (journal_record \<Rightarrow> u8 list) \<Rightarrow> u8 list \<Rightarrow> journal \<Rightarrow> journal res" where
  "write_pending fuel ser ser_version self =
     bind_res (if output_reset_version self then writer_write fuel ser_version (j_writer self) else Inr (j_writer self)) (\<lambda>w.
     bind_res (case discard_offset self of
                 Some off \<Rightarrow> writer_write fuel (ser (Discard off)) w
               | None \<Rightarrow> Inr w) (\<lambda>w.
     bind_res (if needs_did_flush_device self
               then writer_write fuel (ser (DidFlushDevice (device_flushed_offset self))) w
               else Inr w) (\<lambda>w.
       Inr (self\<lparr>j_writer := w, output_reset_version := False, discard_offset := None, needs_did_flush_device := False\<rparr>))))"

text \<open>
  \<^verbatim>\<open>pre_commit\<close>: \<open>make_txn size zero\<close> is the transaction that extends the journal file by a chunk from
  \<open>size\<close> on and zeroes it up to \<open>zero\<close>; it borrows from the metadata reservation.
\<close>

definition pre_commit ::
  "nat \<Rightarrow> (journal_record \<Rightarrow> u8 list) \<Rightarrow> (mutation \<Rightarrow> u8 list) \<Rightarrow> (nat \<Rightarrow> assoc_object) \<Rightarrow> u8 list \<Rightarrow>
   (nat option \<Rightarrow> nat option \<Rightarrow> journal \<Rightarrow> (transaction \<times> journal) res) \<Rightarrow> journal \<Rightarrow> journal res" where
  "pre_commit fuel ser ser_mutation assoc ser_version make_txn self =
     bind_res (write_pending fuel ser ser_version self) (\<lambda>self.
     case j_handle_size self of
       None \<Rightarrow> Inr self
     | Some n \<Rightarrow>
         bind_res (u64_add (file_offset (writer_file_checkpoint (j_writer self))) chunk_size) (\<lambda>needed.
         let extend = (if needed > n then Some n else None); zero = zero_offset self in
         if extend = None \<and> zero = None then Inr self
         else
           bind_res (make_txn extend zero self) (\<lambda>(txn, self).
           bind_res (write_and_apply_mutations fuel ser ser_mutation assoc True txn self) (\<lambda>(_, self, _).
           bind_res (ensure (extend \<noteq> None \<longrightarrow> file_offset (writer_file_checkpoint (j_writer self)) < n) Panic) (\<lambda>_.
             Inr (self\<lparr>zero_offset := (if zero_offset self = zero then None else zero_offset self)\<rparr>))))))"

definition journal_commit ::
  "nat \<Rightarrow> (journal_record \<Rightarrow> u8 list) \<Rightarrow> (mutation \<Rightarrow> u8 list) \<Rightarrow> (nat \<Rightarrow> assoc_object) \<Rightarrow> u8 list \<Rightarrow>
   (nat option \<Rightarrow> nat option \<Rightarrow> journal \<Rightarrow> (transaction \<times> journal) res) \<Rightarrow> bool \<Rightarrow> transaction \<Rightarrow> journal \<Rightarrow>
   (nat \<times> journal \<times> transaction) res" where
  "journal_commit fuel ser ser_mutation assoc ser_version make_txn shared txn self =
     (if txn_is_empty txn then Inr (file_offset (writer_file_checkpoint (j_writer self)), self, txn)
      else bind_res (pre_commit fuel ser ser_mutation assoc ser_version make_txn self)
             (write_and_apply_mutations fuel ser ser_mutation assoc shared txn))"

section \<open>Flushing and super blocks\<close>

definition journal_pad_to_block ::
  "nat \<Rightarrow> (journal_record \<Rightarrow> u8 list) \<Rightarrow> journal \<Rightarrow> (checkpoint \<times> nat \<times> journal) res" where
  "journal_pad_to_block fuel ser self =
     (let cp = writer_file_checkpoint (j_writer self) in
      bind_res (u64_rem (file_offset cp) journal_block_size) (\<lambda>rem.
      bind_res (if rem \<noteq> 0
                then bind_res (writer_write fuel (ser EndBlock) (j_writer self)) (pad_to_block fuel)
                else Inr (j_writer self)) (\<lambda>w.
        Inr (cp, borrowed_metadata_space (j_objects self), self\<lparr>j_writer := w\<rparr>))))"

text \<open>\<open>flushed\<close> is the outcome of flushing the device.\<close>

definition flush_device :: "unit res \<Rightarrow> nat \<Rightarrow> journal \<Rightarrow> journal res" where
  "flush_device flushed off self =
     (if device_flushed_offset self < off
      then
        bind_res flushed (\<lambda>_.
        case om_allocator (j_objects self) of
          None \<Rightarrow> Inl Panic
        | Some a \<Rightarrow>
            bind_res (did_flush_device off a) (\<lambda>a.
              Inr (self\<lparr>device_flushed_offset := off, needs_did_flush_device := True,
                        j_objects := (j_objects self)\<lparr>om_allocator := Some a\<rparr>\<rparr>)))
      else Inr self)"

definition journal_sync ::
  "nat \<Rightarrow> (journal_record \<Rightarrow> u8 list) \<Rightarrow> bool option \<Rightarrow> bool \<Rightarrow> unit res \<Rightarrow> journal \<Rightarrow> ((checkpoint \<times> nat) option \<times> journal) res" where
  "journal_sync fuel ser precondition flush flushed self =
     (if precondition = Some False then Inr (None, self)
      else bind_res (journal_pad_to_block fuel ser self) (\<lambda>(cp, borrowed, self).
           bind_res (if flush then flush_device flushed (file_offset cp) self else Inr self) (\<lambda>self.
             Inr (Some (cp, borrowed), self))))"

text \<open>The header that the next super block gets.\<close>

definition next_header :: "nat \<Rightarrow> checkpoint \<Rightarrow> nat \<Rightarrow> journal \<Rightarrow> super_block_header res" where
  "next_header latest_version cp borrowed self =
     (case checked_add (generation (j_header self)) 1 of
        None \<Rightarrow> Inl (Fxfs Inconsistent)
      | Some g \<Rightarrow>
          let (offsets, first) = journal_file_offsets (j_objects self) in
          Inr ((j_header self)
            \<lparr>generation := g, super_block_journal_file_offset := file_offset cp,
             journal_checkpoint := (case first of Some c \<Rightarrow> c | None \<Rightarrow> cp)\<lparr>cp_version := latest_version\<rparr>,
             sb_journal_file_offsets := offsets, sb_borrowed_metadata_space := borrowed\<rparr>))"

definition write_super_block ::
  "nat \<Rightarrow> nat \<Rightarrow> (journal_record \<Rightarrow> u8 list) \<Rightarrow> unit res \<Rightarrow> (super_block_instance \<Rightarrow> super_block_header \<Rightarrow> unit res) \<Rightarrow> journal \<Rightarrow>
   journal res" where
  "write_super_block fuel latest_version ser flushed save self =
     bind_res (journal_pad_to_block fuel ser self) (\<lambda>(cp, borrowed, self).
     bind_res (flush_device flushed (file_offset cp) self) (\<lambda>self.
     let old_super_block_offset = file_offset (journal_checkpoint (j_header self)) in
     bind_res (next_header latest_version cp borrowed self) (\<lambda>h.
     let target = next_instance self; self = self\<lparr>next_instance := instance_next target\<rparr> in
     bind_res (save target h) (\<lambda>_.
     bind_res (round_down old_super_block_offset journal_block_size) (\<lambda>z.
       Inr (self\<lparr>j_header := h, zero_offset := Some z\<rparr>))))))"

definition journal_compact ::
  "nat \<Rightarrow> nat \<Rightarrow> (journal_record \<Rightarrow> u8 list) \<Rightarrow> (journal \<Rightarrow> (nat \<times> journal) res) \<Rightarrow> unit res \<Rightarrow>
   (super_block_instance \<Rightarrow> super_block_header \<Rightarrow> unit res) \<Rightarrow> journal \<Rightarrow> journal res" where
  "journal_compact fuel latest_version ser flush_objects flushed save self =
     bind_res (flush_objects self) (\<lambda>(version, self).
       write_super_block fuel latest_version ser flushed save
         (self\<lparr>j_header := (j_header self)\<lparr>earliest_version := version\<rparr>\<rparr>))"

section \<open>Space\<close>

datatype space_check = SpaceReady | SpaceClosed | SpaceWait

definition journal_usage :: "journal \<Rightarrow> nat res" where
  "journal_usage self = u64_sub (last_end_offset (j_objects self)) (file_offset (journal_checkpoint (j_header self)))"

definition check_journal_space :: "journal \<Rightarrow> space_check res" where
  "check_journal_space self =
     (if terminated self then Inr SpaceClosed
      else bind_res (journal_usage self) (\<lambda>used.
        Inr (if used < reclaim_size self then SpaceReady
             else if disable_compactions self then SpaceClosed else SpaceWait)))"

definition should_compact :: "bool \<Rightarrow> journal \<Rightarrow> bool res" where
  "should_compact compacting self =
     (if compacting \<or> terminated self \<or> disable_compactions self then Inr False
      else bind_res (journal_usage self) (\<lambda>used. Inr (used > reclaim_size self div 2)))"

text \<open>\<^verbatim>\<open>flush\<close>, once the buffer has been written at its offset.\<close>

definition journal_flushed :: "nat \<Rightarrow> u8 list \<Rightarrow> journal \<Rightarrow> journal" where
  "journal_flushed off buf self = self\<lparr>flushed_offset := off + length buf\<rparr>"

definition journal_take_buffer :: "journal \<Rightarrow> ((nat \<times> u8 list) option \<times> journal) res" where
  "journal_take_buffer self =
     (if j_handle_size self = None then Inr (None, self)
      else bind_res (take_buffer (j_writer self)) (\<lambda>(b, w). Inr (b, self\<lparr>j_writer := w\<rparr>)))"

definition stop_compactions :: "journal \<Rightarrow> bool \<times> journal" where
  "stop_compactions self = (\<not> compaction_running self, self\<lparr>disable_compactions := True\<rparr>)"

definition journal_terminate :: "journal \<Rightarrow> journal" where
  "journal_terminate self = self\<lparr>terminated := True\<rparr>"

end
