(* ===== verification/Object_Manager_Correct.thy ===== *)
theory Object_Manager_Correct
  imports Object_Manager
begin

text \<open>
  What the object manager's records mean. The checkpoints it keeps per object are compared with an
  abstract account of the object's history, the mutations that a crash would lose if the journal were
  not replayed; the metadata reservation is shown to stay in balance over commits.
\<close>

section \<open>Mutations that only the journal holds\<close>

definition is_data :: "mutation \<Rightarrow> bool" where
  "is_data m = (m \<noteq> BeginFlush \<and> m \<noteq> EndFlush \<and> m \<noteq> DeleteVolume)"

text \<open>
  The mutations of one object that are not in its files: those being flushed and those made since the
  flush began. A flush that ends has written the former; one that is begun again takes both.
\<close>

type_synonym entry = "mutation \<times> checkpoint"

definition unflushed_step :: "entry \<Rightarrow> entry list \<times> entry list \<Rightarrow> entry list \<times> entry list" where
  "unflushed_step e u =
     (if fst e = BeginFlush then (fst u @ snd u, [])
      else if fst e = EndFlush then ([], snd u)
      else if fst e = DeleteVolume then ([], [])
      else (fst u, snd u @ [e]))"

definition unflushed :: "entry list \<Rightarrow> entry list \<times> entry list" where
  "unflushed h = fold unflushed_step h ([], [])"

definition of_object :: "nat \<Rightarrow> (nat \<times> entry) list \<Rightarrow> entry list" where
  "of_object oid h = map snd (filter (\<lambda>e. fst e = oid) h)"

lemma unflushed_snoc: "unflushed (h @ [e]) = unflushed_step e (unflushed h)"
  by (simp add: unflushed_def)

lemma of_object_snoc:
  "of_object oid (h @ [(oid', e)]) = (if oid' = oid then of_object oid h @ [e] else of_object oid h)"
  by (simp add: of_object_def)

text \<open>A record of checkpoints is right when it has the first of each of the two lists.\<close>

fun tracks :: "checkpoints option \<Rightarrow> entry list \<times> entry list \<Rightarrow> bool" where
  "tracks None u = (u = ([], []))"
| "tracks (Some (Current x)) u = (fst u = [] \<and> snd u \<noteq> [] \<and> snd (hd (snd u)) = x)"
| "tracks (Some (Old x)) u = (fst u \<noteq> [] \<and> snd u = [] \<and> snd (hd (fst u)) = x)"
| "tracks (Some (Both x y)) u = (fst u \<noteq> [] \<and> snd u \<noteq> [] \<and> snd (hd (fst u)) = x \<and> snd (hd (snd u)) = y)"

lemma tracks_note:
  assumes "tracks (bt_get (journal_checkpoints self) oid) u" "oid \<noteq> root_parent_store_object_id self"
  shows "tracks (bt_get (journal_checkpoints (note_mutation oid m cp self)) oid) (unflushed_step (m, cp) u)"
proof (cases "bt_get (journal_checkpoints self) oid")
  case None
  then show ?thesis using assms by (auto simp: note_mutation_def unflushed_step_def split: mutation.splits)
next
  case (Some c)
  then show ?thesis using assms
    by (cases c) (auto simp: note_mutation_def unflushed_step_def prod_eq_iff split: mutation.splits)
qed

lemma note_mutation_other:
  "oid' \<noteq> oid \<Longrightarrow>
   bt_get (journal_checkpoints (note_mutation oid m cp self)) oid' = bt_get (journal_checkpoints self) oid'"
  by (auto simp: note_mutation_def split: mutation.splits option.splits checkpoints.splits)


lemma note_mutation_ids [simp]:
  "root_parent_store_object_id (note_mutation oid m cp self) = root_parent_store_object_id self"
  "allocator_object_id (note_mutation oid m cp self) = allocator_object_id self"
  "om_allocator (note_mutation oid m cp self) = om_allocator self"
  "last_end_offset (note_mutation oid m cp self) = last_end_offset self"
  "borrowed_metadata_space (note_mutation oid m cp self) = borrowed_metadata_space self"
  "om_metadata_reservation (note_mutation oid m cp self) = om_metadata_reservation self"
  by (auto simp: note_mutation_def split: mutation.splits option.splits checkpoints.splits)

text \<open>Applying a mutation changes the checkpoints only by noting it, and nothing of the accounting.\<close>

lemma lazy_open_store_keeps:
  assumes "lazy_open_store oid self = Inr (store, self')"
  shows "journal_checkpoints self' = journal_checkpoints self"
    "root_parent_store_object_id self' = root_parent_store_object_id self"
    "last_end_offset self' = last_end_offset self" "om_reservations self' = om_reservations self"
    "borrowed_metadata_space self' = borrowed_metadata_space self"
    "om_metadata_reservation self' = om_metadata_reservation self"
  using assms by (auto simp: lazy_open_store_def bind_res_eq_Inr Let_def split: option.splits if_splits)

lemma will_apply_mutation_keeps [simp]:
  "journal_checkpoints (will_apply_mutation ao oid self) = journal_checkpoints self"
  "root_parent_store_object_id (will_apply_mutation ao oid self) = root_parent_store_object_id self"
  "last_end_offset (will_apply_mutation ao oid self) = last_end_offset self"
  "borrowed_metadata_space (will_apply_mutation ao oid self) = borrowed_metadata_space self"
  "om_metadata_reservation (will_apply_mutation ao oid self) = om_metadata_reservation self"
  by (auto simp: will_apply_mutation_def update_reservation_def split: option.splits assoc_object.splits)

lemma om_apply_mutation_keeps:
  assumes "om_apply_mutation fuel oid m cp mode ao self = Inr (self', mode')"
  shows "journal_checkpoints self' = journal_checkpoints (note_mutation oid m cp self)"
    "root_parent_store_object_id self' = root_parent_store_object_id self"
    "last_end_offset self' = last_end_offset self"
    "borrowed_metadata_space self' = borrowed_metadata_space self"
    "om_metadata_reservation self' = om_metadata_reservation self"
  using assms
  by (auto simp: om_apply_mutation_def bind_res_eq_Inr Let_def split: option.splits if_splits
      dest: lazy_open_store_keeps)

text \<open>
  The histories of a manager: mutations applied in order, live or on replay, with anything in between
  that leaves the checkpoints alone.
\<close>

inductive om_history :: "(nat \<times> entry) list \<Rightarrow> object_manager \<Rightarrow> bool" where
  start: "journal_checkpoints self = [] \<Longrightarrow> om_history [] self"
| applied: "om_history h self \<Longrightarrow> om_apply_mutation fuel oid m cp mode ao self = Inr (self', mode') \<Longrightarrow>
    om_history (h @ [(oid, m, cp)]) self'"
| other: "om_history h self \<Longrightarrow> journal_checkpoints self' = journal_checkpoints self \<Longrightarrow>
    root_parent_store_object_id self' = root_parent_store_object_id self \<Longrightarrow> om_history h self'"

lemma om_history_tracks:
  assumes "om_history h self" "oid \<noteq> root_parent_store_object_id self"
  shows "tracks (bt_get (journal_checkpoints self) oid) (unflushed (of_object oid h))"
  using assms
proof (induction rule: om_history.induct)
  case (start self)
  then show ?case by (simp add: unflushed_def of_object_def)
next
  case (applied h self fuel oid' m cp mode ao self' mode')
  note keeps = om_apply_mutation_keeps [OF applied.hyps(2)]
  have "tracks (bt_get (journal_checkpoints self) oid) (unflushed (of_object oid h))"
    using applied keeps(2) by simp
  then show ?case
    using tracks_note applied.prems keeps(1,2) note_mutation_other [of oid oid']
    by (cases "oid' = oid") (simp_all add: of_object_snoc unflushed_snoc)
qed simp

text \<open>
  C9: the object manager knows exactly from where on each object needs the journal. Whatever mutations
  have been applied, in whatever order flushes were begun, abandoned, begun again and ended, an object
  needs a flush if and only if some mutation of it is not in its files, and the checkpoint it reports
  for the object is the one of the first such mutation.
\<close>

theorem checkpoints_track_unflushed:
  assumes "om_history h self" "oid \<noteq> root_parent_store_object_id self"
    and "unflushed (of_object oid h) = (flushing, pending)"
  shows "(needs_flush oid self \<longleftrightarrow> flushing @ pending \<noteq> []) \<and>
    bt_get (fst (journal_file_offsets self)) oid =
      (if flushing @ pending = [] then None else Some (file_offset (snd (hd (flushing @ pending)))))"
proof -
  have get: "bt_get (fst (journal_file_offsets self)) oid =
      map_option (\<lambda>c. file_offset (earliest c)) (bt_get (journal_checkpoints self) oid)"
    by (simp add: journal_file_offsets_def map_of_map)
  have "tracks (bt_get (journal_checkpoints self) oid) (flushing, pending)"
    using om_history_tracks assms by metis
  then show ?thesis unfolding get
    by (cases "bt_get (journal_checkpoints self) oid" rule: option.exhaust)
       (auto simp: needs_flush_def elim!: tracks.elims)
qed

text \<open>A manager with a flushed super block at offset 0 and a borrowing transaction that sets a limit.\<close>

definition example_manager :: object_manager where
  "example_manager = object_manager_new
     \<lparr>allocator_object_id := 3,
      om_allocator := Some \<lparr>block_size = 512, device_size = 8388608, alloc_object_id = 3, max_extent_size_bytes = 229376,
        tree = tree_new, reserved_allocations = [],
        inner = \<lparr>info = \<lparr>info_layers = [], info_allocated_bytes = [], marked_for_deletion = {}, limit_bytes = []\<rparr>,
              opened = True, dropped_allocations = [], owner_bytes = [], unattributed_reserved_bytes = 1048576,
              committed_deallocated = [], committed_marked_for_deletion = []\<rparr>,
        system_stores = {1, 2}\<rparr>,
      om_metadata_reservation := Some (res_new None 1048576)\<rparr>"

definition example_limit :: transaction where
  "example_limit = (transaction_new Borrowed [] [])
     \<lparr>mutations := [\<lparr>tm_object_id = 3, tm_mutation = AllocatorM (SetLimit 7 100), tm_associated_object = None\<rparr>]\<rparr>"

lemma example_applied:
  "\<exists>a. om_apply_mutation 0 3 (AllocatorM (SetLimit 7 100)) cp (Live None) None example_manager =
     Inr (example_manager\<lparr>journal_checkpoints := [(3, Current cp)], om_allocator := Some a\<rparr>, Live None) \<and>
     unattributed_reserved_bytes (inner a) = 1048576"
  by (simp add: om_apply_mutation_def note_mutation_def example_manager_def object_manager_new_def will_apply_mutation_def
      apply_mutation_def Let_def)

theorem checkpoints_track_unflushed_witness:
  "\<exists>self. om_history [(3, AllocatorM (SetLimit 7 100), \<lparr>file_offset = 5, cp_checksum = 0, cp_version = 1\<rparr>)] self \<and>
     needs_flush 3 self \<and> bt_get (fst (journal_file_offsets self)) 3 = Some 5"
proof -
  define cp :: checkpoint where "cp = \<lparr>file_offset = 5, cp_checksum = 0, cp_version = 1\<rparr>"
  let ?m = "AllocatorM (SetLimit 7 100)"
  obtain a where run: "om_apply_mutation 0 3 ?m cp (Live None) None example_manager =
      Inr (example_manager\<lparr>journal_checkpoints := [(3, Current cp)], om_allocator := Some a\<rparr>, Live None)"
    using example_applied by blast
  have "om_history [] example_manager" by (rule om_history.start) (simp add: example_manager_def object_manager_new_def)
  from om_history.applied [OF this run]
  have h: "om_history [(3, ?m, cp)] (example_manager\<lparr>journal_checkpoints := [(3, Current cp)], om_allocator := Some a\<rparr>)"
    by simp
  have un: "unflushed (of_object 3 [(3, ?m, cp)]) = ([], [(?m, cp)])"
    by (simp add: unflushed_def of_object_def unflushed_step_def)
  have "3 \<noteq> root_parent_store_object_id (example_manager\<lparr>journal_checkpoints := [(3, Current cp)], om_allocator := Some a\<rparr>)"
    by (simp add: example_manager_def object_manager_new_def)
  from checkpoints_track_unflushed [OF h this un] h show ?thesis by (auto simp: cp_def)
qed

section \<open>The metadata reservation\<close>

text \<open>The invariant of the source: what is reserved and what is borrowed add up to what is required.\<close>

definition balanced :: "object_manager \<Rightarrow> bool" where
  "balanced self =
     (case (om_metadata_reservation self, required_reservation self) of
        (Some r, Inr required) \<Rightarrow> res_amount r + borrowed_metadata_space self = required
      | _ \<Rightarrow> False)"

lemma balancedE:
  assumes "balanced self"
  obtains r where "om_metadata_reservation self = Some r"
    "required_reservation self = Inr (res_amount r + borrowed_metadata_space self)"
  using assms by (auto simp: balanced_def split: option.splits sum.splits)

lemma required_reservation_cong:
  "journal_checkpoints self' = journal_checkpoints self \<Longrightarrow> om_reservations self' = om_reservations self \<Longrightarrow>
   last_end_offset self' = last_end_offset self \<Longrightarrow> required_reservation self' = required_reservation self"
  by (simp add: required_reservation_def earliest_offsets_def)

lemma required_reservation_grows:
  assumes "required_reservation self = Inr n" "journal_checkpoints self \<noteq> []" "last_end_offset self \<le> e"
    and "n + 4 * (e - last_end_offset self) \<le> u64_max"
  shows "required_reservation (self\<lparr>last_end_offset := e\<rparr>) = Inr (n + 4 * (e - last_end_offset self))"
  using assms
  by (auto simp: required_reservation_def reserved_space_from_journal_usage_def earliest_offsets_def bind_res_eq_Inr
      u64_sub_def u64_mul_def u64_add_def split: if_splits)

lemma apply_each_keeps:
  "apply_each fuel assoc ts cp r self = Inr (self', r') \<Longrightarrow>
   last_end_offset self' = last_end_offset self \<and> borrowed_metadata_space self' = borrowed_metadata_space self \<and>
   om_metadata_reservation self' = om_metadata_reservation self"
proof (induction ts arbitrary: r self)
  case (Cons t ts)
  from Cons.prems obtain self1 mode where "om_apply_mutation fuel (tm_object_id t) (tm_mutation t) cp (Live r)
      (map_option assoc (tm_associated_object t)) self = Inr (self1, mode)"
    "apply_each fuel assoc ts cp (case mode of Live r \<Rightarrow> r | Replay \<Rightarrow> None) self1 = Inr (self', r')"
    by (auto simp: bind_res_eq_Inr)
  with Cons.IH [OF this(2)] om_apply_mutation_keeps [OF this(1)] show ?case by simp
qed simp

text \<open>
  After the mutations are applied, a borrowing transaction has borrowed enough, and exactly enough unless
  the reservation itself exceeds what is required; any other transaction has changed nothing.
\<close>

lemma apply_transaction_balance:
  assumes "balanced self" "apply_transaction fuel assoc shared cp self txn = Inr (m, self', txn')"
  obtains r required where "om_metadata_reservation self' = Some r" "required_reservation self' = Inr required"
    "required \<le> res_amount r + borrowed_metadata_space self'"
    "metadata_reservation txn' = metadata_reservation txn"
    "metadata_reservation txn \<noteq> Borrowed \<Longrightarrow> balanced self'"
    "last_end_offset self' = last_end_offset self"
proof -
  obtain r0 where r0: "om_metadata_reservation self = Some r0"
    "required_reservation self = Inr (res_amount r0 + borrowed_metadata_space self)"
    using assms(1) by (rule balancedE)
  obtain self1 r1 where each: "apply_each fuel assoc (mutations txn) cp (live_reservation shared txn self) self = Inr (self1, r1)"
    using assms(2) r0 by (auto simp: apply_transaction_def bind_res_eq_Inr Let_def)
  note keeps = apply_each_keeps [OF each]
  define self2 where "self2 = snd (put_reservation shared r1 (txn\<lparr>mutations := []\<rparr>) self1)"
  have self2: "last_end_offset self2 = last_end_offset self" "borrowed_metadata_space self2 = borrowed_metadata_space self"
    using keeps by (simp_all add: self2_def put_reservation_def)
  obtain r where r: "om_metadata_reservation self2 = Some r"
    using assms(2) r0 each by (auto simp: apply_transaction_def self2_def bind_res_eq_Inr split_beta Let_def split: option.splits)
  have txn': "metadata_reservation (fst (put_reservation shared r1 (txn\<lparr>mutations := []\<rparr>) self1)) = metadata_reservation txn"
    by (simp add: put_reservation_def)
  obtain required where req: "required_reservation self2 = Inr required"
    using assms(2) r0 each r by (auto simp: apply_transaction_def self2_def bind_res_eq_Inr split_beta Let_def split: option.splits)
  note run = assms(2) r0 each r req
  show thesis
  proof (cases "metadata_reservation txn = Borrowed")
    case True
    then obtain b where b: "self' = self2\<lparr>borrowed_metadata_space := b\<rparr>"
      "metadata_reservation txn' = metadata_reservation txn"
      "required \<le> res_amount r + b"
      using run txn' self2(2)
      by (auto simp: apply_transaction_def self2_def bind_res_eq_Inr split_beta u64_add_def Let_def split: if_splits)
    have "required_reservation self' = Inr required"
      using req required_reservation_cong [of self' self2] b(1) by simp
    then show thesis using that [of r required] b r self2 True by simp
  next
    case False
    then have eq: "self' = self2" "metadata_reservation txn' = metadata_reservation txn" "res_amount r = res_amount r0"
      "required = res_amount r0 + borrowed_metadata_space self"
      using run txn' by (auto simp: apply_transaction_def self2_def bind_res_eq_Inr split_beta Let_def split: if_splits)
    then show thesis using that [of r required] r req self2 by (simp add: balanced_def)
  qed
qed

text \<open>
  What a transaction has set aside covers the space \<open>n\<close> that its journal records will need: a hold of the
  transaction's own reservation, or a reservation without owner; a borrowing transaction can return what
  the metadata reservation has in excess.
\<close>

definition funded :: "bool \<Rightarrow> nat \<Rightarrow> nat \<Rightarrow> object_manager \<Rightarrow> transaction \<Rightarrow> bool" where
  "funded shared required n self txn =
     (case (om_metadata_reservation self, om_allocator self) of
        (Some r, Some a) \<Rightarrow>
          res_owner_object_id r = None \<and>
          (case metadata_reservation txn of
             Borrowed \<Rightarrow>
               let excess = res_amount r + borrowed_metadata_space self - required in
               res_reserved r + excess \<le> res_amount r \<and> excess \<le> unattributed_reserved_bytes (inner a)
           | MetadataHold hold \<Rightarrow>
               \<not> shared \<and> n \<le> hold \<and>
               (case txn_reservation txn of
                  None \<Rightarrow> False
                | Some tr \<Rightarrow>
                    hold \<le> res_reserved tr \<and> res_ok tr \<and>
                    (case res_owner_object_id tr of
                       None \<Rightarrow> True
                     | Some ow \<Rightarrow>
                         n \<le> reserved_bytes (bt_get_or bt_default (owner_bytes (inner a)) ow) \<and>
                         unattributed_reserved_bytes (inner a) + n \<le> u64_max))
           | MetadataReservation tr \<Rightarrow> res_owner_object_id tr = None \<and> n \<le> res_amount tr)
      | _ \<Rightarrow> False)"

lemma funded_end_offset:
  "funded shared required n (self\<lparr>last_end_offset := e\<rparr>) txn = funded shared required n self txn"
  by (auto simp: funded_def Let_def split: option.splits metadata_reservation.splits)

lemma disown_reservation_ok:
  assumes "case ow of None \<Rightarrow> True | Some ow \<Rightarrow> n \<le> reserved_bytes (bt_get_or bt_default (owner_bytes (inner a)) ow) \<and>
    unattributed_reserved_bytes (inner a) + n \<le> u64_max"
  shows "\<exists>a'. disown_reservation ow n a = Inr a'"
  using assms
  by (auto simp: disown_reservation_def remove_reservation_def add_reservation_def update_owner_def Let_def u64_add_def
      split: option.splits)

text \<open>Each kind of transaction pays for the space, which brings the reservation into balance.\<close>

lemma settle_metadata_balances:
  assumes "om_metadata_reservation self = Some r" "required_reservation self = Inr (required + n)"
    and "funded shared required n self txn" "required \<le> res_amount r + borrowed_metadata_space self"
    and "metadata_reservation txn \<noteq> Borrowed \<Longrightarrow> res_amount r + borrowed_metadata_space self = required"
    and "res_amount r + borrowed_metadata_space self + n \<le> u64_max"
  shows "\<exists>self' txn'. settle_metadata shared n r self txn = Inr (self', txn') \<and> balanced self'"
proof -
  obtain a where a: "om_allocator self = Some a" and owner: "res_owner_object_id r = None"
    using assms(1,3) by (auto simp: funded_def split: option.splits)
  have same: "required_reservation s = Inr (required + n)"
    if "journal_checkpoints s = journal_checkpoints self" "om_reservations s = om_reservations self"
      "last_end_offset s = last_end_offset self" for s
    using that assms(2) required_reservation_cong by metis
  show ?thesis
  proof (cases "metadata_reservation txn")
    case Borrowed
    define excess where "excess = res_amount r + borrowed_metadata_space self - required"
    have ex: "res_reserved r + excess \<le> res_amount r" "excess \<le> unattributed_reserved_bytes (inner a)"
      using assms(1,3) a Borrowed by (simp_all add: funded_def excess_def Let_def)
    let ?self = "self\<lparr>borrowed_metadata_space := borrowed_metadata_space self + n\<rparr>"
    obtain a' where give: "give_back_metadata excess ?self =
        Inr (?self\<lparr>om_metadata_reservation := Some (r\<lparr>res_amount := res_amount r - excess\<rparr>), om_allocator := Some a'\<rparr>)"
      using assms(1) a ex owner le_diff_conv2 [of excess "res_amount r" "res_reserved r"]
      by (simp add: give_back_metadata_def res_give_back_def alloc_release_reservation_def remove_reservation_def u64_sub_def)
    have req: "required_reservation ?self = Inr (required + n)" by (rule same) simp_all
    show ?thesis
    proof (cases "excess = 0")
      case True
      then have "settle_metadata shared n r self txn = Inr (?self, txn)"
        using assms(4,6) Borrowed req by (simp add: settle_metadata_def u64_add_def excess_def)
      then show ?thesis using True assms(1,4) req by (simp add: balanced_def excess_def)
    next
      case False
      have have_excess: "res_amount r + (borrowed_metadata_space self + n) - (required + n) = excess"
        and more: "required < res_amount r + borrowed_metadata_space self"
        using False by (simp_all add: excess_def)
      have "settle_metadata shared n r self txn =
          Inr (?self\<lparr>om_metadata_reservation := Some (r\<lparr>res_amount := res_amount r - excess\<rparr>), om_allocator := Some a'\<rparr>, txn)"
        using assms(6) Borrowed req give False
        unfolding settle_metadata_def u64_add_def Let_def by (simp add: have_excess more add.assoc del: diff_diff_left)
      moreover have "res_amount r - excess + (borrowed_metadata_space self + n) = required + n"
        using ex(1) assms(4) by (simp add: excess_def)
      ultimately show ?thesis by (simp add: balanced_def same)
    qed
  next
    case (MetadataReservation tr)
    then have "res_owner_object_id tr = None" "n \<le> res_amount tr" "res_amount r + borrowed_metadata_space self = required"
      using assms(1,3,5) a by (simp_all add: funded_def)
    then show ?thesis using assms(6) MetadataReservation owner
      by (simp add: settle_metadata_def res_move_to_def res_add_def u64_sub_def u64_add_def balanced_def same)
  next
    case (MetadataHold hold)
    then obtain tr where tr: "txn_reservation txn = Some tr" "n \<le> hold" "hold \<le> res_reserved tr" "res_ok tr" "\<not> shared"
      "case res_owner_object_id tr of None \<Rightarrow> True
       | Some ow \<Rightarrow> n \<le> reserved_bytes (bt_get_or bt_default (owner_bytes (inner a)) ow) \<and>
           unattributed_reserved_bytes (inner a) + n \<le> u64_max"
      using assms(1,3) a by (auto simp: funded_def split: option.splits)
    have commit: "res_commit n tr = Inr (tr\<lparr>res_reserved := res_reserved tr - n, res_amount := res_amount tr - n\<rparr>)"
      using tr(2-4) by (simp add: res_commit_def u64_sub_def res_ok_def)
    obtain a' where "disown_reservation (res_owner_object_id tr) n a = Inr a'"
      using disown_reservation_ok [OF tr(6)] by blast
    then show ?thesis using assms(5,6) a owner tr MetadataHold commit
      by (simp add: settle_metadata_def res_add_def u64_add_def u64_sub_def balanced_def same)
  qed
qed

text \<open>
  C10: committing never trips the check of the metadata accounting. If the reservation was in balance, the
  transaction's mutations were applied and what it set aside covers its records in the journal, then
  the commit is accounted for without a panic or an overflow, and the reservation is in balance again,
  whether the transaction borrowed, held part of a reservation or had one of its own.
\<close>

theorem commit_keeps_metadata_balance:
  assumes "balanced self" "apply_transaction fuel assoc shared cp self txn = Inr (m, self', txn')"
    and "om_metadata_reservation self' = Some r" "required_reservation self' = Inr required"
    and "journal_checkpoints self' \<noteq> []" "last_end_offset self \<le> end_offset"
    and "usage = 4 * (end_offset - last_end_offset self)" "funded shared required usage self' txn'"
    and "res_amount r + borrowed_metadata_space self' + usage \<le> u64_max"
  shows "\<exists>self'' txn''. did_commit_transaction shared end_offset self' txn' = Inr (self'', txn'') \<and> balanced self''"
proof -
  have bal: "required \<le> res_amount r + borrowed_metadata_space self'" "last_end_offset self' = last_end_offset self"
    "metadata_reservation txn' \<noteq> Borrowed \<Longrightarrow> res_amount r + borrowed_metadata_space self' = required"
  proof -
    obtain r' required' where "om_metadata_reservation self' = Some r'" "required_reservation self' = Inr required'"
      "required' \<le> res_amount r' + borrowed_metadata_space self'" "metadata_reservation txn' = metadata_reservation txn"
      "metadata_reservation txn \<noteq> Borrowed \<Longrightarrow> balanced self'" "last_end_offset self' = last_end_offset self"
      using apply_transaction_balance [OF assms(1,2)] by metis
    then show "required \<le> res_amount r + borrowed_metadata_space self'" "last_end_offset self' = last_end_offset self"
      "metadata_reservation txn' \<noteq> Borrowed \<Longrightarrow> res_amount r + borrowed_metadata_space self' = required"
      using assms(3,4) by (simp_all add: balanced_def)
  qed
  have usage: "reserved_space_from_journal_usage (end_offset - last_end_offset self) = Inr usage"
    using assms(7,9) by (simp add: reserved_space_from_journal_usage_def u64_mul_def)
  let ?self = "self'\<lparr>last_end_offset := end_offset\<rparr>"
  have req: "required_reservation ?self = Inr (required + usage)"
    using required_reservation_grows [OF assms(4,5), of end_offset] assms(6,7,9) bal by simp
  have "funded shared required usage ?self txn'" using assms(8) by (simp add: funded_end_offset)
  then obtain self'' txn'' where settle: "settle_metadata shared usage r ?self txn' = Inr (self'', txn'')" "balanced self''"
    using settle_metadata_balances [of ?self r required usage shared txn'] assms(3,9) req bal by auto
  obtain r'' where "om_metadata_reservation self'' = Some r''"
    "required_reservation self'' = Inr (res_amount r'' + borrowed_metadata_space self'')"
    using settle(2) by (rule balancedE)
  then have "u64_add (res_amount r'') (borrowed_metadata_space self'') = Inr (res_amount r'' + borrowed_metadata_space self'')"
    by (auto simp: required_reservation_def u64_add_def bind_res_eq_Inr split: if_splits)
  with settle show ?thesis using assms(3,6) usage bal(2) \<open>om_metadata_reservation self'' = Some r''\<close>
      \<open>required_reservation self'' = Inr (res_amount r'' + borrowed_metadata_space self'')\<close>
    by (simp add: did_commit_transaction_def u64_sub_def)
qed

theorem commit_keeps_metadata_balance_witness:
  "\<exists>m self' txn' self'' txn''.
     apply_transaction 0 (\<lambda>_. OtherObject) False \<lparr>file_offset = 0, cp_checksum = 0, cp_version = 1\<rparr> example_manager example_limit =
       Inr (m, self', txn') \<and>
     did_commit_transaction False 60 self' txn' = Inr (self'', txn'') \<and> balanced self''"
proof -
  let ?cp = "\<lparr>file_offset = 0, cp_checksum = 0, cp_version = 1\<rparr>"
  have ini: "required_reservation example_manager = Inr 1048576" "balanced example_manager"
    "om_metadata_reservation example_manager = Some (res_new None 1048576)" "last_end_offset example_manager = 0"
    by (simp_all add: balanced_def required_reservation_def example_manager_def object_manager_new_def reserved_space_def
        u64_add_def u64_max_def res_new_def)
  obtain a where a: "om_apply_mutation 0 3 (AllocatorM (SetLimit 7 100)) ?cp (Live None) None example_manager =
      Inr (example_manager\<lparr>journal_checkpoints := [(3, Current ?cp)], om_allocator := Some a\<rparr>, Live None)"
      "unattributed_reserved_bytes (inner a) = 1048576"
    using example_applied by blast
  define self' where "self' = example_manager\<lparr>journal_checkpoints := [(3, Current ?cp)], om_allocator := Some a\<rparr>"
  have each: "apply_each 0 (\<lambda>_. OtherObject) (mutations example_limit) ?cp (live_reservation False example_limit example_manager)
      example_manager = Inr (self', None)"
    unfolding self'_def using a(1) by (simp add: example_limit_def transaction_new_def live_reservation_def)
  have after: "required_reservation self' = Inr 1048576" "om_metadata_reservation self' = Some (res_new None 1048576)"
    "borrowed_metadata_space self' = 0"
    by (simp_all add: self'_def required_reservation_def earliest_offsets_def reserved_space_from_journal_usage_def u64_mul_def
        example_manager_def object_manager_new_def reserved_space_def u64_add_def u64_sub_def u64_max_def)
  have limit: "metadata_reservation example_limit = Borrowed" "txn_reservation example_limit = None"
    by (simp_all add: example_limit_def transaction_new_def)
  then have same: "(example_limit\<lparr>mutations := []\<rparr>)\<lparr>txn_reservation := None\<rparr> = example_limit\<lparr>mutations := []\<rparr>"
    by (simp add: example_limit_def transaction_new_def)
  have run: "apply_transaction 0 (\<lambda>_. OtherObject) False ?cp example_manager example_limit =
      Inr (Some (UpdateBorrowed 0), self', example_limit\<lparr>mutations := []\<rparr>)"
    using ini each after limit same
    by (simp add: apply_transaction_def put_reservation_def u64_add_def u64_max_def res_new_def)
  have "funded False 1048576 240 self' (example_limit\<lparr>mutations := []\<rparr>)"
    using a(2)
    by (simp add: funded_def self'_def example_manager_def res_new_def example_limit_def transaction_new_def object_manager_new_def)
  with commit_keeps_metadata_balance [OF ini(2) run after(2,1), of 60 240] ini(4) after run show ?thesis
    by (auto simp: self'_def u64_max_def res_new_def)
qed

end
