(* ===== verification/Super_Block_Correct.thy ===== *)
theory Super_Block_Correct
  imports Super_Block
begin

text \<open>
  A mount always finds a super block: writing alternates between the two instances, so a crash in the
  middle of a write loses at most the super block being written. What a super block says of the root
  parent store is what the store held.
\<close>

section \<open>Two instances\<close>

text \<open>
  What is on the device: a readable super block per instance, or none. The states are those that
  formatting leaves behind and that saving and mounting after a crash lead to; the last component is the
  super block a mount should find.
\<close>

type_synonym 'a slots = "super_block_instance \<Rightarrow> (super_block_header \<times> 'a) option"

definition read_slot :: "'a slots \<Rightarrow> super_block_instance \<Rightarrow> (super_block_header \<times> super_block_instance \<times> 'a) res" where
  "read_slot slots i = (case slots i of None \<Rightarrow> Inl Bail | Some (h, a) \<Rightarrow> Inr (h, i, a))"

text \<open>A write that is cut short leaves the old super block, an unreadable one, or the new one.\<close>

inductive torn_write :: "'a slots \<Rightarrow> super_block_instance \<Rightarrow> super_block_header \<times> 'a \<Rightarrow> 'a slots \<Rightarrow> bool" where
  "s = slots i \<or> s = None \<or> s = Some b \<Longrightarrow> torn_write slots i b (slots(i := s))"

inductive super_blocks :: "'a slots \<Rightarrow> super_block_instance \<Rightarrow> super_block_header \<times> 'a \<Rightarrow> bool" where
  formatted: "super_blocks (\<lambda>i. if i = InstanceA then Some b else None) InstanceB b"
| saved: "super_blocks slots next_instance b \<Longrightarrow> generation (fst b') = generation (fst b) + 1 \<Longrightarrow>
    super_blocks (slots(next_instance := Some b')) (instance_next next_instance) b'"
| crashed: "super_blocks slots next_instance b \<Longrightarrow> generation (fst b') = generation (fst b) + 1 \<Longrightarrow>
    torn_write slots next_instance b' slots' \<Longrightarrow>
    load_super_block (read_slot slots') = Inr (h, a, next_instance') \<Longrightarrow> super_blocks slots' next_instance' (h, a)"

lemma instance_next_next [simp]: "instance_next (instance_next i) = i" "instance_next i \<noteq> i" "i \<noteq> instance_next i"
  by (cases i; simp add: instance_next_def)+

text \<open>With one readable super block more recent than the other, or the other unreadable, it is the one loaded.\<close>

lemma load_greatest:
  assumes "slots i = Some b" "\<And>b'. slots (instance_next i) = Some b' \<Longrightarrow> generation (fst b') < generation (fst b)"
  shows "load_super_block (read_slot slots) = Inr (fst b, snd b, instance_next i)"
  using assms
  by (cases i; cases b; cases "slots (instance_next i)")
     (auto simp: load_super_block_def choose_super_block_def read_slot_def instance_next_def split: option.splits)

lemma super_blocks_inv:
  assumes "super_blocks slots next_instance b"
  shows "slots (instance_next next_instance) = Some b \<and>
    (\<forall>b'. slots next_instance = Some b' \<longrightarrow> generation (fst b') < generation (fst b))"
  using assms
proof (induction rule: super_blocks.induct)
  case (crashed slots nxt b b' slots' h a nxt')
  from crashed.hyps(3) obtain s where s: "slots' = slots(nxt := s)" "s = slots nxt \<or> s = None \<or> s = Some b'"
    by (auto elim: torn_write.cases)
  show ?case
  proof (cases "s = Some b'")
    case True
    then have "load_super_block (read_slot slots') = Inr (fst b', snd b', instance_next nxt)"
      using crashed.IH crashed.hyps(2) s(1) by (intro load_greatest) auto
    then show ?thesis using crashed s(1) True by auto
  next
    case False
    then have "load_super_block (read_slot slots') = Inr (fst b, snd b, nxt)"
      using crashed.IH s load_greatest [of slots' "instance_next nxt" b] by auto
    then show ?thesis using crashed s False by auto
  qed
next
  case (formatted b)
  show ?case by (simp add: instance_next_def)
qed auto

text \<open>
  C8: however often super blocks were saved and however often a crash cut a save short, a mount after a
  crash during the next save succeeds and finds the last super block that was saved or the one that was
  being saved, never an older one.
\<close>

theorem super_block_survives_crash:
  assumes "super_blocks slots next_instance b" "generation (fst b') = generation (fst b) + 1"
    and "torn_write slots next_instance b' slots'"
  shows "\<exists>h a next_instance'. load_super_block (read_slot slots') = Inr (h, a, next_instance') \<and>
    ((h, a) = b \<and> next_instance' = next_instance \<or> (h, a) = b' \<and> next_instance' = instance_next next_instance)"
proof -
  from assms(3) obtain s where s: "slots' = slots(next_instance := s)" "s = slots next_instance \<or> s = None \<or> s = Some b'"
    by (auto elim: torn_write.cases)
  note inv = super_blocks_inv [OF assms(1)]
  show ?thesis
  proof (cases "s = Some b'")
    case True
    then show ?thesis using load_greatest [of slots' next_instance b'] inv assms(2) s(1) by auto
  next
    case False
    then show ?thesis using load_greatest [of slots' "instance_next next_instance" b] inv s by auto
  qed
qed

definition example_header :: super_block_header where
  "example_header = super_block_header_new 3 8 4 5 9 \<lparr>file_offset = 0, cp_checksum = 0, cp_version = 1\<rparr> 1"

theorem super_block_survives_crash_witness:
  "\<exists>h a i. load_super_block (read_slot (\<lambda>i. if i = InstanceA then Some (example_header, ()) else None)) = Inr (h, a, i) \<and>
     (h = example_header \<or> generation h = generation example_header + 1)"
proof -
  let ?slots = "\<lambda>i. if i = InstanceA then Some (example_header, ()) else None"
  let ?new = "(example_header\<lparr>generation := generation example_header + 1\<rparr>, ())"
  have "torn_write ?slots InstanceB ?new (?slots(InstanceB := None))" by (rule torn_write.intros) simp
  moreover have "?slots(InstanceB := None) = ?slots" by auto
  ultimately have "torn_write ?slots InstanceB ?new ?slots" by simp
  from super_block_survives_crash [OF super_blocks.formatted _ this] show ?thesis by auto
qed

section \<open>The root parent store\<close>

text \<open>The items of a super block, inserted one after the other.\<close>

fun insert_all :: "nat \<Rightarrow> encryption_keys object_item list \<Rightarrow> object_store \<Rightarrow> object_store res" where
  "insert_all fuel [] store = Inr store"
| "insert_all fuel (i # is) store = bind_res (insert_root_parent_item fuel i store) (insert_all fuel is)"

definition is_object :: "encryption_keys object_item \<Rightarrow> bool" where
  "is_object i = (case value i of VObject _ _ \<Rightarrow> True | _ \<Rightarrow> False)"

lemma upper_bound_Less:
  assumes "key_hi (key x) \<le> key_lo (key i)" "object_ok bs x" "object_ok bs i"
  shows "object_cmp_upper_bound (key x) (key i) = Less"
proof (cases "same_attribute (key x) (key i)")
  case True
  then obtain oid a e f where k: "key x = object_key_from_extent oid a e" "key i = object_key_from_extent oid a f"
    by (auto simp: same_attribute_def)
  then have "rend (extent_key.range e) < rend (extent_key.range f)" using assms(1) object_ok_nonempty [OF assms(3)] by auto
  then show ?thesis unfolding k
    by (simp add: object_cmp_upper_bound_def object_key_from_extent_def extent_cmp_upper_bound_def)
next
  case False
  have "key_lo (key x) < key_lo (key i)" using assms object_ok_nonempty by (meson less_le_trans)
  then show ?thesis using False by (simp add: upper_bound_lower_bound object_cmp_lower_lo)
qed

lemma skip_list_insert_last:
  assumes "layer_ok (object_sem bs) (xs @ [i])"
  shows "skip_list_insert object_ops xs i = Inr (xs @ [i])"
proof -
  have "outside_bound object_ops (Included (key i)) (key x)" if "x \<in> set xs" for x
    using assms that upper_bound_Less [of x i bs] layer_ok_ok [of "object_sem bs" xs x]
    by (auto simp: layer_ok_append outside_bound_def object_ops_def)
  then have "iter_mut_new object_ops xs (key i) = (rev xs, [])"
    by (simp add: iter_mut_new_def takeWhile_eq_all_conv dropWhile_eq_Nil_conv)
  then show ?thesis by (simp add: skip_list_insert_def)
qed

text \<open>What inserting an item at the end does to a root parent store.\<close>

definition with_item :: "encryption_keys object_item \<Rightarrow> store_info \<Rightarrow> object_store \<Rightarrow> object_store" where
  "with_item i sinfo store =
     (let store = store\<lparr>os_tree := (os_tree store)\<lparr>mutable_layer := mutable_layer (os_tree store) @ [i]\<rparr>\<rparr>
      in if is_object i
         then update_last_object_id (object_id (key i))
                (store\<lparr>os_store_info := Info (sinfo\<lparr>object_count := adjusted_count (object_count sinfo) 1\<rparr>)\<rparr>)
         else store)"

lemma insert_item:
  assumes "os_store_info store = Info sinfo" "layer_ok (object_sem bs) (mutable_layer (os_tree store) @ [i])"
  shows "insert_root_parent_item fuel i store = Inr (with_item i sinfo store)"
proof -
  have "(item_new (key i) (value i))\<lparr>sequence := sequence i\<rparr> = i" by (simp add: item_new_def)
  then show ?thesis
    using assms(1) skip_list_insert_last [OF assms(2)]
    by (auto simp: insert_root_parent_item_def store_apply_mutation_def lock_state_allows_def is_live_def insert_object_def
        apply_object_mutation_def Let_def tree_insert_def adjust_object_count_def with_item_def is_object_def
        update_last_object_id_def split: object_value.splits)
qed

lemma insert_all_ok:
  assumes "os_store_info store = Info sinfo" "layer_ok (object_sem bs) (mutable_layer (os_tree store) @ items)"
    and "object_count sinfo + length items \<le> u64_max"
  shows "\<exists>store' sinfo'. insert_all fuel items store = Inr store' \<and> os_store_info store' = Info sinfo' \<and>
    os_tree store' = (os_tree store)\<lparr>mutable_layer := mutable_layer (os_tree store) @ items\<rparr> \<and>
    object_count sinfo' = object_count sinfo + length (filter is_object items) \<and>
    lid_cipher (os_last_object_id store') = lid_cipher (os_last_object_id store) \<and>
    lid_id (os_last_object_id store) \<le> lid_id (os_last_object_id store') \<and>
    (lid_cipher (os_last_object_id store) = None \<longrightarrow>
      (\<forall>i \<in> set items. is_object i \<longrightarrow> object_id (key i) \<le> lid_id (os_last_object_id store')))"
  using assms
proof (induction items arbitrary: store sinfo)
  case (Cons i items)
  have ok: "layer_ok (object_sem bs) (mutable_layer (os_tree store) @ [i])"
    using Cons.prems(2) by (auto simp: layer_ok_append)
  define store1 where "store1 = with_item i sinfo store"
  define sinfo1 where "sinfo1 = (if is_object i then sinfo\<lparr>object_count := adjusted_count (object_count sinfo) 1\<rparr> else sinfo)"
  have s1: "os_store_info store1 = Info sinfo1"
    "os_tree store1 = (os_tree store)\<lparr>mutable_layer := mutable_layer (os_tree store) @ [i]\<rparr>"
    "object_count sinfo1 = object_count sinfo + (if is_object i then 1 else 0)"
    "lid_cipher (os_last_object_id store1) = lid_cipher (os_last_object_id store)"
    "lid_id (os_last_object_id store) \<le> lid_id (os_last_object_id store1)"
    "lid_cipher (os_last_object_id store) = None \<Longrightarrow> is_object i \<Longrightarrow> object_id (key i) \<le> lid_id (os_last_object_id store1)"
    using Cons.prems(1,3)
    by (auto simp: store1_def sinfo1_def with_item_def Let_def update_last_object_id_def lid_update_def adjusted_count_def
        split: option.splits)
  have "layer_ok (object_sem bs) (mutable_layer (os_tree store1) @ items)" using Cons.prems(2) s1(2) by simp
  moreover have "object_count sinfo1 + length items \<le> u64_max" using Cons.prems(3) s1(3) by simp
  ultimately obtain store' sinfo' where rest: "insert_all fuel items store1 = Inr store'" "os_store_info store' = Info sinfo'"
    "os_tree store' = (os_tree store1)\<lparr>mutable_layer := mutable_layer (os_tree store1) @ items\<rparr>"
    "object_count sinfo' = object_count sinfo1 + length (filter is_object items)"
    "lid_cipher (os_last_object_id store') = lid_cipher (os_last_object_id store1)"
    "lid_id (os_last_object_id store1) \<le> lid_id (os_last_object_id store')"
    "lid_cipher (os_last_object_id store1) = None \<longrightarrow>
      (\<forall>i \<in> set items. is_object i \<longrightarrow> object_id (key i) \<le> lid_id (os_last_object_id store'))"
    using Cons.IH [OF s1(1)] by metis
  have "insert_all fuel (i # items) store = Inr store'"
    using insert_item [OF Cons.prems(1) ok] rest(1) by (simp add: store1_def)
  then show ?case using rest s1 by (intro exI [of _ store'] exI [of _ sinfo']) auto
qed simp

text \<open>The reader delivers the given records, one by one; the last one is the end record.\<close>

fun delivers ::
  "nat \<Rightarrow> (nat \<Rightarrow> nat \<Rightarrow> u8 list res) \<Rightarrow> (nat \<Rightarrow> u8 list) \<Rightarrow> super_block_record deserializer \<Rightarrow> bootstrap_handle \<Rightarrow>
   journal_reader \<Rightarrow> encryption_keys object_item list \<Rightarrow> bool" where
  "delivers fuel dev new_buffer deser handle reader [] =
     (case next_item fuel dev new_buffer deser handle reader of Inr (SbEnd, _, _) \<Rightarrow> True | _ \<Rightarrow> False)"
| "delivers fuel dev new_buffer deser handle reader (i # is) =
     (case next_item fuel dev new_buffer deser handle reader of
        Inr (SbObjectItem j, handle', reader') \<Rightarrow> j = i \<and> delivers (fuel - 1) dev new_buffer deser handle' reader' is
      | _ \<Rightarrow> False)"

lemma store_apply_insert_fuel:
  "insert_root_parent_item fuel i store = insert_root_parent_item fuel' i store"
  by (simp add: insert_root_parent_item_def store_apply_mutation_def insert_object_def apply_object_mutation_def)

lemma insert_all_fuel: "insert_all fuel is store = insert_all fuel' is store"
  by (induction "is" arbitrary: store) (auto simp: store_apply_insert_fuel [of fuel _ _ fuel'] bind_res_def split: sum.splits)

lemma delivers_Nil:
  "delivers fuel dev new_buffer deser handle reader [] \<Longrightarrow>
   \<exists>handle' reader'. next_item fuel dev new_buffer deser handle reader = Inr (SbEnd, handle', reader')"
  by (auto simp del: next_item.simps split: sum.split_asm prod.split_asm super_block_record.split_asm)

lemma delivers_Cons:
  "delivers fuel dev new_buffer deser handle reader (i # is) \<Longrightarrow>
   \<exists>handle' reader'. next_item fuel dev new_buffer deser handle reader = Inr (SbObjectItem i, handle', reader') \<and>
     delivers (fuel - 1) dev new_buffer deser handle' reader' is"
  by (auto simp del: next_item.simps split: sum.split_asm prod.split_asm super_block_record.split_asm)

lemma read_items_delivers:
  "delivers fuel dev new_buffer deser handle reader is \<Longrightarrow> length is < fuel \<Longrightarrow>
   read_items fuel dev new_buffer deser handle reader store = insert_all fuel is store"
proof (induction "is" arbitrary: fuel handle reader store)
  case Nil
  then obtain n where n: "fuel = Suc n" by (cases fuel) auto
  from delivers_Nil [OF Nil.prems(1)] show ?case by (auto simp: n simp del: next_item.simps)
next
  case (Cons i "is")
  then obtain n where n: "fuel = Suc n" by (cases fuel) auto
  with delivers_Cons [OF Cons.prems(1)] Cons.prems(2) obtain handle' reader' where step:
    "next_item (Suc n) dev new_buffer deser handle reader = Inr (SbObjectItem i, handle', reader')"
    "delivers n dev new_buffer deser handle' reader' is" "length is < n"
    by (auto simp del: next_item.simps)
  then have "read_items n dev new_buffer deser handle' reader' = insert_all (Suc n) is"
    using Cons.IH insert_all_fuel by (intro ext) metis
  with step(1) show ?case by (simp add: n store_apply_insert_fuel [of n i store "Suc n"] del: next_item.simps)
qed

text \<open>
  Reading the records that were written for the layers of the root parent store rebuilds the store: every item
  is inserted without an error, the store has the meaning it had at every point, it counts the objects there
  are, and no object id in use will be handed out again.
\<close>

lemma read_items_rebuilds:
  assumes layers: "\<forall>l \<in> set (layer_set (os_tree root_parent)). layer_ok (object_sem bs) l"
    and written: "sum_list (map (layer_weight (object_sem bs)) (layer_set (os_tree root_parent))) + 1 < fuel"
      "super_block_items fuel root_parent = Inr items"
    and read: "delivers fuel' dev new_buffer deser handle reader items" "length items < fuel'" "length items \<le> u64_max"
      "set_graveyard_directory_object_id graveyard (new_root_parent block oid) = Inr store"
  shows "\<exists>store' sinfo. read_items fuel' dev new_buffer deser handle reader store = Inr store' \<and> os_store_info store' = Info sinfo \<and>
    (\<forall>p. layers_at (object_sem bs) (layer_set (os_tree store')) p = layers_at (object_sem bs) (layer_set (os_tree root_parent)) p) \<and>
    object_count sinfo = length (filter is_object items) \<and>
    (\<forall>i \<in> set items. is_object i \<longrightarrow> object_id (key i) \<le> lid_id (os_last_object_id store'))"
proof -
  let ?t = "\<lparr>mutable_layer = [], immutable_layers = layer_set (os_tree root_parent)\<rparr>"
  have "compact fuel object_ops object_merge ?t = Inr items"
    using written(2) by (simp add: compact_def super_block_items_def immutable_layer_set_def)
  then have items: "layer_ok (object_sem bs) items"
    "layer_at (object_sem bs) items p = layers_at (object_sem bs) (layer_set (os_tree root_parent)) p" for p
    using obj.compact_correct [of ?t bs fuel] layers written(1) by auto
  define sinfo where "sinfo = store_info_default\<lparr>graveyard_directory_object_id := graveyard\<rparr>"
  have store: "os_store_info store = Info sinfo" "os_tree store = tree_new" "lid_cipher (os_last_object_id store) = None"
    "object_count sinfo = 0"
    using read(4)
    by (auto simp: set_graveyard_directory_object_id_def new_root_parent_def sri_info_def bind_res_eq_Inr sinfo_def
        last_object_id_default_def store_info_default_def)
  obtain store' sinfo' where ins: "insert_all fuel' items store = Inr store'" "os_store_info store' = Info sinfo'"
    "os_tree store' = (os_tree store)\<lparr>mutable_layer := mutable_layer (os_tree store) @ items\<rparr>"
    "object_count sinfo' = object_count sinfo + length (filter is_object items)"
    "\<forall>i \<in> set items. is_object i \<longrightarrow> object_id (key i) \<le> lid_id (os_last_object_id store')"
    using insert_all_ok [OF store(1), of bs items fuel'] items(1) store(2-4) read(3) by (auto simp: tree_new_def)
  then have "layers_at (object_sem bs) (layer_set (os_tree store')) p = layer_at (object_sem bs) items p" for p
    using store(2) by (simp add: layer_set_def tree_new_def split: option.splits)
  then show ?thesis using ins store(4) items(2) read_items_delivers [OF read(1,2)] by auto
qed

end
