(* ===== verification/Journal_Replay.thy ===== *)
theory Journal_Replay
  imports Journal Object_Manager_Correct Super_Block_Correct
begin

text \<open>
  What a mount replays: for every object exactly the mutations that are not in its files, from the
  transactions that were committed and not discarded.
\<close>

section \<open>Which mutations are applied\<close>

text \<open>
  The mutations of an object come in the order of the journal, and a transaction that begins a flush or
  deletes the object has no other mutation of it.
\<close>

abbreviation entry_offset :: "entry \<Rightarrow> nat" where
  "entry_offset e \<equiv> file_offset (snd e)"

definition separates :: "entry \<Rightarrow> bool" where
  "separates e = (fst e = BeginFlush \<or> fst e = DeleteVolume)"

definition well_ordered :: "entry list \<Rightarrow> bool" where
  "well_ordered H =
     sorted_wrt (\<lambda>e e'. entry_offset e \<le> entry_offset e' \<and> (separates e \<or> separates e' \<longrightarrow> entry_offset e < entry_offset e')) H"

definition data_entries :: "entry list \<Rightarrow> entry list" where
  "data_entries H = filter (\<lambda>e. is_data (fst e)) H"

text \<open>The unflushed mutations are the last ones, and all others come strictly before them.\<close>

lemma unflushed_suffix:
  assumes "well_ordered H" "unflushed H = (s, f)"
  shows "\<exists>before. data_entries H = before @ s @ f \<and>
    (\<forall>x \<in> set before. \<forall>y \<in> set (s @ f). entry_offset x < entry_offset y) \<and>
    (\<forall>x \<in> set s. \<forall>y \<in> set f. entry_offset x < entry_offset y) \<and>
    (\<forall>x \<in> set (before @ s). \<exists>b \<in> set H. separates b \<and> entry_offset x < entry_offset b)"
  using assms
proof (induction H arbitrary: s f rule: rev_induct)
  case Nil
  then show ?case by (simp add: unflushed_def data_entries_def)
next
  case (snoc e H)
  obtain s0 f0 where u0: "unflushed H = (s0, f0)" by fastforce
  have wo: "well_ordered H" and
    after: "\<And>x. x \<in> set H \<Longrightarrow> entry_offset x \<le> entry_offset e \<and> (separates x \<or> separates e \<longrightarrow> entry_offset x < entry_offset e)"
    using snoc.prems(1) by (auto simp: well_ordered_def sorted_wrt_append)
  from snoc.IH [OF wo u0] obtain before where ih: "data_entries H = before @ s0 @ f0"
    "\<forall>x \<in> set before. \<forall>y \<in> set (s0 @ f0). entry_offset x < entry_offset y"
    "\<forall>x \<in> set s0. \<forall>y \<in> set f0. entry_offset x < entry_offset y"
    "\<forall>x \<in> set (before @ s0). \<exists>b \<in> set H. separates b \<and> entry_offset x < entry_offset b"
    by blast
  have all: "x \<in> set H" if "x \<in> set (before @ s0 @ f0)" for x
    using that ih(1) by (metis data_entries_def filter_is_subset subsetD)
  have step: "(s, f) = unflushed_step e (s0, f0)" using snoc.prems(2) u0 by (simp add: unflushed_snoc)
  show ?case
  proof (cases "separates e \<or> fst e = EndFlush")
    case True
    then have data: "data_entries (H @ [e]) = before @ s0 @ f0"
      using ih(1) by (auto simp: data_entries_def is_data_def separates_def)
    have covered: "\<exists>b \<in> set (H @ [e]). separates b \<and> entry_offset x < entry_offset b"
      if "separates e" "x \<in> set (before @ s0 @ f0)" for x
      using after [OF all [OF that(2)]] that(1) by auto
    consider "fst e = BeginFlush" | "fst e = EndFlush" | "fst e = DeleteVolume" using True by (auto simp: separates_def)
    then show ?thesis
    proof cases
      case 1
      then have "s = s0 @ f0" "f = []" using step by (simp_all add: unflushed_step_def)
      then show ?thesis using data ih covered 1 by (intro exI [of _ before]) (auto simp: separates_def)
    next
      case 2
      then have "s = []" "f = f0" using step by (simp_all add: unflushed_step_def)
      then show ?thesis using data ih by (intro exI [of _ "before @ s0"]) auto
    next
      case 3
      then have "s = []" "f = []" using step by (simp_all add: unflushed_step_def)
      then show ?thesis using data covered 3 by (intro exI [of _ "before @ s0 @ f0"]) (auto simp: separates_def)
    qed
  next
    case False
    then have sf: "s = s0" "f = f0 @ [e]" and data: "data_entries (H @ [e]) = before @ s0 @ f0 @ [e]"
      using step ih(1) by (auto simp: unflushed_step_def separates_def data_entries_def is_data_def)
    have "entry_offset x < entry_offset e" if "x \<in> set (before @ s0)" for x
      using ih(4) after that by (meson less_trans)
    then show ?thesis using data ih sf by (intro exI [of _ before]) auto
  qed
qed

lemma min_checkpoint_le:
  "min_checkpoint m cs = Some c \<Longrightarrow>
   (\<forall>e \<in> set cs. file_offset c \<le> file_offset (earliest (snd e))) \<and> (\<forall>x. m = Some x \<longrightarrow> file_offset c \<le> file_offset x)"
  by (induction m cs rule: min_checkpoint.induct) (fastforce split: option.splits if_splits)+

lemma min_checkpoint_None: "min_checkpoint m cs = None \<longleftrightarrow> m = None \<and> cs = []"
  by (induction m cs rule: min_checkpoint.induct) (auto split: option.splits)

text \<open>The offset the journal is read from is at or before every unflushed mutation.\<close>

lemma header_checkpoint:
  assumes "next_header version cp borrowed j = Inr h" "bt_get (journal_checkpoints (j_objects j)) oid = Some c"
  shows "file_offset (journal_checkpoint h) \<le> file_offset (earliest c)"
proof -
  let ?cs = "journal_checkpoints (j_objects j)"
  have "(oid, c) \<in> set ?cs" using assms(2) by (rule map_of_SomeD)
  moreover obtain x where x: "min_checkpoint None ?cs = Some x"
    using calculation min_checkpoint_None [of None ?cs] by (cases "min_checkpoint None ?cs") auto
  ultimately have "file_offset x \<le> file_offset (earliest c)" using min_checkpoint_le [OF x] by fastforce
  then show ?thesis using assms(1) x by (auto simp: next_header_def journal_file_offsets_def split: option.splits)
qed

lemma next_header_returns: "generation (j_header j) < u64_max \<Longrightarrow> \<exists>h. next_header v cp b j = Inr h"
  by (simp add: next_header_def checked_add_def split: prod.splits)

text \<open>
  C6: a replay gives every object back exactly what is not in its files. Whatever was applied and flushed
  before a super block is written, the mutations of an object before it that the next mount will apply
  are those, in order, that the object's files do not have, and the journal is read from early enough to
  find them all. Objects that need nothing get nothing.
\<close>

theorem replay_applies_unflushed:
  assumes "om_history h (j_objects j)" "oid \<noteq> root_parent_store_object_id (j_objects j)"
    and "well_ordered (of_object oid h)" "\<forall>e \<in> set h. entry_offset (snd e) < file_offset cp"
    and "next_header version cp borrowed j = Inr hdr" "unflushed (of_object oid h) = (flushing, pending)"
  shows "filter (\<lambda>e. should_apply hdr oid (snd e)) (data_entries (of_object oid h)) = flushing @ pending \<and>
    (\<forall>e \<in> set (flushing @ pending). file_offset (journal_checkpoint hdr) \<le> entry_offset e)"
proof -
  let ?H = "of_object oid h"
  obtain before where suf: "data_entries ?H = before @ flushing @ pending"
    "\<forall>x \<in> set before. \<forall>y \<in> set (flushing @ pending). entry_offset x < entry_offset y"
    using unflushed_suffix [OF assms(3,6)] by blast
  have sorted: "sorted (map entry_offset ?H)"
    using assms(3) unfolding well_ordered_def sorted_map by (rule sorted_wrt_mono_rel [rotated]) auto
  then have "sorted (map entry_offset (data_entries ?H))" by (simp add: data_entries_def sorted_filter)
  then have first: "entry_offset (hd (flushing @ pending)) \<le> entry_offset e" if "e \<in> set (flushing @ pending)" for e
    using that suf(1) by (cases "flushing @ pending") (auto simp: sorted_append)
  have late: "entry_offset e < file_offset cp" if "e \<in> set ?H" for e
    using assms(4) that by (force simp: of_object_def)
  have tr: "tracks (bt_get (journal_checkpoints (j_objects j)) oid) (flushing, pending)"
    using om_history_tracks [OF assms(1,2)] assms(6) by simp
  have offs: "bt_get (sb_journal_file_offsets hdr) oid =
      map_option (\<lambda>c. file_offset (earliest c)) (bt_get (journal_checkpoints (j_objects j)) oid)"
    and sb: "super_block_journal_file_offset hdr = file_offset cp"
    using assms(5) by (auto simp: next_header_def journal_file_offsets_def map_of_map split: option.splits)
  show ?thesis
  proof (cases "bt_get (journal_checkpoints (j_objects j)) oid")
    case None
    then have "flushing @ pending = []" using tr by simp
    moreover have "\<not> should_apply hdr oid (snd e)" if "e \<in> set (data_entries ?H)" for e
      using late [of e] that None offs sb by (auto simp: should_apply_def data_entries_def)
    ultimately show ?thesis by (simp add: filter_empty_conv)
  next
    case (Some c)
    then have ne: "flushing @ pending \<noteq> []" and hd: "file_offset (earliest c) = entry_offset (hd (flushing @ pending))"
      using tr by (cases c; auto)+
    then have app: "should_apply hdr oid (snd e) \<longleftrightarrow> entry_offset (hd (flushing @ pending)) \<le> entry_offset e" for e
      using Some offs by (simp add: should_apply_def)
    have "hd (flushing @ pending) \<in> set (flushing @ pending)" using ne by (rule hd_in_set)
    then have "\<forall>e \<in> set before. \<not> should_apply hdr oid (snd e)" using suf(2) app by (meson not_le)
    then have "filter (\<lambda>e. should_apply hdr oid (snd e)) before = []" by (simp add: filter_empty_conv)
    moreover have "filter (\<lambda>e. should_apply hdr oid (snd e)) (flushing @ pending) = flushing @ pending"
      using first app by (simp add: filter_id_conv)
    ultimately have "filter (\<lambda>e. should_apply hdr oid (snd e)) (data_entries ?H) = flushing @ pending"
      by (simp add: suf(1))
    moreover have "file_offset (journal_checkpoint hdr) \<le> entry_offset e" if "e \<in> set (flushing @ pending)" for e
      using header_checkpoint [OF assms(5) Some] hd first [OF that] by simp
    ultimately show ?thesis by blast
  qed
qed

theorem replay_applies_unflushed_witness:
  "\<exists>objects hdr. let cp = \<lparr>file_offset = 5, cp_checksum = 0, cp_version = 1\<rparr>; m = AllocatorM (SetLimit 7 100) in
     om_history [(3, m, cp)] objects \<and>
     next_header 1 (cp\<lparr>file_offset := 60\<rparr>) 0 (journal_new objects example_header 1 0 0) = Inr hdr \<and>
     filter (\<lambda>e. should_apply hdr 3 (snd e)) (data_entries (of_object 3 [(3, m, cp)])) = [(m, cp)]"
proof -
  define cp :: checkpoint where "cp = \<lparr>file_offset = 5, cp_checksum = 0, cp_version = 1\<rparr>"
  let ?m = "AllocatorM (SetLimit 7 100)"
  obtain a where run: "om_apply_mutation 0 3 ?m cp (Live None) None example_manager =
      Inr (example_manager\<lparr>journal_checkpoints := [(3, Current cp)], om_allocator := Some a\<rparr>, Live None)"
    using example_applied by blast
  let ?objects = "example_manager\<lparr>journal_checkpoints := [(3, Current cp)], om_allocator := Some a\<rparr>"
  let ?j = "journal_new ?objects example_header 1 0 0"
  have "om_history [] example_manager" by (rule om_history.start) (simp add: example_manager_def object_manager_new_def)
  from om_history.applied [OF this run] have h: "om_history [(3, ?m, cp)] (j_objects ?j)" by (simp add: journal_new_def)
  have un: "unflushed (of_object 3 [(3, ?m, cp)]) = ([], [(?m, cp)])"
    by (simp add: unflushed_def of_object_def unflushed_step_def)
  have root: "3 \<noteq> root_parent_store_object_id (j_objects ?j)"
    by (simp add: journal_new_def example_manager_def object_manager_new_def)
  have wo: "well_ordered (of_object 3 [(3, ?m, cp)])" by (simp add: well_ordered_def of_object_def)
  have "generation (j_header ?j) < u64_max"
    by (simp add: journal_new_def example_header_def super_block_header_new_def u64_max_def)
  then obtain hdr where hdr: "next_header 1 (cp\<lparr>file_offset := 60\<rparr>) 0 ?j = Inr hdr"
    using next_header_returns by blast
  have "filter (\<lambda>e. should_apply hdr 3 (snd e)) (data_entries (of_object 3 [(3, ?m, cp)])) = [(?m, cp)]"
    using replay_applies_unflushed [OF h root wo _ hdr un] by (simp add: cp_def)
  with h hdr show ?thesis by (auto simp: cp_def journal_new_def Let_def)
qed

section \<open>Which transactions are seen\<close>

text \<open>
  A log as the reading loop sees it: records, with the checkpoint before and the offset after them, and
  resets. It consists of sessions, each of which ends in a crash, perhaps in the middle of a transaction;
  the next mount starts a new stream.
\<close>

datatype log_item = LogRecord checkpoint nat journal_record | LogReset nat

fun scan_log :: "super_block_header \<Rightarrow> log_item list \<Rightarrow> scan \<Rightarrow> scan res" where
  "scan_log h [] st = Inr st"
| "scan_log h (LogRecord cp e r # items) st = bind_res (scan_record h cp e r st) (scan_log h items)"
| "scan_log h (LogReset off # items) st = scan_log h items (scan_reset off st)"

record logged_txn =
  lt_records :: "(checkpoint \<times> nat \<times> mutation) list"
  lt_commit :: checkpoint
  lt_end :: nat

datatype log_event = Txn logged_txn | Flushed checkpoint nat | Padding checkpoint | Discarded checkpoint nat

definition mutation_items :: "(checkpoint \<times> nat \<times> mutation) list \<Rightarrow> log_item list" where
  "mutation_items rs = map (\<lambda>(cp, oid, m). LogRecord cp 0 (JMutation oid m)) rs"

fun event_items :: "log_event \<Rightarrow> log_item list" where
  "event_items (Txn t) = mutation_items (lt_records t) @ [LogRecord (lt_commit t) (lt_end t) Commit]"
| "event_items (Flushed cp off) = [LogRecord cp 0 (DidFlushDevice off)]"
| "event_items (Padding cp) = [LogRecord cp 0 EndBlock]"
| "event_items (Discarded cp off) = [LogRecord cp 0 (Discard off)]"

record session =
  events :: "log_event list"
  torn :: "(checkpoint \<times> nat \<times> mutation) list"
  reset_at :: nat

definition crashed_session :: "session \<Rightarrow> log_item list" where
  "crashed_session s = concat (map event_items (events s)) @ mutation_items (torn s)"

definition session_items :: "session \<Rightarrow> log_item list" where
  "session_items s = crashed_session s @ [LogReset (reset_at s)]"

text \<open>What a replay should see of it: the committed transactions, less those that were discarded.\<close>

definition txn_start :: "logged_txn \<Rightarrow> checkpoint" where
  "txn_start t = fst (hd (lt_records t))"

definition applied_part :: "super_block_header \<Rightarrow> logged_txn \<Rightarrow> (nat \<times> mutation) list" where
  "applied_part h t = filter (\<lambda>om. should_apply h (fst om) (txn_start t)) (map snd (lt_records t))"

definition replayed_txn :: "super_block_header \<Rightarrow> logged_txn \<Rightarrow> replay_txn" where
  "replayed_txn h t = (txn_start t, applied_part h t, lt_end t)"

fun committed_event :: "super_block_header \<Rightarrow> log_event \<Rightarrow> replay_txn list \<Rightarrow> replay_txn list" where
  "committed_event h (Txn t) ts = ts @ [replayed_txn h t]"
| "committed_event h (Discarded _ off) ts = filter (\<lambda>t. file_offset (fst t) < off) ts"
| "committed_event h _ ts = ts"

definition committed :: "super_block_header \<Rightarrow> session list \<Rightarrow> replay_txn list" where
  "committed h ss = fold (committed_event h) (concat (map events ss)) []"

definition txns_of :: "log_event list \<Rightarrow> logged_txn list" where
  "txns_of es = concat (map (\<lambda>e. case e of Txn t \<Rightarrow> [t] | _ \<Rightarrow> []) es)"

text \<open>Transactions are not empty and follow each other in the journal.\<close>

definition log_ok :: "log_event list \<Rightarrow> bool" where
  "log_ok es = ((\<forall>t \<in> set (txns_of es). lt_records t \<noteq> []) \<and> sorted (map (\<lambda>t. file_offset (txn_start t)) (txns_of es)))"

lemma scan_log_append: "scan_log h (xs @ ys) st = bind_res (scan_log h xs st) (scan_log h ys)"
  by (induction h xs st rule: scan_log.induct) (simp_all add: bind_res_def split: sum.splits)

lemma scan_mutation_current:
  assumes "in_transaction st" "transactions st = ts @ [(start, ms, e)]"
  shows "scan_log h (mutation_items rs) st =
    Inr (st\<lparr>transactions := ts @ [(start, ms @ filter (\<lambda>om. should_apply h (fst om) start) (map snd rs), e)]\<rparr>)"
  using assms
proof (induction rs arbitrary: st ms)
  case (Cons r rs)
  obtain cp oid m where r: "r = (cp, oid, m)" by (cases r) auto
  let ?st = "st\<lparr>transactions := ts @ [(start, if should_apply h oid start then ms @ [(oid, m)] else ms, e)]\<rparr>"
  have "scan_mutation h cp oid m st = ?st" using Cons.prems by (simp add: scan_mutation_def)
  moreover have "in_transaction ?st" using Cons.prems(1) by simp
  ultimately show ?case
    using Cons.IH [of ?st "if should_apply h oid start then ms @ [(oid, m)] else ms"] r
    by (simp add: mutation_items_def scan_record_def)
qed (simp add: mutation_items_def)

lemma scan_mutations:
  assumes "\<not> in_transaction st" "rs \<noteq> []"
  shows "scan_log h (mutation_items rs) st =
    Inr (st\<lparr>in_transaction := True, transactions := transactions st @
      [(fst (hd rs), filter (\<lambda>om. should_apply h (fst om) (fst (hd rs))) (map snd rs), 0)]\<rparr>)"
proof -
  obtain cp oid m rs' where rs: "rs = (cp, oid, m) # rs'" using assms(2) by (cases rs) auto
  let ?ms = "if should_apply h oid cp then [(oid, m)] else []"
  let ?st = "st\<lparr>in_transaction := True, transactions := transactions st @ [(cp, ?ms, 0)]\<rparr>"
  have "scan_mutation h cp oid m st = ?st" using assms(1) by (simp add: scan_mutation_def)
  then have "scan_log h (mutation_items rs) st = scan_log h (mutation_items rs') ?st"
    by (simp add: rs mutation_items_def scan_record_def)
  then show ?thesis
    using scan_mutation_current [of ?st "transactions st" cp ?ms 0 h rs'] by (simp add: rs)
qed

lemma snoop_mutation_keeps:
  "snoop_mutation h e om st = Inr st' \<Longrightarrow> transactions st' = transactions st \<and> in_transaction st' = in_transaction st"
  by (auto simp: snoop_mutation_def bind_res_eq_Inr
      split: mutation.splits allocator_mutation.splits object_key_data.splits attribute_key.splits object_value.splits
        extent_value.splits if_splits nat.splits)

lemma snoop_all_keeps:
  "snoop_all h e oms st = Inr st' \<Longrightarrow> transactions st' = transactions st \<and> in_transaction st' = in_transaction st"
  by (induction oms arbitrary: st) (auto simp: bind_res_eq_Inr dest: snoop_mutation_keeps)

lemma pop_from_sorted:
  "sorted (map (\<lambda>t. file_offset (fst t)) ts) \<Longrightarrow> pop_from off ts = filter (\<lambda>t. file_offset (fst t) < off) ts"
proof (induction ts rule: rev_induct)
  case (snoc t ts)
  then show ?case
  proof (cases "file_offset (fst t) \<ge> off")
    case False
    then have "\<forall>x \<in> set (ts @ [t]). file_offset (fst x) < off" using snoc.prems by (auto simp: sorted_append)
    then have "filter (\<lambda>t. file_offset (fst t) < off) (ts @ [t]) = ts @ [t]" by (simp add: filter_id_conv)
    with False show ?thesis by (simp add: pop_from_def)
  qed (simp add: pop_from_def sorted_append)
qed (simp add: pop_from_def)

lemma scan_event:
  assumes "\<not> in_transaction st" "\<And>t. e = Txn t \<Longrightarrow> lt_records t \<noteq> []"
    "sorted (map (\<lambda>t. file_offset (fst t)) (transactions st))" "scan_log h (event_items e) st = Inr st'"
  shows "\<not> in_transaction st' \<and> transactions st' = committed_event h e (transactions st)"
proof (cases e)
  case (Txn t)
  let ?st = "st\<lparr>in_transaction := True, transactions := transactions st @ [(txn_start t, applied_part h t, 0)]\<rparr>"
  have "scan_log h (mutation_items (lt_records t)) st = Inr ?st"
    using scan_mutations [OF assms(1), of "lt_records t" h] assms(2) Txn by (simp add: txn_start_def applied_part_def)
  then obtain st1 where st1: "snoop_all h (lt_end t) (applied_part h t) (?st\<lparr>in_transaction := False\<rparr>) = Inr st1"
    "st' = st1\<lparr>transactions := butlast (transactions st1) @ [(txn_start t, applied_part h t, lt_end t)]\<rparr>"
    using assms(4) Txn by (auto simp: scan_log_append scan_record_def scan_commit_def bind_res_eq_Inr)
  from snoop_all_keeps [OF st1(1)] st1(2) Txn show ?thesis by (simp add: replayed_txn_def)
next
  case (Discarded cp off)
  then show ?thesis using assms pop_from_sorted
    by (auto simp: scan_record_def scan_discard_def bind_res_eq_Inr)
qed (use assms in \<open>auto simp: scan_record_def scan_flushed_def split: if_splits\<close>)

lemma txns_of_simps [simp]:
  "txns_of [] = []" "txns_of (e # es) = (case e of Txn t \<Rightarrow> [t] | _ \<Rightarrow> []) @ txns_of es"
  "txns_of (es @ es') = txns_of es @ txns_of es'"
  by (simp_all add: txns_of_def)

definition starts :: "log_event list \<Rightarrow> nat list" where
  "starts es = map (\<lambda>t. file_offset (txn_start t)) (txns_of es)"

lemma committed_event_sorted:
  assumes "sorted (map (\<lambda>t. file_offset (fst t)) ts @ starts (e # es))"
  shows "sorted (map (\<lambda>t. file_offset (fst t)) (committed_event h e ts) @ starts es)"
  using assms by (cases e) (auto simp: starts_def replayed_txn_def sorted_append sorted_filter)

lemma committed_sorted:
  "sorted (map (\<lambda>t. file_offset (fst t)) ts @ starts (es @ es')) \<Longrightarrow>
   sorted (map (\<lambda>t. file_offset (fst t)) (fold (committed_event h) es ts) @ starts es')"
  by (induction es arbitrary: ts) (simp_all add: committed_event_sorted)

lemma scan_events:
  assumes "\<not> in_transaction st" "\<forall>t \<in> set (txns_of es). lt_records t \<noteq> []"
    "sorted (map (\<lambda>t. file_offset (fst t)) (transactions st) @ starts es)"
    "scan_log h (concat (map event_items es)) st = Inr st'"
  shows "\<not> in_transaction st' \<and> transactions st' = fold (committed_event h) es (transactions st)"
  using assms
proof (induction es arbitrary: st)
  case (Cons e es)
  then obtain st1 where st1: "scan_log h (event_items e) st = Inr st1" "scan_log h (concat (map event_items es)) st1 = Inr st'"
    by (auto simp: scan_log_append bind_res_eq_Inr)
  have one: "\<not> in_transaction st1 \<and> transactions st1 = committed_event h e (transactions st)"
    using Cons.prems by (intro scan_event st1(1)) (auto simp: sorted_append)
  have "sorted (map (\<lambda>t. file_offset (fst t)) (transactions st1) @ starts es)"
    using Cons.prems(3) one by (simp add: committed_event_sorted)
  with one Cons.IH [OF _ _ _ st1(2)] Cons.prems(2) show ?case by simp
qed simp

lemma scan_torn:
  assumes "\<not> in_transaction st" "scan_log h (mutation_items rs) st = Inr st'"
  shows "\<not> in_transaction (scan_drop_current st') \<and> transactions (scan_drop_current st') = transactions st"
  using assms scan_mutations [OF assms(1), of rs h]
  by (cases "rs = []") (auto simp: scan_drop_current_def mutation_items_def)

lemma scan_reset_keeps [simp]:
  "in_transaction (scan_reset off st) = in_transaction (scan_drop_current st)"
  "transactions (scan_reset off st) = transactions (scan_drop_current st)"
  by (simp_all add: scan_reset_def scan_flushed_def)

lemma scan_crashed:
  assumes "\<not> in_transaction st" "\<forall>t \<in> set (txns_of (events s)). lt_records t \<noteq> []"
    "sorted (map (\<lambda>t. file_offset (fst t)) (transactions st) @ starts (events s))"
    "scan_log h (crashed_session s) st = Inr st'"
  shows "\<not> in_transaction (scan_drop_current st') \<and>
    transactions (scan_drop_current st') = fold (committed_event h) (events s) (transactions st)"
proof -
  obtain st1 where st1: "scan_log h (concat (map event_items (events s))) st = Inr st1"
    "scan_log h (mutation_items (torn s)) st1 = Inr st'"
    using assms(4) by (auto simp: crashed_session_def scan_log_append bind_res_eq_Inr)
  note one = scan_events [OF assms(1-3) st1(1)]
  show ?thesis using one scan_torn [OF conjunct1 [OF one] st1(2)] by simp
qed

lemma scan_sessions:
  assumes "\<not> in_transaction st" "\<forall>t \<in> set (txns_of (concat (map events ss))). lt_records t \<noteq> []"
    "sorted (map (\<lambda>t. file_offset (fst t)) (transactions st) @ starts (concat (map events ss)))"
    "scan_log h (concat (map session_items ss)) st = Inr st'"
  shows "\<not> in_transaction st' \<and> transactions st' = fold (committed_event h) (concat (map events ss)) (transactions st)"
  using assms
proof (induction ss arbitrary: st)
  case (Cons s ss)
  obtain st1 where st1: "scan_log h (crashed_session s) st = Inr st1"
    "scan_log h (concat (map session_items ss)) (scan_reset (reset_at s) st1) = Inr st'"
    using Cons.prems(4) by (auto simp: session_items_def [of s] scan_log_append bind_res_eq_Inr)
  have one: "\<not> in_transaction (scan_drop_current st1) \<and>
      transactions (scan_drop_current st1) = fold (committed_event h) (events s) (transactions st)"
    using Cons.prems by (intro scan_crashed [OF _ _ _ st1(1)]) (auto simp: starts_def sorted_append)
  then have "sorted (map (\<lambda>t. file_offset (fst t)) (transactions (scan_reset (reset_at s) st1)) @ starts (concat (map events ss)))"
    using Cons.prems(3) by (simp add: committed_sorted)
  with one Cons.IH [OF _ _ _ st1(2)] Cons.prems(2) show ?case by simp
qed simp

section \<open>The reading loop returns\<close>

text \<open>The extents of the handle add up to its size and fit in 64 bits.\<close>

definition handle_ok :: "bootstrap_handle \<Rightarrow> bool" where
  "handle_ok hdl =
     ((\<forall>r \<in> set (bh_extents hdl). rstart r \<le> rend r) \<and> bh_size hdl = (\<Sum>r \<leftarrow> bh_extents hdl. rend r - rstart r) \<and>
      start_offset hdl + bh_size hdl \<le> u64_max)"

lemma range_length_valid: "rstart r \<le> rend r \<Longrightarrow> range_length r = Inr (rend r - rstart r)"
  by (simp add: range_length_def range_is_valid_def ensure_def u64_sub_def)

lemma discard_from_end_returns:
  assumes "\<forall>r \<in> set rs. rstart r \<le> rend r" "n = (\<Sum>r \<leftarrow> rs. rend r - rstart r)" "n \<le> off"
  shows "\<exists>rs' n'. discard_from_end d off n rs = Inr (rs', n') \<and> set rs' \<subseteq> set rs \<and> n' = (\<Sum>r \<leftarrow> rs'. rend r - rstart r) \<and> n' \<le> n"
  using assms
proof (induction rs arbitrary: off n)
  case (Cons r rs)
  let ?len = "rend r - rstart r"
  have "\<exists>rs' n'. discard_from_end d (off - ?len) (n - ?len) rs = Inr (rs', n') \<and> set rs' \<subseteq> set rs \<and>
      n' = (\<Sum>r \<leftarrow> rs'. rend r - rstart r) \<and> n' \<le> n - ?len"
    using Cons.prems by (intro Cons.IH) auto
  then show ?case
    using Cons.prems by (fastforce simp: range_length_valid checked_sub_def u64_sub_def)
qed simp

lemma discard_extents_returns:
  assumes "handle_ok hdl"
  shows "\<exists>hdl'. discard_extents d hdl = Inr hdl' \<and> handle_ok hdl' \<and> bh_object_id hdl' = bh_object_id hdl"
proof -
  have "\<exists>rs' n'. discard_from_end d (start_offset hdl + bh_size hdl) (bh_size hdl) (rev (bh_extents hdl)) = Inr (rs', n') \<and>
      set rs' \<subseteq> set (rev (bh_extents hdl)) \<and> n' = (\<Sum>r \<leftarrow> rs'. rend r - rstart r) \<and> n' \<le> bh_size hdl"
    using assms by (intro discard_from_end_returns) (auto simp: handle_ok_def rev_map [symmetric])
  then show ?thesis
    using assms by (fastforce simp: discard_extents_def u64_add_def handle_ok_def rev_map [symmetric])
qed

text \<open>A mutation that maps an extent of the journal file itself.\<close>

definition maps_journal :: "super_block_header \<Rightarrow> nat \<Rightarrow> nat \<times> mutation \<Rightarrow> bool" where
  "maps_journal h oid om =
     (fst om = sb_root_parent_store_object_id h \<and>
      (case snd om of ObjectStoreM m \<Rightarrow> object_id (key (osm_item m)) = oid | _ \<Rightarrow> False))"

lemma snoop_mutation_returns:
  "\<not> maps_journal h (bh_object_id (scan_handle st)) om \<Longrightarrow>
   \<exists>st'. snoop_mutation h e om st = Inr st' \<and> scan_handle st' = scan_handle st"
  by (auto simp: snoop_mutation_def maps_journal_def split: mutation.splits allocator_mutation.splits
      object_key_data.splits attribute_key.splits object_value.splits extent_value.splits nat.splits)

lemma snoop_all_returns:
  "\<forall>om \<in> set oms. \<not> maps_journal h (bh_object_id (scan_handle st)) om \<Longrightarrow>
   \<exists>st'. snoop_all h e oms st = Inr st' \<and> scan_handle st' = scan_handle st"
proof (induction oms arbitrary: st)
  case (Cons om oms)
  from Cons.prems obtain st1 where "snoop_mutation h e om st = Inr st1" "scan_handle st1 = scan_handle st"
    using snoop_mutation_returns by (metis list.set_intros(1))
  with Cons.IH [of st1] Cons.prems show ?case by simp
qed simp

definition scan_inv :: "super_block_header \<Rightarrow> nat \<Rightarrow> scan \<Rightarrow> bool" where
  "scan_inv h oid st =
     (handle_ok (scan_handle st) \<and> bh_object_id (scan_handle st) = oid \<and> (in_transaction st \<longrightarrow> transactions st \<noteq> []) \<and>
      (\<forall>t \<in> set (transactions st). \<forall>om \<in> set (fst (snd t)). \<not> maps_journal h oid om))"

fun item_maps_journal :: "super_block_header \<Rightarrow> nat \<Rightarrow> log_item \<Rightarrow> bool" where
  "item_maps_journal h oid (LogRecord _ _ (JMutation o' m)) = maps_journal h oid (o', m)"
| "item_maps_journal h oid _ = False"

lemma scan_inv_last:
  assumes "\<forall>t \<in> set ts. \<forall>om \<in> set (fst (snd t)). \<not> maps_journal h oid om" "ts \<noteq> []" "last ts = (start, ms, e)"
  shows "\<forall>om \<in> set ms. \<not> maps_journal h oid om"
  using bspec [OF assms(1) last_in_set [OF assms(2)]] assms(3) by simp

lemma scan_mutation_inv:
  assumes "scan_inv h oid st" "\<not> maps_journal h oid (o', m)"
  shows "scan_inv h oid (scan_mutation h cp o' m st)"
proof -
  define ts where "ts = (if in_transaction st then transactions st else transactions st @ [(cp, [], 0)])"
  obtain start ms e where l: "last ts = (start, ms, e)" by (cases "last ts") auto
  have ne: "ts \<noteq> []" and no: "\<forall>t \<in> set ts. \<forall>om \<in> set (fst (snd t)). \<not> maps_journal h oid om"
    using assms(1) by (auto simp: scan_inv_def ts_def)
  have "scan_mutation h cp o' m st = st\<lparr>in_transaction := True,
      transactions := butlast ts @ [(start, if should_apply h o' start then ms @ [(o', m)] else ms, e)]\<rparr>"
    by (simp add: scan_mutation_def ts_def [symmetric] l)
  moreover have "\<forall>t \<in> set (butlast ts). \<forall>om \<in> set (fst (snd t)). \<not> maps_journal h oid om"
    using no by (meson in_set_butlastD)
  ultimately show ?thesis
    using assms scan_inv_last [OF no ne l] by (simp add: scan_inv_def ball_Un)
qed

lemma scan_commit_returns:
  assumes "scan_inv h oid st"
  shows "\<exists>st'. scan_commit h e st = Inr st' \<and> scan_inv h oid st'"
proof (cases "in_transaction st")
  case True
  obtain start ms e' where l: "last (transactions st) = (start, ms, e')" by (cases "last (transactions st)") auto
  have no: "\<forall>t \<in> set (transactions st). \<forall>om \<in> set (fst (snd t)). \<not> maps_journal h oid om" and ne: "transactions st \<noteq> []"
    using assms True by (simp_all add: scan_inv_def)
  note ms = scan_inv_last [OF no ne l]
  then obtain st1 where st1: "snoop_all h e ms (st\<lparr>in_transaction := False\<rparr>) = Inr st1" "scan_handle st1 = scan_handle st"
    using snoop_all_returns [of ms h "st\<lparr>in_transaction := False\<rparr>" e] assms by (auto simp: scan_inv_def)
  have "\<forall>t \<in> set (butlast (transactions st)). \<forall>om \<in> set (fst (snd t)). \<not> maps_journal h oid om"
    using no by (meson in_set_butlastD)
  with snoop_all_keeps [OF st1(1)] st1 assms True ms show ?thesis
    by (simp add: scan_commit_def l scan_inv_def ball_Un)
qed (use assms in \<open>simp add: scan_commit_def\<close>)

lemma pop_from_subset: "set (pop_from off ts) \<subseteq> set ts"
  by (metis pop_from_def set_dropWhileD set_rev subsetI)

lemma scan_discard_returns:
  assumes "scan_inv h oid st"
  shows "\<exists>st'. scan_discard off st = Inr st' \<and> scan_inv h oid st'"
proof -
  obtain hdl where "discard_extents off (scan_handle st) = Inr hdl" "handle_ok hdl" "bh_object_id hdl = oid"
    using discard_extents_returns assms by (metis scan_inv_def)
  then show ?thesis using assms pop_from_subset by (fastforce simp: scan_discard_def scan_inv_def)
qed

lemma scan_flushed_inv [simp]: "scan_inv h oid (scan_flushed off st) = scan_inv h oid st"
  by (simp add: scan_flushed_def scan_inv_def)

lemma scan_drop_current_inv: "scan_inv h oid st \<Longrightarrow> scan_inv h oid (scan_drop_current st)"
  by (auto simp: scan_drop_current_def scan_inv_def dest: in_set_butlastD)

lemma scan_log_returns:
  "scan_inv h oid st \<Longrightarrow> \<forall>i \<in> set items. \<not> item_maps_journal h oid i \<Longrightarrow> \<exists>st'. scan_log h items st = Inr st'"
proof (induction h items st rule: scan_log.induct)
  case (2 h cp e r items st)
  have "\<exists>st1. scan_record h cp e r st = Inr st1 \<and> scan_inv h oid st1"
    using 2(2,3) scan_mutation_inv scan_commit_returns scan_discard_returns
    by (cases r) (auto simp: scan_record_def)
  then obtain st1 where "scan_record h cp e r st = Inr st1" "scan_inv h oid st1" by blast
  with 2 show ?case by simp
next
  case (3 h off items st)
  then show ?case by (simp add: scan_reset_def scan_drop_current_inv)
qed simp

section \<open>Replay sees the committed transactions\<close>

abbreviation empty_scan :: "nat \<Rightarrow> bootstrap_handle \<Rightarrow> scan" where
  "empty_scan flushed handle \<equiv>
     \<lparr>transactions = [], in_transaction = False, scan_flushed_offset = flushed, scan_marked = [], scan_handle = handle\<rparr>"

text \<open>
  C5: the reading loop of a mount finds exactly the transactions that were committed and not discarded by
  a later mount, in order, each with the mutations the super block asks for; a transaction that a crash
  tore in two is dropped, whichever session it was in. The loop always returns as long as the log has no
  mutations of the journal file's own extents.
\<close>

theorem replay_sees_committed:
  assumes "log_ok (concat (map events (ss @ [s])))" "handle_ok handle"
  shows "(\<forall>st. scan_log h (concat (map session_items ss) @ crashed_session s) (empty_scan flushed handle) = Inr st \<longrightarrow>
       transactions (scan_drop_current st) = committed h (ss @ [s])) \<and>
    ((\<forall>i \<in> set (concat (map session_items ss) @ crashed_session s). \<not> item_maps_journal h (bh_object_id handle) i) \<longrightarrow>
       (\<exists>st. scan_log h (concat (map session_items ss) @ crashed_session s) (empty_scan flushed handle) = Inr st))"
proof (intro conjI allI impI)
  let ?before = "concat (map events ss)"
  fix st
  assume "scan_log h (concat (map session_items ss) @ crashed_session s) (empty_scan flushed handle) = Inr st"
  then obtain st1 where st1: "scan_log h (concat (map session_items ss)) (empty_scan flushed handle) = Inr st1"
    "scan_log h (crashed_session s) st1 = Inr st"
    by (auto simp: scan_log_append bind_res_eq_Inr)
  have ne: "\<forall>t \<in> set (txns_of (?before @ events s)). lt_records t \<noteq> []"
    and sorted: "sorted (starts (?before @ events s))"
    using assms(1) by (auto simp: log_ok_def starts_def)
  have one: "\<not> in_transaction st1 \<and> transactions st1 = fold (committed_event h) ?before []"
    using scan_sessions [OF _ _ _ st1(1)] ne sorted by (simp add: starts_def sorted_append)
  have "sorted (map (\<lambda>t. file_offset (fst t)) (transactions st1) @ starts (events s))"
    using one sorted committed_sorted [of "[]" ?before "events s" h] by simp
  with one ne show "transactions (scan_drop_current st) = committed h (ss @ [s])"
    using scan_crashed [OF _ _ _ st1(2)] by (simp add: committed_def)
next
  assume "\<forall>i \<in> set (concat (map session_items ss) @ crashed_session s). \<not> item_maps_journal h (bh_object_id handle) i"
  moreover have "scan_inv h (bh_object_id handle) (empty_scan flushed handle)" using assms(2) by (simp add: scan_inv_def)
  ultimately show "\<exists>st. scan_log h (concat (map session_items ss) @ crashed_session s) (empty_scan flushed handle) = Inr st"
    by (rule scan_log_returns [rotated])
qed

theorem replay_sees_committed_witness:
  "let cp = (\<lambda>off. \<lparr>file_offset = off, cp_checksum = 0, cp_version = 1\<rparr>); m = AllocatorM (SetLimit 7 100);
       first = \<lparr>events = [Txn \<lparr>lt_records = [(cp 100, 3, m)], lt_commit = cp 110, lt_end = 120\<rparr>,
                          Txn \<lparr>lt_records = [(cp 120, 3, m)], lt_commit = cp 130, lt_end = 140\<rparr>],
                torn = [(cp 140, 3, m)], reset_at = 8192\<rparr>;
       second = \<lparr>events = [Discarded (cp 8193) 120], torn = [], reset_at = 0\<rparr>
   in \<exists>st. scan_log example_header (concat (map session_items [first]) @ crashed_session second)
               (empty_scan 0 (bootstrap_new 4)) = Inr st \<and>
           transactions (scan_drop_current st) = [(cp 100, [(3, m)], 120)]"
proof -
  define cp :: "nat \<Rightarrow> checkpoint" where "cp = (\<lambda>off. \<lparr>file_offset = off, cp_checksum = 0, cp_version = 1\<rparr>)"
  let ?m = "AllocatorM (SetLimit 7 100)"
  let ?first = "\<lparr>events = [Txn \<lparr>lt_records = [(cp 100, 3, ?m)], lt_commit = cp 110, lt_end = 120\<rparr>,
                          Txn \<lparr>lt_records = [(cp 120, 3, ?m)], lt_commit = cp 130, lt_end = 140\<rparr>],
                torn = [(cp 140, 3, ?m)], reset_at = 8192\<rparr>"
  let ?second = "\<lparr>events = [Discarded (cp 8193) 120], torn = [], reset_at = 0\<rparr>"
  have off [simp]: "file_offset (cp n) = n" for n by (simp add: cp_def)
  have ok: "log_ok (concat (map events ([?first] @ [?second])))" "handle_ok (bootstrap_new 4)"
    by (simp_all add: log_ok_def txn_start_def handle_ok_def bootstrap_new_def bootstrap_new_with_start_offset_def)
  have "\<forall>i \<in> set (concat (map session_items [?first]) @ crashed_session ?second). \<not> item_maps_journal example_header (bh_object_id (bootstrap_new 4)) i"
    by (auto simp: session_items_def crashed_session_def mutation_items_def maps_journal_def)
  moreover have "committed example_header ([?first] @ [?second]) = [(cp 100, [(3, ?m)], 120)]"
    by (simp add: committed_def replayed_txn_def txn_start_def applied_part_def should_apply_def example_header_def
        super_block_header_new_def)
  ultimately show ?thesis
    using replay_sees_committed [OF ok, of example_header 0] unfolding Let_def cp_def [symmetric] by fastforce
qed

section \<open>Agreement between mounts\<close>

lemma replay_transactions_stops:
  assumes "sorted (map (\<lambda>t. file_offset (fst t)) ts)" "replay_transactions fuel valid_to end_cp ts objects = Inr (lst, objects')"
    "\<forall>t \<in> set ts. file_offset (fst t) < file_offset end_cp" "valid_to \<le> file_offset end_cp"
  shows "replay_transactions fuel (file_offset end_cp) end_cp (filter (\<lambda>t. file_offset (fst t) < valid_to) ts) objects = Inr (end_cp, objects') \<and>
    valid_to \<le> file_offset lst \<and> (\<forall>t \<in> set ts. file_offset (fst t) < file_offset lst \<longrightarrow> file_offset (fst t) < valid_to)"
  using assms
proof (induction ts arbitrary: objects)
  case (Cons t ts)
  obtain cp ms e where t: "t = (cp, ms, e)" by (cases t)
  show ?case
  proof (cases "file_offset cp \<ge> valid_to")
    case True
    then have "filter (\<lambda>t. file_offset (fst t) < valid_to) (t # ts) = []"
      using Cons.prems(1) by (fastforce simp: t filter_empty_conv)
    with True Cons.prems show ?thesis by (fastforce simp: t)
  next
    case False
    with Cons.prems(2) obtain mid where mid: "replay_mutations fuel ms cp e objects = Inr mid"
      "replay_transactions fuel valid_to end_cp ts mid = Inr (lst, objects')"
      by (auto simp: t bind_res_eq_Inr)
    from Cons.IH [OF _ mid(2)] Cons.prems mid(1) False show ?thesis by (auto simp: t)
  qed
qed simp

text \<open>
  C7: the next mount agrees with this one about what happened. Transactions from \<open>valid_to\<close> on are not
  applied, because a mutation or a checksum was bad; the offset the journal writes into its Discard
  record makes the next mount drop exactly those, so it sees what this mount applied, and when no Discard
  record is pending everything that was read has been applied.
\<close>

theorem replay_discard_consistent:
  assumes "sorted (map (\<lambda>t. file_offset (fst t)) ts)" "\<forall>t \<in> set ts. file_offset (fst t) < file_offset end_cp"
    and "valid_to \<le> file_offset end_cp" "discard_offset self = None"
    and "replay_transactions fuel valid_to end_cp ts objects = Inr (lst, objects')"
    and "replay_configure version n lst end_cp flushed self = Inr self'"
  shows "\<exists>kept. kept = (case discard_offset self' of None \<Rightarrow> ts | Some off \<Rightarrow> committed_event h (Discarded cp off) ts) \<and>
    kept = filter (\<lambda>t. file_offset (fst t) < valid_to) ts \<and>
    replay_transactions fuel (file_offset end_cp) end_cp kept objects = Inr (end_cp, objects')"
proof -
  note stops = replay_transactions_stops [OF assms(1,5,2,3)]
  obtain off where off: "round_up (file_offset end_cp) journal_block_size = Inr (Some off)"
    "discard_offset self' = (if file_offset lst < off then Some (file_offset lst) else None)"
    using assms(4,6) by (auto simp: replay_configure_def bind_res_eq_Inr split: option.splits)
  have up: "file_offset end_cp \<le> off" using off(1) round_up_spec [of journal_block_size "file_offset end_cp"] by (auto simp: journal_block_size_def split: if_splits)
  have "file_offset (fst t) < file_offset lst \<longleftrightarrow> file_offset (fst t) < valid_to" if "t \<in> set ts" for t
    using stops that by fastforce
  then have "filter (\<lambda>t. file_offset (fst t) < file_offset lst) ts = filter (\<lambda>t. file_offset (fst t) < valid_to) ts"
    by (simp cong: filter_cong)
  moreover have "filter (\<lambda>t. file_offset (fst t) < valid_to) ts = ts" if "\<not> file_offset lst < off"
    using that up stops assms(2) by (intro filter_True) (meson le_trans less_le_trans not_less)
  ultimately show ?thesis using stops off(2) by auto
qed

theorem replay_discard_consistent_witness:
  "let cp = (\<lambda>off. \<lparr>file_offset = off, cp_checksum = 0, cp_version = 1\<rparr>); ts = [(cp 100, [], 120), (cp 120, [], 140)];
       self = journal_new example_manager example_header 1 0 0
   in \<exists>objects' self'. replay_transactions 0 120 (cp 200) ts example_manager = Inr (cp 120, objects') \<and>
        replay_configure 1 0 (cp 120) (cp 200) 0 self = Inr self' \<and> discard_offset self' = Some 120 \<and>
        replay_transactions 0 200 (cp 200) [(cp 100, [], 120)] example_manager = Inr (cp 200, objects')"
proof -
  define cp :: "nat \<Rightarrow> checkpoint" where "cp = (\<lambda>off. \<lparr>file_offset = off, cp_checksum = 0, cp_version = 1\<rparr>)"
  define self where "self = journal_new example_manager example_header 1 0 0"
  let ?ts = "[(cp 100, [], 120), (cp 120, [], 140)]"
  have off [simp]: "file_offset (cp n) = n" for n by (simp add: cp_def)
  obtain objects' where run: "replay_transactions 0 120 (cp 200) ?ts example_manager = Inr (cp 120, objects')"
    by (cases "last_end_offset example_manager < 120") (simp_all add: replay_mutations_def)
  have none: "discard_offset self = None" by (simp add: self_def journal_new_def)
  obtain self' where conf: "replay_configure 1 0 (cp 120) (cp 200) 0 self = Inr self'" "discard_offset self' = Some 120"
    using round_up_eq [of 8192 200]
    by (simp add: replay_configure_def self_def journal_new_def example_header_def super_block_header_new_def ensure_def
        journal_block_size_def writer_seek_def writer_new_def u64_rem_def u64_max_def)
  have "replay_transactions 0 200 (cp 200) [(cp 100, [], 120)] example_manager = Inr (cp 200, objects')"
    using replay_discard_consistent [OF _ _ _ none run conf(1), of example_header "cp 0"] conf(2) by simp
  with run conf show ?thesis unfolding Let_def cp_def [symmetric] self_def [symmetric] by blast
qed

section \<open>Syncing\<close>

text \<open>
  A sync that flushes the device does not wait for the journal's own blocks: it notes the checkpoint as
  flushed, and will write so in a DidFlushDevice record, although the blocks before it may still be in memory.
\<close>

lemma sync_overtakes_writes:
  assumes "journal_sync fuel ser pre True flushed self = Inr (Some (cp, borrowed), self')"
    "flushed_offset self < file_offset cp" "device_flushed_offset self < file_offset cp"
  shows "flushed_offset self' < device_flushed_offset self' \<and> needs_did_flush_device self'"
proof -
  from assms(1) obtain self1 where pad: "journal_pad_to_block fuel ser self = Inr (cp, borrowed, self1)"
    and flush: "flush_device flushed (file_offset cp) self1 = Inr self'"
    by (auto simp: journal_sync_def bind_res_eq_Inr split: if_splits)
  from pad obtain w where "self1 = self\<lparr>j_writer := w\<rparr>"
    unfolding journal_pad_to_block_def Let_def bind_res_eq_Inr by auto
  with flush assms(2,3) show ?thesis by (auto simp: flush_device_def bind_res_eq_Inr split: option.splits)
qed

end
