(* ===== verification/Stack_List.thy ===== *)
theory Stack_List
  imports Fxfs_Prelude
begin

text \<open>
  The doubly linked list of nodes on the stack of \<^verbatim>\<open>src/src/data_buffer.rs\<close>. Nodes are addresses, a heap
  gives each its two pointers, and the list is the pointer to its first node. The operations on pointers
  are shown to be the operations on the list of addresses they represent.
\<close>

record stack_list_chain =
  prev_ptr :: "nat option"
  next_ptr :: "nat option"

type_synonym chain_heap = "nat \<Rightarrow> stack_list_chain"

definition chain_default :: stack_list_chain where
  "chain_default = \<lparr>prev_ptr = None, next_ptr = None\<rparr>"

text \<open>A state is the head pointer and the heap.\<close>

type_synonym stack_list = "nat option \<times> chain_heap"

definition set_prev :: "nat \<Rightarrow> nat option \<Rightarrow> chain_heap \<Rightarrow> chain_heap" where
  "set_prev a p h = h(a := (h a)\<lparr>prev_ptr := p\<rparr>)"

definition set_next :: "nat \<Rightarrow> nat option \<Rightarrow> chain_heap \<Rightarrow> chain_heap" where
  "set_next a p h = h(a := (h a)\<lparr>next_ptr := p\<rparr>)"

definition stack_push_front :: "nat \<Rightarrow> stack_list \<Rightarrow> stack_list" where
  "stack_push_front node s =
     (let (head, h) = s;
          h = set_next node head h;
          h = (case next_ptr (h node) of None \<Rightarrow> h | Some n \<Rightarrow> set_prev n (Some node) h)
      in (Some node, h))"

definition erase_node :: "nat \<Rightarrow> stack_list \<Rightarrow> stack_list" where
  "erase_node node s =
     (let (head, h) = s;
          prev = prev_ptr (h node);
          h = set_prev node None h;
          h = (case next_ptr (h node) of None \<Rightarrow> h | Some n \<Rightarrow> set_prev n prev h);
          nxt = next_ptr (h node);
          h = set_next node None h
      in case prev of
           Some p \<Rightarrow> (head, set_next p nxt h)
         | None \<Rightarrow> (if head = Some node then nxt else head, h))"

text \<open>The iterator: the last node, and the next one after it. Iterating takes fuel.\<close>

definition stack_iter_next :: "stack_list \<Rightarrow> nat option \<Rightarrow> nat option" where
  "stack_iter_next s last_node = (case last_node of None \<Rightarrow> fst s | Some n \<Rightarrow> next_ptr (snd s n))"

fun stack_iter_from :: "nat \<Rightarrow> stack_list \<Rightarrow> nat option \<Rightarrow> nat list res" where
  "stack_iter_from 0 s l = Inl OutOfFuel"
| "stack_iter_from (Suc fuel) s l =
     (case stack_iter_next s l of
        None \<Rightarrow> Inr []
      | Some n \<Rightarrow> bind_res (stack_iter_from fuel s (Some n)) (\<lambda>ns. Inr (n # ns)))"

section \<open>The list a heap represents\<close>

text \<open>The nodes from \<open>l\<close> on are \<open>xs\<close> and then comes \<open>e\<close>; \<open>p\<close> is before them.\<close>

fun linked :: "chain_heap \<Rightarrow> nat option \<Rightarrow> nat option \<Rightarrow> nat list \<Rightarrow> nat option \<Rightarrow> bool" where
  "linked h p l [] e = (l = e)"
| "linked h p l (x # xs) e = (l = Some x \<and> prev_ptr (h x) = p \<and> linked h (Some x) (next_ptr (h x)) xs e)"

definition represents :: "stack_list \<Rightarrow> nat list \<Rightarrow> bool" where
  "represents s xs = (distinct xs \<and> linked (snd s) None (fst s) xs None \<and> (\<forall>a. a \<notin> set xs \<longrightarrow> snd s a = chain_default))"

definition last_or :: "nat option \<Rightarrow> nat list \<Rightarrow> nat option" where
  "last_or p xs = (if xs = [] then p else Some (last xs))"

lemma last_or_simps [simp]: "last_or p [] = p" "last_or p (x # xs) = last_or (Some x) xs" "last_or p (xs @ [x]) = Some x"
  by (simp_all add: last_or_def)

lemma linked_cong: "(\<And>a. a \<in> set xs \<Longrightarrow> h' a = h a) \<Longrightarrow> linked h' p l xs e = linked h p l xs e"
  by (induction xs arbitrary: p l) simp_all

lemma linked_append: "linked h p l (xs @ ys) e \<longleftrightarrow> (\<exists>m. linked h p l xs m \<and> linked h (last_or p xs) m ys e)"
  by (induction xs arbitrary: p l) auto

text \<open>Changing where the last node points, and where the first one points back.\<close>

lemma linked_set_next:
  assumes "linked h p l (xs @ [x]) e" "x \<notin> set xs" "\<And>a. a \<in> set xs \<Longrightarrow> h' a = h a" "h' x = (h x)\<lparr>next_ptr := e'\<rparr>"
  shows "linked h' p l (xs @ [x]) e'"
  using assms linked_cong [of xs h' h p l] by (auto simp: linked_append)

lemma linked_set_prev:
  assumes "linked h p l xs e" "distinct xs" "\<And>a. a \<in> set (tl xs) \<Longrightarrow> h' a = h a"
    "xs \<noteq> [] \<Longrightarrow> h' (hd xs) = (h (hd xs))\<lparr>prev_ptr := p'\<rparr>"
  shows "linked h' p' l xs e"
  using assms linked_cong [of "tl xs" h' h "Some (hd xs)"] by (cases xs) auto

lemma set_prev_simps [simp]:
  "set_prev a p h b = (if b = a then (h a)\<lparr>prev_ptr := p\<rparr> else h b)"
  "set_next a p h b = (if b = a then (h a)\<lparr>next_ptr := p\<rparr> else h b)"
  by (simp_all add: set_prev_def set_next_def)

lemma represents_push_front:
  assumes "represents (head, h) xs" "x \<notin> set xs"
  shows "represents (stack_push_front x (head, h)) (x # xs)"
proof -
  define h' where "h' = (case head of None \<Rightarrow> set_next x head h | Some n \<Rightarrow> set_prev n (Some x) (set_next x head h))"
  have push: "stack_push_front x (head, h) = (Some x, h')" by (simp add: stack_push_front_def h'_def split: option.splits)
  have old: "distinct xs" "linked h None head xs None" "\<forall>a. a \<notin> set xs \<longrightarrow> h a = chain_default"
    using assms(1) by (simp_all add: represents_def)
  have head: "head = (if xs = [] then None else Some (hd xs))" using old(2) by (cases xs) auto
  have "linked h' (Some x) head xs None"
  proof (rule linked_set_prev [OF old(2,1)])
    show "h' a = h a" if "a \<in> set (tl xs)" for a
      using that assms(2) old(1) head by (cases xs) (auto simp: h'_def)
    show "h' (hd xs) = (h (hd xs))\<lparr>prev_ptr := Some x\<rparr>" if "xs \<noteq> []"
      using that assms(2) head by (cases xs) (auto simp: h'_def)
  qed
  moreover have "h' x = \<lparr>prev_ptr = None, next_ptr = head\<rparr>"
    using old(3) assms(2) head by (cases xs) (auto simp: h'_def chain_default_def)
  moreover have "h' a = chain_default" if "a \<notin> set (x # xs)" for a
    using that old(3) head by (cases xs) (auto simp: h'_def)
  ultimately show ?thesis using push assms(2) old(1) by (simp add: represents_def)
qed

lemma represents_erase_absent:
  assumes "represents (head, h) xs" "x \<notin> set xs"
  shows "erase_node x (head, h) = (head, h)"
proof -
  have "h x = chain_default" "head \<noteq> Some x" using assms by (cases xs; auto simp: represents_def)+
  moreover from this(1) have "set_next x None (set_prev x None h) = h" by (auto simp: chain_default_def fun_eq_iff)
  ultimately show ?thesis by (simp add: erase_node_def chain_default_def)
qed

lemma represents_erase:
  assumes "represents (head, h) (as @ x # bs)"
  shows "represents (erase_node x (head, h)) (as @ bs)"
proof -
  have old: "distinct (as @ x # bs)" "linked h None head as (Some x)" "prev_ptr (h x) = last_or None as"
    "linked h (Some x) (next_ptr (h x)) bs None" "\<forall>a. a \<notin> set (as @ x # bs) \<longrightarrow> h a = chain_default"
    using assms by (auto simp: represents_def linked_append)
  let ?prev = "prev_ptr (h x)" and ?nxt = "next_ptr (h x)"
  have nxt: "?nxt = (if bs = [] then None else Some (hd bs))" using old(4) by (cases bs) auto
  define h1 where "h1 = set_next x None (case ?nxt of None \<Rightarrow> set_prev x None h | Some n \<Rightarrow> set_prev n ?prev (set_prev x None h))"
  have nx: "?nxt \<noteq> Some x" using nxt old(1) by (cases bs) auto
  have h1x: "h1 x = chain_default" using nx by (cases "?nxt") (simp_all add: h1_def chain_default_def)
  have h1: "h1 a = (if a = x then chain_default else if bs \<noteq> [] \<and> a = hd bs then (h a)\<lparr>prev_ptr := ?prev\<rparr> else h a)" for a
    using nxt h1x by (cases bs) (simp_all add: h1_def)
  have erase: "erase_node x (head, h) =
      (case ?prev of Some p \<Rightarrow> (head, set_next p ?nxt h1) | None \<Rightarrow> (if head = Some x then ?nxt else head, h1))"
    using nx by (cases "?nxt"; cases "?prev") (simp_all add: erase_node_def h1_def Let_def)
  have tail: "linked h1 ?prev ?nxt bs None"
  proof (rule linked_set_prev [OF old(4)])
    show "distinct bs" using old(1) by simp
    show "h1 a = h a" if "a \<in> set (tl bs)" for a using that old(1) by (cases bs) (auto simp: h1)
    show "h1 (hd bs) = (h (hd bs))\<lparr>prev_ptr := ?prev\<rparr>" if "bs \<noteq> []" using that old(1) by (cases bs) (auto simp: h1)
  qed
  have out: "h1 a = chain_default" if "a \<notin> set (as @ bs)" for a
    using that old(5) by (cases bs) (auto simp: h1)
  show ?thesis
  proof (cases as rule: rev_cases)
    case Nil
    then have "erase_node x (head, h) = (?nxt, h1)" using old(2,3) erase by simp
    then show ?thesis using Nil old(1,3) tail out by (simp add: represents_def)
  next
    case (snoc as' p)
    let ?h = "set_next p ?nxt h1"
    have p: "?prev = Some p" using old(3) snoc by simp
    have h1_as: "h1 a = h a" if "a \<in> set as" for a
      using that old(1) by (cases bs) (auto simp: h1)
    have dis: "p \<notin> set as'" "p \<notin> set bs" using old(1) snoc by auto
    have "linked ?h None head (as' @ [p]) ?nxt"
    proof (rule linked_set_next)
      show "linked h None head (as' @ [p]) (Some x)" using old(2) snoc by simp
      show "?h a = h a" if "a \<in> set as'" for a using that h1_as [of a] dis snoc by auto
      show "?h p = (h p)\<lparr>next_ptr := ?nxt\<rparr>" using h1_as [of p] snoc by simp
    qed (rule dis)
    moreover have "linked ?h (Some p) ?nxt bs None"
    proof -
      have "linked ?h (Some p) ?nxt bs None = linked h1 (Some p) ?nxt bs None"
        by (rule linked_cong) (use dis in auto)
      with tail show ?thesis by (simp only: p)
    qed
    moreover have "?h a = chain_default" if "a \<notin> set (as @ bs)" for a
      using out [OF that] that snoc by auto
    moreover have "erase_node x (head, h) = (head, ?h)" using erase p by simp
    moreover have "distinct (as @ bs)" using old(1) by simp
    ultimately show ?thesis unfolding represents_def linked_append snoc by (simp del: set_prev_simps)
  qed
qed

lemma stack_iter_from_linked:
  "linked h p l xs None \<Longrightarrow> stack_iter_next (head, h) c = l \<Longrightarrow> length xs < fuel \<Longrightarrow> stack_iter_from fuel (head, h) c = Inr xs"
proof (induction xs arbitrary: p l c fuel)
  case (Cons x xs)
  then show ?case
    using Cons.IH [of "Some x" "next_ptr (h x)" "Some x" "fuel - 1"] by (cases fuel) (auto simp: stack_iter_next_def)
qed (auto simp: gr0_conv_Suc)

text \<open>
  The pointer operations are the list operations. Pushing a node that is not on the list puts it at
  the front; erasing a node takes it off wherever it is, and leaves the list alone when it was never put
  on; iterating visits the nodes in order.
\<close>

lemma stack_list_refines_list:
  assumes "represents s xs"
  shows "(x \<notin> set xs \<longrightarrow> represents (stack_push_front x s) (x # xs)) \<and>
    represents (erase_node x s) (removeAll x xs) \<and>
    (length xs < fuel \<longrightarrow> stack_iter_from fuel s None = Inr xs)"
proof -
  obtain head h where s: "s = (head, h)" by fastforce
  have "represents (erase_node x s) (removeAll x xs)"
  proof (cases "x \<in> set xs")
    case True
    then obtain as bs where xs: "xs = as @ x # bs" by (meson split_list)
    moreover have "x \<notin> set as" "x \<notin> set bs" using assms xs by (auto simp: represents_def)
    ultimately show ?thesis using represents_erase [of head h as x bs] assms s by simp
  next
    case False
    then show ?thesis using represents_erase_absent [of head h xs x] assms s by simp
  qed
  moreover have "stack_iter_from fuel s None = Inr xs" if "length xs < fuel"
    unfolding s using assms that s by (intro stack_iter_from_linked [of h None head]) (auto simp: represents_def stack_iter_next_def)
  ultimately show ?thesis using represents_push_front assms s by blast
qed

end
