(* ===== verification/Data_Buffer.thy ===== *)
theory Data_Buffer
  imports Stack_List Btree_Map Fxfs_Arith Fxfs_Checksum
begin

text \<open>
  The in-memory data buffer of a file (\<^verbatim>\<open>src/src/data_buffer.rs\<close>): a cache of pages over a source, with
  reads that run concurrently with writes and truncation. Every section that holds the lock is a
  definition; what happens between two of them, reading the source or waiting for another read, is left
  to the order in which the sections run.

  The source is a function from an offset and a length to the bytes it has there, and the key that the
  slab of readers gives a new entry is a parameter, since the slab is a library. The events that readers
  wait for are left out.
\<close>

definition page_size :: nat where
  "page_size = 4096"

definition read_size :: nat where
  "read_size = 131072"

text \<open>The read key of a page that is present: \<^verbatim>\<open>usize::MAX\<close>.\<close>

definition present :: nat where
  "present = u64_max"

record read_keys =
  rk_node :: nat
  rk_keys :: "nat list"
  rk_end_offset :: nat

record mem_buffer =
  mb_size :: nat
  mb_buf :: "u8 list"
  mb_pages :: "(nat, nat) btree_map"
  mb_readers :: "(nat, u64_range) btree_map"
  mb_read_keys :: "read_keys list"

section \<open>Bytes\<close>

definition copy_out :: "u8 list \<Rightarrow> nat \<Rightarrow> u8 list \<Rightarrow> nat \<times> u8 list" where
  "copy_out source_buf offset buf =
     (if offset < length source_buf
      then let len = min (length buf) (length source_buf - offset)
           in (len, take len (drop offset source_buf) @ drop len buf)
      else (0, buf))"

text \<open>Overwriting part of a buffer, which has to be within it.\<close>

definition splice :: "nat \<Rightarrow> u8 list \<Rightarrow> u8 list \<Rightarrow> u8 list" where
  "splice off bs buf = take off buf @ bs @ drop (off + length bs) buf"

definition vec_resize :: "nat \<Rightarrow> u8 list \<Rightarrow> u8 list" where
  "vec_resize n buf = take n buf @ replicate (n - length buf) 0"

definition unwrap_opt :: "'a option res \<Rightarrow> 'a res" where
  "unwrap_opt r = bind_res r (\<lambda>v. case v of None \<Rightarrow> Inl Panic | Some x \<Rightarrow> Inr x)"

section \<open>Pages\<close>

text \<open>The page offsets from \<open>a\<close> up to \<open>b\<close> (\<^verbatim>\<open>step_by\<close>).\<close>

definition page_steps :: "nat \<Rightarrow> nat \<Rightarrow> nat list" where
  "page_steps a b = map (\<lambda>i. a + i * page_size) [0..<(b - a + (page_size - 1)) div page_size]"

definition pages_range :: "nat \<Rightarrow> nat \<Rightarrow> (nat, nat) btree_map \<Rightarrow> (nat, nat) btree_map" where
  "pages_range lo hi ps = filter (\<lambda>p. lo \<le> fst p \<and> fst p < hi) ps"

fun insert_pages :: "(nat \<times> nat) list \<Rightarrow> (nat, nat) btree_map \<Rightarrow> (nat, nat) btree_map res" where
  "insert_pages [] ps = Inr ps"
| "insert_pages ((off, k) # new) ps =
     (if bt_get ps off = None then insert_pages new (bt_insert off k ps) else Inl Panic)"

text \<open>The pages that are missing before each page, and the offset after the last one.\<close>

fun missing_pages :: "(nat, nat) btree_map \<Rightarrow> nat \<Rightarrow> nat list \<times> nat" where
  "missing_pages [] off = ([], off)"
| "missing_pages ((po, _) # ps) off =
     (let (news, off') = missing_pages ps (po + page_size)
      in ((if po > off then page_steps off po else []) @ news, off'))"

definition mark_present :: "u64_range \<Rightarrow> mem_buffer \<Rightarrow> mem_buffer res" where
  "mark_present r self =
     (let lo = rstart r - rstart r mod page_size in
      if lo > rend r then Inl Panic
      else
        let (news, off) = missing_pages (pages_range lo (rend r) (mb_pages self)) lo;
            pages = map (\<lambda>(po, k). (po, if lo \<le> po \<and> po < rend r then present else k)) (mb_pages self)
        in bind_res (insert_pages (map (\<lambda>po. (po, present)) news) pages) (\<lambda>pages.
           bind_res (insert_pages (map (\<lambda>po. (po, present)) (page_steps off (rend r))) pages) (\<lambda>pages.
             Inr (self\<lparr>mb_pages := pages\<rparr>))))"

definition mb_resize :: "nat \<Rightarrow> mem_buffer \<Rightarrow> mem_buffer res" where
  "mb_resize new_size self =
     bind_res (unwrap_opt (round_up new_size page_size)) (\<lambda>aligned_size.
     let old_size = mb_size self;
         self = self\<lparr>mb_buf := vec_resize aligned_size (mb_buf self), mb_size := new_size\<rparr>
     in bind_res
          (if new_size < old_size
           then let e = min old_size aligned_size
                in Inr (self\<lparr>mb_buf := splice new_size (replicate (e - new_size) 0) (mb_buf self),
                             mb_pages := filter (\<lambda>p. fst p < new_size) (mb_pages self)\<rparr>)
           else mark_present (Range old_size aligned_size) self) (\<lambda>self.
        Inr (self\<lparr>mb_read_keys := map (\<lambda>rk. rk\<lparr>rk_end_offset := min (rk_end_offset rk) new_size\<rparr>) (mb_read_keys self)\<rparr>)))"

definition align_range :: "u64_range \<Rightarrow> nat \<Rightarrow> nat \<Rightarrow> u64_range res" where
  "align_range r block_size limit =
     bind_res (round_down (rstart r) page_size) (\<lambda>s.
     bind_res (unwrap_opt (round_up (rend r) block_size)) (\<lambda>e.
     bind_res (u64_sub e s) (\<lambda>len.
     bind_res (if len < read_size then u64_add s read_size else Inr e) (\<lambda>e.
       Inr (Range s (if e > limit then limit else e))))))"

definition mem_data_buffer_new :: "nat \<Rightarrow> mem_buffer res" where
  "mem_data_buffer_new new_size =
     bind_res (unwrap_opt (round_up new_size page_size)) (\<lambda>n.
       Inr \<lparr>mb_size = new_size, mb_buf = replicate n 0, mb_pages = [], mb_readers = [], mb_read_keys = []\<rparr>)"

section \<open>Reads in flight\<close>

text \<open>A new reader for a range of pages; the result has its key and the pages it will read.\<close>

definition new_read ::
  "((nat, u64_range) btree_map \<Rightarrow> nat) \<Rightarrow> u64_range \<Rightarrow> (nat, u64_range) btree_map \<Rightarrow> nat \<times> (nat \<times> nat) list \<times> (nat, u64_range) btree_map" where
  "new_read new_key r readers =
     (let k = new_key readers
      in (k, map (\<lambda>po. (po, k)) (page_steps (rstart r) (rend r)), bt_insert k r readers))"

definition add_to_list :: "nat \<Rightarrow> nat \<Rightarrow> mem_buffer \<Rightarrow> mem_buffer" where
  "add_to_list node end_offset self =
     self\<lparr>mb_read_keys := \<lparr>rk_node = node, rk_keys = [], rk_end_offset = end_offset\<rparr> # mb_read_keys self\<rparr>"

definition push_key :: "nat \<Rightarrow> nat \<Rightarrow> mem_buffer \<Rightarrow> mem_buffer" where
  "push_key node k self =
     self\<lparr>mb_read_keys := map (\<lambda>rk. if rk_node rk = node then rk\<lparr>rk_keys := rk_keys rk @ [k]\<rparr> else rk) (mb_read_keys self)\<rparr>"

text \<open>The read keys of a read are dropped: its readers go, and the pages it was still reading.\<close>

fun drop_keys :: "nat list \<Rightarrow> mem_buffer \<Rightarrow> mem_buffer res" where
  "drop_keys [] self = Inr self"
| "drop_keys (k # ks) self =
     (case bt_get (mb_readers self) k of
        None \<Rightarrow> Inl Panic
      | Some r \<Rightarrow>
          drop_keys ks (self\<lparr>mb_readers := bt_remove k (mb_readers self),
            mb_pages := filter (\<lambda>p. \<not> (rstart r \<le> fst p \<and> fst p < rend r \<and> snd p = k)) (mb_pages self)\<rparr>))"

definition read_keys_drop :: "nat \<Rightarrow> mem_buffer \<Rightarrow> mem_buffer res" where
  "read_keys_drop node self =
     bind_res (drop_keys (concat (map rk_keys (filter (\<lambda>rk. rk_node rk = node) (mb_read_keys self)))) self) (\<lambda>self.
       Inr (self\<lparr>mb_read_keys := filter (\<lambda>rk. rk_node rk \<noteq> node) (mb_read_keys self)\<rparr>))"

text \<open>
  \<^verbatim>\<open>read_some\<close>: the bytes of the source, padded with zeros, and then, under the lock, copying them to the
  pages that still wait for this read.
\<close>

definition source_bytes :: "(nat \<Rightarrow> nat \<Rightarrow> u8 list res) \<Rightarrow> u64_range \<Rightarrow> u8 list res" where
  "source_bytes src r =
     bind_res (u64_sub (rend r) (rstart r)) (\<lambda>n.
     bind_res (src (rstart r) n) (\<lambda>bs. Inr (bs @ replicate (n - length bs) 0)))"

fun fill_pages :: "nat \<Rightarrow> nat \<Rightarrow> u8 list \<Rightarrow> (nat, nat) btree_map \<Rightarrow> u8 list \<Rightarrow> u8 list res" where
  "fill_pages start k read_buf [] buf = Inr buf"
| "fill_pages start k read_buf ((po, k') # ps) buf =
     (if k' = k
      then if po - start + page_size \<le> length read_buf \<and> po + page_size \<le> length buf
           then fill_pages start k read_buf ps (splice po (take page_size (drop (po - start) read_buf)) buf)
           else Inl Panic
      else fill_pages start k read_buf ps buf)"

definition read_some_done :: "u64_range \<Rightarrow> nat \<Rightarrow> u8 list \<Rightarrow> mem_buffer \<Rightarrow> mem_buffer res" where
  "read_some_done r k read_buf self =
     bind_res (fill_pages (rstart r) k read_buf (pages_range (rstart r) (rend r) (mb_pages self)) (mb_buf self)) (\<lambda>buf.
     bind_res (ensure (bt_get (mb_readers self) k \<noteq> None) Panic) (\<lambda>_.
       Inr (self\<lparr>mb_buf := buf,
                 mb_pages := map (\<lambda>(po, k'). (po, if rstart r \<le> po \<and> po < rend r \<and> k' = k then present else k')) (mb_pages self)\<rparr>)))"

section \<open>Reading and writing\<close>

text \<open>What is left to do after the locked section of a read: \<open>at\<close> and \<open>len\<close> say which bytes it is for.\<close>

datatype read_job =
    ReadAndCopy u64_range nat nat nat
  | ReadPage nat nat nat

record read_plan =
  last_offset :: nat
  read_left :: nat
  read_jobs :: "read_job list"
  new_pages :: "(nat \<times> nat) list"
  plan_readers :: "(nat, u64_range) btree_map"
  plan_keys :: "nat list"
  read_out :: "u8 list"

text \<open>Copying to the part of the caller's buffer for the offset \<open>at\<close>; the buffer begins at \<open>offset\<close>.\<close>

definition copy_to :: "nat \<Rightarrow> u8 list \<Rightarrow> nat \<Rightarrow> nat \<Rightarrow> u8 list \<Rightarrow> u8 list" where
  "copy_to offset buf at len out = splice (at - offset) (snd (copy_out buf at (take len (drop (at - offset) out)))) out"

definition schedule_read ::
  "((nat, u64_range) btree_map \<Rightarrow> nat) \<Rightarrow> nat \<Rightarrow> u64_range \<Rightarrow> nat \<Rightarrow> read_plan \<Rightarrow> read_plan res" where
  "schedule_read new_key block_size page_range len pl =
     bind_res (round_down (rstart page_range) block_size) (\<lambda>s.
     let (k, news, readers) = new_read new_key page_range (plan_readers pl)
     in Inr (pl\<lparr>read_jobs := read_jobs pl @ [ReadAndCopy (Range s (rend page_range)) (last_offset pl) len k],
                new_pages := new_pages pl @ news, plan_readers := readers, plan_keys := plan_keys pl @ [k],
                read_left := read_left pl - len\<rparr>))"

text \<open>A gap before the page at \<open>po\<close>.\<close>

definition plan_gap :: "((nat, u64_range) btree_map \<Rightarrow> nat) \<Rightarrow> nat \<Rightarrow> nat \<Rightarrow> read_plan \<Rightarrow> read_plan res" where
  "plan_gap new_key block_size po pl =
     (if po - last_offset pl > read_left pl then Inl Panic
      else
        bind_res (round_down (last_offset pl) page_size) (\<lambda>s.
        bind_res (schedule_read new_key block_size (Range s po) (po - last_offset pl) pl) (\<lambda>pl.
          Inr (pl\<lparr>last_offset := po\<rparr>))))"

text \<open>The pages one by one; the result also has the limit of the read-ahead, if there is a page after the read.\<close>

fun plan_pages ::
  "((nat, u64_range) btree_map \<Rightarrow> nat) \<Rightarrow> nat \<Rightarrow> u8 list \<Rightarrow> nat \<Rightarrow> nat \<Rightarrow> (nat, nat) btree_map \<Rightarrow> read_plan \<Rightarrow> (nat option \<times> read_plan) res" where
  "plan_pages new_key block_size buf offset end_offset [] pl = Inr (None, pl)"
| "plan_pages new_key block_size buf offset end_offset ((po, k) # ps) pl =
     (if po + page_size \<le> last_offset pl then plan_pages new_key block_size buf offset end_offset ps pl
      else if po \<ge> end_offset then Inr (Some po, pl)
      else
        bind_res (if po > last_offset pl then plan_gap new_key block_size po pl else Inr pl) (\<lambda>pl.
        let n = min (po + page_size - last_offset pl) (read_left pl) in
        plan_pages new_key block_size buf offset end_offset ps
          ((if k \<noteq> present
            then pl\<lparr>read_jobs := read_jobs pl @ [ReadPage po (last_offset pl) n]\<rparr>
            else pl\<lparr>read_out := copy_to offset buf (last_offset pl) n (read_out pl)\<rparr>)
           \<lparr>read_left := read_left pl - n, last_offset := po + page_size\<rparr>)))"

text \<open>The tail after the last page.\<close>

definition plan_tail ::
  "((nat, u64_range) btree_map \<Rightarrow> nat) \<Rightarrow> nat \<Rightarrow> nat \<Rightarrow> nat \<Rightarrow> nat \<Rightarrow> nat \<Rightarrow> read_plan \<Rightarrow> read_plan res" where
  "plan_tail new_key block_size aligned_start offset end_offset limit pl =
     (if read_left pl = 0 then Inr pl
      else
        bind_res (align_range (Range (if last_offset pl = offset then aligned_start else last_offset pl) end_offset) block_size limit)
          (\<lambda>r. schedule_read new_key block_size r (read_left pl) pl))"

text \<open>
  The locked section of \<^verbatim>\<open>read\<close>, with the caller's buffer \<open>out\<close>: nothing when the offset is at the
  end or past it, otherwise the jobs and what was copied already.
\<close>

definition read_begin ::
  "((nat, u64_range) btree_map \<Rightarrow> nat) \<Rightarrow> nat \<Rightarrow> nat \<Rightarrow> nat \<Rightarrow> u8 list \<Rightarrow> mem_buffer \<Rightarrow>
   ((read_job list \<times> u8 list) option \<times> mem_buffer) res" where
  "read_begin new_key source_block_size node offset out self =
     (if offset \<ge> mb_size self then Inr (None, self)
      else
        bind_res (unwrap_opt (round_up (mb_size self) page_size)) (\<lambda>aligned_size.
        let content_size = mb_size self; len = length out;
            short = content_size - offset < len;
            left = (if short \<and> aligned_size - offset < len then aligned_size - offset else len);
            end_offset = (if short then content_size else offset + len);
            block_size = max source_block_size page_size
        in
        bind_res (round_down offset block_size) (\<lambda>aligned_start.
        bind_res (plan_pages new_key block_size (mb_buf self) offset end_offset
                    (filter (\<lambda>p. fst p \<ge> aligned_start) (mb_pages self))
                    \<lparr>last_offset = offset, read_left = left, read_jobs = [], new_pages = [],
                     plan_readers = mb_readers self, plan_keys = [], read_out = out\<rparr>) (\<lambda>(limit, pl).
        bind_res (plan_tail new_key block_size aligned_start offset end_offset
                    (case limit of None \<Rightarrow> length (mb_buf self) | Some l \<Rightarrow> l) pl) (\<lambda>pl.
        bind_res (insert_pages (new_pages pl) (mb_pages self)) (\<lambda>pages.
          Inr (Some (read_jobs pl, read_out pl),
               (fold (push_key node) (plan_keys pl) (add_to_list node end_offset self))
               \<lparr>mb_pages := pages, mb_readers := plan_readers pl\<rparr>)))))))"

text \<open>How much was read, in the end.\<close>

definition read_amount :: "nat \<Rightarrow> nat \<Rightarrow> mem_buffer \<Rightarrow> nat" where
  "read_amount node offset self =
     (case filter (\<lambda>rk. rk_node rk = node) (mb_read_keys self) of
        rk # _ \<Rightarrow> if rk_end_offset rk > offset then rk_end_offset rk - offset else 0
      | [] \<Rightarrow> 0)"

text \<open>One turn of the loop of \<^verbatim>\<open>read_page\<close>.\<close>

datatype page_turn = PageGone | PageReady | PageIssue nat | PageWait nat

definition read_page_turn ::
  "((nat, u64_range) btree_map \<Rightarrow> nat) \<Rightarrow> nat \<Rightarrow> nat \<Rightarrow> mem_buffer \<Rightarrow> (page_turn \<times> mem_buffer) res" where
  "read_page_turn new_key node off self =
     (if (\<forall>rk \<in> set (mb_read_keys self). rk_node rk = node \<longrightarrow> rk_end_offset rk \<le> off) then Inr (PageGone, self)
      else
        case bt_get (mb_pages self) off of
          None \<Rightarrow>
            let (k, news, readers) = new_read new_key (Range off (off + page_size)) (mb_readers self)
            in bind_res (insert_pages news (mb_pages self)) (\<lambda>pages.
                 Inr (PageIssue k, push_key node k (self\<lparr>mb_pages := pages, mb_readers := readers\<rparr>)))
        | Some k \<Rightarrow>
            if k \<noteq> present
            then bind_res (ensure (bt_get (mb_readers self) k \<noteq> None) Panic) (\<lambda>_. Inr (PageWait k, self))
            else Inr (PageReady, self))"

text \<open>The range that a page is read with.\<close>

definition page_read_range :: "nat \<Rightarrow> nat \<Rightarrow> u64_range res" where
  "page_read_range source_block_size off =
     bind_res (round_down off (max source_block_size page_size)) (\<lambda>s. Inr (Range s (off + page_size)))"

text \<open>The pages that a write has to read first.\<close>

definition write_reads :: "nat \<Rightarrow> nat \<Rightarrow> mem_buffer \<Rightarrow> nat list res" where
  "write_reads offset len self =
     (case checked_add offset len of
        None \<Rightarrow> Inl (Fxfs TooBig)
      | Some e \<Rightarrow>
          let aligned_start = offset - offset mod page_size; aligned_end = e - e mod page_size
          in Inr ((if aligned_start \<noteq> offset \<and> aligned_start < mb_size self then [aligned_start] else []) @
                  (if aligned_end \<noteq> e \<and> aligned_end \<noteq> offset \<and> aligned_end < mb_size self then [aligned_end] else [])))"

text \<open>The locked section at the end of a write.\<close>

definition write_finish :: "nat \<Rightarrow> u8 list \<Rightarrow> mem_buffer \<Rightarrow> mem_buffer res" where
  "write_finish offset bs self =
     bind_res (u64_add offset (length bs)) (\<lambda>e.
     bind_res (if e > mb_size self then mb_resize e self else Inr self) (\<lambda>self.
     bind_res (ensure (e \<le> length (mb_buf self)) Panic) (\<lambda>_.
       mark_present (Range offset e) (self\<lparr>mb_buf := splice offset bs (mb_buf self)\<rparr>))))"

definition raw_read :: "nat \<Rightarrow> nat \<Rightarrow> mem_buffer \<Rightarrow> u8 list res" where
  "raw_read offset len self =
     (if offset + len \<le> length (mb_buf self) then Inr (take len (drop offset (mb_buf self))) else Inl Panic)"

section \<open>Undisturbed operations\<close>

text \<open>
  The operations with nothing between their sections. A page that another read is reading would have to be
  waited for; alone, there is none.
\<close>

fun run_jobs :: "(nat \<Rightarrow> nat \<Rightarrow> u8 list res) \<Rightarrow> nat \<Rightarrow> read_job list \<Rightarrow> u8 list \<Rightarrow> mem_buffer \<Rightarrow> (u8 list \<times> mem_buffer) res" where
  "run_jobs src offset [] out self = Inr (out, self)"
| "run_jobs src offset (ReadAndCopy r at len k # jobs) out self =
     bind_res (source_bytes src r) (\<lambda>read_buf.
     bind_res (read_some_done r k read_buf self) (\<lambda>self.
       run_jobs src offset jobs (copy_to offset (mb_buf self) at len out) self))"
| "run_jobs src offset (ReadPage po at len # jobs) out self = Inl OutOfFuel"

definition mem_read ::
  "((nat, u64_range) btree_map \<Rightarrow> nat) \<Rightarrow> (nat \<Rightarrow> nat \<Rightarrow> u8 list res) \<Rightarrow> nat \<Rightarrow> nat \<Rightarrow> nat \<Rightarrow> u8 list \<Rightarrow> mem_buffer \<Rightarrow>
   (nat \<times> u8 list \<times> mem_buffer) res" where
  "mem_read new_key src source_block_size node offset out self =
     bind_res (read_begin new_key source_block_size node offset out self) (\<lambda>(r, self).
       case r of
         None \<Rightarrow> Inr (0, out, self)
       | Some (jobs, out) \<Rightarrow>
           bind_res (run_jobs src offset jobs out self) (\<lambda>(out, self).
             let n = read_amount node offset self in
             bind_res (read_keys_drop node self) (\<lambda>self. Inr (n, out, self))))"

text \<open>Reading the pages of a write, one after the other.\<close>

fun run_page_reads ::
  "((nat, u64_range) btree_map \<Rightarrow> nat) \<Rightarrow> (nat \<Rightarrow> nat \<Rightarrow> u8 list res) \<Rightarrow> nat \<Rightarrow> nat \<Rightarrow> nat list \<Rightarrow> mem_buffer \<Rightarrow> mem_buffer res" where
  "run_page_reads new_key src source_block_size node [] self = Inr self"
| "run_page_reads new_key src source_block_size node (off # offs) self =
     bind_res (read_page_turn new_key node off self) (\<lambda>(turn, self).
     bind_res
       (case turn of
          PageIssue k \<Rightarrow>
            bind_res (page_read_range source_block_size off) (\<lambda>r.
            bind_res (source_bytes src r) (\<lambda>read_buf. read_some_done r k read_buf self))
        | PageWait _ \<Rightarrow> Inl OutOfFuel
        | _ \<Rightarrow> Inr self)
       (run_page_reads new_key src source_block_size node offs))"

definition mem_write ::
  "((nat, u64_range) btree_map \<Rightarrow> nat) \<Rightarrow> (nat \<Rightarrow> nat \<Rightarrow> u8 list res) \<Rightarrow> nat \<Rightarrow> nat \<Rightarrow> nat \<Rightarrow> u8 list \<Rightarrow> mem_buffer \<Rightarrow> mem_buffer res" where
  "mem_write new_key src source_block_size node offset bs self =
     bind_res (write_reads offset (length bs) self) (\<lambda>offs.
     bind_res (if offs = [] then Inr self
               else
                 bind_res (run_page_reads new_key src source_block_size node offs (add_to_list node (offset + length bs) self))
                   (read_keys_drop node))
       (write_finish offset bs))"

end
