(* ===== verification/Data_Buffer_Correct.thy ===== *)
theory Data_Buffer_Correct
  imports Data_Buffer
begin

text \<open>
  The data buffer holds the file: whatever the order in which reads, writes and truncation interleave, the
  pages that are present have the file's bytes, and those that are not can be had from the source.
\<close>

section \<open>Pages\<close>

lemma page_size_pos [simp]: "0 < page_size" "page_size \<noteq> 0"
  by (simp_all add: page_size_def)

definition page_of :: "nat \<Rightarrow> nat" where
  "page_of p = p - p mod page_size"

lemma page_of_dvd [simp]: "page_size dvd page_of p"
  by (simp add: page_of_def minus_mod_eq_mult_div)

lemma page_of_le [simp]: "page_of p \<le> p"
  by (simp add: page_of_def)

lemma page_of_lt: "p < page_of p + page_size"
  using mod_less_divisor [OF page_size_pos(1), of p] mod_less_eq_dividend [of p page_size] unfolding page_of_def by linarith

lemma page_of_self: "page_size dvd po \<Longrightarrow> page_of po = po"
  by (simp add: page_of_def)

lemma aligned_le_page_of: "page_size dvd po \<Longrightarrow> po \<le> p \<Longrightarrow> po \<le> page_of p"
  using round_down_greatest [of page_size po p] by (simp add: page_of_def minus_mod_eq_mult_div)

lemma page_of_mono: "p \<le> q \<Longrightarrow> page_of p \<le> page_of q"
  by (meson aligned_le_page_of le_trans page_of_dvd page_of_le)

lemma page_of_less: "p < n \<Longrightarrow> page_of p < n"
  by (meson le_less_trans page_of_le)

lemma page_of_eq: "page_size dvd po \<Longrightarrow> po \<le> p \<Longrightarrow> p < po + page_size \<Longrightarrow> page_of p = po"
proof -
  assume a: "page_size dvd po" "po \<le> p" "p < po + page_size"
  then obtain k where "po = page_size * k" by (auto elim: dvdE)
  with a show ?thesis
    by (metis add.commute add_diff_cancel_left' diff_add_inverse2 le_add_diff_inverse mod_less mod_mult_self2 nat_add_left_cancel_less page_of_def)
qed

lemma aligned_less: "page_size dvd a \<Longrightarrow> page_size dvd b \<Longrightarrow> a < b \<Longrightarrow> a + page_size \<le> b"
  by (metis dvd_diff_nat dvd_imp_le le_add_diff_inverse less_imp_le nat_add_left_cancel_le zero_less_diff)

lemma page_steps_set:
  assumes "page_size dvd a"
  shows "set (page_steps a b) = {q. page_size dvd q \<and> a \<le> q \<and> q < b}"
proof (intro set_eqI iffI)
  fix q
  assume "q \<in> set (page_steps a b)"
  then obtain i where i: "q = a + i * page_size" "i < (b - a + (page_size - 1)) div page_size" by (auto simp: page_steps_def)
  have "Suc i * page_size \<le> b - a + (page_size - 1)"
    using i(2) by (metis Suc_leI div_times_less_eq_dividend le_trans mult_le_mono1)
  then have "i * page_size < b - a" using page_size_pos(1) unfolding mult_Suc by linarith
  then have "q < b" using i(1) by linarith
  with i assms show "q \<in> {q. page_size dvd q \<and> a \<le> q \<and> q < b}" by simp
next
  fix q
  assume q: "q \<in> {q. page_size dvd q \<and> a \<le> q \<and> q < b}"
  then obtain i where i: "q = a + i * page_size"
    using assms by (metis (no_types, lifting) dvd_diff_nat dvd_mult_div_cancel le_add_diff_inverse mem_Collect_eq mult.commute)
  have "i * page_size < b - a" using q i by auto
  then have "(i + 1) * page_size \<le> b - a + (page_size - 1)" using page_size_pos(1) unfolding add_mult_distrib by linarith
  then have "i < (b - a + (page_size - 1)) div page_size"
    by (metis Suc_eq_plus1 Suc_le_lessD less_eq_div_iff_mult_less_eq page_size_pos(1))
  with i show "q \<in> set (page_steps a b)" by (auto simp: page_steps_def)
qed

lemma page_steps_distinct: "distinct (page_steps a b)"
  by (auto simp: page_steps_def distinct_map inj_on_def)

lemma insert_pages_spec:
  assumes "distinct (map fst news)" "\<forall>q \<in> fst ` set news. bt_get ps q = None"
  shows "\<exists>ps'. insert_pages news ps = Inr ps' \<and>
    (\<forall>q. bt_get ps' q = (case map_of news q of Some k \<Rightarrow> Some k | None \<Rightarrow> bt_get ps q)) \<and> (bt_ok ps \<longrightarrow> bt_ok ps')"
  using assms
proof (induction news ps rule: insert_pages.induct)
  case (2 off k news ps)
  have n: "map_of news off = None" using 2(2) by (simp add: map_of_eq_None_iff)
  have "\<forall>q \<in> fst ` set news. bt_get (bt_insert off k ps) q = None" using 2(2,3) by auto
  with 2 obtain ps' where "insert_pages news (bt_insert off k ps) = Inr ps'"
    "\<forall>q. bt_get ps' q = (case map_of news q of Some k \<Rightarrow> Some k | None \<Rightarrow> bt_get (bt_insert off k ps) q)"
    "bt_ok (bt_insert off k ps) \<longrightarrow> bt_ok ps'"
    by auto
  with 2(3) n show ?case by (auto simp: bt_ok_insert split: option.splits)
qed simp

lemma map_of_const: "map_of (map (\<lambda>q. (q, k)) qs) q = (if q \<in> set qs then Some k else None)"
  by (induction qs) auto

lemma insert_pages_const:
  assumes "distinct qs" "\<forall>q \<in> set qs. bt_get ps q = None" "bt_ok ps"
  shows "\<exists>ps'. insert_pages (map (\<lambda>q. (q, k)) qs) ps = Inr ps' \<and>
    (\<forall>q. bt_get ps' q = (if q \<in> set qs then Some k else bt_get ps q)) \<and> bt_ok ps'"
  using insert_pages_spec [of "map (\<lambda>q. (q, k)) qs" ps] assms by (auto simp: map_of_const comp_def image_image)

lemma missing_pages_spec:
  assumes "missing_pages ps off = (news, off')" "bt_ok ps" "\<forall>q \<in> fst ` set ps. page_size dvd q \<and> off \<le> q" "page_size dvd off"
  shows "set news = {q. page_size dvd q \<and> off \<le> q \<and> q < off' \<and> q \<notin> fst ` set ps} \<and> distinct news \<and>
    off \<le> off' \<and> page_size dvd off' \<and> (\<forall>q \<in> fst ` set ps. q < off') \<and>
    (\<forall>hi. page_size dvd hi \<and> off \<le> hi \<and> (\<forall>q \<in> fst ` set ps. q < hi) \<longrightarrow> off' \<le> hi)"
  using assms
proof (induction ps off arbitrary: news off' rule: missing_pages.induct)
  case (2 po k ps off)
  obtain news1 off1 where rest: "missing_pages ps (po + page_size) = (news1, off1)" by fastforce
  have po: "page_size dvd po" "off \<le> po" using 2(4) by auto
  have later: "po < q" "page_size dvd q" "po + page_size \<le> q" if "q \<in> fst ` set ps" for q
    using 2(3,4) that aligned_less [of po q] by (auto simp: bt_ok_def)
  have ok: "bt_ok ps" using 2(3) by (simp add: bt_ok_def)
  have eqs: "news = (if po > off then page_steps off po else []) @ news1" "off' = off1"
    using 2(2) rest by auto
  have ih: "set news1 = {q. page_size dvd q \<and> po + page_size \<le> q \<and> q < off1 \<and> q \<notin> fst ` set ps}" "distinct news1"
    "po + page_size \<le> off1" "page_size dvd off1" "\<forall>q \<in> fst ` set ps. q < off1"
    "\<forall>hi. page_size dvd hi \<and> po + page_size \<le> hi \<and> (\<forall>q \<in> fst ` set ps. q < hi) \<longrightarrow> off1 \<le> hi"
    using 2(1) [OF rest ok] later po(1) by auto
  have first: "set (if po > off then page_steps off po else []) = {q. page_size dvd q \<and> off \<le> q \<and> q < po}"
    using page_steps_set [OF 2(5)] by auto
  have gap: "q < po \<or> q = po \<or> po + page_size \<le> q" if "page_size dvd q" for q
    using that po(1) aligned_less [of po q] by (cases "q < po"; cases "q = po") auto
  have "set news = {q. page_size dvd q \<and> off \<le> q \<and> q < off' \<and> q \<notin> fst ` set ((po, k) # ps)}"
    unfolding eqs set_append first ih(1)
    using gap later ih(3) po(2) by (auto simp: image_iff) (fastforce+)?
  moreover have "distinct news"
    using eqs ih(1,2) first page_steps_distinct by auto
  moreover have "off' \<le> hi" if "page_size dvd hi" "off \<le> hi" "\<forall>q \<in> fst ` set ((po, k) # ps). q < hi" for hi
    using ih(6) that eqs(2) aligned_less [OF po(1) that(1)] by auto
  moreover have "po < off1" using ih(3) page_size_pos(1) by linarith
  ultimately show ?case using eqs ih(3-5) po by auto
qed auto

section \<open>The file a buffer holds\<close>

definition page_count :: "nat \<Rightarrow> nat" where
  "page_count n = (n + (page_size - 1)) div page_size"

definition mb_wf :: "mem_buffer \<Rightarrow> bool" where
  "mb_wf st =
     (bt_ok (mb_pages st) \<and> (\<forall>q \<in> fst ` set (mb_pages st). page_size dvd q \<and> q < length (mb_buf st)) \<and>
      length (mb_buf st) = page_size * page_count (mb_size st) \<and> mb_size st + (page_size - 1) \<le> u64_max \<and>
      (\<forall>(k, r) \<in> set (mb_readers st). k \<noteq> present \<and> page_size dvd rstart r \<and> page_size dvd rend r))"

text \<open>
  The file has the bytes \<open>f\<close>, zero from its size on; \<open>src\<close> are the bytes of the source. The rest of the last
  page of the buffer, after the end of the file, is zero if \<open>cleared\<close> says so.
\<close>

definition holds_if :: "bool \<Rightarrow> (nat \<Rightarrow> u8) \<Rightarrow> (nat \<Rightarrow> u8) \<Rightarrow> mem_buffer \<Rightarrow> bool" where
  "holds_if cleared src f st =
     ((\<forall>p < mb_size st. f p = (if bt_get (mb_pages st) (page_of p) = Some present then mb_buf st ! p else src p)) \<and>
      (\<forall>p \<ge> mb_size st. f p = 0) \<and>
      (cleared \<longrightarrow> (\<forall>p. mb_size st \<le> p \<and> p < length (mb_buf st) \<longrightarrow> mb_buf st ! p = 0)))"

abbreviation holds :: "(nat \<Rightarrow> u8) \<Rightarrow> (nat \<Rightarrow> u8) \<Rightarrow> mem_buffer \<Rightarrow> bool" where
  "holds \<equiv> holds_if True"

lemma aligned_page_count [simp]: "page_size dvd page_size * page_count n"
  by simp

lemma page_count_ge: "n \<le> page_size * page_count n"
proof -
  have "n + (page_size - 1) < page_size * page_count n + page_size"
    unfolding page_count_def by (metis add.commute dividend_less_times_div mult_Suc_right page_size_pos(1))
  then show ?thesis by simp
qed

lemma page_count_mono: "n \<le> m \<Longrightarrow> page_size * page_count n \<le> page_size * page_count m"
  by (simp add: page_count_def div_le_mono)

lemma round_up_least: "page_size dvd m \<Longrightarrow> n \<le> m \<Longrightarrow> page_size * page_count n \<le> m"
proof -
  assume "page_size dvd m" "n \<le> m"
  then obtain k where k: "m = page_size * k" by (auto elim: dvdE)
  have "(n + (page_size - 1)) div page_size \<le> (page_size * k + (page_size - 1)) div page_size"
    using \<open>n \<le> m\<close> k by (intro div_le_mono) simp
  then show ?thesis by (simp add: k page_count_def)
qed

lemma round_up_page: "n + (page_size - 1) \<le> u64_max \<Longrightarrow> unwrap_opt (round_up n page_size) = Inr (page_size * page_count n)"
  by (simp add: unwrap_opt_def round_up_eq page_count_def)

lemma page_of_within: "p < page_size * page_count n \<Longrightarrow> page_of p + page_size \<le> page_size * page_count n"
  using aligned_less [of "page_of p" "page_size * page_count n"] page_of_le [of p] by simp

lemma bt_get_map_snd: "bt_get (map (\<lambda>(q, k). (q, g q k)) ps) q = map_option (g q) (bt_get ps q)"
  by (induction ps) auto

lemma bt_ok_map_snd: "bt_ok (map (\<lambda>(q, k). (q, g q k)) ps) = bt_ok ps"
  by (simp add: bt_ok_def comp_def case_prod_beta)

lemma fst_map_snd: "fst ` set (map (\<lambda>(q, k). (q, g q k)) ps) = fst ` set ps"
  by force

lemma bt_get_filter_key:
  "bt_get (filter (\<lambda>p. Q (fst p)) ps) q = (if Q q then bt_get ps q else None)"
  by (induction ps) auto

lemma bt_ok_filter: "bt_ok ps \<Longrightarrow> bt_ok (filter Q ps)"
  unfolding bt_ok_def by (induction ps) auto

lemma bt_keys: "q \<in> fst ` set ps \<longleftrightarrow> bt_get ps q \<noteq> None"
  by (simp add: map_of_eq_None_iff)

text \<open>Marking makes exactly the pages that meet the range present.\<close>

lemma mark_present_spec:
  assumes "bt_ok (mb_pages st)" "\<forall>q \<in> fst ` set (mb_pages st). page_size dvd q" "rstart r \<le> rend r"
  shows "\<exists>ps. mark_present r st = Inr (st\<lparr>mb_pages := ps\<rparr>) \<and> bt_ok ps \<and>
    (\<forall>q. bt_get ps q = (if page_size dvd q \<and> page_of (rstart r) \<le> q \<and> q < rend r then Some present else bt_get (mb_pages st) q))"
proof -
  let ?lo = "page_of (rstart r)" and ?hi = "rend r"
  let ?in = "pages_range ?lo ?hi (mb_pages st)"
  obtain news off where miss: "missing_pages ?in ?lo = (news, off)" by fastforce
  have in_keys: "fst ` set ?in = {q \<in> fst ` set (mb_pages st). ?lo \<le> q \<and> q < ?hi}" by (auto simp: pages_range_def)
  have ok_in: "bt_ok ?in" using assms(1) by (simp add: pages_range_def bt_ok_filter)
  have "\<forall>q \<in> fst ` set ?in. page_size dvd q \<and> ?lo \<le> q" using assms(2) in_keys by auto
  note spec = missing_pages_spec [OF miss ok_in this page_of_dvd]
  let ?ps = "map (\<lambda>(po, k). (po, if ?lo \<le> po \<and> po < ?hi then present else k)) (mb_pages st)"
  have ps: "bt_get ?ps q = (if ?lo \<le> q \<and> q < ?hi then map_option (\<lambda>_. present) (bt_get (mb_pages st) q) else bt_get (mb_pages st) q)" for q
    by (cases "bt_get (mb_pages st) q") (simp_all add: bt_get_map_snd)
  have news: "q \<in> set news \<longleftrightarrow> page_size dvd q \<and> ?lo \<le> q \<and> q < off \<and> \<not> (q < ?hi \<and> bt_get (mb_pages st) q \<noteq> None)" for q
    using spec in_keys bt_keys [of q "mb_pages st"] by auto
  have off: "page_size dvd off" "?lo \<le> off" "\<And>q. q \<in> fst ` set ?in \<Longrightarrow> q < off" using spec by auto
  have news_hi: "q < ?hi" if "q \<in> set news" for q
  proof (rule ccontr)
    assume "\<not> q < ?hi"
    then have q: "page_size dvd q" "?lo \<le> q" "q < off" "?hi \<le> q" using that news by auto
    then have "off \<le> q" using spec in_keys by auto
    with q(3) show False by simp
  qed
  have "\<forall>q \<in> set news. bt_get ?ps q = None" using news ps news_hi by auto
  then obtain ps1 where ps1: "insert_pages (map (\<lambda>q. (q, present)) news) ?ps = Inr ps1"
    "\<forall>q. bt_get ps1 q = (if q \<in> set news then Some present else bt_get ?ps q)" "bt_ok ps1"
    using insert_pages_const [of news ?ps present] spec assms(1) by (auto simp: bt_ok_map_snd)
  have "bt_get ps1 q = None" if "q \<in> set (page_steps off ?hi)" for q
  proof -
    have q: "page_size dvd q" "off \<le> q" "q < ?hi" using that page_steps_set [OF off(1)] by auto
    then have "q \<notin> fst ` set ?in" using off(3) by (meson not_le)
    then have "bt_get (mb_pages st) q = None" using q off(2) in_keys bt_keys by fastforce
    then show ?thesis using ps1(2) ps news q by auto
  qed
  then obtain ps2 where ps2: "insert_pages (map (\<lambda>q. (q, present)) (page_steps off ?hi)) ps1 = Inr ps2"
    "\<forall>q. bt_get ps2 q = (if q \<in> set (page_steps off ?hi) then Some present else bt_get ps1 q)" "bt_ok ps2"
    using insert_pages_const [OF page_steps_distinct _ ps1(3)] by blast
  have steps: "q \<in> set (page_steps off ?hi) \<longleftrightarrow> page_size dvd q \<and> off \<le> q \<and> q < ?hi" for q
    using page_steps_set [OF off(1)] by auto
  have "bt_get ps2 q = (if page_size dvd q \<and> ?lo \<le> q \<and> q < ?hi then Some present else bt_get (mb_pages st) q)" for q
  proof (cases "bt_get (mb_pages st) q")
    case None
    have "bt_get ps2 q = (if q \<in> set (page_steps off ?hi) \<or> q \<in> set news then Some present else None)"
      using ps2(2) ps1(2) ps [of q] None by auto
    with None news [of q] news_hi [of q] steps [of q] off(2) show ?thesis by auto
  next
    case (Some k)
    then have "q \<in> fst ` set (mb_pages st)" by (simp add: bt_keys)
    then have q: "page_size dvd q" using assms(2) by blast
    have "q \<notin> set (page_steps off ?hi)"
      using off(2) off(3) [of q] Some in_keys bt_keys [of q "mb_pages st"] steps [of q] by auto
    moreover have "q \<notin> set news" using news [of q] news_hi [of q] Some by auto
    ultimately have "bt_get ps2 q = bt_get ?ps q" using ps1(2) ps2(2) by simp
    then have "bt_get ps2 q = (if ?lo \<le> q \<and> q < ?hi then Some present else Some k)"
      using ps [of q] Some by simp
    with q Some show ?thesis by simp
  qed
  moreover have "mark_present r st = Inr (st\<lparr>mb_pages := ps2\<rparr>)"
  proof -
    have "\<not> rend r < ?lo" using page_of_le [of "rstart r"] assms(3) by linarith
    then show ?thesis using miss ps1(1) ps2(1) by (simp add: mark_present_def page_of_def [symmetric] Let_def)
  qed
  ultimately show ?thesis using ps2(3) by blast
qed

lemma splice_nth:
  "off + length bs \<le> length buf \<Longrightarrow> p < length buf \<Longrightarrow>
   splice off bs buf ! p = (if off \<le> p \<and> p < off + length bs then bs ! (p - off) else buf ! p)"
  by (auto simp: splice_def nth_append min_def)

lemma splice_length [simp]: "off + length bs \<le> length buf \<Longrightarrow> length (splice off bs buf) = length buf"
  by (simp add: splice_def)

definition is_present :: "mem_buffer \<Rightarrow> nat \<Rightarrow> bool" where
  "is_present st q = (bt_get (mb_pages st) q = Some present)"

lemma mb_wf_pages:
  assumes "mb_wf st" "bt_get (mb_pages st) q = Some k"
  shows "page_size dvd q" "q < length (mb_buf st)"
proof -
  have "q \<in> fst ` set (mb_pages st)" using assms(2) by (simp add: bt_keys)
  then show "page_size dvd q" "q < length (mb_buf st)" using assms(1) by (auto simp: mb_wf_def)
qed

lemma mb_wf_pagesI: "(\<And>q k. bt_get ps q = Some k \<Longrightarrow> page_size dvd q \<and> q < n) \<Longrightarrow> \<forall>q \<in> fst ` set ps. page_size dvd q \<and> q < n"
  using bt_keys [of _ ps] by blast

text \<open>Truncation.\<close>

lemma mb_resize_shrink:
  assumes "mb_wf st" "holds_if c src f st" "n < mb_size st"
  shows "\<exists>st'. mb_resize n st = Inr st' \<and> mb_wf st' \<and> holds_if c src (\<lambda>p. if p < n then f p else 0) st' \<and> mb_size st' = n"
proof -
  let ?a = "page_size * page_count n" and ?e = "min (mb_size st) (page_size * page_count n)"
  let ?buf = "splice n (replicate (?e - n) 0) (take ?a (mb_buf st))"
  let ?ps = "filter (\<lambda>p. fst p < n) (mb_pages st)"
  have a: "n \<le> ?a" "?a \<le> length (mb_buf st)"
    using assms(1,3) page_count_ge page_count_mono [of n "mb_size st"] by (auto simp: mb_wf_def)
  have len: "length ?buf = ?a" using a by (subst splice_length) auto
  have nth: "?buf ! p = (if n \<le> p \<and> p < mb_size st then 0 else mb_buf st ! p)" if "p < ?a" for p
    using that a by (subst splice_nth) auto
  let ?st = "st\<lparr>mb_buf := ?buf, mb_size := n, mb_pages := ?ps,
    mb_read_keys := map (\<lambda>rk. rk\<lparr>rk_end_offset := min (rk_end_offset rk) n\<rparr>) (mb_read_keys st)\<rparr>"
  have run: "mb_resize n st = Inr ?st"
    using assms(1,3) a by (simp add: mb_resize_def round_up_page mb_wf_def vec_resize_def Let_def)
  have pages: "bt_get ?ps q = (if q < n then bt_get (mb_pages st) q else None)" for q
    by (rule bt_get_filter_key)
  have "\<forall>q \<in> fst ` set ?ps. page_size dvd q \<and> q < ?a"
    using assms(1) a(1) by (auto simp: mb_wf_def)
  then have "mb_wf ?st" using assms(1,3) len by (simp add: mb_wf_def bt_ok_filter)
  moreover have "holds_if c src (\<lambda>p. if p < n then f p else 0) ?st"
  proof -
    have "f p = (if bt_get ?ps (page_of p) = Some present then ?buf ! p else src p)" if "p < n" for p
      using assms(2,3) that pages [of "page_of p"] page_of_le [of p] nth [of p] a(1) by (simp add: holds_if_def)
    moreover have "?buf ! p = 0" if c "n \<le> p" "p < ?a" for p
      using that nth [of p] assms(2) a(2) by (simp add: holds_if_def)
    ultimately show ?thesis using len by (simp add: holds_if_def)
  qed
  ultimately show ?thesis using run by auto
qed

text \<open>Growing marks the page that the old end is in and all after it as present.\<close>

lemma mb_resize_grow:
  assumes "mb_wf st" "mb_size st \<le> n" "n + (page_size - 1) \<le> u64_max"
  shows "\<exists>ps. mb_resize n st = Inr (st\<lparr>mb_buf := mb_buf st @ replicate (page_size * page_count n - length (mb_buf st)) 0,
      mb_size := n, mb_pages := ps,
      mb_read_keys := map (\<lambda>rk. rk\<lparr>rk_end_offset := min (rk_end_offset rk) n\<rparr>) (mb_read_keys st)\<rparr>) \<and> bt_ok ps \<and>
    (\<forall>q. bt_get ps q = (if page_size dvd q \<and> page_of (mb_size st) \<le> q \<and> q < page_size * page_count n then Some present
                         else bt_get (mb_pages st) q))"
proof -
  let ?a = "page_size * page_count n"
  have a: "length (mb_buf st) \<le> ?a" "mb_size st \<le> ?a"
    using assms(1,2) page_count_mono [of "mb_size st" n] page_count_ge [of n] by (auto simp: mb_wf_def)
  let ?st = "st\<lparr>mb_buf := vec_resize ?a (mb_buf st), mb_size := n\<rparr>"
  have "bt_ok (mb_pages ?st)" "\<forall>q \<in> fst ` set (mb_pages ?st). page_size dvd q" using assms(1) by (auto simp: mb_wf_def)
  then obtain ps where ps: "mark_present (Range (mb_size st) ?a) ?st = Inr (?st\<lparr>mb_pages := ps\<rparr>)" "bt_ok ps"
    "\<forall>q. bt_get ps q = (if page_size dvd q \<and> page_of (mb_size st) \<le> q \<and> q < ?a then Some present else bt_get (mb_pages st) q)"
    using mark_present_spec [of ?st "Range (mb_size st) ?a"] a(2) by auto
  have "vec_resize ?a (mb_buf st) = mb_buf st @ replicate (?a - length (mb_buf st)) 0"
    using a(1) by (simp add: vec_resize_def)
  with ps show ?thesis using assms(2,3) by (intro exI [of _ ps]) (simp add: mb_resize_def round_up_page Let_def)
qed

lemma mb_wf_grow:
  assumes "mb_wf st" "mb_size st \<le> n" "n + (page_size - 1) \<le> u64_max" "bt_ok ps"
    "\<forall>q. bt_get ps q = (if page_size dvd q \<and> lo \<le> q \<and> q < page_size * page_count n then Some present else bt_get (mb_pages st) q)"
  shows "mb_wf (st\<lparr>mb_buf := mb_buf st @ replicate (page_size * page_count n - length (mb_buf st)) 0, mb_size := n,
    mb_pages := ps, mb_read_keys := rks\<rparr>)"
proof -
  have a: "length (mb_buf st) \<le> page_size * page_count n"
    using assms(1,2) page_count_mono [of "mb_size st" n] by (auto simp: mb_wf_def)
  have "\<forall>q \<in> fst ` set ps. page_size dvd q \<and> q < page_size * page_count n"
  proof (rule mb_wf_pagesI)
    fix q k
    assume "bt_get ps q = Some k"
    then show "page_size dvd q \<and> q < page_size * page_count n"
      using assms(5) mb_wf_pages [OF assms(1), of q k] a by (auto split: if_splits)
  qed
  with assms(1,3,4) a show ?thesis by (simp add: mb_wf_def)
qed

lemma mb_resize_extend:
  assumes "mb_wf st" "holds src f st" "mb_size st \<le> n" "n + (page_size - 1) \<le> u64_max"
    "page_size dvd mb_size st \<or> is_present st (page_of (mb_size st))"
  shows "\<exists>st'. mb_resize n st = Inr st' \<and> mb_wf st' \<and> holds src f st' \<and> mb_size st' = n"
proof -
  let ?a = "page_size * page_count n" and ?s = "mb_size st"
  let ?buf = "mb_buf st @ replicate (?a - length (mb_buf st)) 0"
  obtain ps where run: "mb_resize n st = Inr (st\<lparr>mb_buf := ?buf, mb_size := n, mb_pages := ps,
      mb_read_keys := map (\<lambda>rk. rk\<lparr>rk_end_offset := min (rk_end_offset rk) n\<rparr>) (mb_read_keys st)\<rparr>)" "bt_ok ps"
    and ps: "\<forall>q. bt_get ps q = (if page_size dvd q \<and> page_of ?s \<le> q \<and> q < ?a then Some present else bt_get (mb_pages st) q)"
    using mb_resize_grow [OF assms(1,3,4)] by blast
  have len: "?s \<le> length (mb_buf st)" "n \<le> ?a" using assms(1) page_count_ge by (auto simp: mb_wf_def)
  have zero: "?buf ! p = 0" if "?s \<le> p" "p < length ?buf" for p
    using that assms(2) by (cases "p < length (mb_buf st)") (auto simp: holds_if_def nth_append)
  have "f p = (if bt_get ps (page_of p) = Some present then ?buf ! p else src p)" if p: "p < n" for p
  proof (cases "p < ?s")
    case True
    have "bt_get ps (page_of p) = Some present \<longleftrightarrow> is_present st (page_of p)"
    proof (cases "page_of ?s \<le> page_of p")
      case le: True
      moreover have "page_of p \<le> page_of ?s" using True by (intro page_of_mono) simp
      ultimately have "page_of p = page_of ?s" by simp
      moreover have "\<not> page_size dvd ?s" using le True page_of_self [of ?s] page_of_le [of p] by auto
      moreover have "page_of p < ?a" using page_of_le [of p] p len(2) by linarith
      ultimately show ?thesis using ps assms(5) by (simp add: is_present_def)
    qed (use ps in \<open>simp add: is_present_def\<close>)
    then show ?thesis using True assms(2) len(1) by (simp add: holds_if_def is_present_def nth_append)
  next
    case False
    then have "page_of ?s \<le> page_of p" using aligned_le_page_of [of "page_of ?s" p] page_of_le [of ?s] by simp
    moreover have "page_of p < ?a" using page_of_le [of p] p len(2) by linarith
    ultimately have "bt_get ps (page_of p) = Some present" using ps by simp
    moreover have "f p = 0" using False assms(2) by (simp add: holds_if_def)
    moreover have "?buf ! p = 0" using False p len by (intro zero) auto
    ultimately show ?thesis by simp
  qed
  then have "holds src f (st\<lparr>mb_buf := ?buf, mb_size := n, mb_pages := ps,
      mb_read_keys := map (\<lambda>rk. rk\<lparr>rk_end_offset := min (rk_end_offset rk) n\<rparr>) (mb_read_keys st)\<rparr>)"
    using assms(2,3) zero by (simp add: holds_if_def)
  moreover note mb_wf_grow [OF assms(1,3,4) run(2) ps]
  ultimately show ?thesis using run(1) by auto
qed

text \<open>
  Writing. Where the write begins or ends inside a page that has bytes of the file, the page has to be
  present, and a write past the end needs the page of the old end, unless it begins in it or before it.
\<close>

definition write_ready :: "nat \<Rightarrow> nat \<Rightarrow> mem_buffer \<Rightarrow> bool" where
  "write_ready off e st =
     ((page_size dvd off \<or> mb_size st \<le> page_of off \<or> is_present st (page_of off)) \<and>
      (page_size dvd e \<or> mb_size st \<le> e \<or> is_present st (page_of e)) \<and>
      (e \<le> mb_size st \<or> page_size dvd mb_size st \<or> off \<le> page_of (mb_size st) \<or> is_present st (page_of (mb_size st))))"

definition written :: "nat \<Rightarrow> u8 list \<Rightarrow> (nat \<Rightarrow> u8) \<Rightarrow> nat \<Rightarrow> u8" where
  "written off bs f p = (if off \<le> p \<and> p < off + length bs then bs ! (p - off) else f p)"

text \<open>Putting bytes in the buffer and marking their pages, when the buffer is long enough.\<close>

lemma write_within:
  assumes "mb_wf st" "off + length bs \<le> mb_size st"
    and "\<And>p. p < mb_size st \<Longrightarrow> \<not> (off \<le> p \<and> p < off + length bs) \<Longrightarrow>
          page_of off \<le> page_of p \<Longrightarrow> page_of p < off + length bs \<Longrightarrow> mb_buf st ! p = f p"
    and "\<And>p. p < mb_size st \<Longrightarrow> \<not> (page_of off \<le> page_of p \<and> page_of p < off + length bs) \<Longrightarrow>
          f p = (if is_present st (page_of p) then mb_buf st ! p else src p)"
    and "\<And>p. mb_size st \<le> p \<Longrightarrow> f p = 0"
    and "\<And>p. c \<Longrightarrow> mb_size st \<le> p \<Longrightarrow> p < length (mb_buf st) \<Longrightarrow> mb_buf st ! p = 0"
  shows "\<exists>st'. mark_present (Range off (off + length bs)) (st\<lparr>mb_buf := splice off bs (mb_buf st)\<rparr>) = Inr st' \<and>
    mb_wf st' \<and> holds_if c src (written off bs f) st' \<and> mb_size st' = mb_size st"
proof -
  let ?e = "off + length bs" and ?st = "st\<lparr>mb_buf := splice off bs (mb_buf st)\<rparr>"
  have len: "mb_size st \<le> length (mb_buf st)" using assms(1) page_count_ge by (simp add: mb_wf_def)
  have "bt_ok (mb_pages ?st)" "\<forall>q \<in> fst ` set (mb_pages ?st). page_size dvd q" using assms(1) by (auto simp: mb_wf_def)
  then obtain ps where run: "mark_present (Range off ?e) ?st = Inr (?st\<lparr>mb_pages := ps\<rparr>)" "bt_ok ps"
    and ps: "\<forall>q. bt_get ps q = (if page_size dvd q \<and> page_of off \<le> q \<and> q < ?e then Some present else bt_get (mb_pages st) q)"
    using mark_present_spec [of ?st "Range off ?e"] by auto
  have nth: "splice off bs (mb_buf st) ! p = (if off \<le> p \<and> p < ?e then bs ! (p - off) else mb_buf st ! p)" if "p < length (mb_buf st)" for p
    using that assms(2) len by (intro splice_nth) auto
  have "\<forall>q \<in> fst ` set ps. page_size dvd q \<and> q < length (mb_buf st)"
  proof (rule mb_wf_pagesI)
    fix q k
    assume "bt_get ps q = Some k"
    then show "page_size dvd q \<and> q < length (mb_buf st)"
      using ps mb_wf_pages [OF assms(1), of q k] assms(2) len by (auto split: if_splits)
  qed
  then have "mb_wf (?st\<lparr>mb_pages := ps\<rparr>)" using assms(1,2) run(2) len by (simp add: mb_wf_def)
  moreover have "written off bs f p = (if bt_get ps (page_of p) = Some present then splice off bs (mb_buf st) ! p else src p)"
    if p: "p < mb_size st" for p
  proof (cases "page_of off \<le> page_of p \<and> page_of p < ?e")
    case True
    then have "bt_get ps (page_of p) = Some present" using ps by simp
    then show ?thesis using nth [of p] p len assms(3) [OF p _ conjunct1 [OF True] conjunct2 [OF True]] by (simp add: written_def)
  next
    case False
    then have out: "\<not> (off \<le> p \<and> p < ?e)" using page_of_mono [of off p] page_of_less [of p ?e] by auto
    have "bt_get ps (page_of p) = Some present \<longleftrightarrow> is_present st (page_of p)" using ps False by (auto simp: is_present_def)
    then show ?thesis using assms(4) [OF p False] nth [of p] p len out by (auto simp: written_def)
  qed
  ultimately have "mb_wf (?st\<lparr>mb_pages := ps\<rparr>) \<and> holds_if c src (written off bs f) (?st\<lparr>mb_pages := ps\<rparr>)"
    using assms(2,5,6) nth len by (auto simp: holds_if_def written_def)
  with run(1) show ?thesis by auto
qed

lemma write_finish_holds:
  assumes "mb_wf st" "holds_if c src f st" "off + length bs + (page_size - 1) \<le> u64_max" "write_ready off (off + length bs) st"
    "c \<or> off + length bs \<le> mb_size st"
  shows "\<exists>st'. write_finish off bs st = Inr st' \<and> mb_wf st' \<and> holds_if c src (written off bs f) st' \<and>
    mb_size st' = max (mb_size st) (off + length bs)"
proof (cases "off + length bs \<le> mb_size st")
  case True
  let ?e = "off + length bs"
  have len: "mb_size st \<le> length (mb_buf st)" using assms(1) page_count_ge by (simp add: mb_wf_def)
  have edge: "mb_buf st ! p = f p" if p: "p < mb_size st" "\<not> (off \<le> p \<and> p < ?e)" "page_of off \<le> page_of p" "page_of p < ?e" for p
  proof -
    have "is_present st (page_of p)"
    proof (cases "p < off")
      case True
      then have "page_of p = page_of off" using p(3) page_of_mono [of p off] by simp
      moreover from this have "\<not> page_size dvd off" using True page_of_le [of p] page_of_self [of off] by auto
      moreover have "\<not> mb_size st \<le> page_of off" using p(1) page_of_less [of p "mb_size st"] calculation(1) by simp
      ultimately show ?thesis using assms(4) by (auto simp: write_ready_def)
    next
      case False
      then have "?e \<le> p" using p(2) by simp
      then have pe: "page_of p = page_of ?e"
        using page_of_mono [of ?e p] aligned_le_page_of [of "page_of p" ?e] p(4) by simp
      moreover have "\<not> page_size dvd ?e" using pe page_of_self [of ?e] p(4) by auto
      moreover have "\<not> mb_size st \<le> ?e" using \<open>?e \<le> p\<close> p(1) by simp
      ultimately show ?thesis using assms(4) by (auto simp: write_ready_def)
    qed
    then show ?thesis using assms(2) p(1) by (simp add: holds_if_def is_present_def)
  qed
  have "\<exists>st'. mark_present (Range off ?e) (st\<lparr>mb_buf := splice off bs (mb_buf st)\<rparr>) = Inr st' \<and>
      mb_wf st' \<and> holds_if c src (written off bs f) st' \<and> mb_size st' = mb_size st"
    using assms(1,2) True edge by (intro write_within) (auto simp: holds_if_def is_present_def)
  then show ?thesis using assms(3) True len by (auto simp: write_finish_def u64_add_def max_def)
next
  case False
  then have h: "holds src f st" using assms(2,5) by simp
  let ?e = "off + length bs" and ?s = "mb_size st"
  let ?a = "page_size * page_count (off + length bs)"
  let ?buf = "mb_buf st @ replicate (?a - length (mb_buf st)) 0"
  have le: "?s \<le> ?e" using False by simp
  obtain ps where run: "mb_resize ?e st = Inr (st\<lparr>mb_buf := ?buf, mb_size := ?e, mb_pages := ps,
      mb_read_keys := map (\<lambda>rk. rk\<lparr>rk_end_offset := min (rk_end_offset rk) ?e\<rparr>) (mb_read_keys st)\<rparr>)" "bt_ok ps"
    and ps: "\<forall>q. bt_get ps q = (if page_size dvd q \<and> page_of ?s \<le> q \<and> q < ?a then Some present else bt_get (mb_pages st) q)"
    using mb_resize_grow [OF assms(1) le assms(3)] by blast
  define st1 where "st1 = st\<lparr>mb_buf := ?buf, mb_size := ?e, mb_pages := ps,
      mb_read_keys := map (\<lambda>rk. rk\<lparr>rk_end_offset := min (rk_end_offset rk) ?e\<rparr>) (mb_read_keys st)\<rparr>"
  have wf1: "mb_wf st1" unfolding st1_def by (rule mb_wf_grow [OF assms(1) le assms(3) run(2) ps])
  have len: "?s \<le> length (mb_buf st)" "?e \<le> length ?buf" "length ?buf = length (mb_buf st1)"
    using assms(1) wf1 page_count_ge by (auto simp: mb_wf_def st1_def)
  have zero: "mb_buf st1 ! p = 0" if "?s \<le> p" "p < length ?buf" for p
    using that h by (cases "p < length (mb_buf st)") (auto simp: holds_if_def nth_append st1_def)
  have old: "mb_buf st1 ! p = mb_buf st ! p" if "p < ?s" for p using that len by (simp add: st1_def nth_append)
  have "\<exists>st'. mark_present (Range off ?e) (st1\<lparr>mb_buf := splice off bs (mb_buf st1)\<rparr>) = Inr st' \<and>
      mb_wf st' \<and> holds_if c src (written off bs f) st' \<and> mb_size st' = mb_size st1"
  proof (rule write_within [OF wf1])
    show "?e \<le> mb_size st1" by (simp add: st1_def)
    show "f p = 0" if "mb_size st1 \<le> p" for p using that le h by (simp add: holds_if_def st1_def)
    show "mb_buf st1 ! p = 0" if "mb_size st1 \<le> p" "p < length (mb_buf st1)" for p
      using that le len(3) zero [of p] by (simp add: st1_def)
    show "mb_buf st1 ! p = f p"
      if p: "p < mb_size st1" "\<not> (off \<le> p \<and> p < ?e)" "page_of off \<le> page_of p" "page_of p < ?e" for p
    proof (cases "p < ?s")
      case True
      then have "page_of p = page_of off" using p page_of_mono [of p off] by (simp add: st1_def)
      moreover from this have "\<not> page_size dvd off" "\<not> ?s \<le> page_of off"
        using p(1,2) page_of_self [of off] page_of_le [of p] page_of_less [OF True] by (auto simp: st1_def)
      ultimately have "is_present st (page_of p)" using assms(4) by (auto simp: write_ready_def)
      then show ?thesis using True h old by (simp add: holds_if_def is_present_def)
    next
      case False
      then show ?thesis using p(1) h zero [of p] len(2) by (simp add: st1_def holds_if_def)
    qed
    show "f p = (if is_present st1 (page_of p) then mb_buf st1 ! p else src p)"
      if p: "p < mb_size st1" "\<not> (page_of off \<le> page_of p \<and> page_of p < ?e)" for p
    proof (cases "p < ?s")
      case True
      have "page_of p < page_of off" using p True le page_of_less [of p ?e] by auto
      have "is_present st1 (page_of p) \<longleftrightarrow> is_present st (page_of p)"
      proof (cases "page_of ?s \<le> page_of p")
        case inner: True
        then have eq: "page_of p = page_of ?s" using True page_of_mono [of p ?s] by simp
        moreover have "\<not> page_size dvd ?s" using eq True page_of_self [of ?s] page_of_le [of p] by auto
        moreover have "\<not> off \<le> page_of ?s" using eq \<open>page_of p < page_of off\<close> page_of_le [of off] by linarith
        ultimately have "is_present st (page_of p)" using assms(4) False by (auto simp: write_ready_def)
        moreover have "page_of p < ?a" using page_of_less [OF p(1)] page_count_ge [of ?e] by (simp add: st1_def)
        ultimately show ?thesis using ps inner by (simp add: is_present_def st1_def)
      qed (use ps in \<open>simp add: is_present_def st1_def\<close>)
      then show ?thesis using True h old by (simp add: holds_if_def is_present_def)
    next
      case past: False
      then have "page_of ?s \<le> page_of p" by (intro page_of_mono) simp
      moreover have "page_of p < ?a" using page_of_less [OF p(1)] page_count_ge [of ?e] by (simp add: st1_def)
      ultimately have "is_present st1 (page_of p)" using ps by (simp add: is_present_def st1_def)
      then show ?thesis using past p(1) h zero [of p] len(2) by (simp add: st1_def holds_if_def)
    qed
  qed
  then show ?thesis using assms(3) False run(1) len by (auto simp: write_finish_def u64_add_def max_def st1_def)
qed

section \<open>Reads in flight\<close>

lemma ball_subset: "\<forall>x \<in> B. Q x \<Longrightarrow> A \<subseteq> B \<Longrightarrow> \<forall>x \<in> A. Q x"
  by blast

lemma fill_pages_spec:
  assumes "distinct (map fst ps)"
    "\<forall>q \<in> fst ` set ps. page_size dvd q \<and> start \<le> q \<and> q - start + page_size \<le> length rb \<and> q + page_size \<le> length buf"
  shows "\<exists>buf'. fill_pages start k rb ps buf = Inr buf' \<and> length buf' = length buf \<and>
    (\<forall>p < length buf. buf' ! p = (if map_of ps (page_of p) = Some k then rb ! (p - start) else buf ! p))"
  using assms
proof (induction start k rb ps buf rule: fill_pages.induct)
  case (2 start k rb po k' ps buf)
  have po: "page_size dvd po" "start \<le> po" "po - start + page_size \<le> length rb" "po + page_size \<le> length buf"
    using 2(4) by auto
  have notin: "map_of ps po = None" using 2(3) by (simp add: map_of_eq_None_iff)
  let ?new = "take page_size (drop (po - start) rb)"
  have len: "length ?new = page_size" using po(3) by simp
  show ?case
  proof (cases "k' = k")
    case True
    let ?buf = "splice po ?new buf"
    have lb: "length ?buf = length buf" using len po(4) by simp
    obtain buf' where ih: "fill_pages start k rb ps ?buf = Inr buf'" "length buf' = length buf"
      "\<forall>p < length buf. buf' ! p = (if map_of ps (page_of p) = Some k then rb ! (p - start) else ?buf ! p)"
    proof -
      have "\<forall>q \<in> fst ` set ps. page_size dvd q \<and> start \<le> q \<and> q - start + page_size \<le> length rb \<and> q + page_size \<le> length ?buf"
        unfolding lb using 2(4) by (rule ball_subset) auto
      from 2(1) [OF True conjI [OF po(3,4)] _ this] 2(3) that show ?thesis unfolding lb by auto
    qed
    have "buf' ! p = (if map_of ((po, k') # ps) (page_of p) = Some k then rb ! (p - start) else buf ! p)" if p: "p < length buf" for p
    proof (cases "po \<le> p \<and> p < po + page_size")
      case inp: True
      then have "page_of p = po" using page_of_eq [OF po(1)] by simp
      moreover have "?buf ! p = rb ! (p - start)" using inp p len po by (subst splice_nth) (auto simp: add.commute)
      ultimately show ?thesis using ih(3) p notin True by simp
    next
      case False
      then have "page_of p \<noteq> po" using page_of_lt [of p] page_of_le [of p] by auto
      moreover have "?buf ! p = buf ! p" using False p len po by (subst splice_nth) auto
      ultimately show ?thesis using ih(3) p by simp
    qed
    with ih True po show ?thesis by auto
  next
    case False
    obtain buf' where "fill_pages start k rb ps buf = Inr buf'" "length buf' = length buf"
      "\<forall>p < length buf. buf' ! p = (if map_of ps (page_of p) = Some k then rb ! (p - start) else buf ! p)"
    proof -
      have "\<forall>q \<in> fst ` set ps. page_size dvd q \<and> start \<le> q \<and> q - start + page_size \<le> length rb \<and> q + page_size \<le> length buf"
        using 2(4) by (rule ball_subset) auto
      from 2(2) [OF False _ this] 2(3) that show ?thesis by auto
    qed
    with False notin show ?thesis by (auto split: if_splits)
  qed
qed simp

lemma bt_ok_distinct: "bt_ok ps \<Longrightarrow> distinct (map fst ps)"
  unfolding bt_ok_def by (simp add: strict_sorted_iff)

lemma mb_wf_reader: "mb_wf st \<Longrightarrow> bt_get (mb_readers st) k = Some r \<Longrightarrow> k \<noteq> present \<and> page_size dvd rstart r \<and> page_size dvd rend r"
  by (auto simp: mb_wf_def dest!: map_of_SomeD)

text \<open>The source bytes of a range.\<close>

definition reads_source :: "(nat \<Rightarrow> u8) \<Rightarrow> u64_range \<Rightarrow> u8 list \<Rightarrow> bool" where
  "reads_source src r rb = (length rb = rend r - rstart r \<and> (\<forall>i < length rb. rb ! i = src (rstart r + i)))"

text \<open>
  When a read of the source is done its pages become present. For the rest of the last page to stay zero, the
  source must not have more than the file there.
\<close>

lemma read_some_done_holds:
  assumes "mb_wf st" "holds_if c src f st" "bt_get (mb_readers st) k = Some r" "reads_source src r rb"
    "c \<longrightarrow> (\<forall>p. mb_size st \<le> p \<and> p < length (mb_buf st) \<longrightarrow> src p = 0)"
  shows "\<exists>st'. read_some_done r k rb st = Inr st' \<and> mb_wf st' \<and> holds_if c src f st' \<and> mb_size st' = mb_size st \<and>
    length (mb_buf st') = length (mb_buf st) \<and> mb_readers st' = mb_readers st \<and> mb_read_keys st' = mb_read_keys st \<and>
    (\<forall>q. bt_get (mb_pages st') q =
       (if rstart r \<le> q \<and> q < rend r \<and> bt_get (mb_pages st) q = Some k then Some present else bt_get (mb_pages st) q))"
proof -
  let ?in = "pages_range (rstart r) (rend r) (mb_pages st)"
  note rd = mb_wf_reader [OF assms(1,3)]
  have buf_dvd: "page_size dvd length (mb_buf st)" using assms(1) by (simp add: mb_wf_def)
  have keys: "page_size dvd q \<and> rstart r \<le> q \<and> q - rstart r + page_size \<le> length rb \<and> q + page_size \<le> length (mb_buf st)"
    if "q \<in> fst ` set ?in" for q
  proof -
    have q: "q \<in> fst ` set (mb_pages st)" "rstart r \<le> q" "q < rend r" using that by (auto simp: pages_range_def)
    then have "page_size dvd q" "q < length (mb_buf st)" using assms(1) by (auto simp: mb_wf_def)
    then show ?thesis using q rd aligned_less [of q "rend r"] aligned_less [OF _ buf_dvd, of q] assms(4)
      by (simp add: reads_source_def)
  qed
  have "distinct (map fst ?in)" unfolding pages_range_def using assms(1) by (intro bt_ok_distinct bt_ok_filter) (simp add: mb_wf_def)
  then obtain buf where buf: "fill_pages (rstart r) k rb ?in (mb_buf st) = Inr buf" "length buf = length (mb_buf st)"
    "\<forall>p < length (mb_buf st). buf ! p = (if map_of ?in (page_of p) = Some k then rb ! (p - rstart r) else mb_buf st ! p)"
    using fill_pages_spec [of ?in "rstart r" rb "mb_buf st" k] keys by blast
  have in_get: "map_of ?in q = (if rstart r \<le> q \<and> q < rend r then bt_get (mb_pages st) q else None)" for q
    unfolding pages_range_def by (rule bt_get_filter_key)
  have filled: "buf ! p = (if rstart r \<le> page_of p \<and> page_of p < rend r \<and> bt_get (mb_pages st) (page_of p) = Some k then src p
      else mb_buf st ! p)" if "p < length (mb_buf st)" for p
  proof (cases "rstart r \<le> page_of p \<and> page_of p < rend r \<and> bt_get (mb_pages st) (page_of p) = Some k")
    case True
    then have "page_of p + page_size \<le> rend r" using rd aligned_less [of "page_of p" "rend r"] by simp
    moreover from True have "rstart r \<le> p" using page_of_le [of p] by linarith
    ultimately have "p - rstart r < length rb" "rstart r \<le> p"
      using page_of_lt [of p] assms(4) by (auto simp: reads_source_def)
    then show ?thesis using True buf(3) in_get that assms(4) by (simp add: reads_source_def)
  qed (use buf(3) in_get that in auto)
  let ?ps = "map (\<lambda>(po, k'). (po, if rstart r \<le> po \<and> po < rend r \<and> k' = k then present else k')) (mb_pages st)"
  let ?st = "st\<lparr>mb_buf := buf, mb_pages := ?ps\<rparr>"
  have ps: "bt_get ?ps q = (if rstart r \<le> q \<and> q < rend r \<and> bt_get (mb_pages st) q = Some k then Some present else bt_get (mb_pages st) q)" for q
    by (cases "bt_get (mb_pages st) q") (simp_all add: bt_get_map_snd)
  have "mb_wf ?st" using assms(1) buf(2) by (auto simp: mb_wf_def bt_ok_map_snd simp del: set_map) (force+)
  moreover have "holds_if c src f ?st"
  proof -
    have "mb_size st \<le> length (mb_buf st)" using assms(1) page_count_ge by (simp add: mb_wf_def)
    then have "f p = (if bt_get ?ps (page_of p) = Some present then buf ! p else src p)" if "p < mb_size st" for p
      using that assms(2) filled [of p] ps [of "page_of p"] rd by (auto simp: holds_if_def)
    moreover have "buf ! p = 0" if c "mb_size st \<le> p" "p < length (mb_buf st)" for p
      using that filled [of p] assms(2,5) by (auto simp: holds_if_def)
    moreover have "\<forall>p \<ge> mb_size st. f p = 0" using assms(2) by (simp add: holds_if_def)
    ultimately show ?thesis using buf(2) by (simp add: holds_if_def)
  qed
  moreover have "read_some_done r k rb st = Inr ?st" using buf(1) assms(3) by (simp add: read_some_done_def)
  ultimately show ?thesis using buf(2) ps by auto
qed

text \<open>Scheduling a read adds pages that are not present, and dropping one takes them away.\<close>

lemma holds_pages:
  assumes "holds_if c src f st" "\<And>q. bt_get ps q = Some present \<longleftrightarrow> bt_get (mb_pages st) q = Some present"
  shows "holds_if c src f (st\<lparr>mb_pages := ps, mb_readers := rs, mb_read_keys := rks\<rparr>)"
  using assms by (simp add: holds_if_def)

lemma mb_wf_readers:
  assumes "mb_wf st" "bt_ok ps" "\<And>q k. bt_get ps q = Some k \<Longrightarrow> page_size dvd q \<and> q < length (mb_buf st)"
    "\<And>k r. (k, r) \<in> set rs \<Longrightarrow> k \<noteq> present \<and> page_size dvd rstart r \<and> page_size dvd rend r"
  shows "mb_wf (st\<lparr>mb_pages := ps, mb_readers := rs, mb_read_keys := rks\<rparr>)"
proof -
  have "\<forall>q \<in> fst ` set ps. page_size dvd q \<and> q < length (mb_buf st)" by (rule mb_wf_pagesI) (rule assms(3))
  then show ?thesis using assms(1,2,4) by (auto simp: mb_wf_def)
qed

lemma mb_read_keys_simps [simp]:
  "mb_wf (st\<lparr>mb_read_keys := rks\<rparr>) = mb_wf st"
  "holds_if c src f (st\<lparr>mb_read_keys := rks\<rparr>) = holds_if c src f st"
  by (simp_all add: mb_wf_def holds_if_def)

lemma set_bt_insert: "set (bt_insert k v m) \<subseteq> insert (k, v) (set m)"
  by (induction k v m rule: bt_insert.induct) auto

lemma drop_keys_holds:
  assumes "mb_wf st" "holds_if c src f st" "drop_keys ks st = Inr st'"
  shows "mb_wf st' \<and> holds_if c src f st' \<and> mb_size st' = mb_size st \<and> (\<forall>q. is_present st' q \<longleftrightarrow> is_present st q)"
  using assms
proof (induction ks st rule: drop_keys.induct)
  case (2 k ks st)
  then obtain r where r: "bt_get (mb_readers st) k = Some r" by (cases "bt_get (mb_readers st) k") auto
  let ?ps = "filter (\<lambda>p. \<not> (rstart r \<le> fst p \<and> fst p < rend r \<and> snd p = k)) (mb_pages st)"
  let ?st = "st\<lparr>mb_readers := bt_remove k (mb_readers st), mb_pages := ?ps\<rparr>"
  have "k \<noteq> present" using mb_wf_reader [OF 2(2) r] by simp
  have dist: "distinct (map fst (mb_pages st))" using 2(2) by (simp add: mb_wf_def bt_ok_distinct)
  then have kept: "bt_get ?ps q = Some present \<longleftrightarrow> bt_get (mb_pages st) q = Some present" for q
    using \<open>k \<noteq> present\<close> distinct_map_filter [OF dist] by (auto simp: map_of_eq_Some_iff)
  from kept have "holds_if c src f ?st" using 2(3) by (simp add: holds_if_def)
  moreover have "mb_wf ?st" using 2(2) by (auto simp: mb_wf_def bt_ok_filter bt_remove_def)
  moreover have "drop_keys ks ?st = Inr st'" using 2(4) r by simp
  ultimately show ?case using 2(1) [OF r] kept by (simp add: is_present_def)
qed simp

lemma read_keys_drop_holds:
  assumes "mb_wf st" "holds_if c src f st" "read_keys_drop node st = Inr st'"
  shows "mb_wf st' \<and> holds_if c src f st' \<and> mb_size st' = mb_size st"
proof -
  obtain st1 where "drop_keys (concat (map rk_keys (filter (\<lambda>rk. rk_node rk = node) (mb_read_keys st)))) st = Inr st1"
    "st' = st1\<lparr>mb_read_keys := filter (\<lambda>rk. rk_node rk \<noteq> node) (mb_read_keys st1)\<rparr>"
    using assms(3) by (auto simp: read_keys_drop_def bind_res_eq_Inr)
  with drop_keys_holds [OF assms(1,2)] show ?thesis by auto
qed

end
