(* ===== verification/Data_Buffer_Read.thy ===== *)
theory Data_Buffer_Read
  imports Data_Buffer_Correct
begin

text \<open>
  Reading from the data buffer: what the locked section of a read plans, and that carrying the plan out
  returns the bytes of the file.
\<close>

section \<open>The plan of a read\<close>

text \<open>
  A plan for the bytes from \<open>offset\<close> to \<open>stop\<close>, of which those before \<open>end_offset\<close> matter. Up to \<open>last_offset\<close>
  every byte is copied already or is the business of a job; every job copies only bytes of the pages it
  reads or waits for; the new pages belong to the jobs and are not in the buffer yet.
\<close>

definition job_ok :: "nat \<Rightarrow> nat \<Rightarrow> read_plan \<Rightarrow> read_job \<Rightarrow> bool" where
  "job_ok offset end_offset pl j =
     (case j of
        ReadAndCopy r at len k \<Rightarrow>
          offset \<le> at \<and> at - offset + len \<le> length (read_out pl) \<and> bt_get (plan_readers pl) k = Some r \<and> k \<in> set (plan_keys pl) \<and>
          rstart r \<le> rend r \<and>
          (\<forall>p. at \<le> p \<and> p < at + len \<and> p < end_offset \<longrightarrow>
             rstart r \<le> page_of p \<and> page_of p < rend r \<and> map_of (new_pages pl) (page_of p) = Some k)
      | ReadPage po at len \<Rightarrow> True)"

definition job_covers :: "read_job \<Rightarrow> nat \<Rightarrow> bool" where
  "job_covers j p = (case j of ReadAndCopy r at len k \<Rightarrow> at \<le> p \<and> p < at + len | ReadPage po at len \<Rightarrow> at \<le> p \<and> p < at + len)"

definition is_page_job :: "read_job \<Rightarrow> bool" where
  "is_page_job j = (case j of ReadPage _ _ _ \<Rightarrow> True | _ \<Rightarrow> False)"

definition plan_position :: "nat \<Rightarrow> nat \<Rightarrow> nat \<Rightarrow> read_plan \<Rightarrow> bool" where
  "plan_position offset stop len pl =
     (offset \<le> last_offset pl \<and> (read_left pl = 0 \<and> stop \<le> last_offset pl \<or> last_offset pl + read_left pl = stop) \<and>
      length (read_out pl) = len \<and> stop - offset \<le> len \<and>
      (last_offset pl = offset \<and> new_pages pl = [] \<or> page_size dvd last_offset pl))"

definition plan_covers :: "mem_buffer \<Rightarrow> nat \<Rightarrow> nat \<Rightarrow> read_plan \<Rightarrow> bool" where
  "plan_covers st offset end_offset pl =
     (\<forall>p. offset \<le> p \<and> p < last_offset pl \<and> p < end_offset \<longrightarrow>
        is_present st (page_of p) \<and> read_out pl ! (p - offset) = mb_buf st ! p \<or> (\<exists>j \<in> set (read_jobs pl). job_covers j p))"

definition plan_new :: "mem_buffer \<Rightarrow> read_plan \<Rightarrow> bool" where
  "plan_new st pl =
     (distinct (map fst (new_pages pl)) \<and>
      (\<forall>(q, k) \<in> set (new_pages pl). page_size dvd q \<and> q < length (mb_buf st) \<and> q + page_size \<le> last_offset pl \<and>
         bt_get (mb_pages st) q = None \<and> k \<in> set (plan_keys pl) \<and>
         (\<exists>r. bt_get (plan_readers pl) k = Some r \<and> rstart r \<le> q \<and> q < rend r)))"

definition plan_keyed :: "mem_buffer \<Rightarrow> read_plan \<Rightarrow> bool" where
  "plan_keyed st pl =
     ((\<forall>(k, r) \<in> set (plan_readers pl). k \<noteq> present \<and> page_size dvd rstart r \<and> page_size dvd rend r) \<and>
      (\<forall>k. bt_get (mb_readers st) k \<noteq> None \<longrightarrow> bt_get (plan_readers pl) k = bt_get (mb_readers st) k) \<and>
      (\<forall>k. k \<notin> set (plan_keys pl) \<longrightarrow> bt_get (plan_readers pl) k = bt_get (mb_readers st) k) \<and>
      distinct (plan_keys pl) \<and>
      (\<forall>k \<in> set (plan_keys pl). bt_get (mb_readers st) k = None \<and> bt_get (plan_readers pl) k \<noteq> None \<and>
         (\<exists>r at n. ReadAndCopy r at n k \<in> set (read_jobs pl))))"

definition plan_inv :: "mem_buffer \<Rightarrow> nat \<Rightarrow> nat \<Rightarrow> nat \<Rightarrow> nat \<Rightarrow> read_plan \<Rightarrow> bool" where
  "plan_inv st offset end_offset stop len pl =
     (plan_position offset stop len pl \<and> (\<forall>j \<in> set (read_jobs pl). job_ok offset end_offset pl j) \<and>
      plan_covers st offset end_offset pl \<and> plan_new st pl \<and> plan_keyed st pl \<and>
      ((\<exists>j \<in> set (read_jobs pl). is_page_job j) \<longrightarrow> (\<exists>q k. bt_get (mb_pages st) q = Some k \<and> k \<noteq> present)))"

text \<open>What the slab promises of a new key.\<close>

definition slab_law :: "((nat, u64_range) btree_map \<Rightarrow> nat) \<Rightarrow> bool" where
  "slab_law new_key = (\<forall>m. bt_get m (new_key m) = None \<and> new_key m \<noteq> present)"

text \<open>Scheduling a read of pages that are missing, from the page of the last offset on.\<close>

lemma schedule_read_inv:
  assumes "slab_law new_key" "plan_inv st offset end_offset stop len pl" "end_offset \<le> stop"
    and "page_size dvd e" "page_of (last_offset pl) < e" "e \<le> length (mb_buf st)"
    and none: "\<And>q. page_of (last_offset pl) \<le> q \<Longrightarrow> q < e \<Longrightarrow> bt_get (mb_pages st) q = None"
    and "0 < n" "n \<le> read_left pl" "last_offset pl + n \<le> e \<or> end_offset \<le> e"
    and "lst = last_offset pl + n \<or> read_left pl = n \<and> stop \<le> lst" "page_size dvd lst" "e \<le> lst"
  shows "\<exists>pl'. schedule_read new_key page_size (Range (page_of (last_offset pl)) e) n pl = Inr pl' \<and>
    plan_inv st offset end_offset stop len (pl'\<lparr>last_offset := lst\<rparr>) \<and> last_offset pl' = last_offset pl"
proof -
  let ?L = "last_offset pl" and ?r = "Range (page_of (last_offset pl)) e"
  define k where "k = new_key (plan_readers pl)"
  define news where "news = map (\<lambda>po. (po, k)) (page_steps (page_of ?L) e)"
  define pl' where "pl' = pl\<lparr>read_jobs := read_jobs pl @ [ReadAndCopy ?r ?L n k], new_pages := new_pages pl @ news,
    plan_readers := bt_insert k ?r (plan_readers pl), plan_keys := plan_keys pl @ [k], read_left := read_left pl - n\<rparr>"
  have run: "schedule_read new_key page_size ?r n pl = Inr pl'"
    by (simp add: schedule_read_def round_down_eq page_of_def [symmetric] page_of_self new_read_def pl'_def k_def news_def Let_def)
  have pos: "plan_position offset stop len pl" and jobs: "\<forall>j \<in> set (read_jobs pl). job_ok offset end_offset pl j"
    and cov: "plan_covers st offset end_offset pl" and new: "plan_new st pl" and keyed: "plan_keyed st pl"
    using assms(2) by (simp_all add: plan_inv_def)
  have L: "offset \<le> ?L" "?L + read_left pl = stop" "?L + n \<le> lst" "?L + n \<le> stop"
    using pos assms(8-11) by (auto simp: plan_position_def)
  have k: "bt_get (plan_readers pl) k = None" "k \<noteq> present" using assms(1) by (simp_all add: slab_law_def k_def)
  have k_new: "k \<notin> set (plan_keys pl)" "bt_get (mb_readers st) k = None" using keyed k(1) by (auto simp: plan_keyed_def)
  have news_get: "map_of news q = (if page_size dvd q \<and> page_of ?L \<le> q \<and> q < e then Some k else None)" for q
    by (simp add: news_def map_of_const page_steps_set)
  have old_new: "q < page_of ?L" if "q \<in> fst ` set (new_pages pl)" for q
  proof -
    have "page_size dvd ?L" "q + page_size \<le> ?L" using that pos new by (auto simp: plan_position_def plan_new_def)
    then show ?thesis using page_of_self page_size_pos(1) by (metis le_trans less_add_same_cancel1 less_le_trans)
  qed
  have get': "map_of (new_pages pl @ news) q =
      (case map_of (new_pages pl) q of Some k \<Rightarrow> Some k | None \<Rightarrow> map_of news q)" for q
    by (simp add: map_add_def map_of_append split: option.splits)
  have keep: "map_of (new_pages pl) q = Some k' \<Longrightarrow> map_of (new_pages pl @ news) q = Some k'" for q k'
    unfolding get' by simp
  have readers': "bt_get (plan_readers pl') k' = (if k' = k then Some ?r else bt_get (plan_readers pl) k')" for k'
    by (simp add: pl'_def)
  have range_new: "map_of (new_pages pl @ news) (page_of p) = Some k \<and> page_of ?L \<le> page_of p \<and> page_of p < e"
    if p: "?L \<le> p" "p < ?L + n" "p < end_offset" for p
  proof -
    have le: "page_of ?L \<le> page_of p" using p(1) by (rule page_of_mono)
    moreover have "page_of p < e" using p assms(10) page_of_less [of p e] by auto
    moreover have "map_of (new_pages pl) (page_of p) = None"
      using old_new [of "page_of p"] le by (fastforce simp: map_of_eq_None_iff)
    ultimately show ?thesis unfolding get' by (simp add: news_get)
  qed
  have "job_ok offset end_offset pl' j" if "j \<in> set (read_jobs pl')" for j
  proof (cases "j \<in> set (read_jobs pl)")
    case True
    then have "job_ok offset end_offset pl j" using jobs by blast
    then show ?thesis
      using keep k(1) k_new by (auto simp: job_ok_def pl'_def split: read_job.splits)
  next
    case False
    then have "j = ReadAndCopy ?r ?L n k" using that by (auto simp: pl'_def)
    then show ?thesis
      using range_new L pos assms(5) by (auto simp: job_ok_def pl'_def plan_position_def)
  qed
  moreover have "plan_position offset stop len (pl'\<lparr>last_offset := lst\<rparr>)"
    using pos L assms(9-13) by (auto simp: plan_position_def pl'_def)
  moreover have "plan_covers st offset end_offset (pl'\<lparr>last_offset := lst\<rparr>)"
  proof -
    have "is_present st (page_of p) \<and> read_out pl ! (p - offset) = mb_buf st ! p \<or> (\<exists>j \<in> set (read_jobs pl'). job_covers j p)"
      if p: "offset \<le> p" "p < lst" "p < end_offset" for p
    proof (cases "p < ?L")
      case True
      then show ?thesis using cov p by (auto simp: plan_covers_def pl'_def)
    next
      case False
      then have "p < ?L + n" using p assms(3,11) L by auto
      then show ?thesis using False by (auto simp: pl'_def job_covers_def)
    qed
    then show ?thesis by (simp add: plan_covers_def pl'_def)
  qed
  moreover have "plan_new st (pl'\<lparr>last_offset := lst\<rparr>)"
  proof -
    have "distinct (map fst (new_pages pl @ news))"
    proof -
      have "set (map fst (new_pages pl)) \<inter> set (map fst news) = {}"
        using old_new page_steps_set [of "page_of ?L" e] by (fastforce simp: news_def image_image)
      then show ?thesis using new page_steps_distinct [of "page_of ?L" e] by (simp add: plan_new_def news_def comp_def)
    qed
    moreover have "page_size dvd q \<and> q < length (mb_buf st) \<and> q + page_size \<le> lst \<and> bt_get (mb_pages st) q = None \<and>
        k' \<in> set (plan_keys pl') \<and> (\<exists>r. bt_get (plan_readers pl') k' = Some r \<and> rstart r \<le> q \<and> q < rend r)"
      if "(q, k') \<in> set (new_pages pl @ news)" for q k'
    proof (cases "(q, k') \<in> set (new_pages pl)")
      case True
      then have "page_size dvd q \<and> q < length (mb_buf st) \<and> q + page_size \<le> ?L \<and> bt_get (mb_pages st) q = None \<and>
          k' \<in> set (plan_keys pl) \<and> (\<exists>r. bt_get (plan_readers pl) k' = Some r \<and> rstart r \<le> q \<and> q < rend r)"
        using new by (auto simp: plan_new_def)
      then show ?thesis using L(3) k(1) k_new by (auto simp: pl'_def)
    next
      case False
      then have q: "page_size dvd q" "page_of ?L \<le> q" "q < e" "k' = k"
        using that page_steps_set [of "page_of ?L" e] by (auto simp: news_def)
      then show ?thesis using none [of q] assms(4,6,13) aligned_less [of q e] by (auto simp: pl'_def)
    qed
    moreover have "new_pages pl' = new_pages pl @ news" by (simp add: pl'_def)
    ultimately have "distinct (map fst (new_pages pl')) \<and>
        (\<forall>(q, k') \<in> set (new_pages pl'). page_size dvd q \<and> q < length (mb_buf st) \<and> q + page_size \<le> lst \<and>
          bt_get (mb_pages st) q = None \<and> k' \<in> set (plan_keys pl') \<and>
          (\<exists>r. bt_get (plan_readers pl') k' = Some r \<and> rstart r \<le> q \<and> q < rend r))"
      by auto
    then show ?thesis by (simp add: plan_new_def)
  qed
  moreover have "plan_keyed st (pl'\<lparr>last_offset := lst\<rparr>)"
  proof -
    have "\<forall>(k', r) \<in> set (plan_readers pl'). k' \<noteq> present \<and> page_size dvd rstart r \<and> page_size dvd rend r"
      using keyed k(2) assms(4) set_bt_insert [of k ?r "plan_readers pl"] by (fastforce simp: plan_keyed_def pl'_def)
    moreover have "\<forall>k' \<in> set (plan_keys pl'). bt_get (mb_readers st) k' = None \<and> bt_get (plan_readers pl') k' \<noteq> None \<and>
        (\<exists>r at n. ReadAndCopy r at n k' \<in> set (read_jobs pl'))"
      using keyed k_new(2) by (auto simp: plan_keyed_def pl'_def)
    ultimately show ?thesis using keyed k_new by (auto simp: plan_keyed_def pl'_def)
  qed
  moreover have "(\<exists>j \<in> set (read_jobs pl'). is_page_job j) \<longrightarrow> (\<exists>q k. bt_get (mb_pages st) q = Some k \<and> k \<noteq> present)"
    using assms(2) by (auto simp: plan_inv_def pl'_def is_page_job_def split: read_job.splits)
  moreover have "job_ok offset end_offset (pl'\<lparr>last_offset := lst\<rparr>) j = job_ok offset end_offset pl' j" for j
    by (cases j) (simp_all add: job_ok_def)
  moreover have "last_offset pl' = ?L" by (simp add: pl'_def)
  ultimately show ?thesis using run by (auto simp: plan_inv_def)
qed

lemma copy_to_nth:
  assumes "offset \<le> at" "at - offset + len \<le> length out"
  shows "length (copy_to offset buf at len out) = length out"
    "i < length out \<Longrightarrow> copy_to offset buf at len out ! i =
      (if at \<le> i + offset \<and> i + offset < at + len \<and> i + offset < length buf then buf ! (i + offset) else out ! i)"
proof -
  let ?seg = "take len (drop (at - offset) out)"
  have seg: "length ?seg = len" using assms(2) by simp
  then have len: "length (snd (copy_out buf at ?seg)) = len" by (simp add: copy_out_def Let_def)
  then show "length (copy_to offset buf at len out) = length out" using assms(2) by (simp add: copy_to_def)
  assume i: "i < length out"
  have "snd (copy_out buf at ?seg) ! j = (if at + j < length buf then buf ! (at + j) else out ! (at - offset + j))" if "j < len" for j
    using that seg assms(2) by (auto simp: copy_out_def Let_def nth_append)
  then show "copy_to offset buf at len out ! i =
      (if at \<le> i + offset \<and> i + offset < at + len \<and> i + offset < length buf then buf ! (i + offset) else out ! i)"
    unfolding copy_to_def using assms i len by (subst splice_nth) auto
qed

text \<open>A page that is in the buffer: its bytes are copied, or a job waits for them.\<close>

definition take_page :: "u8 list \<Rightarrow> nat \<Rightarrow> nat \<Rightarrow> nat \<Rightarrow> read_plan \<Rightarrow> read_plan" where
  "take_page buf offset po k pl =
     (let n = min (po + page_size - last_offset pl) (read_left pl) in
      (if k \<noteq> present
       then pl\<lparr>read_jobs := read_jobs pl @ [ReadPage po (last_offset pl) n]\<rparr>
       else pl\<lparr>read_out := copy_to offset buf (last_offset pl) n (read_out pl)\<rparr>)
      \<lparr>read_left := read_left pl - n, last_offset := po + page_size\<rparr>)"

lemma take_page_simps [simp]:
  "new_pages (take_page buf offset po k pl) = new_pages pl" "plan_readers (take_page buf offset po k pl) = plan_readers pl"
  "plan_keys (take_page buf offset po k pl) = plan_keys pl" "last_offset (take_page buf offset po k pl) = po + page_size"
  "read_left (take_page buf offset po k pl) = read_left pl - min (po + page_size - last_offset pl) (read_left pl)"
  by (simp_all add: take_page_def Let_def)

lemma take_page_jobs:
  "read_jobs (take_page buf offset po k pl) =
     read_jobs pl @ (if k \<noteq> present then [ReadPage po (last_offset pl) (min (po + page_size - last_offset pl) (read_left pl))] else [])"
  "read_out (take_page buf offset po k pl) =
     (if k \<noteq> present then read_out pl
      else copy_to offset buf (last_offset pl) (min (po + page_size - last_offset pl) (read_left pl)) (read_out pl))"
  by (simp_all add: take_page_def Let_def)

lemma take_page_inv:
  assumes "plan_inv st offset end_offset stop len pl" "page_size dvd po" "po \<le> last_offset pl" "last_offset pl < po + page_size"
    "bt_get (mb_pages st) po = Some k" "end_offset \<le> stop" "stop \<le> length (mb_buf st)" "po < end_offset"
  shows "plan_inv st offset end_offset stop len (take_page (mb_buf st) offset po k pl)"
proof -
  let ?L = "last_offset pl" and ?n = "min (po + page_size - last_offset pl) (read_left pl)"
  let ?pl = "take_page (mb_buf st) offset po k pl"
  have pos: "plan_position offset stop len pl" and jobs: "\<forall>j \<in> set (read_jobs pl). job_ok offset end_offset pl j"
    and cov: "plan_covers st offset end_offset pl" and new: "plan_new st pl" and keyed: "plan_keyed st pl"
    using assms(1) by (simp_all add: plan_inv_def)
  have "?L = po" if "page_size dvd ?L" using that assms(2-4) aligned_less [of po ?L] by (cases "po < ?L") auto
  then have room: "offset \<le> ?L" "?L - offset + ?n \<le> length (read_out pl)"
    using pos assms(6,8) by (auto simp: plan_position_def)
  have out: "length (read_out ?pl) = length (read_out pl)" using room by (simp add: take_page_jobs copy_to_nth(1))
  have "plan_position offset stop len ?pl"
    using pos assms(2-4) out by (auto simp: plan_position_def)
  moreover have "\<forall>j \<in> set (read_jobs ?pl). job_ok offset end_offset ?pl j"
  proof
    fix j
    assume "j \<in> set (read_jobs ?pl)"
    then consider "j \<in> set (read_jobs pl)" | n where "j = ReadPage po ?L n" by (auto simp: take_page_jobs split: if_splits)
    then show "job_ok offset end_offset ?pl j"
    proof cases
      case 1
      then have "job_ok offset end_offset pl j" using jobs by blast
      then show ?thesis unfolding job_ok_def take_page_simps out .
    qed (simp add: job_ok_def)
  qed
  moreover have "plan_covers st offset end_offset ?pl"
  proof -
    have "is_present st (page_of p) \<and> read_out ?pl ! (p - offset) = mb_buf st ! p \<or> (\<exists>j \<in> set (read_jobs ?pl). job_covers j p)"
      if p: "offset \<le> p" "p < po + page_size" "p < end_offset" for p
    proof (cases "p < ?L")
      case True
      have "p - offset < length (read_out pl)" using True room p(1) pos by (auto simp: plan_position_def)
      then have "read_out ?pl ! (p - offset) = read_out pl ! (p - offset)"
        using True room p(1) by (simp add: take_page_jobs copy_to_nth(2))
      with cov True p show ?thesis by (auto simp: plan_covers_def take_page_jobs)
    next
      case False
      have pg: "page_of p = po" using False p(2) assms(2,3) by (intro page_of_eq) auto
      have in_n: "p < ?L + ?n" using pos p assms(4,6) False by (auto simp: plan_position_def)
      show ?thesis
      proof (cases "k = present")
        case True
        have "p - offset < length (read_out pl)" using in_n room p(1) by linarith
        then have "read_out ?pl ! (p - offset) = mb_buf st ! p"
          using True False in_n p assms(6,7) room by (simp add: take_page_jobs copy_to_nth(2))
        then show ?thesis using True pg assms(5) by (simp add: is_present_def)
      next
        case other: False
        have "job_covers (ReadPage po ?L ?n) p" using False in_n by (simp add: job_covers_def)
        then show ?thesis using other by (simp add: take_page_jobs)
      qed
    qed
    then show ?thesis by (simp add: plan_covers_def)
  qed
  moreover have "plan_new st ?pl" using new assms(4) by (fastforce simp: plan_new_def)
  moreover have "plan_keyed st ?pl" using keyed by (auto simp: plan_keyed_def take_page_jobs)
  moreover have "(\<exists>j \<in> set (read_jobs ?pl). is_page_job j) \<longrightarrow> (\<exists>q k. bt_get (mb_pages st) q = Some k \<and> k \<noteq> present)"
    using assms(1,5) by (auto simp: plan_inv_def take_page_jobs)
  ultimately show ?thesis by (simp add: plan_inv_def)
qed

lemma plan_gap_inv:
  assumes "slab_law new_key" "plan_inv st offset end_offset stop len pl" "end_offset \<le> stop" "page_size dvd po"
    "last_offset pl < po" "po < end_offset" "po \<le> length (mb_buf st)"
    "\<And>q. page_of (last_offset pl) \<le> q \<Longrightarrow> q < po \<Longrightarrow> bt_get (mb_pages st) q = None"
  shows "\<exists>pl'. plan_gap new_key page_size po pl = Inr pl' \<and> plan_inv st offset end_offset stop len pl' \<and> last_offset pl' = po"
proof -
  let ?L = "last_offset pl"
  have left: "?L + read_left pl = stop" using assms(2,3,5,6) by (auto simp: plan_inv_def plan_position_def)
  then have "po - ?L \<le> read_left pl" using assms(3,6) by linarith
  moreover have "page_of ?L < po" using assms(5) by (rule page_of_less)
  ultimately obtain pl' where pl': "schedule_read new_key page_size (Range (page_of ?L) po) (po - ?L) pl = Inr pl'"
    "plan_inv st offset end_offset stop len (pl'\<lparr>last_offset := po\<rparr>)"
    using schedule_read_inv [OF assms(1-4), of "po - ?L" po] assms(4-8) left by auto
  then show ?thesis using left assms(3,6) by (auto simp: plan_gap_def round_down_eq page_of_def [symmetric])
qed

lemma plan_pages_inv:
  assumes "slab_law new_key" "plan_inv st offset end_offset stop len pl" "end_offset \<le> stop" "stop \<le> length (mb_buf st)" "mb_wf st"
    and "bt_ok ps" "\<And>q k. (q, k) \<in> set ps \<Longrightarrow> bt_get (mb_pages st) q = Some k"
    and "\<And>q. page_of offset \<le> q \<Longrightarrow> bt_get (mb_pages st) q \<noteq> None \<Longrightarrow> q \<notin> fst ` set ps \<Longrightarrow> q + page_size \<le> last_offset pl"
  shows "\<exists>limit pl'. plan_pages new_key page_size (mb_buf st) offset end_offset ps pl = Inr (limit, pl') \<and>
    plan_inv st offset end_offset stop len pl' \<and>
    (\<forall>q. page_of offset \<le> q \<and> bt_get (mb_pages st) q \<noteq> None \<and> (case limit of None \<Rightarrow> True | Some l \<Rightarrow> q < l) \<longrightarrow> q + page_size \<le> last_offset pl') \<and>
    (case limit of None \<Rightarrow> True | Some l \<Rightarrow> end_offset \<le> l \<and> page_size dvd l \<and> l < length (mb_buf st))"
  using assms(2,6-8)
proof (induction ps arbitrary: pl)
  case Nil
  then show ?case by auto
next
  case (Cons e ps)
  obtain po k where e: "e = (po, k)" by fastforce
  let ?L = "last_offset pl"
  have po: "bt_get (mb_pages st) po = Some k" using Cons.prems(3) e by simp
  note al = mb_wf_pages [OF assms(5) po]
  have later: "po < q" if "q \<in> fst ` set ps" for q using Cons.prems(2) that e by (auto simp: bt_ok_def)
  have ok: "bt_ok ps" using Cons.prems(2) by (simp add: bt_ok_def)
  have before: "q + page_size \<le> ?L" if "page_of offset \<le> q" "bt_get (mb_pages st) q \<noteq> None" "q < po" for q
    using Cons.prems(4) [OF that(1,2)] later [of q] that(3) e by auto
  have L: "offset \<le> ?L" using Cons.prems(1) by (simp add: plan_inv_def plan_position_def)
  show ?case
  proof (cases "po + page_size \<le> ?L")
    case True
    have "q + page_size \<le> ?L" if "page_of offset \<le> q" "bt_get (mb_pages st) q \<noteq> None" "q \<notin> fst ` set ps" for q
      using Cons.prems(4) [OF that(1,2)] that(3) True e by (cases "q = po") auto
    then show ?thesis using Cons.IH [OF Cons.prems(1) ok] Cons.prems(3) True e by simp
  next
    case notyet: False
    show ?thesis
    proof (cases "po \<ge> end_offset")
      case True
      then show ?thesis using notyet e Cons.prems(1) al before by (intro exI [of _ "Some po"] exI [of _ pl]) auto
    next
      case False
      then have lt: "po < end_offset" by simp
      obtain pl1 where pl1: "(if po > ?L then plan_gap new_key page_size po pl else Inr pl) = Inr pl1"
        "plan_inv st offset end_offset stop len pl1" "po \<le> last_offset pl1" "last_offset pl1 < po + page_size"
      proof (cases "po > ?L")
        case True
        have "bt_get (mb_pages st) q = None" if "page_of ?L \<le> q" "q < po" for q
        proof (rule ccontr)
          assume "bt_get (mb_pages st) q \<noteq> None"
          moreover have "page_of offset \<le> q" using page_of_mono [OF L] that(1) by simp
          ultimately have "q + page_size \<le> ?L" using before that(2) by simp
          then show False using page_of_lt [of ?L] that(1) by linarith
        qed
        from plan_gap_inv [OF assms(1) Cons.prems(1) assms(3) al(1) True lt less_imp_le [OF al(2)] this] obtain pl1 where
          "plan_gap new_key page_size po pl = Inr pl1" "plan_inv st offset end_offset stop len pl1" "last_offset pl1 = po" by blast
        then show ?thesis using that [of pl1] True by simp
      next
        case False
        then show ?thesis using that Cons.prems(1) notyet by simp
      qed
      let ?pl = "take_page (mb_buf st) offset po k pl1"
      have inv2: "plan_inv st offset end_offset stop len ?pl"
        using take_page_inv [OF pl1(2) al(1) pl1(3,4) po assms(3,4) lt] .
      have done_up: "q + page_size \<le> last_offset ?pl" if q: "page_of offset \<le> q" "bt_get (mb_pages st) q \<noteq> None" "q \<notin> fst ` set ps" for q
        using Cons.prems(4) [OF q(1,2)] q(3) notyet e by (cases "q = po") auto
      have ih: "\<exists>limit pl'. plan_pages new_key page_size (mb_buf st) offset end_offset ps ?pl = Inr (limit, pl') \<and>
        plan_inv st offset end_offset stop len pl' \<and>
        (\<forall>q. page_of offset \<le> q \<and> bt_get (mb_pages st) q \<noteq> None \<and> (case limit of None \<Rightarrow> True | Some l \<Rightarrow> q < l) \<longrightarrow> q + page_size \<le> last_offset pl') \<and>
        (case limit of None \<Rightarrow> True | Some l \<Rightarrow> end_offset \<le> l \<and> page_size dvd l \<and> l < length (mb_buf st))"
        using Cons.prems(3) done_up by (intro Cons.IH [OF inv2 ok]) auto
      have "plan_pages new_key page_size (mb_buf st) offset end_offset (e # ps) pl =
          plan_pages new_key page_size (mb_buf st) offset end_offset ps ?pl"
        using notyet lt pl1(1) by (simp add: e take_page_def Let_def)
      with ih show ?thesis by simp
    qed
  qed
qed

lemma align_range_page:
  assumes "e + (page_size - 1) \<le> u64_max" "page_of s + read_size \<le> u64_max" "page_of s \<le> e"
  shows "\<exists>e'. align_range (Range s e) page_size limit = Inr (Range (page_of s) (min e' limit)) \<and> page_size dvd e' \<and> e \<le> e'"
proof -
  let ?e = "page_size * page_count e"
  let ?e' = "if ?e - page_of s < read_size then page_of s + read_size else ?e"
  have ge: "e \<le> ?e" by (rule page_count_ge)
  then have "page_of s \<le> ?e" using assms(3) by simp
  then have "align_range (Range s e) page_size limit = Inr (Range (page_of s) (min ?e' limit))"
    using assms(1,2) by (auto simp: align_range_def round_down_eq round_up_page page_of_def [symmetric] u64_sub_def u64_add_def min_def)
  moreover have "page_size dvd ?e'" by (auto simp: read_size_def page_size_def page_of_def minus_mod_eq_mult_div intro!: dvd_add)
  moreover have "e \<le> ?e'" using ge by auto
  ultimately show ?thesis by blast
qed

lemma plan_tail_inv:
  assumes "slab_law new_key" "plan_inv st offset end_offset stop len pl" "end_offset \<le> stop" "stop \<le> length (mb_buf st)" "mb_wf st"
    and "offset < end_offset" "stop \<le> page_size * page_count end_offset" "end_offset + read_size \<le> u64_max"
    and "\<And>q. page_of offset \<le> q \<Longrightarrow> bt_get (mb_pages st) q \<noteq> None \<Longrightarrow> q < limit \<Longrightarrow> q + page_size \<le> last_offset pl"
    and "end_offset \<le> limit" "page_size dvd limit" "limit \<le> length (mb_buf st)"
  shows "\<exists>pl' lst. plan_tail new_key page_size (page_of offset) offset end_offset limit pl = Inr pl' \<and>
    plan_inv st offset end_offset stop len (pl'\<lparr>last_offset := lst\<rparr>) \<and> end_offset \<le> lst"
proof (cases "read_left pl = 0")
  case True
  moreover from this have "stop \<le> last_offset pl" using assms(2) by (auto simp: plan_inv_def plan_position_def)
  ultimately show ?thesis using assms(2,3) by (intro exI [of _ pl] exI [of _ "last_offset pl"]) (simp add: plan_tail_def)
next
  case False
  let ?L = "last_offset pl"
  let ?s = "if ?L = offset then page_of offset else ?L"
  have pos: "offset \<le> ?L" "?L + read_left pl = stop" "?L = offset \<or> page_size dvd ?L"
    using assms(2) False by (auto simp: plan_inv_def plan_position_def)
  have lt: "?L < end_offset"
  proof (rule ccontr)
    assume "\<not> ?L < end_offset"
    then have "page_size dvd ?L" "end_offset \<le> ?L" using pos(3) assms(6) by auto
    then have "page_size * page_count end_offset \<le> ?L"
      by (rule round_up_least)
    then show False using assms(7) pos(2) False by simp
  qed
  have s: "page_of ?s = page_of ?L" using pos(3) by (auto simp: page_of_self)
  have "page_of ?L \<le> end_offset" using lt page_of_less [of ?L end_offset] by simp
  moreover have "page_of ?L + read_size \<le> u64_max" using calculation assms(8) by simp
  moreover have "end_offset + (page_size - 1) \<le> u64_max" using assms(8) by (simp add: read_size_def page_size_def)
  ultimately obtain e where e: "align_range (Range ?s end_offset) page_size limit = Inr (Range (page_of ?L) (min e limit))"
    "page_size dvd e" "end_offset \<le> e"
    using align_range_page [of end_offset ?s limit] s by auto
  have none: "bt_get (mb_pages st) q = None" if "page_of ?L \<le> q" "q < min e limit" for q
  proof (rule ccontr)
    assume "bt_get (mb_pages st) q \<noteq> None"
    moreover have "page_of offset \<le> q" using page_of_mono [OF pos(1)] that(1) by simp
    ultimately have "q + page_size \<le> ?L" using assms(9) that(2) by simp
    then show False using page_of_lt [of ?L] that(1) by linarith
  qed
  have "page_of ?L < min e limit" using page_of_less [OF lt] e(3) assms(10) by simp
  then have "\<exists>pl'. schedule_read new_key page_size (Range (page_of ?L) (min e limit)) (read_left pl) pl = Inr pl' \<and>
      plan_inv st offset end_offset stop len (pl'\<lparr>last_offset := length (mb_buf st)\<rparr>) \<and> last_offset pl' = ?L"
    using False none assms(4,5,10-12) e pos
    by (intro schedule_read_inv [OF assms(1-3)]) (auto simp: min_def mb_wf_def)
  then show ?thesis using e(1) False assms(3,4) by (fastforce simp: plan_tail_def)
qed

lemma push_keys:
  assumes "\<forall>rk \<in> set rest. rk_node rk \<noteq> node"
  shows "fold (push_key node) ks (st\<lparr>mb_read_keys := \<lparr>rk_node = node, rk_keys = ks0, rk_end_offset = e\<rparr> # rest\<rparr>) =
    st\<lparr>mb_read_keys := \<lparr>rk_node = node, rk_keys = ks0 @ ks, rk_end_offset = e\<rparr> # rest\<rparr>"
proof (induction ks arbitrary: ks0)
  case (Cons k ks)
  have "map (\<lambda>rk. if rk_node rk = node then rk\<lparr>rk_keys := rk_keys rk @ [k]\<rparr> else rk) rest = rest"
    using assms by (simp add: map_idI)
  then show ?case using Cons.IH [of "ks0 @ [k]"] by (simp add: push_key_def)
qed simp

text \<open>The end of the bytes that matter in a read, and the end of those it may touch.\<close>

definition read_end :: "nat \<Rightarrow> nat \<Rightarrow> mem_buffer \<Rightarrow> nat" where
  "read_end offset len st = min (offset + len) (mb_size st)"

definition read_stop :: "nat \<Rightarrow> nat \<Rightarrow> mem_buffer \<Rightarrow> nat" where
  "read_stop offset len st = min (offset + len) (page_size * page_count (mb_size st))"

lemma read_begin_spec:
  assumes "slab_law new_key" "mb_wf st" "source_block_size \<le> page_size" "offset < mb_size st" "0 < length out"
    "mb_size st + read_size \<le> u64_max" "\<forall>rk \<in> set (mb_read_keys st). rk_node rk \<noteq> node"
  shows "\<exists>pl lst ps. read_begin new_key source_block_size node offset out st =
      Inr (Some (read_jobs pl, read_out pl),
        st\<lparr>mb_pages := ps, mb_readers := plan_readers pl,
           mb_read_keys := \<lparr>rk_node = node, rk_keys = plan_keys pl, rk_end_offset = read_end offset (length out) st\<rparr> # mb_read_keys st\<rparr>) \<and>
    plan_inv st offset (read_end offset (length out) st) (read_stop offset (length out) st) (length out) (pl\<lparr>last_offset := lst\<rparr>) \<and>
    read_end offset (length out) st \<le> lst \<and>
    (\<forall>q. bt_get ps q = (case map_of (new_pages pl) q of Some k \<Rightarrow> Some k | None \<Rightarrow> bt_get (mb_pages st) q)) \<and> bt_ok ps"
proof -
  let ?len = "length out" and ?s = "mb_size st"
  let ?a = "page_size * page_count ?s"
  let ?e = "read_end offset ?len st" and ?stop = "read_stop offset ?len st"
  have a: "?s \<le> ?a" "length (mb_buf st) = ?a" "?s + (page_size - 1) \<le> u64_max" using assms(2) page_count_ge by (auto simp: mb_wf_def)
  let ?pl0 = "\<lparr>last_offset = offset, read_left = ?stop - offset, read_jobs = [], new_pages = [], plan_readers = mb_readers st,
    plan_keys = [], read_out = out\<rparr>"
  let ?ps = "filter (\<lambda>p. fst p \<ge> page_of offset) (mb_pages st)"
  have ends: "offset < ?e" "?e \<le> ?stop" "?stop \<le> ?a" "?stop \<le> page_size * page_count ?e" "?e \<le> ?s"
    using assms(4,5) a(1) page_count_ge [of "offset + ?len"]
    by (auto simp: read_end_def read_stop_def min_def)
  have inv0: "plan_inv st offset ?e ?stop ?len ?pl0"
    using assms(2) ends by (auto simp: plan_inv_def plan_position_def plan_covers_def plan_new_def plan_keyed_def mb_wf_def read_stop_def)
  have okps: "bt_ok ?ps" using assms(2) by (simp add: mb_wf_def bt_ok_filter)
  have in_ps: "bt_get (mb_pages st) q = Some k" if "(q, k) \<in> set ?ps" for q k
    using that assms(2) by (simp add: mb_wf_def bt_ok_distinct)
  have ps_all: "q + page_size \<le> last_offset ?pl0"
    if "page_of offset \<le> q" "bt_get (mb_pages st) q \<noteq> None" "q \<notin> fst ` set ?ps" for q
  proof -
    have "q \<in> fst ` set (mb_pages st)" using that(2) by (simp add: bt_keys)
    then show ?thesis using that(1,3) by auto
  qed
  obtain limit pl1 where p1: "plan_pages new_key page_size (mb_buf st) offset ?e ?ps ?pl0 = Inr (limit, pl1)"
    "plan_inv st offset ?e ?stop ?len pl1"
    "\<forall>q. page_of offset \<le> q \<and> bt_get (mb_pages st) q \<noteq> None \<and> (case limit of None \<Rightarrow> True | Some l \<Rightarrow> q < l) \<longrightarrow> q + page_size \<le> last_offset pl1"
    "case limit of None \<Rightarrow> True | Some l \<Rightarrow> ?e \<le> l \<and> page_size dvd l \<and> l < length (mb_buf st)"
    using plan_pages_inv [OF assms(1) inv0 ends(2) _ assms(2) okps in_ps ps_all] ends(3) a(2) by auto
  let ?limit = "case limit of None \<Rightarrow> length (mb_buf st) | Some l \<Rightarrow> l"
  have lim: "?e \<le> ?limit" "page_size dvd ?limit" "?limit \<le> length (mb_buf st)"
    using p1(4) ends a by (auto split: option.splits)
  have before: "q + page_size \<le> last_offset pl1" if "page_of offset \<le> q" "bt_get (mb_pages st) q \<noteq> None" "q < ?limit" for q
    using p1(3) that by (cases limit) auto
  have sz: "?stop \<le> length (mb_buf st)" "?e + read_size \<le> u64_max" using ends a assms(6) by auto
  obtain pl2 lst where p2: "plan_tail new_key page_size (page_of offset) offset ?e ?limit pl1 = Inr pl2"
    "plan_inv st offset ?e ?stop ?len (pl2\<lparr>last_offset := lst\<rparr>)" "?e \<le> lst"
    using plan_tail_inv [OF assms(1) p1(2) ends(2) sz(1) assms(2) ends(1,4) sz(2) before lim] by blast
  have new: "distinct (map fst (new_pages pl2))" "\<forall>q \<in> fst ` set (new_pages pl2). bt_get (mb_pages st) q = None"
    using p2(2) by (auto simp: plan_inv_def plan_new_def)
  obtain ps where ps: "insert_pages (new_pages pl2) (mb_pages st) = Inr ps"
    "\<forall>q. bt_get ps q = (case map_of (new_pages pl2) q of Some k \<Rightarrow> Some k | None \<Rightarrow> bt_get (mb_pages st) q)" "bt_ok ps"
    using insert_pages_spec [OF new] assms(2) by (auto simp: mb_wf_def)
  have short: "(if ?s - offset < ?len then ?s else offset + ?len) = ?e"
    "(if ?s - offset < ?len \<and> ?a - offset < ?len then ?a - offset else ?len) = ?stop - offset"
    using assms(4) a(1) by (auto simp: read_end_def read_stop_def)
  have "max source_block_size page_size = page_size" using assms(3) by simp
  then have "read_begin new_key source_block_size node offset out st =
      Inr (Some (read_jobs pl2, read_out pl2),
        (fold (push_key node) (plan_keys pl2) (add_to_list node ?e st))\<lparr>mb_pages := ps, mb_readers := plan_readers pl2\<rparr>)"
    using assms(4) a(3) p1(1) p2(1) ps(1) short
    by (simp add: read_begin_def round_up_page round_down_eq page_of_def [symmetric] Let_def)
  moreover have "fold (push_key node) (plan_keys pl2) (add_to_list node ?e st) =
      st\<lparr>mb_read_keys := \<lparr>rk_node = node, rk_keys = plan_keys pl2, rk_end_offset = ?e\<rparr> # mb_read_keys st\<rparr>"
    using push_keys [OF assms(7), where ks = "plan_keys pl2" and st = st and ks0 = "[]" and e = ?e] by (simp add: add_to_list_def)
  ultimately have "read_begin new_key source_block_size node offset out st =
      Inr (Some (read_jobs pl2, read_out pl2), st\<lparr>mb_pages := ps, mb_readers := plan_readers pl2,
        mb_read_keys := \<lparr>rk_node = node, rk_keys = plan_keys pl2, rk_end_offset = ?e\<rparr> # mb_read_keys st\<rparr>)"
    by simp
  then show ?thesis using p2(2,3) ps(2,3) by blast
qed

section \<open>Carrying out a plan\<close>

text \<open>What a finished plan says.\<close>

lemma planD:
  assumes "plan_inv st offset end_offset stop len (pl\<lparr>last_offset := lst\<rparr>)"
  shows "plan_position offset stop len (pl\<lparr>last_offset := lst\<rparr>)" "\<forall>j \<in> set (read_jobs pl). job_ok offset end_offset pl j"
    "plan_covers st offset end_offset (pl\<lparr>last_offset := lst\<rparr>)" "plan_keyed st pl"
    "(\<exists>j \<in> set (read_jobs pl). is_page_job j) \<longrightarrow> (\<exists>q k. bt_get (mb_pages st) q = Some k \<and> k \<noteq> present)"
proof -
  have "job_ok offset end_offset (pl\<lparr>last_offset := lst\<rparr>) j = job_ok offset end_offset pl j" for j
    by (cases j) (simp_all add: job_ok_def)
  moreover have "plan_keyed st (pl\<lparr>last_offset := lst\<rparr>) = plan_keyed st pl" by (simp add: plan_keyed_def)
  ultimately show "plan_position offset stop len (pl\<lparr>last_offset := lst\<rparr>)" "\<forall>j \<in> set (read_jobs pl). job_ok offset end_offset pl j"
    "plan_covers st offset end_offset (pl\<lparr>last_offset := lst\<rparr>)" "plan_keyed st pl"
    "(\<exists>j \<in> set (read_jobs pl). is_page_job j) \<longrightarrow> (\<exists>q k. bt_get (mb_pages st) q = Some k \<and> k \<noteq> present)"
    using assms by (simp_all add: plan_inv_def)
qed

text \<open>What the source promises: a read gives its bytes, and nothing but zeros is missing at the end.\<close>

definition source_law :: "(nat \<Rightarrow> u8) \<Rightarrow> (nat \<Rightarrow> nat \<Rightarrow> u8 list res) \<Rightarrow> bool" where
  "source_law src src_read =
     (\<forall>off n. \<exists>bs. src_read off n = Inr bs \<and> length bs \<le> n \<and> (\<forall>i < n. (bs @ replicate (n - length bs) 0) ! i = src (off + i)))"

lemma source_bytes_reads:
  assumes "source_law src src_read" "rstart r \<le> rend r"
  shows "\<exists>rb. source_bytes src_read r = Inr rb \<and> reads_source src r rb"
proof -
  let ?n = "rend r - rstart r"
  obtain bs where "src_read (rstart r) ?n = Inr bs" "length bs \<le> ?n"
    "\<forall>i < ?n. (bs @ replicate (?n - length bs) 0) ! i = src (rstart r + i)"
    using assms(1) unfolding source_law_def by blast
  then show ?thesis using assms(2) by (simp add: source_bytes_def u64_sub_def reads_source_def)
qed

definition job_reads :: "read_job list \<Rightarrow> nat \<Rightarrow> nat \<Rightarrow> bool" where
  "job_reads js q k = (\<exists>j \<in> set js. case j of ReadAndCopy r at n k' \<Rightarrow> k' = k \<and> rstart r \<le> q \<and> q < rend r | _ \<Rightarrow> False)"

lemma plan_newD:
  assumes "plan_inv st offset end_offset stop len (pl\<lparr>last_offset := lst\<rparr>)" "map_of (new_pages pl) q = Some k"
  shows "k \<noteq> present" "bt_get (mb_pages st) q = None" "job_reads (read_jobs pl) q k"
    "page_size dvd q \<and> q < length (mb_buf st)"
proof -
  note plan = planD [OF assms(1)]
  have "plan_new st (pl\<lparr>last_offset := lst\<rparr>)" using assms(1) by (simp add: plan_inv_def)
  then obtain r where new: "page_size dvd q" "q < length (mb_buf st)" "bt_get (mb_pages st) q = None" "k \<in> set (plan_keys pl)"
    "bt_get (plan_readers pl) k = Some r" "rstart r \<le> q" "q < rend r"
    using map_of_SomeD [OF assms(2)] by (auto simp: plan_new_def)
  then obtain r' at n where job: "ReadAndCopy r' at n k \<in> set (read_jobs pl)" using plan(4) by (auto simp: plan_keyed_def)
  then have "r' = r" using plan(2) new(5) by (auto simp: job_ok_def)
  with job new(6,7) show "job_reads (read_jobs pl) q k" by (auto simp: job_reads_def intro!: bexI [of _ "ReadAndCopy r' at n k"])
  show "k \<noteq> present" using plan(4) map_of_SomeD [OF new(5)] by (auto simp: plan_keyed_def)
  show "bt_get (mb_pages st) q = None" "page_size dvd q \<and> q < length (mb_buf st)" using new by simp_all
qed

text \<open>The state after the locked section of a read.\<close>

lemma plan_state_holds:
  assumes "mb_wf st" "holds_if c src f st" "plan_inv st offset end_offset stop len (pl\<lparr>last_offset := lst\<rparr>)"
    "\<forall>q. bt_get ps q = (case map_of (new_pages pl) q of Some k \<Rightarrow> Some k | None \<Rightarrow> bt_get (mb_pages st) q)" "bt_ok ps"
  shows "mb_wf (st\<lparr>mb_pages := ps, mb_readers := plan_readers pl, mb_read_keys := rks\<rparr>) \<and>
    holds_if c src f (st\<lparr>mb_pages := ps, mb_readers := plan_readers pl, mb_read_keys := rks\<rparr>)"
proof
  show "mb_wf (st\<lparr>mb_pages := ps, mb_readers := plan_readers pl, mb_read_keys := rks\<rparr>)"
  proof (rule mb_wf_readers [OF assms(1,5)])
    fix q k
    assume "bt_get ps q = Some k"
    then show "page_size dvd q \<and> q < length (mb_buf st)"
      using assms(4) mb_wf_pages [OF assms(1)] plan_newD(4) [OF assms(3)] by (auto split: option.splits)
  next
    fix k r
    assume "(k, r) \<in> set (plan_readers pl)"
    then show "k \<noteq> present \<and> page_size dvd rstart r \<and> page_size dvd rend r"
      using planD(4) [OF assms(3)] by (auto simp: plan_keyed_def)
  qed
  have "bt_get ps q = Some present \<longleftrightarrow> bt_get (mb_pages st) q = Some present" for q
    using assms(4) plan_newD(1,2) [OF assms(3), of q] by (cases "map_of (new_pages pl) q") auto
  then show "holds_if c src f (st\<lparr>mb_pages := ps, mb_readers := plan_readers pl, mb_read_keys := rks\<rparr>)"
    by (rule holds_pages [OF assms(2)])
qed

lemma run_jobs_spec:
  assumes "source_law src src_read" "\<forall>j \<in> set js. job_ok offset end_offset pl j \<and> \<not> is_page_job j"
    and "mb_wf st" "holds src f st" "end_offset \<le> mb_size st" "\<forall>p. mb_size st \<le> p \<and> p < length (mb_buf st) \<longrightarrow> src p = 0"
    and "mb_readers st = plan_readers pl" "length out = length (read_out pl)"
    and "\<forall>q k. map_of (new_pages pl) q = Some k \<longrightarrow> bt_get (mb_pages st) q \<in> {Some k, Some present}"
  shows "\<exists>out' st'. run_jobs src_read offset js out st = Inr (out', st') \<and> mb_wf st' \<and> holds src f st' \<and> mb_size st' = mb_size st \<and>
    length out' = length out \<and> mb_readers st' = mb_readers st \<and> mb_read_keys st' = mb_read_keys st \<and>
    (\<forall>p. offset \<le> p \<and> p < end_offset \<and> p - offset < length out \<and> (out ! (p - offset) = f p \<or> (\<exists>j \<in> set js. job_covers j p)) \<longrightarrow>
       out' ! (p - offset) = f p) \<and>
    (\<forall>q. bt_get (mb_pages st') q = map_option (\<lambda>k. if job_reads js q k then present else k) (bt_get (mb_pages st) q))"
  using assms(2-)
proof (induction js arbitrary: out st)
  case Nil
  then show ?case by (simp add: job_reads_def option.map_ident)
next
  case (Cons j js)
  obtain r at n k where j: "j = ReadAndCopy r at n k" using Cons.prems(1) by (cases j) (auto simp: is_page_job_def)
  have jok: "offset \<le> at" "at - offset + n \<le> length out" "bt_get (mb_readers st) k = Some r" "rstart r \<le> rend r"
    "\<And>p. at \<le> p \<Longrightarrow> p < at + n \<Longrightarrow> p < end_offset \<Longrightarrow>
       rstart r \<le> page_of p \<and> page_of p < rend r \<and> map_of (new_pages pl) (page_of p) = Some k"
    using Cons.prems(1,6,7) j by (auto simp: job_ok_def)
  obtain rb where rb: "source_bytes src_read r = Inr rb" "reads_source src r rb"
    using source_bytes_reads [OF assms(1) jok(4)] by blast
  obtain st1 where st1: "read_some_done r k rb st = Inr st1" "mb_wf st1" "holds src f st1" "mb_size st1 = mb_size st"
    "length (mb_buf st1) = length (mb_buf st)" "mb_readers st1 = mb_readers st" "mb_read_keys st1 = mb_read_keys st"
    "\<forall>q. bt_get (mb_pages st1) q =
       (if rstart r \<le> q \<and> q < rend r \<and> bt_get (mb_pages st) q = Some k then Some present else bt_get (mb_pages st) q)"
    using read_some_done_holds [OF Cons.prems(2,3) jok(3) rb(2) impI [OF Cons.prems(5)]] by blast
  define out1 where "out1 = copy_to offset (mb_buf st1) at n out"
  have len1: "length out1 = length out" using copy_to_nth(1) [OF jok(1,2)] by (simp add: out1_def)
  have good: "out1 ! (p - offset) = f p"
    if p: "offset \<le> p" "p < end_offset" "p - offset < length out" "out ! (p - offset) = f p \<or> job_covers j p" for p
  proof (cases "at \<le> p \<and> p < at + n")
    case True
    have new: "rstart r \<le> page_of p" "page_of p < rend r" "map_of (new_pages pl) (page_of p) = Some k" using jok(5) [of p] True p(2) by auto
    then have "bt_get (mb_pages st) (page_of p) \<in> {Some k, Some present}" using Cons.prems(8) by blast
    then have "bt_get (mb_pages st1) (page_of p) = Some present" using st1(8) new by auto
    then have "mb_buf st1 ! p = f p" using st1(3,4) p(2) Cons.prems(4) by (simp add: holds_if_def)
    moreover have "p < length (mb_buf st1)"
      using p(2) Cons.prems(4) st1(2,4) page_count_ge [of "mb_size st1"] by (simp add: mb_wf_def)
    ultimately show ?thesis using copy_to_nth(2) [OF jok(1,2) p(3), of "mb_buf st1"] True p(1) by (simp add: out1_def)
  next
    case False
    then have "\<not> job_covers j p" by (simp add: j job_covers_def)
    then show ?thesis using p copy_to_nth(2) [OF jok(1,2) p(3), of "mb_buf st1"] False by (auto simp: out1_def)
  qed
  have "\<forall>q k. map_of (new_pages pl) q = Some k \<longrightarrow> bt_get (mb_pages st1) q \<in> {Some k, Some present}"
    using Cons.prems(8) st1(8) by auto
  then obtain out' st' where ih: "run_jobs src_read offset js out1 st1 = Inr (out', st')" "mb_wf st'" "holds src f st'"
    "mb_size st' = mb_size st1" "length out' = length out1" "mb_readers st' = mb_readers st1" "mb_read_keys st' = mb_read_keys st1"
    "\<forall>p. offset \<le> p \<and> p < end_offset \<and> p - offset < length out1 \<and> (out1 ! (p - offset) = f p \<or> (\<exists>j \<in> set js. job_covers j p)) \<longrightarrow>
       out' ! (p - offset) = f p"
    "\<forall>q. bt_get (mb_pages st') q = map_option (\<lambda>k. if job_reads js q k then present else k) (bt_get (mb_pages st1) q)"
    using Cons.IH [of st1 out1] Cons.prems st1 len1 by auto
  have "run_jobs src_read offset (j # js) out st = Inr (out', st')" using rb(1) st1(1) ih(1) by (simp add: j out1_def)
  moreover have "out' ! (p - offset) = f p"
    if "offset \<le> p" "p < end_offset" "p - offset < length out" "out ! (p - offset) = f p \<or> (\<exists>i \<in> set (j # js). job_covers i p)" for p
    using ih(8) good [of p] that len1 by auto
  moreover have "bt_get (mb_pages st') q = map_option (\<lambda>k. if job_reads (j # js) q k then present else k) (bt_get (mb_pages st) q)" for q
    using ih(9) st1(8) by (cases "bt_get (mb_pages st) q") (auto simp: job_reads_def j)
  ultimately show ?case using ih st1 len1 by auto
qed

lemma drop_keys_returns:
  assumes "distinct ks" "\<forall>k \<in> set ks. bt_get (mb_readers st) k \<noteq> None"
  shows "\<exists>st'. drop_keys ks st = Inr st' \<and> (\<forall>k. bt_get (mb_readers st') k = (if k \<in> set ks then None else bt_get (mb_readers st) k)) \<and>
    set (mb_pages st') \<subseteq> set (mb_pages st) \<and> mb_read_keys st' = mb_read_keys st"
  using assms
proof (induction ks st rule: drop_keys.induct)
  case (2 k ks st)
  then obtain r where r: "bt_get (mb_readers st) k = Some r" by auto
  let ?st = "st\<lparr>mb_readers := bt_remove k (mb_readers st),
    mb_pages := filter (\<lambda>p. \<not> (rstart r \<le> fst p \<and> fst p < rend r \<and> snd p = k)) (mb_pages st)\<rparr>"
  have "distinct ks" "\<forall>k' \<in> set ks. bt_get (mb_readers ?st) k' \<noteq> None" using 2(2,3) by auto
  from 2(1) [OF r this] obtain st' where "drop_keys ks ?st = Inr st'"
    "\<forall>k'. bt_get (mb_readers st') k' = (if k' \<in> set ks then None else bt_get (mb_readers ?st) k')"
    "set (mb_pages st') \<subseteq> set (mb_pages ?st)" "mb_read_keys st' = mb_read_keys ?st" by blast
  with r 2(2) show ?case by auto
qed auto

text \<open>No read is in flight.\<close>

definition idle :: "mem_buffer \<Rightarrow> bool" where
  "idle st = ((\<forall>k \<in> snd ` set (mb_pages st). k = present) \<and> mb_readers st = [] \<and> mb_read_keys st = [])"

lemma no_entries: "(\<And>k. bt_get m k = None) \<Longrightarrow> m = []"
  by (cases m) (auto split: if_splits, metis option.simps(3))

lemma read_keys_drop_idle:
  assumes "mb_wf st" "holds src f st" "mb_read_keys st = [\<lparr>rk_node = node, rk_keys = ks, rk_end_offset = e\<rparr>]"
    "distinct ks" "\<forall>k. bt_get (mb_readers st) k \<noteq> None \<longleftrightarrow> k \<in> set ks" "\<forall>k \<in> snd ` set (mb_pages st). k = present"
  shows "\<exists>st'. read_keys_drop node st = Inr st' \<and> mb_wf st' \<and> holds src f st' \<and> mb_size st' = mb_size st \<and> idle st' \<and>
    (\<forall>q. is_present st' q \<longleftrightarrow> is_present st q)"
proof -
  obtain st1 where st1: "drop_keys ks st = Inr st1" "\<forall>k. bt_get (mb_readers st1) k = (if k \<in> set ks then None else bt_get (mb_readers st) k)"
    "set (mb_pages st1) \<subseteq> set (mb_pages st)" "mb_read_keys st1 = mb_read_keys st"
    using drop_keys_returns [OF assms(4), of st] assms(5) by blast
  have drop: "read_keys_drop node st = Inr (st1\<lparr>mb_read_keys := []\<rparr>)" using st1(1,4) assms(3) by (simp add: read_keys_drop_def)
  have "bt_get (mb_readers st1) k = None" for k using st1(2) assms(5) by auto
  then have "mb_readers st1 = []" by (rule no_entries)
  moreover have "\<forall>k \<in> snd ` set (mb_pages st1). k = present" using st1(3) assms(6) by blast
  ultimately show ?thesis using drop_keys_holds [OF assms(1,2) st1(1)] drop by (simp add: idle_def is_present_def)
qed

text \<open>
  C13: a read returns the bytes of the file. It gives as many as there are up to the end of the file, each
  of them right, whether its page was present or had to be read from the source together with the
  pages around it, and it leaves a buffer that still holds the file and has no read in flight. It does
  not panic. The source must not be longer than the file and its blocks no longer than a page.
\<close>

theorem data_buffer_read_correct:
  assumes "mb_wf st" "holds src f st" "idle st" "slab_law new_key" "source_law src src_read"
    and "\<forall>p \<ge> mb_size st. src p = 0" "source_block_size \<le> page_size" "mb_size st + read_size \<le> u64_max" "0 < length out"
  shows "\<exists>out' st'. mem_read new_key src_read source_block_size node offset out st =
      Inr (min (length out) (mb_size st - offset), out', st') \<and>
    (\<forall>i < min (length out) (mb_size st - offset). out' ! i = f (offset + i)) \<and>
    mb_wf st' \<and> holds src f st' \<and> idle st' \<and> mb_size st' = mb_size st"
proof (cases "offset < mb_size st")
  case False
  then show ?thesis using assms(1-3) by (simp add: mem_read_def read_begin_def)
next
  case True
  let ?e = "read_end offset (length out) st"
  have quiet: "\<forall>rk \<in> set (mb_read_keys st). rk_node rk \<noteq> node" using assms(3) by (simp add: idle_def)
  obtain pl lst ps where start: "read_begin new_key source_block_size node offset out st =
      Inr (Some (read_jobs pl, read_out pl),
        st\<lparr>mb_pages := ps, mb_readers := plan_readers pl,
           mb_read_keys := \<lparr>rk_node = node, rk_keys = plan_keys pl, rk_end_offset = ?e\<rparr> # mb_read_keys st\<rparr>)"
    "plan_inv st offset ?e (read_stop offset (length out) st) (length out) (pl\<lparr>last_offset := lst\<rparr>)" "?e \<le> lst"
    "\<forall>q. bt_get ps q = (case map_of (new_pages pl) q of Some k \<Rightarrow> Some k | None \<Rightarrow> bt_get (mb_pages st) q)" "bt_ok ps"
    using read_begin_spec [OF assms(4,1,7) True assms(9,8) quiet] by blast
  let ?st1 = "st\<lparr>mb_pages := ps, mb_readers := plan_readers pl,
    mb_read_keys := [\<lparr>rk_node = node, rk_keys = plan_keys pl, rk_end_offset = ?e\<rparr>]\<rparr>"
  have keys0: "bt_get (mb_readers st) k = None" "mb_read_keys st = []" for k using assms(3) by (simp_all add: idle_def)
  have old: "k = present" if "bt_get (mb_pages st) q = Some k" for q k
    using map_of_SomeD [OF that] assms(3) by (force simp: idle_def)
  note plan = planD [OF start(2)]
  have no_pages: "\<not> is_page_job j" if "j \<in> set (read_jobs pl)" for j using plan(5) old that by blast
  have new_key: "k \<noteq> present" "bt_get (mb_pages st) q = None" "job_reads (read_jobs pl) q k"
    if "map_of (new_pages pl) q = Some k" for q k
    using plan_newD [OF start(2) that] by auto
  have wf1: "mb_wf ?st1" and holds1: "holds src f ?st1"
    using plan_state_holds [OF assms(1,2) start(2,4,5)] by auto
  have "\<forall>j \<in> set (read_jobs pl). job_ok offset ?e pl j \<and> \<not> is_page_job j" using plan(2) no_pages by simp
  moreover have "\<forall>q k. map_of (new_pages pl) q = Some k \<longrightarrow> bt_get (mb_pages ?st1) q \<in> {Some k, Some present}" using start(4) by simp
  ultimately obtain out' st2 where run: "run_jobs src_read offset (read_jobs pl) (read_out pl) ?st1 = Inr (out', st2)"
    "mb_wf st2" "holds src f st2" "mb_size st2 = mb_size st" "length out' = length (read_out pl)"
    "mb_readers st2 = plan_readers pl" "mb_read_keys st2 = mb_read_keys ?st1"
    "\<forall>p. offset \<le> p \<and> p < ?e \<and> p - offset < length (read_out pl) \<and>
       (read_out pl ! (p - offset) = f p \<or> (\<exists>j \<in> set (read_jobs pl). job_covers j p)) \<longrightarrow> out' ! (p - offset) = f p"
    "\<forall>q. bt_get (mb_pages st2) q = map_option (\<lambda>k. if job_reads (read_jobs pl) q k then present else k) (bt_get ps q)"
    using run_jobs_spec [OF assms(5) _ wf1 holds1, of "read_jobs pl" offset ?e pl "read_out pl"] assms(6)
    by (auto simp: read_end_def)
  have "\<forall>k \<in> snd ` set (mb_pages st2). k = present"
  proof clarsimp
    fix q k
    assume "(q, k) \<in> set (mb_pages st2)"
    then have "bt_get (mb_pages st2) q = Some k" using run(2) by (simp add: mb_wf_def bt_ok_distinct)
    then show "k = present"
      using run(9) start(4) new_key(3) [of q] old [of q] by (auto split: option.splits if_splits)
  qed
  moreover have "\<forall>k. bt_get (mb_readers st2) k \<noteq> None \<longleftrightarrow> k \<in> set (plan_keys pl)" "distinct (plan_keys pl)"
    using run(6) plan(4) keys0 by (auto simp: plan_keyed_def)
  ultimately obtain st3 where drop: "read_keys_drop node st2 = Inr st3" "mb_wf st3" "holds src f st3" "mb_size st3 = mb_size st2" "idle st3"
    using read_keys_drop_idle [OF run(2,3), of node "plan_keys pl" ?e] run(7) by auto
  have amount: "read_amount node offset st2 = min (length out) (mb_size st - offset)"
    using run(7) True assms(9) by (auto simp: read_amount_def read_end_def)
  have "out' ! i = f (offset + i)" if i: "i < min (length out) (mb_size st - offset)" for i
  proof -
    have p: "offset + i < ?e" "i < length (read_out pl)" using i plan(1) by (auto simp: read_end_def plan_position_def)
    have "read_out pl ! i = f (offset + i) \<or> (\<exists>j \<in> set (read_jobs pl). job_covers j (offset + i))"
    proof -
      have "is_present st (page_of (offset + i)) \<and> read_out pl ! i = mb_buf st ! (offset + i) \<or>
          (\<exists>j \<in> set (read_jobs pl). job_covers j (offset + i))"
        using plan(3) [unfolded plan_covers_def, rule_format, of "offset + i"] start(3) p(1) by simp
      moreover have "mb_buf st ! (offset + i) = f (offset + i)" if "is_present st (page_of (offset + i))"
        using that assms(2) p(1) by (simp add: holds_if_def is_present_def read_end_def)
      ultimately show ?thesis by auto
    qed
    then show ?thesis using run(8) [rule_format, of "offset + i"] p by simp
  qed
  moreover have "mem_read new_key src_read source_block_size node offset out st = Inr (min (length out) (mb_size st - offset), out', st3)"
    using start(1) run(1) drop(1) amount keys0(2) by (simp add: mem_read_def)
  ultimately show ?thesis using drop run(4) by auto
qed

end
