(* ===== verification/Data_Buffer_Write.thy ===== *)
theory Data_Buffer_Write
  imports Data_Buffer_Read
begin

text \<open>
  Writing to the data buffer, the sections of all operations in any order, and two kinds of write after
  which the buffer does not hold the file.
\<close>

section \<open>Writing\<close>

definition all_present :: "mem_buffer \<Rightarrow> bool" where
  "all_present st = (\<forall>k \<in> snd ` set (mb_pages st). k = present)"

text \<open>One read is in flight, all of whose pages have arrived.\<close>

definition arrived :: "mem_buffer \<Rightarrow> nat \<Rightarrow> nat \<Rightarrow> nat list \<Rightarrow> bool" where
  "arrived st node e ks =
     (mb_read_keys st = [\<lparr>rk_node = node, rk_keys = ks, rk_end_offset = e\<rparr>] \<and> distinct ks \<and>
      (\<forall>k. bt_get (mb_readers st) k \<noteq> None \<longleftrightarrow> k \<in> set ks) \<and> all_present st)"

lemma present_get: "bt_ok ps \<Longrightarrow> (\<And>q k. bt_get ps q = Some k \<Longrightarrow> k = present) \<Longrightarrow> \<forall>k \<in> snd ` set ps. k = present"
  by (auto dest!: map_of_is_SomeI [OF bt_ok_distinct])

lemma all_presentD: "all_present st \<Longrightarrow> bt_get (mb_pages st) q = Some k \<Longrightarrow> k = present"
  by (force simp: all_present_def dest: map_of_SomeD)

lemma page_steps_one: "page_steps off (off + page_size) = [off]"
  by (simp add: page_steps_def page_size_def)

lemma page_added_wf:
  assumes "mb_wf st" "page_size dvd off" "off < length (mb_buf st)" "k \<noteq> present"
  shows "mb_wf (st\<lparr>mb_pages := bt_insert off k (mb_pages st), mb_readers := bt_insert k (Range off (off + page_size)) (mb_readers st),
    mb_read_keys := rks\<rparr>)"
proof (rule mb_wf_readers [OF assms(1)])
  let ?r = "Range off (off + page_size)"
  show "bt_ok (bt_insert off k (mb_pages st))" using assms(1) by (simp add: mb_wf_def bt_ok_insert)
  show "page_size dvd q \<and> q < length (mb_buf st)" if "bt_get (bt_insert off k (mb_pages st)) q = Some k'" for q k'
    using that assms(2,3) mb_wf_pages [OF assms(1), of q k'] by (auto split: if_splits)
  show "k' \<noteq> present \<and> page_size dvd rstart r \<and> page_size dvd rend r" if "(k', r) \<in> set (bt_insert k ?r (mb_readers st))" for k' r
    using that set_bt_insert [of k ?r "mb_readers st"] assms(1,2,4) by (fastforce simp: mb_wf_def)
qed

lemma page_read_step:
  assumes "mb_wf st" "holds src f st" "arrived st node e ks" "slab_law new_key" "source_law src src_read"
    "\<forall>p \<ge> mb_size st. src p = 0" "source_block_size \<le> page_size" "page_size dvd off" "off < mb_size st" "off < e"
  shows "\<exists>st' ks'. run_page_reads new_key src_read source_block_size node (off # offs) st =
      run_page_reads new_key src_read source_block_size node offs st' \<and>
    mb_wf st' \<and> holds src f st' \<and> arrived st' node e ks' \<and> mb_size st' = mb_size st \<and> is_present st' off \<and>
    (\<forall>q. is_present st q \<longrightarrow> is_present st' q)"
proof (cases "bt_get (mb_pages st) off")
  case (Some k)
  then have "k = present" using assms(3) all_presentD by (auto simp: arrived_def)
  with Some assms show ?thesis by (auto simp: read_page_turn_def arrived_def is_present_def)
next
  case None
  define k where "k = new_key (mb_readers st)"
  have k: "bt_get (mb_readers st) k = None" "k \<noteq> present" using assms(4) by (simp_all add: slab_law_def k_def)
  let ?r = "Range off (off + page_size)"
  let ?st1 = "st\<lparr>mb_pages := bt_insert off k (mb_pages st), mb_readers := bt_insert k ?r (mb_readers st),
    mb_read_keys := [\<lparr>rk_node = node, rk_keys = ks @ [k], rk_end_offset = e\<rparr>]\<rparr>"
  have rks: "mb_read_keys st = [\<lparr>rk_node = node, rk_keys = ks, rk_end_offset = e\<rparr>]" using assms(3) by (simp add: arrived_def)
  have len: "off < length (mb_buf st)" "mb_size st \<le> length (mb_buf st)"
    using assms(1,9) page_count_ge [of "mb_size st"] by (simp_all add: mb_wf_def)
  have turn: "read_page_turn new_key node off st = Inr (PageIssue k, ?st1)"
    using None rks assms(10)
    by (simp add: read_page_turn_def new_read_def page_steps_one push_key_def k_def Let_def)
  have wf1: "mb_wf ?st1" using assms(1,8) len(1) k(2) by (rule page_added_wf)
  have h1: "holds src f ?st1"
  proof (rule holds_pages [OF assms(2)])
    show "bt_get (bt_insert off k (mb_pages st)) q = Some present \<longleftrightarrow> bt_get (mb_pages st) q = Some present" for q
      using None k(2) by auto
  qed
  have rr: "page_read_range source_block_size off = Inr ?r"
    using assms(7,8) by (simp add: page_read_range_def round_down_eq)
  obtain rb where rb: "source_bytes src_read ?r = Inr rb" "reads_source src ?r rb"
    using source_bytes_reads [OF assms(5), of ?r] by auto
  have rd: "bt_get (mb_readers ?st1) k = Some ?r" by simp
  have tail: "\<forall>p. mb_size ?st1 \<le> p \<and> p < length (mb_buf ?st1) \<longrightarrow> src p = 0" using assms(6) by simp
  obtain st2 where st2: "read_some_done ?r k rb ?st1 = Inr st2" "mb_wf st2" "holds src f st2" "mb_size st2 = mb_size st"
    "mb_readers st2 = bt_insert k ?r (mb_readers st)" "mb_read_keys st2 = mb_read_keys ?st1"
    "\<forall>q. bt_get (mb_pages st2) q = (if off \<le> q \<and> q < off + page_size \<and> bt_get (mb_pages ?st1) q = Some k then Some present
        else bt_get (mb_pages ?st1) q)"
    using read_some_done_holds [OF wf1 h1 rd rb(2) impI [OF tail]] by auto
  have pages2: "bt_get (mb_pages st2) q = (if q = off then Some present else bt_get (mb_pages st) q)" for q
    using st2(7) k(2) all_presentD [of st q] assms(3) by (cases "bt_get (mb_pages st) q") (auto simp: arrived_def)
  have "all_present st2"
    unfolding all_present_def
  proof (rule present_get)
    show "bt_ok (mb_pages st2)" using st2(2) by (simp add: mb_wf_def)
    show "k' = present" if "bt_get (mb_pages st2) q = Some k'" for q k'
      using that pages2 all_presentD [of st q k'] assms(3) by (auto simp: arrived_def split: if_splits)
  qed
  moreover have "k \<notin> set ks" using k(1) assms(3) by (metis arrived_def)
  ultimately have "arrived st2 node e (ks @ [k])"
    using st2(5,6) assms(3) by (auto simp: arrived_def)
  moreover have "run_page_reads new_key src_read source_block_size node (off # offs) st =
      run_page_reads new_key src_read source_block_size node offs st2"
    using turn rr rb(1) st2(1) by simp
  ultimately show ?thesis using st2(2-4) pages2 by (auto simp: is_present_def)
qed

lemma page_reads_run:
  assumes "slab_law new_key" "source_law src src_read" "source_block_size \<le> page_size"
    "mb_wf st" "holds src f st" "arrived st node e ks" "\<forall>p \<ge> mb_size st. src p = 0"
    "\<forall>off \<in> set offs. page_size dvd off \<and> off < mb_size st \<and> off < e"
  shows "\<exists>st' ks'. run_page_reads new_key src_read source_block_size node offs st = Inr st' \<and>
    mb_wf st' \<and> holds src f st' \<and> arrived st' node e ks' \<and> mb_size st' = mb_size st \<and>
    (\<forall>q. is_present st q \<or> q \<in> set offs \<longrightarrow> is_present st' q)"
  using assms(4-)
proof (induction offs arbitrary: st ks)
  case (Cons off offs)
  obtain st1 ks1 where st1: "run_page_reads new_key src_read source_block_size node (off # offs) st =
      run_page_reads new_key src_read source_block_size node offs st1"
    "mb_wf st1" "holds src f st1" "arrived st1 node e ks1" "mb_size st1 = mb_size st" "is_present st1 off"
    "\<forall>q. is_present st q \<longrightarrow> is_present st1 q"
    using page_read_step [OF Cons.prems(1-3) assms(1,2) Cons.prems(4) assms(3), of off offs] Cons.prems(5) by auto
  obtain st' ks' where st': "run_page_reads new_key src_read source_block_size node offs st1 = Inr st'"
    "mb_wf st'" "holds src f st'" "arrived st' node e ks'" "mb_size st' = mb_size st1"
    "\<forall>q. is_present st1 q \<or> q \<in> set offs \<longrightarrow> is_present st' q"
    using Cons.IH [OF st1(2-4)] Cons.prems(4,5) st1(5) by auto
  have "\<forall>q. is_present st q \<or> q \<in> set (off # offs) \<longrightarrow> is_present st' q" using st'(6) st1(6,7) by auto
  with st1(1,5) st' show ?case by auto
qed auto

text \<open>
  The writes after which the buffer holds the file: a write that begins at the start of a page and ends
  inside it needs the page, unless the file ends there too, and a write that begins in a later page than
  the one the file ends in needs that one.
\<close>

definition safe_write :: "nat \<Rightarrow> nat \<Rightarrow> mem_buffer \<Rightarrow> bool" where
  "safe_write off e st =
     ((page_size dvd e \<or> mb_size st \<le> e \<or> page_of e \<noteq> off \<or> is_present st off) \<and>
      (e \<le> mb_size st \<or> page_size dvd mb_size st \<or> off < page_of (mb_size st) + page_size \<or> is_present st (page_of (mb_size st))))"

lemma write_reads_ready:
  assumes "write_reads off n st = Inr offs" "safe_write off (off + n) st" "mb_size st' = mb_size st"
    "\<forall>q. is_present st q \<or> q \<in> set offs \<longrightarrow> is_present st' q"
  shows "write_ready off (off + n) st'"
proof -
  let ?e = "off + n"
  have offs: "offs = (if page_of off \<noteq> off \<and> page_of off < mb_size st then [page_of off] else []) @
      (if page_of ?e \<noteq> ?e \<and> page_of ?e \<noteq> off \<and> page_of ?e < mb_size st then [page_of ?e] else [])"
    using assms(1) by (auto simp: write_reads_def checked_add_def page_of_def Let_def split: if_splits)
  have dvd: "page_of p = p \<Longrightarrow> page_size dvd p" for p by (metis page_of_dvd)
  have a1: "page_size dvd off \<or> mb_size st \<le> page_of off \<or> is_present st' (page_of off)"
    using assms(4) offs dvd [of off] by auto
  have a2: "page_size dvd ?e \<or> mb_size st \<le> ?e \<or> is_present st' (page_of ?e)"
  proof (cases "page_of ?e = off")
    case True
    then show ?thesis using assms(2,4) by (auto simp: safe_write_def)
  next
    case False
    then show ?thesis using assms(4) offs dvd [of ?e] page_of_less [of ?e "mb_size st"] by (cases "?e < mb_size st") auto
  qed
  have a3: "?e \<le> mb_size st \<or> page_size dvd mb_size st \<or> off \<le> page_of (mb_size st) \<or> is_present st' (page_of (mb_size st))"
  proof (cases "page_of (mb_size st) < off \<and> off < page_of (mb_size st) + page_size")
    case True
    then have pg: "page_of off = page_of (mb_size st)" by (intro page_of_eq) auto
    show ?thesis
    proof (cases "page_of (mb_size st) = mb_size st")
      case False
      then have "page_of off < mb_size st" using pg page_of_le [of "mb_size st"] by linarith
      then show ?thesis using a1 pg True page_of_self [of off] by auto
    qed (use dvd in blast)
  next
    case False
    then show ?thesis using assms(2,4) by (auto simp: safe_write_def)
  qed
  show ?thesis using a1 a2 a3 assms(3) by (simp add: write_ready_def)
qed

lemma insert_pages_set: "insert_pages news ps = Inr ps' \<Longrightarrow> set ps' \<subseteq> set ps \<union> set news"
proof (induction news ps rule: insert_pages.induct)
  case (2 off k news ps)
  then show ?case using set_bt_insert [of off k ps] by (auto split: if_splits)
qed simp

lemma mark_present_idle:
  assumes "mark_present r st = Inr st'" "all_present st"
  shows "all_present st' \<and> mb_readers st' = mb_readers st \<and> mb_read_keys st' = mb_read_keys st"
proof -
  let ?lo = "rstart r - rstart r mod page_size"
  let ?ps = "map (\<lambda>(po, k). (po, if ?lo \<le> po \<and> po < rend r then present else k)) (mb_pages st)"
  obtain news off ps1 ps2 where ins: "insert_pages (map (\<lambda>po. (po, present)) news) ?ps = Inr ps1"
    "insert_pages (map (\<lambda>po. (po, present)) (page_steps off (rend r))) ps1 = Inr ps2" "st' = st\<lparr>mb_pages := ps2\<rparr>"
    using assms(1) by (auto simp: mark_present_def Let_def bind_res_eq_Inr split: if_splits prod.splits)
  have sub: "set ps2 \<subseteq> set ?ps \<union> (\<lambda>po. (po, present)) ` (set news \<union> set (page_steps off (rend r)))"
    using insert_pages_set [OF ins(1)] insert_pages_set [OF ins(2)] by auto
  have "k = present" if "(q, k) \<in> set ps2" for q k
    using subsetD [OF sub that] assms(2) by (auto simp: all_present_def split: if_splits)
  then show ?thesis using ins(3) by (auto simp: all_present_def)
qed

lemma write_finish_idle:
  assumes "write_finish off bs st = Inr st'" "idle st"
  shows "idle st'"
proof -
  obtain e st1 where e: "(if e > mb_size st then mb_resize e st else Inr st) = Inr st1"
    "mark_present (Range off e) (st1\<lparr>mb_buf := splice off bs (mb_buf st1)\<rparr>) = Inr st'"
    using assms(1) by (auto simp: write_finish_def bind_res_eq_Inr)
  have "all_present st1 \<and> mb_readers st1 = [] \<and> mb_read_keys st1 = []"
  proof (cases "e > mb_size st")
    case True
    then obtain st2 n where st2: "mark_present (Range (mb_size st) n) (st\<lparr>mb_buf := vec_resize n (mb_buf st), mb_size := e\<rparr>) = Inr st2"
      "st1 = st2\<lparr>mb_read_keys := map (\<lambda>rk. rk\<lparr>rk_end_offset := min (rk_end_offset rk) e\<rparr>) (mb_read_keys st2)\<rparr>"
      using e(1) by (auto simp: mb_resize_def bind_res_eq_Inr Let_def)
    have "all_present (st\<lparr>mb_buf := vec_resize n (mb_buf st), mb_size := e\<rparr>)" using assms(2) by (simp add: idle_def all_present_def)
    from mark_present_idle [OF st2(1) this] assms(2) st2(2) show ?thesis by (simp add: idle_def all_present_def)
  next
    case False
    then show ?thesis using e(1) assms(2) by (simp add: idle_def all_present_def)
  qed
  moreover from this have "all_present (st1\<lparr>mb_buf := splice off bs (mb_buf st1)\<rparr>)" by (simp add: all_present_def)
  ultimately show ?thesis using mark_present_idle [OF e(2)] by (simp add: idle_def all_present_def)
qed


section \<open>Sections in any order\<close>

text \<open>
  The file and the buffer after any sequence of sections: reads that begin, find a page, finish, or are
  dropped at any time, truncation, growth, and the final section of writes. A read of the source that
  finishes copies whole pages, past the end of the file as well, so the buffer may have anything there
  after a truncation; \<open>tail_clear\<close> says that it has zeros. A section that makes the file longer needs
  that, and growing also needs the page the file ends in.
\<close>

definition tail_clear :: "mem_buffer \<Rightarrow> bool" where
  "tail_clear st = (\<forall>p < length (mb_buf st). mb_size st \<le> p \<longrightarrow> mb_buf st ! p = 0)"

inductive buffer_history ::
  "((nat, u64_range) btree_map \<Rightarrow> nat) \<Rightarrow> (nat \<Rightarrow> u8) \<Rightarrow> (nat \<Rightarrow> u8) \<Rightarrow> mem_buffer \<Rightarrow> bool" for new_key src where
  fresh: "buffer_history new_key src (\<lambda>p. if p < n then src p else 0) st" if "mem_data_buffer_new n = Inr st"
| read_begun: "buffer_history new_key src f st'"
    if "buffer_history new_key src f st" "read_begin new_key source_block_size node offset out st = Inr (r, st')"
      "source_block_size \<le> page_size" "0 < length out" "mb_size st + read_size \<le> u64_max"
      "\<forall>rk \<in> set (mb_read_keys st). rk_node rk \<noteq> node"
| page_turn: "buffer_history new_key src f st'"
    if "buffer_history new_key src f st" "read_page_turn new_key node off st = Inr (turn, st')" "page_size dvd off" "off < mb_size st"
| read_done: "buffer_history new_key src f st'"
    if "buffer_history new_key src f st" "bt_get (mb_readers st) k = Some r" "reads_source src r rb"
      "read_some_done r k rb st = Inr st'"
| dropped: "buffer_history new_key src f st'" if "buffer_history new_key src f st" "read_keys_drop node st = Inr st'"
| shrunk: "buffer_history new_key src (\<lambda>p. if p < n then f p else 0) st'"
    if "buffer_history new_key src f st" "n < mb_size st" "mb_resize n st = Inr st'"
| grown: "buffer_history new_key src f st'"
    if "buffer_history new_key src f st" "mb_size st \<le> n" "n + (page_size - 1) \<le> u64_max" "mb_resize n st = Inr st'"
      "page_size dvd mb_size st \<or> is_present st (page_of (mb_size st))" "tail_clear st"
| wrote: "buffer_history new_key src (written off bs f) st'"
    if "buffer_history new_key src f st" "write_finish off bs st = Inr st'" "off + length bs + (page_size - 1) \<le> u64_max"
      "write_ready off (off + length bs) st" "off + length bs \<le> mb_size st \<or> tail_clear st"

lemma holds_tail_clear: "holds_if False src f st \<Longrightarrow> tail_clear st \<Longrightarrow> holds src f st"
  by (simp add: holds_if_def tail_clear_def)

lemma holds_weaken: "holds_if c src f st \<Longrightarrow> holds_if False src f st"
  by (simp add: holds_if_def)

lemma page_turn_holds:
  assumes "mb_wf st" "holds_if c src f st" "slab_law new_key" "read_page_turn new_key node off st = Inr (turn, st')"
    "page_size dvd off" "off < mb_size st"
  shows "mb_wf st' \<and> holds_if c src f st'"
proof (cases "bt_get (mb_pages st) off")
  case None
  define k where "k = new_key (mb_readers st)"
  have k: "k \<noteq> present" using assms(3) by (simp add: slab_law_def k_def)
  let ?r = "Range off (off + page_size)"
  have len: "off < length (mb_buf st)" using assms(1,6) page_count_ge [of "mb_size st"] by (simp add: mb_wf_def)
  have "st' = st \<or> (\<exists>rks. st' = st\<lparr>mb_pages := bt_insert off k (mb_pages st), mb_readers := bt_insert k ?r (mb_readers st), mb_read_keys := rks\<rparr>)"
    using assms(4) None by (auto simp: read_page_turn_def new_read_def page_steps_one push_key_def k_def Let_def split: if_splits)
  moreover have "mb_wf (st\<lparr>mb_pages := bt_insert off k (mb_pages st), mb_readers := bt_insert k ?r (mb_readers st), mb_read_keys := rks\<rparr>)" for rks
    using assms(1,5) len k by (rule page_added_wf)
  moreover have "holds_if c src f (st\<lparr>mb_pages := bt_insert off k (mb_pages st), mb_readers := bt_insert k ?r (mb_readers st), mb_read_keys := rks\<rparr>)" for rks
    using None k by (intro holds_pages [OF assms(2)]) auto
  ultimately show ?thesis using assms(1,2) by blast
next
  case (Some k)
  then have "st' = st" using assms(4) by (auto simp: read_page_turn_def bind_res_eq_Inr split: if_splits)
  then show ?thesis using assms(1,2) by simp
qed

lemma fresh_holds:
  assumes "mem_data_buffer_new n = Inr st" "\<forall>p \<ge> n. src p = 0"
  shows "mb_wf st \<and> holds src src st \<and> idle st \<and> mb_size st = n \<and> mb_pages st = [] \<and> mb_buf st = replicate (page_size * page_count n) 0"
proof -
  have n: "n + (page_size - 1) \<le> u64_max"
    using assms(1) by (auto simp: mem_data_buffer_new_def unwrap_opt_def round_up_eq split: if_splits)
  then show ?thesis
    using assms by (auto simp: mem_data_buffer_new_def round_up_page mb_wf_def holds_if_def idle_def bt_ok_def)
qed

lemma fresh_holds_any:
  assumes "mem_data_buffer_new n = Inr st"
  shows "mb_wf st \<and> holds src (\<lambda>p. if p < n then src p else 0) st"
proof -
  have n: "n + (page_size - 1) \<le> u64_max"
    using assms by (auto simp: mem_data_buffer_new_def unwrap_opt_def round_up_eq split: if_splits)
  then show ?thesis
    using assms by (auto simp: mem_data_buffer_new_def round_up_page mb_wf_def holds_if_def bt_ok_def)
qed

lemma history_holds:
  assumes "buffer_history new_key src f st" "slab_law new_key"
  shows "mb_wf st \<and> holds_if False src f st"
  using assms(1)
proof induction
  case (fresh n st)
  then show ?case using fresh_holds_any holds_weaken by blast
next
  case (read_begun f st source_block_size node offset out r st')
  then have inv: "mb_wf st" "holds_if False src f st" by simp_all
  show ?case
  proof (cases "offset < mb_size st")
    case True
    then show ?thesis
      using read_begin_spec [OF assms(2) inv(1) read_begun.hyps(3) True read_begun.hyps(4-6)] read_begun.hyps(2)
        plan_state_holds [OF inv] by fastforce
  next
    case False
    then show ?thesis using inv read_begun.hyps(2) by (simp add: read_begin_def)
  qed
next
  case (page_turn f st node off turn st')
  then show ?case using page_turn_holds [OF _ _ assms(2)] by blast
next
  case (read_done f st k r rb st')
  then show ?case using read_some_done_holds [of st False src f k r rb] by fastforce
next
  case (dropped f st node st')
  then show ?case using read_keys_drop_holds by blast
next
  case (shrunk f st n st')
  then show ?case using mb_resize_shrink [of st False src f n] by fastforce
next
  case (grown f st n st')
  then have "holds src f st" using holds_tail_clear by blast
  with grown show ?case using mb_resize_extend [of st src f n] holds_weaken by fastforce
next
  case (wrote f st off bs st')
  define c where "c = (\<not> off + length bs \<le> mb_size st)"
  have "holds_if c src f st" using wrote holds_tail_clear by (cases c) (auto simp: c_def)
  with wrote show ?case using write_finish_holds [of st c src f off bs] holds_weaken by (fastforce simp: c_def)
qed

text \<open>
  C15: the buffer holds the file whatever the interleaving. After any sequence of sections, a page that is
  present has the file's bytes and a page that is not, or is being read, has them in the source, so
  whatever a read copies out of present pages is right at that moment: a read of the source that finishes
  after a write or a truncation has overtaken it, whatever the source has beyond the new end, changes no byte of
  the file. Two kinds of section are restricted: one that makes the file longer is taken only where the buffer has
  zeros after the end of the file (without it bytes that were truncated come back) and, for growing, where the
  page of the old end is present; and the final section of a write only where the pages it covers in part
  have been read.
\<close>

theorem data_buffer_interleaving:
  assumes "buffer_history new_key src f st" "slab_law new_key"
  shows "mb_wf st \<and> (\<forall>p < mb_size st. f p = (if is_present st (page_of p) then mb_buf st ! p else src p))"
  using history_holds [OF assms] by (simp add: holds_if_def is_present_def)

section \<open>Bytes that are lost or come back\<close>

text \<open>
  C38: a write that begins at the start of a page and ends inside it does not read the page first, because
  the code compares the end's page with the offset of the write. The page counts as present afterwards and
  the bytes after the write are zeros, whatever the source has there: a fresh buffer holds the file, and
  after writing one byte at its start it does not hold the file with that byte changed.
\<close>

theorem page_start_write_loses_bytes:
  assumes "mem_data_buffer_new n = Inr st" "\<forall>p \<ge> n. src p = 0" "1 < n" "src 1 \<noteq> 0"
  shows "\<exists>st'. mem_write new_key src_read source_block_size node 0 [b] st = Inr st' \<and>
    holds src src st \<and> is_present st' 0 \<and> mb_buf st' ! 1 = 0 \<and> \<not> holds src (written 0 [b] src) st'"
proof -
  note fresh = fresh_holds [OF assms(1,2)]
  have len: "n \<le> length (mb_buf st)" using fresh page_count_ge [of n] by simp
  have zero: "page_of 1 = 0" by (simp add: page_of_def page_size_def)
  have "write_reads 0 (length [b]) st = Inr []"
    by (simp add: write_reads_def checked_add_def u64_max_def page_size_def Let_def)
  then have run: "mem_write new_key src_read source_block_size node 0 [b] st = write_finish 0 [b] st" by (simp add: mem_write_def)
  let ?st = "st\<lparr>mb_buf := splice 0 [b] (mb_buf st)\<rparr>"
  have ok: "bt_ok (mb_pages ?st)" "\<forall>q \<in> fst ` set (mb_pages ?st). page_size dvd q" using fresh by (simp_all add: bt_ok_def)
  obtain ps where ps: "mark_present (Range 0 1) ?st = Inr (?st\<lparr>mb_pages := ps\<rparr>)"
    "\<forall>q. bt_get ps q = (if page_size dvd q \<and> page_of 0 \<le> q \<and> q < 1 then Some present else bt_get (mb_pages ?st) q)"
    using mark_present_spec [OF ok, of "Range 0 1"] by auto
  have fin: "write_finish 0 [b] st = Inr (?st\<lparr>mb_pages := ps\<rparr>)"
  proof -
    have "1 \<le> length (mb_buf st)" "1 \<le> mb_size st" using len fresh assms(3) by linarith+
    then show ?thesis using ps(1) by (simp add: write_finish_def u64_add_def u64_max_def)
  qed
  have there: "bt_get ps 0 = Some present" using ps(2) by (simp add: page_of_def)
  have one: "1 < length (mb_buf st)" using len assms(3) by linarith
  then have "mb_buf st ! 1 = 0" using fresh by (metis length_replicate nth_replicate)
  with one have buf: "splice 0 [b] (mb_buf st) ! 1 = 0" using splice_nth [of 0 "[b]" "mb_buf st" 1] by simp
  have "\<not> holds src (written 0 [b] src) (?st\<lparr>mb_pages := ps\<rparr>)"
  proof
    assume "holds src (written 0 [b] src) (?st\<lparr>mb_pages := ps\<rparr>)"
    then have "written 0 [b] src 1 = splice 0 [b] (mb_buf st) ! 1"
      using assms(3) fresh there zero by (auto simp: holds_if_def)
    then show False using buf assms(4) by (simp add: written_def)
  qed
  then show ?thesis using run fin fresh there buf by (simp add: is_present_def)
qed

lemma one_page: "0 < n \<Longrightarrow> n \<le> page_size \<Longrightarrow> page_count n = 1"
  using div_nat_eqI [of page_size 1 "n + (page_size - 1)"] by (simp add: page_count_def)

lemma first_page_steps: "page_steps 0 page_size = [0]"
  by (simp add: page_steps_def page_size_def upt_rec)

lemma first_byte_read:
  assumes "mem_data_buffer_new n = Inr st" "1 < n" "n \<le> page_size" "source_block_size \<le> page_size"
  shows "read_begin new_key source_block_size node 0 [x] st =
    Inr (Some ([ReadAndCopy (Range 0 page_size) 0 1 (new_key [])], [x]),
      \<lparr>mb_size = n, mb_buf = replicate page_size 0, mb_pages = [(0, new_key [])],
       mb_readers = [(new_key [], Range 0 page_size)],
       mb_read_keys = [\<lparr>rk_node = node, rk_keys = [new_key []], rk_end_offset = 1\<rparr>]\<rparr>)"
proof -
  have st: "st = \<lparr>mb_size = n, mb_buf = replicate page_size 0, mb_pages = [], mb_readers = [], mb_read_keys = []\<rparr>"
    and up: "unwrap_opt (round_up n page_size) = Inr page_size"
    using assms(1-3) one_page [of n] round_up_page [of n]
    by (auto simp: mem_data_buffer_new_def page_size_def u64_max_def)
  have "align_range (Range 0 1) page_size page_size = Inr (Range 0 page_size)"
    using round_up_page [of 1] one_page [of 1]
    by (simp add: align_range_def round_down_eq u64_sub_def u64_add_def read_size_def page_size_def u64_max_def)
  then show ?thesis
    using assms(2-4) up
    by (simp add: st read_begin_def round_down_eq plan_tail_def schedule_read_def new_read_def first_page_steps add_to_list_def push_key_def
      max_absorb2 Let_def)
qed

text \<open>
  C35: bytes that were truncated come back. A read of the source copies whole pages, past the end of the file as
  well, and growing the buffer does not clear what is there. A file of more than one byte, at most a page, is
  read from the start; before the source answers the file is truncated to its first byte. The sections up to
  the end of that read are a history of the truncated file, but when the file is grown again its second byte
  is the one that was truncated and not zero, and the page that has it is present.
\<close>

theorem truncated_bytes_return:
  assumes "mem_data_buffer_new n = Inr st" "1 < n" "n \<le> page_size" "source_block_size \<le> page_size" "slab_law new_key"
    and "reads_source src (Range 0 page_size) rb" "src 1 \<noteq> 0"
  shows "\<exists>k st1 st2 st3 st4.
    read_begin new_key source_block_size node 0 [x] st = Inr (Some ([ReadAndCopy (Range 0 page_size) 0 1 k], [x]), st1) \<and>
    mb_resize 1 st1 = Inr st2 \<and> read_some_done (Range 0 page_size) k rb st2 = Inr st3 \<and>
    buffer_history new_key src (\<lambda>p. if p < 1 then src p else 0) st3 \<and>
    mb_resize n st3 = Inr st4 \<and> mb_size st4 = n \<and> is_present st4 0 \<and> mb_buf st4 ! 1 = src 1"
proof -
  define k where "k = new_key []"
  have k: "k \<noteq> present" using assms(5) by (simp add: slab_law_def k_def)
  let ?rk = "\<lparr>rk_node = node, rk_keys = [k], rk_end_offset = 1\<rparr>"
  define st1 where "st1 = \<lparr>mb_size = n, mb_buf = replicate page_size 0, mb_pages = [(0, k)],
    mb_readers = [(k, Range 0 page_size)], mb_read_keys = [?rk]\<rparr>"
  have run1: "read_begin new_key source_block_size node 0 [x] st = Inr (Some ([ReadAndCopy (Range 0 page_size) 0 1 k], [x]), st1)"
    using first_byte_read [OF assms(1-4)] by (simp add: st1_def k_def)
  have size: "mb_size st = n" "mb_read_keys st = []" using assms(1) by (auto simp: mem_data_buffer_new_def bind_res_eq_Inr)
  have "buffer_history new_key src (\<lambda>p. if p < n then src p else 0) st" by (rule buffer_history.fresh [OF assms(1)])
  from buffer_history.read_begun [OF this run1 assms(4)]
  have h1: "buffer_history new_key src (\<lambda>p. if p < n then src p else 0) st1"
    using size assms(3) by (simp add: page_size_def read_size_def u64_max_def)
  define buf where "buf = splice 1 (replicate (n - 1) 0) (replicate page_size (0 :: u8))"
  have len: "length buf = page_size" using assms(2,3) by (simp add: buf_def)
  define st2 where "st2 = st1\<lparr>mb_size := 1, mb_buf := buf\<rparr>"
  have run2: "mb_resize 1 st1 = Inr st2"
    using assms(2,3) round_up_page [of 1] one_page [of 1]
    by (simp add: mb_resize_def st1_def st2_def buf_def vec_resize_def min_absorb1 page_size_def u64_max_def)
  have "buffer_history new_key src (\<lambda>p. if p < 1 then (\<lambda>p. if p < n then src p else 0) p else 0) st2"
    by (rule buffer_history.shrunk [OF h1 _ run2]) (use assms(2) in \<open>simp add: st1_def\<close>)
  moreover have "(\<lambda>p. if p < 1 then (\<lambda>p. if p < n then src p else 0) p else 0) = (\<lambda>p. if p < 1 then src p else 0)"
    using assms(2) by auto
  ultimately have h2: "buffer_history new_key src (\<lambda>p. if p < 1 then src p else 0) st2" by simp
  have rb: "length rb = page_size" "rb ! 1 = src 1" using assms(6) by (auto simp: reads_source_def page_size_def)
  define st3 where "st3 = st2\<lparr>mb_buf := rb, mb_pages := [(0, present)]\<rparr>"
  have run3: "read_some_done (Range 0 page_size) k rb st2 = Inr st3"
    using rb len by (simp add: read_some_done_def pages_range_def st1_def st2_def st3_def splice_def)
  have h3: "buffer_history new_key src (\<lambda>p. if p < 1 then src p else 0) st3"
    by (rule buffer_history.read_done [OF h2 _ assms(6) run3]) (simp add: st2_def st1_def)
  have wf: "mb_wf st3" using history_holds [OF h3 assms(5)] by simp
  then obtain ps where "mb_resize n st3 = Inr (st3\<lparr>mb_buf := mb_buf st3 @ replicate (page_size - length (mb_buf st3)) 0, mb_size := n, mb_pages := ps,
      mb_read_keys := map (\<lambda>rk. rk\<lparr>rk_end_offset := min (rk_end_offset rk) n\<rparr>) (mb_read_keys st3)\<rparr>)"
    "\<forall>q. bt_get ps q = (if page_size dvd q \<and> page_of (mb_size st3) \<le> q \<and> q < page_size then Some present else bt_get (mb_pages st3) q)"
    using mb_resize_grow [OF wf, of n] assms(2,3) one_page [of n] by (auto simp: st3_def st2_def page_size_def u64_max_def)
  with run1 run2 run3 h3 rb show ?thesis
    by (intro exI [of _ k] exI [of _ st1] exI [of _ st2] exI [of _ st3] exI) (auto simp: is_present_def st3_def nth_append)
qed

text \<open>
  A write that begins in a later page than the one the file ends in does not read that page. Growing the
  buffer marks it present, so what it had of the file reads as zeros from then on.
\<close>

lemma sparse_write_loses_tail:
  assumes "mem_data_buffer_new n = Inr st" "\<forall>p \<ge> n. src p = 0" "\<not> page_size dvd n" "src (page_of n) \<noteq> 0"
    and "page_size dvd off" "n < off" "off + page_size \<le> u64_max"
  shows "\<exists>st'. mem_write new_key src_read source_block_size node off [b] st = Inr st' \<and>
    holds src src st \<and> is_present st' (page_of n) \<and> mb_buf st' ! page_of n = 0 \<and> \<not> holds src (written off [b] src) st'"
proof -
  note fresh = fresh_holds [OF assms(1,2)]
  let ?e = "off + 1" and ?q = "page_of n"
  let ?a = "page_size * page_count ?e"
  have q: "?q < n" using assms(3) page_of_le [of n] page_of_self page_of_dvd by (metis le_neq_implies_less)
  have pe: "page_of ?e = off" using assms(5) by (intro page_of_eq) (simp_all add: page_size_def)
  have "off - off mod page_size = off" "?e - ?e mod page_size = off" using page_of_self [OF assms(5)] pe by (simp_all add: page_of_def)
  then have "write_reads off (length [b]) st = Inr []"
    using le_trans [of "Suc off" "off + page_size" u64_max] assms(7) page_size_pos(1)
    by (simp add: write_reads_def checked_add_def Let_def Suc_le_eq del: page_size_pos)
  then have run: "mem_write new_key src_read source_block_size node off [b] st = write_finish off [b] st" by (simp add: mem_write_def)
  have small: "?e + (page_size - 1) \<le> u64_max" using assms(7) page_size_pos(1) by linarith
  have wf: "mb_wf st" "mb_size st \<le> ?e" "mb_size st = n" using fresh assms(6) by auto
  obtain ps where grow: "mb_resize ?e st = Inr (st\<lparr>mb_buf := mb_buf st @ replicate (?a - length (mb_buf st)) 0, mb_size := ?e, mb_pages := ps,
      mb_read_keys := map (\<lambda>rk. rk\<lparr>rk_end_offset := min (rk_end_offset rk) ?e\<rparr>) (mb_read_keys st)\<rparr>)" "bt_ok ps"
    "\<forall>q. bt_get ps q = (if page_size dvd q \<and> page_of (mb_size st) \<le> q \<and> q < ?a then Some present else bt_get (mb_pages st) q)"
    using mb_resize_grow [OF wf(1,2) small] by blast
  define st1 where "st1 = st\<lparr>mb_buf := mb_buf st @ replicate (?a - length (mb_buf st)) 0, mb_size := ?e, mb_pages := ps,
      mb_read_keys := map (\<lambda>rk. rk\<lparr>rk_end_offset := min (rk_end_offset rk) ?e\<rparr>) (mb_read_keys st)\<rparr>"
  have wf1: "mb_wf st1" unfolding st1_def by (rule mb_wf_grow [OF wf(1,2) small grow(2,3)])
  have a: "?e \<le> length (mb_buf st1)" "?e \<le> ?a" using wf1 page_count_ge [of ?e] by (simp_all add: mb_wf_def st1_def)
  let ?st = "st1\<lparr>mb_buf := splice off [b] (mb_buf st1)\<rparr>"
  have ok: "bt_ok (mb_pages ?st)" "\<forall>q \<in> fst ` set (mb_pages ?st). page_size dvd q" using wf1 by (auto simp: mb_wf_def)
  obtain ps' where ps': "mark_present (Range off ?e) ?st = Inr (?st\<lparr>mb_pages := ps'\<rparr>)"
    "\<forall>q. bt_get ps' q = (if page_size dvd q \<and> page_of off \<le> q \<and> q < ?e then Some present else bt_get ps q)"
    using mark_present_spec [OF ok, of "Range off ?e"] by (auto simp: st1_def)
  have "mb_resize ?e st = Inr st1" using grow(1) by (simp add: st1_def)
  then have fin: "write_finish off [b] st = Inr (?st\<lparr>mb_pages := ps'\<rparr>)"
  proof -
    have "?e \<le> u64_max" "\<not> ?e \<le> mb_size st" using small wf(3) assms(6) by linarith+
    with \<open>mb_resize ?e st = Inr st1\<close> show ?thesis using ps'(1) a(1) by (simp add: write_finish_def u64_add_def)
  qed
  have there: "bt_get ps' ?q = Some present" using ps'(2) grow(3) wf(3) q a(2) assms(6) by auto
  have buf: "splice off [b] (mb_buf st1) ! ?q = 0"
    using fresh q assms(6) a(1) page_count_ge [of n] by (subst splice_nth) (auto simp: st1_def nth_append)
  have "\<not> holds src (written off [b] src) (?st\<lparr>mb_pages := ps'\<rparr>)"
  proof
    assume "holds src (written off [b] src) (?st\<lparr>mb_pages := ps'\<rparr>)"
    moreover have "?q < mb_size (?st\<lparr>mb_pages := ps'\<rparr>)" using q assms(6) by (simp add: st1_def)
    ultimately have "written off [b] src ?q = splice off [b] (mb_buf st1) ! ?q"
      using there page_of_self [of ?q] by (auto simp: holds_if_def)
    then show False using buf assms(4,6) q by (simp add: written_def)
  qed
  then show ?thesis using run fin fresh there buf by (simp add: is_present_def)
qed

text \<open>
  With blocks longer than a page a read panics when the page before the one it wants, in the same block, is
  present: the pages of the whole block are inserted again.
\<close>

lemma large_block_read_panics:
  "read_begin new_key 8192 node 4096 (replicate 1 0)
     \<lparr>mb_size = 8192, mb_buf = replicate 8192 0, mb_pages = [(0, present)], mb_readers = [], mb_read_keys = []\<rparr> = Inl Panic"
proof -
  have up: "unwrap_opt (round_up 8192 page_size) = Inr 8192" by (simp add: unwrap_opt_def round_up_eq page_size_def u64_max_def)
  have bs: "unwrap_opt (round_up 4097 8192) = Inr 8192" by (simp add: unwrap_opt_def round_up_eq u64_max_def)
  have "align_range (Range 0 4097) 8192 8192 = Inr (Range 0 8192)"
    using bs by (simp add: align_range_def round_down_eq page_size_def u64_sub_def u64_add_def read_size_def u64_max_def)
  moreover have "page_steps 0 8192 = [0, 4096]" by (simp add: page_steps_def page_size_def upt_rec)
  ultimately show ?thesis
    using up by (simp add: read_begin_def round_down_eq page_size_def plan_tail_def schedule_read_def new_read_def Let_def)
qed

section \<open>Witnesses\<close>

definition vacant_key :: "(nat, u64_range) btree_map \<Rightarrow> nat" where
  "vacant_key m = hd (filter (\<lambda>k. k \<notin> fst ` set m \<and> k \<noteq> present) [0..<length m + 2])"

lemma vacant_key_free: "filter (\<lambda>k. k \<notin> fst ` set m \<and> k \<noteq> x) [0..<length m + 2] \<noteq> []"
proof
  assume "filter (\<lambda>k. k \<notin> fst ` set m \<and> k \<noteq> x) [0..<length m + 2] = []"
  then have "\<forall>k \<in> {0..<length m + 2}. \<not> (k \<notin> fst ` set m \<and> k \<noteq> x)" unfolding filter_empty_conv set_upt .
  then have "{0..<length m + 2} \<subseteq> insert x (fst ` set m)" by blast
  then have "card {0..<length m + 2} \<le> card (insert x (fst ` set m))" by (intro card_mono) auto
  moreover have "card (insert x (fst ` set m)) \<le> Suc (card (fst ` set m))" by (cases "x \<in> fst ` set m") (simp_all add: insert_absorb)
  moreover have "card (fst ` set m) \<le> length m" using card_image_le [of "set m" fst] card_length [of m] by fastforce
  ultimately show False by simp
qed

lemma vacant_key_law: "slab_law vacant_key"
proof -
  have "vacant_key m \<notin> fst ` set m \<and> vacant_key m \<noteq> present" for m
    using hd_in_set [OF vacant_key_free [of m present]] unfolding vacant_key_def set_filter mem_Collect_eq by (rule conjunct2)
  then show ?thesis by (simp add: slab_law_def map_of_eq_None_iff)
qed

definition bytes_source :: "u8 list \<Rightarrow> nat \<Rightarrow> nat \<Rightarrow> u8 list res" where
  "bytes_source bs off n = Inr (take n (drop off bs))"

definition bytes_of :: "u8 list \<Rightarrow> nat \<Rightarrow> u8" where
  "bytes_of bs p = (if p < length bs then bs ! p else 0)"

lemma bytes_source_law: "source_law (bytes_of bs) (bytes_source bs)"
  by (auto simp: source_law_def bytes_source_def bytes_of_def nth_append min_def)

lemma bytes_of_end: "\<forall>p \<ge> length bs. bytes_of bs p = 0"
  by (simp add: bytes_of_def)

lemma small_buffer: "n \<le> 1000000 \<Longrightarrow> \<exists>st. mem_data_buffer_new n = Inr st"
proof -
  assume "n \<le> 1000000"
  then have "n + (page_size - 1) \<le> u64_max" by (simp add: page_size_def u64_max_def)
  then show ?thesis by (simp add: mem_data_buffer_new_def round_up_page)
qed

theorem data_buffer_read_correct_witness:
  "\<exists>st out' st'. mem_data_buffer_new 10 = Inr st \<and>
     mem_read vacant_key (bytes_source (replicate 10 7)) 512 0 8 (replicate 4 0) st = Inr (2, out', st') \<and> out' ! 1 = 7"
proof -
  obtain st where st: "mem_data_buffer_new 10 = Inr st" using small_buffer [of 10] by auto
  let ?src = "bytes_of (replicate 10 7)"
  have z: "\<forall>p \<ge> 10. ?src p = 0" using bytes_of_end [of "replicate 10 7"] by simp
  note fresh = fresh_holds [OF st z]
  have "\<exists>out' st'. mem_read vacant_key (bytes_source (replicate 10 7)) 512 0 8 (replicate 4 0) st =
      Inr (min (length (replicate 4 (0 :: u8))) (mb_size st - 8), out', st') \<and>
    (\<forall>i < min (length (replicate 4 (0 :: u8))) (mb_size st - 8). out' ! i = ?src (8 + i)) \<and>
    mb_wf st' \<and> holds ?src ?src st' \<and> idle st' \<and> mb_size st' = mb_size st"
    using fresh z by (intro data_buffer_read_correct vacant_key_law bytes_source_law) (auto simp: page_size_def read_size_def u64_max_def)
  then obtain out' st' where "mem_read vacant_key (bytes_source (replicate 10 7)) 512 0 8 (replicate 4 0) st = Inr (2, out', st')"
    "\<forall>i < 2. out' ! i = ?src (8 + i)" using fresh by auto
  moreover from this(2) have "out' ! 1 = 7" by (simp add: bytes_of_def)
  ultimately show ?thesis using st by blast
qed


theorem data_buffer_interleaving_witness:
  "\<exists>st st'. mem_data_buffer_new 10 = Inr st \<and> mb_resize 4 st = Inr st' \<and> mb_wf st' \<and>
     buffer_history vacant_key (bytes_of (replicate 10 7)) (\<lambda>p. if p < 4 then bytes_of (replicate 10 7) p else 0) st'"
proof -
  obtain st where st: "mem_data_buffer_new 10 = Inr st" using small_buffer [of 10] by auto
  let ?src = "bytes_of (replicate 10 7)"
  let ?f = "\<lambda>p. if p < 10 then ?src p else 0"
  note fresh = fresh_holds_any [OF st, of ?src]
  have size: "mb_size st = 10" using st by (auto simp: mem_data_buffer_new_def bind_res_eq_Inr)
  with fresh obtain st' where run: "mb_resize 4 st = Inr st'" using mb_resize_shrink [of st True ?src ?f 4] by auto
  have "buffer_history vacant_key ?src ?f st" by (rule buffer_history.fresh [OF st])
  from buffer_history.shrunk [OF this _ run] size
  have "buffer_history vacant_key ?src (\<lambda>p. if p < 4 then ?f p else 0) st'" by simp
  moreover have "(\<lambda>p. if p < 4 then ?f p else 0) = (\<lambda>p. if p < 4 then ?src p else 0)" by auto
  ultimately have h: "buffer_history vacant_key ?src (\<lambda>p. if p < 4 then ?src p else 0) st'" by simp
  from data_buffer_interleaving [OF h vacant_key_law] st run h show ?thesis by blast
qed

theorem page_start_write_loses_bytes_witness:
  "\<exists>st st'. mem_data_buffer_new 10 = Inr st \<and> mem_write vacant_key (bytes_source (replicate 10 7)) 512 0 0 [1] st = Inr st' \<and>
     is_present st' 0 \<and> mb_buf st' ! 1 = 0"
proof -
  obtain st where st: "mem_data_buffer_new 10 = Inr st" using small_buffer [of 10] by auto
  have "\<forall>p \<ge> 10. bytes_of (replicate 10 7) p = 0" using bytes_of_end [of "replicate 10 7"] by simp
  from page_start_write_loses_bytes [OF st this, of vacant_key "bytes_source (replicate 10 7)" 512 0 1] st
  show ?thesis by (auto simp: bytes_of_def)
qed

theorem truncated_bytes_return_witness:
  "\<exists>st st1 st2 st3 st4. mem_data_buffer_new 10 = Inr st \<and>
     read_begin vacant_key 512 0 0 [0] st = Inr (Some ([ReadAndCopy (Range 0 page_size) 0 1 0], [0]), st1) \<and>
     mb_resize 1 st1 = Inr st2 \<and>
     read_some_done (Range 0 page_size) 0 (replicate 10 7 @ replicate (page_size - 10) 0) st2 = Inr st3 \<and>
     mb_resize 10 st3 = Inr st4 \<and> mb_buf st4 ! 1 = 7"
proof -
  obtain st where st: "mem_data_buffer_new 10 = Inr st" using small_buffer [of 10] by auto
  let ?src = "bytes_of (replicate 10 7)" and ?rb = "replicate 10 7 @ replicate (page_size - 10) 0"
  have "reads_source ?src (Range 0 page_size) ?rb"
    by (auto simp: reads_source_def bytes_of_def nth_append page_size_def)
  from truncated_bytes_return [OF st _ _ _ vacant_key_law this, of 512 0 0]
  obtain k st1 st2 st3 st4 where r:
    "read_begin vacant_key 512 0 0 [0] st = Inr (Some ([ReadAndCopy (Range 0 page_size) 0 1 k], [0]), st1)"
    "mb_resize 1 st1 = Inr st2" "read_some_done (Range 0 page_size) k ?rb st2 = Inr st3" "mb_resize 10 st3 = Inr st4" "mb_buf st4 ! 1 = ?src 1"
    by (auto simp: bytes_of_def page_size_def)
  have "k = vacant_key []" using first_byte_read [OF st, of 512 vacant_key 0 0] r(1) by (simp add: page_size_def)
  also have "vacant_key [] = 0" by (simp add: vacant_key_def present_def u64_max_def upt_rec)
  finally have "k = 0" .
  with st r show ?thesis by (auto simp: bytes_of_def)
qed

end
