(* ===== verification/Store_Handle.thy ===== *)
theory Store_Handle
  imports Object_Trim Fxfs_Checksum
begin

text \<open>
  The handle of a file in an object store, \<^verbatim>\<open>StoreObjectHandle\<close> of
  \<^verbatim>\<open>src/src/object_store/store_object_handle.rs\<close>, and the XTS ciphers of \<^verbatim>\<open>src/src/crypt.rs\<close> it encrypts with.

  The device is a record of functions on a device state \<open>'d\<close>, the transaction that the file system hands
  out and the checkpoint of a commit are arguments, and so is what \<^verbatim>\<open>sync\<close> does to the allocator. An operation
  returns the allocator, the device and the transaction it leaves. Reads and writes that the code starts
  together are done in the order it starts them; an iterator over the tree is the list of its items. The
  read lock and the log messages are left out.
\<close>

section \<open>The device\<close>

text \<open>\<^verbatim>\<open>storage_device::Device\<close>: reading so many bytes at an offset, writing, and new transfer buffers.\<close>

record 'd device =
  dev_block_size :: nat
  dev_read :: "nat \<Rightarrow> nat \<Rightarrow> 'd \<Rightarrow> u8 list res"
  dev_write :: "nat \<Rightarrow> u8 list \<Rightarrow> 'd \<Rightarrow> 'd res"
  allocate_buffer :: "nat \<Rightarrow> u8 list"

section \<open>Encryption of file contents\<close>

text \<open>
  \<^verbatim>\<open>Xts128\<close> of a key: \<^verbatim>\<open>encrypt_area\<close> and \<^verbatim>\<open>decrypt_area\<close> take the buffer, the size of a sector and the number of
  the first sector.
\<close>

record xts =
  encrypt_area :: "u8 list \<Rightarrow> nat \<Rightarrow> nat \<Rightarrow> u8 list"
  decrypt_area :: "u8 list \<Rightarrow> nat \<Rightarrow> nat \<Rightarrow> u8 list"

record xts_cipher =
  xts_id :: nat
  xts_of :: xts

definition sector_size :: nat where
  "sector_size = 512"

definition xts_cipher_set_new :: "(unwrapped_key \<Rightarrow> xts) \<Rightarrow> (nat \<times> unwrapped_key) list \<Rightarrow> xts_cipher list" where
  "xts_cipher_set_new xts128 keys = map (\<lambda>(i, k). \<lparr>xts_id = i, xts_of = xts128 k\<rparr>) keys"

definition xts_decrypt :: "xts_cipher list \<Rightarrow> nat \<Rightarrow> nat \<Rightarrow> u8 list \<Rightarrow> u8 list res" where
  "xts_decrypt self offset kid buffer =
     bind_res (ensure (offset mod sector_size = 0) Panic) (\<lambda>_.
     case List.find (\<lambda>c. xts_id c = kid) self of
       None \<Rightarrow> Inl Bail
     | Some c \<Rightarrow> Inr (decrypt_area (xts_of c) buffer sector_size (offset div sector_size)))"

definition xts_encrypt :: "xts_cipher list \<Rightarrow> nat \<Rightarrow> nat \<Rightarrow> u8 list \<Rightarrow> u8 list res" where
  "xts_encrypt self offset kid buffer =
     bind_res (ensure (offset mod sector_size = 0) Panic) (\<lambda>_.
     case List.find (\<lambda>c. xts_id c = kid) self of
       None \<Rightarrow> Inl Bail
     | Some c \<Rightarrow> Inr (encrypt_area (xts_of c) buffer sector_size (offset div sector_size)))"

section \<open>Handles\<close>

text \<open>\<open>h_assoc\<close> stands for the handle where a transaction keeps it with a mutation.\<close>

record store_object_handle =
  h_object_id :: nat
  h_attribute_id :: nat
  h_keys :: "xts_cipher list option"
  h_content_size :: nat
  h_assoc :: nat

definition store_object_handle_new ::
  "(unwrapped_key \<Rightarrow> xts) \<Rightarrow> nat \<Rightarrow> nat \<Rightarrow> (nat \<times> unwrapped_key) list option \<Rightarrow> nat \<Rightarrow> nat \<Rightarrow> store_object_handle" where
  "store_object_handle_new xts128 assoc oid keys aid n =
     \<lparr>h_object_id = oid, h_attribute_id = aid, h_keys = map_option (xts_cipher_set_new xts128) keys,
      h_content_size = n, h_assoc = assoc\<rparr>"

definition get_size :: "store_object_handle \<Rightarrow> nat" where
  "get_size self = h_content_size self"

text \<open>\<^verbatim>\<open>AssociatedObject::will_apply_mutation\<close>, and what a commit does to the handle.\<close>

definition handle_will_apply :: "mutation \<Rightarrow> store_object_handle \<Rightarrow> store_object_handle" where
  "handle_will_apply m self =
     (case m of
        ObjectStoreM om \<Rightarrow>
          (case value (osm_item om) of VAttribute n \<Rightarrow> self\<lparr>h_content_size := n\<rparr> | _ \<Rightarrow> self)
      | _ \<Rightarrow> self)"

definition handle_commit ::
  "nat \<Rightarrow> checkpoint \<Rightarrow> transaction \<Rightarrow> store_object_handle \<Rightarrow> object_store \<Rightarrow> simple_allocator \<Rightarrow>
   (store_object_handle \<times> object_store \<times> simple_allocator \<times> transaction) res" where
  "handle_commit fuel cp txn self s a =
     bind_res (store_commit fuel cp txn s a) (\<lambda>(s, a, txn').
       Inr (fold (\<lambda>t h. if tm_associated_object t = Some (h_assoc h) then handle_will_apply (tm_mutation t) h else h)
              (mutations txn) self, s, a, txn'))"

definition read_and_decrypt ::
  "'d device \<Rightarrow> 'd \<Rightarrow> nat \<Rightarrow> nat \<Rightarrow> nat \<Rightarrow> nat \<Rightarrow> store_object_handle \<Rightarrow> u8 list res" where
  "read_and_decrypt D d dv off len kid self =
     bind_res (dev_read D dv len d) (\<lambda>buffer.
     case h_keys self of
       None \<Rightarrow> Inr buffer
     | Some keys \<Rightarrow> xts_decrypt keys off kid buffer)"

definition txn_get_size :: "transaction \<Rightarrow> object_store \<Rightarrow> store_object_handle \<Rightarrow> nat" where
  "txn_get_size txn s self =
     (case get_object_mutation (os_store_object_id s)
             (object_key_attribute (h_object_id self) (h_attribute_id self) Size) txn of
        Some m \<Rightarrow> (case value (osm_item m) of VAttribute n \<Rightarrow> n | _ \<Rightarrow> get_size self)
      | None \<Rightarrow> get_size self)"

definition set_size :: "nat \<Rightarrow> object_store \<Rightarrow> store_object_handle \<Rightarrow> transaction \<Rightarrow> transaction res" where
  "set_size n s self txn =
     txn_add_with_object (os_store_object_id s)
       (replace_or_insert_object (object_key_attribute (h_object_id self) (h_attribute_id self) Size) (VAttribute n))
       (Some (h_assoc self)) txn"

definition update_allocated_size ::
  "nat \<Rightarrow> nat \<Rightarrow> nat \<Rightarrow> object_store \<Rightarrow> store_object_handle \<Rightarrow> transaction \<Rightarrow> transaction res" where
  "update_allocated_size fuel allocated deallocated s self txn =
     (if allocated = deallocated then Inr txn
      else
        bind_res (txn_get_object_mutation fuel txn (h_object_id self) s) (\<lambda>m.
        case value (osm_item m) of
          VObject (File n asize) attrs \<Rightarrow>
            (case checked_add asize allocated of
               None \<Rightarrow> Inl (Fxfs Inconsistent)
             | Some asize \<Rightarrow>
                 (case checked_sub asize deallocated of
                    None \<Rightarrow> Inl (Fxfs Inconsistent)
                  | Some asize \<Rightarrow>
                      bind_res (txn_add (os_store_object_id s)
                        (ObjectStoreM (m\<lparr>osm_item := (osm_item m)\<lparr>value := VObject (File n asize) attrs\<rparr>\<rparr>)) txn) (\<lambda>(_, txn).
                        Inr txn)))
        | _ \<Rightarrow> Inl Panic))"

definition extend ::
  "nat \<Rightarrow> u64_range \<Rightarrow> object_store \<Rightarrow> store_object_handle \<Rightarrow> simple_allocator \<Rightarrow> transaction \<Rightarrow> (simple_allocator \<times> transaction) res" where
  "extend fuel dr s self a txn =
     bind_res (round_up (txn_get_size txn s self) (os_block_size s)) (\<lambda>r.
     case r of
       None \<Rightarrow> Inl (Fxfs TooBig)
     | Some old_end \<Rightarrow>
         bind_res (u64_add old_end (rend dr)) (\<lambda>n.
         bind_res (u64_sub n (rstart dr)) (\<lambda>new_size.
         bind_res (mark_allocated (os_store_object_id s) dr a txn) (\<lambda>(a, txn).
         bind_res (set_size new_size s self txn) (\<lambda>txn.
         bind_res (txn_add (os_store_object_id s)
           (merge_object (object_key_extent (h_object_id self) (h_attribute_id self) (Range old_end new_size))
              (VExtent (extent_value_new (rstart dr)))) txn) (\<lambda>(_, txn).
         bind_res (u64_sub (rend dr) (rstart dr)) (\<lambda>len.
         bind_res (update_allocated_size fuel len 0 s self txn) (\<lambda>txn.
           Inr (a, txn)))))))))"

section \<open>Reading\<close>

text \<open>
  One turn of the loop of \<^verbatim>\<open>read\<close> over the items from the offset on; \<open>n\<close> is the length of the part of the
  buffer that is still to be filled. The result is the contents of that part, when the loop ends here, or
  what was filled, the offset and the length for the next turn. \<open>read_copy\<close> is the case of an extent that is mapped.
\<close>

definition read_copy ::
  "'d device \<Rightarrow> 'd \<Rightarrow> nat \<Rightarrow> nat \<Rightarrow> store_object_handle \<Rightarrow> u64_range \<Rightarrow> nat \<Rightarrow> nat \<Rightarrow> nat \<Rightarrow> nat \<Rightarrow> (u8 list + u8 list \<times> nat \<times> nat) res" where
  "read_copy D d bs end_align self r dv kid offset n =
     bind_res (u64_add dv (offset - rstart r)) (\<lambda>dv.
     bind_res (u64_sub n end_align) (\<lambda>whole.
     bind_res (u64_sub (rend r) offset) (\<lambda>left.
     let to_copy = min whole left in
     bind_res (if to_copy > 0 then read_and_decrypt D d dv offset to_copy kid self else Inr []) (\<lambda>copied.
     if to_copy > 0 \<and> n \<le> to_copy then Inr (Inl copied)
     else
       bind_res (u64_add dv to_copy) (\<lambda>dv.
       if offset + to_copy < rend r \<and> end_align > 0
       then bind_res (read_and_decrypt D d dv (offset + to_copy) bs kid self) (\<lambda>align_buf.
            bind_res (ensure (n - to_copy = end_align \<and> end_align \<le> length align_buf) Panic) (\<lambda>_.
              Inr (Inl (copied @ take end_align align_buf))))
       else Inr (Inr (copied, offset + to_copy, n - to_copy)))))))"

definition read_step ::
  "'d device \<Rightarrow> 'd \<Rightarrow> nat \<Rightarrow> nat \<Rightarrow> store_object_handle \<Rightarrow> encryption_keys object_item \<Rightarrow> nat \<Rightarrow> nat \<Rightarrow>
   (u8 list + u8 list \<times> nat \<times> nat) res" where
  "read_step D d bs end_align self i offset n =
     (case item_as_extent i of
        None \<Rightarrow> Inr (Inl (replicate n 0))
      | Some (oid, aid, ek, ev) \<Rightarrow>
          if oid \<noteq> h_object_id self \<or> aid \<noteq> h_attribute_id self then Inr (Inl (replicate n 0))
          else
            bind_res (range_is_aligned (range ek) bs) (\<lambda>aligned.
            bind_res (ensure (range_is_valid (range ek) \<and> aligned) (Fxfs Inconsistent)) (\<lambda>_.
            let to_zero = min (rstart (range ek) - offset) n; gap = replicate to_zero 0;
                fill = (case_sum (\<lambda>bytes. Inl (gap @ bytes)) (\<lambda>(bytes, q). Inr (gap @ bytes, q))) in
            if rstart (range ek) > offset \<and> n \<le> to_zero then Inr (Inl (replicate n 0))
            else
              (case ev of
                 ExtentSome dv _ kid \<Rightarrow>
                   bind_res (read_copy D d bs end_align self (range ek) dv kid (offset + to_zero) (n - to_zero)) (\<lambda>q.
                     Inr (fill q))
               | ExtentNone \<Rightarrow>
                   bind_res (u64_add (offset + to_zero) (n - to_zero)) (\<lambda>fin.
                     Inr (fill (if rend (range ek) \<ge> fin then Inl (replicate (n - to_zero) 0)
                                else Inr ([], offset + to_zero, n - to_zero))))))))"

fun read_loop ::
  "'d device \<Rightarrow> 'd \<Rightarrow> nat \<Rightarrow> nat \<Rightarrow> store_object_handle \<Rightarrow> encryption_keys object_item list \<Rightarrow> nat \<Rightarrow> nat \<Rightarrow> u8 list res" where
  "read_loop D d bs end_align self [] offset n = Inr (replicate n 0)"
| "read_loop D d bs end_align self (i # items) offset n =
     bind_res (read_step D d bs end_align self i offset n) (\<lambda>q.
     case q of
       Inl bytes \<Rightarrow> Inr bytes
     | Inr (filled, offset, n) \<Rightarrow>
         bind_res (read_loop D d bs end_align self items offset n) (\<lambda>rest. Inr (filled @ rest)))"

text \<open>
  \<^verbatim>\<open>ReadObjectHandle::read\<close>: the number of bytes read and the buffer. \<open>at\<close> is where the buffer starts in the
  device's transfer memory, relative to an aligned position.
\<close>

definition handle_read ::
  "nat \<Rightarrow> 'd device \<Rightarrow> 'd \<Rightarrow> object_store \<Rightarrow> store_object_handle \<Rightarrow> nat \<Rightarrow> nat \<Rightarrow> u8 list \<Rightarrow> (nat \<times> u8 list) res" where
  "handle_read fuel D d s self offset at buf =
     (if buf = [] then Inr (0, buf)
      else
        bind_res (u64_rem offset (os_block_size s)) (\<lambda>r.
        bind_res (ensure (r = 0) Panic) (\<lambda>_.
        bind_res (u64_rem at (dev_block_size D)) (\<lambda>r.
        bind_res (ensure (r = 0) Panic) (\<lambda>_.
        if offset \<ge> get_size self then Inr (0, buf)
        else
          bind_res (u64_add offset 1) (\<lambda>o1.
          bind_res (object_iter fuel (os_tree s)
                     (object_key_extent (h_object_id self) (h_attribute_id self) (Range offset o1))) (\<lambda>items.
          let to_do = min (length buf) (get_size self - offset) in
          bind_res (u64_add offset to_do) (\<lambda>e.
          bind_res (read_loop D d (os_block_size s) (e mod os_block_size s) self items offset to_do) (\<lambda>bytes.
            Inr (to_do, bytes @ drop to_do buf))))))))))"

section \<open>Deallocating and zeroing\<close>

text \<open>The loop of \<^verbatim>\<open>deallocate_old_extents\<close>: the bytes deallocated and the transaction.\<close>

fun dealloc_extents ::
  "nat \<Rightarrow> object_store \<Rightarrow> store_object_handle \<Rightarrow> simple_allocator \<Rightarrow> extent_key \<Rightarrow> encryption_keys object_item list \<Rightarrow> nat \<Rightarrow>
   transaction \<Rightarrow> (nat \<times> transaction) res" where
  "dealloc_extents fuel s self a k [] deallocated txn = Inr (deallocated, txn)"
| "dealloc_extents fuel s self a k (i # items) deallocated txn =
     (case item_as_extent i of
        None \<Rightarrow> Inr (deallocated, txn)
      | Some (oid, aid, ek, ev) \<Rightarrow>
          if oid \<noteq> h_object_id self \<or> aid \<noteq> h_attribute_id self then Inr (deallocated, txn)
          else (case ev of
            ExtentNone \<Rightarrow> dealloc_extents fuel s self a k items deallocated txn
          | ExtentSome dv _ _ \<Rightarrow>
              (case overlap k ek of
                 None \<Rightarrow> Inr (deallocated, txn)
               | Some ov \<Rightarrow>
                   bind_res (u64_add dv (rstart ov)) (\<lambda>x.
                   bind_res (u64_sub x (rstart (range ek))) (\<lambda>x.
                   bind_res (u64_add dv (rend ov)) (\<lambda>y.
                   bind_res (u64_sub y (rstart (range ek))) (\<lambda>y.
                   bind_res (range_is_aligned (Range x y) (os_block_size s)) (\<lambda>aligned.
                   bind_res (ensure aligned (Fxfs Inconsistent)) (\<lambda>_.
                   bind_res (deallocate fuel (os_store_object_id s) (Range x y) a txn) (\<lambda>(_, txn).
                   bind_res (u64_add deallocated (rend ov - rstart ov)) (\<lambda>deallocated.
                     dealloc_extents fuel s self a k items deallocated txn)))))))))))"

definition deallocate_old_extents ::
  "nat \<Rightarrow> u64_range \<Rightarrow> object_store \<Rightarrow> store_object_handle \<Rightarrow> simple_allocator \<Rightarrow> transaction \<Rightarrow> (nat \<times> transaction) res" where
  "deallocate_old_extents fuel r s self a txn =
     bind_res (u64_rem (rstart r) (os_block_size s)) (\<lambda>m.
     bind_res (ensure (m = 0) Panic) (\<lambda>_.
     bind_res (u64_rem (rend r) (os_block_size s)) (\<lambda>m.
     bind_res (ensure (m = 0) Panic) (\<lambda>_.
       if rstart r = rend r then Inr (0, txn)
       else
         bind_res (extent_search_key (ExtentKey r)) (\<lambda>sk.
         bind_res (object_iter fuel (os_tree s)
                    (object_key_attribute (h_object_id self) (h_attribute_id self) (Extent sk))) (\<lambda>items.
           dealloc_extents fuel s self a (ExtentKey r) items 0 txn))))))"

definition zero_range ::
  "nat \<Rightarrow> u64_range \<Rightarrow> object_store \<Rightarrow> store_object_handle \<Rightarrow> simple_allocator \<Rightarrow> transaction \<Rightarrow> transaction res" where
  "zero_range fuel r s self a txn =
     bind_res (deallocate_old_extents fuel r s self a txn) (\<lambda>(deallocated, txn).
       if deallocated > 0
       then bind_res (update_allocated_size fuel 0 deallocated s self txn) (\<lambda>txn.
            bind_res (txn_add (os_store_object_id s)
              (merge_object (object_key_extent (h_object_id self) (h_attribute_id self) r) (VExtent ExtentNone)) txn) (\<lambda>(_, txn).
              Inr txn))
       else Inr txn)"

section \<open>Which parts are allocated\<close>

text \<open>
  The loop of \<^verbatim>\<open>is_allocated\<close>: \<open>allocated\<close> is what is known so far of the part up to \<open>e\<close>. Records that are not
  extents are passed over.
\<close>

fun allocated_loop ::
  "nat \<Rightarrow> store_object_handle \<Rightarrow> encryption_keys object_item list \<Rightarrow> bool option \<Rightarrow> nat \<Rightarrow> (bool \<times> nat) res" where
  "allocated_loop bs self [] allocated e =
     Inr (if allocated = Some True then (True, e) else (False, get_size self))"
| "allocated_loop bs self (i # items) allocated e =
     (case item_as_extent i of
        None \<Rightarrow> allocated_loop bs self items allocated e
      | Some (oid, aid, ek, ev) \<Rightarrow>
          if oid \<noteq> h_object_id self \<or> aid \<noteq> h_attribute_id self
          then Inr (if allocated = Some True then (True, e) else (False, get_size self))
          else
            bind_res (range_is_aligned (range ek) bs) (\<lambda>aligned.
            bind_res (ensure aligned (Fxfs Inconsistent)) (\<lambda>_.
            if rstart (range ek) > e \<and> allocated = Some True then Inr (True, e)
            else
              let (e, allocated) = (if rstart (range ek) > e then (rstart (range ek), Some False) else (e, allocated)) in
              case ev of
                ExtentSome _ _ _ \<Rightarrow>
                  if allocated = Some False then Inr (False, e)
                  else allocated_loop bs self items (Some True) (rend (range ek))
              | ExtentNone \<Rightarrow>
                  if allocated = Some True then Inr (True, e)
                  else allocated_loop bs self items (Some False) (rend (range ek)))))"

definition is_allocated :: "nat \<Rightarrow> nat \<Rightarrow> object_store \<Rightarrow> store_object_handle \<Rightarrow> (bool \<times> nat) res" where
  "is_allocated fuel start_offset s self =
     bind_res (u64_rem start_offset (os_block_size s)) (\<lambda>m.
     bind_res (ensure (m = 0) Panic) (\<lambda>_.
       if start_offset > get_size self then Inl (Fxfs OutOfRange)
       else if start_offset = get_size self then Inr (False, 0)
       else
         bind_res (search_key_from_offset start_offset) (\<lambda>sk.
         bind_res (object_iter fuel (os_tree s)
                    (object_key_attribute (h_object_id self) (h_attribute_id self) (Extent sk))) (\<lambda>items.
         bind_res (allocated_loop (os_block_size s) self items None start_offset) (\<lambda>(allocated, e).
         bind_res (u64_sub e start_offset) (\<lambda>len. Inr (allocated, len)))))))"

section \<open>Writing\<close>

text \<open>
  \<^verbatim>\<open>align_buffer\<close>: the aligned range and a buffer for it, with the bytes of the head and the tail block read
  from the file. \<open>copy_slice at bytes buf\<close> is \<^verbatim>\<open>copy_from_slice\<close> to a part of a buffer.
\<close>

definition copy_slice :: "nat \<Rightarrow> 'a list \<Rightarrow> 'a list \<Rightarrow> 'a list" where
  "copy_slice at bytes buf = take at buf @ bytes @ drop (at + length bytes) buf"

definition read_block_zeroed ::
  "nat \<Rightarrow> 'd device \<Rightarrow> 'd \<Rightarrow> object_store \<Rightarrow> store_object_handle \<Rightarrow> nat \<Rightarrow> nat \<Rightarrow> u8 list \<Rightarrow> u8 list res" where
  "read_block_zeroed fuel D d s self offset at buf =
     bind_res (handle_read fuel D d s self offset at (take (os_block_size s) (drop at buf))) (\<lambda>(n, block).
       Inr (copy_slice at (take n block @ replicate (length block - n) 0) buf))"

definition align_buffer ::
  "nat \<Rightarrow> 'd device \<Rightarrow> 'd \<Rightarrow> object_store \<Rightarrow> store_object_handle \<Rightarrow> nat \<Rightarrow> u8 list \<Rightarrow> (u64_range \<times> u8 list) res" where
  "align_buffer fuel D d s self offset buf =
     (let bs = os_block_size s in
      bind_res (u64_add offset (length buf)) (\<lambda>fin.
      bind_res (round_down offset bs) (\<lambda>start.
      bind_res (round_up fin bs) (\<lambda>r.
      case r of
        None \<Rightarrow> Inl (Fxfs TooBig)
      | Some aligned_end \<Rightarrow>
          bind_res (u64_sub aligned_end start) (\<lambda>len.
          bind_res (if start < offset then read_block_zeroed fuel D d s self start 0 (allocate_buffer D len)
                    else Inr (allocate_buffer D len)) (\<lambda>aligned_buf.
          bind_res (if aligned_end > fin \<and> offset \<le> aligned_end - bs
                    then read_block_zeroed fuel D d s self (aligned_end - bs) (len - bs) aligned_buf
                    else Inr aligned_buf) (\<lambda>aligned_buf.
            Inr (Range start aligned_end, copy_slice (offset - start) buf aligned_buf))))))))"

fun block_checksums :: "nat \<Rightarrow> nat \<Rightarrow> u8 list \<Rightarrow> nat list res" where
  "block_checksums bs 0 buf = Inr []"
| "block_checksums bs (Suc n) buf =
     bind_res (fletcher64 (take bs buf) 0) (\<lambda>c.
     bind_res (block_checksums bs n (drop bs buf)) (\<lambda>cs. Inr (unat c # cs)))"

definition write_aligned ::
  "'d device \<Rightarrow> object_store \<Rightarrow> u8 list \<Rightarrow> nat \<Rightarrow> bool \<Rightarrow> 'd \<Rightarrow> (checksums \<times> 'd) res" where
  "write_aligned D s buf dv compute_checksum d =
     bind_res (dev_write D dv buf d) (\<lambda>d.
       if compute_checksum
       then bind_res (block_checksums (os_block_size s) (length buf div os_block_size s) buf) (\<lambda>cs. Inr (Fletcher cs, d))
       else Inr (ChecksumsNone, d))"

definition write_at ::
  "nat \<Rightarrow> 'd device \<Rightarrow> object_store \<Rightarrow> store_object_handle \<Rightarrow> nat \<Rightarrow> u8 list \<Rightarrow> nat \<Rightarrow> bool \<Rightarrow> 'd \<Rightarrow> (checksums \<times> 'd) res" where
  "write_at fuel D s self offset buf dv compute_checksum d =
     bind_res (u64_rem offset (os_block_size s)) (\<lambda>m.
     bind_res (if m = 0 \<and> length buf mod os_block_size s = 0
               then bind_res (u64_add offset (length buf)) (\<lambda>e. Inr (Range offset e, buf))
               else align_buffer fuel D d s self offset buf) (\<lambda>(r, transfer_buf).
     bind_res (case h_keys self of
                 None \<Rightarrow> Inr transfer_buf
               | Some keys \<Rightarrow> xts_encrypt keys (rstart r) 0 transfer_buf) (\<lambda>transfer_buf.
     bind_res (u64_sub offset (rstart r)) (\<lambda>m.
     bind_res (u64_sub dv m) (\<lambda>dv.
       write_aligned D s transfer_buf dv compute_checksum d)))))"

text \<open>
  The parts of \<^verbatim>\<open>multi_write\<close>: encrypting the buffer range by range, allocating space until it is used up, writing,
  and cutting what was written into the extents of the ranges. Allocating takes fuel \<open>n\<close>: each turn uses up a
  part of the buffer.
\<close>

fun encrypt_ranges :: "xts_cipher list \<Rightarrow> u64_range list \<Rightarrow> u8 list \<Rightarrow> u8 list res" where
  "encrypt_ranges keys [] bytes = Inr bytes"
| "encrypt_ranges keys (r # rs) bytes =
     bind_res (u64_sub (rend r) (rstart r)) (\<lambda>l.
     bind_res (ensure (l \<le> length bytes) Panic) (\<lambda>_.
     bind_res (xts_encrypt keys (rstart r) 0 (take l bytes)) (\<lambda>head.
     bind_res (encrypt_ranges keys rs (drop l bytes)) (\<lambda>tail. Inr (head @ tail)))))"

fun alloc_all ::
  "nat \<Rightarrow> nat \<Rightarrow> (simple_allocator \<Rightarrow> simple_allocator res) \<Rightarrow> object_store \<Rightarrow> u8 list \<Rightarrow> simple_allocator \<Rightarrow> transaction \<Rightarrow>
   ((nat \<times> u8 list) list \<times> simple_allocator \<times> transaction) res" where
  "alloc_all n fuel sync s [] a txn = Inr ([], a, txn)"
| "alloc_all 0 fuel sync s (b # buf) a txn = Inl OutOfFuel"
| "alloc_all (Suc n) fuel sync s (b # buf) a txn =
     bind_res (allocate fuel sync (os_store_object_id s) (length (b # buf)) a txn) (\<lambda>(r, a, txn).
     bind_res r (\<lambda>r.
     bind_res (u64_sub (rend r) (rstart r)) (\<lambda>len.
     bind_res (ensure (len \<le> length (b # buf)) Panic) (\<lambda>_.
     bind_res (alloc_all n fuel sync s (drop len (b # buf)) a txn) (\<lambda>(ws, a, txn).
       Inr ((rstart r, take len (b # buf)) # ws, a, txn))))))"

fun write_all ::
  "'d device \<Rightarrow> object_store \<Rightarrow> (nat \<times> u8 list) list \<Rightarrow> 'd \<Rightarrow> ((nat \<times> nat \<times> checksums) list \<times> 'd) res" where
  "write_all D s [] d = Inr ([], d)"
| "write_all D s ((dv, bytes) # ws) d =
     bind_res (write_aligned D s bytes dv True d) (\<lambda>(cs, d).
     bind_res (write_all D s ws d) (\<lambda>(written, d). Inr ((dv, length bytes, cs) # written, d)))"

definition extent_mutation :: "store_object_handle \<Rightarrow> u64_range \<Rightarrow> extent_value \<Rightarrow> mutation" where
  "extent_mutation self r v = merge_object (object_key_extent (h_object_id self) (h_attribute_id self) r) (VExtent v)"

text \<open>\<^verbatim>\<open>current_range\<close> of the code is \<open>r\<close>; \<open>rs\<close> are the ranges after it.\<close>

function cut_write ::
  "nat \<Rightarrow> store_object_handle \<Rightarrow> nat \<Rightarrow> nat \<Rightarrow> checksums \<Rightarrow> u64_range \<Rightarrow> u64_range list \<Rightarrow>
   (mutation list \<times> u64_range \<times> u64_range list) res" where
  "cut_write bs self dv len cs r rs =
     (if len = 0 then Inr ([], r, rs)
      else if rend r \<le> rstart r
      then (case rs of
              [] \<Rightarrow> Inl Panic
            | r' # rs' \<Rightarrow>
                if rend r' < rstart r' then Inl Panic
                else if rend r' = rstart r'
                then bind_res (checksums_split_off 0 cs) (\<lambda>(cs, tail).
                     bind_res (cut_write bs self dv len tail r' rs') (\<lambda>(ms, q).
                       Inr (extent_mutation self r' (with_checksum dv cs) # ms, q)))
                else cut_write bs self dv len cs r' rs')
      else
        let l = min len (rend r - rstart r) in
        bind_res (u64_div l bs) (\<lambda>k.
        bind_res (checksums_split_off k cs) (\<lambda>(cs, tail).
        bind_res (u64_add dv l) (\<lambda>dv'.
        bind_res (cut_write bs self dv' (len - l) tail (Range (rstart r + l) (rend r)) rs) (\<lambda>(ms, q).
          Inr (extent_mutation self (Range (rstart r) (rstart r + l)) (with_checksum dv cs) # ms, q))))))"
  by pat_completeness auto
termination
  by (relation "measure (\<lambda>(bs, self, dv, len, cs, r, rs). len + length rs)") (auto simp: min_def)

fun cut_all ::
  "nat \<Rightarrow> store_object_handle \<Rightarrow> (nat \<times> nat \<times> checksums) list \<Rightarrow> u64_range \<Rightarrow> u64_range list \<Rightarrow> mutation list res" where
  "cut_all bs self [] r rs = Inr []"
| "cut_all bs self ((dv, len, cs) # written) r rs =
     bind_res (cut_write bs self dv len cs r rs) (\<lambda>(ms, r, rs).
     bind_res (cut_all bs self written r rs) (\<lambda>ms'. Inr (ms @ ms')))"

fun dealloc_ranges ::
  "nat \<Rightarrow> u64_range list \<Rightarrow> object_store \<Rightarrow> store_object_handle \<Rightarrow> simple_allocator \<Rightarrow> transaction \<Rightarrow> (nat \<times> transaction) res" where
  "dealloc_ranges fuel [] s self a txn = Inr (0, txn)"
| "dealloc_ranges fuel (r # rs) s self a txn =
     bind_res (deallocate_old_extents fuel r s self a txn) (\<lambda>(n, txn).
     bind_res (dealloc_ranges fuel rs s self a txn) (\<lambda>(m, txn).
     bind_res (u64_add n m) (\<lambda>k. Inr (k, txn))))"

fun txn_add_all :: "nat \<Rightarrow> mutation list \<Rightarrow> transaction \<Rightarrow> transaction res" where
  "txn_add_all oid [] txn = Inr txn"
| "txn_add_all oid (m # ms) txn = bind_res (txn_add oid m txn) (\<lambda>(_, txn). txn_add_all oid ms txn)"

definition multi_write ::
  "nat \<Rightarrow> (simple_allocator \<Rightarrow> simple_allocator res) \<Rightarrow> 'd device \<Rightarrow> object_store \<Rightarrow> store_object_handle \<Rightarrow> u64_range list \<Rightarrow> u8 list \<Rightarrow>
   simple_allocator \<Rightarrow> 'd \<Rightarrow> transaction \<Rightarrow> (simple_allocator \<times> 'd \<times> transaction) res" where
  "multi_write fuel sync D s self ranges buf a d txn =
     (if buf = [] then Inr (a, d, txn)
      else
        bind_res (case h_keys self of None \<Rightarrow> Inr buf | Some keys \<Rightarrow> encrypt_ranges keys ranges buf) (\<lambda>buf.
        bind_res (alloc_all (length buf) fuel sync s buf a txn) (\<lambda>(ws, a, txn).
        bind_res (write_all D s ws d) (\<lambda>(written, d).
        bind_res (cut_all (os_block_size s) self written (Range 0 0) ranges) (\<lambda>ms.
        bind_res (dealloc_ranges fuel ranges s self a txn) (\<lambda>(deallocated, txn).
        bind_res (txn_add_all (os_store_object_id s) ms txn) (\<lambda>txn.
        bind_res (update_allocated_size fuel (sum_list (map (\<lambda>w. length (snd w)) ws)) deallocated s self txn) (\<lambda>txn.
          Inr (a, d, txn)))))))))"

definition txn_write ::
  "nat \<Rightarrow> (simple_allocator \<Rightarrow> simple_allocator res) \<Rightarrow> 'd device \<Rightarrow> object_store \<Rightarrow> store_object_handle \<Rightarrow> nat \<Rightarrow> u8 list \<Rightarrow>
   simple_allocator \<Rightarrow> 'd \<Rightarrow> transaction \<Rightarrow> (simple_allocator \<times> 'd \<times> transaction) res" where
  "txn_write fuel sync D s self offset buf a d txn =
     (if buf = [] then Inr (a, d, txn)
      else
        bind_res (align_buffer fuel D d s self offset buf) (\<lambda>(aligned, transfer_buf).
        bind_res (multi_write fuel sync D s self [aligned] transfer_buf a d txn) (\<lambda>(a, d, txn).
        bind_res (if offset + length buf > txn_get_size txn s self then set_size (offset + length buf) s self txn
                  else Inr txn) (\<lambda>txn.
          Inr (a, d, txn)))))"

end
