(* ===== verification/Handle_Ops.thy ===== *)
theory Handle_Ops
  imports Store_Handle
begin

text \<open>
  The operations of \<^verbatim>\<open>StoreObjectHandle\<close> that change the size of a file or write in place, and those that make
  transactions of their own; \<^verbatim>\<open>DirectWriter\<close>. \<open>cp\<close> numbers the checkpoints of the commits, and loops that
  commit take fuel \<open>n\<close>, which counts them.
\<close>

section \<open>Shrinking\<close>

definition shrink ::
  "nat \<Rightarrow> nat \<Rightarrow> object_store \<Rightarrow> store_object_handle \<Rightarrow> simple_allocator \<Rightarrow> transaction \<Rightarrow> (bool \<times> transaction) res" where
  "shrink fuel n s self a txn =
     bind_res (trim_some fuel (h_object_id self) (h_attribute_id self) (FromOffset n) s a txn) (\<lambda>(r, txn).
     bind_res
       (if r = Incomplete
        then bind_res (sri_info (os_store_info s)) (\<lambda>info.
             let k = object_key_graveyard_entry (graveyard_directory_object_id info) (h_object_id self) in
             bind_res (store_find fuel k s) (\<lambda>found.
               if (case found of Some i \<Rightarrow> value i = VSome \<or> value i = VTrim | None \<Rightarrow> False) then Inr txn
               else bind_res (txn_add (os_store_object_id s) (replace_or_insert_object k VTrim) txn) (\<lambda>(_, txn). Inr txn)))
        else Inr txn) (\<lambda>txn.
     bind_res (set_size n s self txn) (\<lambda>txn. Inr (r = Incomplete, txn))))"

section \<open>Growing\<close>

text \<open>\<^verbatim>\<open>trim_some\<close> again and again, with a commit after each turn that did not complete.\<close>

fun trim_committing ::
  "nat \<Rightarrow> nat \<Rightarrow> (nat \<Rightarrow> checkpoint) \<Rightarrow> nat \<Rightarrow> store_object_handle \<Rightarrow> object_store \<Rightarrow> simple_allocator \<Rightarrow> transaction \<Rightarrow>
   (store_object_handle \<times> object_store \<times> simple_allocator \<times> transaction) res" where
  "trim_committing 0 fuel cp off self s a txn = Inl OutOfFuel"
| "trim_committing (Suc n) fuel cp off self s a txn =
     bind_res (trim_some fuel (h_object_id self) (h_attribute_id self) (FromOffset off) s a txn) (\<lambda>(r, txn).
       if r = Incomplete
       then bind_res (handle_commit fuel (cp n) txn self s a) (\<lambda>(self, s, a, txn). trim_committing n fuel cp off self s a txn)
       else Inr (self, s, a, txn))"

text \<open>Zeroes the part of the old last block that is behind the old size.\<close>

definition zero_old_tail ::
  "nat \<Rightarrow> (simple_allocator \<Rightarrow> simple_allocator res) \<Rightarrow> 'd device \<Rightarrow> nat \<Rightarrow> object_store \<Rightarrow> store_object_handle \<Rightarrow>
   simple_allocator \<Rightarrow> 'd \<Rightarrow> transaction \<Rightarrow> (simple_allocator \<times> 'd \<times> transaction) res" where
  "zero_old_tail fuel sync D old_size s self a d txn =
     (let bs = os_block_size s in
      bind_res (round_down old_size bs) (\<lambda>aligned_old_size.
      bind_res (u64_add aligned_old_size 1) (\<lambda>o1.
      bind_res (object_iter fuel (os_tree s)
                 (object_key_extent (h_object_id self) (h_attribute_id self) (Range aligned_old_size o1))) (\<lambda>items.
      case items of
        [] \<Rightarrow> Inr (a, d, txn)
      | i # _ \<Rightarrow>
          (case item_as_extent i of
             Some (oid, aid, ek, ExtentSome dv _ kid) \<Rightarrow>
               if oid = h_object_id self \<and> aid = h_attribute_id self
               then
                 bind_res (u64_sub aligned_old_size (rstart (range ek))) (\<lambda>m.
                 case checked_add dv m of
                   None \<Rightarrow> Inl (Fxfs Inconsistent)
                 | Some dv \<Rightarrow>
                     bind_res (ensure (dv mod bs = 0) (Fxfs Inconsistent)) (\<lambda>_.
                     bind_res (read_and_decrypt D d dv aligned_old_size bs kid self) (\<lambda>buf.
                     bind_res (u64_add aligned_old_size bs) (\<lambda>e.
                       multi_write fuel sync D s self [Range aligned_old_size e]
                         (take (old_size mod bs) buf @ replicate (length buf - old_size mod bs) 0) a d txn))))
               else Inr (a, d, txn)
           | _ \<Rightarrow> Inr (a, d, txn))))))"

definition grow ::
  "nat \<Rightarrow> nat \<Rightarrow> (nat \<Rightarrow> checkpoint) \<Rightarrow> (simple_allocator \<Rightarrow> simple_allocator res) \<Rightarrow> 'd device \<Rightarrow> nat \<Rightarrow> nat \<Rightarrow>
   store_object_handle \<Rightarrow> object_store \<Rightarrow> simple_allocator \<Rightarrow> 'd \<Rightarrow> transaction \<Rightarrow>
   (store_object_handle \<times> object_store \<times> simple_allocator \<times> 'd \<times> transaction) res" where
  "grow n fuel cp sync D old_size new_size self s a d txn =
     bind_res (trim_committing n fuel cp old_size self s a txn) (\<lambda>(self, s, a, txn).
     bind_res (u64_rem old_size (os_block_size s)) (\<lambda>m.
     bind_res (if m \<noteq> 0 then zero_old_tail fuel sync D old_size s self a d txn else Inr (a, d, txn)) (\<lambda>(a, d, txn).
     bind_res (set_size new_size s self txn) (\<lambda>txn.
       Inr (self, s, a, d, txn)))))"

section \<open>Writing in place\<close>

text \<open>
  One turn of the loop of \<^verbatim>\<open>overwrite\<close>: where on the device to write, how many bytes, and whether the iterator
  is done with the item. The transaction is there when allocations are allowed.
\<close>

definition own_extent :: "store_object_handle \<Rightarrow> encryption_keys object_item \<Rightarrow> extent_key option" where
  "own_extent self i =
     (case data (key i) of
        Attribute aid (Extent ek) \<Rightarrow>
          if object_id (key i) = h_object_id self \<and> aid = h_attribute_id self then Some ek else None
      | _ \<Rightarrow> None)"

definition overwrite_existing ::
  "nat \<Rightarrow> u64_range \<Rightarrow> encryption_keys object_value \<Rightarrow> nat \<Rightarrow> nat \<Rightarrow> (nat \<times> nat) res" where
  "overwrite_existing bs r v offset len =
     (case v of
        VExtent (ExtentSome dv ChecksumsNone _) \<Rightarrow>
          bind_res (range_is_aligned r bs) (\<lambda>aligned.
          bind_res (ensure (aligned \<and> dv mod bs = 0) (Fxfs Inconsistent)) (\<lambda>_.
          case checked_sub (rend r) offset of
            None \<Rightarrow> Inl (Fxfs Inconsistent)
          | Some remaining \<Rightarrow> bind_res (u64_add dv (offset - rstart r)) (\<lambda>dv. Inr (dv, min len remaining))))
      | _ \<Rightarrow> Inl Bail)"

definition overwrite_new ::
  "nat \<Rightarrow> (simple_allocator \<Rightarrow> simple_allocator res) \<Rightarrow> object_store \<Rightarrow> store_object_handle \<Rightarrow>
   extent_key option \<Rightarrow> nat \<Rightarrow> nat \<Rightarrow> simple_allocator \<Rightarrow> transaction \<Rightarrow> ((nat \<times> nat) \<times> simple_allocator \<times> transaction) res" where
  "overwrite_new fuel sync s self next_extent offset len a txn =
     (let bs = os_block_size s; sid = os_store_object_id s in
      bind_res (ensure (offset mod bs = 0) Panic) (\<lambda>_.
      bind_res (round_up len bs) (\<lambda>r.
      case r of
        None \<Rightarrow> Inl (Fxfs TooBig)
      | Some want \<Rightarrow>
          let want = (case next_extent of
                        Some ek \<Rightarrow> if offset < rstart (range ek) then min want (rstart (range ek) - offset) else want
                      | None \<Rightarrow> want) in
          bind_res (allocate fuel sync sid want a txn) (\<lambda>(r, a, txn).
          bind_res r (\<lambda>r.
          bind_res (u64_sub (rend r) (rstart r)) (\<lambda>got.
          bind_res (u64_add offset got) (\<lambda>e.
          bind_res (txn_add sid
            (insert_object (object_key_extent (h_object_id self) (h_attribute_id self) (Range offset e))
              (VExtent (extent_value_new (rstart r)))) txn) (\<lambda>(_, txn).
          bind_res (update_allocated_size fuel got 0 s self txn) (\<lambda>txn.
            Inr ((rstart r, min len got), a, txn))))))))))"

definition overwrite_step ::
  "nat \<Rightarrow> (simple_allocator \<Rightarrow> simple_allocator res) \<Rightarrow> object_store \<Rightarrow> store_object_handle \<Rightarrow>
   encryption_keys object_item list \<Rightarrow> nat \<Rightarrow> nat \<Rightarrow> simple_allocator \<Rightarrow> transaction option \<Rightarrow>
   ((nat \<times> nat) \<times> bool \<times> simple_allocator \<times> transaction option) res" where
  "overwrite_step fuel sync s self items offset len a txn =
     (let next_extent = (case items of [] \<Rightarrow> None | i # _ \<Rightarrow> own_extent self i) in
      case (items, next_extent) of
        (i # _, Some ek) \<Rightarrow>
          if rstart (range ek) \<le> offset
          then bind_res (overwrite_existing (os_block_size s) (range ek) (value i) offset len) (\<lambda>q. Inr (q, True, a, txn))
          else (case txn of
                  None \<Rightarrow> Inl Bail
                | Some txn \<Rightarrow> bind_res (overwrite_new fuel sync s self next_extent offset len a txn) (\<lambda>(q, a, txn).
                    Inr (q, False, a, Some txn)))
      | _ \<Rightarrow> (case txn of
                None \<Rightarrow> Inl Bail
              | Some txn \<Rightarrow> bind_res (overwrite_new fuel sync s self next_extent offset len a txn) (\<lambda>(q, a, txn).
                  Inr (q, False, a, Some txn))))"

text \<open>The writes are collected as offset, bytes and device offset. Each turn takes an item or bytes, which bounds them.\<close>

fun overwrite_loop ::
  "nat \<Rightarrow> nat \<Rightarrow> (simple_allocator \<Rightarrow> simple_allocator res) \<Rightarrow> object_store \<Rightarrow> store_object_handle \<Rightarrow>
   encryption_keys object_item list \<Rightarrow> nat \<Rightarrow> u8 list \<Rightarrow> simple_allocator \<Rightarrow> transaction option \<Rightarrow>
   ((nat \<times> u8 list \<times> nat) list \<times> simple_allocator \<times> transaction option) res" where
  "overwrite_loop 0 fuel sync s self items offset buf a txn = Inl OutOfFuel"
| "overwrite_loop (Suc n) fuel sync s self items offset buf a txn =
     bind_res (overwrite_step fuel sync s self items offset (length buf) a txn) (\<lambda>((dv, len), should_advance, a, txn).
       if length buf \<le> len then Inr ([(offset, buf, dv)], a, txn)
       else bind_res (overwrite_loop n fuel sync s self (if should_advance then tl items else items) (offset + len) (drop len buf) a txn)
              (\<lambda>(ws, a, txn). Inr ((offset, take len buf, dv) # ws, a, txn)))"

fun write_all_at ::
  "nat \<Rightarrow> 'd device \<Rightarrow> object_store \<Rightarrow> store_object_handle \<Rightarrow> (nat \<times> u8 list \<times> nat) list \<Rightarrow> 'd \<Rightarrow> 'd res" where
  "write_all_at fuel D s self [] d = Inr d"
| "write_all_at fuel D s self ((offset, bytes, dv) # ws) d =
     bind_res (write_at fuel D s self offset bytes dv False d) (\<lambda>(_, d). write_all_at fuel D s self ws d)"

definition overwrite ::
  "nat \<Rightarrow> nat \<Rightarrow> (nat \<Rightarrow> checkpoint) \<Rightarrow> (simple_allocator \<Rightarrow> simple_allocator res) \<Rightarrow> 'd device \<Rightarrow> nat \<Rightarrow> u8 list \<Rightarrow>
   transaction option \<Rightarrow> store_object_handle \<Rightarrow> object_store \<Rightarrow> simple_allocator \<Rightarrow> 'd \<Rightarrow>
   (store_object_handle \<times> object_store \<times> simple_allocator \<times> 'd) res" where
  "overwrite n fuel cp sync D offset buf txn self s a d =
     bind_res (u64_rem (length buf mod 2 ^ 32) (dev_block_size D)) (\<lambda>m.
     bind_res (ensure (m = 0) Panic) (\<lambda>_.
     bind_res (u64_add offset (length buf)) (\<lambda>e.
     bind_res (search_key_from_offset offset) (\<lambda>sk.
     bind_res (object_iter fuel (os_tree s)
                (object_key_attribute (h_object_id self) (h_attribute_id self) (Extent sk))) (\<lambda>items.
     bind_res (overwrite_loop (length items + length buf + 1) fuel sync s self items offset buf a txn) (\<lambda>(ws, a, txn).
     bind_res (write_all_at fuel D s self ws d) (\<lambda>d.
     case txn of
       None \<Rightarrow> Inr (self, s, a, d)
     | Some txn \<Rightarrow>
         if txn_is_empty txn then Inr (self, s, a, d)
         else
           bind_res (if e > get_size self then grow n fuel cp sync D (get_size self) e self s a d txn
                     else Inr (self, s, a, d, txn)) (\<lambda>(self, s, a, d, txn).
           bind_res (handle_commit fuel (cp 0) txn self s a) (\<lambda>(self, s, a, _). Inr (self, s, a, d))))))))))"

section \<open>Preallocating\<close>

text \<open>
  The inner loop of \<^verbatim>\<open>preallocate_range\<close> passes over what is there already: it ends with the offset up to which
  to allocate (\<open>None\<close> when the range is used up), the rest of the range, the items left and the device ranges found.
\<close>

definition prealloc_found :: "nat \<Rightarrow> u64_range \<Rightarrow> u64_range \<Rightarrow> nat \<Rightarrow> u64_range res" where
  "prealloc_found bs fr r dv =
     bind_res (range_is_aligned r bs) (\<lambda>aligned.
     bind_res (ensure (range_is_valid r \<and> aligned \<and> dv mod bs = 0) (Fxfs Inconsistent)) (\<lambda>_.
     if rstart r \<le> rstart fr
     then (case checked_add dv (rstart fr - rstart r) of
             None \<Rightarrow> Inl (Fxfs Inconsistent)
           | Some x \<Rightarrow>
               (case checked_add dv (min (rend r) (rend fr) - rstart r) of
                  None \<Rightarrow> Inl (Fxfs Inconsistent)
                | Some y \<Rightarrow> bind_res (u64_sub y x) (\<lambda>_. Inr (Range x y))))
     else Inr (Range 0 0)))"

fun prealloc_scan ::
  "nat \<Rightarrow> store_object_handle \<Rightarrow> u64_range \<Rightarrow> encryption_keys object_item list \<Rightarrow> u64_range list \<Rightarrow>
   (nat option \<times> u64_range \<times> encryption_keys object_item list \<times> u64_range list) res" where
  "prealloc_scan bs self fr [] ranges = Inr (Some (rend fr), fr, [], ranges)"
| "prealloc_scan bs self fr (i # items) ranges =
     (case item_as_extent i of
        None \<Rightarrow> Inr (Some (rend fr), fr, i # items, ranges)
      | Some (oid, aid, ek, ev) \<Rightarrow>
          if oid \<noteq> h_object_id self \<or> aid \<noteq> h_attribute_id self then Inr (Some (rend fr), fr, i # items, ranges)
          else (case ev of
            ExtentSome dv _ _ \<Rightarrow>
              if rstart (range ek) < rend fr
              then bind_res (prealloc_found bs fr (range ek) dv) (\<lambda>dr.
                     if rstart (range ek) \<le> rstart fr
                     then
                       let fr = Range (rstart fr + (rend dr - rstart dr)) (rend fr); ranges = ranges @ [dr] in
                       if rstart fr \<ge> rend fr then Inr (None, fr, i # items, ranges)
                       else prealloc_scan bs self fr items ranges
                     else Inr (Some (rstart (range ek)), fr, i # items, ranges))
              else Inr (Some (rend fr), fr, i # items, ranges)
          | ExtentNone \<Rightarrow>
              if rend (range ek) < rend fr then prealloc_scan bs self fr items ranges
              else Inr (Some (rend fr), fr, i # items, ranges)))"

fun prealloc_loop ::
  "nat \<Rightarrow> nat \<Rightarrow> (simple_allocator \<Rightarrow> simple_allocator res) \<Rightarrow> object_store \<Rightarrow> store_object_handle \<Rightarrow> u64_range \<Rightarrow>
   encryption_keys object_item list \<Rightarrow> u64_range list \<Rightarrow> nat \<Rightarrow> simple_allocator \<Rightarrow> transaction \<Rightarrow>
   (u64_range list \<times> nat \<times> simple_allocator \<times> transaction) res" where
  "prealloc_loop 0 fuel sync s self fr items ranges allocated a txn = Inl OutOfFuel"
| "prealloc_loop (Suc n) fuel sync s self fr items ranges allocated a txn =
     (if rend fr \<le> rstart fr then Inr (ranges, allocated, a, txn)
      else bind_res (prealloc_scan (os_block_size s) self fr items ranges) (\<lambda>(allocate_end, fr, items, ranges).
        case allocate_end of
          None \<Rightarrow> Inr (ranges, allocated, a, txn)
        | Some e \<Rightarrow>
            bind_res (u64_sub e (rstart fr)) (\<lambda>want.
            bind_res (allocate fuel sync (os_store_object_id s) want a txn) (\<lambda>(r, a, txn).
            bind_res r (\<lambda>dr.
            bind_res (u64_sub (rend dr) (rstart dr)) (\<lambda>got.
            bind_res (u64_add (rstart fr) (rend dr)) (\<lambda>x.
            bind_res (u64_sub x (rstart dr)) (\<lambda>this_end.
            bind_res (txn_add (os_store_object_id s)
              (extent_mutation self (Range (rstart fr) this_end) (extent_value_new (rstart dr))) txn) (\<lambda>(_, txn).
              prealloc_loop n fuel sync s self (Range this_end (rend fr)) items (ranges @ [dr]) (allocated + got) a txn)))))))))"

definition preallocate_range ::
  "nat \<Rightarrow> (simple_allocator \<Rightarrow> simple_allocator res) \<Rightarrow> u64_range \<Rightarrow> object_store \<Rightarrow> store_object_handle \<Rightarrow> simple_allocator \<Rightarrow>
   transaction \<Rightarrow> (u64_range list \<times> simple_allocator \<times> transaction) res" where
  "preallocate_range fuel sync fr s self a txn =
     bind_res (range_is_aligned fr (os_block_size s)) (\<lambda>aligned.
     bind_res (ensure (aligned \<and> h_keys self = None) Panic) (\<lambda>_.
     bind_res (search_key_from_offset (rstart fr)) (\<lambda>sk.
     bind_res (object_iter fuel (os_tree s)
                (object_key_attribute (h_object_id self) (h_attribute_id self) (Extent sk))) (\<lambda>items.
     bind_res (prealloc_loop (rend fr - rstart fr + 1) fuel sync s self fr items [] 0 a txn) (\<lambda>(ranges, allocated, a, txn).
     bind_res (if rend fr > txn_get_size txn s self then set_size (rend fr) s self txn else Inr txn) (\<lambda>txn.
     bind_res (update_allocated_size fuel allocated 0 s self txn) (\<lambda>txn.
       Inr (ranges, a, txn))))))))"

section \<open>Properties of the file\<close>

definition write_timestamps ::
  "nat \<Rightarrow> timestamp option \<Rightarrow> timestamp option \<Rightarrow> object_store \<Rightarrow> store_object_handle \<Rightarrow> transaction \<Rightarrow> transaction res" where
  "write_timestamps fuel crtime mtime s self txn =
     (if crtime = None \<and> mtime = None then Inr txn
      else
        bind_res (txn_get_object_mutation fuel txn (h_object_id self) s) (\<lambda>m.
        case value (osm_item m) of
          VObject kind attrs \<Rightarrow>
            let attrs = (case crtime of Some t \<Rightarrow> attrs\<lparr>creation_time := t\<rparr> | None \<Rightarrow> attrs);
                attrs = (case mtime of Some t \<Rightarrow> attrs\<lparr>modification_time := t\<rparr> | None \<Rightarrow> attrs) in
            bind_res (txn_add (os_store_object_id s)
              (ObjectStoreM (m\<lparr>osm_item := (osm_item m)\<lparr>value := VObject kind attrs\<rparr>\<rparr>)) txn) (\<lambda>(_, txn). Inr txn)
        | _ \<Rightarrow> Inl (Fxfs Inconsistent)))"

record object_properties =
  op_refs :: nat
  op_allocated_size :: nat
  op_data_attribute_size :: nat
  op_creation_time :: timestamp
  op_modification_time :: timestamp
  op_sub_dirs :: nat

definition get_properties :: "nat \<Rightarrow> object_store \<Rightarrow> store_object_handle \<Rightarrow> object_properties res" where
  "get_properties fuel s self =
     bind_res (store_find fuel (object_key_object (h_object_id self)) s) (\<lambda>found.
     case found of
       None \<Rightarrow> Inl Panic
     | Some i \<Rightarrow>
         (case value i of
            VObject (File n asize) attrs \<Rightarrow>
              Inr \<lparr>op_refs = n, op_allocated_size = asize, op_data_attribute_size = get_size self,
                   op_creation_time = creation_time attrs, op_modification_time = modification_time attrs,
                   op_sub_dirs = 0\<rparr>
          | _ \<Rightarrow> Inl (Fxfs NotFile)))"

section \<open>Operations with a transaction of their own\<close>

text \<open>\<open>txn\<close> is the transaction that \<^verbatim>\<open>new_transaction\<close> makes.\<close>

definition write_or_append ::
  "nat \<Rightarrow> checkpoint \<Rightarrow> (simple_allocator \<Rightarrow> simple_allocator res) \<Rightarrow> 'd device \<Rightarrow> nat option \<Rightarrow> u8 list \<Rightarrow> transaction \<Rightarrow>
   store_object_handle \<Rightarrow> object_store \<Rightarrow> simple_allocator \<Rightarrow> 'd \<Rightarrow>
   (nat \<times> store_object_handle \<times> object_store \<times> simple_allocator \<times> 'd) res" where
  "write_or_append fuel cp sync D offset buf txn self s a d =
     (let offset = (case offset of Some off \<Rightarrow> off | None \<Rightarrow> get_size self) in
      bind_res (txn_write fuel sync D s self offset buf a d txn) (\<lambda>(a, d, txn).
      let new_size = txn_get_size txn s self in
      bind_res (handle_commit fuel cp txn self s a) (\<lambda>(self, s, a, _).
        Inr (new_size, self, s, a, d))))"

text \<open>The trimming after a truncate: an error of a commit ends it, and the truncate has succeeded all the same.\<close>

fun truncate_trim ::
  "nat \<Rightarrow> nat \<Rightarrow> (nat \<Rightarrow> checkpoint) \<Rightarrow> nat \<Rightarrow> store_object_handle \<Rightarrow> object_store \<Rightarrow> simple_allocator \<Rightarrow> transaction \<Rightarrow>
   (store_object_handle \<times> object_store \<times> simple_allocator) res" where
  "truncate_trim 0 fuel cp off self s a txn = Inl OutOfFuel"
| "truncate_trim (Suc n) fuel cp off self s a txn =
     bind_res (trim_some fuel (h_object_id self) (h_attribute_id self) (FromOffset off) s a txn) (\<lambda>(r, txn).
     case handle_commit fuel (cp n) txn self s a of
       Inl _ \<Rightarrow> Inr (self, s, a)
     | Inr (self, s, a, txn) \<Rightarrow>
         if r = Incomplete then truncate_trim n fuel cp off self s a txn else Inr (self, s, a))"

definition truncate ::
  "nat \<Rightarrow> nat \<Rightarrow> (nat \<Rightarrow> checkpoint) \<Rightarrow> (simple_allocator \<Rightarrow> simple_allocator res) \<Rightarrow> 'd device \<Rightarrow> nat \<Rightarrow> transaction \<Rightarrow>
   store_object_handle \<Rightarrow> object_store \<Rightarrow> simple_allocator \<Rightarrow> 'd \<Rightarrow>
   (store_object_handle \<times> object_store \<times> simple_allocator \<times> 'd) res" where
  "truncate n fuel cp sync D new_size txn self s a d =
     (if new_size = get_size self then Inr (self, s, a, d)
      else if new_size < get_size self
      then
        bind_res (shrink fuel new_size s self a txn) (\<lambda>(needs_trim, txn).
        bind_res (handle_commit fuel (cp n) txn self s a) (\<lambda>(self, s, a, txn).
          if needs_trim
          then bind_res (truncate_trim n fuel cp new_size self s a txn) (\<lambda>(self, s, a). Inr (self, s, a, d))
          else Inr (self, s, a, d)))
      else
        bind_res (grow n fuel cp sync D (get_size self) new_size self s a d txn) (\<lambda>(self, s, a, d, txn).
        bind_res (handle_commit fuel (cp n) txn self s a) (\<lambda>(self, s, a, _). Inr (self, s, a, d))))"

definition set_timestamps ::
  "nat \<Rightarrow> checkpoint \<Rightarrow> timestamp option \<Rightarrow> timestamp option \<Rightarrow> transaction \<Rightarrow> store_object_handle \<Rightarrow> object_store \<Rightarrow>
   simple_allocator \<Rightarrow> (store_object_handle \<times> object_store \<times> simple_allocator) res" where
  "set_timestamps fuel cp crtime mtime txn self s a =
     (if crtime = None \<and> mtime = None then Inr (self, s, a)
      else
        bind_res (write_timestamps fuel crtime mtime s self txn) (\<lambda>txn.
        bind_res (handle_commit fuel cp txn self s a) (\<lambda>(self, s, a, _). Inr (self, s, a))))"

section \<open>Streaming writers\<close>

text \<open>
  \<^verbatim>\<open>Writer\<close> of \<^verbatim>\<open>src/src/object_handle.rs\<close> over any handle: \<open>write\<close> is the handle's \<^verbatim>\<open>write_or_append\<close> at an offset, \<open>flush\<close> its
  \<^verbatim>\<open>flush\<close>; both act on the state \<open>'s\<close> of the handle. The state of the writer is its offset.
\<close>

definition writer_buffer_size :: nat where
  "writer_buffer_size = 131072"

function stream_write_bytes ::
  "(nat \<Rightarrow> u8 list \<Rightarrow> 's \<Rightarrow> 's res) \<Rightarrow> u8 list \<Rightarrow> nat \<Rightarrow> 's \<Rightarrow> (nat \<times> 's) res" where
  "stream_write_bytes write buf offset st =
     (if buf = [] then Inr (offset, st)
      else
        let to_do = min (length buf) writer_buffer_size in
        bind_res (write offset (take to_do buf) st) (\<lambda>st.
        bind_res (u64_add offset to_do) (\<lambda>offset.
          stream_write_bytes write (drop to_do buf) offset st)))"
  by pat_completeness auto
termination
  by (relation "measure (\<lambda>(write, buf, offset, st). length buf)") (auto simp: writer_buffer_size_def)

declare stream_write_bytes.simps [simp del]

definition stream_complete :: "('s \<Rightarrow> 's res) \<Rightarrow> 's \<Rightarrow> 's res" where
  "stream_complete flush st = flush st"

definition stream_skip :: "nat \<Rightarrow> nat \<Rightarrow> nat res" where
  "stream_skip amount offset = u64_add offset amount"

text \<open>
  \<^verbatim>\<open>DirectWriter\<close>: \<open>dw_buf\<close> is the filled part of its buffer. \<open>write\<close> is \<^verbatim>\<open>txn_write\<close> and the commit, on the state of the
  file; \<open>handle_write\<close> is the one of a store's handle.
\<close>

record direct_writer =
  dw_offset :: nat
  dw_buf :: "u8 list"

definition dw_buffer_size :: nat where
  "dw_buffer_size = 1048576"

definition direct_writer_new :: direct_writer where
  "direct_writer_new = \<lparr>dw_offset = 0, dw_buf = []\<rparr>"

definition handle_write ::
  "nat \<Rightarrow> checkpoint \<Rightarrow> (simple_allocator \<Rightarrow> simple_allocator res) \<Rightarrow> 'd device \<Rightarrow> transaction \<Rightarrow> nat \<Rightarrow> u8 list \<Rightarrow>
   store_object_handle \<times> object_store \<times> simple_allocator \<times> 'd \<Rightarrow>
   (store_object_handle \<times> object_store \<times> simple_allocator \<times> 'd) res" where
  "handle_write fuel cp sync D txn offset buf st =
     (case st of (h, s, a, d) \<Rightarrow>
        bind_res (txn_write fuel sync D s h offset buf a d txn) (\<lambda>(a, d, txn).
        bind_res (handle_commit fuel cp txn h s a) (\<lambda>(h, s, a, _). Inr (h, s, a, d))))"

definition dw_flush :: "(nat \<Rightarrow> u8 list \<Rightarrow> 's \<Rightarrow> 's res) \<Rightarrow> direct_writer \<Rightarrow> 's \<Rightarrow> (direct_writer \<times> 's) res" where
  "dw_flush write self st =
     bind_res (write (dw_offset self) (dw_buf self) st) (\<lambda>st.
     bind_res (u64_add (dw_offset self) (length (dw_buf self))) (\<lambda>offset.
       Inr (\<lparr>dw_offset = offset, dw_buf = []\<rparr>, st)))"

text \<open>A full buffer would make the loop of \<^verbatim>\<open>write_bytes\<close> go on forever; \<^verbatim>\<open>flush\<close> empties it before that.\<close>

function dw_write_bytes ::
  "(nat \<Rightarrow> u8 list \<Rightarrow> 's \<Rightarrow> 's res) \<Rightarrow> u8 list \<Rightarrow> direct_writer \<Rightarrow> 's \<Rightarrow> (direct_writer \<times> 's) res" where
  "dw_write_bytes write buf self st =
     (if buf = [] then Inr (self, st)
      else if dw_buffer_size \<le> length (dw_buf self) then Inl OutOfFuel
      else
        let to_do = min (length buf) (dw_buffer_size - length (dw_buf self));
            self' = self\<lparr>dw_buf := dw_buf self @ take to_do buf\<rparr> in
        if length (dw_buf self') = dw_buffer_size
        then bind_res (dw_flush write self' st) (\<lambda>(self'', st'). dw_write_bytes write (drop to_do buf) self'' st')
        else dw_write_bytes write (drop to_do buf) self' st)"
  by pat_completeness auto
termination
  by (relation "measure (\<lambda>(write, buf, self, st). length buf)") auto

declare dw_write_bytes.simps [simp del]

definition dw_complete :: "(nat \<Rightarrow> u8 list \<Rightarrow> 's \<Rightarrow> 's res) \<Rightarrow> direct_writer \<Rightarrow> 's \<Rightarrow> (direct_writer \<times> 's) res" where
  "dw_complete write self st = dw_flush write self st"

definition dw_skip :: "(nat \<Rightarrow> u8 list \<Rightarrow> 's \<Rightarrow> 's res) \<Rightarrow> nat \<Rightarrow> direct_writer \<Rightarrow> 's \<Rightarrow> (direct_writer \<times> 's) res" where
  "dw_skip write amount self st =
     (if dw_buffer_size - length (dw_buf self) > amount
      then Inr (self\<lparr>dw_buf := dw_buf self @ replicate amount 0\<rparr>, st)
      else bind_res (dw_flush write self st) (\<lambda>(self, st).
           bind_res (u64_add (dw_offset self) amount) (\<lambda>offset.
             Inr (self\<lparr>dw_offset := offset\<rparr>, st))))"

text \<open>\<^verbatim>\<open>ObjectHandleExt::contents\<close>, over the handle's \<^verbatim>\<open>read\<close>.\<close>

definition contents :: "nat \<Rightarrow> 'd device \<Rightarrow> 'd \<Rightarrow> object_store \<Rightarrow> store_object_handle \<Rightarrow> nat \<Rightarrow> u8 list res" where
  "contents fuel D d s self limit =
     (if get_size self > limit then Inl Bail
      else bind_res (handle_read fuel D d s self 0 0 (allocate_buffer D (get_size self))) (\<lambda>(_, buf). Inr buf))"

end
