(* ===== verification/Persistent_Layer.thy ===== *)
theory Persistent_Layer
  imports Lsm_Merge Handle_Ops
begin

text \<open>
  The layer files of a tree, \<^verbatim>\<open>src/src/lsm_tree/simple_persistent_layer.rs\<close>, and the versions in front of
  serialised structures, \<^verbatim>\<open>src/src/serialized_types/traits.rs\<close>.

  A layer file is written through \<^verbatim>\<open>WriteBytes\<close> and read through \<^verbatim>\<open>ReadObjectHandle\<close>; both are records of the
  functions of the trait. The serialisers of keys, values and layer info are third-party code and
  functions of a record; a deserialiser is given the bytes that are left and says what it leaves.
\<close>

section \<open>Versions\<close>

record version =
  major :: nat
  minor :: nat

definition latest_version :: version where
  "latest_version = \<lparr>major = 24, minor = 0\<rparr>"

text \<open>Three bytes for the major version; \<^verbatim>\<open>write_u24\<close> panics when it does not fit.\<close>

definition version_serialize :: "version \<Rightarrow> u8 list res" where
  "version_serialize self =
     bind_res (ensure (major self < 2 ^ 24) Panic) (\<lambda>_.
       Inr (le_bytes 3 (major self) @ le_bytes 1 (minor self)))"

definition version_deserialize :: "u8 list \<Rightarrow> (version \<times> u8 list) res" where
  "version_deserialize bytes =
     bind_res (ensure (4 \<le> length bytes) Io) (\<lambda>_.
       Inr (\<lparr>major = le_nat (take 3 bytes), minor = le_nat (take 1 (drop 3 bytes))\<rparr>, drop 4 bytes))"

definition serialize_with_version :: "('a \<Rightarrow> u8 list res) \<Rightarrow> 'a \<Rightarrow> u8 list res" where
  "serialize_with_version ser x =
     bind_res (version_serialize latest_version) (\<lambda>v.
     bind_res (ser x) (\<lambda>b. Inr (v @ b)))"

definition deserialize_with_version ::
  "(version \<Rightarrow> u8 list \<Rightarrow> ('a \<times> u8 list) res) \<Rightarrow> u8 list \<Rightarrow> ('a \<times> version) res" where
  "deserialize_with_version deser bytes =
     bind_res (version_deserialize bytes) (\<lambda>(v, rest).
     bind_res (deser v rest) (\<lambda>(x, _). Inr (x, v)))"

section \<open>Handles, serialisers and layers\<close>

record layer_info =
  key_value_version :: version
  li_block_size :: nat

record ('k, 'v) codec =
  ser_key :: "'k \<Rightarrow> u8 list res"
  ser_value :: "'v \<Rightarrow> u8 list res"
  ser_info :: "layer_info \<Rightarrow> u8 list res"
  de_key :: "version \<Rightarrow> u8 list \<Rightarrow> ('k \<times> u8 list) res"
  de_value :: "version \<Rightarrow> u8 list \<Rightarrow> ('v \<times> u8 list) res"
  de_info :: "version \<Rightarrow> u8 list \<Rightarrow> (layer_info \<times> u8 list) res"

text \<open>\<open>rh_read\<close> is given the offset and the buffer, and returns the number of bytes read and the buffer.\<close>

record read_handle =
  rh_size :: nat
  rh_block_size :: nat
  rh_allocate :: "nat \<Rightarrow> u8 list"
  rh_read :: "nat \<Rightarrow> u8 list \<Rightarrow> (nat \<times> u8 list) res"

record 'w byte_writer =
  wb_write :: "u8 list \<Rightarrow> 'w \<Rightarrow> 'w res"
  wb_complete :: "'w \<Rightarrow> 'w res"
  wb_skip :: "nat \<Rightarrow> 'w \<Rightarrow> 'w res"

text \<open>\<open>pl_close_event\<close> is whether the event is still there.\<close>

record persistent_layer =
  pl_handle :: read_handle
  pl_info :: layer_info
  pl_size :: nat
  pl_close_event :: bool

definition persistent_open :: "('k, 'v) codec \<Rightarrow> read_handle \<Rightarrow> persistent_layer res" where
  "persistent_open C h =
     bind_res (rh_read h 0 (rh_allocate h (rh_block_size h))) (\<lambda>(_, buffer).
     bind_res (deserialize_with_version (de_info C) buffer) (\<lambda>(info, _).
     bind_res (u64_rem (li_block_size info) (rh_block_size h)) (\<lambda>r.
     bind_res (ensure (r = 0) (Fxfs Inconsistent)) (\<lambda>_.
     bind_res (u64_sub u64_max (li_block_size info)) (\<lambda>most.
     bind_res (ensure (rh_size h < most) (Fxfs Inconsistent)) (\<lambda>_.
       Inr \<lparr>pl_handle = h, pl_info = info, pl_size = rh_size h, pl_close_event = True\<rparr>))))))"

text \<open>\<^verbatim>\<open>lock\<close> and \<^verbatim>\<open>close\<close>, without the waiting for the locks that are held.\<close>

definition persistent_lock :: "persistent_layer \<Rightarrow> bool" where
  "persistent_lock self = pl_close_event self"

definition persistent_close :: "persistent_layer \<Rightarrow> persistent_layer res" where
  "persistent_close self =
     bind_res (ensure (pl_close_event self) Panic) (\<lambda>_. Inr (self\<lparr>pl_close_event := False\<rparr>))"

section \<open>Iterators\<close>

record buffer_cursor =
  bc_buffer :: "u8 list"
  bc_pos :: nat
  bc_len :: nat

text \<open>\<^verbatim>\<open>Read::read\<close>: the bytes copied to a buffer of length \<open>n\<close>, and \<^verbatim>\<open>read_exact\<close> of the standard library.\<close>

definition cursor_read :: "nat \<Rightarrow> buffer_cursor \<Rightarrow> u8 list \<times> buffer_cursor" where
  "cursor_read n self =
     (let to_read = min n (bc_len self - bc_pos self) in
      if to_read > 0
      then (take to_read (drop (bc_pos self) (bc_buffer self)), self\<lparr>bc_pos := bc_pos self + to_read\<rparr>)
      else ([], self))"

definition cursor_read_exact :: "nat \<Rightarrow> buffer_cursor \<Rightarrow> (u8 list \<times> buffer_cursor) res" where
  "cursor_read_exact n self =
     (case cursor_read n self of (bytes, self) \<Rightarrow>
        bind_res (ensure (length bytes = n) Io) (\<lambda>_. Inr (bytes, self)))"

text \<open>A deserialiser that reads from the cursor: it gets the bytes that are left and leaves a rest of them.\<close>

definition cursor_rest :: "buffer_cursor \<Rightarrow> u8 list" where
  "cursor_rest self = drop (bc_pos self) (take (bc_len self) (bc_buffer self))"

definition cursor_deserialize :: "(u8 list \<Rightarrow> ('a \<times> u8 list) res) \<Rightarrow> buffer_cursor \<Rightarrow> ('a \<times> buffer_cursor) res" where
  "cursor_deserialize deser self =
     bind_res (deser (cursor_rest self)) (\<lambda>(x, rest).
       Inr (x, snd (cursor_read (length (cursor_rest self) - length rest) self)))"

record ('k, 'v) block_iter =
  bi_buffer :: buffer_cursor
  bi_pos :: nat
  bi_item_index :: nat
  bi_item_count :: nat
  bi_item :: "('k, 'v) item option"

definition block_iter_new :: "persistent_layer \<Rightarrow> nat \<Rightarrow> ('k, 'v) block_iter" where
  "block_iter_new L pos =
     \<lparr>bi_buffer = \<lparr>bc_buffer = rh_allocate (pl_handle L) (li_block_size (pl_info L)), bc_pos = 0, bc_len = 0\<rparr>,
      bi_pos = pos, bi_item_index = 0, bi_item_count = 0, bi_item = None\<rparr>"

text \<open>\<^verbatim>\<open>advance\<close> reads the next block when the items of this one are used up, and then the next item.\<close>

definition read_items_block :: "persistent_layer \<Rightarrow> ('k, 'v) block_iter \<Rightarrow> ('k, 'v) block_iter res" where
  "read_items_block L self =
     bind_res (rh_read (pl_handle L) (bi_pos self) (bc_buffer (bi_buffer self))) (\<lambda>(len, buffer).
     bind_res (cursor_read_exact 2 \<lparr>bc_buffer = buffer, bc_pos = 0, bc_len = len\<rparr>) (\<lambda>(bytes, cursor).
     bind_res (ensure (le_nat bytes \<noteq> 0) Bail) (\<lambda>_.
     bind_res (u64_add (bi_pos self) (li_block_size (pl_info L))) (\<lambda>pos.
       Inr (self\<lparr>bi_buffer := cursor, bi_pos := pos, bi_item_index := 0, bi_item_count := le_nat bytes\<rparr>)))))"

definition read_block_item :: "('k, 'v) codec \<Rightarrow> persistent_layer \<Rightarrow> ('k, 'v) block_iter \<Rightarrow> ('k, 'v) block_iter res" where
  "read_block_item C L self =
     bind_res (cursor_deserialize (de_key C (key_value_version (pl_info L))) (bi_buffer self)) (\<lambda>(k, cursor).
     bind_res (cursor_deserialize (de_value C (key_value_version (pl_info L))) cursor) (\<lambda>(v, cursor).
     bind_res (cursor_read_exact 8 cursor) (\<lambda>(bytes, cursor).
     bind_res (ensure (bi_item_index self < 65535) Panic) (\<lambda>_.
       Inr (self\<lparr>bi_buffer := cursor, bi_item := Some \<lparr>key = k, value = v, sequence = le_nat bytes\<rparr>,
                 bi_item_index := bi_item_index self + 1\<rparr>)))))"

definition block_iter_advance :: "('k, 'v) codec \<Rightarrow> persistent_layer \<Rightarrow> ('k, 'v) block_iter \<Rightarrow> ('k, 'v) block_iter res" where
  "block_iter_advance C L self =
     (if bi_item_index self \<ge> bi_item_count self
      then if bi_pos self \<ge> pl_size L then Inr (self\<lparr>bi_item := None\<rparr>)
           else bind_res (read_items_block L self) (read_block_item C L)
      else read_block_item C L self)"

definition block_iter_get :: "('k, 'v) block_iter \<Rightarrow> ('k, 'v) item option" where
  "block_iter_get self = bi_item self"

section \<open>Searching\<close>

text \<open>
  The end of a search at an item that is equal to the key, or beyond it. \<open>None\<close> is an item that is less, where
  the search goes on.
\<close>

definition seek_arrived ::
  "('k, 'v) codec \<Rightarrow> 'k key_ops \<Rightarrow> persistent_layer \<Rightarrow> 'k \<Rightarrow> bool \<Rightarrow> ('k, 'v) item \<Rightarrow> ('k, 'v) block_iter \<Rightarrow>
   ('k, 'v) block_iter option res" where
  "seek_arrived C ops L k excluded item it =
     (case cmp_upper_bound ops (key item) k of
        Greater \<Rightarrow> Inr (Some it)
      | Equal \<Rightarrow> if excluded then bind_res (block_iter_advance C L it) (\<lambda>it. Inr (Some it)) else Inr (Some it)
      | Less \<Rightarrow> Inr None)"

text \<open>
  The binary search over the blocks: either it arrives (\<open>Inl\<close>), or it ends with the iterator of the block to
  walk through. Each turn at least drops a block, and the walk ends with the layer; fuel \<open>n\<close> bounds the turns.
\<close>

fun seek_blocks ::
  "nat \<Rightarrow> ('k, 'v) codec \<Rightarrow> 'k key_ops \<Rightarrow> persistent_layer \<Rightarrow> 'k \<Rightarrow> bool \<Rightarrow> nat \<Rightarrow> nat \<Rightarrow> ('k, 'v) block_iter \<Rightarrow>
   (('k, 'v) block_iter + ('k, 'v) block_iter) res" where
  "seek_blocks 0 C ops L k excluded left_offset right_offset left = Inl OutOfFuel"
| "seek_blocks (Suc n) C ops L k excluded left_offset right_offset left =
     bind_res (u64_sub right_offset left_offset) (\<lambda>width.
       if width > li_block_size (pl_info L)
       then
         bind_res (round_down (left_offset + width div 2) (li_block_size (pl_info L))) (\<lambda>mid_offset.
         bind_res (block_iter_advance C L (block_iter_new L mid_offset)) (\<lambda>it.
         case block_iter_get it of
           None \<Rightarrow> Inl Panic
         | Some item \<Rightarrow>
             (case cmp_upper_bound ops (key item) k of
                Greater \<Rightarrow> seek_blocks n C ops L k excluded left_offset mid_offset left
              | Equal \<Rightarrow> if excluded then bind_res (block_iter_advance C L it) (\<lambda>it. Inr (Inl it)) else Inr (Inl it)
              | Less \<Rightarrow> seek_blocks n C ops L k excluded mid_offset right_offset it)))
       else Inr (Inr left))"

fun seek_walk ::
  "nat \<Rightarrow> ('k, 'v) codec \<Rightarrow> 'k key_ops \<Rightarrow> persistent_layer \<Rightarrow> 'k \<Rightarrow> bool \<Rightarrow> ('k, 'v) block_iter \<Rightarrow> ('k, 'v) block_iter res" where
  "seek_walk 0 C ops L k excluded left = Inl OutOfFuel"
| "seek_walk (Suc n) C ops L k excluded left =
     bind_res (block_iter_advance C L left) (\<lambda>left.
     case block_iter_get left of
       None \<Rightarrow> Inr left
     | Some item \<Rightarrow>
         bind_res (seek_arrived C ops L k excluded item left) (\<lambda>r.
         case r of Some it \<Rightarrow> Inr it | None \<Rightarrow> seek_walk n C ops L k excluded left))"

definition seek_key ::
  "nat \<Rightarrow> ('k, 'v) codec \<Rightarrow> 'k key_ops \<Rightarrow> 'k \<Rightarrow> bool \<Rightarrow> persistent_layer \<Rightarrow> ('k, 'v) block_iter res" where
  "seek_key fuel C ops k excluded L =
     bind_res (round_up (pl_size L) (li_block_size (pl_info L))) (\<lambda>r.
     case r of
       None \<Rightarrow> Inl Panic
     | Some right_offset \<Rightarrow>
         bind_res (block_iter_advance C L (block_iter_new L (li_block_size (pl_info L)))) (\<lambda>left.
         case block_iter_get left of
           None \<Rightarrow> Inr left
         | Some item \<Rightarrow>
             bind_res (seek_arrived C ops L k excluded item left) (\<lambda>r.
             case r of
               Some it \<Rightarrow> Inr it
             | None \<Rightarrow>
                 bind_res (seek_blocks fuel C ops L k excluded (li_block_size (pl_info L)) right_offset left) (\<lambda>q.
                 case q of
                   Inl it \<Rightarrow> Inr it
                 | Inr left \<Rightarrow> seek_walk fuel C ops L k excluded left))))"

definition persistent_seek ::
  "nat \<Rightarrow> ('k, 'v) codec \<Rightarrow> 'k key_ops \<Rightarrow> 'k bound \<Rightarrow> persistent_layer \<Rightarrow> ('k, 'v) block_iter res" where
  "persistent_seek fuel C ops bnd L =
     (case bnd of
        Unbounded \<Rightarrow> block_iter_advance C L (block_iter_new L (li_block_size (pl_info L)))
      | Included k \<Rightarrow> seek_key fuel C ops k False L
      | Excluded k \<Rightarrow> seek_key fuel C ops k True L)"

section \<open>Writing layers\<close>

record 'w layer_writer =
  lw_writer :: 'w
  lw_block_size :: nat
  lw_buf :: "u8 list"
  lw_item_count :: nat

definition layer_writer_new :: "('k, 'v) codec \<Rightarrow> 'w byte_writer \<Rightarrow> 'w \<Rightarrow> nat \<Rightarrow> 'w layer_writer res" where
  "layer_writer_new C W w bs =
     bind_res (serialize_with_version (ser_info C) \<lparr>key_value_version = latest_version, li_block_size = bs\<rparr>) (\<lambda>bytes.
     bind_res (wb_write W bytes w) (\<lambda>w.
     bind_res (u64_sub bs (length bytes)) (\<lambda>n.
     bind_res (wb_skip W n w) (\<lambda>w.
       Inr \<lparr>lw_writer = w, lw_block_size = bs, lw_buf = [0, 0], lw_item_count = 0\<rparr>))))"

definition layer_write_some :: "'w byte_writer \<Rightarrow> nat \<Rightarrow> 'w layer_writer \<Rightarrow> 'w layer_writer res" where
  "layer_write_some W len self =
     (if lw_item_count self = 0 then Inr self
      else
        bind_res (ensure (2 \<le> length (lw_buf self) \<and> len \<le> length (lw_buf self)) Panic) (\<lambda>_.
        let buf = le_bytes 2 (lw_item_count self) @ drop 2 (lw_buf self) in
        bind_res (wb_write W (take len buf) (lw_writer self)) (\<lambda>w.
        bind_res (u64_sub (lw_block_size self) len) (\<lambda>n.
        bind_res (wb_skip W n w) (\<lambda>w.
        bind_res (u64_sub len 2) (\<lambda>m.
          Inr (self\<lparr>lw_writer := w, lw_buf := drop m buf, lw_item_count := 0\<rparr>)))))))"

definition layer_write ::
  "('k, 'v) codec \<Rightarrow> 'w byte_writer \<Rightarrow> ('k, 'v) item \<Rightarrow> 'w layer_writer \<Rightarrow> 'w layer_writer res" where
  "layer_write C W item self =
     (let len = length (lw_buf self) in
      bind_res (ser_key C (key item)) (\<lambda>k.
      bind_res (ser_value C (value item)) (\<lambda>v.
      let self = self\<lparr>lw_buf := lw_buf self @ k @ v @ le_bytes 8 (sequence item)\<rparr> in
      bind_res (u64_sub (lw_block_size self) 1) (\<lambda>most.
      bind_res (if length (lw_buf self) > most \<or> lw_item_count self = 65535 then layer_write_some W len self else Inr self) (\<lambda>self.
      bind_res (ensure (lw_item_count self < 65535) Panic) (\<lambda>_.
        Inr (self\<lparr>lw_item_count := lw_item_count self + 1\<rparr>)))))))"

definition layer_flush :: "'w byte_writer \<Rightarrow> 'w layer_writer \<Rightarrow> 'w layer_writer res" where
  "layer_flush W self =
     bind_res (layer_write_some W (length (lw_buf self)) self) (\<lambda>self.
     bind_res (wb_complete W (lw_writer self)) (\<lambda>w. Inr (self\<lparr>lw_writer := w\<rparr>)))"

text \<open>The part of \<^verbatim>\<open>LSMTree::compact_with_iterator\<close> that writes what it has merged.\<close>

fun layer_write_all ::
  "('k, 'v) codec \<Rightarrow> 'w byte_writer \<Rightarrow> ('k, 'v) item list \<Rightarrow> 'w layer_writer \<Rightarrow> 'w layer_writer res" where
  "layer_write_all C W [] self = layer_flush W self"
| "layer_write_all C W (i # items) self = bind_res (layer_write C W i self) (layer_write_all C W items)"

definition write_layer :: "('k, 'v) codec \<Rightarrow> 'w byte_writer \<Rightarrow> nat \<Rightarrow> ('k, 'v) item list \<Rightarrow> 'w \<Rightarrow> 'w res" where
  "write_layer C W bs items w =
     bind_res (layer_writer_new C W w bs) (\<lambda>lw.
     bind_res (layer_write_all C W items lw) (\<lambda>lw. Inr (lw_writer lw)))"

section \<open>The writers and readers of the program\<close>

definition stream_byte_writer :: "(nat \<Rightarrow> u8 list \<Rightarrow> 's \<Rightarrow> 's res) \<Rightarrow> ('s \<Rightarrow> 's res) \<Rightarrow> (nat \<times> 's) byte_writer" where
  "stream_byte_writer write flush =
     \<lparr>wb_write = (\<lambda>bytes (offset, st). stream_write_bytes write bytes offset st),
      wb_complete = (\<lambda>(offset, st). bind_res (stream_complete flush st) (\<lambda>st. Inr (offset, st))),
      wb_skip = (\<lambda>n (offset, st). bind_res (stream_skip n offset) (\<lambda>offset. Inr (offset, st)))\<rparr>"

definition direct_byte_writer :: "(nat \<Rightarrow> u8 list \<Rightarrow> 's \<Rightarrow> 's res) \<Rightarrow> (direct_writer \<times> 's) byte_writer" where
  "direct_byte_writer write =
     \<lparr>wb_write = (\<lambda>bytes (dw, st). dw_write_bytes write bytes dw st),
      wb_complete = (\<lambda>(dw, st). dw_complete write dw st),
      wb_skip = (\<lambda>n (dw, st). dw_skip write n dw st)\<rparr>"

definition handle_reader :: "nat \<Rightarrow> 'd device \<Rightarrow> 'd \<Rightarrow> object_store \<Rightarrow> store_object_handle \<Rightarrow> read_handle" where
  "handle_reader fuel D d s self =
     \<lparr>rh_size = get_size self, rh_block_size = os_block_size s, rh_allocate = allocate_buffer D,
      rh_read = (\<lambda>offset buf. handle_read fuel D d s self offset 0 buf)\<rparr>"

section \<open>The object of the tests\<close>

text \<open>\<^verbatim>\<open>FakeObject\<close> of \<^verbatim>\<open>src/src/testing/fake_object.rs\<close>: a vector of bytes.\<close>

definition fake_read :: "u8 list \<Rightarrow> nat \<Rightarrow> u8 list \<Rightarrow> (nat \<times> u8 list) res" where
  "fake_read our_buf offset buf =
     bind_res (u64_sub (length our_buf) offset) (\<lambda>n.
     let to_do = min (length buf) n in
       Inr (to_do, take to_do (drop offset our_buf) @ drop to_do buf))"

definition fake_resize :: "nat \<Rightarrow> u8 list \<Rightarrow> u8 list" where
  "fake_resize n our_buf = take n our_buf @ replicate (n - length our_buf) 0"

definition fake_write_or_append :: "nat option \<Rightarrow> u8 list \<Rightarrow> u8 list \<Rightarrow> (nat \<times> u8 list) res" where
  "fake_write_or_append offset buf our_buf =
     (let offset = (case offset of Some off \<Rightarrow> off | None \<Rightarrow> length our_buf) in
      bind_res (u64_add offset (length buf)) (\<lambda>required_len.
      let our_buf = (if length our_buf < required_len then fake_resize required_len our_buf else our_buf);
          our_buf = copy_slice offset buf our_buf in
        Inr (length our_buf, our_buf)))"

definition fake_truncate :: "nat \<Rightarrow> u8 list \<Rightarrow> u8 list" where
  "fake_truncate n our_buf = fake_resize n our_buf"

definition fake_reader :: "nat \<Rightarrow> u8 list \<Rightarrow> read_handle" where
  "fake_reader bs our_buf =
     \<lparr>rh_size = length our_buf, rh_block_size = bs, rh_allocate = (\<lambda>n. replicate n 0), rh_read = fake_read our_buf\<rparr>"

end
