(* ===== verification/Handle_Read.thy ===== *)
theory Handle_Read
  imports Handle_Ops
begin

text \<open>
  Reading a file through its handle. The contents of a file are defined from the meaning of the store's
  layers, the bytes of the device and the keys of the file, and \<^verbatim>\<open>read\<close> is shown to return them.
\<close>

section \<open>The extents of a file\<close>

text \<open>What the layers of a tree say of the byte \<open>x\<close> of an attribute.\<close>

definition file_map :: "nat \<Rightarrow> (object_key, 'wk object_value) lsm_tree \<Rightarrow> nat \<Rightarrow> nat \<Rightarrow> nat \<Rightarrow> byte_info" where
  "file_map bs t oid aid x =
     (case layers_at (object_sem bs) (layer_set t) [oid, 2, aid, 1, x] of Some (Byte b) \<Rightarrow> b | _ \<Rightarrow> Hole)"

definition is_own :: "nat \<Rightarrow> nat \<Rightarrow> 'wk object_item \<Rightarrow> bool" where
  "is_own oid aid i = (case item_as_extent i of Some (oid', aid', _) \<Rightarrow> oid' = oid \<and> aid' = aid | None \<Rightarrow> False)"

text \<open>
  The items of an iterator that starts at the byte \<open>b\<close> of an attribute: its extents, in order, with what they say
  of the bytes from \<open>b\<close> on; where they end, nothing more is mapped. An extent may reach back before \<open>b\<close>; what
  it says of the bytes from \<open>l\<close> to \<open>b\<close>, where the extent before it was, is true as well.
\<close>

fun extents_from :: "nat \<Rightarrow> nat \<Rightarrow> nat \<Rightarrow> (nat \<Rightarrow> byte_info) \<Rightarrow> nat \<Rightarrow> nat \<Rightarrow> 'wk object_item list \<Rightarrow> bool" where
  "extents_from bs oid aid m l b [] = (\<forall>x \<ge> b. m x = Hole)"
| "extents_from bs oid aid m l b (i # items) =
     (if is_own oid aid i
      then
        (case item_as_extent i of
           Some (_, _, ek, ev) \<Rightarrow>
             rstart (range ek) < rend (range ek) \<and> rend (range ek) < u64_max \<and>
             bs dvd rstart (range ek) \<and> bs dvd rend (range ek) \<and>
             value_fits bs (rend (range ek) - rstart (range ek)) ev \<and> b < rend (range ek) \<and>
             (\<forall>x. b \<le> x \<and> x < rend (range ek) \<longrightarrow>
                m x = (if rstart (range ek) \<le> x then byte_at bs ev (x - rstart (range ek)) else Hole)) \<and>
             (\<forall>x. l \<le> x \<and> x < b \<and> rstart (range ek) \<le> x \<longrightarrow> m x = byte_at bs ev (x - rstart (range ek))) \<and>
             extents_from bs oid aid m (max b (rstart (range ek))) (rend (range ek)) items
         | None \<Rightarrow> False)
      else (\<forall>x \<ge> b. m x = Hole) \<and> (\<forall>j \<in> set items. \<not> is_own oid aid j))"

lemma point_le [simp]: "[oid, 2, aid, Suc 0, b] \<le> [oid, 2, aid, Suc 0, x] \<longleftrightarrow> b \<le> x" for x b :: nat
  by auto

lemma is_own_iff:
  "is_own oid aid i \<longleftrightarrow> (\<exists>ek ev. item_as_extent i = Some (oid, aid, ek, ev))"
  by (auto simp: is_own_def split: option.splits)

lemma item_as_extent_iff:
  "item_as_extent i = Some (oid, aid, ek, ev) \<longleftrightarrow> key i = object_key_from_extent oid aid ek \<and> value i = VExtent ev"
  by (cases "key i") (auto simp: item_as_extent_def object_key_from_extent_def
      split: object_key_data.splits attribute_key.splits object_value.splits)

lemma own_bounds:
  assumes "item_as_extent i = Some (oid, aid, ek, ev)"
  shows "key_lo (key i) = [oid, 2, aid, 1, rstart (range ek)]" "key_hi (key i) = [oid, 2, aid, 1, rend (range ek)]"
  using assms by (auto simp: item_as_extent_iff object_key_from_extent_def key_lo_def key_hi_def key_prefix_def variant_index_def)

text \<open>A record that ends after a byte of an attribute and is not an extent of it ends after all of its bytes.\<close>

lemma foreign_hi:
  assumes "\<not> is_own oid aid i" "object_ok bs i" "[oid, 2, aid, 1, b] < key_hi (key i)"
  shows "[oid, 2, aid, 1, x] < key_hi (key i)"
proof (cases "\<exists>a e. data (key i) = Attribute a (Extent e)")
  case True
  then obtain a e where e: "data (key i) = Attribute a (Extent e)" by blast
  then obtain v where "value i = VExtent v" using assms(2) by (auto simp: object_ok_def split: object_value.splits)
  then have "\<not> (object_id (key i) = oid \<and> a = aid)"
    using assms(1) e by (auto simp: is_own_def item_as_extent_def)
  then show ?thesis using assms(3) e by (auto simp: key_hi_def key_prefix_def variant_index_def)
next
  case False
  then show ?thesis
    using assms(3) by (auto simp: key_hi_def key_prefix_def variant_index_def
        split: object_key_data.splits attribute_key.splits)
qed

lemma foreign_at:
  assumes "\<not> is_own oid aid i" "object_ok bs i"
  shows "item_at (object_sem bs) i [oid, 2, aid, 1, x] = None"
proof (rule ccontr)
  assume "item_at (object_sem bs) i [oid, 2, aid, 1, x] \<noteq> None"
  then have le: "key_lo (key i) \<le> [oid, 2, aid, 1, x]" "[oid, 2, aid, 1, x] < key_hi (key i)"
    by (auto simp: item_at_def split: if_splits)
  then show False
  proof (cases "\<exists>a e. data (key i) = Attribute a (Extent e)")
    case True
    then obtain a e where e: "data (key i) = Attribute a (Extent e)" by blast
    then obtain v where "value i = VExtent v" using assms(2) by (auto simp: object_ok_def split: object_value.splits)
    then have "\<not> (object_id (key i) = oid \<and> a = aid)"
      using assms(1) e by (auto simp: is_own_def item_as_extent_def)
    with le e show False by (auto simp: key_lo_def key_hi_def key_prefix_def variant_index_def)
  next
    case False
    with le show False
      by (auto simp: key_lo_def key_hi_def key_prefix_def variant_index_def split: object_key_data.splits attribute_key.splits)
  qed
qed

lemma own_at:
  assumes "item_as_extent i = Some (oid, aid, ek, ev)"
  shows "item_at (object_sem bs) i [oid, 2, aid, 1, x] =
    (if rstart (range ek) \<le> x \<and> x < rend (range ek) then Some (Byte (byte_at bs ev (x - rstart (range ek)))) else None)"
  using assms own_bounds [OF assms]
  by (auto simp: item_at_def item_as_extent_iff object_val_def object_key_from_extent_def)

text \<open>What the item before says of the bytes from \<open>l\<close> to \<open>b\<close>; there is none when \<open>l = b\<close>.\<close>

definition said_before :: "nat \<Rightarrow> (nat \<Rightarrow> byte_info) \<Rightarrow> nat \<Rightarrow> nat \<Rightarrow> nat \<Rightarrow> nat \<Rightarrow> 'wk object_item list \<Rightarrow> bool" where
  "said_before bs m oid aid l b es \<longleftrightarrow>
     (\<forall>e x v. es \<noteq> [] \<longrightarrow> e = hd es \<longrightarrow> l \<le> x \<longrightarrow> x < b \<longrightarrow>
        item_at (object_sem bs) e [oid, 2, aid, 1, x] = Some (Byte v) \<longrightarrow> m x = v)"

lemma iterates_extents:
  assumes "iterates (object_sem bs) (layer_set t) [oid, 2, aid, 1, b] es" "chained (object_sem bs) es"
    "said_before bs (file_map bs t oid aid) oid aid l b es"
  shows "extents_from bs oid aid (file_map bs t oid aid) l b es"
  using assms
proof (induction es arbitrary: l b)
  case Nil
  then have "layers_at (object_sem bs) (layer_set t) [oid, 2, aid, 1, x] = None" if "b \<le> x" for x
    using that by (simp del: Cons_le_Cons)
  then show ?case by (simp add: file_map_def)
next
  case (Cons i es)
  let ?m = "file_map bs t oid aid"
  have i: "object_ok bs i" "[oid, 2, aid, 1, b] < key_hi (key i)"
    and at: "\<forall>p. [oid, 2, aid, 1, b] \<le> p \<and> p < key_hi (key i) \<longrightarrow> layers_at (object_sem bs) (layer_set t) p = item_at (object_sem bs) i p"
    and rest: "iterates (object_sem bs) (layer_set t) (key_hi (key i)) es" using Cons.prems(1) by auto
  have chain: "chained (object_sem bs) es" using Cons.prems(2) by (cases es) auto
  show ?case
  proof (cases "is_own oid aid i")
    case True
    then obtain ek ev where e: "item_as_extent i = Some (oid, aid, ek, ev)" by (auto simp: is_own_iff)
    note bounds = own_bounds [OF e]
    have m: "?m x = (if rstart (range ek) \<le> x then byte_at bs ev (x - rstart (range ek)) else Hole)"
      if "b \<le> x" "x < rend (range ek)" for x
    proof -
      have "layers_at (object_sem bs) (layer_set t) [oid, 2, aid, 1, x] = item_at (object_sem bs) i [oid, 2, aid, 1, x]"
        using at that bounds(2) by (simp del: Cons_le_Cons)
      then show ?thesis using that by (simp add: file_map_def own_at [OF e] del: One_nat_def)
    qed
    have b: "rstart (range ek) < rend (range ek)" "rend (range ek) < u64_max" "bs dvd rstart (range ek)"
      "bs dvd rend (range ek)" "value_fits bs (rend (range ek) - rstart (range ek)) ev" "b < rend (range ek)"
      using i bounds(2) e by (auto simp: object_ok_def item_as_extent_iff object_key_from_extent_def)
    have "said_before bs ?m oid aid (max b (rstart (range ek))) (rend (range ek)) es"
      unfolding said_before_def
    proof (intro allI impI)
      fix e' x v assume e': "es \<noteq> []" "e' = hd es" "max b (rstart (range ek)) \<le> x" "x < rend (range ek)"
        "item_at (object_sem bs) e' [oid, 2, aid, 1, x] = Some (Byte v)"
      then obtain es' where es: "es = e' # es'" by (cases es) auto
      have "key_lo (key i) \<le> [oid, 2, aid, 1, x]" "[oid, 2, aid, 1, x] < key_hi (key i)" using e'(3,4) bounds by auto
      then have "item_at (object_sem bs) i [oid, 2, aid, 1, x] = Some (Byte v)"
        using Cons.prems(2) e'(5) unfolding es by auto
      then show "?m x = v" using m [of x] e'(3,4) own_at [OF e, of bs x] by auto
    qed
    with Cons.IH [OF _ chain] rest bounds(2)
    have "extents_from bs oid aid ?m (max b (rstart (range ek))) (rend (range ek)) es" by simp
    moreover have "?m x = byte_at bs ev (x - rstart (range ek))" if "l \<le> x" "x < b" "rstart (range ek) \<le> x" for x
      using Cons.prems(3) that b(6) own_at [OF e, of bs x] by (simp add: said_before_def)
    ultimately show ?thesis using True e m b by simp
  next
    case False
    have hole: "?m x = Hole" if "b \<le> x" for x
    proof -
      have "layers_at (object_sem bs) (layer_set t) [oid, 2, aid, 1, x] = item_at (object_sem bs) i [oid, 2, aid, 1, x]"
        using at foreign_hi [OF False i] that by (simp del: Cons_le_Cons)
      then show ?thesis using foreign_at [OF False i(1)] by (simp add: file_map_def del: One_nat_def)
    qed
    have "\<not> is_own oid aid j" if "j \<in> set es" for j
    proof
      assume "is_own oid aid j"
      then obtain ek ev where e: "item_as_extent j = Some (oid, aid, ek, ev)" by (auto simp: is_own_iff)
      have "key_hi (key i) < key_hi (key j)" using iterates_his [OF rest that] by simp
      then show False using foreign_hi [OF False i, of "rend (range ek)"] own_bounds(2) [OF e] by simp
    qed
    with False hole show ?thesis by simp
  qed
qed

text \<open>The iterators that the handle makes.\<close>

lemma extents_iter:
  assumes "\<forall>l \<in> set (layer_set t). layer_ok (object_sem bs) l" "seek_fuel (object_sem bs) (layer_set t) < fuel" "s \<le> b"
  obtains es where "object_iter fuel t (object_key_from_extent oid aid (ExtentKey (Range s (Suc b)))) = Inr es"
    "extents_from bs oid aid (file_map bs t oid aid) b b es"
proof -
  have "object_search (object_key_from_extent oid aid (ExtentKey (Range s (Suc b))))"
    using assms(3) by (simp add: object_search_def object_key_from_extent_def)
  from object_iter_correct [OF this assms(1,2)] obtain es where
    es: "object_iter fuel t (object_key_from_extent oid aid (ExtentKey (Range s (Suc b)))) = Inr es"
    "iterates (object_sem bs) (layer_set t) [oid, 2, aid, 1, b] es" "chained (object_sem bs) es"
    unfolding search_point_from_extent by blast
  from that [OF es(1) iterates_extents [OF es(2,3)]] show thesis by (simp add: said_before_def)
qed

section \<open>The contents of a file\<close>

text \<open>
  A device holds the bytes \<open>bytes d\<close>, and reads of whole blocks within its size return them. The area functions of
  XTS work sector by sector, keep the length, and decrypting undoes encrypting.
\<close>

definition dev_reads :: "'d device \<Rightarrow> ('d \<Rightarrow> nat \<Rightarrow> u8) \<Rightarrow> nat \<Rightarrow> nat \<Rightarrow> bool" where
  "dev_reads D bytes bs dev_size \<longleftrightarrow>
     (\<forall>d dv len. bs dvd dv \<longrightarrow> bs dvd len \<longrightarrow> dv + len \<le> dev_size \<longrightarrow>
        dev_read D dv len d = Inr (map (bytes d) [dv..<dv + len]))"

definition xts_law :: "xts \<Rightarrow> bool" where
  "xts_law x \<longleftrightarrow>
     (\<forall>b n. sector_size dvd length b \<longrightarrow>
        length (decrypt_area x b sector_size n) = length b \<and> length (encrypt_area x b sector_size n) = length b \<and>
        decrypt_area x (encrypt_area x b sector_size n) sector_size n = b) \<and>
     (\<forall>b c n. sector_size dvd length b \<longrightarrow> sector_size dvd length c \<longrightarrow>
        decrypt_area x (b @ c) sector_size n =
          decrypt_area x b sector_size n @ decrypt_area x c sector_size (n + length b div sector_size) \<and>
        encrypt_area x (b @ c) sector_size n =
          encrypt_area x b sector_size n @ encrypt_area x c sector_size (n + length b div sector_size))"

definition keys_law :: "nat \<Rightarrow> store_object_handle \<Rightarrow> bool" where
  "keys_law bs self \<longleftrightarrow>
     (case h_keys self of None \<Rightarrow> True | Some keys \<Rightarrow> sector_size dvd bs \<and> (\<forall>c \<in> set keys. xts_law (xts_of c)))"

text \<open>The blocks that are mapped are blocks of the device, and the handle has their keys.\<close>

definition map_ok :: "nat \<Rightarrow> nat \<Rightarrow> store_object_handle \<Rightarrow> (nat \<Rightarrow> byte_info) \<Rightarrow> bool" where
  "map_ok bs dev_size self m \<longleftrightarrow>
     (\<forall>x dv cs kid. m x = Mapped dv cs kid \<longrightarrow>
        dv < dev_size \<and> dv mod bs = x mod bs \<and>
        (case h_keys self of None \<Rightarrow> True | Some keys \<Rightarrow> kid \<in> xts_id ` set keys))"

definition plain :: "store_object_handle \<Rightarrow> nat \<Rightarrow> nat \<Rightarrow> u8 list \<Rightarrow> u8 list" where
  "plain self kid off bytes =
     (case h_keys self of
        None \<Rightarrow> bytes
      | Some keys \<Rightarrow>
          (case List.find (\<lambda>c. xts_id c = kid) keys of
             None \<Rightarrow> bytes
           | Some c \<Rightarrow> decrypt_area (xts_of c) bytes sector_size (off div sector_size)))"

definition file_block :: "(nat \<Rightarrow> u8) \<Rightarrow> store_object_handle \<Rightarrow> nat \<Rightarrow> (nat \<Rightarrow> byte_info) \<Rightarrow> nat \<Rightarrow> u8 list" where
  "file_block bytes self bs m b =
     (case m b of Hole \<Rightarrow> replicate bs 0 | Mapped dv _ kid \<Rightarrow> plain self kid b (map bytes [dv..<dv + bs]))"

definition file_byte :: "(nat \<Rightarrow> u8) \<Rightarrow> store_object_handle \<Rightarrow> nat \<Rightarrow> (nat \<Rightarrow> byte_info) \<Rightarrow> nat \<Rightarrow> u8" where
  "file_byte bytes self bs m x = file_block bytes self bs m (x - x mod bs) ! (x mod bs)"

lemma map_upt_append: "a \<le> b \<Longrightarrow> b \<le> c \<Longrightarrow> map f [a..<b] @ map f [b..<c] = map f [a..<c]"
  using upt_add_eq_append [of a b "c - b"] by (simp flip: map_append)

lemma find_in: "List.find P xs = Some x \<Longrightarrow> x \<in> set xs \<and> P x"
  by (auto simp: find_Some_iff)

lemma plain_length:
  assumes "keys_law bs self" "bs dvd length b"
  shows "length (plain self kid off b) = length b"
proof (cases "h_keys self")
  case (Some keys)
  then have "sector_size dvd length b" using assms by (auto simp: keys_law_def intro: dvd_trans)
  with Some assms(1) show ?thesis
    by (auto simp: plain_def keys_law_def xts_law_def dest: find_in split: option.splits)
qed (simp add: plain_def)

lemma plain_append:
  assumes "keys_law bs self" "bs dvd length b" "bs dvd length c" "bs dvd off"
  shows "plain self kid off (b @ c) = plain self kid off b @ plain self kid (off + length b) c"
proof (cases "h_keys self")
  case (Some keys)
  then have ss: "sector_size dvd length b" "sector_size dvd length c" "sector_size dvd off"
    using assms by (auto simp: keys_law_def intro: dvd_trans)
  then have "(off + length b) div sector_size = off div sector_size + length b div sector_size" by simp
  with Some ss assms(1) show ?thesis
    by (auto simp: plain_def keys_law_def xts_law_def dest: find_in split: option.splits)
qed (simp add: plain_def)

lemma file_block_length: "keys_law bs self \<Longrightarrow> length (file_block bytes self bs m b) = bs"
  by (auto simp: file_block_def plain_length split: byte_info.splits)

lemma file_bytes_block:
  assumes "keys_law bs self" "bs dvd b" "0 < bs" "n \<le> bs"
  shows "map (file_byte bytes self bs m) [b..<b + n] = take n (file_block bytes self bs m b)"
proof (rule nth_equalityI)
  fix i assume "i < length (map (file_byte bytes self bs m) [b..<b + n])"
  then have i: "i < n" by simp
  moreover have "(b + i) mod bs = i" "b + i - (b + i) mod bs = b" using assms(2-4) i by (auto simp: mod_add_eq elim!: dvdE)
  ultimately show "map (file_byte bytes self bs m) [b..<b + n] ! i = take n (file_block bytes self bs m b) ! i"
    by (simp add: file_byte_def)
qed (use assms in \<open>simp add: file_block_length\<close>)

lemma file_byte_hole:
  assumes "0 < bs" "bs dvd off" "off \<le> x" "\<forall>y. off \<le> y \<and> y \<le> x \<longrightarrow> m y = Hole"
  shows "file_byte bytes self bs m x = 0"
proof -
  have "off \<le> x - x mod bs"
    using round_down_greatest [OF assms(1-3)] by (simp add: minus_mod_eq_mult_div)
  then have "m (x - x mod bs) = Hole" using assms(4) by simp
  then show ?thesis using assms(1) by (simp add: file_byte_def file_block_def)
qed

lemma file_bytes_hole:
  assumes "0 < bs" "bs dvd off" "\<forall>y. off \<le> y \<and> y < off + n \<longrightarrow> m y = Hole"
  shows "map (file_byte bytes self bs m) [off..<off + n] = replicate n 0"
  using assms file_byte_hole [OF assms(1,2)] by (intro nth_equalityI) auto

text \<open>Decrypting a run of blocks that lie one after the other on the device.\<close>

lemma plain_run:
  assumes "keys_law bs self" "bs dvd off" "0 < bs"
    and "\<forall>j < k. \<exists>c. m (off + j * bs) = Mapped (dv + j * bs) c kid"
  shows "plain self kid off (map bytes [dv..<dv + k * bs]) = map (file_byte bytes self bs m) [off..<off + k * bs]"
  using assms(4)
proof (induction k)
  case 0
  have "length (plain self kid off []) = 0" using plain_length [OF assms(1), of "[]"] by simp
  then show ?case by simp
next
  case (Suc k)
  have IH: "plain self kid off (map bytes [dv..<dv + k * bs]) = map (file_byte bytes self bs m) [off..<off + k * bs]"
    by (rule Suc.IH) (use Suc.prems in simp)
  obtain c where "m (off + k * bs) = Mapped (dv + k * bs) c kid" using Suc.prems by blast
  then have "file_block bytes self bs m (off + k * bs) = plain self kid (off + k * bs) (map bytes [dv + k * bs..<dv + k * bs + bs])"
    by (simp add: file_block_def)
  then have last: "map (file_byte bytes self bs m) [off + k * bs..<off + k * bs + bs] =
      plain self kid (off + k * bs) (map bytes [dv + k * bs..<dv + k * bs + bs])"
    using file_bytes_block [OF assms(1) _ assms(3) order_refl, of "off + k * bs"] file_block_length [OF assms(1)] assms(2)
    by simp
  have split: "[x..<x + Suc k * bs] = [x..<x + k * bs] @ [x + k * bs..<x + k * bs + bs]" for x
    using upt_add_eq_append [of x "x + k * bs" bs] by (simp add: algebra_simps)
  show ?case
    unfolding split map_append plain_append [OF assms(1) _ _ assms(2)] IH last
    using plain_append [OF assms(1) _ _ assms(2), of "map bytes [dv..<dv + k * bs]" "map bytes [dv + k * bs..<dv + k * bs + bs]" kid] IH
    by simp
qed

lemma read_and_decrypt_run:
  assumes D: "dev_reads D bytes bs dev_size" and keys: "keys_law bs self" and m: "map_ok bs dev_size self m"
    and len: "0 < bs" "bs dvd off" "bs dvd len" "0 < len"
    and run: "\<forall>x. off \<le> x \<and> x < off + len \<longrightarrow> (\<exists>c. m x = Mapped (dv + (x - off)) c kid)"
  shows "read_and_decrypt D d dv off len kid self = Inr (map (file_byte (bytes d) self bs m) [off..<off + len])"
proof -
  obtain k where k: "len = k * bs" using len(3) by (metis dvd_def mult.commute)
  obtain c where c: "m off = Mapped dv c kid" using run len(4) by fastforce
  have dv: "bs dvd dv" using m c len(2) by (auto simp: map_ok_def) (metis dvd_imp_mod_0 mod_0_imp_dvd)
  have "\<exists>c. m (off + (len - 1)) = Mapped (dv + (off + (len - 1) - off)) c kid" by (rule run [rule_format]) (use len(4) in simp)
  then obtain c' where "m (off + (len - 1)) = Mapped (dv + (len - 1)) c' kid" by auto
  then have "dv + len \<le> dev_size" using m len(4) by (fastforce simp: map_ok_def)
  then have read: "dev_read D dv len d = Inr (map (bytes d) [dv..<dv + len])" using D dv len(3) by (simp add: dev_reads_def)
  have "\<exists>c. m (off + j * bs) = Mapped (dv + j * bs) c kid" if "j < k" for j
    using run [rule_format, of "off + j * bs"] that len(1) k by simp
  then have plain: "plain self kid off (map (bytes d) [dv..<dv + len]) = map (file_byte (bytes d) self bs m) [off..<off + len]"
    using plain_run [OF keys len(2,1), of k m dv kid "bytes d"] k by simp
  show ?thesis
  proof (cases "h_keys self")
    case None
    with read plain show ?thesis by (simp add: read_and_decrypt_def plain_def)
  next
    case (Some ks)
    then have "kid \<in> xts_id ` set ks" using m c by (auto simp: map_ok_def)
    then obtain x where x: "List.find (\<lambda>c. xts_id c = kid) ks = Some x"
      by (cases "List.find (\<lambda>c. xts_id c = kid) ks") (auto simp: find_None_iff)
    have "off mod sector_size = 0" using len(2) keys Some by (auto simp: keys_law_def intro: dvd_trans)
    with read plain Some x show ?thesis by (simp add: read_and_decrypt_def plain_def xts_decrypt_def)
  qed
qed

section \<open>Reading\<close>

text \<open>What a turn of the loop may leave: all that was asked for, or the part up to the end of the extent.\<close>

definition read_ok :: "(nat \<Rightarrow> u8) \<Rightarrow> nat \<Rightarrow> nat \<Rightarrow> nat \<Rightarrow> nat \<Rightarrow> u8 list + u8 list \<times> nat \<times> nat \<Rightarrow> bool" where
  "read_ok f bs offset n lim q =
     (case q of
        Inl bytes \<Rightarrow> bytes = map f [offset..<offset + n]
      | Inr (bytes, offset', n') \<Rightarrow>
          bytes = map f [offset..<offset'] \<and> offset \<le> offset' \<and> offset' + n' = offset + n \<and> 0 < n' \<and> bs dvd offset' \<and>
          offset' \<le> lim)"

definition readable ::
  "'d device \<Rightarrow> ('d \<Rightarrow> nat \<Rightarrow> u8) \<Rightarrow> nat \<Rightarrow> nat \<Rightarrow> store_object_handle \<Rightarrow> (nat \<Rightarrow> byte_info) \<Rightarrow> bool" where
  "readable D bytes bs dev_size self m \<longleftrightarrow>
     0 < bs \<and> dev_reads D bytes bs dev_size \<and> keys_law bs self \<and> map_ok bs dev_size self m"

lemma read_copy_ok:
  assumes rd: "readable D bytes bs dev_size self m"
    and r: "bs dvd rend r" "rstart r \<le> offset" "offset < rend r" "dv + (rend r - rstart r) \<le> u64_max" "bs dvd offset" "0 < n"
    and run: "\<forall>x. offset \<le> x \<and> x < rend r \<longrightarrow> (\<exists>c. m x = Mapped (dv + (x - rstart r)) c kid)"
  shows "\<exists>q. read_copy D d bs ((offset + n) mod bs) self r dv kid offset n = Inr q \<and>
    read_ok (file_byte (bytes d) self bs m) bs offset n (rend r) q \<and>
    (\<forall>w. q = Inr w \<longrightarrow> fst (snd w) = rend r)"
proof -
  let ?f = "file_byte (bytes d) self bs m" and ?ea = "(offset + n) mod bs" and ?dv = "dv + (offset - rstart r)"
  have D: "dev_reads D bytes bs dev_size" and keys: "keys_law bs self" and m: "map_ok bs dev_size self m" and bs: "0 < bs"
    using rd by (simp_all add: readable_def)
  have ea: "?ea = n mod bs" "?ea \<le> n" using r(5) by (auto simp: mod_add_eq elim!: dvdE)
  define whole where "whole = n - ?ea"
  define tc where "tc = min whole (rend r - offset)"
  have whole: "bs dvd whole" unfolding whole_def ea(1) by (simp add: dvd_minus_mod)
  have left: "bs dvd rend r - offset" using r(1,5) by (rule dvd_diff_nat)
  have tc: "bs dvd tc" unfolding tc_def min_def using whole left by simp
  have add: "u64_add dv (offset - rstart r) = Inr ?dv" "u64_add ?dv tc = Inr (?dv + tc)"
    using r(2-4) by (auto simp: u64_add_def tc_def)
  have subs: "u64_sub n ?ea = Inr whole" "u64_sub (rend r) offset = Inr (rend r - offset)"
    using ea(2) r(3) by (simp_all add: u64_sub_eq whole_def)
  have rd: "read_and_decrypt D d (?dv + k) (offset + k) len kid self = Inr (map ?f [offset + k..<offset + k + len])"
    if k: "bs dvd k" "bs dvd len" "0 < len" "offset + k + len \<le> rend r" for k len
  proof (rule read_and_decrypt_run [OF D keys m bs _ k(2,3)])
    show "bs dvd offset + k" using r(5) k(1) by simp
    show "\<forall>x. offset + k \<le> x \<and> x < offset + k + len \<longrightarrow> (\<exists>c. m x = Mapped (?dv + k + (x - (offset + k))) c kid)"
    proof (intro allI impI)
      fix x assume x: "offset + k \<le> x \<and> x < offset + k + len"
      then have "x - rstart r = offset - rstart r + k + (x - (offset + k))" using r(2) by simp
      then show "\<exists>c. m x = Mapped (?dv + k + (x - (offset + k))) c kid" using run [rule_format, of x] x k(4) by (simp add: add.assoc)
    qed
  qed
  have copied: "(if tc > 0 then read_and_decrypt D d ?dv offset tc kid self else Inr []) = Inr (map ?f [offset..<offset + tc])"
    using rd [of 0 tc] tc r(3) by (auto simp: tc_def)
  have start: "read_copy D d bs ?ea self r dv kid offset n =
      (if tc > 0 \<and> n \<le> tc then Inr (Inl (map ?f [offset..<offset + tc]))
       else if offset + tc < rend r \<and> ?ea > 0
       then bind_res (read_and_decrypt D d (?dv + tc) (offset + tc) bs kid self) (\<lambda>align_buf.
            bind_res (ensure (n - tc = ?ea \<and> ?ea \<le> length align_buf) Panic) (\<lambda>_.
              Inr (Inl (map ?f [offset..<offset + tc] @ take ?ea align_buf))))
       else Inr (Inr (map ?f [offset..<offset + tc], offset + tc, n - tc)))"
    by (simp only: read_copy_def add subs bind_res_simps Let_def tc_def [symmetric] copied)
  show ?thesis
  proof (cases "tc > 0 \<and> n \<le> tc")
    case True
    moreover have "tc \<le> n" by (simp add: tc_def whole_def)
    ultimately show ?thesis unfolding start by (auto simp: read_ok_def)
  next
    case more: False
    show ?thesis
    proof (cases "offset + tc < rend r \<and> ?ea > 0")
      case True
      then have tw: "tc = whole" by (auto simp: tc_def)
      have fit: "offset + tc + bs \<le> rend r"
      proof -
        have "bs dvd rend r - (offset + tc)" using r(1,5) tc by (intro dvd_diff_nat) simp_all
        then have "bs \<le> rend r - (offset + tc)" using True by (intro dvd_imp_le) simp_all
        then show ?thesis using True by linarith
      qed
      have nt: "n - tc = ?ea" "?ea \<le> bs" using tw ea(2) bs by (simp_all add: whole_def)
      have "take ?ea (map ?f [offset + tc..<offset + tc + bs]) = map ?f [offset + tc..<offset + n]"
        using nt ea(2) tw by (simp add: take_map whole_def)
      moreover have "map ?f [offset..<offset + tc] @ map ?f [offset + tc..<offset + n] = map ?f [offset..<offset + n]"
        using nt tw ea(2) by (simp add: whole_def map_upt_append)
      ultimately show ?thesis
        using more True rd [OF tc _ bs fit] nt by (simp add: start read_ok_def) auto
    next
      case False
      have "offset + tc = rend r"
      proof (rule ccontr)
        assume "offset + tc \<noteq> rend r"
        then have "tc = whole" "?ea = 0" using False r(3) by (auto simp: tc_def)
        then show False using more r(6) by (simp add: whole_def)
      qed
      moreover have "tc < n" using more r(3,6) calculation by (cases "tc = 0") auto
      ultimately show ?thesis using more False r(1) by (auto simp: start read_ok_def)
    qed
  qed
qed

lemma read_step_ok:
  assumes rd: "readable D bytes bs dev_size self m"
    and i: "item_as_extent i = Some (h_object_id self, h_attribute_id self, ek, ev)"
    and ek: "rstart (range ek) < rend (range ek)" "bs dvd rstart (range ek)" "bs dvd rend (range ek)"
      "value_fits bs (rend (range ek) - rstart (range ek)) ev" "offset < rend (range ek)"
    and at: "\<forall>x. offset \<le> x \<and> x < rend (range ek) \<longrightarrow>
      m x = (if rstart (range ek) \<le> x then byte_at bs ev (x - rstart (range ek)) else Hole)"
    and n: "bs dvd offset" "0 < n" "offset + n \<le> u64_max"
  shows "\<exists>q. read_step D d bs ((offset + n) mod bs) self i offset n = Inr q \<and>
    read_ok (file_byte (bytes d) self bs m) bs offset n (rend (range ek)) q \<and>
    (\<forall>w x. q = Inr w \<longrightarrow> fst (snd w) \<le> x \<and> x < rend (range ek) \<longrightarrow> m x = Hole) \<and>
    (\<forall>w. q = Inr w \<longrightarrow> fst (snd w) = rend (range ek) \<or> fst (snd w) = max offset (rstart (range ek)))"
proof -
  let ?f = "file_byte (bytes d) self bs m" and ?r = "range ek"
  have bs: "0 < bs" using rd by (simp add: readable_def)
  define tz where "tz = min (rstart ?r - offset) n"
  define fill :: "u8 list + u8 list \<times> nat \<times> nat \<Rightarrow> u8 list + u8 list \<times> nat \<times> nat"
    where "fill = case_sum (\<lambda>bytes. Inl (replicate tz 0 @ bytes)) (\<lambda>(bytes, q). Inr (replicate tz 0 @ bytes, q))"
  have al: "range_is_aligned ?r bs = Inr True" "range_is_valid ?r"
    using ek bs by (auto simp: range_is_aligned_def u64_rem_def range_is_valid_def)
  have zeros: "replicate tz 0 = map ?f [offset..<offset + tz]"
  proof (rule file_bytes_hole [OF bs n(1), symmetric], intro allI impI)
    fix y assume "offset \<le> y \<and> y < offset + tz"
    then have "offset \<le> y" "y < rstart ?r" by (auto simp: tz_def)
    with at ek(1) show "m y = Hole" by simp
  qed
  have step: "read_step D d bs ((offset + n) mod bs) self i offset n =
      (if rstart ?r > offset \<and> n \<le> tz then Inr (Inl (replicate n 0))
       else (case ev of
          ExtentSome dv _ kid \<Rightarrow>
            bind_res (read_copy D d bs ((offset + n) mod bs) self ?r dv kid (offset + tz) (n - tz)) (\<lambda>q. Inr (fill q))
        | ExtentNone \<Rightarrow>
            bind_res (u64_add (offset + tz) (n - tz)) (\<lambda>fin.
              Inr (fill (if rend ?r \<ge> fin then Inl (replicate (n - tz) 0) else Inr ([], offset + tz, n - tz))))))"
    unfolding fill_def tz_def by (simp add: read_step_def i al Let_def)
  show ?thesis
  proof (cases "rstart ?r > offset \<and> n \<le> tz")
    case True
    then have "tz = n" by (auto simp: tz_def)
    with True zeros show ?thesis by (simp add: step read_ok_def)
  next
    case False
    define off where "off = offset + tz"
    define k where "k = n - tz"
    have tz: "tz = rstart ?r - offset" using False by (auto simp: tz_def min_def split: if_splits)
    have tzn: "tz < n" using False n(2) by (cases "rstart ?r > offset") (auto simp: tz_def)
    have off: "rstart ?r \<le> off" "off < rend ?r" "bs dvd off" "offset \<le> off" "0 < k" "off + k = offset + n" "off = max offset (rstart ?r)"
      using tz tzn ek n(1) by (auto simp: off_def k_def dvd_diff_nat)
    have fill: "read_ok ?f bs offset n l (fill q)" if "read_ok ?f bs off k l q" for l q
    proof (cases q)
      case (Inl b)
      then have b: "b = map ?f [off..<off + k]" using that by (simp add: read_ok_def)
      have "replicate tz 0 @ map ?f [off..<off + k] = map ?f [offset..<offset + n]"
        using off(4) zeros unfolding off_def [symmetric] off(6) [symmetric] by (simp add: map_upt_append)
      with Inl b show ?thesis by (simp add: fill_def read_ok_def)
    next
      case (Inr w)
      obtain b o' n' where w: "w = (b, o', n')" by (cases w)
      have o': "b = map ?f [off..<o']" "off \<le> o'" "o' + n' = off + k" "0 < n'" "bs dvd o'" "o' \<le> l"
        using that Inr w by (auto simp: read_ok_def)
      have "map ?f [offset..<offset + tz] @ map ?f [off..<o'] = map ?f [offset..<o']"
        using o'(2) by (simp add: off_def map_upt_append)
      with Inr w o' off zeros show ?thesis by (simp add: fill_def read_ok_def)
    qed
    show ?thesis
    proof (cases ev)
      case ExtentNone
      have hole: "m x = Hole" if "off \<le> x" "x < rend ?r" for x
        using at that ExtentNone off(4) by (simp add: byte_at_def)
      define q0 :: "u8 list + u8 list \<times> nat \<times> nat" where "q0 = (if rend ?r \<ge> off + k then Inl (replicate k 0) else Inr ([], off, k))"
      have ok: "read_ok ?f bs off k (rend ?r) q0"
        using file_bytes_hole [OF bs off(3), of k m "bytes d" self] hole off by (auto simp: read_ok_def q0_def)
      moreover have "read_step D d bs ((offset + n) mod bs) self i offset n =
          Inr (fill q0)"
        using ExtentNone n(3) off(6) unfolding step if_not_P [OF False] by (simp add: u64_add_eq off_def k_def q0_def)
      moreover have "\<forall>w. fill q0 = Inr w \<longrightarrow> fst (snd w) = off"
        by (auto simp: fill_def q0_def split: if_splits)
      ultimately show ?thesis using fill [OF ok] hole off(7) by (intro exI [of _ "fill q0"]) auto
    next
      case (ExtentSome dv cs kid)
      have run: "\<forall>x. off \<le> x \<and> x < rend ?r \<longrightarrow> (\<exists>c. m x = Mapped (dv + (x - rstart ?r)) c kid)"
        using at off ExtentSome by (simp add: byte_at_def)
      have "dv + (rend ?r - rstart ?r) \<le> u64_max" using ek(4) ExtentSome by (simp add: value_fits_def)
      from read_copy_ok [OF rd ek(3) off(1,2) this off(3,5) run] obtain q where q: "read_copy D d bs ((off + k) mod bs) self ?r dv kid off k = Inr q"
        "read_ok ?f bs off k (rend ?r) q" "\<forall>w. q = Inr w \<longrightarrow> fst (snd w) = rend ?r" by blast
      then have "read_step D d bs ((offset + n) mod bs) self i offset n = Inr (fill q)"
        using ExtentSome off(6) unfolding step if_not_P [OF False] by (simp add: off_def k_def)
      moreover have "\<forall>w. fill q = Inr w \<longrightarrow> fst (snd w) = rend ?r" using q(3) by (auto simp: fill_def split: sum.splits)
      ultimately show ?thesis using fill [OF q(2)] by force
    qed
  qed
qed

lemma read_loop_ok:
  assumes rd: "readable D bytes bs dev_size self m"
    and "extents_from bs (h_object_id self) (h_attribute_id self) m l b items" "offset \<le> b" "offset < b \<Longrightarrow> offset \<le> l \<and> l < b"
    and "\<forall>x. offset \<le> x \<and> x < b \<longrightarrow> m x = Hole" "bs dvd offset" "0 < n" "offset + n \<le> u64_max"
  shows "read_loop D d bs ((offset + n) mod bs) self items offset n =
    Inr (map (file_byte (bytes d) self bs m) [offset..<offset + n])"
  using assms(2-)
proof (induction items arbitrary: l b offset n)
  case Nil
  have "m x = Hole" if "offset \<le> x" for x using Nil.prems that by (cases "b \<le> x") auto
  then show ?case using file_bytes_hole [of bs offset n m] rd Nil.prems(5) by (simp add: readable_def)
next
  case (Cons i items)
  let ?f = "file_byte (bytes d) self bs m"
  show ?case
  proof (cases "is_own (h_object_id self) (h_attribute_id self) i")
    case False
    have "m x = Hole" if "offset \<le> x" for x using Cons.prems False that by (cases "b \<le> x") auto
    then have "map ?f [offset..<offset + n] = replicate n 0"
      using file_bytes_hole [of bs offset n m] rd Cons.prems(5) by (simp add: readable_def)
    moreover have "read_step D d bs ((offset + n) mod bs) self i offset n = Inr (Inl (replicate n 0))"
      using False by (auto simp: read_step_def is_own_def split: option.splits)
    ultimately show ?thesis by simp
  next
    case True
    then obtain ek ev where i: "item_as_extent i = Some (h_object_id self, h_attribute_id self, ek, ev)" by (auto simp: is_own_iff)
    then have e: "rstart (range ek) < rend (range ek)" "bs dvd rstart (range ek)" "bs dvd rend (range ek)"
        "value_fits bs (rend (range ek) - rstart (range ek)) ev" "b < rend (range ek)"
        "extents_from bs (h_object_id self) (h_attribute_id self) m (max b (rstart (range ek))) (rend (range ek)) items"
      and at: "\<forall>x. b \<le> x \<and> x < rend (range ek) \<longrightarrow>
        m x = (if rstart (range ek) \<le> x then byte_at bs ev (x - rstart (range ek)) else Hole)"
      and reach: "\<forall>x. l \<le> x \<and> x < b \<and> rstart (range ek) \<le> x \<longrightarrow> m x = byte_at bs ev (x - rstart (range ek))"
      using Cons.prems(1) True by auto
    have all: "\<forall>x. offset \<le> x \<and> x < rend (range ek) \<longrightarrow>
        m x = (if rstart (range ek) \<le> x then byte_at bs ev (x - rstart (range ek)) else Hole)"
    proof (intro allI impI)
      fix x assume x: "offset \<le> x \<and> x < rend (range ek)"
      show "m x = (if rstart (range ek) \<le> x then byte_at bs ev (x - rstart (range ek)) else Hole)"
      proof (cases "b \<le> x")
        case False
        then have hole: "m x = Hole" "offset \<le> l" "l < b" using x Cons.prems(3,4) by auto
        have "ev = ExtentNone" if "rstart (range ek) \<le> x"
        proof -
          have "m (max l (rstart (range ek))) = Hole" using Cons.prems(4) hole that False by auto
          moreover have "m (max l (rstart (range ek))) = byte_at bs ev (max l (rstart (range ek)) - rstart (range ek))"
            by (rule reach [rule_format]) (use hole that False in auto)
          ultimately show ?thesis by (cases ev) (auto simp: byte_at_def)
        qed
        with hole show ?thesis by (auto simp: byte_at_def)
      qed (use at x in auto)
    qed
    have off: "offset < rend (range ek)" using Cons.prems(2) e(5) by simp
    obtain q where q: "read_step D d bs ((offset + n) mod bs) self i offset n = Inr q"
      "read_ok ?f bs offset n (rend (range ek)) q"
      "\<forall>w x. q = Inr w \<longrightarrow> fst (snd w) \<le> x \<and> x < rend (range ek) \<longrightarrow> m x = Hole"
      "\<forall>w. q = Inr w \<longrightarrow> fst (snd w) = rend (range ek) \<or> fst (snd w) = max offset (rstart (range ek))"
      using read_step_ok [OF rd i e(1-4) off all Cons.prems(5-7)] by blast
    show ?thesis
    proof (cases q)
      case (Inr w)
      obtain b' o' n' where w: "w = (b', o', n')" by (cases w)
      have o': "b' = map ?f [offset..<o']" "offset \<le> o'" "o' + n' = offset + n" "0 < n'" "bs dvd o'" "o' \<le> rend (range ek)"
        using q(2) Inr w by (auto simp: read_ok_def)
      have "read_loop D d bs ((o' + n') mod bs) self items o' n' = Inr (map ?f [o'..<o' + n'])"
        by (rule Cons.IH [OF e(6)]) (use o' q(3,4) Inr w Cons.prems(2,7) e(1,5) in auto)
      moreover have "map ?f [offset..<o'] @ map ?f [o'..<o' + n'] = map ?f [offset..<offset + n]"
        using o'(2,3) by (simp add: map_upt_append)
      ultimately show ?thesis using q(1) Inr w o'(1,3) by simp
    qed (use q(1,2) in \<open>simp add: read_ok_def\<close>)
  qed
qed

text \<open>What reading a file through a handle needs: well-formed layers, fuel, and blocks that can be read.\<close>

definition file_ok ::
  "nat \<Rightarrow> 'd device \<Rightarrow> ('d \<Rightarrow> nat \<Rightarrow> u8) \<Rightarrow> nat \<Rightarrow> object_store \<Rightarrow> store_object_handle \<Rightarrow> bool" where
  "file_ok fuel D bytes dev_size s self \<longleftrightarrow>
     (\<forall>l \<in> set (layer_set (os_tree s)). layer_ok (object_sem (os_block_size s)) l) \<and>
     seek_fuel (object_sem (os_block_size s)) (layer_set (os_tree s)) < fuel \<and>
     readable D bytes (os_block_size s) dev_size self
       (file_map (os_block_size s) (os_tree s) (h_object_id self) (h_attribute_id self)) \<and>
     get_size self \<le> u64_max \<and> 0 < dev_block_size D"

text \<open>The bytes of a file.\<close>

definition file_at :: "(nat \<Rightarrow> u8) \<Rightarrow> object_store \<Rightarrow> store_object_handle \<Rightarrow> nat \<Rightarrow> u8" where
  "file_at bytes s self =
     file_byte bytes self (os_block_size s)
       (file_map (os_block_size s) (os_tree s) (h_object_id self) (h_attribute_id self))"

lemma handle_read_contents:
  assumes "file_ok fuel D bytes dev_size s self" "os_block_size s dvd offset" "dev_block_size D dvd at"
  shows "handle_read fuel D d s self offset at buf =
    (let n = min (length buf) (get_size self - offset) in
     Inr (n, map (file_at (bytes d) s self) [offset..<offset + n] @ drop n buf))"
proof (cases "buf = [] \<or> get_size self \<le> offset")
  case True
  then show ?thesis
    using assms by (auto simp: handle_read_def file_ok_def readable_def u64_rem_eq dvd_imp_mod_0)
next
  case False
  let ?bs = "os_block_size s" and ?n = "min (length buf) (get_size self - offset)"
  let ?m = "file_map ?bs (os_tree s) (h_object_id self) (h_attribute_id self)"
  have f: "\<forall>l \<in> set (layer_set (os_tree s)). layer_ok (object_sem ?bs) l" "seek_fuel (object_sem ?bs) (layer_set (os_tree s)) < fuel"
    "readable D bytes ?bs dev_size self ?m" "get_size self \<le> u64_max" "0 < dev_block_size D" "0 < ?bs"
    using assms(1) by (auto simp: file_ok_def readable_def)
  obtain es where es: "object_iter fuel (os_tree s) (object_key_from_extent (h_object_id self) (h_attribute_id self)
      (ExtentKey (Range offset (Suc offset)))) = Inr es"
    "extents_from ?bs (h_object_id self) (h_attribute_id self) ?m offset offset es"
    using extents_iter [OF f(1,2) order_refl] by metis
  have key: "object_key_extent (h_object_id self) (h_attribute_id self) (Range offset (Suc offset)) =
      object_key_from_extent (h_object_id self) (h_attribute_id self) (ExtentKey (Range offset (Suc offset)))"
    by (simp add: object_key_extent_def object_key_from_extent_def extent_key_new_def)
  have n: "0 < ?n" "offset + ?n \<le> u64_max" "offset + 1 \<le> u64_max" using False f(4) by auto
  have "read_loop D d ?bs ((offset + ?n) mod ?bs) self es offset ?n = Inr (map (file_at (bytes d) s self) [offset..<offset + ?n])"
    unfolding file_at_def by (rule read_loop_ok [OF f(3) es(2)]) (use assms(2) n in auto)
  then show ?thesis
    using False assms(2,3) f(5,6) n(2,3) es(1)
    by (simp add: handle_read_def u64_rem_eq u64_add_eq key Let_def dvd_imp_mod_0 not_le)
qed

text \<open>
  C19: reading through a handle returns the contents of the file. From an aligned offset, \<^verbatim>\<open>read\<close> fills the buffer, up
  to the size of the file, with what the newest layers of the store map to the device, decrypted with the key
  of each extent, and with zeros where nothing is mapped; the rest of the buffer stays as it was.
\<close>

theorem handle_read_correct:
  assumes "file_ok fuel D bytes dev_size s self" "os_block_size s dvd offset" "dev_block_size D dvd at"
  shows "handle_read fuel D d s self offset at buf =
    (let n = min (length buf) (get_size self - offset) in
     Inr (n, map (file_at (bytes d) s self) [offset..<offset + n] @ drop n buf))"
  by (rule handle_read_contents [OF assms])

section \<open>An example\<close>

text \<open>A device of 8192 bytes, a cipher that adds the number of the sector, and a file with one extent.\<close>

definition example_device :: "(nat \<Rightarrow> u8) device" where
  "example_device =
     \<lparr>dev_block_size = 512,
      dev_read = (\<lambda>off n d. if off + n \<le> 8192 then Inr (map d [off..<off + n]) else Inl Io),
      dev_write = (\<lambda>off bs d. if off + length bs \<le> 8192
        then Inr (\<lambda>x. if off \<le> x \<and> x < off + length bs then bs ! (x - off) else d x) else Inl Io),
      allocate_buffer = (\<lambda>n. replicate n 0)\<rparr>"

fun shift_area :: "(u8 \<Rightarrow> u8 \<Rightarrow> u8) \<Rightarrow> nat \<Rightarrow> nat \<Rightarrow> u8 list \<Rightarrow> u8 list" where
  "shift_area f ss k [] = []"
| "shift_area f ss k (b # bs) = f b (of_nat (k div ss)) # shift_area f ss (Suc k) bs"

definition shift_xts :: xts where
  "shift_xts =
     \<lparr>encrypt_area = (\<lambda>b ss n. shift_area (+) ss (n * ss) b), decrypt_area = (\<lambda>b ss n. shift_area (-) ss (n * ss) b)\<rparr>"

lemma shift_area_append: "shift_area f ss k (b @ c) = shift_area f ss k b @ shift_area f ss (k + length b) c"
  by (induction b arbitrary: k) auto

lemma shift_area_length [simp]: "length (shift_area f ss k b) = length b"
  by (induction b arbitrary: k) auto

lemma shift_area_nth: "i < length b \<Longrightarrow> shift_area f ss k b ! i = f (b ! i) (of_nat ((k + i) div ss))"
  by (induction b arbitrary: k i) (auto simp: nth_Cons split: nat.splits)

lemma shift_area_inverse: "shift_area (-) ss k (shift_area (+) ss k b) = b"
  by (induction b arbitrary: k) auto

lemma shift_xts_law: "xts_law shift_xts"
  by (auto simp: xts_law_def shift_xts_def shift_area_inverse shift_area_append add_mult_distrib elim!: dvdE)

definition example_handle :: store_object_handle where
  "example_handle = store_object_handle_new (\<lambda>_. shift_xts) 1 5 (Some [(0, [])]) 0 1000"

definition example_file :: object_store where
  "example_file = (object_store_new_empty (Some 2) 7 512)
     \<lparr>os_tree := \<lparr>mutable_layer = [extent_item 5 0 (Range 512 1024) (ExtentSome 1024 ChecksumsNone 0) 1], immutable_layers = []\<rparr>\<rparr>"

lemma example_device_reads: "dev_reads example_device id 512 8192"
  by (simp add: dev_reads_def example_device_def)

lemma example_file_map:
  "file_map 512 (os_tree example_file) 5 0 x = (if 512 \<le> x \<and> x < 1024 then Mapped (x + 512) None 0 else Hole)"
proof -
  have "item_as_extent (extent_item 5 0 (Range 512 1024) (ExtentSome 1024 ChecksumsNone 0) 1 :: encryption_keys object_item) =
      Some (5, 0, ExtentKey (Range 512 1024), ExtentSome 1024 ChecksumsNone 0)"
    by (simp add: extent_item_def item_as_extent_def item_new_with_sequence_def object_key_extent_def extent_key_new_def)
  from own_at [OF this, of 512 x] show ?thesis
    by (auto simp: file_map_def example_file_def layer_set_def byte_at_def block_checksum_def)
qed

lemma example_simps [simp]:
  "os_block_size example_file = 512" "h_object_id example_handle = 5" "h_attribute_id example_handle = 0"
  "get_size example_handle = 1000" "h_keys example_handle = Some [\<lparr>xts_id = 0, xts_of = shift_xts\<rparr>]"
  "dev_block_size example_device = 512"
  by (simp_all add: example_file_def object_store_new_empty_def object_store_new_def example_handle_def
      store_object_handle_new_def get_size_def xts_cipher_set_new_def example_device_def)

lemma example_file_ok: "file_ok 10000 example_device id 8192 example_file example_handle"
proof -
  have "keys_law 512 example_handle" using shift_xts_law by (simp add: keys_law_def sector_size_def)
  moreover have "map_ok 512 8192 example_handle (file_map 512 (os_tree example_file) 5 0)"
    using mod_add_self2 [of _ 512] by (auto simp: map_ok_def example_file_map split: if_splits)
  ultimately show ?thesis
    using example_device_reads
    by (simp add: file_ok_def readable_def)
      (simp add: example_file_def layer_set_def value_fits_def u64_max_def seek_fuel_def layer_weight_def)
qed

lemma nth_read:
  assumes "r = (let n = min (length buf) (k - 0) in Inr (n, map f [0..<0 + n] @ drop n buf))" "min (length buf) (k - 0) = n"
  shows "\<exists>b. r = Inr (n, b) \<and> (\<forall>i < n. b ! i = f i) \<and> (\<forall>i \<ge> n. b ! i = drop n buf ! (i - n))"
  using assms by (auto simp: Let_def nth_append)

theorem handle_read_correct_witness:
  "\<exists>buf. handle_read 10000 example_device of_nat example_file example_handle 0 0 (replicate 1024 7) = Inr (1000, buf) \<and>
     buf ! 3 = 0 \<and> buf ! 600 = 87 \<and> buf ! 1001 = 7"
proof -
  let ?r = "handle_read 10000 example_device of_nat example_file example_handle 0 0 (replicate 1024 7)"
  have hole: "file_at of_nat example_file example_handle 3 = 0"
    by (simp add: file_at_def file_byte_def file_block_def example_file_map)
  have "file_block of_nat example_handle 512 (file_map 512 (os_tree example_file) 5 0) 512 =
      shift_area (-) 512 512 (map of_nat [1024..<1024 + 512])"
    by (simp add: file_block_def example_file_map plain_def shift_xts_def sector_size_def del: upt_rec_numeral)
  moreover have "map (of_nat :: nat \<Rightarrow> u8) [1024..<1024 + 512] ! 88 = 88" by (subst nth_map_upt) simp_all
  ultimately have mapped: "file_at of_nat example_file example_handle 600 = 87"
    by (simp add: file_at_def file_byte_def shift_area_nth del: upt_rec_numeral)
  have "\<exists>b. ?r = Inr (1000, b) \<and> (\<forall>i < 1000. b ! i = file_at (id of_nat) example_file example_handle i) \<and>
      (\<forall>i \<ge> 1000. b ! i = drop 1000 (replicate 1024 7) ! (i - 1000))"
    by (rule nth_read, rule handle_read_correct [OF example_file_ok]) simp_all
  then obtain b where b: "?r = Inr (1000, b)" "\<forall>i < 1000. b ! i = file_at of_nat example_file example_handle i"
    "\<forall>i \<ge> 1000. b ! i = drop 1000 (replicate 1024 7) ! (i - 1000)" by (auto simp only: id_apply)
  moreover have "drop 1000 (replicate 1024 (7 :: u8)) ! (1001 - 1000) = 7" by (simp only: drop_replicate) simp
  ultimately have "b ! 3 = 0 \<and> b ! 600 = 87 \<and> b ! 1001 = 7" using hole mapped by simp
  with b(1) show ?thesis by blast
qed

end
