(* ===== verification/Persistent_Layer_Correct.thy ===== *)
theory Persistent_Layer_Correct
  imports Persistent_Layer Handle_Read
begin

text \<open>
  What a layer file holds. \<open>write_bytes_laws\<close> states what the layer writer relies on in a \<^verbatim>\<open>WriteBytes\<close>: the bytes
  form a stream, in which skipped bytes are zero, unless the writer fails. Both writers of the program meet it, over
  any object of which one knows what it holds after a write that succeeds (\<open>object_writer\<close>). The object of the
  tests is one. So is every object whatever, the handle of a file in a store included, when what it holds is
  taken to be what the writes to it leave (\<open>written_bytes\<close>).
\<close>

section \<open>Results that may fail\<close>

definition ends :: "(error \<Rightarrow> bool) \<Rightarrow> ('a \<Rightarrow> bool) \<Rightarrow> 'a res \<Rightarrow> bool" where
  "ends fails P r = (case r of Inl e \<Rightarrow> fails e | Inr x \<Rightarrow> P x)"

lemma ends_simps [simp]: "ends fails P (Inr x) = P x" "ends fails P (Inl e) = fails e"
  by (simp_all add: ends_def)

lemma ends_bind: "ends fails P r \<Longrightarrow> (\<And>x. P x \<Longrightarrow> ends fails Q (f x)) \<Longrightarrow> ends fails Q (bind_res r f)"
  by (cases r) simp_all

lemma ends_mono: "ends fails P r \<Longrightarrow> (\<And>x. P x \<Longrightarrow> Q x) \<Longrightarrow> ends fails Q r"
  by (cases r) simp_all

section \<open>Streams of bytes\<close>

text \<open>\<open>rep w s g\<close>: the writer \<open>w\<close> has been given the bytes \<open>s\<close>, and \<open>g\<close> bytes were skipped since. It can take \<open>cap\<close> bytes.\<close>

locale write_bytes_laws =
  fixes W :: "'w byte_writer" and rep :: "'w \<Rightarrow> u8 list \<Rightarrow> nat \<Rightarrow> bool" and object_holds :: "'w \<Rightarrow> u8 list \<Rightarrow> bool"
    and fails :: "error \<Rightarrow> bool" and cap :: nat
  assumes write_rep: "\<lbrakk>rep w s g; b \<noteq> []; length s + g + length b \<le> cap\<rbrakk> \<Longrightarrow>
      ends fails (\<lambda>w'. rep w' (s @ replicate g 0 @ b) 0) (wb_write W b w)"
    and skip_rep: "\<lbrakk>rep w s g; length s + g + n \<le> cap\<rbrakk> \<Longrightarrow> ends fails (\<lambda>w'. rep w' s (g + n)) (wb_skip W n w)"
    and complete_rep: "\<lbrakk>rep w s g; length s + g \<le> cap\<rbrakk> \<Longrightarrow>
      ends fails (\<lambda>w'. \<exists>k \<le> g. object_holds w' (s @ replicate k 0)) (wb_complete W w)"

text \<open>
  An object and the bytes it holds: a write that succeeds puts its bytes there, with zeros in a gap before
  them. An empty write may extend the object. \<open>fails\<close> are the errors of writes.
\<close>

definition overwritten :: "nat \<Rightarrow> u8 list \<Rightarrow> u8 list \<Rightarrow> u8 list" where
  "overwritten off b c = take off c @ replicate (off - length c) 0 @ b @ drop (off + length b) c"

locale object_writer =
  fixes put :: "nat \<Rightarrow> u8 list \<Rightarrow> 's \<Rightarrow> 's res" and flush :: "'s \<Rightarrow> 's res" and keeps :: "'s \<Rightarrow> u8 list \<Rightarrow> bool"
    and fails :: "error \<Rightarrow> bool"
  assumes write_keeps: "\<lbrakk>keeps st c; b \<noteq> []; off + length b \<le> u64_max\<rbrakk> \<Longrightarrow>
      ends fails (\<lambda>st'. keeps st' (overwritten off b c)) (put off b st)"
    and write_empty: "\<lbrakk>keeps st c; off \<le> u64_max\<rbrakk> \<Longrightarrow>
      ends fails (\<lambda>st'. keeps st' c \<or> keeps st' (overwritten off [] c)) (put off [] st)"
    and flush_keeps: "keeps st c \<Longrightarrow> ends fails (\<lambda>st'. keeps st' c) (flush st)"

definition stream_rep :: "('s \<Rightarrow> u8 list \<Rightarrow> bool) \<Rightarrow> nat \<times> 's \<Rightarrow> u8 list \<Rightarrow> nat \<Rightarrow> bool" where
  "stream_rep keeps w s g \<longleftrightarrow> keeps (snd w) s \<and> fst w = length s + g"

text \<open>The bytes on the object, the gap up to the offset of the writer and its buffer are the stream.\<close>

definition buffered_rep :: "u8 list \<Rightarrow> direct_writer \<Rightarrow> u8 list \<Rightarrow> nat \<Rightarrow> bool" where
  "buffered_rep c dw s g \<longleftrightarrow>
     length c \<le> dw_offset dw \<and> c @ replicate (dw_offset dw - length c) 0 @ dw_buf dw = s @ replicate g 0 \<and>
     (dw_buf dw = [] \<longrightarrow> length s \<le> length c)"

definition direct_rep :: "('s \<Rightarrow> u8 list \<Rightarrow> bool) \<Rightarrow> direct_writer \<times> 's \<Rightarrow> u8 list \<Rightarrow> nat \<Rightarrow> bool" where
  "direct_rep keeps w s g \<longleftrightarrow>
     length (dw_buf (fst w)) < dw_buffer_size \<and> (\<exists>c. keeps (snd w) c \<and> buffered_rep c (fst w) s g)"

lemma overwritten_end: "length c \<le> off \<Longrightarrow> overwritten off b c = c @ replicate (off - length c) 0 @ b"
  by (simp add: overwritten_def)

lemma zero_prefix:
  assumes "c @ replicate m 0 = s @ replicate g (0 :: u8)" "length s \<le> length c"
  shows "c = s @ replicate (length c - length s) 0"
proof -
  from assms obtain us where us: "c = s @ us" "us @ replicate m 0 = replicate g 0"
    by (auto simp: append_eq_append_conv2)
  have "set (us @ replicate m 0) \<subseteq> {0}" unfolding us(2) by auto
  then have "us = replicate (length us) 0" by (intro replicate_length_same [symmetric]) auto
  then show ?thesis using us(1) by simp
qed

lemma buffered_rep_position: "buffered_rep c dw s g \<Longrightarrow> dw_offset dw + length (dw_buf dw) = length s + g"
  unfolding buffered_rep_def by (metis (no_types, lifting) add.assoc le_add_diff_inverse length_append length_replicate)

lemma buffered_rep_append:
  assumes "buffered_rep c dw s g" "t \<noteq> []"
  shows "buffered_rep c (dw\<lparr>dw_buf := dw_buf dw @ t\<rparr>) (s @ replicate g 0 @ t) 0"
  using assms by (simp add: buffered_rep_def flip: append_assoc)

lemma buffered_rep_skip:
  assumes "buffered_rep c dw s g"
  shows "buffered_rep c (dw\<lparr>dw_buf := dw_buf dw @ replicate n 0\<rparr>) s (g + n)"
  using assms by (simp add: buffered_rep_def replicate_add flip: append_assoc)

lemma buffered_rep_gap:
  assumes "buffered_rep c \<lparr>dw_offset = off, dw_buf = []\<rparr> s g"
  shows "buffered_rep c \<lparr>dw_offset = off + n, dw_buf = []\<rparr> s (g + n)"
proof -
  have eq: "off + n - length c = off - length c + n" using assms by (simp add: buffered_rep_def)
  have "c @ replicate (off - length c) 0 = s @ replicate g 0" using assms by (simp add: buffered_rep_def)
  then have "(c @ replicate (off - length c) 0) @ replicate n 0 = s @ replicate (g + n) 0" by (simp add: replicate_add)
  then have "c @ replicate (off - length c + n) 0 = s @ replicate (g + n) 0" by (simp add: replicate_add)
  then show ?thesis using assms unfolding eq [symmetric] by (simp add: buffered_rep_def)
qed

context object_writer
begin

lemma stream_write_bytes_rep:
  assumes "keeps st c" "length c \<le> off" "off + length b \<le> u64_max" "b \<noteq> []"
  shows "ends fails (\<lambda>(off', st'). off' = off + length b \<and> keeps st' (c @ replicate (off - length c) 0 @ b))
    (stream_write_bytes put b off st)"
  using assms
proof (induction "length b" arbitrary: b off st c rule: less_induct)
  case less
  let ?n = "min (length b) writer_buffer_size"
  let ?c = "c @ replicate (off - length c) 0 @ take ?n b"
  have n: "0 < ?n" "take ?n b \<noteq> []" "length (take ?n b) = ?n" using less.prems(4) by (auto simp: writer_buffer_size_def)
  have le: "off + length (take ?n b) \<le> u64_max" using n(3) less.prems(3) by linarith
  have first: "ends fails (\<lambda>st'. keeps st' ?c) (put off (take ?n b) st)"
    using write_keeps [OF less.prems(1) n(2) le] overwritten_end [OF less.prems(2)] by simp
  have add: "u64_add off ?n = Inr (off + ?n)" using le n(3) by (intro u64_add_eq) simp
  have rest: "ends fails (\<lambda>(off', st'). off' = off + length b \<and> keeps st' (c @ replicate (off - length c) 0 @ b))
      (stream_write_bytes put (drop ?n b) (off + ?n) st1)" if st1: "keeps st1 ?c" for st1
  proof (cases "drop ?n b = []")
    case True
    then have "take ?n b = b" "?n = length b" using append_take_drop_id [of ?n b] by auto
    then show ?thesis using st1 True by (simp add: stream_write_bytes.simps)
  next
    case False
    have "length (drop ?n b) < length b" "length ?c = off + ?n" "off + ?n + length (drop ?n b) = off + length b"
      using n less.prems by auto
    with less.hyps [OF this(1) st1 _ _ False, of "off + ?n"] less.prems(3) show ?thesis by simp
  qed
  have "stream_write_bytes put b off st =
      bind_res (put off (take ?n b) st) (\<lambda>st1. bind_res (u64_add off ?n) (\<lambda>off'. stream_write_bytes put (drop ?n b) off' st1))"
    using less.prems(4) by (subst stream_write_bytes.simps) (simp add: Let_def)
  then show ?case using ends_bind [OF first rest] by (simp add: add)
qed

lemma dw_flush_rep:
  assumes "keeps st c" "buffered_rep c dw s g" "length s + g \<le> u64_max"
  shows "ends fails (\<lambda>(dw', st'). dw' = \<lparr>dw_offset = length s + g, dw_buf = []\<rparr> \<and> (\<exists>c'. keeps st' c' \<and> buffered_rep c' dw' s g))
    (dw_flush put dw st)"
proof -
  note pos = buffered_rep_position [OF assms(2)]
  have full: "c @ replicate (dw_offset dw - length c) 0 @ dw_buf dw = s @ replicate g 0" and len: "length c \<le> dw_offset dw"
    using assms(2) by (simp_all add: buffered_rep_def)
  have over: "overwritten (dw_offset dw) (dw_buf dw) c = s @ replicate g 0" using overwritten_end [OF len] full by simp
  let ?dw = "\<lparr>dw_offset = length s + g, dw_buf = []\<rparr>"
  have new: "buffered_rep (s @ replicate g 0) ?dw s g" by (simp add: buffered_rep_def)
  have old: "buffered_rep c ?dw s g" if "dw_buf dw = []" using that assms(2) pos by (simp add: buffered_rep_def)
  have "ends fails (\<lambda>st'. \<exists>c'. keeps st' c' \<and> buffered_rep c' ?dw s g) (put (dw_offset dw) (dw_buf dw) st)"
  proof (cases "dw_buf dw = []")
    case True
    have "dw_offset dw \<le> u64_max" using pos assms(3) by simp
    from write_empty [OF assms(1) this] over new old [OF True] True show ?thesis by (auto elim!: ends_mono)
  next
    case False
    have "dw_offset dw + length (dw_buf dw) \<le> u64_max" using pos assms(3) by simp
    from write_keeps [OF assms(1) False this] over new show ?thesis by (auto elim!: ends_mono)
  qed
  moreover have "u64_add (dw_offset dw) (length (dw_buf dw)) = Inr (length s + g)" using pos assms(3) by (simp add: u64_add_def)
  ultimately show ?thesis unfolding dw_flush_def by (elim ends_bind) simp
qed

lemma dw_write_bytes_rep:
  assumes "direct_rep keeps (dw, st) s g" "length s + g + length b \<le> u64_max" "b \<noteq> []"
  shows "ends fails (\<lambda>w. direct_rep keeps w (s @ replicate g 0 @ b) 0) (dw_write_bytes put b dw st)"
  using assms
proof (induction "length b" arbitrary: b dw st s g rule: less_induct)
  case less
  let ?n = "min (length b) (dw_buffer_size - length (dw_buf dw))"
  let ?dw = "dw\<lparr>dw_buf := dw_buf dw @ take ?n b\<rparr>" and ?s = "s @ replicate g 0 @ take ?n b"
  obtain c where c: "keeps st c" "buffered_rep c dw s g" and room: "length (dw_buf dw) < dw_buffer_size"
    using less.prems(1) by (auto simp: direct_rep_def)
  have n: "0 < ?n" "take ?n b \<noteq> []" "length (drop ?n b) < length b" "length ?s = length s + g + ?n" using less.prems(3) room by auto
  note app = buffered_rep_append [OF c(2) n(2)]
  have step: "ends fails (\<lambda>w. direct_rep keeps w ?s 0)
      (if length (dw_buf ?dw) = dw_buffer_size then dw_flush put ?dw st else Inr (?dw, st))"
  proof (cases "length (dw_buf ?dw) = dw_buffer_size")
    case True
    have "length ?s + 0 \<le> u64_max" using n(4) less.prems(2) by linarith
    from dw_flush_rep [OF c(1) app this] True show ?thesis by (auto elim!: ends_mono simp: direct_rep_def dw_buffer_size_def)
  next
    case False
    moreover have "length (dw_buf ?dw) \<le> dw_buffer_size" using room by auto
    ultimately show ?thesis using c(1) app by (auto simp: direct_rep_def)
  qed
  have rest: "ends fails (\<lambda>w. direct_rep keeps w (s @ replicate g 0 @ b) 0) (dw_write_bytes put (drop ?n b) (fst w) (snd w))"
    if w: "direct_rep keeps w ?s 0" for w
  proof (cases "drop ?n b = []")
    case True
    then have "take ?n b = b" using append_take_drop_id [of ?n b] by simp
    then show ?thesis using w True by (simp add: dw_write_bytes.simps)
  next
    case False
    have "length ?s + 0 + length (drop ?n b) \<le> u64_max" using less.prems(2) by simp
    from less.hyps [OF n(3) _ this False, of "fst w" "snd w"] w show ?thesis by simp
  qed
  have "dw_write_bytes put b dw st =
      bind_res (if length (dw_buf ?dw) = dw_buffer_size then dw_flush put ?dw st else Inr (?dw, st))
        (\<lambda>w. dw_write_bytes put (drop ?n b) (fst w) (snd w))"
    using less.prems(3) room by (subst dw_write_bytes.simps) (simp add: Let_def case_prod_unfold)
  then show ?case using ends_bind [OF step rest] by simp
qed

end

text \<open>Both writers meet the laws over every such object.\<close>

sublocale object_writer \<subseteq> stream: write_bytes_laws "stream_byte_writer put flush" "stream_rep keeps" "keeps \<circ> snd" fails u64_max
proof
  fix w s g and b :: "u8 list"
  assume "stream_rep keeps w s g" "b \<noteq> []" "length s + g + length b \<le> u64_max"
  then show "ends fails (\<lambda>w'. stream_rep keeps w' (s @ replicate g 0 @ b) 0) (wb_write (stream_byte_writer put flush) b w)"
    using stream_write_bytes_rep [of "snd w" s "fst w" b]
    by (cases w) (auto simp: stream_rep_def stream_byte_writer_def elim!: ends_mono)
next
  fix w s g n
  assume "stream_rep keeps w s g" "length s + g + n \<le> u64_max"
  then show "ends fails (\<lambda>w'. stream_rep keeps w' s (g + n)) (wb_skip (stream_byte_writer put flush) n w)"
    by (cases w) (auto simp: stream_rep_def stream_byte_writer_def stream_skip_def u64_add_def)
next
  fix w s g
  assume "stream_rep keeps w s g" "length s + g \<le> u64_max"
  then have "ends fails (\<lambda>st'. keeps st' s) (flush (snd w))" using flush_keeps by (simp add: stream_rep_def)
  then have "ends fails (\<lambda>w'. keeps (snd w') s) (bind_res (flush (snd w)) (\<lambda>st. Inr (fst w, st)))" by (rule ends_bind) simp
  then show "ends fails (\<lambda>w'. \<exists>k \<le> g. (keeps \<circ> snd) w' (s @ replicate k 0)) (wb_complete (stream_byte_writer put flush) w)"
    by (cases w) (auto simp: stream_byte_writer_def stream_complete_def elim!: ends_mono intro: exI [where x = 0])
qed

sublocale object_writer \<subseteq> direct: write_bytes_laws "direct_byte_writer put" "direct_rep keeps" "keeps \<circ> snd" fails u64_max
proof
  fix w s g and b :: "u8 list"
  assume "direct_rep keeps w s g" "b \<noteq> []" "length s + g + length b \<le> u64_max"
  then show "ends fails (\<lambda>w'. direct_rep keeps w' (s @ replicate g 0 @ b) 0) (wb_write (direct_byte_writer put) b w)"
    using dw_write_bytes_rep [of "fst w" "snd w" s g b] by (cases w) (simp add: direct_byte_writer_def)
next
  fix w s g n
  assume a: "direct_rep keeps w s g" "length s + g + n \<le> u64_max"
  obtain dw st where w: "w = (dw, st)" by (cases w)
  obtain c where c: "keeps st c" "buffered_rep c dw s g" "length (dw_buf dw) < dw_buffer_size" using a(1) by (auto simp: direct_rep_def w)
  show "ends fails (\<lambda>w'. direct_rep keeps w' s (g + n)) (wb_skip (direct_byte_writer put) n w)"
  proof (cases "dw_buffer_size - length (dw_buf dw) > n")
    case True
    then show ?thesis using c(1) buffered_rep_skip [OF c(2), of n] by (auto simp: direct_byte_writer_def w dw_skip_def direct_rep_def)
  next
    case False
    have "length s + g \<le> u64_max" and add: "u64_add (length s + g) n = Inr (length s + g + n)" using a(2) by (auto simp: u64_add_def)
    from dw_flush_rep [OF c(1,2) this(1)]
    have "ends fails (\<lambda>w'. direct_rep keeps w' s (g + n))
        (bind_res (dw_flush put dw st) (\<lambda>(dw, st). bind_res (u64_add (dw_offset dw) n) (\<lambda>offset. Inr (dw\<lparr>dw_offset := offset\<rparr>, st))))"
      using buffered_rep_gap [of _ "length s + g" s g n]
      by (elim ends_bind) (auto simp: add direct_rep_def dw_buffer_size_def, blast)
    then show ?thesis using False by (simp add: direct_byte_writer_def w dw_skip_def)
  qed
next
  fix w s g
  assume a: "direct_rep keeps w s g" "length s + g \<le> u64_max"
  obtain dw st where w: "w = (dw, st)" by (cases w)
  obtain c where c: "keeps st c" "buffered_rep c dw s g" using a(1) by (auto simp: direct_rep_def w)
  have "\<exists>k \<le> g. keeps st' (s @ replicate k 0)" if "keeps st' c'" "buffered_rep c' \<lparr>dw_offset = length s + g, dw_buf = []\<rparr> s g" for st' c'
  proof -
    have "c' = s @ replicate (length c' - length s) 0" using that(2) by (intro zero_prefix) (auto simp: buffered_rep_def)
    moreover have "length c' - length s \<le> g" using that(2) unfolding buffered_rep_def by (simp add: le_diff_conv)
    ultimately show ?thesis using that(1) by metis
  qed
  with dw_flush_rep [OF c a(2)] show "ends fails (\<lambda>w'. \<exists>k \<le> g. (keeps \<circ> snd) w' (s @ replicate k 0)) (wb_complete (direct_byte_writer put) w)"
    by (auto simp: direct_byte_writer_def w dw_complete_def elim!: ends_mono)
qed

section \<open>The objects of the program\<close>

text \<open>The object of the tests keeps what is written to it, and no write to it fails that ends below 2 to the power of 64.\<close>

lemma fake_write_or_append_eq:
  "off + length b \<le> u64_max \<Longrightarrow> fake_write_or_append (Some off) b c = Inr (max (length c) (off + length b), overwritten off b c)"
  by (auto simp: fake_write_or_append_def u64_add_def copy_slice_def fake_resize_def overwritten_def Let_def)

interpretation fake: object_writer "\<lambda>off b c. bind_res (fake_write_or_append (Some off) b c) (\<lambda>(_, c). Inr c)" Inr "(=)" "\<lambda>_. False"
  by unfold_locales (simp_all add: fake_write_or_append_eq)

text \<open>
  The writes that an object was given, one after the other, and what they leave on an object that was empty;
  \<open>extends\<close> says whether an empty write makes the object longer, as it does for the object of the tests and does not for
  the handle of a file.
\<close>

fun put_all :: "(nat \<Rightarrow> u8 list \<Rightarrow> 's \<Rightarrow> 's res) \<Rightarrow> (nat \<times> u8 list) list \<Rightarrow> 's \<Rightarrow> 's res" where
  "put_all put [] st = Inr st"
| "put_all put ((off, b) # ws) st = bind_res (put off b st) (put_all put ws)"

definition written_bytes :: "bool \<Rightarrow> (nat \<times> u8 list) list \<Rightarrow> u8 list" where
  "written_bytes extends ws = fold (\<lambda>(off, b) c. if b = [] \<and> \<not> extends then c else overwritten off b c) ws []"

definition keeps_writes :: "(nat \<Rightarrow> u8 list \<Rightarrow> 's \<Rightarrow> 's res) \<Rightarrow> 's \<Rightarrow> bool \<Rightarrow> 's \<Rightarrow> u8 list \<Rightarrow> bool" where
  "keeps_writes put st0 extends st c \<longleftrightarrow> (\<exists>ws. put_all put ws st0 = Inr st \<and> c = written_bytes extends ws)"

definition put_error :: "(nat \<Rightarrow> u8 list \<Rightarrow> 's \<Rightarrow> 's res) \<Rightarrow> 's \<Rightarrow> error \<Rightarrow> bool" where
  "put_error put st0 e \<longleftrightarrow> (\<exists>ws off b st. put_all put ws st0 = Inr st \<and> put off b st = Inl e)"

lemma put_all_snoc: "put_all put (ws @ [(off, b)]) st = bind_res (put_all put ws st) (put off b)"
  by (induction ws arbitrary: st) (auto simp: bind_res_def split: sum.splits)

lemma written_bytes_snoc:
  "written_bytes extends (ws @ [(off, b)]) = (if b = [] \<and> \<not> extends then written_bytes extends ws else overwritten off b (written_bytes extends ws))"
  by (simp add: written_bytes_def)

lemma keeps_writes_put:
  assumes "keeps_writes put st0 extends st c"
  shows "ends (put_error put st0) (\<lambda>st'. keeps_writes put st0 extends st' (if b = [] \<and> \<not> extends then c else overwritten off b c)) (put off b st)"
proof -
  obtain ws where ws: "put_all put ws st0 = Inr st" "c = written_bytes extends ws" using assms by (auto simp: keeps_writes_def)
  show ?thesis
  proof (cases "put off b st")
    case (Inl e)
    then show ?thesis using ws(1) by (auto simp: put_error_def)
  next
    case (Inr st')
    then have "put_all put (ws @ [(off, b)]) st0 = Inr st'" using ws(1) by (simp add: put_all_snoc)
    then show ?thesis unfolding Inr ends_simps keeps_writes_def ws(2) using written_bytes_snoc by metis
  qed
qed

interpretation logged: object_writer put Inr "keeps_writes put st0 extends" "put_error put st0"
proof
  fix st c off and b :: "u8 list"
  assume "keeps_writes put st0 extends st c" "b \<noteq> []"
  then show "ends (put_error put st0) (\<lambda>st'. keeps_writes put st0 extends st' (overwritten off b c)) (put off b st)"
    using keeps_writes_put [of put st0 extends st c b off] by simp
next
  fix st c off
  assume "keeps_writes put st0 extends st c"
  from keeps_writes_put [OF this, of "[]" off]
  show "ends (put_error put st0) (\<lambda>st'. keeps_writes put st0 extends st' c \<or> keeps_writes put st0 extends st' (overwritten off [] c)) (put off [] st)"
    by (auto elim!: ends_mono split: if_splits)
qed simp

text \<open>In particular the object a \<^verbatim>\<open>DirectWriter\<close> writes to, the handle of a file in a store, whose writes may fail.\<close>

interpretation store_handle: object_writer "handle_write fuel cp sync D txn" Inr
  "keeps_writes (handle_write fuel cp sync D txn) st0 False" "put_error (handle_write fuel cp sync D txn) st0"
  by (rule logged.object_writer_axioms)

section \<open>What a layer file holds\<close>

definition item_bytes :: "('k, 'v) codec \<Rightarrow> ('k, 'v) item \<Rightarrow> u8 list" where
  "item_bytes C i =
     case_sum (\<lambda>_. []) id (ser_key C (key i)) @ case_sum (\<lambda>_. []) id (ser_value C (value i)) @ le_bytes 8 (sequence i)"

definition items_bytes :: "('k, 'v) codec \<Rightarrow> ('k, 'v) item list \<Rightarrow> u8 list" where
  "items_bytes C items = concat (map (item_bytes C) items)"

definition block_bytes :: "('k, 'v) codec \<Rightarrow> ('k, 'v) item list \<Rightarrow> u8 list" where
  "block_bytes C items = le_bytes 2 (length items) @ items_bytes C items"

definition header_bytes :: "('k, 'v) codec \<Rightarrow> nat \<Rightarrow> u8 list" where
  "header_bytes C bs =
     case_sum (\<lambda>_. []) id (serialize_with_version (ser_info C) \<lparr>key_value_version = latest_version, li_block_size = bs\<rparr>)"

definition pad :: "nat \<Rightarrow> u8 list \<Rightarrow> u8 list" where
  "pad bs b = b @ replicate (bs - length b) 0"

text \<open>The serialisers return what deserialises to the item, and an item fits into a block.\<close>

definition item_fits :: "('k, 'v) codec \<Rightarrow> nat \<Rightarrow> ('k, 'v) item \<Rightarrow> bool" where
  "item_fits C bs i \<longleftrightarrow>
     (\<exists>kb vb. ser_key C (key i) = Inr kb \<and> ser_value C (value i) = Inr vb \<and>
        (\<forall>rest. de_key C latest_version (kb @ rest) = Inr (key i, rest)) \<and>
        (\<forall>rest. de_value C latest_version (vb @ rest) = Inr (value i, rest)) \<and>
        2 + length kb + length vb + 8 \<le> bs) \<and> sequence i < 2 ^ 64"

definition info_fits :: "('k, 'v) codec \<Rightarrow> nat \<Rightarrow> nat \<Rightarrow> bool" where
  "info_fits C bs n \<longleftrightarrow>
     (\<exists>b. ser_info C \<lparr>key_value_version = latest_version, li_block_size = bs\<rparr> = Inr b \<and>
        (\<forall>rest. de_info C latest_version (b @ rest) = Inr (\<lparr>key_value_version = latest_version, li_block_size = bs\<rparr>, rest)) \<and>
        4 + length b \<le> n)"

text \<open>The blocks of a file: no block is empty or has rest items than its counter, and each fits.\<close>

definition blocks_fit :: "('k, 'v) codec \<Rightarrow> nat \<Rightarrow> ('k, 'v) item list list \<Rightarrow> bool" where
  "blocks_fit C bs blocks \<longleftrightarrow> (\<forall>b \<in> set blocks. b \<noteq> [] \<and> length b \<le> 65535 \<and> length (block_bytes C b) \<le> bs)"

definition chunks :: "('k, 'v) codec \<Rightarrow> nat \<Rightarrow> ('k, 'v) item list list \<Rightarrow> u8 list list" where
  "chunks C bs blocks = header_bytes C bs # map (block_bytes C) blocks"

definition stream_of :: "nat \<Rightarrow> u8 list list \<Rightarrow> u8 list" where
  "stream_of bs cs = concat (map (pad bs) (butlast cs)) @ last cs"

definition layer_file :: "('k, 'v) codec \<Rightarrow> nat \<Rightarrow> ('k, 'v) item list list \<Rightarrow> u8 list \<Rightarrow> bool" where
  "layer_file C bs blocks F \<longleftrightarrow>
     blocks_fit C bs blocks \<and>
     (\<exists>k \<le> bs - length (last (chunks C bs blocks)). F = stream_of bs (chunks C bs blocks) @ replicate k 0)"

lemma length_pad [simp]: "length b \<le> bs \<Longrightarrow> length (pad bs b) = bs"
  by (simp add: pad_def)

lemma length_pads: "\<forall>b \<in> set cs. length b \<le> bs \<Longrightarrow> length (concat (map (pad bs) cs)) = length cs * bs"
  by (induction cs) auto

lemma items_bytes_simps [simp]: "items_bytes C [] = []" "items_bytes C (i # is) = item_bytes C i @ items_bytes C is"
  "items_bytes C (is @ js) = items_bytes C is @ items_bytes C js"
  by (simp_all add: items_bytes_def)

lemma item_fits_length: "item_fits C bs i \<Longrightarrow> 2 + length (item_bytes C i) \<le> bs"
  by (auto simp: item_fits_def item_bytes_def)

lemma stream_of_snoc:
  assumes "cs \<noteq> []" "length (last cs) \<le> bs"
  shows "stream_of bs (cs @ [c]) = stream_of bs cs @ replicate (bs - length (last cs)) 0 @ c"
proof -
  have "map (pad bs) cs = map (pad bs) (butlast cs) @ [pad bs (last cs)]"
    using append_butlast_last_id [OF assms(1)] by (metis list.simps(8,9) map_append)
  then show ?thesis by (simp add: stream_of_def pad_def)
qed

lemma length_stream_of:
  assumes "cs \<noteq> []" "\<forall>c \<in> set cs. length c \<le> bs"
  shows "length (stream_of bs cs) + (bs - length (last cs)) = length cs * bs"
proof -
  have "length (concat (map (pad bs) (butlast cs))) = (length cs - 1) * bs"
    using assms(2) by (subst length_pads) (auto dest: in_set_butlastD)
  moreover have "length (last cs) \<le> bs" using assms by simp
  moreover have "length cs * bs = (length cs - 1) * bs + bs" using assms(1) by (cases cs) auto
  ultimately show ?thesis by (simp add: stream_of_def)
qed

lemma chunks_fit: "\<lbrakk>blocks_fit C bs blocks; length (header_bytes C bs) \<le> bs; c \<in> set (chunks C bs blocks)\<rbrakk> \<Longrightarrow> length c \<le> bs"
  by (auto simp: chunks_def blocks_fit_def)

section \<open>The layer writer\<close>

context write_bytes_laws
begin

text \<open>The blocks that are written, and the items that wait in the buffer.\<close>

definition writer_rep :: "('k, 'v) codec \<Rightarrow> nat \<Rightarrow> ('k, 'v) item list list \<Rightarrow> ('k, 'v) item list \<Rightarrow> 'w layer_writer \<Rightarrow> bool" where
  "writer_rep C bs blocks p lw \<longleftrightarrow>
     rep (lw_writer lw) (stream_of bs (chunks C bs blocks)) (bs - length (last (chunks C bs blocks))) \<and>
     blocks_fit C bs blocks \<and> lw_block_size lw = bs \<and> lw_item_count lw = length p \<and> length p \<le> 65535 \<and>
     2 \<le> length (lw_buf lw) \<and> drop 2 (lw_buf lw) = items_bytes C p \<and> length (lw_buf lw) \<le> bs"

text \<open>Writing out the items that wait; the bytes behind them stay in the buffer.\<close>

lemma layer_write_some_rep:
  assumes "rep (lw_writer lw) (stream_of bs (chunks C bs blocks)) (bs - length (last (chunks C bs blocks)))"
    "blocks_fit C bs blocks" "lw_block_size lw = bs" "lw_item_count lw = length p" "p \<noteq> []" "length p \<le> 65535"
    "length b0 = 2" "lw_buf lw = b0 @ items_bytes C p @ rest" "2 + length (items_bytes C p) \<le> bs"
    "length (header_bytes C bs) \<le> bs" "(length blocks + 2) * bs \<le> cap"
  shows "ends fails (\<lambda>lw'. \<exists>b1. length b1 = 2 \<and> lw_buf lw' = b1 @ rest \<and>
    lw_item_count lw' = 0 \<and> lw_block_size lw' = bs \<and> blocks_fit C bs (blocks @ [p]) \<and>
    rep (lw_writer lw') (stream_of bs (chunks C bs (blocks @ [p]))) (bs - length (last (chunks C bs (blocks @ [p])))))
    (layer_write_some W (2 + length (items_bytes C p)) lw)"
proof -
  let ?cs = "chunks C bs blocks" and ?b = "block_bytes C p" and ?len = "2 + length (items_bytes C p)"
  have cs: "?cs \<noteq> []" "\<forall>c \<in> set ?cs. length c \<le> bs" "length (last ?cs) \<le> bs" "length ?cs = Suc (length blocks)"
    using chunks_fit [OF assms(2,10)] last_in_set [of ?cs] by (auto simp: chunks_def)
  have b: "?b \<noteq> []" "length ?b = ?len" by (simp_all add: block_bytes_def flip: length_greater_0_conv)
  have buf: "le_bytes 2 (length p) @ drop 2 (lw_buf lw) = ?b @ rest" using assms(7,8) by (simp add: block_bytes_def)
  have len: "2 \<le> length (lw_buf lw)" "?len \<le> length (lw_buf lw)" using assms(7,8) by simp_all
  have "length (stream_of bs ?cs) + (bs - length (last ?cs)) + length ?b \<le> cap"
    using length_stream_of [OF cs(1,2)] assms(9,11) cs(4) b(2) by simp
  from write_rep [OF assms(1) b(1) this] have w1: "ends fails (\<lambda>w1. rep w1 (stream_of bs (?cs @ [?b])) 0) (wb_write W ?b (lw_writer lw))"
    using stream_of_snoc [OF cs(1,3)] by simp
  have room: "length (stream_of bs (?cs @ [?b])) + 0 + (bs - ?len) \<le> cap"
    using length_stream_of [of "?cs @ [?b]" bs] cs(2,4) b(2) assms(9,11) by simp
  have next_chunks: "chunks C bs (blocks @ [p]) = ?cs @ [?b]" by (simp add: chunks_def)
  let ?lw = "\<lambda>w2. lw\<lparr>lw_writer := w2, lw_buf := drop (length (items_bytes C p)) ?b @ rest, lw_item_count := 0\<rparr>"
  have "layer_write_some W ?len lw = bind_res (wb_write W ?b (lw_writer lw)) (\<lambda>w1. bind_res (wb_skip W (bs - ?len) w1) (\<lambda>w2. Inr (?lw w2)))"
    using assms(3,4,5,9) b(2) len by (simp add: layer_write_some_def Let_def u64_sub_def buf)
  moreover have "blocks_fit C bs (blocks @ [p])" using assms(2,5,6,9) b(2) by (auto simp: blocks_fit_def)
  ultimately show ?thesis
    using assms(3) b(2)
    by (simp add: next_chunks del: add_2_eq_Suc add_2_eq_Suc')
      (intro ends_bind [OF w1] ends_bind [OF skip_rep [OF _ room]], auto)
qed

lemma layer_write_rep:
  assumes "writer_rep C bs blocks p lw" "item_fits C bs i" "length (header_bytes C bs) \<le> bs" "(length blocks + 2) * bs \<le> cap"
  shows "ends fails (\<lambda>lw'. \<exists>blocks' p'. writer_rep C bs blocks' p' lw' \<and>
    concat blocks' @ p' = concat blocks @ p @ [i] \<and> length blocks' + length p' \<le> Suc (length blocks + length p) \<and> p' \<noteq> [])
    (layer_write C W i lw)"
proof -
  note r = assms(1) [unfolded writer_rep_def]
  obtain kb vb where ser: "ser_key C (key i) = Inr kb" "ser_value C (value i) = Inr vb" "item_bytes C i = kb @ vb @ le_bytes 8 (sequence i)"
    using assms(2) by (auto simp: item_fits_def item_bytes_def)
  have fits: "2 + length (item_bytes C i) \<le> bs" by (rule item_fits_length [OF assms(2)])
  define lw1 where "lw1 = lw\<lparr>lw_buf := lw_buf lw @ item_bytes C i\<rparr>"
  have buf: "lw_buf lw = take 2 (lw_buf lw) @ items_bytes C p" "length (take 2 (lw_buf lw)) = 2"
    using r append_take_drop_id [of 2 "lw_buf lw"] by auto
  then have len: "length (lw_buf lw) = 2 + length (items_bytes C p)" by (metis length_append)
  have run: "layer_write C W i lw =
      bind_res (if length (lw_buf lw1) > bs - 1 \<or> length p = 65535 then layer_write_some W (length (lw_buf lw)) lw1 else Inr lw1) (\<lambda>self.
      bind_res (ensure (lw_item_count self < 65535) Panic) (\<lambda>_. Inr (self\<lparr>lw_item_count := lw_item_count self + 1\<rparr>)))"
    using r fits by (simp add: layer_write_def ser lw1_def Let_def u64_sub_def)
  show ?thesis
  proof (cases "(length (lw_buf lw1) > bs - 1 \<or> length p = 65535) \<and> p \<noteq> []")
    case True
    have "rep (lw_writer lw1) (stream_of bs (chunks C bs blocks)) (bs - length (last (chunks C bs blocks)))"
      "lw_block_size lw1 = bs" "lw_item_count lw1 = length p" "lw_buf lw1 = take 2 (lw_buf lw) @ items_bytes C p @ item_bytes C i"
      using r buf(1) by (simp_all add: lw1_def)
    from layer_write_some_rep [OF this(1) _ this(2,3) _ _ buf(2) this(4) _ assms(3,4)] True r len
    have some: "ends fails (\<lambda>lw'. \<exists>b1. length b1 = 2 \<and> lw_buf lw' = b1 @ item_bytes C i \<and>
        lw_item_count lw' = 0 \<and> lw_block_size lw' = bs \<and> blocks_fit C bs (blocks @ [p]) \<and>
        rep (lw_writer lw') (stream_of bs (chunks C bs (blocks @ [p]))) (bs - length (last (chunks C bs (blocks @ [p])))))
        (layer_write_some W (length (lw_buf lw)) lw1)" by simp
    have "writer_rep C bs (blocks @ [p]) [i] (lw'\<lparr>lw_item_count := 1\<rparr>)"
      if "length b1 = 2" "lw_buf lw' = b1 @ item_bytes C i" "lw_block_size lw' = bs" "blocks_fit C bs (blocks @ [p])"
        "rep (lw_writer lw') (stream_of bs (chunks C bs (blocks @ [p]))) (bs - length (last (chunks C bs (blocks @ [p]))))" for lw' b1
      using that fits by (simp add: writer_rep_def)
    then show ?thesis
      using True
      by (auto simp: run Suc_leI intro!: ends_bind [OF some] exI [of _ "blocks @ [p]"] exI [of _ "[i]"])
  next
    case False
    then have "(if length (lw_buf lw1) > bs - 1 \<or> length p = 65535 then layer_write_some W (length (lw_buf lw)) lw1 else Inr lw1) = Inr lw1"
      using r by (auto simp: layer_write_some_def lw1_def)
    moreover have "length p < 65535" using False r by (cases "p = []") auto
    ultimately have "layer_write C W i lw = Inr (lw1\<lparr>lw_item_count := Suc (length p)\<rparr>)" using r by (simp add: run lw1_def)
    moreover have "length (lw_buf lw1) \<le> bs" using False len fits by (cases "p = []") (auto simp: lw1_def)
    then have "writer_rep C bs blocks (p @ [i]) (lw1\<lparr>lw_item_count := Suc (length p)\<rparr>)"
      using r \<open>length p < 65535\<close> by (simp add: writer_rep_def lw1_def)
    ultimately show ?thesis by (auto intro!: exI [of _ blocks] exI [of _ "p @ [i]"])
  qed
qed

lemma layer_flush_rep:
  assumes "writer_rep C bs blocks p lw" "length (header_bytes C bs) \<le> bs" "(length blocks + 2) * bs \<le> cap"
  shows "ends fails (\<lambda>lw'. \<exists>blocks' F. concat blocks' = concat blocks @ p \<and> layer_file C bs blocks' F \<and> object_holds (lw_writer lw') F)
    (layer_flush W lw)"
proof -
  note r = assms(1) [unfolded writer_rep_def]
  have buf: "lw_buf lw = take 2 (lw_buf lw) @ items_bytes C p @ []" "length (take 2 (lw_buf lw)) = 2"
    using r append_take_drop_id [of 2 "lw_buf lw"] by auto
  then have len: "length (lw_buf lw) = 2 + length (items_bytes C p)" by (metis append_Nil2 length_append)
  have some: "ends fails (\<lambda>lw1. \<exists>blocks'. concat blocks' = concat blocks @ p \<and> blocks_fit C bs blocks' \<and> length blocks' \<le> Suc (length blocks) \<and>
      rep (lw_writer lw1) (stream_of bs (chunks C bs blocks')) (bs - length (last (chunks C bs blocks'))))
      (layer_write_some W (length (lw_buf lw)) lw)"
  proof (cases "p = []")
    case True
    with r show ?thesis by (auto simp: layer_write_some_def)
  next
    case False
    with layer_write_some_rep [OF _ _ _ _ False _ buf(2,1) _ assms(2,3)] r len show ?thesis
      by (auto elim!: ends_mono intro!: exI [of _ "blocks @ [p]"])
  qed
  have "ends fails (\<lambda>w. \<exists>F. layer_file C bs blocks' F \<and> object_holds w F) (wb_complete W (lw_writer lw1))"
    if b: "blocks_fit C bs blocks'" "length blocks' \<le> Suc (length blocks)"
      "rep (lw_writer lw1) (stream_of bs (chunks C bs blocks')) (bs - length (last (chunks C bs blocks')))" for lw1 blocks'
  proof -
    have "length (stream_of bs (chunks C bs blocks')) + (bs - length (last (chunks C bs blocks'))) = length (chunks C bs blocks') * bs"
      using chunks_fit [OF b(1) assms(2)] by (intro length_stream_of) (auto simp: chunks_def)
    also have "\<dots> \<le> (length blocks + 2) * bs" using b(2) by (intro mult_right_mono) (simp_all add: chunks_def)
    finally show ?thesis using complete_rep [OF b(3)] assms(3) b(1) by (auto simp: layer_file_def elim!: ends_mono)
  qed
  note completes = this
  show ?thesis unfolding layer_flush_def
  proof (rule ends_bind [OF some], elim exE conjE)
    fix lw1 blocks'
    assume b: "concat blocks' = concat blocks @ p" "blocks_fit C bs blocks'" "length blocks' \<le> Suc (length blocks)"
      "rep (lw_writer lw1) (stream_of bs (chunks C bs blocks')) (bs - length (last (chunks C bs blocks')))"
    from b(1) show "ends fails (\<lambda>lw'. \<exists>blocks' F. concat blocks' = concat blocks @ p \<and> layer_file C bs blocks' F \<and> object_holds (lw_writer lw') F)
        (bind_res (wb_complete W (lw_writer lw1)) (\<lambda>w. Inr (lw1\<lparr>lw_writer := w\<rparr>)))"
      by (intro ends_bind [OF completes [OF b(2-4)]]) auto
  qed
qed

lemma layer_write_all_rep:
  assumes "writer_rep C bs blocks p lw" "\<forall>i \<in> set items. item_fits C bs i" "length (header_bytes C bs) \<le> bs"
    "(length blocks + length p + length items + 2) * bs \<le> cap"
  shows "ends fails (\<lambda>lw'. \<exists>blocks' F. concat blocks' = concat blocks @ p @ items \<and> layer_file C bs blocks' F \<and> object_holds (lw_writer lw') F)
    (layer_write_all C W items lw)"
  using assms
proof (induction items arbitrary: blocks p lw)
  case Nil
  have "(length blocks + 2) * bs \<le> cap" using Nil.prems(4) by (simp add: algebra_simps)
  from layer_flush_rep [OF Nil.prems(1,3) this] show ?case by simp
next
  case (Cons i items)
  have c: "(length blocks + 2) * bs \<le> cap" using Cons.prems(4) by (simp add: algebra_simps)
  have fits: "item_fits C bs i" using Cons.prems(2) by simp
  show ?case unfolding layer_write_all.simps
  proof (rule ends_bind [OF layer_write_rep [OF Cons.prems(1) fits Cons.prems(3) c]], elim exE conjE)
    fix lw' blocks' p'
    assume lw': "writer_rep C bs blocks' p' lw'" "concat blocks' @ p' = concat blocks @ p @ [i]"
      "length blocks' + length p' \<le> Suc (length blocks + length p)"
    have "(length blocks' + length p' + length items + 2) * bs \<le> (length blocks + length p + length (i # items) + 2) * bs"
      using lw'(3) by (intro mult_right_mono) simp_all
    then have "(length blocks' + length p' + length items + 2) * bs \<le> cap" using Cons.prems(4) by (rule order_trans)
    with Cons.prems(2) Cons.IH [OF lw'(1) _ Cons.prems(3)]
    have "ends fails (\<lambda>lw2. \<exists>blocks2 F. concat blocks2 = (concat blocks' @ p') @ items \<and> layer_file C bs blocks2 F \<and> object_holds (lw_writer lw2) F)
        (layer_write_all C W items lw')" by simp
    then show "ends fails (\<lambda>lw2. \<exists>blocks2 F. concat blocks2 = concat blocks @ p @ i # items \<and> layer_file C bs blocks2 F \<and> object_holds (lw_writer lw2) F)
        (layer_write_all C W items lw')" unfolding lw'(2) by simp
  qed
qed

text \<open>Writing a layer leaves a file that holds the items, unless the writer fails.\<close>

lemma write_layer_file:
  assumes "rep w [] 0" "\<forall>i \<in> set items. item_fits C bs i" "info_fits C bs bs" "(length items + 2) * bs \<le> cap"
  shows "ends fails (\<lambda>w'. \<exists>blocks F. concat blocks = items \<and> layer_file C bs blocks F \<and> object_holds w' F) (write_layer C W bs items w)"
proof -
  obtain b where b: "serialize_with_version (ser_info C) \<lparr>key_value_version = latest_version, li_block_size = bs\<rparr> = Inr b"
    "length b \<le> bs" "b \<noteq> []" "2 \<le> bs"
    using assms(3) by (auto simp: info_fits_def serialize_with_version_def version_serialize_def latest_version_def)
  have h: "header_bytes C bs = b" by (simp add: header_bytes_def b(1))
  have "length ([] :: u8 list) + 0 + length b \<le> cap" using b(2) assms(4) by (simp add: algebra_simps)
  from write_rep [OF assms(1) b(3) this] have w1: "ends fails (\<lambda>w1. rep w1 b 0) (wb_write W b w)" by simp
  have room: "length b + 0 + (bs - length b) \<le> cap" using b(2) assms(4) by (simp add: algebra_simps)
  let ?lw = "\<lambda>w2. \<lparr>lw_writer = w2, lw_block_size = bs, lw_buf = [0, 0], lw_item_count = 0\<rparr>"
  have "layer_writer_new C W w bs = bind_res (wb_write W b w) (\<lambda>w1. bind_res (wb_skip W (bs - length b) w1) (\<lambda>w2. Inr (?lw w2)))"
    using b(1,2) by (simp add: layer_writer_new_def u64_sub_def)
  moreover have "writer_rep C bs [] [] (?lw w2)" if "rep w2 b (bs - length b)" for w2
    using that b(4) h by (simp add: writer_rep_def chunks_def stream_of_def blocks_fit_def)
  ultimately have new: "ends fails (writer_rep C bs [] []) (layer_writer_new C W w bs)"
    by (auto intro!: ends_bind [OF w1] ends_bind [OF skip_rep [OF _ room]])
  show ?thesis unfolding write_layer_def
  proof (rule ends_bind [OF new])
    fix lw
    assume lw: "writer_rep C bs [] [] lw"
    have "ends fails (\<lambda>lw'. \<exists>blocks F. concat blocks = items \<and> layer_file C bs blocks F \<and> object_holds (lw_writer lw') F) (layer_write_all C W items lw)"
      using layer_write_all_rep [OF lw assms(2)] b(2) assms(4) by (simp add: h)
    then show "ends fails (\<lambda>w'. \<exists>blocks F. concat blocks = items \<and> layer_file C bs blocks F \<and> object_holds w' F)
        (bind_res (layer_write_all C W items lw) (\<lambda>lw. Inr (lw_writer lw)))" by (rule ends_bind) simp
  qed
qed

end

end
