(* ===== verification/Persistent_Layer_Seek.thy ===== *)
theory Persistent_Layer_Seek
  imports Persistent_Layer_Correct Object_Seek
begin

text \<open>
  Opening a layer file and searching it. An iterator over the blocks of a file yields the items of its
  blocks in order, and the binary search ends where a walk through the list of the items ends.
\<close>

section \<open>Handles that read a file\<close>

definition read_law :: "read_handle \<Rightarrow> u8 list \<Rightarrow> bool" where
  "read_law h F \<longleftrightarrow>
     rh_size h = length F \<and> 0 < rh_block_size h \<and> (\<forall>n. length (rh_allocate h n) = n) \<and>
     (\<forall>off buf. rh_block_size h dvd off \<and> off \<le> length F \<longrightarrow>
        rh_read h off buf = (let n = min (length buf) (length F - off) in Inr (n, take n (drop off F) @ drop n buf)))"

lemma fake_reader_law: "0 < bs \<Longrightarrow> read_law (fake_reader bs F) F"
  by (simp add: read_law_def fake_reader_def fake_read_def u64_sub_def Let_def)

lemma handle_reader_law:
  assumes "file_ok fuel D bytes dev_size s self" "\<forall>n. length (allocate_buffer D n) = n"
  shows "read_law (handle_reader fuel D d s self) (map (file_at (bytes d) s self) [0..<get_size self])"
proof -
  have "handle_read fuel D d s self off 0 buf =
      (let n = min (length buf) (get_size self - off)
       in Inr (n, take n (drop off (map (file_at (bytes d) s self) [0..<get_size self])) @ drop n buf))"
    if "os_block_size s dvd off" "off \<le> get_size self" for off buf
    using handle_read_contents [OF assms(1) that(1), of 0 d buf] that(2) by (simp add: take_map drop_map Let_def take_upt)
  then show ?thesis using assms by (simp add: read_law_def handle_reader_def file_ok_def readable_def)
qed

section \<open>The chunks of a file\<close>

lemma stream_of_Cons: "cs \<noteq> [] \<Longrightarrow> stream_of bs (c # cs) = pad bs c @ stream_of bs cs"
  by (simp add: stream_of_def)

lemma stream_chunk:
  assumes "i < length cs" "\<forall>c \<in> set cs. length c \<le> bs" "k \<le> bs - length (last cs)"
  shows "\<exists>z. take bs (drop (i * bs) (stream_of bs cs @ replicate k 0)) = cs ! i @ z"
  using assms
proof (induction cs arbitrary: i)
  case (Cons c cs)
  show ?case
  proof (cases "cs = []")
    case True
    with Cons.prems show ?thesis by (simp add: stream_of_def)
  next
    case False
    have c: "length (pad bs c) = bs" using Cons.prems(2) by simp
    show ?thesis
    proof (cases i)
      case 0
      then show ?thesis using False c by (simp add: stream_of_Cons pad_def)
    next
      case (Suc i')
      have "drop (i * bs) (stream_of bs (c # cs) @ replicate k 0) = drop (i' * bs) (stream_of bs cs @ replicate k 0)"
        using False c by (simp add: stream_of_Cons Suc)
      then show ?thesis using Cons.IH [of i'] Cons.prems False by (simp add: Suc)
    qed
  qed
qed simp

lemma layer_file_block:
  assumes "layer_file C bs blocks F" "length (header_bytes C bs) \<le> bs" "j < length blocks"
  shows "\<exists>z. take bs (drop (Suc j * bs) F) = block_bytes C (blocks ! j) @ z"
proof -
  obtain k where k: "k \<le> bs - length (last (chunks C bs blocks))" "F = stream_of bs (chunks C bs blocks) @ replicate k 0"
    using assms(1) by (auto simp: layer_file_def)
  have "chunks C bs blocks ! Suc j = block_bytes C (blocks ! j)" using assms(3) by (simp add: chunks_def)
  then show ?thesis
    using stream_chunk [of "Suc j" "chunks C bs blocks" bs k] k chunks_fit assms by (force simp: layer_file_def chunks_def)
qed

lemma layer_file_header:
  assumes "layer_file C bs blocks F" "length (header_bytes C bs) \<le> bs"
  shows "\<exists>z. take bs F = header_bytes C bs @ z"
proof -
  obtain k where k: "k \<le> bs - length (last (chunks C bs blocks))" "F = stream_of bs (chunks C bs blocks) @ replicate k 0"
    using assms(1) by (auto simp: layer_file_def)
  then show ?thesis
    using stream_chunk [of 0 "chunks C bs blocks" bs k] k chunks_fit assms by (force simp: layer_file_def chunks_def)
qed

lemma layer_file_length:
  assumes "layer_file C bs blocks F" "length (header_bytes C bs) \<le> bs" "header_bytes C bs \<noteq> []"
  shows "length F \<le> Suc (length blocks) * bs" "length blocks * bs < length F"
proof -
  let ?cs = "chunks C bs blocks"
  obtain k where k: "k \<le> bs - length (last ?cs)" "F = stream_of bs ?cs @ replicate k 0"
    using assms(1) by (auto simp: layer_file_def)
  have cs: "?cs \<noteq> []" "\<forall>c \<in> set ?cs. length c \<le> bs" "length ?cs = Suc (length blocks)"
    using chunks_fit [of C bs blocks] assms by (auto simp: chunks_def layer_file_def)
  have "last ?cs \<noteq> []" using assms(3) by (cases blocks rule: rev_cases) (simp_all add: chunks_def block_bytes_def flip: length_greater_0_conv)
  moreover have "length (last ?cs) \<le> bs" using cs last_in_set by blast
  ultimately show "length F \<le> Suc (length blocks) * bs" "length blocks * bs < length F"
    using length_stream_of [OF cs(1,2)] k cs(3) by (auto simp flip: length_greater_0_conv)
qed

section \<open>Reading from a block\<close>

definition cursor_ok :: "nat \<Rightarrow> buffer_cursor \<Rightarrow> bool" where
  "cursor_ok bs c \<longleftrightarrow> length (bc_buffer c) = bs \<and> bc_len c \<le> bs \<and> bc_pos c \<le> bc_len c"

lemma cursor_read_rest:
  assumes "cursor_ok bs c" "cursor_rest c = b @ z"
  shows "\<exists>c'. cursor_read (length b) c = (b, c') \<and> cursor_ok bs c' \<and> cursor_rest c' = z"
proof -
  have "length b + length z = bc_len c - bc_pos c"
    using arg_cong [OF assms(2), of length] assms(1) by (simp add: cursor_rest_def cursor_ok_def min_def split: if_splits)
  moreover have "take (length b) (drop (bc_pos c) (bc_buffer c)) = b"
    using arg_cong [OF assms(2), of "take (length b)"] calculation
    by (simp add: cursor_rest_def drop_take min_def split: if_splits)
  moreover have "drop (length b) (cursor_rest c) = z" using assms(2) by simp
  ultimately show ?thesis
    using assms by (cases "b = []") (auto simp: cursor_read_def Let_def cursor_ok_def cursor_rest_def add.commute)
qed

lemma cursor_read_exact_rest:
  assumes "cursor_ok bs c" "cursor_rest c = b @ z" "length b = n"
  shows "\<exists>c'. cursor_read_exact n c = Inr (b, c') \<and> cursor_ok bs c' \<and> cursor_rest c' = z"
  using cursor_read_rest [OF assms(1,2)] assms(3) by (auto simp: cursor_read_exact_def)

lemma cursor_deserialize_rest:
  assumes "cursor_ok bs c" "cursor_rest c = b @ z" "deser (b @ z) = Inr (x, z)"
  shows "\<exists>c'. cursor_deserialize deser c = Inr (x, c') \<and> cursor_ok bs c' \<and> cursor_rest c' = z"
  using cursor_read_rest [OF assms(1,2)] assms(2,3) by (auto simp: cursor_deserialize_def)

section \<open>Iterators over the blocks\<close>

definition layer_on :: "('k, 'v) codec \<Rightarrow> nat \<Rightarrow> ('k, 'v) item list list \<Rightarrow> u8 list \<Rightarrow> persistent_layer \<Rightarrow> bool" where
  "layer_on C bs blocks F L \<longleftrightarrow>
     pl_info L = \<lparr>key_value_version = latest_version, li_block_size = bs\<rparr> \<and> pl_size L = length F \<and>
     read_law (pl_handle L) F \<and> rh_block_size (pl_handle L) dvd bs \<and> layer_file C bs blocks F \<and>
     length (header_bytes C bs) \<le> bs \<and> header_bytes C bs \<noteq> [] \<and> length F + bs < u64_max \<and>
     (\<forall>i \<in> set (concat blocks). item_fits C bs i)"

text \<open>The items that follow the current one: what is left in the buffer and the blocks from \<open>j\<close> on.\<close>

definition iter_rep :: "('k, 'v) codec \<Rightarrow> nat \<Rightarrow> ('k, 'v) item list list \<Rightarrow> ('k, 'v) block_iter \<Rightarrow> ('k, 'v) item list \<Rightarrow> bool" where
  "iter_rep C bs blocks it rest \<longleftrightarrow>
     (\<exists>j p z. j \<le> length blocks \<and> bi_pos it = Suc j * bs \<and> rest = p @ concat (drop j blocks) \<and>
        bi_item_index it + length p = bi_item_count it \<and> bi_item_count it \<le> 65535 \<and>
        length (bc_buffer (bi_buffer it)) = bs \<and>
        (p \<noteq> [] \<longrightarrow> cursor_ok bs (bi_buffer it) \<and> cursor_rest (bi_buffer it) = items_bytes C p @ z \<and> set p \<subseteq> set (concat blocks)))"

definition positioned :: "('k, 'v) codec \<Rightarrow> nat \<Rightarrow> ('k, 'v) item list list \<Rightarrow> ('k, 'v) block_iter \<Rightarrow> ('k, 'v) item list \<Rightarrow> bool" where
  "positioned C bs blocks it items \<longleftrightarrow> block_iter_get it = iter_get items \<and> iter_rep C bs blocks it (iter_advance items)"

lemma iter_rep_new: "\<lbrakk>layer_on C bs blocks F L; j \<le> length blocks\<rbrakk> \<Longrightarrow> iter_rep C bs blocks (block_iter_new L (Suc j * bs)) (concat (drop j blocks))"
  by (auto simp: iter_rep_def block_iter_new_def layer_on_def read_law_def)

lemma read_block_item_rep:
  assumes "layer_on C bs blocks F L" "i \<in> set (concat blocks)" "cursor_ok bs (bi_buffer it)"
    "cursor_rest (bi_buffer it) = item_bytes C i @ z" "bi_item_index it < 65535"
  shows "\<exists>c. read_block_item C L it = Inr (it\<lparr>bi_buffer := c, bi_item := Some i, bi_item_index := bi_item_index it + 1\<rparr>) \<and>
    cursor_ok bs c \<and> cursor_rest c = z"
proof -
  have "item_fits C bs i" "key_value_version (pl_info L) = latest_version" using assms(1,2) by (auto simp: layer_on_def)
  then obtain kb vb where ser: "item_bytes C i = kb @ vb @ le_bytes 8 (sequence i)"
    "\<forall>rest. de_key C latest_version (kb @ rest) = Inr (key i, rest)" "\<forall>rest. de_value C latest_version (vb @ rest) = Inr (value i, rest)"
    "sequence i < 2 ^ 64" "key_value_version (pl_info L) = latest_version"
    by (auto simp: item_fits_def item_bytes_def)
  obtain c1 where c1: "cursor_deserialize (de_key C latest_version) (bi_buffer it) = Inr (key i, c1)" "cursor_ok bs c1"
    "cursor_rest c1 = vb @ le_bytes 8 (sequence i) @ z"
    using cursor_deserialize_rest [OF assms(3), of kb "vb @ le_bytes 8 (sequence i) @ z" "de_key C latest_version"] assms(4) ser(1,2) by auto
  obtain c2 where c2: "cursor_deserialize (de_value C latest_version) c1 = Inr (value i, c2)" "cursor_ok bs c2"
    "cursor_rest c2 = le_bytes 8 (sequence i) @ z"
    using cursor_deserialize_rest [OF c1(2,3), of "de_value C latest_version"] ser(3) by auto
  obtain c3 where c3: "cursor_read_exact 8 c2 = Inr (le_bytes 8 (sequence i), c3)" "cursor_ok bs c3" "cursor_rest c3 = z"
    using cursor_read_exact_rest [OF c2(2,3)] by auto
  have "le_nat (le_bytes 8 (sequence i)) = sequence i" using ser(4) by (intro le_nat_le_bytes) simp
  then have "\<lparr>key = key i, value = value i, sequence = le_nat (le_bytes 8 (sequence i))\<rparr> = i" by simp
  then show ?thesis using c1(1) c2(1) c3 assms(5) ser(5) by (auto simp: read_block_item_def)
qed

lemma read_items_block_rep:
  assumes "layer_on C bs blocks F L" "j < length blocks" "bi_pos it = Suc j * bs" "length (bc_buffer (bi_buffer it)) = bs"
  shows "\<exists>c z. read_items_block L it =
      Inr (it\<lparr>bi_buffer := c, bi_pos := Suc (Suc j) * bs, bi_item_index := 0, bi_item_count := length (blocks ! j)\<rparr>) \<and>
    cursor_ok bs c \<and> cursor_rest c = items_bytes C (blocks ! j) @ z \<and> Suc j * bs < length F"
proof -
  note L = assms(1) [unfolded layer_on_def]
  have size: "Suc j * bs < length F"
    using layer_file_length(2) [of C bs blocks F] L assms(2) mult_right_mono [of "Suc j" "length blocks" bs] by linarith
  obtain z where z: "take bs (drop (Suc j * bs) F) = block_bytes C (blocks ! j) @ z"
    using layer_file_block [of C bs blocks F j] L assms(2) by auto
  define n where "n = min bs (length F - Suc j * bs)"
  have "rh_block_size (pl_handle L) dvd Suc j * bs" using L by (meson dvd_trans dvd_triv_right)
  then have read: "rh_read (pl_handle L) (Suc j * bs) (bc_buffer (bi_buffer it)) =
      Inr (n, take n (drop (Suc j * bs) F) @ drop n (bc_buffer (bi_buffer it)))"
    using L size assms(4) unfolding read_law_def n_def by (metis less_imp_le)
  define t where "t = take n (drop (Suc j * bs) F)"
  let ?c = "\<lparr>bc_buffer = t @ drop n (bc_buffer (bi_buffer it)), bc_pos = 0, bc_len = n\<rparr>"
  have t: "length t = n" "n \<le> bs" "t = le_bytes 2 (length (blocks ! j)) @ items_bytes C (blocks ! j) @ z"
    subgoal by (simp add: t_def n_def)
    subgoal by (simp add: n_def)
    subgoal using z [symmetric] by (simp add: t_def n_def min_def block_bytes_def)
    done
  have c: "cursor_ok bs ?c" "cursor_rest ?c = le_bytes 2 (length (blocks ! j)) @ items_bytes C (blocks ! j) @ z"
    using t(1,2) assms(4) by (simp_all add: cursor_ok_def cursor_rest_def flip: t(3))
  obtain c' where c': "cursor_read_exact 2 ?c = Inr (le_bytes 2 (length (blocks ! j)), c')" "cursor_ok bs c'"
    "cursor_rest c' = items_bytes C (blocks ! j) @ z"
    using cursor_read_exact_rest [OF c] by auto
  have "blocks ! j \<noteq> [] \<and> length (blocks ! j) \<le> 65535"
    using L assms(2) nth_mem by (auto simp: layer_file_def blocks_fit_def)
  moreover from this have "le_nat (le_bytes 2 (length (blocks ! j))) = length (blocks ! j)" by (intro le_nat_le_bytes) simp
  moreover have "u64_add (Suc j * bs) bs = Inr (Suc (Suc j) * bs)" using size L by (simp add: u64_add_def)
  ultimately show ?thesis
    using read c' L size unfolding t_def by (auto simp: read_items_block_def assms(3) simp del: mult_Suc)
qed

lemma block_iter_advance_rep:
  assumes "layer_on C bs blocks F L" "iter_rep C bs blocks it rest"
  shows "\<exists>it'. block_iter_advance C L it = Inr it' \<and> positioned C bs blocks it' rest"
proof -
  note L = assms(1) [unfolded layer_on_def]
  obtain j p z where r: "j \<le> length blocks" "bi_pos it = Suc j * bs" "rest = p @ concat (drop j blocks)"
    "bi_item_index it + length p = bi_item_count it" "bi_item_count it \<le> 65535" "length (bc_buffer (bi_buffer it)) = bs"
    "p \<noteq> [] \<longrightarrow> cursor_ok bs (bi_buffer it) \<and> cursor_rest (bi_buffer it) = items_bytes C p @ z \<and> set p \<subseteq> set (concat blocks)"
    using assms(2) unfolding iter_rep_def by blast
  show ?thesis
  proof (cases p)
    case (Cons i p')
    then have pre: "i \<in> set (concat blocks)" "cursor_ok bs (bi_buffer it)"
      "cursor_rest (bi_buffer it) = item_bytes C i @ items_bytes C p' @ z" "bi_item_index it < 65535"
      using r by auto
    from read_block_item_rep [OF assms(1) pre] obtain c where c:
      "read_block_item C L it = Inr (it\<lparr>bi_buffer := c, bi_item := Some i, bi_item_index := bi_item_index it + 1\<rparr>)"
      "cursor_ok bs c" "cursor_rest c = items_bytes C p' @ z" by auto
    let ?it = "it\<lparr>bi_buffer := c, bi_item := Some i, bi_item_index := bi_item_index it + 1\<rparr>"
    have "block_iter_advance C L it = Inr ?it" using c(1) Cons r(4) by (simp add: block_iter_advance_def)
    moreover have "iter_rep C bs blocks ?it (p' @ concat (drop j blocks))"
      unfolding iter_rep_def using r c Cons by (auto simp: cursor_ok_def intro!: exI [of _ j] exI [of _ p'])
    ultimately show ?thesis using r(3) Cons by (simp add: positioned_def block_iter_get_def)
  next
    case Nil
    show ?thesis
    proof (cases "j = length blocks")
      case True
      then have "bi_pos it \<ge> pl_size L" using layer_file_length(1) [of C bs blocks F] L r(2) by simp
      then have "block_iter_advance C L it = Inr (it\<lparr>bi_item := None\<rparr>)" using r(4) Nil by (simp add: block_iter_advance_def)
      moreover have "iter_rep C bs blocks (it\<lparr>bi_item := None\<rparr>) []"
        unfolding iter_rep_def using r True Nil by (auto intro!: exI [of _ j] exI [of _ "[]"])
      ultimately show ?thesis using r(3) Nil True by (simp add: positioned_def block_iter_get_def)
    next
      case False
      with r(1) have j: "j < length blocks" by simp
      from read_items_block_rep [OF assms(1) j r(2,6)] obtain c z' where
        b: "read_items_block L it = Inr (it\<lparr>bi_buffer := c, bi_pos := Suc (Suc j) * bs, bi_item_index := 0, bi_item_count := length (blocks ! j)\<rparr>)"
        "cursor_ok bs c" "cursor_rest c = items_bytes C (blocks ! j) @ z'" "Suc j * bs < length F" by auto
      let ?it = "it\<lparr>bi_buffer := c, bi_pos := Suc (Suc j) * bs, bi_item_index := 0, bi_item_count := length (blocks ! j)\<rparr>"
      have nth: "blocks ! j \<in> set blocks" using j by simp
      then have "blocks ! j \<noteq> []" "length (blocks ! j) \<le> 65535" using L by (auto simp: layer_file_def blocks_fit_def)
      then obtain i p' where ip: "blocks ! j = i # p'" "i \<in> set (concat blocks)" "set p' \<subseteq> set (concat blocks)" "length p' < 65535"
        using nth by (cases "blocks ! j") fastforce+
      have "cursor_rest (bi_buffer ?it) = item_bytes C i @ items_bytes C p' @ z'" using b(3) ip(1) by simp
      from read_block_item_rep [OF assms(1) ip(2) _ this] b(2) obtain c2 where c2:
        "read_block_item C L ?it = Inr (?it\<lparr>bi_buffer := c2, bi_item := Some i, bi_item_index := 1\<rparr>)"
        "cursor_ok bs c2" "cursor_rest c2 = items_bytes C p' @ z'" by auto
      have "block_iter_advance C L it = Inr (?it\<lparr>bi_buffer := c2, bi_item := Some i, bi_item_index := 1\<rparr>)"
        using b(1,4) c2(1) r(2,4) Nil L by (simp add: block_iter_advance_def)
      moreover have "iter_rep C bs blocks (?it\<lparr>bi_buffer := c2, bi_item := Some i, bi_item_index := 1\<rparr>) (p' @ concat (drop (Suc j) blocks))"
        unfolding iter_rep_def using j ip c2 by (auto simp: cursor_ok_def intro!: exI [of _ "Suc j"] exI [of _ p'])
      moreover have "rest = i # p' @ concat (drop (Suc j) blocks)"
        using r(3) Nil ip(1) by (simp add: Cons_nth_drop_Suc [OF j, symmetric])
      ultimately show ?thesis by (auto simp: positioned_def block_iter_get_def)
    qed
  qed
qed

text \<open>The items a consumer sees that alternates \<open>get\<close> and \<open>advance\<close> until \<open>get\<close> is \<open>None\<close>.\<close>

fun block_iter_drain :: "nat \<Rightarrow> ('k, 'v) codec \<Rightarrow> persistent_layer \<Rightarrow> ('k, 'v) block_iter \<Rightarrow> ('k, 'v) item list res" where
  "block_iter_drain n C L it =
     (case block_iter_get it of
        None \<Rightarrow> Inr []
      | Some i \<Rightarrow>
          (case n of
             0 \<Rightarrow> Inl OutOfFuel
           | Suc n \<Rightarrow>
               bind_res (block_iter_advance C L it) (\<lambda>it.
               bind_res (block_iter_drain n C L it) (\<lambda>items. Inr (i # items)))))"

declare block_iter_drain.simps [simp del]

lemma block_iter_drain_positioned:
  assumes "layer_on C bs blocks F L" "positioned C bs blocks it items" "length items \<le> n"
  shows "block_iter_drain n C L it = Inr items"
  using assms(2,3)
proof (induction items arbitrary: it n)
  case Nil
  then show ?case by (subst block_iter_drain.simps) (simp add: positioned_def)
next
  case (Cons i items)
  then obtain n' where n: "n = Suc n'" by (cases n) auto
  from Cons.prems have "block_iter_get it = Some i" "iter_rep C bs blocks it items" by (simp_all add: positioned_def)
  moreover from block_iter_advance_rep [OF assms(1) this(2)] obtain it' where
    "block_iter_advance C L it = Inr it'" "positioned C bs blocks it' items" by auto
  moreover from Cons.IH [OF this(2), of n'] Cons.prems(2) have "block_iter_drain n' C L it' = Inr items" by (simp add: n)
  ultimately show ?case by (subst block_iter_drain.simps) (simp add: n)
qed

section \<open>The search\<close>

text \<open>Once an item is not less than the key, all that follow are greater.\<close>

definition ordered_for :: "'k key_ops \<Rightarrow> 'k \<Rightarrow> ('k, 'v) item list \<Rightarrow> bool" where
  "ordered_for ops k items \<longleftrightarrow>
     sorted_wrt (\<lambda>i j. cmp_upper_bound ops (key i) k \<noteq> Less \<longrightarrow> cmp_upper_bound ops (key j) k = Greater) items"

definition key_bound :: "'k \<Rightarrow> bool \<Rightarrow> 'k bound" where
  "key_bound k excluded = (if excluded then Excluded k else Included k)"

definition all_less :: "'k key_ops \<Rightarrow> 'k \<Rightarrow> ('k, 'v) item list \<Rightarrow> bool" where
  "all_less ops k items \<longleftrightarrow> (\<forall>i \<in> set items. cmp_upper_bound ops (key i) k = Less)"

lemma ordered_for_less:
  assumes "ordered_for ops k (xs @ i # ys)" "cmp_upper_bound ops (key i) k = Less"
  shows "all_less ops k (xs @ [i])"
  using assms by (auto simp: ordered_for_def all_less_def sorted_wrt_append)

lemma layer_seek_less: "all_less ops k xs \<Longrightarrow> layer_seek ops (xs @ ys) (key_bound k excluded) = layer_seek ops ys (key_bound k excluded)"
  by (induction xs) (auto simp: layer_seek_def all_less_def key_bound_def outside_bound_def)

lemma layer_seek_arrived:
  assumes "ordered_for ops k (xs @ i # ys)" "all_less ops k xs"
  shows "cmp_upper_bound ops (key i) k = Greater \<Longrightarrow> layer_seek ops (xs @ i # ys) (key_bound k excluded) = i # ys"
    and "cmp_upper_bound ops (key i) k = Equal \<Longrightarrow> layer_seek ops (xs @ i # ys) (key_bound k excluded) = (if excluded then ys else i # ys)"
proof -
  show "cmp_upper_bound ops (key i) k = Greater \<Longrightarrow> layer_seek ops (xs @ i # ys) (key_bound k excluded) = i # ys"
    using layer_seek_less [OF assms(2)] by (simp add: layer_seek_def outside_bound_def key_bound_def)
  assume eq: "cmp_upper_bound ops (key i) k = Equal"
  then have "\<forall>y \<in> set ys. cmp_upper_bound ops (key y) k = Greater"
    using assms(1) by (simp add: ordered_for_def sorted_wrt_append)
  then have "layer_seek ops ys (key_bound k excluded) = ys"
    by (cases ys) (auto simp: layer_seek_def outside_bound_def key_bound_def)
  then show "layer_seek ops (xs @ i # ys) (key_bound k excluded) = (if excluded then ys else i # ys)"
    using layer_seek_less [OF assms(2)] eq by (auto simp: layer_seek_def outside_bound_def key_bound_def)
qed

lemma seek_arrived_rep:
  assumes "layer_on C bs blocks F L" "positioned C bs blocks it (i # ys)" "concat blocks = xs @ i # ys"
    "ordered_for ops k (concat blocks)" "all_less ops k xs"
  shows "seek_arrived C ops L k excluded i it = Inr None \<and> all_less ops k (xs @ [i]) \<or>
    (\<exists>it'. seek_arrived C ops L k excluded i it = Inr (Some it') \<and>
       positioned C bs blocks it' (layer_seek ops (concat blocks) (key_bound k excluded)))"
proof -
  have "iter_rep C bs blocks it ys" using assms(2) by (simp add: positioned_def)
  from block_iter_advance_rep [OF assms(1) this] obtain it' where it': "block_iter_advance C L it = Inr it'" "positioned C bs blocks it' ys"
    by auto
  note o = assms(4) [unfolded assms(3)]
  show ?thesis
  proof (cases "cmp_upper_bound ops (key i) k")
    case Less
    then show ?thesis using ordered_for_less [OF o] by (simp add: seek_arrived_def)
  next
    case Equal
    then show ?thesis using layer_seek_arrived(2) [OF o assms(5)] it' assms(2) by (simp add: seek_arrived_def assms(3))
  next
    case Greater
    then show ?thesis using layer_seek_arrived(1) [OF o assms(5)] assms(2) by (simp add: seek_arrived_def assms(3))
  qed
qed

lemma seek_walk_rep:
  assumes "layer_on C bs blocks F L" "ordered_for ops k (concat blocks)" "concat blocks = xs @ ys" "all_less ops k xs"
    "iter_rep C bs blocks it ys" "length ys < n"
  shows "\<exists>it'. seek_walk n C ops L k excluded it = Inr it' \<and>
    positioned C bs blocks it' (layer_seek ops (concat blocks) (key_bound k excluded))"
  using assms(3-)
proof (induction n arbitrary: xs ys it)
  case (Suc n)
  from block_iter_advance_rep [OF assms(1) Suc.prems(3)] obtain it' where it': "block_iter_advance C L it = Inr it'" "positioned C bs blocks it' ys"
    by auto
  show ?case
  proof (cases ys)
    case Nil
    have "layer_seek ops (concat blocks) (key_bound k excluded) = []"
      using layer_seek_less [OF Suc.prems(2), of "[]"] Suc.prems(1) Nil by (simp add: layer_seek_def)
    then show ?thesis using it' Nil by (simp add: positioned_def)
  next
    case (Cons i ys')
    have p: "positioned C bs blocks it' (i # ys')" "block_iter_get it' = Some i" "iter_rep C bs blocks it' ys'"
      using it'(2) Cons by (simp_all add: positioned_def)
    have c: "concat blocks = xs @ i # ys'" "concat blocks = (xs @ [i]) @ ys'" using Suc.prems(1) Cons by simp_all
    from seek_arrived_rep [OF assms(1) p(1) c(1) assms(2) Suc.prems(2)] consider
      "seek_arrived C ops L k excluded i it' = Inr None" "all_less ops k (xs @ [i])"
      | it2 where "seek_arrived C ops L k excluded i it' = Inr (Some it2)"
        "positioned C bs blocks it2 (layer_seek ops (concat blocks) (key_bound k excluded))" by blast
    then show ?thesis
    proof cases
      case 1
      then show ?thesis using Suc.IH [OF c(2) 1(2) p(3)] Suc.prems(4) Cons it'(1) p(2) by simp
    next
      case 2
      then show ?thesis using it'(1) p(2) by simp
    qed
  qed
qed simp

text \<open>The block in the middle.\<close>

lemma round_down_between: "\<lbrakk>m * bs \<le> x; x < Suc m * bs\<rbrakk> \<Longrightarrow> round_down x bs = Inr (m * bs)"
proof -
  assume x: "m * bs \<le> x" "x < Suc m * bs"
  then have "0 < bs" by (cases bs) auto
  moreover have "x div bs = m" using x by (metis div_nat_eqI mult.commute)
  ultimately show ?thesis by (simp add: round_down_eq minus_mod_eq_div_mult)
qed

lemma round_down_mid:
  assumes "0 < bs"
  shows "round_down (Suc l * bs + (r - l) * bs div 2) bs = Inr (Suc (l + (r - l) div 2) * bs)"
proof (rule round_down_between)
  define q e where "q = (r - l) div 2" and "e = (r - l) mod 2"
  have d: "(r - l) * bs = 2 * (q * bs) + e * bs" "e * bs < 2 * bs"
    using assms by (simp_all add: q_def e_def flip: add_mult_distrib mult.assoc)
  then have half: "q * bs \<le> (r - l) * bs div 2" "(r - l) * bs div 2 < q * bs + bs" by linarith+
  show "Suc (l + (r - l) div 2) * bs \<le> Suc l * bs + (r - l) * bs div 2"
    using half(1) unfolding q_def by (simp add: add_mult_distrib)
  show "Suc l * bs + (r - l) * bs div 2 < Suc (Suc (l + (r - l) div 2)) * bs"
    using half(2) unfolding q_def by (simp add: add_mult_distrib)
qed

lemma seek_blocks_rep:
  assumes "layer_on C bs blocks F L" "ordered_for ops k (concat blocks)" "0 < bs" "r \<le> length blocks"
    "l < r" "concat (drop l blocks) = i # ys" "cmp_upper_bound ops (key i) k = Less" "iter_rep C bs blocks left ys" "r - l \<le> n" "0 < n"
  shows "\<exists>q. seek_blocks n C ops L k excluded (Suc l * bs) (Suc r * bs) left = Inr q \<and>
    (case q of
       Inl it \<Rightarrow> positioned C bs blocks it (layer_seek ops (concat blocks) (key_bound k excluded))
     | Inr it \<Rightarrow> \<exists>xs ys. concat blocks = xs @ ys \<and> all_less ops k xs \<and> iter_rep C bs blocks it ys)"
  using assms(4-)
proof (induction n arbitrary: l r i ys left)
  case (Suc n)
  have width: "u64_sub (Suc r * bs) (Suc l * bs) = Inr ((r - l) * bs)"
    using Suc.prems(2) by (simp add: u64_sub_def diff_mult_distrib)
  have info: "li_block_size (pl_info L) = bs" using assms(1) by (simp add: layer_on_def)
  have split: "concat blocks = concat (take m blocks) @ concat (drop m blocks)" for m by (simp flip: concat_append)
  show ?case
  proof (cases "r - l \<le> 1")
    case True
    then have stop: "seek_blocks (Suc n) C ops L k excluded (Suc l * bs) (Suc r * bs) left = Inr (Inr left)"
      by (auto simp: width info simp del: mult_Suc)
    have "concat blocks = concat (take l blocks) @ i # ys" using split [of l] Suc.prems(3) by simp
    moreover from this have "all_less ops k (concat (take l blocks) @ [i])"
      using ordered_for_less [of ops k "concat (take l blocks)" i ys] assms(2) Suc.prems(4) by simp
    ultimately have "concat blocks = (concat (take l blocks) @ [i]) @ ys" "all_less ops k (concat (take l blocks) @ [i])" by simp_all
    with Suc.prems(5) have "\<exists>xs ys. concat blocks = xs @ ys \<and> all_less ops k xs \<and> iter_rep C bs blocks left ys" by blast
    with stop show ?thesis by (simp del: seek_blocks.simps mult_Suc)
  next
    case False
    define m where "m = l + (r - l) div 2"
    have m: "l < m" "m < r" "m < length blocks" using False Suc.prems(1,2) by (auto simp: m_def)
    have wide: "bs < (r - l) * bs" using False assms(3) by simp
    have "blocks ! m \<noteq> []" using m(3) assms(1) by (auto simp: layer_on_def layer_file_def blocks_fit_def)
    then obtain i' ys' where d: "concat (drop m blocks) = i' # ys'"
      using Cons_nth_drop_Suc [OF m(3)] by (cases "blocks ! m") (auto simp flip: Cons_nth_drop_Suc [OF m(3)])
    from block_iter_advance_rep [OF assms(1) iter_rep_new [OF assms(1) less_imp_le [OF m(3)]]] obtain it where
      it: "block_iter_advance C L (block_iter_new L (Suc m * bs)) = Inr it" "positioned C bs blocks it (i' # ys')"
      by (auto simp: d)
    then have get: "block_iter_get it = Some i'" "iter_rep C bs blocks it ys'" by (simp_all add: positioned_def)
    from block_iter_advance_rep [OF assms(1) get(2)] obtain it2 where it2: "block_iter_advance C L it = Inr it2" "positioned C bs blocks it2 ys'"
      by auto
    have run: "seek_blocks (Suc n) C ops L k excluded (Suc l * bs) (Suc r * bs) left =
        (case cmp_upper_bound ops (key i') k of
           Greater \<Rightarrow> seek_blocks n C ops L k excluded (Suc l * bs) (Suc m * bs) left
         | Equal \<Rightarrow> Inr (Inl (if excluded then it2 else it))
         | Less \<Rightarrow> seek_blocks n C ops L k excluded (Suc m * bs) (Suc r * bs) it)"
      using wide it(1) it2(1) get(1) round_down_mid [OF assms(3), of l r]
      by (simp add: width info m_def split: ordering.split del: mult_Suc)
    show ?thesis
    proof (cases "cmp_upper_bound ops (key i') k")
      case Less
      then show ?thesis
        using Suc.IH [OF Suc.prems(1) m(2) d Less get(2)] Suc.prems(6) m unfolding run by simp
    next
      case Greater
      then show ?thesis
        using Suc.IH [OF less_imp_le [OF m(3)] m(1) Suc.prems(3,4,5)] Suc.prems(6) m unfolding run by simp
    next
      case Equal
      have c: "concat blocks = concat (take m blocks) @ i' # ys'" using split [of m] d by simp
      have o: "ordered_for ops k (concat (take m blocks) @ i' # ys')" using assms(2) by (simp flip: c)
      have "all_less ops k (concat (take m blocks))"
        using o Equal by (fastforce simp: ordered_for_def all_less_def sorted_wrt_append)
      from layer_seek_arrived(2) [OF o this Equal, of excluded] show ?thesis
        unfolding run c using Equal it(2) it2(2) by simp
    qed
  qed
qed simp

lemma blocks_fit_length: "blocks_fit C bs blocks \<Longrightarrow> length blocks \<le> length (concat blocks)"
proof (induction blocks)
  case (Cons b blocks)
  then show ?case by (cases b) (auto simp: blocks_fit_def)
qed simp

lemma seek_key_rep:
  assumes "layer_on C bs blocks F L" "ordered_for ops k (concat blocks)" "0 < bs" "length (concat blocks) < fuel"
  shows "\<exists>it. seek_key fuel C ops k excluded L = Inr it \<and>
    positioned C bs blocks it (layer_seek ops (concat blocks) (key_bound k excluded))"
proof -
  have L: "li_block_size (pl_info L) = bs" "pl_size L = length F" "layer_file C bs blocks F" "length F + bs < u64_max"
    "length (header_bytes C bs) \<le> bs" "header_bytes C bs \<noteq> []"
    using assms(1) by (simp_all add: layer_on_def)
  have "length F + (bs - 1) \<le> u64_max" "bs * ((length F + (bs - 1)) div bs) = Suc (length blocks) * bs"
  proof -
    have "(length F + (bs - 1)) div bs = Suc (length blocks)"
      using layer_file_length [OF L(3,5,6)] assms(3) by (intro div_nat_eqI) (simp_all add: algebra_simps)
    then show "bs * ((length F + (bs - 1)) div bs) = Suc (length blocks) * bs" by simp
  qed (use L(4) in simp)
  then have up: "round_up (pl_size L) (li_block_size (pl_info L)) = Inr (Some (Suc (length blocks) * bs))"
    using assms(3) L(1,2) by (simp add: round_up_eq)
  have "iter_rep C bs blocks (block_iter_new L bs) (concat blocks)" using iter_rep_new [OF assms(1), of 0] by simp
  from block_iter_advance_rep [OF assms(1) this] obtain left where
    left: "block_iter_advance C L (block_iter_new L bs) = Inr left" "positioned C bs blocks left (concat blocks)" by auto
  show ?thesis
  proof (cases "concat blocks")
    case Nil
    show ?thesis using left up unfolding Nil by (simp add: seek_key_def L(1) positioned_def layer_seek_def)
  next
    case (Cons i ys)
    then have p: "positioned C bs blocks left (i # ys)" "block_iter_get left = Some i" "iter_rep C bs blocks left ys"
      using left(2) by (simp_all add: positioned_def)
    have blocks: "0 < length blocks" "length blocks \<le> length (concat blocks)"
      using Cons L(3) blocks_fit_length [of C bs blocks] by (auto simp: layer_file_def)
    from seek_arrived_rep [OF assms(1) p(1) _ assms(2), of "[]"] Cons consider
      "seek_arrived C ops L k excluded i left = Inr None" "cmp_upper_bound ops (key i) k = Less"
      | it where "seek_arrived C ops L k excluded i left = Inr (Some it)"
        "positioned C bs blocks it (layer_seek ops (concat blocks) (key_bound k excluded))" by (auto simp: all_less_def)
    then show ?thesis
    proof cases
      case 1
      from seek_blocks_rep [OF assms(1-3) order_refl blocks(1) _ 1(2) p(3), of fuel] Cons blocks assms(4) obtain q where
        q: "seek_blocks fuel C ops L k excluded bs (Suc (length blocks) * bs) left = Inr q"
        "case q of
           Inl it \<Rightarrow> positioned C bs blocks it (layer_seek ops (concat blocks) (key_bound k excluded))
         | Inr it \<Rightarrow> \<exists>xs ys. concat blocks = xs @ ys \<and> all_less ops k xs \<and> iter_rep C bs blocks it ys"
        by auto
      show ?thesis
      proof (cases q)
        case (Inl it)
        then show ?thesis using q 1(1) left(1) p(2) up by (simp add: seek_key_def L(1) del: mult_Suc)
      next
        case (Inr it)
        with q(2) obtain xs zs where z: "concat blocks = xs @ zs" "all_less ops k xs" "iter_rep C bs blocks it zs" by auto
        have "length zs < fuel" using arg_cong [OF z(1), of length] assms(4) by simp
        from seek_walk_rep [OF assms(1,2) z this, of excluded] show ?thesis
          using q(1) Inr 1(1) left(1) p(2) up by (simp add: seek_key_def L(1) del: mult_Suc)
      qed
    next
      case 2
      then show ?thesis using left(1) p(2) up by (simp add: seek_key_def L(1) del: mult_Suc)
    qed
  qed
qed

lemma persistent_seek_rep:
  assumes "layer_on C bs blocks F L" "0 < bs" "length (concat blocks) < fuel"
    "\<And>k. bnd = Included k \<or> bnd = Excluded k \<Longrightarrow> ordered_for ops k (concat blocks)"
  shows "\<exists>it. persistent_seek fuel C ops bnd L = Inr it \<and> positioned C bs blocks it (layer_seek ops (concat blocks) bnd)"
proof (cases bnd)
  case Unbounded
  have "layer_seek ops (concat blocks) Unbounded = concat blocks"
    by (cases "concat blocks") (simp_all add: layer_seek_def outside_bound_def)
  moreover have "iter_rep C bs blocks (block_iter_new L bs) (concat blocks)" using iter_rep_new [OF assms(1), of 0] by simp
  ultimately show ?thesis
    using block_iter_advance_rep [OF assms(1)] assms(1) by (auto simp: persistent_seek_def Unbounded layer_on_def)
next
  case (Included k)
  then show ?thesis
    using seek_key_rep [OF assms(1) assms(4) assms(2,3), of k False] by (simp add: persistent_seek_def key_bound_def)
next
  case (Excluded k)
  then show ?thesis
    using seek_key_rep [OF assms(1) assms(4) assms(2,3), of k True] by (simp add: persistent_seek_def key_bound_def)
qed

section \<open>Opening a layer\<close>

lemma version_roundtrip:
  assumes "major v < 2 ^ 24" "minor v < 2 ^ 8"
  shows "\<exists>b. version_serialize v = Inr b \<and> length b = 4 \<and> (\<forall>rest. version_deserialize (b @ rest) = Inr (v, rest))"
proof -
  have "le_nat (le_bytes 3 (major v)) = major v" using assms(1) by (intro le_nat_le_bytes) simp
  moreover have "le_nat (le_bytes 1 (minor v)) = minor v" using assms(2) by (intro le_nat_le_bytes) simp
  ultimately show ?thesis using assms(1) by (simp add: version_serialize_def version_deserialize_def)
qed

lemma info_fits_header:
  assumes "info_fits C bs n"
  shows "deserialize_with_version (de_info C) (header_bytes C bs @ z) = Inr (\<lparr>key_value_version = latest_version, li_block_size = bs\<rparr>, latest_version)"
    "length (header_bytes C bs) \<le> n" "header_bytes C bs \<noteq> []"
proof -
  obtain b where b: "ser_info C \<lparr>key_value_version = latest_version, li_block_size = bs\<rparr> = Inr b"
    "\<forall>rest. de_info C latest_version (b @ rest) = Inr (\<lparr>key_value_version = latest_version, li_block_size = bs\<rparr>, rest)" "4 + length b \<le> n"
    using assms by (auto simp: info_fits_def)
  obtain vb where v: "version_serialize latest_version = Inr vb" "version_deserialize (vb @ b @ z) = Inr (latest_version, b @ z)" "length vb = 4"
    using version_roundtrip [of latest_version] by (auto simp: latest_version_def)
  then have h: "header_bytes C bs = vb @ b" using b(1) by (simp add: header_bytes_def serialize_with_version_def)
  show "length (header_bytes C bs) \<le> n" "header_bytes C bs \<noteq> []" using b(3) v(3) by (auto simp: h)
  from v(2) show "deserialize_with_version (de_info C) (header_bytes C bs @ z) =
      Inr (\<lparr>key_value_version = latest_version, li_block_size = bs\<rparr>, latest_version)"
    using b(2) by (simp add: deserialize_with_version_def h)
qed

lemma persistent_open_layer:
  assumes "read_law h F" "layer_file C bs blocks F" "info_fits C bs (rh_block_size h)" "rh_block_size h dvd bs" "0 < bs"
    "length F + bs < u64_max" "\<forall>i \<in> set (concat blocks). item_fits C bs i"
  shows "\<exists>L. persistent_open C h = Inr L \<and> layer_on C bs blocks F L"
proof -
  note h = assms(1) [unfolded read_law_def]
  note hd = info_fits_header [OF assms(3)]
  have le: "rh_block_size h \<le> bs" using assms(4,5) by (simp add: dvd_imp_le)
  obtain z where z: "take bs F = header_bytes C bs @ z" using layer_file_header [OF assms(2)] hd(2) le by auto
  define n where "n = min (rh_block_size h) (length F)"
  let ?buf = "take n F @ drop n (rh_allocate h (rh_block_size h))"
  have "length (header_bytes C bs) \<le> n"
    using hd(2) arg_cong [OF z, of length] by (simp add: n_def)
  moreover have "take n F = take n (take bs F)" using le by (simp add: n_def)
  ultimately obtain z' where "take n F = header_bytes C bs @ z'" unfolding z by auto
  then have "deserialize_with_version (de_info C) ?buf = Inr (\<lparr>key_value_version = latest_version, li_block_size = bs\<rparr>, latest_version)"
    using hd(1) by simp
  moreover have "rh_read h 0 (rh_allocate h (rh_block_size h)) = Inr (n, ?buf)"
    using h by (simp add: n_def Let_def)
  ultimately have "persistent_open C h = Inr \<lparr>pl_handle = h, pl_info = \<lparr>key_value_version = latest_version, li_block_size = bs\<rparr>,
      pl_size = length F, pl_close_event = True\<rparr>"
    using h assms(4,6) by (simp add: persistent_open_def u64_rem_def u64_sub_def dvd_imp_mod_0 less_diff_conv)
  then show ?thesis
    using assms hd(2,3) le by (simp add: layer_on_def)
qed

section \<open>Layers of an object store\<close>

definition key_up :: "object_key \<Rightarrow> nat list" where
  "key_up k = (case data k of Attribute _ (Extent e) \<Rightarrow> key_prefix k @ [rend (range e)] | _ \<Rightarrow> key_prefix k)"

lemma object_cmp_upper_up: "object_cmp_upper_bound k l = cmp (key_up k) (key_up l)"
  by (cases "data k"; cases "data l")
    (auto simp: object_cmp_upper_bound_def key_up_def key_prefix_def variant_index_def data_cmp_def cmp_Cons
      cmp_lt cmp_map_of_char extent_cmp_upper_bound_def split: attribute_key.splits)

lemma key_up_cases: "if \<exists>a e. data k = Attribute a (Extent e) then key_up k = key_hi k else key_up k = key_lo k"
  by (auto simp: key_up_def key_hi_def key_lo_def split: object_key_data.splits attribute_key.splits)

lemma key_up_less:
  assumes "object_ok bs i" "object_ok bs j" "key_hi (key i) \<le> key_lo (key j)"
  shows "key_up (key i) < key_up (key j)"
proof -
  have i: "key_up (key i) \<le> key_hi (key i)" and j: "key_lo (key j) \<le> key_up (key j)"
    using object_ok_nonempty [OF assms(1)] object_ok_nonempty [OF assms(2)] key_up_cases [of "key i"] key_up_cases [of "key j"]
    by (auto split: if_splits)
  show ?thesis
  proof (cases "\<exists>a e. data (key i) = Attribute a (Extent e)")
    case False
    then have "key_up (key i) < key_hi (key i)"
      using object_ok_nonempty [OF assms(1)] key_up_cases [of "key i"] by auto
    then show ?thesis using assms(3) j by (meson less_le_trans)
  next
    case i_ext: True
    show ?thesis
    proof (cases "\<exists>a e. data (key j) = Attribute a (Extent e)")
      case True
      then have "key_lo (key j) < key_up (key j)"
        using object_ok_nonempty [OF assms(2)] key_up_cases [of "key j"] by auto
      then show ?thesis using assms(3) i by (meson le_less_trans)
    next
      case False
      have "key_up (key i) \<noteq> key_up (key j)"
        using i_ext False by (auto simp: key_up_def key_prefix_def variant_index_def split: object_key_data.splits attribute_key.splits)
      then show ?thesis using assms(3) i j by (meson order.strict_iff_order order_trans)
    qed
  qed
qed

lemma object_layer_ordered:
  assumes "layer_ok (object_sem bs) items"
  shows "ordered_for object_ops k items"
proof -
  have "sorted_wrt (\<lambda>i j. key_up (key i) < key_up (key j)) items"
    using assms
  proof (induction items)
    case (Cons i items)
    have "object_ok bs j" if "j \<in> set items" for j using that Cons.prems layer_ok_ok [of "object_sem bs" items] by auto
    with Cons show ?case by (auto simp: list_all_iff intro: key_up_less)
  qed simp
  then show ?thesis
    unfolding ordered_for_def by (rule sorted_wrt_mono_rel [rotated]) (auto simp: object_ops_def object_cmp_upper_up)
qed

section \<open>The theorem\<close>

context object_writer
begin

lemma write_layer_direct:
  assumes "keeps st []" "\<forall>i \<in> set items. item_fits C bs i" "info_fits C bs bs" "(length items + 2) * bs \<le> u64_max"
  shows "ends fails (\<lambda>w. \<exists>blocks F. concat blocks = items \<and> layer_file C bs blocks F \<and> keeps (snd w) F)
    (write_layer C (direct_byte_writer put) bs items (direct_writer_new, st))"
proof -
  have "direct_rep keeps (direct_writer_new, st) [] 0"
    using assms(1) by (auto simp: direct_rep_def buffered_rep_def direct_writer_new_def dw_buffer_size_def)
  from direct.write_layer_file [OF this assms(2-)] show ?thesis by simp
qed

end

text \<open>Every handle that reads a layer file opens it and searches it as the list of its items is searched.\<close>

definition reads_layer :: "('k, 'v) codec \<Rightarrow> 'k key_ops \<Rightarrow> ('k, 'v) item list \<Rightarrow> read_handle \<Rightarrow> bool" where
  "reads_layer C ops items h \<longleftrightarrow>
     (\<exists>L. persistent_open C h = Inr L \<and>
       (\<forall>bnd fuel. length items < fuel \<longrightarrow>
         (\<exists>it. persistent_seek fuel C ops bnd L = Inr it \<and>
           block_iter_drain (length items) C L it = Inr (layer_seek ops items bnd))))"

lemma layer_file_reads:
  assumes "layer_file C bs blocks F" "concat blocks = items" "read_law h F" "(length items + 3) * bs < u64_max"
    "\<forall>i \<in> set items. item_fits C bs i" "info_fits C bs (rh_block_size h)" "rh_block_size h dvd bs" "0 < bs" "\<forall>k. ordered_for ops k items"
  shows "reads_layer C ops items h"
proof -
  have le: "rh_block_size h \<le> bs" using assms(7,8) by (rule dvd_imp_le)
  have info: "info_fits C bs bs" using assms(6) le by (auto simp: info_fits_def)
  have "length F \<le> Suc (length blocks) * bs"
    using layer_file_length(1) [OF assms(1)] info_fits_header(2,3) [OF info] by simp
  also have "\<dots> \<le> (length items + 2) * bs"
    using blocks_fit_length [of C bs blocks] assms(1,2) by (intro mult_right_mono) (auto simp: layer_file_def)
  finally have size: "length F + bs < u64_max" using assms(4) by (simp add: algebra_simps)
  from persistent_open_layer [OF assms(3,1,6,7,8) size] assms(2,5) obtain L where
    L: "persistent_open C h = Inr L" "layer_on C bs blocks F L" by auto
  have "\<exists>it. persistent_seek fuel C ops bnd L = Inr it \<and> block_iter_drain (length items) C L it = Inr (layer_seek ops items bnd)"
    if "length items < fuel" for bnd fuel
  proof -
    from persistent_seek_rep [OF L(2) assms(8), of fuel bnd ops] that assms(2,9) obtain it where
      "persistent_seek fuel C ops bnd L = Inr it" "positioned C bs blocks it (layer_seek ops items bnd)" by auto
    then show ?thesis
      using block_iter_drain_positioned [OF L(2)] length_dropWhile_le [of _ items] by (auto simp: layer_seek_def)
  qed
  then show ?thesis using L(1) by (auto simp: reads_layer_def)
qed

text \<open>
  C20: a layer file holds the items that were written to it. \<open>put\<close> is any object, and its writes may fail: the
  items of a layer are written to it with a \<^verbatim>\<open>SimplePersistentLayerWriter\<close> through a \<^verbatim>\<open>DirectWriter\<close>. Either
  this ends with an error that a write to the object returned, or it succeeds, and then the writes that took the
  object to the state it is in leave, on an object that was empty, bytes of which the following is true. Opening them
  succeeds through every handle that returns them, and from every bound the search of the file yields exactly the
  items that a search through the list of the items yields. The handle of a file in a store is one such object;
  that its reads return what was written is a hypothesis here.
\<close>

theorem persistent_layer_roundtrip:
  assumes "(length items + 3) * bs < u64_max" "\<forall>i \<in> set items. item_fits C bs i" "info_fits C bs pbs" "pbs dvd bs" "0 < bs"
    "\<forall>k. ordered_for ops k items"
  shows "case write_layer C (direct_byte_writer put) bs items (direct_writer_new, st) of
      Inl e \<Rightarrow> \<exists>ws off b st1. put_all put ws st = Inr st1 \<and> put off b st1 = Inl e
    | Inr (dw, st') \<Rightarrow> \<exists>ws. put_all put ws st = Inr st' \<and>
        (\<forall>h. read_law h (written_bytes extends ws) \<and> rh_block_size h = pbs \<longrightarrow>
          (\<exists>L. persistent_open C h = Inr L \<and>
            (\<forall>bnd fuel. length items < fuel \<longrightarrow>
              (\<exists>it. persistent_seek fuel C ops bnd L = Inr it \<and>
                block_iter_drain (length items) C L it = Inr (layer_seek ops items bnd)))))"
proof -
  have "info_fits C bs bs" using assms(3) dvd_imp_le [OF assms(4,5)] by (auto simp: info_fits_def)
  moreover have "keeps_writes put st extends st []" by (auto simp: keeps_writes_def written_bytes_def intro: exI [of _ "[]"])
  moreover have "(length items + 2) * bs \<le> u64_max" using assms(1) by (simp add: algebra_simps)
  ultimately have "ends (put_error put st) (\<lambda>w. \<exists>blocks F. concat blocks = items \<and> layer_file C bs blocks F \<and> keeps_writes put st extends (snd w) F)
      (write_layer C (direct_byte_writer put) bs items (direct_writer_new, st))"
    using assms(2) by (intro logged.write_layer_direct)
  then have "ends (put_error put st) (\<lambda>w. \<exists>ws. put_all put ws st = Inr (snd w) \<and>
        (\<forall>h. read_law h (written_bytes extends ws) \<and> rh_block_size h = pbs \<longrightarrow> reads_layer C ops items h))
      (write_layer C (direct_byte_writer put) bs items (direct_writer_new, st))"
  proof (rule ends_mono, elim exE conjE)
    fix w blocks F
    assume F: "concat blocks = items" "layer_file C bs blocks F" "keeps_writes put st extends (snd w) F"
    then obtain ws where "put_all put ws st = Inr (snd w)" "F = written_bytes extends ws" by (auto simp: keeps_writes_def)
    with layer_file_reads [OF F(2,1) _ assms(1,2)] assms(3-)
    show "\<exists>ws. put_all put ws st = Inr (snd w) \<and>
        (\<forall>h. read_law h (written_bytes extends ws) \<and> rh_block_size h = pbs \<longrightarrow> reads_layer C ops items h)" by blast
  qed
  then show ?thesis unfolding reads_layer_def
    by (cases "write_layer C (direct_byte_writer put) bs items (direct_writer_new, st)") (simp_all add: put_error_def case_prod_unfold)
qed

text \<open>To the object of the tests the writing succeeds, and the object holds what the writes leave.\<close>

lemma fake_layer_roundtrip:
  assumes "(length items + 3) * bs < u64_max" "\<forall>i \<in> set items. item_fits C bs i" "info_fits C bs bs" "0 < bs"
    "\<forall>k. ordered_for ops k items"
  shows "\<exists>dw F. write_layer C (direct_byte_writer (\<lambda>off b c. bind_res (fake_write_or_append (Some off) b c) (\<lambda>(_, c). Inr c)))
      bs items (direct_writer_new, []) = Inr (dw, F) \<and> reads_layer C ops items (fake_reader bs F)"
proof -
  let ?put = "\<lambda>off b c. bind_res (fake_write_or_append (Some off) b c) (\<lambda>(_, c). Inr c)"
  have "(length items + 2) * bs \<le> u64_max" using assms(1) by (simp add: algebra_simps)
  from fake.write_layer_direct [OF refl assms(2,3) this]
  have "ends (\<lambda>_. False) (\<lambda>w. reads_layer C ops items (fake_reader bs (snd w)))
      (write_layer C (direct_byte_writer ?put) bs items (direct_writer_new, []))"
  proof (rule ends_mono, elim exE conjE)
    fix w blocks F
    assume "concat blocks = items" "layer_file C bs blocks F" "snd w = F"
    then show "reads_layer C ops items (fake_reader bs (snd w))"
      using layer_file_reads [of C bs blocks F items "fake_reader bs F" ops] fake_reader_law [of bs F] assms
      by (simp add: fake_reader_def)
  qed
  then show ?thesis by (cases "write_layer C (direct_byte_writer ?put) bs items (direct_writer_new, [])") auto
qed

text \<open>Three items with keys and values of one byte, one to a block, in an object of the tests.\<close>

definition byte_codec :: "(nat, nat) codec" where
  "byte_codec =
     \<lparr>ser_key = (\<lambda>k. Inr [of_nat k]), ser_value = (\<lambda>v. Inr [of_nat v]), ser_info = (\<lambda>i. Inr [of_nat (li_block_size i)]),
      de_key = (\<lambda>_ b. case b of [] \<Rightarrow> Inl Io | x # b \<Rightarrow> Inr (unat x, b)),
      de_value = (\<lambda>_ b. case b of [] \<Rightarrow> Inl Io | x # b \<Rightarrow> Inr (unat x, b)),
      de_info = (\<lambda>v b. case b of [] \<Rightarrow> Inl Io | x # b \<Rightarrow> Inr (\<lparr>key_value_version = v, li_block_size = unat x\<rparr>, b))\<rparr>"

definition nat_ops :: "nat key_ops" where
  "nat_ops = \<lparr>cmp_upper_bound = cmp, cmp_lower_bound = cmp, next_key = (\<lambda>_. Inr None)\<rparr>"

lemma unat_byte: "n < 256 \<Longrightarrow> unat (of_nat n :: u8) = n"
  by (simp add: unat_of_nat)

lemma byte_codec_fits: "\<lbrakk>key i < 256; value i < 256; sequence i < 2 ^ 64\<rbrakk> \<Longrightarrow> item_fits byte_codec 16 i" "info_fits byte_codec 16 16"
  by (simp_all add: item_fits_def info_fits_def byte_codec_def unat_byte)

lemma fake_put_all:
  assumes "put_all (\<lambda>off b c. bind_res (fake_write_or_append (Some off) b c) (\<lambda>(_, c). Inr c)) ws c = Inr F"
  shows "F = fold (\<lambda>(off, b) c. if b = [] \<and> \<not> True then c else overwritten off b c) ws c"
  using assms
proof (induction ws arbitrary: c)
  case (Cons w ws)
  obtain off b where w: "w = (off, b)" by fastforce
  have "off + length b \<le> u64_max"
    using Cons.prems by (auto simp: w fake_write_or_append_def bind_res_eq_Inr u64_add_def Let_def split: if_splits)
  then show ?case using Cons by (simp add: w fake_write_or_append_eq)
qed simp

theorem persistent_layer_roundtrip_witness:
  "\<exists>dw F L it. write_layer byte_codec (direct_byte_writer (\<lambda>off b c. bind_res (fake_write_or_append (Some off) b c) (\<lambda>(_, c). Inr c))) 16
       [item_new_with_sequence 3 30 1, item_new_with_sequence 5 50 2, item_new_with_sequence 9 90 3] (direct_writer_new, []) = Inr (dw, F) \<and>
     persistent_open byte_codec (fake_reader 16 F) = Inr L \<and> persistent_seek 4 byte_codec nat_ops (Included 4) L = Inr it \<and>
     block_iter_drain 3 byte_codec L it = Inr [item_new_with_sequence 5 50 2, item_new_with_sequence 9 90 3]"
proof -
  let ?items = "[item_new_with_sequence 3 30 1, item_new_with_sequence 5 50 2, item_new_with_sequence 9 90 3] :: (nat, nat) item list"
  let ?put = "\<lambda>off b c. bind_res (fake_write_or_append (Some off) b c) (\<lambda>(_, c). Inr c)"
  have size: "(length ?items + 3) * 16 < u64_max" by (simp add: u64_max_def)
  have items: "\<forall>i \<in> set ?items. item_fits byte_codec 16 i" by (simp add: byte_codec_fits item_new_with_sequence_def)
  have order: "\<forall>k. ordered_for nat_ops k ?items" by (simp add: ordered_for_def nat_ops_def item_new_with_sequence_def cmp_def)
  have "(0 :: nat) < 16" by simp
  from fake_layer_roundtrip [OF size items byte_codec_fits(2) this order] obtain dw F where
    w: "write_layer byte_codec (direct_byte_writer ?put) 16 ?items (direct_writer_new, []) = Inr (dw, F)" by blast
  from persistent_layer_roundtrip [OF size items byte_codec_fits(2) dvd_refl \<open>0 < 16\<close> order, of ?put "[]" True] w
  obtain ws where ws: "put_all ?put ws [] = Inr F"
    "\<forall>h. read_law h (written_bytes True ws) \<and> rh_block_size h = 16 \<longrightarrow>
      (\<exists>L. persistent_open byte_codec h = Inr L \<and>
        (\<forall>bnd fuel. length ?items < fuel \<longrightarrow>
          (\<exists>it. persistent_seek fuel byte_codec nat_ops bnd L = Inr it \<and>
            block_iter_drain (length ?items) byte_codec L it = Inr (layer_seek nat_ops ?items bnd))))" by auto
  have "written_bytes True ws = F" using fake_put_all [OF ws(1)] by (simp add: written_bytes_def)
  then have "read_law (fake_reader 16 F) (written_bytes True ws) \<and> rh_block_size (fake_reader 16 F) = 16"
    using fake_reader_law [of 16 F] by (simp add: fake_reader_def)
  with ws(2) obtain L where L: "persistent_open byte_codec (fake_reader 16 F) = Inr L"
    "\<forall>bnd fuel. length ?items < fuel \<longrightarrow> (\<exists>it. persistent_seek fuel byte_codec nat_ops bnd L = Inr it \<and>
      block_iter_drain (length ?items) byte_codec L it = Inr (layer_seek nat_ops ?items bnd))" by blast
  have "length ?items < 4" "length ?items = 3" by simp_all
  with L(2) obtain it where "persistent_seek 4 byte_codec nat_ops (Included 4) L = Inr it"
    "block_iter_drain 3 byte_codec L it = Inr (layer_seek nat_ops ?items (Included 4))" by metis
  moreover have "layer_seek nat_ops ?items (Included 4) = [item_new_with_sequence 5 50 2, item_new_with_sequence 9 90 3]"
    by (simp add: layer_seek_def outside_bound_def nat_ops_def item_new_with_sequence_def cmp_def)
  ultimately show ?thesis using w(1) L(1) by auto
qed

end
