(* ===== verification/Directory_Ops.thy ===== *)
theory Directory_Ops
  imports Handle_Ops Object_Trim
begin

text \<open>
  Directories (\<^verbatim>\<open>src/src/object_store/directory.rs\<close>): the map from names to objects that a store keeps in
  the child records of a directory object, and the operations that add, move and remove children in a
  transaction.

  The store that owns a directory is an argument of every operation. \<^verbatim>\<open>Timestamp::now\<close> is the argument
  \<open>now\<close>, and the keys that the crypt service would create are arguments too. A merger's iterator is the
  list of the items it yields. The updater that \<^verbatim>\<open>update_attributes\<close> is passed is a function on items
  that may panic.
\<close>

section \<open>Directories\<close>

record directory =
  d_object_id :: nat
  d_is_deleted :: bool

definition directory_new :: "nat \<Rightarrow> directory" where
  "directory_new oid = \<lparr>d_object_id = oid, d_is_deleted = False\<rparr>"

definition set_deleted :: "directory \<Rightarrow> directory" where
  "set_deleted self = self\<lparr>d_is_deleted := True\<rparr>"

definition dir_create ::
  "(unwrapped_key \<Rightarrow> block_cipher) \<Rightarrow> wrapped_key \<times> unwrapped_key \<Rightarrow> timestamp \<Rightarrow> object_store \<Rightarrow> transaction \<Rightarrow>
   (directory \<times> object_store \<times> transaction) res" where
  "dir_create aes id_key now s txn =
     bind_res (get_next_object_id aes id_key s) (\<lambda>(oid, s).
     bind_res (txn_add (os_store_object_id s)
                 (insert_object (object_key_object oid)
                    (VObject (Directory 0) \<lparr>creation_time = now, modification_time = now\<rparr>)) txn) (\<lambda>(_, txn).
       Inr (directory_new oid, s, txn)))"

definition dir_open :: "nat \<Rightarrow> nat \<Rightarrow> object_store \<Rightarrow> directory res" where
  "dir_open fuel oid s =
     bind_res (store_find fuel (object_key_object oid) s) (\<lambda>found.
       case found of
         None \<Rightarrow> Inl (Fxfs NotFound)
       | Some i \<Rightarrow>
           (case value i of
              VObject (Directory _) _ \<Rightarrow> Inr (directory_new oid)
            | VNone \<Rightarrow> Inl (Fxfs NotFound)
            | _ \<Rightarrow> Inl (Fxfs NotDir)))"

section \<open>Iteration\<close>

record dir_iter =
  di_object_id :: nat
  di_iter :: "encryption_keys object_item list"

definition skip_deleted :: "nat \<Rightarrow> 'wk object_item list \<Rightarrow> 'wk object_item list" where
  "skip_deleted oid = dropWhile (\<lambda>i. object_id (key i) = oid \<and> value i = VNone)"

definition dir_iter_from :: "nat \<Rightarrow> string \<Rightarrow> object_store \<Rightarrow> directory \<Rightarrow> dir_iter res" where
  "dir_iter_from fuel from_name s self =
     bind_res (ensure (\<not> d_is_deleted self) (Fxfs Deleted)) (\<lambda>_.
     bind_res (object_iter fuel (os_tree s) (object_key_child (d_object_id self) from_name)) (\<lambda>items.
       Inr \<lparr>di_object_id = d_object_id self, di_iter = skip_deleted (d_object_id self) items\<rparr>))"

definition dir_iter_all :: "nat \<Rightarrow> object_store \<Rightarrow> directory \<Rightarrow> dir_iter res" where
  "dir_iter_all fuel s self = dir_iter_from fuel [] s self"

definition dir_iter_get :: "dir_iter \<Rightarrow> (string \<times> nat \<times> object_descriptor) option" where
  "dir_iter_get self =
     (case di_iter self of
        [] \<Rightarrow> None
      | i # _ \<Rightarrow>
          (case (data (key i), value i) of
             (Child name, VChild oid descriptor) \<Rightarrow>
               if object_id (key i) = di_object_id self then Some (name, oid, descriptor) else None
           | _ \<Rightarrow> None))"

definition dir_iter_advance :: "dir_iter \<Rightarrow> dir_iter" where
  "dir_iter_advance self = self\<lparr>di_iter := skip_deleted (di_object_id self) (tl (di_iter self))\<rparr>"

definition has_children :: "nat \<Rightarrow> object_store \<Rightarrow> directory \<Rightarrow> bool res" where
  "has_children fuel s self =
     (if d_is_deleted self then Inr False
      else bind_res (dir_iter_all fuel s self) (\<lambda>iter. Inr (dir_iter_get iter \<noteq> None)))"

definition dir_lookup :: "nat \<Rightarrow> string \<Rightarrow> object_store \<Rightarrow> directory \<Rightarrow> (nat \<times> object_descriptor) option res" where
  "dir_lookup fuel name s self =
     (if d_is_deleted self then Inr None
      else
        bind_res (store_find fuel (object_key_child (d_object_id self) name) s) (\<lambda>found.
          case found of
            None \<Rightarrow> Inr None
          | Some i \<Rightarrow>
              (case value i of
                 VNone \<Rightarrow> Inr None
               | VChild oid descriptor \<Rightarrow> Inr (Some (oid, descriptor))
               | _ \<Rightarrow> Inl (Fxfs Inconsistent))))"

section \<open>Attributes\<close>

definition set_times :: "timestamp option \<Rightarrow> timestamp option \<Rightarrow> object_attributes \<Rightarrow> object_attributes" where
  "set_times crtime mtime attrs =
     (let attrs = (case crtime of Some t \<Rightarrow> attrs\<lparr>creation_time := t\<rparr> | None \<Rightarrow> attrs)
      in case mtime of Some t \<Rightarrow> attrs\<lparr>modification_time := t\<rparr> | None \<Rightarrow> attrs)"

definition dir_update_attributes ::
  "nat \<Rightarrow> timestamp option \<Rightarrow> timestamp option \<Rightarrow> (encryption_keys object_item \<Rightarrow> encryption_keys object_item res) \<Rightarrow>
   object_store \<Rightarrow> directory \<Rightarrow> transaction \<Rightarrow> transaction res" where
  "dir_update_attributes fuel crtime mtime updater s self txn =
     bind_res (ensure (\<not> d_is_deleted self) (Fxfs Deleted)) (\<lambda>_.
     bind_res
       (case get_object_mutation (os_store_object_id s) (object_key_object (d_object_id self)) txn of
          Some m \<Rightarrow> Inr (osm_item m)
        | None \<Rightarrow>
            bind_res (store_find fuel (object_key_object (d_object_id self)) s) (\<lambda>found.
              case found of None \<Rightarrow> Inl (Fxfs NotFound) | Some i \<Rightarrow> Inr i)) (\<lambda>i.
     bind_res
       (case value i of
          VObject kind attrs \<Rightarrow> Inr (i\<lparr>value := VObject kind (set_times crtime mtime attrs)\<rparr>)
        | _ \<Rightarrow> Inl (Fxfs Inconsistent)) (\<lambda>i.
     bind_res (updater i) (\<lambda>i.
     bind_res (txn_add (os_store_object_id s) (replace_or_insert_object (key i) (value i)) txn) (\<lambda>(_, txn).
       Inr txn)))))"

text \<open>The updaters that count sub-directories: the counter saturates; anything but a directory panics.\<close>

definition add_sub_dirs :: "int \<Rightarrow> encryption_keys object_item \<Rightarrow> encryption_keys object_item res" where
  "add_sub_dirs delta i =
     (case value i of
        VObject (Directory n) attrs \<Rightarrow> Inr (i\<lparr>value := VObject (Directory (adjusted_count n delta)) attrs\<rparr>)
      | _ \<Rightarrow> Inl Panic)"

definition dir_get_properties :: "nat \<Rightarrow> object_store \<Rightarrow> directory \<Rightarrow> object_properties res" where
  "dir_get_properties fuel s self =
     bind_res (store_find fuel (object_key_object (d_object_id self)) s) (\<lambda>found.
       case found of
         None \<Rightarrow> Inl (Fxfs NotFound)
       | Some i \<Rightarrow>
           (case value i of
              VObject (Directory n) attrs \<Rightarrow>
                Inr \<lparr>op_refs = 1, op_allocated_size = 0, op_data_attribute_size = 0,
                     op_creation_time = creation_time attrs, op_modification_time = modification_time attrs,
                     op_sub_dirs = n\<rparr>
            | _ \<Rightarrow> Inl (Fxfs Inconsistent)))"

section \<open>Adding and removing children\<close>

definition insert_child ::
  "nat \<Rightarrow> timestamp \<Rightarrow> string \<Rightarrow> nat \<Rightarrow> object_descriptor \<Rightarrow> object_store \<Rightarrow> directory \<Rightarrow> transaction \<Rightarrow> transaction res" where
  "insert_child fuel now name oid descriptor s self txn =
     bind_res (ensure (\<not> d_is_deleted self) (Fxfs Deleted)) (\<lambda>_.
     bind_res (txn_add (os_store_object_id s)
                 (replace_or_insert_object (object_key_child (d_object_id self) name) (VChild oid descriptor)) txn) (\<lambda>(_, txn).
       dir_update_attributes fuel None (Some now) Inr s self txn))"

definition create_child_dir ::
  "nat \<Rightarrow> (unwrapped_key \<Rightarrow> block_cipher) \<Rightarrow> wrapped_key \<times> unwrapped_key \<Rightarrow> timestamp \<Rightarrow> string \<Rightarrow> object_store \<Rightarrow> directory \<Rightarrow>
   transaction \<Rightarrow> (directory \<times> object_store \<times> transaction) res" where
  "create_child_dir fuel aes id_key now name s self txn =
     bind_res (ensure (\<not> d_is_deleted self) (Fxfs Deleted)) (\<lambda>_.
     bind_res (dir_create aes id_key now s txn) (\<lambda>(handle, s, txn).
     bind_res (txn_add (os_store_object_id s)
                 (replace_or_insert_object (object_key_child (d_object_id self) name)
                    (VChild (d_object_id handle) DirectoryDescriptor)) txn) (\<lambda>(_, txn).
     bind_res (dir_update_attributes fuel None (Some now) (add_sub_dirs 1) s self txn) (\<lambda>txn.
       Inr (handle, s, txn)))))"

definition add_child_file ::
  "nat \<Rightarrow> timestamp \<Rightarrow> string \<Rightarrow> nat \<Rightarrow> object_store \<Rightarrow> directory \<Rightarrow> transaction \<Rightarrow> transaction res" where
  "add_child_file fuel now name handle s self txn =
     bind_res (ensure (\<not> d_is_deleted self) (Fxfs Deleted)) (\<lambda>_.
     bind_res (txn_add (os_store_object_id s)
                 (replace_or_insert_object (object_key_child (d_object_id self) name) (VChild handle FileDescriptor)) txn) (\<lambda>(_, txn).
       dir_update_attributes fuel None (Some now) Inr s self txn))"

definition create_child_file ::
  "nat \<Rightarrow> (unwrapped_key \<Rightarrow> block_cipher) \<Rightarrow> wrapped_key \<times> unwrapped_key \<Rightarrow> timestamp \<Rightarrow> wrapped_key \<Rightarrow> string \<Rightarrow> object_store \<Rightarrow>
   directory \<Rightarrow> transaction \<Rightarrow> (nat \<times> object_store \<times> transaction) res" where
  "create_child_file fuel aes id_key now data_key name s self txn =
     bind_res (ensure (\<not> d_is_deleted self) (Fxfs Deleted)) (\<lambda>_.
     bind_res (create_object_with_id aes id_key now data_key None 0 s txn) (\<lambda>(handle, s, txn).
     bind_res (add_child_file fuel now name handle s self txn) (\<lambda>txn.
       Inr (handle, s, txn))))"

definition add_child_volume ::
  "nat \<Rightarrow> timestamp \<Rightarrow> string \<Rightarrow> nat \<Rightarrow> object_store \<Rightarrow> directory \<Rightarrow> transaction \<Rightarrow> transaction res" where
  "add_child_volume fuel now volume_name store_object_id s self txn =
     bind_res (ensure (\<not> d_is_deleted self) (Fxfs Deleted)) (\<lambda>_.
     bind_res (txn_add (os_store_object_id s)
                 (replace_or_insert_object (object_key_child (d_object_id self) volume_name)
                    (VChild store_object_id VolumeDescriptor)) txn) (\<lambda>(_, txn).
       dir_update_attributes fuel None (Some now) Inr s self txn))"

definition delete_child_volume ::
  "string \<Rightarrow> nat \<Rightarrow> object_store \<Rightarrow> directory \<Rightarrow> transaction \<Rightarrow> transaction res" where
  "delete_child_volume volume_name store_object_id s self txn =
     bind_res (ensure (\<not> d_is_deleted self) (Fxfs Deleted)) (\<lambda>_.
     bind_res (txn_add (os_store_object_id s)
                 (replace_or_insert_object (object_key_child (d_object_id self) volume_name) VNone) txn) (\<lambda>(_, txn).
     bind_res (txn_add store_object_id DeleteVolume txn) (\<lambda>(_, txn).
       Inr txn)))"

section \<open>Moving and removing\<close>

datatype replaced_child =
    ReplacedNone
  | ReplacedFile nat
  | FileWithRemainingLinks nat
  | ReplacedDirectory nat

definition remove_object :: "object_store \<Rightarrow> nat \<Rightarrow> transaction \<Rightarrow> transaction res" where
  "remove_object s oid txn =
     bind_res (txn_add (os_store_object_id s) (merge_object (object_key_object oid) VNone) txn) (\<lambda>(_, txn). Inr txn)"

text \<open>
  What becomes of the child that the destination has: the result, the change of the number of
  sub-directories of the destination, the transaction.
\<close>

definition replace_old_child ::
  "nat \<Rightarrow> bool \<Rightarrow> (nat \<times> object_descriptor) option \<Rightarrow> object_store \<Rightarrow> transaction \<Rightarrow> (replaced_child \<times> int \<times> transaction) res" where
  "replace_old_child fuel has_src old s txn =
     (case old of
        Some (old_id, FileDescriptor) \<Rightarrow>
          bind_res (adjust_refs fuel old_id (- 1) s txn) (\<lambda>(was_last_ref, txn).
            Inr (if was_last_ref then ReplacedFile old_id else FileWithRemainingLinks old_id, 0, txn))
      | Some (old_id, DirectoryDescriptor) \<Rightarrow>
          bind_res (dir_open fuel old_id s) (\<lambda>dir.
          bind_res (has_children fuel s dir) (\<lambda>b.
          bind_res (ensure (\<not> b) (Fxfs NotEmpty)) (\<lambda>_.
          bind_res (remove_object s old_id txn) (\<lambda>txn.
            Inr (ReplacedDirectory old_id, - 1, txn)))))
      | Some (_, VolumeDescriptor) \<Rightarrow> Inl (Fxfs Inconsistent)
      | None \<Rightarrow> bind_res (ensure has_src (Fxfs NotFound)) (\<lambda>_. Inr (ReplacedNone, 0, txn)))"

text \<open>The child that is taken out of the source: the value it has there.\<close>

definition take_src_child ::
  "nat \<Rightarrow> timestamp \<Rightarrow> (directory \<times> string) option \<Rightarrow> directory \<Rightarrow> int \<Rightarrow> object_store \<Rightarrow> transaction \<Rightarrow>
   (encryption_keys object_value \<times> int \<times> transaction) res" where
  "take_src_child fuel now src dst_dir sub_dirs_delta s txn =
     (case src of
        None \<Rightarrow> Inr (VNone, sub_dirs_delta, txn)
      | Some (src_dir, src_name) \<Rightarrow>
          bind_res (txn_add (os_store_object_id s)
                      (replace_or_insert_object (object_key_child (d_object_id src_dir) src_name) VNone) txn) (\<lambda>(_, txn).
          bind_res (dir_lookup fuel src_name s src_dir) (\<lambda>found.
          case found of
            None \<Rightarrow> Inl (Fxfs NotFound)
          | Some (oid, descriptor) \<Rightarrow>
              if d_object_id src_dir \<noteq> d_object_id dst_dir
              then
                let moved = (descriptor = DirectoryDescriptor) in
                bind_res (dir_update_attributes fuel None (Some now) (if moved then add_sub_dirs (- 1) else Inr) s src_dir txn) (\<lambda>txn.
                  Inr (VChild oid descriptor, if moved then sub_dirs_delta + 1 else sub_dirs_delta, txn))
              else Inr (VChild oid descriptor, sub_dirs_delta, txn))))"

definition replace_child ::
  "nat \<Rightarrow> timestamp \<Rightarrow> (directory \<times> string) option \<Rightarrow> directory \<times> string \<Rightarrow> object_store \<Rightarrow> transaction \<Rightarrow>
   (replaced_child \<times> transaction) res" where
  "replace_child fuel now src dst s txn =
     bind_res (dir_lookup fuel (snd dst) s (fst dst)) (\<lambda>old.
     bind_res (replace_old_child fuel (src \<noteq> None) old s txn) (\<lambda>(result, sub_dirs_delta, txn).
     bind_res (take_src_child fuel now src (fst dst) sub_dirs_delta s txn) (\<lambda>(new_value, sub_dirs_delta, txn).
     bind_res (txn_add (os_store_object_id s)
                 (replace_or_insert_object (object_key_child (d_object_id (fst dst)) (snd dst)) new_value) txn) (\<lambda>(_, txn).
     bind_res (dir_update_attributes fuel None (Some now)
                 (if sub_dirs_delta \<noteq> 0 then add_sub_dirs sub_dirs_delta else Inr) s (fst dst) txn) (\<lambda>txn.
       Inr (result, txn))))))"

end
