(* ===== verification/Record_Store.thy ===== *)
theory Record_Store
  imports Object_Trim
begin

text \<open>
  The records of an object store (its items that are not extents) as a map from keys to values: looking a
  key up reads the map, and replacing or inserting a record updates it at one key. A transaction that
  only replaces records is, once committed, the update of the map at the keys of its mutations.
\<close>

section \<open>Records of a layer\<close>

definition record_key :: "object_key \<Rightarrow> bool" where
  "record_key k = (case data k of Attribute _ (Extent _) \<Rightarrow> False | _ \<Rightarrow> True)"

lemma record_key_not_extent: "record_key k \<longleftrightarrow> \<not> (\<exists>a e. data k = Attribute a (Extent e))"
  by (auto simp: record_key_def split: object_key_data.splits attribute_key.splits)

lemma record_key_simps [simp]:
  "record_key (object_key_child oid name)" "record_key (object_key_object oid)"
  "record_key (object_key_graveyard_entry g oid)"
  by (simp_all add: record_key_def object_key_child_def object_key_object_def object_key_graveyard_entry_def)

lemma record_hi: "record_key k \<Longrightarrow> key_hi k = key_lo k @ [0]"
  by (auto simp: record_key_def key_hi_def key_lo_def split: object_key_data.splits attribute_key.splits)

lemma record_same: "record_key k \<Longrightarrow> record_key l \<Longrightarrow> key_lo k = key_lo l \<longleftrightarrow> k = l"
  using record_covers [of k l] by (auto simp: record_key_not_extent record_hi)

lemma record_point: "xs \<le> p \<and> p < xs @ [0] \<longleftrightarrow> p = xs" for xs p :: "nat list"
  using snoc_zero_le [of xs p] by (auto simp: le_less)

lemma record_at:
  assumes "record_key (key i)"
  shows "item_at (object_sem bs) i p = (if p = key_lo (key i) then Some (Record (value i)) else None)"
proof -
  have "object_val bs i p = Record (value i)"
    using assms by (auto simp: object_val_def record_key_def split: object_key_data.splits attribute_key.splits)
  then show ?thesis using record_hi [OF assms] record_point [of "key_lo (key i)" p] by (auto simp: item_at_def)
qed

lemma outside_record:
  assumes "record_key k" "object_ok bs j"
  shows "outside_bound object_ops (Included k) (key j) \<longleftrightarrow> key_hi (key j) \<le> key_lo k"
proof -
  have "object_search k"
    using assms(1) by (auto simp: record_key_def object_search_def split: object_key_data.splits attribute_key.splits)
  from search_upper [OF this assms(2)] show ?thesis
    using assms(1) by (simp add: search_point_record record_key_not_extent object_ops_def outside_bound_def)
qed

lemma record_split:
  assumes "layer_ok (object_sem bs) l" "record_key k"
  obtains bef aft where "l = bef @ aft" "iter_mut_new object_ops l k = (rev bef, aft)"
    "\<forall>j \<in> set bef. key_hi (key j) \<le> key_lo k"
    "\<forall>j \<in> set aft. key_lo k < key_lo (key j) \<or> j = hd aft \<and> key j = k"
proof -
  define out where "out = (\<lambda>i :: 'a object_item. outside_bound object_ops (Included k) (key i))"
  define bef aft where "bef = takeWhile out l" and "aft = dropWhile out l"
  have l: "l = bef @ aft" by (simp add: bef_def aft_def)
  have okj: "object_ok bs j" if "j \<in> set l" for j using layer_ok_ok [OF assms(1) that] by simp
  have bef: "\<forall>j \<in> set bef. key_hi (key j) \<le> key_lo k"
    using outside_record [OF assms(2)] okj set_takeWhileD unfolding bef_def out_def by fastforce
  have aft: "\<forall>j \<in> set aft. key_lo k < key_lo (key j) \<or> j = hd aft \<and> key j = k"
  proof (cases aft)
    case (Cons x xs)
    have "\<not> out x" using Cons hd_dropWhile [of out l] by (auto simp: aft_def)
    moreover have "object_ok bs x" using okj [of x] l Cons by simp
    ultimately have hi: "key_lo k < key_hi (key x)" using outside_record [OF assms(2), of bs x] by (simp add: out_def not_le)
    have later: "key_lo k < key_lo (key j)" if "j \<in> set xs" for j
      using assms(1) hi that by (force simp: l Cons layer_ok_append list_all_iff)
    have "key_lo k < key_lo (key x) \<or> key x = k"
      using record_covers [of "key x" k] hi assms(2) by (auto simp: record_key_not_extent intro: leI)
    with later show ?thesis by (auto simp: Cons)
  qed simp
  show thesis by (rule that [OF l _ bef aft]) (simp add: iter_mut_new_def bef_def aft_def out_def)
qed

lemma record_before:
  assumes "record_key k" "key_lo k < key_lo l"
  shows "key_hi k \<le> key_lo l"
  using assms snoc_zero_le by (simp add: record_hi)

lemma replace_or_insert_record:
  assumes "layer_ok (object_sem bs) l" "object_ok bs i" "record_key (key i)"
  shows "layer_ok (object_sem bs) (skip_list_replace_or_insert object_ops l i) \<and>
    layer_at (object_sem bs) (skip_list_replace_or_insert object_ops l i) p =
      (if p = key_lo (key i) then Some (Record (value i)) else layer_at (object_sem bs) l p)"
proof -
  from record_split [OF assms(1,3)] obtain bef aft where
    l: "l = bef @ aft" and it: "iter_mut_new object_ops l (key i) = (rev bef, aft)"
    and bef: "\<forall>j \<in> set bef. key_hi (key j) \<le> key_lo (key i)"
    and aft: "\<forall>j \<in> set aft. key_lo (key i) < key_lo (key j) \<or> j = hd aft \<and> key j = key i" .
  define rest where "rest = (if aft \<noteq> [] \<and> key (hd aft) = key i then tl aft else aft)"
  have new: "skip_list_replace_or_insert object_ops l i = bef @ i # rest"
    unfolding skip_list_replace_or_insert_def it rest_def by (cases aft) simp_all
  have oks: "layer_ok (object_sem bs) bef" "layer_ok (object_sem bs) aft" "layer_ok (object_sem bs) rest"
    using assms(1) by (auto simp: l layer_ok_append rest_def neq_Nil_conv)
  have after: "key_hi (key i) \<le> key_lo (key j)" if "j \<in> set rest" for j
  proof -
    have "key_lo (key i) < key_lo (key j)"
    proof (cases "aft \<noteq> [] \<and> key (hd aft) = key i")
      case True
      then obtain x xs where x: "aft = x # xs" "key x = key i" by (cases aft) auto
      have "key_hi (key x) \<le> key_lo (key j)" using oks(2) that x by (simp add: rest_def list_all_iff)
      moreover have "key_lo (key x) < key_hi (key x)" using record_hi [OF assms(3)] x by simp
      ultimately show ?thesis using x by simp
    next
      case False
      then show ?thesis using aft that by (auto simp: rest_def split: if_splits)
    qed
    then show ?thesis by (rule record_before [OF assms(3)])
  qed
  have "set rest \<subseteq> set aft" by (auto simp: rest_def dest: list.set_sel(2))
  then have across: "\<forall>x \<in> set bef. \<forall>y \<in> set rest. key_hi (key x) \<le> key_lo (key y)"
    using assms(1) by (auto simp: l layer_ok_append)
  have okl: "layer_ok (object_sem bs) (bef @ i # rest)"
    using oks assms(2) bef after across by (simp add: layer_ok_append list_all_iff)
  have at: "layer_at (object_sem bs) (bef @ i # rest) p =
      (if p = key_lo (key i) then Some (Record (value i)) else layer_at (object_sem bs) l p)"
  proof (cases "p = key_lo (key i)")
    case True
    have "layer_at (object_sem bs) bef p = None" using bef by (auto simp: layer_at_None_iff item_at_def True)
    then show ?thesis using True by (simp add: layer_at_append record_at [OF assms(3)])
  next
    case False
    have "layer_at (object_sem bs) aft p = layer_at (object_sem bs) rest p"
      using False record_at [of "hd aft" bs p] assms(3) by (cases aft) (auto simp: rest_def)
    moreover have "layer_at (object_sem bs) (i # rest) p = layer_at (object_sem bs) rest p"
      using False by (simp add: record_at [OF assms(3)])
    ultimately show ?thesis using False by (simp only: l layer_at_append if_False)
  qed
  show ?thesis unfolding new using okl at by simp
qed

section \<open>Records of a store\<close>

definition store_record :: "object_store \<Rightarrow> object_key \<Rightarrow> encryption_keys object_value option" where
  "store_record s k =
     (if record_key k
      then case layers_at (object_sem (os_block_size s)) (layer_set (os_tree s)) (key_lo k) of
             Some (Record v) \<Rightarrow> Some v
           | _ \<Rightarrow> None
      else None)"

text \<open>
  The layers are in order, without tombstones, the blocks have a size, and the store can be written to.
\<close>

definition store_ok :: "object_store \<Rightarrow> bool" where
  "store_ok s \<longleftrightarrow>
     0 < os_block_size s \<and> \<not> is_locked s \<and>
     (\<forall>l \<in> set (layer_set (os_tree s)). layer_ok (object_sem (os_block_size s)) l)"

definition find_fuel :: "object_store \<Rightarrow> nat" where
  "find_fuel s = Suc (seek_fuel (object_sem (os_block_size s)) (layer_set (os_tree s)))"

lemma store_find_record:
  assumes "store_ok s" "record_key k" "find_fuel s \<le> fuel"
  shows "\<exists>r. store_find fuel k s = Inr r \<and> map_option value r = store_record s k \<and> (\<forall>i. r = Some i \<longrightarrow> key i = k)"
proof -
  from find_record [of k "os_tree s" "os_block_size s" fuel] assms obtain r where
    "find fuel object_ops object_merge k (os_tree s) = Inr r" "\<forall>i. r = Some i \<longrightarrow> key i = k"
    "map_option (\<lambda>i. Record (value i)) r = layers_at (object_sem (os_block_size s)) (layer_set (os_tree s)) (key_lo k)"
    by (auto simp: store_ok_def find_fuel_def record_key_not_extent)
  then show ?thesis using assms(2) by (cases r) (auto simp: store_find_def store_record_def dest!: sym [of "Some _"])
qed

text \<open>Iterating yields the records in the order of their keys, each as a lookup finds it.\<close>

lemma iterates_records:
  assumes "iterates (object_sem bs) L b es" "record_key k" "b \<le> key_lo k"
  shows "(\<exists>i \<in> set es. key i = k \<and> value i = v) \<longleftrightarrow> layers_at (object_sem bs) L (key_lo k) = Some (Record v)"
  using assms(1,3)
proof (induction es arbitrary: b)
  case (Cons e es)
  have e: "object_ok bs e" "b < key_hi (key e)" and rest: "iterates (object_sem bs) L (key_hi (key e)) es" using Cons.prems by auto
  have later: "key_hi (key e) < key_hi (key i)" if "i \<in> set es" for i using iterates_his [OF rest that] by simp
  show ?case
  proof (cases "key_lo k < key_hi (key e)")
    case True
    then have at: "layers_at (object_sem bs) L (key_lo k) = item_at (object_sem bs) e (key_lo k)" using Cons.prems by simp
    show ?thesis
    proof (cases "key e = k")
      case True
      then have "key i \<noteq> k" if "i \<in> set es" for i using later [OF that] by auto
      then show ?thesis using True at record_at [of e bs] assms(2) by auto
    next
      case False
      then have "key_lo k < key_lo (key e)"
        using record_covers [of "key e" k] True assms(2) by (auto simp: record_key_not_extent intro: leI)
      then have "key_hi k \<le> key_lo (key e)" "item_at (object_sem bs) e (key_lo k) = None"
        using record_before [OF assms(2)] by (auto simp: item_at_def)
      moreover have "key i \<noteq> k" if "i \<in> set es" for i
        using later [OF that] calculation(1) object_ok_nonempty [OF e(1)] by auto
      ultimately show ?thesis using at False by auto
    qed
  next
    case False
    then have "key e \<noteq> k" using record_hi [OF assms(2)] by auto
    then show ?thesis using Cons.IH [OF rest] False by auto
  qed
qed simp

lemma store_iterates_records:
  assumes "store_ok s" "record_key k" "find_fuel s \<le> fuel"
  obtains es where "object_iter fuel (os_tree s) k = Inr es"
    "sorted_wrt (\<lambda>i j. key_hi (key i) < key_hi (key j)) es" "\<forall>i \<in> set es. key_lo k < key_hi (key i)"
    "\<And>l v. record_key l \<Longrightarrow> key_lo k \<le> key_lo l \<Longrightarrow> (\<exists>i \<in> set es. key i = l \<and> value i = v) \<longleftrightarrow> store_record s l = Some v"
proof -
  let ?S = "object_sem (os_block_size s)"
  have "object_search k"
    using assms(2) by (auto simp: record_key_def object_search_def split: object_key_data.splits attribute_key.splits)
  from object_iter_correct [OF this, of "os_tree s" "os_block_size s" fuel] assms obtain es where
    es: "object_iter fuel (os_tree s) k = Inr es" "iterates ?S (layer_set (os_tree s)) (key_lo k) es"
    by (auto simp: store_ok_def find_fuel_def search_point_record record_key_not_extent)
  have at: "layers_at ?S (layer_set (os_tree s)) (key_lo l) = Some (Record v) \<longleftrightarrow> store_record s l = Some v" if "record_key l" for l v
    using that by (auto simp: store_record_def split: option.splits meaning.splits)
  show thesis
    by (rule that [OF es(1)])
       (use iterates_sorted [OF es(2)] iterates_his [OF es(2)] iterates_records [OF es(2)] at in auto)
qed

section \<open>Committing records\<close>

text \<open>
  A mutation that replaces a record of the store: it becomes a single update of the map of records.
\<close>

definition replaces :: "nat \<Rightarrow> txn_mutation \<Rightarrow> bool" where
  "replaces sid t \<longleftrightarrow>
     tm_object_id t = sid \<and>
     (case tm_mutation t of
        ObjectStoreM om \<Rightarrow> osm_op om = OpReplaceOrInsert \<and> record_key (key (osm_item om)) \<and> \<not> is_tombstone (osm_item om)
      | _ \<Rightarrow> False)"

definition tm_item :: "txn_mutation \<Rightarrow> encryption_keys object_item" where
  "tm_item t = (case tm_mutation t of ObjectStoreM om \<Rightarrow> osm_item om | _ \<Rightarrow> item_new (object_key_object 0) VNone)"

fun apply_all :: "('t \<Rightarrow> 's \<Rightarrow> 's res) \<Rightarrow> 't list \<Rightarrow> 's \<Rightarrow> 's res" where
  "apply_all f [] s = Inr s"
| "apply_all f (t # ts) s = bind_res (f t s) (apply_all f ts)"

locale record_map =
  fixes usable :: "'s \<Rightarrow> bool" and lookup :: "'s \<Rightarrow> 'k \<Rightarrow> 'v option"
    and update :: "'t \<Rightarrow> 's \<Rightarrow> 's res" and fits :: "'t \<Rightarrow> bool" and key_of :: "'t \<Rightarrow> 'k" and value_of :: "'t \<Rightarrow> 'v"
  assumes update_law: "usable s \<Longrightarrow> fits t \<Longrightarrow>
    \<exists>s'. update t s = Inr s' \<and> usable s' \<and> lookup s' = (lookup s)(key_of t \<mapsto> value_of t)"
begin

lemma apply_all_lookup:
  assumes "usable s" "\<forall>t \<in> set ts. fits t"
  shows "\<exists>s'. apply_all update ts s = Inr s' \<and> usable s' \<and> lookup s' = lookup s ++ map_of (rev (map (\<lambda>t. (key_of t, value_of t)) ts))"
  using assms
proof (induction ts arbitrary: s)
  case (Cons t ts)
  from update_law [of s t] Cons.prems obtain s1 where
    s1: "update t s = Inr s1" "usable s1" "lookup s1 = (lookup s)(key_of t \<mapsto> value_of t)" by auto
  from Cons.IH [OF s1(2)] Cons.prems obtain s' where s': "apply_all update ts s1 = Inr s'" "usable s'"
    "lookup s' = lookup s1 ++ map_of (rev (map (\<lambda>t. (key_of t, value_of t)) ts))" by auto
  have "lookup s' = lookup s ++ map_of (rev (map (\<lambda>t. (key_of t, value_of t)) (t # ts)))"
    unfolding s'(3) s1(3) by (simp add: fun_eq_iff map_add_def split: option.splits)
  with s' s1(1) show ?case by simp
qed simp

end

lemma store_apply_replace:
  assumes "store_ok s" "replaces (os_store_object_id s) t"
  shows "\<exists>s'. store_apply_mutation fuel cp (tm_mutation t) (Live r) s = Inr s' \<and>
    store_ok s' \<and> os_store_object_id s' = os_store_object_id s \<and> os_store_info s' = os_store_info s \<and>
    store_record s' = (store_record s)(key (tm_item t) \<mapsto> value (tm_item t))"
proof -
  let ?bs = "os_block_size s"
  from assms(2) obtain om where om: "tm_mutation t = ObjectStoreM om" "osm_op om = OpReplaceOrInsert"
    "record_key (key (osm_item om))" "\<not> is_tombstone (osm_item om)"
    by (auto simp: replaces_def split: mutation.splits)
  define i where "i = (osm_item om)\<lparr>sequence := file_offset cp\<rparr>"
  have i: "record_key (key i)" "key i = key (osm_item om)" "value i = value (osm_item om)" using om(3) by (simp_all add: i_def)
  have "object_ok ?bs i"
    using i om(4) assms(1) by (auto simp: object_ok_def is_tombstone_def store_ok_def record_key_def
        split: object_key_data.splits attribute_key.splits)
  note new = replace_or_insert_record [OF _ this i(1)]
  define s' where "s' = s\<lparr>os_tree := tree_replace_or_insert object_ops i (os_tree s)\<rparr>"
  have "store_apply_mutation fuel cp (tm_mutation t) (Live r) s = Inr s'"
    using om(1,2) assms(1)
    by (auto simp: store_apply_mutation_def apply_object_mutation_def lock_state_allows_def store_ok_def is_locked_def
        is_live_def s'_def i_def split: store_lock_state.splits)
  moreover have "store_ok s'"
    using assms(1) new by (simp add: store_ok_def s'_def is_locked_def layer_set_def tree_replace_or_insert_def)
  moreover have "store_record s' k = ((store_record s)(key i \<mapsto> value i)) k" for k
    using assms(1) new i record_same [of k "key i"]
    by (auto simp: store_record_def s'_def layer_set_def tree_replace_or_insert_def store_ok_def)
  ultimately show ?thesis using om(1) i by (auto simp: s'_def tm_item_def)
qed

interpretation records: record_map "\<lambda>s. store_ok s \<and> os_store_object_id s = sid \<and> os_store_info s = sinfo" store_record
  "\<lambda>t. store_apply_mutation fuel cp (tm_mutation t) (Live r)" "replaces sid" "\<lambda>t. key (tm_item t)" "\<lambda>t. value (tm_item t)"
  by unfold_locales (use store_apply_replace in auto)

lemma commit_each_apply_all:
  assumes "\<forall>t \<in> set ts. tm_object_id t = os_store_object_id s" "os_store_object_id s \<noteq> alloc_object_id a"
    and "apply_all (\<lambda>t. store_apply_mutation fuel cp (tm_mutation t) (Live r)) ts s = Inr s'"
  shows "commit_each fuel cp ts r s a = Inr (s', a, r)"
  using assms
proof (induction ts arbitrary: s)
  case (Cons t ts)
  then obtain s1 where s1: "store_apply_mutation fuel cp (tm_mutation t) (Live r) s = Inr s1"
    "apply_all (\<lambda>t. store_apply_mutation fuel cp (tm_mutation t) (Live r)) ts s1 = Inr s'"
    by (auto simp: bind_res_eq_Inr)
  have "os_store_object_id s1 = os_store_object_id s" by (rule store_apply_id [OF s1(1)])
  then show ?case using Cons.IH [OF _ _ s1(2)] Cons.prems(1,2) s1(1) by simp
qed simp

text \<open>What the store will hold once the transaction is committed.\<close>

definition txn_record :: "object_store \<Rightarrow> transaction \<Rightarrow> object_key \<Rightarrow> encryption_keys object_value option" where
  "txn_record s txn k =
     (case get_object_mutation (os_store_object_id s) k txn of
        Some m \<Rightarrow> Some (value (osm_item m))
      | None \<Rightarrow> store_record s k)"

definition replaces_only :: "nat \<Rightarrow> transaction \<Rightarrow> bool" where
  "replaces_only sid txn \<longleftrightarrow> txn_ok txn \<and> (\<forall>t \<in> set (mutations txn). replaces sid t)"

lemma txn_record_empty: "mutations txn = [] \<Longrightarrow> txn_record s txn = store_record s"
  by (auto simp: txn_record_def get_object_mutation_def txn_set.get_simps)

lemma replaces_only_empty: "mutations txn = [] \<Longrightarrow> replaces_only sid txn"
  by (simp add: replaces_only_def txn_ok_def bts_ok_def)

lemma txn_replace:
  assumes "replaces_only (os_store_object_id s) txn" "os_store_object_id s \<noteq> 0" "record_key (key i)" "\<not> is_tombstone i"
  shows "\<exists>old txn'. txn_add (os_store_object_id s) (ObjectStoreM \<lparr>osm_item = i, osm_op = OpReplaceOrInsert\<rparr>) txn = Inr (old, txn') \<and>
    replaces_only (os_store_object_id s) txn' \<and> txn_record s txn' = (txn_record s txn)(key i \<mapsto> value i)"
proof -
  let ?m = "\<lparr>osm_item = i, osm_op = OpReplaceOrInsert\<rparr>"
  obtain old txn' where add: "txn_add (os_store_object_id s) (ObjectStoreM ?m) txn = Inr (old, txn')"
    using assms(2) by (simp add: txn_add_def split_beta)
  have ok: "txn_ok txn" using assms(1) by (simp add: replaces_only_def)
  note spec = txn_add_spec [OF add ok] and wins = txn_add_last_wins [OF ok add]
  have "replaces_only (os_store_object_id s) txn'"
    using assms spec by (auto simp: replaces_only_def replaces_def)
  moreover have "txn_record s txn' = (txn_record s txn)(key i \<mapsto> value i)"
    using wins by (auto simp: txn_record_def fun_eq_iff)
  ultimately show ?thesis using add by blast
qed

lemma replaces_store: "replaces sid t \<Longrightarrow> \<exists>om. tm_mutation t = ObjectStoreM om"
  by (cases "tm_mutation t") (auto simp: replaces_def)

lemma replaces_code:
  assumes "replaces sid t"
  shows "txn_mutation_code \<lparr>tm_object_id = sid, tm_mutation = insert_object k VNone, tm_associated_object = None\<rparr> = txn_mutation_code t \<longleftrightarrow>
    k = key (tm_item t)"
  using assms
  by (auto simp: replaces_def tm_item_def txn_mutation_code_def insert_object_def item_new_def mutation_code_ObjectStoreM
      split: mutation.splits)

lemma mutations_get:
  assumes "\<forall>t \<in> set ms. replaces sid t" "bts_ok txn_mutation_code ms"
  shows "map_of (rev (map (\<lambda>t. (key (tm_item t), value (tm_item t))) ms)) k =
    map_option (\<lambda>t. value (tm_item t)) (bts_get txn_mutation_cmp
      \<lparr>tm_object_id = sid, tm_mutation = insert_object k VNone, tm_associated_object = None\<rparr> ms)"
  using assms
proof (induction ms)
  case (Cons t ms)
  let ?k = "\<lparr>tm_object_id = sid, tm_mutation = insert_object k VNone, tm_associated_object = None\<rparr>"
  have "bts_get txn_mutation_cmp ?k ms = None" if "txn_mutation_code ?k = txn_mutation_code t"
    using Cons.prems(2) that by (intro txn_set.get_None) (auto simp: txn_set.ok_Cons)
  then show ?case
    using Cons.IH Cons.prems replaces_code [of sid t k]
    by (auto simp: txn_set.get_simps txn_set.ok_Cons map_add_def split: option.splits)
qed (simp add: txn_set.get_simps)

lemma mutations_map:
  assumes "replaces_only sid txn"
  shows "map_of (rev (map (\<lambda>t. (key (tm_item t), value (tm_item t))) (mutations txn))) k =
    map_option (\<lambda>m. value (osm_item m)) (get_object_mutation sid k txn)"
proof -
  have "tm_mutation t = ObjectStoreM om \<Longrightarrow> tm_item t = osm_item om" for t om by (simp add: tm_item_def)
  moreover have "\<exists>om. tm_mutation t = ObjectStoreM om"
    if "bts_get txn_mutation_cmp x (mutations txn) = Some t" for x t
    using txn_set.get_Some [OF that] assms replaces_store [of sid t] by (auto simp: replaces_only_def)
  ultimately show ?thesis
    using mutations_get [of "mutations txn" sid k] assms
    by (fastforce simp: replaces_only_def txn_ok_def get_object_mutation_def split: option.splits mutation.splits)
qed

lemma commit_records:
  assumes "store_ok s" "replaces_only (os_store_object_id s) txn" "os_store_object_id s \<noteq> alloc_object_id a"
  shows "\<exists>s' txn'. store_commit fuel cp txn s a = Inr (s', a, txn') \<and> store_ok s' \<and>
    os_store_object_id s' = os_store_object_id s \<and> os_store_info s' = os_store_info s \<and> store_record s' = txn_record s txn"
proof -
  have all: "\<forall>t \<in> set (mutations txn). replaces (os_store_object_id s) t" using assms(2) by (simp add: replaces_only_def)
  obtain s' where s': "apply_all (\<lambda>t. store_apply_mutation fuel cp (tm_mutation t) (Live (txn_reservation txn))) (mutations txn) s = Inr s'"
    "store_ok s'" "os_store_object_id s' = os_store_object_id s" "os_store_info s' = os_store_info s"
    "store_record s' = store_record s ++ map_of (rev (map (\<lambda>t. (key (tm_item t), value (tm_item t))) (mutations txn)))"
    using records.apply_all_lookup [of s "os_store_object_id s" "os_store_info s" "mutations txn" fuel cp "txn_reservation txn"] all assms(1)
    by auto
  have "commit_each fuel cp (mutations txn) (txn_reservation txn) s a = Inr (s', a, txn_reservation txn)"
    using commit_each_apply_all [OF _ assms(3) s'(1)] all by (simp add: replaces_def)
  moreover have "store_record s' = txn_record s txn"
    using s'(5) mutations_map [OF assms(2)] by (auto simp: txn_record_def map_add_def fun_eq_iff split: option.splits)
  ultimately show ?thesis using s' by (auto simp: store_commit_def)
qed

end
