(* ===== verification/Directory_Correct.thy ===== *)
theory Directory_Correct
  imports Directory_Ops Record_Store
begin

text \<open>
  Directories are maps from names to objects: listing a directory agrees with looking its names up,
  and moving a child changes the map at the two names and nowhere else.
\<close>

section \<open>Skipping iterators\<close>

text \<open>
  An iterator that skips deleted items and ends at the first item that it cannot turn into an entry: when
  only such items follow, it yields the entries of all items that are not deleted.
\<close>

fun live_entries :: "('i \<Rightarrow> bool) \<Rightarrow> ('i \<Rightarrow> 'e option) \<Rightarrow> 'i list \<Rightarrow> 'e list" where
  "live_entries deleted pick [] = []"
| "live_entries deleted pick (i # is) =
     (if deleted i then live_entries deleted pick is
      else case pick i of None \<Rightarrow> [] | Some e \<Rightarrow> e # live_entries deleted pick is)"

lemma live_entries_filter:
  assumes "sorted_wrt (\<lambda>i j. \<not> deleted i \<longrightarrow> pick i = None \<longrightarrow> deleted j \<or> pick j = None) is"
  shows "live_entries deleted pick is = List.map_filter (\<lambda>i. if deleted i then None else pick i) is"
  using assms
proof (induction "is")
  case (Cons i "is")
  have "List.map_filter (\<lambda>i. if deleted i then None else pick i) is = []" if "\<not> deleted i" "pick i = None"
    using Cons.prems that by (auto simp: map_filter_def filter_empty_conv)
  then show ?case using Cons by (auto simp: map_filter_simps split: option.splits)
qed (simp add: map_filter_simps)

section \<open>Listing\<close>

lemma dir_advance_shorter:
  assumes "dir_iter_get it = Some e"
  shows "length (di_iter (dir_iter_advance it)) < length (di_iter it)"
proof -
  have "di_iter it \<noteq> []" using assms by (auto simp: dir_iter_get_def)
  then have "length (tl (di_iter it)) < length (di_iter it)" by simp
  moreover have "length (skip_deleted (di_object_id it) (tl (di_iter it))) \<le> length (tl (di_iter it))"
    by (simp only: skip_deleted_def length_dropWhile_le)
  ultimately show ?thesis by (simp add: dir_iter_advance_def)
qed

text \<open>The loop over a directory's iterator that its clients write: what \<^verbatim>\<open>get\<close> returns until it returns nothing.\<close>

function dir_entries :: "dir_iter \<Rightarrow> (string \<times> nat \<times> object_descriptor) list" where
  "dir_entries it =
     (case dir_iter_get it of
        None \<Rightarrow> []
      | Some e \<Rightarrow> e # dir_entries (dir_iter_advance it))"
  by pat_completeness auto
termination
  by (relation "measure (\<lambda>it. length (di_iter it))") (auto intro: dir_advance_shorter)

declare dir_entries.simps [simp del]

definition entry_of :: "nat \<Rightarrow> encryption_keys object_item \<Rightarrow> (string \<times> nat \<times> object_descriptor) option" where
  "entry_of oid i =
     (case (data (key i), value i) of
        (Child name, VChild c descriptor) \<Rightarrow> if object_id (key i) = oid then Some (name, c, descriptor) else None
      | _ \<Rightarrow> None)"

lemma entry_of_iff:
  "entry_of oid i = Some (name, c, descriptor) \<longleftrightarrow> key i = object_key_child oid name \<and> value i = VChild c descriptor"
  by (cases "key i") (auto simp: entry_of_def object_key_child_def split: object_key_data.splits object_value.splits)

lemma dir_entries_Cons:
  "dir_entries \<lparr>di_object_id = oid, di_iter = i # es\<rparr> =
     (case entry_of oid i of
        None \<Rightarrow> []
      | Some e \<Rightarrow> e # dir_entries \<lparr>di_object_id = oid, di_iter = skip_deleted oid es\<rparr>)"
  by (subst dir_entries.simps)
     (simp add: dir_iter_get_def entry_of_def dir_iter_advance_def split: object_key_data.splits object_value.splits)

lemma dir_entries_Nil: "dir_entries \<lparr>di_object_id = oid, di_iter = []\<rparr> = []"
  by (simp add: dir_entries.simps dir_iter_get_def)

lemma record_keys_distinct [simp]:
  "object_key_child d n = object_key_child d' n' \<longleftrightarrow> d = d' \<and> n = n'"
  "object_key_object d = object_key_object d' \<longleftrightarrow> d = d'"
  "object_key_child d n \<noteq> object_key_object e" "object_key_object e \<noteq> object_key_child d n"
  "object_key_graveyard_entry g e \<noteq> object_key_child d n" "object_key_child d n \<noteq> object_key_graveyard_entry g e"
  "object_key_graveyard_entry g e \<noteq> object_key_object d" "object_key_object d \<noteq> object_key_graveyard_entry g e"
  by (simp_all add: object_key_child_def object_key_object_def object_key_graveyard_entry_def)

lemma child_data [simp]: "data (object_key_child d n) = Child n"
  by (simp add: object_key_child_def)

lemma child_lo: "key_lo (object_key_child oid name) = oid # 3 # map of_char name"
  by (simp add: key_lo_def key_prefix_def object_key_child_def variant_index_def)

lemma child_hi: "key_hi (object_key_child oid name) = oid # 3 # map of_char name @ [0]"
  by (simp add: key_hi_def key_prefix_def object_key_child_def variant_index_def)

lemma child_lo_le: "key_lo (object_key_child oid a) \<le> key_lo (object_key_child oid b) \<longleftrightarrow> a \<le> b"
  using cmp_map_of_char [of a b] by (auto simp: child_lo cmp_def not_less split: if_splits)

text \<open>A key at or above the children of a directory is one of them, or after all of them.\<close>

lemma child_or_after:
  assumes "key_lo (object_key_child oid from_name) < key_hi k"
  shows "(\<exists>name. k = object_key_child oid name \<and> from_name \<le> name) \<or> (\<forall>name. key_hi (object_key_child oid name) < key_hi k)"
proof (cases "\<exists>name. k = object_key_child oid name")
  case True
  then obtain name where name: "k = object_key_child oid name" by blast
  then have "map of_char from_name < (map of_char name @ [0] :: nat list)" using assms by (simp add: child_lo child_hi)
  then have "\<not> (map of_char name :: nat list) < map of_char from_name" using snoc_zero_le by (meson not_less)
  then show ?thesis using name child_lo_le [of oid from_name name] by (auto simp: child_lo not_less)
next
  case False
  then show ?thesis
    using assms by (cases k; cases "data k")
      (auto simp: key_lo_def key_hi_def key_prefix_def variant_index_def object_key_child_def split: attribute_key.splits)
qed

lemma in_map_filter: "x \<in> set (List.map_filter f xs) \<longleftrightarrow> (\<exists>y \<in> set xs. f y = Some x)"
  by (force simp: map_filter_def)

lemma dir_entries_live:
  "dir_entries \<lparr>di_object_id = oid, di_iter = skip_deleted oid es\<rparr> =
     live_entries (\<lambda>i. object_id (key i) = oid \<and> value i = VNone) (entry_of oid) es"
proof (induction es)
  case (Cons i es)
  then show ?case by (cases "object_id (key i) = oid \<and> value i = VNone")
      (auto simp: skip_deleted_def dir_entries_Cons split: option.splits)
qed (simp add: skip_deleted_def dir_entries_Nil)

lemma dir_entries_filter:
  assumes "sorted_wrt (\<lambda>i j. key_hi (key i) < key_hi (key j)) es"
    and "\<forall>i \<in> set es. key_lo (object_key_child oid from_name) < key_hi (key i)"
    and "\<forall>i \<in> set es. \<forall>name. key i = object_key_child oid name \<longrightarrow> value i = VNone \<or> (\<exists>c d. value i = VChild c d)"
  shows "dir_entries \<lparr>di_object_id = oid, di_iter = skip_deleted oid es\<rparr> = List.map_filter (entry_of oid) es"
proof -
  have stop: "entry_of oid j = None"
    if "i \<in> set es" "key_hi (key i) < key_hi (key j)" "\<not> (object_id (key i) = oid \<and> value i = VNone)" "entry_of oid i = None" for i j
  proof (cases "\<exists>name. key i = object_key_child oid name")
    case True
    then show ?thesis using that assms(3) by (fastforce simp: entry_of_def object_key_child_def)
  next
    case False
    then have "\<forall>name. key_hi (object_key_child oid name) < key_hi (key i)"
      using child_or_after [of oid from_name "key i"] assms(2) that(1) by auto
    then show ?thesis using that(2) by (metis entry_of_iff less_asym not_None_eq prod_cases3)
  qed
  have "entry_of oid i = None" if "value i = VNone" for i
    using that by (simp add: entry_of_def split: object_key_data.splits)
  then show ?thesis
    unfolding dir_entries_live using stop
    by (subst live_entries_filter)
       (auto intro!: sorted_wrt_mono_rel [OF _ assms(1)] arg_cong [where f = "\<lambda>f. List.map_filter f es"])
qed

lemma entries_sorted:
  assumes "sorted_wrt (\<lambda>i j. key_hi (key i) < key_hi (key j)) es"
  shows "sorted_wrt (<) (map fst (List.map_filter (entry_of oid) es))"
  using assms
proof (induction es)
  case (Cons i es)
  have "name < name'"
    if "entry_of oid i = Some (name, c, t)" "j \<in> set es" "entry_of oid j = Some (name', c', t')" for name c t j name' c' t'
  proof -
    have "key_hi (object_key_child oid name) < key_hi (object_key_child oid name')"
      using Cons.prems that by (auto simp: entry_of_iff)
    moreover have "key_lo (object_key_child oid name) < key_hi (object_key_child oid name)" by (simp add: record_hi)
    ultimately have "\<not> key_lo (object_key_child oid name') \<le> key_lo (object_key_child oid name)"
      using record_before [of "object_key_child oid name'" "object_key_child oid name"]
        record_same [of "object_key_child oid name'" "object_key_child oid name"]
      by (metis record_key_simps(1) le_less less_asym less_le_trans)
    then show ?thesis by (simp add: child_lo_le)
  qed
  then show ?case using Cons by (force simp: map_filter_simps in_map_filter split: option.splits)
qed (simp add: map_filter_simps)

section \<open>Lookup\<close>

definition child_value :: "encryption_keys object_value option \<Rightarrow> (nat \<times> object_descriptor) option res" where
  "child_value v =
     (case v of
        None \<Rightarrow> Inr None
      | Some VNone \<Rightarrow> Inr None
      | Some (VChild oid descriptor) \<Rightarrow> Inr (Some (oid, descriptor))
      | _ \<Rightarrow> Inl (Fxfs Inconsistent))"

lemma dir_lookup_record:
  assumes "store_ok s" "find_fuel s \<le> fuel" "\<not> d_is_deleted d"
  shows "dir_lookup fuel name s d = child_value (store_record s (object_key_child (d_object_id d) name))"
proof -
  from store_find_record [OF assms(1) _ assms(2), of "object_key_child (d_object_id d) name"] obtain r where
    "store_find fuel (object_key_child (d_object_id d) name) s = Inr r"
    "store_record s (object_key_child (d_object_id d) name) = map_option value r" by auto
  then show ?thesis using assms(3)
    by (cases r) (auto simp: dir_lookup_def child_value_def split: object_value.splits)
qed

definition directory_ok :: "object_store \<Rightarrow> directory \<Rightarrow> bool" where
  "directory_ok s d \<longleftrightarrow> \<not> d_is_deleted d \<and>
     (\<forall>name v. store_record s (object_key_child (d_object_id d) name) = Some v \<longrightarrow> v = VNone \<or> (\<exists>c t. v = VChild c t))"

text \<open>A store with a directory that has two files and a deleted entry, of which one file has two links.\<close>

definition example_times :: object_attributes where
  "example_times = \<lparr>creation_time = timestamp_zero, modification_time = timestamp_zero\<rparr>"

definition example_info :: store_info where
  "example_info = store_info_default\<lparr>graveyard_directory_object_id := 4\<rparr>"

definition example_dirs :: object_store where
  "example_dirs = (object_store_new_empty (Some 2) 7 512)
     \<lparr>os_store_info := Info example_info,
      os_tree := \<lparr>mutable_layer =
        [item_new (object_key_object 5) (VObject (Directory 0) example_times),
         item_new (object_key_child 5 ''a'') (VChild 6 FileDescriptor),
         item_new (object_key_child 5 ''b'') (VChild 8 FileDescriptor),
         item_new (object_key_child 5 ''c'') VNone,
         item_new (object_key_object 6) (VObject (File 1 0) example_times),
         item_new (object_key_object 8) (VObject (File 2 0) example_times)],
        immutable_layers = []\<rparr>\<rparr>"

lemmas example_dirs_defs = example_dirs_def object_store_new_empty_def object_store_new_def layer_set_def

lemma object_bounds:
  "key_lo (object_key_object oid) = [oid, 0]" "key_hi (object_key_object oid) = [oid, 0, 0]"
  by (simp_all add: key_lo_def key_hi_def key_prefix_def object_key_object_def variant_index_def)

lemma record_weight: "record_key (key i) \<Longrightarrow> object_weight i = 1"
  by (auto simp: object_weight_def record_key_def split: object_key_data.splits attribute_key.splits)

lemma record_ok: "record_key (key i) \<Longrightarrow> object_ok bs i \<longleftrightarrow> 0 < bs \<and> \<not> is_tombstone i"
  by (auto simp: object_ok_def record_key_def split: object_key_data.splits attribute_key.splits)

lemma example_dirs_ok: "store_ok example_dirs" "find_fuel example_dirs \<le> 100"
  by (simp_all add: store_ok_def find_fuel_def seek_fuel_def layer_weight_def example_dirs_defs is_locked_def record_ok
      record_weight item_new_def is_tombstone_def child_lo child_hi object_bounds)

lemma example_dirs_record:
  "store_record example_dirs (object_key_child oid name) =
     (if oid = 5 \<and> name = ''a'' then Some (VChild 6 FileDescriptor)
      else if oid = 5 \<and> name = ''b'' then Some (VChild 8 FileDescriptor)
      else if oid = 5 \<and> name = ''c'' then Some VNone else None)"
  "store_record example_dirs (object_key_object 5) = Some (VObject (Directory 0) example_times)"
  "store_record example_dirs (object_key_object 6) = Some (VObject (File 1 0) example_times)"
  "store_record example_dirs (object_key_object 8) = Some (VObject (File 2 0) example_times)"
  by (simp_all add: store_record_def example_dirs_defs record_at record_same item_new_def)

text \<open>
  C21: listing a directory gives exactly the entries that lookups find. The iterator from a name on, driven
  until it returns nothing, yields every name at or after it that is bound in the directory, with the
  object and the descriptor that \<^verbatim>\<open>lookup\<close> returns, in strictly ascending order of the names; deleted
  entries, and what comes after the directory in the store, are left out. The store is unlocked and its
  layers are well formed and without object tombstones (\<^term>\<open>store_ok\<close>); the directory is not deleted.
\<close>

theorem dir_entries_lookup:
  assumes "store_ok s" "directory_ok s d" "find_fuel s \<le> fuel"
  shows "\<exists>it. dir_iter_from fuel from_name s d = Inr it \<and>
    sorted_wrt (<) (map fst (dir_entries it)) \<and>
    (\<forall>name c t. (name, c, t) \<in> set (dir_entries it) \<longleftrightarrow>
       from_name \<le> name \<and> dir_lookup fuel name s d = Inr (Some (c, t)))"
proof -
  let ?oid = "d_object_id d"
  from store_iterates_records [OF assms(1) _ assms(3), of "object_key_child ?oid from_name"] obtain es where
    es: "object_iter fuel (os_tree s) (object_key_child ?oid from_name) = Inr es"
    and sorted: "sorted_wrt (\<lambda>i j. key_hi (key i) < key_hi (key j)) es"
    and after: "\<forall>i \<in> set es. key_lo (object_key_child ?oid from_name) < key_hi (key i)"
    and recs: "\<And>l v. record_key l \<Longrightarrow> key_lo (object_key_child ?oid from_name) \<le> key_lo l \<Longrightarrow>
      (\<exists>i \<in> set es. key i = l \<and> value i = v) \<longleftrightarrow> store_record s l = Some v" by auto
  have deleted: "\<not> d_is_deleted d" using assms(2) by (simp add: directory_ok_def)
  define it where "it = \<lparr>di_object_id = ?oid, di_iter = skip_deleted ?oid es\<rparr>"
  have from_le: "from_name \<le> name" if "i \<in> set es" "key i = object_key_child ?oid name" for i name
    using child_or_after [of ?oid from_name "key i"] after that by (force simp: object_key_child_def)
  have child: "(\<exists>i \<in> set es. key i = object_key_child ?oid name \<and> value i = v) \<longleftrightarrow>
      from_name \<le> name \<and> store_record s (object_key_child ?oid name) = Some v" for name v
    using recs [of "object_key_child ?oid name" v] from_le by (auto simp: child_lo_le)
  have wf: "value i = VNone \<or> (\<exists>c d. value i = VChild c d)" if "i \<in> set es" "key i = object_key_child ?oid name" for i name
    using child [of name "value i"] that assms(2) by (auto simp: directory_ok_def)
  have entries: "dir_entries it = List.map_filter (entry_of ?oid) es"
    unfolding it_def using wf by (intro dir_entries_filter [OF sorted after]) auto
  have "(name, c, t) \<in> set (dir_entries it) \<longleftrightarrow>
      from_name \<le> name \<and> dir_lookup fuel name s d = Inr (Some (c, t))" for name c t
  proof -
    have "(name, c, t) \<in> set (dir_entries it) \<longleftrightarrow> (\<exists>i \<in> set es. entry_of ?oid i = Some (name, c, t))"
      by (auto simp: entries in_map_filter)
    also have "\<dots> \<longleftrightarrow> from_name \<le> name \<and> store_record s (object_key_child ?oid name) = Some (VChild c t)"
      using child [of name "VChild c t"] by (simp add: entry_of_iff)
    finally show ?thesis
      by (auto simp: dir_lookup_record [OF assms(1,3) deleted] child_value_def split: option.splits object_value.splits)
  qed
  moreover have "sorted_wrt (<) (map fst (dir_entries it))" unfolding entries using sorted by (rule entries_sorted)
  moreover have "dir_iter_from fuel from_name s d = Inr it" using es deleted by (simp add: dir_iter_from_def it_def)
  ultimately show ?thesis by blast
qed

theorem dir_entries_lookup_witness:
  "\<exists>it. dir_iter_from 100 ''b'' example_dirs (directory_new 5) = Inr it \<and> dir_entries it = [(''b'', 8, FileDescriptor)]"
proof -
  have ok: "directory_ok example_dirs (directory_new 5)"
    by (simp add: directory_ok_def directory_new_def example_dirs_record)
  have look: "dir_lookup 100 name example_dirs (directory_new 5) =
      child_value (store_record example_dirs (object_key_child 5 name))" for name
    using dir_lookup_record [OF example_dirs_ok, of "directory_new 5" name] by (simp add: directory_new_def)
  from dir_entries_lookup [OF example_dirs_ok(1) ok example_dirs_ok(2), of "''b''"] obtain it where
    it: "dir_iter_from 100 ''b'' example_dirs (directory_new 5) = Inr it" "sorted_wrt (<) (map fst (dir_entries it))"
    "\<forall>name c t. (name, c, t) \<in> set (dir_entries it) \<longleftrightarrow>
       ''b'' \<le> name \<and> dir_lookup 100 name example_dirs (directory_new 5) = Inr (Some (c, t))" by blast
  have "(name, c, t) \<in> set (dir_entries it) \<longleftrightarrow> (name, c, t) = (''b'', 8, FileDescriptor)" for name c t
    using it(3) by (auto simp: look example_dirs_record child_value_def less_eq_char_def less_char_def split: if_splits)
  then have "set (dir_entries it) = {(''b'', 8, FileDescriptor)}" by auto
  moreover have "distinct (dir_entries it)" using it(2) by (simp add: strict_sorted_iff distinct_map)
  ultimately have "dir_entries it = [(''b'', 8, FileDescriptor)]"
    by (cases "dir_entries it") (auto simp: subset_singleton_iff)
  with it(1) show ?thesis by blast
qed

section \<open>Updating records in a transaction\<close>

lemma get_object_mutation_key: "get_object_mutation sid k txn = Some m \<Longrightarrow> key (osm_item m) = k"
  by (auto simp: get_object_mutation_def txn_mutation_code_def insert_object_def item_new_def mutation_code_ObjectStoreM
      dest!: txn_set.get_Some split: option.splits mutation.splits)

lemma replaces_only_op:
  assumes "replaces_only sid txn" "get_object_mutation sid k txn = Some m"
  shows "osm_op m = OpReplaceOrInsert"
proof -
  from assms(2) obtain t where "t \<in> set (mutations txn)" "tm_mutation t = ObjectStoreM m"
    by (auto simp: get_object_mutation_def dest!: txn_set.get_Some split: option.splits mutation.splits)
  with assms(1) show ?thesis by (auto simp: replaces_only_def replaces_def)
qed

text \<open>A store whose records can be changed in a transaction.\<close>

definition writable :: "nat \<Rightarrow> object_store \<Rightarrow> bool" where
  "writable fuel s \<longleftrightarrow> store_ok s \<and> find_fuel s \<le> fuel \<and> os_store_object_id s \<noteq> 0"

lemma put_record:
  assumes "writable fuel s" "replaces_only (os_store_object_id s) txn" "record_key k" "data k \<noteq> Object \<or> v \<noteq> VNone"
  obtains old txn' where "txn_add (os_store_object_id s) (replace_or_insert_object k v) txn = Inr (old, txn')"
    "replaces_only (os_store_object_id s) txn'" "txn_record s txn' = (txn_record s txn)(k \<mapsto> v)"
  using txn_replace [of s txn "item_new k v"] assms
  by (auto simp: writable_def replace_or_insert_object_def item_new_def is_tombstone_def)

lemma object_record_in_txn:
  assumes "writable fuel s" "txn_record s txn (object_key_object oid) = Some v"
  obtains i where "key i = object_key_object oid" "value i = v"
    "(case get_object_mutation (os_store_object_id s) (object_key_object oid) txn of
        Some m \<Rightarrow> Inr (osm_item m)
      | None \<Rightarrow>
          bind_res (store_find fuel (object_key_object oid) s) (\<lambda>found.
            case found of None \<Rightarrow> Inl (Fxfs NotFound) | Some i \<Rightarrow> Inr i)) = Inr i"
    "\<exists>m. txn_get_object_mutation fuel txn oid s = Inr m \<and> osm_item m = i \<and>
       (replaces_only (os_store_object_id s) txn \<longrightarrow> osm_op m = OpReplaceOrInsert)"
proof (cases "get_object_mutation (os_store_object_id s) (object_key_object oid) txn")
  case None
  from store_find_record [of s "object_key_object oid" fuel] assms None obtain i where
    "store_find fuel (object_key_object oid) s = Inr (Some i)" "value i = v" "key i = object_key_object oid"
    by (auto simp: writable_def txn_record_def)
  with None that show thesis by (simp add: txn_get_object_mutation_def)
next
  case (Some m)
  have "osm_op m = OpReplaceOrInsert" if "replaces_only (os_store_object_id s) txn" by (rule replaces_only_op [OF that Some])
  with Some assms(2) that get_object_mutation_key [OF Some] show thesis by (simp add: txn_get_object_mutation_def txn_record_def)
qed

lemma update_attributes_record:
  assumes "writable fuel s" "replaces_only (os_store_object_id s) txn" "\<not> d_is_deleted d"
    and "txn_record s txn (object_key_object (d_object_id d)) = Some (VObject (Directory n) attrs)"
    and "\<And>i a. value i = VObject (Directory n) a \<Longrightarrow> updater i = Inr (i\<lparr>value := VObject (Directory n') a\<rparr>)"
  obtains txn' attrs' where "dir_update_attributes fuel crtime mtime updater s d txn = Inr txn'"
    "replaces_only (os_store_object_id s) txn'"
    "txn_record s txn' = (txn_record s txn)(object_key_object (d_object_id d) \<mapsto> VObject (Directory n') attrs')"
proof -
  from object_record_in_txn [OF assms(1,4)] obtain i where
    i: "key i = object_key_object (d_object_id d)" "value i = VObject (Directory n) attrs"
    "(case get_object_mutation (os_store_object_id s) (object_key_object (d_object_id d)) txn of
        Some m \<Rightarrow> Inr (osm_item m)
      | None \<Rightarrow>
          bind_res (store_find fuel (object_key_object (d_object_id d)) s) (\<lambda>found.
            case found of None \<Rightarrow> Inl (Fxfs NotFound) | Some i \<Rightarrow> Inr i)) = Inr i" by blast
  define v :: "encryption_keys object_value" where "v = VObject (Directory n') (set_times crtime mtime attrs)"
  from put_record [OF assms(1,2), of "object_key_object (d_object_id d)" v] obtain old txn' where
    add: "txn_add (os_store_object_id s) (replace_or_insert_object (object_key_object (d_object_id d)) v) txn = Inr (old, txn')"
    "replaces_only (os_store_object_id s) txn'" "txn_record s txn' = (txn_record s txn)(object_key_object (d_object_id d) \<mapsto> v)"
    by (auto simp: v_def)
  have "dir_update_attributes fuel crtime mtime updater s d txn = Inr txn'"
    unfolding dir_update_attributes_def i(3) using assms(3,5) i(1,2) add(1) by (simp add: v_def)
  with add(2,3) that show thesis by (simp add: v_def)
qed

section \<open>Moving children\<close>

text \<open>What becomes of a file that loses a name: one link less, or an entry in the graveyard.\<close>

definition unlinked ::
  "store_info \<Rightarrow> nat \<Rightarrow> nat \<Rightarrow> nat \<Rightarrow> object_attributes \<Rightarrow> object_key \<times> encryption_keys object_value" where
  "unlinked si oid n sz attrs =
     (if n = 1 then (object_key_graveyard_entry (graveyard_directory_object_id si) oid, VSome)
      else (object_key_object oid, VObject (File (n - 1) sz) attrs))"

lemma adjust_refs_unlink:
  assumes "writable fuel s" "replaces_only (os_store_object_id s) txn"
    and "txn_record s txn (object_key_object oid) = Some (VObject (File n sz) attrs)" "0 < n"
    and "os_store_info s = Info si" "graveyard_directory_object_id si \<noteq> 0"
  obtains txn' where "adjust_refs fuel oid (- 1) s txn = Inr (n = 1, txn')" "replaces_only (os_store_object_id s) txn'"
    "txn_record s txn' = (txn_record s txn)(fst (unlinked si oid n sz attrs) \<mapsto> snd (unlinked si oid n sz attrs))"
proof -
  from object_record_in_txn [OF assms(1,3)] assms(2) obtain i m where
    i: "key i = object_key_object oid" "value i = VObject (File n sz) attrs"
    and m: "txn_get_object_mutation fuel txn oid s = Inr m" "osm_item m = i" "osm_op m = OpReplaceOrInsert" by blast
  show thesis
  proof (cases "n = 1")
    case True
    from put_record [OF assms(1,2), of "object_key_graveyard_entry (graveyard_directory_object_id si) oid" VSome]
    obtain old txn' where
      "txn_add (os_store_object_id s) (replace_or_insert_object (object_key_graveyard_entry (graveyard_directory_object_id si) oid) VSome) txn = Inr (old, txn')"
      "replaces_only (os_store_object_id s) txn'"
      "txn_record s txn' = (txn_record s txn)(object_key_graveyard_entry (graveyard_directory_object_id si) oid \<mapsto> VSome)" by auto
    then show thesis
      using that True m i assms(5,6)
      by (simp add: adjust_refs_def add_to_graveyard_def sri_info_def checked_sub_def unlinked_def)
  next
    case False
    let ?i = "i\<lparr>value := VObject (File (n - 1) sz) attrs\<rparr>"
    from txn_replace [OF assms(2), of ?i] assms(1) i(1) obtain old txn' where
      "txn_add (os_store_object_id s) (ObjectStoreM \<lparr>osm_item = ?i, osm_op = OpReplaceOrInsert\<rparr>) txn = Inr (old, txn')"
      "replaces_only (os_store_object_id s) txn'"
      "txn_record s txn' = (txn_record s txn)(object_key_object oid \<mapsto> VObject (File (n - 1) sz) attrs)"
      by (auto simp: writable_def is_tombstone_def)
    moreover have "m\<lparr>osm_item := ?i\<rparr> = \<lparr>osm_item = ?i, osm_op = OpReplaceOrInsert\<rparr>" using m by simp
    ultimately show thesis
      using that False m(1,2) i(2) assms(4) by (simp add: adjust_refs_def checked_sub_def unlinked_def)
  qed
qed

text \<open>
  The child that the destination name has already, if any, is a file with links, and there is a
  graveyard for it; the outcome of replacing it is the result and the update of the records.
\<close>

datatype old_child = NoChild | FileChild nat nat nat object_attributes

definition has_old_child :: "nat \<Rightarrow> object_store \<Rightarrow> store_info \<Rightarrow> directory \<Rightarrow> string \<Rightarrow> old_child \<Rightarrow> bool" where
  "has_old_child fuel s si d name old \<longleftrightarrow>
     (case old of
        NoChild \<Rightarrow> dir_lookup fuel name s d = Inr None
      | FileChild oid n sz attrs \<Rightarrow>
          dir_lookup fuel name s d = Inr (Some (oid, FileDescriptor)) \<and>
          store_record s (object_key_object oid) = Some (VObject (File n sz) attrs) \<and> 0 < n \<and>
          os_store_info s = Info si \<and> graveyard_directory_object_id si \<noteq> 0)"

definition replaced :: "old_child \<Rightarrow> replaced_child" where
  "replaced old =
     (case old of
        NoChild \<Rightarrow> ReplacedNone
      | FileChild oid n _ _ \<Rightarrow> if n = 1 then ReplacedFile oid else FileWithRemainingLinks oid)"

definition old_records ::
  "store_info \<Rightarrow> old_child \<Rightarrow> (object_key \<rightharpoonup> encryption_keys object_value) \<Rightarrow> object_key \<rightharpoonup> encryption_keys object_value" where
  "old_records si old m =
     (case old of
        NoChild \<Rightarrow> m
      | FileChild oid n sz attrs \<Rightarrow> m(fst (unlinked si oid n sz attrs) \<mapsto> snd (unlinked si oid n sz attrs)))"

lemma replace_old_child_records:
  assumes "writable fuel s" "mutations txn = []" "has_old_child fuel s si d name old"
  obtains r txn' where "dir_lookup fuel name s d = Inr r" "replace_old_child fuel True r s txn = Inr (replaced old, 0, txn')"
    "replaces_only (os_store_object_id s) txn'" "txn_record s txn' = old_records si old (store_record s)"
proof (cases old)
  case NoChild
  then show thesis
    using assms that [of None txn] by (simp add: has_old_child_def replace_old_child_def replaced_def old_records_def
        txn_record_empty replaces_only_empty)
next
  case (FileChild oid n sz attrs)
  from adjust_refs_unlink [OF assms(1) replaces_only_empty [OF assms(2)], of oid n sz attrs si] FileChild assms(3)
  obtain txn' where "adjust_refs fuel oid (- 1) s txn = Inr (n = 1, txn')" "replaces_only (os_store_object_id s) txn'"
    "txn_record s txn' = (store_record s)(fst (unlinked si oid n sz attrs) \<mapsto> snd (unlinked si oid n sz attrs))"
    by (auto simp: has_old_child_def txn_record_empty [OF assms(2)])
  then show thesis
    using that [of "Some (oid, FileDescriptor)" txn'] FileChild assms(3)
    by (simp add: has_old_child_def replace_old_child_def replaced_def old_records_def)
qed

lemma old_records_child [simp]: "old_records si old m (object_key_child d name) = m (object_key_child d name)"
  by (auto simp: old_records_def unlinked_def split: old_child.splits)

lemma old_records_directory:
  assumes "has_old_child fuel s si e name old" "store_record s (object_key_object d) = Some (VObject (Directory n) attrs)"
  shows "old_records si old (store_record s) (object_key_object d) = Some (VObject (Directory n) attrs)"
  using assms by (auto simp: old_records_def unlinked_def has_old_child_def split: old_child.splits)

definition is_directory :: "object_store \<Rightarrow> directory \<Rightarrow> bool" where
  "is_directory s d \<longleftrightarrow> \<not> d_is_deleted d \<and>
     (\<exists>n attrs. store_record s (object_key_object (d_object_id d)) = Some (VObject (Directory n) attrs))"

lemma sub_dirs_updater:
  "\<exists>n'. \<forall>i a. value i = VObject (Directory n) a \<longrightarrow>
     (if b then add_sub_dirs delta else Inr) i = Inr (i\<lparr>value := VObject (Directory n') a\<rparr>)"
proof (cases b)
  case False
  have "value i = v \<Longrightarrow> i\<lparr>value := v\<rparr> = i" for i :: "encryption_keys object_item" and v by (cases i) simp
  with False show ?thesis by (intro exI [of _ n]) simp
qed (auto simp: add_sub_dirs_def)

lemma take_src_child_records:
  assumes "writable fuel s" "replaces_only (os_store_object_id s) txn" "\<not> d_is_deleted src"
    and "txn_record s txn (object_key_object (d_object_id src)) = Some (VObject (Directory n) attrs)"
    and "dir_lookup fuel src_name s src = Inr (Some (oid, descriptor))"
  obtains delta' txn' n' attrs' where
    "take_src_child fuel now (Some (src, src_name)) dst delta s txn = Inr (VChild oid descriptor, delta', txn')"
    "replaces_only (os_store_object_id s) txn'"
    "txn_record s txn' = (txn_record s txn)(object_key_child (d_object_id src) src_name \<mapsto> VNone,
       object_key_object (d_object_id src) \<mapsto> VObject (Directory n') attrs')"
proof -
  from put_record [OF assms(1,2), of "object_key_child (d_object_id src) src_name" VNone] obtain old txn1 where
    t1: "txn_add (os_store_object_id s) (replace_or_insert_object (object_key_child (d_object_id src) src_name) VNone) txn = Inr (old, txn1)"
    "replaces_only (os_store_object_id s) txn1"
    "txn_record s txn1 = (txn_record s txn)(object_key_child (d_object_id src) src_name \<mapsto> VNone)"
    by auto
  have dir1: "txn_record s txn1 (object_key_object (d_object_id src)) = Some (VObject (Directory n) attrs)" using t1(3) assms(4) by simp
  show thesis
  proof (cases "d_object_id src = d_object_id dst")
    case True
    show thesis
      by (rule that [of delta txn1 n attrs]) (use True t1 assms(5) dir1 in \<open>auto simp: take_src_child_def\<close>)
  next
    case False
    from sub_dirs_updater [of n "descriptor = DirectoryDescriptor" "- 1"] obtain n' where
      "\<And>i a. value i = VObject (Directory n) a \<Longrightarrow> (if descriptor = DirectoryDescriptor then add_sub_dirs (- 1) else Inr) i =
        Inr (i\<lparr>value := VObject (Directory n') a\<rparr>)" by blast
    from update_attributes_record [OF assms(1) t1(2) assms(3) dir1 this, of None "Some now"] obtain txn2 attrs' where
      t2: "dir_update_attributes fuel None (Some now) (if descriptor = DirectoryDescriptor then add_sub_dirs (- 1) else Inr) s src txn1 = Inr txn2"
      "replaces_only (os_store_object_id s) txn2"
      "txn_record s txn2 = (txn_record s txn1)(object_key_object (d_object_id src) \<mapsto> VObject (Directory n') attrs')" by blast
    show thesis
      by (rule that [of "if descriptor = DirectoryDescriptor then delta + 1 else delta" txn2 n' attrs'])
         (use False t1 t2 assms(5) in \<open>auto simp: take_src_child_def Let_def\<close>)
  qed
qed

lemma replace_child_records:
  assumes "writable fuel s" "mutations txn = []" "is_directory s src" "is_directory s dst"
    and "dir_lookup fuel src_name s src = Inr (Some (oid, descriptor))" "has_old_child fuel s si dst dst_name old"
  obtains txn' n attrs n' attrs' where
    "replace_child fuel now (Some (src, src_name)) (dst, dst_name) s txn = Inr (replaced old, txn')"
    "replaces_only (os_store_object_id s) txn'"
    "txn_record s txn' = (old_records si old (store_record s))(object_key_child (d_object_id src) src_name \<mapsto> VNone,
       object_key_object (d_object_id src) \<mapsto> VObject (Directory n) attrs,
       object_key_child (d_object_id dst) dst_name \<mapsto> VChild oid descriptor,
       object_key_object (d_object_id dst) \<mapsto> VObject (Directory n') attrs')"
proof -
  let ?sid = "os_store_object_id s"
  from replace_old_child_records [OF assms(1,2,6)] obtain r t1 where
    t1: "dir_lookup fuel dst_name s dst = Inr r" "replace_old_child fuel True r s txn = Inr (replaced old, 0, t1)"
    "replaces_only ?sid t1" "txn_record s t1 = old_records si old (store_record s)" .
  from assms(3) obtain n a where src: "\<not> d_is_deleted src" "txn_record s t1 (object_key_object (d_object_id src)) = Some (VObject (Directory n) a)"
    using old_records_directory [OF assms(6)] t1(4) by (auto simp: is_directory_def)
  from take_src_child_records [OF assms(1) t1(3) src assms(5), of now dst 0] obtain delta t2 n2 a2 where
    t2: "take_src_child fuel now (Some (src, src_name)) dst 0 s t1 = Inr (VChild oid descriptor, delta, t2)"
    "replaces_only ?sid t2"
    "txn_record s t2 = (txn_record s t1)(object_key_child (d_object_id src) src_name \<mapsto> VNone,
       object_key_object (d_object_id src) \<mapsto> VObject (Directory n2) a2)" .
  from put_record [OF assms(1) t2(2), of "object_key_child (d_object_id dst) dst_name" "VChild oid descriptor"] obtain o3 t3 where
    t3: "txn_add ?sid (replace_or_insert_object (object_key_child (d_object_id dst) dst_name) (VChild oid descriptor)) t2 = Inr (o3, t3)"
    "replaces_only ?sid t3" "txn_record s t3 = (txn_record s t2)(object_key_child (d_object_id dst) dst_name \<mapsto> VChild oid descriptor)"
    by auto
  have "\<exists>n a. txn_record s t3 (object_key_object (d_object_id dst)) = Some (VObject (Directory n) a)"
    using assms(4) old_records_directory [OF assms(6)] t1(4) t2(3) t3(3) by (auto simp: is_directory_def)
  then obtain n3 a3 where dst: "txn_record s t3 (object_key_object (d_object_id dst)) = Some (VObject (Directory n3) a3)" by blast
  from sub_dirs_updater [of n3 "delta \<noteq> 0" delta] obtain n4 where
    "\<And>i a. value i = VObject (Directory n3) a \<Longrightarrow> (if delta \<noteq> 0 then add_sub_dirs delta else Inr) i =
      Inr (i\<lparr>value := VObject (Directory n4) a\<rparr>)" by blast
  from update_attributes_record [OF assms(1) t3(2) _ dst this, of None "Some now"] assms(4) obtain t4 a4 where
    t4: "dir_update_attributes fuel None (Some now) (if delta \<noteq> 0 then add_sub_dirs delta else Inr) s dst t3 = Inr t4"
    "replaces_only ?sid t4" "txn_record s t4 = (txn_record s t3)(object_key_object (d_object_id dst) \<mapsto> VObject (Directory n4) a4)"
    by (auto simp: is_directory_def)
  have "replace_child fuel now (Some (src, src_name)) (dst, dst_name) s txn = Inr (replaced old, t4)"
    using t1(1,2) t2(1) t3(1) t4(1) by (simp add: replace_child_def)
  from that [OF this t4(2)] show thesis unfolding t4(3) t3(3) t2(3) t1(4) by blast
qed

text \<open>
  C22: a move changes the names it mentions and nothing else. \<^verbatim>\<open>replace_child\<close> in a fresh transaction, followed by
  its commit, succeeds when the source exists and the destination is free or a file with links: the
  destination is then the object that the source was, the source is gone, unless it is the destination (source
  and destination may be the same name: then the name stays bound), and every other name of every directory of
  the store is bound as before. A file that was at the destination has one link less, and one that lost its last link is
  in the graveyard; with source and destination the same this is the file that was to be moved. The store
  is unlocked, its layers are well-formed, and none of them has the tombstone of an object.
\<close>

theorem replace_child_moves:
  assumes "writable fuel s" "os_store_object_id s \<noteq> alloc_object_id a" "mutations txn = []" "is_directory s src" "is_directory s dst"
    and "dir_lookup fuel src_name s src = Inr (Some (oid, descriptor))" "has_old_child fuel s si dst dst_name old"
  shows "\<exists>txn' s' txn''.
    replace_child fuel now (Some (src, src_name)) (dst, dst_name) s txn = Inr (replaced old, txn') \<and>
    store_commit fuel cp txn' s a = Inr (s', a, txn'') \<and> store_ok s' \<and>
    (\<forall>d name fuel'. \<not> d_is_deleted d \<longrightarrow> find_fuel s' \<le> fuel' \<longrightarrow>
       dir_lookup fuel' name s' d =
         (if (d_object_id d, name) = (d_object_id dst, dst_name) then Inr (Some (oid, descriptor))
          else if (d_object_id d, name) = (d_object_id src, src_name) then Inr None
          else dir_lookup fuel name s d)) \<and>
    (\<forall>old_id n sz attrs. old = FileChild old_id n sz attrs \<longrightarrow>
       store_record s' (fst (unlinked si old_id n sz attrs)) = Some (snd (unlinked si old_id n sz attrs)))"
proof -
  from replace_child_records [OF assms(1,3-7), of now] obtain txn' n at n' at' where
    t: "replace_child fuel now (Some (src, src_name)) (dst, dst_name) s txn = Inr (replaced old, txn')"
    "replaces_only (os_store_object_id s) txn'"
    "txn_record s txn' = (old_records si old (store_record s))(object_key_child (d_object_id src) src_name \<mapsto> VNone,
       object_key_object (d_object_id src) \<mapsto> VObject (Directory n) at,
       object_key_child (d_object_id dst) dst_name \<mapsto> VChild oid descriptor,
       object_key_object (d_object_id dst) \<mapsto> VObject (Directory n') at')" .
  have ok: "store_ok s" "find_fuel s \<le> fuel" using assms(1) by (simp_all add: writable_def)
  from commit_records [OF ok(1) t(2) assms(2), of fuel cp] obtain s' txn'' where
    c: "store_commit fuel cp txn' s a = Inr (s', a, txn'')" "store_ok s'" "store_record s' = txn_record s txn'" by blast
  have "dir_lookup fuel' name s' d =
      (if (d_object_id d, name) = (d_object_id dst, dst_name) then Inr (Some (oid, descriptor))
       else if (d_object_id d, name) = (d_object_id src, src_name) then Inr None
       else dir_lookup fuel name s d)" if "\<not> d_is_deleted d" "find_fuel s' \<le> fuel'" for d name fuel'
    unfolding dir_lookup_record [OF ok that(1)] dir_lookup_record [OF c(2) that(2,1)] c(3) t(3)
    by (simp add: child_value_def)
  moreover have "store_record s' (fst (unlinked si old_id k sz attrs)) = Some (snd (unlinked si old_id k sz attrs))"
    if "old = FileChild old_id k sz attrs" for old_id k sz attrs
  proof -
    have "store_record s (object_key_object old_id) = Some (VObject (File k sz) attrs)"
      using assms(7) that by (simp add: has_old_child_def)
    then have "old_id \<noteq> d_object_id src" "old_id \<noteq> d_object_id dst" using assms(4,5) by (auto simp: is_directory_def)
    then show ?thesis unfolding c(3) t(3) using that by (simp add: old_records_def unlinked_def)
  qed
  ultimately show ?thesis using t(1) c(1,2) by blast
qed

lemma example_dirs_movable:
  "writable 100 example_dirs" "os_store_object_id example_dirs \<noteq> alloc_object_id example_allocator"
  "is_directory example_dirs (directory_new 5)"
  "dir_lookup 100 ''a'' example_dirs (directory_new 5) = Inr (Some (6, FileDescriptor))"
  "has_old_child 100 example_dirs example_info (directory_new 5) ''a'' (FileChild 6 1 0 example_times)"
  "has_old_child 100 example_dirs example_info (directory_new 5) ''b'' (FileChild 8 2 0 example_times)"
proof -
  have look: "dir_lookup 100 name example_dirs (directory_new 5) =
      child_value (store_record example_dirs (object_key_child 5 name))" for name
    using dir_lookup_record [OF example_dirs_ok, of "directory_new 5" name] by (simp add: directory_new_def)
  show "writable 100 example_dirs" using example_dirs_ok by (simp add: writable_def example_dirs_defs)
  show "os_store_object_id example_dirs \<noteq> alloc_object_id example_allocator" by (simp add: example_dirs_defs example_allocator_def)
  show "is_directory example_dirs (directory_new 5)" by (simp add: is_directory_def directory_new_def example_dirs_record)
  show "dir_lookup 100 ''a'' example_dirs (directory_new 5) = Inr (Some (6, FileDescriptor))"
    by (simp add: look example_dirs_record child_value_def)
  show "has_old_child 100 example_dirs example_info (directory_new 5) ''a'' (FileChild 6 1 0 example_times)"
    "has_old_child 100 example_dirs example_info (directory_new 5) ''b'' (FileChild 8 2 0 example_times)"
    by (simp_all add: has_old_child_def look example_dirs_record child_value_def) (simp_all add: example_dirs_defs example_info_def)
qed

theorem replace_child_moves_witness:
  "\<exists>txn' s' txn''.
    replace_child 100 timestamp_zero (Some (directory_new 5, ''a'')) (directory_new 5, ''b'') example_dirs (transaction_new Borrowed [] []) =
      Inr (FileWithRemainingLinks 8, txn') \<and>
    store_commit 100 \<lparr>file_offset = 5, cp_checksum = 0, cp_version = 1\<rparr> txn' example_dirs example_allocator = Inr (s', example_allocator, txn'') \<and>
    dir_lookup (find_fuel s') ''b'' s' (directory_new 5) = Inr (Some (6, FileDescriptor)) \<and>
    dir_lookup (find_fuel s') ''a'' s' (directory_new 5) = Inr None \<and>
    store_record s' (object_key_object 8) = Some (VObject (File 1 0) example_times)"
proof -
  have "mutations (transaction_new Borrowed [] []) = []" by (simp add: transaction_new_def)
  from replace_child_moves [OF example_dirs_movable(1,2) this example_dirs_movable(3,3,4,6), of timestamp_zero "\<lparr>file_offset = 5, cp_checksum = 0, cp_version = 1\<rparr>"] show ?thesis
    by (fastforce simp: directory_new_def replaced_def unlinked_def)
qed

text \<open>
  C40: moving a file onto itself loses it. When source and destination are the same name of a file with one
  link, nothing stops \<^verbatim>\<open>replace_child\<close>: it reports the file as replaced and puts it in the graveyard, while the
  name stays bound to it. The caller in \<^verbatim>\<open>platform/fuchsia/directory.rs\<close> rules the case out first; \<^verbatim>\<open>rename\<close>
  in \<^verbatim>\<open>platform/linux/fuse_handler.rs\<close> does not, and tombstones the file that was reported.
\<close>

theorem replace_child_onto_itself:
  assumes "writable fuel s" "os_store_object_id s \<noteq> alloc_object_id a" "mutations txn = []" "is_directory s d"
    and "has_old_child fuel s si d name (FileChild oid 1 sz attrs)"
  shows "\<exists>txn' s' txn''.
    replace_child fuel now (Some (d, name)) (d, name) s txn = Inr (ReplacedFile oid, txn') \<and>
    store_commit fuel cp txn' s a = Inr (s', a, txn'') \<and>
    store_record s' (object_key_graveyard_entry (graveyard_directory_object_id si) oid) = Some VSome \<and>
    dir_lookup (find_fuel s') name s' d = Inr (Some (oid, FileDescriptor))"
proof -
  have look: "dir_lookup fuel name s d = Inr (Some (oid, FileDescriptor))" using assms(5) by (simp add: has_old_child_def)
  from replace_child_records [OF assms(1,3,4,4) look assms(5), of now] obtain txn' n at n' at' where
    t: "replace_child fuel now (Some (d, name)) (d, name) s txn = Inr (replaced (FileChild oid 1 sz attrs), txn')"
    "replaces_only (os_store_object_id s) txn'"
    "txn_record s txn' = (old_records si (FileChild oid 1 sz attrs) (store_record s))(object_key_child (d_object_id d) name \<mapsto> VNone,
       object_key_object (d_object_id d) \<mapsto> VObject (Directory n) at,
       object_key_child (d_object_id d) name \<mapsto> VChild oid FileDescriptor,
       object_key_object (d_object_id d) \<mapsto> VObject (Directory n') at')" .
  have ok: "store_ok s" using assms(1) by (simp add: writable_def)
  from commit_records [OF ok t(2) assms(2), of fuel cp] obtain s' txn'' where
    c: "store_commit fuel cp txn' s a = Inr (s', a, txn'')" "store_ok s'" "store_record s' = txn_record s txn'" by blast
  have "\<not> d_is_deleted d" using assms(4) by (simp add: is_directory_def)
  then have "dir_lookup (find_fuel s') name s' d = Inr (Some (oid, FileDescriptor))"
    using dir_lookup_record [OF c(2) order_refl, of d name] by (simp add: c(3) t(3) child_value_def)
  moreover have "store_record s' (object_key_graveyard_entry (graveyard_directory_object_id si) oid) = Some VSome"
    by (simp add: c(3) t(3) old_records_def unlinked_def)
  ultimately show ?thesis using t(1) c(1) by (auto simp: replaced_def)
qed

theorem replace_child_onto_itself_witness:
  "\<exists>txn' s' txn''.
    replace_child 100 timestamp_zero (Some (directory_new 5, ''a'')) (directory_new 5, ''a'') example_dirs (transaction_new Borrowed [] []) =
      Inr (ReplacedFile 6, txn') \<and>
    store_commit 100 \<lparr>file_offset = 5, cp_checksum = 0, cp_version = 1\<rparr> txn' example_dirs example_allocator = Inr (s', example_allocator, txn'') \<and>
    store_record s' (object_key_graveyard_entry 4 6) = Some VSome \<and>
    dir_lookup (find_fuel s') ''a'' s' (directory_new 5) = Inr (Some (6, FileDescriptor))"
proof -
  have "mutations (transaction_new Borrowed [] []) = []" by (simp add: transaction_new_def)
  from replace_child_onto_itself [OF example_dirs_movable(1,2) this example_dirs_movable(3,5), of timestamp_zero "\<lparr>file_offset = 5, cp_checksum = 0, cp_version = 1\<rparr>"] show ?thesis
    by (simp add: example_info_def)
qed

section \<open>Adding children\<close>

text \<open>A child that is inserted is bound once the transaction commits, and no other name changes.\<close>

lemma insert_child_binds:
  assumes "writable fuel s" "os_store_object_id s \<noteq> alloc_object_id a" "mutations txn = []" "is_directory s d"
  shows "\<exists>txn' s' txn''. insert_child fuel now name oid descriptor s d txn = Inr txn' \<and>
    store_commit fuel cp txn' s a = Inr (s', a, txn'') \<and> store_ok s' \<and>
    (\<forall>e m fuel'. \<not> d_is_deleted e \<longrightarrow> find_fuel s' \<le> fuel' \<longrightarrow>
       dir_lookup fuel' m s' e =
         (if (d_object_id e, m) = (d_object_id d, name) then Inr (Some (oid, descriptor)) else dir_lookup fuel m s e))"
proof -
  let ?sid = "os_store_object_id s"
  from put_record [OF assms(1) replaces_only_empty [OF assms(3)], of "object_key_child (d_object_id d) name" "VChild oid descriptor"]
  obtain old t1 where t1: "txn_add ?sid (replace_or_insert_object (object_key_child (d_object_id d) name) (VChild oid descriptor)) txn = Inr (old, t1)"
    "replaces_only ?sid t1" "txn_record s t1 = (store_record s)(object_key_child (d_object_id d) name \<mapsto> VChild oid descriptor)"
    by (auto simp: txn_record_empty [OF assms(3)])
  from assms(4) t1(3) obtain n at where d: "\<not> d_is_deleted d" "txn_record s t1 (object_key_object (d_object_id d)) = Some (VObject (Directory n) at)"
    by (auto simp: is_directory_def)
  have "(if False then add_sub_dirs 0 else Inr) i = Inr (i\<lparr>value := VObject (Directory n) a\<rparr>)"
    if "value i = VObject (Directory n) a" for i :: "encryption_keys object_item" and a using that by (cases i) simp
  from update_attributes_record [OF assms(1) t1(2) d this, of None "Some now"] obtain t2 at' where
    t2: "dir_update_attributes fuel None (Some now) Inr s d t1 = Inr t2" "replaces_only ?sid t2"
    "txn_record s t2 = (txn_record s t1)(object_key_object (d_object_id d) \<mapsto> VObject (Directory n) at')" by auto
  have ok: "store_ok s" "find_fuel s \<le> fuel" using assms(1) by (simp_all add: writable_def)
  from commit_records [OF ok(1) t2(2) assms(2), of fuel cp] obtain s' txn'' where
    c: "store_commit fuel cp t2 s a = Inr (s', a, txn'')" "store_ok s'" "store_record s' = txn_record s t2" by blast
  have "dir_lookup fuel' m s' e =
      (if (d_object_id e, m) = (d_object_id d, name) then Inr (Some (oid, descriptor)) else dir_lookup fuel m s e)"
    if "\<not> d_is_deleted e" "find_fuel s' \<le> fuel'" for e m fuel'
    unfolding dir_lookup_record [OF ok that(1)] dir_lookup_record [OF c(2) that(2,1)] c(3) t2(3) t1(3)
    by (simp add: child_value_def)
  moreover have "insert_child fuel now name oid descriptor s d txn = Inr t2" using d(1) t1(1) t2(1) by (simp add: insert_child_def)
  ultimately show ?thesis using c(1,2) by blast
qed

text \<open>
  C39: a directory that gets a child in the transaction that creates it is not counted. The mutation that
  creates the directory inserts its record, which adds one to the store's object count and, on replay,
  notes the object's id; the update of the directory's times replaces that mutation in the transaction by
  one that only replaces a record, and applying it changes neither the count nor the last object id.
\<close>

theorem child_of_new_dir_loses_count:
  assumes "txn_ok txn" "dir_create aes id_key now s txn = Inr (d, s1, t1)"
    and "insert_child fuel now' name oid descriptor s1 d t1 = Inr t2"
  shows "\<exists>m1 m2.
    get_object_mutation (os_store_object_id s1) (object_key_object (d_object_id d)) t1 = Some m1 \<and>
    get_object_mutation (os_store_object_id s1) (object_key_object (d_object_id d)) t2 = Some m2 \<and>
    (\<forall>fuel' cp mode u u' i. store_apply_mutation fuel' cp (ObjectStoreM m1) mode u = Inr u' \<longrightarrow> os_store_info u = Info i \<longrightarrow>
       os_store_info u' = Info (i\<lparr>object_count := adjusted_count (object_count i) 1\<rparr>) \<and>
       (\<not> is_live mode \<longrightarrow> os_last_object_id u' = lid_update (d_object_id d) (os_last_object_id u))) \<and>
    (\<forall>fuel' cp mode u u'. store_apply_mutation fuel' cp (ObjectStoreM m2) mode u = Inr u' \<longrightarrow>
       os_store_info u' = os_store_info u \<and> os_last_object_id u' = os_last_object_id u)"
proof -
  let ?k = "object_key_object (d_object_id d)" and ?sid = "os_store_object_id s1"
  let ?v = "VObject (Directory 0) \<lparr>creation_time = now, modification_time = now\<rparr> :: encryption_keys object_value"
  define m1 where "m1 = \<lparr>osm_item = item_new ?k ?v, osm_op = OpInsert\<rparr>"
  from assms(2) obtain x where c: "txn_add ?sid (ObjectStoreM m1) txn = Inr (x, t1)" and d: "\<not> d_is_deleted d"
    by (auto simp: dir_create_def bind_res_eq_Inr insert_object_def m1_def directory_new_def)
  note t1 = txn_add_last_wins [OF assms(1) c]
  from assms(3) d obtain y t where a: "txn_add ?sid (replace_or_insert_object (object_key_child (d_object_id d) name) (VChild oid descriptor)) t1 = Inr (y, t)"
    and u: "dir_update_attributes fuel None (Some now') Inr s1 d t = Inr t2"
    by (auto simp: insert_child_def bind_res_eq_Inr)
  note t = txn_add_last_wins [of t1, OF _ a [unfolded replace_or_insert_object_def]]
  have "get_object_mutation ?sid ?k t = Some m1" and ok: "txn_ok t"
    using t1 t by (simp_all add: m1_def item_new_def)
  with u d obtain z v where b: "txn_add ?sid (replace_or_insert_object ?k v) t = Inr (z, t2)"
    by (auto simp: dir_update_attributes_def bind_res_eq_Inr m1_def item_new_def)
  define m2 where "m2 = \<lparr>osm_item = item_new ?k v, osm_op = OpReplaceOrInsert\<rparr>"
  have "get_object_mutation ?sid ?k t1 = Some m1" using t1 by (simp add: m1_def item_new_def)
  moreover have "get_object_mutation ?sid ?k t2 = Some m2"
    using txn_add_last_wins [OF ok b [unfolded replace_or_insert_object_def]] by (simp add: m2_def item_new_def)
  moreover have "os_store_info w' = Info (i\<lparr>object_count := adjusted_count (object_count i) 1\<rparr>) \<and>
      (\<not> is_live mode \<longrightarrow> os_last_object_id w' = lid_update (d_object_id d) (os_last_object_id w))"
    if "store_apply_mutation fuel' cp (ObjectStoreM m1) mode w = Inr w'" "os_store_info w = Info i" for fuel' cp mode w w' i
    using that by (auto simp: store_apply_mutation_def apply_object_mutation_def m1_def item_new_def bind_res_eq_Inr
        adjust_object_count_def Let_def update_last_object_id_def object_key_object_def split: if_splits)
  moreover have "os_store_info w' = os_store_info w \<and> os_last_object_id w' = os_last_object_id w"
    if "store_apply_mutation fuel' cp (ObjectStoreM m2) mode w = Inr w'" for fuel' cp mode w w'
    using that by (auto simp: store_apply_mutation_def apply_object_mutation_def m2_def bind_res_eq_Inr Let_def)
  ultimately show ?thesis by blast
qed

theorem child_of_new_dir_loses_count_witness:
  "\<exists>d s1 t1 t2 m2. dir_create (\<lambda>_ b. b) (\<lparr>wrapping_key_id = 0, wrapped_key_bytes = []\<rparr>, []) timestamp_zero example_dirs (transaction_new Borrowed [] []) = Inr (d, s1, t1) \<and>
    insert_child 100 timestamp_zero ''x'' 6 FileDescriptor s1 d t1 = Inr t2 \<and>
    get_object_mutation 7 (object_key_object 1) t2 = Some m2 \<and>
    (\<forall>u'. store_apply_mutation 100 \<lparr>file_offset = 5, cp_checksum = 0, cp_version = 1\<rparr> (ObjectStoreM m2) (Live None) example_dirs = Inr u' \<longrightarrow> os_store_info u' = os_store_info example_dirs)"
proof -
  let ?t = "transaction_new Borrowed [] []"
  let ?m = "insert_object (object_key_object 1) (VObject (Directory 0) \<lparr>creation_time = timestamp_zero, modification_time = timestamp_zero\<rparr>)"
  have total: "\<exists>old txn'. txn_add oid m txn = Inr (old, txn')" if "oid \<noteq> 0" for oid m txn
    using that by (simp add: txn_add_def split_beta)
  obtain x t1 where t1: "txn_add 7 ?m ?t = Inr (x, t1)" using total [of 7 ?m ?t] by auto
  obtain d s1 where c: "dir_create (\<lambda>_ b. b) (\<lparr>wrapping_key_id = 0, wrapped_key_bytes = []\<rparr>, []) timestamp_zero example_dirs ?t = Inr (d, s1, t1)" "d = directory_new 1" "os_store_object_id s1 = 7"
    using t1 by (simp add: dir_create_def get_next_object_id_def maybe_get_next_object_id_def should_create_cipher_def object_id_lo_def
        example_dirs_defs last_object_id_default_def lid_get_next_object_id_def u64_add_def u64_max_def)
  let ?a = "replace_or_insert_object (object_key_child 1 ''x'') (VChild 6 FileDescriptor)"
  obtain y t where a: "txn_add 7 ?a t1 = Inr (y, t)" using total [of 7 ?a t1] by auto
  note w = txn_add_last_wins [OF txn_new_ok t1 [unfolded insert_object_def]] and w' = txn_add_last_wins [OF _ a [unfolded replace_or_insert_object_def]]
  have g: "get_object_mutation 7 (object_key_object 1) t =
      Some \<lparr>osm_item = item_new (object_key_object 1) (VObject (Directory 0) \<lparr>creation_time = timestamp_zero, modification_time = timestamp_zero\<rparr>), osm_op = OpInsert\<rparr>"
    using w w' by (simp add: item_new_def)
  let ?b = "replace_or_insert_object (object_key_object 1)
    (VObject (Directory 0) (set_times None (Some timestamp_zero) \<lparr>creation_time = timestamp_zero, modification_time = timestamp_zero\<rparr>))"
  obtain z t2 where b: "txn_add 7 ?b t = Inr (z, t2)" using total [of 7 ?b t] by auto
  have i: "insert_child 100 timestamp_zero ''x'' 6 FileDescriptor s1 d t1 = Inr t2"
    using c(2,3) a g b by (simp add: insert_child_def dir_update_attributes_def directory_new_def item_new_def)
  from child_of_new_dir_loses_count [OF txn_new_ok c(1) i] show ?thesis using c i by (auto simp: directory_new_def)
qed

end
