(* ===== verification/Graveyard_Volume.thy ===== *)
theory Graveyard_Volume
  imports Directory_Correct
begin

text \<open>
  The graveyard (\<^verbatim>\<open>src/src/object_store/graveyard.rs\<close>) and volumes (\<^verbatim>\<open>src/src/object_store/volume.rs\<close>).

  The channel to the reaper task is the list of the messages that were not received yet; sending on a
  closed channel fails. A sender of a flush message is a number. \<^verbatim>\<open>reap_task\<close> takes the tombstone and
  trim operations as arguments, as functions to their result and the state they leave, because it goes
  on after an error. Stores are the object manager's map, and the transactions that the file system
  hands out are a parameter.
\<close>

section \<open>The graveyard\<close>

datatype message = TombstoneMsg nat nat | TrimMsg nat nat | FlushMsg nat

datatype reaper_task = NoTask | PendingTask | RunningTask

record graveyard =
  gy_task :: reaper_task
  gy_channel :: "message list"
  gy_closed :: bool

definition graveyard_new :: graveyard where
  "graveyard_new = \<lparr>gy_task = PendingTask, gy_channel = [], gy_closed = False\<rparr>"

definition graveyard_create :: "timestamp \<Rightarrow> object_store \<Rightarrow> transaction \<Rightarrow> (nat \<times> object_store \<times> transaction) res" where
  "graveyard_create now s txn =
     bind_res (maybe_get_next_object_id s) (\<lambda>(oid, s).
     bind_res (ensure (oid \<noteq> 0) Panic) (\<lambda>_.
     bind_res (txn_add (os_store_object_id s)
                 (insert_object (object_key_object oid)
                    (VObject Graveyard \<lparr>creation_time = now, modification_time = now\<rparr>)) txn) (\<lambda>(_, txn).
       Inr (oid, s, txn))))"

definition reap_async :: "graveyard \<Rightarrow> graveyard" where
  "reap_async self = (if gy_task self = PendingTask then self\<lparr>gy_task := RunningTask\<rparr> else self)"

definition unbounded_send :: "message \<Rightarrow> graveyard \<Rightarrow> graveyard option" where
  "unbounded_send m self = (if gy_closed self then None else Some (self\<lparr>gy_channel := gy_channel self @ [m]\<rparr>))"

definition queue_tombstone :: "nat \<Rightarrow> nat \<Rightarrow> graveyard \<Rightarrow> graveyard" where
  "queue_tombstone store_id oid self = (case unbounded_send (TombstoneMsg store_id oid) self of Some g \<Rightarrow> g | None \<Rightarrow> self)"

definition queue_trim :: "nat \<Rightarrow> nat \<Rightarrow> graveyard \<Rightarrow> graveyard" where
  "queue_trim store_id oid self = (case unbounded_send (TrimMsg store_id oid) self of Some g \<Rightarrow> g | None \<Rightarrow> self)"

text \<open>\<^verbatim>\<open>flush\<close> up to the wait for the answer.\<close>

definition flush_send :: "nat \<Rightarrow> graveyard \<Rightarrow> graveyard res" where
  "flush_send sender self = (case unbounded_send (FlushMsg sender) self of Some g \<Rightarrow> Inr g | None \<Rightarrow> Inl Panic)"

text \<open>The senders that were notified, in order, and the state at the end.\<close>

fun reap_task ::
  "(nat \<Rightarrow> nat \<Rightarrow> 's \<Rightarrow> unit res \<times> 's) \<Rightarrow> (nat \<Rightarrow> nat \<Rightarrow> 's \<Rightarrow> unit res \<times> 's) \<Rightarrow> message list \<Rightarrow> 's \<Rightarrow> nat list \<times> 's" where
  "reap_task do_tombstone do_trim [] s = ([], s)"
| "reap_task do_tombstone do_trim (TombstoneMsg store_id oid # ms) s =
     reap_task do_tombstone do_trim ms (snd (do_tombstone store_id oid s))"
| "reap_task do_tombstone do_trim (TrimMsg store_id oid # ms) s =
     reap_task do_tombstone do_trim ms (snd (do_trim store_id oid s))"
| "reap_task do_tombstone do_trim (FlushMsg sender # ms) s =
     (let (senders, s) = reap_task do_tombstone do_trim ms s in (sender # senders, s))"

text \<open>\<^verbatim>\<open>wait_for_reap\<close>: the channel is closed, and a running task has received every message when it ends.\<close>

definition wait_for_reap ::
  "(nat \<Rightarrow> nat \<Rightarrow> 's \<Rightarrow> unit res \<times> 's) \<Rightarrow> (nat \<Rightarrow> nat \<Rightarrow> 's \<Rightarrow> unit res \<times> 's) \<Rightarrow> graveyard \<Rightarrow> 's \<Rightarrow>
   nat list \<times> graveyard \<times> 's" where
  "wait_for_reap do_tombstone do_trim self s =
     (let self' = self\<lparr>gy_closed := True, gy_task := NoTask, gy_channel := []\<rparr> in
      if gy_task self = RunningTask
      then let (senders, s) = reap_task do_tombstone do_trim (gy_channel self) s in (senders, self', s)
      else ([], self', s))"

record reap_options =
  skip_journal_checks :: bool
  borrow_metadata_space :: bool
  uses_metadata_reservation :: bool

definition tombstone_options :: "nat \<Rightarrow> nat \<Rightarrow> nat \<Rightarrow> reap_options" where
  "tombstone_options root_parent_id root_store_id store_id =
     \<lparr>skip_journal_checks = True, borrow_metadata_space = True,
      uses_metadata_reservation = (store_id = root_parent_id \<or> store_id = root_store_id)\<rparr>"

definition graveyard_tombstone ::
  "nat \<Rightarrow> nat \<Rightarrow> (nat \<Rightarrow> checkpoint) \<Rightarrow> (reap_options \<Rightarrow> nat \<Rightarrow> transaction) \<Rightarrow> nat \<Rightarrow> nat \<Rightarrow> nat \<Rightarrow> nat \<Rightarrow>
   (nat \<times> object_store) list \<Rightarrow> simple_allocator \<Rightarrow> ((nat \<times> object_store) list \<times> simple_allocator) res" where
  "graveyard_tombstone n fuel cp new_txn root_parent_id root_store_id store_id oid stores a =
     (case bt_get stores store_id of
        None \<Rightarrow> Inl Bail
      | Some s \<Rightarrow>
          bind_res (tombstone n fuel cp (new_txn (tombstone_options root_parent_id root_store_id store_id)) oid s a) (\<lambda>(s, a).
            Inr (bt_insert store_id s stores, a)))"

text \<open>The parent of the store's parent is looked up among the stores.\<close>

definition graveyard_trim ::
  "nat \<Rightarrow> nat \<Rightarrow> (nat \<Rightarrow> checkpoint) \<Rightarrow> (nat \<Rightarrow> transaction) \<Rightarrow> nat \<Rightarrow> nat \<Rightarrow>
   (nat \<times> object_store) list \<Rightarrow> simple_allocator \<Rightarrow> ((nat \<times> object_store) list \<times> simple_allocator) res" where
  "graveyard_trim n fuel cp new_txn store_id oid stores a =
     (case bt_get stores store_id of
        None \<Rightarrow> Inl Bail
      | Some s \<Rightarrow>
          let grandparent = (case os_parent s of
                               None \<Rightarrow> False
                             | Some p \<Rightarrow> (case bt_get stores p of None \<Rightarrow> False | Some ps \<Rightarrow> os_parent ps \<noteq> None)) in
          bind_res (trim n fuel cp new_txn grandparent oid s a) (\<lambda>(s, a).
            Inr (bt_insert store_id s stores, a)))"

section \<open>Iterating over the graveyard\<close>

record graveyard_iter =
  gi_object_id :: nat
  gi_iter :: "encryption_keys object_item list"

definition graveyard_iter_new :: "nat \<Rightarrow> encryption_keys object_item list \<Rightarrow> graveyard_iter" where
  "graveyard_iter_new oid items = \<lparr>gi_object_id = oid, gi_iter = skip_deleted oid items\<rparr>"

definition graveyard_iter_from :: "nat \<Rightarrow> nat \<Rightarrow> nat \<Rightarrow> object_store \<Rightarrow> graveyard_iter res" where
  "graveyard_iter_from fuel gid from_id s =
     bind_res (object_iter fuel (os_tree s) (object_key_graveyard_entry gid from_id)) (\<lambda>items.
       Inr (graveyard_iter_new gid items))"

definition graveyard_iter_get :: "graveyard_iter \<Rightarrow> (nat \<times> nat \<times> encryption_keys object_value) option" where
  "graveyard_iter_get self =
     (case gi_iter self of
        [] \<Rightarrow> None
      | i # _ \<Rightarrow>
          (case data (key i) of
             GraveyardEntry oid \<Rightarrow>
               if object_id (key i) = gi_object_id self then Some (oid, sequence i, value i) else None
           | _ \<Rightarrow> None))"

definition graveyard_iter_advance :: "graveyard_iter \<Rightarrow> graveyard_iter" where
  "graveyard_iter_advance self = self\<lparr>gi_iter := skip_deleted (gi_object_id self) (tl (gi_iter self))\<rparr>"

lemma graveyard_advance_shorter:
  assumes "graveyard_iter_get it = Some e"
  shows "length (gi_iter (graveyard_iter_advance it)) < length (gi_iter it)"
proof -
  have "gi_iter it \<noteq> []" using assms by (auto simp: graveyard_iter_get_def)
  then have "length (tl (gi_iter it)) < length (gi_iter it)" by simp
  moreover have "length (skip_deleted (gi_object_id it) (tl (gi_iter it))) \<le> length (tl (gi_iter it))"
    by (simp only: skip_deleted_def length_dropWhile_le)
  ultimately show ?thesis by (simp add: graveyard_iter_advance_def)
qed

text \<open>The loop of \<^verbatim>\<open>initial_reap\<close>; what was queued before an error stays queued.\<close>

function reap_loop :: "nat \<Rightarrow> graveyard_iter \<Rightarrow> nat \<Rightarrow> graveyard \<Rightarrow> nat res \<times> graveyard" where
  "reap_loop store_id it n g =
     (case graveyard_iter_get it of
        None \<Rightarrow> (Inr n, g)
      | Some (oid, _, v) \<Rightarrow>
          (case v of
             VSome \<Rightarrow> reap_loop store_id (graveyard_iter_advance it) (n + 1) (queue_tombstone store_id oid g)
           | VTrim \<Rightarrow> reap_loop store_id (graveyard_iter_advance it) (n + 1) (queue_trim store_id oid g)
           | _ \<Rightarrow> (Inl (Fxfs Inconsistent), g)))"
  by pat_completeness auto
termination
  by (relation "measure (\<lambda>(_, it, _). length (gi_iter it))") (auto intro: graveyard_advance_shorter)

declare reap_loop.simps [simp del]

definition initial_reap :: "nat \<Rightarrow> bool \<Rightarrow> object_store \<Rightarrow> graveyard \<Rightarrow> nat res \<times> graveyard" where
  "initial_reap fuel skip_initial_reap s self =
     (if skip_initial_reap then (Inr 0, self)
      else
        case bind_res (sri_info (os_store_info s)) (\<lambda>si. graveyard_iter_from fuel (graveyard_directory_object_id si) 0 s) of
          Inl e \<Rightarrow> (Inl e, self)
        | Inr it \<Rightarrow> reap_loop (os_store_object_id s) it 0 self)"

section \<open>Volumes\<close>

function list_volumes_loop :: "dir_iter \<Rightarrow> nat list \<Rightarrow> nat list" where
  "list_volumes_loop it object_ids =
     (case dir_iter_get it of
        None \<Rightarrow> object_ids
      | Some (_, oid, _) \<Rightarrow> list_volumes_loop (dir_iter_advance it) (object_ids @ [oid]))"
  by pat_completeness auto
termination
  by (relation "measure (\<lambda>(it, _). length (di_iter it))") (auto intro: dir_advance_shorter)

declare list_volumes_loop.simps [simp del]

definition list_volumes :: "nat \<Rightarrow> object_store \<Rightarrow> directory \<Rightarrow> nat list res" where
  "list_volumes fuel s volume_directory =
     bind_res (dir_iter_all fuel s volume_directory) (\<lambda>it. Inr (list_volumes_loop it []))"

definition volume_object_id :: "nat \<Rightarrow> string \<Rightarrow> object_store \<Rightarrow> directory \<Rightarrow> nat res" where
  "volume_object_id fuel volume_name root_store volume_directory =
     bind_res (dir_lookup fuel volume_name root_store volume_directory) (\<lambda>found.
       case found of
         None \<Rightarrow> Inl (Fxfs NotFound)
       | Some (oid, VolumeDescriptor) \<Rightarrow> Inr oid
       | Some _ \<Rightarrow> Inl (Fxfs Inconsistent))"

text \<open>\<^verbatim>\<open>volume_from_id\<close>; \<open>unlock\<close> is the store's operation with the caller's crypt service.\<close>

definition volume_from_id ::
  "(object_store \<Rightarrow> object_store res) option \<Rightarrow> nat \<Rightarrow> (nat \<times> object_store) list \<Rightarrow> object_store res" where
  "volume_from_id unlock store_object_id stores =
     (case bt_get stores store_object_id of
        None \<Rightarrow> Inl (Fxfs NotFound)
      | Some s \<Rightarrow>
          (case unlock of
             Some f \<Rightarrow> f s
           | None \<Rightarrow> if is_locked s then Inl (Fxfs AccessDenied) else Inr s))"

definition volume ::
  "nat \<Rightarrow> (object_store \<Rightarrow> object_store res) option \<Rightarrow> string \<Rightarrow> object_store \<Rightarrow> directory \<Rightarrow> (nat \<times> object_store) list \<Rightarrow>
   object_store res" where
  "volume fuel unlock volume_name root_store volume_directory stores =
     bind_res (volume_object_id fuel volume_name root_store volume_directory) (\<lambda>oid. volume_from_id unlock oid stores)"

fun adjust_refs_all :: "nat \<Rightarrow> nat list \<Rightarrow> object_store \<Rightarrow> transaction \<Rightarrow> transaction res" where
  "adjust_refs_all fuel [] root_store txn = Inr txn"
| "adjust_refs_all fuel (oid # oids) root_store txn =
     bind_res (adjust_refs fuel oid (- 1) root_store txn) (\<lambda>(_, txn). adjust_refs_all fuel oids root_store txn)"

text \<open>
  The transaction of \<^verbatim>\<open>delete_volume\<close>, with the objects that it tombstones after the commit.
\<close>

definition delete_volume ::
  "nat \<Rightarrow> simple_allocator \<Rightarrow> string \<Rightarrow> object_store \<Rightarrow> directory \<Rightarrow> (nat \<times> object_store) list \<Rightarrow> transaction \<Rightarrow> (nat list \<times> transaction) res" where
  "delete_volume fuel a volume_name root_store volume_directory stores txn =
     bind_res (volume_object_id fuel volume_name root_store volume_directory) (\<lambda>oid.
     case bt_get stores oid of
       None \<Rightarrow> Inl (Fxfs NotFound)
     | Some s \<Rightarrow>
         bind_res (parent_objects s) (\<lambda>layers.
         let objects_to_delete = layers @ [os_store_object_id s] in
         bind_res (adjust_refs_all fuel objects_to_delete root_store txn) (\<lambda>txn.
         bind_res (mark_for_deletion (os_store_object_id s) a txn) (\<lambda>txn.
         bind_res (delete_child_volume volume_name (os_store_object_id s) root_store volume_directory txn) (\<lambda>txn.
           Inr (objects_to_delete, txn))))))"

text \<open>The volumes that are listed are the objects of the directory's entries.\<close>

lemma list_volumes_loop_entries: "list_volumes_loop it ids = ids @ map (\<lambda>(_, oid, _). oid) (dir_entries it)"
proof (induction it ids rule: list_volumes_loop.induct)
  case (1 it ids)
  then show ?case
    by (subst list_volumes_loop.simps, subst dir_entries.simps) (auto split: option.splits)
qed

section \<open>What the first reap queues\<close>

definition grave_of :: "nat \<Rightarrow> encryption_keys object_item \<Rightarrow> (nat \<times> nat \<times> encryption_keys object_value) option" where
  "grave_of gid i =
     (case data (key i) of
        GraveyardEntry oid \<Rightarrow> if object_id (key i) = gid then Some (oid, sequence i, value i) else None
      | _ \<Rightarrow> None)"

definition reap_message :: "nat \<Rightarrow> nat \<times> nat \<times> encryption_keys object_value \<Rightarrow> message" where
  "reap_message store_id e = (if snd (snd e) = VTrim then TrimMsg store_id (fst e) else TombstoneMsg store_id (fst e))"

abbreviation grave_deleted :: "nat \<Rightarrow> encryption_keys object_item \<Rightarrow> bool" where
  "grave_deleted gid i \<equiv> object_id (key i) = gid \<and> value i = VNone"

lemma grave_key [simp]:
  "object_id (object_key_graveyard_entry gid oid) = gid" "data (object_key_graveyard_entry gid oid) = GraveyardEntry oid"
  by (simp_all add: object_key_graveyard_entry_def)

lemma grave_of_iff:
  "grave_of gid i = Some (oid, q, v) \<longleftrightarrow> key i = object_key_graveyard_entry gid oid \<and> sequence i = q \<and> value i = v"
  by (cases "key i") (auto simp: grave_of_def object_key_graveyard_entry_def split: object_key_data.splits)

lemma reap_loop_live:
  assumes "\<forall>e \<in> set (live_entries (grave_deleted gid) (grave_of gid) es). snd (snd e) = VSome \<or> snd (snd e) = VTrim" "\<not> gy_closed g"
  shows "reap_loop sid \<lparr>gi_object_id = gid, gi_iter = skip_deleted gid es\<rparr> n g =
    (let L = live_entries (grave_deleted gid) (grave_of gid) es
     in (Inr (n + length L), g\<lparr>gy_channel := gy_channel g @ map (reap_message sid) L\<rparr>))"
  using assms
proof (induction es arbitrary: n g)
  case Nil
  show ?case by (subst reap_loop.simps) (simp add: skip_deleted_def graveyard_iter_get_def)
next
  case (Cons i es)
  show ?case
  proof (cases "grave_deleted gid i")
    case True
    then show ?thesis using Cons by (simp add: skip_deleted_def)
  next
    case False
    then have skip: "skip_deleted gid (i # es) = i # es" by (auto simp: skip_deleted_def)
    have get: "graveyard_iter_get \<lparr>gi_object_id = gid, gi_iter = i # es\<rparr> = grave_of gid i"
      by (simp add: graveyard_iter_get_def grave_of_def split: object_key_data.splits)
    show ?thesis
    proof (cases "grave_of gid i")
      case None
      then show ?thesis unfolding skip using False by (subst reap_loop.simps) (auto simp: get)
    next
      case (Some e)
      obtain oid q v where e: "e = (oid, q, v)" by (cases e)
      have v: "v = VSome \<or> v = VTrim" using Cons.prems(1) False Some e by auto
      have adv: "graveyard_iter_advance \<lparr>gi_object_id = gid, gi_iter = i # es\<rparr> = \<lparr>gi_object_id = gid, gi_iter = skip_deleted gid es\<rparr>"
        by (simp add: graveyard_iter_advance_def)
      have L: "live_entries (grave_deleted gid) (grave_of gid) (i # es) = e # live_entries (grave_deleted gid) (grave_of gid) es"
        using False Some by auto
      have rest: "\<forall>e \<in> set (live_entries (grave_deleted gid) (grave_of gid) es). snd (snd e) = VSome \<or> snd (snd e) = VTrim"
        using Cons.prems(1) unfolding L by simp
      from v show ?thesis unfolding skip L using Cons.IH [OF rest] Cons.prems(2)
        by (subst reap_loop.simps)
           (auto simp: get Some e adv queue_tombstone_def queue_trim_def unbounded_send_def reap_message_def Let_def)
    qed
  qed
qed

lemma grave_bounds:
  "key_lo (object_key_graveyard_entry gid oid) = [gid, 4, oid]" "key_hi (object_key_graveyard_entry gid oid) = [gid, 4, oid, 0]"
  by (simp_all add: key_lo_def key_hi_def key_prefix_def object_key_graveyard_entry_def variant_index_def)

lemma grave_or_after:
  assumes "key_lo (object_key_graveyard_entry gid 0) < key_hi k"
  shows "(\<exists>oid. k = object_key_graveyard_entry gid oid) \<or> (\<forall>oid. key_hi (object_key_graveyard_entry gid oid) < key_hi k)"
  using assms
  by (cases k; cases "data k")
     (auto simp: grave_bounds key_lo_def key_hi_def key_prefix_def variant_index_def object_key_graveyard_entry_def split: attribute_key.splits)

lemma grave_live:
  assumes "sorted_wrt (\<lambda>i j. key_hi (key i) < key_hi (key j)) es"
    and "\<forall>i \<in> set es. key_lo (object_key_graveyard_entry gid 0) < key_hi (key i)"
  shows "live_entries (grave_deleted gid) (grave_of gid) es =
    List.map_filter (\<lambda>i. if grave_deleted gid i then None else grave_of gid i) es"
proof (rule live_entries_filter, rule sorted_wrt_mono_rel [OF _ assms(1)], intro impI)
  fix i j :: "encryption_keys object_item"
  assume ij: "i \<in> set es" "key_hi (key i) < key_hi (key j)" "grave_of gid i = None"
  then have "\<nexists>oid. key i = object_key_graveyard_entry gid oid" by (auto simp: grave_of_def object_key_graveyard_entry_def)
  then have "\<forall>oid. key_hi (object_key_graveyard_entry gid oid) < key_hi (key i)"
    using grave_or_after [of gid "key i"] assms(2) ij(1) by blast
  then have "grave_of gid j = None" using ij(2) by (metis grave_of_iff less_asym not_None_eq prod_cases3)
  then show "grave_deleted gid j \<or> grave_of gid j = None" ..
qed

lemma grave_messages_distinct:
  assumes "sorted_wrt (\<lambda>i j. key_hi (key i) < key_hi (key j)) es"
  shows "distinct (map (reap_message sid) (List.map_filter (\<lambda>i. if grave_deleted gid i then None else grave_of gid i) es))"
  using assms
proof (induction es)
  case (Cons i es)
  have "reap_message sid e \<noteq> reap_message sid e'"
    if "grave_of gid i = Some e" "j \<in> set es" "grave_of gid j = Some e'" for e j e'
  proof -
    have "key_hi (key i) < key_hi (key j)" using Cons.prems that(2) by simp
    then have "fst e \<noteq> fst e'" using that(1,3) by (cases e; cases e') (auto simp: grave_of_iff)
    then show ?thesis by (auto simp: reap_message_def)
  qed
  then show ?case using Cons by (force simp: map_filter_simps in_map_filter split: option.splits if_splits)
qed (simp add: map_filter_simps)

text \<open>
  C23: the reap at mount time queues exactly the live entries of the graveyard. Each object whose graveyard record
  asks for its deletion gets one tombstone message, each one whose record asks for a trim gets one trim
  message, removed entries get none, the messages follow those that were queued before, and the
  count that is returned is their number. The reap is not skipped (\<^verbatim>\<open>skip_initial_reap\<close> is off), the channel is
  open, and the store is unlocked, with well-formed layers that have no object tombstones
  (\<^term>\<open>store_ok\<close>).
\<close>

theorem initial_reap_queues:
  assumes "store_ok s" "find_fuel s \<le> fuel" "os_store_info s = Info si" "\<not> gy_closed g"
    and "\<forall>oid v. store_record s (object_key_graveyard_entry (graveyard_directory_object_id si) oid) = Some v \<longrightarrow>
      v = VNone \<or> v = VSome \<or> v = VTrim"
  shows "\<exists>ms. initial_reap fuel False s g = (Inr (length ms), g\<lparr>gy_channel := gy_channel g @ ms\<rparr>) \<and> distinct ms \<and>
    set ms =
      {TombstoneMsg (os_store_object_id s) oid | oid.
         store_record s (object_key_graveyard_entry (graveyard_directory_object_id si) oid) = Some VSome} \<union>
      {TrimMsg (os_store_object_id s) oid | oid.
         store_record s (object_key_graveyard_entry (graveyard_directory_object_id si) oid) = Some VTrim}"
proof -
  let ?gid = "graveyard_directory_object_id si" and ?sid = "os_store_object_id s"
  from store_iterates_records [OF assms(1) _ assms(2), of "object_key_graveyard_entry ?gid 0"] obtain es where
    es: "object_iter fuel (os_tree s) (object_key_graveyard_entry ?gid 0) = Inr es"
    and sorted: "sorted_wrt (\<lambda>i j. key_hi (key i) < key_hi (key j)) es"
    and after: "\<forall>i \<in> set es. key_lo (object_key_graveyard_entry ?gid 0) < key_hi (key i)"
    and recs: "\<And>l v. record_key l \<Longrightarrow> key_lo (object_key_graveyard_entry ?gid 0) \<le> key_lo l \<Longrightarrow>
      (\<exists>i \<in> set es. key i = l \<and> value i = v) \<longleftrightarrow> store_record s l = Some v" by auto
  define L where "L = live_entries (grave_deleted ?gid) (grave_of ?gid) es"
  have live: "L = List.map_filter (\<lambda>i. if grave_deleted ?gid i then None else grave_of ?gid i) es"
    unfolding L_def by (rule grave_live [OF sorted after])
  have rec: "(\<exists>q. (oid, q, v) \<in> set L) \<longleftrightarrow> v \<noteq> VNone \<and> store_record s (object_key_graveyard_entry ?gid oid) = Some v" for oid v
    using recs [of "object_key_graveyard_entry ?gid oid" v]
    by (auto simp: live in_map_filter grave_of_iff grave_bounds split: if_splits)
  have vals: "snd (snd e) = VSome \<or> snd (snd e) = VTrim" if "e \<in> set L" for e
  proof -
    obtain oid q v where e: "e = (oid, q, v)" by (rule prod_cases3)
    then have "v \<noteq> VNone" "store_record s (object_key_graveyard_entry ?gid oid) = Some v" using rec [of oid v] that by blast+
    then show ?thesis using assms(5) e by auto
  qed
  have "initial_reap fuel False s g = (Inr (length (map (reap_message ?sid) L)), g\<lparr>gy_channel := gy_channel g @ map (reap_message ?sid) L\<rparr>)"
    using reap_loop_live [of ?gid es g ?sid 0] vals assms(3,4) es
    by (simp add: initial_reap_def sri_info_def graveyard_iter_from_def graveyard_iter_new_def L_def Let_def)
  moreover have "distinct (map (reap_message ?sid) L)" unfolding live by (rule grave_messages_distinct [OF sorted])
  moreover have "set (map (reap_message ?sid) L) =
      {TombstoneMsg ?sid oid | oid. \<exists>q. (oid, q, VSome) \<in> set L} \<union> {TrimMsg ?sid oid | oid. \<exists>q. (oid, q, VTrim) \<in> set L}"
    using vals by (force simp: reap_message_def)
  ultimately show ?thesis unfolding rec by (intro exI [of _ "map (reap_message ?sid) L"]) simp
qed

text \<open>A graveyard with an object to delete, one to trim and an entry that was removed.\<close>

definition example_graves :: object_store where
  "example_graves = (object_store_new_empty (Some 2) 7 512)
     \<lparr>os_store_info := Info example_info,
      os_tree := \<lparr>mutable_layer =
        [item_new (object_key_object 4) (VObject Graveyard example_times),
         item_new (object_key_graveyard_entry 4 6) VSome,
         item_new (object_key_graveyard_entry 4 8) VNone,
         item_new (object_key_graveyard_entry 4 9) VTrim],
        immutable_layers = []\<rparr>\<rparr>"

theorem initial_reap_queues_witness:
  "\<exists>ms. initial_reap 100 False example_graves graveyard_new = (Inr (length ms), graveyard_new\<lparr>gy_channel := ms\<rparr>) \<and>
    distinct ms \<and> set ms = {TombstoneMsg 7 6, TrimMsg 7 9}"
proof -
  have ok: "store_ok example_graves" "find_fuel example_graves \<le> 100"
    by (simp_all add: store_ok_def find_fuel_def seek_fuel_def layer_weight_def example_graves_def object_store_new_empty_def
        object_store_new_def layer_set_def is_locked_def record_ok record_weight item_new_def is_tombstone_def grave_bounds object_bounds)
  have info: "os_store_info example_graves = Info example_info" "os_store_object_id example_graves = 7"
    "graveyard_directory_object_id example_info = 4" "\<not> gy_closed graveyard_new" "gy_channel graveyard_new = []"
    by (simp_all add: example_graves_def object_store_new_empty_def object_store_new_def example_info_def graveyard_new_def)
  have rec: "store_record example_graves (object_key_graveyard_entry 4 oid) =
      (if oid = 6 then Some VSome else if oid = 8 then Some VNone else if oid = 9 then Some VTrim else None)" for oid
    by (simp add: store_record_def example_graves_def object_store_new_empty_def object_store_new_def layer_set_def record_at
        record_same item_new_def object_bounds grave_bounds)
  have vals: "\<forall>oid v. store_record example_graves (object_key_graveyard_entry (graveyard_directory_object_id example_info) oid) = Some v \<longrightarrow>
      v = VNone \<or> v = VSome \<or> v = VTrim" by (simp add: info rec)
  have "{TombstoneMsg 7 oid | oid. store_record example_graves (object_key_graveyard_entry 4 oid) = Some VSome} \<union>
      {TrimMsg 7 oid | oid. store_record example_graves (object_key_graveyard_entry 4 oid) = Some VTrim} = {TombstoneMsg 7 6, TrimMsg 7 9}"
  proof -
    have "store_record example_graves (object_key_graveyard_entry 4 oid) = Some VSome \<longleftrightarrow> oid = 6"
      "store_record example_graves (object_key_graveyard_entry 4 oid) = Some VTrim \<longleftrightarrow> oid = 9" for oid
      by (simp_all add: rec)
    then show ?thesis by auto
  qed
  with initial_reap_queues [OF ok info(1,4) vals] show ?thesis by (simp add: info)
qed

end
