(* ===== verification/Super_Block_Roundtrip.thy ===== *)
theory Super_Block_Roundtrip
  imports Super_Block_Correct Journal_Reader_Correct
begin

text \<open>
  A super block that is written and read back: the bytes go through the block stream with its checksums, and the
  records through the serialiser, so what is read is what the root parent store held when it was written.
\<close>

section \<open>Writing\<close>

lemma block_size_ok_sb: "block_size_ok super_block_block_size"
  by (simp add: block_size_ok_def super_block_block_size_def)

lemma writer_offset:
  "block_size_ok bs \<Longrightarrow> file_offset (writer_file_checkpoint (writer_state bs cp s p)) = file_offset cp + payload_offset bs 0 (length p)"
  by (simp add: writer_file_checkpoint_def writer_buf_length) (simp add: writer_state_def)

text \<open>As long as the payload stays below the limit, nothing is allocated.\<close>

lemma small_payload_offset:
  assumes "n < 56 * (super_block_block_size - 8)"
  shows "payload_offset super_block_block_size 0 n < min_super_block_size - super_block_chunk_size"
proof -
  have "n div 8184 \<le> 55" "n mod 8184 < 8184" using assms by (auto simp: super_block_block_size_def)
  then show ?thesis by (simp add: payload_offset_def super_block_block_size_def min_super_block_size_def super_block_chunk_size_def)
qed

lemma maybe_extend_small:
  assumes "length p < 56 * (super_block_block_size - 8)" "file_offset cp = 0"
  shows "maybe_extend fuel ser preallocate \<lparr>sw_writer = writer_state super_block_block_size cp s p, next_extent_offset = min_super_block_size\<rparr> =
    Inr \<lparr>sw_writer = writer_state super_block_block_size cp s p, next_extent_offset = min_super_block_size\<rparr>"
  using small_payload_offset [OF assms(1)] assms(2)
  by (simp add: maybe_extend_def writer_offset [OF block_size_ok_sb] u64_sub_def min_super_block_size_def super_block_chunk_size_def)

lemma write_items_appends:
  assumes "length p + length (concat (map (ser \<circ> SbObjectItem) items)) < 56 * (super_block_block_size - 8)" "file_offset cp = 0"
    "\<forall>i \<in> set items. length (ser (SbObjectItem i)) < fuel"
  shows "write_items fuel ser preallocate items \<lparr>sw_writer = writer_state super_block_block_size cp s p, next_extent_offset = min_super_block_size\<rparr> =
    Inr \<lparr>sw_writer = writer_state super_block_block_size cp s (p @ concat (map (ser \<circ> SbObjectItem) items)), next_extent_offset = min_super_block_size\<rparr>"
  using assms(1,3)
proof (induction items arbitrary: p)
  case (Cons i items)
  then show ?case
    using maybe_extend_small [of p cp fuel ser preallocate s] writer_write_appends [OF block_size_ok_sb] assms(2)
    by (simp add: add.assoc)
qed simp

text \<open>What is written: the payload of the super block, padded to a block, in blocks with chained checksums.\<close>

definition sb_payload :: "(super_block_header \<Rightarrow> u8 list) \<Rightarrow> (super_block_record \<Rightarrow> u8 list) \<Rightarrow> super_block_header \<Rightarrow>
    encryption_keys object_item list \<Rightarrow> u8 list" where
  "sb_payload ser_header ser h items =
     super_block_magic @ ser_header h @ concat (map ser (map SbObjectItem items @ [SbEnd]))"

definition sb_padded :: "u8 list \<Rightarrow> u8 list" where
  "sb_padded p = p @ replicate ((super_block_block_size - 8 - length p mod (super_block_block_size - 8)) mod (super_block_block_size - 8)) 0"

definition sb_blocks :: "u8 list \<Rightarrow> u8 list list" where
  "sb_blocks p = full (super_block_block_size - 8) (sb_padded p)"

lemma padded_length: "0 < m \<Longrightarrow> m dvd (n + (m - n mod m) mod m)" for m n :: nat
proof -
  assume "0 < m"
  then have "(n + (m - n mod m) mod m) mod m = (n mod m + (m - n mod m)) mod m" by (metis mod_add_left_eq mod_add_right_eq)
  also have "n mod m + (m - n mod m) = m" using mod_less_divisor [OF \<open>0 < m\<close>, of n] by linarith
  finally show ?thesis by (simp add: dvd_eq_mod_eq_0)
qed

lemma sb_blocks_concat: "concat (sb_blocks p) = sb_padded p" "\<forall>c \<in> set (sb_blocks p). length c = super_block_block_size - 8"
proof -
  let ?m = "super_block_block_size - 8"
  have m: "0 < ?m" by (simp add: super_block_block_size_def)
  have "?m dvd length (sb_padded p)" using padded_length [OF m] by (simp add: sb_padded_def)
  then have "left ?m (sb_padded p) = []" using full_left(4) [OF m, of "sb_padded p"] by simp
  then show "concat (sb_blocks p) = sb_padded p" using full_left(1) [OF m, of "sb_padded p"] by (simp add: sb_blocks_def)
  show "\<forall>c \<in> set (sb_blocks p). length c = ?m" using full_left(2) [OF m] by (simp add: sb_blocks_def)
qed

lemma sb_blocks_ne: "p \<noteq> [] \<Longrightarrow> sb_blocks p \<noteq> []"
  using sb_blocks_concat(1) [of p] by (auto simp: sb_padded_def)

lemma super_block_write_bytes:
  assumes "os_store_object_id root_parent = sb_root_parent_store_object_id h" "super_block_items fuel root_parent = Inr items"
    and "length (sb_payload ser_header ser h items) < 56 * (super_block_block_size - 8)"
    and "super_block_block_size \<le> fuel" "length (ser_header h) < fuel" "\<forall>r \<in> set (map SbObjectItem items @ [SbEnd]). length (ser r) < fuel"
  shows "super_block_write fuel version ser_header ser preallocate h root_parent =
    Inr (0, enc_blocks 0 (sb_blocks (sb_payload ser_header ser h items)))"
proof -
  define cp where "cp = \<lparr>file_offset = 0, cp_checksum = 0, cp_version = version\<rparr>"
  have cp0: "file_offset cp = 0" by (simp add: cp_def)
  let ?w = "writer_state super_block_block_size cp 0" and ?p = "super_block_magic @ ser_header h" and ?q = "sb_payload ser_header ser h items"
  have new: "super_block_writer_new version = \<lparr>sw_writer = ?w [], next_extent_offset = min_super_block_size\<rparr>"
    using writer_refines_payload [OF block_size_ok_sb, of "[]" 8192 version 0] by (simp add: super_block_writer_new_def super_block_block_size_def cp_def)
  have magic: "writer_write fuel super_block_magic (?w []) = Inr (?w super_block_magic)"
    "writer_write fuel (ser_header h) (?w super_block_magic) = Inr (?w ?p)"
    using writer_write_appends [OF block_size_ok_sb] assms(4,5) by (simp_all add: super_block_magic_def super_block_block_size_def)
  have "length ?p + length (concat (map (ser \<circ> SbObjectItem) items)) < 56 * (super_block_block_size - 8)"
    using assms(3) by (simp add: sb_payload_def)
  then have items: "write_items fuel ser preallocate items \<lparr>sw_writer = ?w ?p, next_extent_offset = min_super_block_size\<rparr> =
      Inr \<lparr>sw_writer = ?w (?p @ concat (map (ser \<circ> SbObjectItem) items)), next_extent_offset = min_super_block_size\<rparr>"
    using assms(6) by (intro write_items_appends cp0) auto
  have "?p @ concat (map (ser \<circ> SbObjectItem) items) @ ser SbEnd = ?q" by (simp add: sb_payload_def)
  then have fin: "writer_write fuel (ser SbEnd) (?w (?p @ concat (map (ser \<circ> SbObjectItem) items))) = Inr (?w ?q)"
    using writer_write_appends [OF block_size_ok_sb] assms(6) by simp
  have pad: "pad_to_block fuel (?w ?q) = Inr (?w (sb_padded ?q))"
    using pad_to_block_payload [OF block_size_ok_sb assms(4)] by (simp add: sb_padded_def)
  have "?q \<noteq> []" by (simp add: sb_payload_def super_block_magic_def)
  then have "take_buffer (?w (sb_padded ?q)) = Inr (Some (0, enc_blocks 0 (sb_blocks ?q)),
      writer_state super_block_block_size (cp\<lparr>file_offset := length (sb_blocks ?q) * super_block_block_size, cp_checksum := chain 0 (sb_blocks ?q)\<rparr>)
        (chain 0 (sb_blocks ?q)) (left (super_block_block_size - 8) (sb_padded ?q)))"
    using take_buffer_payload [OF block_size_ok_sb, of cp 0 "sb_padded ?q"] sb_blocks_ne [of ?q] cp0 by (simp add: sb_blocks_def)
  then show ?thesis
    using assms(1,2) new magic items fin pad by (simp add: super_block_write_def Let_def)
qed

section \<open>Reading\<close>

text \<open>Reading through the bootstrap handle is reading the device, within the first extent.\<close>

lemma bootstrap_read_first:
  assumes "push_extent (first_extent i) (bootstrap_new oid) = Inr handle" "\<forall>n. length (new_buffer n) = n"
    "off + n \<le> min_super_block_size" "0 < n"
  shows "bootstrap_read dev new_buffer handle off n = dev (rstart (first_extent i) + off) n"
proof -
  have "handle = \<lparr>bh_object_id = oid, start_offset = 0, bh_extents = [first_extent i], bh_size = min_super_block_size\<rparr>"
    using assms(1)
    by (cases i) (auto simp: push_extent_def bootstrap_new_def bootstrap_new_with_start_offset_def first_extent_def range_length_def
        range_is_valid_def min_super_block_size_def u64_add_def u64_max_def u64_sub_def split: sum.splits if_splits)
  then show ?thesis
    using assms(2-4) by (cases i) (auto simp: bootstrap_read_def first_extent_def u64_sub_def min_absorb2 min_super_block_size_def bind_res_def split: sum.splits)
qed

lemma push_first_extent: "\<exists>handle. push_extent (first_extent i) (bootstrap_new oid) = Inr handle"
  by (cases i) (auto simp: push_extent_def bootstrap_new_def bootstrap_new_with_start_offset_def first_extent_def range_length_def
      range_is_valid_def min_super_block_size_def u64_add_def u64_sub_def u64_max_def)

lemma file_holds_first:
  assumes "push_extent (first_extent i) (bootstrap_new oid) = Inr handle" "\<forall>n. length (new_buffer n) = n"
    "length bytes + super_block_block_size \<le> min_super_block_size"
    "file_holds dev super_block_block_size (rstart (first_extent i)) bytes final"
  shows "file_holds (bootstrap_read dev new_buffer handle) super_block_block_size 0 bytes final"
proof -
  have "bootstrap_read dev new_buffer handle off super_block_block_size = dev (rstart (first_extent i) + off) super_block_block_size"
    if "off \<le> length bytes" for off
    using that assms(3) by (intro bootstrap_read_first [OF assms(1,2)]) (simp_all add: super_block_block_size_def)
  then show ?thesis using assms(4) by (simp add: file_holds_def)
qed

lemma read_header_ok:
  assumes "push_extent (first_extent i) (bootstrap_new (instance_object_id i)) = Inr handle" "2 < fuel"
    and onf: "on_file (bootstrap_read dev new_buffer handle) super_block_block_size 0 0 cs"
      "stops_after (bootstrap_read dev new_buffer handle) super_block_block_size 0 0 cs"
    and cs: "concat cs = super_block_magic @ hb @ rest" "\<forall>c \<in> set cs. length c = super_block_block_size - 8"
      "8 + length hb \<le> super_block_block_size - 8"
    and de: "\<And>more. deser_header (hb @ more) = Some (h, version, length hb)"
    and supported: "earliest \<le> version" "earliest \<le> cp_version (journal_checkpoint h)" "earliest \<le> earliest_version h"
  shows "\<exists>r n. read_header fuel dev new_buffer earliest deser_header i = Inr (h, handle, r) \<and>
    reader_on super_block_block_size 0 0 cs n (8 + length hb) r \<and> r_version r = version"
proof -
  let ?bs = super_block_block_size and ?cp = "\<lparr>file_offset = 0, cp_checksum = 0, cp_version = 0\<rparr>"
  let ?read = "bootstrap_read dev new_buffer handle"
  have m: "0 < ?bs - 8" by (simp add: super_block_block_size_def)
  have full: "full (?bs - 8) (concat cs) = cs" "full (?bs - 8) [] = []" "left (?bs - 8) [] = []"
    using full_blocks [OF m cs(2), of "[]"] full_blocks [OF m, of "[]" "[]"] m by simp_all
  have "writer_file_checkpoint (writer_state ?bs ?cp 0 []) = ?cp"
    by (simp add: writer_file_checkpoint_def writer_state_def full)
  with reader_new_at [OF block_size_ok_sb, of ?cp "concat cs" "[]" "concat cs" 0] full(1) m obtain r0 where
    r0: "reader_new ?bs ?cp = Inr r0" "reader_on ?bs 0 0 cs 0 0 r0" by auto
  from fill_buf_reads [OF onf r0(2) assms(2)] obtain r1 n1 where
    r1: "fill_buf fuel ?read r0 = Inr r1" "reader_on ?bs 0 0 cs n1 0 r1" "n1 = length cs \<or> ?bs - 8 \<le> n1 * (?bs - 8)" by auto
  have at: "reader_at ?bs 0 0 (take n1 cs) 0 r1" and n1: "n1 \<le> length cs" using r1(2) by (simp_all add: reader_on_def)
  have "cs \<noteq> []" using cs(1) by (auto simp: super_block_magic_def)
  then have "1 \<le> n1" using r1(3) m by (cases n1) (auto simp: Suc_le_eq)
  have len: "length (concat (take n1 cs)) = n1 * (?bs - 8)"
    using length_concat_blocks [of "take n1 cs" "?bs - 8"] cs(2) n1 by (auto dest: in_set_takeD)
  have room: "8 + length hb \<le> n1 * (?bs - 8)" using \<open>1 \<le> n1\<close> cs(3) le_trans [OF cs(3)] mult_le_mono1 [of 1 n1 "?bs - 8"] by simp
  have "concat cs = concat (take n1 cs) @ concat (drop n1 cs)" by (metis append_take_drop_id concat_append)
  moreover have "reader_buffer r1 = concat (take n1 cs)" using at by (simp add: reader_at_def)
  ultimately have "(super_block_magic @ hb) @ rest = reader_buffer r1 @ concat (drop n1 cs)" "length (super_block_magic @ hb) \<le> length (reader_buffer r1)"
    using cs(1) len room by (simp_all add: super_block_magic_def)
  then obtain more where buf: "reader_buffer r1 = super_block_magic @ hb @ more"
    by (metis append.assoc append_eq_append_conv_if append_take_drop_id)
  then have check: "check_header earliest deser_header (reader_buffer r1) = Inr (h, version, 8 + length hb)"
    using de supported by (simp add: check_header_def super_block_magic_def)
  from consume_at [OF at cs(3)] room n1 obtain r2 where
    r2: "consume (8 + length hb) r1 = Inr r2" "reader_at ?bs 0 0 (take n1 cs) (8 + length hb) r2" "found_reset r2 = found_reset r1"
      "bad_checksum r2 = bad_checksum r1" by (auto simp: min_absorb2)
  have "reader_on ?bs 0 0 cs n1 (8 + length hb) (r2\<lparr>r_version := version\<rparr>)"
    using r1(2) r2(2-4) by (simp add: reader_on_def reader_at_def reader_buffer_def)
  then show ?thesis
    using assms(1) r0(1) r1(1) check r2(1) by (auto simp: read_header_def)
qed

lemma records_delivered:
  assumes onf: "on_file (bootstrap_read dev new_buffer handle) bs base s cs" "stops_after (bootstrap_read dev new_buffer handle) bs base s cs"
  shows "\<lbrakk>reader_on bs base s cs n pos r; length items + 2 < fuel;
      records_ok bs (r_version r) ser deser (map SbObjectItem items @ [SbEnd]);
      drop pos (concat cs) = concat (map ser (map SbObjectItem items @ [SbEnd])) @ rest\<rbrakk> \<Longrightarrow>
    delivers fuel dev new_buffer deser handle r items"
proof (induction items arbitrary: fuel n pos r)
  case Nil
  then obtain k where k: "fuel = Suc k" "2 < Suc k" by (cases fuel) auto
  have e: "ser SbEnd \<noteq> []" "length (ser SbEnd) \<le> bs - 8" "deser (r_version r) (ser SbEnd @ more) = Inr (SbEnd, length (ser SbEnd))" for more
    using Nil.prems(3) by (simp_all add: records_ok_def)
  have "drop pos (concat cs) = ser SbEnd @ rest" using Nil.prems(4) by simp
  from deserialize_reads [where deser = deser, OF onf Nil.prems(1) k(2) this e(2,1,3)] k(1) show ?case by auto
next
  case (Cons i items)
  then obtain k where k: "fuel = Suc k" "2 < Suc k" by (cases fuel) auto
  let ?x = "SbObjectItem i"
  have e: "ser ?x \<noteq> []" "length (ser ?x) \<le> bs - 8" "deser (r_version r) (ser ?x @ more) = Inr (?x, length (ser ?x))" for more
    using Cons.prems(3) by (simp_all add: records_ok_def)
  have p: "drop pos (concat cs) = ser ?x @ concat (map ser (map SbObjectItem items @ [SbEnd])) @ rest" using Cons.prems(4) by simp
  from deserialize_reads [where deser = deser, OF onf Cons.prems(1) k(2) p e(2,1,3)] obtain r' n' where
    r': "deserialize (Suc k) (bootstrap_read dev new_buffer handle) deser r = Inr (GotRecord ?x, r')"
    "reader_on bs base s cs n' (pos + length (ser ?x)) r'" "r_version r' = r_version r" by blast
  have "drop (pos + length (ser ?x)) (concat cs) = drop (length (ser ?x)) (drop pos (concat cs))" by (simp add: add.commute)
  also have "\<dots> = concat (map ser (map SbObjectItem items @ [SbEnd])) @ rest" unfolding p by simp
  finally have "delivers k dev new_buffer deser handle r' items"
    using Cons.IH [OF r'(2)] Cons.prems(2,3) r'(3) k(1) by (simp add: records_ok_def)
  then show ?case using r'(1) k(1) by simp
qed

section \<open>Round trip\<close>

lemma stored_checksum:
  assumes "cs \<noteq> []"
  shows "read_u64 (drop (length (enc_blocks s cs) - 8) (enc_blocks s cs)) = chain s cs"
proof -
  obtain xs c where "cs = xs @ [c]" using assms by (cases cs rule: rev_cases) auto
  then show ?thesis by (simp add: enc_blocks_append chain_append)
qed

lemma sb_blocks_small:
  assumes "length p < 56 * (super_block_block_size - 8)"
  shows "length (enc_blocks s (sb_blocks p)) + super_block_block_size \<le> min_super_block_size"
proof -
  let ?m = "super_block_block_size - 8"
  have m: "?m = 8184" "super_block_block_size = 8192" by (simp_all add: super_block_block_size_def)
  have "length (sb_blocks p) * ?m = length (sb_padded p)"
    using length_concat_blocks [OF sb_blocks_concat(2)] sb_blocks_concat(1) by metis
  also have "\<dots> < 57 * ?m"
  proof -
    have "(?m - length p mod ?m) mod ?m < ?m" by (simp add: m)
    then show ?thesis using assms unfolding sb_padded_def length_append length_replicate by linarith
  qed
  finally have "length (sb_blocks p) \<le> 56" by (simp add: m)
  then show ?thesis
    using length_enc_blocks [OF sb_blocks_concat(2), of s p] by (simp add: m min_super_block_size_def)
qed

lemma magic_length: "8 = length super_block_magic"
  by (simp add: super_block_magic_def)

text \<open>
  C12: a super block that was written is read back. Writing it for a root parent store succeeds and gives the bytes for
  the start of its instance. When the device returns these bytes there, and a block after them that is not part of
  their chain of checksums, reading the instance returns the header that was written and a store with the
  meaning the root parent store had at every point, that counts the objects there are and will hand out no
  object id in use again. The serialisers of header and records are assumed to be self-delimiting; the
  super block is at most 56 blocks, so that it lies in the first extent of its file; and the layers of the
  store are well formed and have no tombstones of objects.
\<close>

theorem super_block_roundtrip:
  assumes layers: "\<forall>l \<in> set (layer_set (os_tree root_parent)). layer_ok (object_sem bs) l"
      "sum_list (map (layer_weight (object_sem bs)) (layer_set (os_tree root_parent))) + 1 < fuel"
      "os_store_object_id root_parent = sb_root_parent_store_object_id h" "super_block_items fuel root_parent = Inr items"
    and size: "length (sb_payload ser_header ser h items) < 56 * (super_block_block_size - 8)" "super_block_block_size \<le> fuel"
      "8 + length (ser_header h) \<le> super_block_block_size - 8"
    and records: "records_ok super_block_block_size version ser deser (map SbObjectItem items @ [SbEnd])"
    and header: "\<forall>more. deser_header (ser_header h @ more) = Some (h, version, length (ser_header h))"
      "earliest \<le> version" "earliest \<le> cp_version (journal_checkpoint h)" "earliest \<le> earliest_version h"
    and fuel: "length items + 2 < fuel'" "length items \<le> u64_max"
  shows "\<exists>bytes. super_block_write fuel version ser_header ser preallocate h root_parent = Inr (0, bytes) \<and>
    (\<forall>dev new_buffer i. (\<forall>n. length (new_buffer n) = n) \<and>
        file_holds dev super_block_block_size (rstart (first_extent i)) bytes (read_u64 (drop (length bytes - 8) bytes)) \<longrightarrow>
      (\<exists>store sinfo. super_block_read fuel' dev new_buffer earliest deser_header deser block i = Inr (h, i, store) \<and>
        os_store_info store = Info sinfo \<and>
        (\<forall>p. layers_at (object_sem bs) (layer_set (os_tree store)) p = layers_at (object_sem bs) (layer_set (os_tree root_parent)) p) \<and>
        object_count sinfo = length (filter is_object items) \<and>
        (\<forall>i \<in> set items. is_object i \<longrightarrow> object_id (key i) \<le> lid_id (os_last_object_id store))))"
proof -
  let ?p = "sb_payload ser_header ser h items" and ?bs = super_block_block_size
  let ?cs = "sb_blocks ?p"
  have ne: "?cs \<noteq> []" by (rule sb_blocks_ne) (simp add: sb_payload_def super_block_magic_def)
  have "\<forall>r \<in> set (map SbObjectItem items @ [SbEnd]). length (ser r) < fuel" "length (ser_header h) < fuel"
    using records size(2,3) by (auto simp: records_ok_def super_block_block_size_def)
  then have written: "super_block_write fuel version ser_header ser preallocate h root_parent = Inr (0, enc_blocks 0 ?cs)"
    using super_block_write_bytes [OF layers(3,4) size(1,2)] by blast
  have "\<exists>store sinfo. super_block_read fuel' dev new_buffer earliest deser_header deser block i = Inr (h, i, store) \<and>
      os_store_info store = Info sinfo \<and>
      (\<forall>p. layers_at (object_sem bs) (layer_set (os_tree store)) p = layers_at (object_sem bs) (layer_set (os_tree root_parent)) p) \<and>
      object_count sinfo = length (filter is_object items) \<and>
      (\<forall>i \<in> set items. is_object i \<longrightarrow> object_id (key i) \<le> lid_id (os_last_object_id store))"
    if dev: "\<forall>n. length (new_buffer n) = n" "file_holds dev ?bs (rstart (first_extent i)) (enc_blocks 0 ?cs) (chain 0 ?cs)" for dev new_buffer i
  proof -
    obtain handle where handle: "push_extent (first_extent i) (bootstrap_new (instance_object_id i)) = Inr handle"
      using push_first_extent by blast
    note onf = file_holds_blocks [OF block_size_ok_sb sb_blocks_concat(2) file_holds_first [OF handle dev(1) sb_blocks_small [OF size(1)] dev(2)]]
    obtain pad where "sb_padded ?p = ?p @ pad" by (simp add: sb_padded_def)
    then have payload: "concat ?cs = super_block_magic @ ser_header h @ concat (map ser (map SbObjectItem items @ [SbEnd])) @ pad"
      unfolding sb_blocks_concat(1) by (simp add: sb_payload_def)
    have "2 < fuel'" using fuel(1) by simp
    from read_header_ok [where deser_header = deser_header, OF handle this onf payload sb_blocks_concat(2) size(3) spec [OF header(1)] header(2-4)] obtain r n where
      r: "read_header fuel' dev new_buffer earliest deser_header i = Inr (h, handle, r)"
      "reader_on ?bs 0 0 ?cs n (8 + length (ser_header h)) r" "r_version r = version" by blast
    have "drop (8 + length (ser_header h)) (concat ?cs) = concat (map ser (map SbObjectItem items @ [SbEnd])) @ pad"
      unfolding payload by (simp add: magic_length flip: drop_drop)
    with records_delivered [OF onf r(2) fuel(1)] records r(3)
    have del: "delivers fuel' dev new_buffer deser handle r items" by blast
    obtain store where store: "set_graveyard_directory_object_id (sb_root_parent_graveyard_directory_object_id h)
        (new_root_parent block (sb_root_parent_store_object_id h)) = Inr store"
      by (simp add: set_graveyard_directory_object_id_def new_root_parent_def sri_info_def store_info_default_def)
    have "length items < fuel'" using fuel(1) by simp
    from read_items_rebuilds [OF layers(1,2,4) del this fuel(2) store] r(1) store show ?thesis
      by (auto simp: super_block_read_def)
  qed
  then show ?thesis using written stored_checksum [OF ne] by (intro exI conjI) auto
qed

definition example_object :: "encryption_keys object_item" where
  "example_object = \<lparr>key = object_key_object 9,
     value = VObject (File 1 0) \<lparr>creation_time = \<lparr>secs = 0, nanos = 0\<rparr>, modification_time = \<lparr>secs = 0, nanos = 0\<rparr>\<rparr>, sequence = 7\<rparr>"

definition example_root_parent :: object_store where
  "example_root_parent = (new_root_parent 512 3)\<lparr>os_tree := \<lparr>mutable_layer = [example_object], immutable_layers = []\<rparr>\<rparr>"


lemma example_items: "super_block_items (Suc (Suc n)) example_root_parent = Inr [example_object]"
  by (simp add: super_block_items_def example_root_parent_def layer_set_def merger_seek_def merger_iterator_seek_def merger_new_def enumerate_eq_zip
      push_iterators.simps needs_more_iterators_def mli_new_def layer_seek_def outside_bound_def set_item_from_iter_def is_some_def heap_push_def
      heap_pop_def merger_get_def mli_item_def merger_advance_def next_key_and_bound_def take_iterator_def mli_advance_def)

definition example_ser :: "super_block_record \<Rightarrow> u8 list" where
  "example_ser r = (case r of SbObjectItem _ \<Rightarrow> [1] | _ \<Rightarrow> [0])"

definition example_deser :: "super_block_record deserializer" where
  "example_deser version bytes = Inr (if hd bytes = 1 then SbObjectItem example_object else SbEnd, 1)"

theorem super_block_roundtrip_witness:
  "\<exists>bytes dev store sinfo. super_block_write 10000 1 (\<lambda>_. [7]) example_ser (\<lambda>r. Inr [r]) example_header example_root_parent =
      Inr (0, bytes) \<and>
    super_block_read 5 dev (\<lambda>n. replicate n 0) 0 (\<lambda>_. Some (example_header, 1, 1)) example_deser 512 InstanceB =
      Inr (example_header, InstanceB, store) \<and>
    os_store_info store = Info sinfo \<and> object_count sinfo = 1 \<and> 9 \<le> lid_id (os_last_object_id store)"
proof -
  let ?h = example_header
  have ok: "\<forall>l \<in> set (layer_set (os_tree example_root_parent)). layer_ok (object_sem 512) l"
    "sum_list (map (layer_weight (object_sem 512)) (layer_set (os_tree example_root_parent))) + 1 < 10000"
    "os_store_object_id example_root_parent = sb_root_parent_store_object_id ?h"
    by (simp_all add: example_header_def super_block_header_new_def example_root_parent_def new_root_parent_def layer_set_def example_object_def object_ok_def object_key_object_def is_tombstone_def
        object_weight_def)
  have "Suc (Suc 9998) = (10000 :: nat)" by simp
  with example_items [of 9998] have items: "super_block_items 10000 example_root_parent = Inr [example_object]" by metis
  have size: "length (sb_payload (\<lambda>_. [7]) example_ser ?h [example_object]) < 56 * (super_block_block_size - 8)"
    "super_block_block_size \<le> 10000" "8 + length ((\<lambda>_. [7 :: u8]) ?h) \<le> super_block_block_size - 8"
    by (simp_all add: sb_payload_def super_block_magic_def example_ser_def super_block_block_size_def)
  have records: "records_ok super_block_block_size 1 example_ser example_deser (map SbObjectItem [example_object] @ [SbEnd])"
    by (simp add: records_ok_def example_ser_def example_deser_def super_block_block_size_def)
  have obj: "is_object example_object" "object_id (key example_object) = 9"
    by (simp_all add: is_object_def example_object_def object_key_object_def)
  have "length [example_object] + 2 < 5" "length [example_object] \<le> u64_max" by (simp_all add: u64_max_def)
  from super_block_roundtrip [where deser_header = "\<lambda>_. Some (?h, 1, 1)" and earliest = 0 and preallocate = "\<lambda>r. Inr [r]" and block = 512,
      OF ok items size records _ _ _ _ this] obtain bytes where bytes:
    "super_block_write 10000 1 (\<lambda>_. [7]) example_ser (\<lambda>r. Inr [r]) ?h example_root_parent = Inr (0, bytes)"
    "\<forall>dev new_buffer i. (\<forall>n. length (new_buffer n) = n) \<and>
        file_holds dev super_block_block_size (rstart (first_extent i)) bytes (read_u64 (drop (length bytes - 8) bytes)) \<longrightarrow>
      (\<exists>store sinfo. super_block_read 5 dev new_buffer 0 (\<lambda>_. Some (?h, 1, 1)) example_deser 512 i = Inr (?h, i, store) \<and>
        os_store_info store = Info sinfo \<and>
        (\<forall>p. layers_at (object_sem 512) (layer_set (os_tree store)) p = layers_at (object_sem 512) (layer_set (os_tree example_root_parent)) p) \<and>
        object_count sinfo = length (filter is_object [example_object]) \<and>
        (\<forall>i \<in> set [example_object]. is_object i \<longrightarrow> object_id (key i) \<le> lid_id (os_last_object_id store)))"
    by auto
  obtain dev where "file_holds dev super_block_block_size (rstart (first_extent InstanceB)) bytes (read_u64 (drop (length bytes - 8) bytes))"
    using file_holds_exists [of super_block_block_size "rstart (first_extent InstanceB)" bytes "read_u64 (drop (length bytes - 8) bytes)"]
    by (auto simp: super_block_block_size_def)
  with bytes(2) [rule_format, of "\<lambda>n. replicate n 0" dev InstanceB] obtain store sinfo where
    "super_block_read 5 dev (\<lambda>n. replicate n 0) 0 (\<lambda>_. Some (?h, 1, 1)) example_deser 512 InstanceB = Inr (?h, InstanceB, store)"
    "os_store_info store = Info sinfo" "object_count sinfo = 1" "9 \<le> lid_id (os_last_object_id store)"
    using obj by auto
  with bytes(1) show ?thesis by blast
qed

end
