(* ===== verification/Spec2Isabelle.thy ===== *)
theory Spec2Isabelle
  imports Fxfs_FF1 Allocator_Flush Object_Merge Journal_Safety Checksum_List Lock_Manager_Correct
    Object_Ids Object_Trim Encrypted_Mutations Store_Replay Tree_Flush Journal_Replay Data_Buffer_Write
    Persistent_Layer_Seek Graveyard_Volume Super_Block_Roundtrip
begin

text \<open>
  Fxfs is a log-structured file system: every change is a transaction of mutations that is written to a
  journal and applied to in-memory trees, which are flushed to layer files from time to time. This
  development models its core, the Rust sources under \<^verbatim>\<open>src/src\<close>, and proves what makes it correct.

  \<^bold>\<open>The parts of the program and their theories.\<close>

  \<^item> Prelude. \<open>Fxfs_Prelude\<close> has the result type \<open>'a res\<close> (errors of \<^verbatim>\<open>errors.rs\<close>, I/O errors and panics are
    values), 64-bit arithmetic as in a build with overflow checks (\<^term>\<open>u64_add\<close> and its like panic), orderings
    and ranges. \<open>Fxfs_Arith\<close> has \<^verbatim>\<open>round.rs\<close> and \<^verbatim>\<open>range.rs\<close>, \<open>Btree_Map\<close> the sorted maps of the standard library.
  \<^item> Bytes. \<open>Fxfs_Checksum\<close> is \<^verbatim>\<open>checksum.rs\<close> (Fletcher-64 on words); \<open>Fxfs_FF1\<close> is \<^verbatim>\<open>ff1.rs\<close>, with AES as a
    parameter.
  \<^item> The log-structured merge tree, \<^verbatim>\<open>lsm_tree.rs\<close> and \<^verbatim>\<open>lsm_tree/\<close>. \<open>Lsm_Types\<close> has items, keys and iterators,
    \<open>Lsm_Merge\<close> the merger with its heap and the in-place \<^verbatim>\<open>merge_into\<close>, \<open>Lsm_Tree\<close> the tree. A layer is the list
    of its items. \<open>Lsm_Merge_Laws\<close> states, as a locale, what a merge function has to satisfy for a
    meaning of items; \<open>Lsm_Merge_Correct\<close>, \<open>Lsm_Tree_Correct\<close> and \<open>Lsm_Merge_Into\<close> prove, inside that
    locale, that merging yields the newest meaning at every point. \<open>Lsm_Seek\<close> extends the locale and proves that
    an iterator that seeks to a key, which starts the layers only when they are needed, yields the same
    items from there on.
  \<^item> The two instances of it. \<open>Alloc_Merge\<close> is \<^verbatim>\<open>allocator/merge.rs\<close> with the coalescing iterator;
    \<open>Extent_Record\<close>, \<open>Object_Record\<close> and \<open>Object_Merge\<close> are the records of an object store and \<^verbatim>\<open>merge.rs\<close>. Both
    interpret the locale, and \<open>Object_Seek\<close> interprets the one of seeks for lookups in an object store.
  \<^item> The allocator, \<^verbatim>\<open>allocator.rs\<close>. \<open>Reservation\<close> has reservations and holds, \<open>Allocator\<close> the state and the
    operations, \<open>Allocator_Correct\<close> and \<open>Allocator_Flush\<close> the theorems.
  \<^item> The journal's stream, \<^verbatim>\<open>journal/writer.rs\<close> and \<^verbatim>\<open>journal/reader.rs\<close>, in \<open>Journal_Stream\<close>, with
    \<open>Journal_Correct\<close>, \<open>Journal_Reader_Correct\<close> and \<open>Journal_Safety\<close>; \<open>Checksum_List\<close> is \<^verbatim>\<open>journal/checksum_list.rs\<close>.
  \<^item> Transactions, \<^verbatim>\<open>transaction.rs\<close>. \<open>Lock_Manager\<close> has the locks, their wakers and every operation on them,
    \<open>Lock_Manager_Correct\<close> the step relation of concurrent tasks; \<open>Transaction\<close> has the mutations and the
    operations that collect them.
  \<^item> Object stores, \<^verbatim>\<open>object_store.rs\<close>, \<^verbatim>\<open>flush.rs\<close>, \<^verbatim>\<open>tree.rs\<close>, in \<open>Object_Store\<close>, \<open>Tree_Flush\<close> and \<open>Object_Trim\<close>
    (trimming, and committing to one store and the allocator); the theorems are in \<open>Object_Ids\<close>,
    \<open>Encrypted_Mutations\<close>, \<open>Store_Replay\<close>, \<open>Tree_Flush\<close> and \<open>Object_Trim\<close>.
  \<^item> The object manager, \<^verbatim>\<open>object_manager.rs\<close>, in \<open>Object_Manager\<close>: which object a mutation goes to, the journal
    checkpoints that say what is not flushed, and the reservation of metadata space; \<open>Object_Manager_Correct\<close>
    has the theorems.
  \<^item> Super blocks, \<^verbatim>\<open>journal/super_block.rs\<close> and \<^verbatim>\<open>object_handle/bootstrap.rs\<close>, in \<open>Super_Block\<close> with
    \<open>Super_Block_Correct\<close>; \<open>Super_Block_Roundtrip\<close> puts the writer and the reader together, byte by byte.
  \<^item> The journal, \<^verbatim>\<open>journal.rs\<close>, in \<open>Journal\<close>: replay, commit, sync and compaction over all of the above;
    \<open>Journal_Replay\<close> shows what a mount replays.
  \<^item> File handles, \<^verbatim>\<open>object_store/store_object_handle.rs\<close>. \<open>Store_Handle\<close> has the handle of a file, the XTS ciphers,
    reading and writing in a transaction; \<open>Handle_Ops\<close> shrinking, growing, writing in place, preallocating, the
    operations that commit, and the streaming writers. \<open>Handle_Read\<close> says what the contents of a file are, from the
    extents in the tree and the bytes on the device, and proves that a read returns them.
  \<^item> Directories, \<^verbatim>\<open>object_store/directory.rs\<close>, in \<open>Directory_Ops\<close>. \<open>Record_Store\<close> takes the records of a store as a map, and
    shows that a lookup reads it and that committing a transaction updates it; \<open>Directory_Correct\<close> proves the
    directories on top of it. \<open>Graveyard_Volume\<close> has \<^verbatim>\<open>graveyard.rs\<close> and \<^verbatim>\<open>volume.rs\<close>.
  \<^item> Layer files, \<^verbatim>\<open>lsm_tree/simple_persistent_layer.rs\<close>, in \<open>Persistent_Layer\<close>: the writer that packs items into blocks, the
    iterator over the blocks and the binary search. \<open>Persistent_Layer_Correct\<close> states as locales what it relies on in the
    streaming writers, whose writes may fail, and proves what a file holds; the locales are interpreted for the handle of a
    file, for a log of writes over any way to put the bytes and for the object of the tests; \<open>Persistent_Layer_Seek\<close> proves that searching the file is searching
    the list of its items, which is how the trees above take their layers.
  \<^item> The data buffer, \<^verbatim>\<open>data_buffer.rs\<close>, the cache of a file's pages. \<open>Stack_List\<close> has the linked list of reads
    in flight over a heap of nodes, \<open>Data_Buffer\<close> the pages, reads and writes, cut where the code drops its
    lock; \<open>Data_Buffer_Correct\<close>, \<open>Data_Buffer_Read\<close> and \<open>Data_Buffer_Write\<close> have the theorems.

  \<^bold>\<open>What the theorems show.\<close> Allocating claims a range that was free and leaves all else; deallocated space
  is not reused before the device was flushed; merging and compacting the allocator's and the object
  store's layers keeps their meaning, merging the tombstone of an object into the mutable layer takes out the
  object's other records, and a lookup finds the newest record. Reading a file returns the
  decrypted bytes its newest extents map, and zeroes where there are none. A layer file that is written,
  opened and searched yields the items that were written. Listing a directory gives what lookups find, a move
  changes the two names it mentions, and a mount queues what is in the graveyard. What a journal writer wrote, a reader reads back, across
  restarts, and a reader accepts only blocks that verify; verifying checksums returns the greatest
  offset that is safe to replay to. Locks are exclusive, released ones wake the next waiter, and locks
  taken in order do not deadlock. Replaying a journal over the files of the last flush rebuilds an object
  store, and encrypted mutations decrypt to what was written, across key changes. Flushing a tree or the
  allocator keeps what it says. A mount reads the
  transactions that were committed and not discarded, applies to each object the mutations its files do not have,
  and leaves a Discard record that makes the next mount agree; a crash while a super block is
  written leaves one that can be loaded, and one that was written is read back as the root parent store it describes; commits keep the metadata reservation balanced. A data buffer
  returns and changes the bytes of the file, in any interleaving of its critical sections in which the file grows only
  while the bytes past its end are clear.
  A few theorems show the opposite: \<open>reset_checkpoint_unreadable\<close>,
  \<open>unlock_repeats_object_id\<close>, \<open>alloc_flush_resurrects_owner\<close>, \<open>page_start_write_loses_bytes\<close>,
  \<open>sparse_write_loses_tail\<close>, \<open>truncated_bytes_return\<close>, \<open>child_of_new_dir_loses_count\<close> and \<open>replace_child_onto_itself\<close> prove behaviour that the code does not intend.

  \<^bold>\<open>Tombstones.\<close> The meaning of an object store's layers (\<^term>\<open>object_sem\<close>) is that of its records and extents
  without tombstones of objects, which is what \<^term>\<open>object_ok\<close> asks of the items; theorems that rest on it say so.
  A tombstone ends an object, whose older records mean nothing any more and are dropped by a merge.

  \<^bold>\<open>Fuel.\<close> Loops over iterators whose end depends on the data (the merger, the compaction, the allocator's
  search) take fuel. The theorems state how much is enough: more than the weight of the layers
  (\<^term>\<open>layer_weight\<close>, \<^term>\<open>alloc_fuel\<close>, \<^term>\<open>seek_fuel\<close>, \<^term>\<open>find_fuel\<close>), which bounds the items a merge can emit, and conclude that the run
  succeeds.

  \<^bold>\<open>Not modelled.\<close> The files that layers, store info and the super block live in are given by their contents. The device, the serialisation format, AES and ChaCha20 are third-party
  code and are parameters. Threads are modelled where they meet, in the lock manager; the mutexes of the
  other components make their operations atomic. The write-back cache
  rests on an interval tree of a third-party package. Tracing, metrics, the FUSE and Fuchsia bindings, the
  consistency checker and the command line are not modelled.
\<close>

end
